(* ===== verification/Rmdb_Prelude.thy ===== *)
theory Rmdb_Prelude
  imports Main "HOL-Library.Word"
begin

text \<open>
  Shared vocabulary of the RMDB development: the integer types and constants of
  \<^verbatim>\<open>src/src/common/config.h\<close>, the identifiers \<^verbatim>\<open>Rid\<close> and \<^verbatim>\<open>PageId\<close>, the exceptions of
  \<^verbatim>\<open>src/src/errors.h\<close> as values, the collections of rewrite rules the component proofs use,
  and generic lemmas on lists and maps.

  C++ \<^verbatim>\<open>int\<close>, \<^verbatim>\<open>page_id_t\<close>, \<^verbatim>\<open>txn_id_t\<close>, \<^verbatim>\<open>timestamp_t\<close> and \<^verbatim>\<open>lsn_t\<close> are all 32-bit signed.
  They are carried as \<^typ>\<open>int\<close>; where a value crosses a byte boundary (serialisation) its
  range is a hypothesis (\<open>int32\<close>), and \<^verbatim>\<open>char\<close> buffers are lists of 8-bit words.
\<close>

subsection \<open>Types\<close>

type_synonym byte = "8 word"
type_synonym bytes = "byte list"
type_synonym frame_id = nat
type_synonym txn_id = int
type_synonym timestamp = int
type_synonym lsn = int
type_synonym file_desc = int

record Rid =
  rid_page_no :: int
  rid_slot_no :: int

record PageId =
  pid_fd :: int
  pid_page_no :: int

definition INVALID_PAGE_ID :: int where "INVALID_PAGE_ID = -1"
definition INVALID_TXN_ID :: int where "INVALID_TXN_ID = -1"
definition INVALID_TIMESTAMP :: int where "INVALID_TIMESTAMP = -1"
definition INVALID_LSN :: int where "INVALID_LSN = -1"
definition PAGE_SIZE :: nat where "PAGE_SIZE = 4096"
definition INT32_MAX :: int where "INT32_MAX = 2147483647"

text \<open>The range of a 32-bit signed integer.\<close>

definition int32 :: "int \<Rightarrow> bool" where
  "int32 x \<longleftrightarrow> - (2 ^ 31) \<le> x \<and> x < 2 ^ 31"

subsection \<open>Errors as values\<close>

text \<open>
  The exceptions the modelled code throws. \<open>RuntimeError\<close> stands for \<^verbatim>\<open>std::runtime_error\<close>,
  \<open>OutOfRangeError\<close> for \<^verbatim>\<open>std::out_of_range\<close>, \<open>AssertionFailure\<close> for a failed \<^verbatim>\<open>assert\<close>.
\<close>

datatype AbortReason = LOCK_ON_SHIRINKING | UPGRADE_CONFLICT | DEADLOCK_PREVENTION
  | WRITE_WRITE_CONFLICT | READ_WRITE_CONFLICT | RECORD_NOT_FOUND

datatype db_error =
    InternalError string
  | UnixError
  | FileOpenError string
  | FileNotOpenError int
  | FileExistsError string
  | FileNotFoundError string
  | RecordNotFoundError int int
  | InvalidRecordSizeError int
  | IndexEntryNotFoundError
  | InvalidColLengthError int
  | DatabaseNotFoundError string
  | DatabaseExistsError string
  | DatabaseNotOpenError string
  | TableNotFoundError string
  | TableExistsError string
  | ColumnNotFoundError string
  | AmbiguousColumnError string
  | IndexNotFoundError string "string list"
  | IndexExistsError string "string list"
  | NonUniqueIndexError string "string list"
  | InvalidValueCountError
  | StringOverflowError
  | IncompatibleTypeError string string
  | UniqueCheckError
  | TransactionAbortException txn_id AbortReason
  | OutOfRangeError
  | RuntimeError string
  | AssertionFailure

text \<open>A call that may throw returns the exception or its result, and the state in both cases.\<close>

type_synonym ('s, 'a) outcome = "(db_error + 'a) \<times> 's"

subsection \<open>Collections of rewrite rules\<close>

named_theorems byte_simps \<open>reads and writes on byte buffers\<close>
named_theorems const_defs \<open>the constants of config.h\<close>

declare INVALID_PAGE_ID_def [const_defs] INVALID_TXN_ID_def [const_defs]
  INVALID_TIMESTAMP_def [const_defs] INVALID_LSN_def [const_defs]
  INT32_MAX_def [const_defs]

subsection \<open>Generic lemmas\<close>

lemma distinct_remove1_set: "distinct xs \<Longrightarrow> set (remove1 x xs) = set xs - {x}"
  by (rule set_remove1_eq)

lemma length_filter_list_update:
  assumes "i < length xs"
  shows "length (filter P (xs[i := y])) + (if P (xs ! i) then 1 else 0)
       = length (filter P xs) + (if P y then 1 else 0)"
  using assms
proof (induction xs arbitrary: i)
  case Nil
  then show ?case by simp
next
  case (Cons x xs)
  then show ?case by (cases i) auto
qed

lemma card_Collect_list_update:
  assumes "i < length xs"
  shows "card {j. j < length xs \<and> P (xs[i := y] ! j)} + (if P (xs ! i) then 1 else 0)
       = card {j. j < length xs \<and> P (xs ! j)} + (if P y then 1 else 0)"
  using length_filter_list_update [OF assms, of P y]
  by (simp add: length_filter_conv_card)

lemma inj_on_map_upd:
  assumes "\<And>k l v. m k = Some v \<Longrightarrow> m l = Some v \<Longrightarrow> k = l"
    and "\<And>k. m k \<noteq> Some w"
    and "(m(a \<mapsto> w)) k = Some v" and "(m(a \<mapsto> w)) l = Some v"
  shows "k = l"
  using assms by (auto split: if_splits)

text \<open>A field that an update of one element keeps is the same in every element.\<close>

lemma nth_list_update_field: "g y = g (xs ! i) \<Longrightarrow> g (xs[i := y] ! j) = g (xs ! j)"
  by (cases "i < length xs") (auto simp: nth_list_update list_update_beyond)

lemma count_list_remove1:
  "x \<in> set xs \<Longrightarrow> count_list (remove1 x xs) y = count_list xs y - (if y = x then 1 else 0)"
  by (induction xs) auto

end
