(* ===== verification/Bytes.thy ===== *)
theory Bytes
  imports Rmdb_Prelude
begin

text \<open>
  Byte buffers. \<^verbatim>\<open>memcpy(dest + off, src, n)\<close> is \<open>write_bytes\<close>, a read through
  \<^verbatim>\<open>*reinterpret_cast<const int*>(src + off)\<close> is \<open>read_i32\<close>; \<^verbatim>\<open>int\<close> is 4 bytes, \<^verbatim>\<open>size_t\<close> is
  8 bytes, both little-endian as on the platforms the Makefiles target. The lemmas say that a
  read after a write returns the written bytes where the ranges coincide and the old bytes
  where they are disjoint; they are collected in \<open>byte_simps\<close>.
\<close>

subsection \<open>Ranges of a buffer\<close>

definition read_bytes :: "nat \<Rightarrow> nat \<Rightarrow> bytes \<Rightarrow> bytes" where
  "read_bytes off n bs = take n (drop off bs)"

definition write_bytes :: "nat \<Rightarrow> bytes \<Rightarrow> bytes \<Rightarrow> bytes" where
  "write_bytes off xs bs = take off bs @ xs @ drop (off + length xs) bs"

lemma length_write_bytes [simp]:
  "off + length xs \<le> length bs \<Longrightarrow> length (write_bytes off xs bs) = length bs"
  by (simp add: write_bytes_def)

lemma length_read_bytes [simp]:
  "off + n \<le> length bs \<Longrightarrow> length (read_bytes off n bs) = n"
  by (simp add: read_bytes_def)

lemma read_write_same [byte_simps]:
  "off \<le> length bs \<Longrightarrow> n = length xs \<Longrightarrow> read_bytes off n (write_bytes off xs bs) = xs"
  by (simp add: read_bytes_def write_bytes_def)

lemma read_write_before [byte_simps]:
  "off + n \<le> off' \<Longrightarrow> off' \<le> length bs \<Longrightarrow>
   read_bytes off n (write_bytes off' xs bs) = read_bytes off n bs"
  by (simp add: read_bytes_def write_bytes_def take_drop add.commute)

lemma read_write_after [byte_simps]:
  assumes "off' + length xs \<le> off" and "off' \<le> length bs"
  shows "read_bytes off n (write_bytes off' xs bs) = read_bytes off n bs"
proof -
  have "drop off (write_bytes off' xs bs) = drop off bs"
    using assms by (simp add: write_bytes_def)
  then show ?thesis by (simp add: read_bytes_def)
qed

lemma write_read_id:
  "off + n \<le> length bs \<Longrightarrow> write_bytes off (read_bytes off n bs) bs = bs"
  by (simp add: write_bytes_def read_bytes_def) (metis append_take_drop_id drop_drop add.commute)

lemma read_bytes_nth:
  "i < n \<Longrightarrow> off + i < length bs \<Longrightarrow> read_bytes off n bs ! i = bs ! (off + i)"
  by (simp add: read_bytes_def)

lemma read_bytes_append_skip [byte_simps]:
  "length xs \<le> off \<Longrightarrow> read_bytes off n (xs @ ys) = read_bytes (off - length xs) n ys"
  by (simp add: read_bytes_def)

lemma read_bytes_append_hit [byte_simps]:
  "n = length xs \<Longrightarrow> read_bytes 0 n (xs @ ys) = xs"
  by (simp add: read_bytes_def)

lemma read_bytes_append_within:
  "off + n \<le> length xs \<Longrightarrow> read_bytes off n (xs @ ys) = read_bytes off n xs"
  by (simp add: read_bytes_def)

lemma read_bytes_drop:
  "read_bytes off n (drop k bs) = read_bytes (k + off) n bs"
  by (simp add: read_bytes_def add.commute)

subsection \<open>Little-endian integers\<close>

fun le_bytes :: "nat \<Rightarrow> nat \<Rightarrow> bytes" where
  "le_bytes 0 x = []"
| "le_bytes (Suc n) x = word_of_nat (x mod 256) # le_bytes n (x div 256)"

fun le_nat :: "bytes \<Rightarrow> nat" where
  "le_nat [] = 0"
| "le_nat (b # bs) = unat b + 256 * le_nat bs"

lemma length_le_bytes [simp]: "length (le_bytes n x) = n"
  by (induction n arbitrary: x) simp_all

lemma unat_byte_of_mod: "unat (word_of_nat (x mod 256) :: byte) = x mod 256"
  by (simp add: unat_of_nat)

lemma unat_byte_less: "unat (b :: byte) < 256"
proof -
  have "unat b < 2 ^ LENGTH(8)" by (rule unsigned_less)
  then show ?thesis by simp
qed

lemma le_nat_le_bytes: "le_nat (le_bytes n x) = x mod 256 ^ n"
proof (induction n arbitrary: x)
  case 0
  then show ?case by simp
next
  case (Suc n)
  have "le_nat (le_bytes (Suc n) x) = x mod 256 + 256 * (x div 256 mod 256 ^ n)"
    using Suc.IH by (simp add: unat_byte_of_mod)
  also have "\<dots> = x mod (256 * 256 ^ n)"
    by (simp add: mod_mult2_eq)
  finally show ?case by simp
qed

lemma le_nat_bound: "le_nat bs < 256 ^ length bs"
proof (induction bs)
  case Nil
  then show ?case by simp
next
  case (Cons b bs)
  have "unat b < 256" by (rule unat_byte_less)
  with Cons have "unat b + 256 * le_nat bs < 256 * (le_nat bs + 1)" by simp
  also have "\<dots> \<le> 256 * 256 ^ length bs" using Cons by (simp add: Suc_leI)
  finally show ?case by simp
qed

lemma le_bytes_le_nat: "le_bytes (length bs) (le_nat bs) = bs"
proof (induction bs)
  case Nil
  then show ?case by simp
next
  case (Cons b bs)
  have b: "unat b < 256" by (rule unat_byte_less)
  then have "(unat b + 256 * le_nat bs) mod 256 = unat b"
    and "(unat b + 256 * le_nat bs) div 256 = le_nat bs"
    by simp_all
  with Cons show ?case by simp
qed

text \<open>\<^verbatim>\<open>int\<close>: 4 bytes, two's complement. \<^verbatim>\<open>uint32_t\<close> and \<^verbatim>\<open>size_t\<close> are unsigned.\<close>

definition enc_i32 :: "int \<Rightarrow> bytes" where
  "enc_i32 x = le_bytes 4 (nat (x mod 2 ^ 32))"

definition dec_i32 :: "bytes \<Rightarrow> int" where
  "dec_i32 bs = (let u = int (le_nat bs) in if u \<ge> 2 ^ 31 then u - 2 ^ 32 else u)"

definition enc_u32 :: "nat \<Rightarrow> bytes" where
  "enc_u32 x = le_bytes 4 x"

definition enc_u64 :: "nat \<Rightarrow> bytes" where
  "enc_u64 x = le_bytes 8 x"

lemma length_enc_i32 [simp]: "length (enc_i32 x) = 4"
  by (simp add: enc_i32_def)

lemma length_enc_u32 [simp]: "length (enc_u32 x) = 4"
  by (simp add: enc_u32_def)

lemma length_enc_u64 [simp]: "length (enc_u64 x) = 8"
  by (simp add: enc_u64_def)

lemma dec_enc_i32 [byte_simps]: "int32 x \<Longrightarrow> dec_i32 (enc_i32 x) = x"
proof -
  assume x: "int32 x"
  have "le_nat (enc_i32 x) = nat (x mod 2 ^ 32)"
    by (simp add: enc_i32_def le_nat_le_bytes)
  moreover have "x mod 2 ^ 32 = (if x < 0 then x + 2 ^ 32 else x)"
  proof (cases "x < 0")
    case True
    have "(x + 2 ^ 32) mod 2 ^ 32 = x + 2 ^ 32"
      using True x by (intro mod_pos_pos_trivial) (auto simp: int32_def)
    then show ?thesis using True by simp
  next
    case False
    then show ?thesis using x by (simp add: int32_def)
  qed
  ultimately show ?thesis using x by (auto simp: dec_i32_def int32_def Let_def)
qed

lemma dec_enc_u32 [byte_simps]: "x < 2 ^ 32 \<Longrightarrow> le_nat (enc_u32 x) = x"
  by (simp add: enc_u32_def le_nat_le_bytes)

lemma dec_enc_u64 [byte_simps]: "x < 2 ^ 64 \<Longrightarrow> le_nat (enc_u64 x) = x"
  by (simp add: enc_u64_def le_nat_le_bytes)

lemma int32_dec_i32: "length bs = 4 \<Longrightarrow> int32 (dec_i32 bs)"
  using le_nat_bound [of bs] by (auto simp: dec_i32_def int32_def Let_def)

definition read_i32 :: "nat \<Rightarrow> bytes \<Rightarrow> int" where
  "read_i32 off bs = dec_i32 (read_bytes off 4 bs)"

definition read_u32 :: "nat \<Rightarrow> bytes \<Rightarrow> nat" where
  "read_u32 off bs = le_nat (read_bytes off 4 bs)"

definition read_u64 :: "nat \<Rightarrow> bytes \<Rightarrow> nat" where
  "read_u64 off bs = le_nat (read_bytes off 8 bs)"

definition write_i32 :: "nat \<Rightarrow> int \<Rightarrow> bytes \<Rightarrow> bytes" where
  "write_i32 off x bs = write_bytes off (enc_i32 x) bs"

lemma length_write_i32 [simp]: "off + 4 \<le> length bs \<Longrightarrow> length (write_i32 off x bs) = length bs"
  by (simp add: write_i32_def)

lemma read_write_i32 [byte_simps]:
  "off \<le> length bs \<Longrightarrow> int32 x \<Longrightarrow> read_i32 off (write_i32 off x bs) = x"
  by (simp add: read_i32_def write_i32_def byte_simps)

lemma read_write_i32_other [byte_simps]:
  "off + 4 \<le> off' \<or> off' + 4 \<le> off \<Longrightarrow> off' \<le> length bs \<Longrightarrow>
   read_i32 off (write_i32 off' x bs) = read_i32 off bs"
  by (auto simp: read_i32_def write_i32_def byte_simps)

lemma read_bytes_write_i32 [byte_simps]:
  "off + n \<le> off' \<or> off' + 4 \<le> off \<Longrightarrow> off' \<le> length bs \<Longrightarrow>
   read_bytes off n (write_i32 off' x bs) = read_bytes off n bs"
  by (auto simp: write_i32_def byte_simps)

lemma read_i32_write_bytes [byte_simps]:
  "off + 4 \<le> off' \<or> off' + length xs \<le> off \<Longrightarrow> off' \<le> length bs \<Longrightarrow>
   read_i32 off (write_bytes off' xs bs) = read_i32 off bs"
  by (auto simp: read_i32_def byte_simps)

end
