(* ===== verification/Disk.thy ===== *)
theory Disk
  imports Bytes
begin

text \<open>
  The disk manager (\<^verbatim>\<open>src/src/storage/disk_manager.cpp\<close>): page reads and writes by descriptor,
  page-number allocation, and the table of open files with its reference counts.

  The operating system is part of the state: \<open>os_files\<close> are the regular files by path,
  \<open>os_fds\<close> the open descriptors with the file each refers to. A descriptor refers to a path
  rather than to an inode because \<open>destroy_file\<close> refuses files that are open. The descriptor
  that \<^verbatim>\<open>open(2)\<close> returns is an argument (\<open>nfd\<close>); a full disk and hardware errors are not
  modelled, so \<^verbatim>\<open>pwrite\<close> fails exactly on a bad descriptor or a negative offset.
\<close>

subsection \<open>Model\<close>

record disk_manager =
  path2fd :: "string \<rightharpoonup> int"
  fd2path :: "int \<rightharpoonup> string"
  path2refcount :: "string \<rightharpoonup> int"
  log_fd :: int
  fd2pageno :: "int \<Rightarrow> int"
  os_files :: "string \<rightharpoonup> bytes"
  os_fds :: "int \<rightharpoonup> string"

definition MAX_FD :: int where "MAX_FD = 8192"

definition LOG_FILE_NAME :: string where "LOG_FILE_NAME = ''db.log''"

definition disk_new :: "(string \<rightharpoonup> bytes) \<Rightarrow> disk_manager" where
  "disk_new files = \<lparr>path2fd = Map.empty, fd2path = Map.empty, path2refcount = Map.empty,
     log_fd = -1, fd2pageno = (\<lambda>_. 0), os_files = files, os_fds = Map.empty\<rparr>"

text \<open>The system calls: a file's contents through a descriptor, \<^verbatim>\<open>pwrite\<close> with its zero-filled gap.\<close>

definition fd_content :: "disk_manager \<Rightarrow> int \<Rightarrow> bytes option" where
  "fd_content d fd = (case os_fds d fd of None \<Rightarrow> None | Some p \<Rightarrow> os_files d p)"

definition fd_store :: "int \<Rightarrow> bytes \<Rightarrow> disk_manager \<Rightarrow> disk_manager" where
  "fd_store fd bs d = (case os_fds d fd of None \<Rightarrow> d | Some p \<Rightarrow> d\<lparr>os_files := (os_files d)(p \<mapsto> bs)\<rparr>)"

definition os_pwrite :: "nat \<Rightarrow> bytes \<Rightarrow> bytes \<Rightarrow> bytes" where
  "os_pwrite off xs bs = take off (bs @ replicate (off - length bs) 0) @ xs @ drop (off + length xs) bs"

definition write_page :: "int \<Rightarrow> int \<Rightarrow> bytes \<Rightarrow> disk_manager \<Rightarrow> (disk_manager, unit) outcome" where
  "write_page fd page_no data d =
     (case fd_content d fd of
        None \<Rightarrow> (Inl (InternalError ''DiskManager::write_page pwrite failed''), d)
      | Some bs \<Rightarrow>
          if page_no < 0 then (Inl (InternalError ''DiskManager::write_page pwrite failed''), d)
          else (Inr (), fd_store fd (os_pwrite (nat page_no * PAGE_SIZE) data bs) d))"

definition read_page :: "int \<Rightarrow> int \<Rightarrow> nat \<Rightarrow> disk_manager \<Rightarrow> db_error + bytes" where
  "read_page fd page_no num_bytes d =
     (case fd_content d fd of
        None \<Rightarrow> Inl (InternalError ''DiskManager::read_page pread failed'')
      | Some bs \<Rightarrow>
          if page_no < 0 then Inl (InternalError ''DiskManager::read_page pread failed'')
          else let xs = read_bytes (nat page_no * PAGE_SIZE) num_bytes bs
               in if length xs \<noteq> num_bytes then Inl (InternalError ''DiskManager::read_page pread failed'')
                  else Inr xs)"

definition sync_file :: "int \<Rightarrow> disk_manager \<Rightarrow> db_error + unit" where
  "sync_file fd d = (if os_fds d fd = None then Inl UnixError else Inr ())"

text \<open>Page numbers count up without bound here; in the code they are \<^verbatim>\<open>int\<close>s, so that a file has fewer than 2 ^ 31 pages (the theorems on
  record files assume it).\<close>

definition allocate_page :: "int \<Rightarrow> disk_manager \<Rightarrow> (disk_manager, int) outcome" where
  "allocate_page fd d =
     (if 0 \<le> fd \<and> fd < MAX_FD
      then (Inr (fd2pageno d fd), d\<lparr>fd2pageno := (fd2pageno d)(fd := fd2pageno d fd + 1)\<rparr>)
      else (Inl AssertionFailure, d))"

definition deallocate_page :: "int \<Rightarrow> disk_manager \<Rightarrow> disk_manager" where
  "deallocate_page page_id d = d"

definition set_fd2pageno :: "int \<Rightarrow> int \<Rightarrow> disk_manager \<Rightarrow> disk_manager" where
  "set_fd2pageno fd start_page_no d = d\<lparr>fd2pageno := (fd2pageno d)(fd := start_page_no)\<rparr>"

definition is_file :: "string \<Rightarrow> disk_manager \<Rightarrow> bool" where
  "is_file path d \<longleftrightarrow> os_files d path \<noteq> None"

definition create_file :: "string \<Rightarrow> disk_manager \<Rightarrow> (disk_manager, unit) outcome" where
  "create_file path d =
     (if os_files d path \<noteq> None then (Inl (FileExistsError path), d)
      else (Inr (), d\<lparr>os_files := (os_files d)(path \<mapsto> [])\<rparr>))"

definition destroy_file :: "string \<Rightarrow> disk_manager \<Rightarrow> (disk_manager, unit) outcome" where
  "destroy_file path d =
     (if path2fd d path \<noteq> None then (Inl (FileOpenError path), d)
      else if os_files d path = None then (Inl (FileNotFoundError path), d)
      else (Inr (), d\<lparr>os_files := (os_files d)(path := None)\<rparr>))"

text \<open>
  \<^verbatim>\<open>open_file\<close>: an entry whose descriptor is still valid is shared (the reference count grows); a
  stale entry is dropped first.
\<close>

definition os_open :: "int \<Rightarrow> string \<Rightarrow> disk_manager \<Rightarrow> (disk_manager, int) outcome" where
  "os_open nfd path d =
     (if os_files d path = None then (Inl (FileNotFoundError path), d)
      else (Inr nfd, d\<lparr>os_fds := (os_fds d)(nfd \<mapsto> path),
                       path2fd := (path2fd d)(path \<mapsto> nfd),
                       fd2path := (fd2path d)(nfd \<mapsto> path),
                       path2refcount := (path2refcount d)(path \<mapsto> 1)\<rparr>))"

definition open_file :: "int \<Rightarrow> string \<Rightarrow> disk_manager \<Rightarrow> (disk_manager, int) outcome" where
  "open_file nfd path d =
     (case path2fd d path of
        None \<Rightarrow> os_open nfd path d
      | Some existing_fd \<Rightarrow>
          if os_fds d existing_fd = None
          then os_open nfd path (d\<lparr>fd2path := (fd2path d)(existing_fd := None),
                                   path2fd := (path2fd d)(path := None),
                                   path2refcount := (path2refcount d)(path := None)\<rparr>)
          else (Inr existing_fd,
                d\<lparr>path2refcount := (path2refcount d)
                    (path \<mapsto> (case path2refcount d path of None \<Rightarrow> 1 | Some n \<Rightarrow> n + 1))\<rparr>))"

definition close_file :: "int \<Rightarrow> disk_manager \<Rightarrow> (disk_manager, unit) outcome" where
  "close_file fd d =
     (case fd2path d fd of
        None \<Rightarrow> (Inr (), d)
      | Some path \<Rightarrow>
          (case path2refcount d path of
             Some n \<Rightarrow> if n > 1 then (Inr (), d\<lparr>path2refcount := (path2refcount d)(path \<mapsto> n - 1)\<rparr>)
                       else if os_fds d fd = None then (Inl UnixError, d)
                       else (Inr (), d\<lparr>os_fds := (os_fds d)(fd := None),
                                       fd2path := (fd2path d)(fd := None),
                                       path2fd := (path2fd d)(path := None),
                                       path2refcount := (path2refcount d)(path := None)\<rparr>)
           | None \<Rightarrow> if os_fds d fd = None then (Inl UnixError, d)
                     else (Inr (), d\<lparr>os_fds := (os_fds d)(fd := None),
                                     fd2path := (fd2path d)(fd := None),
                                     path2fd := (path2fd d)(path := None),
                                     path2refcount := (path2refcount d)(path := None)\<rparr>)))"

text \<open>The conversion of an integer to an \<^verbatim>\<open>int\<close> of 32 bits; the size of a file is converted to one.\<close>

definition to_int :: "int \<Rightarrow> int" where
  "to_int x = (x + 2 ^ 31) mod 2 ^ 32 - 2 ^ 31"

lemma to_int_id [simp]: "int32 x \<Longrightarrow> to_int x = x"
  by (simp add: to_int_def int32_def)

definition get_file_size :: "string \<Rightarrow> disk_manager \<Rightarrow> int" where
  "get_file_size file_name d = (case os_files d file_name of None \<Rightarrow> -1 | Some bs \<Rightarrow> to_int (int (length bs)))"

definition get_file_name :: "int \<Rightarrow> disk_manager \<Rightarrow> db_error + string" where
  "get_file_name fd d = (case fd2path d fd of None \<Rightarrow> Inl (FileNotOpenError fd) | Some p \<Rightarrow> Inr p)"

definition get_file_fd :: "int \<Rightarrow> string \<Rightarrow> disk_manager \<Rightarrow> (disk_manager, int) outcome" where
  "get_file_fd nfd file_name d =
     (case path2fd d file_name of None \<Rightarrow> open_file nfd file_name d | Some fd \<Rightarrow> (Inr fd, d))"

definition is_file_open :: "string \<Rightarrow> disk_manager \<Rightarrow> bool" where
  "is_file_open file_name d \<longleftrightarrow> path2fd d file_name \<noteq> None"

definition get_open_file_fd :: "string \<Rightarrow> disk_manager \<Rightarrow> db_error + int" where
  "get_open_file_fd file_name d =
     (case path2fd d file_name of Some fd \<Rightarrow> Inr fd | None \<Rightarrow> Inl (FileNotOpenError (-1)))"

text \<open>Log file: opened on first use; reads are clamped to the file, writes append. At a negative offset \<^verbatim>\<open>lseek\<close> fails and the
  read would be at the position of the last one, which is not modelled: an assertion failure here.\<close>

definition log_open :: "int \<Rightarrow> disk_manager \<Rightarrow> (disk_manager, int) outcome" where
  "log_open nfd d =
     (if log_fd d = -1
      then (case open_file nfd LOG_FILE_NAME d of
              (Inl e, d') \<Rightarrow> (Inl e, d')
            | (Inr fd, d') \<Rightarrow> (Inr fd, d'\<lparr>log_fd := fd\<rparr>))
      else (Inr (log_fd d), d))"

definition read_log :: "int \<Rightarrow> nat \<Rightarrow> int \<Rightarrow> disk_manager \<Rightarrow> (disk_manager, bytes option) outcome" where
  "read_log nfd sz offset d =
     (case log_open nfd d of
        (Inl e, d') \<Rightarrow> (Inl e, d')
      | (Inr fd, d') \<Rightarrow>
          let file_size = get_file_size LOG_FILE_NAME d'
          in if offset > file_size then (Inr None, d')
             else let n = nat (min (int sz) (file_size - offset))
                  in if n = 0 then (Inr (Some []), d')
                     else if offset < 0 then (Inl AssertionFailure, d')
                     else (case fd_content d' fd of
                             None \<Rightarrow> (Inl AssertionFailure, d')
                           | Some bs \<Rightarrow>
                               if length (read_bytes (nat offset) n bs) = n
                               then (Inr (Some (read_bytes (nat offset) n bs)), d')
                               else (Inl AssertionFailure, d')))"

definition write_log :: "int \<Rightarrow> bytes \<Rightarrow> disk_manager \<Rightarrow> (disk_manager, unit) outcome" where
  "write_log nfd log_data d =
     (case log_open nfd d of
        (Inl e, d') \<Rightarrow> (Inl e, d')
      | (Inr fd, d') \<Rightarrow>
          (case fd_content d' fd of
             None \<Rightarrow> (Inl UnixError, d')
           | Some bs \<Rightarrow> (Inr (), fd_store fd (bs @ log_data) d')))"

definition write_check_point :: "int \<Rightarrow> bytes \<Rightarrow> disk_manager \<Rightarrow> (disk_manager, unit) outcome" where
  "write_check_point fd check_point_data d =
     (case fd_content d fd of
        None \<Rightarrow> (Inl UnixError, d)
      | Some bs \<Rightarrow> (Inr (), fd_store fd (os_pwrite 0 check_point_data bs) d))"

subsection \<open>Invariant of the open-file table\<close>

text \<open>
  The two tables are inverse to each other and agree with the descriptors the operating system
  holds open; a file in the table exists and has a positive reference count.
\<close>

definition disk_inv :: "disk_manager \<Rightarrow> bool" where
  "disk_inv d \<longleftrightarrow>
     (\<forall>p fd. path2fd d p = Some fd \<longleftrightarrow> fd2path d fd = Some p) \<and>
     (\<forall>fd p. os_fds d fd = Some p \<longleftrightarrow> fd2path d fd = Some p) \<and>
     (\<forall>p fd. path2fd d p = Some fd \<longrightarrow> os_files d p \<noteq> None) \<and>
     (\<forall>p. path2fd d p \<noteq> None \<longrightarrow> (\<exists>n. path2refcount d p = Some n \<and> 1 \<le> n)) \<and>
     (\<forall>p. path2fd d p = None \<longrightarrow> path2refcount d p = None)"

lemma disk_inv_new: "disk_inv (disk_new files)"
  by (simp add: disk_inv_def disk_new_def)

lemma disk_inv_fd_inj: "disk_inv d \<Longrightarrow> os_fds d fd = Some p \<Longrightarrow> os_fds d fd' = Some p \<Longrightarrow> fd = fd'"
  unfolding disk_inv_def by (metis option.inject)

lemma disk_inv_content: "disk_inv d \<Longrightarrow> os_fds d fd \<noteq> None \<Longrightarrow> \<exists>bs. fd_content d fd = Some bs"
proof -
  assume inv: "disk_inv d" and open_fd: "os_fds d fd \<noteq> None"
  then obtain p where p: "os_fds d fd = Some p" by blast
  then have "path2fd d p = Some fd" using inv unfolding disk_inv_def by blast
  then have "os_files d p \<noteq> None" using inv unfolding disk_inv_def by blast
  with p show ?thesis by (auto simp: fd_content_def)
qed

subsection \<open>Page reads and writes\<close>

text \<open>The page an intact file holds at a page id: what a full-page read returns.\<close>

definition disk_page :: "disk_manager \<Rightarrow> PageId \<Rightarrow> bytes option" where
  "disk_page d pid =
     (case read_page (pid_fd pid) (pid_page_no pid) PAGE_SIZE d of Inl _ \<Rightarrow> None | Inr bs \<Rightarrow> Some bs)"

lemma PAGE_SIZE_pos [simp]: "0 < PAGE_SIZE"
  by (simp add: PAGE_SIZE_def)

lemma length_os_pwrite: "length (os_pwrite off xs bs) = max (length bs) (off + length xs)"
  by (simp add: os_pwrite_def)

lemma read_os_pwrite_same: "read_bytes off (length xs) (os_pwrite off xs bs) = xs"
proof -
  have "length (take off (bs @ replicate (off - length bs) 0)) = off" by simp
  then show ?thesis unfolding os_pwrite_def read_bytes_def by (metis append_eq_conv_conj)
qed

lemma read_os_pwrite_other:
  assumes "off + n \<le> off' \<or> off' + length xs \<le> off" and "off + n \<le> length bs"
  shows "read_bytes off n (os_pwrite off' xs bs) = read_bytes off n bs"
proof (cases "off' \<le> length bs")
  case True
  then have "os_pwrite off' xs bs = write_bytes off' xs bs"
    by (simp add: os_pwrite_def write_bytes_def)
  with assms True show ?thesis by (auto simp: byte_simps)
next
  case False
  then have "os_pwrite off' xs bs = bs @ replicate (off' - length bs) 0 @ xs"
    by (simp add: os_pwrite_def)
  with assms show ?thesis by (simp add: read_bytes_append_within)
qed

lemma fd_content_store:
  "disk_inv d \<Longrightarrow> os_fds d fd \<noteq> None \<Longrightarrow>
   fd_content (fd_store fd bs d) fd' = (if fd' = fd then Some bs else fd_content d fd')"
  by (auto simp: fd_content_def fd_store_def dest: disk_inv_fd_inj split: option.splits)

lemma fd_store_simps [simp]:
  "path2fd (fd_store fd bs d) = path2fd d" "fd2path (fd_store fd bs d) = fd2path d"
  "path2refcount (fd_store fd bs d) = path2refcount d" "fd2pageno (fd_store fd bs d) = fd2pageno d"
  "os_fds (fd_store fd bs d) = os_fds d" "log_fd (fd_store fd bs d) = log_fd d"
  by (auto simp: fd_store_def split: option.splits)

lemma disk_inv_fd_store: "disk_inv d \<Longrightarrow> disk_inv (fd_store fd bs d)"
  by (auto simp: disk_inv_def fd_store_def split: option.splits)

lemma write_page_ok:
  assumes "disk_inv d" and "os_fds d fd \<noteq> None" and "0 \<le> page_no"
  obtains bs where "fd_content d fd = Some bs"
    and "write_page fd page_no data d = (Inr (), fd_store fd (os_pwrite (nat page_no * PAGE_SIZE) data bs) d)"
  using disk_inv_content [OF assms(1,2)] assms(3) that by (auto simp: write_page_def)

lemma page_ranges_disjoint:
  "p \<noteq> q \<Longrightarrow> nat p * PAGE_SIZE + PAGE_SIZE \<le> nat q * PAGE_SIZE \<or> nat q * PAGE_SIZE + PAGE_SIZE \<le> nat p * PAGE_SIZE"
  if "0 \<le> p" "0 \<le> q"
proof -
  assume "p \<noteq> q"
  then have "Suc (nat p) \<le> nat q \<or> Suc (nat q) \<le> nat p" using that by linarith
  then have "Suc (nat p) * PAGE_SIZE \<le> nat q * PAGE_SIZE \<or> Suc (nat q) * PAGE_SIZE \<le> nat p * PAGE_SIZE"
    by (metis mult_le_mono1)
  then show ?thesis by (simp add: add.commute)
qed

lemma disk_page_def':
  "disk_page d pid =
     (case fd_content d (pid_fd pid) of
        None \<Rightarrow> None
      | Some bs \<Rightarrow> if 0 \<le> pid_page_no pid \<and> nat (pid_page_no pid) * PAGE_SIZE + PAGE_SIZE \<le> length bs
                   then Some (read_bytes (nat (pid_page_no pid) * PAGE_SIZE) PAGE_SIZE bs) else None)"
proof -
  have "(length (read_bytes o' PAGE_SIZE bs) = PAGE_SIZE) = (o' + PAGE_SIZE \<le> length bs)" for o' bs
    unfolding read_bytes_def length_take length_drop using PAGE_SIZE_pos by linarith
  then show ?thesis
    by (simp add: disk_page_def read_page_def Let_def not_less split: option.split)
qed

lemma disk_page_write_same:
  assumes "disk_inv d" and "os_fds d (pid_fd pid) \<noteq> None" and "0 \<le> pid_page_no pid"
    and "length data = PAGE_SIZE"
    and "write_page (pid_fd pid) (pid_page_no pid) data d = (r, d')"
  shows "disk_page d' pid = Some data"
proof -
  obtain bs where "fd_content d (pid_fd pid) = Some bs"
    and d': "d' = fd_store (pid_fd pid) (os_pwrite (nat (pid_page_no pid) * PAGE_SIZE) data bs) d"
    using write_page_ok [OF assms(1-3), of data] assms(5) by auto
  then show ?thesis
    using assms read_os_pwrite_same [of "nat (pid_page_no pid) * PAGE_SIZE" data bs]
    by (simp add: disk_page_def' fd_content_store length_os_pwrite)
qed

lemma disk_page_write_other:
  assumes "disk_inv d" and "os_fds d (pid_fd pid) \<noteq> None" and "0 \<le> pid_page_no pid"
    and "length data = PAGE_SIZE"
    and "write_page (pid_fd pid) (pid_page_no pid) data d = (r, d')"
    and "pid' \<noteq> pid" and "disk_page d pid' = Some c"
  shows "disk_page d' pid' = Some c"
proof -
  obtain bs where bs: "fd_content d (pid_fd pid) = Some bs"
    and d': "d' = fd_store (pid_fd pid) (os_pwrite (nat (pid_page_no pid) * PAGE_SIZE) data bs) d"
    using write_page_ok [OF assms(1-3), of data] assms(5) by auto
  show ?thesis
  proof (cases "pid_fd pid' = pid_fd pid")
    case True
    then have ne: "pid_page_no pid' \<noteq> pid_page_no pid" using assms(6) by (cases pid; cases pid') auto
    have c: "0 \<le> pid_page_no pid'" "nat (pid_page_no pid') * PAGE_SIZE + PAGE_SIZE \<le> length bs"
        "c = read_bytes (nat (pid_page_no pid') * PAGE_SIZE) PAGE_SIZE bs"
      using assms(7) bs True by (auto simp: disk_page_def' split: if_splits)
    have "read_bytes (nat (pid_page_no pid') * PAGE_SIZE) PAGE_SIZE
            (os_pwrite (nat (pid_page_no pid) * PAGE_SIZE) data bs) = c"
      using read_os_pwrite_other [OF _ c(2), of "nat (pid_page_no pid) * PAGE_SIZE" data]
        page_ranges_disjoint [OF c(1) assms(3) ne] assms(4) c(3) by simp
    with True c d' bs assms(1,2) show ?thesis
      by (simp add: disk_page_def' fd_content_store length_os_pwrite)
  next
    case False
    with assms(1,2,7) d' show ?thesis by (simp add: disk_page_def' fd_content_store)
  qed
qed

lemma write_page_frame:
  "disk_inv d \<Longrightarrow> write_page fd page_no data d = (r, d') \<Longrightarrow>
   disk_inv d' \<and> os_fds d' = os_fds d \<and> fd2pageno d' = fd2pageno d"
  by (auto simp: write_page_def disk_inv_fd_store split: option.splits if_splits)

lemma write_page_succeeds:
  "disk_inv d \<Longrightarrow> os_fds d fd \<noteq> None \<Longrightarrow> 0 \<le> page_no \<Longrightarrow> \<exists>d'. write_page fd page_no data d = (Inr (), d')"
  by (rule write_page_ok [of d fd page_no data]) auto

lemma disk_page_fd2pageno [simp]: "disk_page (d\<lparr>fd2pageno := m\<rparr>) q = disk_page d q"
  by (simp add: disk_page_def' fd_content_def cong: option.case_cong)

subsection \<open>The file table\<close>

lemma disk_inv_iff:
  assumes "disk_inv d"
  shows "fd2path d fd = Some p \<longleftrightarrow> path2fd d p = Some fd" "os_fds d fd = Some p \<longleftrightarrow> path2fd d p = Some fd"
  using assms unfolding disk_inv_def by blast+

lemma disk_inv_refcount:
  assumes "disk_inv d" and "path2fd d p = Some fd"
  obtains n where "path2refcount d p = Some n" "1 \<le> n"
proof -
  have "path2fd d p \<noteq> None \<longrightarrow> (\<exists>n. path2refcount d p = Some n \<and> 1 \<le> n)"
    using assms(1) unfolding disk_inv_def by blast
  then show ?thesis using assms(2) that by auto
qed

lemma disk_inv_open:
  assumes inv: "disk_inv d" and fresh: "os_fds d nfd = None"
  shows "disk_inv (snd (open_file nfd path d))"
proof (cases "path2fd d path")
  case None
  have 1: "fd2path d nfd = None"
  proof (cases "fd2path d nfd")
    case (Some q)
    then have "os_fds d nfd = Some q" using inv unfolding disk_inv_def by blast
    then show ?thesis using fresh by simp
  qed simp
  have 2: "path2refcount d path = None" using inv None unfolding disk_inv_def by blast
  have 3: "fd2path d g \<noteq> Some path" for g using None by (simp add: disk_inv_iff [OF inv])
  show ?thesis
  proof (cases "os_files d path")
    case (Some bs)
    then show ?thesis
      unfolding open_file_def None os_open_def disk_inv_def
      using inv 1 2 3 by (simp add: disk_inv_def)
  qed (use None inv in \<open>simp add: open_file_def os_open_def\<close>)
next
  case (Some fd)
  then have "os_fds d fd = Some path" using inv by (simp add: disk_inv_def)
  moreover obtain n where "path2refcount d path = Some n" "1 \<le> n" using disk_inv_refcount [OF inv Some] .
  ultimately have "open_file nfd path d = (Inr fd, d\<lparr>path2refcount := (path2refcount d)(path \<mapsto> n + 1)\<rparr>)"
    using Some by (simp add: open_file_def)
  then show ?thesis using inv Some \<open>1 \<le> n\<close> by (auto simp: disk_inv_def)
qed

lemma disk_inv_close:
  assumes inv: "disk_inv d"
  shows "disk_inv (snd (close_file fd d))"
proof (cases "fd2path d fd")
  case None
  then show ?thesis using inv by (simp add: close_file_def)
next
  case (Some path)
  then have p: "path2fd d path = Some fd" "os_fds d fd = Some path" using inv by (simp_all add: disk_inv_def)
  obtain n where n: "path2refcount d path = Some n" "1 \<le> n" using disk_inv_refcount [OF inv p(1)] .
  show ?thesis
  proof (cases "1 < n")
    case True
    then have "close_file fd d = (Inr (), d\<lparr>path2refcount := (path2refcount d)(path \<mapsto> n - 1)\<rparr>)"
      using Some n by (simp add: close_file_def)
    then show ?thesis using inv True p by (auto simp: disk_inv_def)
  next
    case False
    have other: "path2fd d q = Some fd \<longleftrightarrow> q = path" "fd2path d g = Some path \<longleftrightarrow> g = fd"
      "os_fds d g = Some path \<longleftrightarrow> g = fd" for q g
      using p Some disk_inv_iff [OF inv, of fd q] disk_inv_iff [OF inv, of g path] by auto
    have "close_file fd d = (Inr (), d\<lparr>os_fds := (os_fds d)(fd := None), fd2path := (fd2path d)(fd := None),
        path2fd := (path2fd d)(path := None), path2refcount := (path2refcount d)(path := None)\<rparr>)"
      using Some n p False by (simp add: close_file_def)
    then show ?thesis using inv other by (auto simp: disk_inv_def)
  qed
qed

lemma disk_inv_create: "disk_inv d \<Longrightarrow> disk_inv (snd (create_file path d))"
  by (auto simp: create_file_def disk_inv_def)

lemma disk_inv_destroy: "disk_inv d \<Longrightarrow> disk_inv (snd (destroy_file path d))"
  by (auto simp: destroy_file_def disk_inv_def)

text \<open>A disk with one empty file, open under descriptor 3: the input of the witnesses.\<close>

definition example_disk :: disk_manager where
  "example_disk = snd (open_file 3 ''t'' (snd (create_file ''t'' (disk_new Map.empty))))"

lemma example_disk_ok: "disk_inv example_disk" "os_fds example_disk 3 \<noteq> None" "fd2pageno example_disk fd = 0"
proof -
  show "disk_inv example_disk"
    unfolding example_disk_def
    by (rule disk_inv_open [OF disk_inv_create [OF disk_inv_new]]) (simp add: create_file_def disk_new_def)
  show "os_fds example_disk 3 \<noteq> None" "fd2pageno example_disk fd = 0"
    by (simp_all add: example_disk_def open_file_def os_open_def create_file_def disk_new_def)
qed

subsection \<open>Properties\<close>

text \<open>A page written to an open file is what a read of that page returns, and the write changes no other
  page of any file and none of the tables of open files.\<close>

theorem read_page_after_write:
  assumes "disk_inv d" and "os_fds d fd \<noteq> None" and "0 \<le> page_no" and "length data = PAGE_SIZE"
    and "write_page fd page_no data d = (r, d')"
  shows "r = Inr () \<and> read_page fd page_no PAGE_SIZE d' = Inr data \<and> disk_inv d' \<and>
    (\<forall>q c. q \<noteq> \<lparr>pid_fd = fd, pid_page_no = page_no\<rparr> \<longrightarrow> disk_page d q = Some c \<longrightarrow> disk_page d' q = Some c)"
proof -
  let ?pid = "\<lparr>pid_fd = fd, pid_page_no = page_no\<rparr>"
  have "disk_page d' ?pid = Some data" using disk_page_write_same [of d ?pid] assms by simp
  then have "read_page fd page_no PAGE_SIZE d' = Inr data" by (simp add: disk_page_def split: sum.splits)
  moreover have "r = Inr ()" using write_page_succeeds [OF assms(1-3), of data] assms(5) by auto
  ultimately show ?thesis
    using disk_page_write_other [of d ?pid data r d'] write_page_frame [OF assms(1,5)] assms by auto
qed

theorem read_page_after_write_witness:
  "\<exists>d'. write_page 3 0 (replicate PAGE_SIZE 7) example_disk = (Inr (), d') \<and>
     read_page 3 0 PAGE_SIZE d' = Inr (replicate PAGE_SIZE 7)"
proof -
  obtain r d' where w: "write_page 3 0 (replicate PAGE_SIZE 7) example_disk = (r, d')" by fastforce
  show ?thesis using read_page_after_write [OF example_disk_ok(1,2) _ _ w] w by simp
qed

text \<open>Every operation on the table of open files keeps the two maps of the disk manager inverse to each
  other and equal to the descriptors the system holds open, with positive reference counts; a second
  opening of an open file shares the descriptor, and closing it once undoes exactly that opening.\<close>

theorem file_table_invariant:
  assumes "disk_inv d" and "os_fds d nfd = None"
  shows "disk_inv (snd (open_file nfd path d)) \<and> disk_inv (snd (close_file fd d)) \<and>
    disk_inv (snd (create_file path d)) \<and> disk_inv (snd (destroy_file path d)) \<and>
    (path2fd d path = Some fd \<longrightarrow>
       fst (open_file nfd path d) = Inr fd \<and> close_file fd (snd (open_file nfd path d)) = (Inr (), d))"
proof -
  have "fst (open_file nfd path d) = Inr fd \<and> close_file fd (snd (open_file nfd path d)) = (Inr (), d)"
    if t: "path2fd d path = Some fd"
  proof -
    have p: "os_fds d fd = Some path" "fd2path d fd = Some path" using assms(1) t by (simp_all add: disk_inv_def)
    obtain n where "path2refcount d path = Some n" "1 \<le> n" using disk_inv_refcount [OF assms(1) t] .
    then show ?thesis using t p by (simp add: open_file_def close_file_def fun_upd_idem)
  qed
  then show ?thesis
    using disk_inv_open [OF assms] disk_inv_close [OF assms(1)] disk_inv_create [OF assms(1)] disk_inv_destroy [OF assms(1)]
    by blast
qed

theorem file_table_invariant_witness:
  "disk_inv (snd (open_file 3 ''t'' (snd (create_file ''t'' (disk_new Map.empty)))))"
  using file_table_invariant [OF disk_inv_create [OF disk_inv_new], of "''t''" Map.empty 3 "''t''"]
  by (simp add: create_file_def disk_new_def)

end
