(* ===== verification/Page_Store.thy ===== *)
theory Page_Store
  imports Disk
begin

text \<open>
  What the buffer pool promises its clients (the record files and the indexes), without frames,
  replacement or disk: a store of pages with pins. The commands are the calls a client makes on
  \<^verbatim>\<open>BufferPoolManager\<close>; \<open>Write\<close> is an assignment through the \<^verbatim>\<open>Page*\<close> of a pinned page.

  The specification makes the dirty flag visible: a page whose contents changed since it was last
  declared dirty is \<^emph>\<open>touched\<close>, and dropping the last pin of a touched page without declaring it
  dirty loses its contents.
\<close>

subsection \<open>Specification\<close>

record page_store =
  ps_pages :: "PageId \<rightharpoonup> bytes"
  ps_pins :: "PageId list"
  ps_touched :: "PageId list"
  ps_next :: "int \<Rightarrow> int"
  ps_fds :: "int list"
  ps_cap :: nat

datatype page_cmd =
    Fetch PageId
  | Write PageId bytes
  | MarkDirty PageId
  | Unpin PageId bool
  | New int
  | Flush PageId

datatype page_obs = Got "bytes option" | Created "PageId option" | Done bool | Quiet

definition ps_fetch :: "PageId \<Rightarrow> page_store \<Rightarrow> (page_store, page_obs) outcome" where
  "ps_fetch pid a =
     (if pid \<notin> set (ps_pins a) \<and> ps_cap a \<le> card (set (ps_pins a)) then (Inr (Got None), a)
      else case ps_pages a pid of
             None \<Rightarrow> (Inl (InternalError ''no such page''), a)
           | Some c \<Rightarrow> (Inr (Got (Some c)), a\<lparr>ps_pins := pid # ps_pins a\<rparr>))"

definition ps_write :: "PageId \<Rightarrow> bytes \<Rightarrow> page_store \<Rightarrow> (page_store, page_obs) outcome" where
  "ps_write pid c a =
     (if pid \<in> set (ps_pins a) \<and> length c = PAGE_SIZE
      then (Inr Quiet, a\<lparr>ps_pages := (ps_pages a)(pid \<mapsto> c), ps_touched := pid # ps_touched a\<rparr>)
      else (Inl (InternalError ''page is not pinned''), a))"

definition ps_mark_dirty :: "PageId \<Rightarrow> page_store \<Rightarrow> (page_store, page_obs) outcome" where
  "ps_mark_dirty pid a =
     (if pid \<in> set (ps_pins a) then (Inr Quiet, a\<lparr>ps_touched := removeAll pid (ps_touched a)\<rparr>)
      else (Inl (InternalError ''page is not pinned''), a))"

definition ps_unpin :: "PageId \<Rightarrow> bool \<Rightarrow> page_store \<Rightarrow> (page_store, page_obs) outcome" where
  "ps_unpin pid is_dirty a =
     (if pid \<notin> set (ps_pins a) then (Inr (Done False), a)
      else let pins = remove1 pid (ps_pins a);
               touched = (if is_dirty then removeAll pid (ps_touched a) else ps_touched a);
               lost = pid \<notin> set pins \<and> pid \<in> set touched
           in (Inr (Done True),
               a\<lparr>ps_pins := pins, ps_touched := touched,
                 ps_pages := (if lost then (ps_pages a)(pid := None) else ps_pages a)\<rparr>))"

definition ps_new :: "int \<Rightarrow> page_store \<Rightarrow> (page_store, page_obs) outcome" where
  "ps_new fd a =
     (if ps_cap a \<le> card (set (ps_pins a)) then (Inr (Created None), a)
      else if fd \<notin> set (ps_fds a) then (Inl AssertionFailure, a)
      else let pid = \<lparr>pid_fd = fd, pid_page_no = ps_next a fd\<rparr>
           in (Inr (Created (Some pid)),
               a\<lparr>ps_pages := (ps_pages a)(pid \<mapsto> replicate PAGE_SIZE 0), ps_pins := pid # ps_pins a,
                 ps_touched := pid # ps_touched a, ps_next := (ps_next a)(fd := ps_next a fd + 1)\<rparr>))"

definition ps_flush :: "PageId \<Rightarrow> page_store \<Rightarrow> (page_store, page_obs) outcome" where
  "ps_flush pid a = (if pid \<in> set (ps_pins a) then (Inr (Done True), a)
                     else (Inl (InternalError ''page is not pinned''), a))"

fun ps_step :: "page_cmd \<Rightarrow> page_store \<Rightarrow> (page_store, page_obs) outcome" where
  "ps_step (Fetch pid) a = ps_fetch pid a"
| "ps_step (Write pid c) a = ps_write pid c a"
| "ps_step (MarkDirty pid) a = ps_mark_dirty pid a"
| "ps_step (Unpin pid d) a = ps_unpin pid d a"
| "ps_step (New fd) a = ps_new fd a"
| "ps_step (Flush pid) a = ps_flush pid a"

text \<open>A client's run: the observations of a list of commands, the first exception ends it.\<close>

fun run_cmds :: "('c \<Rightarrow> 's \<Rightarrow> ('s, 'o) outcome) \<Rightarrow> 'c list \<Rightarrow> 's \<Rightarrow> ('s, 'o list) outcome" where
  "run_cmds step [] s = (Inr [], s)"
| "run_cmds step (c # cs) s =
     (case step c s of
        (Inl e, s') \<Rightarrow> (Inl e, s')
      | (Inr b, s') \<Rightarrow>
          (case run_cmds step cs s' of
             (Inl e, s'') \<Rightarrow> (Inl e, s'')
           | (Inr bs, s'') \<Rightarrow> (Inr (b # bs), s'')))"

subsection \<open>The interface\<close>

text \<open>
  An implementation simulates the specification: whatever the specification answers without an
  exception, the implementation answers too, and the two states stay related.
\<close>

locale page_store_impl =
  fixes step :: "page_cmd \<Rightarrow> 's \<Rightarrow> ('s, page_obs) outcome"
    and rel :: "'s \<Rightarrow> page_store \<Rightarrow> bool"
  assumes sim_step: "rel s a \<Longrightarrow> ps_step c a = (Inr b, a') \<Longrightarrow> \<exists>s'. step c s = (Inr b, s') \<and> rel s' a'"
begin

lemma sim_run:
  "rel s a \<Longrightarrow> run_cmds ps_step cs a = (Inr bs, a') \<Longrightarrow>
   \<exists>s'. run_cmds step cs s = (Inr bs, s') \<and> rel s' a'"
proof (induction cs arbitrary: s a bs)
  case Nil
  then show ?case by simp
next
  case (Cons c cs)
  obtain b a1 bs' where step1: "ps_step c a = (Inr b, a1)"
    and rest: "run_cmds ps_step cs a1 = (Inr bs', a')" and bs: "bs = b # bs'"
    using Cons.prems(2) by (auto split: prod.splits sum.splits)
  obtain s1 where s1: "step c s = (Inr b, s1)" "rel s1 a1" using sim_step [OF Cons.prems(1) step1] by blast
  then show ?case using Cons.IH [OF s1(2) rest] bs by auto
qed

end

subsection \<open>Laws of the specification\<close>

definition ps_ok :: "page_store \<Rightarrow> bool" where
  "ps_ok a \<longleftrightarrow> (\<forall>pid c. ps_pages a pid = Some c \<longrightarrow> length c = PAGE_SIZE)"

lemma ps_ok_step: "ps_ok a \<Longrightarrow> ps_ok (snd (ps_step c a))"
  by (cases c)
    (auto simp: ps_ok_def ps_fetch_def ps_write_def ps_mark_dirty_def ps_unpin_def ps_new_def ps_flush_def
       Let_def split: option.splits)

text \<open>
  A page read after a write, in one pin: fetch, write, unpin dirty, fetch again returns what was
  written.
\<close>

lemma ps_write_back:
  assumes "ps_pages a pid = Some c" and "length c' = PAGE_SIZE" and "card (set (ps_pins a)) < ps_cap a"
  shows "\<exists>a'. run_cmds ps_step [Fetch pid, Write pid c', Unpin pid True, Fetch pid] a
              = (Inr [Got (Some c), Quiet, Done True, Got (Some c')], a')"
  using assms by (auto simp: ps_fetch_def ps_write_def ps_unpin_def Let_def not_le)

end
