(* ===== verification/Replacers.thy ===== *)
theory Replacers
  imports Rmdb_Prelude
begin

text \<open>
  The frame replacers of \<^verbatim>\<open>src/src/replacer\<close>: the LRU list, the CLOCK ring and the abstract
  class \<^verbatim>\<open>Replacer\<close> they implement. The locale \<open>replacer\<close> is that class with its contract over
  the set of evictable frames; both implementations and their virtual dispatch interpret it.
  A frame id comes from the pool's frame array, so it is a natural number.
\<close>

subsection \<open>LRU replacer\<close>

text \<open>
  \<^verbatim>\<open>LRUhash_\<close> maps a frame to the iterator of its list node; an iterator is represented by the
  frame id stored at the node it points to.
\<close>

record lru_replacer =
  LRUlist :: "frame_id list"
  LRUhash :: "frame_id \<rightharpoonup> frame_id"
  lru_max_size :: nat

definition lru_new :: "nat \<Rightarrow> lru_replacer" where
  "lru_new num_pages = \<lparr>LRUlist = [], LRUhash = Map.empty, lru_max_size = num_pages\<rparr>"

definition lru_victim :: "lru_replacer \<Rightarrow> frame_id option \<times> lru_replacer" where
  "lru_victim r =
     (if LRUlist r = [] then (None, r)
      else let f = last (LRUlist r)
           in (Some f, r\<lparr>LRUlist := butlast (LRUlist r), LRUhash := (LRUhash r)(f := None)\<rparr>))"

definition lru_pin :: "frame_id \<Rightarrow> lru_replacer \<Rightarrow> lru_replacer" where
  "lru_pin f r =
     (case LRUhash r f of
        None \<Rightarrow> r
      | Some it \<Rightarrow> r\<lparr>LRUlist := remove1 it (LRUlist r), LRUhash := (LRUhash r)(f := None)\<rparr>)"

definition lru_unpin :: "frame_id \<Rightarrow> lru_replacer \<Rightarrow> lru_replacer" where
  "lru_unpin f r =
     (case LRUhash r f of
        Some it \<Rightarrow> r
      | None \<Rightarrow> r\<lparr>LRUlist := f # LRUlist r, LRUhash := (LRUhash r)(f \<mapsto> f)\<rparr>)"

definition lru_size :: "lru_replacer \<Rightarrow> nat" where
  "lru_size r = length (LRUlist r)"

definition lru_inv :: "lru_replacer \<Rightarrow> bool" where
  "lru_inv r \<longleftrightarrow> distinct (LRUlist r) \<and>
     LRUhash r = (\<lambda>f. if f \<in> set (LRUlist r) then Some f else None)"

subsection \<open>CLOCK replacer\<close>

record FrameStatus =
  in_replacer :: bool
  ref_bit :: bool

record clock_replacer =
  clk_frames :: "FrameStatus list"
  clock_hand :: nat
  clk_num :: nat
  clk_count :: nat

definition clock_new :: "nat \<Rightarrow> clock_replacer" where
  "clock_new num = \<lparr>clk_frames = replicate num \<lparr>in_replacer = False, ref_bit = False\<rparr>,
     clock_hand = 0, clk_num = num, clk_count = 0\<rparr>"

definition clock_advance :: "clock_replacer \<Rightarrow> clock_replacer" where
  "clock_advance r = r\<lparr>clock_hand := (clock_hand r + 1) mod clk_num r\<rparr>"

text \<open>
  The loop of \<^verbatim>\<open>victim\<close>: the first argument is the number of positions still to scan, which the
  code counts up in \<^verbatim>\<open>scanned\<close> to \<open>size * 2\<close>.
\<close>

primrec clock_scan :: "nat \<Rightarrow> clock_replacer \<Rightarrow> frame_id option \<times> clock_replacer" where
  "clock_scan 0 r = (None, r)"
| "clock_scan (Suc n) r =
     (let h = clock_hand r; s = clk_frames r ! h
      in if in_replacer s
         then if ref_bit s
              then clock_scan n (clock_advance (r\<lparr>clk_frames := (clk_frames r)[h := s\<lparr>ref_bit := False\<rparr>]\<rparr>))
              else (Some h, clock_advance (r\<lparr>clk_frames := (clk_frames r)[h := s\<lparr>in_replacer := False\<rparr>],
                                            clk_count := clk_count r - 1\<rparr>))
         else clock_scan n (clock_advance r))"

definition clock_victim :: "clock_replacer \<Rightarrow> frame_id option \<times> clock_replacer" where
  "clock_victim r = (if clk_count r = 0 then (None, r) else clock_scan (clk_num r * 2) r)"

definition clock_pin :: "frame_id \<Rightarrow> clock_replacer \<Rightarrow> clock_replacer" where
  "clock_pin f r =
     (if f \<ge> clk_num r then r
      else if in_replacer (clk_frames r ! f)
      then r\<lparr>clk_frames := (clk_frames r)[f := (clk_frames r ! f)\<lparr>in_replacer := False, ref_bit := False\<rparr>],
             clk_count := clk_count r - 1\<rparr>
      else r)"

definition clock_unpin :: "frame_id \<Rightarrow> clock_replacer \<Rightarrow> clock_replacer" where
  "clock_unpin f r =
     (if f \<ge> clk_num r then r
      else let r' = (if in_replacer (clk_frames r ! f) then r
                     else r\<lparr>clk_frames := (clk_frames r)[f := (clk_frames r ! f)\<lparr>in_replacer := True\<rparr>],
                            clk_count := clk_count r + 1\<rparr>)
           in r'\<lparr>clk_frames := (clk_frames r')[f := (clk_frames r' ! f)\<lparr>ref_bit := True\<rparr>]\<rparr>)"

definition clock_size :: "clock_replacer \<Rightarrow> nat" where
  "clock_size r = clk_count r"

definition clock_evictable :: "clock_replacer \<Rightarrow> frame_id set" where
  "clock_evictable r = {i. i < length (clk_frames r) \<and> in_replacer (clk_frames r ! i)}"

definition clock_inv :: "clock_replacer \<Rightarrow> bool" where
  "clock_inv r \<longleftrightarrow> length (clk_frames r) = clk_num r \<and>
     (clk_num r = 0 \<or> clock_hand r < clk_num r) \<and>
     clk_count r = card (clock_evictable r)"

subsection \<open>The abstract class\<close>

text \<open>
  \<^verbatim>\<open>class Replacer\<close> with the contract its callers rely on. \<open>tracked r f\<close> says that the replacer
  can hold frame \<open>f\<close>: every frame for LRU, the frames of the ring for CLOCK.
\<close>

locale replacer =
  fixes victim :: "'r \<Rightarrow> frame_id option \<times> 'r"
    and pin :: "frame_id \<Rightarrow> 'r \<Rightarrow> 'r"
    and unpin :: "frame_id \<Rightarrow> 'r \<Rightarrow> 'r"
    and Size :: "'r \<Rightarrow> nat"
    and evictable :: "'r \<Rightarrow> frame_id set"
    and tracked :: "'r \<Rightarrow> frame_id \<Rightarrow> bool"
    and invar :: "'r \<Rightarrow> bool"
  assumes finite_evictable: "invar r \<Longrightarrow> finite (evictable r)"
    and victim_Some: "invar r \<Longrightarrow> victim r = (Some f, r') \<Longrightarrow>
      f \<in> evictable r \<and> evictable r' = evictable r - {f}"
    and victim_None: "invar r \<Longrightarrow> victim r = (None, r') \<Longrightarrow> evictable r = {} \<and> evictable r' = {}"
    and pin_evictable: "invar r \<Longrightarrow> evictable (pin f r) = evictable r - {f}"
    and unpin_evictable: "invar r \<Longrightarrow> tracked r f \<Longrightarrow> evictable (unpin f r) = insert f (evictable r)"
    and Size_card: "invar r \<Longrightarrow> Size r = card (evictable r)"
    and invar_victim: "invar r \<Longrightarrow> invar (snd (victim r))"
    and invar_pin: "invar r \<Longrightarrow> invar (pin f r)"
    and invar_unpin: "invar r \<Longrightarrow> invar (unpin f r)"
    and tracked_victim: "invar r \<Longrightarrow> tracked (snd (victim r)) = tracked r"
    and tracked_pin: "invar r \<Longrightarrow> tracked (pin f r) = tracked r"
    and tracked_unpin: "invar r \<Longrightarrow> tracked (unpin f r) = tracked r"
begin

lemma victim_finds: "invar r \<Longrightarrow> evictable r \<noteq> {} \<Longrightarrow> \<exists>f. fst (victim r) = Some f \<and> f \<in> evictable r"
proof (cases "victim r")
  case (Pair v r')
  assume "invar r" "evictable r \<noteq> {}"
  then show ?thesis using Pair victim_None [of r r'] victim_Some [of r _ r'] by (cases v) auto
qed

lemma victim_cases:
  assumes "invar r"
  obtains (found) f where "fst (victim r) = Some f" "f \<in> evictable r"
      "evictable (snd (victim r)) = evictable r - {f}"
    | (none) "fst (victim r) = None" "evictable r = {}" "evictable (snd (victim r)) = {}"
  using assms victim_None [of r "snd (victim r)"] victim_Some [of r _ "snd (victim r)"]
  by (cases "fst (victim r)") (auto simp: prod_eq_iff)

lemma Size_victim:
  assumes "invar r" and "0 < Size r"
  shows "Size (snd (victim r)) + 1 = Size r"
proof -
  have ne: "evictable r \<noteq> {}" using assms Size_card by auto
  from assms(1) show ?thesis
  proof (cases rule: victim_cases)
    case (found f)
    with assms(1) show ?thesis
      using Size_card [OF assms(1)] Size_card [OF invar_victim [OF assms(1)]]
        card_Suc_Diff1 [OF finite_evictable [OF assms(1)] found(2)] by simp
  next
    case none
    with ne show ?thesis by simp
  qed
qed

lemma pinned_not_victim: "invar r \<Longrightarrow> fst (victim (pin f r)) \<noteq> Some f"
  using victim_Some [OF invar_pin, of r f f "snd (victim (pin f r))"] pin_evictable [of r f]
  by (auto simp: prod_eq_iff)

end

subsection \<open>The LRU list implements the contract\<close>

lemma lru_inv_new: "lru_inv (lru_new n)"
  by (simp add: lru_inv_def lru_new_def)

lemma lru_inv_victim: "lru_inv r \<Longrightarrow> lru_inv (snd (lru_victim r))"
  by (cases "LRUlist r" rule: rev_cases) (auto simp: lru_inv_def lru_victim_def fun_eq_iff)

lemma lru_inv_pin: "lru_inv r \<Longrightarrow> lru_inv (lru_pin f r)"
  by (auto simp: lru_inv_def lru_pin_def fun_eq_iff split: if_splits option.splits)

lemma lru_inv_unpin: "lru_inv r \<Longrightarrow> lru_inv (lru_unpin f r)"
  by (auto simp: lru_inv_def lru_unpin_def fun_eq_iff split: if_splits option.splits)

lemma lru_pin_list: "lru_inv r \<Longrightarrow> LRUlist (lru_pin f r) = remove1 f (LRUlist r)"
  by (auto simp: lru_inv_def lru_pin_def remove1_idem split: if_splits)

lemma lru_unpin_list:
  "lru_inv r \<Longrightarrow> LRUlist (lru_unpin f r) = (if f \<in> set (LRUlist r) then LRUlist r else f # LRUlist r)"
  by (auto simp: lru_inv_def lru_unpin_def)

interpretation lru: replacer lru_victim lru_pin lru_unpin lru_size "\<lambda>r. set (LRUlist r)"
  "\<lambda>r f. True" lru_inv
proof
  fix r r' :: lru_replacer and f
  assume inv: "lru_inv r"
  show "finite (set (LRUlist r))" by simp
  show "lru_victim r = (Some f, r') \<Longrightarrow> f \<in> set (LRUlist r) \<and> set (LRUlist r') = set (LRUlist r) - {f}"
    using inv by (cases "LRUlist r" rule: rev_cases) (auto simp: lru_victim_def lru_inv_def)
  show "lru_victim r = (None, r') \<Longrightarrow> set (LRUlist r) = {} \<and> set (LRUlist r') = {}"
    by (auto simp: lru_victim_def Let_def split: if_splits)
  show "set (LRUlist (lru_pin f r)) = set (LRUlist r) - {f}"
    using inv by (simp add: lru_pin_list distinct_remove1_set lru_inv_def)
  show "set (LRUlist (lru_unpin f r)) = insert f (set (LRUlist r))"
    using inv by (auto simp: lru_unpin_list)
  show "lru_size r = card (set (LRUlist r))"
    using inv by (simp add: lru_size_def lru_inv_def distinct_card)
  show "lru_inv (snd (lru_victim r))" by (rule lru_inv_victim [OF inv])
  show "lru_inv (lru_pin f r)" by (rule lru_inv_pin [OF inv])
  show "lru_inv (lru_unpin f r)" by (rule lru_inv_unpin [OF inv])
qed auto

subsection \<open>The CLOCK ring implements the contract\<close>

lemma clock_advance_simps [simp]:
  "clk_frames (clock_advance r) = clk_frames r" "clk_num (clock_advance r) = clk_num r"
  "clk_count (clock_advance r) = clk_count r"
  "clock_hand (clock_advance r) = (clock_hand r + 1) mod clk_num r"
  by (simp_all add: clock_advance_def)

lemma clock_evictable_advance [simp]: "clock_evictable (clock_advance r) = clock_evictable r"
  by (simp add: clock_evictable_def)

lemma clock_inv_advance: "clock_inv r \<Longrightarrow> clock_inv (clock_advance r)"
  by (auto simp: clock_inv_def)

lemma finite_clock_evictable [simp]: "finite (clock_evictable r)"
  by (simp add: clock_evictable_def)

lemma evictable_update:
  "i < length fs \<Longrightarrow>
   {j. j < length fs \<and> in_replacer (fs[i := s] ! j)} =
   (if in_replacer s then insert i {j. j < length fs \<and> in_replacer (fs ! j)}
    else {j. j < length fs \<and> in_replacer (fs ! j)} - {i})"
  by (auto simp: nth_list_update split: if_splits)

text \<open>Clearing a reference bit changes neither the evictable frames nor the invariant.\<close>

definition clear_ref :: "clock_replacer \<Rightarrow> clock_replacer" where
  "clear_ref r = r\<lparr>clk_frames := (clk_frames r)[clock_hand r := (clk_frames r ! clock_hand r)\<lparr>ref_bit := False\<rparr>]\<rparr>"

lemma clear_ref_evictable: "clock_evictable (clear_ref r) = clock_evictable r"
  by (cases "clock_hand r < length (clk_frames r)")
    (auto simp: clear_ref_def clock_evictable_def nth_list_update list_update_beyond)

lemma clear_ref_simps [simp]:
  "clk_num (clear_ref r) = clk_num r" "clock_hand (clear_ref r) = clock_hand r"
  "clk_count (clear_ref r) = clk_count r" "length (clk_frames (clear_ref r)) = length (clk_frames r)"
  by (simp_all add: clear_ref_def)

lemma clock_inv_clear_ref: "clock_inv r \<Longrightarrow> clock_inv (clear_ref r)"
  by (simp add: clock_inv_def clear_ref_evictable)

text \<open>One position of the scan: take the frame under the hand, clear its bit, or pass.\<close>

lemma clock_scan_step:
  "clock_scan (Suc n) r =
     (if in_replacer (clk_frames r ! clock_hand r)
      then if ref_bit (clk_frames r ! clock_hand r)
           then clock_scan n (clock_advance (clear_ref r))
           else (Some (clock_hand r), clock_advance (clock_pin (clock_hand r) r))
      else clock_scan n (clock_advance r))"
  if "clock_hand r < clk_num r" "clock_inv r" 
proof (cases "in_replacer (clk_frames r ! clock_hand r) \<and> \<not> ref_bit (clk_frames r ! clock_hand r)")
  case True
  with that show ?thesis
    by (cases "clk_frames r ! clock_hand r") (simp add: Let_def clock_pin_def)
next
  case False
  then show ?thesis by (auto simp: Let_def clear_ref_def)
qed

declare clock_scan.simps(2) [simp del]

lemma clock_inv_hand: "clock_inv r \<Longrightarrow> clk_num r \<noteq> 0 \<Longrightarrow> clock_hand r < clk_num r"
  by (auto simp: clock_inv_def)

lemma clock_pin_evictable: "clock_inv r \<Longrightarrow> clock_evictable (clock_pin f r) = clock_evictable r - {f}"
  by (auto simp: clock_pin_def clock_evictable_def clock_inv_def nth_list_update split: if_splits)

lemma clock_pin_frame_simps [simp]:
  "clk_num (clock_pin f r) = clk_num r" "clock_hand (clock_pin f r) = clock_hand r"
  "length (clk_frames (clock_pin f r)) = length (clk_frames r)"
  by (auto simp: clock_pin_def)

lemma clock_inv_pin: "clock_inv r \<Longrightarrow> clock_inv (clock_pin f r)"
proof -
  assume inv: "clock_inv r"
  have "clk_count (clock_pin f r) = card (clock_evictable r - {f})"
    using inv by (auto simp: clock_pin_def clock_inv_def clock_evictable_def card_Diff_singleton_if)
  with inv show ?thesis by (simp add: clock_inv_def clock_pin_evictable [OF inv])
qed

lemma clock_unpin_evictable:
  "clock_inv r \<Longrightarrow> f < clk_num r \<Longrightarrow> clock_evictable (clock_unpin f r) = insert f (clock_evictable r)"
  by (auto simp: clock_unpin_def clock_evictable_def clock_inv_def nth_list_update Let_def split: if_splits)

lemma clock_unpin_frame_simps [simp]:
  "clk_num (clock_unpin f r) = clk_num r" "clock_hand (clock_unpin f r) = clock_hand r"
  "length (clk_frames (clock_unpin f r)) = length (clk_frames r)"
  by (auto simp: clock_unpin_def Let_def)

lemma clock_inv_unpin: "clock_inv r \<Longrightarrow> clock_inv (clock_unpin f r)"
proof (cases "f < clk_num r")
  case True
  assume inv: "clock_inv r"
  have "clk_count (clock_unpin f r) = card (insert f (clock_evictable r))"
    using inv True by (auto simp: clock_unpin_def clock_inv_def clock_evictable_def card_insert_if Let_def)
  with inv True show ?thesis by (simp add: clock_inv_def clock_unpin_evictable [OF inv])
qed (simp add: clock_unpin_def)

lemma clock_scan_safe:
  assumes "clock_inv r" and "clk_num r \<noteq> 0"
  shows "clock_inv (snd (clock_scan n r)) \<and> clk_num (snd (clock_scan n r)) = clk_num r \<and>
    (case fst (clock_scan n r) of
       None \<Rightarrow> clock_evictable (snd (clock_scan n r)) = clock_evictable r
     | Some f \<Rightarrow> f \<in> clock_evictable r \<and> clock_evictable (snd (clock_scan n r)) = clock_evictable r - {f})"
  using assms
proof (induction n arbitrary: r)
  case 0
  then show ?case by simp
next
  case (Suc n)
  note hand = clock_inv_hand [OF Suc.prems]
  have "clock_hand r \<in> clock_evictable r" if "in_replacer (clk_frames r ! clock_hand r)"
    using that hand Suc.prems(1) by (simp add: clock_evictable_def clock_inv_def)
  note here = this
  let ?st = "clk_frames r ! clock_hand r"
  consider (clear) "clock_scan (Suc n) r = clock_scan n (clock_advance (clear_ref r))"
    | (take) "clock_scan (Suc n) r = (Some (clock_hand r), clock_advance (clock_pin (clock_hand r) r))"
        "in_replacer ?st"
    | (pass) "clock_scan (Suc n) r = clock_scan n (clock_advance r)"
    using clock_scan_step [OF hand Suc.prems(1), of n] by metis
  then show ?case
  proof cases
    case clear
    show ?thesis unfolding clear
      using Suc.IH [OF clock_inv_advance [OF clock_inv_clear_ref [OF Suc.prems(1)]]] Suc.prems(2)
      unfolding clock_evictable_advance clear_ref_evictable by simp
  next
    case take
    show ?thesis unfolding take(1) using here [OF take(2)] Suc.prems(1)
      by (simp add: clock_pin_evictable clock_inv_pin clock_inv_advance)
  next
    case pass
    show ?thesis unfolding pass
      using Suc.IH [OF clock_inv_advance [OF Suc.prems(1)]] Suc.prems(2)
      unfolding clock_evictable_advance by simp
  qed
qed

text \<open>A frame at distance \<open>k\<close> from the hand whose bit is clear is found within \<open>k + 1\<close> positions.\<close>

lemma clear_ref_keeps:
  "in_replacer (clk_frames r ! i) \<Longrightarrow> \<not> ref_bit (clk_frames r ! i) \<Longrightarrow> i < length (clk_frames r) \<Longrightarrow>
   in_replacer (clk_frames (clear_ref r) ! i) \<and> \<not> ref_bit (clk_frames (clear_ref r) ! i)"
  by (cases "i = clock_hand r") (simp_all add: clear_ref_def)

lemma clock_scan_finds:
  assumes "clock_inv r" and "clk_num r \<noteq> 0" and "k < n"
    and "in_replacer (clk_frames r ! ((clock_hand r + k) mod clk_num r))"
    and "\<not> ref_bit (clk_frames r ! ((clock_hand r + k) mod clk_num r))"
  shows "fst (clock_scan n r) \<noteq> None"
  using assms
proof (induction n arbitrary: r k)
  case 0
  then show ?case by simp
next
  case (Suc n)
  note hand = clock_inv_hand [OF Suc.prems(1,2)]
  let ?i = "(clock_hand r + k) mod clk_num r"
  have i: "?i < length (clk_frames r)" using Suc.prems(1,2) by (simp add: clock_inv_def)
  show ?case
  proof (cases k)
    case 0
    with Suc.prems(4,5) hand show ?thesis by (simp add: clock_scan_step [OF hand Suc.prems(1)])
  next
    case (Suc m)
    have eq: "(clock_hand (clock_advance s) + m) mod clk_num (clock_advance s) = ?i"
      if "clock_hand s = clock_hand r" "clk_num s = clk_num r" for s
      using that Suc by (simp add: mod_add_left_eq)
    have m: "m < n" using Suc Suc.prems(3) by simp
    have 1: "fst (clock_scan n (clock_advance r)) \<noteq> None"
      by (rule Suc.IH [OF clock_inv_advance [OF Suc.prems(1)] _ m])
        (use Suc.prems eq [of r] in simp_all)
    have 2: "fst (clock_scan n (clock_advance (clear_ref r))) \<noteq> None"
      by (rule Suc.IH [OF clock_inv_advance [OF clock_inv_clear_ref [OF Suc.prems(1)]] _ m])
        (use Suc.prems clear_ref_keeps [OF Suc.prems(4,5) i] eq [of "clear_ref r"] in simp_all)
    show ?thesis using 1 2 by (simp add: clock_scan_step [OF hand Suc.prems(1)])
  qed
qed

text \<open>
  A scan that finds nothing in \<open>m\<close> positions has moved the hand \<open>m\<close> positions and cleared the bit
  of every evictable frame it passed.
\<close>

lemma clear_ref_mono:
  "\<not> ref_bit (clk_frames r ! i) \<Longrightarrow> i < length (clk_frames r) \<Longrightarrow> \<not> ref_bit (clk_frames (clear_ref r) ! i)"
  by (cases "i = clock_hand r") (simp_all add: clear_ref_def)

lemma clock_scan_None:
  assumes "clock_inv r" and "clk_num r \<noteq> 0" and "clock_scan m r = (None, r')"
  shows "clock_hand r' = (clock_hand r + m) mod clk_num r \<and>
    (\<forall>i < clk_num r. \<not> ref_bit (clk_frames r ! i) \<longrightarrow> \<not> ref_bit (clk_frames r' ! i)) \<and>
    (\<forall>k < m. (clock_hand r + k) mod clk_num r \<in> clock_evictable r \<longrightarrow>
       \<not> ref_bit (clk_frames r' ! ((clock_hand r + k) mod clk_num r)))"
  using assms
proof (induction m arbitrary: r)
  case 0
  then show ?case using clock_inv_hand [of r] by simp
next
  case (Suc m)
  note hand = clock_inv_hand [OF Suc.prems(1,2)]
  have len: "length (clk_frames r) = clk_num r" using Suc.prems(1) by (simp add: clock_inv_def)
  let ?s = "if in_replacer (clk_frames r ! clock_hand r) then clear_ref r else r"
  have scan: "clock_scan m (clock_advance ?s) = (None, r')"
    using Suc.prems(3) by (auto simp: clock_scan_step [OF hand Suc.prems(1)] split: if_splits)
  have s: "clock_inv (clock_advance ?s)" "clk_num (clock_advance ?s) = clk_num r"
      "clock_hand (clock_advance ?s) = (clock_hand r + 1) mod clk_num r"
      "clock_evictable (clock_advance ?s) = clock_evictable r"
    using Suc.prems(1) by (simp_all add: clock_inv_advance clock_inv_clear_ref clear_ref_evictable)
  have IH: "clock_hand r' = ((clock_hand r + 1) mod clk_num r + m) mod clk_num r"
      "\<And>i. i < clk_num r \<Longrightarrow> \<not> ref_bit (clk_frames (clock_advance ?s) ! i) \<Longrightarrow> \<not> ref_bit (clk_frames r' ! i)"
      "\<And>k. k < m \<Longrightarrow> ((clock_hand r + 1) mod clk_num r + k) mod clk_num r \<in> clock_evictable r \<Longrightarrow>
         \<not> ref_bit (clk_frames r' ! (((clock_hand r + 1) mod clk_num r + k) mod clk_num r))"
    using Suc.IH [OF s(1) _ scan] Suc.prems(2) unfolding s by blast+
  have keep: "\<not> ref_bit (clk_frames r' ! i)" if "i < clk_num r" "\<not> ref_bit (clk_frames r ! i)" for i
    using IH(2) [of i] that clear_ref_mono [of r i] len by (simp split: if_splits)
  have passed: "\<not> ref_bit (clk_frames r' ! ((clock_hand r + k) mod clk_num r))"
    if "k < Suc m" "(clock_hand r + k) mod clk_num r \<in> clock_evictable r" for k
  proof (cases k)
    case 0
    with that(2) hand have "in_replacer (clk_frames r ! clock_hand r)" by (simp add: clock_evictable_def)
    with 0 hand show ?thesis using IH(2) [of "clock_hand r"] len by (simp add: clear_ref_def)
  next
    case (Suc k')
    have "((clock_hand r + 1) mod clk_num r + k') mod clk_num r = (clock_hand r + k) mod clk_num r"
      using Suc by (simp add: mod_add_left_eq)
    with IH(3) [of k'] that Suc show ?thesis by simp
  qed
  have "clock_hand r' = (clock_hand r + Suc m) mod clk_num r" using IH(1) by (simp add: mod_add_left_eq)
  with keep passed show ?case by blast
qed

lemma clock_scan_add:
  "clock_scan m r = (None, r') \<Longrightarrow> clock_inv r \<Longrightarrow> clk_num r \<noteq> 0 \<Longrightarrow> clock_scan (m + n) r = clock_scan n r'"
proof (induction m arbitrary: r)
  case 0
  then show ?case by simp
next
  case (Suc m)
  note hand = clock_inv_hand [OF Suc.prems(2,3)]
  show ?case
    using Suc.prems Suc.IH [of "clock_advance r"] Suc.IH [of "clock_advance (clear_ref r)"]
    by (auto simp: clock_scan_step [OF hand Suc.prems(2)] clock_inv_advance clock_inv_clear_ref
        split: if_splits)
qed

text \<open>Two turns of the hand are enough to find a victim whenever a frame is evictable.\<close>

lemma mod_reach: "h < n \<Longrightarrow> i < n \<Longrightarrow> \<exists>k<n. (h + k) mod n = (i::nat)"
proof -
  assume h: "h < n" and i: "i < n"
  show ?thesis
  proof (cases "h \<le> i")
    case True
    then show ?thesis using i by (intro exI [of _ "i - h"]) auto
  next
    case False
    then show ?thesis using h i by (intro exI [of _ "n + i - h"]) (auto simp: mod_if)
  qed
qed

lemma clock_scan_two_turns:
  assumes inv: "clock_inv r" and ne: "clock_evictable r \<noteq> {}"
  shows "fst (clock_scan (clk_num r * 2) r) \<noteq> None"
proof (cases "clock_scan (clk_num r) r")
  case (Pair v r')
  obtain i where i: "i \<in> clock_evictable r" using ne by blast
  then have num: "clk_num r \<noteq> 0" and i_lt: "i < clk_num r"
    using inv by (auto simp: clock_evictable_def clock_inv_def)
  show ?thesis
  proof (cases v)
    case (Some f)
    have "fst (clock_scan (m + n) s) = Some f" if "clock_scan m s = (Some f, s')" "clock_inv s" "clk_num s \<noteq> 0" for m n s s'
      using that
    proof (induction m arbitrary: s)
      case (Suc m)
      note hand = clock_inv_hand [OF Suc.prems(2,3)]
      show ?case
        using Suc.prems Suc.IH [of "clock_advance s"] Suc.IH [of "clock_advance (clear_ref s)"]
        by (auto simp: clock_scan_step [OF hand Suc.prems(2)] clock_inv_advance clock_inv_clear_ref
            split: if_splits)
    qed simp
    from this [of "clk_num r" r r' "clk_num r"] show ?thesis using Pair Some inv num by (simp add: mult_2_right)
  next
    case None
    note safe = clock_scan_safe [OF inv num, of "clk_num r"]
    have inv': "clock_inv r'" "clk_num r' = clk_num r" "clock_evictable r' = clock_evictable r"
      using safe Pair None by simp_all
    obtain k where k: "k < clk_num r" "(clock_hand r + k) mod clk_num r = i"
      using mod_reach [OF clock_inv_hand [OF inv num] i_lt] by blast
    have clear: "\<not> ref_bit (clk_frames r' ! i)"
      using clock_scan_None [OF inv num, of "clk_num r" r'] Pair None k i by auto
    have "clock_hand r' < clk_num r" using clock_inv_hand [OF inv'(1)] inv'(2) num by simp
    then obtain k' where k': "k' < clk_num r" "(clock_hand r' + k') mod clk_num r = i"
      using mod_reach [OF _ i_lt] by blast
    have "in_replacer (clk_frames r' ! i)" using i inv'(3) by (auto simp: clock_evictable_def)
    then have "fst (clock_scan (clk_num r) r') \<noteq> None"
      using clock_scan_finds [OF inv'(1) _ k'(1)] clear k'(2) inv'(2) num by simp
    then show ?thesis
      using clock_scan_add [of "clk_num r" r r' "clk_num r"] Pair None inv num by (simp add: mult_2_right)
  qed
qed

lemma clock_victim_None: "clock_inv r \<Longrightarrow> fst (clock_victim r) = None \<Longrightarrow> clock_evictable r = {}"
  using clock_scan_two_turns [of r] by (auto simp: clock_victim_def clock_inv_def split: if_splits)

lemma clock_victim_count0: "clock_inv r \<Longrightarrow> clk_count r \<noteq> 0 \<Longrightarrow> clk_num r \<noteq> 0"
  by (auto simp: clock_inv_def clock_evictable_def)

interpretation clk: replacer clock_victim clock_pin clock_unpin clock_size clock_evictable
  "\<lambda>r f. f < clk_num r" clock_inv
proof
  fix r r' :: clock_replacer and f
  assume inv: "clock_inv r"
  note safe = clock_scan_safe [OF inv clock_victim_count0 [OF inv], of "clk_num r * 2"]
  show "finite (clock_evictable r)" by simp
  show "clock_victim r = (Some f, r') \<Longrightarrow> f \<in> clock_evictable r \<and> clock_evictable r' = clock_evictable r - {f}"
    using safe by (auto simp: clock_victim_def split: if_splits)
  show "clock_victim r = (None, r') \<Longrightarrow> clock_evictable r = {} \<and> clock_evictable r' = {}"
    using clock_victim_None [OF inv] safe by (auto simp: clock_victim_def split: if_splits)
  show "clock_evictable (clock_pin f r) = clock_evictable r - {f}" by (rule clock_pin_evictable [OF inv])
  show "f < clk_num r \<Longrightarrow> clock_evictable (clock_unpin f r) = insert f (clock_evictable r)"
    by (rule clock_unpin_evictable [OF inv])
  show "clock_size r = card (clock_evictable r)" using inv by (simp add: clock_size_def clock_inv_def)
  show "clock_inv (snd (clock_victim r))" using safe inv by (simp add: clock_victim_def)
  show "clock_inv (clock_pin f r)" by (rule clock_inv_pin [OF inv])
  show "clock_inv (clock_unpin f r)" by (rule clock_inv_unpin [OF inv])
  show "(\<lambda>f. f < clk_num (snd (clock_victim r))) = (\<lambda>f. f < clk_num r)"
    using safe by (simp add: clock_victim_def)
qed simp_all

subsection \<open>Virtual dispatch\<close>

text \<open>
  \<^verbatim>\<open>Replacer *replacer_\<close> of the pool: an object of one of the two classes, its methods dispatched
  on the class.
\<close>

datatype replacer_object = LRUReplacer lru_replacer | ClockReplacer clock_replacer

fun repl_victim :: "replacer_object \<Rightarrow> frame_id option \<times> replacer_object" where
  "repl_victim (LRUReplacer r) = map_prod id LRUReplacer (lru_victim r)"
| "repl_victim (ClockReplacer r) = map_prod id ClockReplacer (clock_victim r)"

fun repl_pin :: "frame_id \<Rightarrow> replacer_object \<Rightarrow> replacer_object" where
  "repl_pin f (LRUReplacer r) = LRUReplacer (lru_pin f r)"
| "repl_pin f (ClockReplacer r) = ClockReplacer (clock_pin f r)"

fun repl_unpin :: "frame_id \<Rightarrow> replacer_object \<Rightarrow> replacer_object" where
  "repl_unpin f (LRUReplacer r) = LRUReplacer (lru_unpin f r)"
| "repl_unpin f (ClockReplacer r) = ClockReplacer (clock_unpin f r)"

fun repl_size :: "replacer_object \<Rightarrow> nat" where
  "repl_size (LRUReplacer r) = lru_size r"
| "repl_size (ClockReplacer r) = clock_size r"

fun repl_evictable :: "replacer_object \<Rightarrow> frame_id set" where
  "repl_evictable (LRUReplacer r) = set (LRUlist r)"
| "repl_evictable (ClockReplacer r) = clock_evictable r"

fun repl_tracked :: "replacer_object \<Rightarrow> frame_id \<Rightarrow> bool" where
  "repl_tracked (LRUReplacer r) f = True"
| "repl_tracked (ClockReplacer r) f = (f < clk_num r)"

fun repl_inv :: "replacer_object \<Rightarrow> bool" where
  "repl_inv (LRUReplacer r) = lru_inv r"
| "repl_inv (ClockReplacer r) = clock_inv r"

lemma repl_victim_cases:
  assumes "repl_victim r = (v, r')"
  obtains (LRU) l l' where "r = LRUReplacer l" "r' = LRUReplacer l'" "lru_victim l = (v, l')"
  | (Clock) c c' where "r = ClockReplacer c" "r' = ClockReplacer c'" "clock_victim c = (v, c')"
  using assms by (cases r; simp add: map_prod_def split_beta; metis prod.collapse)

interpretation repl: replacer repl_victim repl_pin repl_unpin repl_size repl_evictable
  repl_tracked repl_inv
proof
  fix r r' :: replacer_object and f
  assume inv: "repl_inv r"
  show "finite (repl_evictable r)" by (cases r) simp_all
  show "repl_victim r = (Some f, r') \<Longrightarrow> f \<in> repl_evictable r \<and> repl_evictable r' = repl_evictable r - {f}"
    using inv by (elim repl_victim_cases) (simp_all, auto dest: lru.victim_Some clk.victim_Some)
  show "repl_victim r = (None, r') \<Longrightarrow> repl_evictable r = {} \<and> repl_evictable r' = {}"
    using inv by (elim repl_victim_cases) (simp_all, auto dest: lru.victim_None clk.victim_None)
  show "repl_evictable (repl_pin f r) = repl_evictable r - {f}"
    using inv by (cases r) (simp_all add: lru.pin_evictable clk.pin_evictable)
  show "repl_tracked r f \<Longrightarrow> repl_evictable (repl_unpin f r) = insert f (repl_evictable r)"
    using inv by (cases r) (simp_all add: lru.unpin_evictable clk.unpin_evictable)
  show "repl_size r = card (repl_evictable r)"
    using inv by (cases r) (simp_all add: lru.Size_card clk.Size_card)
  show "repl_inv (snd (repl_victim r))"
    using inv by (cases r) (simp_all add: lru.invar_victim clk.invar_victim)
  show "repl_inv (repl_pin f r)" using inv by (cases r) (simp_all add: lru.invar_pin clk.invar_pin)
  show "repl_inv (repl_unpin f r)" using inv by (cases r) (simp_all add: lru.invar_unpin clk.invar_unpin)
  show "repl_tracked (snd (repl_victim r)) = repl_tracked r"
    using inv clk.tracked_victim by (cases r) (simp_all add: fun_eq_iff)
  show "repl_tracked (repl_pin f r) = repl_tracked r" by (cases r) (simp_all add: fun_eq_iff)
  show "repl_tracked (repl_unpin f r) = repl_tracked r" by (cases r) (simp_all add: fun_eq_iff)
qed

lemma clock_inv_new: "clock_inv (clock_new n)"
  by (auto simp: clock_inv_def clock_new_def clock_evictable_def)

lemma clock_evictable_new: "clock_evictable (clock_new n) = {}"
  by (auto simp: clock_new_def clock_evictable_def)

subsection \<open>Properties\<close>

text \<open>C28: The CLOCK replacer finds a victim exactly when some frame is evictable: the two turns of the hand
  its loop allows are enough, since the first turn clears every reference bit it meets.\<close>

theorem clock_victim_iff:
  assumes "clock_inv r"
  shows "fst (clock_victim r) \<noteq> None \<longleftrightarrow> clock_evictable r \<noteq> {}"
  using clk.victim_cases [OF assms] by (metis empty_iff option.distinct(1))

theorem clock_victim_iff_witness:
  "fst (clock_victim (clock_unpin 1 (clock_new 2))) \<noteq> None \<longleftrightarrow> clock_evictable (clock_unpin 1 (clock_new 2)) \<noteq> {}"
  by (rule clock_victim_iff [OF clock_inv_unpin [OF clock_inv_new]])

text \<open>Whichever replacer the pool uses, a frame that was just pinned is not the next victim, and pinning
  or choosing a victim never makes another frame evictable.\<close>

theorem pinned_frame_not_victim:
  assumes "repl_inv r"
  shows "fst (repl_victim (repl_pin f r)) \<noteq> Some f \<and> repl_inv (repl_pin f r) \<and>
    repl_evictable (repl_pin f r) = repl_evictable r - {f} \<and>
    repl_evictable (snd (repl_victim r)) \<subseteq> repl_evictable r"
proof -
  have "repl_evictable (snd (repl_victim r)) \<subseteq> repl_evictable r"
    using repl.victim_cases [OF assms] by (metis Diff_subset empty_subsetI)
  then show ?thesis
    using repl.pinned_not_victim [OF assms] repl.invar_pin [OF assms] repl.pin_evictable [OF assms] by blast
qed

theorem pinned_frame_not_victim_witness:
  "fst (repl_victim (repl_pin 0 (ClockReplacer (clock_unpin 0 (clock_new 2))))) \<noteq> Some 0"
  using pinned_frame_not_victim [of "ClockReplacer (clock_unpin 0 (clock_new 2))" 0]
    clock_inv_unpin [OF clock_inv_new] by simp

text \<open>The LRU replacer evicts in the order of the unpins: a newly unpinned frame is the victim only when
  no other frame is evictable, and otherwise the victim is the one it would have been before.\<close>

theorem lru_victim_oldest:
  assumes "lru_inv r"
  shows "fst (lru_victim (lru_unpin f r)) = (if LRUlist r = [] then Some f else fst (lru_victim r))"
  using lru_unpin_list [OF assms, of f] by (auto simp: lru_victim_def Let_def)

theorem lru_victim_oldest_witness:
  "fst (lru_victim (lru_unpin 2 (lru_unpin 1 (lru_new 4)))) = Some 1"
  using lru_victim_oldest [OF lru_inv_unpin [OF lru_inv_new], of 2 1 4]
  by (simp add: lru_unpin_def lru_new_def lru_victim_def)

end
