(* ===== verification/Buffer_Pool.thy ===== *)
theory Buffer_Pool
  imports Page_Store Replacers
begin

text \<open>
  The buffer pool (\<^verbatim>\<open>src/src/storage/buffer_pool_manager.cpp\<close>, \<^verbatim>\<open>page.h\<close>). Every public method
  holds \<open>latch_\<close> exclusively for its whole body, so each is one step on the pool's state. A
  \<^verbatim>\<open>Page*\<close> is the index of its frame. An exception of the disk manager leaves the state as it is
  at that point.
\<close>

subsection \<open>Model\<close>

record page =
  pg_id :: PageId
  pg_data :: bytes
  pg_dirty :: bool
  pg_pin :: nat

record buffer_pool =
  bp_pages :: "page list"
  page_table :: "PageId \<rightharpoonup> frame_id"
  free_list :: "frame_id list"
  bp_replacer :: replacer_object
  bp_disk :: disk_manager

definition zero_page :: bytes where "zero_page = replicate PAGE_SIZE 0"

definition get_page_lsn :: "page \<Rightarrow> lsn" where
  "get_page_lsn p = read_i32 0 (pg_data p)"

definition set_page_lsn :: "lsn \<Rightarrow> page \<Rightarrow> page" where
  "set_page_lsn page_lsn p = p\<lparr>pg_data := write_i32 0 page_lsn (pg_data p)\<rparr>"

text \<open>The descriptor of a frame never used is uninitialised in the source: an argument here.\<close>

definition page_new :: "int \<Rightarrow> page" where
  "page_new fd0 = \<lparr>pg_id = \<lparr>pid_fd = fd0, pid_page_no = INVALID_PAGE_ID\<rparr>, pg_data = zero_page,
                   pg_dirty = False, pg_pin = 0\<rparr>"

text \<open>\<open>REPLACER_TYPE\<close> is CLOCK; the other branch of the constructor builds the LRU replacer.\<close>

definition REPLACER_TYPE :: string where "REPLACER_TYPE = ''CLOCK''"

definition pool_new :: "int \<Rightarrow> nat \<Rightarrow> disk_manager \<Rightarrow> buffer_pool" where
  "pool_new fd0 pool_size d =
     \<lparr>bp_pages = replicate pool_size (page_new fd0), page_table = Map.empty,
      free_list = [0..<pool_size],
      bp_replacer = (if REPLACER_TYPE = ''CLOCK'' then ClockReplacer (clock_new pool_size)
                     else LRUReplacer (lru_new pool_size)),
      bp_disk = d\<rparr>"

definition pool_get_size :: "buffer_pool \<Rightarrow> nat" where
  "pool_get_size s = length (bp_pages s)"

definition set_page :: "frame_id \<Rightarrow> page \<Rightarrow> buffer_pool \<Rightarrow> buffer_pool" where
  "set_page f p s = s\<lparr>bp_pages := (bp_pages s)[f := p]\<rparr>"

definition find_victim_page :: "buffer_pool \<Rightarrow> frame_id option \<times> buffer_pool" where
  "find_victim_page s =
     (case free_list s of
        f # fs \<Rightarrow> (Some f, s\<lparr>free_list := fs\<rparr>)
      | [] \<Rightarrow> (case repl_victim (bp_replacer s) of (v, r) \<Rightarrow> (v, s\<lparr>bp_replacer := r\<rparr>)))"

definition update_page :: "frame_id \<Rightarrow> PageId \<Rightarrow> buffer_pool \<Rightarrow> (buffer_pool, unit) outcome" where
  "update_page f new_page_id s =
     (let page = bp_pages s ! f; old = pg_id page;
          wb = (if pg_dirty page \<and> pid_page_no old \<noteq> INVALID_PAGE_ID
                then write_page (pid_fd old) (pid_page_no old) (pg_data page) (bp_disk s)
                else (Inr (), bp_disk s))
      in case wb of
           (Inl e, d) \<Rightarrow> (Inl e, s\<lparr>bp_disk := d\<rparr>)
         | (Inr _, d) \<Rightarrow>
             (Inr (),
              set_page f (page\<lparr>pg_dirty := pg_dirty page \<and> pid_page_no old = INVALID_PAGE_ID,
                               pg_data := zero_page, pg_id := new_page_id\<rparr>)
                (s\<lparr>bp_disk := d, page_table := ((page_table s)(old := None))(new_page_id \<mapsto> f)\<rparr>)))"

definition fetch_page :: "PageId \<Rightarrow> buffer_pool \<Rightarrow> (buffer_pool, frame_id option) outcome" where
  "fetch_page page_id s =
     (case page_table s page_id of
        Some f \<Rightarrow>
          (Inr (Some f),
           set_page f ((bp_pages s ! f)\<lparr>pg_pin := pg_pin (bp_pages s ! f) + 1\<rparr>)
             (s\<lparr>bp_replacer := repl_pin f (bp_replacer s)\<rparr>))
      | None \<Rightarrow>
          (case find_victim_page s of
             (None, s1) \<Rightarrow> (Inr None, s1)
           | (Some f, s1) \<Rightarrow>
               (case update_page f page_id s1 of
                  (Inl e, s2) \<Rightarrow> (Inl e, s2)
                | (Inr _, s2) \<Rightarrow>
                    (case read_page (pid_fd page_id) (pid_page_no page_id) PAGE_SIZE (bp_disk s2) of
                       Inl e \<Rightarrow> (Inl e, s2)
                     | Inr bs \<Rightarrow>
                         (Inr (Some f),
                          set_page f ((bp_pages s2 ! f)\<lparr>pg_data := bs, pg_pin := pg_pin (bp_pages s2 ! f) + 1\<rparr>)
                            (s2\<lparr>bp_replacer := repl_pin f (bp_replacer s2)\<rparr>))))))"

definition unpin_page :: "PageId \<Rightarrow> bool \<Rightarrow> buffer_pool \<Rightarrow> bool \<times> buffer_pool" where
  "unpin_page page_id is_dirty s =
     (case page_table s page_id of
        None \<Rightarrow> (False, s)
      | Some f \<Rightarrow>
          let page = bp_pages s ! f
          in if pg_pin page = 0 then (False, s)
             else let pin_count = pg_pin page - 1;
                      r = (if pin_count = 0 then repl_unpin f (bp_replacer s) else bp_replacer s)
                  in (True, set_page f (page\<lparr>pg_pin := pin_count, pg_dirty := pg_dirty page \<or> is_dirty\<rparr>)
                              (s\<lparr>bp_replacer := r\<rparr>)))"

definition flush_page :: "PageId \<Rightarrow> buffer_pool \<Rightarrow> (buffer_pool, bool) outcome" where
  "flush_page page_id s =
     (case page_table s page_id of
        None \<Rightarrow> (Inr False, s)
      | Some f \<Rightarrow>
          if pid_page_no page_id = INVALID_PAGE_ID then (Inr False, s)
          else case write_page (pid_fd page_id) (pid_page_no page_id) (pg_data (bp_pages s ! f)) (bp_disk s) of
                 (Inl e, d) \<Rightarrow> (Inl e, s\<lparr>bp_disk := d\<rparr>)
               | (Inr _, d) \<Rightarrow>
                   (Inr True, set_page f ((bp_pages s ! f)\<lparr>pg_dirty := False\<rparr>) (s\<lparr>bp_disk := d\<rparr>)))"

definition new_page :: "int \<Rightarrow> buffer_pool \<Rightarrow> (buffer_pool, (frame_id \<times> PageId) option) outcome" where
  "new_page fd s =
     (case find_victim_page s of
        (None, s1) \<Rightarrow> (Inr None, s1)
      | (Some f, s1) \<Rightarrow>
          (case allocate_page fd (bp_disk s1) of
             (Inl e, d) \<Rightarrow> (Inl e, s1\<lparr>bp_disk := d\<rparr>)
           | (Inr page_no, d) \<Rightarrow>
               let page_id = \<lparr>pid_fd = fd, pid_page_no = page_no\<rparr>
               in case update_page f page_id (s1\<lparr>bp_disk := d\<rparr>) of
                    (Inl e, s2) \<Rightarrow> (Inl e, s2)
                  | (Inr _, s2) \<Rightarrow>
                      (Inr (Some (f, page_id)),
                       set_page f ((bp_pages s2 ! f)\<lparr>pg_pin := 1\<rparr>)
                         (s2\<lparr>bp_replacer := repl_pin f (bp_replacer s2)\<rparr>))))"

definition delete_page :: "PageId \<Rightarrow> buffer_pool \<Rightarrow> (buffer_pool, bool) outcome" where
  "delete_page page_id s =
     (case page_table s page_id of
        None \<Rightarrow> (Inr True, s)
      | Some f \<Rightarrow>
          if pg_pin (bp_pages s ! f) \<noteq> 0 then (Inr False, s)
          else case update_page f page_id (s\<lparr>bp_disk := deallocate_page (pid_page_no page_id) (bp_disk s)\<rparr>) of
                 (Inl e, s') \<Rightarrow> (Inl e, s')
               | (Inr _, s') \<Rightarrow> (Inr True, s'\<lparr>free_list := free_list s' @ [f]\<rparr>))"

fun flush_frames :: "int \<Rightarrow> nat \<Rightarrow> nat \<Rightarrow> buffer_pool \<Rightarrow> (buffer_pool, unit) outcome" where
  "flush_frames fd i 0 s = (Inr (), s)"
| "flush_frames fd i (Suc n) s =
     (let page = bp_pages s ! i
      in if fd = pid_fd (pg_id page) \<and> pid_page_no (pg_id page) \<noteq> INVALID_PAGE_ID
         then case write_page (pid_fd (pg_id page)) (pid_page_no (pg_id page)) (pg_data page) (bp_disk s) of
                (Inl e, d) \<Rightarrow> (Inl e, s\<lparr>bp_disk := d\<rparr>)
              | (Inr _, d) \<Rightarrow>
                  flush_frames fd (Suc i) n (set_page i (page\<lparr>pg_dirty := False\<rparr>) (s\<lparr>bp_disk := d\<rparr>))
         else flush_frames fd (Suc i) n s)"

definition flush_all_pages :: "int \<Rightarrow> buffer_pool \<Rightarrow> (buffer_pool, unit) outcome" where
  "flush_all_pages fd s =
     (case flush_frames fd 0 (length (bp_pages s)) s of
        (Inl e, s') \<Rightarrow> (Inl e, s')
      | (Inr _, s') \<Rightarrow> (sync_file fd (bp_disk s'), s'))"

definition mark_dirty :: "frame_id \<Rightarrow> buffer_pool \<Rightarrow> buffer_pool" where
  "mark_dirty f s = set_page f ((bp_pages s ! f)\<lparr>pg_dirty := True\<rparr>) s"

text \<open>An assignment to the data of a page through its \<^verbatim>\<open>Page*\<close>.\<close>

definition page_assign :: "frame_id \<Rightarrow> bytes \<Rightarrow> buffer_pool \<Rightarrow> buffer_pool" where
  "page_assign f c s = set_page f ((bp_pages s ! f)\<lparr>pg_data := c\<rparr>) s"

subsection \<open>Invariant\<close>

text \<open>
  \<open>pool_inv_ex F\<close> is the invariant inside an operation, while the frames \<open>F\<close> have been taken from
  the free list or the replacer and are not yet pinned; between operations \<open>F\<close> is empty.
  A frame is free, or in the page table under the id it carries; the replacer holds exactly the
  unpinned frames in the table.
\<close>

definition table_ok :: "buffer_pool \<Rightarrow> bool" where
  "table_ok s \<longleftrightarrow> (\<forall>pid f. page_table s pid = Some f \<longrightarrow>
     f < length (bp_pages s) \<and> pg_id (bp_pages s ! f) = pid \<and> f \<notin> set (free_list s) \<and>
     0 \<le> pid_page_no pid \<and> pid_page_no pid < fd2pageno (bp_disk s) (pid_fd pid) \<and>
     os_fds (bp_disk s) (pid_fd pid) \<noteq> None)"

definition frame_blank :: "page \<Rightarrow> bool" where
  "frame_blank p \<longleftrightarrow> pid_page_no (pg_id p) = INVALID_PAGE_ID \<and> \<not> pg_dirty p"

definition free_ok :: "buffer_pool \<Rightarrow> bool" where
  "free_ok s \<longleftrightarrow> distinct (free_list s) \<and>
     (\<forall>f\<in>set (free_list s). f < length (bp_pages s) \<and> pg_pin (bp_pages s ! f) = 0 \<and> frame_blank (bp_pages s ! f))"

definition frames_ok :: "frame_id set \<Rightarrow> buffer_pool \<Rightarrow> bool" where
  "frames_ok F s \<longleftrightarrow> (\<forall>f < length (bp_pages s).
     length (pg_data (bp_pages s ! f)) = PAGE_SIZE \<and>
     (f \<in> F \<longrightarrow> pg_pin (bp_pages s ! f) = 0 \<and> f \<notin> set (free_list s)) \<and>
     (f \<in> set (free_list s) \<or> page_table s (pg_id (bp_pages s ! f)) = Some f \<or>
      f \<in> F \<and> frame_blank (bp_pages s ! f)))"

definition replacer_ok :: "frame_id set \<Rightarrow> buffer_pool \<Rightarrow> bool" where
  "replacer_ok F s \<longleftrightarrow> repl_inv (bp_replacer s) \<and>
     (\<forall>f < length (bp_pages s). repl_tracked (bp_replacer s) f) \<and>
     repl_evictable (bp_replacer s) =
       {f. f < length (bp_pages s) \<and> pg_pin (bp_pages s ! f) = 0 \<and> f \<notin> set (free_list s) \<and> f \<notin> F}"

definition pool_inv_ex :: "frame_id set \<Rightarrow> buffer_pool \<Rightarrow> bool" where
  "pool_inv_ex F s \<longleftrightarrow> table_ok s \<and> free_ok s \<and> frames_ok F s \<and> replacer_ok F s \<and>
     disk_inv (bp_disk s) \<and> (\<forall>fd. 0 \<le> fd2pageno (bp_disk s) fd)"

abbreviation pool_inv :: "buffer_pool \<Rightarrow> bool" where
  "pool_inv \<equiv> pool_inv_ex {}"

lemmas pool_inv_defs = pool_inv_ex_def table_ok_def free_ok_def frames_ok_def replacer_ok_def frame_blank_def

lemmas page_fields = nth_list_update_field [where g = pg_id] nth_list_update_field [where g = pg_data]
  nth_list_update_field [where g = pg_dirty] nth_list_update_field [where g = pg_pin]

lemma set_page_simps [simp]:
  "bp_pages (set_page f p s) = (bp_pages s)[f := p]" "page_table (set_page f p s) = page_table s"
  "free_list (set_page f p s) = free_list s" "bp_replacer (set_page f p s) = bp_replacer s"
  "bp_disk (set_page f p s) = bp_disk s"
  by (simp_all add: set_page_def)

lemma pool_inv_new: "disk_inv d \<Longrightarrow> (\<And>fd. 0 \<le> fd2pageno d fd) \<Longrightarrow> pool_inv (pool_new fd0 n d)"
  by (simp add: pool_inv_defs pool_new_def page_new_def zero_page_def REPLACER_TYPE_def
      clock_inv_new clock_evictable_new) (simp add: clock_new_def)

text \<open>Facts of the invariant in the form the proofs use.\<close>

lemma pool_inv_table:
  "pool_inv_ex F s \<Longrightarrow> page_table s pid = Some f \<Longrightarrow>
   f < length (bp_pages s) \<and> pg_id (bp_pages s ! f) = pid \<and> f \<notin> set (free_list s) \<and> 0 \<le> pid_page_no pid \<and>
   pid_page_no pid < fd2pageno (bp_disk s) (pid_fd pid) \<and> os_fds (bp_disk s) (pid_fd pid) \<noteq> None"
  by (simp add: pool_inv_ex_def table_ok_def)

lemma pool_inv_in_table:
  assumes "pool_inv_ex F s" and "f < length (bp_pages s)" and "pg_pin (bp_pages s ! f) \<noteq> 0"
  shows "page_table s (pg_id (bp_pages s ! f)) = Some f"
  using assms unfolding pool_inv_ex_def frames_ok_def free_ok_def by metis

lemma pool_inv_frame_old:
  assumes "pool_inv_ex F s" and "f < length (bp_pages s)"
  shows "frame_blank (bp_pages s ! f) \<or> page_table s (pg_id (bp_pages s ! f)) = Some f"
  using assms unfolding pool_inv_ex_def frames_ok_def free_ok_def by blast

lemma pool_inv_data_length:
  "pool_inv_ex F s \<Longrightarrow> f < length (bp_pages s) \<Longrightarrow> length (pg_data (bp_pages s ! f)) = PAGE_SIZE"
  by (simp add: pool_inv_ex_def frames_ok_def)

lemma table_inj:
  "pool_inv_ex F s \<Longrightarrow> page_table s p = Some f \<Longrightarrow> page_table s q = Some f \<Longrightarrow> p = q"
  using pool_inv_table [of F s p f] pool_inv_table [of F s q f] by simp

subsection \<open>Choosing a frame\<close>

lemma find_victim_frame:
  "find_victim_page s = (v, s1) \<Longrightarrow>
   bp_pages s1 = bp_pages s \<and> page_table s1 = page_table s \<and> bp_disk s1 = bp_disk s"
  by (auto simp: find_victim_page_def split: list.splits prod.splits)

lemma find_victim_Some:
  assumes inv: "pool_inv s" and v: "find_victim_page s = (Some f, s1)"
  shows "f < length (bp_pages s) \<and> pg_pin (bp_pages s ! f) = 0 \<and> pool_inv_ex {f} s1"
proof (cases "free_list s")
  case (Cons g fs)
  then have s1: "f = g" "s1 = s\<lparr>free_list := fs\<rparr>" using v by (simp_all add: find_victim_page_def)
  have "table_ok s1" using inv Cons s1 by (auto simp: pool_inv_ex_def table_ok_def)
  moreover have "free_ok s1" using inv Cons s1 by (auto simp: pool_inv_ex_def free_ok_def)
  moreover have "frames_ok {f} s1"
    using inv Cons s1 by (auto simp: pool_inv_ex_def frames_ok_def free_ok_def)
  moreover have "replacer_ok {f} s1"
    using inv Cons s1 by (auto simp: pool_inv_ex_def replacer_ok_def)
  ultimately show ?thesis using inv Cons s1 by (simp add: pool_inv_ex_def free_ok_def)
next
  case Nil
  then obtain r where r: "repl_victim (bp_replacer s) = (Some f, r)" and s1: "s1 = s\<lparr>bp_replacer := r\<rparr>"
    using v by (auto simp: find_victim_page_def split: prod.splits)
  have ri: "repl_inv (bp_replacer s)" using inv by (simp add: pool_inv_ex_def replacer_ok_def)
  have ev: "f \<in> repl_evictable (bp_replacer s)" "repl_evictable r = repl_evictable (bp_replacer s) - {f}"
    using repl.victim_Some [OF ri r] by simp_all
  have "repl_inv r" "repl_tracked r = repl_tracked (bp_replacer s)"
    using repl.invar_victim [OF ri] repl.tracked_victim [OF ri] r by simp_all
  with ev s1 inv Nil show ?thesis unfolding pool_inv_defs by auto
qed

lemma find_victim_None:
  assumes inv: "pool_inv s" and v: "find_victim_page s = (None, s1)"
  shows "pool_inv s1 \<and> (\<forall>f < length (bp_pages s). pg_pin (bp_pages s ! f) \<noteq> 0)"
proof -
  have Nil: "free_list s = []" using v by (auto simp: find_victim_page_def split: list.splits)
  then obtain r where r: "repl_victim (bp_replacer s) = (None, r)" and s1: "s1 = s\<lparr>bp_replacer := r\<rparr>"
    using v by (auto simp: find_victim_page_def split: prod.splits)
  have ri: "repl_inv (bp_replacer s)" using inv by (simp add: pool_inv_ex_def replacer_ok_def)
  have ev: "repl_evictable (bp_replacer s) = {}" "repl_evictable r = {}"
    using repl.victim_None [OF ri r] by simp_all
  have "repl_inv r" "repl_tracked r = repl_tracked (bp_replacer s)"
    using repl.invar_victim [OF ri] repl.tracked_victim [OF ri] r by simp_all
  with ev s1 inv Nil show ?thesis unfolding pool_inv_defs by auto
qed

lemma find_victim_finds:
  assumes inv: "pool_inv s" and f: "f < length (bp_pages s)" "pg_pin (bp_pages s ! f) = 0"
  obtains g s1 where "find_victim_page s = (Some g, s1)"
proof (cases "find_victim_page s")
  case (Pair v s1)
  then show ?thesis using find_victim_None [OF inv, of s1] f that by (cases v) auto
qed

subsection \<open>Replacing the page of a frame\<close>

text \<open>The page id may be put in a frame: it is not cached, and its file is open.\<close>

definition installable :: "PageId \<Rightarrow> buffer_pool \<Rightarrow> bool" where
  "installable pid s \<longleftrightarrow> page_table s pid = None \<and> 0 \<le> pid_page_no pid \<and>
     pid_page_no pid < fd2pageno (bp_disk s) (pid_fd pid) \<and> os_fds (bp_disk s) (pid_fd pid) \<noteq> None"

text \<open>The disk after the write-back of \<open>update_page\<close>.\<close>

definition written_back :: "frame_id \<Rightarrow> buffer_pool \<Rightarrow> disk_manager \<Rightarrow> bool" where
  "written_back f s d \<longleftrightarrow> disk_inv d \<and> os_fds d = os_fds (bp_disk s) \<and> fd2pageno d = fd2pageno (bp_disk s) \<and>
     (pg_dirty (bp_pages s ! f) \<longrightarrow> disk_page d (pg_id (bp_pages s ! f)) = Some (pg_data (bp_pages s ! f))) \<and>
     (\<not> pg_dirty (bp_pages s ! f) \<longrightarrow> d = bp_disk s) \<and>
     (\<forall>q c. q \<noteq> pg_id (bp_pages s ! f) \<longrightarrow> disk_page (bp_disk s) q = Some c \<longrightarrow> disk_page d q = Some c)"

lemma written_back_write:
  assumes inv: "pool_inv_ex F s" and f: "f < length (bp_pages s)"
    and t: "page_table s (pg_id (bp_pages s ! f)) = Some f"
  obtains d where "write_page (pid_fd (pg_id (bp_pages s ! f))) (pid_page_no (pg_id (bp_pages s ! f)))
      (pg_data (bp_pages s ! f)) (bp_disk s) = (Inr (), d)"
    and "disk_inv d" "os_fds d = os_fds (bp_disk s)" "fd2pageno d = fd2pageno (bp_disk s)"
    and "disk_page d (pg_id (bp_pages s ! f)) = Some (pg_data (bp_pages s ! f))"
    and "\<And>q c. q \<noteq> pg_id (bp_pages s ! f) \<Longrightarrow> disk_page (bp_disk s) q = Some c \<Longrightarrow> disk_page d q = Some c"
proof -
  let ?p = "bp_pages s ! f"
  note ok = pool_inv_table [OF inv t] pool_inv_data_length [OF inv f]
  have di: "disk_inv (bp_disk s)" using inv by (simp add: pool_inv_ex_def)
  have w: "os_fds (bp_disk s) (pid_fd (pg_id ?p)) \<noteq> None" "0 \<le> pid_page_no (pg_id ?p)"
    "length (pg_data ?p) = PAGE_SIZE" using ok by simp_all
  obtain d where d: "write_page (pid_fd (pg_id ?p)) (pid_page_no (pg_id ?p)) (pg_data ?p) (bp_disk s) = (Inr (), d)"
    using write_page_succeeds [OF di w(1,2)] by blast
  show ?thesis
    using that [OF d] write_page_frame [OF di d] disk_page_write_same [OF di w d]
      disk_page_write_other [OF di w d] by blast
qed

lemma update_page_ok:
  assumes inv: "pool_inv_ex {f} s" and f: "f < length (bp_pages s)"
  obtains d where "written_back f s d"
    and "update_page f pid s =
      (Inr (), set_page f ((bp_pages s ! f)\<lparr>pg_dirty := False, pg_data := zero_page, pg_id := pid\<rparr>)
         (s\<lparr>bp_disk := d, page_table := ((page_table s)(pg_id (bp_pages s ! f) := None))(pid \<mapsto> f)\<rparr>))"
proof (cases "pg_dirty (bp_pages s ! f)")
  case False
  have "written_back f s (bp_disk s)" using inv False by (simp add: written_back_def pool_inv_ex_def)
  then show ?thesis by (rule that) (simp add: update_page_def False Let_def)
next
  case True
  then have t: "page_table s (pg_id (bp_pages s ! f)) = Some f"
    using pool_inv_frame_old [OF inv f] by (simp add: frame_blank_def)
  then have v: "pid_page_no (pg_id (bp_pages s ! f)) \<noteq> INVALID_PAGE_ID"
    using pool_inv_table [OF inv t] by (simp add: INVALID_PAGE_ID_def)
  show ?thesis
  proof (rule written_back_write [OF inv f t])
    fix d assume d: "write_page (pid_fd (pg_id (bp_pages s ! f))) (pid_page_no (pg_id (bp_pages s ! f)))
        (pg_data (bp_pages s ! f)) (bp_disk s) = (Inr (), d)"
      "disk_inv d" "os_fds d = os_fds (bp_disk s)" "fd2pageno d = fd2pageno (bp_disk s)"
      "disk_page d (pg_id (bp_pages s ! f)) = Some (pg_data (bp_pages s ! f))"
      "\<And>q c. q \<noteq> pg_id (bp_pages s ! f) \<Longrightarrow> disk_page (bp_disk s) q = Some c \<Longrightarrow> disk_page d q = Some c"
    show ?thesis
      by (rule that [of d]) (simp_all add: written_back_def update_page_def Let_def d True v)
  qed
qed

text \<open>Pinning the frame in transit, with its new contents, completes the operation.\<close>

lemma pool_inv_install:
  assumes inv: "pool_inv_ex {f} s" and f: "f < length (bp_pages s)" and pid: "installable pid s"
    and wb: "written_back f s d" and bs: "length bs = PAGE_SIZE" and n: "n \<noteq> 0"
  shows "pool_inv (s\<lparr>bp_pages := (bp_pages s)[f := \<lparr>pg_id = pid, pg_data = bs, pg_dirty = False, pg_pin = n\<rparr>],
      bp_disk := d, page_table := ((page_table s)(pg_id (bp_pages s ! f) := None))(pid \<mapsto> f),
      bp_replacer := repl_pin f (bp_replacer s)\<rparr>)"
    (is "pool_inv ?s")
proof -
  let ?old = "pg_id (bp_pages s ! f)"
  have d: "disk_inv d" "os_fds d = os_fds (bp_disk s)" "fd2pageno d = fd2pageno (bp_disk s)"
    using wb by (simp_all add: written_back_def)
  have nf: "f \<notin> set (free_list s)" using inv f by (simp add: pool_inv_ex_def frames_ok_def)
  have tf: "q = ?old" if "page_table s q = Some f" for q using pool_inv_table [OF inv that] by simp
  have "table_ok ?s"
    unfolding table_ok_def
  proof (intro allI impI)
    fix q g assume q: "page_table ?s q = Some g"
    show "g < length (bp_pages ?s) \<and> pg_id (bp_pages ?s ! g) = q \<and> g \<notin> set (free_list ?s) \<and>
      0 \<le> pid_page_no q \<and> pid_page_no q < fd2pageno (bp_disk ?s) (pid_fd q) \<and> os_fds (bp_disk ?s) (pid_fd q) \<noteq> None"
    proof (cases "q = pid")
      case True
      then show ?thesis using q pid f nf d by (simp add: installable_def)
    next
      case False
      then have "page_table s q = Some g" "q \<noteq> ?old" using q by (simp_all split: if_splits)
      moreover from this have "g \<noteq> f" using tf by blast
      ultimately show ?thesis using pool_inv_table [OF inv, of q g] d by simp
    qed
  qed
  moreover have "free_ok ?s"
  proof -
    have "free_ok s" using inv by (simp add: pool_inv_ex_def)
    moreover have "f \<noteq> g" if "g \<in> set (free_list s)" for g using that nf by blast
    ultimately show ?thesis by (simp add: free_ok_def)
  qed
  moreover have "frames_ok {} ?s"
    unfolding frames_ok_def
  proof (intro allI impI conjI)
    fix g assume "g < length (bp_pages ?s)"
    then have g: "g < length (bp_pages s)" by simp
    show "length (pg_data (bp_pages ?s ! g)) = PAGE_SIZE"
      using pool_inv_data_length [OF inv g] bs f by (simp add: nth_list_update)
    show "g \<in> set (free_list ?s) \<or> page_table ?s (pg_id (bp_pages ?s ! g)) = Some g \<or>
      g \<in> {} \<and> frame_blank (bp_pages ?s ! g)"
    proof (cases "g = f")
      case False
      then have "g \<in> set (free_list s) \<or> page_table s (pg_id (bp_pages s ! g)) = Some g"
        using inv g unfolding pool_inv_ex_def frames_ok_def by blast
      moreover have "pg_id (bp_pages s ! g) \<noteq> pid" "pg_id (bp_pages s ! g) \<noteq> ?old"
        if "page_table s (pg_id (bp_pages s ! g)) = Some g"
        using that pid pool_inv_frame_old [OF inv f] pool_inv_table [OF inv that] False
        by (auto simp: installable_def frame_blank_def INVALID_PAGE_ID_def)
      ultimately show ?thesis using False by auto
    qed (use f in simp)
  qed simp_all
  moreover have "replacer_ok {} ?s"
  proof -
    have r: "replacer_ok {f} s" using inv by (simp add: pool_inv_ex_def)
    then have ri: "repl_inv (bp_replacer s)" by (simp add: replacer_ok_def)
    show ?thesis
      using r n f repl.invar_pin [OF ri] repl.tracked_pin [OF ri] repl.pin_evictable [OF ri]
      by (auto simp: replacer_ok_def nth_list_update)
  qed
  ultimately show ?thesis using inv d by (simp add: pool_inv_ex_def)
qed

definition installed :: "frame_id \<Rightarrow> PageId \<Rightarrow> bytes \<Rightarrow> disk_manager \<Rightarrow> buffer_pool \<Rightarrow> buffer_pool" where
  "installed f pid bs d s =
     s\<lparr>bp_pages := (bp_pages s)[f := \<lparr>pg_id = pid, pg_data = bs, pg_dirty = False, pg_pin = 1\<rparr>],
       bp_disk := d, page_table := ((page_table s)(pg_id (bp_pages s ! f) := None))(pid \<mapsto> f),
       bp_replacer := repl_pin f (bp_replacer s)\<rparr>"

lemma installed_eqI:
  assumes "bp_pages s' = (bp_pages s)[f := \<lparr>pg_id = pid, pg_data = bs, pg_dirty = False, pg_pin = 1\<rparr>]"
    and "page_table s' = ((page_table s)(pg_id (bp_pages s ! f) := None))(pid \<mapsto> f)"
    and "free_list s' = free_list s" and "bp_replacer s' = repl_pin f (bp_replacer s)" and "bp_disk s' = d"
  shows "s' = installed f pid bs d s"
  using assms by (intro buffer_pool.equality) (simp_all add: installed_def)

lemma page_built [simp]:
  "p\<lparr>pg_dirty := b, pg_id := i, pg_data := c, pg_pin := n\<rparr> = \<lparr>pg_id = i, pg_data = c, pg_dirty = b, pg_pin = n\<rparr>"
  "p\<lparr>pg_dirty := b, pg_data := c, pg_id := i, pg_pin := n\<rparr> = \<lparr>pg_id = i, pg_data = c, pg_dirty = b, pg_pin = n\<rparr>"
  by simp_all

lemma pool_inv_installed:
  "pool_inv_ex {f} s \<Longrightarrow> f < length (bp_pages s) \<Longrightarrow> installable pid s \<Longrightarrow> written_back f s d \<Longrightarrow>
   length bs = PAGE_SIZE \<Longrightarrow> pool_inv (installed f pid bs d s)"
  unfolding installed_def by (rule pool_inv_install) simp_all

subsection \<open>Refinement of the page store\<close>

definition pool_pins :: "buffer_pool \<Rightarrow> PageId \<Rightarrow> nat" where
  "pool_pins s q = (case page_table s q of None \<Rightarrow> 0 | Some f \<Rightarrow> pg_pin (bp_pages s ! f))"

text \<open>
  The pool holds page \<open>q\<close> with contents \<open>c\<close>: in its frame, or on disk when it is not cached. A
  cached page that is neither dirty nor touched has the same contents on disk.
\<close>

definition page_holds :: "buffer_pool \<Rightarrow> PageId set \<Rightarrow> PageId \<Rightarrow> bytes \<Rightarrow> bool" where
  "page_holds s T q c \<longleftrightarrow> length c = PAGE_SIZE \<and> pid_page_no q < fd2pageno (bp_disk s) (pid_fd q) \<and>
     (case page_table s q of
        None \<Rightarrow> disk_page (bp_disk s) q = Some c
      | Some f \<Rightarrow> pg_data (bp_pages s ! f) = c \<and>
                  (pg_dirty (bp_pages s ! f) \<or> q \<in> T \<or> disk_page (bp_disk s) q = Some c))"

definition pool_rel :: "buffer_pool \<Rightarrow> page_store \<Rightarrow> bool" where
  "pool_rel s a \<longleftrightarrow> pool_inv s \<and>
     (\<forall>q c. ps_pages a q = Some c \<longrightarrow>
        page_holds s (set (ps_touched a)) q c \<and> (q \<in> set (ps_touched a) \<longrightarrow> q \<in> set (ps_pins a))) \<and>
     (\<forall>q. count_list (ps_pins a) q = pool_pins s q) \<and>
     ps_next a = fd2pageno (bp_disk s) \<and>
     (\<forall>fd\<in>set (ps_fds a). 0 \<le> fd \<and> fd < MAX_FD \<and> os_fds (bp_disk s) fd \<noteq> None) \<and>
     ps_cap a = length (bp_pages s)"

lemma pool_rel_holds: "pool_rel s a \<Longrightarrow> ps_pages a q = Some c \<Longrightarrow> page_holds s (set (ps_touched a)) q c"
  by (simp add: pool_rel_def)

lemma pool_rel_data:
  "pool_rel s a \<Longrightarrow> page_table s pid = Some f \<Longrightarrow> ps_pages a pid = Some c \<Longrightarrow> pg_data (bp_pages s ! f) = c"
  using pool_rel_holds [of s a pid c] by (simp add: page_holds_def)

lemma pool_rel_touched: "pool_rel s a \<Longrightarrow> ps_pages a q = Some c \<Longrightarrow> q \<in> set (ps_touched a) \<Longrightarrow> q \<in> set (ps_pins a)"
  by (simp add: pool_rel_def)

lemma pool_pins_pinned: "pool_rel s a \<Longrightarrow> q \<in> set (ps_pins a) \<longleftrightarrow> pool_pins s q \<noteq> 0"
  by (metis pool_rel_def count_list_0_iff)

lemma pool_pins_frame:
  "pool_inv_ex F s \<Longrightarrow> pool_pins s q \<noteq> 0 \<Longrightarrow>
   \<exists>f < length (bp_pages s). page_table s q = Some f \<and> pg_pin (bp_pages s ! f) \<noteq> 0 \<and> pg_id (bp_pages s ! f) = q"
  using pool_inv_table [of F s q] by (auto simp: pool_pins_def split: option.splits)

lemma card_pins:
  assumes rel: "pool_rel s a"
  shows "card (set (ps_pins a)) = card {f. f < length (bp_pages s) \<and> pg_pin (bp_pages s ! f) \<noteq> 0}"
proof -
  have inv: "pool_inv s" using rel by (simp add: pool_rel_def)
  let ?P = "{f. f < length (bp_pages s) \<and> pg_pin (bp_pages s ! f) \<noteq> 0}"
  have "bij_betw (\<lambda>f. pg_id (bp_pages s ! f)) ?P (set (ps_pins a))"
  proof (rule bij_betw_imageI)
    show "inj_on (\<lambda>f. pg_id (bp_pages s ! f)) ?P"
      using pool_inv_in_table [OF inv] by (intro inj_onI) (metis (mono_tags, lifting) mem_Collect_eq option.inject)
    show "(\<lambda>f. pg_id (bp_pages s ! f)) ` ?P = set (ps_pins a)"
    proof (intro equalityI subsetI)
      fix q assume "q \<in> (\<lambda>f. pg_id (bp_pages s ! f)) ` ?P"
      then show "q \<in> set (ps_pins a)"
        using pool_inv_in_table [OF inv] by (auto simp: pool_pins_pinned [OF rel] pool_pins_def)
    next
      fix q assume "q \<in> set (ps_pins a)"
      then show "q \<in> (\<lambda>f. pg_id (bp_pages s ! f)) ` ?P"
        using pool_pins_frame [OF inv, of q] by (auto simp: pool_pins_pinned [OF rel])
    qed
  qed
  then show ?thesis by (simp add: bij_betw_same_card)
qed

lemma pool_full:
  assumes rel: "pool_rel s a"
  shows "ps_cap a \<le> card (set (ps_pins a)) \<longleftrightarrow> (\<forall>f < length (bp_pages s). pg_pin (bp_pages s ! f) \<noteq> 0)"
proof -
  let ?P = "{f. f < length (bp_pages s) \<and> pg_pin (bp_pages s ! f) \<noteq> 0}"
  have sub: "?P \<subseteq> {..<length (bp_pages s)}" by auto
  have "length (bp_pages s) \<le> card ?P \<longleftrightarrow> ?P = {..<length (bp_pages s)}"
    using card_seteq [OF _ sub] by fastforce
  then show ?thesis using card_pins [OF rel] rel by (auto simp: pool_rel_def)
qed

lemma page_holds_no:
  assumes "pool_inv_ex F s" and "page_holds s T q c"
  shows "0 \<le> pid_page_no q"
proof (cases "page_table s q")
  case None
  then show ?thesis using assms(2) by (auto simp: page_holds_def disk_page_def' split: option.splits if_splits)
qed (use pool_inv_table [OF assms(1)] in blast)

lemma installed_pins:
  assumes inv: "pool_inv_ex {f} s" and f: "f < length (bp_pages s)" and pid: "installable pid s"
  shows "pool_pins (installed f pid bs d s) q = (if q = pid then 1 else pool_pins s q)"
proof -
  have pin0: "pg_pin (bp_pages s ! f) = 0" using inv f by (simp add: pool_inv_ex_def frames_ok_def)
  have "pool_pins s q = 0" if "page_table s q = Some f" using that pin0 by (simp add: pool_pins_def)
  moreover have "page_table s (pg_id (bp_pages s ! f)) \<in> {None, Some f}"
    using pool_inv_frame_old [OF inv f] pool_inv_table [OF inv, of "pg_id (bp_pages s ! f)"]
    by (cases "page_table s (pg_id (bp_pages s ! f))") (auto simp: frame_blank_def INVALID_PAGE_ID_def)
  ultimately show ?thesis
    using f pin0 pool_inv_table [OF inv, of q f]
    by (auto simp: pool_pins_def installed_def nth_list_update split: option.splits)
qed

lemma installed_holds:
  assumes inv: "pool_inv_ex {f} s" and f: "f < length (bp_pages s)" and pid: "installable pid s"
    and wb: "written_back f s d" and q: "page_holds s T q c" "q \<noteq> pid"
    and T: "q \<in> T \<Longrightarrow> pool_pins s q \<noteq> 0"
  shows "page_holds (installed f pid bs d s) T q c"
proof (cases "q = pg_id (bp_pages s ! f) \<and> page_table s q = Some f")
  case True
  then have tq: "page_table s q = Some f" by blast
  moreover have "pg_pin (bp_pages s ! f) = 0" using inv f by (simp add: pool_inv_ex_def frames_ok_def)
  ultimately have "pool_pins s q = 0" by (simp add: pool_pins_def)
  then have "disk_page d q = Some c"
    using True q(1) T wb by (auto simp: page_holds_def written_back_def)
  then show ?thesis using True q wb by (simp add: page_holds_def installed_def written_back_def)
next
  case False
  then have ne: "q \<noteq> pg_id (bp_pages s ! f)" "page_table s q \<noteq> Some f"
    using pool_inv_frame_old [OF inv f] pool_inv_table [OF inv, of q f] page_holds_no [OF inv q(1)]
    by (auto simp: frame_blank_def INVALID_PAGE_ID_def)
  then have "disk_page (bp_disk s) q = Some c \<Longrightarrow> disk_page d q = Some c" using wb by (simp add: written_back_def)
  then show ?thesis
    using ne q wb f by (auto simp: page_holds_def installed_def written_back_def nth_list_update split: option.splits)
qed

lemma victim_rel:
  assumes rel: "pool_rel s a" and room: "\<not> ps_cap a \<le> card (set (ps_pins a))"
  obtains f s1 where "find_victim_page s = (Some f, s1)" "f < length (bp_pages s)" "pool_inv_ex {f} s1"
    "bp_pages s1 = bp_pages s" "page_table s1 = page_table s" "bp_disk s1 = bp_disk s"
    "pg_pin (bp_pages s ! f) = 0"
proof -
  have inv: "pool_inv s" using rel by (simp add: pool_rel_def)
  obtain g where "g < length (bp_pages s)" "pg_pin (bp_pages s ! g) = 0"
    using room pool_full [OF rel] by blast
  then obtain f s1 where v: "find_victim_page s = (Some f, s1)" using find_victim_finds [OF inv] by blast
  show ?thesis using that [OF v] find_victim_Some [OF inv v] find_victim_frame [OF v] by simp
qed

lemma pool_same_frames:
  assumes "bp_pages s1 = bp_pages s" "page_table s1 = page_table s" "bp_disk s1 = bp_disk s"
  shows "pool_pins s1 q = pool_pins s q" "page_holds s1 T q c = page_holds s T q c"
    "installable pid s1 = installable pid s"
  unfolding pool_pins_def page_holds_def installable_def assms by simp_all

lemma full_rel:
  assumes rel: "pool_rel s a" and full: "ps_cap a \<le> card (set (ps_pins a))"
  obtains s1 where "find_victim_page s = (None, s1)" "pool_rel s1 a"
proof (cases "find_victim_page s")
  case (Pair v s1)
  have inv: "pool_inv s" using rel by (simp add: pool_rel_def)
  have v: "v = None" using full pool_full [OF rel] find_victim_Some [OF inv] Pair by (cases v) auto
  note same = find_victim_frame [OF Pair]
  have "pool_rel s1 a"
    using rel find_victim_None [OF inv] Pair v same pool_same_frames [of s1 s] by (simp add: pool_rel_def)
  then show ?thesis using that Pair v by simp
qed

text \<open>Pinning a cached page once more.\<close>

lemma pool_inv_repin:
  assumes inv: "pool_inv s" and t: "page_table s pid = Some f"
  shows "pool_inv (set_page f ((bp_pages s ! f)\<lparr>pg_pin := pg_pin (bp_pages s ! f) + 1\<rparr>)
           (s\<lparr>bp_replacer := repl_pin f (bp_replacer s)\<rparr>))" (is "pool_inv ?s")
proof -
  note ok = pool_inv_table [OF inv t]
  have r: "replacer_ok {} s" "repl_inv (bp_replacer s)" using inv by (simp_all add: pool_inv_ex_def replacer_ok_def)
  have pid: "pg_id (bp_pages ?s ! g) = pg_id (bp_pages s ! g)" for g
    by (simp add: page_fields)
  have "table_ok ?s" using inv by (simp add: pool_inv_ex_def table_ok_def page_fields)
  moreover have "free_ok ?s" using inv ok by (auto simp: pool_inv_ex_def free_ok_def nth_list_update)
  moreover have "frames_ok {} ?s"
    using inv unfolding pool_inv_ex_def frames_ok_def pid by (simp add: page_fields)
  moreover have "replacer_ok {} ?s"
    using r ok repl.invar_pin [OF r(2)] repl.tracked_pin [OF r(2)] repl.pin_evictable [OF r(2)]
    by (auto simp: replacer_ok_def nth_list_update)
  ultimately show ?thesis using inv by (simp add: pool_inv_ex_def)
qed

lemma fetch_hit:
  assumes rel: "pool_rel s a" and t: "page_table s pid = Some f" and c: "ps_pages a pid = Some c"
  shows "\<exists>s'. fetch_page pid s = (Inr (Some f), s') \<and> pg_data (bp_pages s' ! f) = c \<and>
           pool_rel s' (a\<lparr>ps_pins := pid # ps_pins a\<rparr>)"
proof -
  let ?s = "set_page f ((bp_pages s ! f)\<lparr>pg_pin := pg_pin (bp_pages s ! f) + 1\<rparr>)
              (s\<lparr>bp_replacer := repl_pin f (bp_replacer s)\<rparr>)"
  have inv: "pool_inv s" using rel by (simp add: pool_rel_def)
  note ok = pool_inv_table [OF inv t]
  have pins: "pool_pins ?s q = (if q = pid then pool_pins s q + 1 else pool_pins s q)" for q
  proof (cases "page_table s q")
    case (Some g)
    then have "g = f \<longleftrightarrow> q = pid" using t table_inj [OF inv, of q f pid] by auto
    then show ?thesis using Some ok t by (cases "q = pid") (simp_all add: pool_pins_def nth_list_update)
  qed (use t in \<open>auto simp: pool_pins_def\<close>)
  have holds: "page_holds ?s T q c' = page_holds s T q c'" for T q c'
    by (simp add: page_holds_def page_fields split: option.split)
  have cnt: "count_list (pid # ps_pins a) q = pool_pins ?s q" for q
    using rel by (simp only: pins) (simp add: pool_rel_def)
  have "pool_rel ?s (a\<lparr>ps_pins := pid # ps_pins a\<rparr>)"
    unfolding pool_rel_def using rel pool_inv_repin [OF inv t] cnt
    by (simp only: holds page_store.simps) (simp add: pool_rel_def)
  moreover have "pg_data (bp_pages s ! f) = c" using pool_rel_holds [OF rel c] t by (simp add: page_holds_def)
  ultimately show ?thesis using ok by (simp add: fetch_page_def t)
qed

lemma fetch_miss:
  assumes rel: "pool_rel s a" and t: "page_table s pid = None" and c: "ps_pages a pid = Some c"
    and room: "\<not> ps_cap a \<le> card (set (ps_pins a))"
  shows "\<exists>f s'. fetch_page pid s = (Inr (Some f), s') \<and> pg_data (bp_pages s' ! f) = c \<and>
           pool_rel s' (a\<lparr>ps_pins := pid # ps_pins a\<rparr>)"
proof -
  obtain f s1 where v: "find_victim_page s = (Some f, s1)" and f: "f < length (bp_pages s)"
    and inv1: "pool_inv_ex {f} s1" and same: "bp_pages s1 = bp_pages s" "page_table s1 = page_table s" "bp_disk s1 = bp_disk s"
    and pin0: "pg_pin (bp_pages s ! f) = 0"
    using victim_rel [OF rel room] by blast
  have holds: "page_holds s (set (ps_touched a)) pid c" using rel c by (simp add: pool_rel_def)
  then have dp: "disk_page (bp_disk s) pid = Some c" by (simp add: page_holds_def t)
  then have inst: "installable pid s1"
    using t holds same by (auto simp: installable_def page_holds_def disk_page_def' fd_content_def split: option.splits if_splits)
  obtain d where wb: "written_back f s1 d" and up: "update_page f pid s1 =
      (Inr (), set_page f ((bp_pages s1 ! f)\<lparr>pg_dirty := False, pg_data := zero_page, pg_id := pid\<rparr>)
         (s1\<lparr>bp_disk := d, page_table := ((page_table s1)(pg_id (bp_pages s1 ! f) := None))(pid \<mapsto> f)\<rparr>))"
    using update_page_ok [OF inv1, of pid] f same by auto
  have "pid \<noteq> pg_id (bp_pages s1 ! f)"
    using pool_inv_frame_old [OF inv1, of f] inst f same by (auto simp: installable_def frame_blank_def INVALID_PAGE_ID_def)
  then have "disk_page d pid = Some c" using wb dp same by (simp add: written_back_def)
  then have rd: "read_page (pid_fd pid) (pid_page_no pid) PAGE_SIZE d = Inr c"
    by (simp add: disk_page_def split: sum.splits)
  have fetch: "fetch_page pid s = (Inr (Some f), installed f pid c d s1)"
    using f same pin0 by (simp add: fetch_page_def t v up rd, intro installed_eqI) simp_all
  have len: "length c = PAGE_SIZE" using holds by (simp add: page_holds_def)
  let ?s = "installed f pid c d s1" and ?a = "a\<lparr>ps_pins := pid # ps_pins a\<rparr>"
  have inv': "pool_inv ?s" using pool_inv_installed [OF inv1 _ inst wb len] f same by simp
  have pins: "pool_pins ?s q = (if q = pid then 1 else pool_pins s q)" for q
    using installed_pins [OF inv1 _ inst] f same pool_same_frames [OF same] by simp
  have "pool_pins s pid = 0" by (simp add: pool_pins_def t)
  then have cnt: "count_list (pid # ps_pins a) q = pool_pins ?s q" for q
    using rel by (simp add: pins pool_rel_def)
  have keep: "page_holds ?s (set (ps_touched a)) q b \<and> (q \<in> set (ps_touched a) \<longrightarrow> q \<in> set (pid # ps_pins a))"
    if "ps_pages a q = Some b" for q b
  proof -
    have old: "page_holds s1 (set (ps_touched a)) q b" "q \<in> set (ps_touched a) \<Longrightarrow> pool_pins s1 q \<noteq> 0"
      "q \<in> set (ps_touched a) \<Longrightarrow> q \<in> set (ps_pins a)"
      using rel that pool_pins_pinned [OF rel] pool_same_frames [OF same] by (auto simp: pool_rel_def)
    show ?thesis
    proof (cases "q = pid")
      case True
      then show ?thesis using that c wb holds len \<open>disk_page d pid = Some c\<close> f same
        by (auto simp: page_holds_def installed_def written_back_def)
    next
      case False
      then show ?thesis using installed_holds [OF inv1 _ inst wb old(1) False old(2)] f same old(3) by simp
    qed
  qed
  have "pool_rel ?s ?a"
    unfolding pool_rel_def
    using rel inv' cnt keep wb same by (simp add: pool_rel_def installed_def written_back_def)
  moreover have "pg_data (bp_pages ?s ! f) = c" using f same by (simp add: installed_def)
  ultimately show ?thesis using fetch by blast
qed

lemma pool_inv_allocate:
  assumes inv: "pool_inv_ex F s"
  shows "pool_inv_ex F (s\<lparr>bp_disk := (bp_disk s)\<lparr>fd2pageno := (fd2pageno (bp_disk s))(fd := fd2pageno (bp_disk s) fd + 1)\<rparr>\<rparr>)"
    (is "pool_inv_ex F ?s")
proof -
  have "table_ok ?s"
    unfolding table_ok_def using pool_inv_table [OF inv] by (force simp: add.commute less_le_trans)
  moreover have "disk_inv (bp_disk ?s)" using inv by (simp add: pool_inv_ex_def disk_inv_def)
  ultimately show ?thesis
    using inv by (simp add: pool_inv_ex_def free_ok_def frames_ok_def replacer_ok_def)
qed

lemma new_page_sim:
  assumes rel: "pool_rel s a" and room: "\<not> ps_cap a \<le> card (set (ps_pins a))" and fd: "fd \<in> set (ps_fds a)"
    and pid: "pid = \<lparr>pid_fd = fd, pid_page_no = ps_next a fd\<rparr>"
  shows "\<exists>f s'. new_page fd s = (Inr (Some (f, pid)), s') \<and>
           pool_rel s' (a\<lparr>ps_pages := (ps_pages a)(pid \<mapsto> zero_page), ps_pins := pid # ps_pins a,
                 ps_touched := pid # ps_touched a, ps_next := (ps_next a)(fd := ps_next a fd + 1)\<rparr>)"
    (is "\<exists>f s'. _ \<and> pool_rel s' ?a")
proof -
  obtain f s1 where v: "find_victim_page s = (Some f, s1)" and f: "f < length (bp_pages s)"
    and inv1: "pool_inv_ex {f} s1" and same: "bp_pages s1 = bp_pages s" "page_table s1 = page_table s" "bp_disk s1 = bp_disk s"
    and pin0: "pg_pin (bp_pages s ! f) = 0"
    using victim_rel [OF rel room] by blast
  have fd_ok: "0 \<le> fd \<and> fd < MAX_FD" "os_fds (bp_disk s) fd \<noteq> None" "0 \<le> fd2pageno (bp_disk s) fd"
    and next_eq: "ps_next a = fd2pageno (bp_disk s)" and inv: "pool_inv s"
    using rel fd by (auto simp: pool_rel_def pool_inv_ex_def)
  define d0 where "d0 = (bp_disk s1)\<lparr>fd2pageno := (fd2pageno (bp_disk s1))(fd := fd2pageno (bp_disk s1) fd + 1)\<rparr>"
  define s2 where "s2 = s1\<lparr>bp_disk := d0\<rparr>"
  have inv2: "pool_inv_ex {f} s2" unfolding s2_def d0_def by (rule pool_inv_allocate [OF inv1])
  have dp: "disk_page d0 q = disk_page (bp_disk s) q" for q
    by (simp add: d0_def same)
  have f2: "f < length (bp_pages s2)" using f same by (simp add: s2_def)
  have fresh: "page_table s pid = None"
    using pool_inv_table [OF inv, of pid] pid next_eq by (cases "page_table s pid") auto
  have inst: "installable pid s2"
    using fresh same fd_ok next_eq by (simp add: installable_def s2_def d0_def pid)
  obtain d where wb: "written_back f s2 d" and up: "update_page f pid s2 =
      (Inr (), set_page f ((bp_pages s2 ! f)\<lparr>pg_dirty := False, pg_data := zero_page, pg_id := pid\<rparr>)
         (s2\<lparr>bp_disk := d, page_table := ((page_table s2)(pg_id (bp_pages s2 ! f) := None))(pid \<mapsto> f)\<rparr>))"
    using update_page_ok [OF inv2 f2, of pid] by blast
  let ?s = "installed f pid zero_page d s2"
  have alloc: "allocate_page fd (bp_disk s1) = (Inr (ps_next a fd), d0)"
    using fd_ok(1) by (simp add: allocate_page_def d0_def next_eq same)
  have new: "new_page fd s = (Inr (Some (f, pid)), ?s)"
    using up f2 by (simp add: new_page_def v alloc Let_def pid [symmetric] s2_def [symmetric], intro installed_eqI) simp_all
  have inv': "pool_inv ?s" using pool_inv_installed [OF inv2 f2 inst wb] by (simp add: zero_page_def)
  have same2: "pool_pins s2 q = pool_pins s q" for q 
    by (simp add: pool_pins_def s2_def same cong: option.case_cong)
  have "pool_pins s pid = 0" by (simp add: pool_pins_def fresh)
  then have cnt: "count_list (pid # ps_pins a) q = pool_pins ?s q" for q
    using rel installed_pins [OF inv2 f2 inst, of zero_page d q] same2 by (simp add: pool_rel_def)
  have keep: "page_holds ?s (set (pid # ps_touched a)) q b \<and> (q \<in> set (pid # ps_touched a) \<longrightarrow> q \<in> set (pid # ps_pins a))"
    if "ps_pages ?a q = Some b" for q b
  proof (cases "q = pid")
    case True
    then show ?thesis using that f2 wb inst
      by (auto simp: page_holds_def installed_def zero_page_def written_back_def installable_def)
  next
    case False
    then have qb: "ps_pages a q = Some b" using that by simp
    then have old: "page_holds s (set (ps_touched a)) q b" "q \<in> set (ps_touched a) \<longrightarrow> q \<in> set (ps_pins a)"
      using rel by (simp_all add: pool_rel_def)
    have "pid_page_no q < fd2pageno d0 (pid_fd q)"
      using old(1) by (auto simp: page_holds_def d0_def same)
    then have "page_holds s2 (set (pid # ps_touched a)) q b"
      using old(1) False by (simp add: page_holds_def s2_def same dp split: option.splits)
    from installed_holds [OF inv2 f2 inst wb this False] old False pool_pins_pinned [OF rel, of q] same2
    show ?thesis by auto
  qed
  have "pool_rel ?s ?a"
    unfolding pool_rel_def
    using rel inv' cnt keep wb by (simp add: pool_rel_def installed_def written_back_def s2_def d0_def same)
  then show ?thesis using new by blast
qed

text \<open>Updates of one cached frame that keep its page id: the shared part of the remaining cases.\<close>

lemma pool_inv_set_page:
  assumes inv: "pool_inv s" and t: "page_table s pid = Some f" and p: "pg_id p = pid" "length (pg_data p) = PAGE_SIZE"
    and r: "replacer_ok {} (set_page f p (s\<lparr>bp_replacer := r, bp_disk := d\<rparr>))"
    and d: "disk_inv d" "os_fds d = os_fds (bp_disk s)" "fd2pageno d = fd2pageno (bp_disk s)"
  shows "pool_inv (set_page f p (s\<lparr>bp_replacer := r, bp_disk := d\<rparr>))" (is "pool_inv ?s")
proof -
  note ok = pool_inv_table [OF inv t]
  have id: "pg_id (bp_pages ?s ! g) = pg_id (bp_pages s ! g)" for g using ok p by (simp add: page_fields)
  have "table_ok ?s" using inv d id by (simp add: pool_inv_ex_def table_ok_def)
  moreover have "free_ok ?s" using inv ok by (auto simp: pool_inv_ex_def free_ok_def nth_list_update)
  moreover have "frames_ok {} ?s"
    using inv p ok unfolding pool_inv_ex_def frames_ok_def id by (simp add: nth_list_update)
  ultimately show ?thesis using inv r d by (simp add: pool_inv_ex_def)
qed

lemma replacer_ok_same_pin:
  assumes inv: "pool_inv s" and "pg_pin p = pg_pin (bp_pages s ! f)"
  shows "replacer_ok {} (set_page f p (s\<lparr>bp_replacer := bp_replacer s, bp_disk := d\<rparr>))"
  using assms by (simp add: pool_inv_ex_def replacer_ok_def page_fields)

lemma set_page_pins:
  assumes inv: "pool_inv s" and t: "page_table s pid = Some f"
  shows "pool_pins (set_page f p (s\<lparr>bp_replacer := r, bp_disk := d\<rparr>)) q = (if q = pid then pg_pin p else pool_pins s q)"
proof (cases "page_table s q")
  case (Some g)
  then have "g = f \<longleftrightarrow> q = pid" using t table_inj [OF inv, of q f pid] by auto
  then show ?thesis using Some pool_inv_table [OF inv t] t
    by (cases "q = pid") (simp_all add: pool_pins_def nth_list_update)
qed (use t in \<open>auto simp: pool_pins_def\<close>)

lemma set_page_holds:
  assumes inv: "pool_inv s" and t: "page_table s pid = Some f"
    and q: "page_holds s T q c" "q \<noteq> pid" and T: "q \<in> T \<Longrightarrow> q \<in> T'"
    and d: "fd2pageno d = fd2pageno (bp_disk s)"
      "disk_page (bp_disk s) q = Some c \<Longrightarrow> disk_page d q = Some c"
  shows "page_holds (set_page f p (s\<lparr>bp_replacer := r, bp_disk := d\<rparr>)) T' q c"
proof -
  have "page_table s q \<noteq> Some f" using t table_inj [OF inv, of q f pid] q(2) by auto
  then show ?thesis using q T d by (auto simp: page_holds_def nth_list_update split: option.splits)
qed

lemma unpin_sim:
  assumes rel: "pool_rel s a" and pin: "ps_unpin pid is_dirty a = (Inr (Done b), a')"
  shows "\<exists>s'. unpin_page pid is_dirty s = (b, s') \<and> pool_rel s' a'"
proof (cases "pid \<in> set (ps_pins a)")
  case False
  then have "pool_pins s pid = 0" "b = False" "a' = a"
    using pin pool_pins_pinned [OF rel] by (auto simp: ps_unpin_def)
  then show ?thesis using rel by (auto simp: unpin_page_def pool_pins_def split: option.splits)
next
  case True
  have inv: "pool_inv s" using rel by (simp add: pool_rel_def)
  obtain f where t: "page_table s pid = Some f" and pos: "pg_pin (bp_pages s ! f) \<noteq> 0"
    using True pool_pins_pinned [OF rel] pool_pins_frame [OF inv] by blast
  note ok = pool_inv_table [OF inv t]
  define n where "n = pg_pin (bp_pages s ! f) - 1"
  define p where "p = (bp_pages s ! f)\<lparr>pg_pin := n, pg_dirty := pg_dirty (bp_pages s ! f) \<or> is_dirty\<rparr>"
  define r where "r = (if n = 0 then repl_unpin f (bp_replacer s) else bp_replacer s)"
  define T where "T = (if is_dirty then removeAll pid (ps_touched a) else ps_touched a)"
  define lost where "lost \<longleftrightarrow> pid \<notin> set (remove1 pid (ps_pins a)) \<and> pid \<in> set T"
  let ?s = "set_page f p (s\<lparr>bp_replacer := r, bp_disk := bp_disk s\<rparr>)"
  have b: "b = True" and a': "a' = a\<lparr>ps_pins := remove1 pid (ps_pins a), ps_touched := T,
      ps_pages := (if lost then (ps_pages a)(pid := None) else ps_pages a)\<rparr>"
    using pin True by (auto simp: ps_unpin_def Let_def T_def lost_def)
  have "unpin_page pid is_dirty s = (True, ?s)"
    using pos by (simp add: unpin_page_def t Let_def p_def r_def n_def)
  moreover have "pool_rel ?s a'"
  proof -
    have ri: "repl_inv (bp_replacer s)" "replacer_ok {} s" using inv by (simp_all add: pool_inv_ex_def replacer_ok_def)
    have "replacer_ok {} ?s"
      using ri ok pos repl.invar_unpin [OF ri(1)] repl.tracked_unpin [OF ri(1)] repl.unpin_evictable [OF ri(1), of f]
      by (auto simp: replacer_ok_def r_def p_def n_def nth_list_update)
    moreover have "disk_inv (bp_disk s)" using inv by (simp add: pool_inv_ex_def)
    moreover have "pg_id p = pid" "length (pg_data p) = PAGE_SIZE"
      using ok pool_inv_data_length [OF inv] by (simp_all add: p_def)
    ultimately have inv': "pool_inv ?s" by (intro pool_inv_set_page [OF inv t]) simp_all
    have cnt: "count_list (remove1 pid (ps_pins a)) q = pool_pins ?s q" for q
    proof -
      have "count_list (ps_pins a) q = pool_pins s q" using rel by (simp add: pool_rel_def)
      then show ?thesis
        using True t set_page_pins [OF inv t, where p = p and r = r and d = "bp_disk s" and q = q]
        by (simp add: count_list_remove1 pool_pins_def p_def n_def)
    qed
    have keep: "page_holds ?s (set T) q c \<and> (q \<in> set T \<longrightarrow> q \<in> set (remove1 pid (ps_pins a)))"
      if q: "ps_pages a' q = Some c" for q c
    proof -
      have old: "page_holds s (set (ps_touched a)) q c" "q \<in> set (ps_touched a) \<longrightarrow> q \<in> set (ps_pins a)"
        using rel q a' by (auto simp: pool_rel_def split: if_splits)
      show ?thesis
      proof (cases "q = pid")
        case True
        then have "\<not> lost" using q a' by auto
        then show ?thesis using old True t ok
          by (auto simp: lost_def page_holds_def p_def T_def)
      next
        case False
        then have qT: "q \<in> set (ps_touched a) \<longleftrightarrow> q \<in> set T" by (simp add: T_def)
        have "page_holds ?s (set T) q c" using qT by (intro set_page_holds [OF inv t old(1) False]) simp_all
        then show ?thesis using old(2) False qT by simp
      qed
    qed
    show ?thesis unfolding pool_rel_def
      using rel inv' cnt keep a' by (simp add: pool_rel_def)
  qed
  ultimately show ?thesis using b by blast
qed

lemma set_page_sim:
  assumes rel: "pool_rel s a" and t: "page_table s pid = Some f"
    and p: "pg_id p = pid" "length (pg_data p) = PAGE_SIZE" "pg_pin p = pg_pin (bp_pages s ! f)"
    and d: "disk_inv d" "os_fds d = os_fds (bp_disk s)" "fd2pageno d = fd2pageno (bp_disk s)"
      "\<And>q c. q \<noteq> pid \<Longrightarrow> disk_page (bp_disk s) q = Some c \<Longrightarrow> disk_page d q = Some c"
    and a': "\<And>q. q \<noteq> pid \<Longrightarrow> ps_pages a' q = ps_pages a q"
      "\<And>q. q \<noteq> pid \<Longrightarrow> q \<in> set (ps_touched a') \<longleftrightarrow> q \<in> set (ps_touched a)"
      "ps_pins a' = ps_pins a" "ps_next a' = ps_next a" "ps_fds a' = ps_fds a" "ps_cap a' = ps_cap a"
    and c: "\<And>c. ps_pages a' pid = Some c \<Longrightarrow>
      c = pg_data p \<and> (pg_dirty p \<or> pid \<in> set (ps_touched a') \<or> disk_page d pid = Some c) \<and>
      (pid \<in> set (ps_touched a') \<longrightarrow> pid \<in> set (ps_pins a))"
  shows "pool_rel (set_page f p (s\<lparr>bp_replacer := bp_replacer s, bp_disk := d\<rparr>)) a'" (is "pool_rel ?s a'")
proof -
  have inv: "pool_inv s" using rel by (simp add: pool_rel_def)
  note ok = pool_inv_table [OF inv t]
  have inv': "pool_inv ?s"
    by (rule pool_inv_set_page [OF inv t p(1,2) replacer_ok_same_pin [OF inv p(3)] d(1-3)])
  have pins: "pool_pins ?s q = pool_pins s q" for q
    using set_page_pins [OF inv t, where p = p and r = "bp_replacer s" and d = d and q = q] t p(3)
    by (simp add: pool_pins_def)
  have keep: "page_holds ?s (set (ps_touched a')) q b \<and> (q \<in> set (ps_touched a') \<longrightarrow> q \<in> set (ps_pins a))"
    if q: "ps_pages a' q = Some b" for q b
  proof (cases "q = pid")
    case True
    then show ?thesis using c [of b] q t ok p d by (auto simp: page_holds_def)
  next
    case False
    then have old: "page_holds s (set (ps_touched a)) q b" "q \<in> set (ps_touched a) \<longrightarrow> q \<in> set (ps_pins a)"
      using rel q a' by (auto simp: pool_rel_def)
    then show ?thesis
      using set_page_holds [OF inv t old(1) False, where T' = "set (ps_touched a')" and d = d] a'(2) [OF False]
        d(3) d(4) [OF False] by blast
  qed
  show ?thesis
    unfolding pool_rel_def using rel inv' pins keep a' d by (simp add: pool_rel_def)
qed

lemma pinned_frame:
  assumes rel: "pool_rel s a" and "pid \<in> set (ps_pins a)"
  obtains f where "page_table s pid = Some f" "f < length (bp_pages s)" "pg_id (bp_pages s ! f) = pid"
    "length (pg_data (bp_pages s ! f)) = PAGE_SIZE"
proof -
  have inv: "pool_inv s" using rel by (simp add: pool_rel_def)
  obtain f where "page_table s pid = Some f"
    using pool_pins_pinned [OF rel] assms(2) pool_pins_frame [OF inv] by blast
  then show ?thesis using that pool_inv_table [OF inv] pool_inv_data_length [OF inv] by blast
qed

text \<open>The pool's side of the commands.\<close>

fun pool_step :: "page_cmd \<Rightarrow> buffer_pool \<Rightarrow> (buffer_pool, page_obs) outcome" where
  "pool_step (Fetch pid) s =
     (case fetch_page pid s of
        (Inl e, s') \<Rightarrow> (Inl e, s')
      | (Inr v, s') \<Rightarrow> (Inr (Got (map_option (\<lambda>f. pg_data (bp_pages s' ! f)) v)), s'))"
| "pool_step (Write pid c) s =
     (case page_table s pid of
        None \<Rightarrow> (Inl (InternalError ''page is not pinned''), s)
      | Some f \<Rightarrow> (Inr Quiet, page_assign f c s))"
| "pool_step (MarkDirty pid) s =
     (case page_table s pid of
        None \<Rightarrow> (Inl (InternalError ''page is not pinned''), s)
      | Some f \<Rightarrow> (Inr Quiet, mark_dirty f s))"
| "pool_step (Unpin pid d) s = map_prod (\<lambda>b. Inr (Done b)) id (unpin_page pid d s)"
| "pool_step (New fd) s =
     (case new_page fd s of
        (Inl e, s') \<Rightarrow> (Inl e, s')
      | (Inr v, s') \<Rightarrow> (Inr (Created (map_option snd v)), s'))"
| "pool_step (Flush pid) s =
     (case flush_page pid s of (Inl e, s') \<Rightarrow> (Inl e, s') | (Inr b, s') \<Rightarrow> (Inr (Done b), s'))"

lemma fetch_sim:
  assumes rel: "pool_rel s a" and st: "ps_fetch pid a = (Inr b, a')"
  shows "\<exists>s'. pool_step (Fetch pid) s = (Inr b, s') \<and> pool_rel s' a'"
proof (cases "pid \<notin> set (ps_pins a) \<and> ps_cap a \<le> card (set (ps_pins a))")
  case True
  then have b: "b = Got None" "a' = a" using st by (auto simp: ps_fetch_def)
  obtain s1 where v: "find_victim_page s = (None, s1)" "pool_rel s1 a" using full_rel [OF rel] True by blast
  have inv: "pool_inv s" using rel by (simp add: pool_rel_def)
  have "page_table s pid = None"
  proof (rule ccontr)
    assume "page_table s pid \<noteq> None"
    then obtain f where f: "page_table s pid = Some f" by blast
    then have "pg_pin (bp_pages s ! f) \<noteq> 0" using True pool_full [OF rel] pool_inv_table [OF inv f] by blast
    then show False using True f pool_pins_pinned [OF rel, of pid] by (simp add: pool_pins_def)
  qed
  then show ?thesis using v b by (simp add: fetch_page_def)
next
  case False
  then obtain c where c: "ps_pages a pid = Some c" "b = Got (Some c)" "a' = a\<lparr>ps_pins := pid # ps_pins a\<rparr>"
    using st by (auto simp: ps_fetch_def split: option.splits if_splits)
  show ?thesis
  proof (cases "page_table s pid")
    case None
    then have "pid \<notin> set (ps_pins a)" using pool_pins_pinned [OF rel, of pid] by (simp add: pool_pins_def)
    then show ?thesis using fetch_miss [OF rel None c(1)] False c by auto
  next
    case (Some f)
    then show ?thesis using fetch_hit [OF rel Some c(1)] c by auto
  qed
qed

interpretation pool: page_store_impl pool_step pool_rel
proof
  fix s a cmd b a'
  assume rel: "pool_rel s a" and st: "ps_step cmd a = (Inr b, a')"
  have di: "disk_inv (bp_disk s)" using rel by (simp add: pool_rel_def pool_inv_ex_def)
  show "\<exists>s'. pool_step cmd s = (Inr b, s') \<and> pool_rel s' a'"
  proof (cases cmd)
    case (Fetch pid)
    then show ?thesis using fetch_sim [OF rel] st by simp
  next
    case (Write pid c)
    then have w: "pid \<in> set (ps_pins a)" "length c = PAGE_SIZE" "b = Quiet"
      "a' = a\<lparr>ps_pages := (ps_pages a)(pid \<mapsto> c), ps_touched := pid # ps_touched a\<rparr>"
      using st by (auto simp: ps_write_def split: if_splits)
    obtain f where f: "page_table s pid = Some f" "pg_id (bp_pages s ! f) = pid"
      using pinned_frame [OF rel w(1)] by blast
    have "pool_rel (set_page f ((bp_pages s ! f)\<lparr>pg_data := c\<rparr>) (s\<lparr>bp_replacer := bp_replacer s, bp_disk := bp_disk s\<rparr>)) a'"
      by (rule set_page_sim [OF rel f(1)]) (use w f di in auto)
    then show ?thesis using Write f w by (simp add: page_assign_def)
  next
    case (MarkDirty pid)
    then have w: "pid \<in> set (ps_pins a)" "b = Quiet" "a' = a\<lparr>ps_touched := removeAll pid (ps_touched a)\<rparr>"
      using st by (auto simp: ps_mark_dirty_def split: if_splits)
    obtain f where f: "page_table s pid = Some f" "pg_id (bp_pages s ! f) = pid"
      "length (pg_data (bp_pages s ! f)) = PAGE_SIZE"
      using pinned_frame [OF rel w(1)] by blast
    have "pool_rel (set_page f ((bp_pages s ! f)\<lparr>pg_dirty := True\<rparr>) (s\<lparr>bp_replacer := bp_replacer s, bp_disk := bp_disk s\<rparr>)) a'"
      by (rule set_page_sim [OF rel f(1)]) (use w f di pool_rel_data [OF rel f(1)] in auto)
    then show ?thesis using MarkDirty f w by (simp add: mark_dirty_def)
  next
    case (Unpin pid d)
    then obtain b' where "b = Done b'" using st by (auto simp: ps_unpin_def Let_def split: if_splits)
    then show ?thesis using unpin_sim [OF rel, of pid d b' a'] Unpin st by auto
  next
    case (New fd)
    show ?thesis
    proof (cases "ps_cap a \<le> card (set (ps_pins a))")
      case True
      then obtain s1 where "find_victim_page s = (None, s1)" "pool_rel s1 a" using full_rel [OF rel] by blast
      then show ?thesis using New True st by (simp add: ps_new_def new_page_def)
    next
      case False
      let ?pid = "\<lparr>pid_fd = fd, pid_page_no = ps_next a fd\<rparr>"
      have fd: "fd \<in> set (ps_fds a)" using New False st by (auto simp: ps_new_def split: if_splits)
      then show ?thesis using new_page_sim [OF rel False fd, of ?pid] New False st
        by (auto simp: ps_new_def Let_def zero_page_def)
    qed
  next
    case (Flush pid)
    then have w: "pid \<in> set (ps_pins a)" "b = Done True" "a' = a"
      using st by (auto simp: ps_flush_def split: if_splits)
    obtain f where f: "page_table s pid = Some f" "f < length (bp_pages s)" "pg_id (bp_pages s ! f) = pid"
      "length (pg_data (bp_pages s ! f)) = PAGE_SIZE"
      using pinned_frame [OF rel w(1)] by blast
    have inv: "pool_inv s" using rel by (simp add: pool_rel_def)
    obtain d where d: "write_page (pid_fd pid) (pid_page_no pid) (pg_data (bp_pages s ! f)) (bp_disk s) = (Inr (), d)"
      "disk_inv d" "os_fds d = os_fds (bp_disk s)" "fd2pageno d = fd2pageno (bp_disk s)"
      "disk_page d pid = Some (pg_data (bp_pages s ! f))"
      "\<And>q c. q \<noteq> pid \<Longrightarrow> disk_page (bp_disk s) q = Some c \<Longrightarrow> disk_page d q = Some c"
      using written_back_write [OF inv f(2)] f by metis
    have "pool_rel (set_page f ((bp_pages s ! f)\<lparr>pg_dirty := False\<rparr>) (s\<lparr>bp_replacer := bp_replacer s, bp_disk := d\<rparr>)) a'"
      by (rule set_page_sim [OF rel f(1)]) (use w f d pool_rel_data [OF rel f(1)] pool_rel_touched [OF rel] in auto)
    moreover have "pid_page_no pid \<noteq> INVALID_PAGE_ID"
      using pool_inv_table [OF inv f(1)] by (simp add: INVALID_PAGE_ID_def)
    ultimately show ?thesis using Flush f w d by (simp add: flush_page_def)
  qed
qed

subsection \<open>Properties of single operations\<close>

text \<open>The pool just built over a disk, against the store of the pages on that disk.\<close>

definition store_init :: "nat \<Rightarrow> int list \<Rightarrow> disk_manager \<Rightarrow> page_store" where
  "store_init n fds d = \<lparr>ps_pages = (\<lambda>pid. if pid_page_no pid < fd2pageno d (pid_fd pid) then disk_page d pid else None),
     ps_pins = [], ps_touched = [], ps_next = fd2pageno d, ps_fds = fds, ps_cap = n\<rparr>"

lemma disk_page_length: "disk_page d pid = Some c \<Longrightarrow> length c = PAGE_SIZE"
  by (auto simp: disk_page_def' read_bytes_def split: option.splits if_splits)

lemma pool_rel_new:
  assumes "disk_inv d" and "\<And>fd. 0 \<le> fd2pageno d fd"
    and "\<forall>fd\<in>set fds. 0 \<le> fd \<and> fd < MAX_FD \<and> os_fds d fd \<noteq> None"
  shows "pool_rel (pool_new fd0 n d) (store_init n fds d)"
  using pool_inv_new [OF assms(1,2)] assms(3)
  by (auto simp: pool_rel_def store_init_def pool_new_def page_holds_def pool_pins_def
      dest: disk_page_length split: if_splits)

text \<open>Frames in use survive every fetch, also one that fails.\<close>

lemma update_page_other:
  assumes inv: "pool_inv_ex {f} s" and f: "f < length (bp_pages s)" and pid: "page_table s pid = None"
    and q: "page_table s q = Some g" "g \<noteq> f"
    and up: "update_page f pid s = (r, s')"
  shows "page_table s' q = Some g \<and> bp_pages s' ! g = bp_pages s ! g"
proof -
  have "q \<noteq> pid" "q \<noteq> pg_id (bp_pages s ! f)"
    using pid q pool_inv_frame_old [OF inv f] pool_inv_table [OF inv q(1)]
    by (auto simp: frame_blank_def INVALID_PAGE_ID_def)
  moreover obtain d where "update_page f pid s =
      (Inr (), set_page f ((bp_pages s ! f)\<lparr>pg_dirty := False, pg_data := zero_page, pg_id := pid\<rparr>)
         (s\<lparr>bp_disk := d, page_table := ((page_table s)(pg_id (bp_pages s ! f) := None))(pid \<mapsto> f)\<rparr>))"
    using update_page_ok [OF inv f, of pid] by blast
  ultimately show ?thesis using up q by auto
qed

lemma fetch_keeps_pinned:
  assumes inv: "pool_inv s" and q: "page_table s q = Some g" "pg_pin (bp_pages s ! g) \<noteq> 0"
    and fetch: "fetch_page pid s = (r, s')"
  shows "page_table s' q = Some g \<and> pg_data (bp_pages s' ! g) = pg_data (bp_pages s ! g) \<and>
    (q \<noteq> pid \<longrightarrow> r \<noteq> Inr (Some g))"
proof (cases "page_table s pid")
  case (Some f)
  then have "f = g \<longleftrightarrow> q = pid" using q table_inj [OF inv, of q g pid] by auto
  then show ?thesis using fetch q Some by (auto simp: fetch_page_def page_fields)
next
  case None
  show ?thesis
  proof (cases "find_victim_page s")
    case (Pair v s1)
    note same = find_victim_frame [OF Pair]
    show ?thesis
    proof (cases v)
      case None
      then show ?thesis using fetch Pair same q \<open>page_table s pid = None\<close> by (auto simp: fetch_page_def)
    next
      case (Some f)
      have ok: "f < length (bp_pages s)" "f \<noteq> g" "pool_inv_ex {f} s1"
        using find_victim_Some [OF inv] Pair Some q by auto
      obtain r2 s2 where up: "update_page f pid s1 = (r2, s2)" by fastforce
      have "page_table s2 q = Some g \<and> bp_pages s2 ! g = bp_pages s1 ! g"
        using update_page_other [OF ok(3) _ _ _ _ up] ok q same \<open>page_table s pid = None\<close> by metis
      then show ?thesis
        using fetch Pair Some up ok same \<open>page_table s pid = None\<close>
        by (auto simp: fetch_page_def split: sum.splits)
    qed
  qed
qed

lemma fetch_nullptr:
  assumes inv: "pool_inv s"
  shows "fst (fetch_page pid s) = Inr None \<longleftrightarrow>
    page_table s pid = None \<and> (\<forall>f < length (bp_pages s). pg_pin (bp_pages s ! f) \<noteq> 0)"
proof (cases "page_table s pid")
  case None
  obtain v s1 where v: "find_victim_page s = (v, s1)" by fastforce
  have "v = None \<longleftrightarrow> (\<forall>f < length (bp_pages s). pg_pin (bp_pages s ! f) \<noteq> 0)"
    using find_victim_None [OF inv, of s1] find_victim_Some [OF inv, of _ s1] v by (cases v) auto
  moreover have "fst (fetch_page pid s) = Inr None \<longleftrightarrow> v = None"
    using None v by (auto simp: fetch_page_def split: option.splits prod.splits sum.splits)
  ultimately show ?thesis using None by simp
qed (simp add: fetch_page_def)

text \<open>Flushing a file leaves every cached page of it clean and on disk.\<close>

definition flushed :: "buffer_pool \<Rightarrow> buffer_pool \<Rightarrow> bool" where
  "flushed s s' \<longleftrightarrow> pool_inv s' \<and> page_table s' = page_table s \<and> length (bp_pages s') = length (bp_pages s) \<and>
     os_fds (bp_disk s') = os_fds (bp_disk s) \<and>
     (\<forall>f < length (bp_pages s). pg_data (bp_pages s' ! f) = pg_data (bp_pages s ! f) \<and>
        pg_id (bp_pages s' ! f) = pg_id (bp_pages s ! f) \<and>
        (\<not> pg_dirty (bp_pages s ! f) \<longrightarrow> \<not> pg_dirty (bp_pages s' ! f))) \<and>
     (\<forall>pid f. page_table s pid = Some f \<longrightarrow> disk_page (bp_disk s) pid = Some (pg_data (bp_pages s ! f)) \<longrightarrow>
        disk_page (bp_disk s') pid = Some (pg_data (bp_pages s ! f)))"

lemma flushed_refl: "pool_inv s \<Longrightarrow> flushed s s"
  by (simp add: flushed_def)

lemma flushed_trans:
  assumes inv: "pool_inv s" and 1: "flushed s s1" and 2: "flushed s1 s2"
  shows "flushed s s2"
proof -
  have "disk_page (bp_disk s2) pid = Some (pg_data (bp_pages s ! f))"
    if t: "page_table s pid = Some f" and d: "disk_page (bp_disk s) pid = Some (pg_data (bp_pages s ! f))" for pid f
  proof -
    have f: "f < length (bp_pages s)" using pool_inv_table [OF inv t] by simp
    then have "pg_data (bp_pages s1 ! f) = pg_data (bp_pages s ! f)" "page_table s1 pid = Some f"
      "disk_page (bp_disk s1) pid = Some (pg_data (bp_pages s ! f))"
      using 1 t d by (simp_all add: flushed_def)
    then show ?thesis using 2 by (simp add: flushed_def)
  qed
  then show ?thesis using 1 2 by (simp add: flushed_def)
qed

lemma flush_one:
  assumes inv: "pool_inv s" and t: "page_table s (pg_id (bp_pages s ! f)) = Some f"
    and f: "f < length (bp_pages s)"
  obtains d where "write_page (pid_fd (pg_id (bp_pages s ! f))) (pid_page_no (pg_id (bp_pages s ! f)))
      (pg_data (bp_pages s ! f)) (bp_disk s) = (Inr (), d)"
    and "flushed s (set_page f ((bp_pages s ! f)\<lparr>pg_dirty := False\<rparr>) (s\<lparr>bp_disk := d\<rparr>))"
    and "disk_page d (pg_id (bp_pages s ! f)) = Some (pg_data (bp_pages s ! f))"
proof (rule written_back_write [OF inv f t])
  fix d
  assume d: "write_page (pid_fd (pg_id (bp_pages s ! f))) (pid_page_no (pg_id (bp_pages s ! f)))
      (pg_data (bp_pages s ! f)) (bp_disk s) = (Inr (), d)"
    "disk_inv d" "os_fds d = os_fds (bp_disk s)" "fd2pageno d = fd2pageno (bp_disk s)"
    "disk_page d (pg_id (bp_pages s ! f)) = Some (pg_data (bp_pages s ! f))"
    "\<And>q c. q \<noteq> pg_id (bp_pages s ! f) \<Longrightarrow> disk_page (bp_disk s) q = Some c \<Longrightarrow> disk_page d q = Some c"
  let ?p = "(bp_pages s ! f)\<lparr>pg_dirty := False\<rparr>"
  have "pool_inv (set_page f ?p (s\<lparr>bp_replacer := bp_replacer s, bp_disk := d\<rparr>))"
    by (rule pool_inv_set_page [OF inv t _ _ replacer_ok_same_pin [OF inv] d(2-4)])
      (simp_all add: pool_inv_data_length [OF inv f])
  moreover have "disk_page d q = Some (pg_data (bp_pages s ! g))"
    if "page_table s q = Some g" "disk_page (bp_disk s) q = Some (pg_data (bp_pages s ! g))" for q g
    using d(5) d(6) [OF _ that(2)] that(1) t by (cases "q = pg_id (bp_pages s ! f)") auto
  moreover have "\<not> pg_dirty ((bp_pages s)[f := ?p] ! g)" if "\<not> pg_dirty (bp_pages s ! g)" for g
    using that f by (cases "g = f") simp_all
  ultimately have "flushed s (set_page f ?p (s\<lparr>bp_disk := d\<rparr>))"
    using d(3) by (simp add: flushed_def page_fields)
  then show ?thesis using that d by blast
qed

lemma flush_frames_ok:
  assumes "pool_inv s" and "i + n = length (bp_pages s)"
  shows "\<exists>s'. flush_frames fd i n s = (Inr (), s') \<and> flushed s s' \<and>
     (\<forall>pid f. page_table s pid = Some f \<longrightarrow> i \<le> f \<longrightarrow> pid_fd pid = fd \<longrightarrow>
        disk_page (bp_disk s') pid = Some (pg_data (bp_pages s ! f)) \<and> \<not> pg_dirty (bp_pages s' ! f))"
  using assms
proof (induction n arbitrary: i s)
  case 0
  then show ?case using pool_inv_table [OF 0(1)] by (fastforce simp: flushed_refl)
next
  case (Suc n)
  let ?p = "bp_pages s ! i"
  have i: "i < length (bp_pages s)" using Suc.prems(2) by simp
  show ?case
  proof (cases "fd = pid_fd (pg_id ?p) \<and> pid_page_no (pg_id ?p) \<noteq> INVALID_PAGE_ID")
    case True
    then have t: "page_table s (pg_id ?p) = Some i"
      using pool_inv_frame_old [OF Suc.prems(1) i] by (simp add: frame_blank_def)
    obtain d where d: "write_page (pid_fd (pg_id ?p)) (pid_page_no (pg_id ?p)) (pg_data ?p) (bp_disk s) = (Inr (), d)"
      "flushed s (set_page i (?p\<lparr>pg_dirty := False\<rparr>) (s\<lparr>bp_disk := d\<rparr>))" "disk_page d (pg_id ?p) = Some (pg_data ?p)"
      using flush_one [OF Suc.prems(1) t i] by blast
    let ?s = "set_page i (?p\<lparr>pg_dirty := False\<rparr>) (s\<lparr>bp_disk := d\<rparr>)"
    obtain s' where s': "flush_frames fd (Suc i) n ?s = (Inr (), s')" "flushed ?s s'"
      "\<forall>pid f. page_table ?s pid = Some f \<longrightarrow> Suc i \<le> f \<longrightarrow> pid_fd pid = fd \<longrightarrow>
        disk_page (bp_disk s') pid = Some (pg_data (bp_pages ?s ! f)) \<and> \<not> pg_dirty (bp_pages s' ! f)"
      using Suc.IH [of ?s "Suc i"] d(2) Suc.prems(2) by (auto simp: flushed_def)
    have last: "disk_page (bp_disk s') (pg_id ?p) = Some (pg_data ?p)" "\<not> pg_dirty (bp_pages s' ! i)"
      using s'(2) t d(3) i by (auto simp: flushed_def)
    have "disk_page (bp_disk s') pid = Some (pg_data (bp_pages s ! f)) \<and> \<not> pg_dirty (bp_pages s' ! f)"
      if "page_table s pid = Some f" "i \<le> f" "pid_fd pid = fd" for pid f
    proof (cases "f = i")
      case True
      then show ?thesis using last that(1) pool_inv_table [OF Suc.prems(1) that(1)] by simp
    qed (use s'(3) that in \<open>auto\<close>)
    then show ?thesis using True d(1) s'(1) flushed_trans [OF Suc.prems(1) d(2) s'(2)] by auto
  next
    case False
    obtain s' where s': "flush_frames fd (Suc i) n s = (Inr (), s')" "flushed s s'"
      "\<forall>pid f. page_table s pid = Some f \<longrightarrow> Suc i \<le> f \<longrightarrow> pid_fd pid = fd \<longrightarrow>
        disk_page (bp_disk s') pid = Some (pg_data (bp_pages s ! f)) \<and> \<not> pg_dirty (bp_pages s' ! f)"
      using Suc.IH [of s "Suc i"] Suc.prems by auto
    have "Suc i \<le> f" if "page_table s pid = Some f" "i \<le> f" "pid_fd pid = fd" for pid f
      using False pool_inv_table [OF Suc.prems(1) that(1)] that(2,3) by (cases "f = i") (auto simp: INVALID_PAGE_ID_def)
    moreover have "flush_frames fd i (Suc n) s = flush_frames fd (Suc i) n s" using False by auto
    ultimately show ?thesis using s' by (metis (no_types, lifting))
  qed
qed

lemma flush_all_pages_ok:
  assumes "pool_inv s" and "os_fds (bp_disk s) fd \<noteq> None"
  shows "\<exists>s'. flush_all_pages fd s = (Inr (), s') \<and> pool_inv s' \<and> page_table s' = page_table s \<and>
     (\<forall>pid f. page_table s pid = Some f \<longrightarrow> pid_fd pid = fd \<longrightarrow>
        disk_page (bp_disk s') pid = Some (pg_data (bp_pages s ! f)) \<and> \<not> pg_dirty (bp_pages s' ! f))"
proof -
  obtain s' where "flush_frames fd 0 (length (bp_pages s)) s = (Inr (), s')" "flushed s s'"
    "\<forall>pid f. page_table s pid = Some f \<longrightarrow> 0 \<le> f \<longrightarrow> pid_fd pid = fd \<longrightarrow>
        disk_page (bp_disk s') pid = Some (pg_data (bp_pages s ! f)) \<and> \<not> pg_dirty (bp_pages s' ! f)"
    using flush_frames_ok [OF assms(1), of 0 "length (bp_pages s)" fd] by auto
  then show ?thesis using assms(2) by (auto simp: flush_all_pages_def sync_file_def flushed_def)
qed

text \<open>
  \<open>delete_page\<close> re-enters the page id it deletes: its frame is on the free list while the page
  table still leads to it, and the zeroed frame answers the next fetch of the page.
\<close>

lemma delete_page_frame:
  assumes inv: "pool_inv s" and t: "page_table s pid = Some f" and pin: "pg_pin (bp_pages s ! f) = 0"
  shows "\<exists>s'. delete_page pid s = (Inr True, s') \<and> page_table s' pid = Some f \<and> f \<in> set (free_list s') \<and>
    pg_data (bp_pages s' ! f) = zero_page \<and>
    (\<exists>s''. fetch_page pid s' = (Inr (Some f), s'') \<and> f \<in> set (free_list s'') \<and> pg_pin (bp_pages s'' ! f) = 1)"
proof -
  note ok = pool_inv_table [OF inv t]
  have v: "pid_page_no pid \<noteq> INVALID_PAGE_ID" using ok by (simp add: INVALID_PAGE_ID_def)
  obtain d where "write_page (pid_fd pid) (pid_page_no pid) (pg_data (bp_pages s ! f)) (bp_disk s) = (Inr (), d)"
    using flush_one [OF inv, of f] ok t by auto
  then show ?thesis using ok v pin
    by (cases "pg_dirty (bp_pages s ! f)")
      (simp_all add: delete_page_def t update_page_def deallocate_page_def Let_def fetch_page_def)
qed

subsection \<open>Properties\<close>

definition example_pool :: "nat \<Rightarrow> buffer_pool" where
  "example_pool n = snd (new_page 3 (pool_new 0 n example_disk))"

definition example_pid :: PageId where
  "example_pid = \<lparr>pid_fd = 3, pid_page_no = 0\<rparr>"

lemma example_rel: "pool_rel (pool_new 0 n example_disk) (store_init n [3] example_disk)"
  by (rule pool_rel_new) (use example_disk_ok in \<open>simp_all add: MAX_FD_def\<close>)

definition example_store :: "nat \<Rightarrow> page_store" where
  "example_store n = (let a = store_init n [3] example_disk in
     a\<lparr>ps_pages := (ps_pages a)(example_pid \<mapsto> zero_page), ps_pins := example_pid # ps_pins a,
       ps_touched := example_pid # ps_touched a, ps_next := (ps_next a)(3 := ps_next a 3 + 1)\<rparr>)"

lemma example_pool_rel:
  assumes "0 < n"
  shows "pool_rel (example_pool n) (example_store n)"
proof -
  let ?a = "store_init n [3] example_disk"
  have room: "\<not> ps_cap ?a \<le> card (set (ps_pins ?a))" "3 \<in> set (ps_fds ?a)" using assms by (simp_all add: store_init_def)
  have pid: "example_pid = \<lparr>pid_fd = 3, pid_page_no = ps_next ?a 3\<rparr>"
    by (simp add: example_pid_def store_init_def example_disk_ok)
  show ?thesis
    using new_page_sim [OF example_rel room pid] by (auto simp: example_pool_def example_store_def Let_def)
qed

lemma example_pool_ok:
  assumes "0 < n"
  shows "pool_inv (example_pool n)"
    "\<exists>f. page_table (example_pool n) example_pid = Some f \<and> pg_pin (bp_pages (example_pool n) ! f) \<noteq> 0"
    "os_fds (bp_disk (example_pool n)) 3 \<noteq> None"
proof -
  note rel = example_pool_rel [OF assms]
  show inv: "pool_inv (example_pool n)" and "os_fds (bp_disk (example_pool n)) 3 \<noteq> None"
    using rel by (simp_all add: pool_rel_def example_store_def Let_def store_init_def)
  show "\<exists>f. page_table (example_pool n) example_pid = Some f \<and> pg_pin (bp_pages (example_pool n) ! f) \<noteq> 0"
    using pool_pins_pinned [OF rel, of example_pid] pool_pins_frame [OF inv, of example_pid]
    by (auto simp: example_store_def Let_def)
qed

lemma example_unpinned:
  "pool_inv (snd (unpin_page example_pid True (example_pool 1)))"
  "\<exists>f. page_table (snd (unpin_page example_pid True (example_pool 1))) example_pid = Some f \<and>
     pg_pin (bp_pages (snd (unpin_page example_pid True (example_pool 1))) ! f) = 0"
proof -
  have "ps_unpin example_pid True (example_store 1) = (Inr (Done True),
      (example_store 1)\<lparr>ps_pins := [], ps_touched := []\<rparr>)"
    by (simp add: ps_unpin_def example_store_def Let_def store_init_def)
  then have rel: "pool_rel (snd (unpin_page example_pid True (example_pool 1))) ((example_store 1)\<lparr>ps_pins := [], ps_touched := []\<rparr>)"
    using unpin_sim [OF example_pool_rel] by fastforce
  then show "pool_inv (snd (unpin_page example_pid True (example_pool 1)))" by (simp add: pool_rel_def)
  obtain f where f: "page_table (example_pool 1) example_pid = Some f" using example_pool_ok [of 1] by auto
  then have "page_table (snd (unpin_page example_pid True (example_pool 1))) example_pid = Some f"
    by (simp add: unpin_page_def Let_def)
  then show "\<exists>f. page_table (snd (unpin_page example_pid True (example_pool 1))) example_pid = Some f \<and>
     pg_pin (bp_pages (snd (unpin_page example_pid True (example_pool 1))) ! f) = 0"
    using pool_pins_pinned [OF rel, of example_pid] by (simp add: pool_pins_def)
qed

text \<open>C1: The buffer pool implements the page store: for every sequence of calls a client makes on a pool of
  \<open>n\<close> frames, if the store of pages answers them without an exception, the pool gives the same answers,
  whatever it evicts, writes back and reads again in between; and its invariant holds at the end.\<close>

theorem pool_refines_store:
  assumes "disk_inv d" and "\<forall>fd. 0 \<le> fd2pageno d fd"
    and "\<forall>fd\<in>set fds. 0 \<le> fd \<and> fd < MAX_FD \<and> os_fds d fd \<noteq> None"
    and "run_cmds ps_step cs (store_init n fds d) = (Inr bs, a')"
  shows "\<exists>s'. run_cmds pool_step cs (pool_new fd0 n d) = (Inr bs, s') \<and> pool_inv s' \<and> pool_rel s' a'"
  using pool.sim_run [OF pool_rel_new assms(4)] assms(1-3) by (auto simp: pool_rel_def)

theorem pool_refines_store_witness:
  "\<exists>s'. run_cmds pool_step [New 3, Write example_pid (replicate PAGE_SIZE 7), Unpin example_pid True, New 3,
       Unpin \<lparr>pid_fd = 3, pid_page_no = 1\<rparr> True, Fetch example_pid] (pool_new 0 1 example_disk) =
     (Inr [Created (Some example_pid), Quiet, Done True, Created (Some \<lparr>pid_fd = 3, pid_page_no = 1\<rparr>), Done True,
       Got (Some (replicate PAGE_SIZE 7))], s')"
proof -
  have 1: "\<forall>fd. 0 \<le> fd2pageno example_disk fd" "\<forall>fd\<in>set [3]. 0 \<le> fd \<and> fd < MAX_FD \<and> os_fds example_disk fd \<noteq> None"
    using example_disk_ok by (simp_all add: MAX_FD_def)
  have "\<exists>a'. run_cmds ps_step [New 3, Write example_pid (replicate PAGE_SIZE 7), Unpin example_pid True, New 3,
       Unpin \<lparr>pid_fd = 3, pid_page_no = 1\<rparr> True, Fetch example_pid] (store_init 1 [3] example_disk) =
     (Inr [Created (Some example_pid), Quiet, Done True, Created (Some \<lparr>pid_fd = 3, pid_page_no = 1\<rparr>), Done True,
       Got (Some (replicate PAGE_SIZE 7))], a')"
    by (simp add: ps_new_def ps_write_def ps_unpin_def ps_fetch_def store_init_def example_pid_def Let_def example_disk_ok)
  then show ?thesis using pool_refines_store [OF example_disk_ok(1) 1] by blast
qed

text \<open>A pinned page stays where it is: no fetch, not even one that fails, evicts it, moves it or changes
  its contents, and no other page is ever given its frame.\<close>

theorem pinned_page_stays:
  assumes "pool_inv s" and "page_table s q = Some g" and "pg_pin (bp_pages s ! g) \<noteq> 0"
    and "fetch_page pid s = (r, s')"
  shows "page_table s' q = Some g \<and> pg_data (bp_pages s' ! g) = pg_data (bp_pages s ! g) \<and>
    (q \<noteq> pid \<longrightarrow> r \<noteq> Inr (Some g))"
  by (rule fetch_keeps_pinned [OF assms])

theorem pinned_page_stays_witness:
  "\<exists>g. page_table (snd (fetch_page \<lparr>pid_fd = 3, pid_page_no = 9\<rparr> (example_pool 2))) example_pid = Some g"
proof -
  obtain g where "page_table (example_pool 2) example_pid = Some g" "pg_pin (bp_pages (example_pool 2) ! g) \<noteq> 0"
    using example_pool_ok [of 2] by auto
  from pinned_page_stays [OF example_pool_ok(1) this, of "\<lparr>pid_fd = 3, pid_page_no = 9\<rparr>"]
  show ?thesis by (metis prod.collapse zero_less_numeral)
qed

text \<open>The pool answers a fetch with a null pointer exactly when the page is not cached and every frame is
  pinned: a page that can be evicted is always found.\<close>

theorem fetch_nullptr_iff:
  assumes "pool_inv s"
  shows "fst (fetch_page pid s) = Inr None \<longleftrightarrow>
    page_table s pid = None \<and> (\<forall>f. f < length (bp_pages s) \<longrightarrow> pg_pin (bp_pages s ! f) \<noteq> 0)"
  using fetch_nullptr [OF assms] by simp

theorem fetch_nullptr_iff_witness:
  "fst (fetch_page example_pid (example_pool 1)) \<noteq> Inr None"
  using fetch_nullptr_iff [OF example_pool_ok(1), of 1 example_pid] example_pool_ok(2) [of 1] by auto

text \<open>Flushing a file succeeds and leaves every cached page of the file clean and equal to its copy on
  disk, with the page table unchanged.\<close>

theorem flush_all_pages_persists:
  assumes "pool_inv s" and "os_fds (bp_disk s) fd \<noteq> None"
  shows "\<exists>s'. flush_all_pages fd s = (Inr (), s') \<and> pool_inv s' \<and> page_table s' = page_table s \<and>
     (\<forall>pid f. page_table s pid = Some f \<longrightarrow> pid_fd pid = fd \<longrightarrow>
        disk_page (bp_disk s') pid = Some (pg_data (bp_pages s ! f)) \<and> \<not> pg_dirty (bp_pages s' ! f))"
  by (rule flush_all_pages_ok [OF assms])

theorem flush_all_pages_persists_witness:
  "\<exists>s' c. flush_all_pages 3 (example_pool 2) = (Inr (), s') \<and> disk_page (bp_disk s') example_pid = Some c"
  using flush_all_pages_persists [OF example_pool_ok(1,3), of 2] example_pool_ok(2) [of 2]
  by (fastforce simp: example_pid_def)

text \<open>\<open>delete_page\<close> leaves the deleted page in the page table while its frame is on the free list: the
  next fetch of that page returns a zeroed frame, pinned and free at the same time, although the comment
  of the function says the page is removed from the table.\<close>

theorem delete_page_keeps_table_entry:
  assumes "pool_inv s" and "page_table s pid = Some f" and "pg_pin (bp_pages s ! f) = 0"
  shows "\<exists>s'. delete_page pid s = (Inr True, s') \<and> page_table s' pid = Some f \<and> f \<in> set (free_list s') \<and>
    pg_data (bp_pages s' ! f) = zero_page \<and>
    (\<exists>s''. fetch_page pid s' = (Inr (Some f), s'') \<and> f \<in> set (free_list s'') \<and> pg_pin (bp_pages s'' ! f) = 1)"
  by (rule delete_page_frame [OF assms])

theorem delete_page_keeps_table_entry_witness:
  "\<exists>s' f. delete_page example_pid (snd (unpin_page example_pid True (example_pool 1))) = (Inr True, s') \<and>
     page_table s' example_pid = Some f \<and> f \<in> set (free_list s')"
  using delete_page_keeps_table_entry [OF example_unpinned(1)] example_unpinned(2) by blast

end
