(* ===== verification/Rm_Bitmap.thy ===== *)
theory Rm_Bitmap
  imports Bytes
begin

unbundle bit_operations_syntax

text \<open>
  The slot bitmap of a record page (\<^verbatim>\<open>src/src/record/bitmap.h\<close>), over the bytes the code works
  on. The abstraction of a bitmap is the set of its set positions; \<open>bitmap_set\<close>,
  \<open>bitmap_reset\<close> and \<open>is_set\<close> are insertion, removal and membership, and \<open>next_bit\<close> is the
  least following position with the wanted value.
\<close>

subsection \<open>Model\<close>

definition BITMAP_WIDTH :: nat where "BITMAP_WIDTH = 8"

definition BITMAP_HIGHEST_BIT :: byte where "BITMAP_HIGHEST_BIT = 0x80"

definition get_bucket :: "nat \<Rightarrow> nat" where
  "get_bucket pos = pos div BITMAP_WIDTH"

definition get_bit :: "nat \<Rightarrow> byte" where
  "get_bit pos = drop_bit (pos mod BITMAP_WIDTH) BITMAP_HIGHEST_BIT"

definition bitmap_init :: "bytes \<Rightarrow> nat \<Rightarrow> bytes" where
  "bitmap_init bm n = write_bytes 0 (replicate n 0) bm"

definition bitmap_set :: "bytes \<Rightarrow> nat \<Rightarrow> bytes" where
  "bitmap_set bm pos = bm[get_bucket pos := (bm ! get_bucket pos) OR get_bit pos]"

definition bitmap_reset :: "bytes \<Rightarrow> nat \<Rightarrow> bytes" where
  "bitmap_reset bm pos = bm[get_bucket pos := (bm ! get_bucket pos) AND NOT (get_bit pos)]"

definition is_set :: "bytes \<Rightarrow> nat \<Rightarrow> bool" where
  "is_set bm pos \<longleftrightarrow> (bm ! get_bucket pos) AND get_bit pos \<noteq> 0"

text \<open>The loop of \<^verbatim>\<open>next_bit\<close>; the counter starts at \<open>cur + 1\<close>, where \<open>cur\<close> may be \<open>-1\<close>.\<close>

function next_bit_from :: "bool \<Rightarrow> bytes \<Rightarrow> nat \<Rightarrow> nat \<Rightarrow> nat" where
  "next_bit_from b bm max_n i =
     (if i < max_n then (if is_set bm i = b then i else next_bit_from b bm max_n (Suc i)) else max_n)"
  by pat_completeness auto
termination
  by (relation "measure (\<lambda>(b, bm, max_n, i). max_n - i)") auto

declare next_bit_from.simps [simp del]

definition next_bit :: "bool \<Rightarrow> bytes \<Rightarrow> nat \<Rightarrow> int \<Rightarrow> nat" where
  "next_bit b bm max_n cur = next_bit_from b bm max_n (nat (cur + 1))"

definition first_bit :: "bool \<Rightarrow> bytes \<Rightarrow> nat \<Rightarrow> nat" where
  "first_bit b bm max_n = next_bit b bm max_n (-1)"

subsection \<open>Reads after writes\<close>

lemma get_bit_eq: "get_bit pos = 2 ^ (7 - pos mod 8)"
proof -
  have "pos mod 8 < 8" by simp
  then consider "pos mod 8 = 0" | "pos mod 8 = 1" | "pos mod 8 = 2" | "pos mod 8 = 3"
    | "pos mod 8 = 4" | "pos mod 8 = 5" | "pos mod 8 = 6" | "pos mod 8 = 7" by linarith
  then show ?thesis
    by cases (simp_all add: get_bit_def BITMAP_WIDTH_def BITMAP_HIGHEST_BIT_def)
qed

lemma is_set_bit: "is_set bm pos \<longleftrightarrow> bit (bm ! (pos div 8)) (7 - pos mod 8)"
  by (simp add: is_set_def get_bucket_def BITMAP_WIDTH_def get_bit_eq and_exp_eq_0_iff_not_bit)

lemma length_bitmap_set [simp]: "length (bitmap_set bm pos) = length bm"
  by (simp add: bitmap_set_def)

lemma length_bitmap_reset [simp]: "length (bitmap_reset bm pos) = length bm"
  by (simp add: bitmap_reset_def)

lemma bit_get_bit: "bit (get_bit pos) n \<longleftrightarrow> n = 7 - pos mod 8"
  by (auto simp: get_bit_eq bit_exp_iff possible_bit_def)

lemma same_bucket_bit:
  fixes p q :: nat
  assumes "p div 8 = q div 8"
  shows "7 - p mod 8 = 7 - q mod 8 \<longleftrightarrow> p = q"
proof -
  have "p mod 8 < 8" "q mod 8 < 8" by simp_all
  then have "7 - p mod 8 = 7 - q mod 8 \<longleftrightarrow> p mod 8 = q mod 8" by linarith
  also have "\<dots> \<longleftrightarrow> p = q" using assms by (metis div_mult_mod_eq)
  finally show ?thesis .
qed

lemma is_set_bitmap_set:
  assumes "p < 8 * length bm"
  shows "is_set (bitmap_set bm p) q \<longleftrightarrow> p = q \<or> is_set bm q"
proof (cases "p div 8 = q div 8")
  case True
  have "p div 8 < length bm" using assms by (simp add: less_mult_imp_div_less mult.commute)
  then show ?thesis using True
    using same_bucket_bit [OF True]
    by (auto simp: is_set_bit bitmap_set_def get_bucket_def BITMAP_WIDTH_def bit_or_iff bit_get_bit)
next
  case False
  then show ?thesis
    by (auto simp: is_set_bit bitmap_set_def get_bucket_def BITMAP_WIDTH_def)
qed

lemma is_set_bitmap_reset:
  assumes "p < 8 * length bm"
  shows "is_set (bitmap_reset bm p) q \<longleftrightarrow> p \<noteq> q \<and> is_set bm q"
proof (cases "p div 8 = q div 8")
  case True
  have p: "p div 8 < length bm" using assms by (simp add: less_mult_imp_div_less mult.commute)
  have "7 - q mod 8 < 8" by simp
  with True p show ?thesis
    using same_bucket_bit [OF True]
    by (auto simp: is_set_bit bitmap_reset_def get_bucket_def BITMAP_WIDTH_def bit_and_iff
        bit_not_iff possible_bit_def bit_get_bit)
next
  case False
  then show ?thesis
    by (auto simp: is_set_bit bitmap_reset_def get_bucket_def BITMAP_WIDTH_def)
qed

lemma is_set_replicate_0: "p < 8 * n \<Longrightarrow> \<not> is_set (replicate n 0) p"
  by (simp add: is_set_bit less_mult_imp_div_less mult.commute)

subsection \<open>The search loop\<close>

lemma next_bit_from_bounds: "next_bit_from b bm max_n i \<le> max_n"
proof (induction b bm max_n i rule: next_bit_from.induct)
  case (1 b bm max_n i)
  then show ?case by (simp add: next_bit_from.simps [of b bm max_n i])
qed

lemma next_bit_from_ge: "i \<le> max_n \<Longrightarrow> i \<le> next_bit_from b bm max_n i"
proof (induction b bm max_n i rule: next_bit_from.induct)
  case (1 b bm max_n i)
  show ?case
  proof (cases "i < max_n \<and> is_set bm i \<noteq> b")
    case True
    with 1 have "Suc i \<le> next_bit_from b bm max_n (Suc i)" by simp
    with True show ?thesis by (simp add: next_bit_from.simps [of b bm max_n i])
  next
    case False
    with "1.prems" show ?thesis by (auto simp: next_bit_from.simps [of b bm max_n i])
  qed
qed

lemma next_bit_from_found:
  "next_bit_from b bm max_n i < max_n \<Longrightarrow> is_set bm (next_bit_from b bm max_n i) = b"
proof (induction b bm max_n i rule: next_bit_from.induct)
  case (1 b bm max_n i)
  then show ?case by (simp add: next_bit_from.simps [of b bm max_n i] split: if_splits)
qed

lemma next_bit_from_least:
  "i \<le> j \<Longrightarrow> j < next_bit_from b bm max_n i \<Longrightarrow> is_set bm j \<noteq> b"
proof (induction b bm max_n i rule: next_bit_from.induct)
  case (1 b bm max_n i)
  show ?case
  proof (cases "i < max_n \<and> is_set bm i \<noteq> b")
    case True
    then have eq: "next_bit_from b bm max_n i = next_bit_from b bm max_n (Suc i)"
      by (simp add: next_bit_from.simps [of b bm max_n i])
    show ?thesis
    proof (cases "j = i")
      case True
      with \<open>i < max_n \<and> is_set bm i \<noteq> b\<close> show ?thesis by simp
    next
      case False
      with "1.prems" have "Suc i \<le> j" "j < next_bit_from b bm max_n (Suc i)" by (simp_all add: eq)
      with "1.IH" True show ?thesis by blast
    qed
  next
    case False
    with "1.prems" have "\<not> i < max_n"
      by (auto simp: next_bit_from.simps [of b bm max_n i])
    then have "next_bit_from b bm max_n i = max_n"
      by (simp add: next_bit_from.simps [of b bm max_n i])
    with "1.prems" \<open>\<not> i < max_n\<close> show ?thesis by simp
  qed
qed

lemma first_bit_bounds: "first_bit b bm n \<le> n"
  by (simp add: first_bit_def next_bit_def next_bit_from_bounds)

lemma first_bit_found: "first_bit b bm n < n \<Longrightarrow> is_set bm (first_bit b bm n) = b"
  by (simp add: first_bit_def next_bit_def next_bit_from_found)

lemma first_bit_least: "j < first_bit b bm n \<Longrightarrow> is_set bm j \<noteq> b"
  using next_bit_from_least [of 0 j b bm n] by (simp add: first_bit_def next_bit_def)

lemma first_bit_exists: "j < n \<Longrightarrow> is_set bm j = b \<Longrightarrow> first_bit b bm n < n"
  using first_bit_least [of j b bm n] first_bit_bounds [of b bm n]
  by (metis le_neq_implies_less)

subsection \<open>Counting set bits\<close>

definition count_set :: "bytes \<Rightarrow> nat \<Rightarrow> nat" where
  "count_set bm n = length (filter (is_set bm) [0..<n])"

lemma count_set_card: "count_set bm n = card {i. i < n \<and> is_set bm i}"
  by (simp add: count_set_def length_filter_conv_card cong: conj_cong)

lemma count_set_le: "count_set bm n \<le> n"
  unfolding count_set_def by (rule order_trans [OF length_filter_le]) simp

lemma count_set_bitmap_set:
  assumes "p < n" and "n \<le> 8 * length bm" and "\<not> is_set bm p"
  shows "count_set (bitmap_set bm p) n = Suc (count_set bm n)"
proof -
  have "{i. i < n \<and> is_set (bitmap_set bm p) i} = insert p {i. i < n \<and> is_set bm i}"
    using assms by (auto simp: is_set_bitmap_set)
  then show ?thesis using assms by (simp add: count_set_card)
qed

lemma count_set_bitmap_reset:
  assumes "p < n" and "n \<le> 8 * length bm" and "is_set bm p"
  shows "Suc (count_set (bitmap_reset bm p) n) = count_set bm n"
proof -
  have "{i. i < n \<and> is_set bm i} = insert p {i. i < n \<and> is_set (bitmap_reset bm p) i}"
    and "p \<notin> {i. i < n \<and> is_set (bitmap_reset bm p) i}"
    using assms by (auto simp: is_set_bitmap_reset)
  then show ?thesis by (simp add: count_set_card)
qed

lemma count_set_full_iff: "count_set bm n = n \<longleftrightarrow> (\<forall>i<n. is_set bm i)"
proof -
  have sub: "{i. i < n \<and> is_set bm i} \<subseteq> {..<n}" by auto
  have "count_set bm n = n \<longleftrightarrow> {i. i < n \<and> is_set bm i} = {..<n}"
    unfolding count_set_card using card_subset_eq [OF finite_lessThan sub] by force
  also have "\<dots> \<longleftrightarrow> (\<forall>i<n. is_set bm i)" by blast
  finally show ?thesis .
qed

lemma first_bit_not_full: "count_set bm n < n \<Longrightarrow> first_bit False bm n < n"
proof -
  assume "count_set bm n < n"
  then obtain i where "i < n" "\<not> is_set bm i" using count_set_full_iff [of bm n] by auto
  then show ?thesis using first_bit_exists [of i n bm False] by simp
qed

lemma first_bit_full: "count_set bm n = n \<Longrightarrow> first_bit False bm n = n"
  using first_bit_found [of False bm n] first_bit_bounds [of False bm n]
  by (metis count_set_full_iff le_neq_implies_less)

lemma count_set_zero: "n \<le> 8 * m \<Longrightarrow> count_set (replicate m 0) n = 0"
  by (simp add: count_set_card is_set_replicate_0 cong: conj_cong)

end
