(* ===== verification/Rm_Page.thy ===== *)
theory Rm_Page
  imports Rm_Bitmap
begin

text \<open>
  The layout of a record page (\<^verbatim>\<open>src/src/record/rm_defs.h\<close>, \<^verbatim>\<open>RmPageHandle\<close> of
  \<^verbatim>\<open>rm_file_handle.h\<close>): 4 bytes of lsn, the page header, the slot bitmap, the slots. The
  functions read and write the bytes of the page at the offsets the code uses; the lemmas say
  which reads a write affects.
\<close>

subsection \<open>Model\<close>

definition RM_NO_PAGE :: int where "RM_NO_PAGE = -1"
definition RM_FILE_HDR_PAGE :: int where "RM_FILE_HDR_PAGE = 0"
definition RM_FIRST_RECORD_PAGE :: int where "RM_FIRST_RECORD_PAGE = 1"
definition RM_MAX_RECORD_SIZE :: nat where "RM_MAX_RECORD_SIZE = 512"

record RmFileHdr =
  record_size :: nat
  num_pages :: int
  num_records_per_page :: nat
  first_free_page_no :: int
  bitmap_size :: nat
  total_record_count :: int
  count_cache_valid :: bool

definition OFFSET_PAGE_HDR :: nat where "OFFSET_PAGE_HDR = 4"

text \<open>\<^verbatim>\<open>sizeof(RmPageHdr)\<close>, \<^verbatim>\<open>sizeof(RmFileHdr)\<close>.\<close>

definition PAGE_HDR_SIZE :: nat where "PAGE_HDR_SIZE = 8"
definition FILE_HDR_SIZE :: nat where "FILE_HDR_SIZE = 28"

definition bitmap_off :: nat where "bitmap_off = PAGE_HDR_SIZE + OFFSET_PAGE_HDR"

definition get_slot :: "RmFileHdr \<Rightarrow> nat \<Rightarrow> nat" where
  "get_slot h slot_no = bitmap_off + bitmap_size h + slot_no * record_size h"

definition next_free_page_no :: "bytes \<Rightarrow> int" where
  "next_free_page_no pg = read_i32 OFFSET_PAGE_HDR pg"

definition num_records :: "bytes \<Rightarrow> int" where
  "num_records pg = read_i32 (OFFSET_PAGE_HDR + 4) pg"

definition page_bitmap :: "RmFileHdr \<Rightarrow> bytes \<Rightarrow> bytes" where
  "page_bitmap h pg = read_bytes bitmap_off (bitmap_size h) pg"

definition slot_data :: "RmFileHdr \<Rightarrow> nat \<Rightarrow> bytes \<Rightarrow> bytes" where
  "slot_data h i pg = read_bytes (get_slot h i) (record_size h) pg"

definition set_next_free :: "int \<Rightarrow> bytes \<Rightarrow> bytes" where
  "set_next_free x pg = write_i32 OFFSET_PAGE_HDR x pg"

definition set_num_records :: "int \<Rightarrow> bytes \<Rightarrow> bytes" where
  "set_num_records x pg = write_i32 (OFFSET_PAGE_HDR + 4) x pg"

definition set_bitmap :: "bytes \<Rightarrow> bytes \<Rightarrow> bytes" where
  "set_bitmap bm pg = write_bytes bitmap_off bm pg"

definition set_slot :: "RmFileHdr \<Rightarrow> nat \<Rightarrow> bytes \<Rightarrow> bytes \<Rightarrow> bytes" where
  "set_slot h i buf pg = write_bytes (get_slot h i) buf pg"

text \<open>The header of a file with records of a given size (\<^verbatim>\<open>RmManager::create_file\<close>).\<close>

definition file_hdr_new :: "nat \<Rightarrow> RmFileHdr" where
  "file_hdr_new rs =
     (let n = (BITMAP_WIDTH * (PAGE_SIZE - 1 - FILE_HDR_SIZE) + 1) div (1 + rs * BITMAP_WIDTH)
      in \<lparr>record_size = rs, num_pages = 1, num_records_per_page = n, first_free_page_no = RM_NO_PAGE,
          bitmap_size = (n + BITMAP_WIDTH - 1) div BITMAP_WIDTH, total_record_count = 0,
          count_cache_valid = False\<rparr>)"

subsection \<open>Header layout\<close>

definition hdr_ok :: "RmFileHdr \<Rightarrow> bool" where
  "hdr_ok h \<longleftrightarrow> 0 < num_records_per_page h \<and> num_records_per_page h \<le> 8 * bitmap_size h \<and>
     get_slot h (num_records_per_page h) \<le> PAGE_SIZE"

lemmas rm_layout = bitmap_off_def PAGE_HDR_SIZE_def OFFSET_PAGE_HDR_def get_slot_def

text \<open>
  The bound the comment in \<^verbatim>\<open>create_file\<close> promises: header, bitmap and slots fit in a page, for
  every record size the manager accepts, and there is at least one slot.
\<close>

lemma file_hdr_new_ok:
  assumes "1 \<le> rs" and "rs \<le> RM_MAX_RECORD_SIZE"
  shows "hdr_ok (file_hdr_new rs)"
proof -
  define n where "n = 32537 div (1 + rs * 8)"
  have n: "n * (1 + rs * 8) \<le> 32537" unfolding n_def by (rule div_times_less_eq_dividend)
  have "1 * (1 + rs * 8) \<le> 32537" using assms by (simp add: RM_MAX_RECORD_SIZE_def)
  then have pos: "0 < n" unfolding n_def by (simp add: div_greater_zero_iff)
  have "8 * ((n + 7) div 8) \<le> n + 7" "n \<le> 8 * ((n + 7) div 8)" by simp_all
  moreover have "n + 8 * (n * rs) \<le> 32537" using n by (simp add: algebra_simps)
  ultimately have "12 + (n + 7) div 8 + n * rs \<le> 4096" by linarith
  then show ?thesis
    using pos \<open>n \<le> 8 * ((n + 7) div 8)\<close>
    by (simp add: hdr_ok_def file_hdr_new_def Let_def n_def rm_layout add.commute BITMAP_WIDTH_def PAGE_SIZE_def FILE_HDR_SIZE_def)
qed

lemma get_slot_end:
  assumes "hdr_ok h" and "i < num_records_per_page h"
  shows "get_slot h i + record_size h \<le> PAGE_SIZE"
proof -
  have "Suc i * record_size h \<le> num_records_per_page h * record_size h"
    using assms(2) by (intro mult_le_mono1) simp
  then show ?thesis using assms(1) by (simp add: hdr_ok_def get_slot_def)
qed

lemma slots_disjoint:
  assumes "i \<noteq> j"
  shows "get_slot h i + record_size h \<le> get_slot h j \<or> get_slot h j + record_size h \<le> get_slot h i"
proof -
  have "Suc i * record_size h \<le> j * record_size h \<or> Suc j * record_size h \<le> i * record_size h"
    using assms by (metis Suc_leI mult_le_mono1 linorder_neqE_nat)
  then show ?thesis by (auto simp: get_slot_def)
qed

subsection \<open>Reads after writes\<close>


definition page_len :: "RmFileHdr \<Rightarrow> bytes \<Rightarrow> bool" where
  "page_len h pg \<longleftrightarrow> hdr_ok h \<and> length pg = PAGE_SIZE"

lemma page_len_bounds:
  assumes "page_len h pg"
  shows "8 \<le> length pg" "12 \<le> length pg" "12 + bitmap_size h \<le> length pg" "length pg = PAGE_SIZE"
  using assms by (simp_all add: page_len_def hdr_ok_def rm_layout PAGE_SIZE_def)

lemma slot_bounds:
  assumes "page_len h pg" and "i < num_records_per_page h"
  shows "get_slot h i + record_size h \<le> length pg" "get_slot h i \<le> length pg" "12 + bitmap_size h \<le> get_slot h i"
  using get_slot_end [of h i] assms by (simp_all add: page_len_def rm_layout)

named_theorems page_simps \<open>reads of a record page after a write to it\<close>

lemma page_len_writes [page_simps]:
  "page_len h pg \<Longrightarrow> page_len h (set_next_free x pg)"
  "page_len h pg \<Longrightarrow> page_len h (set_num_records x pg)"
  "page_len h pg \<Longrightarrow> length bm = bitmap_size h \<Longrightarrow> page_len h (set_bitmap bm pg)"
  "page_len h pg \<Longrightarrow> i < num_records_per_page h \<Longrightarrow> length buf = record_size h \<Longrightarrow> page_len h (set_slot h i buf pg)"
  using page_len_bounds [of h pg] slot_bounds [of h pg i]
  by (simp_all add: page_len_def set_next_free_def set_num_records_def set_bitmap_def set_slot_def
      OFFSET_PAGE_HDR_def bitmap_off_def PAGE_HDR_SIZE_def)

lemma page_bitmap_length [page_simps]: "page_len h pg \<Longrightarrow> length (page_bitmap h pg) = bitmap_size h"
  using page_len_bounds [of h pg] by (simp add: page_bitmap_def rm_layout)

lemma next_free_after [page_simps]:
  "page_len h pg \<Longrightarrow> int32 x \<Longrightarrow> next_free_page_no (set_next_free x pg) = x"
  "page_len h pg \<Longrightarrow> next_free_page_no (set_num_records x pg) = next_free_page_no pg"
  "page_len h pg \<Longrightarrow> next_free_page_no (set_bitmap bm pg) = next_free_page_no pg"
  "page_len h pg \<Longrightarrow> i < num_records_per_page h \<Longrightarrow> next_free_page_no (set_slot h i buf pg) = next_free_page_no pg"
  using page_len_bounds [of h pg] slot_bounds [of h pg i]
  by (simp_all add: next_free_page_no_def set_next_free_def set_num_records_def set_bitmap_def set_slot_def
      OFFSET_PAGE_HDR_def bitmap_off_def PAGE_HDR_SIZE_def byte_simps)

lemma num_records_after [page_simps]:
  "page_len h pg \<Longrightarrow> num_records (set_next_free x pg) = num_records pg"
  "page_len h pg \<Longrightarrow> int32 x \<Longrightarrow> num_records (set_num_records x pg) = x"
  "page_len h pg \<Longrightarrow> num_records (set_bitmap bm pg) = num_records pg"
  "page_len h pg \<Longrightarrow> i < num_records_per_page h \<Longrightarrow> num_records (set_slot h i buf pg) = num_records pg"
  using page_len_bounds [of h pg] slot_bounds [of h pg i]
  by (simp_all add: num_records_def set_next_free_def set_num_records_def set_bitmap_def set_slot_def
      OFFSET_PAGE_HDR_def bitmap_off_def PAGE_HDR_SIZE_def byte_simps)

lemma page_bitmap_after [page_simps]:
  "page_len h pg \<Longrightarrow> page_bitmap h (set_next_free x pg) = page_bitmap h pg"
  "page_len h pg \<Longrightarrow> page_bitmap h (set_num_records x pg) = page_bitmap h pg"
  "page_len h pg \<Longrightarrow> length bm = bitmap_size h \<Longrightarrow> page_bitmap h (set_bitmap bm pg) = bm"
  "page_len h pg \<Longrightarrow> i < num_records_per_page h \<Longrightarrow> page_bitmap h (set_slot h i buf pg) = page_bitmap h pg"
  using page_len_bounds [of h pg] slot_bounds [of h pg i]
  by (simp_all add: page_bitmap_def set_next_free_def set_num_records_def set_bitmap_def set_slot_def
      OFFSET_PAGE_HDR_def bitmap_off_def PAGE_HDR_SIZE_def byte_simps)

lemma slot_data_after [page_simps]:
  "page_len h pg \<Longrightarrow> i < num_records_per_page h \<Longrightarrow> slot_data h i (set_next_free x pg) = slot_data h i pg"
  "page_len h pg \<Longrightarrow> i < num_records_per_page h \<Longrightarrow> slot_data h i (set_num_records x pg) = slot_data h i pg"
  "page_len h pg \<Longrightarrow> i < num_records_per_page h \<Longrightarrow> length bm = bitmap_size h \<Longrightarrow>
     slot_data h i (set_bitmap bm pg) = slot_data h i pg"
  using page_len_bounds [of h pg] slot_bounds [of h pg i]
  by (simp_all add: slot_data_def set_next_free_def set_num_records_def set_bitmap_def
      OFFSET_PAGE_HDR_def bitmap_off_def PAGE_HDR_SIZE_def byte_simps)

lemma slot_data_set_slot [page_simps]:
  assumes "page_len h pg" "i < num_records_per_page h" "j < num_records_per_page h" "length buf = record_size h"
  shows "slot_data h j (set_slot h i buf pg) = (if j = i then buf else slot_data h j pg)"
  using slot_bounds [OF assms(1,2)] slots_disjoint [of i j h] assms(4)
  by (auto simp: slot_data_def set_slot_def byte_simps)

lemma slot_data_length: "page_len h pg \<Longrightarrow> i < num_records_per_page h \<Longrightarrow> length (slot_data h i pg) = record_size h"
  using slot_bounds [of h pg i] by (simp add: slot_data_def)

subsection \<open>Pages as partial maps\<close>

text \<open>What a page stores: the data of its occupied slots.\<close>

definition page_records :: "RmFileHdr \<Rightarrow> bytes \<Rightarrow> nat \<rightharpoonup> bytes" where
  "page_records h pg i =
     (if i < num_records_per_page h \<and> is_set (page_bitmap h pg) i then Some (slot_data h i pg) else None)"

text \<open>A page whose record count is the number of its occupied slots.\<close>

definition page_ok :: "RmFileHdr \<Rightarrow> bytes \<Rightarrow> bool" where
  "page_ok h pg \<longleftrightarrow> page_len h pg \<and> num_records pg = int (count_set (page_bitmap h pg) (num_records_per_page h)) \<and>
     int32 (int (num_records_per_page h))"

text \<open>The byte changes of an insertion at a slot, a deletion, and an update.\<close>

definition page_put :: "RmFileHdr \<Rightarrow> nat \<Rightarrow> bytes \<Rightarrow> bytes \<Rightarrow> bytes" where
  "page_put h i buf pg =
     (let pg1 = set_slot h i buf pg;
          pg2 = set_bitmap (bitmap_set (page_bitmap h pg1) i) pg1
      in set_num_records (num_records pg2 + 1) pg2)"

definition page_take :: "RmFileHdr \<Rightarrow> nat \<Rightarrow> bytes \<Rightarrow> bytes" where
  "page_take h i pg =
     (let pg1 = set_bitmap (bitmap_reset (page_bitmap h pg) i) pg
      in set_num_records (num_records pg1 - 1) pg1)"

lemma int32_small: "int32 (int n) \<Longrightarrow> m \<le> n \<Longrightarrow> int32 (int m)"
  by (simp add: int32_def)

lemma slot_in_bitmap: "page_len h pg \<Longrightarrow> i < num_records_per_page h \<Longrightarrow> i < 8 * length (page_bitmap h pg)"
  by (simp add: page_simps) (simp add: page_len_def hdr_ok_def)

lemma page_put_ok:
  assumes ok: "page_ok h pg" and i: "i < num_records_per_page h" "\<not> is_set (page_bitmap h pg) i"
    and buf: "length buf = record_size h"
  shows "page_ok h (page_put h i buf pg)" "page_records h (page_put h i buf pg) = (page_records h pg)(i \<mapsto> buf)"
    "num_records (page_put h i buf pg) = num_records pg + 1" "next_free_page_no (page_put h i buf pg) = next_free_page_no pg"
proof -
  have len: "page_len h pg" and n: "int32 (int (num_records_per_page h))"
    and cnt: "num_records pg = int (count_set (page_bitmap h pg) (num_records_per_page h))"
    using ok by (simp_all add: page_ok_def)
  note ib = slot_in_bitmap [OF len i(1)]
  have c: "count_set (bitmap_set (page_bitmap h pg) i) (num_records_per_page h) =
      count_set (page_bitmap h pg) (num_records_per_page h) + 1"
    using count_set_bitmap_set [OF i(1) _ i(2)] len i by (simp add: page_simps page_len_def hdr_ok_def)
  have "int32 (int (count_set (bitmap_set (page_bitmap h pg) i) (num_records_per_page h)))"
    by (rule int32_small [OF n count_set_le])
  then have small: "int32 (num_records pg + 1)" using c cnt by (simp add: add.commute)
  note put = page_put_def Let_def page_simps num_records_after [of h] next_free_after [of h] len i(1) buf
  show num: "num_records (page_put h i buf pg) = num_records pg + 1" by (simp add: put small)
  show "next_free_page_no (page_put h i buf pg) = next_free_page_no pg" by (simp add: put)
  have bm: "page_bitmap h (page_put h i buf pg) = bitmap_set (page_bitmap h pg) i" by (simp add: put)
  show "page_ok h (page_put h i buf pg)"
    unfolding page_ok_def num bm using n cnt c by (simp add: put)
  show "page_records h (page_put h i buf pg) = (page_records h pg)(i \<mapsto> buf)"
    using i(1) ib by (auto simp: fun_eq_iff page_records_def bm is_set_bitmap_set) (simp_all add: put)
qed

lemma page_take_ok:
  assumes ok: "page_ok h pg" and i: "i < num_records_per_page h" "is_set (page_bitmap h pg) i"
  shows "page_ok h (page_take h i pg)" "page_records h (page_take h i pg) = (page_records h pg)(i := None)"
    "num_records (page_take h i pg) = num_records pg - 1" "next_free_page_no (page_take h i pg) = next_free_page_no pg"
proof -
  have len: "page_len h pg" and n: "int32 (int (num_records_per_page h))"
    and cnt: "num_records pg = int (count_set (page_bitmap h pg) (num_records_per_page h))"
    using ok by (simp_all add: page_ok_def)
  note ib = slot_in_bitmap [OF len i(1)]
  have c: "count_set (bitmap_reset (page_bitmap h pg) i) (num_records_per_page h) + 1 =
      count_set (page_bitmap h pg) (num_records_per_page h)"
    using count_set_bitmap_reset [OF i(1) _ i(2)] len i by (simp add: page_simps page_len_def hdr_ok_def)
  have "int32 (int (count_set (bitmap_reset (page_bitmap h pg) i) (num_records_per_page h)))"
    by (rule int32_small [OF n count_set_le])
  then have small: "int32 (num_records pg - 1)" using c cnt by (simp add: int32_def)
  note take = page_take_def Let_def page_simps num_records_after [of h] next_free_after [of h] len i(1)
  show num: "num_records (page_take h i pg) = num_records pg - 1" by (simp add: take small)
  show "next_free_page_no (page_take h i pg) = next_free_page_no pg" by (simp add: take)
  have bm: "page_bitmap h (page_take h i pg) = bitmap_reset (page_bitmap h pg) i" by (simp add: take)
  show "page_ok h (page_take h i pg)"
    unfolding page_ok_def num bm using n cnt c by (simp add: take)
  show "page_records h (page_take h i pg) = (page_records h pg)(i := None)"
    using ib by (auto simp: fun_eq_iff page_records_def bm is_set_bitmap_reset) (simp_all add: take)
qed

lemma page_update_ok:
  assumes ok: "page_ok h pg" and i: "i < num_records_per_page h" "is_set (page_bitmap h pg) i"
    and buf: "length buf = record_size h"
  shows "page_ok h (set_slot h i buf pg)" "page_records h (set_slot h i buf pg) = (page_records h pg)(i \<mapsto> buf)"
  using ok i buf by (auto simp: page_ok_def page_simps num_records_after [of h] fun_eq_iff page_records_def)

lemma page_next_ok:
  assumes ok: "page_ok h pg"
  shows "page_ok h (set_next_free x pg)" "page_records h (set_next_free x pg) = page_records h pg"
    "num_records (set_next_free x pg) = num_records pg"
  using ok by (auto simp: page_ok_def page_simps num_records_after [of h] fun_eq_iff page_records_def)

end
