(* ===== verification/Mvcc_Map.thy ===== *)
theory Mvcc_Map
  imports Rmdb_Prelude
begin

text \<open>
  The per-file map of uncommitted changes (\<^verbatim>\<open>src/src/record/mvcc_map.h\<close>): a slot with an entry
  was inserted, updated or deleted by a transaction that has not finished; commit and rollback
  erase the entry. Each method holds the map's latch for its whole body.
\<close>

subsection \<open>Model\<close>

datatype RCInfo = RC_SUCCESS | RC_RECORD_INVISIBLE | RC_LOCKED_CONFLICT

record HeapTupleFields =
  t_xmin :: txn_id
  t_xmax :: txn_id

type_synonym mvcc_map = "int \<rightharpoonup> HeapTupleFields"

definition visit_record :: "int \<Rightarrow> txn_id \<Rightarrow> bool \<Rightarrow> mvcc_map \<Rightarrow> RCInfo" where
  "visit_record slot tid is_readonly m =
     (case m slot of
        None \<Rightarrow> RC_SUCCESS
      | Some hpf \<Rightarrow>
          let xmin = t_xmin hpf; xmax = t_xmax hpf
          in if 0 < xmin \<and> 0 < xmax then
               (if xmin \<le> tid \<and> tid \<le> xmax then RC_SUCCESS else RC_RECORD_INVISIBLE)
             else if xmin < 0 then (if - xmin = tid then RC_SUCCESS else RC_RECORD_INVISIBLE)
             else if xmax < 0 then
               (if is_readonly then (if - xmax = tid then RC_SUCCESS else RC_RECORD_INVISIBLE)
                else (if - xmax \<noteq> tid then RC_LOCKED_CONFLICT else RC_RECORD_INVISIBLE))
             else RC_SUCCESS)"

definition map_insert_record :: "int \<Rightarrow> txn_id \<Rightarrow> mvcc_map \<Rightarrow> mvcc_map \<times> RCInfo" where
  "map_insert_record slot tid m = (m(slot \<mapsto> \<lparr>t_xmin = - tid, t_xmax = INT32_MAX\<rparr>), RC_SUCCESS)"

definition map_delete_record :: "int \<Rightarrow> txn_id \<Rightarrow> mvcc_map \<Rightarrow> mvcc_map \<times> RCInfo" where
  "map_delete_record slot tid m =
     (case m slot of
        Some hpf \<Rightarrow> (m(slot \<mapsto> hpf\<lparr>t_xmax := - tid\<rparr>), RC_SUCCESS)
      | None \<Rightarrow> (m, RC_RECORD_INVISIBLE))"

text \<open>\<open>commit_insert\<close> and \<open>commit_delete\<close> write the positive id into the entry and then erase it.\<close>

definition commit_insert :: "int \<Rightarrow> txn_id \<Rightarrow> mvcc_map \<Rightarrow> mvcc_map \<times> RCInfo" where
  "commit_insert slot tid m =
     (case m slot of
        Some hpf \<Rightarrow> ((m(slot \<mapsto> hpf\<lparr>t_xmin := tid\<rparr>))(slot := None), RC_SUCCESS)
      | None \<Rightarrow> (m, RC_RECORD_INVISIBLE))"

definition commit_delete :: "int \<Rightarrow> txn_id \<Rightarrow> mvcc_map \<Rightarrow> mvcc_map \<times> RCInfo" where
  "commit_delete slot tid m =
     (case m slot of
        Some hpf \<Rightarrow> ((m(slot \<mapsto> hpf\<lparr>t_xmax := tid\<rparr>))(slot := None), RC_SUCCESS)
      | None \<Rightarrow> (m, RC_RECORD_INVISIBLE))"

subsection \<open>Runs of the map\<close>

text \<open>The calls the record file makes, by transactions with a positive id.\<close>

inductive map_step :: "mvcc_map \<Rightarrow> mvcc_map \<Rightarrow> bool" where
  ins: "0 < tid \<Longrightarrow> map_step m (fst (map_insert_record slot tid m))"
| del: "0 < tid \<Longrightarrow> map_step m (fst (map_delete_record slot tid m))"
| cins: "map_step m (fst (commit_insert slot tid m))"
| cdel: "map_step m (fst (commit_delete slot tid m))"

inductive map_reachable :: "mvcc_map \<Rightarrow> bool" where
  start: "map_reachable Map.empty"
| step: "map_reachable m \<Longrightarrow> map_step m m' \<Longrightarrow> map_reachable m'"

inductive_cases map_stepE: "map_step m m'"

definition uncommitted :: "mvcc_map \<Rightarrow> bool" where
  "uncommitted m \<longleftrightarrow> (\<forall>slot hpf. m slot = Some hpf \<longrightarrow> t_xmin hpf < 0)"

lemma uncommitted_step: "uncommitted m \<Longrightarrow> map_step m m' \<Longrightarrow> uncommitted m'"
  by (auto simp: uncommitted_def map_insert_record_def map_delete_record_def commit_insert_def commit_delete_def
      elim!: map_stepE split: option.splits if_splits)

lemma uncommitted_reachable: "map_reachable m \<Longrightarrow> uncommitted m"
proof (induction rule: map_reachable.induct)
  case start
  then show ?case by (simp add: uncommitted_def)
qed (rule uncommitted_step)

subsection \<open>Properties\<close>

text \<open>In every state of the map reached from the empty one by inserts and deletes of
  transactions with positive ids and by commits, a slot is visible to a transaction exactly when
  it has no entry or the transaction itself created the entry; the answer does not depend on the
  read-only flag and a lock conflict is never reported.\<close>

theorem visit_record_reachable:
  assumes "map_reachable m"
  shows "visit_record slot tid ro m =
    (case m slot of None \<Rightarrow> RC_SUCCESS
     | Some hpf \<Rightarrow> if t_xmin hpf = - tid then RC_SUCCESS else RC_RECORD_INVISIBLE)"
proof (cases "m slot")
  case (Some hpf)
  then have "t_xmin hpf < 0" using uncommitted_reachable [OF assms] by (simp add: uncommitted_def)
  then show ?thesis using Some by (auto simp: visit_record_def Let_def)
qed (simp add: visit_record_def)

theorem visit_record_reachable_witness:
  "visit_record 5 2 False (fst (map_insert_record 5 1 Map.empty)) = RC_RECORD_INVISIBLE \<and>
   visit_record 5 1 False (fst (map_insert_record 5 1 Map.empty)) = RC_SUCCESS"
proof -
  have "map_reachable (fst (map_insert_record 5 1 Map.empty))"
    by (rule map_reachable.step [OF map_reachable.start map_step.ins]) simp
  then show ?thesis
    using visit_record_reachable [of "fst (map_insert_record 5 1 Map.empty)" 5]
    by (simp add: map_insert_record_def)
qed

text \<open>The first transaction of the server has id 0, and minus zero is zero: a row it has inserted
  and not committed is visible to every transaction, although the map holds an entry for it.\<close>

theorem insert_by_txn_zero_visible:
  "visit_record slot tid ro (fst (map_insert_record slot 0 m)) = RC_SUCCESS \<and>
   fst (map_insert_record slot 0 m) slot \<noteq> None"
  by (simp add: visit_record_def map_insert_record_def INT32_MAX_def)

end
