(* ===== verification/Log_Records.thy ===== *)
theory Log_Records
  imports Bytes
begin

text \<open>
  The log records of \<^verbatim>\<open>src/src/recovery/log_manager.h\<close> and \<^verbatim>\<open>log_defs.h\<close>: the record classes with
  their constructors, and their byte format. \<open>serialize\<close> writes its fields at consecutive
  offsets, so its result is their concatenation; \<open>deserialize\<close> reads them back at the offsets
  the code computes. Debug printing is not modelled.
\<close>

subsection \<open>Model\<close>

datatype LogType = UPDATE | INSERT | DELETE | Begin | Commit | ABORT | Checkpoint

fun log_type_code :: "LogType \<Rightarrow> int" where
  "log_type_code UPDATE = 0" | "log_type_code INSERT = 1" | "log_type_code DELETE = 2"
| "log_type_code Begin = 3" | "log_type_code Commit = 4" | "log_type_code ABORT = 5"
| "log_type_code Checkpoint = 6"

definition OFFSET_LOG_TYPE :: nat where "OFFSET_LOG_TYPE = 0"
definition OFFSET_LSN :: nat where "OFFSET_LSN = 4"
definition OFFSET_LOG_TOT_LEN :: nat where "OFFSET_LOG_TOT_LEN = OFFSET_LSN + 4"
definition OFFSET_LOG_TID :: nat where "OFFSET_LOG_TID = OFFSET_LOG_TOT_LEN + 4"
definition OFFSET_PREV_LSN :: nat where "OFFSET_PREV_LSN = OFFSET_LOG_TID + 4"
definition OFFSET_LOG_DATA :: nat where "OFFSET_LOG_DATA = OFFSET_PREV_LSN + 4"
definition LOG_HEADER_SIZE :: nat where "LOG_HEADER_SIZE = OFFSET_LOG_DATA"

lemmas log_offsets = OFFSET_LOG_TYPE_def OFFSET_LSN_def OFFSET_LOG_TOT_LEN_def OFFSET_LOG_TID_def
  OFFSET_PREV_LSN_def OFFSET_LOG_DATA_def LOG_HEADER_SIZE_def

type_synonym table_name = bytes

text \<open>The members of the subclasses; a record's value is its bytes, its size their number.\<close>

datatype log_body =
    NoBody
  | InsertBody bytes Rid table_name
  | DeleteBody bytes Rid table_name int int
  | UpdateBody bytes bytes Rid table_name int int

record log_record =
  log_type :: LogType
  log_lsn :: lsn
  log_tot_len :: nat
  log_tid :: txn_id
  prev_lsn :: lsn
  log_body :: log_body

definition log_base :: "LogType \<Rightarrow> txn_id \<Rightarrow> nat \<Rightarrow> log_body \<Rightarrow> log_record" where
  "log_base ty tid len body = \<lparr>log_type = ty, log_lsn = INVALID_LSN, log_tot_len = LOG_HEADER_SIZE + len,
     log_tid = tid, prev_lsn = INVALID_LSN, log_body = body\<rparr>"

definition BeginLogRecord :: "txn_id \<Rightarrow> log_record" where
  "BeginLogRecord tid = log_base Begin tid 0 NoBody"

definition CommitLogRecord :: "txn_id \<Rightarrow> log_record" where
  "CommitLogRecord tid = log_base Commit tid 0 NoBody"

definition AbortLogRecord :: "txn_id \<Rightarrow> log_record" where
  "AbortLogRecord tid = log_base ABORT tid 0 NoBody"

definition CkpLogRecord :: log_record where
  "CkpLogRecord = log_base Checkpoint INVALID_TXN_ID 0 NoBody"

definition InsertLogRecord :: "txn_id \<Rightarrow> bytes \<Rightarrow> Rid \<Rightarrow> table_name \<Rightarrow> log_record" where
  "InsertLogRecord tid insert_value rid table =
     log_base INSERT tid (4 + length insert_value + 8 + (8 + length table)) (InsertBody insert_value rid table)"

definition DeleteLogRecord :: "txn_id \<Rightarrow> Rid \<Rightarrow> table_name \<Rightarrow> bytes \<Rightarrow> log_record" where
  "DeleteLogRecord tid rid table delete_value =
     log_base DELETE tid (4 + length delete_value + 8 + (8 + length table) + 4 + 4)
       (DeleteBody delete_value rid table (-1) (-1))"

definition UpdateLogRecord :: "txn_id \<Rightarrow> bytes \<Rightarrow> bytes \<Rightarrow> Rid \<Rightarrow> table_name \<Rightarrow> log_record" where
  "UpdateLogRecord tid old_value new_value rid table =
     log_base UPDATE tid (4 * 2 + (length old_value + length new_value) + 8 + (8 + length table) + 4 + 4)
       (UpdateBody old_value new_value rid table (-1) (-1))"

subsubsection \<open>Serialisation\<close>

definition enc_record :: "bytes \<Rightarrow> bytes" where
  "enc_record v = enc_i32 (int (length v)) @ v"

definition enc_rid :: "Rid \<Rightarrow> bytes" where
  "enc_rid rid = enc_i32 (rid_page_no rid) @ enc_i32 (rid_slot_no rid)"

definition enc_name :: "table_name \<Rightarrow> bytes" where
  "enc_name t = enc_u64 (length t) @ t"

definition serialize_header :: "log_record \<Rightarrow> bytes" where
  "serialize_header r = enc_i32 (log_type_code (log_type r)) @ enc_i32 (log_lsn r) @ enc_u32 (log_tot_len r) @
     enc_i32 (log_tid r) @ enc_i32 (prev_lsn r)"

fun serialize_body :: "log_body \<Rightarrow> bytes" where
  "serialize_body NoBody = []"
| "serialize_body (InsertBody v rid t) = enc_record v @ enc_rid rid @ enc_name t"
| "serialize_body (DeleteBody v rid t ffp np) =
     enc_record v @ enc_rid rid @ enc_name t @ enc_i32 ffp @ enc_i32 np"
| "serialize_body (UpdateBody v w rid t ffp np) =
     enc_record v @ enc_record w @ enc_rid rid @ enc_name t @ enc_i32 ffp @ enc_i32 np"

definition serialize :: "log_record \<Rightarrow> bytes" where
  "serialize r = serialize_header r @ serialize_body (log_body r)"

subsubsection \<open>Deserialisation\<close>

definition dec_record :: "nat \<Rightarrow> bytes \<Rightarrow> bytes" where
  "dec_record off src = read_bytes (off + 4) (nat (read_i32 off src)) src"

definition dec_rid :: "nat \<Rightarrow> bytes \<Rightarrow> Rid" where
  "dec_rid off src = \<lparr>rid_page_no = read_i32 off src, rid_slot_no = read_i32 (off + 4) src\<rparr>"

definition dec_name :: "nat \<Rightarrow> bytes \<Rightarrow> table_name" where
  "dec_name off src = read_bytes (off + 8) (read_u64 off src) src"

definition decode_type :: "int \<Rightarrow> LogType option" where
  "decode_type c = map_of [(0, UPDATE), (1, INSERT), (2, DELETE), (3, Begin), (4, Commit), (5, ABORT),
     (6, Checkpoint)] c"

definition deserialize_insert :: "bytes \<Rightarrow> log_body" where
  "deserialize_insert src =
     (let v = dec_record OFFSET_LOG_DATA src;
          off = OFFSET_LOG_DATA + length v + 4;
          rid = dec_rid off src;
          t = dec_name (off + 8) src
      in InsertBody v rid t)"

definition deserialize_delete :: "bytes \<Rightarrow> log_body" where
  "deserialize_delete src =
     (let v = dec_record OFFSET_LOG_DATA src;
          off = OFFSET_LOG_DATA + length v + 4;
          rid = dec_rid off src;
          t = dec_name (off + 8) src;
          off' = off + 8 + 8 + length t
      in DeleteBody v rid t (read_i32 off' src) (read_i32 (off' + 4) src))"

definition deserialize_update :: "bytes \<Rightarrow> log_body" where
  "deserialize_update src =
     (let v = dec_record OFFSET_LOG_DATA src;
          off1 = OFFSET_LOG_DATA + (4 + length v);
          w = dec_record off1 src;
          off2 = off1 + (4 + length w);
          rid = dec_rid off2 src;
          t = dec_name (off2 + 8) src;
          off3 = off2 + 8 + 8 + length t
      in UpdateBody v w rid t (read_i32 off3 src) (read_i32 (off3 + 4) src))"

text \<open>
  The record at the start of \<open>src\<close>: its type selects the class, as the switch of the recovery
  manager does; an unknown type has no record.
\<close>

definition deserialize :: "bytes \<Rightarrow> log_record option" where
  "deserialize src =
     (case decode_type (read_i32 OFFSET_LOG_TYPE src) of
        None \<Rightarrow> None
      | Some ty \<Rightarrow> Some
          \<lparr>log_type = ty, log_lsn = read_i32 OFFSET_LSN src, log_tot_len = read_u32 OFFSET_LOG_TOT_LEN src,
           log_tid = read_i32 OFFSET_LOG_TID src, prev_lsn = read_i32 OFFSET_PREV_LSN src,
           log_body = (case ty of INSERT \<Rightarrow> deserialize_insert src | DELETE \<Rightarrow> deserialize_delete src
                       | UPDATE \<Rightarrow> deserialize_update src | _ \<Rightarrow> NoBody)\<rparr>)"

subsection \<open>Well-formed records\<close>

definition rid_ok :: "Rid \<Rightarrow> bool" where
  "rid_ok rid \<longleftrightarrow> int32 (rid_page_no rid) \<and> int32 (rid_slot_no rid)"

definition name_ok :: "table_name \<Rightarrow> bool" where
  "name_ok t \<longleftrightarrow> length t < 2 ^ 64"

definition value_ok :: "bytes \<Rightarrow> bool" where
  "value_ok v \<longleftrightarrow> int32 (int (length v))"

text \<open>The body fits the type, as the constructors make it.\<close>

fun body_ok :: "LogType \<Rightarrow> log_body \<Rightarrow> bool" where
  "body_ok INSERT (InsertBody v rid t) \<longleftrightarrow> value_ok v \<and> rid_ok rid \<and> name_ok t"
| "body_ok DELETE (DeleteBody v rid t ffp np) \<longleftrightarrow>
     value_ok v \<and> rid_ok rid \<and> name_ok t \<and> int32 ffp \<and> int32 np"
| "body_ok UPDATE (UpdateBody v w rid t ffp np) \<longleftrightarrow>
     value_ok v \<and> value_ok w \<and> rid_ok rid \<and> name_ok t \<and> int32 ffp \<and> int32 np"
| "body_ok ty NoBody \<longleftrightarrow> ty \<in> {Begin, Commit, ABORT, Checkpoint}"
| "body_ok _ _ \<longleftrightarrow> False"

definition log_ok :: "log_record \<Rightarrow> bool" where
  "log_ok r \<longleftrightarrow> body_ok (log_type r) (log_body r) \<and> int32 (log_lsn r) \<and> int32 (log_tid r) \<and> int32 (prev_lsn r) \<and>
     log_tot_len r < 2 ^ 32 \<and> log_tot_len r = LOG_HEADER_SIZE + length (serialize_body (log_body r))"

lemma length_serialize_header [simp]: "length (serialize_header r) = LOG_HEADER_SIZE"
  by (simp add: serialize_header_def log_offsets)

lemma length_serialize: "log_ok r \<Longrightarrow> length (serialize r) = log_tot_len r"
  by (simp add: serialize_def log_ok_def)

lemma length_encodings [simp]:
  "length (enc_record v) = 4 + length v" "length (enc_rid rid) = 8" "length (enc_name t) = 8 + length t"
  by (simp_all add: enc_record_def enc_rid_def enc_name_def)

subsection \<open>Reading a field back\<close>

lemma read_i32_at [byte_simps]: "off = length p \<Longrightarrow> int32 x \<Longrightarrow> read_i32 off (p @ enc_i32 x @ q) = x"
  by (simp add: read_i32_def byte_simps)

lemma read_u32_at [byte_simps]: "off = length p \<Longrightarrow> x < 2 ^ 32 \<Longrightarrow> read_u32 off (p @ enc_u32 x @ q) = x"
  by (simp add: read_u32_def byte_simps)

lemma read_u64_at [byte_simps]: "off = length p \<Longrightarrow> x < 2 ^ 64 \<Longrightarrow> read_u64 off (p @ enc_u64 x @ q) = x"
  by (simp add: read_u64_def byte_simps)

lemma dec_record_at: "off = length p \<Longrightarrow> value_ok v \<Longrightarrow> dec_record off (p @ enc_record v @ q) = v"
  by (simp add: dec_record_def enc_record_def value_ok_def byte_simps)

lemma dec_rid_at: "off = length p \<Longrightarrow> rid_ok rid \<Longrightarrow> dec_rid off (p @ enc_rid rid @ q) = rid"
  using read_i32_at [of "off + 4" "p @ enc_i32 (rid_page_no rid)" "rid_slot_no rid" q]
  by (simp add: dec_rid_def enc_rid_def rid_ok_def byte_simps)

lemma dec_name_at: "off = length p \<Longrightarrow> name_ok t \<Longrightarrow> dec_name off (p @ enc_name t @ q) = t"
  by (simp add: dec_name_def enc_name_def name_ok_def byte_simps)

lemma decode_type_code [simp]: "decode_type (log_type_code ty) = Some ty"
  by (cases ty) (simp_all add: decode_type_def)

lemma int32_type_code [simp]: "int32 (log_type_code ty)"
  by (cases ty) (simp_all add: int32_def)

lemma read_header:
  assumes "log_ok r"
  shows "read_i32 OFFSET_LOG_TYPE (serialize_header r @ q) = log_type_code (log_type r)"
    "read_i32 OFFSET_LSN (serialize_header r @ q) = log_lsn r"
    "read_u32 OFFSET_LOG_TOT_LEN (serialize_header r @ q) = log_tot_len r"
    "read_i32 OFFSET_LOG_TID (serialize_header r @ q) = log_tid r"
    "read_i32 OFFSET_PREV_LSN (serialize_header r @ q) = prev_lsn r"
  using assms
  by (simp_all add: serialize_header_def log_offsets log_ok_def read_i32_def read_u32_def byte_simps)

lemma deserialize_insert_at:
  assumes "length h = LOG_HEADER_SIZE" and "body_ok INSERT (InsertBody v rid t)"
  shows "deserialize_insert (h @ serialize_body (InsertBody v rid t) @ q) = InsertBody v rid t"
proof -
  have ok: "value_ok v" "rid_ok rid" "name_ok t" and h: "length h = OFFSET_LOG_DATA"
    using assms by (simp_all add: LOG_HEADER_SIZE_def)
  show ?thesis
    using dec_record_at [OF h [symmetric] ok(1), of "enc_rid rid @ enc_name t @ q"]
      dec_rid_at [OF _ ok(2), of _ "h @ enc_record v" "enc_name t @ q"]
      dec_name_at [OF _ ok(3), of _ "h @ enc_record v @ enc_rid rid" q]
    by (simp add: deserialize_insert_def Let_def h add_ac)
qed

lemma deserialize_delete_at:
  assumes "length h = LOG_HEADER_SIZE" and "body_ok DELETE (DeleteBody v rid t ffp np)"
  shows "deserialize_delete (h @ serialize_body (DeleteBody v rid t ffp np) @ q) = DeleteBody v rid t ffp np"
proof -
  have ok: "value_ok v" "rid_ok rid" "name_ok t" "int32 ffp" "int32 np" and h: "length h = OFFSET_LOG_DATA"
    using assms by (simp_all add: LOG_HEADER_SIZE_def)
  show ?thesis
    using dec_record_at [OF h [symmetric] ok(1), of "enc_rid rid @ enc_name t @ enc_i32 ffp @ enc_i32 np @ q"]
      dec_rid_at [OF _ ok(2), of _ "h @ enc_record v" "enc_name t @ enc_i32 ffp @ enc_i32 np @ q"]
      dec_name_at [OF _ ok(3), of _ "h @ enc_record v @ enc_rid rid" "enc_i32 ffp @ enc_i32 np @ q"]
      read_i32_at [OF _ ok(4), of _ "h @ enc_record v @ enc_rid rid @ enc_name t" "enc_i32 np @ q"]
      read_i32_at [OF _ ok(5), of _ "h @ enc_record v @ enc_rid rid @ enc_name t @ enc_i32 ffp" q]
    by (simp add: deserialize_delete_def Let_def h add_ac)
qed

lemma deserialize_update_at:
  assumes "length h = LOG_HEADER_SIZE" and "body_ok UPDATE (UpdateBody v w rid t ffp np)"
  shows "deserialize_update (h @ serialize_body (UpdateBody v w rid t ffp np) @ q) = UpdateBody v w rid t ffp np"
proof -
  have ok: "value_ok v" "value_ok w" "rid_ok rid" "name_ok t" "int32 ffp" "int32 np" and h: "length h = OFFSET_LOG_DATA"
    using assms by (simp_all add: LOG_HEADER_SIZE_def)
  show ?thesis
    using dec_record_at [OF h [symmetric] ok(1), of "enc_record w @ enc_rid rid @ enc_name t @ enc_i32 ffp @ enc_i32 np @ q"]
      dec_record_at [OF _ ok(2), of _ "h @ enc_record v" "enc_rid rid @ enc_name t @ enc_i32 ffp @ enc_i32 np @ q"]
      dec_rid_at [OF _ ok(3), of _ "h @ enc_record v @ enc_record w" "enc_name t @ enc_i32 ffp @ enc_i32 np @ q"]
      dec_name_at [OF _ ok(4), of _ "h @ enc_record v @ enc_record w @ enc_rid rid" "enc_i32 ffp @ enc_i32 np @ q"]
      read_i32_at [OF _ ok(5), of _ "h @ enc_record v @ enc_record w @ enc_rid rid @ enc_name t" "enc_i32 np @ q"]
      read_i32_at [OF _ ok(6), of _ "h @ enc_record v @ enc_record w @ enc_rid rid @ enc_name t @ enc_i32 ffp" q]
    by (simp add: deserialize_update_def Let_def h add_ac)
qed

lemma deserialize_serialize:
  assumes ok: "log_ok r"
  shows "deserialize (serialize r @ q) = Some r"
proof -
  have body: "body_ok (log_type r) (log_body r)" using ok by (simp add: log_ok_def)
  note hdr = read_header [OF ok]
  let ?src = "serialize_header r @ serialize_body (log_body r) @ q"
  have "(case log_type r of INSERT \<Rightarrow> deserialize_insert ?src | DELETE \<Rightarrow> deserialize_delete ?src
         | UPDATE \<Rightarrow> deserialize_update ?src | _ \<Rightarrow> NoBody) = log_body r"
    using body deserialize_insert_at [of "serialize_header r"] deserialize_delete_at [of "serialize_header r"]
      deserialize_update_at [of "serialize_header r"]
    by (cases "(log_type r, log_body r)" rule: body_ok.cases) (simp_all, auto)
  moreover have "serialize r @ q = ?src" by (simp add: serialize_def)
  ultimately show ?thesis by (simp only: deserialize_def hdr) simp
qed

subsection \<open>The constructors build well-formed records\<close>

lemma log_ok_simple:
  "int32 tid \<Longrightarrow> log_ok (BeginLogRecord tid)" "int32 tid \<Longrightarrow> log_ok (CommitLogRecord tid)"
  "int32 tid \<Longrightarrow> log_ok (AbortLogRecord tid)" "log_ok CkpLogRecord"
  by (simp_all add: log_ok_def BeginLogRecord_def CommitLogRecord_def AbortLogRecord_def CkpLogRecord_def
      log_base_def int32_def log_offsets INVALID_LSN_def INVALID_TXN_ID_def)

text \<open>Values of at most \<open>RM_MAX_RECORD_SIZE\<close> bytes and table names of a reasonable length.\<close>

definition small :: "bytes \<Rightarrow> bool" where
  "small v \<longleftrightarrow> length v < 2 ^ 16"

lemma log_ok_data:
  assumes "int32 tid" "rid_ok rid" "small v" "small w" "small t"
  shows "log_ok (InsertLogRecord tid v rid t)" "log_ok (DeleteLogRecord tid rid t v)"
    "log_ok (UpdateLogRecord tid v w rid t)"
  using assms
  by (simp_all add: log_ok_def InsertLogRecord_def DeleteLogRecord_def UpdateLogRecord_def log_base_def
      small_def value_ok_def name_ok_def int32_def log_offsets INVALID_LSN_def)

lemma log_ok_lsn: "log_ok r \<Longrightarrow> int32 l \<Longrightarrow> log_ok (r\<lparr>log_lsn := l\<rparr>)"
  by (simp add: log_ok_def)

text \<open>The records the program makes: by the constructors of the classes, with values and table names of less than \<open>2 ^ 16\<close> bytes, and by setting the two
  sequence numbers afterwards.\<close>

inductive built :: "log_record \<Rightarrow> bool" where
  built_begin: "int32 tid \<Longrightarrow> built (BeginLogRecord tid)"
| built_commit: "int32 tid \<Longrightarrow> built (CommitLogRecord tid)"
| built_abort: "int32 tid \<Longrightarrow> built (AbortLogRecord tid)"
| built_checkpoint: "built CkpLogRecord"
| built_insert: "int32 tid \<Longrightarrow> rid_ok rid \<Longrightarrow> small v \<Longrightarrow> small t \<Longrightarrow> built (InsertLogRecord tid v rid t)"
| built_delete: "int32 tid \<Longrightarrow> rid_ok rid \<Longrightarrow> small v \<Longrightarrow> small t \<Longrightarrow> built (DeleteLogRecord tid rid t v)"
| built_update: "int32 tid \<Longrightarrow> rid_ok rid \<Longrightarrow> small v \<Longrightarrow> small w \<Longrightarrow> small t \<Longrightarrow> built (UpdateLogRecord tid v w rid t)"
| built_lsn: "built r \<Longrightarrow> int32 l \<Longrightarrow> built (r\<lparr>log_lsn := l\<rparr>)"
| built_prev_lsn: "built r \<Longrightarrow> int32 l \<Longrightarrow> built (r\<lparr>prev_lsn := l\<rparr>)"

lemma built_ok: "built r \<Longrightarrow> log_ok r"
proof (induction rule: built.induct)
  case (built_prev_lsn r l)
  then show ?case by (simp add: log_ok_def)
qed (simp_all add: log_ok_simple log_ok_data log_ok_lsn)

subsection \<open>Properties\<close>

text \<open>C22: Every log record the program builds, with values and table names of less than \<open>2 ^ 16\<close> bytes, is read back from the log as it was written,
  whatever follows it: the length its constructor has added up, which recovery uses to find the next record, is the length of its
  serialised form, and deserialising its bytes gives the record.\<close>

theorem log_record_round_trip:
  assumes "built r"
  shows "length (serialize r) = log_tot_len r \<and> deserialize (serialize r @ rest) = Some r"
  using length_serialize [OF built_ok [OF assms]] deserialize_serialize [OF built_ok [OF assms]] by simp

theorem log_record_round_trip_witness:
  "deserialize (serialize ((UpdateLogRecord 7 [1, 2] [3, 4] \<lparr>rid_page_no = 1, rid_slot_no = 5\<rparr> [116])\<lparr>log_lsn := 3\<rparr>) @ [9]) =
     Some ((UpdateLogRecord 7 [1, 2] [3, 4] \<lparr>rid_page_no = 1, rid_slot_no = 5\<rparr> [116])\<lparr>log_lsn := 3\<rparr>)"
proof -
  have "built ((UpdateLogRecord 7 [1, 2] [3, 4] \<lparr>rid_page_no = 1, rid_slot_no = 5\<rparr> [116])\<lparr>log_lsn := 3\<rparr>)"
    by (intro built_lsn built_update) (simp_all add: int32_def rid_ok_def small_def)
  then show ?thesis using log_record_round_trip by blast
qed

end
