(* ===== verification/Rm_File.thy ===== *)
theory Rm_File
  imports Rm_Page Page_Store Mvcc_Map Log_Records
begin

text \<open>
  The record file (\<^verbatim>\<open>src/src/record/rm_file_handle.cpp\<close>): records of one size in the slots of the
  pages of a file, a chain of the pages with free slots, the map of uncommitted changes. The
  buffer pool is used through its specification (theory \<open>Page_Store\<close>, refined by
  \<open>Buffer_Pool\<close>); the records handed to the log manager are collected in order. Public
  methods hold the file's latch; slot numbers are those of slots inside a page.

  \<open>Bitmap::first_bit\<close> never returns -1, so the branch of \<^verbatim>\<open>insert_record\<close> that tests for it cannot be
  taken and is not part of the model.
\<close>

subsection \<open>Model\<close>

record rm_file =
  rf_fd :: int
  rf_hdr :: RmFileHdr
  rf_mvcc :: mvcc_map
  rf_store :: page_store
  rf_log :: "log_record list"

record Context =
  ctx_txn :: "txn_id option"
  ctx_log :: bool
  ctx_table :: table_name

definition rf_pid :: "int \<Rightarrow> rm_file \<Rightarrow> PageId" where
  "rf_pid page_no s = \<lparr>pid_fd = rf_fd s, pid_page_no = page_no\<rparr>"

definition rf_unpin :: "int \<Rightarrow> bool \<Rightarrow> rm_file \<Rightarrow> rm_file" where
  "rf_unpin page_no is_dirty s = s\<lparr>rf_store := snd (ps_unpin (rf_pid page_no s) is_dirty (rf_store s))\<rparr>"

text \<open>Assignments through the page handle: the page's bytes after them.\<close>

definition rf_write :: "int \<Rightarrow> bytes \<Rightarrow> rm_file \<Rightarrow> rm_file" where
  "rf_write page_no pg s = s\<lparr>rf_store := snd (ps_write (rf_pid page_no s) pg (rf_store s))\<rparr>"

definition fetch_page_handle :: "int \<Rightarrow> rm_file \<Rightarrow> (rm_file, bytes) outcome" where
  "fetch_page_handle page_no s =
     (if page_no < 0 then (Inl (RecordNotFoundError page_no (-1)), s)
      else if num_pages (rf_hdr s) \<le> page_no then (Inl (RecordNotFoundError page_no (-1)), s)
      else case ps_fetch (rf_pid page_no s) (rf_store s) of
             (Inl e, st) \<Rightarrow> (Inl e, s\<lparr>rf_store := st\<rparr>)
           | (Inr (Got (Some pg)), st) \<Rightarrow> (Inr pg, s\<lparr>rf_store := st\<rparr>)
           | (Inr _, st) \<Rightarrow> (Inl (RecordNotFoundError page_no (-1)), s\<lparr>rf_store := st\<rparr>))"

definition new_page_bytes :: "RmFileHdr \<Rightarrow> bytes" where
  "new_page_bytes h =
     (let pg0 = replicate PAGE_SIZE 0;
          pg1 = set_num_records 0 pg0;
          pg2 = set_next_free (first_free_page_no h) pg1
      in set_bitmap (replicate (bitmap_size h) 0) pg2)"

definition create_new_page_handle :: "rm_file \<Rightarrow> (rm_file, int \<times> bytes) outcome" where
  "create_new_page_handle s =
     (case ps_new (rf_fd s) (rf_store s) of
        (Inl e, st) \<Rightarrow> (Inl e, s\<lparr>rf_store := st\<rparr>)
      | (Inr (Created (Some pid)), st) \<Rightarrow>
          let pg = new_page_bytes (rf_hdr s); no = pid_page_no pid
          in (Inr (no, pg),
              (rf_write no pg (s\<lparr>rf_store := st\<rparr>))
                \<lparr>rf_hdr := (rf_hdr s)\<lparr>first_free_page_no := no, num_pages := max (num_pages (rf_hdr s)) (no + 1)\<rparr>\<rparr>)
      | (Inr _, st) \<Rightarrow> (Inl (RuntimeError ''fail to create_new_page''), s\<lparr>rf_store := st\<rparr>))"

definition create_page_handle :: "rm_file \<Rightarrow> (rm_file, int \<times> bytes) outcome" where
  "create_page_handle s =
     (let no = first_free_page_no (rf_hdr s)
      in if no = -1 then create_new_page_handle s
         else case fetch_page_handle no s of
                (Inl e, s') \<Rightarrow> (Inl e, s')
              | (Inr pg, s') \<Rightarrow> (Inr (no, pg), s'))"

text \<open>The log record of a change, when the statement runs with a log manager; the change is noted in
  the map when it runs in a transaction.\<close>

definition ctx_tid :: "Context \<Rightarrow> txn_id" where
  "ctx_tid ctx = (case ctx_txn ctx of None \<Rightarrow> INVALID_TXN_ID | Some t \<Rightarrow> t)"

definition rf_add_log :: "Context option \<Rightarrow> (Context \<Rightarrow> log_record) \<Rightarrow> rm_file \<Rightarrow> rm_file" where
  "rf_add_log ctx mk s =
     (case ctx of
        Some c \<Rightarrow> if ctx_log c then s\<lparr>rf_log := rf_log s @ [mk c]\<rparr> else s
      | None \<Rightarrow> s)"

definition rf_slot :: "rm_file \<Rightarrow> Rid \<Rightarrow> int" where
  "rf_slot s rid = rid_page_no rid * int (num_records_per_page (rf_hdr s)) + rid_slot_no rid"

definition rf_track ::
  "Context option \<Rightarrow> (int \<Rightarrow> txn_id \<Rightarrow> mvcc_map \<Rightarrow> mvcc_map \<times> RCInfo) \<Rightarrow> Rid \<Rightarrow> rm_file \<Rightarrow> rm_file" where
  "rf_track ctx f rid s =
     (case ctx of
        Some c \<Rightarrow> (case ctx_txn c of
                     Some t \<Rightarrow> s\<lparr>rf_mvcc := fst (f (rf_slot s rid) t (rf_mvcc s))\<rparr>
                   | None \<Rightarrow> s)
      | None \<Rightarrow> s)"

definition visit :: "Rid \<Rightarrow> txn_id \<Rightarrow> rm_file \<Rightarrow> bool" where
  "visit rid tid s \<longleftrightarrow> visit_record (rf_slot s rid) tid False (rf_mvcc s) = RC_SUCCESS"

definition commit_mvcc :: "int \<Rightarrow> Rid \<Rightarrow> txn_id \<Rightarrow> rm_file \<Rightarrow> rm_file" where
  "commit_mvcc ty rid tid s =
     s\<lparr>rf_mvcc := (if ty = 1 then fst (commit_delete (rf_slot s rid) tid (rf_mvcc s))
                   else fst (commit_insert (rf_slot s rid) tid (rf_mvcc s)))\<rparr>"

definition is_record :: "Rid \<Rightarrow> rm_file \<Rightarrow> (rm_file, bool) outcome" where
  "is_record rid s =
     (case fetch_page_handle (rid_page_no rid) s of
        (Inl e, s') \<Rightarrow> (Inl e, s')
      | (Inr pg, s') \<Rightarrow> (Inr (is_set (page_bitmap (rf_hdr s) pg) (nat (rid_slot_no rid))), s'))"

definition get_record :: "Rid \<Rightarrow> rm_file \<Rightarrow> (rm_file, bytes) outcome" where
  "get_record rid s =
     (case fetch_page_handle (rid_page_no rid) s of
        (Inl e, s1) \<Rightarrow> (Inl e, s1)
      | (Inr pg, s1) \<Rightarrow>
          let s2 = rf_unpin (rid_page_no rid) False s1
          in if \<not> is_set (page_bitmap (rf_hdr s) pg) (nat (rid_slot_no rid))
             then (Inl (RecordNotFoundError (rid_page_no rid) (rid_slot_no rid)), s2)
             else (Inr (slot_data (rf_hdr s) (nat (rid_slot_no rid)) pg), s2))"

definition insert_record :: "bytes \<Rightarrow> Context option \<Rightarrow> rm_file \<Rightarrow> (rm_file, Rid) outcome" where
  "insert_record buf ctx s =
     (case create_page_handle s of
        (Inl e, s1) \<Rightarrow> (Inl e, s1)
      | (Inr (no, pg), s1) \<Rightarrow>
          let h = rf_hdr s1;
              slot_no = first_bit False (page_bitmap h pg) (num_records_per_page h);
              rid = \<lparr>rid_page_no = no, rid_slot_no = int slot_no\<rparr>;
              pg1 = page_put h slot_no buf pg;
              full = (num_records pg1 = int (num_records_per_page h));
              pg2 = (if full then set_next_free (-1) pg1 else pg1);
              h2 = (if full then h\<lparr>first_free_page_no := next_free_page_no pg1\<rparr> else h);
              s2 = (rf_write no pg2 s1)\<lparr>rf_hdr := h2\<rparr>;
              s3 = rf_add_log ctx (\<lambda>c. InsertLogRecord (ctx_tid c) buf rid (ctx_table c)) s2;
              s4 = rf_unpin no True s3
          in (Inr rid, rf_track ctx map_insert_record rid s4))"

definition insert_record_at :: "Rid \<Rightarrow> bytes \<Rightarrow> rm_file \<Rightarrow> (rm_file, unit) outcome" where
  "insert_record_at rid buf s =
     (let no = rid_page_no rid; i = nat (rid_slot_no rid)
      in case fetch_page_handle no s of
           (Inl e, s1) \<Rightarrow> (Inl e, s1)
         | (Inr pg, s1) \<Rightarrow>
             let h = rf_hdr s1
             in if is_set (page_bitmap h pg) i
                then (Inl (RuntimeError ''Slot already occupied''), rf_unpin no False s1)
                else let pg1 = page_put h i buf pg;
                         unlink = (num_records pg1 = int (num_records_per_page h) \<and> first_free_page_no h = no);
                         pg2 = (if unlink then set_next_free (-1) pg1 else pg1);
                         h2 = (if unlink then h\<lparr>first_free_page_no := next_free_page_no pg1\<rparr> else h)
                     in (Inr (), rf_unpin no True ((rf_write no pg2 s1)\<lparr>rf_hdr := h2\<rparr>)))"

text \<open>\<open>release_page_handle\<close> puts a page that was full at the head of the chain of free pages.\<close>

definition release_page_handle :: "int \<Rightarrow> RmFileHdr \<Rightarrow> bytes \<Rightarrow> RmFileHdr \<times> bytes" where
  "release_page_handle no h pg =
     (if first_free_page_no h \<noteq> no
      then (h\<lparr>first_free_page_no := no\<rparr>, set_next_free (first_free_page_no h) pg)
      else (h, pg))"

definition delete_record :: "Rid \<Rightarrow> Context option \<Rightarrow> rm_file \<Rightarrow> (rm_file, unit) outcome" where
  "delete_record rid ctx s =
     (let no = rid_page_no rid; i = nat (rid_slot_no rid)
      in case fetch_page_handle no s of
           (Inl e, s1) \<Rightarrow> (Inl e, s1)
         | (Inr pg, s1) \<Rightarrow>
             let h = rf_hdr s1
             in if \<not> is_set (page_bitmap h pg) i
                then (Inl (RecordNotFoundError no (rid_slot_no rid)), rf_unpin no False s1)
                else let s2 = rf_add_log ctx (\<lambda>c. DeleteLogRecord (ctx_tid c) rid (ctx_table c) (slot_data h i pg)) s1;
                         flag = (num_records pg = int (num_records_per_page h));
                         pg1 = page_take h i pg;
                         (h2, pg2) = (if flag then release_page_handle no h pg1 else (h, pg1));
                         s3 = (rf_write no pg2 s2)\<lparr>rf_hdr := h2\<rparr>
                     in (Inr (), rf_unpin no True (rf_track ctx map_delete_record rid s3)))"

definition update_record :: "Rid \<Rightarrow> bytes \<Rightarrow> Context option \<Rightarrow> rm_file \<Rightarrow> (rm_file, unit) outcome" where
  "update_record rid buf ctx s =
     (let no = rid_page_no rid; i = nat (rid_slot_no rid)
      in case fetch_page_handle no s of
           (Inl e, s1) \<Rightarrow> (Inl e, s1)
         | (Inr pg, s1) \<Rightarrow>
             let h = rf_hdr s1
             in if \<not> is_set (page_bitmap h pg) i
                then (Inl (RecordNotFoundError no (rid_slot_no rid)), rf_unpin no False s1)
                else let s2 = rf_add_log ctx (\<lambda>c. UpdateLogRecord (ctx_tid c) (slot_data h i pg) buf rid (ctx_table c)) s1;
                         s3 = rf_write no (set_slot h i buf pg) s2
                     in (Inr (), rf_unpin no True (rf_track ctx map_insert_record rid s3)))"

subsection \<open>Invariant and abstraction\<close>

definition file_page :: "rm_file \<Rightarrow> int \<rightharpoonup> bytes" where
  "file_page s p = ps_pages (rf_store s) (rf_pid p s)"

text \<open>The chain of free pages: from the header through the page headers to -1.\<close>

fun free_chain :: "(int \<rightharpoonup> bytes) \<Rightarrow> int \<Rightarrow> int list \<Rightarrow> bool" where
  "free_chain pages st [] \<longleftrightarrow> st = -1"
| "free_chain pages st (x # xs) \<longleftrightarrow>
     st = x \<and> (case pages x of None \<Rightarrow> False | Some pg \<Rightarrow> free_chain pages (next_free_page_no pg) xs)"

definition data_page :: "rm_file \<Rightarrow> int \<Rightarrow> bool" where
  "data_page s p \<longleftrightarrow> 1 \<le> p \<and> p < num_pages (rf_hdr s)"

definition not_full :: "rm_file \<Rightarrow> int \<Rightarrow> bool" where
  "not_full s p \<longleftrightarrow> data_page s p \<and>
     (\<exists>pg. file_page s p = Some pg \<and> num_records pg < int (num_records_per_page (rf_hdr s)))"

text \<open>
  The pages after the header page are record pages, they are not touched, and the chain goes
  through exactly those that have a free slot.
\<close>

definition file_inv :: "rm_file \<Rightarrow> bool" where
  "file_inv s \<longleftrightarrow> hdr_ok (rf_hdr s) \<and> 1 \<le> num_pages (rf_hdr s) \<and> num_pages (rf_hdr s) < 2 ^ 31 \<and>
     rf_fd s \<in> set (ps_fds (rf_store s)) \<and> ps_next (rf_store s) (rf_fd s) = num_pages (rf_hdr s) \<and>
     (\<forall>p. data_page s p \<longrightarrow> (\<exists>pg. file_page s p = Some pg \<and> page_ok (rf_hdr s) pg) \<and>
        rf_pid p s \<notin> set (ps_touched (rf_store s))) \<and>
     (\<exists>xs. free_chain (file_page s) (first_free_page_no (rf_hdr s)) xs \<and> distinct xs \<and>
        (\<forall>p. p \<in> set xs \<longleftrightarrow> not_full s p))"

definition room :: "rm_file \<Rightarrow> bool" where
  "room s \<longleftrightarrow> card (set (ps_pins (rf_store s))) < ps_cap (rf_store s)"

text \<open>What a record operation keeps of the pool: the pins, and so the room for one more.\<close>

definition same_pool :: "rm_file \<Rightarrow> rm_file \<Rightarrow> bool" where
  "same_pool s s' \<longleftrightarrow> ps_pins (rf_store s') = ps_pins (rf_store s) \<and> ps_cap (rf_store s') = ps_cap (rf_store s) \<and>
     record_size (rf_hdr s') = record_size (rf_hdr s)"

text \<open>What the file stores: a partial map from record ids to records.\<close>

definition file_records :: "rm_file \<Rightarrow> Rid \<rightharpoonup> bytes" where
  "file_records s rid =
     (if data_page s (rid_page_no rid) \<and> 0 \<le> rid_slot_no rid
      then case file_page s (rid_page_no rid) of
             None \<Rightarrow> None
           | Some pg \<Rightarrow> page_records (rf_hdr s) pg (nat (rid_slot_no rid))
      else None)"

lemma rf_pid_inj [simp]: "rf_pid p s = rf_pid q s \<longleftrightarrow> p = q"
  by (simp add: rf_pid_def)

lemma file_inv_page:
  assumes "file_inv s" and "data_page s p"
  obtains pg where "file_page s p = Some pg" "page_ok (rf_hdr s) pg" "rf_pid p s \<notin> set (ps_touched (rf_store s))"
  using assms unfolding file_inv_def by blast

lemma free_chain_cong: "(\<And>x. x \<in> set xs \<Longrightarrow> f x = g x) \<Longrightarrow> free_chain f st xs = free_chain g st xs"
  by (induction xs arbitrary: st) (auto split: option.splits)

lemma free_chain_upd: "p \<notin> set xs \<Longrightarrow> free_chain (pages(p \<mapsto> pg)) st xs = free_chain pages st xs"
  by (rule free_chain_cong) auto

lemma free_chain_same_next:
  assumes "pages p = Some pg" and "next_free_page_no pg' = next_free_page_no pg"
  shows "free_chain (pages(p \<mapsto> pg')) st xs = free_chain pages st xs"
  using assms by (induction xs arbitrary: st) (auto split: option.splits)

lemma page_full_iff:
  assumes "page_ok h pg"
  shows "num_records pg < int (num_records_per_page h) \<longleftrightarrow> first_bit False (page_bitmap h pg) (num_records_per_page h) < num_records_per_page h"
proof -
  let ?n = "num_records_per_page h" and ?bm = "page_bitmap h pg"
  have "num_records pg = int (count_set ?bm ?n)" using assms by (simp add: page_ok_def)
  then show ?thesis
    using first_bit_not_full [of ?bm ?n] first_bit_full [of ?bm ?n] count_set_le [of ?bm ?n]
    by (cases "count_set ?bm ?n = ?n") auto
qed

lemma page_num_le: "page_ok h pg \<Longrightarrow> num_records pg \<le> int (num_records_per_page h)"
  using count_set_le by (simp add: page_ok_def)

lemma chain_end_int32:
  assumes "file_inv s" and "free_chain (file_page s) st xs" and "\<And>p. p \<in> set xs \<Longrightarrow> data_page s p"
  shows "int32 st"
proof (cases xs)
  case Nil
  then show ?thesis using assms(2) by (simp add: int32_def)
next
  case (Cons x ys)
  then have "data_page s st" using assms(2,3) by simp
  moreover have "num_pages (rf_hdr s) < 2 ^ 31" using assms(1) by (simp add: file_inv_def)
  ultimately show ?thesis by (simp add: data_page_def int32_def)
qed

subsection \<open>Pinned pages\<close>

text \<open>\<open>s'\<close> is \<open>s\<close> with one more pin on page \<open>p\<close>, which may have been touched.\<close>

definition pinned :: "int \<Rightarrow> rm_file \<Rightarrow> rm_file \<Rightarrow> bool" where
  "pinned p s s' \<longleftrightarrow> (\<exists>T. removeAll (rf_pid p s) T = ps_touched (rf_store s) \<and>
     s' = s\<lparr>rf_store := (rf_store s)\<lparr>ps_pins := rf_pid p s # ps_pins (rf_store s), ps_touched := T\<rparr>\<rparr>)"

lemma fetch_page_handle_ok:
  assumes inv: "file_inv s" and p: "data_page s p" and room: "room s"
  obtains pg s' where "fetch_page_handle p s = (Inr pg, s')" "file_page s p = Some pg"
    "page_ok (rf_hdr s) pg" "pinned p s s'" "rf_unpin p False s' = s"
proof -
  obtain pg where pg: "file_page s p = Some pg" "page_ok (rf_hdr s) pg" "rf_pid p s \<notin> set (ps_touched (rf_store s))"
    using file_inv_page [OF inv p] .
  let ?s = "s\<lparr>rf_store := (rf_store s)\<lparr>ps_pins := rf_pid p s # ps_pins (rf_store s)\<rparr>\<rparr>"
  have "fetch_page_handle p s = (Inr pg, ?s)"
    using p pg(1) room by (simp add: fetch_page_handle_def data_page_def ps_fetch_def file_page_def room_def)
  moreover have "pinned p s ?s"
    unfolding pinned_def using pg(3) by (intro exI [of _ "ps_touched (rf_store s)"]) simp
  moreover have "rf_unpin p False ?s = s" using pg(3) by (simp add: rf_unpin_def ps_unpin_def Let_def rf_pid_def)
  ultimately show ?thesis using that pg by blast
qed

lemma pinned_simps:
  assumes "pinned p s s'"
  shows "rf_fd s' = rf_fd s" "rf_hdr s' = rf_hdr s" "rf_mvcc s' = rf_mvcc s" "rf_log s' = rf_log s"
    "file_page s' = file_page s" "rf_pid q s' = rf_pid q s"
  using assms by (auto simp: pinned_def file_page_def rf_pid_def)

text \<open>Writing the pinned page and dropping the pin dirty leaves just the new contents.\<close>

definition file_put :: "int \<Rightarrow> bytes \<Rightarrow> RmFileHdr \<Rightarrow> rm_file \<Rightarrow> rm_file" where
  "file_put p pg h s = s\<lparr>rf_hdr := h, rf_store := (rf_store s)\<lparr>ps_pages := (ps_pages (rf_store s))(rf_pid p s \<mapsto> pg)\<rparr>\<rparr>"

lemma write_unpin:
  assumes "pinned p s s'" and "length pg = PAGE_SIZE"
  shows "rf_unpin p True ((rf_write p pg s')\<lparr>rf_hdr := h\<rparr>) = file_put p pg h s"
  using assms
  by (auto simp: pinned_def rf_unpin_def rf_write_def ps_write_def ps_unpin_def Let_def file_put_def rf_pid_def)

lemma write_unpin':
  assumes "pinned p s s'" and "length pg = PAGE_SIZE"
  shows "rf_unpin p True (rf_write p pg s') = file_put p pg (rf_hdr s) s"
  using assms
  by (auto simp: pinned_def rf_unpin_def rf_write_def ps_write_def ps_unpin_def Let_def file_put_def rf_pid_def)

lemma rf_unpin_log: "rf_unpin p d (rf_add_log ctx mk s) = rf_add_log ctx mk (rf_unpin p d s)"
  by (auto simp: rf_unpin_def rf_add_log_def rf_pid_def split: option.splits)

lemma rf_unpin_track: "rf_unpin p d (rf_track ctx f rid s) = rf_track ctx f rid (rf_unpin p d s)"
  by (auto simp: rf_unpin_def rf_track_def rf_pid_def rf_slot_def split: option.splits)

lemma rf_write_log: "rf_write p pg (rf_add_log ctx mk s) = rf_add_log ctx mk (rf_write p pg s)"
  by (auto simp: rf_write_def rf_add_log_def rf_pid_def split: option.splits)

lemma rf_hdr_log: "(rf_add_log ctx mk s)\<lparr>rf_hdr := h\<rparr> = rf_add_log ctx mk (s\<lparr>rf_hdr := h\<rparr>)"
  by (auto simp: rf_add_log_def split: option.splits)

lemmas rf_commute = rf_unpin_log rf_unpin_track rf_write_log rf_hdr_log

lemma file_cong:
  assumes "rf_fd s' = rf_fd s" "rf_hdr s' = rf_hdr s" "rf_store s' = rf_store s"
  shows "file_inv s' = file_inv s" "file_records s' = file_records s"
proof -
  have "file_page s' = file_page s" "rf_pid q s' = rf_pid q s" "data_page s' = data_page s" "not_full s' = not_full s" for q
    using assms by (simp_all add: fun_eq_iff file_page_def rf_pid_def data_page_def not_full_def)
  note eqs = this assms
  show "file_inv s' = file_inv s" unfolding file_inv_def eqs ..
  show "file_records s' = file_records s" unfolding file_records_def [abs_def] eqs ..
qed

lemma log_track_fields [simp]:
  "rf_fd (rf_add_log ctx mk s) = rf_fd s" "rf_fd (rf_track ctx f rid s) = rf_fd s"
  "rf_hdr (rf_add_log ctx mk s) = rf_hdr s" "rf_hdr (rf_track ctx f rid s) = rf_hdr s"
  "rf_store (rf_add_log ctx mk s) = rf_store s" "rf_store (rf_track ctx f rid s) = rf_store s"
  by (auto simp: rf_add_log_def rf_track_def split: option.splits)

lemma log_track_same [simp]:
  "file_inv (rf_add_log ctx mk s) = file_inv s" "file_inv (rf_track ctx f rid s) = file_inv s"
  "file_records (rf_add_log ctx mk s) = file_records s" "file_records (rf_track ctx f rid s) = file_records s"
  by (rule file_cong; simp)+

subsection \<open>Replacing one page\<close>

lemma file_put_simps [simp]:
  "rf_fd (file_put p pg h s) = rf_fd s" "rf_hdr (file_put p pg h s) = h"
  "file_page (file_put p pg h s) = (file_page s)(p \<mapsto> pg)" "rf_pid q (file_put p pg h s) = rf_pid q s"
  "ps_pins (rf_store (file_put p pg h s)) = ps_pins (rf_store s)"
  "ps_touched (rf_store (file_put p pg h s)) = ps_touched (rf_store s)"
  "ps_fds (rf_store (file_put p pg h s)) = ps_fds (rf_store s)"
  "ps_next (rf_store (file_put p pg h s)) = ps_next (rf_store s)"
  "ps_cap (rf_store (file_put p pg h s)) = ps_cap (rf_store s)"
  by (auto simp: file_put_def file_page_def rf_pid_def fun_eq_iff)

text \<open>The header fields a record operation keeps.\<close>

definition hdr_ff :: "int \<Rightarrow> RmFileHdr \<Rightarrow> RmFileHdr" where
  "hdr_ff ff h = h\<lparr>first_free_page_no := ff\<rparr>"

lemma hdr_ff_simps [simp]:
  "num_pages (hdr_ff ff h) = num_pages h" "num_records_per_page (hdr_ff ff h) = num_records_per_page h"
  "record_size (hdr_ff ff h) = record_size h" "bitmap_size (hdr_ff ff h) = bitmap_size h"
  "first_free_page_no (hdr_ff ff h) = ff" "hdr_ok (hdr_ff ff h) = hdr_ok h"
  "page_ok (hdr_ff ff h) pg = page_ok h pg" "page_records (hdr_ff ff h) pg = page_records h pg"
  "hdr_ff (first_free_page_no h) h = h"
  by (simp_all add: hdr_ff_def hdr_ok_def get_slot_def page_ok_def page_len_def page_bitmap_def page_records_def
      slot_data_def fun_eq_iff)

lemma file_put_inv:
  assumes inv: "file_inv s" and p: "data_page s p" and pg: "page_ok (rf_hdr s) pg"
    and chain: "free_chain ((file_page s)(p \<mapsto> pg)) ff xs" "distinct xs"
    and mem: "\<And>q. q \<in> set xs \<longleftrightarrow> (if q = p then num_records pg < int (num_records_per_page (rf_hdr s)) else not_full s q)"
  shows "file_inv (file_put p pg (hdr_ff ff (rf_hdr s)) s)" (is "file_inv ?s")
proof -
  have dp: "data_page ?s q \<longleftrightarrow> data_page s q" for q by (simp add: data_page_def)
  have nf: "not_full ?s q \<longleftrightarrow> (if q = p then num_records pg < int (num_records_per_page (rf_hdr s)) else not_full s q)" for q
    using p by (simp add: not_full_def dp)
  have "\<exists>pg. file_page ?s q = Some pg \<and> page_ok (rf_hdr ?s) pg" "rf_pid q ?s \<notin> set (ps_touched (rf_store ?s))"
    if "data_page ?s q" for q
    using inv that pg by (auto simp: dp file_inv_def)
  then show ?thesis
    using inv chain mem unfolding file_inv_def nf by auto
qed

lemma file_put_records:
  assumes "data_page s p" and "file_page s p = Some pg" and "page_records (rf_hdr s) pg' = (page_records (rf_hdr s) pg)(i := v)"
  shows "file_records (file_put p pg' (hdr_ff ff (rf_hdr s)) s) =
    (file_records s)(\<lparr>rid_page_no = p, rid_slot_no = int i\<rparr> := v)"
proof
  fix rid :: Rid
  have eq: "rid = \<lparr>rid_page_no = p, rid_slot_no = int i\<rparr> \<longleftrightarrow> rid_page_no rid = p \<and> rid_slot_no rid = int i"
    by (cases rid) simp
  show "file_records (file_put p pg' (hdr_ff ff (rf_hdr s)) s) rid =
    ((file_records s)(\<lparr>rid_page_no = p, rid_slot_no = int i\<rparr> := v)) rid"
    using assms by (auto simp: file_records_def data_page_def eq split: option.split)
qed

lemma same_pool_put [simp]: "same_pool s (file_put p pg (hdr_ff ff (rf_hdr s)) s)" "same_pool s (file_put p pg (rf_hdr s) s)"
  by (simp_all add: same_pool_def)

lemma same_pool_log_track [simp]:
  "same_pool s (rf_add_log ctx mk s') = same_pool s s'" "same_pool s (rf_track ctx f rid s') = same_pool s s'"
  by (simp_all add: same_pool_def)

lemma same_pool_trans: "same_pool a b \<Longrightarrow> same_pool b c \<Longrightarrow> same_pool a c"
  by (simp add: same_pool_def)

lemma same_pool_room: "same_pool s s' \<Longrightarrow> room s' = room s"
  by (simp add: same_pool_def room_def)

lemma same_pool_refl [simp]: "same_pool s s"
  by (simp add: same_pool_def)

lemma file_put_room [simp]: "room (file_put p pg h s) = room s"
  by (simp add: room_def file_put_def)

lemma rid_eta [simp]: "\<lparr>rid_page_no = rid_page_no rid, rid_slot_no = rid_slot_no rid\<rparr> = (rid :: Rid)"
  by (cases rid) simp

subsection \<open>Reading\<close>

text \<open>A record id that points into the file.\<close>

definition rid_in :: "rm_file \<Rightarrow> Rid \<Rightarrow> bool" where
  "rid_in s rid \<longleftrightarrow> data_page s (rid_page_no rid) \<and> 0 \<le> rid_slot_no rid \<and>
     rid_slot_no rid < int (num_records_per_page (rf_hdr s))"

lemma get_record_ok:
  assumes "file_inv s" and "room s" and "rid_in s rid"
  shows "get_record rid s =
    ((case file_records s rid of
        None \<Rightarrow> Inl (RecordNotFoundError (rid_page_no rid) (rid_slot_no rid))
      | Some v \<Rightarrow> Inr v), s)"
proof -
  have p: "data_page s (rid_page_no rid)" using assms(3) by (simp add: rid_in_def)
  obtain pg s' where "fetch_page_handle (rid_page_no rid) s = (Inr pg, s')" "file_page s (rid_page_no rid) = Some pg"
    "rf_unpin (rid_page_no rid) False s' = s"
    using fetch_page_handle_ok [OF assms(1) p assms(2)] by metis
  then show ?thesis using assms(3) by (auto simp: get_record_def Let_def file_records_def rid_in_def page_records_def)
qed

lemma is_record_pins:
  assumes "file_inv s" and "room s" and "rid_in s rid"
  shows "\<exists>s'. is_record rid s = (Inr (file_records s rid \<noteq> None), s') \<and>
     ps_pins (rf_store s') = rf_pid (rid_page_no rid) s # ps_pins (rf_store s)"
proof -
  have p: "data_page s (rid_page_no rid)" using assms(3) by (simp add: rid_in_def)
  obtain pg s' where "fetch_page_handle (rid_page_no rid) s = (Inr pg, s')" "file_page s (rid_page_no rid) = Some pg"
    "pinned (rid_page_no rid) s s'"
    using fetch_page_handle_ok [OF assms(1) p assms(2)] by metis
  then show ?thesis using assms(3)
    by (auto simp: is_record_def file_records_def rid_in_def page_records_def pinned_def)
qed

subsection \<open>Updating and deleting\<close>

lemma page_ok_length: "page_ok h pg \<Longrightarrow> length pg = PAGE_SIZE"
  by (simp add: page_ok_def page_len_def)

lemma file_inv_chain:
  assumes "file_inv s"
  obtains xs where "free_chain (file_page s) (first_free_page_no (rf_hdr s)) xs" "distinct xs"
    "\<And>p. p \<in> set xs \<longleftrightarrow> not_full s p"
  using assms unfolding file_inv_def by blast

text \<open>A page replaced by one with the same successor that is full exactly when the old one was.\<close>

lemma file_put_same_chain:
  assumes inv: "file_inv s" and p: "data_page s p" "file_page s p = Some pg" and pg': "page_ok (rf_hdr s) pg'"
    and nxt: "next_free_page_no pg' = next_free_page_no pg"
    and full: "num_records pg' < int (num_records_per_page (rf_hdr s)) \<longleftrightarrow> num_records pg < int (num_records_per_page (rf_hdr s))"
  shows "file_inv (file_put p pg' (rf_hdr s) s)"
proof -
  obtain xs where xs: "free_chain (file_page s) (first_free_page_no (rf_hdr s)) xs" "distinct xs"
    "\<And>p. p \<in> set xs \<longleftrightarrow> not_full s p" using file_inv_chain [OF inv] by metis
  have "free_chain ((file_page s)(p \<mapsto> pg')) (first_free_page_no (rf_hdr s)) xs"
    using free_chain_same_next [of "file_page s", OF p(2) nxt] xs(1) by simp
  from file_put_inv [OF inv p(1) pg' this xs(2)] xs(3) p full show ?thesis
    by (simp add: not_full_def)
qed

lemma set_slot_hdr:
  "page_len h pg \<Longrightarrow> i < num_records_per_page h \<Longrightarrow> next_free_page_no (set_slot h i buf pg) = next_free_page_no pg"
  "page_len h pg \<Longrightarrow> i < num_records_per_page h \<Longrightarrow> num_records (set_slot h i buf pg) = num_records pg"
  by (rule next_free_after num_records_after; assumption)+

lemma update_record_ok:
  assumes inv: "file_inv s" and room: "room s" and rid: "rid_in s rid" and buf: "length buf = record_size (rf_hdr s)"
    and old: "file_records s rid = Some v"
  shows "\<exists>s'. update_record rid buf ctx s = (Inr (), s') \<and> file_inv s' \<and>
     file_records s' = (file_records s)(rid \<mapsto> buf) \<and> same_pool s s'"
proof -
  let ?p = "rid_page_no rid" and ?i = "nat (rid_slot_no rid)" and ?h = "rf_hdr s"
  have p: "data_page s ?p" and i: "?i < num_records_per_page ?h" "0 \<le> rid_slot_no rid" using rid by (auto simp: rid_in_def)
  obtain pg s' where f: "fetch_page_handle ?p s = (Inr pg, s')" "file_page s ?p = Some pg" "page_ok ?h pg" "pinned ?p s s'"
    using fetch_page_handle_ok [OF inv p room] by metis
  have set: "is_set (page_bitmap ?h pg) ?i"
    using old f(2) p i by (auto simp: file_records_def page_records_def split: if_splits)
  note upd = page_update_ok [OF f(3) i(1) set buf]
  have len: "page_len ?h pg" using f(3) by (simp add: page_ok_def)
  let ?s = "file_put ?p (set_slot ?h ?i buf pg) ?h s"
  have res: "update_record rid buf ctx s =
      (Inr (), rf_track ctx map_insert_record rid
        (rf_add_log ctx (\<lambda>c. UpdateLogRecord (ctx_tid c) (slot_data ?h ?i pg) buf rid (ctx_table c)) ?s))"
    using f set pinned_simps [OF f(4)] write_unpin' [OF f(4) page_ok_length [OF upd(1)]]
    by (simp add: update_record_def Let_def rf_commute)
  have "file_inv ?s"
    by (rule file_put_same_chain [OF inv p f(2) upd(1)]) (simp_all add: set_slot_hdr len i)
  moreover have "file_records ?s = (file_records s)(rid \<mapsto> buf)"
    using file_put_records [OF p f(2) upd(2), of "first_free_page_no ?h"] i by simp
  ultimately show ?thesis using res by simp
qed

lemma delete_record_ok:
  assumes inv: "file_inv s" and room: "room s" and rid: "rid_in s rid" and old: "file_records s rid = Some v"
  shows "\<exists>s'. delete_record rid ctx s = (Inr (), s') \<and> file_inv s' \<and>
     file_records s' = (file_records s)(rid := None) \<and> same_pool s s'"
proof -
  let ?p = "rid_page_no rid" and ?i = "nat (rid_slot_no rid)" and ?h = "rf_hdr s"
  let ?n = "int (num_records_per_page ?h)" and ?ff = "first_free_page_no ?h"
  have p: "data_page s ?p" and i: "?i < num_records_per_page ?h" "0 \<le> rid_slot_no rid" using rid by (auto simp: rid_in_def)
  obtain pg s' where f: "fetch_page_handle ?p s = (Inr pg, s')" "file_page s ?p = Some pg" "page_ok ?h pg" "pinned ?p s s'"
    using fetch_page_handle_ok [OF inv p room] by metis
  have set: "is_set (page_bitmap ?h pg) ?i"
    using old f(2) p i by (auto simp: file_records_def page_records_def split: if_splits)
  note tk = page_take_ok [OF f(3) i(1) set]
  obtain xs where xs: "free_chain (file_page s) ?ff xs" "distinct xs" "\<And>p. p \<in> set xs \<longleftrightarrow> not_full s p"
    using file_inv_chain [OF inv] by metis
  define log where "log = (\<lambda>c. DeleteLogRecord (ctx_tid c) rid (ctx_table c) (slot_data ?h ?i pg))"
  show ?thesis
  proof (cases "num_records pg = ?n")
    case False
    let ?s = "file_put ?p (page_take ?h ?i pg) ?h s"
    have "delete_record rid ctx s = (Inr (), rf_track ctx map_delete_record rid (rf_add_log ctx log ?s))"
      using f set False pinned_simps [OF f(4)] write_unpin [OF f(4) page_ok_length [OF tk(1)], of ?h]
      by (simp add: delete_record_def Let_def rf_commute log_def)
    moreover have "file_inv ?s"
      by (rule file_put_same_chain [OF inv p f(2) tk(1)]) (use tk page_num_le [OF f(3)] False in simp_all)
    moreover have "file_records ?s = (file_records s)(rid := None)"
      using file_put_records [OF p f(2) tk(2), of ?ff] i by simp
    ultimately show ?thesis by simp
  next
    case True
    then have np: "?p \<notin> set xs" using xs(3) f(2) by (auto simp: not_full_def)
    then have ne: "?ff \<noteq> ?p" using xs(1) p by (cases xs) (auto simp: data_page_def)
    let ?pg = "set_next_free ?ff (page_take ?h ?i pg)"
    let ?s = "file_put ?p ?pg (hdr_ff ?p ?h) s"
    note nx = page_next_ok [OF tk(1), of ?ff]
    have "delete_record rid ctx s = (Inr (), rf_track ctx map_delete_record rid (rf_add_log ctx log ?s))"
      using f set True ne pinned_simps [OF f(4)] write_unpin [OF f(4) page_ok_length [OF nx(1)], of "hdr_ff ?p ?h"]
      by (simp add: delete_record_def Let_def rf_commute log_def release_page_handle_def hdr_ff_def)
    moreover have "file_inv ?s"
    proof (rule file_put_inv [OF inv p nx(1), of _ "?p # xs"])
      have "int32 ?ff" using chain_end_int32 [OF inv xs(1)] xs(3) by (auto simp: not_full_def)
      then have "next_free_page_no ?pg = ?ff"
        using tk(1) next_free_after(1) [of ?h "page_take ?h ?i pg"] by (simp add: page_ok_def)
      moreover have "free_chain ((file_page s)(?p \<mapsto> ?pg)) ?ff xs"
        using xs(1) free_chain_upd [OF np] by simp
      ultimately show "free_chain ((file_page s)(?p \<mapsto> ?pg)) ?p (?p # xs)" by simp
      show "distinct (?p # xs)" using np xs(2) by simp
      show "q \<in> set (?p # xs) \<longleftrightarrow> (if q = ?p then num_records ?pg < ?n else not_full s q)" for q
        using xs(3) nx(3) tk(3) True by simp
    qed
    moreover have "file_records ?s = (file_records s)(rid := None)"
      using file_put_records [OF p f(2), of ?pg ?i None ?p] nx(2) tk(2) i by simp
    ultimately show ?thesis by simp
  qed
qed

subsection \<open>Inserting\<close>

lemma new_page_bytes_ok:
  assumes "hdr_ok h" and "int32 (int (num_records_per_page h))" and "int32 (first_free_page_no h)"
  shows "page_ok h (new_page_bytes h)" "num_records (new_page_bytes h) = 0"
    "next_free_page_no (new_page_bytes h) = first_free_page_no h" "page_records h (new_page_bytes h) = Map.empty"
proof -
  have len: "page_len h (replicate PAGE_SIZE 0)" using assms(1) by (simp add: page_len_def)
  have z: "int32 0" by (simp add: int32_def)
  note rules = new_page_bytes_def Let_def page_simps num_records_after [of h] next_free_after [of h] len z assms
  show num: "num_records (new_page_bytes h) = 0" by (simp add: rules)
  show "next_free_page_no (new_page_bytes h) = first_free_page_no h" by (simp add: rules)
  have bm: "page_bitmap h (new_page_bytes h) = replicate (bitmap_size h) 0" by (simp add: rules)
  have n: "num_records_per_page h \<le> 8 * bitmap_size h" using assms(1) by (simp add: hdr_ok_def)
  show "page_ok h (new_page_bytes h)"
    unfolding page_ok_def num bm count_set_zero [OF n] by (simp add: rules)
  show "page_records h (new_page_bytes h) = Map.empty"
    using n by (auto simp: page_records_def bm is_set_replicate_0 fun_eq_iff)
qed

text \<open>The file after a page was added to it.\<close>

definition file_grow :: "rm_file \<Rightarrow> rm_file" where
  "file_grow s = (let no = num_pages (rf_hdr s); st = rf_store s in
     s\<lparr>rf_hdr := (rf_hdr s)\<lparr>first_free_page_no := no, num_pages := no + 1\<rparr>,
       rf_store := st\<lparr>ps_pages := (ps_pages st)(rf_pid no s \<mapsto> new_page_bytes (rf_hdr s)),
         ps_touched := removeAll (rf_pid no s) (ps_touched st), ps_next := (ps_next st)(rf_fd s := no + 1)\<rparr>\<rparr>)"

lemma file_grow_simps [simp]:
  "rf_hdr (file_grow s) = (rf_hdr s)\<lparr>first_free_page_no := num_pages (rf_hdr s), num_pages := num_pages (rf_hdr s) + 1\<rparr>"
  "rf_fd (file_grow s) = rf_fd s" "rf_pid q (file_grow s) = rf_pid q s"
  "file_page (file_grow s) = (file_page s)(num_pages (rf_hdr s) \<mapsto> new_page_bytes (rf_hdr s))"
  "ps_pins (rf_store (file_grow s)) = ps_pins (rf_store s)" "ps_cap (rf_store (file_grow s)) = ps_cap (rf_store s)"
  by (auto simp: file_grow_def Let_def file_page_def rf_pid_def fun_eq_iff)

lemma same_pool_grow [simp]: "same_pool s (file_grow s)"
  by (simp add: same_pool_def)

lemma page_ok_hdr: "page_ok (h\<lparr>first_free_page_no := x, num_pages := y\<rparr>) pg = page_ok h pg"
  "page_records (h\<lparr>first_free_page_no := x, num_pages := y\<rparr>) pg = page_records h pg"
  by (simp_all add: page_ok_def page_len_def hdr_ok_def get_slot_def page_bitmap_def page_records_def slot_data_def fun_eq_iff)

lemma file_grow_ok:
  assumes inv: "file_inv s" and lim: "num_pages (rf_hdr s) + 1 < 2 ^ 31" and n: "int32 (int (num_records_per_page (rf_hdr s)))"
  shows "file_inv (file_grow s)" "file_records (file_grow s) = file_records s"
proof -
  let ?h = "rf_hdr s" and ?no = "num_pages (rf_hdr s)"
  obtain xs where xs: "free_chain (file_page s) (first_free_page_no ?h) xs" "distinct xs"
    "\<And>p. p \<in> set xs \<longleftrightarrow> not_full s p" using file_inv_chain [OF inv] by metis
  have "int32 (first_free_page_no ?h)" using chain_end_int32 [OF inv xs(1)] xs(3) by (auto simp: not_full_def)
  note new = new_page_bytes_ok [OF _ n this]
  have h: "hdr_ok ?h" "1 \<le> ?no" using inv by (auto simp: file_inv_def)
  have pos: "0 < num_records_per_page ?h" using h by (simp add: hdr_ok_def)
  have dp: "data_page (file_grow s) q \<longleftrightarrow> q = ?no \<or> data_page s q" for q
    using h by (auto simp: data_page_def)
  have no: "\<not> data_page s ?no" by (simp add: data_page_def)
  have nf: "not_full (file_grow s) q \<longleftrightarrow> q = ?no \<or> not_full s q" for q
    using new(2) [OF h(1)] pos no by (auto simp: not_full_def dp)
  have "?no \<notin> set xs" using xs(3) no by (auto simp: not_full_def)
  then have "free_chain (file_page (file_grow s)) ?no (?no # xs)"
    using xs(1) new(3) [OF h(1)] free_chain_upd by simp
  moreover have "\<exists>pg. file_page (file_grow s) q = Some pg \<and> page_ok ?h pg"
    "rf_pid q (file_grow s) \<notin> set (ps_touched (rf_store (file_grow s)))" if "data_page (file_grow s) q" for q
    using that inv new(1) [OF h(1)] unfolding dp
    by (auto simp: file_inv_def) (auto simp: file_grow_def Let_def rf_pid_def file_inv_def)
  moreover have "hdr_ok (rf_hdr (file_grow s))" using h(1) by (simp add: hdr_ok_def get_slot_def)
  moreover have "distinct (?no # xs)" using xs(2) \<open>?no \<notin> set xs\<close> by simp
  moreover have "rf_fd s \<in> set (ps_fds (rf_store (file_grow s)))" "ps_next (rf_store (file_grow s)) (rf_fd s) = ?no + 1"
    using inv by (simp_all add: file_grow_def Let_def file_inv_def)
  ultimately show "file_inv (file_grow s)"
    unfolding file_inv_def nf using xs(3) h lim
    by (intro conjI exI [of _ "?no # xs"]) (auto simp: page_ok_hdr)
  show "file_records (file_grow s) = file_records s"
    using no new(4) [OF h(1)] by (auto simp: fun_eq_iff file_records_def dp page_ok_hdr split: option.split)
qed

lemma create_new_page_ok:
  assumes inv: "file_inv s" and room: "room s" and n: "int32 (int (num_records_per_page (rf_hdr s)))"
  obtains s' where "create_new_page_handle s = (Inr (num_pages (rf_hdr s), new_page_bytes (rf_hdr s)), s')"
    "pinned (num_pages (rf_hdr s)) (file_grow s) s'"
proof -
  let ?no = "num_pages (rf_hdr s)" and ?st = "rf_store s"
  let ?T = "rf_pid ?no s # rf_pid ?no s # ps_touched ?st"
  let ?s = "(file_grow s)\<lparr>rf_store := (rf_store (file_grow s))\<lparr>ps_pins := rf_pid ?no s # ps_pins ?st, ps_touched := ?T\<rparr>\<rparr>"
  have st: "rf_fd s \<in> set (ps_fds ?st)" "ps_next ?st (rf_fd s) = ?no" "hdr_ok (rf_hdr s)"
    using inv by (simp_all add: file_inv_def)
  have len: "length (new_page_bytes (rf_hdr s)) = PAGE_SIZE"
  proof -
    have l0: "page_len (rf_hdr s) (replicate PAGE_SIZE 0)" using st(3) by (simp add: page_len_def)
    have "page_len (rf_hdr s) (new_page_bytes (rf_hdr s))"
      unfolding new_page_bytes_def Let_def by (intro page_len_writes l0) simp
    then show ?thesis by (simp add: page_len_def)
  qed
  have "create_new_page_handle s = (Inr (?no, new_page_bytes (rf_hdr s)), ?s)"
    using room st len
    by (auto simp: create_new_page_handle_def ps_new_def room_def Let_def rf_write_def ps_write_def rf_pid_def
        file_grow_def max_def)
  moreover have "pinned ?no (file_grow s) ?s"
    unfolding pinned_def by (intro exI [of _ ?T]) (auto simp: file_grow_def Let_def rf_pid_def)
  ultimately show ?thesis using that by blast
qed

lemma hdr_ok_int32: "hdr_ok h \<Longrightarrow> int32 (int (num_records_per_page h))"
  by (simp add: hdr_ok_def int32_def get_slot_def rm_layout PAGE_SIZE_def)

text \<open>The page an insertion goes to: the head of the chain, after adding a page when it is empty.\<close>

lemma create_page_handle_ok:
  assumes inv: "file_inv s" and room: "room s" and lim: "num_pages (rf_hdr s) + 1 < 2 ^ 31"
  obtains s0 no pg s' where "create_page_handle s = (Inr (no, pg), s')" "pinned no s0 s'" "file_inv s0"
    "file_records s0 = file_records s" "file_page s0 no = Some pg" "first_free_page_no (rf_hdr s0) = no" "not_full s0 no"
    "record_size (rf_hdr s0) = record_size (rf_hdr s)" "same_pool s s0"
proof (cases "first_free_page_no (rf_hdr s) = -1")
  case True
  have h: "hdr_ok (rf_hdr s)" using inv by (simp add: file_inv_def)
  note n = hdr_ok_int32 [OF h]
  obtain s' where s': "create_new_page_handle s = (Inr (num_pages (rf_hdr s), new_page_bytes (rf_hdr s)), s')"
    "pinned (num_pages (rf_hdr s)) (file_grow s) s'"
    using create_new_page_ok [OF inv room n] .
  note grow = file_grow_ok [OF inv lim n]
  have "int32 (first_free_page_no (rf_hdr s))" using True by (simp add: int32_def)
  then have nf: "not_full (file_grow s) (num_pages (rf_hdr s))"
    using new_page_bytes_ok(2) [OF h n] h inv by (simp add: not_full_def data_page_def hdr_ok_def file_inv_def)
  show ?thesis
    by (rule that [OF _ s'(2) grow]) (use True s'(1) nf in \<open>simp_all add: create_page_handle_def\<close>)
next
  case False
  obtain xs where xs: "free_chain (file_page s) (first_free_page_no (rf_hdr s)) xs" "\<And>p. p \<in> set xs \<longleftrightarrow> not_full s p"
    using file_inv_chain [OF inv] by metis
  then have nf: "not_full s (first_free_page_no (rf_hdr s))" using False by (cases xs) auto
  then obtain pg s' where f: "fetch_page_handle (first_free_page_no (rf_hdr s)) s = (Inr pg, s')"
    "file_page s (first_free_page_no (rf_hdr s)) = Some pg" "pinned (first_free_page_no (rf_hdr s)) s s'"
    using fetch_page_handle_ok [OF inv _ room] by (metis not_full_def)
  show ?thesis
    by (rule that [OF _ f(3) inv refl f(2)]) (use False f(1) nf in \<open>simp_all add: create_page_handle_def\<close>)
qed

text \<open>Putting a record into a free slot of the head page keeps the chain exact.\<close>

lemma put_head_inv:
  assumes inv: "file_inv s" and p: "data_page s p" "file_page s p = Some pg" "first_free_page_no (rf_hdr s) = p"
    and pg1: "page_ok (rf_hdr s) pg1" "next_free_page_no pg1 = next_free_page_no pg" "num_records pg1 = num_records pg + 1"
    and full: "full \<longleftrightarrow> num_records pg1 = int (num_records_per_page (rf_hdr s))"
  shows "file_inv (file_put p (if full then set_next_free (-1) pg1 else pg1)
     (hdr_ff (if full then next_free_page_no pg1 else p) (rf_hdr s)) s)"
proof -
  obtain xs where xs: "free_chain (file_page s) p xs" "distinct xs" "\<And>p. p \<in> set xs \<longleftrightarrow> not_full s p"
    using file_inv_chain [OF inv] p(3) by metis
  obtain ys where ys: "xs = p # ys" "free_chain (file_page s) (next_free_page_no pg) ys"
    using xs(1) p(1,2) by (cases xs) (auto simp: data_page_def)
  have nn: "num_records pg < int (num_records_per_page (rf_hdr s))"
    using xs(3) [of p] ys(1) p(2) by (auto simp: not_full_def)
  have nfp: "not_full s p" using xs(3) [of p] ys(1) by simp
  show ?thesis
  proof (cases full)
    case True
    note nx = page_next_ok [OF pg1(1), of "-1"]
    have py: "p \<notin> set ys" using xs(2) ys(1) by simp
    have "q \<in> set ys \<longleftrightarrow> (if q = p then num_records (set_next_free (-1) pg1) < int (num_records_per_page (rf_hdr s))
        else not_full s q)" for q
      using xs(3) [of q] ys(1) py nx(3) full True by auto
    then show ?thesis
      using file_put_inv [OF inv p(1) nx(1), of "next_free_page_no pg1" ys] True ys(2) free_chain_upd [OF py] pg1(2)
        xs(2) ys(1) by simp
  next
    case False
    have "free_chain ((file_page s)(p \<mapsto> pg1)) p xs"
      using free_chain_same_next [of "file_page s", OF p(2) pg1(2)] xs(1) by simp
    from file_put_inv [OF inv p(1) pg1(1) this xs(2)] False full pg1(3) nn xs(3) nfp
    show ?thesis by simp
  qed
qed

lemma insert_record_ok:
  assumes inv: "file_inv s" and room: "room s" and lim: "num_pages (rf_hdr s) + 1 < 2 ^ 31"
    and buf: "length buf = record_size (rf_hdr s)"
  shows "\<exists>rid s'. insert_record buf ctx s = (Inr rid, s') \<and> file_inv s' \<and> rid_in s' rid \<and>
     file_records s rid = None \<and> file_records s' = (file_records s)(rid \<mapsto> buf) \<and>
     same_pool s s'"
proof -
  obtain s0 no pg s1 where c: "create_page_handle s = (Inr (no, pg), s1)" "pinned no s0 s1" "file_inv s0"
    "file_records s0 = file_records s" "file_page s0 no = Some pg" "first_free_page_no (rf_hdr s0) = no" "not_full s0 no"
    "record_size (rf_hdr s0) = record_size (rf_hdr s)" "same_pool s s0"
    using create_page_handle_ok [OF inv room lim] by metis
  let ?h = "rf_hdr s0"
  define i where "i = first_bit False (page_bitmap ?h pg) (num_records_per_page ?h)"
  define rid where "rid = \<lparr>rid_page_no = no, rid_slot_no = int i\<rparr>"
  define pg1 where "pg1 = page_put ?h i buf pg"
  define full where "full \<longleftrightarrow> num_records pg1 = int (num_records_per_page ?h)"
  define pg2 where "pg2 = (if full then set_next_free (-1) pg1 else pg1)"
  define ff where "ff = (if full then next_free_page_no pg1 else no)"
  have dp: "data_page s0 no" using c(7) by (simp add: not_full_def)
  have ok: "page_ok ?h pg" using file_inv_page [OF c(3) dp] c(5) by auto
  have i: "i < num_records_per_page ?h" "\<not> is_set (page_bitmap ?h pg) i"
    using page_full_iff [OF ok] c(5,7) first_bit_found [of False "page_bitmap ?h pg"] by (auto simp: not_full_def i_def)
  note put = page_put_ok [OF ok i, of buf, folded pg1_def]
  have put': "page_ok ?h pg1" "page_records ?h pg1 = (page_records ?h pg)(i \<mapsto> buf)"
    "num_records pg1 = num_records pg + 1" "next_free_page_no pg1 = next_free_page_no pg"
    using put buf c(8) by simp_all
  have pg2: "page_ok ?h pg2" "page_records ?h pg2 = (page_records ?h pg)(i \<mapsto> buf)"
    using put' page_next_ok [OF put'(1), of "-1"] by (simp_all add: pg2_def)
  let ?s = "file_put no pg2 (hdr_ff ff ?h) s0"
  define log where "log = (\<lambda>c. InsertLogRecord (ctx_tid c) buf rid (ctx_table c))"
  have hh: "full \<Longrightarrow> ?h\<lparr>first_free_page_no := next_free_page_no pg1\<rparr> = hdr_ff ff ?h" "\<not> full \<Longrightarrow> hdr_ff ff ?h = ?h"
    "full \<Longrightarrow> set_next_free (-1) pg1 = pg2" "\<not> full \<Longrightarrow> pg2 = pg1"
    using c(6) by (auto simp: ff_def hdr_ff_def pg2_def)
  have res: "insert_record buf ctx s = (Inr rid, rf_track ctx map_insert_record rid (rf_add_log ctx log ?s))"
    using write_unpin [OF c(2) page_ok_length [OF pg2(1)], of "hdr_ff ff ?h"] pinned_simps(2) [OF c(2)]
    by (cases full) (simp_all add: insert_record_def c(1) Let_def rf_commute i_def [symmetric] rid_def [symmetric]
        pg1_def [symmetric] full_def [symmetric] hh log_def)
  have "file_inv ?s"
    unfolding pg2_def ff_def by (rule put_head_inv [OF c(3) dp c(5,6) put'(1,4,3) full_def])
  moreover have "file_records ?s = (file_records s)(rid \<mapsto> buf)"
    using file_put_records [OF dp c(5) pg2(2)] c(4) by (simp add: rid_def)
  moreover have "file_records s rid = None"
    using c(4) [symmetric] c(5) i by (simp add: file_records_def rid_def page_records_def)
  moreover have "rid_in ?s rid" using dp i(1) by (simp add: rid_in_def data_page_def rid_def)
  ultimately show ?thesis using res same_pool_trans [OF c(9)] by (auto simp: rid_in_def data_page_def)
qed

subsection \<open>Inserting at a given place\<close>

text \<open>
  Recovery and rollback insert at a given record id. The chain stays exact when the page does not
  become full by it or is the head of the chain.
\<close>

lemma insert_record_at_ok:
  assumes inv: "file_inv s" and room: "room s" and rid: "rid_in s rid" and buf: "length buf = record_size (rf_hdr s)"
    and free: "file_records s rid = None"
    and chain: "first_free_page_no (rf_hdr s) = rid_page_no rid \<or>
      (\<forall>pg. file_page s (rid_page_no rid) = Some pg \<longrightarrow> num_records pg + 1 < int (num_records_per_page (rf_hdr s)))"
  shows "\<exists>s'. insert_record_at rid buf s = (Inr (), s') \<and> file_inv s' \<and>
     file_records s' = (file_records s)(rid \<mapsto> buf) \<and> same_pool s s'"
proof -
  let ?p = "rid_page_no rid" and ?h = "rf_hdr s"
  define i where "i = nat (rid_slot_no rid)"
  have p: "data_page s ?p" and i: "i < num_records_per_page ?h" "0 \<le> rid_slot_no rid" using rid by (auto simp: rid_in_def i_def)
  obtain pg s1 where f: "fetch_page_handle ?p s = (Inr pg, s1)" "file_page s ?p = Some pg" "page_ok ?h pg" "pinned ?p s s1"
    using fetch_page_handle_ok [OF inv p room] by metis
  have clear: "\<not> is_set (page_bitmap ?h pg) i"
    using free f(2) p i by (auto simp: file_records_def page_records_def i_def split: if_splits)
  define pg1 where "pg1 = page_put ?h i buf pg"
  note put = page_put_ok [OF f(3) i(1) clear buf, folded pg1_def]
  define full where "full \<longleftrightarrow> num_records pg1 = int (num_records_per_page ?h)"
  define pg2 where "pg2 = (if full then set_next_free (-1) pg1 else pg1)"
  define ff where "ff = (if full then next_free_page_no pg1 else first_free_page_no ?h)"
  have head: "full \<Longrightarrow> first_free_page_no ?h = ?p" using chain f(2) put(3) by (auto simp: full_def)
  have hh: "full \<Longrightarrow> ?h\<lparr>first_free_page_no := next_free_page_no pg1\<rparr> = hdr_ff ff ?h" "\<not> full \<Longrightarrow> hdr_ff ff ?h = ?h"
    "full \<Longrightarrow> set_next_free (-1) pg1 = pg2" "\<not> full \<Longrightarrow> pg2 = pg1"
    by (auto simp: ff_def hdr_ff_def pg2_def)
  have pg2: "page_ok ?h pg2" "page_records ?h pg2 = (page_records ?h pg)(i \<mapsto> buf)"
    using put page_next_ok [OF put(1), of "-1"] by (simp_all add: pg2_def)
  have res: "insert_record_at rid buf s = (Inr (), file_put ?p pg2 (hdr_ff ff ?h) s)"
    using write_unpin [OF f(4) page_ok_length [OF pg2(1)], of "hdr_ff ff ?h"] pinned_simps(2) [OF f(4)] head clear
    by (cases full) (simp_all add: insert_record_at_def f(1) Let_def i_def [symmetric] pg1_def [symmetric]
        full_def [symmetric] hh)
  have "file_inv (file_put ?p pg2 (hdr_ff ff ?h) s)"
  proof (cases "first_free_page_no ?h = ?p")
    case True
    show ?thesis
      unfolding pg2_def ff_def True by (rule put_head_inv [OF inv p f(2) True put(1,4,3) full_def])
  next
    case False
    then have nf: "\<not> full" using head by blast
    have "num_records pg + 1 < int (num_records_per_page ?h)" using chain False f(2) by simp
    then have "file_inv (file_put ?p pg1 ?h s)"
      by (intro file_put_same_chain [OF inv p f(2) put(1) put(4)]) (simp add: put(3))
    then show ?thesis using nf hh by simp
  qed
  moreover have "file_records (file_put ?p pg2 (hdr_ff ff ?h) s) = (file_records s)(rid \<mapsto> buf)"
    using file_put_records [OF p f(2) pg2(2)] i by (simp add: i_def)
  ultimately show ?thesis using res by simp
qed

text \<open>A full page at the head of the chain: the next insertion takes the slot after the last one.\<close>

lemma insert_into_full_head:
  assumes "create_page_handle s = (Inr (no, pg), s1)" and "page_ok (rf_hdr s1) pg"
    and "num_records pg = int (num_records_per_page (rf_hdr s1))"
  shows "fst (insert_record buf ctx s) = Inr \<lparr>rid_page_no = no, rid_slot_no = int (num_records_per_page (rf_hdr s1))\<rparr>"
  using assms page_full_iff [OF assms(2)] first_bit_bounds [of False "page_bitmap (rf_hdr s1) pg" "num_records_per_page (rf_hdr s1)"]
  by (simp add: insert_record_def Let_def)

subsection \<open>The interface of a record store\<close>

text \<open>
  What the executors rely on: a mutable partial map from record ids to records of one size. The
  lemmas of the locale are the round trips every client uses.
\<close>

locale record_store =
  fixes get :: "Rid \<Rightarrow> 's \<Rightarrow> ('s, bytes) outcome"
    and ins :: "bytes \<Rightarrow> 's \<Rightarrow> ('s, Rid) outcome"
    and del :: "Rid \<Rightarrow> 's \<Rightarrow> ('s, unit) outcome"
    and upd :: "Rid \<Rightarrow> bytes \<Rightarrow> 's \<Rightarrow> ('s, unit) outcome"
    and contents :: "'s \<Rightarrow> Rid \<rightharpoonup> bytes"
    and rsize :: "'s \<Rightarrow> nat"
    and ok :: "'s \<Rightarrow> bool"
    and space :: "'s \<Rightarrow> bool"
  assumes get_some: "ok s \<Longrightarrow> contents s rid = Some v \<Longrightarrow> get rid s = (Inr v, s)"
    and ins_ok: "ok s \<Longrightarrow> space s \<Longrightarrow> length buf = rsize s \<Longrightarrow>
      \<exists>rid s'. ins buf s = (Inr rid, s') \<and> ok s' \<and> rsize s' = rsize s \<and> contents s rid = None \<and>
        contents s' = (contents s)(rid \<mapsto> buf)"
    and del_ok: "ok s \<Longrightarrow> contents s rid = Some v \<Longrightarrow>
      \<exists>s'. del rid s = (Inr (), s') \<and> ok s' \<and> rsize s' = rsize s \<and> contents s' = (contents s)(rid := None)"
    and upd_ok: "ok s \<Longrightarrow> contents s rid = Some v \<Longrightarrow> length buf = rsize s \<Longrightarrow>
      \<exists>s'. upd rid buf s = (Inr (), s') \<and> ok s' \<and> rsize s' = rsize s \<and> contents s' = (contents s)(rid \<mapsto> buf)"
begin

lemma insert_get:
  assumes "ok s" "space s" "length buf = rsize s"
  shows "\<exists>rid s'. ins buf s = (Inr rid, s') \<and> get rid s' = (Inr buf, s') \<and> contents s rid = None \<and>
    (\<forall>r. r \<noteq> rid \<longrightarrow> contents s' r = contents s r)"
proof -
  obtain rid s' where "ins buf s = (Inr rid, s')" "ok s'" "contents s rid = None" "contents s' = (contents s)(rid \<mapsto> buf)"
    using ins_ok [OF assms] by blast
  then show ?thesis using get_some [of s' rid buf] by auto
qed

lemma insert_delete:
  assumes "ok s" "space s" "length buf = rsize s"
  shows "\<exists>rid s' s''. ins buf s = (Inr rid, s') \<and> del rid s' = (Inr (), s'') \<and> ok s'' \<and> contents s'' = contents s"
proof -
  obtain rid s' where i: "ins buf s = (Inr rid, s')" "ok s'" "contents s rid = None" "contents s' = (contents s)(rid \<mapsto> buf)"
    using ins_ok [OF assms] by blast
  obtain s'' where "del rid s' = (Inr (), s'')" "ok s''" "contents s'' = (contents s')(rid := None)"
    using del_ok [OF i(2), of rid buf] i(4) by auto
  then show ?thesis using i by (metis fun_upd_triv fun_upd_upd)
qed

lemma update_restore:
  assumes "ok s" "contents s rid = Some v" "length buf = rsize s" "length v = rsize s"
  shows "\<exists>s' s''. upd rid buf s = (Inr (), s') \<and> get rid s' = (Inr buf, s') \<and> upd rid v s' = (Inr (), s'') \<and>
    ok s'' \<and> contents s'' = contents s"
proof -
  obtain s' where u: "upd rid buf s = (Inr (), s')" "ok s'" "rsize s' = rsize s" "contents s' = (contents s)(rid \<mapsto> buf)"
    using upd_ok [OF assms(1-3)] by blast
  obtain s'' where "upd rid v s' = (Inr (), s'')" "ok s''" "contents s'' = (contents s')(rid \<mapsto> v)"
    using upd_ok [OF u(2), of rid buf v] u(3,4) assms(4) by auto
  then show ?thesis using u get_some [OF u(2), of rid buf] assms(2)
    by (metis fun_upd_same fun_upd_triv fun_upd_upd)
qed

end

definition file_ok :: "rm_file \<Rightarrow> bool" where
  "file_ok s \<longleftrightarrow> file_inv s \<and> room s"

definition file_space :: "rm_file \<Rightarrow> bool" where
  "file_space s \<longleftrightarrow> num_pages (rf_hdr s) + 1 < 2 ^ 31"

lemma file_records_rid_in: "file_records s rid = Some v \<Longrightarrow> rid_in s rid"
  by (auto simp: file_records_def rid_in_def page_records_def split: if_splits option.splits)

interpretation rf: record_store get_record "\<lambda>buf. insert_record buf ctx" "\<lambda>rid. delete_record rid ctx"
  "\<lambda>rid buf. update_record rid buf ctx" file_records "\<lambda>s. record_size (rf_hdr s)" file_ok file_space
  for ctx
proof
  fix s rid v buf
  assume ok: "file_ok s"
  then have inv: "file_inv s" "room s" by (simp_all add: file_ok_def)
  show "get_record rid s = (Inr v, s)" if "file_records s rid = Some v"
    using get_record_ok [OF inv file_records_rid_in [OF that]] that by simp
  show "\<exists>rid s'. insert_record buf ctx s = (Inr rid, s') \<and> file_ok s' \<and>
      record_size (rf_hdr s') = record_size (rf_hdr s) \<and> file_records s rid = None \<and>
      file_records s' = (file_records s)(rid \<mapsto> buf)"
    if "file_space s" "length buf = record_size (rf_hdr s)"
    using insert_record_ok [OF inv _ that(2), of ctx] that(1) inv
    by (auto simp: file_space_def file_ok_def same_pool_room) (auto simp: same_pool_def)
  show "\<exists>s'. delete_record rid ctx s = (Inr (), s') \<and> file_ok s' \<and>
      record_size (rf_hdr s') = record_size (rf_hdr s) \<and> file_records s' = (file_records s)(rid := None)"
    if "file_records s rid = Some v"
    using delete_record_ok [OF inv file_records_rid_in [OF that] that, of ctx] inv
    by (auto simp: file_ok_def same_pool_room) (auto simp: same_pool_def)
  show "\<exists>s'. update_record rid buf ctx s = (Inr (), s') \<and> file_ok s' \<and>
      record_size (rf_hdr s') = record_size (rf_hdr s) \<and> file_records s' = (file_records s)(rid \<mapsto> buf)"
    if "file_records s rid = Some v" "length buf = record_size (rf_hdr s)"
    using update_record_ok [OF inv file_records_rid_in [OF that(1)] that(2,1), of ctx] inv
    by (auto simp: file_ok_def same_pool_room) (auto simp: same_pool_def)
qed

subsection \<open>Properties\<close>

text \<open>An empty file of a record size, on a pool of one frame: the input of the witnesses.\<close>

definition example_file :: "nat \<Rightarrow> rm_file" where
  "example_file rs = \<lparr>rf_fd = 3, rf_hdr = file_hdr_new rs, rf_mvcc = Map.empty,
     rf_store = \<lparr>ps_pages = Map.empty, ps_pins = [], ps_touched = [], ps_next = (\<lambda>_. 1), ps_fds = [3], ps_cap = 1\<rparr>,
     rf_log = []\<rparr>"

lemma example_file_ok:
  assumes "1 \<le> rs" "rs \<le> RM_MAX_RECORD_SIZE"
  shows "file_ok (example_file rs)" "file_space (example_file rs)" "record_size (rf_hdr (example_file rs)) = rs"
proof -
  have "not_full (example_file rs) p = False" "data_page (example_file rs) p = False" for p
    by (simp_all add: not_full_def data_page_def example_file_def file_hdr_new_def Let_def)
  then show "file_ok (example_file rs)"
    using file_hdr_new_ok [OF assms]
    by (auto simp: file_ok_def file_inv_def room_def example_file_def file_hdr_new_def Let_def RM_NO_PAGE_def
        intro: exI [of _ "[]"])
  show "file_space (example_file rs)" "record_size (rf_hdr (example_file rs)) = rs"
    by (simp_all add: file_space_def example_file_def file_hdr_new_def Let_def)
qed

text \<open>C29: The page layout \<open>create_file\<close> computes is sound: for every record size it accepts there is at least
  one slot, the bitmap has a bit for every slot, and header, bitmap and slots end inside the page, so no slot
  the bitmap offers lies outside it.\<close>

theorem create_file_layout_fits:
  assumes "1 \<le> rs" and "rs \<le> RM_MAX_RECORD_SIZE"
  shows "0 < num_records_per_page (file_hdr_new rs) \<and>
    num_records_per_page (file_hdr_new rs) \<le> 8 * bitmap_size (file_hdr_new rs) \<and>
    (\<forall>i < num_records_per_page (file_hdr_new rs).
       bitmap_off + bitmap_size (file_hdr_new rs) \<le> get_slot (file_hdr_new rs) i \<and>
       get_slot (file_hdr_new rs) i + rs \<le> PAGE_SIZE)"
proof -
  have rs: "record_size (file_hdr_new rs) = rs" by (simp add: file_hdr_new_def Let_def)
  show ?thesis
    using file_hdr_new_ok [OF assms] get_slot_end [of "file_hdr_new rs"] rs
    by (auto simp: hdr_ok_def get_slot_def)
qed

theorem create_file_layout_fits_witness:
  "num_records_per_page (file_hdr_new 512) = 7 \<and> get_slot (file_hdr_new 512) 6 + 512 \<le> PAGE_SIZE"
  using create_file_layout_fits [of 512]
  by (simp add: file_hdr_new_def Let_def BITMAP_WIDTH_def PAGE_SIZE_def FILE_HDR_SIZE_def RM_MAX_RECORD_SIZE_def)

text \<open>C3: Inserting a record succeeds, gives it a record id that was not in use, and the file then stores
  exactly the old records and the new one under that id: reading it back returns its bytes, no other record
  is changed, the invariant holds (so the chain of free pages is still exact) and no page stays pinned.\<close>

theorem insert_record_refines:
  assumes "file_inv s" and "room s" and "num_pages (rf_hdr s) + 1 < 2 ^ 31" and "length buf = record_size (rf_hdr s)"
  shows "\<exists>rid s'. insert_record buf ctx s = (Inr rid, s') \<and> file_inv s' \<and> file_records s rid = None \<and>
     file_records s' = (file_records s)(rid \<mapsto> buf) \<and> get_record rid s' = (Inr buf, s') \<and>
     ps_pins (rf_store s') = ps_pins (rf_store s)"
proof -
  obtain rid s' where i: "insert_record buf ctx s = (Inr rid, s')" "file_inv s'" "file_records s rid = None"
    "file_records s' = (file_records s)(rid \<mapsto> buf)" "same_pool s s'"
    using insert_record_ok [OF assms] by metis
  have "get_record rid s' = (Inr buf, s')"
    by (rule rf.get_some) (use i assms(2) same_pool_room in \<open>auto simp: file_ok_def\<close>)
  then show ?thesis using i by (auto simp: same_pool_def)
qed

theorem insert_record_refines_witness:
  "\<exists>rid s'. insert_record [1, 2, 3, 4] None (example_file 4) = (Inr rid, s') \<and> get_record rid s' = (Inr [1, 2, 3, 4], s')"
  using insert_record_refines [of "example_file 4" "[1, 2, 3, 4]" None] example_file_ok [of 4]
  by (auto simp: file_ok_def file_space_def RM_MAX_RECORD_SIZE_def)

text \<open>Deleting the record just inserted restores the contents of the file, so a rollback of an insertion
  is exact.\<close>

theorem delete_undoes_insert:
  assumes "file_ok s" and "file_space s" and "length buf = record_size (rf_hdr s)"
  shows "\<exists>rid s' s''. insert_record buf ctx s = (Inr rid, s') \<and> delete_record rid ctx s' = (Inr (), s'') \<and>
    file_ok s'' \<and> file_records s'' = file_records s"
  by (rule rf.insert_delete [OF assms])

theorem delete_undoes_insert_witness:
  "\<exists>rid s' s''. insert_record [1, 2, 3, 4] None (example_file 4) = (Inr rid, s') \<and>
     delete_record rid None s' = (Inr (), s'') \<and> file_records s'' = file_records (example_file 4)"
  using delete_undoes_insert [OF example_file_ok(1,2), of 4 "[1, 2, 3, 4]" None] example_file_ok(3) [of 4]
  by (auto simp: RM_MAX_RECORD_SIZE_def)

text \<open>\<open>is_record\<close> answers whether the slot is occupied, and leaves its page pinned: it fetches the page and
  never unpins it, so each call takes a frame of the pool out of use.\<close>

theorem is_record_leaks_pin:
  assumes "file_inv s" and "room s" and "rid_in s rid"
  shows "\<exists>s'. is_record rid s = (Inr (file_records s rid \<noteq> None), s') \<and>
     ps_pins (rf_store s') = rf_pid (rid_page_no rid) s # ps_pins (rf_store s)"
  by (rule is_record_pins [OF assms])

theorem is_record_leaks_pin_witness:
  "\<exists>rid s' s''. insert_record [1, 2, 3, 4] None (example_file 4) = (Inr rid, s') \<and>
     is_record rid s' = (Inr True, s'') \<and> length (ps_pins (rf_store s'')) = 1"
proof -
  have ex: "file_inv (example_file 4)" "room (example_file 4)" "num_pages (rf_hdr (example_file 4)) + 1 < 2 ^ 31"
    "length [1, 2, 3, 4 :: byte] = record_size (rf_hdr (example_file 4))"
    using example_file_ok [of 4] by (auto simp: file_ok_def file_space_def RM_MAX_RECORD_SIZE_def)
  obtain rid s' where i: "insert_record [1, 2, 3, 4] None (example_file 4) = (Inr rid, s')" "file_inv s'" "rid_in s' rid"
    "file_records s' = (file_records (example_file 4))(rid \<mapsto> [1, 2, 3, 4])" "same_pool (example_file 4) s'"
    using insert_record_ok [OF ex, of None] by metis
  have "room s'" using same_pool_room [OF i(5)] ex(2) by simp
  from is_record_leaks_pin [OF i(2) this i(3)] i show ?thesis
    by (auto simp: same_pool_def example_file_def)
qed

end
