(* ===== verification/Rm_Scan.thy ===== *)
theory Rm_Scan
  imports Rm_File
begin

text \<open>
  The sequential scan of a record file (\<^verbatim>\<open>src/src/record/rm_scan.cpp\<close>): a cursor that moves from
  record to record in page and slot order.
\<close>

subsection \<open>Model\<close>

lemma fetch_page_handle_hdr: "fetch_page_handle p s = (r, s1) \<Longrightarrow> rf_hdr s1 = rf_hdr s"
  by (auto simp: fetch_page_handle_def split: if_splits prod.splits sum.splits page_obs.splits option.splits)

lemma rf_unpin_hdr [simp]: "rf_hdr (rf_unpin p d s) = rf_hdr s"
  by (simp add: rf_unpin_def)

text \<open>
  The loop of \<^verbatim>\<open>RmScan::next\<close> from page \<open>page_no\<close> with the cursor's slot; the cursor of the end has
  page \<open>RM_NO_PAGE\<close>.
\<close>

function scan_pages :: "int \<Rightarrow> int \<Rightarrow> rm_file \<Rightarrow> (rm_file, Rid) outcome" where
  "scan_pages page_no slot s =
     (if num_pages (rf_hdr s) \<le> page_no then (Inr \<lparr>rid_page_no = RM_NO_PAGE, rid_slot_no = slot\<rparr>, s)
      else case fetch_page_handle page_no s of
             (Inl e, s1) \<Rightarrow> (Inl e, s1)
           | (Inr pg, s1) \<Rightarrow>
               let max_n = num_records_per_page (rf_hdr s);
                   slot_no = next_bit True (page_bitmap (rf_hdr s) pg) max_n slot;
                   s2 = rf_unpin page_no False s1
               in if slot_no < max_n then (Inr \<lparr>rid_page_no = page_no, rid_slot_no = int slot_no\<rparr>, s2)
                  else scan_pages (page_no + 1) RM_NO_PAGE s2)"
  by pat_completeness auto
termination
  by (relation "measure (\<lambda>(page_no, slot, s). nat (num_pages (rf_hdr s) - page_no))")
    (auto dest: sym [THEN fetch_page_handle_hdr])

declare scan_pages.simps [simp del]

definition scan_next :: "Rid \<Rightarrow> rm_file \<Rightarrow> (rm_file, Rid) outcome" where
  "scan_next rid s = scan_pages (rid_page_no rid) (rid_slot_no rid) s"

definition scan_begin :: "rm_file \<Rightarrow> (rm_file, Rid) outcome" where
  "scan_begin s = scan_next \<lparr>rid_page_no = RM_FIRST_RECORD_PAGE, rid_slot_no = RM_NO_PAGE\<rparr> s"

definition scan_is_end :: "Rid \<Rightarrow> bool" where
  "scan_is_end rid \<longleftrightarrow> rid_page_no rid = RM_NO_PAGE"

text \<open>A whole scan, \<open>fuel\<close> cursor positions at most: the record ids the loop
  \<^verbatim>\<open>for (scan; !scan.is_end(); scan.next())\<close> of the executors visits.\<close>

fun scan_loop :: "nat \<Rightarrow> Rid \<Rightarrow> rm_file \<Rightarrow> Rid list option" where
  "scan_loop 0 rid s = None"
| "scan_loop (Suc fuel) rid s =
     (if scan_is_end rid then Some []
      else case scan_next rid s of
             (Inl e, _) \<Rightarrow> None
           | (Inr rid', s') \<Rightarrow> map_option ((#) rid) (scan_loop fuel rid' s'))"

definition scan_all :: "nat \<Rightarrow> rm_file \<Rightarrow> Rid list option" where
  "scan_all fuel s =
     (case scan_begin s of (Inl e, _) \<Rightarrow> None | (Inr rid, s') \<Rightarrow> scan_loop fuel rid s')"

subsection \<open>One step of the cursor\<close>

text \<open>Record ids in the order of the scan: by page, then by slot.\<close>

definition rid_before :: "Rid \<Rightarrow> Rid \<Rightarrow> bool" where
  "rid_before a b \<longleftrightarrow> rid_page_no a < rid_page_no b \<or> rid_page_no a = rid_page_no b \<and> rid_slot_no a < rid_slot_no b"

lemma rid_before_total: "rid_before a b \<or> a = b \<or> rid_before b a"
  by (cases a; cases b) (auto simp: rid_before_def)

lemma file_records_in: "file_records s rid \<noteq> None \<Longrightarrow> rid_in s rid"
  by (auto simp: file_records_def rid_in_def page_records_def split: if_splits option.splits)

lemma next_bit_facts:
  assumes "-1 \<le> slot"
  shows "next_bit b bm n slot \<le> n" "next_bit b bm n slot < n \<Longrightarrow> is_set bm (next_bit b bm n slot) = b \<and> slot < int (next_bit b bm n slot)"
    "\<And>j. slot < int j \<Longrightarrow> j < next_bit b bm n slot \<Longrightarrow> is_set bm j \<noteq> b"
proof -
  show "next_bit b bm n slot \<le> n" by (simp add: next_bit_def next_bit_from_bounds)
  show "is_set bm (next_bit b bm n slot) = b \<and> slot < int (next_bit b bm n slot)" if "next_bit b bm n slot < n"
  proof -
    have "nat (slot + 1) \<le> n"
      using that next_bit_from.simps [of b bm n "nat (slot + 1)"] by (auto simp: next_bit_def split: if_splits)
    then show ?thesis
      using that next_bit_from_found [of b bm n "nat (slot + 1)"] next_bit_from_ge [of "nat (slot + 1)" n b bm] assms
      by (simp add: next_bit_def)
  qed
  show "is_set bm j \<noteq> b" if "slot < int j" "j < next_bit b bm n slot" for j
    using that next_bit_from_least [of "nat (slot + 1)" j b bm n] assms by (simp add: next_bit_def)
qed

lemma scan_pages_ok:
  assumes "file_inv s" and "room s" and "1 \<le> page_no" and "-1 \<le> slot"
    and cur: "cur = \<lparr>rid_page_no = page_no, rid_slot_no = slot\<rparr>"
  shows "\<exists>rid. scan_pages page_no slot s = (Inr rid, s) \<and>
    (if rid_page_no rid = RM_NO_PAGE then \<forall>r. rid_before cur r \<longrightarrow> file_records s r = None
     else file_records s rid \<noteq> None \<and> rid_before cur rid \<and>
       (\<forall>r. rid_before cur r \<and> rid_before r rid \<longrightarrow> file_records s r = None))"
  using assms
proof (induction "nat (num_pages (rf_hdr s) - page_no)" arbitrary: page_no slot cur rule: less_induct)
  case less
  let ?h = "rf_hdr s" and ?n = "num_records_per_page (rf_hdr s)"
  show ?case
  proof (cases "num_pages ?h \<le> page_no")
    case True
    then show ?thesis
      using less.prems by (auto simp: scan_pages.simps rid_before_def file_records_def data_page_def)
  next
    case False
    then have p: "data_page s page_no" using less.prems by (simp add: data_page_def)
    obtain pg s1 where f: "fetch_page_handle page_no s = (Inr pg, s1)" "file_page s page_no = Some pg"
      "rf_unpin page_no False s1 = s"
      using fetch_page_handle_ok [OF less.prems(1) p less.prems(2)] by metis
    let ?i = "next_bit True (page_bitmap ?h pg) ?n slot"
    note nb = next_bit_facts [OF less.prems(4), where b = True and bm = "page_bitmap ?h pg" and n = ?n]
    have rec: "file_records s \<lparr>rid_page_no = page_no, rid_slot_no = int j\<rparr> \<noteq> None \<longleftrightarrow>
        j < ?n \<and> is_set (page_bitmap ?h pg) j" for j
      using p f(2) by (simp add: file_records_def page_records_def)
    have gap: "file_records s r = None"
      if "rid_page_no r = page_no" "slot < rid_slot_no r" "rid_slot_no r < int ?i" for r
    proof -
      define j where "j = nat (rid_slot_no r)"
      have "rid_slot_no r = int j" using that(2) less.prems(4) by (simp add: j_def)
      then show ?thesis using rec [of j] nb(3) [of j] that by (cases r) auto
    qed
    show ?thesis
    proof (cases "?i < ?n")
      case True
      let ?r = "\<lparr>rid_page_no = page_no, rid_slot_no = int ?i\<rparr>"
      have "scan_pages page_no slot s = (Inr ?r, s)"
        using False f True by (simp add: scan_pages.simps Let_def)
      moreover have "file_records s ?r \<noteq> None" using rec True nb(2) by blast
      moreover have "rid_before cur ?r" using nb(2) True less.prems(5) by (simp add: rid_before_def)
      moreover have "file_records s r = None" if "rid_before cur r \<and> rid_before r ?r" for r
        using that gap [of r] less.prems(5) by (auto simp: rid_before_def)
      moreover have "page_no \<noteq> RM_NO_PAGE" using less.prems(3) by (simp add: RM_NO_PAGE_def)
      ultimately show ?thesis by simp
    next
      case nope: False
      let ?cur = "\<lparr>rid_page_no = page_no + 1, rid_slot_no = -1\<rparr>"
      obtain rid where rid: "scan_pages (page_no + 1) (-1) s = (Inr rid, s)"
        "if rid_page_no rid = RM_NO_PAGE then \<forall>r. rid_before ?cur r \<longrightarrow> file_records s r = None
         else file_records s rid \<noteq> None \<and> rid_before ?cur rid \<and>
           (\<forall>r. rid_before ?cur r \<and> rid_before r rid \<longrightarrow> file_records s r = None)"
        using less.hyps [of "page_no + 1" "-1" ?cur] less.prems False by auto
      have i: "?i = ?n" using nope nb(1) by simp
      have skip: "rid_before ?cur r" if "rid_before cur r" "file_records s r \<noteq> None" for r
      proof -
        have "0 \<le> rid_slot_no r" "rid_slot_no r < int ?n" using file_records_in [OF that(2)] by (auto simp: rid_in_def)
        then show ?thesis using that less.prems(5) gap [of r] i by (auto simp: rid_before_def)
      qed
      have res: "scan_pages page_no slot s = (Inr rid, s)"
        using False f nope rid(1) by (subst scan_pages.simps) (simp add: Let_def RM_NO_PAGE_def)
      show ?thesis
      proof (cases "rid_page_no rid = RM_NO_PAGE")
        case True
        then have "\<forall>r. rid_before cur r \<longrightarrow> file_records s r = None" using rid(2) skip by metis
        then show ?thesis using res True by simp
      next
        case False
        then have "file_records s rid \<noteq> None" "rid_before ?cur rid" using rid(2) by simp_all
        moreover have "\<forall>r. rid_before cur r \<and> rid_before r rid \<longrightarrow> file_records s r = None"
          using rid(2) False skip by metis
        moreover from calculation have "rid_before cur rid" using less.prems(5) by (auto simp: rid_before_def)
        ultimately show ?thesis using res False by simp
      qed
    qed
  qed
qed

subsection \<open>Whole scans\<close>

lemma finite_file_records: "finite (dom (file_records s))"
proof (rule finite_subset)
  show "dom (file_records s) \<subseteq> (\<lambda>(p, i). \<lparr>rid_page_no = p, rid_slot_no = i\<rparr>) `
      ({1..<num_pages (rf_hdr s)} \<times> {0..<int (num_records_per_page (rf_hdr s))})"
  proof
    fix r assume "r \<in> dom (file_records s)"
    then have "rid_in s r" by (intro file_records_in) (auto simp: domIff)
    then show "r \<in> (\<lambda>(p, i). \<lparr>rid_page_no = p, rid_slot_no = i\<rparr>) `
      ({1..<num_pages (rf_hdr s)} \<times> {0..<int (num_records_per_page (rf_hdr s))})"
      by (intro image_eqI [of _ _ "(rid_page_no r, rid_slot_no r)"]) (auto simp: rid_in_def data_page_def)
  qed
qed simp

definition from_rid :: "rm_file \<Rightarrow> Rid \<Rightarrow> Rid set" where
  "from_rid s rid = {r \<in> dom (file_records s). r = rid \<or> rid_before rid r}"

lemma rid_before_trans: "rid_before a b \<Longrightarrow> rid_before b c \<Longrightarrow> rid_before a c"
  by (auto simp: rid_before_def)

lemma rid_before_irrefl [simp]: "\<not> rid_before a a"
  by (simp add: rid_before_def)

text \<open>What \<open>scan_next\<close> promises, from a cursor on a record or before the first one.\<close>

lemma scan_next_ok:
  assumes "file_inv s" and "room s" and "1 \<le> rid_page_no cur" and "-1 \<le> rid_slot_no cur"
  obtains (at_end) rid where "scan_next cur s = (Inr rid, s)" "scan_is_end rid" "\<And>r. rid_before cur r \<Longrightarrow> r \<notin> dom (file_records s)"
  | (hit) rid where "scan_next cur s = (Inr rid, s)" "\<not> scan_is_end rid" "rid \<in> dom (file_records s)"
      "{r \<in> dom (file_records s). rid_before cur r} = from_rid s rid" "rid_before cur rid"
proof -
  obtain rid where rid: "scan_next cur s = (Inr rid, s)" and cases: "if rid_page_no rid = RM_NO_PAGE
      then \<forall>r. rid_before cur r \<longrightarrow> file_records s r = None
      else file_records s rid \<noteq> None \<and> rid_before cur rid \<and>
       (\<forall>r. rid_before cur r \<and> rid_before r rid \<longrightarrow> file_records s r = None)"
    using scan_pages_ok [OF assms, of cur] by (auto simp: scan_next_def)
  show ?thesis
  proof (cases "scan_is_end rid")
    case True
    then show ?thesis using cases by (intro at_end [OF rid True]) (auto simp: scan_is_end_def domIff)
  next
    case False
    then have c: "file_records s rid \<noteq> None" "rid_before cur rid"
      "\<And>r. rid_before cur r \<Longrightarrow> rid_before r rid \<Longrightarrow> file_records s r = None"
      using cases by (auto simp: scan_is_end_def)
    have "{r \<in> dom (file_records s). rid_before cur r} = from_rid s rid"
    proof (intro equalityI subsetI)
      fix x assume "x \<in> {r \<in> dom (file_records s). rid_before cur r}"
      then show "x \<in> from_rid s rid" using c(3) [of x] rid_before_total [of x rid] by (auto simp: from_rid_def)
    next
      fix x assume "x \<in> from_rid s rid"
      then show "x \<in> {r \<in> dom (file_records s). rid_before cur r}"
        using c(2) rid_before_trans [OF c(2)] by (auto simp: from_rid_def)
    qed
    then show ?thesis using hit [OF rid False] c by (auto simp: domIff)
  qed
qed

lemma scan_loop_ok:
  assumes inv: "file_inv s" "room s" and cur: "rid \<in> dom (file_records s)"
    and fuel: "card (from_rid s rid) < fuel"
  shows "\<exists>rs. scan_loop fuel rid s = Some rs \<and> set rs = from_rid s rid \<and> sorted_wrt rid_before rs"
  using cur fuel
proof (induction fuel arbitrary: rid)
  case (Suc fuel)
  have in_s: "rid_in s rid" using Suc.prems(1) by (intro file_records_in) (auto simp: domIff)
  then have pos: "1 \<le> rid_page_no rid" "-1 \<le> rid_slot_no rid" by (auto simp: rid_in_def data_page_def)
  then have ne: "\<not> scan_is_end rid" by (simp add: scan_is_end_def RM_NO_PAGE_def)
  have split: "from_rid s rid = insert rid {r \<in> dom (file_records s). rid_before rid r}"
    using Suc.prems(1) by (auto simp: from_rid_def)
  from inv pos show ?case
  proof (cases rule: scan_next_ok)
    case (at_end rid')
    then have "{r \<in> dom (file_records s). rid_before rid r} = {}" by auto
    moreover have "fuel \<noteq> 0" using Suc.prems(2) split calculation by auto
    then have "scan_loop fuel rid' s = Some []" using at_end by (cases fuel) simp_all
    ultimately show ?thesis using at_end ne split by auto
  next
    case (hit rid')
    have "finite (from_rid s rid')" using finite_file_records by (simp add: from_rid_def)
    moreover have "rid \<notin> from_rid s rid'"
      using hit(5) rid_before_trans [of rid rid' rid] by (auto simp: from_rid_def)
    ultimately have "card (from_rid s rid') < fuel" using Suc.prems(2) split hit(4) by simp
    then obtain rs where rs: "scan_loop fuel rid' s = Some rs" "set rs = from_rid s rid'" "sorted_wrt rid_before rs"
      using Suc.IH [OF hit(3)] by blast
    then show ?thesis using hit ne split by auto
  qed
qed simp

lemma scan_all_ok:
  assumes "file_inv s" and "room s" and fuel: "card (dom (file_records s)) < fuel"
  shows "\<exists>rs. scan_all fuel s = Some rs \<and> set rs = dom (file_records s) \<and> sorted_wrt rid_before rs"
proof -
  let ?cur = "\<lparr>rid_page_no = RM_FIRST_RECORD_PAGE, rid_slot_no = RM_NO_PAGE\<rparr>"
  have all: "rid_before ?cur r" if "r \<in> dom (file_records s)" for r
  proof -
    have "rid_in s r" using that by (intro file_records_in) (auto simp: domIff)
    then show ?thesis by (auto simp: rid_in_def data_page_def rid_before_def RM_FIRST_RECORD_PAGE_def RM_NO_PAGE_def)
  qed
  have "1 \<le> rid_page_no ?cur" "-1 \<le> rid_slot_no ?cur" by (simp_all add: RM_FIRST_RECORD_PAGE_def RM_NO_PAGE_def)
  from assms(1,2) this show ?thesis
  proof (cases rule: scan_next_ok)
    case (at_end rid)
    then have "dom (file_records s) = {}" using all by blast
    moreover have "scan_loop fuel rid s = Some []" using at_end fuel by (cases fuel) simp_all
    ultimately show ?thesis using at_end by (simp add: scan_all_def scan_begin_def)
  next
    case (hit rid)
    have "from_rid s rid = dom (file_records s)" using hit(4) all by blast
    then show ?thesis using scan_loop_ok [OF assms(1,2) hit(3), of fuel] fuel hit(1)
      by (simp add: scan_all_def scan_begin_def)
  qed
qed

subsection \<open>Properties\<close>

text \<open>C17: A scan of a file visits every record exactly once, in the order of pages and slots, and ends; it
  needs no more steps than there are records.\<close>

theorem scan_enumerates_records:
  assumes "file_inv s" and "room s" and "card (dom (file_records s)) < fuel"
  shows "\<exists>rs. scan_all fuel s = Some rs \<and> set rs = dom (file_records s) \<and> sorted_wrt rid_before rs \<and> distinct rs"
proof -
  obtain rs where rs: "scan_all fuel s = Some rs" "set rs = dom (file_records s)" "sorted_wrt rid_before rs"
    using scan_all_ok [OF assms] by blast
  have "distinct rs" using rs(3) by (induction rs) auto
  then show ?thesis using rs by blast
qed

theorem scan_enumerates_records_witness: "scan_all 1 (example_file 4) = Some []"
proof -
  have ok: "file_inv (example_file 4)" "room (example_file 4)"
    using example_file_ok [of 4] by (simp_all add: file_ok_def RM_MAX_RECORD_SIZE_def)
  have "file_records (example_file 4) = Map.empty"
    by (auto simp: file_records_def data_page_def example_file_def file_hdr_new_def Let_def fun_eq_iff)
  then show ?thesis using scan_enumerates_records [OF ok, of 1] by auto
qed

end
