(* ===== verification/Log_Manager.thy ===== *)
theory Log_Manager
  imports Log_Records Disk
begin

text \<open>
  The log manager (\<^verbatim>\<open>src/src/recovery/log_manager.cpp\<close>, class \<^verbatim>\<open>LogManager\<close>): records are
  numbered, serialised into one buffer, and the buffer is appended to the log file when the next
  record does not fit or a transaction ends. \<open>log_stream\<close> is everything logged so far, on disk and
  in the buffer.
\<close>

subsection \<open>Model\<close>

definition LOG_BUFFER_SIZE :: nat where "LOG_BUFFER_SIZE = 1024 * PAGE_SIZE"

record log_manager =
  global_lsn :: lsn
  log_buffer :: bytes
  buf_offset :: nat
  persist_lsn :: lsn

definition log_new :: "lsn \<Rightarrow> log_manager" where
  "log_new persist0 = \<lparr>global_lsn = 0, log_buffer = replicate (LOG_BUFFER_SIZE + 1) 0, buf_offset = 0,
     persist_lsn = persist0\<rparr>"

definition is_full :: "log_manager \<Rightarrow> nat \<Rightarrow> bool" where
  "is_full m append_size \<longleftrightarrow> LOG_BUFFER_SIZE < buf_offset m + append_size"

text \<open>The manager works on the shared disk manager: its state is a pair. \<open>nfd\<close> is the descriptor
  a first opening of the log file would return.\<close>

definition flush_log_to_disk :: "int \<Rightarrow> log_manager \<times> disk_manager \<Rightarrow> (log_manager \<times> disk_manager, unit) outcome" where
  "flush_log_to_disk nfd s =
     (case s of (m, d) \<Rightarrow>
       (case write_log nfd (take (buf_offset m) (log_buffer m)) d of
          (Inl e, d') \<Rightarrow> (Inl e, (m, d'))
        | (Inr _, d') \<Rightarrow>
            (Inr (), (m\<lparr>log_buffer := replicate (LOG_BUFFER_SIZE + 1) 0, buf_offset := 0,
                        persist_lsn := global_lsn m - 1\<rparr>, d'))))"

definition append_record :: "log_record \<Rightarrow> log_manager \<Rightarrow> log_manager" where
  "append_record r m =
     (let r' = r\<lparr>log_lsn := global_lsn m\<rparr>
      in m\<lparr>global_lsn := global_lsn m + 1,
           log_buffer := write_bytes (buf_offset m) (serialize r') (log_buffer m),
           buf_offset := buf_offset m + log_tot_len r\<rparr>)"

definition add_log_to_buffer ::
  "int \<Rightarrow> log_record \<Rightarrow> log_manager \<times> disk_manager \<Rightarrow> (log_manager \<times> disk_manager, lsn) outcome" where
  "add_log_to_buffer nfd r s =
     (case (if is_full (fst s) (log_tot_len r) then flush_log_to_disk nfd s else (Inr (), s)) of
        (Inl e, s') \<Rightarrow> (Inl e, s')
      | (Inr _, (m, d)) \<Rightarrow> (Inr (global_lsn m), (append_record r m, d)))"

subsection \<open>Invariant\<close>

text \<open>The log file exists and is open under its descriptor.\<close>

definition log_open_ok :: "disk_manager \<Rightarrow> bool" where
  "log_open_ok d \<longleftrightarrow> log_fd d \<noteq> -1 \<and> disk_inv d \<and> os_fds d (log_fd d) = Some LOG_FILE_NAME"

definition log_inv :: "log_manager \<times> disk_manager \<Rightarrow> bool" where
  "log_inv s \<longleftrightarrow> length (log_buffer (fst s)) = LOG_BUFFER_SIZE + 1 \<and> buf_offset (fst s) \<le> LOG_BUFFER_SIZE \<and>
     0 \<le> global_lsn (fst s) \<and> log_open_ok (snd s)"

definition log_disk :: "disk_manager \<Rightarrow> bytes" where
  "log_disk d = (case os_files d LOG_FILE_NAME of None \<Rightarrow> [] | Some bs \<Rightarrow> bs)"

definition log_stream :: "log_manager \<times> disk_manager \<Rightarrow> bytes" where
  "log_stream s = log_disk (snd s) @ take (buf_offset (fst s)) (log_buffer (fst s))"

lemma log_inv_new: "log_open_ok d \<Longrightarrow> log_inv (log_new p0, d)"
  by (simp add: log_inv_def log_new_def)

lemma log_file_exists: "log_open_ok d \<Longrightarrow> \<exists>bs. os_files d LOG_FILE_NAME = Some bs"
  using disk_inv_content [of d "log_fd d"] by (auto simp: log_open_ok_def fd_content_def)

lemma write_log_ok:
  assumes "log_open_ok d"
  shows "\<exists>d'. write_log nfd xs d = (Inr (), d') \<and> log_open_ok d' \<and> log_disk d' = log_disk d @ xs \<and>
     (\<forall>p. p \<noteq> LOG_FILE_NAME \<longrightarrow> os_files d' p = os_files d p)"
proof -
  obtain bs where bs: "os_files d LOG_FILE_NAME = Some bs" using log_file_exists [OF assms] by blast
  have fd: "os_fds d (log_fd d) = Some LOG_FILE_NAME" "log_fd d \<noteq> -1" "disk_inv d"
    using assms by (simp_all add: log_open_ok_def)
  have "write_log nfd xs d = (Inr (), fd_store (log_fd d) (bs @ xs) d)"
    using fd bs by (simp add: write_log_def log_open_def fd_content_def)
  moreover have "log_open_ok (fd_store (log_fd d) (bs @ xs) d)"
    using fd disk_inv_fd_store [OF fd(3)] by (simp add: log_open_ok_def)
  ultimately show ?thesis using fd bs by (simp add: log_disk_def fd_store_def)
qed

lemma flush_log_ok:
  assumes "log_inv s"
  shows "\<exists>s'. flush_log_to_disk nfd s = (Inr (), s') \<and> log_inv s' \<and> log_stream s' = log_stream s \<and>
     log_disk (snd s') = log_stream s \<and> buf_offset (fst s') = 0 \<and>
     global_lsn (fst s') = global_lsn (fst s) \<and> persist_lsn (fst s') = global_lsn (fst s) - 1"
proof (cases s)
  case (Pair m d)
  have "log_open_ok d" using assms Pair by (simp add: log_inv_def)
  then obtain d' where "write_log nfd (take (buf_offset m) (log_buffer m)) d = (Inr (), d')" "log_open_ok d'"
    "log_disk d' = log_disk d @ take (buf_offset m) (log_buffer m)" using write_log_ok by blast
  then show ?thesis using assms Pair by (simp add: flush_log_to_disk_def log_inv_def log_stream_def)
qed

lemma append_record_ok:
  assumes "log_inv (m, d)" and "log_ok r" and "\<not> is_full m (log_tot_len r)" and "int32 (global_lsn m)"
  shows "log_inv (append_record r m, d) \<and>
     log_stream (append_record r m, d) = log_stream (m, d) @ serialize (r\<lparr>log_lsn := global_lsn m\<rparr>)"
proof -
  let ?bs = "serialize (r\<lparr>log_lsn := global_lsn m\<rparr>)"
  have len: "length ?bs = log_tot_len r" using length_serialize [OF log_ok_lsn [OF assms(2,4)]] by simp
  have fits: "buf_offset m + log_tot_len r \<le> LOG_BUFFER_SIZE" "length (log_buffer m) = LOG_BUFFER_SIZE + 1"
    using assms(1,3) by (simp_all add: is_full_def log_inv_def)
  have "take (buf_offset m + log_tot_len r) (write_bytes (buf_offset m) ?bs (log_buffer m)) =
      take (buf_offset m) (log_buffer m) @ ?bs"
    using len fits by (simp add: write_bytes_def)
  then show ?thesis using assms(1) fits len by (simp add: append_record_def Let_def log_inv_def log_stream_def)
qed

lemma add_log_ok:
  assumes inv: "log_inv s" and ok: "log_ok r" and small: "log_tot_len r \<le> LOG_BUFFER_SIZE"
    and lsn: "int32 (global_lsn (fst s))"
  shows "\<exists>s'. add_log_to_buffer nfd r s = (Inr (global_lsn (fst s)), s') \<and> log_inv s' \<and>
     log_stream s' = log_stream s @ serialize (r\<lparr>log_lsn := global_lsn (fst s)\<rparr>) \<and>
     global_lsn (fst s') = global_lsn (fst s) + 1"
proof (cases "is_full (fst s) (log_tot_len r)")
  case True
  obtain m d where f: "flush_log_to_disk nfd s = (Inr (), (m, d))" "log_inv (m, d)"
    "log_stream (m, d) = log_stream s" "buf_offset m = 0" "global_lsn m = global_lsn (fst s)"
    using flush_log_ok [OF inv, of nfd] by auto
  have "\<not> is_full m (log_tot_len r)" using f small by (simp add: is_full_def)
  from append_record_ok [OF f(2) ok this] f True lsn show ?thesis
    by (simp add: add_log_to_buffer_def append_record_def Let_def)
next
  case False
  obtain m d where s: "s = (m, d)" by (cases s)
  show ?thesis using append_record_ok [of m d r] inv ok lsn False s
    by (simp add: add_log_to_buffer_def append_record_def Let_def)
qed

subsection \<open>Properties\<close>

definition example_log_disk :: disk_manager where
  "example_log_disk = (snd (open_file 4 LOG_FILE_NAME (snd (create_file LOG_FILE_NAME (disk_new Map.empty)))))\<lparr>log_fd := 4\<rparr>"

lemma example_log_ok: "log_open_ok example_log_disk"
proof -
  have "disk_inv (snd (open_file 4 LOG_FILE_NAME (snd (create_file LOG_FILE_NAME (disk_new Map.empty)))))"
    by (rule disk_inv_open [OF disk_inv_create [OF disk_inv_new]]) (simp add: create_file_def disk_new_def)
  then have "disk_inv example_log_disk" by (simp add: example_log_disk_def disk_inv_def)
  then show ?thesis
    by (simp add: log_open_ok_def example_log_disk_def open_file_def os_open_def create_file_def disk_new_def)
qed

text \<open>Logging appends: adding a record returns the next log sequence number, puts exactly that record's
  bytes, with the number in it, at the end of everything logged so far, whether or not the buffer had to be
  written out first, and keeps the buffer within its bounds. Nothing logged before is lost or changed.\<close>

theorem add_log_appends:
  assumes "log_inv s" and "log_ok r" and "log_tot_len r \<le> LOG_BUFFER_SIZE" and "int32 (global_lsn (fst s))"
  shows "\<exists>s'. add_log_to_buffer nfd r s = (Inr (global_lsn (fst s)), s') \<and> log_inv s' \<and>
     log_stream s' = log_stream s @ serialize (r\<lparr>log_lsn := global_lsn (fst s)\<rparr>) \<and>
     global_lsn (fst s') = global_lsn (fst s) + 1"
  by (rule add_log_ok [OF assms])

theorem add_log_appends_witness:
  "\<exists>s'. add_log_to_buffer 9 (BeginLogRecord 1) (log_new 0, example_log_disk) = (Inr 0, s') \<and>
     log_stream s' = serialize ((BeginLogRecord 1)\<lparr>log_lsn := 0\<rparr>)"
proof -
  have "log_stream (log_new 0, example_log_disk) = []"
    by (simp add: log_stream_def log_new_def log_disk_def example_log_disk_def open_file_def os_open_def
        create_file_def disk_new_def)
  moreover have "log_tot_len (BeginLogRecord 1) \<le> LOG_BUFFER_SIZE"
    by (simp add: BeginLogRecord_def log_base_def log_offsets LOG_BUFFER_SIZE_def PAGE_SIZE_def)
  moreover have "global_lsn (fst (log_new 0, example_log_disk)) = 0" by (simp add: log_new_def)
  ultimately show ?thesis
    using add_log_appends [OF log_inv_new [OF example_log_ok] log_ok_simple(1), of 1 0 9] by (auto simp: int32_def)
qed

text \<open>After a flush everything logged is in the log file, in order; the buffer is empty and the number of
  the last persistent record is the last one given out.\<close>

theorem flush_persists_log:
  assumes "log_inv s"
  shows "\<exists>s'. flush_log_to_disk nfd s = (Inr (), s') \<and> log_inv s' \<and> log_disk (snd s') = log_stream s \<and>
     buf_offset (fst s') = 0 \<and> persist_lsn (fst s') = global_lsn (fst s) - 1"
  using flush_log_ok [OF assms, of nfd] by blast

theorem flush_persists_log_witness:
  "\<exists>s'. flush_log_to_disk 9 (log_new 0, example_log_disk) = (Inr (), s') \<and> buf_offset (fst s') = 0"
  using flush_persists_log [OF log_inv_new [OF example_log_ok], of 9 0] by blast

end
