(* ===== verification/Version_Chains.thy ===== *)
theory Version_Chains
  imports Rmdb_Prelude
begin

text \<open>
  Version chains and visibility (\<^verbatim>\<open>src/src/transaction/mvcc_defs.h\<close>,
  \<^verbatim>\<open>src/src/transaction/snapshot_manager.h\<close>).

  A \<^verbatim>\<open>VersionChain\<close> is the list of its versions from \<^verbatim>\<open>head_\<close> along the \<^verbatim>\<open>prev\<close> pointers; a
  pointer into the chain is an index of the list, and the pointer a search returns is the version
  it points to. \<^verbatim>\<open>size\<close> is the length of \<open>tv_data\<close>. The two searches stop after 1000 versions, as
  the code does.

  \<open>chain_ok\<close> is the invariant the version manager maintains: uncommitted versions of one
  transaction on top, committed versions below in order of their timestamps, each expiring when
  the version above it was created. On such a chain \<open>find_visible_version\<close> is shown to be the
  snapshot read \<open>read_at\<close>.
\<close>

subsection \<open>Model\<close>

record TupleVersion =
  tv_data :: bytes
  tv_txn_id :: txn_id
  tv_create_ts :: timestamp
  tv_expire_ts :: timestamp
  tv_is_deleted :: bool

type_synonym version_chain = "TupleVersion list"

definition new_tuple_version :: "bytes \<Rightarrow> txn_id \<Rightarrow> TupleVersion" where
  "new_tuple_version data tid =
     \<lparr>tv_data = data, tv_txn_id = tid, tv_create_ts = INVALID_TIMESTAMP, tv_expire_ts = INT32_MAX,
      tv_is_deleted = False\<rparr>"

datatype UndoType = UNDO_INSERT | UNDO_UPDATE | UNDO_DELETE

record UndoRecord =
  undo_type :: UndoType
  undo_rid :: Rid
  undo_old_version :: "TupleVersion option"
  undo_table_name :: string

definition undo_eq :: "UndoRecord \<Rightarrow> UndoRecord \<Rightarrow> bool" where
  "undo_eq a b \<longleftrightarrow> undo_rid a = undo_rid b \<and> undo_old_version a = undo_old_version b \<and>
     undo_table_name a = undo_table_name b"

definition get_head :: "version_chain \<Rightarrow> TupleVersion option" where
  "get_head c = (case c of [] \<Rightarrow> None | v # _ \<Rightarrow> Some v)"

definition add_version :: "TupleVersion \<Rightarrow> version_chain \<Rightarrow> version_chain" where
  "add_version v c = v # c"

text \<open>\<open>commit_version i ts\<close> commits the \<open>i\<close>-th version from the head.\<close>

definition commit_version :: "nat \<Rightarrow> timestamp \<Rightarrow> version_chain \<Rightarrow> version_chain" where
  "commit_version i commit_ts c =
     (if length c \<le> i then c
      else let c' = c[i := (c ! i)\<lparr>tv_create_ts := commit_ts\<rparr>]
           in if Suc i < length c' \<and> tv_expire_ts (c' ! Suc i) = INT32_MAX
              then c'[Suc i := (c' ! Suc i)\<lparr>tv_expire_ts := commit_ts\<rparr>] else c')"

definition is_version_visible :: "TupleVersion option \<Rightarrow> txn_id \<Rightarrow> timestamp \<Rightarrow> bool" where
  "is_version_visible version current_txn_id read_ts =
     (case version of
        None \<Rightarrow> False
      | Some v \<Rightarrow>
          if tv_txn_id v = current_txn_id then (if tv_is_deleted v then False else True)
          else if tv_is_deleted v then False
          else if tv_create_ts v = INVALID_TIMESTAMP then False
          else if tv_create_ts v = INT32_MAX then False
          else if read_ts < tv_create_ts v then False
          else if tv_expire_ts v \<noteq> INT32_MAX \<and> tv_expire_ts v \<noteq> INVALID_TIMESTAMP \<and>
                  tv_expire_ts v \<le> read_ts then False
          else True)"

text \<open>The search loops: \<open>k\<close> is \<^verbatim>\<open>max_iterations\<close>, the list is the chain from \<^verbatim>\<open>current\<close>.\<close>

fun find_visible_loop :: "nat \<Rightarrow> timestamp \<Rightarrow> txn_id \<Rightarrow> version_chain \<Rightarrow> TupleVersion option" where
  "find_visible_loop k read_ts tid [] = None"
| "find_visible_loop 0 read_ts tid (v # c) = None"
| "find_visible_loop (Suc k) read_ts tid (v # c) =
     (if tv_txn_id v = tid then (if tv_is_deleted v then None else Some v)
      else if tv_is_deleted v then
        (if tv_create_ts v = INVALID_TIMESTAMP then find_visible_loop k read_ts tid c
         else if read_ts < tv_create_ts v then find_visible_loop k read_ts tid c
         else None)
      else if tv_create_ts v = INVALID_TIMESTAMP then find_visible_loop k read_ts tid c
      else if tv_create_ts v = INT32_MAX then find_visible_loop k read_ts tid c
      else if tv_create_ts v \<le> read_ts \<and> (tv_expire_ts v = INT32_MAX \<or> read_ts < tv_expire_ts v) then Some v
      else find_visible_loop k read_ts tid c)"

definition max_iterations :: nat where "max_iterations = 1000"

definition find_visible_version :: "timestamp \<Rightarrow> txn_id \<Rightarrow> version_chain \<Rightarrow> TupleVersion option" where
  "find_visible_version read_ts tid c = find_visible_loop max_iterations read_ts tid c"

fun find_for_delete_loop :: "nat \<Rightarrow> timestamp \<Rightarrow> txn_id \<Rightarrow> version_chain \<Rightarrow> TupleVersion option" where
  "find_for_delete_loop k read_ts tid [] = None"
| "find_for_delete_loop 0 read_ts tid (v # c) = None"
| "find_for_delete_loop (Suc k) read_ts tid (v # c) =
     (if \<not> tv_is_deleted v \<and> is_version_visible (Some v) tid read_ts then Some v
      else find_for_delete_loop k read_ts tid c)"

definition find_version_for_delete :: "timestamp \<Rightarrow> txn_id \<Rightarrow> version_chain \<Rightarrow> TupleVersion option" where
  "find_version_for_delete read_ts tid c = find_for_delete_loop max_iterations read_ts tid c"

definition has_write_conflict :: "txn_id \<Rightarrow> version_chain \<Rightarrow> bool" where
  "has_write_conflict tid c =
     (case get_head c of None \<Rightarrow> False
      | Some v \<Rightarrow> tv_txn_id v \<noteq> tid \<and> tv_create_ts v = INVALID_TIMESTAMP)"

fun version_count_loop :: "nat \<Rightarrow> version_chain \<Rightarrow> nat" where
  "version_count_loop count [] = count"
| "version_count_loop count (v # c) = (if count < 1000 then version_count_loop (Suc count) c else count)"

definition get_version_count :: "version_chain \<Rightarrow> nat" where
  "get_version_count c = version_count_loop 0 c"

definition expire_version :: "nat \<Rightarrow> timestamp \<Rightarrow> version_chain \<Rightarrow> version_chain" where
  "expire_version i expire_ts c =
     (if i < length c then c[i := (c ! i)\<lparr>tv_expire_ts := expire_ts\<rparr>] else c)"

text \<open>\<^verbatim>\<open>MVCCVisibility::is_visible\<close> and \<^verbatim>\<open>Snapshot::is_visible\<close>.\<close>

definition mvcc_is_visible :: "TupleVersion option \<Rightarrow> txn_id \<Rightarrow> timestamp \<Rightarrow> bool" where
  "mvcc_is_visible version tid read_ts =
     (case version of
        None \<Rightarrow> False
      | Some v \<Rightarrow>
          if tv_txn_id v = tid then \<not> tv_is_deleted v
          else tv_create_ts v \<noteq> INVALID_TIMESTAMP \<and> tv_create_ts v \<le> read_ts \<and>
               read_ts < tv_expire_ts v \<and> \<not> tv_is_deleted v)"

record Snapshot =
  snapshot_time :: timestamp
  active_tx_ids :: "txn_id set"

definition snapshot_is_visible :: "Snapshot \<Rightarrow> TupleVersion option \<Rightarrow> txn_id \<Rightarrow> bool" where
  "snapshot_is_visible s version current_txn_id =
     (case version of
        None \<Rightarrow> False
      | Some v \<Rightarrow>
          if tv_txn_id v = current_txn_id then \<not> tv_is_deleted v
          else if tv_is_deleted v then False
          else if tv_create_ts v = INVALID_TIMESTAMP then False
          else if tv_create_ts v \<le> snapshot_time s then True
          else False)"

text \<open>\<^verbatim>\<open>SnapshotManager\<close>: the set of active transactions.\<close>

type_synonym snapshot_manager = "txn_id set"

definition create_snapshot :: "timestamp \<Rightarrow> snapshot_manager \<Rightarrow> Snapshot" where
  "create_snapshot t s = \<lparr>snapshot_time = t, active_tx_ids = s\<rparr>"

definition register_transaction :: "txn_id \<Rightarrow> snapshot_manager \<Rightarrow> snapshot_manager" where
  "register_transaction tid s = insert tid s"

definition unregister_transaction :: "txn_id \<Rightarrow> snapshot_manager \<Rightarrow> snapshot_manager" where
  "unregister_transaction tid s = s - {tid}"

definition get_active_count :: "snapshot_manager \<Rightarrow> nat" where
  "get_active_count s = card s"

subsection \<open>Invariant\<close>

definition is_uncommitted :: "TupleVersion \<Rightarrow> bool" where
  "is_uncommitted v \<longleftrightarrow> tv_create_ts v = INVALID_TIMESTAMP"

definition pending :: "version_chain \<Rightarrow> version_chain" where
  "pending c = takeWhile is_uncommitted c"

definition committed :: "version_chain \<Rightarrow> version_chain" where
  "committed c = dropWhile is_uncommitted c"

text \<open>\<open>committed_ok t c\<close>: timestamps decrease along \<open>c\<close> and stay at most \<open>t\<close>; a version that has
  expired did so when the version above it was created (\<open>t\<close> for the first one).\<close>

fun committed_ok :: "timestamp \<Rightarrow> version_chain \<Rightarrow> bool" where
  "committed_ok t [] \<longleftrightarrow> True"
| "committed_ok t (v # c) \<longleftrightarrow> 0 \<le> tv_create_ts v \<and> tv_create_ts v < INT32_MAX \<and> tv_create_ts v \<le> t \<and>
     (tv_expire_ts v = INT32_MAX \<or> tv_expire_ts v = t) \<and> committed_ok (tv_create_ts v) c"

definition pending_ok :: "version_chain \<Rightarrow> bool" where
  "pending_ok us \<longleftrightarrow> (\<forall>u \<in> set us. tv_expire_ts u = INT32_MAX \<and> tv_txn_id u = tv_txn_id (hd us))"

definition chain_ok :: "version_chain \<Rightarrow> bool" where
  "chain_ok c \<longleftrightarrow> pending_ok (pending c) \<and> committed_ok INT32_MAX (committed c)"

text \<open>The version a snapshot at \<open>t\<close> reads: the newest one committed at \<open>t\<close> or before, unless it is
  a deletion.\<close>

fun read_at :: "timestamp \<Rightarrow> version_chain \<Rightarrow> TupleVersion option" where
  "read_at t [] = None"
| "read_at t (v # c) = (if tv_create_ts v \<le> t then (if tv_is_deleted v then None else Some v) else read_at t c)"

definition owner_of :: "version_chain \<Rightarrow> txn_id option" where
  "owner_of c = (case pending c of [] \<Rightarrow> None | u # _ \<Rightarrow> Some (tv_txn_id u))"

subsection \<open>Lemmas on chains\<close>

lemma chain_split: "c = pending c @ committed c"
  by (simp add: pending_def committed_def)

lemma set_pending: "u \<in> set (pending c) \<Longrightarrow> is_uncommitted u"
  by (auto simp: pending_def dest: set_takeWhileD)

lemma pending_Cons [simp]: "pending (v # c) = (if is_uncommitted v then v # pending c else [])"
  by (simp add: pending_def)

lemma committed_Cons [simp]: "committed (v # c) = (if is_uncommitted v then committed c else v # c)"
  by (simp add: committed_def)

lemma pending_Nil [simp]: "pending [] = []" and committed_Nil [simp]: "committed [] = []"
  by (simp_all add: pending_def committed_def)

lemma pending_append: "\<forall>u\<in>set us. is_uncommitted u \<Longrightarrow> pending (us @ c) = us @ pending c"
  by (simp add: pending_def takeWhile_append2)

lemma committed_append: "\<forall>u\<in>set us. is_uncommitted u \<Longrightarrow> committed (us @ c) = committed c"
  by (simp add: committed_def dropWhile_append2)

lemma committed_ok_not_uncommitted: "committed_ok t c \<Longrightarrow> v \<in> set c \<Longrightarrow> \<not> is_uncommitted v"
  by (induction c arbitrary: t) (auto simp: is_uncommitted_def INVALID_TIMESTAMP_def)

lemma committed_ok_dest:
  "committed_ok t c \<Longrightarrow> v \<in> set c \<Longrightarrow> 0 \<le> tv_create_ts v \<and> tv_create_ts v < INT32_MAX \<and> tv_create_ts v \<le> t"
  by (induction c arbitrary: t) force+

lemma committed_id: "committed_ok t c \<Longrightarrow> committed c = c"
  by (cases c) (auto simp: is_uncommitted_def INVALID_TIMESTAMP_def)

lemma pending_committed_ok: "committed_ok t c \<Longrightarrow> pending c = []"
  by (cases c) (auto simp: is_uncommitted_def INVALID_TIMESTAMP_def)

lemma owner_pending: "chain_ok c \<Longrightarrow> u \<in> set (pending c) \<Longrightarrow> owner_of c = Some (tv_txn_id u)"
  by (cases "pending c") (auto simp: chain_ok_def pending_ok_def owner_of_def)

text \<open>The searches on the two parts of a chain.\<close>

lemma find_visible_committed:
  assumes "committed_ok t c" "read_ts < t" "length c \<le> k" "\<forall>v \<in> set c. tv_txn_id v \<noteq> tid"
  shows "find_visible_loop k read_ts tid c = read_at read_ts c"
  using assms
proof (induction c arbitrary: t k)
  case (Cons v c)
  then obtain k' where k: "k = Suc k'" by (cases k) auto
  show ?case
  proof (cases "tv_create_ts v \<le> read_ts")
    case True
    then show ?thesis using Cons.prems k by (auto simp: INVALID_TIMESTAMP_def)
  next
    case False
    then have "find_visible_loop k' read_ts tid c = read_at read_ts c"
      using Cons k by (intro Cons.IH [of "tv_create_ts v"]) auto
    then show ?thesis using Cons.prems False k by (auto simp: INVALID_TIMESTAMP_def)
  qed
qed simp

lemma find_visible_skip:
  assumes "\<forall>u \<in> set us. is_uncommitted u \<and> tv_txn_id u \<noteq> tid" "length us \<le> k"
  shows "find_visible_loop k read_ts tid (us @ c) = find_visible_loop (k - length us) read_ts tid c"
  using assms
proof (induction us arbitrary: k)
  case (Cons u us)
  then obtain k' where "k = Suc k'" by (cases k) auto
  then show ?case using Cons by (simp add: is_uncommitted_def)
qed simp

text \<open>The own version a transaction has on top of a chain hides everything below it.\<close>

lemma find_visible_own:
  assumes "tv_txn_id v = tid" "k \<noteq> 0"
  shows "find_visible_loop k read_ts tid (v # c) = (if tv_is_deleted v then None else Some v)"
  using assms by (cases k) auto

definition snapshot_read :: "timestamp \<Rightarrow> txn_id \<Rightarrow> version_chain \<Rightarrow> TupleVersion option" where
  "snapshot_read read_ts tid c =
     (if owner_of c = Some tid then (if tv_is_deleted (hd c) then None else Some (hd c))
      else read_at read_ts (committed c))"

lemma find_visible_is_snapshot_read:
  assumes "chain_ok c" "length c \<le> max_iterations" "read_ts < INT32_MAX"
    and "\<forall>v \<in> set (committed c). tv_txn_id v \<noteq> tid"
  shows "find_visible_version read_ts tid c = snapshot_read read_ts tid c"
proof (cases "owner_of c = Some tid")
  case True
  then obtain u us where u: "pending c = u # us" "tv_txn_id u = tid"
    by (auto simp: owner_of_def split: list.splits)
  then have "c = u # us @ committed c" using chain_split [of c] by simp
  then obtain c' where "c = u # c'" by simp
  then show ?thesis using True u
    by (simp add: find_visible_version_def snapshot_read_def find_visible_own max_iterations_def)
next
  case False
  have nown: "\<forall>u \<in> set (pending c). is_uncommitted u \<and> tv_txn_id u \<noteq> tid"
    using assms(1) False owner_pending set_pending by blast
  have len: "length (pending c) + length (committed c) = length c"
    using chain_split [of c] by (metis length_append)
  have "find_visible_version read_ts tid c
      = find_visible_loop max_iterations read_ts tid (pending c @ committed c)"
    using chain_split [of c] by (simp add: find_visible_version_def)
  also have "\<dots> = find_visible_loop (max_iterations - length (pending c)) read_ts tid (committed c)"
    using nown len assms(2) by (intro find_visible_skip) auto
  also have "\<dots> = read_at read_ts (committed c)"
    using assms len by (intro find_visible_committed [of INT32_MAX]) (auto simp: chain_ok_def)
  finally show ?thesis using False by (simp add: snapshot_read_def)
qed

lemma read_at_app_newer: "\<forall>v \<in> set us. t < tv_create_ts v \<Longrightarrow> read_at t (us @ c) = read_at t c"
  by (induction us) auto

lemma read_at_Some: "read_at t c = Some v \<Longrightarrow> v \<in> set c \<and> tv_create_ts v \<le> t \<and> \<not> tv_is_deleted v"
  by (induction c) (auto split: if_splits)

lemma version_count_loop: "version_count_loop k c = (if k < 1000 then min 1000 (k + length c) else k)"
  by (induction c arbitrary: k) auto

lemma get_version_count: "get_version_count c = min 1000 (length c)"
  by (simp add: get_version_count_def version_count_loop)

text \<open>For the version a chain makes visible, the three visibility tests of the code agree.\<close>

lemma visibility_tests_agree:
  assumes "tv_create_ts v \<noteq> INT32_MAX" "tv_expire_ts v \<noteq> INVALID_TIMESTAMP" "read_ts < INT32_MAX"
  shows "is_version_visible (Some v) tid read_ts = mvcc_is_visible (Some v) tid read_ts"
  using assms by (auto simp: is_version_visible_def mvcc_is_visible_def)

lemma chain_bound_hides:
  assumes "max_iterations \<le> length us" "\<forall>u \<in> set us. tv_txn_id u \<noteq> tid \<and> read_ts < tv_create_ts u"
  shows "find_visible_version read_ts tid (us @ c) = None"
proof -
  have "find_visible_loop k read_ts tid (us @ c) = None"
    if "k \<le> length us" "\<forall>u \<in> set us. tv_txn_id u \<noteq> tid \<and> read_ts < tv_create_ts u" for k
    using that
  proof (induction us arbitrary: k)
    case Nil
    then show ?case by (cases c) auto
  next
    case (Cons u us)
    then show ?case by (cases k) auto
  qed
  then show ?thesis using assms by (simp add: find_visible_version_def)
qed

end
