(* ===== verification/Txn_Defs.thy ===== *)
theory Txn_Defs
  imports Version_Chains
begin

text \<open>
  The data of a transaction (\<^verbatim>\<open>src/src/transaction/txn_defs.h\<close>,
  \<^verbatim>\<open>src/src/transaction/transaction.h\<close>): states, write records, lock identifiers
  and the \<^verbatim>\<open>Transaction\<close> object. The thread id is not modelled; the lock set is the list of its
  elements in iteration order, and the two index page sets, which only ever hold page pointers that
  are dropped at the end of the transaction, are lists of page identifiers.
\<close>

subsection \<open>Model\<close>

datatype TransactionState = TS_DEFAULT | GROWING | SHRINKING | COMMITTED | ABORTED

datatype IsolationLevel = READ_UNCOMMITTED | REPEATABLE_READ | READ_COMMITTED | SERIALIZABLE

datatype WType = INSERT_TUPLE | DELETE_TUPLE | UPDATE_TUPLE | IX_INSERT_TUPLE | IX_DELETE_TUPLE

record WriteRecord =
  wr_type :: WType
  wr_tab_name :: string
  wr_rid :: Rid
  wr_record :: bytes

datatype LockDataType = TABLE | RECORD

record LockDataId =
  ld_fd :: int
  ld_rid :: Rid
  ld_type :: LockDataType

definition LockDataId_table :: "int \<Rightarrow> LockDataId" where
  "LockDataId_table fd = \<lparr>ld_fd = fd, ld_rid = \<lparr>rid_page_no = -1, rid_slot_no = -1\<rparr>, ld_type = TABLE\<rparr>"

definition LockDataId_record :: "int \<Rightarrow> Rid \<Rightarrow> LockDataId" where
  "LockDataId_record fd rid = \<lparr>ld_fd = fd, ld_rid = rid, ld_type = RECORD\<rparr>"

text \<open>The 64-bit key \<^verbatim>\<open>LockDataId::Get\<close> that is hashed.\<close>

definition lock_data_key :: "LockDataId \<Rightarrow> 64 word" where
  "lock_data_key l =
     (case ld_type l of
        TABLE \<Rightarrow> word_of_int (ld_fd l)
      | RECORD \<Rightarrow> or (or (or (push_bit 63 (word_of_int 1)) (push_bit 31 (word_of_int (ld_fd l))))
                       (push_bit 16 (word_of_int (rid_page_no (ld_rid l)))))
                    (word_of_int (rid_slot_no (ld_rid l))))"

record Transaction =
  txn_mode :: bool
  txn_state :: TransactionState
  isolation_level :: IsolationLevel
  txn_prev_lsn :: lsn
  the_txn_id :: txn_id
  start_ts :: "timestamp option"
  read_ts :: timestamp
  commit_ts :: timestamp
  undo_logs :: "UndoRecord list"
  txn_snapshot :: "Snapshot option"
  write_set :: "WriteRecord list"
  lock_set :: "LockDataId list"
  index_latch_page_set :: "PageId list"
  index_deleted_page_set :: "PageId list"

definition new_transaction :: "txn_id \<Rightarrow> IsolationLevel \<Rightarrow> Transaction" where
  "new_transaction tid level =
     \<lparr>txn_mode = False, txn_state = TS_DEFAULT, isolation_level = level, txn_prev_lsn = INVALID_LSN,
      the_txn_id = tid, start_ts = None, read_ts = INVALID_TIMESTAMP, commit_ts = INVALID_TIMESTAMP,
      undo_logs = [], txn_snapshot = None, write_set = [], lock_set = [],
      index_latch_page_set = [], index_deleted_page_set = []\<rparr>"

definition txn_is_committed :: "Transaction \<Rightarrow> bool" where
  "txn_is_committed t \<longleftrightarrow> commit_ts t \<noteq> INVALID_TIMESTAMP"

definition txn_is_active :: "Transaction \<Rightarrow> bool" where
  "txn_is_active t \<longleftrightarrow> txn_state t = GROWING \<or> txn_state t = SHRINKING"

definition add_undo_log :: "UndoRecord \<Rightarrow> Transaction \<Rightarrow> Transaction" where
  "add_undo_log u t = t\<lparr>undo_logs := undo_logs t @ [u]\<rparr>"

definition append_write_record :: "WriteRecord \<Rightarrow> Transaction \<Rightarrow> Transaction" where
  "append_write_record w t = t\<lparr>write_set := write_set t @ [w]\<rparr>"

definition lock_set_insert :: "LockDataId \<Rightarrow> Transaction \<Rightarrow> Transaction" where
  "lock_set_insert l t = (if l \<in> set (lock_set t) then t else t\<lparr>lock_set := lock_set t @ [l]\<rparr>)"

definition lock_set_erase :: "LockDataId \<Rightarrow> Transaction \<Rightarrow> Transaction" where
  "lock_set_erase l t = t\<lparr>lock_set := removeAll l (lock_set t)\<rparr>"

text \<open>\<^verbatim>\<open>Transaction::commit\<close>: the loop over the write set has an empty body.\<close>

definition txn_commit :: "Transaction \<Rightarrow> Transaction" where
  "txn_commit t = t\<lparr>txn_state := COMMITTED\<rparr>"

lemma lock_set_simps [simp]:
  "set (lock_set (lock_set_insert l t)) = insert l (set (lock_set t))"
  "set (lock_set (lock_set_erase l t)) = set (lock_set t) - {l}"
  "the_txn_id (lock_set_insert l t) = the_txn_id t"
  "the_txn_id (lock_set_erase l t) = the_txn_id t"
  "txn_state (lock_set_insert l t) = txn_state t"
  "txn_state (lock_set_erase l t) = txn_state t"
  by (auto simp: lock_set_insert_def lock_set_erase_def)

lemma LockDataId_table_record [simp]:
  "LockDataId_table fd \<noteq> LockDataId_record fd' rid"
  "LockDataId_table fd = LockDataId_table fd' \<longleftrightarrow> fd = fd'"
  "LockDataId_record fd rid = LockDataId_record fd' rid' \<longleftrightarrow> fd = fd' \<and> rid = rid'"
  by (auto simp: LockDataId_table_def LockDataId_record_def)

end
