(* ===== verification/Mvcc_Manager.thy ===== *)
theory Mvcc_Manager
  imports Txn_Defs Rm_File "HOL-Library.AList"
begin

text \<open>
  The version manager (\<^verbatim>\<open>src/src/transaction/mvcc_manager.h\<close>, \<^verbatim>\<open>mvcc_manager.cpp\<close>): the version chains of
  all rows under string keys, and what a transaction does to them: write a version, read, commit,
  roll back. Each public call holds \<^verbatim>\<open>version_chains_mutex_\<close> for its whole body.

  The transaction pointer of a call is not null (each call returns at once on a null pointer). The
  storage manager is a list of the open tables with their record files, in the order
  \<^verbatim>\<open>fhs_\<close> is iterated, or \<^term>\<open>None\<close> when it is not set. \<^verbatim>\<open>check_tuple_value_conflict_for_insert\<close> is never
  called and not modelled.
\<close>

subsection \<open>Keys\<close>

definition digit_char :: "nat \<Rightarrow> char" where
  "digit_char n = char_of (48 + n)"

fun nat_string :: "nat \<Rightarrow> string" where
  "nat_string n = (if n < 10 then [digit_char n] else nat_string (n div 10) @ [digit_char (n mod 10)])"

declare nat_string.simps [simp del]

text \<open>\<^verbatim>\<open>std::to_string\<close> and \<^verbatim>\<open>std::stoi\<close>; \<^term>\<open>None\<close> is the exception \<^verbatim>\<open>stoi\<close> throws.\<close>

definition to_string :: "int \<Rightarrow> string" where
  "to_string i = (if i < 0 then CHR ''-'' # nat_string (nat (- i)) else nat_string (nat i))"

definition is_digit :: "char \<Rightarrow> bool" where
  "is_digit c \<longleftrightarrow> 48 \<le> (of_char c :: nat) \<and> (of_char c :: nat) \<le> 57"

definition digits_value :: "string \<Rightarrow> nat" where
  "digits_value s = foldl (\<lambda>a c. 10 * a + (of_char c - 48)) 0 s"

definition is_space :: "char \<Rightarrow> bool" where
  "is_space c \<longleftrightarrow> c = CHR '' '' \<or> (9 \<le> (of_char c :: nat) \<and> (of_char c :: nat) \<le> 13)"

definition parse_unsigned :: "string \<Rightarrow> int option" where
  "parse_unsigned s = (let ds = takeWhile is_digit s in if ds = [] then None else Some (int (digits_value ds)))"

definition stoi :: "string \<Rightarrow> int option" where
  "stoi s =
     (case (case dropWhile is_space s of
              [] \<Rightarrow> None
            | c # cs \<Rightarrow> if c = CHR ''-'' then map_option uminus (parse_unsigned cs)
                        else if c = CHR ''+'' then parse_unsigned cs else parse_unsigned (c # cs)) of
        None \<Rightarrow> None
      | Some i \<Rightarrow> if int32 i then Some i else None)"

definition rid_to_key :: "Rid \<Rightarrow> string \<Rightarrow> string" where
  "rid_to_key rid table_name =
     table_name @ ''_'' @ to_string (rid_page_no rid) @ ''_'' @ to_string (rid_slot_no rid)"

text \<open>The position of the last occurrence of a character.\<close>

fun find_last_of :: "char \<Rightarrow> string \<Rightarrow> nat option" where
  "find_last_of c [] = None"
| "find_last_of c (x # xs) =
     (case find_last_of c xs of Some i \<Rightarrow> Some (Suc i) | None \<Rightarrow> if x = c then Some 0 else None)"

text \<open>The record id \<^verbatim>\<open>persist_committed_version\<close> recovers from a key. When the last underscore is at
  position 0 the second search starts at the wrapped-around position, that is, over the whole key.\<close>

definition key_to_rid :: "string \<Rightarrow> Rid option" where
  "key_to_rid key =
     (case find_last_of CHR ''_'' key of
        None \<Rightarrow> None
      | Some last_underscore \<Rightarrow>
          (case find_last_of CHR ''_'' (if last_underscore = 0 then key else take last_underscore key) of
             None \<Rightarrow> None
           | Some second \<Rightarrow>
               (case stoi (take (last_underscore - second - 1) (drop (second + 1) key)) of
                  None \<Rightarrow> None
                | Some p \<Rightarrow>
                    (case stoi (drop (last_underscore + 1) key) of
                       None \<Rightarrow> None
                     | Some s \<Rightarrow> Some \<lparr>rid_page_no = p, rid_slot_no = s\<rparr>))))"

subsection \<open>The manager\<close>

type_synonym storage = "(string \<times> rm_file) list"

record mvcc_manager =
  version_chains :: "string \<rightharpoonup> version_chain"
  read_sets :: "string \<rightharpoonup> txn_id set"

definition mvcc_new :: mvcc_manager where
  "mvcc_new = \<lparr>version_chains = Map.empty, read_sets = Map.empty\<rparr>"

definition set_chain :: "string \<Rightarrow> version_chain \<Rightarrow> mvcc_manager \<Rightarrow> mvcc_manager" where
  "set_chain key c m = m\<lparr>version_chains := (version_chains m)(key \<mapsto> c)\<rparr>"

definition get_version_chain :: "Rid \<Rightarrow> string \<Rightarrow> mvcc_manager \<Rightarrow> version_chain option" where
  "get_version_chain rid table_name m = version_chains m (rid_to_key rid table_name)"

definition create_version_chain :: "Rid \<Rightarrow> string \<Rightarrow> mvcc_manager \<Rightarrow> mvcc_manager" where
  "create_version_chain rid table_name m = set_chain (rid_to_key rid table_name) [] m"

definition get_or_create_version_chain :: "Rid \<Rightarrow> string \<Rightarrow> mvcc_manager \<Rightarrow> version_chain \<times> mvcc_manager" where
  "get_or_create_version_chain rid table_name m =
     (case get_version_chain rid table_name m of
        Some c \<Rightarrow> (c, m)
      | None \<Rightarrow> ([], create_version_chain rid table_name m))"

text \<open>The effect of the write calls on the chain itself: the answer and the new chain.\<close>

definition chain_insert :: "bytes \<Rightarrow> txn_id \<Rightarrow> version_chain \<Rightarrow> bool \<times> version_chain" where
  "chain_insert data tid c =
     (case c of
        v # c' \<Rightarrow>
          (if tv_txn_id v = tid \<and> tv_create_ts v = INVALID_TIMESTAMP then
             (if tv_is_deleted v then (True, v\<lparr>tv_data := data, tv_is_deleted := False\<rparr> # c') else (False, c))
           else if tv_txn_id v \<noteq> tid \<and> tv_create_ts v = INVALID_TIMESTAMP then (False, c)
           else (True, add_version (new_tuple_version data tid) c))
      | [] \<Rightarrow> (True, add_version (new_tuple_version data tid) []))"

definition insert_version ::
  "Rid \<Rightarrow> bytes \<Rightarrow> string \<Rightarrow> Transaction \<Rightarrow> mvcc_manager \<Rightarrow> bool \<times> mvcc_manager" where
  "insert_version rid data table_name t m =
     (case get_or_create_version_chain rid table_name m of
        (c, m1) \<Rightarrow>
          (case chain_insert data (the_txn_id t) c of
             (b, c') \<Rightarrow> (b, set_chain (rid_to_key rid table_name) c' m1)))"

text \<open>An update that adds a version records the version it saw in the undo log.\<close>

definition chain_update ::
  "bytes \<Rightarrow> txn_id \<Rightarrow> timestamp \<Rightarrow> version_chain \<Rightarrow> bool \<times> version_chain \<times> TupleVersion option option" where
  "chain_update data tid rts c =
     (case c of
        v # c' \<Rightarrow>
          (if tv_txn_id v \<noteq> tid \<and> tv_create_ts v = INVALID_TIMESTAMP then (False, c, None)
           else if tv_txn_id v = tid \<and> tv_create_ts v = INVALID_TIMESTAMP then
             (if tv_is_deleted v then (False, c, None) else (True, v\<lparr>tv_data := data\<rparr> # c', None))
           else
             (case find_visible_version rts tid c of
                None \<Rightarrow> (False, c, None)
              | Some vis \<Rightarrow>
                  if tv_is_deleted vis then (False, c, None)
                  else (True, add_version (new_tuple_version data tid) c, Some (Some vis))))
      | [] \<Rightarrow> (True, add_version (new_tuple_version data tid) [], Some None))"

definition update_version ::
  "Rid \<Rightarrow> bytes \<Rightarrow> string \<Rightarrow> Transaction \<Rightarrow> mvcc_manager \<Rightarrow> bool \<times> Transaction \<times> mvcc_manager" where
  "update_version rid new_data table_name t m =
     (case get_or_create_version_chain rid table_name m of
        (c, m1) \<Rightarrow>
          (case chain_update new_data (the_txn_id t) (read_ts t) c of
             (b, c', undo) \<Rightarrow>
               (b, (case undo of
                      None \<Rightarrow> t
                    | Some old \<Rightarrow> add_undo_log \<lparr>undo_type = UNDO_UPDATE, undo_rid = rid, undo_old_version = old,
                                               undo_table_name = table_name\<rparr> t),
                set_chain (rid_to_key rid table_name) c' m1)))"

definition chain_delete ::
  "txn_id \<Rightarrow> timestamp \<Rightarrow> version_chain \<Rightarrow> (version_chain \<times> TupleVersion) option" where
  "chain_delete tid rts c =
     (if has_write_conflict tid c then None
      else case find_version_for_delete rts tid c of
             None \<Rightarrow> None
           | Some vis \<Rightarrow>
               if tv_is_deleted vis then None
               else if \<exists>v \<in> set c. tv_txn_id v = tid \<and> tv_is_deleted v then None
               else Some (add_version ((new_tuple_version (tv_data vis) tid)\<lparr>tv_is_deleted := True\<rparr>) c, vis))"

definition initial_version :: "bytes \<Rightarrow> TupleVersion" where
  "initial_version data = (new_tuple_version data 0)\<lparr>tv_create_ts := 0\<rparr>"

text \<open>A row without a chain gets one holding its stored bytes as the version of transaction 0 at time
  0; the answer is \<^term>\<open>None\<close> when there is no such row.\<close>

definition original_chain ::
  "Rid \<Rightarrow> string \<Rightarrow> storage option \<Rightarrow> version_chain option \<times> storage option" where
  "original_chain rid table_name st =
     (case st of
        None \<Rightarrow> (None, None)
      | Some fhs \<Rightarrow>
          (case map_of fhs table_name of
             None \<Rightarrow> (None, st)
           | Some fh \<Rightarrow>
               (case get_record rid fh of
                  (Inl _, fh') \<Rightarrow> (None, Some (AList.update table_name fh' fhs))
                | (Inr data, fh') \<Rightarrow>
                    (Some (add_version (initial_version data) []), Some (AList.update table_name fh' fhs)))))"

definition delete_version ::
  "Rid \<Rightarrow> string \<Rightarrow> Transaction \<Rightarrow> mvcc_manager \<times> storage option
     \<Rightarrow> bool \<times> Transaction \<times> mvcc_manager \<times> storage option" where
  "delete_version rid table_name t ms =
     (case ms of (m, st) \<Rightarrow>
       (case (case get_version_chain rid table_name m of
                Some c \<Rightarrow> (Some c, m, st)
              | None \<Rightarrow>
                  (case original_chain rid table_name st of
                     (None, st') \<Rightarrow> (None, m, st')
                   | (Some c, st') \<Rightarrow> (Some c, set_chain (rid_to_key rid table_name) c m, st'))) of
          (None, m1, st1) \<Rightarrow> (False, t, m1, st1)
        | (Some c, m1, st1) \<Rightarrow>
            (case chain_delete (the_txn_id t) (read_ts t) c of
               None \<Rightarrow> (False, t, m1, st1)
             | Some (c', vis) \<Rightarrow>
                 (True,
                  add_undo_log \<lparr>undo_type = UNDO_DELETE, undo_rid = rid, undo_old_version = Some vis,
                                undo_table_name = table_name\<rparr> t,
                  set_chain (rid_to_key rid table_name) c' m1, st1))))"

definition read_version :: "Rid \<Rightarrow> string \<Rightarrow> Transaction \<Rightarrow> mvcc_manager \<Rightarrow> TupleVersion option" where
  "read_version rid table_name t m =
     (case get_version_chain rid table_name m of
        None \<Rightarrow> None
      | Some [] \<Rightarrow> None
      | Some c \<Rightarrow> find_visible_version (read_ts t) (the_txn_id t) c)"

fun reconstruct_loop :: "nat \<Rightarrow> timestamp \<Rightarrow> txn_id \<Rightarrow> version_chain \<Rightarrow> bytes option" where
  "reconstruct_loop k target_ts tid [] = None"
| "reconstruct_loop 0 target_ts tid (v # c) = None"
| "reconstruct_loop (Suc k) target_ts tid (v # c) =
     (if tv_txn_id v = tid then (if tv_is_deleted v then None else Some (tv_data v))
      else if tv_create_ts v \<noteq> INVALID_TIMESTAMP \<and> tv_create_ts v \<noteq> INT32_MAX \<and> tv_create_ts v \<le> target_ts \<and>
              (tv_expire_ts v = INT32_MAX \<or> target_ts < tv_expire_ts v) \<and> \<not> tv_is_deleted v
           then Some (tv_data v)
      else reconstruct_loop k target_ts tid c)"

definition reconstruct_version :: "Rid \<Rightarrow> timestamp \<Rightarrow> txn_id \<Rightarrow> string \<Rightarrow> mvcc_manager \<Rightarrow> bytes option" where
  "reconstruct_version rid target_ts tid table_name m =
     (case get_version_chain rid table_name m of
        None \<Rightarrow> None
      | Some c \<Rightarrow> reconstruct_loop max_iterations target_ts tid c)"

definition cleanup_read_sets :: "txn_id \<Rightarrow> mvcc_manager \<Rightarrow> mvcc_manager" where
  "cleanup_read_sets tid m =
     m\<lparr>read_sets := (\<lambda>key. case read_sets m key of
                         None \<Rightarrow> None
                       | Some readers \<Rightarrow> (let r = readers - {tid} in if r = {} then None else Some r))\<rparr>"

definition is_tuple_write :: "WType \<Rightarrow> bool" where
  "is_tuple_write w \<longleftrightarrow> w = INSERT_TUPLE \<or> w = UPDATE_TUPLE \<or> w = DELETE_TUPLE"

definition target_keys :: "Transaction \<Rightarrow> string list" where
  "target_keys t = remdups (map (\<lambda>w. rid_to_key (wr_rid w) (wr_tab_name w))
     (filter (\<lambda>w. is_tuple_write (wr_type w)) (write_set t)))"

text \<open>The walk of \<^verbatim>\<open>commit_chain_versions\<close>: the chain from \<^verbatim>\<open>current\<close> and the last version committed so far.\<close>

definition expire_prev :: "timestamp \<Rightarrow> version_chain \<Rightarrow> version_chain" where
  "expire_prev ts c =
     (case c of
        [] \<Rightarrow> []
      | p # c' \<Rightarrow> if tv_create_ts p \<noteq> INVALID_TIMESTAMP \<and> tv_expire_ts p = INT32_MAX
                  then p\<lparr>tv_expire_ts := ts\<rparr> # c' else c)"

lemma length_expire_prev [simp]: "length (expire_prev ts c) = length c"
  by (simp add: expire_prev_def split: list.split)

function commit_walk ::
  "txn_id \<Rightarrow> timestamp \<Rightarrow> TupleVersion option \<Rightarrow> version_chain \<Rightarrow> version_chain \<times> TupleVersion option" where
  "commit_walk tid ts done [] = ([], done)"
| "commit_walk tid ts done (v # c) =
     (if tv_txn_id v = tid \<and> tv_create_ts v = INVALID_TIMESTAMP then
        (let v' = v\<lparr>tv_create_ts := ts\<rparr>; r = commit_walk tid ts (Some v') (expire_prev ts c)
         in (v' # fst r, snd r))
      else (let r = commit_walk tid ts done c in (v # fst r, snd r)))"
  by pat_completeness auto
termination by (relation "measure (\<lambda>(_, _, _, c). length c)") auto

text \<open>\<^verbatim>\<open>SmManager::persist_mvcc_version\<close> asks the tables in turn whether they hold the record and then does
  nothing with the answer; an exception ends the search and is swallowed by the caller.\<close>

fun persist_mvcc_version :: "Rid \<Rightarrow> storage \<Rightarrow> storage" where
  "persist_mvcc_version rid [] = []"
| "persist_mvcc_version rid ((n, fh) # fhs) =
     (case is_record rid fh of
        (Inr False, fh') \<Rightarrow> (n, fh') # persist_mvcc_version rid fhs
      | (_, fh') \<Rightarrow> (n, fh') # fhs)"

definition persist_committed_version :: "string \<Rightarrow> storage \<Rightarrow> storage" where
  "persist_committed_version key fhs =
     (case key_to_rid key of None \<Rightarrow> fhs | Some rid \<Rightarrow> persist_mvcc_version rid fhs)"

definition commit_chain_versions ::
  "txn_id \<Rightarrow> timestamp \<Rightarrow> string \<Rightarrow> mvcc_manager \<times> storage option \<Rightarrow> mvcc_manager \<times> storage option" where
  "commit_chain_versions tid ts key ms =
     (case ms of (m, st) \<Rightarrow>
       (case version_chains m key of
          None \<Rightarrow> (m, st)
        | Some c \<Rightarrow>
            (case commit_walk tid ts None c of
               (c', done) \<Rightarrow>
                 (set_chain key c' m,
                  (case (done, st) of (Some _, Some fhs) \<Rightarrow> Some (persist_committed_version key fhs) | _ \<Rightarrow> st)))))"

definition commit_transaction ::
  "Transaction \<Rightarrow> mvcc_manager \<times> storage option \<Rightarrow> mvcc_manager \<times> storage option" where
  "commit_transaction t ms =
     (case foldl (\<lambda>s key. commit_chain_versions (the_txn_id t) (commit_ts t) key s) ms (target_keys t) of
        (m, st) \<Rightarrow> (cleanup_read_sets (the_txn_id t) m, st))"

fun rollback_walk :: "txn_id \<Rightarrow> version_chain \<Rightarrow> version_chain \<times> nat" where
  "rollback_walk tid [] = ([], 0)"
| "rollback_walk tid (v # c) =
     (let r = rollback_walk tid c
      in if tv_txn_id v = tid \<and> tv_create_ts v = INVALID_TIMESTAMP then (fst r, Suc (snd r))
         else (v # fst r, snd r))"

definition rollback_chain_versions :: "txn_id \<Rightarrow> string \<Rightarrow> mvcc_manager \<Rightarrow> mvcc_manager" where
  "rollback_chain_versions tid key m =
     (case version_chains m key of
        None \<Rightarrow> m
      | Some c \<Rightarrow> set_chain key (fst (rollback_walk tid c)) m)"

definition remove_empty_chain :: "string \<Rightarrow> mvcc_manager \<Rightarrow> mvcc_manager" where
  "remove_empty_chain key m =
     (if version_chains m key = Some [] then m\<lparr>version_chains := (version_chains m)(key := None)\<rparr> else m)"

definition rollback_transaction :: "Transaction \<Rightarrow> mvcc_manager \<Rightarrow> mvcc_manager" where
  "rollback_transaction t m =
     cleanup_read_sets (the_txn_id t)
       (foldl (\<lambda>m key. remove_empty_chain key m)
          (foldl (\<lambda>m key. rollback_chain_versions (the_txn_id t) key m) m (target_keys t))
          (target_keys t))"

definition is_prefix :: "string \<Rightarrow> string \<Rightarrow> bool" where
  "is_prefix p s \<longleftrightarrow> take (length p) s = p"

fun is_infix :: "string \<Rightarrow> string \<Rightarrow> bool" where
  "is_infix p [] \<longleftrightarrow> p = []"
| "is_infix p (x # s) \<longleftrightarrow> is_prefix p (x # s) \<or> is_infix p s"

definition clears_key :: "string \<Rightarrow> string \<Rightarrow> bool" where
  "clears_key table_name key \<longleftrightarrow> is_prefix (table_name @ ''_'') key \<or> is_prefix ''_'' key \<and> \<not> is_infix table_name key"

definition clear_table_versions :: "string \<Rightarrow> mvcc_manager \<Rightarrow> mvcc_manager" where
  "clear_table_versions table_name m =
     m\<lparr>version_chains := (\<lambda>key. if clears_key table_name key then None else version_chains m key)\<rparr>"

subsection \<open>Keys are injective\<close>

lemma of_char_digit: "n < 10 \<Longrightarrow> of_char (digit_char n) = 48 + n"
  by (simp add: digit_char_def)

lemma is_digit_digit_char: "n < 10 \<Longrightarrow> is_digit (digit_char n)"
  by (simp add: is_digit_def of_char_digit)

lemma nat_string_digits: "c \<in> set (nat_string n) \<Longrightarrow> is_digit c"
proof (induction n rule: nat_string.induct)
  case (1 n)
  then show ?case
    by (subst (asm) (2) nat_string.simps) (auto simp: is_digit_digit_char split: if_splits)
qed

lemma nat_string_nonempty: "nat_string n \<noteq> []"
  by (subst nat_string.simps) simp

lemma digits_value_nat_string: "digits_value (nat_string n) = n"
proof (induction n rule: nat_string.induct)
  case (1 n)
  show ?case
  proof (cases "n < 10")
    case True
    then show ?thesis by (subst nat_string.simps) (simp add: digits_value_def of_char_digit)
  next
    case False
    then have "digits_value (nat_string n) = 10 * digits_value (nat_string (n div 10)) + n mod 10"
      by (subst nat_string.simps) (simp add: digits_value_def of_char_digit)
    then show ?thesis using 1 False by simp
  qed
qed

lemma parse_nat_string: "parse_unsigned (nat_string n) = Some (int n)"
proof -
  have d: "takeWhile is_digit (nat_string n) = nat_string n"
    by (rule takeWhile_eq_all_conv [THEN iffD2]) (simp add: nat_string_digits)
  show ?thesis
    unfolding parse_unsigned_def Let_def d by (simp add: nat_string_nonempty digits_value_nat_string)
qed

lemma is_digit_other: "is_digit c \<Longrightarrow> c \<noteq> CHR ''-'' \<and> c \<noteq> CHR ''+'' \<and> c \<noteq> CHR ''_'' \<and> \<not> is_space c"
  by (auto simp: is_digit_def is_space_def)

lemma stoi_to_string: "int32 i \<Longrightarrow> stoi (to_string i) = Some i"
proof -
  assume i: "int32 i"
  obtain c cs where n: "nat_string (nat i) = c # cs" using nat_string_nonempty by (cases "nat_string (nat i)") auto
  then have "is_digit c" using nat_string_digits [of c "nat i"] by simp
  then show ?thesis
    using i is_digit_other [of c] n parse_nat_string [of "nat i"] parse_nat_string [of "nat (- i)"]
    by (auto simp: stoi_def to_string_def is_space_def)
qed

lemma to_string_no_underscore: "CHR ''_'' \<notin> set (to_string i)"
  using nat_string_digits is_digit_other by (auto simp: to_string_def)

lemma find_last_of_None: "find_last_of c s = None \<longleftrightarrow> c \<notin> set s"
  by (induction s) (auto split: option.split)

lemma find_last_of_append: "c \<notin> set b \<Longrightarrow> find_last_of c (a @ c # b) = Some (length a)"
  by (induction a) (auto simp: find_last_of_None split: option.split)

lemma key_to_rid_key:
  assumes "int32 (rid_page_no rid)" "int32 (rid_slot_no rid)"
  shows "key_to_rid (rid_to_key rid tab) = Some rid"
proof -
  let ?p = "to_string (rid_page_no rid)" and ?s = "to_string (rid_slot_no rid)"
  have k: "rid_to_key rid tab = (tab @ CHR ''_'' # ?p) @ CHR ''_'' # ?s" by (simp add: rid_to_key_def)
  have l: "find_last_of CHR ''_'' (rid_to_key rid tab) = Some (length tab + 1 + length ?p)"
    unfolding k by (subst find_last_of_append) (auto simp: to_string_no_underscore)
  have t: "take (length tab + 1 + length ?p) (rid_to_key rid tab) = tab @ CHR ''_'' # ?p" by (simp add: k)
  have s: "find_last_of CHR ''_'' (tab @ CHR ''_'' # ?p) = Some (length tab)"
    by (rule find_last_of_append) (rule to_string_no_underscore)
  have d: "take (length tab + 1 + length ?p - length tab - 1) (drop (length tab + 1) (rid_to_key rid tab)) = ?p"
    "drop (length tab + 1 + length ?p + 1) (rid_to_key rid tab) = ?s"
    by (simp_all add: k)
  show ?thesis
    unfolding key_to_rid_def l option.case using t s d assms by (simp add: stoi_to_string)
qed

lemma append_Cons_unique:
  fixes c :: char
  shows "c \<notin> set b \<Longrightarrow> c \<notin> set b' \<Longrightarrow> a @ c # b = a' @ c # b' \<longleftrightarrow> a = a' \<and> b = b'"
proof -
  assume b: "c \<notin> set b" "c \<notin> set b'"
  have "a = a' \<and> b = b'" if e: "a @ c # b = a' @ c # b'"
  proof -
    have "length a = length a'"
      using find_last_of_append [OF b(1), of a] find_last_of_append [OF b(2), of a'] e by simp
    then show ?thesis using e by simp
  qed
  then show ?thesis by auto
qed

lemma to_string_inj: "int32 i \<Longrightarrow> int32 j \<Longrightarrow> to_string i = to_string j \<longleftrightarrow> i = j"
  using stoi_to_string by (metis option.inject)

lemma rid_to_key_inj:
  assumes "int32 (rid_page_no rid)" "int32 (rid_slot_no rid)" "int32 (rid_page_no rid')" "int32 (rid_slot_no rid')"
  shows "rid_to_key rid tab = rid_to_key rid' tab' \<longleftrightarrow> rid = rid' \<and> tab = tab'"
proof -
  have k: "rid_to_key r tb = (tb @ CHR ''_'' # to_string (rid_page_no r)) @ CHR ''_'' # to_string (rid_slot_no r)"
    for r :: Rid and tb by (simp add: rid_to_key_def)
  show ?thesis
    unfolding k append_Cons_unique [OF to_string_no_underscore to_string_no_underscore]
    using assms by (auto simp: to_string_inj)
qed

subsection \<open>The walks on a chain\<close>

definition stamp :: "timestamp \<Rightarrow> version_chain \<Rightarrow> version_chain" where
  "stamp ts us = map (\<lambda>u. u\<lparr>tv_create_ts := ts\<rparr>) us"

lemma rollback_walk_filter:
  "fst (rollback_walk tid c) = filter (\<lambda>v. \<not> (tv_txn_id v = tid \<and> is_uncommitted v)) c"
  by (induction c) (auto simp: Let_def is_uncommitted_def)

lemma commit_walk_none:
  "\<forall>v \<in> set c. \<not> (tv_txn_id v = tid \<and> is_uncommitted v) \<Longrightarrow> commit_walk tid ts d c = (c, d)"
  by (induction c) (auto simp: Let_def is_uncommitted_def)

lemma expire_prev_keeps: "v \<in> set (expire_prev ts c) \<Longrightarrow>
    \<exists>w \<in> set c. tv_data v = tv_data w \<and> tv_txn_id v = tv_txn_id w \<and> tv_create_ts v = tv_create_ts w \<and>
      tv_is_deleted v = tv_is_deleted w"
  by (cases c) (auto simp: expire_prev_def split: if_splits intro: bexI)

lemma commit_walk_own:
  assumes "\<forall>u \<in> set us. tv_txn_id u = tid \<and> is_uncommitted u" "\<forall>v \<in> set cs. \<not> is_uncommitted v"
  shows "fst (commit_walk tid ts d (us @ cs)) = stamp ts us @ (if us = [] then cs else expire_prev ts cs)"
  using assms(1)
proof (induction us arbitrary: d)
  case Nil
  then show ?case using assms(2) commit_walk_none [of cs tid ts d] by (auto simp: stamp_def)
next
  case (Cons u us)
  show ?case
  proof (cases us)
    case Nil
    have "\<forall>v \<in> set (expire_prev ts cs). \<not> is_uncommitted v"
      using assms(2) expire_prev_keeps [of _ ts cs] by (fastforce simp: is_uncommitted_def)
    then show ?thesis using Cons.prems Nil commit_walk_none [of "expire_prev ts cs" tid ts]
      by (simp add: is_uncommitted_def Let_def stamp_def)
  next
    case (Cons w ws)
    then have "expire_prev ts (us @ cs) = us @ cs"
      using Cons.prems by (simp add: expire_prev_def is_uncommitted_def)
    then show ?thesis using Cons.prems Cons.IH Cons by (simp add: is_uncommitted_def Let_def stamp_def)
  qed
qed

text \<open>What the two walks make of a chain that satisfies the invariant.\<close>

lemma pending_all: "chain_ok c \<Longrightarrow> owner_of c = Some tid \<Longrightarrow> u \<in> set (pending c) \<Longrightarrow> tv_txn_id u = tid \<and> is_uncommitted u"
  using owner_pending set_pending by fastforce

lemma committed_all: "chain_ok c \<Longrightarrow> v \<in> set (committed c) \<Longrightarrow> \<not> is_uncommitted v"
  by (auto simp: chain_ok_def dest: committed_ok_not_uncommitted)

lemma uncommitted_own_iff: "chain_ok c \<Longrightarrow> owner_of c \<noteq> Some tid \<Longrightarrow> \<forall>v \<in> set c. \<not> (tv_txn_id v = tid \<and> is_uncommitted v)"
  using chain_split [of c] owner_pending committed_all by (metis Un_iff set_append)

lemma commit_walk_owner:
  assumes "chain_ok c" "owner_of c = Some tid"
  shows "fst (commit_walk tid ts d c) = stamp ts (pending c) @ expire_prev ts (committed c)"
proof -
  have "pending c \<noteq> []" using assms(2) by (auto simp: owner_of_def)
  then show ?thesis
    using commit_walk_own [of "pending c" tid "committed c" ts d] pending_all [OF assms] committed_all [OF assms(1)]
      chain_split [of c] by auto
qed

lemma commit_walk_other: "chain_ok c \<Longrightarrow> owner_of c \<noteq> Some tid \<Longrightarrow> commit_walk tid ts d c = (c, d)"
  by (rule commit_walk_none) (rule uncommitted_own_iff)

lemma rollback_walk_owner:
  assumes "chain_ok c" "owner_of c = Some tid"
  shows "fst (rollback_walk tid c) = committed c"
proof -
  have "filter (\<lambda>v. \<not> (tv_txn_id v = tid \<and> is_uncommitted v)) (pending c @ committed c) = committed c"
    using pending_all [OF assms] committed_all [OF assms(1)] by (simp add: filter_empty_conv filter_id_conv)
  then show ?thesis using chain_split [of c] by (simp add: rollback_walk_filter)
qed

lemma rollback_walk_other: "chain_ok c \<Longrightarrow> owner_of c \<noteq> Some tid \<Longrightarrow> fst (rollback_walk tid c) = c"
  unfolding rollback_walk_filter by (rule filter_True) (use uncommitted_own_iff in blast)

text \<open>The invariant is kept.\<close>

lemma committed_ok_expire_prev:
  assumes "committed_ok INT32_MAX cs" "\<forall>v \<in> set cs. tv_create_ts v \<le> ts"
  shows "committed_ok ts (expire_prev ts cs)"
  using assms by (cases cs) (auto simp: expire_prev_def INVALID_TIMESTAMP_def)

lemma committed_ok_stamp:
  assumes "\<forall>u \<in> set us. tv_expire_ts u = INT32_MAX" "us \<noteq> []" "committed_ok ts cs" "0 \<le> ts" "ts < INT32_MAX" "ts \<le> t"
  shows "committed_ok t (stamp ts us @ cs)"
  using assms
proof (induction us arbitrary: t)
  case (Cons u us)
  then show ?case by (cases "us = []") (auto simp: stamp_def)
qed simp

lemma chain_ok_committed: "committed_ok INT32_MAX c \<Longrightarrow> chain_ok c"
  by (simp add: chain_ok_def pending_committed_ok committed_id pending_ok_def)

lemma chain_ok_commit:
  assumes "chain_ok c" "\<forall>v \<in> set (committed c). tv_create_ts v \<le> ts" "0 \<le> ts" "ts < INT32_MAX"
  shows "chain_ok (fst (commit_walk tid ts d c))"
proof (cases "owner_of c = Some tid")
  case True
  have "committed_ok INT32_MAX (stamp ts (pending c) @ expire_prev ts (committed c))"
    using assms True
    by (intro committed_ok_stamp committed_ok_expire_prev)
      (auto simp: chain_ok_def pending_ok_def owner_of_def)
  then show ?thesis using commit_walk_owner [OF assms(1) True] by (simp add: chain_ok_committed)
qed (use assms commit_walk_other in simp)

lemma chain_ok_committed_part: "chain_ok c \<Longrightarrow> chain_ok (committed c)"
  by (rule chain_ok_committed) (simp add: chain_ok_def)

lemma chain_ok_rollback: "chain_ok c \<Longrightarrow> chain_ok (fst (rollback_walk tid c))"
  by (cases "owner_of c = Some tid") (auto simp: rollback_walk_owner rollback_walk_other chain_ok_committed_part)

lemma chain_ok_add:
  assumes "chain_ok c" "is_uncommitted v" "tv_expire_ts v = INT32_MAX" "owner_of c = None \<or> owner_of c = Some (tv_txn_id v)"
  shows "chain_ok (v # c)"
proof -
  have "tv_txn_id u = tv_txn_id v" if "u \<in> set (pending c)" for u
    using owner_pending [OF assms(1) that] assms(4) by auto
  then show ?thesis using assms(1-3) by (auto simp: chain_ok_def pending_ok_def)
qed

lemma chain_ok_replace:
  assumes "chain_ok (v # c)" "is_uncommitted v" "is_uncommitted v'" "tv_expire_ts v' = tv_expire_ts v" "tv_txn_id v' = tv_txn_id v"
  shows "chain_ok (v' # c)"
  using assms by (auto simp: chain_ok_def pending_ok_def)

subsection \<open>What a call does to a chain\<close>

text \<open>A write by \<open>tid\<close> leaves the committed part alone and touches a chain only when no other
  transaction has a version pending on it.\<close>

definition written_by :: "txn_id \<Rightarrow> version_chain \<Rightarrow> version_chain \<Rightarrow> bool" where
  "written_by tid c c' \<longleftrightarrow> committed c' = committed c \<and> chain_ok c' \<and>
     (c' = c \<or> owner_of c' = Some tid \<and> (owner_of c = None \<or> owner_of c = Some tid))"

lemma written_by_refl: "chain_ok c \<Longrightarrow> written_by tid c c"
  by (simp add: written_by_def)

lemma owner_of_Cons: "owner_of (v # c) = (if is_uncommitted v then Some (tv_txn_id v) else None)"
  by (simp add: owner_of_def)

lemma owner_of_Nil [simp]: "owner_of [] = None"
  by (simp add: owner_of_def)

lemma new_version_simps [simp]:
  "is_uncommitted (new_tuple_version data tid)" "tv_expire_ts (new_tuple_version data tid) = INT32_MAX"
  "tv_txn_id (new_tuple_version data tid) = tid" "tv_data (new_tuple_version data tid) = data"
  "\<not> tv_is_deleted (new_tuple_version data tid)" "tv_create_ts (new_tuple_version data tid) = INVALID_TIMESTAMP"
  by (simp_all add: new_tuple_version_def is_uncommitted_def)

lemma written_by_add:
  assumes "chain_ok c" "owner_of c = None \<or> owner_of c = Some tid"
    "is_uncommitted v" "tv_expire_ts v = INT32_MAX" "tv_txn_id v = tid"
  shows "written_by tid c (v # c)"
  using assms chain_ok_add [of c v] by (simp add: written_by_def owner_of_Cons)

lemma written_by_replace:
  assumes "chain_ok (v # c)" "is_uncommitted v" "is_uncommitted v'" "tv_expire_ts v' = tv_expire_ts v"
    "tv_txn_id v' = tv_txn_id v" "tv_txn_id v = tid"
  shows "written_by tid (v # c) (v' # c)"
  using assms chain_ok_replace [of v c v'] by (simp add: written_by_def owner_of_Cons)

lemma chain_insert_written:
  assumes "chain_ok c" shows "written_by tid c (snd (chain_insert data tid c))"
proof (cases c)
  case Nil
  then show ?thesis using assms by (simp add: chain_insert_def add_version_def written_by_add)
next
  case (Cons v c')
  then show ?thesis
    using assms written_by_refl [OF assms]
      written_by_replace [of v c' "v\<lparr>tv_data := data, tv_is_deleted := False\<rparr>" tid]
      written_by_add [of c tid "new_tuple_version data tid"]
    by (auto simp: chain_insert_def add_version_def is_uncommitted_def owner_of_Cons)
qed

lemma chain_update_written:
  assumes "chain_ok c" shows "written_by tid c (fst (snd (chain_update data tid rts c)))"
proof (cases c)
  case Nil
  then show ?thesis using assms by (simp add: chain_update_def add_version_def written_by_add)
next
  case (Cons v c')
  then show ?thesis
    using assms written_by_refl [OF assms] written_by_replace [of v c' "v\<lparr>tv_data := data\<rparr>" tid]
      written_by_add [of c tid "new_tuple_version data tid"]
    by (auto simp: chain_update_def add_version_def is_uncommitted_def owner_of_Cons split: option.split)
qed

lemma chain_delete_written:
  assumes "chain_ok c" "chain_delete tid rts c = Some (c', vis)" shows "written_by tid c c'"
proof -
  have "c' = ((new_tuple_version (tv_data vis) tid)\<lparr>tv_is_deleted := True\<rparr>) # c" "\<not> has_write_conflict tid c"
    using assms(2) by (auto simp: chain_delete_def add_version_def split: if_splits option.splits)
  moreover have "owner_of c = None \<or> owner_of c = Some tid"
    using \<open>\<not> has_write_conflict tid c\<close>
    by (cases c) (auto simp: has_write_conflict_def get_head_def owner_of_Cons is_uncommitted_def)
  ultimately show ?thesis using assms(1)
    by (auto simp: is_uncommitted_def new_tuple_version_def intro!: written_by_add)
qed

text \<open>What a transaction \<open>tid\<close> with snapshot \<open>rts\<close> sees of a chain: the bytes of the version it reads.\<close>

definition seen :: "timestamp \<Rightarrow> txn_id \<Rightarrow> version_chain \<Rightarrow> bytes option" where
  "seen rts tid c = map_option tv_data (snapshot_read rts tid c)"

lemma seen_written: "written_by tid' c c' \<Longrightarrow> tid' \<noteq> tid \<Longrightarrow> seen rts tid c' = seen rts tid c"
  by (auto simp: written_by_def seen_def snapshot_read_def)

lemma read_at_expire_prev: "map_option tv_data (read_at rts (expire_prev ts cs)) = map_option tv_data (read_at rts cs)"
  by (cases cs) (auto simp: expire_prev_def)

lemma committed_all_id: "\<forall>v \<in> set c. \<not> is_uncommitted v \<Longrightarrow> committed c = c"
  by (cases c) auto

lemma committed_commit:
  assumes "chain_ok c" "owner_of c = Some tid" "\<forall>v \<in> set (committed c). tv_create_ts v \<le> ts" "0 \<le> ts" "ts < INT32_MAX"
  shows "committed (fst (commit_walk tid ts d c)) = stamp ts (pending c) @ expire_prev ts (committed c)"
    and "pending (fst (commit_walk tid ts d c)) = []"
proof -
  have "\<not> is_uncommitted v" if "v \<in> set (stamp ts (pending c) @ expire_prev ts (committed c))" for v
    using that assms(4) committed_all [OF assms(1)] expire_prev_keeps [of v ts "committed c"]
    by (fastforce simp: stamp_def is_uncommitted_def INVALID_TIMESTAMP_def)
  then have n: "\<forall>v \<in> set (fst (commit_walk tid ts d c)). \<not> is_uncommitted v"
    using commit_walk_owner [OF assms(1,2)] by simp
  then show "committed (fst (commit_walk tid ts d c)) = stamp ts (pending c) @ expire_prev ts (committed c)"
    using commit_walk_owner [OF assms(1,2), of ts d] committed_all_id [OF n] by simp
  show "pending (fst (commit_walk tid ts d c)) = []"
    using n by (cases "fst (commit_walk tid ts d c)") auto
qed

lemma seen_commit_other:
  assumes "chain_ok c" "\<forall>v \<in> set (committed c). tv_create_ts v \<le> ts" "0 \<le> ts" "ts < INT32_MAX"
    "tid' \<noteq> tid" "rts < ts"
  shows "seen rts tid (fst (commit_walk tid' ts d c)) = seen rts tid c"
proof (cases "owner_of c = Some tid'")
  case True
  note cm = committed_commit [OF assms(1) True assms(2-4), of d]
  have "owner_of (fst (commit_walk tid' ts d c)) = None" using cm(2) by (simp add: owner_of_def)
  moreover have "read_at rts (stamp ts (pending c) @ expire_prev ts (committed c))
      = read_at rts (expire_prev ts (committed c))"
    using assms(6) by (intro read_at_app_newer) (auto simp: stamp_def)
  ultimately show ?thesis
    using cm(1) True assms(5) read_at_expire_prev [of rts ts "committed c"]
    by (simp add: seen_def snapshot_read_def)
qed (use assms commit_walk_other in simp)

lemma seen_rollback_other: "chain_ok c \<Longrightarrow> tid' \<noteq> tid \<Longrightarrow> seen rts tid (fst (rollback_walk tid' c)) = seen rts tid c"
proof (cases "owner_of c = Some tid'")
  case True
  assume ok: "chain_ok c" "tid' \<noteq> tid"
  have "committed (committed c) = committed c" "pending (committed c) = []"
    using ok(1) committed_id pending_committed_ok by (auto simp: chain_ok_def)
  then show ?thesis using True ok
    by (simp add: rollback_walk_owner seen_def snapshot_read_def owner_of_def)
qed (simp add: rollback_walk_other)

subsection \<open>The manager's invariant\<close>

text \<open>\<open>clk\<close> is the newest commit timestamp so far.\<close>

definition chain_inv :: "timestamp \<Rightarrow> version_chain \<Rightarrow> bool" where
  "chain_inv clk c \<longleftrightarrow> chain_ok c \<and> (\<forall>v \<in> set (committed c). tv_create_ts v \<le> clk)"

definition mvcc_inv :: "timestamp \<Rightarrow> mvcc_manager \<Rightarrow> bool" where
  "mvcc_inv clk m \<longleftrightarrow> 0 \<le> clk \<and> clk < INT32_MAX \<and> (\<forall>k c. version_chains m k = Some c \<longrightarrow> chain_inv clk c)"

datatype mvcc_op = OpInsert Rid bytes string | OpUpdate Rid bytes string | OpDelete Rid string | OpRollback

fun mvcc_exec :: "mvcc_op \<Rightarrow> Transaction \<Rightarrow> mvcc_manager \<times> storage option \<Rightarrow> mvcc_manager \<times> storage option" where
  "mvcc_exec (OpInsert rid data tab) t (m, st) = (snd (insert_version rid data tab t m), st)"
| "mvcc_exec (OpUpdate rid data tab) t (m, st) = (snd (snd (update_version rid data tab t m)), st)"
| "mvcc_exec (OpDelete rid tab) t (m, st) = snd (snd (delete_version rid tab t (m, st)))"
| "mvcc_exec OpRollback t (m, st) = (rollback_transaction t m, st)"

text \<open>A step of transaction \<open>t\<close>: a call that writes or rolls back, or the commit, whose timestamp is newer
  than every earlier one.\<close>

type_synonym mvcc_state = "timestamp \<times> mvcc_manager \<times> storage option"

inductive mvcc_step :: "mvcc_state \<Rightarrow> Transaction \<Rightarrow> mvcc_state \<Rightarrow> bool" where
  call: "mvcc_step (clk, ms) t (clk, mvcc_exec op t ms)"
| commit: "clk < commit_ts t \<Longrightarrow> commit_ts t < INT32_MAX \<Longrightarrow>
    mvcc_step (clk, ms) t (commit_ts t, commit_transaction t ms)"

inductive_cases mvcc_stepE: "mvcc_step s t s'"

inductive mvcc_run :: "(txn_id \<Rightarrow> bool) \<Rightarrow> mvcc_state \<Rightarrow> mvcc_state \<Rightarrow> bool" where
  stop: "mvcc_run P s s"
| step: "mvcc_run P s s' \<Longrightarrow> P (the_txn_id t) \<Longrightarrow> mvcc_step s' t s'' \<Longrightarrow> mvcc_run P s s''"

text \<open>The effect of a call on one key.\<close>

lemma chains_set_chain [simp]: "version_chains (set_chain k c m) = (version_chains m)(k \<mapsto> c)"
  by (simp add: set_chain_def)

lemma chains_cleanup [simp]: "version_chains (cleanup_read_sets tid m) = version_chains m"
  by (simp add: cleanup_read_sets_def)

lemma foldl_per_key:
  assumes "\<And>k s. g (f s k) = (g s)(k := h (g s k))" "distinct ks"
  shows "g (foldl f s ks) k = (if k \<in> set ks then h (g s k) else g s k)"
  using assms(2)
proof (induction ks arbitrary: s)
  case (Cons a ks)
  then show ?case using assms(1) by auto
qed simp

lemma commit_chain_key:
  "version_chains (fst (commit_chain_versions tid ts k ms))
     = (version_chains (fst ms))(k := map_option (\<lambda>c. fst (commit_walk tid ts None c)) (version_chains (fst ms) k))"
  by (cases ms) (auto simp: commit_chain_versions_def split: option.split prod.split)

lemma commit_transaction_key:
  "version_chains (fst (commit_transaction t ms)) k =
     (if k \<in> set (target_keys t)
      then map_option (\<lambda>c. fst (commit_walk (the_txn_id t) (commit_ts t) None c)) (version_chains (fst ms) k)
      else version_chains (fst ms) k)"
proof -
  have "version_chains (fst (commit_transaction t ms))
      = version_chains (fst (foldl (\<lambda>s key. commit_chain_versions (the_txn_id t) (commit_ts t) key s) ms (target_keys t)))"
    by (simp add: commit_transaction_def split: prod.split)
  then show ?thesis
    using foldl_per_key [where g = "\<lambda>s. version_chains (fst s)"
        and f = "\<lambda>s key. commit_chain_versions (the_txn_id t) (commit_ts t) key s"
        and h = "map_option (\<lambda>c. fst (commit_walk (the_txn_id t) (commit_ts t) None c))"
        and ks = "target_keys t" and s = ms and k = k]
    by (simp add: commit_chain_key target_keys_def)
qed

definition drop_empty :: "version_chain option \<Rightarrow> version_chain option" where
  "drop_empty x = (if x = Some [] then None else x)"

lemma rollback_transaction_key:
  "version_chains (rollback_transaction t m) k =
     (if k \<in> set (target_keys t)
      then drop_empty (map_option (\<lambda>c. fst (rollback_walk (the_txn_id t) c)) (version_chains m k))
      else version_chains m k)"
proof -
  have r: "version_chains (rollback_chain_versions tid k m)
      = (version_chains m)(k := map_option (\<lambda>c. fst (rollback_walk tid c)) (version_chains m k))" for tid k m
    by (auto simp: rollback_chain_versions_def split: option.split)
  have e: "version_chains (remove_empty_chain k m) = (version_chains m)(k := drop_empty (version_chains m k))" for k m
    by (auto simp: remove_empty_chain_def drop_empty_def)
  have d: "distinct (target_keys t)" by (simp add: target_keys_def)
  show ?thesis
    using foldl_per_key [where g = version_chains and f = "\<lambda>m key. remove_empty_chain key m" and h = drop_empty,
        OF e d]
      foldl_per_key [where g = version_chains and f = "\<lambda>m key. rollback_chain_versions (the_txn_id t) key m"
        and h = "map_option (\<lambda>c. fst (rollback_walk (the_txn_id t) c))", OF r d]
    by (simp add: rollback_transaction_def)
qed

text \<open>For every key, a call writes to the chain, creates it, commits it, rolls it back, or leaves it.\<close>

definition chain_effect :: "timestamp \<Rightarrow> timestamp \<Rightarrow> txn_id \<Rightarrow> version_chain option \<Rightarrow> version_chain option \<Rightarrow> bool" where
  "chain_effect clk clk' tid x x' \<longleftrightarrow>
     (x' = x \<or>
      (\<exists>c'. x = None \<and> x' = Some c' \<and> chain_inv clk' c') \<or>
      (\<exists>c c'. x = Some c \<and> x' = Some c' \<and> written_by tid c c') \<or>
      (\<exists>c. x = Some c \<and> clk < clk' \<and> x' = Some (fst (commit_walk tid clk' None c))) \<or>
      (\<exists>c. x = Some c \<and> x' = drop_empty (Some (fst (rollback_walk tid c)))))"

lemma chain_inv_Nil: "chain_inv clk []"
  by (simp add: chain_inv_def chain_ok_def pending_ok_def)

lemma chain_inv_written: "chain_inv clk c \<Longrightarrow> written_by tid c c' \<Longrightarrow> chain_inv clk c'"
  by (auto simp: chain_inv_def written_by_def)

lemma effect_get_or_create:
  assumes "mvcc_inv clk m" "get_or_create_version_chain rid tab m = (c, m1)"
    "\<And>c. chain_ok c \<Longrightarrow> written_by tid c (w c)"
  shows "chain_effect clk clk tid (version_chains m k) (version_chains (set_chain (rid_to_key rid tab) (w c) m1) k)"
proof (cases "version_chains m (rid_to_key rid tab)")
  case None
  then have "c = []" "m1 = set_chain (rid_to_key rid tab) [] m"
    using assms(2) by (auto simp: get_or_create_version_chain_def get_version_chain_def create_version_chain_def)
  moreover have "chain_inv clk (w [])"
    using chain_inv_written [OF chain_inv_Nil assms(3)] chain_inv_Nil by (auto simp: chain_inv_def)
  ultimately show ?thesis using None by (auto simp: chain_effect_def)
next
  case (Some d)
  then have "c = d" "m1 = m"
    using assms(2) by (auto simp: get_or_create_version_chain_def get_version_chain_def)
  then show ?thesis using Some assms(1) assms(3) [of d] by (auto simp: chain_effect_def mvcc_inv_def chain_inv_def)
qed

lemma effect_insert:
  assumes "mvcc_inv clk m"
  shows "chain_effect clk clk (the_txn_id t) (version_chains m k)
     (version_chains (snd (insert_version rid data tab t m)) k)"
proof -
  obtain c m1 where g: "get_or_create_version_chain rid tab m = (c, m1)"
    by (cases "get_or_create_version_chain rid tab m") auto
  then have "snd (insert_version rid data tab t m)
      = set_chain (rid_to_key rid tab) (snd (chain_insert data (the_txn_id t) c)) m1"
    by (simp add: insert_version_def split: prod.split)
  then show ?thesis
    using effect_get_or_create [where w = "\<lambda>c. snd (chain_insert data (the_txn_id t) c)", OF assms g chain_insert_written]
    by simp
qed

lemma effect_update:
  assumes "mvcc_inv clk m"
  shows "chain_effect clk clk (the_txn_id t) (version_chains m k)
     (version_chains (snd (snd (update_version rid data tab t m))) k)"
proof -
  obtain c m1 where g: "get_or_create_version_chain rid tab m = (c, m1)"
    by (cases "get_or_create_version_chain rid tab m") auto
  then have "snd (snd (update_version rid data tab t m))
      = set_chain (rid_to_key rid tab) (fst (snd (chain_update data (the_txn_id t) (read_ts t) c))) m1"
    by (simp add: update_version_def split: prod.split)
  then show ?thesis
    using effect_get_or_create [where w = "\<lambda>c. fst (snd (chain_update data (the_txn_id t) (read_ts t) c))",
        OF assms g chain_update_written]
    by simp
qed

lemma initial_chain_ok: "0 \<le> clk \<Longrightarrow> chain_inv clk [initial_version data]"
  by (simp add: chain_inv_def chain_ok_def pending_ok_def initial_version_def new_tuple_version_def is_uncommitted_def
      INVALID_TIMESTAMP_def INT32_MAX_def)

lemma original_chain_Some: "original_chain rid tab st = (Some c, st') \<Longrightarrow> \<exists>data. c = [initial_version data]"
  by (auto simp: original_chain_def add_version_def split: option.splits sum.splits prod.splits)

lemma effect_delete:
  assumes "mvcc_inv clk m"
  shows "chain_effect clk clk (the_txn_id t) (version_chains m k)
     (version_chains (fst (snd (snd (delete_version rid tab t (m, st))))) k)"
proof (cases "version_chains m (rid_to_key rid tab)")
  case (Some c)
  then have "written_by (the_txn_id t) c c'" if "chain_delete (the_txn_id t) (read_ts t) c = Some (c', vis)" for c' vis
    using chain_delete_written [OF _ that] assms by (auto simp: mvcc_inv_def chain_inv_def)
  then show ?thesis using Some
    by (auto simp: delete_version_def get_version_chain_def chain_effect_def split: option.split)
next
  case None
  obtain x st' where o: "original_chain rid tab st = (x, st')" by (cases "original_chain rid tab st") auto
  show ?thesis
  proof (cases x)
    case None
    then show ?thesis using \<open>version_chains m (rid_to_key rid tab) = None\<close> o
      by (simp add: delete_version_def get_version_chain_def chain_effect_def)
  next
    case (Some c)
    obtain data where "c = [initial_version data]" using original_chain_Some [of rid tab st c st'] o Some by auto
    then have inv: "chain_inv clk c" using assms initial_chain_ok by (simp add: mvcc_inv_def)
    then have ok: "chain_ok c" by (simp add: chain_inv_def)
    have "chain_inv clk c'" if "chain_delete (the_txn_id t) (read_ts t) c = Some (c', vis)" for c' vis
      by (rule chain_inv_written [OF inv chain_delete_written [OF ok that]])
    then show ?thesis using \<open>version_chains m (rid_to_key rid tab) = None\<close> o Some inv
      by (auto simp: delete_version_def get_version_chain_def chain_effect_def split: option.split)
  qed
qed

lemma step_effect:
  assumes "mvcc_inv clk m" "mvcc_step (clk, m, st) t (clk', m', st')"
  shows "chain_effect clk clk' (the_txn_id t) (version_chains m k) (version_chains m' k)"
  using assms(2)
proof (cases rule: mvcc_step.cases)
  case (call op)
  then have m': "m' = fst (mvcc_exec op t (m, st))" "clk' = clk" by (metis fst_conv)+
  show ?thesis
  proof (cases op)
    case OpRollback
    then show ?thesis using m'
      by (cases "version_chains m k")
        (auto simp: rollback_transaction_key chain_effect_def drop_empty_def)
  qed (use m' effect_insert [OF assms(1)] effect_update [OF assms(1)] effect_delete [OF assms(1)] in simp_all)
next
  case commit
  then have "m' = fst (commit_transaction t (m, st))" by (metis fst_conv)
  then show ?thesis using commit
    by (cases "version_chains m k") (auto simp: commit_transaction_key chain_effect_def)
qed

lemma effect_inv:
  assumes "chain_effect clk clk' tid x x'" "clk \<le> clk'" "0 \<le> clk'" "clk' < INT32_MAX" "\<And>c. x = Some c \<Longrightarrow> chain_inv clk c"
    "x' = Some c'"
  shows "chain_inv clk' c'"
proof -
  have mono: "chain_inv clk c \<Longrightarrow> chain_inv clk' c" for c using assms(2) by (fastforce simp: chain_inv_def)
  consider "x' = x" | "x = None" "chain_inv clk' c'" | c where "x = Some c" "written_by tid c c'"
    | c where "x = Some c" "clk < clk'" "c' = fst (commit_walk tid clk' None c)"
    | c where "x = Some c" "c' = fst (rollback_walk tid c)"
    using assms(1,6) by (auto simp: chain_effect_def drop_empty_def split: if_splits)
  then show ?thesis
  proof cases
    case 3
    then show ?thesis using assms(5) mono chain_inv_written by blast
  next
    case (4 c)
    then have c: "chain_ok c" "\<forall>v \<in> set (committed c). tv_create_ts v \<le> clk'"
      using assms(5) mono by (auto simp: chain_inv_def)
    have ok: "chain_ok c'" using chain_ok_commit [OF c assms(3,4)] 4 by simp
    have "tv_create_ts v \<le> clk'" if "v \<in> set (committed c')" for v
    proof (cases "owner_of c = Some tid")
      case True
      then have "v \<in> set (stamp clk' (pending c) @ expire_prev clk' (committed c))"
        using committed_commit(1) [OF c(1) True c(2) assms(3,4)] 4 that by simp
      then show ?thesis using c(2) expire_prev_keeps [of v clk' "committed c"] by (auto simp: stamp_def)
    qed (use that c 4 commit_walk_other in auto)
    then show ?thesis using ok by (simp add: chain_inv_def)
  next
    case (5 c)
    then have "chain_inv clk c" using assms(5) by blast
    then have "chain_ok c'" "\<forall>v \<in> set (committed c'). tv_create_ts v \<le> clk"
      using 5 chain_ok_rollback [of c tid] committed_all_id [of "committed c"] committed_all [of c]
      by (cases "owner_of c = Some tid"; auto simp: chain_inv_def rollback_walk_owner rollback_walk_other)+
    then show ?thesis using mono by (simp add: chain_inv_def)
  qed (use assms mono in auto)
qed

lemma step_inv:
  assumes "mvcc_inv clk m" "mvcc_step (clk, m, st) t (clk', m', st')"
  shows "mvcc_inv clk' m' \<and> clk \<le> clk'"
proof -
  have clk: "clk \<le> clk'" "0 \<le> clk'" "clk' < INT32_MAX"
    using assms by (auto simp: mvcc_inv_def elim!: mvcc_stepE)
  have "chain_inv clk' c'" if "version_chains m' k = Some c'" for k c'
    using effect_inv [OF step_effect [OF assms] clk _ that] assms(1) by (auto simp: mvcc_inv_def)
  then show ?thesis using clk by (simp add: mvcc_inv_def)
qed

lemma run_inv: "mvcc_run P s s' \<Longrightarrow> mvcc_inv (fst s) (fst (snd s)) \<Longrightarrow> mvcc_inv (fst s') (fst (snd s')) \<and> fst s \<le> fst s'"
proof (induction rule: mvcc_run.induct)
  case (step P s s' t s'')
  then show ?case using step_inv [of "fst s'" "fst (snd s')" "snd (snd s')" t "fst s''" "fst (snd s'')" "snd (snd s'')"]
    by auto
qed simp

text \<open>A chain with committed versions is never dropped, and a transaction goes on seeing the same bytes of it while
  others write, commit and roll back.\<close>

lemma effect_seen:
  assumes "chain_effect clk clk' tid' (Some c) x'" "chain_inv clk c" "0 \<le> clk'" "clk' < INT32_MAX" "clk \<le> clk'"
    "committed c \<noteq> []" "tid' \<noteq> tid" "rts \<le> clk"
    "\<forall>v \<in> set (committed c). tv_txn_id v \<noteq> tid"
  shows "\<exists>c'. x' = Some c' \<and> committed c' \<noteq> [] \<and> seen rts tid c' = seen rts tid c \<and>
    (\<forall>v \<in> set (committed c'). tv_txn_id v \<noteq> tid)"
proof -
  have ok: "chain_ok c" "\<forall>v \<in> set (committed c). tv_create_ts v \<le> clk'"
    using assms(2,5) by (auto simp: chain_inv_def)
  have cc: "committed (committed c) = committed c" by (rule committed_all_id) (use ok committed_all in blast)
  consider "x' = Some c" | c' where "x' = Some c'" "written_by tid' c c'"
    | "clk < clk'" "x' = Some (fst (commit_walk tid' clk' None c))"
    | "x' = drop_empty (Some (fst (rollback_walk tid' c)))"
    using assms(1) by (auto simp: chain_effect_def)
  then show ?thesis
  proof cases
    case (2 c')
    then show ?thesis using seen_written [OF 2(2) assms(7), of rts] assms(6,9) by (auto simp: written_by_def)
  next
    case 3
    have s: "seen rts tid (fst (commit_walk tid' clk' None c)) = seen rts tid c"
      by (rule seen_commit_other [OF ok assms(3,4)]) (use assms 3 in auto)
    show ?thesis
    proof (cases "owner_of c = Some tid'")
      case True
      note cm = committed_commit(1) [OF ok(1) True ok(2) assms(3,4), of None]
      have "tv_txn_id v \<noteq> tid" if "v \<in> set (committed (fst (commit_walk tid' clk' None c)))" for v
        using that cm pending_all [OF ok(1) True] expire_prev_keeps [of v clk' "committed c"] assms(7,9)
        by (fastforce simp: stamp_def)
      moreover have "committed (fst (commit_walk tid' clk' None c)) \<noteq> []"
        using cm True by (auto simp: stamp_def owner_of_def)
      ultimately show ?thesis using 3 s by auto
    qed (use 3 s ok assms commit_walk_other in auto)
  next
    case 4
    have "committed (fst (rollback_walk tid' c)) = committed c"
      using ok(1) cc by (cases "owner_of c = Some tid'") (auto simp: rollback_walk_owner rollback_walk_other)
    then show ?thesis
      using 4 seen_rollback_other [OF ok(1) assms(7)] assms(6,9) by (auto simp: drop_empty_def)
  qed (use assms in auto)
qed

lemma run_seen:
  assumes "mvcc_run (\<lambda>i. i \<noteq> tid) s s'" "mvcc_inv (fst s) (fst (snd s))" "version_chains (fst (snd s)) k = Some c"
    "committed c \<noteq> []" "\<forall>v \<in> set (committed c). tv_txn_id v \<noteq> tid" "rts \<le> fst s"
  shows "\<exists>c'. version_chains (fst (snd s')) k = Some c' \<and> committed c' \<noteq> [] \<and> seen rts tid c' = seen rts tid c \<and>
    (\<forall>v \<in> set (committed c'). tv_txn_id v \<noteq> tid)"
  using assms
proof (induction "\<lambda>i. i \<noteq> tid" s s' rule: mvcc_run.induct)
  case (step s s' t s'')
  obtain clk m st clk' m' st' where s: "s' = (clk, m, st)" "s'' = (clk', m', st')" by (cases s'; cases s'') auto
  have inv: "mvcc_inv clk m" "fst s \<le> clk" using run_inv [OF step.hyps(1)] step.prems s by auto
  obtain c1 where c1: "version_chains m k = Some c1" "committed c1 \<noteq> []" "seen rts tid c1 = seen rts tid c"
    "\<forall>v \<in> set (committed c1). tv_txn_id v \<noteq> tid"
    using step s by auto
  have eff: "chain_effect clk clk' (the_txn_id t) (Some c1) (version_chains m' k)"
    using step_effect [OF inv(1), of st t clk' m' st' k] step.hyps(4) s c1 by simp
  have clk: "0 \<le> clk'" "clk' < INT32_MAX" "clk \<le> clk'"
    using step_inv [OF inv(1), of st t clk' m' st'] step.hyps(4) s by (auto simp: mvcc_inv_def)
  have "chain_inv clk c1" using inv c1 by (auto simp: mvcc_inv_def)
  from effect_seen [OF eff this clk c1(2) step.hyps(3), of rts] c1 inv step.prems s
  show ?case by auto
qed auto

subsection \<open>Properties\<close>

text \<open>Rows for the witnesses: a committed version, and a transaction with a snapshot.\<close>

definition example_rid :: Rid where "example_rid = \<lparr>rid_page_no = 1, rid_slot_no = 0\<rparr>"

definition old_version :: TupleVersion where
  "old_version = (new_tuple_version [7] 1)\<lparr>tv_create_ts := 2\<rparr>"

definition example_mvcc :: mvcc_manager where
  "example_mvcc = set_chain (rid_to_key example_rid ''t'') [old_version] mvcc_new"

definition reader :: "txn_id \<Rightarrow> timestamp \<Rightarrow> timestamp \<Rightarrow> Transaction" where
  "reader tid rts cts = (new_transaction tid SERIALIZABLE)\<lparr>txn_state := GROWING, read_ts := rts, commit_ts := cts,
     write_set := [\<lparr>wr_type = UPDATE_TUPLE, wr_tab_name = ''t'', wr_rid = example_rid, wr_record = []\<rparr>]\<rparr>"

lemma reader_simps [simp]:
  "the_txn_id (reader tid rts cts) = tid" "read_ts (reader tid rts cts) = rts" "commit_ts (reader tid rts cts) = cts"
  "target_keys (reader tid rts cts) = [rid_to_key example_rid ''t'']"
  by (simp_all add: reader_def new_transaction_def target_keys_def is_tuple_write_def)

lemma old_version_simps [simp]:
  "tv_data old_version = [7]" "tv_txn_id old_version = 1" "tv_create_ts old_version = 2"
  "tv_expire_ts old_version = INT32_MAX" "\<not> tv_is_deleted old_version" "\<not> is_uncommitted old_version"
  by (simp_all add: old_version_def is_uncommitted_def INVALID_TIMESTAMP_def)

lemma example_chain_inv: "chain_inv 3 [old_version]"
  by (simp add: chain_inv_def chain_ok_def pending_ok_def INT32_MAX_def)

lemma example_mvcc_chain [simp]:
  "version_chains example_mvcc k = (if k = rid_to_key example_rid ''t'' then Some [old_version] else None)"
  by (simp add: example_mvcc_def mvcc_new_def)

lemma example_mvcc_inv: "mvcc_inv 3 example_mvcc"
  using example_chain_inv by (auto simp: mvcc_inv_def INT32_MAX_def)

lemma read_version_seen:
  assumes "version_chains m (rid_to_key rid tab) = Some c" "chain_ok c" "length c \<le> max_iterations"
    "read_ts t < INT32_MAX" "\<forall>v \<in> set (committed c). tv_txn_id v \<noteq> the_txn_id t"
  shows "read_version rid tab t m = snapshot_read (read_ts t) (the_txn_id t) c"
proof (cases c)
  case Nil
  then show ?thesis using assms(1)
    by (simp add: read_version_def get_version_chain_def snapshot_read_def)
next
  case (Cons v c')
  then show ?thesis
    using assms(1) find_visible_is_snapshot_read [OF assms(2-5)] by (simp add: read_version_def get_version_chain_def)
qed

text \<open>C23: Reading a row is a snapshot read. On a chain of at most 1000 versions, a transaction that has a
  version pending on the row reads that version, or nothing if it is a deletion; any other transaction reads
  the newest version committed at or before its read timestamp, or nothing if that is a deletion; versions
  pending or committed later by others are never read.\<close>

theorem read_version_is_snapshot_read:
  assumes "mvcc_inv clk m" "version_chains m (rid_to_key rid tab) = Some c" "length c \<le> 1000"
    "read_ts t < INT32_MAX" "\<forall>v \<in> set (committed c). tv_txn_id v \<noteq> the_txn_id t"
  shows "read_version rid tab t m =
    (if owner_of c = Some (the_txn_id t) then (if tv_is_deleted (hd c) then None else Some (hd c))
     else read_at (read_ts t) (committed c))"
  using read_version_seen [OF assms(2) _ _ assms(4,5)] assms(1-3)
  by (auto simp: mvcc_inv_def chain_inv_def max_iterations_def snapshot_read_def)

theorem read_version_is_snapshot_read_witness:
  "read_version example_rid ''t'' (reader 5 3 INVALID_TIMESTAMP) example_mvcc = Some old_version"
  using read_version_is_snapshot_read [OF example_mvcc_inv, of example_rid "''t''" "[old_version]" "reader 5 3 INVALID_TIMESTAMP"]
  by (simp add: INT32_MAX_def owner_of_Cons)

text \<open>C4: Reads are repeatable. Once a row has a committed version, a transaction that starts when the newest
  commit timestamp is at least its read timestamp sees the same bytes of the row after any sequence of inserts,
  updates, deletions, rollbacks and commits of other transactions, in any order (their commits take later
  timestamps), as long as the chain keeps at most 1000 versions.\<close>

theorem repeatable_read:
  assumes "mvcc_inv clk m" "version_chains m (rid_to_key rid tab) = Some c" "committed c \<noteq> []"
    and "\<forall>v \<in> set (committed c). tv_txn_id v \<noteq> the_txn_id t" "read_ts t \<le> clk"
    and "mvcc_run (\<lambda>i. i \<noteq> the_txn_id t) (clk, m, st) (clk', m', st')"
    and "length c \<le> 1000" "\<forall>c'. version_chains m' (rid_to_key rid tab) = Some c' \<longrightarrow> length c' \<le> 1000"
  shows "map_option tv_data (read_version rid tab t m') = map_option tv_data (read_version rid tab t m)"
proof -
  obtain c' where c': "version_chains m' (rid_to_key rid tab) = Some c'"
    "seen (read_ts t) (the_txn_id t) c' = seen (read_ts t) (the_txn_id t) c"
    "\<forall>v \<in> set (committed c'). tv_txn_id v \<noteq> the_txn_id t"
    using run_seen [OF assms(6) _ _ assms(3,4), of "rid_to_key rid tab" "read_ts t"] assms(1,2,5) by auto
  have "chain_ok c'" using run_inv [OF assms(6)] assms(1) c'(1) by (auto simp: mvcc_inv_def chain_inv_def)
  moreover have "chain_ok c" "read_ts t < INT32_MAX" using assms(1,2,5) by (auto simp: mvcc_inv_def chain_inv_def)
  ultimately show ?thesis
    using read_version_seen [OF assms(2), of t] read_version_seen [OF c'(1), of t] c'(1,2,3) assms(4,7,8)
    by (simp add: max_iterations_def seen_def)
qed

lemma example_update:
  "snd (snd (update_version example_rid [9] ''t'' (reader 6 3 4) example_mvcc))
     = set_chain (rid_to_key example_rid ''t'') [new_tuple_version [9] 6, old_version] example_mvcc"
  by (simp add: update_version_def get_or_create_version_chain_def get_version_chain_def chain_update_def
      find_visible_version_def max_iterations_def INVALID_TIMESTAMP_def INT32_MAX_def add_version_def set_chain_def
      numeral_eq_Suc)

lemma example_commit:
  "version_chains (fst (commit_transaction (reader 6 3 4)
      (set_chain (rid_to_key example_rid ''t'') [new_tuple_version [9] 6, old_version] example_mvcc, None)))
     (rid_to_key example_rid ''t'') =
   Some [(new_tuple_version [9] 6)\<lparr>tv_create_ts := 4\<rparr>, old_version\<lparr>tv_expire_ts := 4\<rparr>]"
  by (simp add: commit_transaction_key Let_def expire_prev_def INVALID_TIMESTAMP_def)

theorem repeatable_read_witness:
  "let m1 = snd (snd (update_version example_rid [9] ''t'' (reader 6 3 4) example_mvcc));
       m2 = fst (commit_transaction (reader 6 3 4) (m1, None))
   in map_option tv_data (read_version example_rid ''t'' (reader 5 3 INVALID_TIMESTAMP) m2)
      = map_option tv_data (read_version example_rid ''t'' (reader 5 3 INVALID_TIMESTAMP) example_mvcc)"
proof -
  let ?m1 = "snd (snd (update_version example_rid [9] ''t'' (reader 6 3 4) example_mvcc))"
  let ?m2 = "fst (commit_transaction (reader 6 3 4) (?m1, None))"
  have s1: "mvcc_step (3, example_mvcc, None) (reader 6 3 4) (3, ?m1, None)"
    using mvcc_step.call [of 3 "(example_mvcc, None)" "reader 6 3 4" "OpUpdate example_rid [9] ''t''"] by simp
  have s2: "mvcc_step (3, ?m1, None) (reader 6 3 4) (4, commit_transaction (reader 6 3 4) (?m1, None))"
    using mvcc_step.commit [of 3 "reader 6 3 4" "(?m1, None)"] by (simp add: INT32_MAX_def)
  have "mvcc_run (\<lambda>i. i \<noteq> 5) (3, example_mvcc, None) (4, commit_transaction (reader 6 3 4) (?m1, None))"
    by (rule mvcc_run.step [OF mvcc_run.step [OF mvcc_run.stop _ s1] _ s2]) simp_all
  moreover have "commit_transaction (reader 6 3 4) (?m1, None) = (?m2, snd (commit_transaction (reader 6 3 4) (?m1, None)))"
    by simp
  ultimately have r: "mvcc_run (\<lambda>i. i \<noteq> the_txn_id (reader 5 3 INVALID_TIMESTAMP)) (3, example_mvcc, None)
      (4, ?m2, snd (commit_transaction (reader 6 3 4) (?m1, None)))" by (metis reader_simps(1))
  show ?thesis
    unfolding Let_def
    by (rule repeatable_read [where c = "[old_version]", OF example_mvcc_inv _ _ _ _ r])
      (use example_update example_commit in simp_all)
qed

text \<open>The chain a commit leaves: no version is pending, the invariant holds, and a reader sees the version that was
  pending when its snapshot is at or after the commit timestamp.\<close>

lemma committed_chain:
  fixes d
  assumes "chain_inv clk c" "0 \<le> clk" "clk < ts" "ts < INT32_MAX" "owner_of c = Some tid"
  defines "c' \<equiv> fst (commit_walk tid ts d c)"
  shows committed_chain_ok: "chain_ok c'" and committed_chain_length: "length c' = length c"
    and committed_chain_txns: "v \<in> set (committed c') \<Longrightarrow> tv_txn_id v = tid \<or> (\<exists>w \<in> set (committed c). tv_txn_id v = tv_txn_id w)"
    and committed_chain_seen: "tid' \<noteq> tid \<Longrightarrow> seen rts tid' c' =
      (if ts \<le> rts then (if tv_is_deleted (hd c) then None else Some (tv_data (hd c))) else seen rts tid' c)"
proof -
  have c: "chain_ok c" "\<forall>v \<in> set (committed c). tv_create_ts v \<le> ts" "0 \<le> ts"
    using assms(1-3) by (fastforce simp: chain_inv_def)+
  note cm = committed_commit [OF c(1) assms(5) c(2,3) assms(4), of d, folded c'_def]
  note walk = commit_walk_owner [OF c(1) assms(5), of ts d, folded c'_def]
  obtain u us where u: "pending c = u # us" using assms(5) by (auto simp: owner_of_def split: list.splits)
  then have hd: "hd c = u" using chain_split [of c] by (metis append_Cons list.sel(1))
  have none: "owner_of c' = None" using cm(2) by (simp add: owner_of_def)
  show "chain_ok c'" unfolding c'_def by (rule chain_ok_commit [OF c assms(4)])
  have "length (expire_prev ts (committed c)) = length (committed c)"
    by (cases "committed c") (simp_all add: expire_prev_def)
  then show "length c' = length c"
    using arg_cong [OF chain_split [of c], of length] by (simp add: walk stamp_def)
  show "tv_txn_id v = tid \<or> (\<exists>w \<in> set (committed c). tv_txn_id v = tv_txn_id w)" if "v \<in> set (committed c')"
    using that cm(1) pending_all [OF c(1) assms(5)] expire_prev_keeps [of v ts "committed c"]
    by (fastforce simp: stamp_def)
  show "seen rts tid' c' = (if ts \<le> rts then (if tv_is_deleted (hd c) then None else Some (tv_data (hd c)))
      else seen rts tid' c)" if "tid' \<noteq> tid"
  proof (cases "ts \<le> rts")
    case True
    then show ?thesis using cm(1) none u hd by (simp add: seen_def snapshot_read_def stamp_def)
  next
    case False
    then show ?thesis using seen_commit_other [OF c assms(4), of tid tid' rts d] that by (auto simp: c'_def)
  qed
qed

text \<open>C25: Commit publishes. Committing a transaction turns its pending version of a row in its write set into the
  newest committed one, as the program's own \<open>read_version\<close> tests the create and expire timestamps: every other
  transaction with a snapshot at or after the commit timestamp then reads it (or nothing, when the pending version is a
  deletion), and every one with an earlier snapshot reads the bytes it read before. The chain has at most 1000 versions
  and the reader wrote none of the committed ones.\<close>

theorem commit_publishes:
  assumes "mvcc_inv clk m" "clk < commit_ts t" "commit_ts t < INT32_MAX"
    and "rid_to_key rid tab \<in> set (target_keys t)" "version_chains m (rid_to_key rid tab) = Some c"
    and "owner_of c = Some (the_txn_id t)" "length c \<le> 1000"
    and "the_txn_id u \<noteq> the_txn_id t" "read_ts u < INT32_MAX" "\<forall>v \<in> set (committed c). tv_txn_id v \<noteq> the_txn_id u"
  shows "map_option tv_data (read_version rid tab u (fst (commit_transaction t (m, st)))) =
    (if commit_ts t \<le> read_ts u then (if tv_is_deleted (hd c) then None else Some (tv_data (hd c)))
     else map_option tv_data (read_version rid tab u m))"
proof -
  let ?c' = "fst (commit_walk (the_txn_id t) (commit_ts t) None c)"
  have inv: "chain_inv clk c" "0 \<le> clk" using assms(1,5) by (auto simp: mvcc_inv_def)
  note cc = committed_chain [OF inv assms(2,3,6), where d = None]
  have c': "version_chains (fst (commit_transaction t (m, st))) (rid_to_key rid tab) = Some ?c'"
    using assms(4,5) by (simp add: commit_transaction_key)
  have "\<forall>v \<in> set (committed ?c'). tv_txn_id v \<noteq> the_txn_id u"
  proof
    fix v assume "v \<in> set (committed ?c')"
    from cc(3) [OF this] show "tv_txn_id v \<noteq> the_txn_id u" using assms(8,10) by auto
  qed
  then show ?thesis
    using read_version_seen [OF c' cc(1) _ assms(9)] read_version_seen [OF assms(5) _ _ assms(9,10)] cc(2)
      cc(4) [of "the_txn_id u" "read_ts u"] inv(1) assms(7,8)
    by (simp add: max_iterations_def seen_def chain_inv_def)
qed

theorem commit_publishes_witness:
  "let m1 = snd (snd (update_version example_rid [9] ''t'' (reader 6 3 4) example_mvcc));
       m2 = fst (commit_transaction (reader 6 3 4) (m1, None))
   in map_option tv_data (read_version example_rid ''t'' (reader 8 4 0) m2) = Some [9] \<and>
      map_option tv_data (read_version example_rid ''t'' (reader 8 3 0) m2) = Some [7]"
proof -
  let ?m1 = "snd (snd (update_version example_rid [9] ''t'' (reader 6 3 4) example_mvcc))"
  let ?c = "[new_tuple_version [9] 6, old_version]"
  have "mvcc_step (3, example_mvcc, None) (reader 6 3 4) (3, ?m1, None)"
    using mvcc_step.call [of 3 "(example_mvcc, None)" "reader 6 3 4" "OpUpdate example_rid [9] ''t''"] by simp
  from step_inv [OF example_mvcc_inv this] have inv: "mvcc_inv 3 ?m1" by simp
  have "version_chains ?m1 (rid_to_key example_rid ''t'') = Some ?c" using example_update by simp
  then have "chain_ok ?c" using inv unfolding mvcc_inv_def chain_inv_def by blast
  then have "read_version example_rid ''t'' (reader 8 3 0) ?m1 = Some old_version"
    using read_version_seen [of ?m1 example_rid "''t''" ?c "reader 8 3 0"] example_update
    by (simp add: max_iterations_def INT32_MAX_def snapshot_read_def owner_of_Cons)
  then show ?thesis
    using commit_publishes [OF inv, of "reader 6 3 4" example_rid "''t''" ?c "reader 8 4 0" None]
      commit_publishes [OF inv, of "reader 6 3 4" example_rid "''t''" ?c "reader 8 3 0" None] example_update
    by (simp add: owner_of_Cons INT32_MAX_def Let_def)
qed

text \<open>Calls of one transaction.\<close>

definition own_calls :: "txn_id \<Rightarrow> (mvcc_op \<times> Transaction) list \<Rightarrow> mvcc_manager \<times> storage option \<Rightarrow> mvcc_manager \<times> storage option" where
  "own_calls tid cs ms = foldl (\<lambda>s (op, t). mvcc_exec op t s) ms (filter (\<lambda>(op, t). the_txn_id t = tid) cs)"

lemma written_by_trans: "written_by tid c c1 \<Longrightarrow> written_by tid c1 c2 \<Longrightarrow> written_by tid c c2"
  by (auto simp: written_by_def)

lemma own_calls_written:
  assumes "mvcc_inv clk (fst ms)" "version_chains (fst ms) k = Some c" "c \<noteq> []" "committed c \<noteq> []"
    "\<forall>(op, t) \<in> set cs. op \<noteq> OpRollback"
  shows "\<exists>c'. version_chains (fst (own_calls tid cs ms)) k = Some c' \<and> written_by tid c c'"
  using assms
proof (induction cs arbitrary: ms c)
  case Nil
  then show ?case by (auto simp: own_calls_def mvcc_inv_def chain_inv_def intro: written_by_refl)
next
  case (Cons x cs)
  obtain op t m st where x: "x = (op, t)" and ms: "ms = (m, st)" by (cases x; cases ms) auto
  show ?case
  proof (cases "the_txn_id t = tid")
    case False
    then show ?thesis using Cons x by (simp add: own_calls_def)
  next
    case True
    let ?ms1 = "mvcc_exec op t ms"
    have step: "mvcc_step (clk, m, st) t (clk, fst ?ms1, snd ?ms1)"
      using mvcc_step.call [of clk ms t op] ms by simp
    have inv: "mvcc_inv clk (fst ?ms1)" using step_inv [OF _ step] Cons.prems ms by simp
    have c: "chain_ok c" using Cons.prems ms by (auto simp: mvcc_inv_def chain_inv_def)
    have "\<exists>c1. version_chains (fst ?ms1) k = Some c1 \<and> written_by tid c c1"
    proof (cases op)
      case (OpInsert rid data tab)
      then show ?thesis using Cons.prems(2) ms True c written_by_refl chain_insert_written
        by (cases "k = rid_to_key rid tab")
          (auto simp: insert_version_def get_or_create_version_chain_def get_version_chain_def create_version_chain_def
            split: prod.split option.split intro: written_by_refl, metis chain_insert_written snd_conv)
    next
      case (OpUpdate rid data tab)
      then show ?thesis using Cons.prems(2) ms True c
        by (cases "k = rid_to_key rid tab")
          (auto simp: update_version_def get_or_create_version_chain_def get_version_chain_def create_version_chain_def
            split: prod.split option.split intro: written_by_refl, metis chain_update_written fst_conv snd_conv)
    next
      case (OpDelete rid tab)
      show ?thesis
      proof (cases "k = rid_to_key rid tab")
        case True
        then show ?thesis using OpDelete Cons.prems(2) ms \<open>the_txn_id t = tid\<close> c chain_delete_written [OF c]
          by (auto simp: delete_version_def get_version_chain_def split: option.split intro: written_by_refl)
      next
        case False
        then have "version_chains (fst ?ms1) k = Some c"
          using OpDelete Cons.prems(2) ms
          by (auto simp: delete_version_def split: option.split prod.split)
        then show ?thesis using c written_by_refl by blast
      qed
    qed (use Cons.prems x in auto)
    then obtain c1 where c1: "version_chains (fst ?ms1) k = Some c1" "written_by tid c c1" by auto
    have ne: "committed c1 \<noteq> []" "c1 \<noteq> []" using c1(2) Cons.prems(4) by (auto simp: written_by_def)
    have "own_calls tid (x # cs) ms = own_calls tid cs ?ms1" using True x by (simp add: own_calls_def)
    then show ?thesis
      using Cons.IH [OF inv c1(1) ne(2,1)] Cons.prems(5) c1(2) written_by_trans by fastforce
  qed
qed

text \<open>C26: Rollback undoes. After any sequence of inserts, updates and deletions of one transaction, rolling it back
  restores the chain of every row in its write set that had committed versions and nothing of that transaction pending.\<close>

theorem rollback_undoes_writes:
  assumes "mvcc_inv clk m" "version_chains m k = Some c" "committed c \<noteq> []" "owner_of c \<noteq> Some (the_txn_id t)"
    and "\<forall>(op, t) \<in> set cs. op \<noteq> OpRollback" "k \<in> set (target_keys t)"
  shows "version_chains (rollback_transaction t (fst (own_calls (the_txn_id t) cs (m, st)))) k = Some c"
proof -
  have ne: "c \<noteq> []" using assms(3) by auto
  obtain c' where c': "version_chains (fst (own_calls (the_txn_id t) cs (m, st))) k = Some c'" "written_by (the_txn_id t) c c'"
    using own_calls_written [of clk "(m, st)" k c cs "the_txn_id t"] assms ne by auto
  have "fst (rollback_walk (the_txn_id t) c') = c"
  proof (cases "c' = c")
    case True
    then show ?thesis using assms(1,2,4) rollback_walk_other by (auto simp: mvcc_inv_def chain_inv_def)
  next
    case False
    then have "owner_of c' = Some (the_txn_id t)" "owner_of c = None" "committed c' = committed c" "chain_ok c'"
      using c'(2) assms(4) by (auto simp: written_by_def)
    moreover have "committed c = c" using \<open>owner_of c = None\<close> chain_split [of c]
      by (auto simp: owner_of_def split: list.splits)
    ultimately show ?thesis by (simp add: rollback_walk_owner)
  qed
  then show ?thesis using c'(1) assms(6) ne by (simp add: rollback_transaction_key drop_empty_def)
qed

theorem rollback_undoes_writes_witness:
  "version_chains (rollback_transaction (reader 6 3 4)
     (fst (own_calls 6 [(OpUpdate example_rid [9] ''t'', reader 6 3 4), (OpDelete example_rid ''t'', reader 6 3 4)]
        (example_mvcc, None)))) (rid_to_key example_rid ''t'') = Some [old_version]"
  using rollback_undoes_writes [OF example_mvcc_inv, of "rid_to_key example_rid ''t''" "[old_version]" "reader 6 3 4"
      "[(OpUpdate example_rid [9] ''t'', reader 6 3 4), (OpDelete example_rid ''t'', reader 6 3 4)]" None]
  by (simp add: owner_of_Cons)

text \<open>Write-write conflicts are refused. While a transaction has a version pending on a row, inserting, updating and
  deleting that row by any other transaction answers false and leaves the row's chain as it is.\<close>

theorem write_conflict_refused:
  assumes "version_chains m (rid_to_key rid tab) = Some c" "owner_of c = Some tid" "the_txn_id t \<noteq> tid"
  shows "insert_version rid data tab t m = (False, m) \<and> update_version rid data tab t m = (False, t, m) \<and>
    delete_version rid tab t (m, st) = (False, t, m, st)"
proof -
  obtain v c' where c: "c = v # c'" "tv_create_ts v = INVALID_TIMESTAMP" "tv_txn_id v = tid"
    using assms(2) by (cases c) (auto simp: owner_of_Cons is_uncommitted_def split: if_splits)
  have same: "set_chain (rid_to_key rid tab) c m = m"
    using assms(1) by (simp add: set_chain_def fun_upd_idem)
  have g: "get_or_create_version_chain rid tab m = (c, m)"
    using assms(1) by (simp add: get_or_create_version_chain_def get_version_chain_def)
  have w: "chain_insert data (the_txn_id t) c = (False, c)"
    "chain_update data (the_txn_id t) (read_ts t) c = (False, c, None)" "chain_delete (the_txn_id t) (read_ts t) c = None"
    using c assms(3)
    by (auto simp: chain_insert_def chain_update_def chain_delete_def has_write_conflict_def get_head_def)
  show ?thesis
    using g w same assms(1)
    by (simp add: insert_version_def update_version_def delete_version_def get_version_chain_def)
qed

theorem write_conflict_refused_witness:
  "let m1 = snd (snd (update_version example_rid [9] ''t'' (reader 6 3 4) example_mvcc))
   in update_version example_rid [1] ''t'' (reader 7 3 5) m1 = (False, reader 7 3 5, m1)"
  using write_conflict_refused [of "snd (snd (update_version example_rid [9] ''t'' (reader 6 3 4) example_mvcc))"
      example_rid "''t''" "[new_tuple_version [9] 6, old_version]" 6 "reader 7 3 5" "[1]" None] example_update
  by (simp add: Let_def owner_of_Cons)

text \<open>The string keys are sound: two rows of any two tables have the same key only if they are the same row of the
  same table, whatever digits and underscores the table names contain, and the record id parsed back from a key at commit
  is the one it was made from.\<close>

theorem rid_to_key_round_trip:
  assumes "int32 (rid_page_no rid)" "int32 (rid_slot_no rid)" "int32 (rid_page_no rid')" "int32 (rid_slot_no rid')"
  shows "key_to_rid (rid_to_key rid tab) = Some rid \<and>
    (rid_to_key rid tab = rid_to_key rid' tab' \<longleftrightarrow> rid = rid' \<and> tab = tab')"
  using key_to_rid_key [OF assms(1,2)] rid_to_key_inj [OF assms] by simp

theorem rid_to_key_round_trip_witness:
  "rid_to_key \<lparr>rid_page_no = 1, rid_slot_no = 2\<rparr> ''t_1'' \<noteq> rid_to_key \<lparr>rid_page_no = 11, rid_slot_no = 2\<rparr> ''t'' \<and>
   key_to_rid (rid_to_key \<lparr>rid_page_no = 12, rid_slot_no = 3\<rparr> ''t_1'') = Some \<lparr>rid_page_no = 12, rid_slot_no = 3\<rparr>"
  using rid_to_key_round_trip [of "\<lparr>rid_page_no = 1, rid_slot_no = 2\<rparr>" "\<lparr>rid_page_no = 11, rid_slot_no = 2\<rparr>" "''t_1''" "''t''"]
    rid_to_key_round_trip [of "\<lparr>rid_page_no = 12, rid_slot_no = 3\<rparr>" "\<lparr>rid_page_no = 12, rid_slot_no = 3\<rparr>" "''t_1''" "''t''"]
  by (simp add: int32_def)

subsection \<open>Behaviour that departs from snapshot isolation\<close>

text \<open>Updates can be lost. Transaction 5 reads the row at its snapshot 3; transaction 6 updates the row and commits at
  4; transaction 5 may still update the row, because only pending versions of others are checked, and its commit buries the
  version of 6, which it never saw.\<close>

theorem concurrent_update_lost:
  "let m1 = snd (snd (update_version example_rid [9] ''t'' (reader 6 3 4) example_mvcc));
       m2 = fst (commit_transaction (reader 6 3 4) (m1, None));
       (b, t5, m3) = update_version example_rid [8] ''t'' (reader 5 3 5) m2;
       m4 = fst (commit_transaction t5 (m3, None))
   in map_option tv_data (read_version example_rid ''t'' (reader 5 3 5) m2) = Some [7] \<and> b \<and>
      map_option tv_data (read_version example_rid ''t'' (reader 8 6 7) m4) = Some [8]"
proof -
  let ?k = "rid_to_key example_rid ''t''"
  let ?n = "(new_tuple_version [9] 6)\<lparr>tv_create_ts := 4\<rparr>" and ?o = "old_version\<lparr>tv_expire_ts := 4\<rparr>"
  define m2 where "m2 = fst (commit_transaction (reader 6 3 4)
    (snd (snd (update_version example_rid [9] ''t'' (reader 6 3 4) example_mvcc)), None))"
  have m2: "version_chains m2 ?k = Some [?n, ?o]" unfolding m2_def by (simp only: example_update example_commit)
  have r: "find_visible_version 3 5 [?n, ?o] = Some ?o"
    by (simp add: find_visible_version_def max_iterations_def numeral_eq_Suc INVALID_TIMESTAMP_def INT32_MAX_def)
  have u: "update_version example_rid [8] ''t'' (reader 5 3 5) m2 =
     (True, add_undo_log \<lparr>undo_type = UNDO_UPDATE, undo_rid = example_rid, undo_old_version = Some ?o,
        undo_table_name = ''t''\<rparr> (reader 5 3 5), set_chain ?k [new_tuple_version [8] 5, ?n, ?o] m2)"
    using m2 r
    by (simp add: update_version_def get_or_create_version_chain_def get_version_chain_def chain_update_def
        add_version_def INVALID_TIMESTAMP_def)
  let ?t5 = "add_undo_log \<lparr>undo_type = UNDO_UPDATE, undo_rid = example_rid, undo_old_version = Some ?o,
        undo_table_name = ''t''\<rparr> (reader 5 3 5)"
  have t5: "target_keys ?t5 = [?k]" "the_txn_id ?t5 = 5" "commit_ts ?t5 = 5"
    by (simp_all add: add_undo_log_def target_keys_def reader_def new_transaction_def is_tuple_write_def)
  have "version_chains (fst (commit_transaction ?t5 (set_chain ?k [new_tuple_version [8] 5, ?n, ?o] m2, None))) ?k =
     Some [(new_tuple_version [8] 5)\<lparr>tv_create_ts := 5\<rparr>, ?n\<lparr>tv_expire_ts := 5\<rparr>, ?o]"
    using t5 by (simp add: commit_transaction_key Let_def expire_prev_def INVALID_TIMESTAMP_def)
  then show ?thesis
    unfolding Let_def m2_def [symmetric] u prod.case
    using m2 r
    by (simp add: read_version_def get_version_chain_def find_visible_version_def max_iterations_def numeral_eq_Suc
        INVALID_TIMESTAMP_def INT32_MAX_def)
qed

text \<open>The commit timestamp is taken before the versions are stamped, without a lock: a transaction that begins in between has
  a snapshot that covers the commit and reads the row before and after the stamping. The same read then gives two answers.\<close>

lemma commit_race_changes_read:
  "let m1 = snd (snd (update_version example_rid [9] ''t'' (reader 6 3 4) example_mvcc));
       m2 = fst (commit_transaction (reader 6 3 4) (m1, None))
   in map_option tv_data (read_version example_rid ''t'' (reader 7 5 INVALID_TIMESTAMP) m1) = Some [7] \<and>
      map_option tv_data (read_version example_rid ''t'' (reader 7 5 INVALID_TIMESTAMP) m2) = Some [9]"
  using example_update example_commit
  by (simp add: Let_def read_version_def get_version_chain_def find_visible_version_def max_iterations_def numeral_eq_Suc
      INVALID_TIMESTAMP_def INT32_MAX_def)

text \<open>A row updated and then deleted by one committed transaction can be deleted again by a later one: the deletion search
  skips the deleted version and finds the update below it, which was never given an expiry.\<close>

lemma deleted_row_deleted_again:
  "let upd = (new_tuple_version [9] 6)\<lparr>tv_create_ts := 4\<rparr>; del = upd\<lparr>tv_is_deleted := True\<rparr>;
       c = fst (commit_walk 6 4 None [(new_tuple_version [9] 6)\<lparr>tv_is_deleted := True\<rparr>, new_tuple_version [9] 6, old_version])
   in c = [del, upd, old_version\<lparr>tv_expire_ts := 4\<rparr>] \<and> find_visible_version 8 7 c = None \<and> chain_delete 7 8 c \<noteq> None"
  by (simp add: Let_def expire_prev_def find_visible_version_def find_version_for_delete_def chain_delete_def
      has_write_conflict_def get_head_def max_iterations_def numeral_eq_Suc INVALID_TIMESTAMP_def INT32_MAX_def
      is_version_visible_def)

text \<open>Dropping a table also drops the chains of every table whose name extends it with an underscore.\<close>

lemma clear_table_versions_other_table:
  "version_chains (clear_table_versions tab m) (rid_to_key rid (tab @ ''_'' @ suffix)) = None"
  by (simp add: clear_table_versions_def clears_key_def is_prefix_def rid_to_key_def)

text \<open>The versions of 1000 later updates hide a row from an older snapshot.\<close>

lemma chain_of_1000_hides_row:
  assumes "version_chains m (rid_to_key rid tab) = Some (us @ c)" "max_iterations \<le> length us"
    "\<forall>u \<in> set us. tv_txn_id u \<noteq> the_txn_id t \<and> read_ts t < tv_create_ts u"
  shows "read_version rid tab t m = None"
  using assms chain_bound_hides [of us "the_txn_id t" "read_ts t" c]
  by (auto simp: read_version_def get_version_chain_def split: list.split)

end
