(* ===== verification/Lock_Manager.thy ===== *)
theory Lock_Manager
  imports Txn_Defs
begin

text \<open>
  The lock manager (\<^verbatim>\<open>src/src/transaction/concurrency/lock_manager.cpp\<close>): no-wait two-phase
  locking on rows and tables. Every call holds the manager's latch, so a call is one step from lock
  table to lock table. A request that conflicts aborts its transaction at once; \<^verbatim>\<open>cv_\<close> is never
  waited on and \<^verbatim>\<open>group_lock_mode_\<close> is never written, so a queue is its list of requests.
\<close>

subsection \<open>Model\<close>

datatype LockMode = SHARED | EXLUCSIVE | INTENTION_SHARED | INTENTION_EXCLUSIVE | S_IX

record LockRequest =
  lr_txn_id :: txn_id
  lr_mode :: LockMode
  lr_granted :: bool

type_synonym lock_table = "LockDataId \<rightharpoonup> LockRequest list"

definition lt_queue :: "lock_table \<Rightarrow> LockDataId \<Rightarrow> LockRequest list" where
  "lt_queue lt l = (case lt l of None \<Rightarrow> [] | Some q \<Rightarrow> q)"

text \<open>The common tails of the lock calls: refuse and abort, or append a granted request. A queue
  that was looked up exists from then on.\<close>

definition lock_refuse ::
  "LockDataId \<Rightarrow> Transaction \<Rightarrow> lock_table \<Rightarrow> bool \<times> Transaction \<times> lock_table" where
  "lock_refuse l t lt = (False, t\<lparr>txn_state := ABORTED\<rparr>, lt(l \<mapsto> lt_queue lt l))"

definition lock_grant ::
  "LockMode \<Rightarrow> LockDataId \<Rightarrow> Transaction \<Rightarrow> lock_table \<Rightarrow> bool \<times> Transaction \<times> lock_table" where
  "lock_grant m l t lt =
     (True, lock_set_insert l t,
      lt(l \<mapsto> lt_queue lt l @ [\<lparr>lr_txn_id = the_txn_id t, lr_mode = m, lr_granted = True\<rparr>]))"

definition shrinking_refuse :: "Transaction \<Rightarrow> lock_table \<Rightarrow> bool \<times> Transaction \<times> lock_table" where
  "shrinking_refuse t lt = (False, t\<lparr>txn_state := ABORTED\<rparr>, lt)"

definition lock_shared_on_record ::
  "Rid \<Rightarrow> int \<Rightarrow> Transaction \<Rightarrow> lock_table \<Rightarrow> bool \<times> Transaction \<times> lock_table" where
  "lock_shared_on_record rid tab_fd t lt =
     (if txn_state t = SHRINKING then shrinking_refuse t lt
      else let l = LockDataId_record tab_fd rid; q = lt_queue lt l
           in if \<exists>r \<in> set q. lr_txn_id r = the_txn_id t \<and> lr_granted r then (True, t, lt(l \<mapsto> q))
              else if \<exists>r \<in> set q. lr_granted r \<and> lr_mode r = EXLUCSIVE \<and> lr_txn_id r \<noteq> the_txn_id t
                   then lock_refuse l t lt
              else lock_grant SHARED l t lt)"

text \<open>The first loop of the exclusive lock: the first own granted request in mode X answers yes,
  in mode S no; other modes are passed over.\<close>

fun own_exclusive :: "txn_id \<Rightarrow> LockRequest list \<Rightarrow> bool option" where
  "own_exclusive tid [] = None"
| "own_exclusive tid (r # q) =
     (if lr_txn_id r = tid \<and> lr_granted r \<and> lr_mode r = EXLUCSIVE then Some True
      else if lr_txn_id r = tid \<and> lr_granted r \<and> lr_mode r = SHARED then Some False
      else own_exclusive tid q)"

definition lock_exclusive_on_record ::
  "Rid \<Rightarrow> int \<Rightarrow> Transaction \<Rightarrow> lock_table \<Rightarrow> bool \<times> Transaction \<times> lock_table" where
  "lock_exclusive_on_record rid tab_fd t lt =
     (if txn_state t = SHRINKING then shrinking_refuse t lt
      else let l = LockDataId_record tab_fd rid; q = lt_queue lt l
           in case own_exclusive (the_txn_id t) q of
                Some True \<Rightarrow> (True, t, lt(l \<mapsto> q))
              | Some False \<Rightarrow> lock_refuse l t lt
              | None \<Rightarrow>
                  (if \<exists>r \<in> set q. lr_granted r \<and> lr_txn_id r \<noteq> the_txn_id t then lock_refuse l t lt
                   else lock_grant EXLUCSIVE l t lt))"

text \<open>The four table locks differ in the modes of others that refuse them.\<close>

definition lock_on_table ::
  "LockMode \<Rightarrow> LockMode set \<Rightarrow> int \<Rightarrow> Transaction \<Rightarrow> lock_table \<Rightarrow> bool \<times> Transaction \<times> lock_table" where
  "lock_on_table m refused tab_fd t lt =
     (if txn_state t = SHRINKING then shrinking_refuse t lt
      else let l = LockDataId_table tab_fd; q = lt_queue lt l
           in if \<exists>r \<in> set q. lr_granted r \<and> lr_txn_id r \<noteq> the_txn_id t \<and> lr_mode r \<in> refused
              then lock_refuse l t lt
              else lock_grant m l t lt)"

definition lock_shared_on_table ::
  "int \<Rightarrow> Transaction \<Rightarrow> lock_table \<Rightarrow> bool \<times> Transaction \<times> lock_table" where
  "lock_shared_on_table = lock_on_table SHARED {EXLUCSIVE, INTENTION_EXCLUSIVE, S_IX}"

definition lock_exclusive_on_table ::
  "int \<Rightarrow> Transaction \<Rightarrow> lock_table \<Rightarrow> bool \<times> Transaction \<times> lock_table" where
  "lock_exclusive_on_table =
     lock_on_table EXLUCSIVE {SHARED, EXLUCSIVE, INTENTION_SHARED, INTENTION_EXCLUSIVE, S_IX}"

definition lock_IS_on_table ::
  "int \<Rightarrow> Transaction \<Rightarrow> lock_table \<Rightarrow> bool \<times> Transaction \<times> lock_table" where
  "lock_IS_on_table = lock_on_table INTENTION_SHARED {EXLUCSIVE}"

definition lock_IX_on_table ::
  "int \<Rightarrow> Transaction \<Rightarrow> lock_table \<Rightarrow> bool \<times> Transaction \<times> lock_table" where
  "lock_IX_on_table = lock_on_table INTENTION_EXCLUSIVE {EXLUCSIVE, SHARED, S_IX}"

text \<open>\<open>unlock\<close> removes the first request of the transaction and drops an empty queue.\<close>

fun remove_request :: "txn_id \<Rightarrow> LockRequest list \<Rightarrow> LockRequest list option" where
  "remove_request tid [] = None"
| "remove_request tid (r # q) =
     (if lr_txn_id r = tid then Some q
      else (case remove_request tid q of None \<Rightarrow> None | Some q' \<Rightarrow> Some (r # q')))"

definition unlock :: "LockDataId \<Rightarrow> Transaction \<Rightarrow> lock_table \<Rightarrow> bool \<times> Transaction \<times> lock_table" where
  "unlock l t lt =
     (let t1 = (if txn_state t = GROWING then t\<lparr>txn_state := SHRINKING\<rparr> else t)
      in case lt l of
           None \<Rightarrow> (False, t1, lt)
         | Some q \<Rightarrow>
             (let t2 = lock_set_erase l t1
              in case remove_request (the_txn_id t) q of
                   None \<Rightarrow> (False, t2, lt)
                 | Some [] \<Rightarrow> (True, t2, lt(l := None))
                 | Some q' \<Rightarrow> (True, t2, lt(l \<mapsto> q'))))"

text \<open>The release loop of \<^verbatim>\<open>TransactionManager::commit\<close> and \<^verbatim>\<open>abort\<close>: over a copy of the lock set.\<close>

fun unlock_each :: "LockDataId list \<Rightarrow> Transaction \<Rightarrow> lock_table \<Rightarrow> Transaction \<times> lock_table" where
  "unlock_each [] t lt = (t, lt)"
| "unlock_each (l # ls) t lt = (case unlock l t lt of (_, t', lt') \<Rightarrow> unlock_each ls t' lt')"

definition release_locks :: "Transaction \<Rightarrow> lock_table \<Rightarrow> Transaction \<times> lock_table" where
  "release_locks t lt = unlock_each (lock_set t) t lt"

subsection \<open>Compatibility\<close>

text \<open>The standard compatibility matrix of multi-granularity locking.\<close>

fun compatible :: "LockMode \<Rightarrow> LockMode \<Rightarrow> bool" where
  "compatible INTENTION_SHARED m \<longleftrightarrow> m \<noteq> EXLUCSIVE"
| "compatible INTENTION_EXCLUSIVE m \<longleftrightarrow> m = INTENTION_SHARED \<or> m = INTENTION_EXCLUSIVE"
| "compatible SHARED m \<longleftrightarrow> m = INTENTION_SHARED \<or> m = SHARED"
| "compatible S_IX m \<longleftrightarrow> m = INTENTION_SHARED"
| "compatible EXLUCSIVE m \<longleftrightarrow> False"

definition queue_ok :: "LockRequest list \<Rightarrow> bool" where
  "queue_ok q \<longleftrightarrow> (\<forall>r \<in> set q. \<forall>s \<in> set q. lr_txn_id r \<noteq> lr_txn_id s \<longrightarrow> lr_granted r \<longrightarrow> lr_granted s \<longrightarrow>
     compatible (lr_mode r) (lr_mode s))"

definition row_modes_ok :: "lock_table \<Rightarrow> bool" where
  "row_modes_ok lt \<longleftrightarrow> (\<forall>l q r. lt l = Some q \<longrightarrow> r \<in> set q \<longrightarrow> lr_granted r \<and>
     (ld_type l = RECORD \<longrightarrow> lr_mode r = SHARED \<or> lr_mode r = EXLUCSIVE))"

definition locks_ok :: "lock_table \<Rightarrow> bool" where
  "locks_ok lt \<longleftrightarrow> (\<forall>l q. lt l = Some q \<longrightarrow> queue_ok q) \<and> row_modes_ok lt"

datatype lock_call = LSharedRecord Rid int | LExclusiveRecord Rid int | LSharedTable int
  | LExclusiveTable int | LIS int | LIX int | LUnlock LockDataId

fun lock_exec :: "lock_call \<Rightarrow> Transaction \<Rightarrow> lock_table \<Rightarrow> bool \<times> Transaction \<times> lock_table" where
  "lock_exec (LSharedRecord rid fd) t lt = lock_shared_on_record rid fd t lt"
| "lock_exec (LExclusiveRecord rid fd) t lt = lock_exclusive_on_record rid fd t lt"
| "lock_exec (LSharedTable fd) t lt = lock_shared_on_table fd t lt"
| "lock_exec (LExclusiveTable fd) t lt = lock_exclusive_on_table fd t lt"
| "lock_exec (LIS fd) t lt = lock_IS_on_table fd t lt"
| "lock_exec (LIX fd) t lt = lock_IX_on_table fd t lt"
| "lock_exec (LUnlock l) t lt = unlock l t lt"

text \<open>Lock tables reached from the empty one by calls of any transactions in any order.\<close>

inductive lock_reachable :: "lock_table \<Rightarrow> bool" where
  start: "lock_reachable Map.empty"
| call: "lock_reachable lt \<Longrightarrow> lock_exec c t lt = (b, t', lt') \<Longrightarrow> lock_reachable lt'"

lemma queue_ok_lookup: "locks_ok lt \<Longrightarrow> queue_ok (lt_queue lt l)"
  by (cases "lt l") (auto simp: locks_ok_def lt_queue_def queue_ok_def)

lemma row_modes_lookup:
  "locks_ok lt \<Longrightarrow> r \<in> set (lt_queue lt l) \<Longrightarrow>
     lr_granted r \<and> (ld_type l = RECORD \<longrightarrow> lr_mode r = SHARED \<or> lr_mode r = EXLUCSIVE)"
  by (cases "lt l") (auto simp: locks_ok_def row_modes_ok_def lt_queue_def)

lemma locks_ok_upd:
  "locks_ok lt \<Longrightarrow> queue_ok q \<Longrightarrow>
     \<forall>r \<in> set q. lr_granted r \<and> (ld_type l = RECORD \<longrightarrow> lr_mode r = SHARED \<or> lr_mode r = EXLUCSIVE) \<Longrightarrow>
     locks_ok (lt(l \<mapsto> q))"
  by (auto simp: locks_ok_def row_modes_ok_def)

lemma locks_ok_touch: "locks_ok lt \<Longrightarrow> locks_ok (lt(l \<mapsto> lt_queue lt l))"
  by (rule locks_ok_upd) (auto dest: queue_ok_lookup row_modes_lookup)

lemma locks_ok_del: "locks_ok lt \<Longrightarrow> locks_ok (lt(l := None))"
  by (auto simp: locks_ok_def row_modes_ok_def)

lemma locks_ok_refuse: "locks_ok lt \<Longrightarrow> locks_ok (snd (snd (lock_refuse l t lt)))"
  by (simp add: lock_refuse_def locks_ok_touch)

lemma compatible_sym: "compatible m m' \<longleftrightarrow> compatible m' m"
  by (cases m; cases m') auto

lemma locks_ok_grant:
  assumes "locks_ok lt"
    and "\<And>r. r \<in> set (lt_queue lt l) \<Longrightarrow> lr_granted r \<Longrightarrow> lr_txn_id r \<noteq> the_txn_id t \<Longrightarrow> compatible m (lr_mode r)"
    and "ld_type l = RECORD \<longrightarrow> m = SHARED \<or> m = EXLUCSIVE"
  shows "locks_ok (snd (snd (lock_grant m l t lt)))"
proof -
  have "queue_ok (lt_queue lt l @ [\<lparr>lr_txn_id = the_txn_id t, lr_mode = m, lr_granted = True\<rparr>])"
    using queue_ok_lookup [OF assms(1), of l] assms(2)
    unfolding queue_ok_def using compatible_sym by fastforce
  then have "locks_ok (lt(l \<mapsto> lt_queue lt l @ [\<lparr>lr_txn_id = the_txn_id t, lr_mode = m, lr_granted = True\<rparr>]))"
    using assms(3) row_modes_lookup [OF assms(1), of _ l] by (intro locks_ok_upd [OF assms(1)]) auto
  then show ?thesis by (simp add: lock_grant_def)
qed

lemma locks_ok_shared_record:
  assumes "locks_ok lt" shows "locks_ok (snd (snd (lock_shared_on_record rid fd t lt)))"
proof -
  have "ld_type (LockDataId_record fd rid) = RECORD" by (simp add: LockDataId_record_def)
  then have "locks_ok (snd (snd (lock_grant SHARED (LockDataId_record fd rid) t lt)))"
    if "\<not> (\<exists>r \<in> set (lt_queue lt (LockDataId_record fd rid)).
      lr_granted r \<and> lr_mode r = EXLUCSIVE \<and> lr_txn_id r \<noteq> the_txn_id t)"
    using that assms row_modes_lookup [OF assms, of _ "LockDataId_record fd rid"]
    by (intro locks_ok_grant) auto
  then show ?thesis using assms
    by (auto simp: lock_shared_on_record_def shrinking_refuse_def Let_def locks_ok_refuse locks_ok_touch)
qed

lemma locks_ok_exclusive_record:
  assumes "locks_ok lt" shows "locks_ok (snd (snd (lock_exclusive_on_record rid fd t lt)))"
proof -
  have "ld_type (LockDataId_record fd rid) = RECORD" by (simp add: LockDataId_record_def)
  then have "locks_ok (snd (snd (lock_grant EXLUCSIVE (LockDataId_record fd rid) t lt)))"
    if "\<not> (\<exists>r \<in> set (lt_queue lt (LockDataId_record fd rid)). lr_granted r \<and> lr_txn_id r \<noteq> the_txn_id t)"
    using that assms by (intro locks_ok_grant) auto
  then show ?thesis using assms
    by (auto simp: lock_exclusive_on_record_def shrinking_refuse_def Let_def locks_ok_refuse locks_ok_touch
        split: option.split bool.split)
qed

lemma locks_ok_on_table:
  assumes "locks_ok lt" "\<And>m'. m' \<notin> refused \<Longrightarrow> compatible m m'"
  shows "locks_ok (snd (snd (lock_on_table m refused fd t lt)))"
proof -
  have "ld_type (LockDataId_table fd) = TABLE" by (simp add: LockDataId_table_def)
  then have "locks_ok (snd (snd (lock_grant m (LockDataId_table fd) t lt)))"
    if "\<not> (\<exists>r \<in> set (lt_queue lt (LockDataId_table fd)).
      lr_granted r \<and> lr_txn_id r \<noteq> the_txn_id t \<and> lr_mode r \<in> refused)"
    using that assms by (intro locks_ok_grant) auto
  then show ?thesis using assms
    by (auto simp: lock_on_table_def shrinking_refuse_def Let_def locks_ok_refuse)
qed

lemma compatible_tables:
  "m \<notin> {EXLUCSIVE, INTENTION_EXCLUSIVE, S_IX} \<Longrightarrow> compatible SHARED m"
  "m \<notin> {SHARED, EXLUCSIVE, INTENTION_SHARED, INTENTION_EXCLUSIVE, S_IX} \<Longrightarrow> compatible EXLUCSIVE m"
  "m \<notin> {EXLUCSIVE} \<Longrightarrow> compatible INTENTION_SHARED m"
  "m \<notin> {EXLUCSIVE, SHARED, S_IX} \<Longrightarrow> compatible INTENTION_EXCLUSIVE m"
  by (cases m; simp)+

lemma remove_request_set: "remove_request tid q = Some q' \<Longrightarrow> set q' \<subseteq> set q"
  by (induction q arbitrary: q') (auto split: if_splits option.splits)

lemma locks_ok_unlock: "locks_ok lt \<Longrightarrow> locks_ok (snd (snd (unlock l t lt)))"
proof (cases "lt l")
  case (Some q)
  assume ok: "locks_ok lt"
  have q: "lt_queue lt l = q" using Some by (simp add: lt_queue_def)
  have upd: "locks_ok (lt(l \<mapsto> q'))" if "remove_request (the_txn_id t) q = Some q'" for q'
    using remove_request_set [OF that] queue_ok_lookup [OF ok, of l] row_modes_lookup [OF ok, of _ l] q ok
    by (intro locks_ok_upd) (auto simp: queue_ok_def subset_iff)
  then show ?thesis using ok Some
    by (auto simp: unlock_def Let_def locks_ok_del split: option.split list.split)
qed (simp add: unlock_def Let_def)

lemmas table_lock_defs = lock_shared_on_table_def lock_exclusive_on_table_def lock_IS_on_table_def
  lock_IX_on_table_def

lemma locks_ok_tables:
  assumes "locks_ok lt"
  shows "locks_ok (snd (snd (lock_shared_on_table fd t lt)))"
    and "locks_ok (snd (snd (lock_exclusive_on_table fd t lt)))"
    and "locks_ok (snd (snd (lock_IS_on_table fd t lt)))"
    and "locks_ok (snd (snd (lock_IX_on_table fd t lt)))"
  unfolding table_lock_defs by (rule locks_ok_on_table [OF assms], erule compatible_tables)+

lemma locks_ok_exec: "locks_ok lt \<Longrightarrow> locks_ok (snd (snd (lock_exec c t lt)))"
  by (cases c) (simp_all add: locks_ok_shared_record locks_ok_exclusive_record locks_ok_tables locks_ok_unlock)

lemma lock_reachable_exec: "lock_reachable lt \<Longrightarrow> lock_reachable (snd (snd (lock_exec c t lt)))"
  by (rule lock_reachable.call [of lt c t "fst (lock_exec c t lt)" "fst (snd (lock_exec c t lt))"]) simp_all

lemma locks_ok_reachable: "lock_reachable lt \<Longrightarrow> locks_ok lt"
proof (induction rule: lock_reachable.induct)
  case start
  then show ?case by (simp add: locks_ok_def row_modes_ok_def)
next
  case (call lt c t b t' lt')
  then show ?case using locks_ok_exec [of lt c t] by simp
qed

subsection \<open>Release\<close>

text \<open>The number of requests a transaction has in a queue, and the correspondence of its lock set
  with the lock table: one request in each queue of the set, none elsewhere.\<close>

definition requests_of :: "txn_id \<Rightarrow> LockRequest list \<Rightarrow> nat" where
  "requests_of tid q = length (filter (\<lambda>r. lr_txn_id r = tid) q)"

definition lock_set_matches :: "Transaction \<Rightarrow> lock_table \<Rightarrow> bool" where
  "lock_set_matches t lt \<longleftrightarrow>
     (\<forall>l. requests_of (the_txn_id t) (lt_queue lt l) = (if l \<in> set (lock_set t) then 1 else 0))"

lemma requests_of_simps [simp]:
  "requests_of tid [] = 0"
  "requests_of tid (r # q) = (if lr_txn_id r = tid then 1 else 0) + requests_of tid q"
  "requests_of tid (q @ q') = requests_of tid q + requests_of tid q'"
  by (simp_all add: requests_of_def)

lemma requests_of_0: "requests_of tid q = 0 \<longleftrightarrow> (\<forall>r \<in> set q. lr_txn_id r \<noteq> tid)"
  by (induction q) auto

lemma lt_queue_simps [simp]:
  "lt_queue (lt(l \<mapsto> q)) l' = (if l' = l then q else lt_queue lt l')"
  "lt_queue (lt(l := None)) l' = (if l' = l then [] else lt_queue lt l')"
  by (auto simp: lt_queue_def)

lemma lock_set_matches_row:
  assumes "lock_set_matches t lt" "locks_ok lt"
    and "lock_exclusive_on_record rid fd t lt = (b, t', lt') \<or> lock_shared_on_record rid fd t lt = (b, t', lt')"
  shows "lock_set_matches t' lt'"
proof -
  let ?l = "LockDataId_record fd rid"
  have none: "?l \<notin> set (lock_set t)" if "\<not> (\<exists>r \<in> set (lt_queue lt ?l). lr_txn_id r = the_txn_id t)"
    using assms(1) that requests_of_0 [of "the_txn_id t" "lt_queue lt ?l"]
    by (auto simp: lock_set_matches_def split: if_splits dest: spec [of _ ?l])
  have grant: "lock_set_matches (lock_set_insert ?l t) (snd (snd (lock_grant m ?l t lt)))"
    if "\<not> (\<exists>r \<in> set (lt_queue lt ?l). lr_txn_id r = the_txn_id t)" for m
    using assms(1) none [OF that] by (auto simp: lock_set_matches_def lock_grant_def)
  have touch: "lock_set_matches (t\<lparr>txn_state := s\<rparr>) (lt(l \<mapsto> lt_queue lt l))" 
    "lock_set_matches t (lt(l \<mapsto> lt_queue lt l))" "lock_set_matches (t\<lparr>txn_state := s\<rparr>) lt" for s l
    using assms(1) by (auto simp: lock_set_matches_def)
  have own: "\<not> (\<exists>r \<in> set (lt_queue lt ?l). lr_txn_id r = the_txn_id t)" 
    if "own_exclusive (the_txn_id t) (lt_queue lt ?l) = None"
  proof -
    have "own_exclusive tid q = None \<Longrightarrow> r \<in> set q \<Longrightarrow> lr_granted r \<and> (lr_mode r = SHARED \<or> lr_mode r = EXLUCSIVE) \<Longrightarrow>
      lr_txn_id r \<noteq> tid" for tid q r
      by (induction q) (auto split: if_splits)
    then show ?thesis using that row_modes_lookup [OF assms(2), of _ ?l]
      by (auto simp: LockDataId_record_def)
  qed
  have shared: "\<not> (\<exists>r \<in> set (lt_queue lt ?l). lr_txn_id r = the_txn_id t)" 
    if "\<not> (\<exists>r \<in> set (lt_queue lt ?l). lr_txn_id r = the_txn_id t \<and> lr_granted r)"
    using that row_modes_lookup [OF assms(2), of _ ?l] by auto
  show ?thesis
    using assms(3)
  proof
    assume e: "lock_exclusive_on_record rid fd t lt = (b, t', lt')"
    show ?thesis
      using e grant [OF own] touch
      by (auto simp: lock_exclusive_on_record_def Let_def lock_refuse_def shrinking_refuse_def lock_grant_def
          split: if_splits option.splits bool.splits)
  next
    assume e: "lock_shared_on_record rid fd t lt = (b, t', lt')"
    show ?thesis
      using e grant [OF shared] touch
      by (auto simp: lock_shared_on_record_def Let_def lock_refuse_def shrinking_refuse_def lock_grant_def
          split: if_splits)
  qed
qed

lemma remove_request_count:
  "remove_request tid q = (if requests_of tid q = 0 then None else Some q') \<Longrightarrow> requests_of tid q \<noteq> 0 \<Longrightarrow>
     requests_of tid q' = requests_of tid q - 1"
  by (induction q arbitrary: q') (auto split: if_splits option.splits)

lemma remove_request_None: "remove_request tid q = None \<longleftrightarrow> requests_of tid q = 0"
  by (induction q) (auto split: option.splits)

lemma remove_request_other:
  "remove_request tid q = Some q' \<Longrightarrow> filter (\<lambda>r. lr_txn_id r \<noteq> tid) q' = filter (\<lambda>r. lr_txn_id r \<noteq> tid) q"
  by (induction q arbitrary: q') (auto split: if_splits option.splits)

lemma unlock_held:
  assumes "lock_set_matches t lt" "l \<in> set (lock_set t)" "unlock l t lt = (b, t', lt')"
  shows "b \<and> lock_set_matches t' lt' \<and> lock_set t' = removeAll l (lock_set t) \<and> the_txn_id t' = the_txn_id t \<and>
    (\<forall>l'. filter (\<lambda>r. lr_txn_id r \<noteq> the_txn_id t) (lt_queue lt' l')
        = filter (\<lambda>r. lr_txn_id r \<noteq> the_txn_id t) (lt_queue lt l'))"
proof -
  have one: "requests_of (the_txn_id t) (lt_queue lt l) = 1"
    using assms(1,2) by (simp add: lock_set_matches_def)
  then obtain q where q: "lt l = Some q" "lt_queue lt l = q"
    by (cases "lt l") (auto simp: lt_queue_def)
  obtain q' where q': "remove_request (the_txn_id t) q = Some q'"
    using one q remove_request_None [of "the_txn_id t" q] by (cases "remove_request (the_txn_id t) q") auto
  have cnt: "requests_of (the_txn_id t) q' = 0"
    using remove_request_count [of "the_txn_id t" q q'] one q q' by simp
  let ?t = "lock_set_erase l (if txn_state t = GROWING then t\<lparr>txn_state := SHRINKING\<rparr> else t)"
  have t': "b" "t' = ?t" "lt_queue lt' = (lt_queue lt)(l := q')"
    using assms(3) q q' by (auto simp: unlock_def Let_def split: list.splits)
  have ls: "lock_set ?t = removeAll l (lock_set t)" "the_txn_id ?t = the_txn_id t"
    by (auto simp: lock_set_erase_def)
  show ?thesis
    using assms(1) t' cnt ls remove_request_other [OF q'] q
    by (auto simp: lock_set_matches_def)
qed

lemma unlock_each_held:
  assumes "lock_set_matches t lt" "set ls \<subseteq> set (lock_set t)" "distinct ls" "unlock_each ls t lt = (t', lt')"
  shows "lock_set_matches t' lt' \<and> set (lock_set t') = set (lock_set t) - set ls \<and> the_txn_id t' = the_txn_id t \<and>
    (\<forall>l. filter (\<lambda>r. lr_txn_id r \<noteq> the_txn_id t) (lt_queue lt' l)
       = filter (\<lambda>r. lr_txn_id r \<noteq> the_txn_id t) (lt_queue lt l))"
  using assms
proof (induction ls arbitrary: t lt)
  case (Cons l ls)
  obtain b t1 lt1 where u: "unlock l t lt = (b, t1, lt1)" by (cases "unlock l t lt") auto
  have h: "b \<and> lock_set_matches t1 lt1 \<and> lock_set t1 = removeAll l (lock_set t) \<and> the_txn_id t1 = the_txn_id t \<and>
    (\<forall>l'. filter (\<lambda>r. lr_txn_id r \<noteq> the_txn_id t) (lt_queue lt1 l')
        = filter (\<lambda>r. lr_txn_id r \<noteq> the_txn_id t) (lt_queue lt l'))"
    using unlock_held [OF Cons.prems(1) _ u] Cons.prems(2) by simp
  have "unlock_each ls t1 lt1 = (t', lt')" using Cons.prems(4) u by simp
  then show ?case
    using Cons.IH [of t1 lt1] h Cons.prems by auto
qed simp

subsection \<open>Properties\<close>

text \<open>C24: In every lock table reached by calls of any transactions in any order, two requests of
  different transactions in the same queue are compatible in the matrix of multi-granularity locking;
  on a row, an exclusive request excludes every request of another transaction.\<close>

theorem granted_locks_compatible:
  assumes "lock_reachable lt" "lt l = Some q" "r \<in> set q" "s \<in> set q" "lr_txn_id r \<noteq> lr_txn_id s"
  shows "compatible (lr_mode r) (lr_mode s)"
proof -
  have "lr_granted r" "lr_granted s" "queue_ok q"
    using locks_ok_reachable [OF assms(1)] assms(2-4) by (auto simp: locks_ok_def row_modes_ok_def)
  then show ?thesis using assms(3-5) by (simp add: queue_ok_def)
qed

definition example_txn :: "txn_id \<Rightarrow> Transaction" where
  "example_txn tid = (new_transaction tid SERIALIZABLE)\<lparr>txn_state := GROWING\<rparr>"

theorem granted_locks_compatible_witness:
  "compatible INTENTION_EXCLUSIVE INTENTION_SHARED \<and>
   (let lt = snd (snd (lock_exec (LIX 3) (example_txn 1) Map.empty));
        lt2 = snd (snd (lock_exec (LIS 3) (example_txn 2) lt))
    in lock_reachable lt2)"
proof -
  let ?lt = "snd (snd (lock_exec (LIX 3) (example_txn 1) Map.empty))"
  let ?r = "\<lparr>lr_txn_id = 1, lr_mode = INTENTION_EXCLUSIVE, lr_granted = True\<rparr>"
  let ?s = "\<lparr>lr_txn_id = 2, lr_mode = INTENTION_SHARED, lr_granted = True\<rparr>"
  let ?lt2 = "snd (snd (lock_exec (LIS 3) (example_txn 2) ?lt))"
  have r1: "lock_reachable ?lt"
    by (rule lock_reachable_exec [OF lock_reachable.start])
  have r2: "lock_reachable ?lt2"
    by (rule lock_reachable_exec [OF r1])
  have "?lt2 (LockDataId_table 3) = Some [?r, ?s]"
    by (simp add: lock_IX_on_table_def lock_IS_on_table_def lock_on_table_def Let_def lt_queue_def lock_grant_def
        example_txn_def new_transaction_def)
  then have "compatible (lr_mode ?r) (lr_mode ?s)"
    by (rule granted_locks_compatible [OF r2]) simp_all
  then show ?thesis using r2 by (simp add: Let_def)
qed

text \<open>The end of a transaction releases everything: when the lock set names exactly the queues
  that hold a request of the transaction (one each, as row locks keep it), the release loop empties
  the lock set, leaves no request of the transaction in any queue and does not touch the requests of
  others.\<close>

theorem release_locks_complete:
  assumes "lock_set_matches t lt" "distinct (lock_set t)" "release_locks t lt = (t', lt')"
  shows "lock_set t' = [] \<and>
    (\<forall>l. lt_queue lt' l = filter (\<lambda>r. lr_txn_id r \<noteq> the_txn_id t) (lt_queue lt l))"
proof -
  have h: "lock_set_matches t' lt' \<and> set (lock_set t') = {} \<and> the_txn_id t' = the_txn_id t \<and>
    (\<forall>l. filter (\<lambda>r. lr_txn_id r \<noteq> the_txn_id t) (lt_queue lt' l)
       = filter (\<lambda>r. lr_txn_id r \<noteq> the_txn_id t) (lt_queue lt l))"
    using unlock_each_held [OF assms(1) _ assms(2)] assms(3) by (simp add: release_locks_def)
  then have "requests_of (the_txn_id t) (lt_queue lt' l) = 0" for l
    unfolding lock_set_matches_def by (metis empty_iff)
  then have "filter (\<lambda>r. lr_txn_id r \<noteq> the_txn_id t) (lt_queue lt' l) = lt_queue lt' l" for l
    by (simp add: requests_of_0 filter_id_conv)
  then show ?thesis using h by simp
qed

theorem release_locks_complete_witness:
  "let t0 = example_txn 1; rid = \<lparr>rid_page_no = 1, rid_slot_no = 0\<rparr>;
       (b, t1, lt1) = lock_exclusive_on_record rid 3 t0 Map.empty;
       (t2, lt2) = release_locks t1 lt1
   in b \<and> lock_set t2 = [] \<and> lt_queue lt2 (LockDataId_record 3 rid) = []"
proof -
  let ?rid = "\<lparr>rid_page_no = 1, rid_slot_no = 0\<rparr>" and ?t0 = "example_txn 1"
  let ?l = "LockDataId_record 3 ?rid"
  let ?r = "\<lparr>lr_txn_id = 1, lr_mode = EXLUCSIVE, lr_granted = True\<rparr>"
  have l: "lock_exclusive_on_record ?rid 3 ?t0 Map.empty
      = (True, lock_set_insert ?l ?t0, Map.empty(?l \<mapsto> [?r]))"
    by (simp add: lock_exclusive_on_record_def Let_def lt_queue_def lock_grant_def example_txn_def new_transaction_def)
  obtain t2 lt2 where r: "release_locks (lock_set_insert ?l ?t0) (Map.empty(?l \<mapsto> [?r])) = (t2, lt2)"
    by fastforce
  have ls: "lock_set (lock_set_insert ?l ?t0) = [?l]" "the_txn_id (lock_set_insert ?l ?t0) = 1"
    by (simp_all add: lock_set_insert_def example_txn_def new_transaction_def)
  have "lock_set_matches (lock_set_insert ?l ?t0) (Map.empty(?l \<mapsto> [?r]))"
    using ls by (auto simp: lock_set_matches_def lt_queue_def)
  then have "lock_set t2 = [] \<and> (\<forall>l. lt_queue lt2 l
      = filter (\<lambda>r. lr_txn_id r \<noteq> 1) (lt_queue (Map.empty(?l \<mapsto> [?r])) l))"
    using release_locks_complete [OF _ _ r] ls by simp
  then show ?thesis using l r by (simp add: Let_def)
qed

text \<open>A transaction that takes an intention lock and then a shared lock on the same table has two
  requests in its queue and one entry in its lock set; the release loop removes only the first request,
  so the shared lock stays in the table after the transaction has ended and refuses every later
  intention-exclusive lock on that table.\<close>

theorem table_lock_leak:
  "let t0 = example_txn 1;
       (b1, t1, lt1) = lock_IS_on_table fd t0 Map.empty;
       (b2, t2, lt2) = lock_shared_on_table fd t1 lt1;
       (t3, lt3) = release_locks t2 lt2
   in b1 \<and> b2 \<and> lock_set t3 = [] \<and>
      lt3 (LockDataId_table fd) = Some [\<lparr>lr_txn_id = 1, lr_mode = SHARED, lr_granted = True\<rparr>] \<and>
      \<not> fst (lock_IX_on_table fd (example_txn 2) lt3)"
  by (simp add: table_lock_defs lock_on_table_def Let_def lt_queue_def lock_grant_def example_txn_def
      new_transaction_def release_locks_def unlock_def lock_set_insert_def lock_set_erase_def lock_refuse_def)

end
