(* ===== verification/Transactions.thy ===== *)
theory Transactions
  imports Mvcc_Manager Lock_Manager
begin

text \<open>
  The transaction manager (\<^verbatim>\<open>src/src/transaction/transaction_manager.cpp\<close>): begin, commit and abort, over
  the version manager, the lock manager, the snapshot manager, the record files and the log.

  \<^verbatim>\<open>ENABLE_MVCC\<close> is the constant true of \<^verbatim>\<open>config.h\<close>, so the branches for the other mode
  (\<^verbatim>\<open>rollback_traditional\<close> among them) are not part of the model; the version manager is set. The
  version manager's commit never throws (theory \<open>Mvcc_Manager\<close>), so neither does the branch of \<^verbatim>\<open>commit\<close>
  that handles a failed commit run. Records handed to the log manager are collected in \<open>tm_log\<close>; log
  errors are swallowed by the code. The index handles the roll back calls are a parameter
  (\<open>index_ops\<close>) of the model.

  A \<^verbatim>\<open>Transaction\<close> object is passed in and returned; \<open>txn_map\<close> holds the registered objects, and
  \<open>put_txn\<close> records a change made to a registered object through its pointer.
\<close>

subsection \<open>Model\<close>

definition ENABLE_MVCC :: bool where "ENABLE_MVCC = True"

record 'i txn_manager =
  next_txn_id :: txn_id
  next_timestamp :: timestamp
  txn_map :: "txn_id \<rightharpoonup> Transaction"
  tm_snapshots :: snapshot_manager
  tm_locks :: lock_table
  tm_mvcc :: mvcc_manager
  tm_storage :: storage
  tm_indexes :: 'i
  tm_log :: "log_record list"

text \<open>\<open>ix_delete name key\<close> and \<open>ix_insert name key rid\<close> stand for \<^verbatim>\<open>ihs_[name]->delete_entry\<close> and
  \<^verbatim>\<open>insert_entry\<close> with their exceptions swallowed.\<close>

record 'i index_ops =
  ix_delete :: "string \<Rightarrow> bytes \<Rightarrow> 'i \<Rightarrow> 'i"
  ix_insert :: "string \<Rightarrow> bytes \<Rightarrow> Rid \<Rightarrow> 'i \<Rightarrow> 'i"

definition txn_manager_new :: "storage \<Rightarrow> 'i \<Rightarrow> 'i txn_manager" where
  "txn_manager_new st ix =
     \<lparr>next_txn_id = 0, next_timestamp = 1, txn_map = Map.empty, tm_snapshots = {}, tm_locks = Map.empty,
      tm_mvcc = mvcc_new, tm_storage = st, tm_indexes = ix, tm_log = []\<rparr>"

definition put_txn :: "Transaction \<Rightarrow> 'i txn_manager \<Rightarrow> 'i txn_manager" where
  "put_txn t s = (if txn_map s (the_txn_id t) = None then s else s\<lparr>txn_map := (txn_map s)(the_txn_id t \<mapsto> t)\<rparr>)"

definition get_transaction :: "txn_id \<Rightarrow> 'i txn_manager \<Rightarrow> Transaction option" where
  "get_transaction tid s = (if tid = INVALID_TXN_ID then None else txn_map s tid)"

definition get_next_timestamp :: "'i txn_manager \<Rightarrow> timestamp \<times> 'i txn_manager" where
  "get_next_timestamp s = (next_timestamp s, s\<lparr>next_timestamp := next_timestamp s + 1\<rparr>)"

definition get_current_timestamp :: "'i txn_manager \<Rightarrow> timestamp" where
  "get_current_timestamp s = next_timestamp s"

definition is_committed :: "txn_id \<Rightarrow> 'i txn_manager \<Rightarrow> bool" where
  "is_committed tid s =
     (if tid = INVALID_TXN_ID then False
      else case txn_map s tid of None \<Rightarrow> True | Some t \<Rightarrow> txn_state t = COMMITTED)"

definition is_aborted :: "txn_id \<Rightarrow> 'i txn_manager \<Rightarrow> bool" where
  "is_aborted tid s =
     (if tid = INVALID_TXN_ID then False
      else case txn_map s tid of None \<Rightarrow> False | Some t \<Rightarrow> txn_state t = ABORTED)"

definition tm_add_log :: "log_record \<Rightarrow> 'i txn_manager \<Rightarrow> 'i txn_manager" where
  "tm_add_log r s = s\<lparr>tm_log := tm_log s @ [r]\<rparr>"

text \<open>\<^verbatim>\<open>begin\<close>: with a null pointer a new transaction is created and registered, otherwise the given one is
  only logged again.\<close>

definition create_transaction :: "'i txn_manager \<Rightarrow> Transaction \<times> 'i txn_manager" where
  "create_transaction s =
     (let tid = next_txn_id s;
          t0 = (new_transaction tid SERIALIZABLE)\<lparr>txn_state := GROWING\<rparr>;
          r = (if next_timestamp s < 1 then 1 else next_timestamp s);
          active = register_transaction tid (tm_snapshots s);
          t = t0\<lparr>read_ts := r, start_ts := Some r, txn_snapshot := Some (create_snapshot r active)\<rparr>
      in (t, s\<lparr>next_txn_id := tid + 1, next_timestamp := next_timestamp s + 1, tm_snapshots := active,
               txn_map := (txn_map s)(tid \<mapsto> t)\<rparr>))"

definition txn_begin :: "Transaction option \<Rightarrow> bool \<Rightarrow> 'i txn_manager \<Rightarrow> Transaction \<times> 'i txn_manager" where
  "txn_begin txn log_manager s =
     (case (case txn of None \<Rightarrow> create_transaction s | Some t \<Rightarrow> (t, s)) of
        (t, s1) \<Rightarrow> (t, if log_manager then tm_add_log (BeginLogRecord (the_txn_id t)) s1 else s1))"

text \<open>Erasing the entries of the record files' maps of uncommitted changes.\<close>

definition clear_mvcc_entry :: "txn_id \<Rightarrow> WriteRecord \<Rightarrow> storage \<Rightarrow> storage" where
  "clear_mvcc_entry tid w st =
     (case map_of st (wr_tab_name w) of
        None \<Rightarrow> st
      | Some fh \<Rightarrow>
          AList.update (wr_tab_name w)
            (commit_mvcc (if wr_type w = DELETE_TUPLE then 1 else 0) (wr_rid w) tid fh) st)"

definition clear_mvcc_entries :: "Transaction \<Rightarrow> storage \<Rightarrow> storage" where
  "clear_mvcc_entries t st = foldl (\<lambda>s w. clear_mvcc_entry (the_txn_id t) w s) st (write_set t)"

definition txn_finish :: "TransactionState \<Rightarrow> (txn_id \<Rightarrow> log_record) \<Rightarrow> bool \<Rightarrow> Transaction \<Rightarrow> 'i txn_manager
    \<Rightarrow> Transaction \<times> 'i txn_manager" where
  "txn_finish state mk_log log_manager t s =
     (case release_locks t (tm_locks s) of
        (t1, lt) \<Rightarrow>
          (let t2 = t1\<lparr>undo_logs := [], write_set := [], lock_set := [], index_deleted_page_set := [],
                       index_latch_page_set := [], txn_state := state\<rparr>;
               s1 = s\<lparr>tm_locks := lt, tm_snapshots := unregister_transaction (the_txn_id t) (tm_snapshots s)\<rparr>;
               s2 = (if log_manager then tm_add_log (mk_log (the_txn_id t)) s1 else s1)
           in (t2, s2\<lparr>txn_map := (txn_map s2)(the_txn_id t := None)\<rparr>)))"

definition commit :: "Transaction \<Rightarrow> bool \<Rightarrow> 'i txn_manager \<Rightarrow> Transaction \<times> 'i txn_manager" where
  "commit t log_manager s =
     (case get_next_timestamp s of
        (cts, s1) \<Rightarrow>
          (let t1 = t\<lparr>txn_state := SHRINKING, commit_ts := cts\<rparr>;
               ms = commit_transaction t1 (tm_mvcc s1, Some (tm_storage s1));
               st = (case snd ms of Some st \<Rightarrow> st | None \<Rightarrow> tm_storage s1);
               s2 = s1\<lparr>tm_mvcc := fst ms, tm_storage := clear_mvcc_entries t1 st\<rparr>
           in txn_finish COMMITTED CommitLogRecord log_manager t1 s2))"

text \<open>Undoing one write: the record file's exceptions are swallowed. A deletion is only logical. The tables a transaction wrote to are open: a
  record about one that is not would make the code use a null pointer, and is skipped here.\<close>

definition undo_file :: "WriteRecord \<Rightarrow> rm_file \<Rightarrow> rm_file" where
  "undo_file w fh =
     (case wr_type w of
        INSERT_TUPLE \<Rightarrow> snd (delete_record (wr_rid w) None fh)
      | UPDATE_TUPLE \<Rightarrow> snd (update_record (wr_rid w) (wr_record w) None fh)
      | _ \<Rightarrow> fh)"

definition rollback_single_operation ::
  "'i index_ops \<Rightarrow> WriteRecord \<Rightarrow> storage \<times> 'i \<Rightarrow> storage \<times> 'i" where
  "rollback_single_operation ops w x =
     (case x of (st, ix) \<Rightarrow>
       (case wr_type w of
          IX_INSERT_TUPLE \<Rightarrow> (st, ix_delete ops (wr_tab_name w) (wr_record w) ix)
        | IX_DELETE_TUPLE \<Rightarrow> (st, ix_insert ops (wr_tab_name w) (wr_record w) (wr_rid w) ix)
        | DELETE_TUPLE \<Rightarrow> (st, ix)
        | _ \<Rightarrow>
            (case map_of st (wr_tab_name w) of
               None \<Rightarrow> (st, ix)
             | Some fh \<Rightarrow> (AList.update (wr_tab_name w) (undo_file w fh) st, ix))))"

definition rollback_writes :: "'i index_ops \<Rightarrow> WriteRecord list \<Rightarrow> storage \<times> 'i \<Rightarrow> storage \<times> 'i" where
  "rollback_writes ops ws x = foldl (\<lambda>y w. rollback_single_operation ops w y) x (rev ws)"

definition abort :: "'i index_ops \<Rightarrow> Transaction \<Rightarrow> bool \<Rightarrow> 'i txn_manager \<Rightarrow> Transaction \<times> 'i txn_manager" where
  "abort ops t log_manager s =
     (case rollback_writes ops (write_set t) (tm_storage s, tm_indexes s) of
        (st, ix) \<Rightarrow>
          txn_finish ABORTED AbortLogRecord log_manager t
            (s\<lparr>tm_mvcc := rollback_transaction t (tm_mvcc s), tm_storage := clear_mvcc_entries t st,
               tm_indexes := ix\<rparr>))"

subsection \<open>The physical rows\<close>

text \<open>What the tables hold, with the size of their records.\<close>

definition contents :: "storage \<Rightarrow> string \<rightharpoonup> nat \<times> (Rid \<rightharpoonup> bytes)" where
  "contents st tab = map_option (\<lambda>fh. (record_size (rf_hdr fh), file_records fh)) (map_of st tab)"

definition storage_ok :: "storage \<Rightarrow> bool" where
  "storage_ok st \<longleftrightarrow> (\<forall>tab fh. map_of st tab = Some fh \<longrightarrow> file_ok fh)"

text \<open>The writes of one transaction, with the write records the executors append: an insertion, an update that
  saves the old row, and a deletion, which changes only the version chain.\<close>

inductive txn_writes :: "storage \<Rightarrow> WriteRecord list \<Rightarrow> storage \<Rightarrow> bool" where
  none: "txn_writes st [] st"
| ins: "txn_writes st ws st1 \<Longrightarrow> map_of st1 tab = Some fh \<Longrightarrow> file_space fh \<Longrightarrow> length buf = record_size (rf_hdr fh) \<Longrightarrow>
    insert_record buf ctx fh = (Inr rid, fh') \<Longrightarrow>
    txn_writes st (ws @ [\<lparr>wr_type = INSERT_TUPLE, wr_tab_name = tab, wr_rid = rid, wr_record = []\<rparr>]) (AList.update tab fh' st1)"
| upd: "txn_writes st ws st1 \<Longrightarrow> map_of st1 tab = Some fh \<Longrightarrow> length buf = record_size (rf_hdr fh) \<Longrightarrow>
    file_records fh rid = Some old \<Longrightarrow> update_record rid buf ctx fh = (Inr (), fh') \<Longrightarrow>
    txn_writes st (ws @ [\<lparr>wr_type = UPDATE_TUPLE, wr_tab_name = tab, wr_rid = rid, wr_record = old\<rparr>]) (AList.update tab fh' st1)"
| del: "txn_writes st ws st1 \<Longrightarrow>
    txn_writes st (ws @ [\<lparr>wr_type = DELETE_TUPLE, wr_tab_name = tab, wr_rid = rid, wr_record = old\<rparr>]) st1"
| index: "txn_writes st ws st1 \<Longrightarrow> ty = IX_INSERT_TUPLE \<or> ty = IX_DELETE_TUPLE \<Longrightarrow>
    txn_writes st (ws @ [\<lparr>wr_type = ty, wr_tab_name = tab, wr_rid = rid, wr_record = key\<rparr>]) st1"

lemma contents_update [simp]:
  "contents (AList.update tab fh st) = (contents st)(tab \<mapsto> (record_size (rf_hdr fh), file_records fh))"
  by (auto simp: contents_def update_conv')

lemma storage_ok_update: "storage_ok st \<Longrightarrow> file_ok fh \<Longrightarrow> storage_ok (AList.update tab fh st)"
  by (auto simp: storage_ok_def update_conv' split: if_splits)

lemma file_records_length: "file_ok s \<Longrightarrow> file_records s rid = Some v \<Longrightarrow> length v = record_size (rf_hdr s)"
proof -
  assume s: "file_ok s" and v: "file_records s rid = Some v"
  then obtain pg where pg: "data_page s (rid_page_no rid)" "file_page s (rid_page_no rid) = Some pg"
    "page_records (rf_hdr s) pg (nat (rid_slot_no rid)) = Some v"
    by (auto simp: file_records_def split: if_splits option.splits)
  then have "page_ok (rf_hdr s) pg" using s by (fastforce simp: file_ok_def file_inv_def)
  then show ?thesis using pg(3) slot_data_length by (auto simp: page_records_def page_ok_def split: if_splits)
qed

lemma contents_file: "contents st tab = Some (n, f) \<Longrightarrow> \<exists>fh. map_of st tab = Some fh \<and> record_size (rf_hdr fh) = n \<and> file_records fh = f"
  by (auto simp: contents_def)

lemma undo_insert:
  assumes "file_ok fh" "file_records fh rid = Some v"
  shows "\<exists>fh'. undo_file \<lparr>wr_type = INSERT_TUPLE, wr_tab_name = tab, wr_rid = rid, wr_record = r\<rparr> fh = fh' \<and> file_ok fh' \<and>
    record_size (rf_hdr fh') = record_size (rf_hdr fh) \<and> file_records fh' = (file_records fh)(rid := None)"
  using rf.del_ok [OF assms, of None] by (auto simp: undo_file_def)

lemma undo_update:
  assumes "file_ok fh" "file_records fh rid = Some v" "length old = record_size (rf_hdr fh)"
  shows "\<exists>fh'. undo_file \<lparr>wr_type = UPDATE_TUPLE, wr_tab_name = tab, wr_rid = rid, wr_record = old\<rparr> fh = fh' \<and> file_ok fh' \<and>
    record_size (rf_hdr fh') = record_size (rf_hdr fh) \<and> file_records fh' = (file_records fh)(rid \<mapsto> old)"
  using rf.upd_ok [OF assms, of None] by (auto simp: undo_file_def)

lemma rollback_writes_snoc:
  "rollback_writes ops (ws @ [w]) x = rollback_writes ops ws (rollback_single_operation ops w x)"
  by (simp add: rollback_writes_def)

text \<open>Undoing one write in any storage with the right contents gives the contents before it.\<close>

lemma undo_one:
  assumes "storage_ok st2" "contents st2 tab = Some (n, f')" "map_of st1 tab = Some fh" "file_ok fh" "record_size (rf_hdr fh) = n"
    and "contents st2 = (contents st1)(tab \<mapsto> (n, f'))"
    and "f' = (file_records fh)(rid \<mapsto> buf)"
    and "ty = INSERT_TUPLE \<and> file_records fh rid = None \<or> ty = UPDATE_TUPLE \<and> file_records fh rid = Some old"
  shows "\<exists>st3 ix'. rollback_single_operation ops \<lparr>wr_type = ty, wr_tab_name = tab, wr_rid = rid, wr_record = old\<rparr> (st2, ix)
      = (st3, ix') \<and> storage_ok st3 \<and> contents st3 = contents st1"
proof -
  obtain fh2 where fh2: "map_of st2 tab = Some fh2" "record_size (rf_hdr fh2) = n" "file_records fh2 = f'"
    using contents_file [OF assms(2)] by blast
  have ok2: "file_ok fh2" using assms(1) fh2 by (auto simp: storage_ok_def)
  have rec: "file_records fh2 rid = Some buf" using fh2 assms(7) by simp
  let ?w = "\<lparr>wr_type = ty, wr_tab_name = tab, wr_rid = rid, wr_record = old\<rparr>"
  have "\<exists>fh3. undo_file ?w fh2 = fh3 \<and> file_ok fh3 \<and> record_size (rf_hdr fh3) = n \<and> file_records fh3 = file_records fh"
  proof (cases "ty = INSERT_TUPLE")
    case True
    then have "file_records fh rid = None" using assms(8) by auto
    then have "(file_records fh2)(rid := None) = file_records fh" using fh2 assms(7) by (auto simp: fun_upd_idem)
    then show ?thesis using undo_insert [OF ok2 rec, of tab old] True fh2 by auto
  next
    case False
    then have u: "ty = UPDATE_TUPLE" "file_records fh rid = Some old" using assms(8) by auto
    then have "(file_records fh2)(rid \<mapsto> old) = file_records fh" using fh2 assms(7) by (auto simp: fun_upd_idem)
    moreover have "length old = record_size (rf_hdr fh2)" using file_records_length [OF assms(4) u(2)] assms(5) fh2 by simp
    ultimately show ?thesis using undo_update [OF ok2 rec, of old tab] u fh2 by auto
  qed
  then obtain fh3 where fh3: "undo_file ?w fh2 = fh3" "file_ok fh3" "record_size (rf_hdr fh3) = n" "file_records fh3 = file_records fh"
    by blast
  have "rollback_single_operation ops ?w (st2, ix) = (AList.update tab fh3 st2, ix)"
    using assms(8) fh2 fh3 by (auto simp: rollback_single_operation_def)
  moreover have "contents (AList.update tab fh3 st2) = contents st1"
    using assms(3,5,6) fh3 by (auto simp: contents_def fun_upd_idem)
  ultimately show ?thesis using storage_ok_update [OF assms(1) fh3(2)] by auto
qed

lemma txn_writes_ok: "txn_writes st ws st1 \<Longrightarrow> storage_ok st \<Longrightarrow> storage_ok st1"
proof (induction rule: txn_writes.induct)
  case (ins st ws st1 tab fh buf ctx rid fh')
  then have "file_ok fh" by (auto simp: storage_ok_def)
  then have "file_ok fh'" using rf.ins_ok [of fh buf ctx] ins by auto
  then show ?case using ins storage_ok_update by blast
next
  case (upd st ws st1 tab fh buf rid old ctx fh')
  then have "file_ok fh" by (auto simp: storage_ok_def)
  then have "file_ok fh'" using rf.upd_ok [of fh rid old buf ctx] upd by auto
  then show ?case using upd storage_ok_update by blast
qed auto

lemma rollback_restores:
  "txn_writes st ws st1 \<Longrightarrow> storage_ok st \<Longrightarrow> storage_ok st2 \<Longrightarrow> contents st2 = contents st1 \<Longrightarrow>
     storage_ok (fst (rollback_writes ops ws (st2, ix))) \<and> contents (fst (rollback_writes ops ws (st2, ix))) = contents st"
proof (induction arbitrary: st2 ix rule: txn_writes.induct)
  case (none st)
  then show ?case by (simp add: rollback_writes_def)
next
  case (ins st ws st1 tab fh buf ctx rid fh')
  have "storage_ok st1" by (rule txn_writes_ok [OF ins.hyps(1) ins.prems(1)])
  then have fh: "file_ok fh" using ins.hyps(2) by (auto simp: storage_ok_def)
  then have r: "record_size (rf_hdr fh') = record_size (rf_hdr fh)" "file_records fh rid = None"
    "file_records fh' = (file_records fh)(rid \<mapsto> buf)"
    using rf.ins_ok [of fh buf ctx] ins.hyps(3-5) by auto
  have c: "contents st2 = (contents st1)(tab \<mapsto> (record_size (rf_hdr fh), file_records fh'))"
    using ins.prems(3) r by (simp add: fun_upd_def)
  then have ct: "contents st2 tab = Some (record_size (rf_hdr fh), file_records fh')" by simp
  obtain st3 ix' where "rollback_single_operation ops
      \<lparr>wr_type = INSERT_TUPLE, wr_tab_name = tab, wr_rid = rid, wr_record = []\<rparr> (st2, ix) = (st3, ix')"
    "storage_ok st3" "contents st3 = contents st1"
    using undo_one [OF ins.prems(2) ct ins.hyps(2) fh refl c r(3), of INSERT_TUPLE "[]" ops ix] r(2) by auto
  then show ?case using ins.IH [OF ins.prems(1), of st3 ix'] by (simp add: rollback_writes_snoc)
next
  case (upd st ws st1 tab fh buf rid old ctx fh')
  have "storage_ok st1" by (rule txn_writes_ok [OF upd.hyps(1) upd.prems(1)])
  then have fh: "file_ok fh" using upd.hyps(2) by (auto simp: storage_ok_def)
  then have r: "record_size (rf_hdr fh') = record_size (rf_hdr fh)" "file_records fh' = (file_records fh)(rid \<mapsto> buf)"
    using rf.upd_ok [of fh rid old buf ctx] upd.hyps(3-5) by auto
  have c: "contents st2 = (contents st1)(tab \<mapsto> (record_size (rf_hdr fh), file_records fh'))"
    using upd.prems(3) r by (simp add: fun_upd_def)
  then have ct: "contents st2 tab = Some (record_size (rf_hdr fh), file_records fh')" by simp
  obtain st3 ix' where "rollback_single_operation ops
      \<lparr>wr_type = UPDATE_TUPLE, wr_tab_name = tab, wr_rid = rid, wr_record = old\<rparr> (st2, ix) = (st3, ix')"
    "storage_ok st3" "contents st3 = contents st1"
    using undo_one [OF upd.prems(2) ct upd.hyps(2) fh refl c r(2), of UPDATE_TUPLE old ops ix] upd.hyps(4) by auto
  then show ?case using upd.IH [OF upd.prems(1), of st3 ix'] by (simp add: rollback_writes_snoc)
next
  case (del st ws st1 tab rid old)
  then show ?case by (simp add: rollback_writes_snoc rollback_single_operation_def)
next
  case (index st ws st1 ty tab rid key)
  then show ?case by (auto simp: rollback_writes_snoc rollback_single_operation_def)
qed

lemma commit_mvcc_records: "file_records (commit_mvcc ty rid tid fh) = file_records fh" "rf_hdr (commit_mvcc ty rid tid fh) = rf_hdr fh"
proof -
  have f: "rf_fd (commit_mvcc ty rid tid fh) = rf_fd fh" "rf_hdr (commit_mvcc ty rid tid fh) = rf_hdr fh"
    "rf_store (commit_mvcc ty rid tid fh) = rf_store fh"
    by (simp_all add: commit_mvcc_def)
  then show "file_records (commit_mvcc ty rid tid fh) = file_records fh" by (rule file_cong(2))
  show "rf_hdr (commit_mvcc ty rid tid fh) = rf_hdr fh" by (rule f(2))
qed

lemma contents_clear_mvcc: "contents (clear_mvcc_entries t st) = contents st"
proof -
  have one: "contents (clear_mvcc_entry tid w st) = contents st" for tid w st
    by (cases "map_of st (wr_tab_name w)")
      (auto simp: clear_mvcc_entry_def commit_mvcc_records, auto simp: contents_def fun_upd_idem)
  have "contents (foldl (\<lambda>s w. clear_mvcc_entry tid w s) st ws) = contents st" for tid ws
    by (induction ws arbitrary: st) (simp_all add: one)
  then show ?thesis by (simp add: clear_mvcc_entries_def)
qed

subsection \<open>Invariant\<close>

definition tm_inv :: "'i txn_manager \<Rightarrow> bool" where
  "tm_inv s \<longleftrightarrow> 1 \<le> next_timestamp s \<and> mvcc_inv (next_timestamp s - 1) (tm_mvcc s) \<and> tm_snapshots s = dom (txn_map s) \<and>
     (\<forall>tid t. txn_map s tid = Some t \<longrightarrow> the_txn_id t = tid \<and> 0 \<le> tid \<and> tid < next_txn_id s \<and> read_ts t < next_timestamp s) \<and>
     0 \<le> next_txn_id s"

lemma mvcc_inv_mono: "mvcc_inv clk m \<Longrightarrow> clk \<le> clk' \<Longrightarrow> clk' < INT32_MAX \<Longrightarrow> mvcc_inv clk' m"
  by (fastforce simp: mvcc_inv_def chain_inv_def)

lemma tm_inv_new: "tm_inv (txn_manager_new st ix)"
  by (simp add: tm_inv_def txn_manager_new_def mvcc_inv_def mvcc_new_def INT32_MAX_def)

lemma mvcc_inv_cong: "version_chains m = version_chains m' \<Longrightarrow> mvcc_inv clk m \<Longrightarrow> mvcc_inv clk m'"
  by (simp add: mvcc_inv_def)

lemma release_locks_id: "the_txn_id (fst (release_locks t lt)) = the_txn_id t"
proof -
  have "the_txn_id (fst (unlock_each ls t lt)) = the_txn_id t" for ls
  proof (induction ls arbitrary: t lt)
    case (Cons l ls)
    have "the_txn_id (fst (snd (unlock l t lt))) = the_txn_id t"
      by (auto simp: unlock_def Let_def split: option.split list.split)
    then show ?case using Cons by (cases "unlock l t lt") simp
  qed simp
  then show ?thesis by (simp add: release_locks_def)
qed

lemma txn_finish_fields:
  "txn_map (snd (txn_finish state mk lg t s)) = (txn_map s)(the_txn_id t := None)"
  "tm_snapshots (snd (txn_finish state mk lg t s)) = tm_snapshots s - {the_txn_id t}"
  "tm_mvcc (snd (txn_finish state mk lg t s)) = tm_mvcc s"
  "tm_storage (snd (txn_finish state mk lg t s)) = tm_storage s"
  "next_timestamp (snd (txn_finish state mk lg t s)) = next_timestamp s"
  "next_txn_id (snd (txn_finish state mk lg t s)) = next_txn_id s"
  "txn_state (fst (txn_finish state mk lg t s)) = state"
  "tm_locks (snd (txn_finish state mk lg t s)) = snd (release_locks t (tm_locks s))"
  by (auto simp: txn_finish_def Let_def tm_add_log_def unregister_transaction_def split: prod.split)

lemma tm_inv_finish:
  assumes "1 \<le> next_timestamp s" "mvcc_inv (next_timestamp s - 1) (tm_mvcc s)" "tm_snapshots s = dom (txn_map s)"
    "\<forall>tid t. txn_map s tid = Some t \<longrightarrow> the_txn_id t = tid \<and> 0 \<le> tid \<and> tid < next_txn_id s \<and> read_ts t < next_timestamp s"
    "0 \<le> next_txn_id s"
  shows "tm_inv (snd (txn_finish state mk lg t s))"
  using assms by (auto simp: tm_inv_def txn_finish_fields split: if_splits)

lemma tm_inv_begin:
  assumes "tm_inv s" "next_timestamp s < INT32_MAX"
  shows "tm_inv (snd (create_transaction s))"
proof -
  have "mvcc_inv (next_timestamp s) (tm_mvcc s)"
    using assms mvcc_inv_mono [of "next_timestamp s - 1" "tm_mvcc s" "next_timestamp s"] by (simp add: tm_inv_def)
  then show ?thesis
    using assms
    by (auto simp: tm_inv_def create_transaction_def Let_def new_transaction_def register_transaction_def split: if_splits) force+
qed

lemma tm_inv_commit:
  assumes "tm_inv s" "next_timestamp s < INT32_MAX"
  shows "tm_inv (snd (commit t lg s))"
proof -
  let ?t = "t\<lparr>txn_state := SHRINKING, commit_ts := next_timestamp s\<rparr>"
  let ?ms = "commit_transaction ?t (tm_mvcc s, Some (tm_storage s))"
  have inv: "mvcc_inv (next_timestamp s - 1) (tm_mvcc s)" using assms by (simp add: tm_inv_def)
  have "mvcc_step (next_timestamp s - 1, tm_mvcc s, Some (tm_storage s)) ?t (next_timestamp s, fst ?ms, snd ?ms)"
    using mvcc_step.commit [of "next_timestamp s - 1" ?t "(tm_mvcc s, Some (tm_storage s))"] assms(2) by simp
  from step_inv [OF inv this] have "mvcc_inv (next_timestamp s) (fst ?ms)" by simp
  then show ?thesis
    unfolding commit_def get_next_timestamp_def Let_def prod.case
    by (intro tm_inv_finish) (use assms in \<open>force simp: tm_inv_def\<close>)+
qed

lemma tm_inv_abort:
  assumes "tm_inv s"
  shows "tm_inv (snd (abort ops t lg s))"
proof -
  have inv: "mvcc_inv (next_timestamp s - 1) (tm_mvcc s)" using assms by (simp add: tm_inv_def)
  have "mvcc_step (next_timestamp s - 1, tm_mvcc s, None) t (next_timestamp s - 1, rollback_transaction t (tm_mvcc s), None)"
    using mvcc_step.call [of "next_timestamp s - 1" "(tm_mvcc s, None)" t OpRollback] by simp
  from step_inv [OF inv this] have r: "mvcc_inv (next_timestamp s - 1) (rollback_transaction t (tm_mvcc s))" by simp
  obtain st ix where "rollback_writes ops (write_set t) (tm_storage s, tm_indexes s) = (st, ix)" by fastforce
  then show ?thesis using r assms
    by (simp add: abort_def) (rule tm_inv_finish; simp add: tm_inv_def)
qed

subsection \<open>Properties\<close>

text \<open>C27: Begin, commit and abort keep the transaction table sound: ids are never reused, the active set of the snapshot
  manager is the set of registered transactions, the version chains stay ordered, a new transaction is not registered yet,
  and its read timestamp is later than every commit so far, while every commit that follows takes a timestamp later
  than the read timestamps of all registered transactions.\<close>

theorem transaction_manager_invariant:
  assumes "tm_inv s" "next_timestamp s < INT32_MAX"
  shows "tm_inv (snd (txn_begin None lg s)) \<and> tm_inv (snd (commit t lg s)) \<and> tm_inv (snd (abort ops t lg s)) \<and>
    txn_map s (the_txn_id (fst (txn_begin None lg s))) = None \<and>
    (\<forall>k c v. version_chains (tm_mvcc s) k = Some c \<longrightarrow> v \<in> set (committed c) \<longrightarrow>
       tv_create_ts v < read_ts (fst (txn_begin None lg s))) \<and>
    (\<forall>tid u. txn_map s tid = Some u \<longrightarrow> read_ts u < fst (get_next_timestamp s))"
proof -
  have log: "tm_inv (tm_add_log r s') = tm_inv s'" for r and s' :: "'a txn_manager" by (simp add: tm_inv_def tm_add_log_def)
  have "tm_inv (snd (txn_begin None lg s))"
    using tm_inv_begin [OF assms] by (cases "create_transaction s") (simp add: txn_begin_def log)
  moreover have "the_txn_id (fst (txn_begin None lg s)) = next_txn_id s" "read_ts (fst (txn_begin None lg s)) = next_timestamp s"
    using assms(1) by (auto simp: txn_begin_def create_transaction_def Let_def new_transaction_def tm_inv_def split: prod.split)
  ultimately show ?thesis
    using tm_inv_commit [OF assms, of t lg] tm_inv_abort [OF assms(1), of ops t lg] assms(1)
    by (fastforce simp: tm_inv_def mvcc_inv_def chain_inv_def get_next_timestamp_def)
qed

theorem transaction_manager_invariant_witness:
  "tm_inv (snd (commit (fst (txn_begin None True (txn_manager_new [] ()))) True (snd (txn_begin None True (txn_manager_new [] ())))))"
proof -
  have "tm_inv (snd (txn_begin None True (txn_manager_new [] ())))"
    using transaction_manager_invariant [OF tm_inv_new, of "[]" "()" True] by (simp add: txn_manager_new_def INT32_MAX_def)
  moreover have "next_timestamp (snd (txn_begin None True (txn_manager_new [] ()))) < INT32_MAX"
    by (simp add: txn_begin_def create_transaction_def Let_def txn_manager_new_def tm_add_log_def INT32_MAX_def)
  ultimately show ?thesis using transaction_manager_invariant by blast
qed



end
