(* ===== verification/Rm_Pages.thy ===== *)
theory Rm_Pages
  imports Rm_File
begin

text \<open>
  The pages of a record file without the chain of free pages. After a crash the header and the pages on the disk may be
  of different ages, so the chain need not go through the pages with a free slot, and \<open>insert_record_at\<close> takes a page that
  becomes full off the chain only when it is the first one. What recovery does with rows does not depend on the chain:
  here the record operations are shown to be right on a file whose header and pages are well formed, whatever the chain is,
  and so is adding a page that stays pinned.
\<close>

subsection \<open>Well-formed pages\<close>

definition pages_inv :: "rm_file \<Rightarrow> bool" where
  "pages_inv s \<longleftrightarrow> hdr_ok (rf_hdr s) \<and> 1 \<le> num_pages (rf_hdr s) \<and> num_pages (rf_hdr s) < 2 ^ 31 \<and>
     rf_fd s \<in> set (ps_fds (rf_store s)) \<and> ps_next (rf_store s) (rf_fd s) = num_pages (rf_hdr s) \<and>
     (\<forall>p. data_page s p \<longrightarrow> (\<exists>pg. file_page s p = Some pg \<and> page_ok (rf_hdr s) pg) \<and>
        rf_pid p s \<notin> set (ps_touched (rf_store s)))"

lemma file_inv_pages: "file_inv s \<Longrightarrow> pages_inv s"
  by (auto simp: file_inv_def pages_inv_def)

lemma pages_put:
  assumes "pages_inv s" "data_page s p" "page_ok (rf_hdr s) pg"
  shows "pages_inv (file_put p pg (hdr_ff ff (rf_hdr s)) s)"
proof -
  let ?s = "file_put p pg (hdr_ff ff (rf_hdr s)) s"
  have dp: "data_page ?s q \<longleftrightarrow> data_page s q" for q by (simp add: data_page_def)
  have "\<exists>pg. file_page ?s q = Some pg \<and> page_ok (rf_hdr ?s) pg" "rf_pid q ?s \<notin> set (ps_touched (rf_store ?s))"
    if "data_page ?s q" for q
    using assms that by (auto simp: dp pages_inv_def)
  then show ?thesis using assms unfolding pages_inv_def by auto
qed

lemma pages_log_track [simp]:
  "pages_inv (rf_add_log ctx mk s) = pages_inv s" "pages_inv (rf_track ctx f rid s) = pages_inv s"
proof -
  have "pages_inv s' = pages_inv s" if "rf_fd s' = rf_fd s" "rf_hdr s' = rf_hdr s" "rf_store s' = rf_store s" for s'
  proof -
    have "file_page s' = file_page s" "rf_pid q s' = rf_pid q s" "data_page s' = data_page s" for q
      using that by (simp_all add: fun_eq_iff file_page_def rf_pid_def data_page_def)
    note eqs = this that
    show ?thesis unfolding pages_inv_def eqs ..
  qed
  then show "pages_inv (rf_add_log ctx mk s) = pages_inv s" "pages_inv (rf_track ctx f rid s) = pages_inv s"
    by (metis log_track_fields)+
qed

lemma fetch_pages:
  assumes inv: "pages_inv s" and p: "data_page s p" and room: "room s"
  obtains pg s' where "fetch_page_handle p s = (Inr pg, s')" "file_page s p = Some pg"
    "page_ok (rf_hdr s) pg" "pinned p s s'" "rf_unpin p False s' = s"
proof -
  obtain pg where pg: "file_page s p = Some pg" "page_ok (rf_hdr s) pg" "rf_pid p s \<notin> set (ps_touched (rf_store s))"
    using inv p unfolding pages_inv_def by blast
  let ?s = "s\<lparr>rf_store := (rf_store s)\<lparr>ps_pins := rf_pid p s # ps_pins (rf_store s)\<rparr>\<rparr>"
  have "fetch_page_handle p s = (Inr pg, ?s)"
    using p pg(1) room by (simp add: fetch_page_handle_def data_page_def ps_fetch_def file_page_def room_def)
  moreover have "pinned p s ?s"
    unfolding pinned_def using pg(3) by (intro exI [of _ "ps_touched (rf_store s)"]) simp
  moreover have "rf_unpin p False ?s = s" using pg(3) by (simp add: rf_unpin_def ps_unpin_def Let_def rf_pid_def)
  ultimately show ?thesis using that pg by blast
qed

lemma no_page: "\<not> data_page s p \<Longrightarrow> p \<noteq> 0 \<Longrightarrow> fetch_page_handle p s = (Inl (RecordNotFoundError p (-1)), s)"
  by (auto simp: fetch_page_handle_def data_page_def)

subsection \<open>The record operations\<close>

lemma get_pages:
  assumes "pages_inv s" "room s" "rid_in s rid"
  shows "get_record rid s =
    ((case file_records s rid of
        None \<Rightarrow> Inl (RecordNotFoundError (rid_page_no rid) (rid_slot_no rid))
      | Some v \<Rightarrow> Inr v), s)"
proof -
  have p: "data_page s (rid_page_no rid)" using assms(3) by (simp add: rid_in_def)
  obtain pg s' where "fetch_page_handle (rid_page_no rid) s = (Inr pg, s')" "file_page s (rid_page_no rid) = Some pg"
    "rf_unpin (rid_page_no rid) False s' = s"
    using fetch_pages [OF assms(1) p assms(2)] by metis
  then show ?thesis using assms(3) by (auto simp: get_record_def Let_def file_records_def rid_in_def page_records_def)
qed

text \<open>What every operation below keeps: the well-formed pages, their number, the pins and the sizes.\<close>

definition kept :: "rm_file \<Rightarrow> rm_file \<Rightarrow> bool" where
  "kept s s' \<longleftrightarrow> pages_inv s' \<and> same_pool s s' \<and> num_pages (rf_hdr s') = num_pages (rf_hdr s) \<and>
     num_records_per_page (rf_hdr s') = num_records_per_page (rf_hdr s)"

lemma kept_put:
  assumes "pages_inv s" "data_page s p" "page_ok (rf_hdr s) pg"
  shows "kept s (file_put p pg (hdr_ff ff (rf_hdr s)) s)"
  using pages_put [OF assms] by (simp add: kept_def)

lemma kept_log_track [simp]: "kept s (rf_add_log ctx mk s') = kept s s'" "kept s (rf_track ctx f rid s') = kept s s'"
  by (simp_all add: kept_def)

lemma update_pages:
  assumes inv: "pages_inv s" and room: "room s" and buf: "length buf = record_size (rf_hdr s)" and old: "file_records s rid = Some v"
  shows "\<exists>s'. update_record rid buf ctx s = (Inr (), s') \<and> kept s s' \<and> file_records s' = (file_records s)(rid \<mapsto> buf)"
proof -
  let ?p = "rid_page_no rid" and ?i = "nat (rid_slot_no rid)" and ?h = "rf_hdr s"
  have p: "data_page s ?p" and i: "?i < num_records_per_page ?h" "0 \<le> rid_slot_no rid"
    using file_records_rid_in [OF old] by (auto simp: rid_in_def)
  obtain pg s' where f: "fetch_page_handle ?p s = (Inr pg, s')" "file_page s ?p = Some pg" "page_ok ?h pg" "pinned ?p s s'"
    using fetch_pages [OF inv p room] by metis
  have set: "is_set (page_bitmap ?h pg) ?i"
    using old f(2) p i by (auto simp: file_records_def page_records_def split: if_splits)
  note upd = page_update_ok [OF f(3) i(1) set buf]
  let ?s = "file_put ?p (set_slot ?h ?i buf pg) ?h s"
  have "update_record rid buf ctx s =
      (Inr (), rf_track ctx map_insert_record rid
        (rf_add_log ctx (\<lambda>c. UpdateLogRecord (ctx_tid c) (slot_data ?h ?i pg) buf rid (ctx_table c)) ?s))"
    using f set pinned_simps [OF f(4)] write_unpin' [OF f(4) page_ok_length [OF upd(1)]]
    by (simp add: update_record_def Let_def rf_commute)
  then show ?thesis
    using kept_put [OF inv p upd(1), of "first_free_page_no ?h"] file_put_records [OF p f(2) upd(2), of "first_free_page_no ?h"] i
    by simp
qed

lemma delete_pages:
  assumes inv: "pages_inv s" and room: "room s" and old: "file_records s rid = Some v"
  shows "\<exists>s'. delete_record rid ctx s = (Inr (), s') \<and> kept s s' \<and> file_records s' = (file_records s)(rid := None)"
proof -
  let ?p = "rid_page_no rid" and ?i = "nat (rid_slot_no rid)" and ?h = "rf_hdr s"
  let ?ff = "first_free_page_no ?h"
  have p: "data_page s ?p" and i: "?i < num_records_per_page ?h" "0 \<le> rid_slot_no rid"
    using file_records_rid_in [OF old] by (auto simp: rid_in_def)
  obtain pg s' where f: "fetch_page_handle ?p s = (Inr pg, s')" "file_page s ?p = Some pg" "page_ok ?h pg" "pinned ?p s s'"
    using fetch_pages [OF inv p room] by metis
  have set: "is_set (page_bitmap ?h pg) ?i"
    using old f(2) p i by (auto simp: file_records_def page_records_def split: if_splits)
  note tk = page_take_ok [OF f(3) i(1) set]
  define release where "release \<longleftrightarrow> num_records pg = int (num_records_per_page ?h) \<and> ?ff \<noteq> ?p"
  define pg2 where "pg2 = (if release then set_next_free ?ff (page_take ?h ?i pg) else page_take ?h ?i pg)"
  define ff where "ff = (if release then ?p else ?ff)"
  have pg2: "page_ok ?h pg2" "page_records ?h pg2 = (page_records ?h pg)(?i := None)"
    using tk page_next_ok [OF tk(1), of ?ff] by (simp_all add: pg2_def)
  let ?flag = "num_records pg = int (num_records_per_page ?h)"
  have eq: "?flag \<Longrightarrow> release_page_handle ?p ?h (page_take ?h ?i pg) = (hdr_ff ff ?h, pg2)"
    "\<not> ?flag \<Longrightarrow> hdr_ff ff ?h = ?h" "\<not> ?flag \<Longrightarrow> page_take ?h ?i pg = pg2"
    by (simp_all add: release_page_handle_def hdr_ff_def pg2_def ff_def release_def)
  have "\<exists>mk. delete_record rid ctx s = (Inr (), rf_track ctx map_delete_record rid (rf_add_log ctx mk (file_put ?p pg2 (hdr_ff ff ?h) s)))"
    using f set pinned_simps [OF f(4)] write_unpin [OF f(4) page_ok_length [OF pg2(1)], of "hdr_ff ff ?h"]
    by (intro exI [of _ "\<lambda>c. DeleteLogRecord (ctx_tid c) rid (ctx_table c) (slot_data ?h ?i pg)"])
      (cases ?flag, simp_all add: delete_record_def Let_def rf_commute eq)
  then show ?thesis using kept_put [OF inv p pg2(1), of ff] file_put_records [OF p f(2) pg2(2), of ff] i by auto
qed

text \<open>An insertion at a record id: \<open>s\<close> is the file, \<open>s1\<close> the file with the page pinned that was fetched.\<close>

lemma insert_at_pages:
  assumes inv: "pages_inv s" and rid: "rid_in s rid" and buf: "length buf = record_size (rf_hdr s)" and free: "file_records s rid = None"
    and f: "fetch_page_handle (rid_page_no rid) s0 = (Inr pg, s1)" "pinned (rid_page_no rid) s s1" "file_page s (rid_page_no rid) = Some pg"
  shows "\<exists>s'. insert_record_at rid buf s0 = (Inr (), s') \<and> kept s s' \<and> file_records s' = (file_records s)(rid \<mapsto> buf)"
proof -
  let ?p = "rid_page_no rid" and ?h = "rf_hdr s"
  define i where "i = nat (rid_slot_no rid)"
  have p: "data_page s ?p" and i: "i < num_records_per_page ?h" "0 \<le> rid_slot_no rid" using rid by (auto simp: rid_in_def i_def)
  have ok: "page_ok ?h pg" using inv p f(3) unfolding pages_inv_def by force
  have clear: "\<not> is_set (page_bitmap ?h pg) i"
    using free f(3) p i by (auto simp: file_records_def page_records_def i_def split: if_splits)
  define pg1 where "pg1 = page_put ?h i buf pg"
  note put = page_put_ok [OF ok i(1) clear buf, folded pg1_def]
  define unlink where "unlink \<longleftrightarrow> num_records pg1 = int (num_records_per_page ?h) \<and> first_free_page_no ?h = ?p"
  define pg2 where "pg2 = (if unlink then set_next_free (-1) pg1 else pg1)"
  define ff where "ff = (if unlink then next_free_page_no pg1 else first_free_page_no ?h)"
  have pg2: "page_ok ?h pg2" "page_records ?h pg2 = (page_records ?h pg)(i \<mapsto> buf)"
    using put page_next_ok [OF put(1), of "-1"] by (simp_all add: pg2_def)
  have hh: "unlink \<Longrightarrow> ?h\<lparr>first_free_page_no := next_free_page_no pg1\<rparr> = hdr_ff ff ?h" "\<not> unlink \<Longrightarrow> hdr_ff ff ?h = ?h"
    "unlink \<Longrightarrow> set_next_free (-1) pg1 = pg2" "\<not> unlink \<Longrightarrow> pg2 = pg1"
    by (auto simp: ff_def hdr_ff_def pg2_def)
  have "insert_record_at rid buf s0 = (Inr (), file_put ?p pg2 (hdr_ff ff ?h) s)"
    using write_unpin [OF f(2) page_ok_length [OF pg2(1)], of "hdr_ff ff ?h"] pinned_simps(2) [OF f(2)] clear
    by (cases unlink) (simp_all add: insert_record_at_def f(1) Let_def i_def [symmetric] pg1_def [symmetric]
        unlink_def [symmetric] hh)
  then show ?thesis using kept_put [OF inv p pg2(1), of ff] file_put_records [OF p f(3) pg2(2), of ff] i by (simp add: i_def)
qed

subsection \<open>Adding a page that stays pinned\<close>

lemma new_page_empty:
  assumes "hdr_ok h"
  shows "page_ok h (new_page_bytes h)" "page_records h (new_page_bytes h) = Map.empty"
proof -
  have len: "page_len h (replicate PAGE_SIZE 0)" using assms by (simp add: page_len_def)
  have z: "int32 0" by (simp add: int32_def)
  note rules = new_page_bytes_def Let_def page_simps num_records_after [of h] len z assms hdr_ok_int32 [OF assms]
  have num: "num_records (new_page_bytes h) = 0" by (simp add: rules)
  have bm: "page_bitmap h (new_page_bytes h) = replicate (bitmap_size h) 0" by (simp add: rules)
  have n: "num_records_per_page h \<le> 8 * bitmap_size h" using assms by (simp add: hdr_ok_def)
  show "page_ok h (new_page_bytes h)" unfolding page_ok_def num bm count_set_zero [OF n] by (simp add: rules)
  show "page_records h (new_page_bytes h) = Map.empty" using n by (auto simp: page_records_def bm is_set_replicate_0 fun_eq_iff)
qed

lemma grow_pages:
  assumes inv: "pages_inv s" and lim: "num_pages (rf_hdr s) + 1 < 2 ^ 31"
  shows "pages_inv (file_grow s)" "file_records (file_grow s) = file_records s"
proof -
  let ?h = "rf_hdr s" and ?no = "num_pages (rf_hdr s)"
  have h: "hdr_ok ?h" "1 \<le> ?no" using inv by (auto simp: pages_inv_def)
  note new = new_page_empty [OF h(1)]
  have dp: "data_page (file_grow s) q \<longleftrightarrow> q = ?no \<or> data_page s q" for q using h by (auto simp: data_page_def)
  have no: "\<not> data_page s ?no" by (simp add: data_page_def)
  have "\<exists>pg. file_page (file_grow s) q = Some pg \<and> page_ok ?h pg"
    "rf_pid q (file_grow s) \<notin> set (ps_touched (rf_store (file_grow s)))" if "data_page (file_grow s) q" for q
    using that inv new(1) unfolding dp
    by (auto simp: pages_inv_def) (auto simp: file_grow_def Let_def rf_pid_def pages_inv_def)
  moreover have "hdr_ok (rf_hdr (file_grow s))" using h(1) by (simp add: hdr_ok_def get_slot_def)
  moreover have "rf_fd s \<in> set (ps_fds (rf_store (file_grow s)))" "ps_next (rf_store (file_grow s)) (rf_fd s) = ?no + 1"
    using inv by (simp_all add: file_grow_def Let_def pages_inv_def)
  ultimately show "pages_inv (file_grow s)"
    unfolding pages_inv_def using h lim by (auto simp: page_ok_hdr)
  show "file_records (file_grow s) = file_records s"
    using no new(2) by (auto simp: fun_eq_iff file_records_def dp page_ok_hdr split: option.split)
qed

end
