(* ===== verification/Log_Recovery.thy ===== *)
theory Log_Recovery
  imports Log_Manager Transactions Rm_Pages
begin

text \<open>
  Crash recovery (\<^verbatim>\<open>src/src/recovery/log_recovery.cpp\<close>): \<open>analyze\<close> reads the log file buffer by buffer and
  collects the data records to redo and the unfinished transactions, \<open>redo\<close> repeats every data record, \<open>undo\<close>
  takes back those of unfinished transactions.

  The checkpoint offset is read by the code and then ignored (\<^verbatim>\<open>file_offset = 0\<close>), and reloading the metadata is
  part of the system manager; neither is modelled. Every table of the metadata is open. The recovery manager unpins
  and flushes pages of a table in the global pool (\<^verbatim>\<open>buffer_pool_manager_\<close>), which never holds a table's pages (each
  table has a pool of its own), so those calls have no effect here, and a page that redo adds stays pinned. \<^verbatim>\<open>ATT\<close>, \<^verbatim>\<open>DPT\<close> and
  \<^verbatim>\<open>log_offsets_\<close> are never used.

  The loops of \<open>analyze\<close> and \<open>undo\<close> need not end, so they take fuel and \<^term>\<open>None\<close> means that it ran out; on a log
  that consists of records the log manager wrote, \<open>analyze\<close> is shown to end.
\<close>

subsection \<open>Analysis\<close>

record recovery =
  undo_map :: "(txn_id \<times> lsn list) list"
  redo_list :: "lsn list"
  lsn_offset :: "lsn \<rightharpoonup> int"
  lsn_len :: "lsn \<rightharpoonup> int"
  is_recovery :: bool

definition recovery_new :: recovery where
  "recovery_new = \<lparr>undo_map = [], redo_list = [], lsn_offset = Map.empty, lsn_len = Map.empty, is_recovery = False\<rparr>"

text \<open>\<^verbatim>\<open>undo_map_\<close> is ordered by transaction id.\<close>

fun undo_push :: "txn_id \<Rightarrow> lsn \<Rightarrow> (txn_id \<times> lsn list) list \<Rightarrow> (txn_id \<times> lsn list) list" where
  "undo_push tid l [] = [(tid, [l])]"
| "undo_push tid l ((t, ls) # um) =
     (if tid = t then (t, ls @ [l]) # um
      else if tid < t then (tid, [l]) # (t, ls) # um
      else (t, ls) # undo_push tid l um)"

definition undo_erase :: "txn_id \<Rightarrow> (txn_id \<times> lsn list) list \<Rightarrow> (txn_id \<times> lsn list) list" where
  "undo_erase tid um = filter (\<lambda>(t, ls). t \<noteq> tid) um"

text \<open>The cases of the switch: where the record is, and what it means for redo and undo. Offsets and lengths are \<^verbatim>\<open>int\<close>s.\<close>

definition note_record :: "log_record \<Rightarrow> int \<Rightarrow> recovery \<Rightarrow> recovery" where
  "note_record r off st =
     st\<lparr>lsn_offset := (lsn_offset st)(log_lsn r \<mapsto> off), lsn_len := (lsn_len st)(log_lsn r \<mapsto> to_int (int (log_tot_len r)))\<rparr>"

definition analyze_record :: "log_record \<Rightarrow> int \<Rightarrow> recovery \<Rightarrow> recovery" where
  "analyze_record r off st =
     (let s = note_record r off st
      in case log_type r of
           Begin \<Rightarrow> s\<lparr>undo_map := undo_push (log_tid r) (log_lsn r) (undo_map s)\<rparr>
         | Commit \<Rightarrow> s\<lparr>undo_map := undo_erase (log_tid r) (undo_map s)\<rparr>
         | ABORT \<Rightarrow> s\<lparr>undo_map := undo_erase (log_tid r) (undo_map s)\<rparr>
         | _ \<Rightarrow> s\<lparr>undo_map := undo_push (log_tid r) (log_lsn r) (undo_map s), redo_list := redo_list s @ [log_lsn r]\<rparr>)"

text \<open>The inner loop over one buffer. A record of a type the switch does not know leaves the offsets where they are. The length of
  a record is unsigned, so that the sum with an offset wraps.\<close>

fun scan_buffer :: "nat \<Rightarrow> bytes \<Rightarrow> nat \<Rightarrow> nat \<Rightarrow> int \<Rightarrow> recovery \<Rightarrow> (int \<times> recovery) option" where
  "scan_buffer 0 buf n boff foff st = None"
| "scan_buffer (Suc fuel) buf n boff foff st =
     (if boff + OFFSET_LOG_TOT_LEN + 4 < n then
        (if n < (read_u32 (boff + OFFSET_LOG_TOT_LEN) buf + boff) mod 2 ^ 32 then Some (foff, st)
         else case deserialize (drop boff buf) of
                None \<Rightarrow> scan_buffer fuel buf n boff foff st
              | Some r \<Rightarrow>
                  if log_type r = Checkpoint then scan_buffer fuel buf n boff foff st
                  else scan_buffer fuel buf n ((boff + log_tot_len r) mod 2 ^ 32) (to_int (foff + int (log_tot_len r)))
                         (analyze_record r foff st))
      else Some (foff, st))"

definition pad_buffer :: "nat \<Rightarrow> bytes \<Rightarrow> bytes" where
  "pad_buffer n data = data @ replicate (n - length data) 0"

fun analyze_loop :: "nat \<Rightarrow> int \<Rightarrow> int \<Rightarrow> recovery \<Rightarrow> disk_manager \<Rightarrow> (disk_manager, recovery) outcome option" where
  "analyze_loop 0 nfd foff st d = None"
| "analyze_loop (Suc fuel) nfd foff st d =
     (case read_log nfd LOG_BUFFER_SIZE foff d of
        (Inl e, d') \<Rightarrow> Some (Inl e, d')
      | (Inr None, d') \<Rightarrow> Some (Inl (InternalError ''READ LOG ERROR !''), d')
      | (Inr (Some data), d') \<Rightarrow>
          (case scan_buffer (Suc fuel) (pad_buffer LOG_BUFFER_SIZE data) (length data) 0 foff st of
             None \<Rightarrow> None
           | Some (foff', st') \<Rightarrow>
               if length data < LOG_BUFFER_SIZE then Some (Inr st', d')
               else analyze_loop fuel nfd foff' st' d'))"

definition analyze :: "nat \<Rightarrow> int \<Rightarrow> disk_manager \<Rightarrow> (disk_manager, recovery) outcome option" where
  "analyze fuel nfd d =
     (if \<not> is_file LOG_FILE_NAME d then Some (Inr recovery_new, d)
      else case analyze_loop fuel nfd 0 recovery_new d of
             Some (Inr st, d') \<Rightarrow> Some (Inr (st\<lparr>is_recovery := redo_list st \<noteq> [] \<or> undo_map st \<noteq> []\<rparr>), d')
           | x \<Rightarrow> x)"

subsection \<open>Redo\<close>

record 'i recovery_db =
  rdb_tables :: "(table_name \<times> rm_file) list"
  rdb_index_cols :: "table_name \<Rightarrow> (string \<times> (nat \<times> nat) list) list"
  rdb_indexes :: 'i

definition index_key :: "(nat \<times> nat) list \<Rightarrow> bytes \<Rightarrow> bytes" where
  "index_key cols data = concat (map (\<lambda>(off, len). read_bytes off len data) cols)"

definition each_index :: "(string \<Rightarrow> (nat \<times> nat) list \<Rightarrow> 'i \<Rightarrow> 'i) \<Rightarrow> table_name \<Rightarrow> 'i recovery_db \<Rightarrow> 'i recovery_db" where
  "each_index f t db = db\<lparr>rdb_indexes := foldl (\<lambda>ix (name, cols). f name cols ix) (rdb_indexes db) (rdb_index_cols db t)\<rparr>"

text \<open>The bytes of a record: a zeroed buffer of its length, filled from the log file; a buffer of a negative length is refused.\<close>

definition log_at :: "int \<Rightarrow> recovery \<Rightarrow> disk_manager \<Rightarrow> lsn \<Rightarrow> db_error + log_record option" where
  "log_at nfd st d l =
     (let len = (case lsn_len st l of None \<Rightarrow> 0 | Some n \<Rightarrow> n);
          off = (case lsn_offset st l of None \<Rightarrow> 0 | Some n \<Rightarrow> n)
      in if len < 0 then Inl (RuntimeError ''bad_array_new_length'')
         else case read_log nfd (nat len) off d of
           (Inl e, _) \<Rightarrow> Inl e
         | (Inr None, _) \<Rightarrow> Inr (deserialize (pad_buffer (nat len) []))
         | (Inr (Some data), _) \<Rightarrow> Inr (deserialize (pad_buffer (nat len) data)))"

definition ensure_page :: "int \<Rightarrow> rm_file \<Rightarrow> (rm_file, unit) outcome" where
  "ensure_page page_no fh =
     (if num_pages (rf_hdr fh) \<le> page_no
      then (case create_new_page_handle fh of (Inl e, fh') \<Rightarrow> (Inl e, fh') | (Inr _, fh') \<Rightarrow> (Inr (), fh'))
      else (Inr (), fh))"

definition slot_is_occupied :: "Rid \<Rightarrow> rm_file \<Rightarrow> (rm_file, bool) outcome" where
  "slot_is_occupied rid fh =
     (if num_pages (rf_hdr fh) \<le> rid_page_no rid then (Inr False, fh)
      else case fetch_page_handle (rid_page_no rid) fh of
             (Inl e, fh') \<Rightarrow> (Inl e, fh')
           | (Inr pg, fh') \<Rightarrow>
               (Inr (is_set (page_bitmap (rf_hdr fh) pg) (nat (rid_slot_no rid))), rf_unpin (rid_page_no rid) False fh'))"

definition put_back_row :: "Rid \<Rightarrow> bytes \<Rightarrow> rm_file \<Rightarrow> (rm_file, unit) outcome" where
  "put_back_row rid v fh =
     (case ensure_page (rid_page_no rid) fh of
        (Inl e, fh1) \<Rightarrow> (Inl e, fh1)
      | (Inr _, fh1) \<Rightarrow>
          (case slot_is_occupied rid fh1 of
             (Inl e, fh2) \<Rightarrow> (Inl e, fh2)
           | (Inr True, fh2) \<Rightarrow> (Inr (), fh2)
           | (Inr False, fh2) \<Rightarrow> insert_record_at rid v fh2))"

text \<open>\<open>redo_delete_row\<close> and \<open>redo_update_row\<close> swallow the exceptions of the record file.\<close>

definition redo_delete_row :: "Rid \<Rightarrow> rm_file \<Rightarrow> rm_file" where
  "redo_delete_row rid fh =
     (case get_record rid fh of (Inl _, fh1) \<Rightarrow> fh1 | (Inr _, fh1) \<Rightarrow> snd (delete_record rid None fh1))"

definition redo_update_row :: "Rid \<Rightarrow> bytes \<Rightarrow> rm_file \<Rightarrow> rm_file" where
  "redo_update_row rid v fh =
     (case get_record rid fh of (Inl _, fh1) \<Rightarrow> fh1 | (Inr _, fh1) \<Rightarrow> snd (update_record rid v None fh1))"

definition put_table :: "table_name \<Rightarrow> rm_file \<Rightarrow> 'i recovery_db \<Rightarrow> 'i recovery_db" where
  "put_table t fh db = db\<lparr>rdb_tables := AList.update t fh (rdb_tables db)\<rparr>"

definition redo_body :: "'i index_ops \<Rightarrow> log_body \<Rightarrow> 'i recovery_db \<Rightarrow> ('i recovery_db, unit) outcome" where
  "redo_body ops b db =
     (case b of
        InsertBody v rid t \<Rightarrow>
          (case map_of (rdb_tables db) t of
             None \<Rightarrow> (Inr (), db)
           | Some fh \<Rightarrow>
               (case put_back_row rid v fh of
                  (Inl e, fh') \<Rightarrow> (Inl e, put_table t fh' db)
                | (Inr _, fh') \<Rightarrow>
                    (Inr (), each_index (\<lambda>name cols. ix_insert ops name (index_key cols v) rid) t (put_table t fh' db))))
      | DeleteBody v rid t _ _ \<Rightarrow>
          (case (if t = [] then None else map_of (rdb_tables db) t) of
             None \<Rightarrow> (Inr (), db)
           | Some fh \<Rightarrow>
               (Inr (), each_index (\<lambda>name cols. ix_delete ops name (index_key cols v)) t
                          (put_table t (redo_delete_row rid fh) db)))
      | UpdateBody v w rid t _ _ \<Rightarrow>
          (case map_of (rdb_tables db) t of
             None \<Rightarrow> (Inr (), db)
           | Some fh \<Rightarrow>
               (Inr (), each_index (\<lambda>name cols ix. ix_insert ops name (index_key cols w) rid
                                      (ix_delete ops name (index_key cols v) ix)) t
                          (put_table t (redo_update_row rid w fh) db)))
      | NoBody \<Rightarrow> (Inr (), db))"

fun redo_each :: "'i index_ops \<Rightarrow> int \<Rightarrow> recovery \<Rightarrow> disk_manager \<Rightarrow> lsn list \<Rightarrow> 'i recovery_db \<Rightarrow> ('i recovery_db, unit) outcome" where
  "redo_each ops nfd st d [] db = (Inr (), db)"
| "redo_each ops nfd st d (l # ls) db =
     (case log_at nfd st d l of
        Inl e \<Rightarrow> (Inl e, db)
      | Inr None \<Rightarrow> redo_each ops nfd st d ls db
      | Inr (Some r) \<Rightarrow>
          (case redo_body ops (log_body r) db of
             (Inl e, db') \<Rightarrow> (Inl e, db')
           | (Inr _, db') \<Rightarrow> redo_each ops nfd st d ls db'))"

definition redo :: "'i index_ops \<Rightarrow> int \<Rightarrow> recovery \<Rightarrow> disk_manager \<Rightarrow> 'i recovery_db \<Rightarrow> ('i recovery_db, unit) outcome" where
  "redo ops nfd st d db = redo_each ops nfd st d (redo_list st) db"

subsection \<open>Undo\<close>

text \<open>The answer of undoing one record: done, or skipped by \<^verbatim>\<open>continue\<close>, in which case the record stays at the end of the
  list.\<close>

datatype undo_answer = Undone | Skipped

definition undo_body :: "'i index_ops \<Rightarrow> log_body \<Rightarrow> 'i recovery_db \<Rightarrow> ('i recovery_db, undo_answer) outcome" where
  "undo_body ops b db =
     (case b of
        InsertBody v rid t \<Rightarrow>
          (case (if t = [] then None else map_of (rdb_tables db) t) of
             None \<Rightarrow> (Inr Skipped, db)
           | Some fh \<Rightarrow>
               (case delete_record rid None fh of
                  (Inl e, fh') \<Rightarrow> (Inl e, put_table t fh' db)
                | (Inr _, fh') \<Rightarrow>
                    (Inr Undone, each_index (\<lambda>name cols. ix_delete ops name (index_key cols v)) t (put_table t fh' db))))
      | DeleteBody v rid t _ _ \<Rightarrow>
          (case (if t = [] then None else map_of (rdb_tables db) t) of
             None \<Rightarrow> (Inr Skipped, db)
           | Some fh \<Rightarrow>
               (case put_back_row rid v fh of
                  (Inl e, fh') \<Rightarrow> (Inl e, put_table t fh' db)
                | (Inr _, fh') \<Rightarrow>
                    (Inr Undone, each_index (\<lambda>name cols. ix_insert ops name (index_key cols v) rid) t (put_table t fh' db))))
      | UpdateBody v w rid t _ _ \<Rightarrow>
          (case (if t = [] then None else map_of (rdb_tables db) t) of
             None \<Rightarrow> (Inr Skipped, db)
           | Some fh \<Rightarrow>
               (case update_record rid v None fh of
                  (Inl e, fh') \<Rightarrow> (Inl e, put_table t fh' db)
                | (Inr _, fh') \<Rightarrow>
                    (Inr Undone, each_index (\<lambda>name cols ix. ix_insert ops name (index_key cols v) rid
                                               (ix_delete ops name (index_key cols w) ix)) t (put_table t fh' db))))
      | NoBody \<Rightarrow> (Inr Undone, db))"

fun undo_txn :: "nat \<Rightarrow> 'i index_ops \<Rightarrow> int \<Rightarrow> recovery \<Rightarrow> disk_manager \<Rightarrow> lsn list \<Rightarrow> 'i recovery_db
    \<Rightarrow> ('i recovery_db, unit) outcome option" where
  "undo_txn 0 ops nfd st d ls db = None"
| "undo_txn (Suc fuel) ops nfd st d ls db =
     (if ls = [] then Some (Inr (), db)
      else case log_at nfd st d (last ls) of
             Inl e \<Rightarrow> Some (Inl e, db)
           | Inr None \<Rightarrow> undo_txn fuel ops nfd st d (butlast ls) db
           | Inr (Some r) \<Rightarrow>
               (case undo_body ops (log_body r) db of
                  (Inl e, db') \<Rightarrow> Some (Inl e, db')
                | (Inr Undone, db') \<Rightarrow> undo_txn fuel ops nfd st d (butlast ls) db'
                | (Inr Skipped, db') \<Rightarrow> undo_txn fuel ops nfd st d ls db'))"

fun undo_each :: "nat \<Rightarrow> 'i index_ops \<Rightarrow> int \<Rightarrow> recovery \<Rightarrow> disk_manager \<Rightarrow> (txn_id \<times> lsn list) list \<Rightarrow> 'i recovery_db
    \<Rightarrow> ('i recovery_db, unit) outcome option" where
  "undo_each fuel ops nfd st d [] db = Some (Inr (), db)"
| "undo_each fuel ops nfd st d ((tid, ls) # um) db =
     (case undo_txn fuel ops nfd st d ls db of
        Some (Inr _, db') \<Rightarrow> undo_each fuel ops nfd st d um db'
      | x \<Rightarrow> x)"

text \<open>The flush of all tables and the checkpoint at the end, when there was something to recover, change no row.\<close>

definition undo :: "nat \<Rightarrow> 'i index_ops \<Rightarrow> int \<Rightarrow> recovery \<Rightarrow> disk_manager \<Rightarrow> 'i recovery_db \<Rightarrow> ('i recovery_db, unit) outcome option" where
  "undo fuel ops nfd st d db = undo_each fuel ops nfd st d (undo_map st) db"

subsection \<open>Analysis of a log the log manager wrote\<close>

definition log_bytes :: "log_record list \<Rightarrow> bytes" where
  "log_bytes rs = concat (map serialize rs)"

text \<open>The records a log can hold (the checkpoint record is never written to it), and what the analysis makes of them.\<close>

definition logged :: "log_record \<Rightarrow> bool" where
  "logged r \<longleftrightarrow> log_ok r \<and> log_type r \<noteq> Checkpoint \<and> log_tot_len r \<le> LOG_BUFFER_SIZE"

lemma built_logged: "built r \<Longrightarrow> log_type r \<noteq> Checkpoint \<Longrightarrow> log_tot_len r \<le> LOG_BUFFER_SIZE \<Longrightarrow> logged r"
  by (simp add: logged_def built_ok)

fun analyze_all :: "int \<Rightarrow> recovery \<Rightarrow> log_record list \<Rightarrow> recovery" where
  "analyze_all off st [] = st"
| "analyze_all off st (r # rs) = analyze_all (off + int (log_tot_len r)) (analyze_record r off st) rs"

lemma log_bytes_simps [simp]:
  "log_bytes [] = []" "log_bytes (r # rs) = serialize r @ log_bytes rs" "log_bytes (us @ vs) = log_bytes us @ log_bytes vs"
  by (simp_all add: log_bytes_def)

lemma analyze_all_append:
  "\<forall>r \<in> set us. log_ok r \<Longrightarrow> analyze_all off st (us @ vs) = analyze_all (off + int (length (log_bytes us))) (analyze_all off st us) vs"
  by (induction us arbitrary: off st) (auto simp: length_serialize add.assoc)

lemma log_tot_len_ge: "log_ok r \<Longrightarrow> 20 \<le> log_tot_len r"
  by (simp add: log_ok_def log_offsets)

lemma read_log_ok:
  assumes "log_open_ok d" "foff \<le> length (log_disk d)" "length (log_disk d) < 2 ^ 31"
  shows "read_log nfd n (int foff) d = (Inr (Some (take n (drop foff (log_disk d)))), d)"
proof -
  obtain bs where bs: "os_files d LOG_FILE_NAME = Some bs" using log_file_exists [OF assms(1)] by blast
  have fd: "log_fd d \<noteq> -1" "fd_content d (log_fd d) = Some bs"
    using assms(1) bs by (auto simp: log_open_ok_def fd_content_def)
  have l: "log_disk d = bs" using bs by (simp add: log_disk_def)
  then have size: "get_file_size LOG_FILE_NAME d = int (length bs)" using bs assms(3) by (simp add: get_file_size_def int32_def)
  have k: "nat (min (int n) (int (length bs) - int foff)) = min n (length bs - foff)" by linarith
  show ?thesis
    using assms(2) fd size k l
    by (auto simp: read_log_def log_open_def Let_def read_bytes_def min_def)
qed

text \<open>Reading inside the part of a buffer that agrees with the log.\<close>

lemma read_prefix:
  assumes "take n buf = take n s" "off + k \<le> n"
  shows "read_bytes off k buf = read_bytes off k s"
proof -
  have "take k (drop off (take n buf)) = take k (drop off (take n s))" using assms(1) by simp
  moreover have "k \<le> n - off" using assms(2) by simp
  ultimately show ?thesis by (simp add: read_bytes_def drop_take min_def)
qed

lemma tot_len_at:
  assumes "log_ok r" "take n buf = take n s" "drop boff s = serialize r @ q" "boff + 12 \<le> n"
  shows "read_u32 (boff + OFFSET_LOG_TOT_LEN) buf = log_tot_len r"
proof -
  have "read_u32 (boff + OFFSET_LOG_TOT_LEN) buf = read_u32 (boff + OFFSET_LOG_TOT_LEN) s"
    using read_prefix [OF assms(2), of "boff + 8" 4] assms(4) by (simp add: read_u32_def log_offsets)
  also have "\<dots> = read_u32 OFFSET_LOG_TOT_LEN (serialize r @ q)"
    unfolding assms(3) [symmetric] by (simp add: read_u32_def read_bytes_def add.commute)
  also have "\<dots> = log_tot_len r"
    using arg_cong [OF deserialize_serialize [OF assms(1), of q], of "map_option log_tot_len"]
    by (simp add: deserialize_def split: option.splits)
  finally show ?thesis .
qed

lemma record_at:
  assumes "log_ok r" "take n buf = take n s" "drop boff s = serialize r @ q" "boff + log_tot_len r \<le> n"
  shows "deserialize (drop boff buf) = Some r"
proof -
  have "take (log_tot_len r) (drop boff buf) = take (log_tot_len r) (drop boff s)"
    using read_prefix [OF assms(2,4)] by (simp add: read_bytes_def)
  also have "\<dots> = serialize r" using assms(3) length_serialize [OF assms(1)] by simp
  finally have "drop boff buf = serialize r @ drop (log_tot_len r) (drop boff buf)"
    by (metis append_take_drop_id)
  then show ?thesis using deserialize_serialize [OF assms(1)] by metis
qed

lemma scan_buffer_ok:
  assumes "\<forall>r \<in> set rs. logged r" "length rs < fuel" "take n buf = take n s" "drop boff s = log_bytes rs" "boff \<le> n"
    "n \<le> LOG_BUFFER_SIZE" "n \<le> length s" "0 \<le> foff" "foff + int (length (log_bytes rs)) < 2 ^ 31"
  shows "\<exists>us vs. rs = us @ vs \<and> boff + length (log_bytes us) \<le> n \<and>
    (vs \<noteq> [] \<longrightarrow> n < boff + length (log_bytes us) + log_tot_len (hd vs)) \<and>
    scan_buffer fuel buf n boff foff st = Some (foff + int (length (log_bytes us)), analyze_all foff st us)"
  using assms
proof (induction rs arbitrary: fuel boff foff st)
  case Nil
  then obtain fuel' where f: "fuel = Suc fuel'" by (cases fuel) auto
  have "boff = n" using Nil.prems by simp
  then show ?case using f by simp
next
  case (Cons r rs)
  then obtain fuel' where f: "fuel = Suc fuel'" by (cases fuel) auto
  have r: "log_ok r" "log_type r \<noteq> Checkpoint" "log_tot_len r \<le> LOG_BUFFER_SIZE" using Cons.prems(1) by (auto simp: logged_def)
  have d: "drop boff s = serialize r @ log_bytes rs" using Cons.prems(4) by simp
  have off: "OFFSET_LOG_TOT_LEN + 4 = 12" by (simp add: log_offsets)
  consider (short) "\<not> boff + 12 < n" | (cut) "boff + 12 < n" "n < boff + log_tot_len r" | (whole) "boff + 12 < n" "boff + log_tot_len r \<le> n"
    by linarith
  then show ?case
  proof cases
    case short
    then have "scan_buffer fuel buf n boff foff st = Some (foff, st)" using f off by simp
    moreover have "n < boff + log_tot_len r" using short log_tot_len_ge [OF r(1)] by linarith
    ultimately show ?thesis using Cons.prems(5) by (intro exI [of _ "[]"] exI [of _ "r # rs"]) simp
  next
    case cut
    have t: "read_u32 (boff + OFFSET_LOG_TOT_LEN) buf = log_tot_len r"
      using tot_len_at [OF r(1) Cons.prems(3) d] cut by simp
    have "(log_tot_len r + boff) mod 2 ^ 32 = log_tot_len r + boff"
      using r(3) Cons.prems(5,6) by (simp add: LOG_BUFFER_SIZE_def PAGE_SIZE_def)
    then have "scan_buffer fuel buf n boff foff st = Some (foff, st)" using f off t cut by (simp add: add.commute)
    then show ?thesis using Cons.prems(5) cut by (intro exI [of _ "[]"] exI [of _ "r # rs"]) simp
  next
    case whole
    have t: "read_u32 (boff + OFFSET_LOG_TOT_LEN) buf = log_tot_len r"
      using tot_len_at [OF r(1) Cons.prems(3) d] whole by simp
    have m: "(log_tot_len r + boff) mod 2 ^ 32 = log_tot_len r + boff"
      using r(3) Cons.prems(5,6) by (simp add: LOG_BUFFER_SIZE_def PAGE_SIZE_def)
    have fit: "int32 (foff + int (log_tot_len r))" using Cons.prems(8,9) length_serialize [OF r(1)] by (simp add: int32_def)
    have s1: "scan_buffer fuel buf n boff foff st
        = scan_buffer fuel' buf n (boff + log_tot_len r) (foff + int (log_tot_len r)) (analyze_record r foff st)"
      using f off t m whole r(2) fit record_at [OF r(1) Cons.prems(3) d whole(2)] by (simp add: add.commute)
    have "drop (log_tot_len r) (drop boff s) = log_bytes rs" using d length_serialize [OF r(1)] by simp
    then have d2: "drop (boff + log_tot_len r) s = log_bytes rs" by (simp add: add.commute)
    have "\<forall>x \<in> set rs. logged x" "length rs < fuel'" using Cons.prems(1,2) f by simp_all
    moreover have "0 \<le> foff + int (log_tot_len r)" "foff + int (log_tot_len r) + int (length (log_bytes rs)) < 2 ^ 31"
      using Cons.prems(8,9) length_serialize [OF r(1)] by simp_all
    note Cons.IH [OF calculation Cons.prems(3) d2 whole(2) Cons.prems(6,7) this]
    then
    obtain us vs where u: "rs = us @ vs" "boff + log_tot_len r + length (log_bytes us) \<le> n"
      "vs \<noteq> [] \<longrightarrow> n < boff + log_tot_len r + length (log_bytes us) + log_tot_len (hd vs)"
      "scan_buffer fuel' buf n (boff + log_tot_len r) (foff + int (log_tot_len r)) (analyze_record r foff st)
        = Some (foff + int (log_tot_len r) + int (length (log_bytes us)),
            analyze_all (foff + int (log_tot_len r)) (analyze_record r foff st) us)"
      by metis
    then show ?thesis using s1 length_serialize [OF r(1)]
      by (intro exI [of _ "r # us"] exI [of _ vs]) (simp add: add.assoc)
  qed
qed

lemma analyze_loop_ok:
  assumes "\<forall>r \<in> set rs. logged r" "length rs + 2 \<le> fuel" "log_open_ok d" "drop foff (log_disk d) = log_bytes rs"
    "foff \<le> length (log_disk d)" "length (log_disk d) < 2 ^ 31"
  shows "analyze_loop fuel nfd (int foff) st d = Some (Inr (analyze_all (int foff) st rs), d)"
  using assms
proof (induction fuel arbitrary: foff st rs)
  case (Suc fuel)
  let ?data = "take LOG_BUFFER_SIZE (log_bytes rs)"
  have rd: "read_log nfd LOG_BUFFER_SIZE (int foff) d = (Inr (Some ?data), d)"
    using read_log_ok [OF Suc.prems(3,5,6)] Suc.prems(4) by simp
  let ?n = "length ?data"
  have pre: "take ?n (pad_buffer LOG_BUFFER_SIZE ?data) = take ?n (log_bytes rs)" "drop 0 (log_bytes rs) = log_bytes rs"
    "0 \<le> ?n" "?n \<le> LOG_BUFFER_SIZE" "?n \<le> length (log_bytes rs)"
    by (auto simp: pad_buffer_def)
  have fuel: "length rs < Suc fuel" using Suc.prems(2) by simp
  have "length (log_disk d) - foff = length (log_bytes rs)" using Suc.prems(4) by (metis length_drop)
  then have fit: "0 \<le> int foff" "int foff + int (length (log_bytes rs)) < 2 ^ 31" using Suc.prems(5,6) by simp_all
  obtain us vs where u: "rs = us @ vs" "length (log_bytes us) \<le> ?n"
    "vs \<noteq> [] \<longrightarrow> ?n < length (log_bytes us) + log_tot_len (hd vs)"
    "scan_buffer (Suc fuel) (pad_buffer LOG_BUFFER_SIZE ?data) ?n 0 (int foff) st
      = Some (int foff + int (length (log_bytes us)), analyze_all (int foff) st us)"
    using scan_buffer_ok [OF Suc.prems(1) fuel pre fit, of st] unfolding add_0 by blast
  have step: "analyze_loop (Suc fuel) nfd (int foff) st d = (if ?n < LOG_BUFFER_SIZE then Some (Inr (analyze_all (int foff) st us), d)
      else analyze_loop fuel nfd (int (foff + length (log_bytes us))) (analyze_all (int foff) st us) d)"
    by (simp only: analyze_loop.simps rd u(4) prod.case sum.case option.case of_nat_add)
  have ok: "\<forall>r \<in> set us. log_ok r" "\<forall>r \<in> set vs. logged r" using Suc.prems(1) u(1) by (auto simp: logged_def)
  show ?case
  proof (cases "?n < LOG_BUFFER_SIZE")
    case True
    then have n: "?n = length (log_bytes rs)" by simp
    have "vs = []"
    proof (rule ccontr)
      assume "vs \<noteq> []"
      then obtain v vs' where v: "vs = v # vs'" by (cases vs) auto
      then have "length (log_bytes rs) \<ge> length (log_bytes us) + log_tot_len v"
        using u(1) ok(2) length_serialize [of v] by (simp add: logged_def)
      then show False using u(3) v n by simp
    qed
    then show ?thesis unfolding step if_P [OF True] using u(1) by simp
  next
    case False
    then have N: "?n = LOG_BUFFER_SIZE" by simp
    have "us \<noteq> []"
    proof
      assume us: "us = []"
      show False
      proof (cases vs)
        case Nil
        then show ?thesis using u(1) us N by (simp add: LOG_BUFFER_SIZE_def PAGE_SIZE_def)
      next
        case (Cons v vs')
        then show ?thesis using u(3) us N ok(2) by (simp add: logged_def)
      qed
    qed
    then have f: "length vs + 2 \<le> fuel" using u(1) Suc.prems(2) by (cases us) auto
    have "drop (length (log_bytes us)) (drop foff (log_disk d)) = log_bytes vs" using Suc.prems(4) u(1) by simp
    then have dr: "drop (foff + length (log_bytes us)) (log_disk d) = log_bytes vs" by (simp add: add.commute)
    have le: "foff + length (log_bytes us) \<le> length (log_disk d)"
      using u(1) Suc.prems(5) \<open>length (log_disk d) - foff = length (log_bytes rs)\<close> by simp
    show ?thesis
      unfolding step if_not_P [OF False]
      using Suc.IH [OF ok(2) f Suc.prems(3) dr le Suc.prems(6), of "analyze_all (int foff) st us"] u(1) analyze_all_append [OF ok(1)]
      by simp
  qed
qed simp

text \<open>What the analysis collects: the data records, and of every transaction the records after its last end.\<close>

definition is_data :: "log_record \<Rightarrow> bool" where
  "is_data r \<longleftrightarrow> log_type r = INSERT \<or> log_type r = DELETE \<or> log_type r = UPDATE"

definition is_end :: "log_record \<Rightarrow> bool" where
  "is_end r \<longleftrightarrow> log_type r = Commit \<or> log_type r = ABORT"

definition open_step :: "txn_id \<Rightarrow> lsn list option \<Rightarrow> log_record \<Rightarrow> lsn list option" where
  "open_step tid x r =
     (if log_tid r \<noteq> tid then x else if is_end r then None
      else Some ((case x of None \<Rightarrow> [] | Some ls \<Rightarrow> ls) @ [log_lsn r]))"

definition open_lsns :: "txn_id \<Rightarrow> log_record list \<Rightarrow> lsn list option" where
  "open_lsns tid rs = foldl (open_step tid) None rs"

lemma map_of_undo_push:
  "sorted_wrt (<) (map fst um) \<Longrightarrow>
     map_of (undo_push tid l um) t = (if t = tid then Some ((case map_of um tid of None \<Rightarrow> [] | Some ls \<Rightarrow> ls) @ [l]) else map_of um t)"
proof (induction um)
  case (Cons a um)
  obtain t' ls where a: "a = (t', ls)" by (cases a)
  have "map_of um tid = None" if "tid < t'" using Cons.prems a that by (fastforce simp: map_of_eq_None_iff)
  then show ?case using Cons a by auto
qed simp

lemma undo_push_keys: "fst ` set (undo_push tid l um) = insert tid (fst ` set um)"
  by (induction tid l um rule: undo_push.induct) auto

lemma undo_push_sorted: "sorted_wrt (<) (map fst um) \<Longrightarrow> sorted_wrt (<) (map fst (undo_push tid l um))"
proof (induction um)
  case (Cons a um)
  obtain t' ls where a: "a = (t', ls)" by (cases a)
  have "\<forall>x \<in> fst ` set um. t' < x" using Cons.prems a by simp
  then have "\<forall>x \<in> fst ` set (undo_push tid l um). t' < x" if "t' < tid" using that by (simp add: undo_push_keys)
  then show ?case using Cons a by fastforce
qed simp

lemma map_of_undo_erase: "map_of (undo_erase tid um) t = (if t = tid then None else map_of um t)"
  by (induction um) (auto simp: undo_erase_def)

lemma undo_erase_sorted: "sorted_wrt (<) (map fst um) \<Longrightarrow> sorted_wrt (<) (map fst (undo_erase tid um))"
  by (induction um) (auto simp: undo_erase_def)

lemma analyze_record_fields:
  assumes "log_type r \<noteq> Checkpoint"
  shows "redo_list (analyze_record r off st) = redo_list st @ (if is_data r then [log_lsn r] else [])"
    and "lsn_offset (analyze_record r off st) = (lsn_offset st)(log_lsn r \<mapsto> off)"
    and "lsn_len (analyze_record r off st) = (lsn_len st)(log_lsn r \<mapsto> to_int (int (log_tot_len r)))"
    and "undo_map (analyze_record r off st)
      = (if is_end r then undo_erase (log_tid r) (undo_map st) else undo_push (log_tid r) (log_lsn r) (undo_map st))"
  using assms
  by (cases "log_type r"; simp add: analyze_record_def note_record_def Let_def is_data_def is_end_def)+

lemma analyze_all_redo:
  "\<forall>r \<in> set rs. logged r \<Longrightarrow> redo_list (analyze_all off st rs) = redo_list st @ map log_lsn (filter is_data rs)"
  by (induction rs arbitrary: off st) (auto simp: analyze_record_fields logged_def)

lemma analyze_all_undo:
  "\<forall>r \<in> set rs. logged r \<Longrightarrow> sorted_wrt (<) (map fst (undo_map st)) \<Longrightarrow>
     map_of (undo_map (analyze_all off st rs)) tid = foldl (open_step tid) (map_of (undo_map st) tid) rs"
proof (induction rs arbitrary: off st)
  case (Cons r rs)
  have r: "log_type r \<noteq> Checkpoint" using Cons.prems(1) by (simp add: logged_def)
  have s: "sorted_wrt (<) (map fst (undo_map (analyze_record r off st)))"
    using Cons.prems(2) by (simp add: analyze_record_fields(4) [OF r] undo_push_sorted undo_erase_sorted)
  have "map_of (undo_map (analyze_record r off st)) tid = open_step tid (map_of (undo_map st) tid) r"
    using Cons.prems(2) by (auto simp: analyze_record_fields(4) [OF r] open_step_def map_of_undo_push map_of_undo_erase)
  then show ?case using Cons.IH [OF _ s] Cons.prems(1) by simp
qed simp

lemma analyze_all_other:
  "\<forall>r \<in> set rs. logged r \<and> log_lsn r \<noteq> l \<Longrightarrow>
     lsn_offset (analyze_all off st rs) l = lsn_offset st l \<and> lsn_len (analyze_all off st rs) l = lsn_len st l"
  by (induction rs arbitrary: off st) (auto simp: analyze_record_fields logged_def)

lemma analyze_all_position:
  assumes "\<forall>r \<in> set (us @ r # vs). logged r" "\<forall>v \<in> set vs. log_lsn v \<noteq> log_lsn r"
  shows "lsn_offset (analyze_all off st (us @ r # vs)) (log_lsn r) = Some (off + int (length (log_bytes us))) \<and>
    lsn_len (analyze_all off st (us @ r # vs)) (log_lsn r) = Some (int (log_tot_len r))"
proof -
  have us: "\<forall>u \<in> set us. log_ok u" and r: "log_type r \<noteq> Checkpoint" using assms(1) by (auto simp: logged_def)
  have "int32 (int (log_tot_len r))" using assms(1) by (auto simp: logged_def LOG_BUFFER_SIZE_def PAGE_SIZE_def int32_def)
  moreover have "\<forall>v \<in> set vs. logged v \<and> log_lsn v \<noteq> log_lsn r" using assms by auto
  ultimately show ?thesis
    using analyze_all_append [OF us, of off st "r # vs"] analyze_all_other [of vs "log_lsn r"] r
    by (simp add: analyze_record_fields)
qed

lemma log_at_record:
  assumes "log_open_ok d" "log_disk d = log_bytes (us @ r # vs)" "log_ok r" "length (log_disk d) < 2 ^ 31"
    "lsn_offset st (log_lsn r) = Some (int (length (log_bytes us)))" "lsn_len st (log_lsn r) = Some (int (log_tot_len r))"
  shows "log_at nfd st d (log_lsn r) = Inr (Some r)"
proof -
  have "read_log nfd (log_tot_len r) (int (length (log_bytes us))) d
      = (Inr (Some (take (log_tot_len r) (drop (length (log_bytes us)) (log_disk d)))), d)"
    using assms(2) by (intro read_log_ok [OF assms(1) _ assms(4)]) simp
  also have "take (log_tot_len r) (drop (length (log_bytes us)) (log_disk d)) = serialize r"
    using assms(2) length_serialize [OF assms(3)] by simp
  finally show ?thesis
    using assms(5,6) deserialize_serialize [OF assms(3), of "replicate (log_tot_len r - length (serialize r)) 0"]
    by (simp add: log_at_def Let_def pad_buffer_def)
qed

text \<open>The last record of a log with a given LSN.\<close>

definition last_with :: "lsn \<Rightarrow> log_record list \<Rightarrow> log_record" where
  "last_with l rs = last (filter (\<lambda>r. log_lsn r = l) rs)"

lemma last_with_split:
  assumes "r \<in> set rs"
  obtains us vs where "rs = us @ last_with (log_lsn r) rs # vs" "\<forall>v \<in> set vs. log_lsn v \<noteq> log_lsn r"
    "log_lsn (last_with (log_lsn r) rs) = log_lsn r"
proof -
  obtain us x vs where x: "rs = us @ x # vs" "log_lsn x = log_lsn r" "\<forall>v \<in> set vs. log_lsn v \<noteq> log_lsn r"
    using split_list_last_prop [of rs "\<lambda>x. log_lsn x = log_lsn r"] assms by blast
  then have "filter (\<lambda>y. log_lsn y = log_lsn r) rs = filter (\<lambda>y. log_lsn y = log_lsn r) us @ [x]" by (simp add: filter_empty_conv)
  then have "last_with (log_lsn r) rs = x" by (simp add: last_with_def)
  then show ?thesis using that x by blast
qed

lemma analyze_log_at:
  assumes "log_open_ok d" "log_disk d = log_bytes rs" "\<forall>r \<in> set rs. logged r" "length (log_disk d) < 2 ^ 31" "r \<in> set rs"
    and "lsn_offset st = lsn_offset (analyze_all 0 recovery_new rs)" "lsn_len st = lsn_len (analyze_all 0 recovery_new rs)"
  shows "log_at nfd st d (log_lsn r) = Inr (Some (last_with (log_lsn r) rs))"
proof -
  let ?x = "last_with (log_lsn r) rs"
  obtain us vs where rs: "rs = us @ ?x # vs" "\<forall>v \<in> set vs. log_lsn v \<noteq> log_lsn r" "log_lsn ?x = log_lsn r"
    by (rule last_with_split [OF assms(5)])
  have x: "log_ok ?x" using assms(3) rs(1) unfolding logged_def by (metis in_set_conv_decomp)
  have v: "\<forall>v \<in> set vs. log_lsn v \<noteq> log_lsn ?x" using rs(2,3) by simp
  have "\<forall>r \<in> set (us @ ?x # vs). logged r" "log_disk d = log_bytes (us @ ?x # vs)" using assms(2,3) rs(1) by metis+
  from log_at_record [OF assms(1) this(2) x assms(4), of st nfd] analyze_all_position [OF this(1) v, of 0 recovery_new] assms(6,7)
  show ?thesis using rs(1,3) by simp
qed

subsection \<open>Properties\<close>

text \<open>C30: Recovery reads the whole log. On a log file of less than 2 GiB (its size and the offsets are \<^verbatim>\<open>int\<close>s) that holds the
  bytes of any records the constructors build, each no longer than a buffer, in any number of buffers, the analysis ends; it marks every data record for redo, in
  log order, and lists for every transaction without a commit or abort record exactly its records, in order. Both lists name
  records by their LSNs, and what redo and undo then read for an LSN is the last record in the log that has it: the record
  itself when no later one has its LSN. The LSNs start again at 0 in every session while the log is kept, so that a log of two
  sessions has records that are not read (\<open>reused_lsn_reads_later\<close>).\<close>

theorem analyze_finds_all_records:
  assumes "log_open_ok d" "log_disk d = log_bytes rs" "length (log_disk d) < 2 ^ 31" "length rs + 2 \<le> fuel"
    and "\<forall>r \<in> set rs. built r \<and> log_type r \<noteq> Checkpoint \<and> log_tot_len r \<le> LOG_BUFFER_SIZE"
  shows "\<exists>st. analyze fuel nfd d = Some (Inr st, d) \<and> redo_list st = map log_lsn (filter is_data rs) \<and>
    (\<forall>tid. map_of (undo_map st) tid = open_lsns tid rs) \<and>
    (\<forall>r \<in> set rs. log_at nfd st d (log_lsn r) = Inr (Some (last_with (log_lsn r) rs)))"
proof -
  let ?st = "analyze_all 0 recovery_new rs"
  let ?st' = "?st\<lparr>is_recovery := redo_list ?st \<noteq> [] \<or> undo_map ?st \<noteq> []\<rparr>"
  have l: "\<forall>r \<in> set rs. logged r" using assms(5) built_logged by blast
  have isf: "is_file LOG_FILE_NAME d" using log_file_exists [OF assms(1)] by (auto simp: is_file_def)
  have "analyze_loop fuel nfd (int 0) recovery_new d = Some (Inr (analyze_all (int 0) recovery_new rs), d)"
    by (rule analyze_loop_ok [OF l assms(4,1)]) (use assms(2,3) in simp_all)
  then have a: "analyze fuel nfd d = Some (Inr ?st', d)" using isf by (simp add: analyze_def)
  have "\<forall>r \<in> set rs. log_at nfd ?st' d (log_lsn r) = Inr (Some (last_with (log_lsn r) rs))"
    using analyze_log_at [OF assms(1,2) l assms(3), of _ ?st'] by simp
  then show ?thesis
    using a analyze_all_redo [OF l, of 0 recovery_new] analyze_all_undo [OF l, of recovery_new 0]
    by (auto simp: recovery_new_def open_lsns_def)
qed

definition example_log :: "log_record list" where
  "example_log = [(BeginLogRecord 7)\<lparr>log_lsn := 0\<rparr>,
     (InsertLogRecord 7 [1, 2] \<lparr>rid_page_no = 1, rid_slot_no = 0\<rparr> [116])\<lparr>log_lsn := 1\<rparr>, (AbortLogRecord 7)\<lparr>log_lsn := 2\<rparr>]"

lemma example_log_facts:
  "\<forall>r \<in> set example_log. built r \<and> log_type r \<noteq> Checkpoint \<and> log_tot_len r \<le> LOG_BUFFER_SIZE" "length (log_bytes example_log) < 2 ^ 31"
  "map log_lsn (filter is_data example_log) = [1]" "open_lsns 7 example_log = None"
proof -
  note makers = BeginLogRecord_def InsertLogRecord_def AbortLogRecord_def log_base_def log_offsets
  have b: "\<forall>r \<in> set example_log. built r"
    by (auto simp: example_log_def int32_def rid_ok_def small_def intro!: built_lsn built_begin built_insert built_abort)
  moreover have t: "\<forall>r \<in> set example_log. log_type r \<noteq> Checkpoint \<and> log_tot_len r \<le> 100" by (simp add: example_log_def makers)
  ultimately show "\<forall>r \<in> set example_log. built r \<and> log_type r \<noteq> Checkpoint \<and> log_tot_len r \<le> LOG_BUFFER_SIZE"
    by (fastforce simp: LOG_BUFFER_SIZE_def PAGE_SIZE_def)
  have "\<forall>r \<in> set example_log. length (serialize r) \<le> 100" using b t length_serialize [OF built_ok] by simp
  then show "length (log_bytes example_log) < 2 ^ 31" by (simp add: example_log_def)
  show "map log_lsn (filter is_data example_log) = [1]" "open_lsns 7 example_log = None"
    by (simp_all add: example_log_def is_data_def is_end_def open_lsns_def open_step_def makers)
qed

lemma example_log_on_disk: "\<exists>d. log_open_ok d \<and> log_disk d = log_bytes example_log"
proof -
  have "log_disk example_log_disk = []"
    by (simp add: log_disk_def example_log_disk_def open_file_def os_open_def create_file_def disk_new_def)
  then show ?thesis using write_log_ok [OF example_log_ok, of 9 "log_bytes example_log"] by fastforce
qed

theorem analyze_finds_all_records_witness:
  "\<exists>d st. log_disk d = log_bytes example_log \<and> analyze 5 9 d = Some (Inr st, d) \<and> redo_list st = [1] \<and>
     map_of (undo_map st) 7 = None \<and> log_at 9 st d 1 = Inr (Some (example_log ! 1))"
proof -
  obtain d where d: "log_open_ok d" "log_disk d = log_bytes example_log" using example_log_on_disk by blast
  have len: "length example_log + 2 \<le> 5" "length (log_disk d) < 2 ^ 31" using d(2) example_log_facts(2) by (simp_all add: example_log_def)
  have one: "example_log ! 1 \<in> set example_log" "log_lsn (example_log ! 1) = 1" "last_with 1 example_log = example_log ! 1"
    by (simp_all add: example_log_def last_with_def)
  obtain st where st: "analyze 5 9 d = Some (Inr st, d)" "redo_list st = [1]" "map_of (undo_map st) 7 = None"
    "\<forall>r \<in> set example_log. log_at 9 st d (log_lsn r) = Inr (Some (last_with (log_lsn r) example_log))"
    using analyze_finds_all_records [OF d len(2,1) example_log_facts(1), of 9] example_log_facts(3,4) by auto
  have "log_at 9 st d 1 = Inr (Some (example_log ! 1))" using bspec [OF st(4) one(1)] one(2,3) by simp
  then show ?thesis using d(2) st by blast
qed

subsection \<open>Redo of the rows of one table\<close>

text \<open>The data records of one table as changes of its rows; a history is replayed by \<open>redo_rows\<close> as \<open>redo\<close> does, and
  \<open>run_rows\<close> is what the transactions did when they ran.\<close>

datatype row_op = RowInsert Rid bytes | RowDelete Rid | RowUpdate Rid bytes

fun row_of :: "row_op \<Rightarrow> Rid" where
  "row_of (RowInsert rid v) = rid" | "row_of (RowDelete rid) = rid" | "row_of (RowUpdate rid v) = rid"

fun redo_row :: "row_op \<Rightarrow> rm_file \<Rightarrow> (rm_file, unit) outcome" where
  "redo_row (RowInsert rid v) fh = put_back_row rid v fh"
| "redo_row (RowDelete rid) fh = (Inr (), redo_delete_row rid fh)"
| "redo_row (RowUpdate rid v) fh = (Inr (), redo_update_row rid v fh)"

fun redo_rows :: "row_op list \<Rightarrow> rm_file \<Rightarrow> (rm_file, unit) outcome" where
  "redo_rows [] fh = (Inr (), fh)"
| "redo_rows (x # xs) fh = (case redo_row x fh of (Inl e, fh') \<Rightarrow> (Inl e, fh') | (Inr _, fh') \<Rightarrow> redo_rows xs fh')"

text \<open>One row: the value the operation leaves, when it ran and when it is redone on some value.\<close>

fun run_value :: "row_op \<Rightarrow> bytes option" where
  "run_value (RowInsert rid v) = Some v" | "run_value (RowDelete rid) = None" | "run_value (RowUpdate rid v) = Some v"

fun redo_value :: "row_op \<Rightarrow> bytes option \<Rightarrow> bytes option" where
  "redo_value (RowInsert rid v) x = (if x = None then Some v else x)"
| "redo_value (RowDelete rid) x = None"
| "redo_value (RowUpdate rid v) x = (if x = None then None else Some v)"

fun row_valid :: "row_op \<Rightarrow> bytes option \<Rightarrow> bool" where
  "row_valid (RowInsert rid v) x \<longleftrightarrow> x = None"
| "row_valid (RowDelete rid) x \<longleftrightarrow> x \<noteq> None"
| "row_valid (RowUpdate rid v) x \<longleftrightarrow> x \<noteq> None"

fun history_valid :: "row_op list \<Rightarrow> bytes option \<Rightarrow> bool" where
  "history_valid [] x \<longleftrightarrow> True"
| "history_valid (p # ps) x \<longleftrightarrow> row_valid p x \<and> history_valid ps (run_value p)"

fun final_value :: "row_op list \<Rightarrow> bytes option \<Rightarrow> bytes option" where
  "final_value [] x = x"
| "final_value (p # ps) x = final_value ps (run_value p)"

lemma redo_value_valid: "row_valid p x \<Longrightarrow> redo_value p x = run_value p"
  by (cases p) auto

text \<open>Redoing a history from any value the row had along the way ends in its final value.\<close>

lemma redo_value_converges:
  assumes "history_valid h x" "\<exists>k \<le> length h. y = final_value (take k h) x"
  shows "foldl (\<lambda>z p. redo_value p z) y h = final_value h x"
  using assms
proof (induction h arbitrary: x y)
  case (Cons p h)
  have "\<exists>k \<le> length h. redo_value p y = final_value (take k h) (run_value p)"
  proof (cases "y = x")
    case True
    then show ?thesis using Cons.prems(1) redo_value_valid [of p x] by (intro exI [of _ 0]) simp
  next
    case False
    obtain j where j: "j \<le> length (p # h)" "y = final_value (take j (p # h)) x" using Cons.prems(2) by blast
    then obtain k where "j = Suc k" using False by (cases j) auto
    then have k: "k \<le> length h" "y = final_value (take k h) (run_value p)" using j by simp_all
    have "redo_value p y = y \<or> redo_value p y = run_value p" by (cases p) auto
    then show ?thesis
    proof
      assume "redo_value p y = run_value p"
      then show ?thesis by (intro exI [of _ 0]) simp
    qed (use k in auto)
  qed
  then show ?case using Cons.IH [of "run_value p" "redo_value p y"] Cons.prems(1) by simp
qed simp

text \<open>The changes of a log fit a table: they have slots and records of its sizes, and an insertion goes to a page that exists or
  to the next one (\<open>ensure_page\<close> adds one page), as the pages of a file were added when the insertions ran. \<open>pages_after\<close> is the
  number of pages in the end.\<close>

definition op_fits :: "RmFileHdr \<Rightarrow> row_op \<Rightarrow> bool" where
  "op_fits h p \<longleftrightarrow> 1 \<le> rid_page_no (row_of p) \<and> 0 \<le> rid_slot_no (row_of p) \<and> rid_slot_no (row_of p) < int (num_records_per_page h) \<and>
     (case p of RowInsert rid v \<Rightarrow> length v = record_size h | RowUpdate rid v \<Rightarrow> length v = record_size h | RowDelete rid \<Rightarrow> True)"

lemma op_fits_same:
  "num_records_per_page h' = num_records_per_page h \<Longrightarrow> record_size h' = record_size h \<Longrightarrow> op_fits h' p = op_fits h p"
  by (simp add: op_fits_def split: row_op.split)

fun next_pages :: "row_op \<Rightarrow> int \<Rightarrow> int" where
  "next_pages (RowInsert rid v) n = max n (rid_page_no rid + 1)" | "next_pages p n = n"

fun pages_after :: "int \<Rightarrow> row_op list \<Rightarrow> int" where
  "pages_after n [] = n" | "pages_after n (p # ps) = pages_after (next_pages p n) ps"

fun in_order :: "int \<Rightarrow> row_op list \<Rightarrow> bool" where
  "in_order n [] \<longleftrightarrow> True" | "in_order n (p # ps) \<longleftrightarrow> next_pages p n \<le> n + 1 \<and> in_order (next_pages p n) ps"

text \<open>A table redo can work on: well-formed pages, whatever the chain of free pages is, and a frame for every page to add and one
  more, since a page that redo adds stays pinned.\<close>

definition redo_ready :: "row_op list \<Rightarrow> rm_file \<Rightarrow> bool" where
  "redo_ready ps fh \<longleftrightarrow> pages_inv fh \<and> (\<forall>p \<in> set ps. op_fits (rf_hdr fh) p) \<and>
     in_order (num_pages (rf_hdr fh)) ps \<and> pages_after (num_pages (rf_hdr fh)) ps < 2 ^ 31 \<and>
     int (card (set (ps_pins (rf_store fh)))) + (pages_after (num_pages (rf_hdr fh)) ps - num_pages (rf_hdr fh)) < int (ps_cap (rf_store fh))"

lemma pages_after_ge: "n \<le> pages_after n ps"
proof (induction ps arbitrary: n)
  case (Cons p ps)
  have "n \<le> next_pages p n" by (cases p) simp_all
  then show ?case using Cons [of "next_pages p n"] by simp
qed simp

lemma redo_ready_room: "redo_ready ps fh \<Longrightarrow> room fh"
  using pages_after_ge [of "num_pages (rf_hdr fh)" ps] by (simp add: redo_ready_def room_def)

lemma redo_ready_kept:
  assumes "redo_ready (p # ps) fh" "kept fh fh'" "next_pages p (num_pages (rf_hdr fh)) = num_pages (rf_hdr fh)"
  shows "redo_ready ps fh'"
  using assms op_fits_same [of "rf_hdr fh'" "rf_hdr fh"] by (simp add: redo_ready_def kept_def same_pool_def)

lemma slot_is_occupied_ok:
  assumes "pages_inv fh" "room fh" "rid_in fh rid"
  shows "slot_is_occupied rid fh = (Inr (file_records fh rid \<noteq> None), fh)"
proof -
  have p: "data_page fh (rid_page_no rid)" using assms(3) by (simp add: rid_in_def)
  obtain pg fh' where "fetch_page_handle (rid_page_no rid) fh = (Inr pg, fh')" "file_page fh (rid_page_no rid) = Some pg"
    "rf_unpin (rid_page_no rid) False fh' = fh"
    using fetch_pages [OF assms(1) p assms(2)] by metis
  then show ?thesis using assms(3)
    by (auto simp: slot_is_occupied_def file_records_def rid_in_def page_records_def data_page_def)
qed

text \<open>Putting a row back on a page that exists.\<close>

lemma put_back_there:
  assumes fh: "pages_inv fh" "room fh" "rid_in fh rid" "length v = record_size (rf_hdr fh)"
  shows "\<exists>fh'. put_back_row rid v fh = (Inr (), fh') \<and> kept fh fh' \<and>
    file_records fh' = (file_records fh)(rid := redo_value (RowInsert rid v) (file_records fh rid))"
proof -
  have p: "data_page fh (rid_page_no rid)" using fh(3) by (simp add: rid_in_def)
  have e: "ensure_page (rid_page_no rid) fh = (Inr (), fh)" using p by (simp add: ensure_page_def data_page_def)
  show ?thesis
  proof (cases "file_records fh rid")
    case None
    obtain pg s1 where f: "fetch_page_handle (rid_page_no rid) fh = (Inr pg, s1)" "file_page fh (rid_page_no rid) = Some pg"
      "pinned (rid_page_no rid) fh s1"
      using fetch_pages [OF fh(1) p fh(2)] by metis
    show ?thesis using None e slot_is_occupied_ok [OF fh(1-3)] insert_at_pages [OF fh(1,3,4) None f(1,3,2)] by (simp add: put_back_row_def)
  next
    case (Some w)
    then show ?thesis using e slot_is_occupied_ok [OF fh(1-3)] fh(1) by (simp add: put_back_row_def fun_upd_idem kept_def)
  qed
qed

text \<open>Putting a row back on the page after the last one, which is added and stays pinned.\<close>

lemma put_back_grows:
  assumes fh: "pages_inv fh" "room fh" "length v = record_size (rf_hdr fh)" "num_pages (rf_hdr fh) + 1 < 2 ^ 31"
    and rid: "rid_page_no rid = num_pages (rf_hdr fh)" "0 \<le> rid_slot_no rid" "rid_slot_no rid < int (num_records_per_page (rf_hdr fh))"
  defines "g \<equiv> (file_grow fh)\<lparr>rf_store := (rf_store (file_grow fh))\<lparr>ps_pins := rf_pid (rid_page_no rid) fh # ps_pins (rf_store fh)\<rparr>\<rparr>"
  shows "\<exists>fh'. put_back_row rid v fh = (Inr (), fh') \<and> kept g fh' \<and>
    file_records fh' = (file_records fh)(rid := redo_value (RowInsert rid v) (file_records fh rid))"
proof -
  let ?p = "rid_page_no rid" and ?pid = "rf_pid (rid_page_no rid) fh" and ?h = "rf_hdr fh"
  have h: "hdr_ok ?h" "1 \<le> ?p" "int32 (int (num_records_per_page ?h))" using fh(1) rid(1) hdr_ok_int32 by (auto simp: pages_inv_def)
  have st: "rf_fd fh \<in> set (ps_fds (rf_store fh))" "ps_next (rf_store fh) (rf_fd fh) = ?p" using fh(1) rid(1) by (simp_all add: pages_inv_def)
  note grow = grow_pages [OF fh(1,4)] and new = new_page_empty [OF h(1)]
  have "file_page g = file_page (file_grow fh)" unfolding file_page_def [abs_def] by (simp add: g_def rf_pid_def)
  moreover have "rf_hdr g = rf_hdr (file_grow fh)" "rf_fd g = rf_fd fh" "rf_pid q g = rf_pid q fh" "ps_cap (rf_store g) = ps_cap (rf_store fh)" for q
    by (simp_all add: g_def rf_pid_def)
  note gp = calculation this
  have dp: "data_page g q \<longleftrightarrow> data_page (file_grow fh) q" for q by (simp add: data_page_def gp)
  have t: "ps_touched (rf_store g) = ps_touched (rf_store (file_grow fh))" "ps_fds (rf_store g) = ps_fds (rf_store (file_grow fh))"
    "ps_next (rf_store g) = ps_next (rf_store (file_grow fh))" by (simp_all add: g_def)
  have "pages_inv g" using grow(1) unfolding pages_inv_def dp gp t by simp
  moreover have "file_records g = file_records (file_grow fh)" unfolding file_records_def [abs_def] dp gp by simp
  ultimately have g: "pages_inv g" "file_records g = file_records fh" using grow(2) by simp_all
  have none: "file_records fh rid = None" using rid(1) by (simp add: file_records_def data_page_def)
  define s0 where "s0 = g\<lparr>rf_store := (rf_store g)\<lparr>ps_touched := ?pid # ?pid # ps_touched (rf_store fh)\<rparr>\<rparr>"
  define s1 where "s1 = s0\<lparr>rf_store := (rf_store s0)\<lparr>ps_pins := ?pid # ps_pins (rf_store s0)\<rparr>\<rparr>"
  have len: "length (new_page_bytes ?h) = PAGE_SIZE" using page_ok_length [OF new(1)] .
  have c: "create_new_page_handle fh = (Inr (?p, new_page_bytes ?h), s0)"
    using fh(2) st len rid(1)
    by (auto simp: create_new_page_handle_def ps_new_def room_def Let_def rf_write_def ps_write_def rf_pid_def
        file_grow_def max_def s0_def g_def)
  have f: "fetch_page_handle ?p s0 = (Inr (new_page_bytes ?h), s1)"
    using h(2) rid(1) by (auto simp: fetch_page_handle_def ps_fetch_def s0_def s1_def g_def rf_pid_def file_grow_def Let_def)
  have u: "rf_unpin ?p False s1 = s0" by (simp add: rf_unpin_def ps_unpin_def Let_def s1_def s0_def rf_pid_def g_def)
  have e: "ensure_page ?p fh = (Inr (), s0)" using c rid(1) by (simp add: ensure_page_def)
  have "\<not> is_set (page_bitmap (rf_hdr s0) (new_page_bytes ?h)) (nat (rid_slot_no rid))"
    using fun_cong [OF new(2), of "nat (rid_slot_no rid)"] rid(2,3)
    by (auto simp: page_records_def s0_def gp page_bitmap_def split: if_splits)
  then have o: "slot_is_occupied rid s0 = (Inr False, s0)"
    using f u rid(1) by (simp add: slot_is_occupied_def s0_def gp)
  have pin: "pinned ?p g s1"
    unfolding pinned_def by (intro exI [of _ "?pid # ?pid # ps_touched (rf_store fh)"])
      (auto simp: s1_def s0_def g_def file_grow_def Let_def rf_pid_def rid(1))
  have ing: "rid_in g rid" "length v = record_size (rf_hdr g)" "file_page g ?p = Some (new_page_bytes ?h)"
    using h(2) rid fh(3) by (auto simp: rid_in_def data_page_def gp)
  show ?thesis
    using insert_at_pages [OF g(1) ing(1,2) _ f pin ing(3)] e o none g(2) by (simp add: put_back_row_def)
qed

lemma redo_insert_ok:
  assumes "redo_ready (RowInsert rid v # ps) fh"
  shows "\<exists>fh'. put_back_row rid v fh = (Inr (), fh') \<and> redo_ready ps fh' \<and>
    file_records fh' = (file_records fh)(rid := redo_value (RowInsert rid v) (file_records fh rid))"
proof -
  let ?n = "num_pages (rf_hdr fh)" and ?p = "rid_page_no rid"
  have r: "pages_inv fh" "op_fits (rf_hdr fh) (RowInsert rid v)" "?p \<le> ?n" using assms by (auto simp: redo_ready_def)
  note room = redo_ready_room [OF assms]
  have fits: "length v = record_size (rf_hdr fh)" "1 \<le> ?p" "0 \<le> rid_slot_no rid" "rid_slot_no rid < int (num_records_per_page (rf_hdr fh))"
    using r(2) by (simp_all add: op_fits_def)
  show ?thesis
  proof (cases "?p < ?n")
    case True
    have "rid_in fh rid" using fits True by (simp add: rid_in_def data_page_def)
    from put_back_there [OF r(1) room this fits(1)] obtain fh' where "put_back_row rid v fh = (Inr (), fh')" "kept fh fh'"
      "file_records fh' = (file_records fh)(rid := redo_value (RowInsert rid v) (file_records fh rid))" by blast
    moreover from this(2) have "redo_ready ps fh'" by (rule redo_ready_kept [OF assms]) (use True in simp)
    ultimately show ?thesis by blast
  next
    case False
    then have p: "?p = ?n" using r(3) by simp
    have after: "pages_after ?n (RowInsert rid v # ps) = pages_after (?n + 1) ps" using p by simp
    have lim: "?n + 1 < 2 ^ 31" using assms pages_after_ge [of "?n + 1" ps] after by (simp add: redo_ready_def)
    let ?g = "(file_grow fh)\<lparr>rf_store := (rf_store (file_grow fh))\<lparr>ps_pins := rf_pid ?p fh # ps_pins (rf_store fh)\<rparr>\<rparr>"
    obtain fh' where fh': "put_back_row rid v fh = (Inr (), fh')" "kept ?g fh'"
      "file_records fh' = (file_records fh)(rid := redo_value (RowInsert rid v) (file_records fh rid))"
      using put_back_grows [OF r(1) room fits(1) lim p fits(3,4)] by blast
    have k: "num_pages (rf_hdr fh') = ?n + 1" "num_records_per_page (rf_hdr fh') = num_records_per_page (rf_hdr fh)"
      "record_size (rf_hdr fh') = record_size (rf_hdr fh)" "ps_cap (rf_store fh') = ps_cap (rf_store fh)" "pages_inv fh'"
      "ps_pins (rf_store fh') = rf_pid ?p fh # ps_pins (rf_store fh)"
      using fh'(2) by (simp_all add: kept_def same_pool_def)
    have "card (set (ps_pins (rf_store fh'))) \<le> card (set (ps_pins (rf_store fh))) + 1" by (simp add: k(6) card_insert_if)
    then have "redo_ready ps fh'" using assms k after p op_fits_same [OF k(2,3)] by (simp add: redo_ready_def)
    then show ?thesis using fh' by blast
  qed
qed

text \<open>A redone deletion or update: nothing happens when the row, or its page, is not there.\<close>

lemma redo_row_missing:
  assumes "pages_inv fh" "room fh" "op_fits (rf_hdr fh) p" "file_records fh (row_of p) = None"
  shows "fst (get_record (row_of p) fh) \<noteq> Inr v \<and> snd (get_record (row_of p) fh) = fh"
proof (cases "data_page fh (rid_page_no (row_of p))")
  case True
  then have "rid_in fh (row_of p)" using assms(3) by (simp add: rid_in_def op_fits_def)
  then show ?thesis using get_pages [OF assms(1,2)] assms(4) by simp
next
  case False
  then show ?thesis using no_page [OF False] assms(3) by (simp add: get_record_def op_fits_def)
qed

lemma redo_row_ok:
  assumes "redo_ready (p # ps) fh"
  shows "\<exists>fh'. redo_row p fh = (Inr (), fh') \<and> redo_ready ps fh' \<and>
    file_records fh' = (file_records fh)(row_of p := redo_value p (file_records fh (row_of p)))"
proof -
  have fh: "pages_inv fh" "op_fits (rf_hdr fh) p" using assms by (simp_all add: redo_ready_def)
  note room = redo_ready_room [OF assms] and miss = redo_row_missing [OF fh(1) redo_ready_room [OF assms] fh(2)]
  have self: "kept fh fh" using fh(1) by (simp add: kept_def)
  show ?thesis
  proof (cases p)
    case (RowInsert rid v)
    then show ?thesis using redo_insert_ok [of rid v ps fh] assms by simp
  next
    case (RowDelete rid)
    show ?thesis
    proof (cases "file_records fh rid")
      case None
      then have "redo_delete_row rid fh = fh" using miss RowDelete
        by (auto simp: redo_delete_row_def split: prod.split sum.split) (metis fst_conv)+
      then show ?thesis using RowDelete None redo_ready_kept [OF assms self] by (simp add: fun_upd_idem)
    next
      case (Some w)
      obtain fh' where "delete_record rid None fh = (Inr (), fh')" "kept fh fh'" "file_records fh' = (file_records fh)(rid := None)"
        using delete_pages [OF fh(1) room Some, of None] by blast
      then show ?thesis using RowDelete Some get_pages [OF fh(1) room file_records_rid_in [OF Some]] redo_ready_kept [OF assms, of fh']
        by (simp add: redo_delete_row_def)
    qed
  next
    case (RowUpdate rid v)
    show ?thesis
    proof (cases "file_records fh rid")
      case None
      then have "redo_update_row rid v fh = fh" using miss RowUpdate
        by (auto simp: redo_update_row_def split: prod.split sum.split) (metis fst_conv)+
      then show ?thesis using RowUpdate None redo_ready_kept [OF assms self] by (simp add: fun_upd_idem)
    next
      case (Some w)
      have "length v = record_size (rf_hdr fh)" using fh(2) RowUpdate by (simp add: op_fits_def)
      from update_pages [OF fh(1) room this Some, of None] obtain fh' where
        "update_record rid v None fh = (Inr (), fh')" "kept fh fh'" "file_records fh' = (file_records fh)(rid \<mapsto> v)" by blast
      then show ?thesis using RowUpdate Some get_pages [OF fh(1) room file_records_rid_in [OF Some]] redo_ready_kept [OF assms, of fh']
        by (simp add: redo_update_row_def)
    qed
  qed
qed

lemma redo_rows_ok:
  assumes "redo_ready ps fh"
  shows "\<exists>fh'. redo_rows ps fh = (Inr (), fh') \<and>
    (\<forall>rid. file_records fh' rid = foldl (\<lambda>z p. redo_value p z) (file_records fh rid) (filter (\<lambda>p. row_of p = rid) ps))"
  using assms
proof (induction ps arbitrary: fh)
  case (Cons p ps)
  obtain fh1 where r: "redo_row p fh = (Inr (), fh1)" "redo_ready ps fh1"
    "file_records fh1 = (file_records fh)(row_of p := redo_value p (file_records fh (row_of p)))"
    using redo_row_ok [OF Cons.prems] by blast
  then show ?case using Cons.IH [of fh1] by auto
qed simp

lemma redo_rows_converge:
  assumes "redo_ready ps fh"
    and "\<forall>rid. history_valid (filter (\<lambda>p. row_of p = rid) ps) (base rid)"
    and "\<forall>rid. \<exists>k \<le> length (filter (\<lambda>p. row_of p = rid) ps).
      file_records fh rid = final_value (take k (filter (\<lambda>p. row_of p = rid) ps)) (base rid)"
  shows "\<exists>fh'. redo_rows ps fh = (Inr (), fh') \<and>
    (\<forall>rid. file_records fh' rid = final_value (filter (\<lambda>p. row_of p = rid) ps) (base rid))"
proof -
  obtain fh' where "redo_rows ps fh = (Inr (), fh')"
    "\<forall>rid. file_records fh' rid = foldl (\<lambda>z p. redo_value p z) (file_records fh rid) (filter (\<lambda>p. row_of p = rid) ps)"
    using redo_rows_ok [OF assms(1)] by blast
  then show ?thesis using redo_value_converges assms(2,3) by fastforce
qed

subsection \<open>Redo of a whole log\<close>

text \<open>The row change a log record stands for, and the changes of one table in a list of records.\<close>

fun body_op :: "log_body \<Rightarrow> (table_name \<times> row_op) option" where
  "body_op (InsertBody v rid t) = Some (t, RowInsert rid v)"
| "body_op (DeleteBody v rid t _ _) = (if t = [] then None else Some (t, RowDelete rid))"
| "body_op (UpdateBody v w rid t _ _) = Some (t, RowUpdate rid w)"
| "body_op NoBody = None"

fun table_ops :: "table_name \<Rightarrow> log_record list \<Rightarrow> row_op list" where
  "table_ops t [] = []"
| "table_ops t (r # rs) =
     (case body_op (log_body r) of Some (t', p) \<Rightarrow> if t' = t then p # table_ops t rs else table_ops t rs | None \<Rightarrow> table_ops t rs)"

lemma redo_body_none: "body_op b = None \<Longrightarrow> redo_body ops b db = (Inr (), db)"
  by (cases b) (auto simp: redo_body_def split: if_splits)

lemma redo_body_missing: "body_op b = Some (t, p) \<Longrightarrow> map_of (rdb_tables db) t = None \<Longrightarrow> redo_body ops b db = (Inr (), db)"
  by (cases b) (auto simp: redo_body_def split: if_splits)

lemma redo_body_row:
  assumes "body_op b = Some (t, p)" "map_of (rdb_tables db) t = Some fh" "redo_row p fh = (Inr (), fh')"
  shows "\<exists>db'. redo_body ops b db = (Inr (), db') \<and> rdb_tables db' = AList.update t fh' (rdb_tables db)"
  using assms by (cases b) (auto simp: redo_body_def each_index_def put_table_def split: if_splits)

definition tables_ready :: "log_record list \<Rightarrow> 'i recovery_db \<Rightarrow> bool" where
  "tables_ready rs db \<longleftrightarrow> (\<forall>t fh. map_of (rdb_tables db) t = Some fh \<longrightarrow> redo_ready (table_ops t rs) fh)"

text \<open>Redoing the records in log order redoes the changes of every table, each in its order.\<close>

lemma redo_each_tables:
  assumes "\<forall>r \<in> set rs. log_at nfd st d (log_lsn r) = Inr (Some r)" "tables_ready rs db"
  shows "\<exists>db'. redo_each ops nfd st d (map log_lsn rs) db = (Inr (), db') \<and>
    (\<forall>t fh. map_of (rdb_tables db) t = Some fh \<longrightarrow>
       (\<exists>fh'. map_of (rdb_tables db') t = Some fh' \<and> redo_rows (table_ops t rs) fh = (Inr (), fh')))"
  using assms
proof (induction rs arbitrary: db)
  case (Cons r rs)
  have l: "log_at nfd st d (log_lsn r) = Inr (Some r)" "\<forall>r \<in> set rs. log_at nfd st d (log_lsn r) = Inr (Some r)"
    using Cons.prems(1) by simp_all
  show ?case
  proof (cases "body_op (log_body r)")
    case None
    then have "tables_ready rs db" using Cons.prems(2) by (simp add: tables_ready_def)
    then show ?thesis using Cons.IH [OF l(2)] l(1) None redo_body_none [OF None, of ops db] by simp
  next
    case (Some tp)
    obtain t p where tp: "body_op (log_body r) = Some (t, p)" using Some by (cases tp) simp
    show ?thesis
    proof (cases "map_of (rdb_tables db) t")
      case None
      have "tables_ready rs db"
        unfolding tables_ready_def
      proof (intro allI impI)
        fix t' fh assume m: "map_of (rdb_tables db) t' = Some fh"
        then have "t' \<noteq> t" using None by auto
        moreover have "redo_ready (table_ops t' (r # rs)) fh" using m Cons.prems(2) unfolding tables_ready_def by blast
        ultimately show "redo_ready (table_ops t' rs) fh" using tp by simp
      qed
      from Cons.IH [OF l(2) this] obtain db' where
        "redo_each ops nfd st d (map log_lsn rs) db = (Inr (), db')"
        "\<forall>t fh. map_of (rdb_tables db) t = Some fh \<longrightarrow>
          (\<exists>fh'. map_of (rdb_tables db') t = Some fh' \<and> redo_rows (table_ops t rs) fh = (Inr (), fh'))" by blast
      then show ?thesis using l(1) tp None redo_body_missing [OF tp None, of ops]
        by (intro exI [of _ db']) auto
    next
      case (Some fh)
      have fh: "redo_ready (p # table_ops t rs) fh" using Cons.prems(2) Some tp by (force simp: tables_ready_def)
      obtain fh1 where r1: "redo_row p fh = (Inr (), fh1)" "redo_ready (table_ops t rs) fh1" using redo_row_ok [OF fh] by blast
      obtain db1 where d1: "redo_body ops (log_body r) db = (Inr (), db1)"
        "rdb_tables db1 = AList.update t fh1 (rdb_tables db)"
        using redo_body_row [OF tp Some r1(1)] by blast
      have m1: "map_of (rdb_tables db1) t' = (if t' = t then Some fh1 else map_of (rdb_tables db) t')" for t'
        using d1(2) by (simp add: update_conv')
      have "tables_ready rs db1"
        unfolding tables_ready_def
      proof (intro allI impI)
        fix t' g assume m: "map_of (rdb_tables db1) t' = Some g"
        show "redo_ready (table_ops t' rs) g"
        proof (cases "t' = t")
          case False
          then have "redo_ready (table_ops t' (r # rs)) g"
            using m m1 [of t'] Cons.prems(2) unfolding tables_ready_def by auto
          then show ?thesis using tp False by simp
        qed (use m m1 [of t'] r1 in auto)
      qed
      from Cons.IH [OF l(2) this] obtain db' where
        db': "redo_each ops nfd st d (map log_lsn rs) db1 = (Inr (), db')"
        "\<forall>t fh. map_of (rdb_tables db1) t = Some fh \<longrightarrow>
          (\<exists>fh'. map_of (rdb_tables db') t = Some fh' \<and> redo_rows (table_ops t rs) fh = (Inr (), fh'))" by blast
      have "\<exists>fh'. map_of (rdb_tables db') t' = Some fh' \<and> redo_rows (table_ops t' (r # rs)) g = (Inr (), fh')"
        if "map_of (rdb_tables db) t' = Some g" for t' g
        using db'(2) m1 [of t'] that tp r1(1) Some by (cases "t' = t") auto
      then show ?thesis using db'(1) l(1) d1(1) by simp
    qed
  qed
qed simp


text \<open>A file without pages, with two frames: redo of an insertion adds the page.\<close>

definition example_two :: rm_file where
  "example_two = (example_file 4)\<lparr>rf_store := (rf_store (example_file 4))\<lparr>ps_cap := 2\<rparr>\<rparr>"

lemma example_two_ready:
  assumes "rid = \<lparr>rid_page_no = 1, rid_slot_no = 0\<rparr>"
  shows "redo_ready [RowInsert rid [1, 2, 3, 4]] example_two" "file_records example_two = Map.empty"
proof -
  have hdr: "num_pages (rf_hdr (example_file 4)) = 1" "record_size (rf_hdr (example_file 4)) = 4" "ps_pins (rf_store (example_file 4)) = []"
    by (simp_all add: example_file_def file_hdr_new_def Let_def)
  have inv: "pages_inv (example_file 4)"
    by (rule file_inv_pages) (use example_file_ok [of 4] in \<open>auto simp: file_ok_def RM_MAX_RECORD_SIZE_def\<close>)
  have dp: "\<not> data_page example_two q" for q by (simp add: data_page_def example_two_def hdr)
  then show "file_records example_two = Map.empty" by (simp add: file_records_def fun_eq_iff)
  have "pages_inv example_two" using inv dp by (simp add: pages_inv_def example_two_def)
  moreover have "0 < num_records_per_page (rf_hdr (example_file 4))" using inv by (simp add: pages_inv_def hdr_ok_def)
  ultimately show "redo_ready [RowInsert rid [1, 2, 3, 4]] example_two"
    by (simp add: redo_ready_def op_fits_def assms) (simp add: example_two_def hdr)
qed


subsection \<open>Where recovery departs from its purpose\<close>

text \<open>An aborted transaction is redone and not undone: the rollback is not logged, its records are marked for redo, and
  the abort record removes it from the transactions to undo (the example log is that of such a transaction).\<close>

lemma aborted_insert_is_redone:
  assumes "logged b" "logged r" "logged a" "log_type b = Begin" "is_data r" "log_type a = ABORT"
    "log_tid b = tid" "log_tid r = tid" "log_tid a = tid"
  shows "redo_list (analyze_all 0 recovery_new [b, r, a]) = [log_lsn r] \<and>
    map_of (undo_map (analyze_all 0 recovery_new [b, r, a])) tid = None"
  using analyze_all_redo [of "[b, r, a]" 0 recovery_new] analyze_all_undo [of "[b, r, a]" recovery_new 0 tid] assms
  by (auto simp: recovery_new_def open_step_def is_end_def is_data_def)

text \<open>A log of two sessions: the LSNs of the second session start at 0 again. Two data records with one LSN are both marked for redo,
  and the later one is read twice.\<close>

lemma reused_lsn_reads_later:
  assumes "log_open_ok d" "log_disk d = log_bytes [r, r']" "logged r" "logged r'" "length (log_disk d) < 2 ^ 31"
    and "is_data r" "is_data r'" "log_lsn r' = log_lsn r"
  shows "redo_list (analyze_all 0 recovery_new [r, r']) = [log_lsn r, log_lsn r] \<and>
    log_at nfd (analyze_all 0 recovery_new [r, r']) d (log_lsn r) = Inr (Some r')"
  using analyze_all_redo [of "[r, r']" 0 recovery_new] analyze_log_at [of d "[r, r']" r "analyze_all 0 recovery_new [r, r']" nfd] assms
  by (simp add: recovery_new_def last_with_def)

text \<open>A page that redo adds stays pinned: it is unpinned in a pool that does not hold it.\<close>

lemma redo_leaks_pin:
  assumes "pages_inv fh" "room fh" "length v = record_size (rf_hdr fh)" "num_pages (rf_hdr fh) + 1 < 2 ^ 31"
    and "rid_page_no rid = num_pages (rf_hdr fh)" "0 \<le> rid_slot_no rid" "rid_slot_no rid < int (num_records_per_page (rf_hdr fh))"
  shows "\<exists>fh'. put_back_row rid v fh = (Inr (), fh') \<and>
    ps_pins (rf_store fh') = rf_pid (rid_page_no rid) fh # ps_pins (rf_store fh)"
  using put_back_grows [OF assms] by (auto simp: kept_def same_pool_def)

text \<open>Undo never ends when the newest record of an unfinished transaction is about a table that no longer exists: the
  record is skipped without being taken off the list.\<close>

lemma undo_spins_on_dropped_table:
  assumes "log_at nfd st d l = Inr (Some r)" "log_body r = InsertBody v rid t" "map_of (rdb_tables db) t = None"
  shows "undo_txn fuel ops nfd st d (ls @ [l]) db = None"
  using assms by (induction fuel) (simp_all add: undo_body_def)

end
