(* ===== verification/Deadlock_Detector.thy ===== *)
theory Deadlock_Detector
  imports Rmdb_Prelude "HOL-Library.AList"
begin

text \<open>
  The deadlock detector (\<^verbatim>\<open>src/src/transaction/deadlock_detector.h\<close>): a wait-for graph and a depth-first search for
  a cycle. The graph is the list of its entries in the order in which \<^verbatim>\<open>wait_for_graph_\<close> is iterated; the search
  threads the sets \<^verbatim>\<open>visited\<close> and \<^verbatim>\<open>rec_stack\<close>. \<open>dfs_detect_cycle\<close> has the depth of the recursion as fuel;
  the number of transactions in the graph is shown to be enough.
\<close>

subsection \<open>Model\<close>

type_synonym wait_graph = "(txn_id \<times> txn_id list) list"

definition waits_for :: "wait_graph \<Rightarrow> txn_id \<Rightarrow> txn_id list" where
  "waits_for g t = (case map_of g t of None \<Rightarrow> [] | Some hs \<Rightarrow> hs)"

definition add_wait_edge :: "txn_id \<Rightarrow> txn_id \<Rightarrow> wait_graph \<Rightarrow> wait_graph" where
  "add_wait_edge waiter holder g =
     (if waiter \<noteq> holder then AList.update waiter (List.insert holder (waits_for g waiter)) g else g)"

definition remove_wait_edge :: "txn_id \<Rightarrow> txn_id \<Rightarrow> wait_graph \<Rightarrow> wait_graph" where
  "remove_wait_edge waiter holder g =
     (case map_of g waiter of
        None \<Rightarrow> g
      | Some hs \<Rightarrow>
          (let hs' = removeAll holder hs
           in if hs' = [] then AList.delete waiter g else AList.update waiter hs' g))"

definition remove_transaction :: "txn_id \<Rightarrow> wait_graph \<Rightarrow> wait_graph" where
  "remove_transaction t g =
     filter (\<lambda>(w, hs). hs \<noteq> []) (map (\<lambda>(w, hs). (w, removeAll t hs)) (AList.delete t g))"

text \<open>The answer of the search: the victim or \<^term>\<open>INVALID_TXN_ID\<close>, and the two sets; \<^term>\<open>None\<close> when the fuel is used up.\<close>

type_synonym dfs_answer = "(txn_id \<times> txn_id set \<times> txn_id set) option"

function dfs_detect_cycle :: "nat \<Rightarrow> wait_graph \<Rightarrow> txn_id \<Rightarrow> txn_id set \<Rightarrow> txn_id set \<Rightarrow> dfs_answer"
  and dfs_neighbors :: "nat \<Rightarrow> wait_graph \<Rightarrow> txn_id \<Rightarrow> txn_id list \<Rightarrow> txn_id set \<Rightarrow> txn_id set \<Rightarrow> dfs_answer" where
  "dfs_detect_cycle 0 g t visited rec_stack = None"
| "dfs_detect_cycle (Suc n) g t visited rec_stack =
     (case dfs_neighbors n g t (waits_for g t) (insert t visited) (insert t rec_stack) of
        None \<Rightarrow> None
      | Some (result, v, r) \<Rightarrow>
          if result \<noteq> INVALID_TXN_ID then Some (result, v, r) else Some (INVALID_TXN_ID, v, r - {t}))"
| "dfs_neighbors n g t [] visited rec_stack = Some (INVALID_TXN_ID, visited, rec_stack)"
| "dfs_neighbors n g t (x # xs) visited rec_stack =
     (if x \<notin> visited then
        (case dfs_detect_cycle n g x visited rec_stack of
           None \<Rightarrow> None
         | Some (result, v, r) \<Rightarrow>
             if result \<noteq> INVALID_TXN_ID then Some (result, v, r) else dfs_neighbors n g t xs v r)
      else if x \<in> rec_stack then Some (min t x, visited, rec_stack)
      else dfs_neighbors n g t xs visited rec_stack)"
  by pat_completeness auto
termination
  by (relation "measures [\<lambda>x. case x of Inl (n, _) \<Rightarrow> n | Inr (n, _) \<Rightarrow> n,
        \<lambda>x. case x of Inl _ \<Rightarrow> 0 | Inr (n, g, t, xs, _) \<Rightarrow> Suc (length xs)]") auto

text \<open>The loop over the entries of the graph, from each that was not visited.\<close>

fun detect_loop :: "nat \<Rightarrow> wait_graph \<Rightarrow> txn_id list \<Rightarrow> txn_id set \<Rightarrow> txn_id set \<Rightarrow> txn_id option" where
  "detect_loop fuel g [] visited rec_stack = Some INVALID_TXN_ID"
| "detect_loop fuel g (t # ts) visited rec_stack =
     (if t \<notin> visited then
        (case dfs_detect_cycle fuel g t visited rec_stack of
           None \<Rightarrow> None
         | Some (victim, v, r) \<Rightarrow> if victim \<noteq> INVALID_TXN_ID then Some victim else detect_loop fuel g ts v r)
      else detect_loop fuel g ts visited rec_stack)"

text \<open>The transactions of the graph; their number bounds the depth of the search.\<close>

definition graph_nodes :: "wait_graph \<Rightarrow> txn_id set" where
  "graph_nodes g = fst ` set g \<union> (\<Union>e \<in> set g. set (snd e))"

definition detect_deadlock :: "wait_graph \<Rightarrow> txn_id option" where
  "detect_deadlock g = detect_loop (Suc (card (graph_nodes g))) g (map fst g) {} {}"

text \<open>\<open>would_cause_deadlock\<close> searches the graph with the edge added, and returns the graph it leaves behind.\<close>

definition would_cause_deadlock :: "txn_id \<Rightarrow> txn_id \<Rightarrow> wait_graph \<Rightarrow> bool option \<times> wait_graph" where
  "would_cause_deadlock waiter holder g =
     (let g1 = AList.update waiter (List.insert holder (waits_for g waiter)) g;
          found = map_option (\<lambda>v. v \<noteq> INVALID_TXN_ID) (detect_deadlock g1);
          hs = removeAll holder (waits_for g1 waiter)
      in (found, if hs = [] then AList.delete waiter g1 else AList.update waiter hs g1))"

subsection \<open>The search finds a cycle exactly when there is one\<close>

definition edges :: "wait_graph \<Rightarrow> (txn_id \<times> txn_id) set" where
  "edges g = {(t, h). h \<in> set (waits_for g t)}"

text \<open>Transactions that were left for good are closed under waiting and lie on no cycle.\<close>

definition dfs_inv :: "wait_graph \<Rightarrow> txn_id set \<Rightarrow> txn_id set \<Rightarrow> bool" where
  "dfs_inv g V R \<longleftrightarrow> R \<subseteq> V \<and> edges g `` (V - R) \<subseteq> V - R \<and> (\<forall>b \<in> V - R. (b, b) \<notin> (edges g)\<^sup>+)"

definition dfs_promise :: "wait_graph \<Rightarrow> txn_id set \<Rightarrow> txn_id set \<Rightarrow> txn_id list \<Rightarrow> txn_id \<times> txn_id set \<times> txn_id set \<Rightarrow> bool" where
  "dfs_promise g V R xs a \<longleftrightarrow>
     (case a of (res, V', R') \<Rightarrow>
        if res = INVALID_TXN_ID then V \<subseteq> V' \<and> R' = R \<and> dfs_inv g V' R \<and> set xs \<subseteq> V' - R
        else \<exists>x. (x, x) \<in> (edges g)\<^sup>+)"

lemma edges_nodes: "(t, x) \<in> edges g \<Longrightarrow> x \<in> graph_nodes g"
proof -
  assume "(t, x) \<in> edges g"
  then obtain hs where "map_of g t = Some hs" "x \<in> set hs"
    by (cases "map_of g t") (auto simp: edges_def waits_for_def)
  then show ?thesis using map_of_SomeD [of g t hs] by (force simp: graph_nodes_def)
qed

lemma closed_reach: "E `` B \<subseteq> B \<Longrightarrow> x \<in> B \<Longrightarrow> (x, y) \<in> E\<^sup>* \<Longrightarrow> y \<in> B"
  by (metis Image_closed_trancl Image_singleton_iff rev_ImageI)

lemma dfs_inv_finish:
  assumes "dfs_inv g V (insert t R)" "t \<in> V" "t \<notin> R" "set (waits_for g t) \<subseteq> V - insert t R"
  shows "dfs_inv g V R"
proof -
  let ?B = "V - insert t R"
  have B: "edges g `` ?B \<subseteq> ?B" "\<forall>b \<in> ?B. (b, b) \<notin> (edges g)\<^sup>+" "insert t R \<subseteq> V" using assms(1) by (auto simp: dfs_inv_def)
  have VR: "V - R = insert t ?B" using assms(2,3) by auto
  have succ: "edges g `` {t} \<subseteq> ?B" using assms(4) by (auto simp: edges_def)
  have "(t, t) \<notin> (edges g)\<^sup>+"
  proof
    assume "(t, t) \<in> (edges g)\<^sup>+"
    then obtain x where "(t, x) \<in> edges g" "(x, t) \<in> (edges g)\<^sup>*" by (meson tranclD)
    then have "t \<in> ?B" using succ closed_reach [OF B(1)] by blast
    then show False by simp
  qed
  then show ?thesis unfolding dfs_inv_def VR using B succ by auto
qed

lemma dfs_correct:
  "dfs_detect_cycle n g t V R = Some a \<Longrightarrow> dfs_inv g V R \<Longrightarrow> t \<notin> V \<Longrightarrow> \<forall>r \<in> R. (r, t) \<in> (edges g)\<^sup>* \<Longrightarrow>
     \<forall>x \<in> graph_nodes g. x \<noteq> INVALID_TXN_ID \<Longrightarrow> t \<in> graph_nodes g \<Longrightarrow> dfs_promise g V R [t] a"
  "dfs_neighbors n g t xs V R = Some a \<Longrightarrow> dfs_inv g V R \<Longrightarrow> t \<in> R \<Longrightarrow> \<forall>r \<in> R. (r, t) \<in> (edges g)\<^sup>* \<Longrightarrow>
     \<forall>x \<in> graph_nodes g. x \<noteq> INVALID_TXN_ID \<Longrightarrow> t \<in> graph_nodes g \<Longrightarrow> set xs \<subseteq> set (waits_for g t) \<Longrightarrow> dfs_promise g V R xs a"
proof (induction n g t V R and n g t xs V R arbitrary: a and a rule: dfs_detect_cycle_dfs_neighbors.induct)
  case (2 n g t V R)
  obtain res V' R' where nb: "dfs_neighbors n g t (waits_for g t) (insert t V) (insert t R) = Some (res, V', R')"
    using "2.prems"(1) by (auto split: option.splits)
  have R: "R \<subseteq> V" "t \<notin> R" using "2.prems"(2,3) by (auto simp: dfs_inv_def)
  have "insert t V - insert t R = V - R" using "2.prems"(3) R by auto
  then have inv: "dfs_inv g (insert t V) (insert t R)" using "2.prems"(2) unfolding dfs_inv_def by auto
  have pr: "dfs_promise g (insert t V) (insert t R) (waits_for g t) (res, V', R')"
    using "2.IH" [OF nb inv] "2.prems"(4-6) by auto
  show ?case
  proof (cases "res = INVALID_TXN_ID")
    case True
    then have p: "insert t V \<subseteq> V'" "R' = insert t R" "dfs_inv g V' (insert t R)" "set (waits_for g t) \<subseteq> V' - insert t R"
      using pr by (auto simp: dfs_promise_def)
    have "dfs_inv g V' R" using dfs_inv_finish [OF p(3) _ R(2) p(4)] p(1) by blast
    then show ?thesis using "2.prems"(1) nb True p R(2) by (auto simp: dfs_promise_def)
  next
    case False
    then show ?thesis using "2.prems"(1) nb pr by (auto simp: dfs_promise_def)
  qed
next
  case (4 n g t x xs V R)
  have tx: "(t, x) \<in> edges g" using "4.prems"(7) by (auto simp: edges_def)
  have xn: "x \<in> graph_nodes g" using tx by (rule edges_nodes)
  have reach: "\<forall>r \<in> R. (r, x) \<in> (edges g)\<^sup>*" using "4.prems"(4) tx by (meson rtrancl.rtrancl_into_rtrancl)
  show ?case
  proof (cases "x \<in> V")
    case False
    obtain res V' R' where d: "dfs_detect_cycle n g x V R = Some (res, V', R')"
      using "4.prems"(1) False by (auto split: option.splits)
    have p: "dfs_promise g V R [x] (res, V', R')"
      using "4.IH"(1) [OF False d "4.prems"(2) False reach "4.prems"(5) xn] .
    show ?thesis
    proof (cases "res = INVALID_TXN_ID")
      case True
      then have q: "V \<subseteq> V'" "R' = R" "dfs_inv g V' R" "x \<in> V' - R" using p by (auto simp: dfs_promise_def)
      have nb: "dfs_neighbors n g t xs V' R = Some a" using "4.prems"(1) False d True q(2) by simp
      have "dfs_promise g V' R xs a"
        using "4.IH"(2) [OF False d refl refl, of a] True nb q "4.prems"(3-7) by auto
      then show ?thesis using q by (auto simp: dfs_promise_def split: if_splits)
    next
      case neq: False
      then show ?thesis using "4.prems"(1) False d p by (auto simp: dfs_promise_def)
    qed
  next
    case True
    show ?thesis
    proof (cases "x \<in> R")
      case in_R: True
      then have "(x, t) \<in> (edges g)\<^sup>*" using "4.prems"(4) by blast
      then have "(t, t) \<in> (edges g)\<^sup>+" using tx by (meson rtrancl_into_trancl2)
      moreover have "min t x \<noteq> INVALID_TXN_ID" using "4.prems"(5,6) xn by (auto simp: min_def)
      ultimately show ?thesis using "4.prems"(1) True in_R by (auto simp: dfs_promise_def)
    next
      case False
      then have "dfs_promise g V R xs a" using "4.IH"(3) [of a] True "4.prems" by auto
      then show ?thesis using True False "4.prems"(2) by (auto simp: dfs_promise_def dfs_inv_def split: if_splits)
    qed
  qed
qed (auto simp: dfs_promise_def)

text \<open>The visited set only grows, and every deeper call has one more transaction in it: the fuel lasts.\<close>

lemma dfs_fuel:
  "finite (graph_nodes g) \<Longrightarrow> t \<in> graph_nodes g \<Longrightarrow> t \<notin> V \<Longrightarrow> card (graph_nodes g - V) < n \<Longrightarrow>
     \<exists>res V' R'. dfs_detect_cycle n g t V R = Some (res, V', R') \<and> V \<subseteq> V'"
  "finite (graph_nodes g) \<Longrightarrow> set xs \<subseteq> graph_nodes g \<Longrightarrow> card (graph_nodes g - V) < n \<Longrightarrow>
     \<exists>res V' R'. dfs_neighbors n g t xs V R = Some (res, V', R') \<and> V \<subseteq> V'"
proof (induction n g t V R and n g t xs V R rule: dfs_detect_cycle_dfs_neighbors.induct)
  case (2 n g t V R)
  have "graph_nodes g - insert t V \<subset> graph_nodes g - V" using "2.prems"(2,3) by blast
  then have "card (graph_nodes g - insert t V) < card (graph_nodes g - V)" using "2.prems"(1) by (simp add: psubset_card_mono)
  then have c: "card (graph_nodes g - insert t V) < n" using "2.prems"(4) by simp
  have s: "set (waits_for g t) \<subseteq> graph_nodes g" using edges_nodes [of t _ g] by (auto simp: edges_def)
  obtain res V' R' where "dfs_neighbors n g t (waits_for g t) (insert t V) (insert t R) = Some (res, V', R')" "insert t V \<subseteq> V'"
    using "2.IH" [OF "2.prems"(1) s c] by blast
  then show ?case by simp
next
  case (4 n g t x xs V R)
  show ?case
  proof (cases "x \<in> V")
    case False
    obtain res V' R' where d: "dfs_detect_cycle n g x V R = Some (res, V', R')" "V \<subseteq> V'"
      using "4.IH"(1) [OF False "4.prems"(1) _ False "4.prems"(3)] "4.prems"(2) by auto
    have "card (graph_nodes g - V') \<le> card (graph_nodes g - V)" using d(2) "4.prems"(1) by (intro card_mono) auto
    then have c: "card (graph_nodes g - V') < n" using "4.prems"(3) by simp
    show ?thesis
    proof (cases "res = INVALID_TXN_ID")
      case True
      obtain res2 V2 R2 where "dfs_neighbors n g t xs V' R' = Some (res2, V2, R2)" "V' \<subseteq> V2"
        using "4.IH"(2) [OF False d(1) refl refl _ "4.prems"(1) _ c] True "4.prems"(2) by auto
      then show ?thesis using False d True by auto
    qed (use False d in auto)
  qed (use "4.IH"(3) "4.prems" in auto)
qed auto

lemma detect_loop_correct:
  assumes "finite (graph_nodes g)" "\<forall>x \<in> graph_nodes g. x \<noteq> INVALID_TXN_ID" "set ts \<subseteq> graph_nodes g"
    "dfs_inv g V {}" "card (graph_nodes g) < fuel"
  shows "\<exists>v. detect_loop fuel g ts V {} = Some v \<and>
    (if v = INVALID_TXN_ID then \<forall>t \<in> set ts \<union> V. (t, t) \<notin> (edges g)\<^sup>+ else \<exists>x. (x, x) \<in> (edges g)\<^sup>+)"
  using assms
proof (induction ts arbitrary: V)
  case Nil
  then show ?case by (simp add: dfs_inv_def)
next
  case (Cons t ts)
  show ?case
  proof (cases "t \<in> V")
    case True
    have "set ts \<subseteq> graph_nodes g" using Cons.prems(3) by simp
    from Cons.IH [OF Cons.prems(1,2) this Cons.prems(4,5)] True show ?thesis by (auto split: if_splits)
  next
    case False
    have t: "t \<in> graph_nodes g" using Cons.prems(3) by simp
    have "card (graph_nodes g - V) \<le> card (graph_nodes g)" using Cons.prems(1) by (intro card_mono) auto
    then obtain res V' R' where d: "dfs_detect_cycle fuel g t V {} = Some (res, V', R')"
      using dfs_fuel(1) [OF Cons.prems(1) t False, of fuel "{}"] Cons.prems(5) by auto
    have p: "dfs_promise g V {} [t] (res, V', R')"
      by (rule dfs_correct(1) [OF d Cons.prems(4) False _ Cons.prems(2) t]) simp
    show ?thesis
    proof (cases "res = INVALID_TXN_ID")
      case True
      then have q: "V \<subseteq> V'" "R' = {}" "dfs_inv g V' {}" "t \<in> V'" using p by (auto simp: dfs_promise_def)
      obtain v where v: "detect_loop fuel g ts V' {} = Some v"
        "if v = INVALID_TXN_ID then \<forall>t \<in> set ts \<union> V'. (t, t) \<notin> (edges g)\<^sup>+ else \<exists>x. (x, x) \<in> (edges g)\<^sup>+"
        using Cons.IH [OF Cons.prems(1,2) _ q(3) Cons.prems(5)] Cons.prems(3) by auto
      then show ?thesis using False d True q by (auto split: if_splits)
    qed (use False d p in \<open>auto simp: dfs_promise_def\<close>)
  qed
qed

lemma cycle_starts_at_key: "(x, x) \<in> (edges g)\<^sup>+ \<Longrightarrow> x \<in> set (map fst g)"
proof -
  assume "(x, x) \<in> (edges g)\<^sup>+"
  then obtain y where "(x, y) \<in> edges g" by (meson tranclD)
  then obtain hs where "map_of g x = Some hs"
    by (cases "map_of g x") (auto simp: edges_def waits_for_def)
  then show ?thesis using map_of_SomeD [of g x hs] by force
qed

subsection \<open>Properties\<close>

text \<open>C32: The deadlock detector is sound, complete and terminates: on a wait-for graph over valid transaction ids the
  search ends with an answer, and it names a victim exactly when some transaction waits, directly or through others, for
  itself.\<close>

theorem detect_deadlock_iff_cycle:
  assumes "\<forall>x \<in> graph_nodes g. x \<noteq> INVALID_TXN_ID"
  shows "\<exists>v. detect_deadlock g = Some v \<and> (v \<noteq> INVALID_TXN_ID \<longleftrightarrow> (\<exists>t. (t, t) \<in> (edges g)\<^sup>+))"
proof -
  have fin: "finite (graph_nodes g)" by (simp add: graph_nodes_def)
  have "set (map fst g) \<subseteq> graph_nodes g" by (auto simp: graph_nodes_def)
  from detect_loop_correct [OF fin assms this, of "{}" "Suc (card (graph_nodes g))"]
  obtain v where "detect_deadlock g = Some v"
    "if v = INVALID_TXN_ID then \<forall>t \<in> set (map fst g). (t, t) \<notin> (edges g)\<^sup>+ else \<exists>x. (x, x) \<in> (edges g)\<^sup>+"
    by (auto simp: detect_deadlock_def dfs_inv_def)
  then show ?thesis using cycle_starts_at_key by (metis (no_types, lifting))
qed

theorem detect_deadlock_iff_cycle_witness:
  "\<exists>v. detect_deadlock [(1, [2]), (2, [3]), (3, [1])] = Some v \<and> v \<noteq> INVALID_TXN_ID"
proof -
  let ?g = "[(1, [2]), (2, [3]), (3, [1])] :: wait_graph"
  have "(1, 2) \<in> edges ?g" "(2, 3) \<in> edges ?g" "(3, 1) \<in> edges ?g" by (simp_all add: edges_def waits_for_def)
  then have "(1, 1) \<in> (edges ?g)\<^sup>+" by (meson trancl.r_into_trancl trancl_into_trancl)
  then show ?thesis using detect_deadlock_iff_cycle [of ?g]
    by (auto simp: graph_nodes_def INVALID_TXN_ID_def)
qed

subsection \<open>The edges after each call\<close>

lemma waits_for_update: "waits_for (AList.update t hs g) t' = (if t' = t then hs else waits_for g t')"
  by (simp add: waits_for_def update_conv')

lemma waits_for_delete: "waits_for (AList.delete t g) t' = (if t' = t then [] else waits_for g t')"
  by (simp add: waits_for_def delete_conv')

lemma edges_add: "waiter \<noteq> holder \<Longrightarrow> edges (add_wait_edge waiter holder g) = insert (waiter, holder) (edges g)"
  by (auto simp: edges_def add_wait_edge_def waits_for_update split: if_splits)

lemma edges_remove: "edges (remove_wait_edge waiter holder g) = edges g - {(waiter, holder)}"
proof (cases "map_of g waiter")
  case (Some hs)
  then have hs: "waits_for g waiter = hs" by (simp add: waits_for_def)
  have "set (waits_for (remove_wait_edge waiter holder g) t) = (if t = waiter then set hs - {holder} else set (waits_for g t))" for t
    using Some by (auto simp: remove_wait_edge_def Let_def waits_for_update waits_for_delete removeAll_id)
      (metis empty_iff insertE removeAll.simps(1) set_empty set_removeAll Diff_eq_empty_iff subsetD)+
  then show ?thesis using hs by (auto simp: edges_def split: if_splits)
qed (auto simp: remove_wait_edge_def edges_def waits_for_def)

text \<open>\<open>would_cause_deadlock\<close> is meant to leave the graph as it was, but it also drops an edge that was there before.\<close>

lemma would_cause_deadlock_drops_edge:
  "edges (snd (would_cause_deadlock waiter holder g)) = edges g - {(waiter, holder)}"
proof -
  let ?g1 = "AList.update waiter (List.insert holder (waits_for g waiter)) g"
  let ?hs = "removeAll holder (waits_for ?g1 waiter)"
  have "waits_for (snd (would_cause_deadlock waiter holder g)) t = (if t = waiter then ?hs else waits_for g t)" for t
    by (auto simp: would_cause_deadlock_def Let_def waits_for_update waits_for_delete)
  then show ?thesis by (auto simp: edges_def waits_for_update split: if_splits)
qed

end
