(* ===== verification/Ix_Defs.thy ===== *)
theory Ix_Defs
  imports Bytes "HOL-Library.List_Lexorder"
begin

text \<open>
  The data of an index file (\<^verbatim>\<open>src/src/index/ix_defs.h\<close>) and the comparison of keys
  (\<^verbatim>\<open>ix_compare\<close> in \<^verbatim>\<open>ix_index_handle.h\<close>). A key is the bytes of its columns one after another.

  Every key is given a rank, a list of integers, such that \<open>ix_compare\<close> is the lexicographic comparison of the ranks
  (locale \<open>ordered_keys\<close> and its interpretation); this is what the B+ tree relies on. A column of type \<^verbatim>\<open>float\<close> is
  compared as an IEEE single, so a NaN is equal to everything; keys with a NaN are excluded from the order.
\<close>

subsection \<open>Constants and the file header\<close>

definition IX_NO_PAGE :: int where "IX_NO_PAGE = -1"
definition IX_FILE_HDR_PAGE :: int where "IX_FILE_HDR_PAGE = 0"
definition IX_LEAF_HEADER_PAGE :: int where "IX_LEAF_HEADER_PAGE = 1"
definition IX_INIT_ROOT_PAGE :: int where "IX_INIT_ROOT_PAGE = 2"
definition IX_INIT_NUM_PAGES :: int where "IX_INIT_NUM_PAGES = 3"
definition IX_MAX_COL_LEN :: nat where "IX_MAX_COL_LEN = 512"

lemmas ix_consts = IX_NO_PAGE_def IX_FILE_HDR_PAGE_def IX_LEAF_HEADER_PAGE_def IX_INIT_ROOT_PAGE_def IX_INIT_NUM_PAGES_def

datatype ColType = TYPE_INT | TYPE_FLOAT | TYPE_STRING

record IxFileHdr =
  ixh_first_free :: int
  ixh_num_pages :: int
  ixh_root_page :: int
  ixh_col_num :: nat
  ixh_col_types :: "ColType list"
  ixh_col_lens :: "nat list"
  ixh_col_tot_len :: nat
  ixh_btree_order :: nat
  ixh_keys_size :: nat
  ixh_first_leaf :: int
  ixh_last_leaf :: int
  ixh_tot_len :: nat

definition update_tot_len :: "IxFileHdr \<Rightarrow> IxFileHdr" where
  "update_tot_len h = h\<lparr>ixh_tot_len := 4 * 4 + 4 * 6 + (4 * ixh_col_num h + 4 * ixh_col_num h)\<rparr>"

fun coltype_code :: "ColType \<Rightarrow> int" where
  "coltype_code TYPE_INT = 0"
| "coltype_code TYPE_FLOAT = 1"
| "coltype_code TYPE_STRING = 2"

text \<open>The value of the enumeration with a code; a code outside the enumeration is not a value of the model.\<close>

definition coltype_of :: "int \<Rightarrow> ColType option" where
  "coltype_of c = (if c = 0 then Some TYPE_INT else if c = 1 then Some TYPE_FLOAT else if c = 2 then Some TYPE_STRING else None)"

definition ix_hdr_bytes :: "IxFileHdr \<Rightarrow> bytes" where
  "ix_hdr_bytes h =
     enc_i32 (int (ixh_tot_len h)) @ enc_i32 (ixh_first_free h) @ enc_i32 (ixh_num_pages h) @ enc_i32 (ixh_root_page h) @
     enc_i32 (int (ixh_col_num h)) @
     concat (map (\<lambda>i. enc_i32 (coltype_code (ixh_col_types h ! i))) [0..<ixh_col_num h]) @
     concat (map (\<lambda>i. enc_i32 (int (ixh_col_lens h ! i))) [0..<ixh_col_num h]) @
     enc_i32 (int (ixh_col_tot_len h)) @ enc_i32 (int (ixh_btree_order h)) @ enc_i32 (int (ixh_keys_size h)) @
     enc_i32 (ixh_first_leaf h) @ enc_i32 (ixh_last_leaf h)"

definition ix_hdr_serialize :: "IxFileHdr \<Rightarrow> bytes \<Rightarrow> db_error + bytes" where
  "ix_hdr_serialize h dest =
     (if length (ix_hdr_bytes h) = ixh_tot_len h then Inr (write_bytes 0 (ix_hdr_bytes h) dest) else Inl AssertionFailure)"

text \<open>The loops that push the types and the lengths read from the buffer onto the vectors of the header.\<close>

fun read_types :: "nat \<Rightarrow> nat \<Rightarrow> bytes \<Rightarrow> ColType list option" where
  "read_types 0 off src = Some []"
| "read_types (Suc n) off src =
     (case coltype_of (read_i32 off src) of
        None \<Rightarrow> None
      | Some t \<Rightarrow> map_option ((#) t) (read_types n (off + 4) src))"

fun read_lens :: "nat \<Rightarrow> nat \<Rightarrow> bytes \<Rightarrow> nat list" where
  "read_lens 0 off src = []"
| "read_lens (Suc n) off src = nat (read_i32 off src) # read_lens n (off + 4) src"

definition ix_hdr_deserialize :: "IxFileHdr \<Rightarrow> bytes \<Rightarrow> (db_error + IxFileHdr) option" where
  "ix_hdr_deserialize h0 src =
     (let n = nat (read_i32 16 src); off1 = 20 + 4 * n; off2 = 20 + 8 * n
      in case read_types n 20 src of
           None \<Rightarrow> None
         | Some ts \<Rightarrow>
             (let h = \<lparr>ixh_first_free = read_i32 4 src, ixh_num_pages = read_i32 8 src, ixh_root_page = read_i32 12 src,
                       ixh_col_num = n, ixh_col_types = ixh_col_types h0 @ ts,
                       ixh_col_lens = ixh_col_lens h0 @ read_lens n off1 src,
                       ixh_col_tot_len = nat (read_i32 off2 src), ixh_btree_order = nat (read_i32 (off2 + 4) src),
                       ixh_keys_size = nat (read_i32 (off2 + 8) src), ixh_first_leaf = read_i32 (off2 + 12) src,
                       ixh_last_leaf = read_i32 (off2 + 16) src, ixh_tot_len = nat (read_i32 0 src)\<rparr>
              in Some (if off2 + 20 = ixh_tot_len h then Inr h else Inl AssertionFailure)))"

subsection \<open>Comparison of keys\<close>

definition sign_cmp :: "bool \<Rightarrow> bool \<Rightarrow> int" where
  "sign_cmp lt gt = (if lt then -1 else if gt then 1 else 0)"

text \<open>\<^verbatim>\<open>memcmp\<close> of the first \<open>n\<close> bytes; only the sign of its result is ever used.\<close>

fun memcmp :: "nat \<Rightarrow> bytes \<Rightarrow> bytes \<Rightarrow> int" where
  "memcmp (Suc n) (x # xs) (y # ys) = (if x < y then -1 else if y < x then 1 else memcmp n xs ys)"
| "memcmp _ _ _ = 0"

text \<open>An IEEE single in its four bytes: the 31 low bits order the values of one sign, and those above the bits of
  infinity are NaNs.\<close>

definition f32_nan :: "bytes \<Rightarrow> bool" where
  "f32_nan bs \<longleftrightarrow> 2139095040 < le_nat bs mod 2 ^ 31"

definition f32_rank :: "bytes \<Rightarrow> int" where
  "f32_rank bs = (let m = int (le_nat bs mod 2 ^ 31) in if 2 ^ 31 \<le> le_nat bs then - m else m)"

definition f32_less :: "bytes \<Rightarrow> bytes \<Rightarrow> bool" where
  "f32_less a b \<longleftrightarrow> \<not> f32_nan a \<and> \<not> f32_nan b \<and> f32_rank a < f32_rank b"

definition ix_compare_col :: "bytes \<Rightarrow> bytes \<Rightarrow> ColType \<Rightarrow> nat \<Rightarrow> int" where
  "ix_compare_col a b type col_len =
     (case type of
        TYPE_INT \<Rightarrow> sign_cmp (read_i32 0 a < read_i32 0 b) (read_i32 0 b < read_i32 0 a)
      | TYPE_FLOAT \<Rightarrow>
          sign_cmp (f32_less (read_bytes 0 4 a) (read_bytes 0 4 b)) (f32_less (read_bytes 0 4 b) (read_bytes 0 4 a))
      | TYPE_STRING \<Rightarrow> memcmp col_len a b)"

fun ix_compare :: "ColType list \<Rightarrow> nat list \<Rightarrow> bytes \<Rightarrow> bytes \<Rightarrow> int" where
  "ix_compare (t # ts) (l # ls) a b =
     (let res = ix_compare_col a b t l in if res \<noteq> 0 then res else ix_compare ts ls (drop l a) (drop l b))"
| "ix_compare _ _ a b = 0"

subsection \<open>The order of keys\<close>

text \<open>What the tree needs of a comparison: on admissible keys it is the order of their ranks.\<close>

locale ordered_keys =
  fixes cmp :: "'k \<Rightarrow> 'k \<Rightarrow> int" and ok :: "'k \<Rightarrow> bool" and rank :: "'k \<Rightarrow> 'o::linorder"
  assumes cmp_less: "ok a \<Longrightarrow> ok b \<Longrightarrow> cmp a b < 0 \<longleftrightarrow> rank a < rank b"
    and cmp_eq: "ok a \<Longrightarrow> ok b \<Longrightarrow> cmp a b = 0 \<longleftrightarrow> rank a = rank b"
begin

lemma cmp_le: "ok a \<Longrightarrow> ok b \<Longrightarrow> cmp a b \<le> 0 \<longleftrightarrow> rank a \<le> rank b"
  using cmp_less [of a b] cmp_eq [of a b] by (simp add: le_less)

lemma cmp_greater: "ok a \<Longrightarrow> ok b \<Longrightarrow> 0 < cmp a b \<longleftrightarrow> rank b < rank a"
  using cmp_le [of a b] by (simp add: not_le [symmetric])

lemma cmp_trans: "ok a \<Longrightarrow> ok b \<Longrightarrow> ok c \<Longrightarrow> cmp a b \<le> 0 \<Longrightarrow> cmp b c \<le> 0 \<Longrightarrow> cmp a c \<le> 0"
  using cmp_le by (meson order_trans)

lemma cmp_antisym: "ok a \<Longrightarrow> ok b \<Longrightarrow> cmp a b < 0 \<longleftrightarrow> 0 < cmp b a"
  by (simp add: cmp_less cmp_greater)

end

definition col_rank :: "ColType \<Rightarrow> nat \<Rightarrow> bytes \<Rightarrow> int list" where
  "col_rank t l a =
     (case t of
        TYPE_INT \<Rightarrow> [read_i32 0 a]
      | TYPE_FLOAT \<Rightarrow> [f32_rank (read_bytes 0 4 a)]
      | TYPE_STRING \<Rightarrow> map uint (take l a))"

fun key_rank :: "ColType list \<Rightarrow> nat list \<Rightarrow> bytes \<Rightarrow> int list" where
  "key_rank (t # ts) (l # ls) a = col_rank t l a @ key_rank ts ls (drop l a)"
| "key_rank _ _ a = []"

fun key_ok :: "ColType list \<Rightarrow> nat list \<Rightarrow> bytes \<Rightarrow> bool" where
  "key_ok (t # ts) (l # ls) a \<longleftrightarrow>
     l \<le> length a \<and> (t \<noteq> TYPE_STRING \<longrightarrow> l = 4) \<and> (t = TYPE_FLOAT \<longrightarrow> \<not> f32_nan (read_bytes 0 4 a)) \<and> key_ok ts ls (drop l a)"
| "key_ok [] [] a \<longleftrightarrow> a = []"
| "key_ok _ _ a \<longleftrightarrow> False"

lemma memcmp_lex:
  "n \<le> length a \<Longrightarrow> n \<le> length b \<Longrightarrow>
     (memcmp n a b < 0 \<longleftrightarrow> map uint (take n a) < map uint (take n b)) \<and>
     (memcmp n a b = 0 \<longleftrightarrow> map uint (take n a) = map uint (take n b))"
proof (induction n a b rule: memcmp.induct)
  case (1 n x xs y ys)
  then show ?case by (auto simp: word_less_def word_uint_eq_iff)
qed auto

lemma ix_compare_col_rank:
  assumes "l \<le> length a" "l \<le> length b"
    and "t = TYPE_FLOAT \<Longrightarrow> \<not> f32_nan (read_bytes 0 4 a) \<and> \<not> f32_nan (read_bytes 0 4 b)"
  shows "ix_compare_col a b t l < 0 \<longleftrightarrow> col_rank t l a < col_rank t l b"
    and "ix_compare_col a b t l = 0 \<longleftrightarrow> col_rank t l a = col_rank t l b"
  using assms memcmp_lex [of l a b]
  by (cases t; auto simp: ix_compare_col_def col_rank_def sign_cmp_def f32_less_def)+

lemma lex_append_less:
  "length xs = length ys \<Longrightarrow> (xs @ us < ys @ (vs :: int list)) \<longleftrightarrow> xs < ys \<or> xs = ys \<and> us < vs"
  by (induction xs ys rule: list_induct2) auto

lemma col_rank_length: "l \<le> length a \<Longrightarrow> l \<le> length b \<Longrightarrow> length (col_rank t l a) = length (col_rank t l b)"
  by (cases t) (auto simp: col_rank_def)

lemma ix_compare_rank:
  assumes "key_ok ts ls a" "key_ok ts ls b"
  shows "(ix_compare ts ls a b < 0 \<longleftrightarrow> key_rank ts ls a < key_rank ts ls b) \<and>
         (ix_compare ts ls a b = 0 \<longleftrightarrow> key_rank ts ls a = key_rank ts ls b)"
  using assms
proof (induction ts ls a b rule: ix_compare.induct)
  case (1 t ts l ls a b)
  have c: "ix_compare_col a b t l < 0 \<longleftrightarrow> col_rank t l a < col_rank t l b"
    "ix_compare_col a b t l = 0 \<longleftrightarrow> col_rank t l a = col_rank t l b"
    "length (col_rank t l a) = length (col_rank t l b)"
    using ix_compare_col_rank [of l a b t] 1(2,3) by (auto intro: col_rank_length)
  show ?case
  proof (cases "ix_compare_col a b t l = 0")
    case True
    then show ?thesis using 1 c by (simp add: lex_append_less)
  next
    case False
    then show ?thesis using c by (simp add: lex_append_less)
  qed
qed simp_all

interpretation ix_keys: ordered_keys "ix_compare ts ls" "key_ok ts ls" "key_rank ts ls" for ts ls
  using ix_compare_rank by unfold_locales blast+


subsection \<open>The header round trip\<close>

lemma map_upt_nth: "map (\<lambda>i. f (xs ! i)) [0..<length xs] = map f xs"
  by (rule nth_equalityI) simp_all

lemma read_i32_append [byte_simps]:
  "int32 x \<Longrightarrow> n = length pre \<Longrightarrow> read_i32 n (pre @ enc_i32 x @ rest) = x"
  by (simp add: read_i32_def byte_simps)

lemma coltype_code_of: "coltype_of (coltype_code t) = Some t" "int32 (coltype_code t)"
  by (cases t; simp add: coltype_of_def int32_def)+

lemma read_types_append:
  "n = length pre \<Longrightarrow> read_types (length ts) n (pre @ concat (map (\<lambda>t. enc_i32 (coltype_code t)) ts) @ rest) = Some ts"
proof (induction ts arbitrary: n pre)
  case (Cons t ts)
  then show ?case
    using Cons.IH [of "n + 4" "pre @ enc_i32 (coltype_code t)"]
    by (simp add: read_i32_append coltype_code_of)
qed simp

lemma read_lens_append:
  "n = length pre \<Longrightarrow> \<forall>l \<in> set ls. int32 (int l) \<Longrightarrow>
     read_lens (length ls) n (pre @ concat (map (\<lambda>l. enc_i32 (int l)) ls) @ rest) = ls"
proof (induction ls arbitrary: n pre)
  case (Cons l ls)
  then show ?case
    using Cons.IH [of "n + 4" "pre @ enc_i32 (int l)"] by (simp add: read_i32_append)
qed simp

definition ix_hdr_ok :: "IxFileHdr \<Rightarrow> bool" where
  "ix_hdr_ok h \<longleftrightarrow>
     length (ixh_col_types h) = ixh_col_num h \<and> length (ixh_col_lens h) = ixh_col_num h \<and> ixh_tot_len h = 40 + 8 * ixh_col_num h \<and>
     (\<forall>l \<in> set (ixh_col_lens h). int32 (int l)) \<and>
     (\<forall>x \<in> {ixh_first_free h, ixh_num_pages h, ixh_root_page h, int (ixh_col_num h), int (ixh_col_tot_len h),
            int (ixh_btree_order h), int (ixh_keys_size h), ixh_first_leaf h, ixh_last_leaf h, int (ixh_tot_len h)}. int32 x)"

lemma length_concat_enc: "length (concat (map (\<lambda>t. enc_i32 (f t)) ts)) = 4 * length ts"
  by (induction ts) simp_all

lemma ix_hdr_bytes_alt:
  assumes "ix_hdr_ok h"
  shows "ix_hdr_bytes h =
     enc_i32 (int (ixh_tot_len h)) @ enc_i32 (ixh_first_free h) @ enc_i32 (ixh_num_pages h) @ enc_i32 (ixh_root_page h) @
     enc_i32 (int (ixh_col_num h)) @ concat (map (\<lambda>t. enc_i32 (coltype_code t)) (ixh_col_types h)) @
     concat (map (\<lambda>l. enc_i32 (int l)) (ixh_col_lens h)) @
     enc_i32 (int (ixh_col_tot_len h)) @ enc_i32 (int (ixh_btree_order h)) @ enc_i32 (int (ixh_keys_size h)) @
     enc_i32 (ixh_first_leaf h) @ enc_i32 (ixh_last_leaf h)"
proof -
  have "map (\<lambda>i. enc_i32 (coltype_code (ixh_col_types h ! i))) [0..<ixh_col_num h]
      = map (\<lambda>t. enc_i32 (coltype_code t)) (ixh_col_types h)"
    using assms map_upt_nth [of "\<lambda>t. enc_i32 (coltype_code t)" "ixh_col_types h"] by (simp add: ix_hdr_ok_def)
  moreover have "map (\<lambda>i. enc_i32 (int (ixh_col_lens h ! i))) [0..<ixh_col_num h]
      = map (\<lambda>l. enc_i32 (int l)) (ixh_col_lens h)"
    using assms map_upt_nth [of "\<lambda>l. enc_i32 (int l)" "ixh_col_lens h"] by (simp add: ix_hdr_ok_def)
  ultimately show ?thesis by (simp add: ix_hdr_bytes_def)
qed

lemma ix_hdr_length: "ix_hdr_ok h \<Longrightarrow> length (ix_hdr_bytes h) = ixh_tot_len h"
proof -
  assume h: "ix_hdr_ok h"
  then have "length (ixh_col_types h) = ixh_col_num h" "length (ixh_col_lens h) = ixh_col_num h" "ixh_tot_len h = 40 + 8 * ixh_col_num h"
    by (simp_all add: ix_hdr_ok_def)
  then show ?thesis by (simp add: ix_hdr_bytes_alt [OF h] length_concat_enc)
qed

lemma ix_hdr_deserialize_bytes:
  assumes h: "ix_hdr_ok h" and h0: "ixh_col_types h0 = []" "ixh_col_lens h0 = []"
  shows "ix_hdr_deserialize h0 (ix_hdr_bytes h @ rest) = Some (Inr h)"
proof -
  let ?T = "concat (map (\<lambda>t. enc_i32 (coltype_code t)) (ixh_col_types h))"
  let ?L = "concat (map (\<lambda>l. enc_i32 (int l)) (ixh_col_lens h))"
  let ?A = "enc_i32 (int (ixh_tot_len h)) @ enc_i32 (ixh_first_free h) @ enc_i32 (ixh_num_pages h) @ enc_i32 (ixh_root_page h) @
     enc_i32 (int (ixh_col_num h))"
  let ?B = "enc_i32 (int (ixh_col_tot_len h)) @ enc_i32 (int (ixh_btree_order h)) @ enc_i32 (int (ixh_keys_size h)) @
     enc_i32 (ixh_first_leaf h) @ enc_i32 (ixh_last_leaf h) @ rest"
  let ?n = "ixh_col_num h"
  define src where "src = ix_hdr_bytes h @ rest"
  have src: "src = ?A @ ?T @ ?L @ ?B" by (simp add: src_def ix_hdr_bytes_alt [OF h])
  have i: "int32 (ixh_first_free h)" "int32 (ixh_num_pages h)" "int32 (ixh_root_page h)" "int32 (int ?n)" "int32 (int (ixh_col_tot_len h))"
    "int32 (int (ixh_btree_order h))" "int32 (int (ixh_keys_size h))" "int32 (ixh_first_leaf h)" "int32 (ixh_last_leaf h)"
    "int32 (int (ixh_tot_len h))" using h unfolding ix_hdr_ok_def by blast+
  have n: "length (ixh_col_types h) = ?n" "length (ixh_col_lens h) = ?n" "ixh_tot_len h = 40 + 8 * ?n"
    "\<forall>l \<in> set (ixh_col_lens h). int32 (int l)" using h by (simp_all add: ix_hdr_ok_def)
  have a: "read_i32 0 src = int (ixh_tot_len h)" "read_i32 4 src = ixh_first_free h" "read_i32 8 src = ixh_num_pages h"
    "read_i32 12 src = ixh_root_page h" "read_i32 16 src = int ?n"
    using i by (simp_all add: src read_i32_def byte_simps)
  have t: "read_types ?n 20 src = Some (ixh_col_types h)"
    using read_types_append [of 20 ?A "ixh_col_types h" "?L @ ?B"] n(1) by (simp add: src)
  have l: "read_lens ?n (20 + 4 * ?n) src = ixh_col_lens h"
    using read_lens_append [of "20 + 4 * ?n" "?A @ ?T" "ixh_col_lens h" ?B] n by (simp add: src length_concat_enc)
  have skip: "length (?A @ ?T @ ?L) = 20 + 8 * ?n" using n by (simp add: length_concat_enc)
  have rb: "read_i32 (20 + 8 * ?n + k) src = read_i32 k ?B" for k
    using skip read_bytes_append_skip [of "?A @ ?T @ ?L" "20 + 8 * ?n + k" 4 ?B] by (simp add: src read_i32_def)
  have b: "read_i32 (20 + 8 * ?n) src = int (ixh_col_tot_len h)" "read_i32 (20 + 8 * ?n + 4) src = int (ixh_btree_order h)"
    "read_i32 (20 + 8 * ?n + 8) src = int (ixh_keys_size h)" "read_i32 (20 + 8 * ?n + 12) src = ixh_first_leaf h"
    "read_i32 (20 + 8 * ?n + 16) src = ixh_last_leaf h"
    using i rb [of 0] rb [of 4] rb [of 8] rb [of 12] rb [of 16] by (simp_all add: read_i32_def byte_simps)
  have "ix_hdr_deserialize h0 src = Some (Inr h)"
    unfolding ix_hdr_deserialize_def Let_def a nat_int t option.case l b using n(3) h0 by simp
  then show ?thesis by (simp add: src_def)
qed

text \<open>Writing the header of an index into its page and reading the page into a fresh header gives the header back; the
  written length is the recorded one, and the rest of the page is kept.\<close>

theorem ix_hdr_round_trip:
  assumes "ix_hdr_ok h" "ixh_tot_len h \<le> length dest" "ixh_col_types h0 = []" "ixh_col_lens h0 = []"
  shows "\<exists>pg. ix_hdr_serialize h dest = Inr pg \<and> length pg = length dest \<and>
    drop (ixh_tot_len h) pg = drop (ixh_tot_len h) dest \<and> ix_hdr_deserialize h0 pg = Some (Inr h)"
  using ix_hdr_deserialize_bytes [OF assms(1,3,4)] ix_hdr_length [OF assms(1)] assms(2)
  by (simp add: ix_hdr_serialize_def write_bytes_def)

definition example_ix_hdr :: IxFileHdr where
  "example_ix_hdr = update_tot_len \<lparr>ixh_first_free = -1, ixh_num_pages = 3, ixh_root_page = 2, ixh_col_num = 2,
     ixh_col_types = [TYPE_INT, TYPE_STRING], ixh_col_lens = [4, 16], ixh_col_tot_len = 20, ixh_btree_order = 144,
     ixh_keys_size = 2900, ixh_first_leaf = 2, ixh_last_leaf = 2, ixh_tot_len = 0\<rparr>"

theorem ix_hdr_round_trip_witness:
  "\<exists>pg. ix_hdr_serialize example_ix_hdr (replicate PAGE_SIZE 0) = Inr pg \<and>
     ix_hdr_deserialize (example_ix_hdr\<lparr>ixh_col_types := [], ixh_col_lens := []\<rparr>) pg = Some (Inr example_ix_hdr)"
  using ix_hdr_round_trip [of example_ix_hdr "replicate PAGE_SIZE 0" "example_ix_hdr\<lparr>ixh_col_types := [], ixh_col_lens := []\<rparr>"]
  by (auto simp: ix_hdr_ok_def example_ix_hdr_def update_tot_len_def int32_def PAGE_SIZE_def)

end
