(* ===== verification/Float32.thy ===== *)
theory Float32
  imports Ix_Defs
begin

text \<open>
  The conversions between \<^verbatim>\<open>int\<close> and \<^verbatim>\<open>float\<close> that the casts of \<^verbatim>\<open>src/src/execution\<close> use, on the four bytes of an IEEE
  single: \<open>f32_of_int\<close> rounds to the nearest value, ties to even, and \<open>f32_to_int\<close> truncates and is undefined outside
  the range of \<^verbatim>\<open>int\<close>. The rounding keeps the order, and it is exact up to \<open>2 ^ 24\<close> and not beyond.
\<close>

fun log2 :: "nat \<Rightarrow> nat" where
  "log2 n = (if n < 2 then 0 else Suc (log2 (n div 2)))"

declare log2.simps [simp del]

text \<open>The bits of the value nearest to a positive integer: biased exponent and the 23 bits below the leading one.\<close>

definition round_even :: "nat \<Rightarrow> nat \<Rightarrow> nat" where
  "round_even m d =
     (let q = m div 2 ^ d; r = m mod 2 ^ d
      in if 2 ^ d < 2 * r \<or> (2 ^ d = 2 * r \<and> odd q) then q + 1 else q)"

definition f32_mag :: "nat \<Rightarrow> nat" where
  "f32_mag m =
     (if m = 0 then 0
      else let e = log2 m
           in (e + 126) * 2 ^ 23 + (if e \<le> 23 then m * 2 ^ (23 - e) else round_even m (e - 23)))"

definition f32_of_int :: "int \<Rightarrow> bytes" where
  "f32_of_int n = le_bytes 4 ((if n < 0 then 2 ^ 31 else 0) + f32_mag (nat \<bar>n\<bar>))"

text \<open>The integer part of a value; \<open>None\<close> where the cast has no defined result.\<close>

definition f32_trunc :: "nat \<Rightarrow> nat" where
  "f32_trunc m =
     (let e = m div 2 ^ 23; f = 2 ^ 23 + m mod 2 ^ 23
      in if e < 127 then 0 else if e \<le> 150 then f div 2 ^ (150 - e) else f * 2 ^ (e - 150))"

definition f32_to_int :: "bytes \<Rightarrow> int option" where
  "f32_to_int bs =
     (let b = le_nat bs; m = int (f32_trunc (b mod 2 ^ 31)); n = (if b < 2 ^ 31 then m else - m)
      in if f32_nan bs \<or> \<not> int32 n then None else Some n)"

definition f32_eq :: "bytes \<Rightarrow> bytes \<Rightarrow> bool" where
  "f32_eq a b \<longleftrightarrow> \<not> f32_nan a \<and> \<not> f32_nan b \<and> f32_rank a = f32_rank b"

definition f32_zero :: bytes where "f32_zero = [0, 0, 0, 0]"

text \<open>\<^verbatim>\<open>FLT_MAX\<close> and its negation.\<close>

definition f32_max :: bytes where "f32_max = le_bytes 4 2139095039"
definition f32_min :: bytes where "f32_min = le_bytes 4 4286578687"

subsection \<open>Properties of the rounding\<close>

lemma log2_bounds: "0 < n \<Longrightarrow> 2 ^ log2 n \<le> n \<and> n < 2 ^ Suc (log2 n)"
proof (induction n rule: log2.induct)
  case (1 n)
  show ?case
  proof (cases "n < 2")
    case True
    then show ?thesis using 1(2) by (simp add: log2.simps [of n])
  next
    case False
    then have "2 ^ log2 (n div 2) \<le> n div 2 \<and> n div 2 < 2 ^ Suc (log2 (n div 2))" using 1 by simp
    then have "2 * 2 ^ log2 (n div 2) \<le> n" "n < 2 * (2 * 2 ^ log2 (n div 2))" unfolding power_Suc by linarith+
    then show ?thesis using False by (simp add: log2.simps [of n])
  qed
qed

lemma log2_unique: "2 ^ e \<le> n \<Longrightarrow> n < 2 ^ Suc e \<Longrightarrow> log2 n = e"
proof -
  assume n: "2 ^ e \<le> n" "n < 2 ^ Suc e"
  then have "0 < n" by (meson less_le_trans zero_less_numeral zero_less_power)
  from log2_bounds [OF this] n have "2 ^ log2 n < (2::nat) ^ Suc e" "2 ^ e < (2::nat) ^ Suc (log2 n)" by linarith+
  then have "log2 n < Suc e" "e < Suc (log2 n)" by (simp_all only: power_strict_increasing_iff one_less_numeral_iff semiring_norm)
  then show ?thesis by simp
qed

lemma log2_mono: "0 < m \<Longrightarrow> m \<le> n \<Longrightarrow> log2 m \<le> log2 n"
proof -
  assume m: "0 < m" "m \<le> n"
  then have "2 ^ log2 m \<le> m" "n < 2 ^ Suc (log2 n)" using log2_bounds [of m] log2_bounds [of n] by auto
  then have "2 ^ log2 m < (2::nat) ^ Suc (log2 n)" using m by linarith
  then have "log2 m < Suc (log2 n)" by (simp only: power_strict_increasing_iff one_less_numeral_iff semiring_norm)
  then show ?thesis by simp
qed

lemma round_even_bounds: "m div 2 ^ d \<le> round_even m d" "round_even m d \<le> m div 2 ^ d + 1"
  by (simp_all add: round_even_def Let_def)

lemma round_even_mono: "m \<le> n \<Longrightarrow> round_even m d \<le> round_even n d"
proof -
  assume mn: "m \<le> n"
  show ?thesis
  proof (cases "m div 2 ^ d = n div 2 ^ d")
    case True
    have "m mod 2 ^ d \<le> n mod 2 ^ d" using mn div_mult_mod_eq [of m "2 ^ d"] div_mult_mod_eq [of n "2 ^ d"] unfolding True by linarith
    then show ?thesis using True by (auto simp: round_even_def Let_def)
  next
    case False
    then have "m div 2 ^ d + 1 \<le> n div 2 ^ d" using div_le_mono [OF mn, of "2 ^ d"] by linarith
    then show ?thesis using round_even_bounds [of n d] round_even_bounds(2) [of m d] by linarith
  qed
qed

text \<open>The significand, leading one included, of a number with its leading bit at \<open>e\<close>.\<close>

definition f32_sig :: "nat \<Rightarrow> nat \<Rightarrow> nat" where
  "f32_sig e m = (if e \<le> 23 then m * 2 ^ (23 - e) else round_even m (e - 23))"

lemma f32_sig_bounds:
  assumes "2 ^ e \<le> m" and "m < 2 ^ Suc e"
  shows "2 ^ 23 \<le> f32_sig e m" "f32_sig e m \<le> 2 ^ 24" "e \<le> 23 \<Longrightarrow> f32_sig e m < 2 ^ 24"
proof -
  have "2 ^ 23 \<le> f32_sig e m \<and> f32_sig e m \<le> 2 ^ 24 \<and> (e \<le> 23 \<longrightarrow> f32_sig e m < 2 ^ 24)"
  proof (cases "e \<le> 23")
    case True
    have p: "(2::nat) ^ e * 2 ^ (23 - e) = 2 ^ 23" "(2::nat) ^ Suc e * 2 ^ (23 - e) = 2 ^ 24"
      using True by (simp_all only: power_add [symmetric]) simp_all
    have "2 ^ e * 2 ^ (23 - e) \<le> m * 2 ^ (23 - e)" using assms(1) by simp
    moreover have "m * 2 ^ (23 - e) < 2 ^ Suc e * 2 ^ (23 - e)" by (rule mult_strict_right_mono [OF assms(2)]) simp
    ultimately show ?thesis using True unfolding p f32_sig_def by simp
  next
    case False
    define d where "d = e - 23"
    have e: "e = 23 + d" using False d_def by simp
    have "(2::nat) ^ 23 = 2 ^ e div 2 ^ d" unfolding e power_add by simp
    moreover have "2 ^ e div 2 ^ d \<le> m div 2 ^ d" using assms(1) by (rule div_le_mono)
    moreover have "m div 2 ^ d < 2 ^ 24"
    proof (rule less_mult_imp_div_less)
      have "(2::nat) ^ Suc e = 2 ^ 24 * 2 ^ d" unfolding e by (simp add: power_add)
      then show "m < 2 ^ 24 * 2 ^ d" using assms(2) by simp
    qed
    ultimately show ?thesis using False round_even_bounds [of m d] unfolding f32_sig_def d_def by simp
  qed
  then show "2 ^ 23 \<le> f32_sig e m" "f32_sig e m \<le> 2 ^ 24" "e \<le> 23 \<Longrightarrow> f32_sig e m < 2 ^ 24" by auto
qed

lemma f32_mag_sig: "0 < m \<Longrightarrow> f32_mag m = (log2 m + 126) * 2 ^ 23 + f32_sig (log2 m) m"
  by (simp add: f32_mag_def f32_sig_def Let_def)

lemma f32_mag_mono: "m \<le> n \<Longrightarrow> f32_mag m \<le> f32_mag n"
proof (cases "m = 0")
  case False
  assume mn: "m \<le> n"
  have p: "0 < m" "0 < n" using False mn by simp_all
  note b = log2_bounds [OF p(1)] log2_bounds [OF p(2)]
  show ?thesis
  proof (cases "log2 m = log2 n")
    case True
    have "f32_sig (log2 n) m \<le> f32_sig (log2 n) n" using mn by (simp add: f32_sig_def round_even_mono)
    then show ?thesis using f32_mag_sig [OF p(1)] f32_mag_sig [OF p(2)] True by simp
  next
    case F: False
    then have e: "Suc (log2 m) \<le> log2 n" using log2_mono [OF p(1) mn] by simp
    then have "(Suc (log2 m) + 126) * 2 ^ 23 \<le> (log2 n + 126) * (2::nat) ^ 23" by (intro mult_le_mono1) simp
    moreover have "f32_sig (log2 m) m \<le> 2 ^ 24" "2 ^ 23 \<le> f32_sig (log2 n) n" using f32_sig_bounds b by blast+
    ultimately show ?thesis using f32_mag_sig [OF p(1)] f32_mag_sig [OF p(2)] by simp
  qed
qed (simp add: f32_mag_def)

lemma f32_mag_strict: assumes "m < n" "n \<le> 2 ^ 24" shows "f32_mag m < f32_mag n"
proof (cases "m = 0")
  case True
  then show ?thesis using assms by (simp add: f32_mag_def Let_def)
next
  case False
  then have p: "0 < m" "0 < n" using assms by simp_all
  note b = log2_bounds [OF p(1)] log2_bounds [OF p(2)]
  have "2 ^ log2 m < (2::nat) ^ 24" using b assms by linarith
  then have "log2 m < 24" by (simp only: power_strict_increasing_iff one_less_numeral_iff semiring_norm)
  then have m23: "log2 m \<le> 23" by simp
  show ?thesis
  proof (cases "log2 m = log2 n")
    case True
    then have "f32_sig (log2 n) m < f32_sig (log2 n) n" using m23 assms by (simp add: f32_sig_def)
    then show ?thesis using f32_mag_sig [OF p(1)] f32_mag_sig [OF p(2)] True by simp
  next
    case F: False
    then have e: "Suc (log2 m) \<le> log2 n" using log2_mono [OF p(1), of n] assms by simp
    then have "(Suc (log2 m) + 126) * 2 ^ 23 \<le> (log2 n + 126) * (2::nat) ^ 23" by (intro mult_le_mono1) simp
    moreover have "f32_sig (log2 m) m < 2 ^ 24" "2 ^ 23 \<le> f32_sig (log2 n) n" using f32_sig_bounds b m23 by blast+
    ultimately show ?thesis using f32_mag_sig [OF p(1)] f32_mag_sig [OF p(2)] by simp
  qed
qed

text \<open>A converted integer is an ordinary number whose rank is the signed magnitude.\<close>

lemma f32_mag_bound: assumes "m \<le> 2 ^ 31" shows "f32_mag m \<le> 1325400064"
proof -
  have "log2 (2 ^ 31) = 31" by (rule log2_unique) simp_all
  then have "f32_mag (2 ^ 31) = 1325400064" by (simp add: f32_mag_def round_even_def)
  then show ?thesis using f32_mag_mono [OF assms] by simp
qed

lemma f32_of_int_bits:
  assumes "int32 n"
  shows "le_nat (f32_of_int n) mod 2 ^ 31 = f32_mag (nat \<bar>n\<bar>)" "2 ^ 31 \<le> le_nat (f32_of_int n) \<longleftrightarrow> n < 0"
proof -
  have "nat \<bar>n\<bar> \<le> 2 ^ 31" using assms by (auto simp: int32_def)
  then have b: "f32_mag (nat \<bar>n\<bar>) \<le> 1325400064" by (rule f32_mag_bound)
  then have "le_nat (f32_of_int n) = (if n < 0 then 2 ^ 31 else 0) + f32_mag (nat \<bar>n\<bar>)"
    unfolding f32_of_int_def le_nat_le_bytes by (intro mod_less) (cases "n < 0"; simp)
  then show "le_nat (f32_of_int n) mod 2 ^ 31 = f32_mag (nat \<bar>n\<bar>)" "2 ^ 31 \<le> le_nat (f32_of_int n) \<longleftrightarrow> n < 0"
    using b by (cases "n < 0"; simp)+
qed

lemma f32_of_int_not_nan: "int32 n \<Longrightarrow> \<not> f32_nan (f32_of_int n)"
proof -
  assume n: "int32 n"
  then have "nat \<bar>n\<bar> \<le> 2 ^ 31" by (auto simp: int32_def)
  then show ?thesis using f32_mag_bound [of "nat \<bar>n\<bar>"] unfolding f32_nan_def f32_of_int_bits [OF n] by simp
qed

lemma f32_rank_of_int: "int32 n \<Longrightarrow> f32_rank (f32_of_int n) = (if n < 0 then - int (f32_mag (nat \<bar>n\<bar>)) else int (f32_mag (nat \<bar>n\<bar>)))"
  unfolding f32_rank_def f32_of_int_bits Let_def by simp

lemma f32_of_int_mono: assumes "int32 a" "int32 b" "a \<le> b" shows "f32_rank (f32_of_int a) \<le> f32_rank (f32_of_int b)"
proof -
  consider "b < 0" | "a < 0" "0 \<le> b" | "0 \<le> a" by linarith
  then show ?thesis
  proof cases
    case 1
    then have "f32_mag (nat \<bar>b\<bar>) \<le> f32_mag (nat \<bar>a\<bar>)" using assms(3) by (intro f32_mag_mono) simp
    then show ?thesis using 1 assms by (simp add: f32_rank_of_int)
  next
    case 2
    then show ?thesis using assms by (simp add: f32_rank_of_int)
  next
    case 3
    then have "f32_mag (nat \<bar>a\<bar>) \<le> f32_mag (nat \<bar>b\<bar>)" using assms(3) by (intro f32_mag_mono) simp
    then show ?thesis using 3 assms by (simp add: f32_rank_of_int)
  qed
qed

definition f32_exact :: "int \<Rightarrow> bool" where "f32_exact n \<longleftrightarrow> \<bar>n\<bar> \<le> 2 ^ 24"

lemma f32_exact_int32: "f32_exact n \<Longrightarrow> int32 n"
  by (auto simp: f32_exact_def int32_def)

lemma f32_mag_pos: "0 < m \<Longrightarrow> 0 < f32_mag m"
  by (simp add: f32_mag_def Let_def)

lemma f32_of_int_strict: assumes "f32_exact a" "f32_exact b" "a < b" shows "f32_rank (f32_of_int a) < f32_rank (f32_of_int b)"
proof -
  note i = f32_exact_int32 [OF assms(1)] f32_exact_int32 [OF assms(2)]
  consider "b < 0" | "a < 0" "0 \<le> b" | "0 \<le> a" by linarith
  then show ?thesis
  proof cases
    case 1
    then have "f32_mag (nat \<bar>b\<bar>) < f32_mag (nat \<bar>a\<bar>)" using assms by (intro f32_mag_strict) (auto simp: f32_exact_def)
    then show ?thesis using 1 assms i by (simp add: f32_rank_of_int)
  next
    case 2
    then show ?thesis using i f32_mag_pos [of "nat \<bar>a\<bar>"] by (simp add: f32_rank_of_int)
  next
    case 3
    then have "f32_mag (nat \<bar>a\<bar>) < f32_mag (nat \<bar>b\<bar>)" using assms by (intro f32_mag_strict) (auto simp: f32_exact_def)
    then show ?thesis using 3 assms i by (simp add: f32_rank_of_int)
  qed
qed

text \<open>Comparing two integers as floats gives their order up to \<open>2 ^ 24\<close>.\<close>

lemma f32_of_int_compare:
  assumes "f32_exact a" "f32_exact b"
  shows "f32_less (f32_of_int a) (f32_of_int b) \<longleftrightarrow> a < b" "f32_eq (f32_of_int a) (f32_of_int b) \<longleftrightarrow> a = b"
proof -
  note i = f32_exact_int32 [OF assms(1)] f32_exact_int32 [OF assms(2)]
  note s = f32_of_int_strict [OF assms] f32_of_int_strict [OF assms(2,1)]
  note nn = f32_of_int_not_nan [OF i(1)] f32_of_int_not_nan [OF i(2)]
  show "f32_less (f32_of_int a) (f32_of_int b) \<longleftrightarrow> a < b" using s nn by (cases a b rule: linorder_cases) (auto simp: f32_less_def)
  show "f32_eq (f32_of_int a) (f32_of_int b) \<longleftrightarrow> a = b" using s nn by (cases a b rule: linorder_cases) (auto simp: f32_eq_def)
qed

lemma f32_of_int_collision: "f32_of_int 16777217 = f32_of_int 16777216"
proof -
  have "log2 16777217 = 24" "log2 16777216 = 24" by (rule log2_unique; simp)+
  then show ?thesis by (simp add: f32_of_int_def f32_mag_def round_even_def)
qed

lemma f32_trunc_mag: assumes "m < 2 ^ 24" shows "f32_trunc (f32_mag m) = m"
proof (cases "m = 0")
  case True
  then show ?thesis by (simp add: f32_mag_def f32_trunc_def)
next
  case False
  then have m: "0 < m" by simp
  define e where "e = log2 m"
  have b: "2 ^ e \<le> m" "m < 2 ^ Suc e" using log2_bounds [OF m] by (simp_all add: e_def)
  have "2 ^ e < (2::nat) ^ 24" using b assms by linarith
  then have e23: "e < 24" by (simp only: power_strict_increasing_iff one_less_numeral_iff semiring_norm)
  note sb = f32_sig_bounds(1) [OF b] f32_sig_bounds(3) [OF b]
  define r where "r = f32_sig e m - 2 ^ 23"
  have r: "r < 2 ^ 23" "f32_sig e m = 2 ^ 23 + r" using sb e23 by (simp_all add: r_def)
  have mag: "f32_mag m = (e + 127) * 2 ^ 23 + r" using f32_mag_sig [OF m] r(2) by (simp add: e_def)
  have d: "f32_mag m div 2 ^ 23 = e + 127" "f32_mag m mod 2 ^ 23 = r" unfolding mag using r(1) div_mult_self3 [of "2 ^ 23" r "e + 127"] mod_mult_self3 [of "e + 127" "2 ^ 23" r]
    by (simp_all del: mod_mult_self3 div_mult_self3 add: mult.commute)
  have "f32_sig e m = m * 2 ^ (23 - e)" using e23 by (simp add: f32_sig_def)
  then have s: "2 ^ 23 + r = m * 2 ^ (23 - e)" using r(2) by simp
  have x: "150 - (e + 127) = 23 - e" by simp
  show ?thesis unfolding f32_trunc_def Let_def d s using e23 by (simp add: x)
qed

lemma f32_to_of_int: assumes "\<bar>n\<bar> < 2 ^ 24" shows "f32_to_int (f32_of_int n) = Some n"
proof -
  have i: "int32 n" using assms by (auto simp: int32_def)
  have "nat \<bar>n\<bar> < 2 ^ 24" using assms by simp
  note t = f32_trunc_mag [OF this]
  have lt: "le_nat (f32_of_int n) < 2 ^ 31 \<longleftrightarrow> \<not> n < 0" using f32_of_int_bits(2) [OF i] by (simp add: not_le [symmetric])
  show ?thesis unfolding f32_to_int_def Let_def f32_of_int_bits(1) [OF i] t lt
    using f32_of_int_not_nan [OF i] i by auto
qed

end
