(* ===== verification/Values.thy ===== *)
theory Values
  imports Float32
begin

text \<open>
  Values and conditions (\<^verbatim>\<open>src/src/common/common.h\<close>). The union of \<^verbatim>\<open>int_val\<close> and \<^verbatim>\<open>float_val\<close> is the four bytes
  \<open>v_num\<close>; a string is its bytes. \<open>init_raw\<close> materialises a value in a buffer of the length of a column and \<open>from_raw\<close>
  reads it back.

  Shown: the round trip of the two, the cases in which \<open>init_raw\<close> throws, and that the comparison operators are those of
  one total order on the values without a NaN (an interpretation of the locale \<open>ordered_keys\<close> of the index).
\<close>

subsection \<open>Model\<close>

record TabCol =
  tc_tab_name :: string
  tc_col_name :: string

record Value =
  v_type :: ColType
  v_num :: bytes
  v_str :: bytes
  v_raw :: "bytes option"

definition int_val :: "Value \<Rightarrow> int" where
  "int_val v = read_i32 0 (v_num v)"

definition float_val :: "Value \<Rightarrow> bytes" where
  "float_val v = read_bytes 0 4 (v_num v)"

definition set_int :: "int \<Rightarrow> Value \<Rightarrow> Value" where
  "set_int n v = v\<lparr>v_type := TYPE_INT, v_num := enc_i32 n\<rparr>"

definition set_float :: "bytes \<Rightarrow> Value \<Rightarrow> Value" where
  "set_float f v = v\<lparr>v_type := TYPE_FLOAT, v_num := f\<rparr>"

definition set_str :: "bytes \<Rightarrow> Value \<Rightarrow> Value" where
  "set_str s v = v\<lparr>v_type := TYPE_STRING, v_str := s\<rparr>"

definition Value_default :: Value where
  "Value_default = \<lparr>v_type = TYPE_INT, v_num = enc_i32 0, v_str = [], v_raw = None\<rparr>"

definition init_raw :: "nat \<Rightarrow> Value \<Rightarrow> db_error + Value" where
  "init_raw len v =
     (if v_raw v \<noteq> None then Inl AssertionFailure
      else case v_type v of
        TYPE_INT \<Rightarrow> if len \<noteq> 4 then Inl AssertionFailure else Inr (v\<lparr>v_raw := Some (enc_i32 (int_val v))\<rparr>)
      | TYPE_FLOAT \<Rightarrow> if len \<noteq> 4 then Inl AssertionFailure else Inr (v\<lparr>v_raw := Some (float_val v)\<rparr>)
      | TYPE_STRING \<Rightarrow>
          if len < length (v_str v) then Inl StringOverflowError
          else Inr (v\<lparr>v_raw := Some (write_bytes 0 (v_str v) (replicate len 0))\<rparr>))"

text \<open>The size a value takes, and the part of a buffer before the first zero byte.\<close>

definition value_size :: "Value \<Rightarrow> nat" where
  "value_size v = (case v_type v of TYPE_INT \<Rightarrow> 4 | TYPE_FLOAT \<Rightarrow> 4 | TYPE_STRING \<Rightarrow> length (v_str v))"

definition c_str :: "bytes \<Rightarrow> bytes" where
  "c_str bs = takeWhile (\<lambda>b. b \<noteq> 0) bs"

definition from_raw :: "bytes \<Rightarrow> ColType \<Rightarrow> nat \<Rightarrow> Value" where
  "from_raw data type len =
     (let val = Value_default\<lparr>v_type := type\<rparr>
      in case type of
           TYPE_INT \<Rightarrow> val\<lparr>v_num := enc_i32 (read_i32 0 data)\<rparr>
         | TYPE_FLOAT \<Rightarrow> val\<lparr>v_num := read_bytes 0 4 data\<rparr>
         | TYPE_STRING \<Rightarrow> val\<lparr>v_str := c_str (take len data)\<rparr>)"

definition value_eq :: "Value \<Rightarrow> Value \<Rightarrow> bool" where
  "value_eq a b \<longleftrightarrow>
     v_type a = v_type b \<and>
     (case v_type a of
        TYPE_INT \<Rightarrow> int_val a = int_val b
      | TYPE_FLOAT \<Rightarrow> f32_eq (float_val a) (float_val b)
      | TYPE_STRING \<Rightarrow> v_str a = v_str b)"

definition value_neq :: "Value \<Rightarrow> Value \<Rightarrow> bool" where
  "value_neq a b \<longleftrightarrow> \<not> value_eq a b"

text \<open>\<^verbatim>\<open>std::string\<close> compares by \<^verbatim>\<open>memcmp\<close> of the common length, then by the lengths.\<close>

definition str_less :: "bytes \<Rightarrow> bytes \<Rightarrow> bool" where
  "str_less a b \<longleftrightarrow>
     (let c = memcmp (min (length a) (length b)) a b in c < 0 \<or> (c = 0 \<and> length a < length b))"

definition value_less :: "Value \<Rightarrow> Value \<Rightarrow> bool" where
  "value_less a b \<longleftrightarrow>
     (if v_type a \<noteq> v_type b then coltype_code (v_type a) < coltype_code (v_type b)
      else case v_type a of
        TYPE_INT \<Rightarrow> int_val a < int_val b
      | TYPE_FLOAT \<Rightarrow> f32_less (float_val a) (float_val b)
      | TYPE_STRING \<Rightarrow> str_less (v_str a) (v_str b))"

definition value_le :: "Value \<Rightarrow> Value \<Rightarrow> bool" where
  "value_le a b \<longleftrightarrow> value_less a b \<or> value_eq a b"

definition value_gt :: "Value \<Rightarrow> Value \<Rightarrow> bool" where
  "value_gt a b \<longleftrightarrow> \<not> value_le a b"

definition value_ge :: "Value \<Rightarrow> Value \<Rightarrow> bool" where
  "value_ge a b \<longleftrightarrow> \<not> value_less a b"

definition bool_val :: "Value \<Rightarrow> bool" where
  "bool_val v =
     (case v_type v of
        TYPE_INT \<Rightarrow> int_val v \<noteq> 0
      | TYPE_FLOAT \<Rightarrow> \<not> f32_eq (float_val v) f32_zero
      | TYPE_STRING \<Rightarrow> v_str v \<noteq> [])"

datatype CompOp = OP_EQ | OP_NE | OP_LT | OP_GT | OP_LE | OP_GE

record Condition =
  lhs_col :: TabCol
  cond_op :: CompOp
  is_rhs_val :: bool
  rhs_col :: TabCol
  rhs_val :: Value

text \<open>The comparison of an operator, on two values.\<close>

fun value_op :: "CompOp \<Rightarrow> Value \<Rightarrow> Value \<Rightarrow> bool" where
  "value_op OP_EQ a b \<longleftrightarrow> value_eq a b"
| "value_op OP_NE a b \<longleftrightarrow> value_neq a b"
| "value_op OP_LT a b \<longleftrightarrow> value_less a b"
| "value_op OP_GT a b \<longleftrightarrow> value_gt a b"
| "value_op OP_LE a b \<longleftrightarrow> value_le a b"
| "value_op OP_GE a b \<longleftrightarrow> value_ge a b"

subsection \<open>Raw buffers\<close>

lemma raw_length: "init_raw len v = Inr v' \<Longrightarrow> length (v_num v) = 4 \<Longrightarrow> v_raw v' = Some r \<Longrightarrow> length r = len"
  by (auto simp: init_raw_def float_val_def split: if_splits ColType.splits)

lemma init_raw_other: "init_raw len v = Inr v' \<Longrightarrow> v' = v\<lparr>v_raw := v_raw v'\<rparr> \<and> v_raw v' \<noteq> None"
  by (auto simp: init_raw_def split: if_splits ColType.splits)

lemma init_raw_throws:
  "init_raw len v = Inl e \<longleftrightarrow>
     (if v_raw v \<noteq> None then e = AssertionFailure
      else if v_type v = TYPE_STRING then len < length (v_str v) \<and> e = StringOverflowError
      else len \<noteq> 4 \<and> e = AssertionFailure)"
  by (cases "v_type v") (auto simp: init_raw_def)

lemma c_str_pad: "0 \<notin> set s \<Longrightarrow> c_str (s @ replicate n 0) = s"
  unfolding c_str_def by (induction s) (auto simp: takeWhile_replicate)

lemma c_str_id: "0 \<notin> set s \<Longrightarrow> c_str s = s"
  using c_str_pad [of s 0] by simp

lemma enc_dec_i32: "length bs = 4 \<Longrightarrow> enc_i32 (dec_i32 bs) = bs"
proof -
  assume l: "length bs = 4"
  then have b: "le_nat bs < 2 ^ 32" using le_nat_bound [of bs] by simp
  have "nat (dec_i32 bs mod 2 ^ 32) = le_nat bs"
  proof (cases "2 ^ 31 \<le> le_nat bs")
    case True
    then have "dec_i32 bs = int (le_nat bs) - 2 ^ 32" by (simp add: dec_i32_def Let_def)
    then have "dec_i32 bs mod 2 ^ 32 = int (le_nat bs) mod 2 ^ 32" by simp
    then show ?thesis using b by simp
  next
    case False
    then show ?thesis using b by (simp add: dec_i32_def Let_def)
  qed
  then show ?thesis using le_bytes_le_nat [of bs] l by (simp add: enc_i32_def)
qed

subsection \<open>The order of values\<close>

definition no_nan :: "Value \<Rightarrow> bool" where
  "no_nan v \<longleftrightarrow> (v_type v = TYPE_FLOAT \<longrightarrow> \<not> f32_nan (float_val v))"

definition value_rank :: "Value \<Rightarrow> int list" where
  "value_rank v =
     coltype_code (v_type v) #
       (case v_type v of
          TYPE_INT \<Rightarrow> [int_val v]
        | TYPE_FLOAT \<Rightarrow> [f32_rank (float_val v)]
        | TYPE_STRING \<Rightarrow> map uint (v_str v))"

definition value_cmp :: "Value \<Rightarrow> Value \<Rightarrow> int" where
  "value_cmp a b = sign_cmp (value_less a b) (\<not> value_eq a b)"

lemma str_less_lex: "str_less a b \<longleftrightarrow> map uint a < map uint b"
proof (induction a arbitrary: b)
  case Nil
  then show ?case by (cases b) (auto simp: str_less_def)
next
  case (Cons x xs)
  show ?case
  proof (cases b)
    case Nil
    then show ?thesis by (simp add: str_less_def Let_def)
  next
    case (Cons y ys)
    then show ?thesis using Cons.IH [of ys] by (auto simp: str_less_def Let_def word_less_def word_uint_eq_iff)
  qed
qed

lemma map_uint_inj: "map uint a = map uint b \<longleftrightarrow> a = b"
  by (rule inj_map_eq_map) (auto intro: injI)

lemma coltype_code_inj: "coltype_code s = coltype_code t \<longleftrightarrow> s = t"
  by (cases s; cases t) auto

lemma value_less_rank: "no_nan a \<Longrightarrow> no_nan b \<Longrightarrow> value_less a b \<longleftrightarrow> value_rank a < value_rank b"
  unfolding value_less_def value_rank_def no_nan_def
  by (cases "v_type a"; cases "v_type b"; auto simp: f32_less_def str_less_lex)

lemma value_eq_rank: "no_nan a \<Longrightarrow> no_nan b \<Longrightarrow> value_eq a b \<longleftrightarrow> value_rank a = value_rank b"
  unfolding value_eq_def value_rank_def no_nan_def
  by (cases "v_type a"; cases "v_type b"; auto simp: f32_eq_def map_uint_inj)

interpretation value_keys: ordered_keys value_cmp no_nan value_rank
  by unfold_locales (auto simp: value_cmp_def sign_cmp_def value_less_rank value_eq_rank)

lemma value_op_rank:
  assumes "no_nan a" "no_nan b"
  shows "value_op op a b \<longleftrightarrow>
    (case op of OP_EQ \<Rightarrow> value_rank a = value_rank b | OP_NE \<Rightarrow> value_rank a \<noteq> value_rank b | OP_LT \<Rightarrow> value_rank a < value_rank b
     | OP_GT \<Rightarrow> value_rank b < value_rank a | OP_LE \<Rightarrow> value_rank a \<le> value_rank b | OP_GE \<Rightarrow> value_rank b \<le> value_rank a)"
  using value_less_rank [OF assms] value_eq_rank [OF assms]
  by (cases op) (auto simp: value_neq_def value_le_def value_gt_def value_ge_def)

text \<open>On values without a NaN the six comparison operators of \<^verbatim>\<open>Value\<close> are the comparisons of one total order: that of
  the type, then of the number or of the string byte by byte.\<close>

theorem value_operators_total_order:
  assumes "no_nan a" "no_nan b"
  shows "value_op op a b \<longleftrightarrow>
    (case op of OP_EQ \<Rightarrow> value_rank a = value_rank b | OP_NE \<Rightarrow> value_rank a \<noteq> value_rank b | OP_LT \<Rightarrow> value_rank a < value_rank b
     | OP_GT \<Rightarrow> value_rank b < value_rank a | OP_LE \<Rightarrow> value_rank a \<le> value_rank b | OP_GE \<Rightarrow> value_rank b \<le> value_rank a)"
  by (rule value_op_rank [OF assms])

theorem value_operators_total_order_witness:
  "value_op OP_GE (set_int 7 Value_default) (set_int 3 Value_default) \<longleftrightarrow>
     value_rank (set_int 3 Value_default) \<le> value_rank (set_int 7 Value_default)"
  using value_operators_total_order [of "set_int 7 Value_default" "set_int 3 Value_default" OP_GE]
  by (simp add: no_nan_def set_int_def)

lemma from_raw_int: "length r = 4 \<Longrightarrow> int_val (from_raw r TYPE_INT 4) = dec_i32 r"
  by (simp add: from_raw_def int_val_def read_i32_def enc_dec_i32 read_bytes_def)

lemma from_raw_float: "length r = 4 \<Longrightarrow> float_val (from_raw r TYPE_FLOAT 4) = r"
  by (simp add: from_raw_def float_val_def read_bytes_def)

lemma from_raw_type [simp]: "v_type (from_raw r t n) = t"
  by (cases t) (simp_all add: from_raw_def Let_def)

lemma value_rank_raw [simp]: "value_rank (v\<lparr>v_raw := x\<rparr>) = value_rank v"
  by (cases "v_type v") (simp_all add: value_rank_def int_val_def float_val_def)

lemma init_raw_str:
  "init_raw len v = Inr v' \<Longrightarrow> v_type v = TYPE_STRING \<Longrightarrow>
     length (v_str v) \<le> len \<and> v_raw v' = Some (v_str v @ replicate (len - length (v_str v)) 0)"
  by (auto simp: init_raw_def write_bytes_def split: if_splits)

lemma raw_rank:
  assumes "length (v_num v) = 4" and "v_type v = TYPE_STRING \<longrightarrow> 0 \<notin> set (v_str v)" and "init_raw len v = Inr v'" and r: "v_raw v' = Some r"
  shows "value_rank (from_raw r (v_type v) len) = value_rank v"
proof (cases "v_type v")
  case TYPE_INT
  then have "r = v_num v" "len = 4" using assms(1,3) r
    by (auto simp: init_raw_def int_val_def read_i32_def read_bytes_def enc_dec_i32 split: if_splits)
  then show ?thesis using TYPE_INT assms(1) by (simp add: value_rank_def from_raw_int) (simp add: int_val_def read_i32_def read_bytes_def)
next
  case TYPE_FLOAT
  then have "r = v_num v" "len = 4" using assms(1,3) r
    by (auto simp: init_raw_def float_val_def read_bytes_def split: if_splits)
  then show ?thesis using TYPE_FLOAT assms(1) by (simp add: value_rank_def from_raw_float) (simp add: float_val_def read_bytes_def)
next
  case TYPE_STRING
  then have "r = v_str v @ replicate (len - length (v_str v)) 0" "length r = len" using assms(3) r
    by (auto simp: init_raw_def write_bytes_def split: if_splits)
  then have "c_str (take len r) = v_str v" using assms(2) TYPE_STRING c_str_pad by simp
  then show ?thesis using TYPE_STRING by (simp add: value_rank_def from_raw_def)
qed

text \<open>A value that fits its column is materialised in a buffer of exactly the length of the column, and reading the
  buffer back gives a value of the same type that compares equal to it.\<close>

theorem value_round_trip:
  assumes "length (v_num v) = 4" and "v_type v = TYPE_STRING \<longrightarrow> 0 \<notin> set (v_str v)" and "init_raw len v = Inr v'"
  shows "\<exists>r. v_raw v' = Some r \<and> length r = len \<and> value_rank (from_raw r (v_type v) len) = value_rank v"
proof -
  obtain r where r: "v_raw v' = Some r" using init_raw_other [OF assms(3)] by blast
  then show ?thesis using raw_rank [OF assms r] raw_length [OF assms(3,1) r] by blast
qed

theorem value_round_trip_witness:
  "\<exists>r. v_raw (Value_default\<lparr>v_type := TYPE_STRING, v_str := [104, 105], v_raw := Some [104, 105, 0, 0]\<rparr>) = Some r \<and> length r = 4 \<and>
     value_rank (from_raw r TYPE_STRING 4) = value_rank (set_str [104, 105] Value_default)"
proof -
  have "replicate 4 0 = [0, 0, 0, 0 :: byte]" by (simp add: numeral_eq_Suc)
  then show ?thesis
    using value_round_trip [of "set_str [104, 105] Value_default" 4 "Value_default\<lparr>v_type := TYPE_STRING, v_str := [104, 105], v_raw := Some [104, 105, 0, 0]\<rparr>"]
    by (simp add: set_str_def Value_default_def init_raw_def write_bytes_def)
qed

end
