(* ===== verification/Sm_Meta.thy ===== *)
theory Sm_Meta
  imports Values Mvcc_Manager
begin

text \<open>
  The catalogue (\<^verbatim>\<open>src/src/system/sm_meta.h\<close>): columns, indexes, tables and the database, their lookups, and the text
  that the stream operators write to and read from the file \<^verbatim>\<open>db.meta\<close>. The map of the indexes of a table is
  the list of its entries in the order the container is iterated, the map of tables the list of its entries by key.

  A stream is the text not read yet; a read that sets the fail bit is \<^term>\<open>None\<close>, and what a program reads from a failed
  stream is not modelled. The theorem on reading a catalogue back says exactly what comes back: the tables and their
  columns, but each index with the columns of the indexes before it in front of its own.
\<close>

subsection \<open>Data\<close>

record ColMeta =
  col_tab_name :: string
  col_name :: string
  col_type :: ColType
  col_len :: nat
  col_offset :: nat
  col_index :: bool

record IndexMeta =
  im_tab_name :: string
  im_col_tot_len :: nat
  im_col_num :: nat
  im_cols :: "ColMeta list"

record TabMeta =
  tab_name :: string
  tab_cols :: "ColMeta list"
  tab_indexes :: "(string \<times> IndexMeta) list"

record DbMeta =
  db_name :: string
  db_tabs :: "(string \<times> TabMeta) list"

definition coltype2str :: "ColType \<Rightarrow> string" where
  "coltype2str t = (case t of TYPE_INT \<Rightarrow> ''INT'' | TYPE_FLOAT \<Rightarrow> ''FLOAT'' | TYPE_STRING \<Rightarrow> ''STRING'')"

subsection \<open>Lookups\<close>

definition is_col :: "string \<Rightarrow> TabMeta \<Rightarrow> bool" where
  "is_col c tab \<longleftrightarrow> List.find (\<lambda>col. col_name col = c) (tab_cols tab) \<noteq> None"

definition get_index_name :: "string \<Rightarrow> string list \<Rightarrow> string" where
  "get_index_name name cols = name @ concat (map (\<lambda>c. ''_'' @ c) cols) @ ''.idx''"

definition is_index :: "string list \<Rightarrow> TabMeta \<Rightarrow> bool" where
  "is_index cols tab \<longleftrightarrow> map_of (tab_indexes tab) (get_index_name (tab_name tab) cols) \<noteq> None"

definition get_index_meta :: "string list \<Rightarrow> TabMeta \<Rightarrow> db_error + IndexMeta" where
  "get_index_meta cols tab =
     (case map_of (tab_indexes tab) (get_index_name (tab_name tab) cols) of
        Some i \<Rightarrow> Inr i
      | None \<Rightarrow> Inl (IndexNotFoundError (tab_name tab) cols))"

definition tab_get_col :: "string \<Rightarrow> TabMeta \<Rightarrow> db_error + ColMeta" where
  "tab_get_col c tab =
     (case List.find (\<lambda>col. col_name col = c) (tab_cols tab) of Some col \<Rightarrow> Inr col | None \<Rightarrow> Inl (ColumnNotFoundError c))"

definition is_table :: "string \<Rightarrow> DbMeta \<Rightarrow> bool" where
  "is_table t db \<longleftrightarrow> map_of (db_tabs db) t \<noteq> None"

definition SetTabMeta :: "string \<Rightarrow> TabMeta \<Rightarrow> DbMeta \<Rightarrow> DbMeta" where
  "SetTabMeta t meta db = db\<lparr>db_tabs := AList.update t meta (db_tabs db)\<rparr>"

definition get_table :: "string \<Rightarrow> DbMeta \<Rightarrow> db_error + TabMeta" where
  "get_table t db = (case map_of (db_tabs db) t of Some tab \<Rightarrow> Inr tab | None \<Rightarrow> Inl (TableNotFoundError t))"

subsection \<open>Streams\<close>

text \<open>Formatted input: white space is skipped, a string ends at the next white space, a number at the first character
  that does not belong to it.\<close>

definition get_word :: "string \<Rightarrow> (string \<times> string) option" where
  "get_word s =
     (let t = dropWhile is_space s; w = takeWhile (\<lambda>c. \<not> is_space c) t
      in if w = [] then None else Some (w, drop (length w) t))"

definition number_prefix :: "string \<Rightarrow> string" where
  "number_prefix t =
     (case t of
        [] \<Rightarrow> []
      | c # cs \<Rightarrow> if c = CHR ''-'' \<or> c = CHR ''+'' then c # takeWhile is_digit cs else takeWhile is_digit (c # cs))"

definition get_int :: "string \<Rightarrow> (int \<times> string) option" where
  "get_int s =
     (let t = dropWhile is_space s; p = number_prefix t
      in map_option (\<lambda>i. (i, drop (length p) t)) (stoi p))"

definition get_nat :: "string \<Rightarrow> (nat \<times> string) option" where
  "get_nat s = Option.bind (get_int s) (\<lambda>(i, r). if i < 0 then None else Some (nat i, r))"

definition get_enum :: "string \<Rightarrow> (ColType \<times> string) option" where
  "get_enum s = Option.bind (get_int s) (\<lambda>(i, r). map_option (\<lambda>t. (t, r)) (coltype_of i))"

definition get_bool :: "string \<Rightarrow> (bool \<times> string) option" where
  "get_bool s = Option.bind (get_int s) (\<lambda>(i, r). if i = 0 then Some (False, r) else if i = 1 then Some (True, r) else None)"

definition put_nat :: "nat \<Rightarrow> string" where
  "put_nat n = to_string (int n)"

definition put_col :: "ColMeta \<Rightarrow> string" where
  "put_col c =
     col_tab_name c @ '' '' @ col_name c @ '' '' @ to_string (coltype_code (col_type c)) @ '' '' @ put_nat (col_len c) @ '' '' @
     put_nat (col_offset c) @ '' '' @ (if col_index c then ''1'' else ''0'')"

definition get_col_meta :: "string \<Rightarrow> (ColMeta \<times> string) option" where
  "get_col_meta s =
     Option.bind (get_word s) (\<lambda>(tn, s).
     Option.bind (get_word s) (\<lambda>(n, s).
     Option.bind (get_enum s) (\<lambda>(ty, s).
     Option.bind (get_nat s) (\<lambda>(l, s).
     Option.bind (get_nat s) (\<lambda>(off, s).
     Option.bind (get_bool s) (\<lambda>(i, s).
       Some (\<lparr>col_tab_name = tn, col_name = n, col_type = ty, col_len = l, col_offset = off, col_index = i\<rparr>, s)))))))"

text \<open>The loop that reads a number of columns.\<close>

fun get_cols :: "nat \<Rightarrow> string \<Rightarrow> (ColMeta list \<times> string) option" where
  "get_cols 0 s = Some ([], s)"
| "get_cols (Suc n) s = Option.bind (get_col_meta s) (\<lambda>(c, s). map_option (\<lambda>(cs, s). (c # cs, s)) (get_cols n s))"

definition put_index :: "IndexMeta \<Rightarrow> string" where
  "put_index i =
     im_tab_name i @ '' '' @ put_nat (im_col_tot_len i) @ '' '' @ put_nat (im_col_num i) @
     concat (map (\<lambda>c. CHR 0x0A # put_col c) (im_cols i))"

text \<open>The operator pushes the columns it reads onto the vector of the index it is given.\<close>

definition get_index :: "IndexMeta \<Rightarrow> string \<Rightarrow> (IndexMeta \<times> string) option" where
  "get_index i s =
     Option.bind (get_word s) (\<lambda>(tn, s).
     Option.bind (get_nat s) (\<lambda>(tot, s).
     Option.bind (get_nat s) (\<lambda>(n, s).
     Option.bind (get_cols n s) (\<lambda>(cs, s).
       Some (\<lparr>im_tab_name = tn, im_col_tot_len = tot, im_col_num = n, im_cols = im_cols i @ cs\<rparr>, s)))))"

definition IndexMeta_new :: IndexMeta where
  "IndexMeta_new = \<lparr>im_tab_name = [], im_col_tot_len = 0, im_col_num = 0, im_cols = []\<rparr>"

definition put_tab :: "TabMeta \<Rightarrow> string" where
  "put_tab t =
     tab_name t @ CHR 0x0A # put_nat (length (tab_cols t)) @ CHR 0x0A #
     concat (map (\<lambda>c. put_col c @ [CHR 0x0A]) (tab_cols t)) @
     put_nat (length (tab_indexes t)) @ CHR 0x0A #
     concat (map (\<lambda>(n, i). n @ CHR 0x0A # put_index i @ [CHR 0x0A]) (tab_indexes t))"

text \<open>\<^verbatim>\<open>emplace\<close> does nothing when the key is present.\<close>

definition emplace :: "'k \<Rightarrow> 'v \<Rightarrow> ('k \<times> 'v) list \<Rightarrow> ('k \<times> 'v) list" where
  "emplace k v m = (if map_of m k = None then m @ [(k, v)] else m)"

text \<open>The loop over the indexes of a table; one variable \<open>i\<close> is read into again and again.\<close>

fun get_indexes :: "nat \<Rightarrow> IndexMeta \<Rightarrow> (string \<times> IndexMeta) list \<Rightarrow> string \<Rightarrow> ((string \<times> IndexMeta) list \<times> string) option" where
  "get_indexes 0 i m s = Some (m, s)"
| "get_indexes (Suc n) i m s =
     Option.bind (get_word s) (\<lambda>(ix_name, s).
     Option.bind (get_index i s) (\<lambda>(i, s). get_indexes n i (emplace ix_name i m) s))"

definition get_tab :: "string \<Rightarrow> (TabMeta \<times> string) option" where
  "get_tab s =
     Option.bind (get_word s) (\<lambda>(name, s).
     Option.bind (get_nat s) (\<lambda>(n, s).
     Option.bind (get_cols n s) (\<lambda>(cs, s).
     Option.bind (get_nat s) (\<lambda>(k, s).
     Option.bind (get_indexes k IndexMeta_new [] s) (\<lambda>(is, s).
       Some (\<lparr>tab_name = name, tab_cols = cs, tab_indexes = is\<rparr>, s))))))"

definition put_db :: "DbMeta \<Rightarrow> string" where
  "put_db db =
     db_name db @ CHR 0x0A # put_nat (length (db_tabs db)) @ CHR 0x0A #
     concat (map (\<lambda>(_, t). put_tab t @ [CHR 0x0A]) (db_tabs db))"

fun get_tabs :: "nat \<Rightarrow> (string \<times> TabMeta) list \<Rightarrow> string \<Rightarrow> ((string \<times> TabMeta) list \<times> string) option" where
  "get_tabs 0 m s = Some (m, s)"
| "get_tabs (Suc n) m s = Option.bind (get_tab s) (\<lambda>(t, s). get_tabs n (AList.update (tab_name t) t m) s)"

definition get_db :: "DbMeta \<Rightarrow> string \<Rightarrow> (DbMeta \<times> string) option" where
  "get_db db s =
     Option.bind (get_word s) (\<lambda>(name, s).
     Option.bind (get_nat s) (\<lambda>(n, s).
     Option.bind (get_tabs n (db_tabs db) s) (\<lambda>(ts, s).
       Some (\<lparr>db_name = name, db_tabs = ts\<rparr>, s))))"

subsection \<open>Reading back what was written\<close>

definition is_token :: "string \<Rightarrow> bool" where
  "is_token w \<longleftrightarrow> w \<noteq> [] \<and> (\<forall>c \<in> set w. \<not> is_space c)"

named_theorems stream_simps \<open>reading one item of a stream\<close>

lemma is_space_simps [stream_simps]: "is_space CHR '' ''" "is_space CHR 0x0A"
  by (simp_all add: is_space_def)

lemma space_not_digit: "is_space c \<Longrightarrow> \<not> is_digit c"
  by (auto simp: is_space_def is_digit_def)

lemma get_word_token [stream_simps]: "is_token w \<Longrightarrow> is_space c \<Longrightarrow> get_word (w @ c # r) = Some (w, c # r)"
proof -
  assume w: "is_token w" and c: "is_space c"
  then have "dropWhile is_space (w @ c # r) = w @ c # r" by (cases w) (auto simp: is_token_def)
  moreover have "takeWhile (\<lambda>c. \<not> is_space c) (w @ c # r) = w"
    using w c by (auto simp: is_token_def takeWhile_append2)
  ultimately show ?thesis using w by (simp add: get_word_def is_token_def)
qed

lemma get_word_space [stream_simps]: "is_space c \<Longrightarrow> get_word (c # s) = get_word s"
  by (simp add: get_word_def)

lemma get_int_space: "is_space c \<Longrightarrow> get_int (c # s) = get_int s"
  by (simp add: get_int_def)

lemma digit_cases: "is_digit c \<Longrightarrow> \<not> is_space c \<and> c \<noteq> CHR ''-'' \<and> c \<noteq> CHR ''+''"
  by (auto simp: is_space_def is_digit_def)

lemma number_prefix_to_string: "is_space c \<Longrightarrow> number_prefix (to_string i @ c # r) = to_string i"
proof -
  assume c: "is_space c"
  have t: "takeWhile is_digit (nat_string n @ c # r) = nat_string n" for n
    using space_not_digit [OF c] nat_string_digits [of _ n] by (subst takeWhile_append2) auto
  show ?thesis
  proof (cases "i < 0")
    case True
    then show ?thesis by (simp add: to_string_def number_prefix_def t)
  next
    case False
    obtain d ds where n: "nat_string (nat i) = d # ds" using nat_string_nonempty by (cases "nat_string (nat i)") auto
    then have "is_digit d" using nat_string_digits [of d "nat i"] by simp
    then show ?thesis using False n t [of "nat i"] digit_cases [of d] by (simp add: to_string_def number_prefix_def)
  qed
qed

lemma to_string_starts: "dropWhile is_space (to_string i @ s) = to_string i @ s"
proof -
  obtain d ds where n: "nat_string (nat i) = d # ds" using nat_string_nonempty by (cases "nat_string (nat i)") auto
  then have "is_digit d" using nat_string_digits [of d "nat i"] by simp
  then show ?thesis using n digit_cases [of d] by (auto simp: to_string_def is_space_def)
qed

lemma get_int_to_string: "int32 i \<Longrightarrow> is_space c \<Longrightarrow> get_int (to_string i @ c # r) = Some (i, c # r)"
  by (simp add: get_int_def to_string_starts number_prefix_to_string stoi_to_string)

lemma get_nat_space [stream_simps]: "is_space c \<Longrightarrow> get_nat (c # s) = get_nat s"
  by (simp add: get_nat_def get_int_space)

lemma get_nat_put [stream_simps]: "n < 2 ^ 31 \<Longrightarrow> is_space c \<Longrightarrow> get_nat (put_nat n @ c # r) = Some (n, c # r)"
  by (simp add: get_nat_def put_nat_def get_int_to_string int32_def)

lemma get_enum_space [stream_simps]: "is_space c \<Longrightarrow> get_enum (c # s) = get_enum s"
  by (simp add: get_enum_def get_int_space)

lemma get_enum_put [stream_simps]: "is_space c \<Longrightarrow> get_enum (to_string (coltype_code t) @ c # r) = Some (t, c # r)"
  by (cases t) (simp_all add: get_enum_def get_int_to_string int32_def coltype_of_def)

lemma get_bool_space [stream_simps]: "is_space c \<Longrightarrow> get_bool (c # s) = get_bool s"
  by (simp add: get_bool_def get_int_space)

lemma to_string_bit: "to_string 0 = ''0''" "to_string 1 = ''1''"
  by code_simp+

lemma get_bool_put [stream_simps]:
  "is_space c \<Longrightarrow> get_bool ((if b then ''1'' else ''0'') @ c # r) = Some (b, c # r)"
  using get_int_to_string [of 0 c r] get_int_to_string [of 1 c r] by (cases b) (simp_all add: get_bool_def to_string_bit int32_def)

definition col_text_ok :: "ColMeta \<Rightarrow> bool" where
  "col_text_ok c \<longleftrightarrow> is_token (col_tab_name c) \<and> is_token (col_name c) \<and> col_len c < 2 ^ 31 \<and> col_offset c < 2 ^ 31"

lemma get_col_space [stream_simps]: "is_space c \<Longrightarrow> get_col_meta (c # s) = get_col_meta s"
  by (simp add: get_col_meta_def get_word_space)

lemma get_put_col [stream_simps]: "col_text_ok c \<Longrightarrow> is_space x \<Longrightarrow> get_col_meta (put_col c @ x # r) = Some (c, x # r)"
  unfolding put_col_def get_col_meta_def col_text_ok_def by (simp add: stream_simps)

lemma get_put_cols:
  "\<forall>c \<in> set cs. col_text_ok c \<Longrightarrow> is_space x \<Longrightarrow>
     get_cols (length cs) (concat (map (\<lambda>c. CHR 0x0A # put_col c) cs) @ x # r) = Some (cs, x # r)"
proof (induction cs)
  case (Cons c cs)
  obtain y rest where y: "concat (map (\<lambda>c. CHR 0x0A # put_col c) cs) @ x # r = y # rest" "is_space y"
    using Cons.prems(2) by (cases cs) (auto simp: stream_simps)
  then show ?case using Cons by (simp add: stream_simps)
qed simp

definition index_text_ok :: "IndexMeta \<Rightarrow> bool" where
  "index_text_ok i \<longleftrightarrow> is_token (im_tab_name i) \<and> im_col_tot_len i < 2 ^ 31 \<and> im_col_num i = length (im_cols i) \<and>
     im_col_num i < 2 ^ 31 \<and> (\<forall>c \<in> set (im_cols i). col_text_ok c)"

lemma get_index_space [stream_simps]: "is_space c \<Longrightarrow> get_index i (c # s) = get_index i s"
  by (simp add: get_index_def get_word_space)

lemma get_put_index [stream_simps]:
  assumes "index_text_ok i" "is_space x"
  shows "get_index i0 (put_index i @ x # r) = Some (i\<lparr>im_cols := im_cols i0 @ im_cols i\<rparr>, x # r)"
proof -
  obtain y rest where y: "concat (map (\<lambda>c. CHR 0x0A # put_col c) (im_cols i)) @ x # r = y # rest" "is_space y"
    using assms(2) by (cases "im_cols i") (auto simp: stream_simps)
  then have "get_nat (put_nat (im_col_num i) @ y # rest) = Some (im_col_num i, y # rest)"
    using assms(1) by (intro get_nat_put) (auto simp: index_text_ok_def)
  then show ?thesis
    using assms get_put_cols [of "im_cols i" x r] unfolding put_index_def get_index_def index_text_ok_def
    by (simp add: stream_simps y)
qed

text \<open>What the loop over the indexes leaves in the table: the columns of all indexes read so far.\<close>

fun pile_up :: "ColMeta list \<Rightarrow> (string \<times> IndexMeta) list \<Rightarrow> (string \<times> IndexMeta) list" where
  "pile_up cs [] = []"
| "pile_up cs ((n, i) # r) = (n, i\<lparr>im_cols := cs @ im_cols i\<rparr>) # pile_up (cs @ im_cols i) r"

lemma emplace_new: "k \<notin> fst ` set m \<Longrightarrow> emplace k v m = m @ [(k, v)]"
  by (simp add: emplace_def map_of_eq_None_iff)

lemma get_put_indexes:
  assumes "\<forall>(n, i) \<in> set is. is_token n \<and> index_text_ok i" "distinct (map fst m @ map fst is)" "is_space x"
  shows "get_indexes (length is) i0 m (concat (map (\<lambda>(n, i). CHR 0x0A # n @ CHR 0x0A # put_index i) is) @ x # r) =
     Some (m @ pile_up (im_cols i0) is, x # r)"
  using assms
proof (induction "is" arbitrary: i0 m)
  case (Cons a "is")
  obtain n i where a: "a = (n, i)" by (cases a)
  obtain y rest where y: "concat (map (\<lambda>(n, i). CHR 0x0A # n @ CHR 0x0A # put_index i) is) @ x # r = y # rest" "is_space y"
    using Cons.prems(3) by (cases "is") (auto simp: stream_simps)
  have "n \<notin> fst ` set m" using Cons.prems(2) a by auto
  then have e: "emplace n i' m = m @ [(n, i')]" for i' by (rule emplace_new)
  have "get_indexes (length is) i' (m @ [(n, i')]) (y # rest) = Some ((m @ [(n, i')]) @ pile_up (im_cols i') is, x # r)" for i'
    unfolding y(1) [symmetric] by (rule Cons.IH) (use Cons.prems a in auto)
  then show ?case using Cons.prems y by (simp add: a stream_simps e)
qed simp

definition tab_text_ok :: "TabMeta \<Rightarrow> bool" where
  "tab_text_ok t \<longleftrightarrow> is_token (tab_name t) \<and> length (tab_cols t) < 2 ^ 31 \<and> length (tab_indexes t) < 2 ^ 31 \<and>
     (\<forall>c \<in> set (tab_cols t). col_text_ok c) \<and> (\<forall>(n, i) \<in> set (tab_indexes t). is_token n \<and> index_text_ok i) \<and>
     distinct (map fst (tab_indexes t))"

definition reread_tab :: "TabMeta \<Rightarrow> TabMeta" where
  "reread_tab t = t\<lparr>tab_indexes := pile_up [] (tab_indexes t)\<rparr>"

lemma separator_shift: "x # concat (map (\<lambda>c. f c @ [x]) cs) @ r = concat (map (\<lambda>c. x # f c) cs) @ x # r"
  by (induction cs) auto

lemma separator_shift_pair:
  "x # concat (map (\<lambda>(n, i). n @ x # g i @ [x]) cs) @ r = concat (map (\<lambda>(n, i). x # n @ x # g i) cs) @ x # r"
  by (induction cs) auto

lemma get_tab_space [stream_simps]: "is_space c \<Longrightarrow> get_tab (c # s) = get_tab s"
  by (simp add: get_tab_def get_word_space)

lemma get_put_tab:
  assumes "tab_text_ok t"
  shows "get_tab (put_tab t @ r) = Some (reread_tab t, CHR 0x0A # r)"
proof -
  let ?nl = "CHR 0x0A"
  let ?is = "concat (map (\<lambda>(n, i). ?nl # n @ ?nl # put_index i) (tab_indexes t)) @ ?nl # r"
  let ?cs = "concat (map (\<lambda>c. ?nl # put_col c) (tab_cols t)) @ ?nl # put_nat (length (tab_indexes t)) @ ?is"
  have "put_tab t @ r = tab_name t @ ?nl # put_nat (length (tab_cols t)) @ ?cs"
    unfolding put_tab_def append.assoc append_Cons append_Nil separator_shift_pair [of "?nl" put_index] separator_shift [of "?nl" put_col] ..
  moreover obtain y rest where y: "?cs = y # rest" "is_space y" by (cases "tab_cols t") (auto simp: stream_simps)
  moreover obtain z rest' where z: "?is = z # rest'" "is_space z" by (cases "tab_indexes t") (auto simp: stream_simps)
  moreover have "get_nat (put_nat (length (tab_cols t)) @ ?cs) = Some (length (tab_cols t), ?cs)"
    unfolding y(1) by (rule get_nat_put) (use assms y in \<open>auto simp: tab_text_ok_def\<close>)
  moreover have "get_nat (?nl # put_nat (length (tab_indexes t)) @ ?is) = Some (length (tab_indexes t), ?is)"
    unfolding z(1) using assms z by (simp add: stream_simps tab_text_ok_def)
  moreover have "get_cols (length (tab_cols t)) ?cs = Some (tab_cols t, ?nl # put_nat (length (tab_indexes t)) @ ?is)"
    by (rule get_put_cols) (use assms in \<open>auto simp: tab_text_ok_def stream_simps\<close>)
  moreover have "get_indexes (length (tab_indexes t)) IndexMeta_new [] ?is = Some (pile_up [] (tab_indexes t), ?nl # r)"
    using get_put_indexes [of "tab_indexes t" "[]" ?nl IndexMeta_new r] assms
    by (simp add: tab_text_ok_def stream_simps IndexMeta_new_def)
  ultimately show ?thesis using assms unfolding get_tab_def reread_tab_def
    by (simp add: tab_text_ok_def stream_simps)
qed

definition db_text_ok :: "DbMeta \<Rightarrow> bool" where
  "db_text_ok db \<longleftrightarrow> is_token (db_name db) \<and> length (db_tabs db) < 2 ^ 31 \<and> distinct (map fst (db_tabs db)) \<and>
     (\<forall>(n, t) \<in> set (db_tabs db). n = tab_name t \<and> tab_text_ok t)"

lemma update_new: "k \<notin> fst ` set m \<Longrightarrow> AList.update k v m = m @ [(k, v)]"
  by (induction m) auto

lemma get_put_tabs:
  assumes "\<forall>(n, t) \<in> set ts. n = tab_name t \<and> tab_text_ok t" "distinct (map fst m @ map fst ts)"
  shows "\<exists>rest. get_tabs (length ts) m (CHR 0x0A # concat (map (\<lambda>(_, t). put_tab t @ [CHR 0x0A]) ts) @ r) =
     Some (m @ map (\<lambda>(n, t). (n, reread_tab t)) ts, rest)"
  using assms
proof (induction ts arbitrary: m)
  case (Cons a ts)
  obtain n t where a: "a = (n, t)" by (cases a)
  let ?r = "CHR 0x0A # concat (map (\<lambda>(_, t). put_tab t @ [CHR 0x0A]) ts) @ r"
  have t: "n = tab_name t" "tab_text_ok t" using Cons.prems(1) a by auto
  have u: "AList.update (tab_name (reread_tab t)) (reread_tab t) m = m @ [(n, reread_tab t)]"
    using Cons.prems(2) a t by (intro trans [OF update_new]) (auto simp: reread_tab_def)
  have s: "get_tabs (length ts) m' (CHR 0x0A # ?r) = get_tabs (length ts) m' ?r" if "ts \<noteq> []" for m'
    using that by (cases ts) (simp_all add: stream_simps)
  obtain rest where i: "get_tabs (length ts) (m @ [(n, reread_tab t)]) ?r =
      Some ((m @ [(n, reread_tab t)]) @ map (\<lambda>(n, t). (n, reread_tab t)) ts, rest)"
    using Cons.IH [of "m @ [(n, reread_tab t)]"] Cons.prems a by (auto simp: stream_simps)
  have "get_tab (CHR 0x0A # concat (map (\<lambda>(_, t). put_tab t @ [CHR 0x0A]) (a # ts)) @ r) = Some (reread_tab t, CHR 0x0A # ?r)"
    using get_put_tab [OF t(2), of ?r] by (simp add: a stream_simps)
  then have "get_tabs (length (a # ts)) m (CHR 0x0A # concat (map (\<lambda>(_, t). put_tab t @ [CHR 0x0A]) (a # ts)) @ r) =
      get_tabs (length ts) (m @ [(n, reread_tab t)]) (CHR 0x0A # ?r)"
    by (simp only: list.size get_tabs.simps add_Suc_right add_0_right bind.simps prod.case u)
  then show ?case using i s by (cases "ts = []") (auto simp: a)
qed simp

text \<open>The names and numbers of a catalogue fit the text format: names are not empty and have no white space.\<close>

lemma pile_up_single: "length is \<le> 1 \<Longrightarrow> pile_up [] is = is"
  by (cases "is") auto

text \<open>C21: the catalogue written by \<^verbatim>\<open>flush_meta\<close> is read back by \<^verbatim>\<open>open_db\<close> with every table and column, and unchanged when no
  table has more than one index; of two or more indexes each comes back with the columns of those before it in front.\<close>

theorem catalogue_round_trip:
  assumes "db_text_ok db"
  shows "(\<exists>rest. get_db \<lparr>db_name = [], db_tabs = []\<rparr> (put_db db) =
            Some (db\<lparr>db_tabs := map (\<lambda>(n, t). (n, reread_tab t)) (db_tabs db)\<rparr>, rest)) \<and>
         ((\<forall>(n, t) \<in> set (db_tabs db). length (tab_indexes t) \<le> 1) \<longrightarrow>
            map (\<lambda>(n, t). (n, reread_tab t)) (db_tabs db) = db_tabs db)"
proof -
  let ?t = "concat (map (\<lambda>(_, t). put_tab t @ [CHR 0x0A]) (db_tabs db))"
  obtain rest where g: "get_tabs (length (db_tabs db)) [] (CHR 0x0A # ?t) = Some (map (\<lambda>(n, t). (n, reread_tab t)) (db_tabs db), rest)"
    using get_put_tabs [of "db_tabs db" "[]" "[]"] assms by (auto simp: db_text_ok_def)
  have "get_db \<lparr>db_name = [], db_tabs = []\<rparr> (put_db db) = Some (db\<lparr>db_tabs := map (\<lambda>(n, t). (n, reread_tab t)) (db_tabs db)\<rparr>, rest)"
    using assms g unfolding get_db_def put_db_def db_text_ok_def by (simp add: stream_simps)
  moreover have "map (\<lambda>(n, t). (n, reread_tab t)) (db_tabs db) = db_tabs db"
    if "\<forall>(n, t) \<in> set (db_tabs db). length (tab_indexes t) \<le> 1"
    using that by (intro map_idI) (auto simp: reread_tab_def pile_up_single)
  ultimately show ?thesis by blast
qed

definition example_col :: "string \<Rightarrow> nat \<Rightarrow> ColMeta" where
  "example_col n off = \<lparr>col_tab_name = ''t'', col_name = n, col_type = TYPE_INT, col_len = 4, col_offset = off, col_index = False\<rparr>"

definition example_index :: "string \<Rightarrow> nat \<Rightarrow> IndexMeta" where
  "example_index n off = \<lparr>im_tab_name = ''t'', im_col_tot_len = 4, im_col_num = 1, im_cols = [example_col n off]\<rparr>"

definition example_db :: DbMeta where
  "example_db = \<lparr>db_name = ''db'', db_tabs = [(''t'', \<lparr>tab_name = ''t'', tab_cols = [example_col ''a'' 0, example_col ''b'' 4],
     tab_indexes = [(''t_a.idx'', example_index ''a'' 0), (''t_b.idx'', example_index ''b'' 4)]\<rparr>)]\<rparr>"

lemma example_db_ok: "db_text_ok example_db"
  by (simp add: example_db_def db_text_ok_def tab_text_ok_def col_text_ok_def index_text_ok_def is_token_def is_space_def
      example_col_def example_index_def)

theorem catalogue_round_trip_witness:
  "\<exists>rest. get_db \<lparr>db_name = [], db_tabs = []\<rparr> (put_db example_db) =
     Some (example_db\<lparr>db_tabs := map (\<lambda>(n, t). (n, reread_tab t)) (db_tabs example_db)\<rparr>, rest)"
  using catalogue_round_trip [OF example_db_ok] by blast

text \<open>After a restart the first column of the second index of this table is that of the first index.\<close>

lemma second_index_reread:
  "map_of (tab_indexes (reread_tab (snd (hd (db_tabs example_db))))) ''t_b.idx'' =
     Some ((example_index ''b'' 4)\<lparr>im_cols := [example_col ''a'' 0, example_col ''b'' 4]\<rparr>)"
  by (simp add: example_db_def reread_tab_def example_index_def)

text \<open>Two indexes of two tables can have one name.\<close>

lemma index_names_clash: "get_index_name ''a'' [''b'', ''c''] = get_index_name ''a_b'' [''c'']"
  by (simp add: get_index_name_def)

end
