(* ===== verification/Exec_Cond.thy ===== *)
theory Exec_Cond
  imports Sm_Meta
begin

text \<open>
  Conditions: their check in \<^verbatim>\<open>src/src/analyze/analyze.cpp\<close> (\<^verbatim>\<open>check_column\<close>, \<^verbatim>\<open>check_clause\<close>) and their evaluation on a
  row, by a sequential scan (\<^verbatim>\<open>eval_cond\<close> in \<^verbatim>\<open>src/src/execution/executor_abstract.h\<close>) and by an index scan
  (\<^verbatim>\<open>cmp_cond\<close> in \<^verbatim>\<open>executor_index_scan.h\<close>).

  A result of type \<open>checked\<close> is \<^term>\<open>None\<close> where the program reads outside a buffer or through a null pointer.
  Both evaluations are shown to be the comparison of the values of the column and the operand, under the conditions where
  this holds; the two cases where it fails, large integers and operands of another numeric type, are stated too.
\<close>

type_synonym 'a checked = "(db_error + 'a) option"

definition chk :: "'a checked \<Rightarrow> ('a \<Rightarrow> 'b checked) \<Rightarrow> 'b checked" where
  "chk m k = (case m of None \<Rightarrow> None | Some (Inl e) \<Rightarrow> Some (Inl e) | Some (Inr x) \<Rightarrow> k x)"

definition load :: "nat \<Rightarrow> nat \<Rightarrow> bytes \<Rightarrow> bytes checked" where
  "load off n bs = (if off + n \<le> length bs then Some (Inr (read_bytes off n bs)) else None)"

definition store :: "nat \<Rightarrow> bytes \<Rightarrow> bytes \<Rightarrow> bytes checked" where
  "store off bs key = (if off + length bs \<le> length key then Some (Inr (write_bytes off bs key)) else None)"

subsection \<open>Evaluation of a condition\<close>

definition get_col :: "ColMeta list \<Rightarrow> TabCol \<Rightarrow> db_error + ColMeta" where
  "get_col rec_cols target =
     (case List.find (\<lambda>c. col_tab_name c = tc_tab_name target \<and> col_name c = tc_col_name target) rec_cols of
        Some c \<Rightarrow> Inr c
      | None \<Rightarrow> Inl (ColumnNotFoundError (tc_tab_name target @ ''.'' @ tc_col_name target)))"

definition is_numeric_type :: "ColType \<Rightarrow> bool" where
  "is_numeric_type t \<longleftrightarrow> t = TYPE_INT \<or> t = TYPE_FLOAT"

text \<open>A null \<^verbatim>\<open>raw\<close> is dereferenced.\<close>

definition raw_of :: "Value \<Rightarrow> bytes checked" where
  "raw_of v = map_option Inr (v_raw v)"

text \<open>\<^verbatim>\<open>strncmp\<close>: the bytes up to the first zero or the limit.\<close>

fun strncmp :: "nat \<Rightarrow> bytes \<Rightarrow> bytes \<Rightarrow> int checked" where
  "strncmp 0 a b = Some (Inr 0)"
| "strncmp (Suc n) (x # xs) (y # ys) =
     (if x < y then Some (Inr (-1)) else if y < x then Some (Inr 1) else if x = 0 then Some (Inr 0) else strncmp n xs ys)"
| "strncmp (Suc n) _ _ = None"

definition float_operand :: "ColType \<Rightarrow> bytes \<Rightarrow> bytes checked" where
  "float_operand t data = chk (load 0 4 data) (\<lambda>bs. Some (Inr (if t = TYPE_INT then f32_of_int (dec_i32 bs) else bs)))"

definition float_op :: "CompOp \<Rightarrow> bytes \<Rightarrow> bytes \<Rightarrow> bool" where
  "float_op op a b =
     (case op of
        OP_EQ \<Rightarrow> f32_eq a b
      | OP_NE \<Rightarrow> \<not> f32_eq a b
      | OP_LT \<Rightarrow> f32_less a b
      | OP_GT \<Rightarrow> f32_less b a
      | OP_LE \<Rightarrow> f32_less a b \<or> f32_eq a b
      | OP_GE \<Rightarrow> f32_less b a \<or> f32_eq b a)"

definition cmp_op :: "CompOp \<Rightarrow> int \<Rightarrow> bool" where
  "cmp_op op cmp =
     (case op of OP_EQ \<Rightarrow> cmp = 0 | OP_NE \<Rightarrow> cmp \<noteq> 0 | OP_LT \<Rightarrow> cmp < 0 | OP_GT \<Rightarrow> cmp > 0 | OP_LE \<Rightarrow> cmp \<le> 0 | OP_GE \<Rightarrow> cmp \<ge> 0)"

text \<open>The data, the type and the length of the right operand.\<close>

definition rhs_operand :: "ColMeta list \<Rightarrow> Condition \<Rightarrow> bytes \<Rightarrow> (bytes \<times> ColType \<times> nat) checked" where
  "rhs_operand rec_cols cond r =
     (if is_rhs_val cond then chk (raw_of (rhs_val cond)) (\<lambda>raw. Some (Inr (raw, v_type (rhs_val cond), length raw)))
      else chk (Some (get_col rec_cols (rhs_col cond))) (\<lambda>c. Some (Inr (drop (col_offset c) r, col_type c, col_len c))))"

definition eval_cond :: "ColMeta list \<Rightarrow> Condition \<Rightarrow> bytes \<Rightarrow> bool checked" where
  "eval_cond rec_cols cond r =
     chk (Some (get_col rec_cols (lhs_col cond))) (\<lambda>l.
     chk (rhs_operand rec_cols cond r) (\<lambda>(rhs_data, rhs_type, rhs_len).
       let lhs_data = drop (col_offset l) r; numeric = is_numeric_type (col_type l) \<and> is_numeric_type rhs_type
       in if col_type l \<noteq> rhs_type \<and> \<not> numeric
          then Some (Inl (IncompatibleTypeError (coltype2str (col_type l)) (coltype2str rhs_type)))
          else if numeric then
            chk (float_operand (col_type l) lhs_data) (\<lambda>a.
            chk (if is_rhs_val cond
                 then Some (Inr (if rhs_type = TYPE_INT then f32_of_int (int_val (rhs_val cond)) else float_val (rhs_val cond)))
                 else float_operand rhs_type rhs_data) (\<lambda>b.
              Some (Inr (float_op (cond_op cond) a b))))
          else chk (strncmp (max (col_len l) rhs_len) lhs_data rhs_data) (\<lambda>c. Some (Inr (cmp_op (cond_op cond) c)))))"

text \<open>The first condition that is false decides; an exception before it is passed on.\<close>

fun all_conds :: "(Condition \<Rightarrow> bool checked) \<Rightarrow> Condition list \<Rightarrow> bool checked" where
  "all_conds f [] = Some (Inr True)"
| "all_conds f (c # cs) = chk (f c) (\<lambda>b. if b then all_conds f cs else Some (Inr False))"

definition eval_conds :: "ColMeta list \<Rightarrow> Condition list \<Rightarrow> bytes \<Rightarrow> bool checked" where
  "eval_conds rec_cols conds r = all_conds (\<lambda>c. eval_cond rec_cols c r) conds"

definition compare_three_way :: "bool \<Rightarrow> bool \<Rightarrow> int" where
  "compare_three_way eq lt = (if eq then 0 else if lt then -1 else 1)"

definition compare_col :: "bytes \<Rightarrow> bytes \<Rightarrow> nat \<Rightarrow> ColType \<Rightarrow> int checked" where
  "compare_col a b len t =
     (case t of
        TYPE_INT \<Rightarrow> chk (load 0 4 a) (\<lambda>x. chk (load 0 4 b) (\<lambda>y. Some (Inr (compare_three_way (dec_i32 x = dec_i32 y) (dec_i32 x < dec_i32 y)))))
      | TYPE_FLOAT \<Rightarrow> chk (load 0 4 a) (\<lambda>x. chk (load 0 4 b) (\<lambda>y. Some (Inr (compare_three_way (f32_eq x y) (f32_less x y)))))
      | TYPE_STRING \<Rightarrow> chk (load 0 len a) (\<lambda>x. chk (load 0 len b) (\<lambda>y. Some (Inr (memcmp len x y)))))"

definition cmp_cond :: "ColMeta list \<Rightarrow> Condition \<Rightarrow> bytes \<Rightarrow> bool checked" where
  "cmp_cond rec_cols cond r =
     chk (Some (get_col rec_cols (lhs_col cond))) (\<lambda>l.
     chk (rhs_operand rec_cols cond r) (\<lambda>(rhs_data, rhs_type, _).
       let lhs_data = drop (col_offset l) r
       in chk (if col_type l \<noteq> rhs_type
               then if \<not> is_numeric_type (col_type l) \<or> \<not> is_numeric_type rhs_type
                    then Some (Inl (IncompatibleTypeError (coltype2str (col_type l)) (coltype2str rhs_type)))
                    else chk (float_operand (col_type l) lhs_data) (\<lambda>a. chk (float_operand rhs_type rhs_data) (\<lambda>b.
                           Some (Inr (compare_three_way (f32_eq a b) (f32_less a b)))))
               else compare_col lhs_data rhs_data (col_len l) rhs_type) (\<lambda>cmp.
            Some (Inr (cmp_op (cond_op cond) cmp)))))"

definition cmp_conds :: "ColMeta list \<Rightarrow> Condition list \<Rightarrow> bytes \<Rightarrow> bool checked" where
  "cmp_conds rec_cols conds r = all_conds (\<lambda>c. cmp_cond rec_cols c r) conds"

subsection \<open>The check of a where clause\<close>

text \<open>The table of an unqualified column; an empty name counts as not found.\<close>

fun infer_table :: "string \<Rightarrow> ColMeta list \<Rightarrow> string \<Rightarrow> db_error + string" where
  "infer_table c [] found = (if found = [] then Inl (ColumnNotFoundError c) else Inr found)"
| "infer_table c (col # cols) found =
     (if col_name col = c then
        (if found \<noteq> [] then Inl (AmbiguousColumnError c) else infer_table c cols (col_tab_name col))
      else infer_table c cols found)"

definition check_column :: "ColMeta list \<Rightarrow> TabCol \<Rightarrow> db_error + TabCol" where
  "check_column all_cols target =
     (if tc_tab_name target = [] then
        (case infer_table (tc_col_name target) all_cols [] of
           Inl e \<Rightarrow> Inl e
         | Inr t \<Rightarrow> Inr (target\<lparr>tc_tab_name := t\<rparr>))
      else if List.find (\<lambda>col. col_tab_name col = tc_tab_name target \<and> col_name col = tc_col_name target) all_cols \<noteq> None
      then Inr target
      else Inl (ColumnNotFoundError (tc_tab_name target @ ''.'' @ tc_col_name target)))"

fun get_all_cols :: "DbMeta \<Rightarrow> string list \<Rightarrow> db_error + ColMeta list" where
  "get_all_cols db [] = Inr []"
| "get_all_cols db (t # ts) =
     (case get_table t db of
        Inl e \<Rightarrow> Inl e
      | Inr tab \<Rightarrow> (case get_all_cols db ts of Inl e \<Rightarrow> Inl e | Inr cs \<Rightarrow> Inr (tab_cols tab @ cs)))"

definition table_col :: "DbMeta \<Rightarrow> TabCol \<Rightarrow> ColMeta checked" where
  "table_col db c = chk (Some (get_table (tc_tab_name c) db)) (\<lambda>tab. Some (tab_get_col (tc_col_name c) tab))"

text \<open>One round of the loop of \<^verbatim>\<open>check_clause\<close>. The buffer of a literal is filled before the literal is converted to the type
  of the column.\<close>

definition check_cond :: "DbMeta \<Rightarrow> ColMeta list \<Rightarrow> Condition \<Rightarrow> Condition checked" where
  "check_cond db all_cols cond =
     chk (Some (check_column all_cols (lhs_col cond))) (\<lambda>lc.
     chk (if is_rhs_val cond then Some (Inr (rhs_col cond)) else Some (check_column all_cols (rhs_col cond))) (\<lambda>rc.
     chk (table_col db lc) (\<lambda>l.
       let cond1 = cond\<lparr>lhs_col := lc, rhs_col := rc\<rparr>
       in if is_rhs_val cond then
            chk (Some (init_raw (col_len l) (rhs_val cond))) (\<lambda>v.
              if col_type l = v_type v then Some (Inr (cond1\<lparr>rhs_val := v\<rparr>))
              else if is_numeric_type (col_type l) \<and> is_numeric_type (v_type v) then
                (if col_type l = TYPE_FLOAT then Some (Inr (cond1\<lparr>rhs_val := set_float (f32_of_int (int_val v)) v\<rparr>))
                 else case f32_to_int (float_val v) of
                        None \<Rightarrow> None
                      | Some n \<Rightarrow> Some (Inr (cond1\<lparr>rhs_val := set_int n v\<rparr>)))
              else Some (Inl (IncompatibleTypeError (coltype2str (col_type l)) (coltype2str (v_type v)))))
          else
            chk (table_col db rc) (\<lambda>r.
              if col_type l = col_type r \<or> (is_numeric_type (col_type l) \<and> is_numeric_type (col_type r)) then Some (Inr cond1)
              else Some (Inl (IncompatibleTypeError (coltype2str (col_type l)) (coltype2str (col_type r)))))))) "

fun check_each :: "DbMeta \<Rightarrow> ColMeta list \<Rightarrow> Condition list \<Rightarrow> Condition list checked" where
  "check_each db all_cols [] = Some (Inr [])"
| "check_each db all_cols (c # cs) =
     chk (check_cond db all_cols c) (\<lambda>c. chk (check_each db all_cols cs) (\<lambda>cs. Some (Inr (c # cs))))"

definition check_clause :: "DbMeta \<Rightarrow> string list \<Rightarrow> Condition list \<Rightarrow> Condition list checked" where
  "check_clause db tab_names conds = chk (Some (get_all_cols db tab_names)) (\<lambda>all_cols. check_each db all_cols conds)"

subsection \<open>Conditions compare values\<close>

definition col_fits :: "ColMeta \<Rightarrow> bytes \<Rightarrow> bool" where
  "col_fits c r \<longleftrightarrow> col_offset c + col_len c \<le> length r \<and> (col_type c \<noteq> TYPE_STRING \<longrightarrow> col_len c = 4)"

definition col_bytes :: "ColMeta \<Rightarrow> bytes \<Rightarrow> bytes" where
  "col_bytes c r = read_bytes (col_offset c) (col_len c) r"

definition col_value :: "ColMeta \<Rightarrow> bytes \<Rightarrow> Value" where
  "col_value c r = from_raw (col_bytes c r) (col_type c) (col_len c)"

text \<open>A literal of the type of the column whose buffer has been filled.\<close>

definition literal_ok :: "ColMeta \<Rightarrow> Value \<Rightarrow> bool" where
  "literal_ok c v \<longleftrightarrow> v_type v = col_type c \<and> length (v_num v) = 4 \<and> (v_type v = TYPE_STRING \<longrightarrow> 0 \<notin> set (v_str v)) \<and>
     init_raw (col_len c) (v\<lparr>v_raw := None\<rparr>) = Inr v"

definition zero_padded :: "bytes \<Rightarrow> bool" where
  "zero_padded bs \<longleftrightarrow> (\<forall>b \<in> set (drop (length (c_str bs)) bs). b = 0)"

lemma chk_simps [simp]:
  "chk None k = None" "chk (Some (Inl e)) k = Some (Inl e)" "chk (Some (Inr x)) k = k x"
  by (simp_all add: chk_def)

lemma literal_raw:
  assumes "literal_ok c v"
  obtains raw where "v_raw v = Some raw" "length raw = col_len c" "value_rank (from_raw raw (v_type v) (col_len c)) = value_rank v"
    "v_type v = TYPE_STRING \<Longrightarrow> c_str raw = v_str v \<and> zero_padded raw"
proof -
  let ?v = "v\<lparr>v_raw := None\<rparr>"
  have i: "init_raw (col_len c) ?v = Inr v" and n: "length (v_num ?v) = 4" "v_type ?v = TYPE_STRING \<longrightarrow> 0 \<notin> set (v_str ?v)"
    using assms by (simp_all add: literal_ok_def)
  obtain raw where raw: "v_raw v = Some raw" using init_raw_other [OF i] by auto
  have "value_rank (from_raw raw (v_type v) (col_len c)) = value_rank v" using raw_rank [OF n i raw] by simp
  moreover have "c_str raw = v_str v \<and> zero_padded raw" if t: "v_type v = TYPE_STRING"
  proof -
    have "raw = v_str v @ replicate (col_len c - length (v_str v)) 0" using init_raw_str [OF i] t raw by simp
    then show ?thesis using n(2) t c_str_pad [of "v_str v"] by (simp add: zero_padded_def)
  qed
  ultimately show ?thesis using raw raw_length [OF i n(1) raw] that by blast
qed

lemma strncmp_sign:
  assumes "n \<le> length a" "n \<le> length b"
  shows "\<exists>c. strncmp n a b = Some (Inr c) \<and> (c < 0 \<longleftrightarrow> map uint (c_str (take n a)) < map uint (c_str (take n b))) \<and>
    (c = 0 \<longleftrightarrow> c_str (take n a) = c_str (take n b))"
  using assms
proof (induction n a b rule: strncmp.induct)
  case (2 n x xs y ys)
  have z: "x < y \<Longrightarrow> y \<noteq> 0" "y < x \<Longrightarrow> x \<noteq> 0" by auto
  show ?case
  proof (cases "x < y \<or> y < x")
    case True
    then show ?thesis using z by (auto simp: c_str_def word_less_def word_uint_eq_iff)
  next
    case False
    then have "x = y" using linorder_less_linear [of x y] by blast
    then show ?thesis using 2 by (auto simp: c_str_def)
  qed
qed (auto simp: c_str_def)

lemma zero_padded_Cons: "zero_padded (x # xs) \<longleftrightarrow> (if x = 0 then (\<forall>b \<in> set xs. b = 0) else zero_padded xs)"
  by (auto simp: zero_padded_def c_str_def)

lemma zero_padded_zeros: "\<forall>b \<in> set xs. b = (0 :: byte) \<Longrightarrow> c_str xs = [] \<and> xs = replicate (length xs) 0"
  by (induction xs) (auto simp: c_str_def)

lemma padded_order:
  "length a = length b \<Longrightarrow> zero_padded a \<Longrightarrow> zero_padded b \<Longrightarrow>
     (map uint a < map uint b \<longleftrightarrow> map uint (c_str a) < map uint (c_str b)) \<and> (a = b \<longleftrightarrow> c_str a = c_str b)"
proof (induction a b rule: list_induct2)
  case (Cons x xs y ys)
  have z: "x < y \<Longrightarrow> y \<noteq> 0" "y < x \<Longrightarrow> x \<noteq> 0" by auto
  consider "x < y" | "y < x" | "x = y" "x \<noteq> 0" | "x = 0" "y = 0" using linorder_less_linear [of x y] by blast
  then show ?case
  proof cases
    case 4
    then have "xs = replicate (length xs) 0" "ys = replicate (length ys) 0"
      using Cons.prems zero_padded_zeros by (auto simp: zero_padded_Cons)
    then have "xs = ys" using Cons.hyps by metis
    then show ?thesis using 4 by simp
  qed (use Cons z in \<open>auto simp: c_str_def zero_padded_Cons word_less_def word_uint_eq_iff\<close>)
qed simp

lemma cmp_op_value:
  assumes "no_nan a" "no_nan b" "c < 0 \<longleftrightarrow> value_rank a < value_rank b" "c = 0 \<longleftrightarrow> value_rank a = value_rank b"
  shows "cmp_op op c \<longleftrightarrow> value_op op a b"
  unfolding value_op_rank [OF assms(1,2)] using assms(3,4) by (cases op) (auto simp: cmp_op_def)

lemma float_op_value:
  assumes "no_nan a" "no_nan b" "f32_less x y \<longleftrightarrow> value_rank a < value_rank b" "f32_less y x \<longleftrightarrow> value_rank b < value_rank a"
    "f32_eq x y \<longleftrightarrow> value_rank a = value_rank b" "f32_eq y x \<longleftrightarrow> value_rank a = value_rank b"
  shows "float_op op x y \<longleftrightarrow> value_op op a b"
  unfolding value_op_rank [OF assms(1,2)] using assms(3-6) by (cases op) (auto simp: float_op_def)

lemma lhs_load: "col_fits c r \<Longrightarrow> col_type c \<noteq> TYPE_STRING \<Longrightarrow> load 0 4 (drop (col_offset c) r) = Some (Inr (col_bytes c r)) \<and> length (col_bytes c r) = 4"
  by (auto simp: load_def col_fits_def col_bytes_def read_bytes_def)

lemma col_value_rank:
  assumes "col_fits c r"
  shows "value_rank (col_value c r) =
    coltype_code (col_type c) # (case col_type c of TYPE_INT \<Rightarrow> [dec_i32 (col_bytes c r)] | TYPE_FLOAT \<Rightarrow> [f32_rank (col_bytes c r)]
      | TYPE_STRING \<Rightarrow> map uint (c_str (col_bytes c r)))"
proof -
  have l: "length (col_bytes c r) = col_len c" using assms by (simp add: col_fits_def col_bytes_def)
  show ?thesis
  proof (cases "col_type c")
    case TYPE_INT
    then show ?thesis using l assms by (simp add: col_value_def value_rank_def from_raw_int col_fits_def)
  next
    case TYPE_FLOAT
    then show ?thesis using l assms by (simp add: col_value_def value_rank_def from_raw_float col_fits_def)
  next
    case TYPE_STRING
    then show ?thesis using l by (simp add: col_value_def value_rank_def from_raw_def)
  qed
qed

lemma col_value_type [simp]: "v_type (col_value c r) = col_type c"
  by (simp add: col_value_def)

lemma col_value_float: "col_fits c r \<Longrightarrow> col_type c = TYPE_FLOAT \<Longrightarrow> float_val (col_value c r) = col_bytes c r"
  using from_raw_float [of "col_bytes c r"] by (auto simp: col_value_def col_fits_def col_bytes_def)

lemma col_value_int: "col_fits c r \<Longrightarrow> col_type c = TYPE_INT \<Longrightarrow> int_val (col_value c r) = dec_i32 (col_bytes c r)"
  using from_raw_int [of "col_bytes c r"] by (auto simp: col_value_def col_fits_def col_bytes_def)

lemma rhs_literal:
  assumes "is_rhs_val cond" "v_raw (rhs_val cond) = Some raw"
  shows "rhs_operand cols cond r = Some (Inr (raw, v_type (rhs_val cond), length raw))"
  using assms by (simp add: rhs_operand_def raw_of_def)

lemma literal_num:
  assumes "literal_ok c v" "v_raw v = Some raw" "col_type c \<noteq> TYPE_STRING"
  shows "raw = v_num v"
  using assms by (auto simp: literal_ok_def init_raw_def int_val_def float_val_def read_i32_def read_bytes_def enc_dec_i32
      split: if_splits ColType.splits dest: arg_cong [of _ _ v_raw])

lemma eval_cond_value:
  assumes l: "get_col cols (lhs_col cond) = Inr c" and v: "is_rhs_val cond" "literal_ok c (rhs_val cond)" and f: "col_fits c r"
    and nn: "no_nan (col_value c r)" "no_nan (rhs_val cond)"
    and ex: "col_type c = TYPE_INT \<longrightarrow> f32_exact (int_val (col_value c r)) \<and> f32_exact (int_val (rhs_val cond))"
  shows "eval_cond cols cond r = Some (Inr (value_op (cond_op cond) (col_value c r) (rhs_val cond)))"
proof -
  let ?v = "rhs_val cond"
  obtain raw where raw: "v_raw ?v = Some raw" "length raw = col_len c" "value_rank (from_raw raw (v_type ?v) (col_len c)) = value_rank ?v"
    "v_type ?v = TYPE_STRING \<Longrightarrow> c_str raw = v_str ?v \<and> zero_padded raw"
    by (rule literal_raw [OF v(2)]) auto
  have t: "v_type ?v = col_type c" using v(2) by (simp add: literal_ok_def)
  note rank = col_value_rank [OF f]
  show ?thesis
  proof (cases "col_type c")
    case TYPE_INT
    note lf = lhs_load [OF f] f32_of_int_compare [of "dec_i32 (col_bytes c r)" "int_val ?v"] f32_of_int_compare [of "int_val ?v" "dec_i32 (col_bytes c r)"]
    have "float_op (cond_op cond) (f32_of_int (dec_i32 (col_bytes c r))) (f32_of_int (int_val ?v)) = value_op (cond_op cond) (col_value c r) ?v"
      by (rule float_op_value [OF nn]) (use TYPE_INT t rank lf ex col_value_int [OF f] in \<open>auto simp: value_rank_def [of ?v]\<close>)
    then show ?thesis using TYPE_INT t lf l rhs_literal [OF v(1) raw(1)] v(1)
      by (simp add: eval_cond_def is_numeric_type_def float_operand_def)
  next
    case TYPE_FLOAT
    have "float_op (cond_op cond) (col_bytes c r) (float_val ?v) = value_op (cond_op cond) (col_value c r) ?v"
      by (rule float_op_value [OF nn]) (use TYPE_FLOAT t rank nn col_value_float [OF f] in
          \<open>auto simp: value_rank_def [of ?v] f32_less_def f32_eq_def no_nan_def\<close>)
    then show ?thesis using TYPE_FLOAT t lhs_load [OF f] l rhs_literal [OF v(1) raw(1)] v(1)
      by (simp add: eval_cond_def is_numeric_type_def float_operand_def)
  next
    case TYPE_STRING
    have b: "col_len c \<le> length (drop (col_offset c) r)" using f by (auto simp: col_fits_def)
    obtain k where k: "strncmp (col_len c) (drop (col_offset c) r) raw = Some (Inr k)"
      "k < 0 \<longleftrightarrow> map uint (c_str (col_bytes c r)) < map uint (c_str raw)" "k = 0 \<longleftrightarrow> c_str (col_bytes c r) = c_str raw"
      using strncmp_sign [of "col_len c" "drop (col_offset c) r" raw] b raw(2) by (auto simp: col_bytes_def read_bytes_def)
    have "cmp_op (cond_op cond) k = value_op (cond_op cond) (col_value c r) ?v"
      by (rule cmp_op_value [OF nn]) (use TYPE_STRING t rank k(2,3) raw(4) in \<open>auto simp: value_rank_def [of ?v] map_uint_inj\<close>)
    then show ?thesis using TYPE_STRING t l rhs_literal [OF v(1) raw(1)] v(1) k(1) raw(2)
      by (simp add: eval_cond_def is_numeric_type_def)
  qed
qed

lemma three_way_sign:
  "\<not> (eq \<and> lt) \<Longrightarrow> (compare_three_way eq lt < 0 \<longleftrightarrow> lt) \<and> (compare_three_way eq lt = 0 \<longleftrightarrow> eq)"
  by (auto simp: compare_three_way_def)

lemma cmp_cond_value:
  assumes l: "get_col cols (lhs_col cond) = Inr c" and v: "is_rhs_val cond" "literal_ok c (rhs_val cond)" and f: "col_fits c r"
    and nn: "no_nan (col_value c r)" "no_nan (rhs_val cond)"
    and pad: "col_type c = TYPE_STRING \<longrightarrow> zero_padded (col_bytes c r)"
  shows "cmp_cond cols cond r = Some (Inr (value_op (cond_op cond) (col_value c r) (rhs_val cond)))"
proof -
  let ?v = "rhs_val cond"
  obtain raw where raw: "v_raw ?v = Some raw" "length raw = col_len c" "value_rank (from_raw raw (v_type ?v) (col_len c)) = value_rank ?v"
    "v_type ?v = TYPE_STRING \<Longrightarrow> c_str raw = v_str ?v \<and> zero_padded raw"
    by (rule literal_raw [OF v(2)]) auto
  have t: "v_type ?v = col_type c" using v(2) by (simp add: literal_ok_def)
  note rank = col_value_rank [OF f]
  obtain k where k: "compare_col (drop (col_offset c) r) raw (col_len c) (col_type c) = Some (Inr k)"
    "k < 0 \<longleftrightarrow> value_rank (col_value c r) < value_rank ?v" "k = 0 \<longleftrightarrow> value_rank (col_value c r) = value_rank ?v"
  proof (cases "col_type c")
    case TYPE_INT
    then have "dec_i32 raw = int_val ?v" "load 0 4 raw = Some (Inr raw)" using raw(1,2) literal_num [OF v(2) raw(1)] f
      by (auto simp: int_val_def read_i32_def load_def read_bytes_def col_fits_def)
    then show ?thesis using TYPE_INT t rank lhs_load [OF f] that [of "compare_three_way (dec_i32 (col_bytes c r) = int_val ?v) (dec_i32 (col_bytes c r) < int_val ?v)"]
      by (auto simp: compare_col_def value_rank_def [of ?v] three_way_sign)
  next
    case TYPE_FLOAT
    then have "raw = float_val ?v" "load 0 4 raw = Some (Inr raw)" using raw(1,2) literal_num [OF v(2) raw(1)] f
      by (auto simp: float_val_def load_def read_bytes_def col_fits_def)
    then show ?thesis using TYPE_FLOAT t rank lhs_load [OF f] nn col_value_float [OF f]
        that [of "compare_three_way (f32_eq (col_bytes c r) raw) (f32_less (col_bytes c r) raw)"]
      by (auto simp: compare_col_def value_rank_def [of ?v] three_way_sign f32_eq_def f32_less_def no_nan_def)
  next
    case TYPE_STRING
    have b: "load 0 (col_len c) (drop (col_offset c) r) = Some (Inr (col_bytes c r))" "load 0 (col_len c) raw = Some (Inr raw)"
      "length (col_bytes c r) = col_len c"
      using f raw(2) by (auto simp: load_def col_fits_def col_bytes_def read_bytes_def)
    have p: "length (col_bytes c r) = length raw" "zero_padded (col_bytes c r)" "zero_padded raw" using b raw TYPE_STRING t pad by auto
    show ?thesis
      using TYPE_STRING t rank b memcmp_lex [of "col_len c" "col_bytes c r" raw] raw(2,4) padded_order [OF p]
        that [of "memcmp (col_len c) (col_bytes c r) raw"]
      by (auto simp: compare_col_def value_rank_def [of ?v] map_uint_inj)
  qed
  have "cmp_op (cond_op cond) k = value_op (cond_op cond) (col_value c r) ?v" by (rule cmp_op_value [OF nn k(2,3)])
  then show ?thesis using t l rhs_literal [OF v(1) raw(1)] k(1) by (simp add: cmp_cond_def)
qed

text \<open>The right operand and its value: a literal whose buffer was filled for the column and that was not converted, or a column of the same type
  and length.\<close>

definition operand_ok :: "ColMeta list \<Rightarrow> Condition \<Rightarrow> ColMeta \<Rightarrow> bytes \<Rightarrow> Value \<Rightarrow> bool" where
  "operand_ok cols cond c r v \<longleftrightarrow>
     (if is_rhs_val cond then literal_ok c (rhs_val cond) \<and> v = rhs_val cond
      else case get_col cols (rhs_col cond) of
        Inl e \<Rightarrow> False
      | Inr d \<Rightarrow> col_type d = col_type c \<and> col_len d = col_len c \<and> col_fits d r \<and> v = col_value d r \<and> (col_type d = TYPE_STRING \<longrightarrow> zero_padded (col_bytes d r)))"

lemma rhs_column:
  assumes "\<not> is_rhs_val cond" "get_col cols (rhs_col cond) = Inr d"
  shows "rhs_operand cols cond r = Some (Inr (drop (col_offset d) r, col_type d, col_len d))"
  using assms by (simp add: rhs_operand_def)

lemma eval_cond_columns:
  assumes l: "get_col cols (lhs_col cond) = Inr c" and d: "\<not> is_rhs_val cond" "get_col cols (rhs_col cond) = Inr d" "col_type d = col_type c" "col_len d = col_len c"
    and f: "col_fits c r" "col_fits d r" and nn: "no_nan (col_value c r)" "no_nan (col_value d r)"
    and ex: "col_type c = TYPE_INT \<longrightarrow> f32_exact (int_val (col_value c r)) \<and> f32_exact (int_val (col_value d r))"
  shows "eval_cond cols cond r = Some (Inr (value_op (cond_op cond) (col_value c r) (col_value d r)))"
proof -
  note rank = col_value_rank [OF f(1)] col_value_rank [OF f(2)] and rhs = rhs_column [OF d(1,2)]
  show ?thesis
  proof (cases "col_type c")
    case TYPE_INT
    have i: "int_val (col_value c r) = dec_i32 (col_bytes c r)" "int_val (col_value d r) = dec_i32 (col_bytes d r)"
      using col_value_int [OF f(1)] col_value_int [OF f(2)] TYPE_INT d(3) by simp_all
    note fc = f32_of_int_compare [of "dec_i32 (col_bytes c r)" "dec_i32 (col_bytes d r)"] f32_of_int_compare [of "dec_i32 (col_bytes d r)" "dec_i32 (col_bytes c r)"]
    have "float_op (cond_op cond) (f32_of_int (dec_i32 (col_bytes c r))) (f32_of_int (dec_i32 (col_bytes d r))) = value_op (cond_op cond) (col_value c r) (col_value d r)"
      by (rule float_op_value [OF nn]) (use TYPE_INT rank d(3) fc ex i in auto)
    then show ?thesis using TYPE_INT lhs_load [OF f(1)] lhs_load [OF f(2)] l rhs d by (simp add: eval_cond_def is_numeric_type_def float_operand_def)
  next
    case TYPE_FLOAT
    have "float_op (cond_op cond) (col_bytes c r) (col_bytes d r) = value_op (cond_op cond) (col_value c r) (col_value d r)"
      by (rule float_op_value [OF nn]) (use TYPE_FLOAT rank d(3) nn col_value_float [OF f(1)] col_value_float [OF f(2)] in
          \<open>auto simp: f32_less_def f32_eq_def no_nan_def\<close>)
    then show ?thesis using TYPE_FLOAT lhs_load [OF f(1)] lhs_load [OF f(2)] l rhs d by (simp add: eval_cond_def is_numeric_type_def float_operand_def)
  next
    case TYPE_STRING
    have b: "col_len c \<le> length (drop (col_offset c) r)" "col_len c \<le> length (drop (col_offset d) r)" using f d(4) by (auto simp: col_fits_def)
    obtain k where k: "strncmp (col_len c) (drop (col_offset c) r) (drop (col_offset d) r) = Some (Inr k)"
      "k < 0 \<longleftrightarrow> map uint (c_str (col_bytes c r)) < map uint (c_str (col_bytes d r))" "k = 0 \<longleftrightarrow> c_str (col_bytes c r) = c_str (col_bytes d r)"
      using strncmp_sign [OF b] d(4) by (auto simp: col_bytes_def read_bytes_def)
    have "cmp_op (cond_op cond) k = value_op (cond_op cond) (col_value c r) (col_value d r)"
      by (rule cmp_op_value [OF nn]) (use TYPE_STRING rank k(2,3) d(3) in \<open>auto simp: map_uint_inj\<close>)
    then show ?thesis using TYPE_STRING l rhs d k(1) by (simp add: eval_cond_def is_numeric_type_def)
  qed
qed

lemma cmp_cond_columns:
  assumes l: "get_col cols (lhs_col cond) = Inr c" and d: "\<not> is_rhs_val cond" "get_col cols (rhs_col cond) = Inr d" "col_type d = col_type c" "col_len d = col_len c"
    and f: "col_fits c r" "col_fits d r" and nn: "no_nan (col_value c r)" "no_nan (col_value d r)"
    and pad: "col_type c = TYPE_STRING \<longrightarrow> zero_padded (col_bytes c r) \<and> zero_padded (col_bytes d r)"
  shows "cmp_cond cols cond r = Some (Inr (value_op (cond_op cond) (col_value c r) (col_value d r)))"
proof -
  note rank = col_value_rank [OF f(1)] col_value_rank [OF f(2)] and rhs = rhs_column [OF d(1,2)]
  obtain k where k: "compare_col (drop (col_offset c) r) (drop (col_offset d) r) (col_len c) (col_type c) = Some (Inr k)"
    "k < 0 \<longleftrightarrow> value_rank (col_value c r) < value_rank (col_value d r)" "k = 0 \<longleftrightarrow> value_rank (col_value c r) = value_rank (col_value d r)"
  proof (cases "col_type c")
    case TYPE_INT
    then show ?thesis using rank d(3) lhs_load [OF f(1)] lhs_load [OF f(2)]
        that [of "compare_three_way (dec_i32 (col_bytes c r) = dec_i32 (col_bytes d r)) (dec_i32 (col_bytes c r) < dec_i32 (col_bytes d r))"]
      by (auto simp: compare_col_def three_way_sign)
  next
    case TYPE_FLOAT
    then show ?thesis using rank d(3) lhs_load [OF f(1)] lhs_load [OF f(2)] nn col_value_float [OF f(1)] col_value_float [OF f(2)]
        that [of "compare_three_way (f32_eq (col_bytes c r) (col_bytes d r)) (f32_less (col_bytes c r) (col_bytes d r))"]
      by (auto simp: compare_col_def three_way_sign f32_eq_def f32_less_def no_nan_def)
  next
    case TYPE_STRING
    have b: "load 0 (col_len c) (drop (col_offset c) r) = Some (Inr (col_bytes c r))" "load 0 (col_len c) (drop (col_offset d) r) = Some (Inr (col_bytes d r))"
      "length (col_bytes c r) = col_len c" "length (col_bytes d r) = col_len c"
      using f d(4) by (auto simp: load_def col_fits_def col_bytes_def read_bytes_def)
    have p: "length (col_bytes c r) = length (col_bytes d r)" "zero_padded (col_bytes c r)" "zero_padded (col_bytes d r)" using b TYPE_STRING pad by auto
    show ?thesis
      using TYPE_STRING rank d(3) b memcmp_lex [of "col_len c" "col_bytes c r" "col_bytes d r"] padded_order [OF p]
        that [of "memcmp (col_len c) (col_bytes c r) (col_bytes d r)"]
      by (auto simp: compare_col_def map_uint_inj)
  qed
  have "cmp_op (cond_op cond) k = value_op (cond_op cond) (col_value c r) (col_value d r)" by (rule cmp_op_value [OF nn k(2,3)])
  then show ?thesis using l rhs d k(1) by (simp add: cmp_cond_def)
qed

text \<open>C19: on a row whose column holds a number without NaN, at most \<open>2 ^ 24\<close> in size when it is an integer, or a zero-padded string, and
  with a right operand of the column's own type and length under the same conditions, a literal that the check did not convert from
  another numeric type or another column, the filter of a sequential scan and the filter of an index scan both return what the comparison
  operator gives on the two values. Outside these conditions the two differ: larger integers (\<open>large_integers_equal\<close>) and converted literals
  (\<open>converted_literal_stale\<close>).\<close>

theorem scan_filters_agree:
  assumes "get_col cols (lhs_col cond) = Inr c" "operand_ok cols cond c r v" "col_fits c r"
    and "no_nan (col_value c r)" "no_nan v" "col_type c = TYPE_STRING \<longrightarrow> zero_padded (col_bytes c r)"
    and "col_type c = TYPE_INT \<longrightarrow> f32_exact (int_val (col_value c r)) \<and> f32_exact (int_val v)"
  shows "eval_cond cols cond r = Some (Inr (value_op (cond_op cond) (col_value c r) v)) \<and>
         cmp_cond cols cond r = Some (Inr (value_op (cond_op cond) (col_value c r) v))"
proof (cases "is_rhs_val cond")
  case True
  then have v: "literal_ok c (rhs_val cond)" "v = rhs_val cond" using assms(2) by (simp_all add: operand_ok_def)
  have nn: "no_nan (rhs_val cond)" using assms(5) v(2) by simp
  show ?thesis using eval_cond_value [OF assms(1) True v(1) assms(3,4) nn] cmp_cond_value [OF assms(1) True v(1) assms(3,4) nn] assms(6,7) v(2) by simp
next
  case False
  then obtain d where d: "get_col cols (rhs_col cond) = Inr d" "col_type d = col_type c" "col_len d = col_len c" "col_fits d r" "v = col_value d r"
    "col_type d = TYPE_STRING \<longrightarrow> zero_padded (col_bytes d r)" using assms(2) by (auto simp: operand_ok_def split: sum.splits)
  have nn: "no_nan (col_value d r)" using assms(5) d(5) by simp
  show ?thesis using eval_cond_columns [OF assms(1) False d(1-3) assms(3) d(4) assms(4) nn] cmp_cond_columns [OF assms(1) False d(1-3) assms(3) d(4) assms(4) nn] assms(6,7) d(2,5,6) by simp
qed

definition int_literal :: "int \<Rightarrow> Value" where
  "int_literal n = (set_int n Value_default)\<lparr>v_raw := Some (enc_i32 n)\<rparr>"

definition example_cond :: "CompOp \<Rightarrow> Value \<Rightarrow> Condition" where
  "example_cond op v = \<lparr>lhs_col = \<lparr>tc_tab_name = ''t'', tc_col_name = ''a''\<rparr>, cond_op = op, is_rhs_val = True,
     rhs_col = \<lparr>tc_tab_name = [], tc_col_name = []\<rparr>, rhs_val = v\<rparr>"

lemma int_literal_val: "int32 n \<Longrightarrow> int_val (int_literal n) = n"
  by (simp add: int_literal_def int_val_def set_int_def read_i32_def read_bytes_def dec_enc_i32)

lemma int_literal_ok: "int32 n \<Longrightarrow> col_type c = TYPE_INT \<Longrightarrow> col_len c = 4 \<Longrightarrow> literal_ok c (int_literal n)"
  by (simp add: literal_ok_def int_literal_def set_int_def Value_default_def init_raw_def int_val_def read_i32_def read_bytes_def dec_enc_i32)

lemma example_col_int: "int32 n \<Longrightarrow> int_val (col_value (example_col ''a'' 0) (enc_i32 n)) = n"
  by (subst col_value_int) (auto simp: col_fits_def example_col_def col_bytes_def read_bytes_def dec_enc_i32)

theorem scan_filters_agree_witness:
  "eval_cond [example_col ''a'' 0] (example_cond OP_GT (int_literal 3)) (enc_i32 7) =
     Some (Inr (value_op OP_GT (col_value (example_col ''a'' 0) (enc_i32 7)) (int_literal 3))) \<and>
   cmp_cond [example_col ''a'' 0] (example_cond OP_GT (int_literal 3)) (enc_i32 7) =
     Some (Inr (value_op OP_GT (col_value (example_col ''a'' 0) (enc_i32 7)) (int_literal 3)))"
proof -
  let ?c = "example_col ''a'' 0" and ?k = "example_cond OP_GT (int_literal 3)"
  have i: "int32 7" "int32 3" "f32_exact 7" "f32_exact 3" by (simp_all add: int32_def f32_exact_def)
  have "col_type ?c = TYPE_INT" "col_len ?c = 4" by (simp_all add: example_col_def)
  note lit = int_literal_ok [OF i(2) this] and vals = int_literal_val [OF i(2)] example_col_int [OF i(1)]
  have k: "is_rhs_val ?k" "rhs_val ?k = int_literal 3" "cond_op ?k = OP_GT" by (simp_all add: example_cond_def)
  have "get_col [?c] (lhs_col ?k) = Inr ?c" by (simp add: get_col_def example_cond_def example_col_def)
  moreover have "col_fits ?c (enc_i32 7)" "col_type ?c = TYPE_INT" by (simp_all add: col_fits_def example_col_def)
  moreover have "no_nan (col_value ?c (enc_i32 7))" "no_nan (int_literal 3)"
    by (simp_all add: no_nan_def example_col_def int_literal_def set_int_def)
  moreover have "operand_ok [?c] ?k ?c (enc_i32 7) (int_literal 3)" using k lit by (simp add: operand_ok_def)
  ultimately show ?thesis using scan_filters_agree [of "[?c]" ?k ?c "enc_i32 7" "int_literal 3"] k i vals by simp
qed

subsection \<open>A checked clause evaluates\<close>

lemma infer_table_found:
  "infer_table c cols found = Inr t \<Longrightarrow> (found = t \<and> t \<noteq> []) \<or> (\<exists>col \<in> set cols. col_name col = c \<and> col_tab_name col = t)"
proof (induction cols arbitrary: found)
  case Nil
  then show ?case by (auto split: if_splits)
next
  case (Cons x xs)
  show ?case
  proof (cases "col_name x = c")
    case True
    then have "infer_table c xs (col_tab_name x) = Inr t" using Cons.prems by (auto split: if_splits)
    then show ?thesis using Cons.IH True by auto
  next
    case False
    then show ?thesis using Cons by auto
  qed
qed

lemma check_column_table:
  assumes "check_column cols target = Inr lc" "\<forall>c \<in> set cols. col_tab_name c = t"
  shows "tc_tab_name lc = t"
proof (cases "tc_tab_name target = []")
  case True
  then obtain u where u: "infer_table (tc_col_name target) cols [] = Inr u" "lc = target\<lparr>tc_tab_name := u\<rparr>"
    using assms(1) by (auto simp: check_column_def split: sum.splits)
  then show ?thesis using infer_table_found [OF u(1)] assms(2) by auto
next
  case False
  then show ?thesis using assms by (auto simp: check_column_def find_None_iff split: if_splits)
qed

text \<open>The columns of a table, and rows that are long enough for them.\<close>

definition table_shape :: "string \<Rightarrow> DbMeta \<Rightarrow> TabMeta \<Rightarrow> bool" where
  "table_shape t db tab \<longleftrightarrow> get_table t db = Inr tab \<and> (\<forall>c \<in> set (tab_cols tab). col_tab_name c = t)"

definition row_fits :: "ColMeta list \<Rightarrow> bytes \<Rightarrow> bool" where
  "row_fits cols r \<longleftrightarrow> (\<forall>c \<in> set cols. col_fits c r)"

lemma checked_column:
  assumes "table_shape t db tab" "check_column (tab_cols tab) target = Inr lc" "table_col db lc = Some (Inr c)"
  shows "get_col (tab_cols tab) lc = Inr c \<and> c \<in> set (tab_cols tab)"
proof -
  have t: "tc_tab_name lc = t" using check_column_table [OF assms(2)] assms(1) by (auto simp: table_shape_def)
  then have f: "List.find (\<lambda>col. col_name col = tc_col_name lc) (tab_cols tab) = Some c"
    using assms(1,3) by (auto simp: table_col_def table_shape_def tab_get_col_def split: option.splits)
  moreover have "List.find (\<lambda>c. col_tab_name c = tc_tab_name lc \<and> col_name c = tc_col_name lc) (tab_cols tab) =
      List.find (\<lambda>col. col_name col = tc_col_name lc) (tab_cols tab)"
    by (rule find_cong) (use assms(1) t in \<open>auto simp: table_shape_def\<close>)
  moreover have "c \<in> set (tab_cols tab)" using f by (auto simp: find_Some_iff)
  ultimately show ?thesis by (simp add: get_col_def)
qed

definition cond_typed :: "ColMeta list \<Rightarrow> Condition \<Rightarrow> bool" where
  "cond_typed cols cond \<longleftrightarrow>
     (\<exists>c \<in> set cols. get_col cols (lhs_col cond) = Inr c \<and>
        (if is_rhs_val cond
         then (\<exists>raw. v_raw (rhs_val cond) = Some raw \<and> length raw = col_len c) \<and> v_type (rhs_val cond) = col_type c
         else \<exists>d \<in> set cols. get_col cols (rhs_col cond) = Inr d \<and>
                (col_type c = col_type d \<or> is_numeric_type (col_type c) \<and> is_numeric_type (col_type d))))"

lemma chk_Inr: "chk m k = Some (Inr y) \<longleftrightarrow> (\<exists>x. m = Some (Inr x) \<and> k x = Some (Inr y))"
  by (auto simp: chk_def split: option.splits sum.splits)

lemma check_cond_typed:
  assumes tab: "table_shape t db tab" and ok: "check_cond db (tab_cols tab) cond = Some (Inr cond')" and num: "length (v_num (rhs_val cond)) = 4"
  shows "cond_typed (tab_cols tab) cond'"
proof (cases "is_rhs_val cond")
  case True
  obtain lc c v where k: "check_column (tab_cols tab) (lhs_col cond) = Inr lc" "table_col db lc = Some (Inr c)"
    "init_raw (col_len c) (rhs_val cond) = Inr v" "lhs_col cond' = lc" "is_rhs_val cond'"
    "v_raw (rhs_val cond') = v_raw v" "v_type (rhs_val cond') = col_type c"
    using ok True by (fastforce simp: check_cond_def chk_Inr Let_def set_float_def set_int_def is_numeric_type_def split: if_splits option.splits)
  obtain raw where "v_raw v = Some raw" using init_raw_other [OF k(3)] by blast
  then show ?thesis using checked_column [OF tab k(1,2)] k raw_length [OF k(3) num] unfolding cond_typed_def by auto
next
  case False
  obtain lc rc c d where k: "check_column (tab_cols tab) (lhs_col cond) = Inr lc" "table_col db lc = Some (Inr c)"
    "check_column (tab_cols tab) (rhs_col cond) = Inr rc" "table_col db rc = Some (Inr d)"
    "lhs_col cond' = lc" "rhs_col cond' = rc" "\<not> is_rhs_val cond'"
    "col_type c = col_type d \<or> is_numeric_type (col_type c) \<and> is_numeric_type (col_type d)"
    using ok False by (fastforce simp: check_cond_def chk_Inr Let_def split: if_splits)
  then show ?thesis using checked_column [OF tab k(1,2)] checked_column [OF tab k(3,4)] unfolding cond_typed_def by auto
qed

lemma float_operand_some: "col_fits c r \<Longrightarrow> is_numeric_type (col_type c) \<Longrightarrow> \<exists>x. float_operand (col_type c) (drop (col_offset c) r) = Some (Inr x)"
  using lhs_load [of c r] by (auto simp: float_operand_def is_numeric_type_def)

lemma strncmp_no_error: "strncmp n a b \<noteq> Some (Inl e)"
  by (induction n a b rule: strncmp.induct) auto

text \<open>A literal, or a column that is a number or as long as the left one.\<close>

definition operand_inside :: "ColMeta list \<Rightarrow> Condition \<Rightarrow> bool" where
  "operand_inside cols cond \<longleftrightarrow>
     is_rhs_val cond \<or>
     (case (get_col cols (lhs_col cond), get_col cols (rhs_col cond)) of (Inr c, Inr d) \<Rightarrow> col_type d = TYPE_STRING \<longrightarrow> col_len d = col_len c | _ \<Rightarrow> True)"

lemma eval_cond_typed:
  assumes "cond_typed cols cond" "row_fits cols r"
  shows "eval_cond cols cond r \<noteq> Some (Inl e)" and "operand_inside cols cond \<Longrightarrow> \<exists>b. eval_cond cols cond r = Some (Inr b)"
proof -
  obtain c where c: "c \<in> set cols" "get_col cols (lhs_col cond) = Inr c" using assms(1) by (auto simp: cond_typed_def)
  have f: "col_fits c r" using assms(2) c(1) by (simp add: row_fits_def)
  have lit: "\<exists>b. eval_cond cols cond r = Some (Inr b)" if v: "is_rhs_val cond"
  proof -
    obtain raw where raw: "v_raw (rhs_val cond) = Some raw" "length raw = col_len c" "v_type (rhs_val cond) = col_type c"
      using assms(1) c v by (auto simp: cond_typed_def)
    show ?thesis
    proof (cases "is_numeric_type (col_type c)")
      case True
      then show ?thesis using float_operand_some [OF f True] c raw v rhs_literal [OF v raw(1)] by (auto simp: eval_cond_def)
    next
      case False
      have "col_len c \<le> length (drop (col_offset c) r)" using f by (auto simp: col_fits_def)
      then obtain k where "strncmp (col_len c) (drop (col_offset c) r) raw = Some (Inr k)"
        using strncmp_sign [of "col_len c" "drop (col_offset c) r" raw] raw(2) by auto
      then show ?thesis using False c raw v rhs_literal [OF v raw(1)] by (simp add: eval_cond_def)
    qed
  qed
  show "\<exists>b. eval_cond cols cond r = Some (Inr b)" if i: "operand_inside cols cond"
  proof (cases "is_rhs_val cond")
    case False
    then obtain d where d: "d \<in> set cols" "get_col cols (rhs_col cond) = Inr d"
      "col_type c = col_type d \<or> is_numeric_type (col_type c) \<and> is_numeric_type (col_type d)"
      using assms(1) c by (auto simp: cond_typed_def)
    have fd: "col_fits d r" using assms(2) d(1) by (simp add: row_fits_def)
    show ?thesis
    proof (cases "is_numeric_type (col_type c) \<and> is_numeric_type (col_type d)")
      case True
      then show ?thesis using float_operand_some [OF f] float_operand_some [OF fd] False c d by (auto simp: eval_cond_def rhs_operand_def)
    next
      case F: False
      then have e: "col_type c = col_type d" "col_type d = TYPE_STRING" using d(3) by (cases "col_type d"; auto simp: is_numeric_type_def)+
      have n: "col_len d = col_len c" using i False c(2) d(2) e(2) by (simp add: operand_inside_def)
      have "col_len c \<le> length (drop (col_offset c) r)" "col_len c \<le> length (drop (col_offset d) r)" using f fd n by (auto simp: col_fits_def)
      then obtain k where "strncmp (col_len c) (drop (col_offset c) r) (drop (col_offset d) r) = Some (Inr k)" using strncmp_sign by blast
      then show ?thesis using e F c d False n by (simp add: eval_cond_def rhs_operand_def)
    qed
  qed (use lit in blast)
  show "eval_cond cols cond r \<noteq> Some (Inl e)"
  proof (cases "is_rhs_val cond")
    case True
    then show ?thesis using lit by auto
  next
    case False
    then obtain d where d: "d \<in> set cols" "get_col cols (rhs_col cond) = Inr d"
      "col_type c = col_type d \<or> is_numeric_type (col_type c) \<and> is_numeric_type (col_type d)"
      using assms(1) c by (auto simp: cond_typed_def)
    have fd: "col_fits d r" using assms(2) d(1) by (simp add: row_fits_def)
    show ?thesis
    proof (cases "is_numeric_type (col_type c) \<and> is_numeric_type (col_type d)")
      case True
      then show ?thesis using float_operand_some [OF f] float_operand_some [OF fd] False c d by (auto simp: eval_cond_def rhs_operand_def)
    next
      case F: False
      then have e: "col_type c = col_type d" using d(3) by blast
      have "chk (strncmp n a b) (\<lambda>k. Some (Inr (cmp_op (cond_op cond) k))) \<noteq> Some (Inl e)" for n a b
        using strncmp_no_error [of n a b] by (auto simp: chk_def split: option.splits sum.splits)
      then show ?thesis using e F c d False by (auto simp: eval_cond_def rhs_operand_def)
    qed
  qed
qed

lemma all_conds_total:
  assumes "\<forall>c \<in> set cs. \<exists>b. f c = Some (Inr b)"
  shows "\<exists>b. all_conds f cs = Some (Inr b)"
  using assms by (induction cs) auto

lemma all_conds_no_error:
  assumes "\<forall>c \<in> set cs. f c \<noteq> Some (Inl e)"
  shows "all_conds f cs \<noteq> Some (Inl e)"
  using assms by (induction cs) (auto simp: chk_def split: option.splits sum.splits)

lemma check_each_typed:
  assumes "table_shape t db tab" "check_each db (tab_cols tab) conds = Some (Inr conds')" "\<forall>c \<in> set conds. length (v_num (rhs_val c)) = 4"
  shows "\<forall>c \<in> set conds'. cond_typed (tab_cols tab) c"
  using assms(2,3)
proof (induction conds arbitrary: conds')
  case (Cons c cs)
  then show ?case using check_cond_typed [OF assms(1)] by (fastforce simp: chk_Inr)
qed simp

text \<open>C20: a where clause on one table that \<^verbatim>\<open>check_clause\<close> accepts is well typed: evaluating it on any row of the table never
  throws, neither for a missing column nor for incompatible types; and it returns a truth value, reading nothing outside the row, when
  each right operand is a literal, a number, or a string column as long as the left one. For string columns of different lengths it reads
  past the shorter one (\<open>string_columns_overlap\<close>).\<close>

theorem checked_clause_well_typed:
  assumes "table_shape t db tab" and "check_clause db [t] conds = Some (Inr conds')" and "\<forall>c \<in> set conds. length (v_num (rhs_val c)) = 4"
    and "row_fits (tab_cols tab) r"
  shows "eval_conds (tab_cols tab) conds' r \<noteq> Some (Inl e) \<and>
    ((\<forall>c \<in> set conds'. operand_inside (tab_cols tab) c) \<longrightarrow> (\<exists>b. eval_conds (tab_cols tab) conds' r = Some (Inr b)))"
proof -
  have "check_each db (tab_cols tab) conds = Some (Inr conds')" using assms(1,2) by (auto simp: check_clause_def table_shape_def)
  then have t: "\<forall>c \<in> set conds'. cond_typed (tab_cols tab) c" using check_each_typed [OF assms(1)] assms(3) by blast
  have "eval_conds (tab_cols tab) conds' r \<noteq> Some (Inl e)"
    unfolding eval_conds_def by (rule all_conds_no_error) (use eval_cond_typed(1) [OF _ assms(4)] t in blast)
  moreover have "\<exists>b. eval_conds (tab_cols tab) conds' r = Some (Inr b)" if "\<forall>c \<in> set conds'. operand_inside (tab_cols tab) c"
    unfolding eval_conds_def by (rule all_conds_total) (use eval_cond_typed(2) [OF _ assms(4)] t that in blast)
  ultimately show ?thesis by blast
qed

definition example_tab :: TabMeta where
  "example_tab = snd (hd (db_tabs example_db))"

lemma example_check:
  "check_clause example_db [''t''] [example_cond OP_GT (set_int 3 Value_default)] = Some (Inr [example_cond OP_GT (int_literal 3)])"
proof -
  have "int32 3" by (simp add: int32_def)
  then have "init_raw 4 (set_int 3 Value_default) = Inr (int_literal 3)"
    by (simp add: init_raw_def set_int_def Value_default_def int_literal_def int_val_def read_i32_def read_bytes_def dec_enc_i32)
  then show ?thesis
    by (simp add: check_clause_def check_cond_def check_column_def table_col_def get_table_def tab_get_col_def example_db_def
        example_cond_def example_col_def) (simp add: int_literal_def set_int_def)
qed

theorem checked_clause_well_typed_witness:
  "\<exists>b. eval_conds (tab_cols example_tab) [example_cond OP_GT (int_literal 3)] (replicate 8 0) = Some (Inr b)"
proof -
  have "table_shape ''t'' example_db example_tab" "row_fits (tab_cols example_tab) (replicate 8 0)"
    by (simp_all add: table_shape_def get_table_def example_tab_def example_db_def example_col_def row_fits_def col_fits_def)
  then show ?thesis
    using checked_clause_well_typed [OF _ example_check, of example_tab "replicate 8 0"]
    by (simp add: example_cond_def set_int_def operand_inside_def)
qed

subsection \<open>Where conditions go wrong\<close>

text \<open>A sequential scan compares integers as floats, so two integers above \<open>2 ^ 24\<close> are equal to it; an index scan
  tells them apart.\<close>

lemma large_integers_equal:
  "eval_cond [example_col ''a'' 0] (example_cond OP_EQ (int_literal 16777216)) (enc_i32 16777217) = Some (Inr True)"
  "cmp_cond [example_col ''a'' 0] (example_cond OP_EQ (int_literal 16777216)) (enc_i32 16777217) = Some (Inr False)"
proof -
  have i: "int32 16777216" "int32 16777217" by (simp_all add: int32_def)
  have e: "f32_eq (f32_of_int 16777217) (f32_of_int 16777216)"
    using f32_of_int_not_nan [OF i(1)] f32_of_int_collision by (simp add: f32_eq_def)
  note s = int_literal_val [OF i(1)] dec_enc_i32 [OF i(1)] dec_enc_i32 [OF i(2)]
  have t: "v_type (int_literal n) = TYPE_INT" "v_raw (int_literal n) = Some (enc_i32 n)" for n by (simp_all add: int_literal_def set_int_def)
  show "eval_cond [example_col ''a'' 0] (example_cond OP_EQ (int_literal 16777216)) (enc_i32 16777217) = Some (Inr True)"
    by (simp add: eval_cond_def get_col_def example_cond_def example_col_def rhs_operand_def raw_of_def t is_numeric_type_def
        float_operand_def load_def read_bytes_def s float_op_def e)
  show "cmp_cond [example_col ''a'' 0] (example_cond OP_EQ (int_literal 16777216)) (enc_i32 16777217) = Some (Inr False)"
    by (simp add: cmp_cond_def get_col_def example_cond_def example_col_def rhs_operand_def raw_of_def t compare_col_def
        load_def read_bytes_def s compare_three_way_def cmp_op_def)
qed

text \<open>The buffer of an integer literal compared with a \<^verbatim>\<open>float\<close> column keeps the bits of the integer, which an index scan
  then reads as a float: it compares a row with the value 5.0 unequal to the literal 5.\<close>

definition float_col :: ColMeta where
  "float_col = (example_col ''a'' 0)\<lparr>col_type := TYPE_FLOAT\<rparr>"

definition float_db :: DbMeta where
  "float_db = \<lparr>db_name = ''db'', db_tabs = [(''t'', \<lparr>tab_name = ''t'', tab_cols = [float_col], tab_indexes = []\<rparr>)]\<rparr>"

lemma converted_literal_stale:
  defines "v \<equiv> set_float (f32_of_int 5) (int_literal 5)"
  shows "check_clause float_db [''t''] [example_cond OP_EQ (set_int 5 Value_default)] = Some (Inr [example_cond OP_EQ v])"
    and "v_raw v = Some (enc_i32 5)"
    and "eval_cond [float_col] (example_cond OP_EQ v) (f32_of_int 5) = Some (Inr True)"
    and "cmp_cond [float_col] (example_cond OP_EQ v) (f32_of_int 5) = Some (Inr False)"
proof -
  have i: "int32 5" by (simp add: int32_def)
  have t: "v_type (int_literal 5) = TYPE_INT" "v_raw (int_literal 5) = Some (enc_i32 5)" by (simp_all add: int_literal_def set_int_def)
  have "init_raw 4 (set_int 5 Value_default) = Inr (int_literal 5)"
    using i by (simp add: init_raw_def set_int_def Value_default_def int_literal_def int_val_def read_i32_def read_bytes_def dec_enc_i32)
  then show "check_clause float_db [''t''] [example_cond OP_EQ (set_int 5 Value_default)] = Some (Inr [example_cond OP_EQ v])"
    using t int_literal_val [OF i]
    by (simp add: check_clause_def check_cond_def check_column_def table_col_def get_table_def tab_get_col_def float_db_def
        example_cond_def float_col_def example_col_def is_numeric_type_def v_def)
  show r: "v_raw v = Some (enc_i32 5)" using t by (simp add: v_def set_float_def)
  have l: "length (f32_of_int 5) = 4" by (simp add: f32_of_int_def)
  have n: "\<not> f32_nan (f32_of_int 5)" by (rule f32_of_int_not_nan [OF i])
  have w: "v_type v = TYPE_FLOAT" "float_val v = f32_of_int 5" using l by (simp_all add: v_def set_float_def float_val_def read_bytes_def)
  show "eval_cond [float_col] (example_cond OP_EQ v) (f32_of_int 5) = Some (Inr True)"
    using l n r w by (simp add: eval_cond_def get_col_def example_cond_def float_col_def example_col_def rhs_operand_def raw_of_def
        is_numeric_type_def float_operand_def load_def read_bytes_def float_op_def f32_eq_def)
  have "log2 5 = 2" by (rule log2_unique) simp_all
  then have "f32_rank (f32_of_int 5) \<noteq> 5" using i by (simp add: f32_rank_of_int f32_mag_def)
  moreover have "le_nat (enc_i32 5) = 5" by (simp add: enc_i32_def le_nat_le_bytes)
  then have "f32_rank (enc_i32 5) = 5" by (simp add: f32_rank_def)
  ultimately show "cmp_cond [float_col] (example_cond OP_EQ v) (f32_of_int 5) = Some (Inr False)"
    using l r w by (simp add: cmp_cond_def get_col_def example_cond_def float_col_def example_col_def rhs_operand_def raw_of_def
        compare_col_def load_def read_bytes_def compare_three_way_def cmp_op_def f32_eq_def)
qed

text \<open>Comparing two string columns of different lengths reads past the shorter one, into the next column.\<close>

definition str_col :: "string \<Rightarrow> nat \<Rightarrow> nat \<Rightarrow> ColMeta" where
  "str_col n off len = (example_col n off)\<lparr>col_type := TYPE_STRING, col_len := len\<rparr>"

definition col_cond :: "CompOp \<Rightarrow> string \<Rightarrow> string \<Rightarrow> Condition" where
  "col_cond op a b = \<lparr>lhs_col = \<lparr>tc_tab_name = ''t'', tc_col_name = a\<rparr>, cond_op = op, is_rhs_val = False,
     rhs_col = \<lparr>tc_tab_name = ''t'', tc_col_name = b\<rparr>, rhs_val = Value_default\<rparr>"

lemma string_columns_overlap:
  "eval_cond [str_col ''a'' 0 2, str_col ''b'' 2 3] (col_cond OP_EQ ''a'' ''b'') [97, 98, 97, 98, 0] = Some (Inr False)"
  "value_eq (col_value (str_col ''a'' 0 2) [97, 98, 97, 98, 0]) (col_value (str_col ''b'' 2 3) [97, 98, 97, 98, 0])"
  by code_simp+

end
