(* ===== verification/Exec_Source.thy ===== *)
theory Exec_Source
  imports Exec_Cond Rm_Scan
begin

text \<open>
  The interface of the executors (\<^verbatim>\<open>AbstractExecutor\<close> in \<^verbatim>\<open>src/src/execution/executor_abstract.h\<close>): \<^verbatim>\<open>beginTuple\<close>, \<^verbatim>\<open>is_end\<close>,
  \<^verbatim>\<open>Next\<close> and \<^verbatim>\<open>nextTuple\<close>, as the locale \<open>row_source\<close>, and the loop of \<^verbatim>\<open>QlManager::select_from\<close> over it; and the
  sequential scan (\<^verbatim>\<open>executor_seq_scan.h\<close>) with the reading of a visible record (\<^verbatim>\<open>mvcc_executor_base.h\<close>), which is an
  interpretation of it.

  A call returns \<^term>\<open>None\<close> when it does not return within its fuel or when its behaviour is undefined.
\<close>

subsection \<open>Sources of rows\<close>

text \<open>The rows a loop over an executor gets, \<open>n\<close> at most.\<close>

fun drain :: "('s \<Rightarrow> bool) \<Rightarrow> ('s \<Rightarrow> 's checked) \<Rightarrow> ('s \<Rightarrow> 'r checked) \<Rightarrow> nat \<Rightarrow> 's \<Rightarrow> 'r list checked" where
  "drain is_end next_tuple get_next 0 s = None"
| "drain is_end next_tuple get_next (Suc n) s =
     (if is_end s then Some (Inr [])
      else chk (get_next s) (\<lambda>r. chk (next_tuple s) (\<lambda>s. chk (drain is_end next_tuple get_next n s) (\<lambda>rs. Some (Inr (r # rs))))))"

definition run_source ::
  "('q \<Rightarrow> 's checked) \<Rightarrow> ('s \<Rightarrow> bool) \<Rightarrow> ('s \<Rightarrow> 's checked) \<Rightarrow> ('s \<Rightarrow> 'r checked) \<Rightarrow> nat \<Rightarrow> 'q \<Rightarrow> 'r list checked" where
  "run_source begin_tuple is_end next_tuple get_next n q = chk (begin_tuple q) (\<lambda>s. drain is_end next_tuple get_next n s)"

locale row_source =
  fixes begin_tuple :: "'q \<Rightarrow> 's checked" and is_end :: "'s \<Rightarrow> bool" and next_tuple :: "'s \<Rightarrow> 's checked" and get_next :: "'s \<Rightarrow> 'r checked"
    and ready :: "'q \<Rightarrow> bool" and inv :: "'q \<Rightarrow> 's \<Rightarrow> bool" and rows :: "'q \<Rightarrow> 'r list" and rest :: "'s \<Rightarrow> 'r list"
  assumes begin_ok: "ready q \<Longrightarrow> \<exists>s. begin_tuple q = Some (Inr s) \<and> inv q s \<and> rest s = rows q"
    and end_iff: "inv q s \<Longrightarrow> is_end s \<longleftrightarrow> rest s = []"
    and get_ok: "inv q s \<Longrightarrow> rest s = r # rs \<Longrightarrow> get_next s = Some (Inr r)"
    and next_ok: "inv q s \<Longrightarrow> rest s = r # rs \<Longrightarrow> \<exists>s'. next_tuple s = Some (Inr s') \<and> inv q s' \<and> rest s' = rs"
begin

lemma drain_ok: "inv q s \<Longrightarrow> length (rest s) < n \<Longrightarrow> drain is_end next_tuple get_next n s = Some (Inr (rest s))"
proof (induction n arbitrary: s)
  case (Suc n)
  show ?case
  proof (cases "rest s")
    case Nil
    then show ?thesis using Suc.prems end_iff by simp
  next
    case (Cons r rs)
    obtain s' where "next_tuple s = Some (Inr s')" "inv q s'" "rest s' = rs" using next_ok [OF Suc.prems(1) Cons] by blast
    then show ?thesis using Suc Cons end_iff [OF Suc.prems(1)] get_ok [OF Suc.prems(1) Cons] by simp
  qed
qed simp

lemma run_ok: "ready q \<Longrightarrow> length (rows q) < n \<Longrightarrow> run_source begin_tuple is_end next_tuple get_next n q = Some (Inr (rows q))"
  using begin_ok [of q] drain_ok by (fastforce simp: run_source_def)

end

subsection \<open>Visible records\<close>

definition get_record_mvcc :: "txn_id option \<Rightarrow> Rid \<Rightarrow> rm_file \<Rightarrow> (rm_file, bytes option) outcome" where
  "get_record_mvcc tid rid f =
     (if (case tid of None \<Rightarrow> False | Some t \<Rightarrow> \<not> visit rid t f) then (Inr None, f)
      else case get_record rid f of (Inl e, f') \<Rightarrow> (Inl e, f') | (Inr r, f') \<Rightarrow> (Inr (Some r), f'))"

definition visible :: "txn_id option \<Rightarrow> rm_file \<Rightarrow> Rid \<Rightarrow> bool" where
  "visible tid f rid \<longleftrightarrow> (case tid of None \<Rightarrow> True | Some t \<Rightarrow> visit rid t f)"

lemma get_record_mvcc_ok:
  assumes "file_inv f" "room f" "file_records f rid = Some r"
  shows "get_record_mvcc tid rid f = (Inr (if visible tid f rid then Some r else None), f)"
proof -
  have "rid_in f rid" using assms(3) by (intro file_records_in) simp
  then have "get_record rid f = (Inr r, f)" using get_record_ok [OF assms(1,2)] assms(3) by simp
  then show ?thesis by (auto simp: get_record_mvcc_def visible_def split: option.split)
qed

subsection \<open>The sequential scan\<close>

text \<open>The columns of the output when a projection is pushed down: the first occurrence of each known column, with the
  offset it gets in the output record.\<close>

fun projection_loop :: "ColMeta list \<Rightarrow> string list \<Rightarrow> nat \<Rightarrow> TabCol list \<Rightarrow> (ColMeta \<times> ColMeta) list" where
  "projection_loop cols sn off [] = []"
| "projection_loop cols sn off (tc # tcs) =
     (if tc_col_name tc \<in> set sn then projection_loop cols sn off tcs
      else case List.find (\<lambda>c. col_name c = tc_col_name tc) cols of
             None \<Rightarrow> projection_loop cols (tc_col_name tc # sn) off tcs
           | Some c \<Rightarrow> (c, c\<lparr>col_offset := off\<rparr>) # projection_loop cols (tc_col_name tc # sn) (off + col_len c) tcs)"

definition build_projection :: "ColMeta list \<Rightarrow> TabCol list \<Rightarrow> (ColMeta \<times> ColMeta) list" where
  "build_projection cols tcs = projection_loop cols [] 0 tcs"

text \<open>The output record: the whole record, or the projected columns one after the other.\<close>

definition proj_len :: "(ColMeta \<times> ColMeta) list \<Rightarrow> nat" where
  "proj_len ps = sum_list (map (\<lambda>(c, _). col_len c) ps)"

definition project :: "(ColMeta \<times> ColMeta) list \<Rightarrow> bytes \<Rightarrow> bytes" where
  "project ps r =
     (if proj_len ps = 0 then r
      else fold (\<lambda>(c, d) buf. write_bytes (col_offset d) (read_bytes (col_offset c) (col_len c) r) buf) ps (replicate (proj_len ps) 0))"

text \<open>The parameters of a scan; \<open>sq_fuel\<close> bounds the cursor moves of one call.\<close>

record seq_scan =
  sq_cols :: "ColMeta list"
  sq_conds :: "Condition list"
  sq_proj :: "(ColMeta \<times> ColMeta) list"
  sq_tid :: "txn_id option"
  sq_fuel :: nat

type_synonym seq_state = "seq_scan \<times> Rid \<times> rm_file"

definition outcome_checked :: "('s, 'a) outcome \<Rightarrow> ('a \<times> 's) checked" where
  "outcome_checked x = (case x of (Inl e, s) \<Rightarrow> Some (Inl e) | (Inr a, s) \<Rightarrow> Some (Inr (a, s)))"

fun seq_seek :: "nat \<Rightarrow> seq_scan \<Rightarrow> Rid \<Rightarrow> rm_file \<Rightarrow> seq_state checked" where
  "seq_seek 0 q rid f = None"
| "seq_seek (Suc n) q rid f =
     (if scan_is_end rid \<or> sq_conds q = [] then Some (Inr (q, rid, f))
      else chk (outcome_checked (get_record_mvcc (sq_tid q) rid f)) (\<lambda>(r, f).
           chk (case r of None \<Rightarrow> Some (Inr False) | Some r \<Rightarrow> eval_conds (sq_cols q) (sq_conds q) r) (\<lambda>hit.
             if hit then Some (Inr (q, rid, f))
             else chk (outcome_checked (scan_next rid f)) (\<lambda>(rid, f). seq_seek n q rid f))))"

definition seq_begin :: "seq_scan \<times> rm_file \<Rightarrow> seq_state checked" where
  "seq_begin q = chk (outcome_checked (scan_begin (snd q))) (\<lambda>(rid, f). seq_seek (sq_fuel (fst q)) (fst q) rid f)"

definition seq_is_end :: "seq_state \<Rightarrow> bool" where
  "seq_is_end s = scan_is_end (fst (snd s))"

definition seq_next :: "seq_state \<Rightarrow> seq_state checked" where
  "seq_next s =
     (let (q, rid, f) = s
      in if scan_is_end rid then Some (Inr s)
         else chk (outcome_checked (scan_next rid f)) (\<lambda>(rid, f). seq_seek (sq_fuel q) q rid f))"

text \<open>\<^verbatim>\<open>Next\<close>: a null pointer at the end, and for a record that is not visible.\<close>

definition seq_get :: "seq_state \<Rightarrow> bytes option checked" where
  "seq_get s =
     (let (q, rid, f) = s
      in if scan_is_end rid then Some (Inr None)
         else chk (outcome_checked (get_record_mvcc (sq_tid q) rid f)) (\<lambda>(r, f). Some (Inr (map_option (project (sq_proj q)) r))))"

subsection \<open>What a sequential scan returns\<close>

definition seq_hit :: "seq_scan \<Rightarrow> rm_file \<Rightarrow> Rid \<Rightarrow> bool" where
  "seq_hit q f rid \<longleftrightarrow> sq_conds q = [] \<or>
     (\<exists>r. file_records f rid = Some r \<and> visible (sq_tid q) f rid \<and> eval_conds (sq_cols q) (sq_conds q) r = Some (Inr True))"

definition seq_row :: "seq_scan \<Rightarrow> rm_file \<Rightarrow> Rid \<Rightarrow> bytes option" where
  "seq_row q f rid = (if visible (sq_tid q) f rid then map_option (project (sq_proj q)) (file_records f rid) else None)"

text \<open>The conditions evaluate on every row.\<close>

definition seq_ready :: "seq_scan \<times> rm_file \<Rightarrow> bool" where
  "seq_ready x \<longleftrightarrow> (let (q, f) = x in file_inv f \<and> room f \<and> card (dom (file_records f)) < sq_fuel q \<and>
     (\<forall>r \<in> ran (file_records f). \<exists>b. eval_conds (sq_cols q) (sq_conds q) r = Some (Inr b)))"

definition seq_rids :: "seq_state \<Rightarrow> Rid list" where
  "seq_rids s = (let (q, rid, f) = s in case scan_loop (sq_fuel q) rid f of None \<Rightarrow> [] | Some rs \<Rightarrow> rs)"

definition seq_rest :: "seq_state \<Rightarrow> bytes option list" where
  "seq_rest s = (let (q, rid, f) = s in map (seq_row q f) (filter (seq_hit q f) (seq_rids s)))"

definition seq_rows :: "seq_scan \<times> rm_file \<Rightarrow> bytes option list" where
  "seq_rows x = (let (q, f) = x in map (seq_row q f) (filter (seq_hit q f) (case scan_all (sq_fuel q) f of None \<Rightarrow> [] | Some rs \<Rightarrow> rs)))"

definition seq_inv :: "seq_scan \<times> rm_file \<Rightarrow> seq_state \<Rightarrow> bool" where
  "seq_inv x s \<longleftrightarrow> (let (q, rid, f) = s in x = (q, f) \<and> seq_ready x \<and> scan_loop (sq_fuel q) rid f \<noteq> None \<and>
     (scan_is_end rid \<or> rid \<in> dom (file_records f) \<and> seq_hit q f rid))"

lemma outcome_checked_simps [simp]:
  "outcome_checked (Inl e, s) = Some (Inl e)" "outcome_checked (Inr a, s) = Some (Inr (a, s))"
  by (simp_all add: outcome_checked_def)

lemma scan_loop_mono: "scan_loop n rid f = Some rs \<Longrightarrow> n \<le> m \<Longrightarrow> scan_loop m rid f = Some rs"
proof (induction n arbitrary: m rid f rs)
  case (Suc n)
  then obtain k where m: "m = Suc k" "n \<le> k" by (cases m) auto
  show ?case using Suc.prems(1) Suc.IH [OF _ m(2)] unfolding m(1)
    by (auto split: if_splits prod.splits sum.splits)
qed simp

text \<open>A cursor on a record moves to the next record or to the end, and leaves the file alone.\<close>

lemma scan_next_record:
  assumes "file_inv f" "room f" "rid \<in> dom (file_records f)"
  obtains rid' where "scan_next rid f = (Inr rid', f)" "scan_is_end rid' \<or> rid' \<in> dom (file_records f)"
proof -
  have "rid_in f rid" using assms(3) by (intro file_records_in) auto
  then have "1 \<le> rid_page_no rid" "-1 \<le> rid_slot_no rid" using assms(3)
    by (auto simp: rid_in_def data_page_def file_records_def page_records_def split: if_splits option.splits)
  then show ?thesis by (rule scan_next_ok [OF assms(1,2)]) (use that in auto)
qed

lemma seq_seek_ok:
  assumes "file_inv f" "room f" "\<forall>r \<in> ran (file_records f). \<exists>b. eval_conds (sq_cols q) (sq_conds q) r = Some (Inr b)"
    and "scan_loop n rid f = Some rs" "scan_is_end rid \<or> rid \<in> dom (file_records f)"
  shows "\<exists>rid'. seq_seek n q rid f = Some (Inr (q, rid', f)) \<and> scan_loop n rid' f = Some (dropWhile (\<lambda>r. \<not> seq_hit q f r) rs) \<and>
    (scan_is_end rid' \<or> rid' \<in> dom (file_records f) \<and> seq_hit q f rid')"
  using assms(4,5)
proof (induction n arbitrary: rid rs)
  case (Suc n)
  show ?case
  proof (cases "scan_is_end rid")
    case True
    then show ?thesis using Suc.prems(1) by simp
  next
    case False
    then obtain r where r: "file_records f rid = Some r" using Suc.prems(2) by auto
    obtain rid2 where nx: "scan_next rid f = (Inr rid2, f)" "scan_is_end rid2 \<or> rid2 \<in> dom (file_records f)"
      using scan_next_record [OF assms(1,2)] r by blast
    obtain rs2 where rs: "rs = rid # rs2" "scan_loop n rid2 f = Some rs2" using Suc.prems(1) False nx by auto
    obtain b where b: "eval_conds (sq_cols q) (sq_conds q) r = Some (Inr b)" using assms(3) r by (meson ranI)
    note g = get_record_mvcc_ok [OF assms(1,2) r, of "sq_tid q"]
    show ?thesis
    proof (cases "seq_hit q f rid")
      case True
      then have "seq_seek (Suc n) q rid f = Some (Inr (q, rid, f))" using False g b r by (auto simp: seq_hit_def)
      then show ?thesis using True Suc.prems(1) r rs(1) by auto
    next
      case F: False
      then have "seq_seek (Suc n) q rid f = seq_seek n q rid2 f" using False g b r nx(1) by (auto simp: seq_hit_def)
      then show ?thesis using Suc.IH [OF rs(2) nx(2)] F rs(1) scan_loop_mono [of n _ f _ "Suc n"] by fastforce
    qed
  qed
qed simp

lemma filter_dropWhile: "filter P (dropWhile (\<lambda>x. \<not> P x) xs) = filter P xs"
  by (induction xs) auto

lemma seq_rest_at:
  "scan_loop (sq_fuel q) rid f = Some rs \<Longrightarrow> seq_rest (q, rid, f) = map (seq_row q f) (filter (seq_hit q f) rs)"
  by (simp add: seq_rest_def seq_rids_def)

lemma seq_advance:
  assumes "seq_ready (q, f)" "scan_loop (sq_fuel q) rid f = Some rs" "scan_is_end rid \<or> rid \<in> dom (file_records f)"
  shows "\<exists>s. seq_seek (sq_fuel q) q rid f = Some (Inr s) \<and> seq_inv (q, f) s \<and> seq_rest s = map (seq_row q f) (filter (seq_hit q f) rs)"
proof -
  have "file_inv f" "room f" "\<forall>r \<in> ran (file_records f). \<exists>b. eval_conds (sq_cols q) (sq_conds q) r = Some (Inr b)"
    using assms(1) by (auto simp: seq_ready_def)
  from seq_seek_ok [OF this assms(2,3)] obtain rid' where
    "seq_seek (sq_fuel q) q rid f = Some (Inr (q, rid', f))" "scan_loop (sq_fuel q) rid' f = Some (dropWhile (\<lambda>r. \<not> seq_hit q f r) rs)"
    "scan_is_end rid' \<or> rid' \<in> dom (file_records f) \<and> seq_hit q f rid'" by blast
  then show ?thesis using assms(1) by (auto simp: seq_inv_def seq_rest_at filter_dropWhile)
qed

lemma seq_begin_ok:
  assumes "seq_ready x"
  shows "\<exists>s. seq_begin x = Some (Inr s) \<and> seq_inv x s \<and> seq_rest s = seq_rows x"
proof -
  obtain q f where x: "x = (q, f)" by (cases x)
  have inv: "file_inv f" "room f" "card (dom (file_records f)) < sq_fuel q" using assms by (auto simp: seq_ready_def x)
  let ?cur = "\<lparr>rid_page_no = RM_FIRST_RECORD_PAGE, rid_slot_no = RM_NO_PAGE\<rparr>"
  obtain rid where b: "scan_begin f = (Inr rid, f)" "scan_is_end rid \<or> rid \<in> dom (file_records f)"
    unfolding scan_begin_def by (rule scan_next_ok [OF inv(1,2), of ?cur]) (auto simp: RM_FIRST_RECORD_PAGE_def RM_NO_PAGE_def)
  obtain rs where rs: "scan_all (sq_fuel q) f = Some rs" using scan_all_ok [OF inv] by blast
  then have "scan_loop (sq_fuel q) rid f = Some rs" using b(1) by (simp add: scan_all_def)
  from seq_advance [OF _ this b(2)] assms show ?thesis using b(1) rs by (auto simp: seq_begin_def x seq_rows_def)
qed

lemma seq_inv_cases:
  assumes "seq_inv x s" "seq_rest s = r # rs"
  obtains q rid f rec rids where "x = (q, f)" "s = (q, rid, f)" "seq_ready (q, f)" "scan_loop (sq_fuel q) rid f = Some (rid # rids)" "\<not> scan_is_end rid"
    "file_records f rid = Some rec" "seq_hit q f rid" "r = seq_row q f rid" "rs = map (seq_row q f) (filter (seq_hit q f) rids)"
proof -
  obtain q rid f where s: "s = (q, rid, f)" by (cases s)
  obtain l where l: "scan_loop (sq_fuel q) rid f = Some l" "x = (q, f)" "seq_ready x" "scan_is_end rid \<or> rid \<in> dom (file_records f) \<and> seq_hit q f rid"
    using assms(1) by (auto simp: seq_inv_def s)
  have ne: "\<not> scan_is_end rid"
  proof
    assume "scan_is_end rid"
    then have "l = []" using l(1) by (cases "sq_fuel q") auto
    then show False using assms(2) l(1) by (simp add: s seq_rest_at)
  qed
  then obtain rids where "l = rid # rids" using l(1) by (cases "sq_fuel q") (auto split: prod.splits sum.splits)
  then show ?thesis using that l assms(2) ne by (auto simp: s seq_rest_at)
qed

lemma seq_next_ok:
  assumes "seq_inv x s" "seq_rest s = r # rs"
  shows "\<exists>s'. seq_next s = Some (Inr s') \<and> seq_inv x s' \<and> seq_rest s' = rs"
proof -
  obtain q rid f rec rids where k: "x = (q, f)" "s = (q, rid, f)" "seq_ready (q, f)" "scan_loop (sq_fuel q) rid f = Some (rid # rids)" "\<not> scan_is_end rid"
    "file_records f rid = Some rec" "seq_hit q f rid" "r = seq_row q f rid" "rs = map (seq_row q f) (filter (seq_hit q f) rids)"
    by (rule seq_inv_cases [OF assms])
  have inv: "file_inv f" "room f" using k(3) by (auto simp: seq_ready_def)
  obtain rid2 where nx: "scan_next rid f = (Inr rid2, f)" "scan_is_end rid2 \<or> rid2 \<in> dom (file_records f)"
    by (rule scan_next_record [OF inv, of rid]) (use k(6) in auto)
  obtain m where m: "sq_fuel q = Suc m" using k(4) by (cases "sq_fuel q") auto
  then have "scan_loop m rid2 f = Some rids" using k(4,5) nx(1) by auto
  then have "scan_loop (sq_fuel q) rid2 f = Some rids" by (rule scan_loop_mono) (simp add: m)
  from seq_advance [OF k(3) this nx(2)] show ?thesis using k nx(1) by (auto simp: seq_next_def)
qed

interpretation seq_source: row_source seq_begin seq_is_end seq_next seq_get seq_ready seq_inv seq_rows seq_rest
proof unfold_locales
  show "\<exists>s. seq_begin x = Some (Inr s) \<and> seq_inv x s \<and> seq_rest s = seq_rows x" if "seq_ready x" for x
    using that by (rule seq_begin_ok)
  show "seq_is_end s \<longleftrightarrow> seq_rest s = []" if i: "seq_inv x s" for x s
  proof (cases "seq_rest s")
    case Nil
    then show ?thesis using i unfolding seq_inv_def seq_is_end_def
      by (cases s; cases "sq_fuel (fst s)") (auto simp: seq_rest_at split: if_splits prod.splits sum.splits)
  next
    case (Cons r rs)
    then show ?thesis by (rule seq_inv_cases [OF i]) (auto simp: seq_is_end_def seq_rest_at)
  qed
  show "seq_get s = Some (Inr r)" if i: "seq_inv x s" "seq_rest s = r # rs" for x s r rs
  proof -
    obtain q rid f rec rids where k: "s = (q, rid, f)" "seq_ready (q, f)" "\<not> scan_is_end rid" "file_records f rid = Some rec" "r = seq_row q f rid"
      by (rule seq_inv_cases [OF i])
    then have "get_record_mvcc (sq_tid q) rid f = (Inr (if visible (sq_tid q) f rid then Some rec else None), f)"
      by (intro get_record_mvcc_ok) (auto simp: seq_ready_def)
    then show ?thesis using k by (simp add: seq_get_def seq_row_def)
  qed
  show "\<exists>s'. seq_next s = Some (Inr s') \<and> seq_inv x s' \<and> seq_rest s' = rs" if "seq_inv x s" "seq_rest s = r # rs" for x s r rs
    using that by (rule seq_next_ok)
qed

lemma seq_scan_run:
  assumes "file_inv f" "room f" "card (dom (file_records f)) < sq_fuel q" "card (dom (file_records f)) < n"
    and "\<forall>r \<in> ran (file_records f). \<exists>b. eval_conds (sq_cols q) (sq_conds q) r = Some (Inr b)"
  shows "\<exists>rids. set rids = dom (file_records f) \<and> sorted_wrt rid_before rids \<and>
    run_source seq_begin seq_is_end seq_next seq_get n (q, f) = Some (Inr (map (seq_row q f) (filter (seq_hit q f) rids)))"
proof -
  obtain rids where r: "scan_all (sq_fuel q) f = Some rids" "set rids = dom (file_records f)" "sorted_wrt rid_before rids"
    using scan_all_ok [OF assms(1-3)] by blast
  have rows: "seq_rows (q, f) = map (seq_row q f) (filter (seq_hit q f) rids)" using r(1) by (simp add: seq_rows_def)
  have "distinct rids" using r(3) by (induction rids) auto
  then have "length rids < n" using distinct_card [of rids] r(2) assms(4) by simp
  then have "length (seq_rows (q, f)) < n" unfolding rows length_map by (rule le_less_trans [OF length_filter_le])
  then show ?thesis using seq_source.run_ok [of "(q, f)" n] assms r rows by (auto simp: seq_ready_def)
qed

text \<open>C16: a sequential scan with a where clause returns, in page and slot order, exactly the records of the file that are
  visible to the transaction and satisfy the conditions, each projected on the columns asked for, and no null row.\<close>

theorem seq_scan_returns_matching:
  assumes "file_inv f" "room f" "card (dom (file_records f)) < sq_fuel q" "card (dom (file_records f)) < n"
    and "\<forall>r \<in> ran (file_records f). \<exists>b. eval_conds (sq_cols q) (sq_conds q) r = Some (Inr b)" and "sq_conds q \<noteq> []"
  shows "\<exists>rids. set rids = dom (file_records f) \<and> sorted_wrt rid_before rids \<and>
    run_source seq_begin seq_is_end seq_next seq_get n (q, f) = Some (Inr (map (\<lambda>rid. map_option (project (sq_proj q)) (file_records f rid))
      (filter (\<lambda>rid. visible (sq_tid q) f rid \<and> (\<exists>r. file_records f rid = Some r \<and> eval_conds (sq_cols q) (sq_conds q) r = Some (Inr True))) rids)))"
proof -
  obtain rids where r: "set rids = dom (file_records f)" "sorted_wrt rid_before rids"
    "run_source seq_begin seq_is_end seq_next seq_get n (q, f) = Some (Inr (map (seq_row q f) (filter (seq_hit q f) rids)))"
    using seq_scan_run [OF assms(1-5)] by blast
  let ?hit = "\<lambda>rid. visible (sq_tid q) f rid \<and> (\<exists>r. file_records f rid = Some r \<and> eval_conds (sq_cols q) (sq_conds q) r = Some (Inr True))"
  have "filter (seq_hit q f) rids = filter ?hit rids" using assms(6) by (intro filter_cong) (auto simp: seq_hit_def)
  moreover have "map (seq_row q f) (filter ?hit rids) = map (\<lambda>rid. map_option (project (sq_proj q)) (file_records f rid)) (filter ?hit rids)"
    by (intro map_cong) (auto simp: seq_row_def)
  ultimately show ?thesis using r(1,2) r(3) by (intro exI [of _ rids]) simp
qed

text \<open>Without conditions a scan does not look at the visibility before \<^verbatim>\<open>Next\<close>: a row another transaction has inserted and not
  committed makes \<^verbatim>\<open>Next\<close> return a null pointer in the middle of the scan, which \<^verbatim>\<open>select_from\<close> dereferences.\<close>

lemma unconditional_scan_null:
  assumes "file_inv f" "room f" "card (dom (file_records f)) < sq_fuel q" "card (dom (file_records f)) < n" "sq_conds q = []"
    and "rid \<in> dom (file_records f)" "sq_tid q = Some t" "\<not> visit rid t f"
  shows "\<exists>rows. run_source seq_begin seq_is_end seq_next seq_get n (q, f) = Some (Inr rows) \<and> None \<in> set rows"
proof -
  have "\<forall>r \<in> ran (file_records f). \<exists>b. eval_conds (sq_cols q) (sq_conds q) r = Some (Inr b)" using assms(5) by (auto simp: eval_conds_def)
  from seq_scan_run [OF assms(1-4) this] obtain rids where r: "set rids = dom (file_records f)"
    "run_source seq_begin seq_is_end seq_next seq_get n (q, f) = Some (Inr (map (seq_row q f) (filter (seq_hit q f) rids)))" by blast
  have "seq_row q f rid = None" using assms(7,8) by (simp add: seq_row_def visible_def)
  moreover have "rid \<in> set (filter (seq_hit q f) rids)" using r(1) assms(5,6) by (simp add: seq_hit_def)
  ultimately have "None \<in> set (map (seq_row q f) (filter (seq_hit q f) rids))" by (metis image_eqI list.set_map)
  then show ?thesis using r(2) by blast
qed

text \<open>A file with one record.\<close>

lemma one_row_file:
  obtains rid f where "insert_record (enc_i32 7) None (example_file 4) = (Inr rid, f)" "file_inv f" "room f" "file_records f = [rid \<mapsto> enc_i32 7]"
proof -
  have ok: "file_inv (example_file 4)" "room (example_file 4)" "num_pages (rf_hdr (example_file 4)) + 1 < 2 ^ 31"
    "length (enc_i32 7) = record_size (rf_hdr (example_file 4))"
    using example_file_ok [of 4] by (simp_all add: file_ok_def file_space_def RM_MAX_RECORD_SIZE_def)
  have e: "file_records (example_file 4) = Map.empty"
    by (auto simp: file_records_def data_page_def example_file_def file_hdr_new_def Let_def fun_eq_iff)
  obtain rid f where f: "insert_record (enc_i32 7) None (example_file 4) = (Inr rid, f)" "file_inv f" "same_pool (example_file 4) f"
    "file_records f = (file_records (example_file 4))(rid \<mapsto> enc_i32 7)"
    using insert_record_ok [OF ok, of None] by metis
  have "room f" using f(3) ok(2) by (auto dest: same_pool_room)
  then show ?thesis using that f e by simp
qed

lemma example_eval: "eval_conds [example_col ''a'' 0] [example_cond OP_GT (int_literal 3)] (enc_i32 7) = Some (Inr True)"
proof -
  let ?c = "example_col ''a'' 0" and ?k = "example_cond OP_GT (int_literal 3)"
  have i: "int32 7" "int32 3" "f32_exact 7" "f32_exact 3" by (simp_all add: int32_def f32_exact_def)
  have c: "col_type ?c = TYPE_INT" "col_len ?c = 4" "col_fits ?c (enc_i32 7)" by (simp_all add: example_col_def col_fits_def)
  note lit = int_literal_ok [OF i(2) c(1,2)] and vals = int_literal_val [OF i(2)] example_col_int [OF i(1)]
  have nn: "no_nan (col_value ?c (enc_i32 7))" "no_nan (int_literal 3)" by (simp_all add: no_nan_def c(1) int_literal_def set_int_def)
  have k: "is_rhs_val ?k" "rhs_val ?k = int_literal 3" "cond_op ?k = OP_GT" "get_col [?c] (lhs_col ?k) = Inr ?c"
    by (simp_all add: example_cond_def get_col_def example_col_def)
  have "v_type (int_literal 3) = TYPE_INT" by (simp add: int_literal_def set_int_def)
  then have "value_op OP_GT (col_value ?c (enc_i32 7)) (int_literal 3)" unfolding value_op_rank [OF nn] using c(1) vals by (simp add: value_rank_def)
  then have "eval_cond [?c] ?k (enc_i32 7) = Some (Inr True)"
    using eval_cond_value [OF k(4,1) _ c(3), unfolded k(2,3), OF lit nn] vals i by simp
  then show ?thesis by (simp add: eval_conds_def)
qed

theorem seq_scan_returns_matching_witness:
  "\<exists>rid f. insert_record (enc_i32 7) None (example_file 4) = (Inr rid, f) \<and>
     run_source seq_begin seq_is_end seq_next seq_get 2
       (\<lparr>sq_cols = [example_col ''a'' 0], sq_conds = [example_cond OP_GT (int_literal 3)], sq_proj = [], sq_tid = None, sq_fuel = 2\<rparr>, f) =
     Some (Inr [Some (enc_i32 7)])"
proof -
  obtain rid f where f: "insert_record (enc_i32 7) None (example_file 4) = (Inr rid, f)" "file_inv f" "room f" "file_records f = [rid \<mapsto> enc_i32 7]"
    by (rule one_row_file)
  let ?q = "\<lparr>sq_cols = [example_col ''a'' 0], sq_conds = [example_cond OP_GT (int_literal 3)], sq_proj = [], sq_tid = None, sq_fuel = 2\<rparr>"
  have "\<forall>r \<in> ran (file_records f). \<exists>b. eval_conds (sq_cols ?q) (sq_conds ?q) r = Some (Inr b)" using example_eval f(4) by auto
  from seq_scan_returns_matching [OF f(2,3) _ _ this, of 2] f(4) obtain rids where r: "set rids = {rid}" "sorted_wrt rid_before rids"
    "run_source seq_begin seq_is_end seq_next seq_get 2 (?q, f) = Some (Inr (map (\<lambda>x. map_option (project (sq_proj ?q)) (file_records f x))
      (filter (\<lambda>x. visible (sq_tid ?q) f x \<and> (\<exists>r. file_records f x = Some r \<and> eval_conds (sq_cols ?q) (sq_conds ?q) r = Some (Inr True))) rids)))"
    by auto
  have "rids = [rid]"
  proof (cases rids)
    case (Cons a as)
    then show ?thesis using r(1,2) by (cases as) auto
  qed (use r(1) in simp)
  then have "run_source seq_begin seq_is_end seq_next seq_get 2 (?q, f) = Some (Inr [Some (enc_i32 7)])"
    using r(3) f(4) example_eval by (simp add: visible_def project_def proj_len_def)
  then show ?thesis using f(1) by blast
qed

end
