(* ===== verification/Ix_Node.thy ===== *)
theory Ix_Node
  imports Ix_Defs
begin

text \<open>
  One node of the B+ tree (\<^verbatim>\<open>IxNodeHandle\<close> in \<^verbatim>\<open>src/src/index/ix_index_handle.h\<close> and
  \<^verbatim>\<open>ix_index_handle.cpp\<close>). The two arrays of a page, its keys and its record ids, are one list of entries here, of
  length \<^verbatim>\<open>num_key\<close>. In an internal node the record id of an entry
  has the page number of a child.

  The binary searches are shown equal to a linear search of a sorted node.
\<close>

subsection \<open>Model\<close>

type_synonym entry = "bytes \<times> Rid"

record ix_node =
  nd_parent :: int
  nd_leaf :: bool
  nd_prev :: int
  nd_next :: int
  nd_entries :: "entry list"

datatype Operation = FIND | INSERT_OP | DELETE_OP

definition Compare :: "IxFileHdr \<Rightarrow> bytes \<Rightarrow> bytes \<Rightarrow> int" where
  "Compare h a b = ix_compare (ixh_col_types h) (ixh_col_lens h) a b"

definition num_key :: "ix_node \<Rightarrow> nat" where
  "num_key nd = length (nd_entries nd)"

definition get_max_size :: "IxFileHdr \<Rightarrow> nat" where
  "get_max_size h = ixh_btree_order h + 1"

definition get_min_size :: "IxFileHdr \<Rightarrow> nat" where
  "get_min_size h = get_max_size h div 2"

definition is_root_page :: "ix_node \<Rightarrow> bool" where
  "is_root_page nd \<longleftrightarrow> nd_parent nd = IX_NO_PAGE"

definition isSafe :: "IxFileHdr \<Rightarrow> Operation \<Rightarrow> ix_node \<Rightarrow> bool" where
  "isSafe h oper nd =
     (let min_size = (if \<not> is_root_page nd then get_min_size h else 2)
      in case oper of
           INSERT_OP \<Rightarrow> num_key nd + 1 < get_max_size h
         | DELETE_OP \<Rightarrow> num_key nd > min_size
         | FIND \<Rightarrow> True)"

definition isFull :: "IxFileHdr \<Rightarrow> ix_node \<Rightarrow> bool" where
  "isFull h nd \<longleftrightarrow> num_key nd = get_max_size h"

definition get_key :: "ix_node \<Rightarrow> nat \<Rightarrow> bytes" where
  "get_key nd i = fst (nd_entries nd ! i)"

definition ix_get_rid :: "ix_node \<Rightarrow> nat \<Rightarrow> Rid" where
  "ix_get_rid nd i = snd (nd_entries nd ! i)"

definition value_at :: "ix_node \<Rightarrow> nat \<Rightarrow> int" where
  "value_at nd i = rid_page_no (ix_get_rid nd i)"

definition set_key :: "nat \<Rightarrow> bytes \<Rightarrow> ix_node \<Rightarrow> ix_node" where
  "set_key i key nd = nd\<lparr>nd_entries := (nd_entries nd)[i := (key, ix_get_rid nd i)]\<rparr>"

text \<open>The loop of both searches: \<open>stop\<close> is the test on the middle element that moves the right end.\<close>

function search_loop :: "(nat \<Rightarrow> bool) \<Rightarrow> nat \<Rightarrow> nat \<Rightarrow> nat" where
  "search_loop stop l r =
     (if l < r then
        (let mid = (l + r) div 2 in if stop mid then search_loop stop l mid else search_loop stop (mid + 1) r)
      else l)"
  by auto
termination
  by (relation "measure (\<lambda>(_, l, r). r - l)") (auto simp: Let_def)

declare search_loop.simps [simp del]

definition lower_bound :: "IxFileHdr \<Rightarrow> bytes \<Rightarrow> ix_node \<Rightarrow> nat" where
  "lower_bound h target nd = search_loop (\<lambda>mid. Compare h target (get_key nd mid) \<le> 0) 0 (num_key nd)"

definition upper_bound :: "IxFileHdr \<Rightarrow> bytes \<Rightarrow> ix_node \<Rightarrow> nat" where
  "upper_bound h target nd = search_loop (\<lambda>mid. Compare h target (get_key nd mid) < 0) 0 (num_key nd)"

definition leaf_lookup :: "IxFileHdr \<Rightarrow> bytes \<Rightarrow> ix_node \<Rightarrow> Rid option" where
  "leaf_lookup h key nd =
     (let pos = lower_bound h key nd
      in if pos = num_key nd \<or> Compare h key (get_key nd pos) \<noteq> 0 then None else Some (ix_get_rid nd pos))"

definition internal_lookup :: "IxFileHdr \<Rightarrow> bytes \<Rightarrow> ix_node \<Rightarrow> int" where
  "internal_lookup h key nd =
     (let pos = upper_bound h key nd in if pos = 0 then value_at nd 0 else value_at nd (pos - 1))"

definition insert_pairs :: "nat \<Rightarrow> entry list \<Rightarrow> ix_node \<Rightarrow> db_error + ix_node" where
  "insert_pairs pos es nd =
     (if pos > num_key nd then Inl IndexEntryNotFoundError
      else Inr (nd\<lparr>nd_entries := take pos (nd_entries nd) @ es @ drop pos (nd_entries nd)\<rparr>))"

definition insert_pair :: "nat \<Rightarrow> bytes \<Rightarrow> Rid \<Rightarrow> ix_node \<Rightarrow> db_error + ix_node" where
  "insert_pair pos key rid nd = insert_pairs pos [(key, rid)] nd"

text \<open>\<open>node_insert\<close> and \<open>node_remove\<close> (\<^verbatim>\<open>insert\<close> and \<^verbatim>\<open>remove\<close> of the class) return the number of keys and the position;
  the position of a key that was there already is -1.\<close>

definition node_insert :: "IxFileHdr \<Rightarrow> bytes \<Rightarrow> Rid \<Rightarrow> ix_node \<Rightarrow> db_error + ix_node \<times> nat \<times> int" where
  "node_insert h key v nd =
     (let pos = lower_bound h key nd
      in if pos < num_key nd \<and> Compare h key (get_key nd pos) = 0 then Inr (nd, num_key nd, -1)
         else case insert_pair pos key v nd of
                Inl e \<Rightarrow> Inl e
              | Inr nd' \<Rightarrow> Inr (nd', num_key nd', int pos))"

definition erase_pair :: "nat \<Rightarrow> ix_node \<Rightarrow> db_error + ix_node" where
  "erase_pair pos nd =
     (if pos \<ge> num_key nd then Inl IndexEntryNotFoundError
      else Inr (nd\<lparr>nd_entries := take pos (nd_entries nd) @ drop (pos + 1) (nd_entries nd)\<rparr>))"

definition node_remove :: "IxFileHdr \<Rightarrow> bytes \<Rightarrow> ix_node \<Rightarrow> db_error + ix_node \<times> nat \<times> nat" where
  "node_remove h key nd =
     (let pos = lower_bound h key nd
      in if pos < num_key nd \<and> Compare h key (get_key nd pos) = 0
         then (case erase_pair pos nd of Inl e \<Rightarrow> Inl e | Inr nd' \<Rightarrow> Inr (nd', num_key nd', pos))
         else Inr (nd, num_key nd, pos))"

definition remove_and_return_only_child :: "ix_node \<Rightarrow> db_error + ix_node \<times> int" where
  "remove_and_return_only_child nd =
     (if num_key nd \<noteq> 1 then Inl AssertionFailure
      else case erase_pair 0 nd of Inl e \<Rightarrow> Inl e | Inr nd' \<Rightarrow> Inr (nd', value_at nd 0))"

fun child_index :: "int \<Rightarrow> entry list \<Rightarrow> nat" where
  "child_index c [] = 0"
| "child_index c (e # es) = (if rid_page_no (snd e) = c then 0 else Suc (child_index c es))"

definition find_child :: "int \<Rightarrow> ix_node \<Rightarrow> db_error + nat" where
  "find_child c nd =
     (let rid_idx = child_index c (nd_entries nd) in if rid_idx < num_key nd then Inr rid_idx else Inl AssertionFailure)"

subsection \<open>Binary search is linear search\<close>

lemma search_loop_partition:
  assumes "\<And>i j. i \<le> j \<Longrightarrow> j < n \<Longrightarrow> stop i \<Longrightarrow> stop j"
    and "l \<le> r" "r \<le> n" "\<forall>i < l. \<not> stop i" "\<forall>i. r \<le> i \<longrightarrow> i < n \<longrightarrow> stop i"
  shows "search_loop stop l r \<le> n \<and> (\<forall>i < search_loop stop l r. \<not> stop i) \<and>
    (\<forall>i. search_loop stop l r \<le> i \<longrightarrow> i < n \<longrightarrow> stop i)"
  using assms(2-5)
proof (induction "r - l" arbitrary: l r rule: less_induct)
  case less
  let ?mid = "(l + r) div 2"
  show ?case
  proof (cases "l < r")
    case True
    then have m: "l \<le> ?mid" "?mid < r" by simp_all
    show ?thesis
    proof (cases "stop ?mid")
      case t: True
      have step: "search_loop stop l r = search_loop stop l ?mid"
        using True t by (subst search_loop.simps) (simp add: Let_def)
      show ?thesis unfolding step
      proof (rule less.hyps)
        show "?mid - l < r - l" "?mid \<le> n" using m less.prems(2) by simp_all
        show "\<forall>i. ?mid \<le> i \<longrightarrow> i < n \<longrightarrow> stop i" using assms(1) t by blast
      qed (use m less.prems(3) in blast)+
    next
      case f: False
      have step: "search_loop stop l r = search_loop stop (?mid + 1) r"
        using True f by (subst search_loop.simps) (simp add: Let_def)
      show ?thesis unfolding step
      proof (rule less.hyps)
        show "r - (?mid + 1) < r - l" "?mid + 1 \<le> r" using m by simp_all
        show "\<forall>i < ?mid + 1. \<not> stop i" using assms(1) f m(2) less.prems(2) by (metis Suc_eq_plus1 less_Suc_eq_le less_le_trans)
      qed (use less.prems(2,4) in blast)+
    qed
  next
    case False
    then have "search_loop stop l r = r" using less.prems(1) by (subst search_loop.simps) simp
    then show ?thesis using less.prems False by auto
  qed
qed

lemma search_loop_takeWhile:
  assumes "\<And>i j. i \<le> j \<Longrightarrow> j < length xs \<Longrightarrow> P (xs ! j) \<Longrightarrow> P (xs ! i)"
  shows "search_loop (\<lambda>i. \<not> P (xs ! i)) 0 (length xs) = length (takeWhile P xs)"
proof -
  let ?r = "search_loop (\<lambda>i. \<not> P (xs ! i)) 0 (length xs)"
  have "?r \<le> length xs \<and> (\<forall>i < ?r. \<not> \<not> P (xs ! i)) \<and> (\<forall>i. ?r \<le> i \<longrightarrow> i < length xs \<longrightarrow> \<not> P (xs ! i))"
    by (rule search_loop_partition) (use assms in blast, simp_all)
  then have r: "?r \<le> length xs" "\<And>i. i < ?r \<Longrightarrow> P (xs ! i)" "\<And>i. ?r \<le> i \<Longrightarrow> i < length xs \<Longrightarrow> \<not> P (xs ! i)"
    by blast+
  have "takeWhile P xs = take ?r xs"
  proof (rule takeWhile_eq_take_P_nth)
    show "\<And>i. i < ?r \<Longrightarrow> i < length xs \<Longrightarrow> P (xs ! i)" using r(2) by blast
    show "?r < length xs \<Longrightarrow> \<not> P (xs ! ?r)" using r(3) by blast
  qed
  then show ?thesis using r(1) by simp
qed

subsection \<open>Nodes with sorted keys\<close>

abbreviation rank_of :: "IxFileHdr \<Rightarrow> bytes \<Rightarrow> int list" where
  "rank_of h k \<equiv> key_rank (ixh_col_types h) (ixh_col_lens h) k"

abbreviation good_key :: "IxFileHdr \<Rightarrow> bytes \<Rightarrow> bool" where
  "good_key h k \<equiv> key_ok (ixh_col_types h) (ixh_col_lens h) k"

definition good_entries :: "IxFileHdr \<Rightarrow> entry list \<Rightarrow> bool" where
  "good_entries h es \<longleftrightarrow> sorted_wrt (<) (map (\<lambda>e. rank_of h (fst e)) es) \<and> (\<forall>e \<in> set es. good_key h (fst e))"

lemma good_entries_append [simp]:
  "good_entries h (xs @ ys) \<longleftrightarrow> good_entries h xs \<and> good_entries h ys \<and>
     (\<forall>x \<in> set xs. \<forall>y \<in> set ys. rank_of h (fst x) < rank_of h (fst y))"
  by (auto simp: good_entries_def sorted_wrt_append)

lemma good_entries_Nil [simp]: "good_entries h []"
  by (simp add: good_entries_def)

lemma good_entries_Cons [simp]:
  "good_entries h (x # xs) \<longleftrightarrow> good_key h (fst x) \<and> good_entries h xs \<and> (\<forall>y \<in> set xs. rank_of h (fst x) < rank_of h (fst y))"
  by (auto simp: good_entries_def)

lemma good_entries_nth:
  assumes "good_entries h es" "i \<le> j" "j < length es"
  shows "rank_of h (fst (es ! i)) \<le> rank_of h (fst (es ! j))"
proof (cases "i = j")
  case False
  then show ?thesis
    using assms sorted_wrt_nth_less [of "(<)" "map (\<lambda>e. rank_of h (fst e)) es" i j] by (force simp: good_entries_def)
qed simp

lemma compare_rank:
  assumes "good_key h a" "good_key h b"
  shows "Compare h a b < 0 \<longleftrightarrow> rank_of h a < rank_of h b" "Compare h a b \<le> 0 \<longleftrightarrow> rank_of h a \<le> rank_of h b"
    "Compare h a b = 0 \<longleftrightarrow> rank_of h a = rank_of h b"
  using ix_keys.cmp_less [OF assms] ix_keys.cmp_le [OF assms] ix_keys.cmp_eq [OF assms] by (simp_all add: Compare_def)

lemma good_entries_key: "good_entries h es \<Longrightarrow> i < length es \<Longrightarrow> good_key h (fst (es ! i))"
  by (simp add: good_entries_def)

lemma search_loop_cong:
  assumes "\<And>i. i < n \<Longrightarrow> f i = g i"
  shows "r \<le> n \<Longrightarrow> search_loop f l r = search_loop g l r"
proof (induction "r - l" arbitrary: l r rule: less_induct)
  case less
  let ?mid = "(l + r) div 2"
  show ?case
  proof (cases "l < r")
    case True
    then have "f ?mid = g ?mid" "?mid - l < r - l" "?mid \<le> n" "r - (?mid + 1) < r - l" using assms less.prems by simp_all
    then have "search_loop f l ?mid = search_loop g l ?mid" "search_loop f (?mid + 1) r = search_loop g (?mid + 1) r" "f ?mid = g ?mid"
      using less.hyps less.prems by blast+
    then show ?thesis using search_loop.simps [of f l r] search_loop.simps [of g l r] by (simp only: Let_def)
  next
    case False
    then show ?thesis using search_loop.simps [of f l r] search_loop.simps [of g l r] by simp
  qed
qed

lemma lower_bound_linear:
  assumes "good_entries h (nd_entries nd)" "good_key h x"
  shows "lower_bound h x nd = length (takeWhile (\<lambda>e. rank_of h (fst e) < rank_of h x) (nd_entries nd))"
proof -
  let ?es = "nd_entries nd"
  have "lower_bound h x nd = search_loop (\<lambda>i. \<not> (rank_of h (fst (?es ! i)) < rank_of h x)) 0 (length ?es)"
    unfolding lower_bound_def num_key_def
    by (rule search_loop_cong [of "length ?es"])
      (use compare_rank(2) [OF assms(2)] good_entries_key [OF assms(1)] in \<open>simp_all add: get_key_def not_less\<close>)
  also have "\<dots> = length (takeWhile (\<lambda>e. rank_of h (fst e) < rank_of h x) ?es)"
    by (rule search_loop_takeWhile) (use good_entries_nth [OF assms(1)] in \<open>blast intro: le_less_trans\<close>)
  finally show ?thesis .
qed

lemma upper_bound_linear:
  assumes "good_entries h (nd_entries nd)" "good_key h x"
  shows "upper_bound h x nd = length (takeWhile (\<lambda>e. rank_of h (fst e) \<le> rank_of h x) (nd_entries nd))"
proof -
  let ?es = "nd_entries nd"
  have "upper_bound h x nd = search_loop (\<lambda>i. \<not> (rank_of h (fst (?es ! i)) \<le> rank_of h x)) 0 (length ?es)"
    unfolding upper_bound_def num_key_def
    by (rule search_loop_cong [of "length ?es"])
      (use compare_rank(1) [OF assms(2)] good_entries_key [OF assms(1)] in \<open>simp_all add: get_key_def not_le\<close>)
  also have "\<dots> = length (takeWhile (\<lambda>e. rank_of h (fst e) \<le> rank_of h x) ?es)"
    by (rule search_loop_takeWhile) (use good_entries_nth [OF assms(1)] in \<open>blast intro: order_trans\<close>)
  finally show ?thesis .
qed

text \<open>C33: In a node with sorted keys the binary searches return what a search from the first key on would return:
  \<open>lower_bound\<close> the number of keys before the target, \<open>upper_bound\<close> the number of keys up to it.\<close>

theorem bounds_are_linear_search:
  assumes "good_entries h (nd_entries nd)" "good_key h x"
  shows "lower_bound h x nd = length (takeWhile (\<lambda>e. rank_of h (fst e) < rank_of h x) (nd_entries nd)) \<and>
    upper_bound h x nd = length (takeWhile (\<lambda>e. rank_of h (fst e) \<le> rank_of h x) (nd_entries nd))"
  using lower_bound_linear [OF assms] upper_bound_linear [OF assms] by blast


definition bounds_witness_hdr :: IxFileHdr where
  "bounds_witness_hdr = example_ix_hdr\<lparr>ixh_col_num := 1, ixh_col_types := [TYPE_INT], ixh_col_lens := [4], ixh_col_tot_len := 4\<rparr>"

theorem bounds_are_linear_search_witness:
  "lower_bound bounds_witness_hdr [5, 0, 0, 0]
     \<lparr>nd_parent = -1, nd_leaf = True, nd_prev = 1, nd_next = 1,
      nd_entries = [([3, 0, 0, 0], \<lparr>rid_page_no = 1, rid_slot_no = 0\<rparr>), ([5, 0, 0, 0], \<lparr>rid_page_no = 1, rid_slot_no = 1\<rparr>)]\<rparr> = 1"
  by (subst bounds_are_linear_search [THEN conjunct1])
    (simp_all add: bounds_witness_hdr_def example_ix_hdr_def update_tot_len_def col_rank_def read_i32_def dec_i32_def read_bytes_def)

subsection \<open>The operations of a sorted node\<close>

lemma lower_split:
  assumes "good_entries h (nd_entries nd)" "good_key h x"
  obtains A B where "nd_entries nd = A @ B" "lower_bound h x nd = length A"
    "\<forall>e \<in> set A. rank_of h (fst e) < rank_of h x" "\<forall>e \<in> set B. rank_of h x \<le> rank_of h (fst e)"
proof (rule that)
  let ?P = "\<lambda>e. rank_of h (fst e) < rank_of h x" and ?es = "nd_entries nd"
  show "?es = takeWhile ?P ?es @ dropWhile ?P ?es" by simp
  show "lower_bound h x nd = length (takeWhile ?P ?es)" by (rule lower_bound_linear [OF assms])
  show "\<forall>e \<in> set (takeWhile ?P ?es). ?P e" by (blast dest: set_takeWhileD)
  show "\<forall>e \<in> set (dropWhile ?P ?es). rank_of h x \<le> rank_of h (fst e)"
  proof (cases "dropWhile ?P ?es")
    case (Cons d ds)
    have "good_entries h (takeWhile ?P ?es @ dropWhile ?P ?es)" using assms(1) by simp
    then have "good_entries h (d # ds)" using Cons by (simp only: good_entries_append)
    moreover have "\<not> ?P d" using hd_dropWhile [of ?P ?es] Cons by simp
    ultimately show ?thesis using Cons by (auto simp: not_less intro: order_trans)
  next
    case Nil
    then show ?thesis by (simp only: list.set ball_empty)
  qed
qed

lemma upper_split:
  assumes "good_entries h (nd_entries nd)" "good_key h x"
  obtains A B where "nd_entries nd = A @ B" "upper_bound h x nd = length A"
    "\<forall>e \<in> set A. rank_of h (fst e) \<le> rank_of h x" "\<forall>e \<in> set B. rank_of h x < rank_of h (fst e)"
proof (rule that)
  let ?P = "\<lambda>e. rank_of h (fst e) \<le> rank_of h x" and ?es = "nd_entries nd"
  show "?es = takeWhile ?P ?es @ dropWhile ?P ?es" by simp
  show "upper_bound h x nd = length (takeWhile ?P ?es)" by (rule upper_bound_linear [OF assms])
  show "\<forall>e \<in> set (takeWhile ?P ?es). ?P e" by (blast dest: set_takeWhileD)
  show "\<forall>e \<in> set (dropWhile ?P ?es). rank_of h x < rank_of h (fst e)"
  proof (cases "dropWhile ?P ?es")
    case (Cons d ds)
    have "good_entries h (takeWhile ?P ?es @ dropWhile ?P ?es)" using assms(1) by simp
    then have "good_entries h (d # ds)" using Cons by (simp only: good_entries_append)
    moreover have "\<not> ?P d" using hd_dropWhile [of ?P ?es] Cons by simp
    ultimately show ?thesis using Cons by (auto simp: not_le intro: less_trans)
  next
    case Nil
    then show ?thesis by (simp only: list.set ball_empty)
  qed
qed

text \<open>The key is in the node exactly when an entry has its rank; then the lower bound is its position.\<close>

lemma key_present:
  assumes "good_entries h (nd_entries nd)" "good_key h x" "nd_entries nd = A @ e # B" "rank_of h (fst e) = rank_of h x"
  shows "lower_bound h x nd = length A" "Compare h x (get_key nd (length A)) = 0"
proof -
  have "takeWhile (\<lambda>e. rank_of h (fst e) < rank_of h x) (A @ e # B) = A"
    using assms by (auto simp: takeWhile_append2)
  then show "lower_bound h x nd = length A" using lower_bound_linear [OF assms(1,2)] assms(3) by simp
  have "good_key h (fst e)" using assms(1,3) by simp
  then show "Compare h x (get_key nd (length A)) = 0" using compare_rank(3) [OF assms(2)] assms(3,4) by (simp add: get_key_def)
qed

lemma key_absent:
  assumes "good_entries h (nd_entries nd)" "good_key h x" "\<forall>e \<in> set (nd_entries nd). rank_of h (fst e) \<noteq> rank_of h x"
  shows "lower_bound h x nd < num_key nd \<Longrightarrow> Compare h x (get_key nd (lower_bound h x nd)) \<noteq> 0"
  using compare_rank(3) [OF assms(2) good_entries_key [OF assms(1)]] assms(3)
  by (metis get_key_def nth_mem num_key_def)

lemma node_insert_dup:
  assumes "good_entries h (nd_entries nd)" "good_key h x" "e \<in> set (nd_entries nd)" "rank_of h (fst e) = rank_of h x"
  shows "node_insert h x v nd = Inr (nd, num_key nd, -1)"
proof -
  obtain A B where "nd_entries nd = A @ e # B" using assms(3) by (meson split_list)
  then show ?thesis using key_present [OF assms(1,2) _ assms(4)] by (simp add: node_insert_def Let_def num_key_def)
qed

lemma node_insert_new:
  assumes "good_entries h (nd_entries nd)" "good_key h x" "\<forall>e \<in> set (nd_entries nd). rank_of h (fst e) \<noteq> rank_of h x"
  obtains A B where "nd_entries nd = A @ B" "good_entries h (A @ (x, v) # B)"
    "\<forall>e \<in> set A. rank_of h (fst e) < rank_of h x" "\<forall>e \<in> set B. rank_of h x < rank_of h (fst e)"
    "node_insert h x v nd = Inr (nd\<lparr>nd_entries := A @ (x, v) # B\<rparr>, Suc (num_key nd), int (length A))"
proof -
  obtain A B where ab: "nd_entries nd = A @ B" "lower_bound h x nd = length A"
    "\<forall>e \<in> set A. rank_of h (fst e) < rank_of h x" "\<forall>e \<in> set B. rank_of h x \<le> rank_of h (fst e)"
    by (rule lower_split [OF assms(1,2)])
  have b: "\<forall>e \<in> set B. rank_of h x < rank_of h (fst e)" using ab(1,4) assms(3) by force
  have g: "good_entries h (A @ (x, v) # B)" using assms(1,2) ab(1,3) b by auto
  have ne: "\<not> (length A < num_key nd \<and> Compare h x (get_key nd (length A)) = 0)" using key_absent [OF assms] ab(2) by auto
  have i: "insert_pair (length A) x v nd = Inr (nd\<lparr>nd_entries := A @ (x, v) # B\<rparr>)"
    using ab(1) by (simp add: insert_pair_def insert_pairs_def num_key_def)
  have "node_insert h x v nd = Inr (nd\<lparr>nd_entries := A @ (x, v) # B\<rparr>, Suc (num_key nd), int (length A))"
    unfolding node_insert_def ab(2) Let_def if_not_P [OF ne] i using ab(1) by (simp add: num_key_def)
  then show ?thesis using that ab(1,3) b g by blast
qed

lemma node_remove_present:
  assumes "good_entries h (nd_entries nd)" "good_key h x" "nd_entries nd = A @ e # B" "rank_of h (fst e) = rank_of h x"
  shows "node_remove h x nd = Inr (nd\<lparr>nd_entries := A @ B\<rparr>, num_key nd - 1, length A)"
  using key_present [OF assms] assms(3) by (simp add: node_remove_def Let_def erase_pair_def num_key_def)

lemma node_remove_absent:
  assumes "good_entries h (nd_entries nd)" "good_key h x" "\<forall>e \<in> set (nd_entries nd). rank_of h (fst e) \<noteq> rank_of h x"
  shows "\<exists>pos. node_remove h x nd = Inr (nd, num_key nd, pos)"
  using key_absent [OF assms] by (auto simp: node_remove_def Let_def)

lemma leaf_lookup_present:
  assumes "good_entries h (nd_entries nd)" "good_key h x" "e \<in> set (nd_entries nd)" "rank_of h (fst e) = rank_of h x"
  shows "leaf_lookup h x nd = Some (snd e)"
proof -
  obtain A B where "nd_entries nd = A @ e # B" using assms(3) by (meson split_list)
  then show ?thesis using key_present [OF assms(1,2) _ assms(4)] by (simp add: leaf_lookup_def Let_def num_key_def ix_get_rid_def)
qed

lemma lower_bound_le: "good_entries h (nd_entries nd) \<Longrightarrow> good_key h x \<Longrightarrow> lower_bound h x nd \<le> num_key nd"
  by (simp add: lower_bound_linear length_takeWhile_le num_key_def)

lemma leaf_lookup_absent:
  assumes "good_entries h (nd_entries nd)" "good_key h x" "\<forall>e \<in> set (nd_entries nd). rank_of h (fst e) \<noteq> rank_of h x"
  shows "leaf_lookup h x nd = None"
  using key_absent [OF assms] lower_bound_le [OF assms(1,2)] by (auto simp: leaf_lookup_def Let_def)

lemma internal_lookup_split:
  assumes "good_entries h (nd_entries nd)" "good_key h x" "nd_entries nd \<noteq> []"
  obtains A e B where "nd_entries nd = A @ e # B" "internal_lookup h x nd = rid_page_no (snd e)"
    "\<forall>b \<in> set B. rank_of h x < rank_of h (fst b)" "A \<noteq> [] \<or> rank_of h (fst (hd (nd_entries nd))) \<le> rank_of h x \<Longrightarrow> rank_of h (fst e) \<le> rank_of h x"
proof -
  obtain A B where ab: "nd_entries nd = A @ B" "upper_bound h x nd = length A"
    "\<forall>e \<in> set A. rank_of h (fst e) \<le> rank_of h x" "\<forall>e \<in> set B. rank_of h x < rank_of h (fst e)"
    by (rule upper_split [OF assms(1,2)])
  show ?thesis
  proof (cases "A = []")
    case True
    then obtain e B' where "B = e # B'" using ab(1) assms(3) by (cases B) auto
    then show ?thesis using that [of "[]" e B'] ab True
      by (auto simp: internal_lookup_def value_at_def ix_get_rid_def)
  next
    case False
    then obtain A' e where a: "A = A' @ [e]" by (cases A rule: rev_cases) auto
    show ?thesis using that [of A' e B] ab a
      by (auto simp: internal_lookup_def value_at_def ix_get_rid_def nth_append)
  qed
qed

lemma child_index_split:
  assumes "es = A @ e # B" "rid_page_no (snd e) = c" "c \<notin> (\<lambda>e. rid_page_no (snd e)) ` set A"
  shows "child_index c es = length A"
  using assms by (induction A arbitrary: es) auto

lemma find_child_split:
  assumes "nd_entries nd = A @ e # B" "rid_page_no (snd e) = c" "c \<notin> (\<lambda>e. rid_page_no (snd e)) ` set A"
  shows "find_child c nd = Inr (length A)"
  using child_index_split [OF assms] assms(1) by (simp add: find_child_def Let_def num_key_def)

end
