(* ===== verification/Ix_Tree.thy ===== *)
theory Ix_Tree
  imports Ix_Node "HOL-Library.Multiset"
begin

text \<open>
  The B+ tree (\<^verbatim>\<open>IxIndexHandle\<close> in \<^verbatim>\<open>src/src/index/ix_index_handle.cpp\<close>): the nodes by page number, the header
  of the file, and the pins the operations hold. A handle on a node is its page number; a page that an operation has
  changed is always unpinned as dirty, so the contents of a node never depend on its pins (theory \<open>Page_Store\<close>). The pool
  is taken to have a free frame for every fetch. The latches make an insertion or a deletion one step.

  A call may throw, and the loops that follow child or parent pointers have fuel; \<^term>\<open>None\<close> means that it ran out. The
  operations use the number of pages of the file as fuel, which is shown to be enough for a well-formed tree.
\<close>

subsection \<open>Nodes, pins and calls that may throw\<close>

record ix_index =
  ix_hdr :: IxFileHdr
  ix_nodes :: "int \<rightharpoonup> ix_node"
  ix_pins :: "int multiset"
  ix_next :: int
  ix_deleted :: "int list"

type_synonym 'a ix_run = "(ix_index, 'a) outcome option"

definition run_bind :: "('s, 'a) outcome option \<Rightarrow> ('a \<Rightarrow> 's \<Rightarrow> ('s, 'b) outcome option) \<Rightarrow> ('s, 'b) outcome option" where
  "run_bind m f =
     (case m of
        None \<Rightarrow> None
      | Some (Inl e, s) \<Rightarrow> Some (Inl e, s)
      | Some (Inr x, s) \<Rightarrow> f x s)"

text \<open>The handler of a \<^verbatim>\<open>try\<close> block that releases and throws again.\<close>

definition on_throw :: "'a ix_run \<Rightarrow> (ix_index \<Rightarrow> ix_index) \<Rightarrow> 'a ix_run" where
  "on_throw m f =
     (case m of
        None \<Rightarrow> None
      | Some (Inl e, s) \<Rightarrow> Some (Inl e, f s)
      | Some (Inr x, s) \<Rightarrow> Some (Inr x, s))"

lemma run_bind_simps [simp]:
  "run_bind None f = None" "run_bind (Some (Inl e, s)) f = Some (Inl e, s)" "run_bind (Some (Inr x, s)) f = f x s"
  by (simp_all add: run_bind_def)

lemma on_throw_simps [simp]:
  "on_throw None f = None" "on_throw (Some (Inl e, s)) f = Some (Inl e, f s)" "on_throw (Some (Inr x, s)) f = Some (Inr x, s)"
  by (simp_all add: on_throw_def)

definition node :: "ix_index \<Rightarrow> int \<Rightarrow> ix_node" where
  "node s p = the (ix_nodes s p)"

definition put :: "int \<Rightarrow> ix_node \<Rightarrow> ix_index \<Rightarrow> ix_index" where
  "put p nd s = s\<lparr>ix_nodes := (ix_nodes s)(p \<mapsto> nd)\<rparr>"

definition put_hdr :: "(IxFileHdr \<Rightarrow> IxFileHdr) \<Rightarrow> ix_index \<Rightarrow> ix_index" where
  "put_hdr f s = s\<lparr>ix_hdr := f (ix_hdr s)\<rparr>"

definition unpin :: "int \<Rightarrow> ix_index \<Rightarrow> ix_index" where
  "unpin p s = s\<lparr>ix_pins := ix_pins s - {#p#}\<rparr>"

definition node_upd :: "int \<Rightarrow> (ix_node \<Rightarrow> db_error + ix_node) \<Rightarrow> ix_index \<Rightarrow> unit ix_run" where
  "node_upd p f s = (case f (node s p) of Inl e \<Rightarrow> Some (Inl e, s) | Inr nd \<Rightarrow> Some (Inr (), put p nd s))"

definition fuel_of :: "ix_index \<Rightarrow> nat" where
  "fuel_of s = Suc (nat (ix_next s))"

definition fetch_node :: "int \<Rightarrow> ix_index \<Rightarrow> unit ix_run" where
  "fetch_node p s =
     (case ix_nodes s p of
        None \<Rightarrow> Some (Inl (RuntimeError ''Failed to fetch page''), s)
      | Some nd \<Rightarrow> Some (Inr (), s\<lparr>ix_pins := add_mset p (ix_pins s)\<rparr>))"

text \<open>A new page is zero, which is an internal node without entries.\<close>

definition zero_node :: ix_node where
  "zero_node = \<lparr>nd_parent = 0, nd_leaf = False, nd_prev = 0, nd_next = 0, nd_entries = []\<rparr>"

definition create_node :: "ix_index \<Rightarrow> int ix_run" where
  "create_node s =
     (let p = ix_next s
      in Some (Inr p, put_hdr (\<lambda>h. h\<lparr>ixh_num_pages := max (ixh_num_pages h) (p + 1)\<rparr>)
                        (put p zero_node (s\<lparr>ix_next := p + 1, ix_pins := add_mset p (ix_pins s)\<rparr>))))"

subsection \<open>Search\<close>

fun descend :: "nat \<Rightarrow> bytes \<Rightarrow> bool \<Rightarrow> int \<Rightarrow> ix_index \<Rightarrow> int ix_run" where
  "descend 0 key find_first p s = None"
| "descend (Suc n) key find_first p s =
     (if nd_leaf (node s p) then Some (Inr p, s)
      else let c = (if find_first then value_at (node s p) 0 else internal_lookup (ix_hdr s) key (node s p))
           in run_bind (fetch_node c s) (\<lambda>_ s. descend n key find_first c (unpin p s)))"

definition find_leaf_page :: "bytes \<Rightarrow> bool \<Rightarrow> ix_index \<Rightarrow> int ix_run" where
  "find_leaf_page key find_first s =
     (let root = ixh_root_page (ix_hdr s)
      in run_bind (fetch_node root s) (\<lambda>_ s. descend (fuel_of s) key find_first root s))"

definition get_value :: "bytes \<Rightarrow> ix_index \<Rightarrow> Rid option ix_run" where
  "get_value key s =
     run_bind (find_leaf_page key False s) (\<lambda>leaf s. Some (Inr (leaf_lookup (ix_hdr s) key (node s leaf)), unpin leaf s))"

text \<open>\<open>is_unique\<close> returns the record id of the key when it is not.\<close>

definition is_unique :: "bytes \<Rightarrow> ix_index \<Rightarrow> Rid option ix_run" where
  "is_unique key s =
     run_bind (find_leaf_page key False s) (\<lambda>leaf s.
       let nd = node s leaf; pos = lower_bound (ix_hdr s) key nd
       in if pos = num_key nd \<or> Compare (ix_hdr s) key (get_key nd pos) \<noteq> 0 then Some (Inr None, unpin leaf s)
          else Some (Inr (Some (ix_get_rid nd pos)), unpin leaf s))"

subsection \<open>Insertion\<close>

definition maintain_child :: "int \<Rightarrow> nat \<Rightarrow> ix_index \<Rightarrow> unit ix_run" where
  "maintain_child p child_idx s =
     (if \<not> nd_leaf (node s p) then
        (let c = value_at (node s p) child_idx
         in run_bind (fetch_node c s) (\<lambda>_ s. Some (Inr (), unpin c (put c ((node s c)\<lparr>nd_parent := p\<rparr>) s))))
      else Some (Inr (), s))"

fun maintain_children :: "int \<Rightarrow> nat list \<Rightarrow> ix_index \<Rightarrow> unit ix_run" where
  "maintain_children p [] s = Some (Inr (), s)"
| "maintain_children p (i # is) s = run_bind (maintain_child p i s) (\<lambda>_ s. maintain_children p is s)"

fun maintain_loop :: "nat \<Rightarrow> int \<Rightarrow> int \<Rightarrow> ix_index \<Rightarrow> unit ix_run" where
  "maintain_loop 0 p cur s = None"
| "maintain_loop (Suc n) p cur s =
     (let parent = nd_parent (node s cur); release = (\<lambda>s. if cur \<noteq> p then unpin cur s else s)
      in if parent = IX_NO_PAGE then Some (Inr (), release s)
         else run_bind (fetch_node parent s) (\<lambda>_ s.
           case find_child cur (node s parent) of
             Inl e \<Rightarrow> Some (Inl e, s)
           | Inr rank \<Rightarrow>
               if memcmp (ixh_col_tot_len (ix_hdr s)) (get_key (node s parent) rank) (get_key (node s cur) 0) = 0
               then Some (Inr (), unpin parent (release s))
               else maintain_loop n p parent
                      (release (put parent (set_key rank (get_key (node s cur) 0) (node s parent)) s))))"

definition maintain_parent :: "int \<Rightarrow> ix_index \<Rightarrow> unit ix_run" where
  "maintain_parent p s =
     (if num_key (node s p) = 0 then Some (Inr (), s) else maintain_loop (fuel_of s) p p s)"

definition link_leaf :: "int \<Rightarrow> int \<Rightarrow> ix_index \<Rightarrow> unit ix_run" where
  "link_leaf p new s =
     (let next = nd_next (node s p);
          s1 = put new ((node s new)\<lparr>nd_prev := p, nd_next := next\<rparr>) s;
          s2 = put p ((node s1 p)\<lparr>nd_next := new\<rparr>) s1
      in run_bind (fetch_node next s2) (\<lambda>_ s3. Some (Inr (), unpin next (put next ((node s3 next)\<lparr>nd_prev := new\<rparr>) s3))))"

definition split :: "int \<Rightarrow> ix_index \<Rightarrow> int ix_run" where
  "split p s =
     run_bind (create_node s) (\<lambda>new s.
       let split_point = get_min_size (ix_hdr s)
       in run_bind (if nd_leaf (node s p) then link_leaf p new s else Some (Inr (), s)) (\<lambda>_ s.
            let s1 = put new ((node s new)\<lparr>nd_entries := [], nd_leaf := nd_leaf (node s p), nd_parent := nd_parent (node s p)\<rparr>) s
            in run_bind (node_upd new (insert_pairs 0 (drop split_point (nd_entries (node s1 p)))) s1) (\<lambda>_ s2.
                 let s3 = put p ((node s2 p)\<lparr>nd_entries := take split_point (nd_entries (node s2 p))\<rparr>) s2
                 in run_bind (if \<not> nd_leaf (node s3 new) then maintain_children new [0..<num_key (node s3 new)] s3
                              else Some (Inr (), s3))
                      (\<lambda>_ s4. Some (Inr new, s4)))))"

definition child_rid :: "int \<Rightarrow> Rid" where
  "child_rid p = \<lparr>rid_page_no = p, rid_slot_no = -1\<rparr>"

definition new_root :: "int \<Rightarrow> bytes \<Rightarrow> int \<Rightarrow> ix_index \<Rightarrow> unit ix_run" where
  "new_root old key new s =
     run_bind (create_node s) (\<lambda>r s.
       let s1 = put r \<lparr>nd_parent = IX_NO_PAGE, nd_leaf = False, nd_prev = IX_NO_PAGE, nd_next = IX_NO_PAGE, nd_entries = []\<rparr> s
       in run_bind (node_upd r (insert_pair 0 (get_key (node s1 old) 0) (child_rid old)) s1) (\<lambda>_ s2.
          run_bind (node_upd r (insert_pair 1 key (child_rid new)) s2) (\<lambda>_ s3.
            let s4 = put old ((node s3 old)\<lparr>nd_parent := r\<rparr>) s3;
                s5 = put new ((node s4 new)\<lparr>nd_parent := r\<rparr>) s4
            in Some (Inr (), unpin r (put_hdr (\<lambda>h. h\<lparr>ixh_root_page := r\<rparr>) s5)))))"

fun insert_into_parent :: "nat \<Rightarrow> int \<Rightarrow> bytes \<Rightarrow> int \<Rightarrow> ix_index \<Rightarrow> unit ix_run" where
  "insert_into_parent 0 old key new s = None"
| "insert_into_parent (Suc n) old key new s =
     (if is_root_page (node s old) then new_root old key new s
      else let parent = nd_parent (node s old)
           in run_bind (fetch_node parent s) (\<lambda>_ s.
             case find_child old (node s parent) of
               Inl e \<Rightarrow> Some (Inl e, s)
             | Inr i \<Rightarrow>
                 run_bind (node_upd parent (insert_pair (i + 1) key (child_rid new)) s) (\<lambda>_ s.
                   if isFull (ix_hdr s) (node s parent)
                   then run_bind (split parent s) (\<lambda>sib s.
                          run_bind (insert_into_parent n parent (get_key (node s sib) 0) sib s) (\<lambda>_ s.
                            Some (Inr (), unpin parent (unpin sib s))))
                   else Some (Inr (), unpin parent s))))"

text \<open>\<open>insert_entry\<close> returns the page the entry went to, or \<^term>\<open>IX_NO_PAGE\<close> when the key was there already. After a split the code
  compares the key with the one at its lower bound in the new node, also when that is the end of the node, where old bytes of the page are; there
  the comparison fails here. Only the page number that is returned depends on it.\<close>

definition insert_entry :: "bytes \<Rightarrow> Rid \<Rightarrow> ix_index \<Rightarrow> int ix_run" where
  "insert_entry key v s =
     run_bind (find_leaf_page key False s) (\<lambda>leaf s.
       case node_insert (ix_hdr s) key v (node s leaf) of
         Inl e \<Rightarrow> Some (Inl e, s)
       | Inr (nd, new_size, pos) \<Rightarrow>
           if new_size = num_key (node s leaf) then Some (Inr IX_NO_PAGE, unpin leaf s)
           else run_bind (if pos = 0 then maintain_parent leaf (put leaf nd s) else Some (Inr (), put leaf nd s)) (\<lambda>_ s.
             if isFull (ix_hdr s) (node s leaf)
             then run_bind (split leaf s) (\<lambda>sib s.
               let s1 = (if leaf = ixh_last_leaf (ix_hdr s) then put_hdr (\<lambda>h. h\<lparr>ixh_last_leaf := sib\<rparr>) s else s)
               in run_bind (insert_into_parent (fuel_of s1) leaf (get_key (node s1 sib) 0) sib s1) (\<lambda>_ s.
                 let lb = lower_bound (ix_hdr s) key (node s sib);
                     ret = (if lb < num_key (node s sib) \<and> Compare (ix_hdr s) (get_key (node s sib) lb) key = 0 then sib else leaf)
                 in Some (Inr ret, unpin sib (unpin leaf s))))
             else Some (Inr leaf, unpin leaf s)))"

subsection \<open>Deletion\<close>

definition release_node_handle :: "ix_index \<Rightarrow> ix_index" where
  "release_node_handle s = put_hdr (\<lambda>h. h\<lparr>ixh_num_pages := ixh_num_pages h - 1\<rparr>) s"

definition erase_leaf :: "int \<Rightarrow> ix_index \<Rightarrow> unit ix_run" where
  "erase_leaf leaf s =
     (if \<not> nd_leaf (node s leaf) then Some (Inl AssertionFailure, s)
      else run_bind
        (let prev = nd_prev (node s leaf)
         in if prev \<noteq> IX_NO_PAGE
            then run_bind (fetch_node prev s) (\<lambda>_ s. Some (Inr (), unpin prev (put prev ((node s prev)\<lparr>nd_next := nd_next (node s leaf)\<rparr>) s)))
            else Some (Inr (), put_hdr (\<lambda>h. h\<lparr>ixh_first_leaf := nd_next (node s leaf)\<rparr>) s))
        (\<lambda>_ s.
          let next = nd_next (node s leaf)
          in if next \<noteq> IX_NO_PAGE
             then run_bind (fetch_node next s) (\<lambda>_ s. Some (Inr (), unpin next (put next ((node s next)\<lparr>nd_prev := nd_prev (node s leaf)\<rparr>) s)))
             else Some (Inr (), put_hdr (\<lambda>h. h\<lparr>ixh_last_leaf := nd_prev (node s leaf)\<rparr>) s)))"

definition reset_root :: "ix_index \<Rightarrow> ix_index" where
  "reset_root s =
     put_hdr (\<lambda>h. h\<lparr>ixh_root_page := IX_INIT_ROOT_PAGE, ixh_first_leaf := IX_NO_PAGE, ixh_last_leaf := IX_NO_PAGE\<rparr>) s"

definition adjust_root :: "int \<Rightarrow> ix_index \<Rightarrow> bool ix_run" where
  "adjust_root p s =
     (let nd = node s p
      in if nd_leaf nd \<and> num_key nd = 0 then Some (Inr True, reset_root s)
         else if \<not> nd_leaf nd \<and> num_key nd = 1 then
           (case remove_and_return_only_child nd of
              Inl e \<Rightarrow> Some (Inl e, s)
            | Inr (nd', c) \<Rightarrow>
                run_bind (fetch_node c (put_hdr (\<lambda>h. h\<lparr>ixh_root_page := c\<rparr>) (put p nd' s))) (\<lambda>_ s.
                  Some (Inr True, release_node_handle (unpin c (put c ((node s c)\<lparr>nd_parent := IX_NO_PAGE\<rparr>) s)))))
         else if \<not> nd_leaf nd \<and> num_key nd = 0 then Some (Inr True, reset_root s)
         else Some (Inr False, s))"

definition redistribute :: "int \<Rightarrow> int \<Rightarrow> int \<Rightarrow> nat \<Rightarrow> ix_index \<Rightarrow> unit ix_run" where
  "redistribute neighbor p parent index s =
     (if index = 0 then
        run_bind (node_upd p (insert_pair (num_key (node s p)) (get_key (node s neighbor) 0) (ix_get_rid (node s neighbor) 0)) s) (\<lambda>_ s.
        run_bind (node_upd neighbor (erase_pair 0) s) (\<lambda>_ s.
          let s1 = put parent (set_key (index + 1) (get_key (node s neighbor) 0) (node s parent)) s
          in if \<not> nd_leaf (node s1 p) then maintain_child p (num_key (node s1 p) - 1) s1 else Some (Inr (), s1)))
      else
        (let k = num_key (node s neighbor) - 1
         in run_bind (node_upd p (insert_pair 0 (get_key (node s neighbor) k) (ix_get_rid (node s neighbor) k)) s) (\<lambda>_ s.
            run_bind (node_upd neighbor (erase_pair k) s) (\<lambda>_ s.
              maintain_child p 0 (put parent (set_key index (get_key (node s p) 0) (node s parent)) s)))))"

text \<open>\<open>coalesce\<close> takes the call it makes on the parent, \<open>coalesce_or_redistribute\<close>, as an argument. \<open>tx\<close> says whether the
  call runs in a transaction, which collects the pages no longer used.\<close>

definition coalesce :: "(int \<Rightarrow> ix_index \<Rightarrow> bool ix_run) \<Rightarrow> bool \<Rightarrow> int \<Rightarrow> int \<Rightarrow> int \<Rightarrow> nat \<Rightarrow> ix_index \<Rightarrow> bool ix_run" where
  "coalesce again tx neighbor p parent index s =
     (let (left, right, i) = (if index = 0 then (p, neighbor, 1) else (neighbor, p, index));
          prev_size = num_key (node s left)
      in run_bind (node_upd left (insert_pairs prev_size (nd_entries (node s right))) s) (\<lambda>_ s.
         run_bind
           (if \<not> nd_leaf (node s right) then maintain_children left [prev_size..<num_key (node s left)] s
            else run_bind (erase_leaf right s) (\<lambda>_ s.
              Some (Inr (), if right = ixh_last_leaf (ix_hdr s) then put_hdr (\<lambda>h. h\<lparr>ixh_last_leaf := left\<rparr>) s else s)))
           (\<lambda>_ s.
             let s1 = release_node_handle (if tx then s\<lparr>ix_deleted := ix_deleted s @ [right]\<rparr> else s)
             in run_bind (node_upd parent (erase_pair i) s1) (\<lambda>_ s.
               let nd = node s parent
               in if num_key nd = 0 \<and> is_root_page nd then adjust_root parent s
                  else if num_key nd < get_min_size (ix_hdr s) \<and> \<not> is_root_page nd then again parent s
                  else Some (Inr False, s)))))"

primrec coalesce_or_redistribute :: "nat \<Rightarrow> bool \<Rightarrow> int \<Rightarrow> ix_index \<Rightarrow> bool ix_run" where
  "coalesce_or_redistribute 0 = (\<lambda>tx p s. None)"
| "coalesce_or_redistribute (Suc n) = (\<lambda>tx p s.
     if is_root_page (node s p) then adjust_root p s
     else if num_key (node s p) \<ge> get_min_size (ix_hdr s) then Some (Inr False, s)
     else let parent = nd_parent (node s p)
          in run_bind (fetch_node parent s) (\<lambda>_ s.
            case find_child p (node s parent) of
              Inl e \<Rightarrow> Some (Inl e, s)
            | Inr index \<Rightarrow>
                let k = (if index = 0 then 1 else index - 1)
                in if k \<ge> num_key (node s parent) then Some (Inr False, unpin parent s)
                   else let neighbor = value_at (node s parent) k
                        in on_throw
                          (run_bind (fetch_node neighbor s) (\<lambda>_ s. on_throw
                            (if num_key (node s p) + num_key (node s neighbor) \<ge> 2 * get_min_size (ix_hdr s)
                             then run_bind (redistribute neighbor p parent index s) (\<lambda>_ s.
                                    Some (Inr False, unpin neighbor (unpin parent s)))
                             else run_bind (coalesce (coalesce_or_redistribute n tx) tx neighbor p parent index s) (\<lambda>_ s.
                                    Some (Inr True, unpin neighbor (unpin parent s))))
                            (unpin neighbor)))
                          (unpin parent)))"

definition delete_entry :: "bool \<Rightarrow> bytes \<Rightarrow> ix_index \<Rightarrow> bool ix_run" where
  "delete_entry tx key s =
     (if ixh_root_page (ix_hdr s) = IX_NO_PAGE then Some (Inr False, s)
      else run_bind (find_leaf_page key False s) (\<lambda>leaf s. on_throw
        (case node_remove (ix_hdr s) key (node s leaf) of
           Inl e \<Rightarrow> Some (Inl e, s)
         | Inr (nd, new_size, pos) \<Rightarrow>
             if new_size = num_key (node s leaf) then Some (Inr False, unpin leaf s)
             else run_bind (if pos = 0 \<and> num_key nd > 0 then maintain_parent leaf (put leaf nd s) else Some (Inr (), put leaf nd s)) (\<lambda>_ s.
                  run_bind (coalesce_or_redistribute (fuel_of s) tx leaf s) (\<lambda>gone s.
                    Some (Inr True, unpin leaf (if gone \<and> tx then s\<lparr>ix_deleted := ix_deleted s @ [leaf]\<rparr> else s)))))
        (unpin leaf)))"

subsection \<open>Positions\<close>

record Iid =
  iid_page_no :: int
  iid_slot_no :: int

definition index_get_rid :: "Iid \<Rightarrow> ix_index \<Rightarrow> Rid ix_run" where
  "index_get_rid iid s =
     (if iid_page_no iid = IX_NO_PAGE \<or> iid_page_no iid < 0 then Some (Inl IndexEntryNotFoundError, s)
      else run_bind (fetch_node (iid_page_no iid) s) (\<lambda>_ s.
        let nd = node s (iid_page_no iid)
        in if \<not> nd_leaf nd then Some (Inl IndexEntryNotFoundError, unpin (iid_page_no iid) s)
           else if iid_slot_no iid < 0 \<or> iid_slot_no iid \<ge> int (num_key nd)
           then Some (Inl IndexEntryNotFoundError, unpin (iid_page_no iid) s)
           else Some (Inr (ix_get_rid nd (nat (iid_slot_no iid))), unpin (iid_page_no iid) s)))"

definition position_iid :: "nat \<Rightarrow> int \<Rightarrow> ix_index \<Rightarrow> Iid" where
  "position_iid pos leaf s =
     (let nd = node s leaf
      in if pos = num_key nd then
           (if leaf = ixh_last_leaf (ix_hdr s) then \<lparr>iid_page_no = leaf, iid_slot_no = int pos\<rparr>
            else \<lparr>iid_page_no = nd_next nd, iid_slot_no = 0\<rparr>)
         else \<lparr>iid_page_no = leaf, iid_slot_no = int pos\<rparr>)"

definition index_lower_bound :: "bytes \<Rightarrow> ix_index \<Rightarrow> Iid ix_run" where
  "index_lower_bound key s =
     run_bind (find_leaf_page key False s) (\<lambda>leaf s.
       Some (Inr (position_iid (lower_bound (ix_hdr s) key (node s leaf)) leaf s), unpin leaf s))"

definition index_upper_bound :: "bytes \<Rightarrow> ix_index \<Rightarrow> Iid ix_run" where
  "index_upper_bound key s =
     run_bind (find_leaf_page key False s) (\<lambda>leaf s.
       Some (Inr (position_iid (upper_bound (ix_hdr s) key (node s leaf)) leaf s), unpin leaf s))"

definition leaf_end :: "ix_index \<Rightarrow> Iid ix_run" where
  "leaf_end s =
     (let last = ixh_last_leaf (ix_hdr s)
      in if last = IX_NO_PAGE then Some (Inr \<lparr>iid_page_no = IX_NO_PAGE, iid_slot_no = 0\<rparr>, s)
         else run_bind (fetch_node last s) (\<lambda>_ s.
           Some (Inr \<lparr>iid_page_no = last, iid_slot_no = int (num_key (node s last))\<rparr>, unpin last s)))"

definition leaf_begin :: "ix_index \<Rightarrow> Iid ix_run" where
  "leaf_begin s =
     (if ixh_first_leaf (ix_hdr s) = IX_NO_PAGE then leaf_end s
      else Some (Inr \<lparr>iid_page_no = ixh_first_leaf (ix_hdr s), iid_slot_no = 0\<rparr>, s))"

end
