(* ===== verification/Ix_Inv.thy ===== *)
theory Ix_Inv
  imports Ix_Tree
begin

text \<open>
  What a well-formed B+ tree is, and what a search finds in it. The tree is given by its levels: the list of the pages of
  its leaves from left to right, then the list of the pages of the nodes above, up to the root alone. The entries of one
  level name the pages of the level below in order, each with the first key of that page, so the keys of every level are
  sorted when those of the leaves are.

  The code does not shrink the tree when an internal root is left with one child, so a level may have a single node with
  any number of entries, and the only leaf may be empty; the nodes of a level with two or more nodes are at least half full.
\<close>

subsection \<open>Levels\<close>

definition ents :: "(int \<rightharpoonup> ix_node) \<Rightarrow> int \<Rightarrow> entry list" where
  "ents N p = nd_entries (the (N p))"

definition kids :: "(int \<rightharpoonup> ix_node) \<Rightarrow> int \<Rightarrow> int list" where
  "kids N p = map (\<lambda>e. rid_page_no (snd e)) (ents N p)"

definition par :: "(int \<rightharpoonup> ix_node) \<Rightarrow> int \<Rightarrow> int" where
  "par N p = nd_parent (the (N p))"

definition row :: "(int \<rightharpoonup> ix_node) \<Rightarrow> int list \<Rightarrow> entry list" where
  "row N L = concat (map (ents N) L)"

lemma row_simps [simp]: "row N [] = []" "row N (p # L) = ents N p @ row N L" "row N (L @ M) = row N L @ row N M"
  by (simp_all add: row_def)

definition kids_of :: "(int \<rightharpoonup> ix_node) \<Rightarrow> int list \<Rightarrow> int list" where
  "kids_of N M = concat (map (kids N) M)"

lemma kids_of_simps [simp]:
  "kids_of N [] = []" "kids_of N (p # L) = kids N p @ kids_of N L" "kids_of N (L @ M) = kids_of N L @ kids_of N M"
  by (simp_all add: kids_of_def)

text \<open>The entry of a child: its parent is the node, and the key is the child's first key, except for the children in \<open>X\<close>.\<close>

definition child_ok :: "int set \<Rightarrow> (int \<rightharpoonup> ix_node) \<Rightarrow> int \<Rightarrow> entry \<Rightarrow> bool" where
  "child_ok X N p e \<longleftrightarrow>
     (let c = rid_page_no (snd e) in par N c = p \<and> (c \<notin> X \<and> ents N c \<noteq> [] \<longrightarrow> fst e = fst (hd (ents N c))))"

definition link_ok :: "IxFileHdr \<Rightarrow> int set \<Rightarrow> (int \<rightharpoonup> ix_node) \<Rightarrow> int list \<Rightarrow> int list \<Rightarrow> bool" where
  "link_ok h X N L M \<longleftrightarrow> kids_of N M = L \<and>
     (\<forall>p \<in> set M. \<not> nd_leaf (the (N p)) \<and> ents N p \<noteq> [] \<and> (\<forall>e \<in> set (ents N p). child_ok X N p e \<and> good_key h (fst e)))"

definition level_ok :: "IxFileHdr \<Rightarrow> (int \<rightharpoonup> ix_node) \<Rightarrow> int list \<Rightarrow> bool" where
  "level_ok h N L \<longleftrightarrow> (\<forall>p \<in> set L. p \<in> dom N \<and> length (ents N p) \<le> ixh_btree_order h) \<and>
     (2 \<le> length L \<longrightarrow> (\<forall>p \<in> set L. get_min_size h \<le> length (ents N p)))"

fun above :: "IxFileHdr \<Rightarrow> int set \<Rightarrow> (int \<rightharpoonup> ix_node) \<Rightarrow> int list \<Rightarrow> int list list \<Rightarrow> bool" where
  "above h X N L [] \<longleftrightarrow> (\<exists>r. L = [r] \<and> par N r = IX_NO_PAGE)"
| "above h X N L (M # Ls) \<longleftrightarrow> link_ok h X N L M \<and> level_ok h N M \<and> above h {} N M Ls"

definition root_of :: "int list \<Rightarrow> int list list \<Rightarrow> int" where
  "root_of L Ls = hd (last (L # Ls))"

text \<open>The leaves form a circle through the header page of the leaf list.\<close>

fun linked :: "(int \<rightharpoonup> ix_node) \<Rightarrow> int list \<Rightarrow> bool" where
  "linked N (a # b # xs) \<longleftrightarrow> nd_next (the (N a)) = b \<and> nd_prev (the (N b)) = a \<and> linked N (b # xs)"
| "linked N xs \<longleftrightarrow> True"

definition hdr_cfg_ok :: "IxFileHdr \<Rightarrow> bool" where
  "hdr_cfg_ok h \<longleftrightarrow> 3 \<le> ixh_btree_order h \<and> ixh_col_tot_len h = sum_list (ixh_col_lens h)"

definition pages_ok :: "ix_index \<Rightarrow> int list \<Rightarrow> bool" where
  "pages_ok s ps \<longleftrightarrow> distinct ps \<and> (\<forall>p \<in> set ps. 2 \<le> p) \<and> (\<forall>p. ix_nodes s p \<noteq> None \<longrightarrow> 1 \<le> p \<and> p < ix_next s) \<and>
     ix_nodes s IX_LEAF_HEADER_PAGE \<noteq> None"

definition leaves_ok :: "ix_index \<Rightarrow> int list \<Rightarrow> bool" where
  "leaves_ok s L \<longleftrightarrow> (\<forall>p \<in> set L. nd_leaf (node s p)) \<and> good_entries (ix_hdr s) (row (ix_nodes s) L) \<and>
     hd L = IX_INIT_ROOT_PAGE \<and> linked (ix_nodes s) (IX_LEAF_HEADER_PAGE # L @ [IX_LEAF_HEADER_PAGE])"

definition tree_ok :: "ix_index \<Rightarrow> int list \<Rightarrow> int list list \<Rightarrow> bool" where
  "tree_ok s L Ls \<longleftrightarrow> hdr_cfg_ok (ix_hdr s) \<and> level_ok (ix_hdr s) (ix_nodes s) L \<and> above (ix_hdr s) {} (ix_nodes s) L Ls \<and>
     pages_ok s (concat (L # Ls)) \<and> leaves_ok s L \<and> ixh_root_page (ix_hdr s) = root_of L Ls"

text \<open>The ends of the leaf list in the header.\<close>

definition ends_ok :: "ix_index \<Rightarrow> int list \<Rightarrow> bool" where
  "ends_ok s L \<longleftrightarrow> ixh_first_leaf (ix_hdr s) = hd L \<and> ixh_last_leaf (ix_hdr s) = last L"

subsection \<open>Basic facts\<close>

lemma node_simps [simp]:
  "nd_entries (node s p) = ents (ix_nodes s) p" "nd_parent (node s p) = par (ix_nodes s) p"
  "num_key (node s p) = length (ents (ix_nodes s) p)"
  by (simp_all add: node_def ents_def par_def num_key_def)

lemma set_row: "set (row N L) = (\<Union>p \<in> set L. set (ents N p))"
  by (simp add: row_def)

lemma set_kids_of: "set (kids_of N M) = (\<Union>p \<in> set M. set (kids N p))"
  by (simp add: kids_of_def)

lemma kids_of_row: "kids_of N M = map (\<lambda>e. rid_page_no (snd e)) (row N M)"
  by (simp add: kids_of_def row_def kids_def [abs_def] map_concat comp_def)

lemma link_parent:
  assumes "link_ok h X N L M" "c \<in> set L"
  obtains e where "par N c \<in> set M" "e \<in> set (ents N (par N c))" "rid_page_no (snd e) = c"
proof -
  obtain p where p: "p \<in> set M" "c \<in> set (kids N p)" using assms by (auto simp: link_ok_def set_kids_of)
  then obtain e where e: "e \<in> set (ents N p)" "rid_page_no (snd e) = c" by (auto simp: kids_def)
  then have "par N c = p" using assms(1) p(1) by (auto simp: link_ok_def child_ok_def Let_def)
  then show ?thesis using that p(1) e by blast
qed

text \<open>The keys of a level are the first keys of the pages below.\<close>

lemma map_row_first:
  assumes "\<forall>e \<in> set es. \<forall>c. rid_page_no (snd e) = c \<longrightarrow> fst e = f c"
  shows "map fst es = map f (map (\<lambda>e. rid_page_no (snd e)) es)"
  using assms by (induction es) auto

lemma link_keys:
  assumes "link_ok h {} N L M" "\<forall>p \<in> set L. ents N p \<noteq> []"
  shows "map fst (row N M) = map (\<lambda>c. fst (hd (ents N c))) L"
proof -
  have l: "L = map (\<lambda>e. rid_page_no (snd e)) (row N M)" using assms(1) kids_of_row by (simp add: link_ok_def)
  have "\<forall>e \<in> set (row N M). \<forall>c. rid_page_no (snd e) = c \<longrightarrow> fst e = fst (hd (ents N c))"
  proof (intro ballI allI impI)
    fix e c assume e: "e \<in> set (row N M)" "rid_page_no (snd e) = c"
    then have "c \<in> set L" using l by auto
    then show "fst e = fst (hd (ents N c))"
      using e assms by (fastforce simp: link_ok_def set_row child_ok_def Let_def)
  qed
  then show ?thesis using map_row_first [of "row N M"] l by metis
qed

lemma good_firsts:
  assumes "good_entries h (row N L)" "\<forall>p \<in> set L. ents N p \<noteq> []"
  shows "sorted_wrt (<) (map (\<lambda>c. rank_of h (fst (hd (ents N c)))) L) \<and> (\<forall>c \<in> set L. good_key h (fst (hd (ents N c))))"
  using assms
proof (induction L)
  case (Cons p L)
  obtain e es where p: "ents N p = e # es" using Cons.prems(2) by (cases "ents N p") auto
  have "\<forall>c \<in> set L. rank_of h (fst e) < rank_of h (fst (hd (ents N c)))"
  proof
    fix c assume c: "c \<in> set L"
    then have "hd (ents N c) \<in> set (ents N c)" using Cons.prems(2) by simp
    then have "hd (ents N c) \<in> set (row N L)" using c by (auto simp: set_row)
    then show "rank_of h (fst e) < rank_of h (fst (hd (ents N c)))" using Cons.prems(1) p by simp
  qed
  then show ?case using Cons p by simp
qed simp

lemma good_row_above:
  assumes "link_ok h {} N L M" "good_entries h (row N L)" "(\<forall>p \<in> set L. ents N p \<noteq> []) \<or> length L = 1"
  shows "good_entries h (row N M)"
proof (cases "\<forall>p \<in> set L. ents N p \<noteq> []")
  case True
  have "map (\<lambda>e. rank_of h (fst e)) (row N M) = map (\<lambda>c. rank_of h (fst (hd (ents N c)))) L"
    using link_keys [OF assms(1) True] by (metis (no_types, lifting) list.map_comp map_eq_conv comp_apply)
  moreover have "\<forall>e \<in> set (row N M). good_key h (fst e)" using assms(1) by (auto simp: link_ok_def set_row)
  ultimately show ?thesis using good_firsts [OF assms(2) True] by (simp add: good_entries_def)
next
  case False
  then obtain c where "L = [c]" using assms(3) by (cases L) auto
  then have "length (row N M) = 1" using assms(1) kids_of_row [of N M] by (metis length_map link_ok_def length_Cons list.size(3) One_nat_def)
  then obtain e where e: "row N M = [e]" by (cases "row N M") auto
  then have "e \<in> set (row N M)" by simp
  then have "good_key h (fst e)" using assms(1) by (auto simp: link_ok_def set_row)
  then show ?thesis using e by simp
qed

lemma good_entries_member: "good_entries h (row N L) \<Longrightarrow> p \<in> set L \<Longrightarrow> good_entries h (ents N p)"
  by (metis good_entries_append row_simps(2,3) split_list)

text \<open>No level is larger than the one below.\<close>

lemma level_length:
  assumes "link_ok h X N L M"
  shows "length M \<le> length L"
proof -
  have "\<forall>p \<in> set M. kids N p \<noteq> []" using assms by (simp add: link_ok_def kids_def)
  then have "length M \<le> length (kids_of N M)"
    by (induction M) (auto simp: Suc_le_eq simp flip: length_greater_0_conv)
  then show ?thesis using assms by (simp add: link_ok_def)
qed

definition nonempty_level :: "(int \<rightharpoonup> ix_node) \<Rightarrow> int list \<Rightarrow> bool" where
  "nonempty_level N L \<longleftrightarrow> (\<forall>p \<in> set L. ents N p \<noteq> []) \<or> length L = 1"

lemma level_nonempty:
  assumes "level_ok h N L" "hdr_cfg_ok h" "L \<noteq> []"
  shows "nonempty_level N L"
proof (cases "2 \<le> length L")
  case True
  have "0 < get_min_size h" using assms(2) by (simp add: get_min_size_def get_max_size_def hdr_cfg_ok_def)
  then show ?thesis using assms(1) True by (fastforce simp: level_ok_def nonempty_level_def)
next
  case False
  then show ?thesis using assms(3) by (cases L) (auto simp: nonempty_level_def Suc_le_eq)
qed

lemma link_nonempty: "link_ok h X N L M \<Longrightarrow> nonempty_level N M"
  by (auto simp: link_ok_def nonempty_level_def)

subsection \<open>Search\<close>

text \<open>The page of a level where a key belongs.\<close>

definition right_page :: "IxFileHdr \<Rightarrow> (int \<rightharpoonup> ix_node) \<Rightarrow> bytes \<Rightarrow> int list \<Rightarrow> int \<Rightarrow> bool" where
  "right_page h N x L p \<longleftrightarrow>
     (\<exists>A B. L = A @ p # B \<and> (A \<noteq> [] \<longrightarrow> ents N p \<noteq> [] \<and> rank_of h (fst (hd (ents N p))) \<le> rank_of h x) \<and>
       (\<forall>q \<in> set B. ents N q \<noteq> [] \<and> rank_of h x < rank_of h (fst (hd (ents N q)))))"

lemma right_page_below:
  assumes link: "link_ok h {} N L M" and ne: "nonempty_level N L" and good: "good_entries h (row N M)"
    and x: "good_key h x" and q: "right_page h N x M q"
  obtains c where "internal_lookup h x (the (N q)) = c" "c \<in> set L" "right_page h N x L c"
proof -
  obtain A B where ab: "M = A @ q # B" "A \<noteq> [] \<longrightarrow> rank_of h (fst (hd (ents N q))) \<le> rank_of h x"
    "\<forall>p \<in> set B. ents N p \<noteq> [] \<and> rank_of h x < rank_of h (fst (hd (ents N p)))"
    using q unfolding right_page_def by blast
  have gq: "good_entries h (nd_entries (the (N q)))" using good good_entries_member [of h N M q] ab(1) by (simp add: ents_def)
  have nq: "nd_entries (the (N q)) \<noteq> []" using link ab(1) by (auto simp: link_ok_def ents_def)
  obtain C e D where c: "ents N q = C @ e # D" "internal_lookup h x (the (N q)) = rid_page_no (snd e)"
    "\<forall>b \<in> set D. rank_of h x < rank_of h (fst b)"
    "C \<noteq> [] \<or> rank_of h (fst (hd (ents N q))) \<le> rank_of h x \<Longrightarrow> rank_of h (fst e) \<le> rank_of h x"
    using internal_lookup_split [OF gq x nq] unfolding ents_def by metis
  let ?pg = "\<lambda>e. rid_page_no (snd e)"
  have L: "L = (kids_of N A @ map ?pg C) @ ?pg e # (map ?pg D @ kids_of N B)"
    using link ab(1) c(1) by (simp add: link_ok_def kids_def)
  have first: "fst b = fst (hd (ents N (?pg b)))" if "b \<in> set (row N M)" "ents N (?pg b) \<noteq> []" for b
    using link that by (fastforce simp: link_ok_def set_row child_ok_def Let_def)
  have rowM: "row N M = row N A @ (C @ e # D) @ row N B" using ab(1) c(1) by simp
  have later: "rank_of h x < rank_of h (fst b)" if b: "b \<in> set D \<union> set (row N B)" for b
  proof (cases "b \<in> set D")
    case False
    then obtain p where p: "p \<in> set B" "b \<in> set (ents N p)" using b by (auto simp: set_row)
    then obtain f fs where f: "ents N p = f # fs" by (cases "ents N p") auto
    have "good_entries h (ents N p)" using good good_entries_member [of h N M p] ab(1) p(1) by simp
    then have "rank_of h (fst f) \<le> rank_of h (fst b)" using f p(2) by auto
    moreover have "rank_of h x < rank_of h (fst f)" using ab(3) p(1) f by fastforce
    ultimately show ?thesis by simp
  qed (use c(3) in blast)
  have "right_page h N x L (?pg e)"
  proof (cases "length L = 1")
    case True
    then have "kids_of N A @ map ?pg C = []" "map ?pg D @ kids_of N B = []" using L by auto
    then have "L = [] @ ?pg e # []" using L by simp
    then show ?thesis unfolding right_page_def by (intro exI [of _ "[]"]) simp
  next
    case False
    then have ne': "\<forall>p \<in> set L. ents N p \<noteq> []" using ne by (simp add: nonempty_level_def)
    have "rank_of h (fst (hd (ents N (?pg e)))) \<le> rank_of h x" if "kids_of N A @ map ?pg C \<noteq> []"
    proof -
      have "C \<noteq> [] \<or> rank_of h (fst (hd (ents N q))) \<le> rank_of h x" using that ab(2) by auto
      then have "rank_of h (fst e) \<le> rank_of h x" by (rule c(4))
      then show ?thesis using first [of e] rowM ne' L by simp
    qed
    moreover have "rank_of h x < rank_of h (fst (hd (ents N p)))" if p: "p \<in> set (map ?pg D @ kids_of N B)" for p
    proof -
      obtain b where b: "b \<in> set D \<union> set (row N B)" "?pg b = p" using p by (auto simp: kids_of_row)
      then have "b \<in> set (row N M)" "p \<in> set L" using rowM L p by auto
      then have "fst b = fst (hd (ents N p))" using first [of b] ne' b(2) by blast
      then show ?thesis using later [OF b(1)] by simp
    qed
    ultimately show ?thesis using L ne' unfolding right_page_def
      by (intro exI [of _ "kids_of N A @ map ?pg C"] exI [of _ "map ?pg D @ kids_of N B"]) auto
  qed
  then show ?thesis using that c(2) L by auto
qed


lemma right_page_split:
  assumes "right_page h N x L p" "good_entries h (row N L)"
  obtains A B where "L = A @ p # B" "row N L = row N A @ ents N p @ row N B"
    "\<forall>e \<in> set (row N A). rank_of h (fst e) < rank_of h x" "\<forall>e \<in> set (row N B). rank_of h x < rank_of h (fst e)"
    "A \<noteq> [] \<Longrightarrow> ents N p \<noteq> [] \<and> rank_of h (fst (hd (ents N p))) \<le> rank_of h x"
proof -
  obtain A B where ab: "L = A @ p # B" "A \<noteq> [] \<longrightarrow> ents N p \<noteq> [] \<and> rank_of h (fst (hd (ents N p))) \<le> rank_of h x"
    "\<forall>q \<in> set B. ents N q \<noteq> [] \<and> rank_of h x < rank_of h (fst (hd (ents N q)))"
    using assms(1) unfolding right_page_def by blast
  have r: "row N L = row N A @ ents N p @ row N B" using ab(1) by simp
  have "rank_of h (fst e) < rank_of h x" if e: "e \<in> set (row N A)" for e
  proof -
    have "A \<noteq> []" using e by auto
    then have p: "ents N p \<noteq> []" "rank_of h (fst (hd (ents N p))) \<le> rank_of h x" using ab(2) by auto
    then have "rank_of h (fst e) < rank_of h (fst (hd (ents N p)))" using assms(2) e r by simp
    then show ?thesis using p(2) by simp
  qed
  moreover have "rank_of h x < rank_of h (fst e)" if e: "e \<in> set (row N B)" for e
  proof -
    obtain q where q: "q \<in> set B" "e \<in> set (ents N q)" using e by (auto simp: set_row)
    have "good_entries h (ents N q)" using good_entries_member [OF assms(2)] ab(1) q(1) by simp
    then have "rank_of h (fst (hd (ents N q))) \<le> rank_of h (fst e)" using q(2) by (cases "ents N q") auto
    moreover have "rank_of h x < rank_of h (fst (hd (ents N q)))" using ab(3) q(1) by blast
    ultimately show ?thesis by simp
  qed
  ultimately show ?thesis using that [OF ab(1) r] ab(2) by blast
qed

lemma above_nonempty: "above h X N L Ls \<Longrightarrow> L \<noteq> [] \<and> (\<forall>M \<in> set Ls. M \<noteq> [])"
proof (induction Ls arbitrary: X L)
  case (Cons M Ls)
  then have "M \<noteq> [] \<and> (\<forall>M \<in> set Ls. M \<noteq> [])" using Cons.IH [of "{}" M] by simp
  moreover have "kids N (hd M) \<noteq> []" using Cons.prems calculation by (auto simp: link_ok_def kids_def)
  moreover have "set (kids N (hd M)) \<subseteq> set L" using Cons.prems calculation(1) by (cases M) (auto simp: link_ok_def)
  ultimately show ?case by (cases L) auto
qed auto

lemma above_dom: "above h X N L Ls \<Longrightarrow> p \<in> set (concat Ls) \<Longrightarrow> p \<in> dom N"
  by (induction Ls arbitrary: X L) (auto simp: level_ok_def)

lemma descend_ok:
  assumes "above (ix_hdr s) {} (ix_nodes s) L Ls" "good_entries (ix_hdr s) (row (ix_nodes s) L)"
    "nonempty_level (ix_nodes s) L" "set L \<subseteq> dom (ix_nodes s)" "good_key (ix_hdr s) x"
  shows "\<exists>p \<in> set L. right_page (ix_hdr s) (ix_nodes s) x L p \<and>
    (\<forall>n. descend (length Ls + n) x False (root_of L Ls) (s\<lparr>ix_pins := add_mset (root_of L Ls) P\<rparr>) =
         descend n x False p (s\<lparr>ix_pins := add_mset p P\<rparr>))"
  using assms
proof (induction Ls arbitrary: L)
  case Nil
  then obtain r where L: "L = [r]" by auto
  then have "right_page (ix_hdr s) (ix_nodes s) x L r" unfolding right_page_def by (intro exI [of _ "[]"]) simp
  then show ?case using L by (simp add: root_of_def)
next
  case (Cons M Ls)
  let ?N = "ix_nodes s" and ?h = "ix_hdr s"
  have link: "link_ok ?h {} ?N L M" and lev: "level_ok ?h ?N M" and ab: "above ?h {} ?N M Ls" using Cons.prems(1) by simp_all
  have good: "good_entries ?h (row ?N M)"
    using good_row_above [OF link Cons.prems(2)] Cons.prems(3) by (simp add: nonempty_level_def)
  have dom: "set M \<subseteq> dom ?N" using lev by (auto simp: level_ok_def)
  from Cons.IH [OF ab good link_nonempty [OF link] dom Cons.prems(5)]
  obtain q where q: "q \<in> set M" "right_page ?h ?N x M q"
    "\<And>n. descend (length Ls + n) x False (root_of M Ls) (s\<lparr>ix_pins := add_mset (root_of M Ls) P\<rparr>) =
         descend n x False q (s\<lparr>ix_pins := add_mset q P\<rparr>)" by blast
  obtain c where c: "internal_lookup ?h x (the (?N q)) = c" "c \<in> set L" "right_page ?h ?N x L c"
    by (rule right_page_below [OF link Cons.prems(3) good Cons.prems(5) q(2)])
  have nl: "\<not> nd_leaf (the (?N q))" using link q(1) by (simp add: link_ok_def)
  have "?N c \<noteq> None" using c(2) Cons.prems(4) by auto
  then have "descend (Suc n) x False q (s\<lparr>ix_pins := add_mset q P\<rparr>) = descend n x False c (s\<lparr>ix_pins := add_mset c P\<rparr>)" for n
    using nl c(1) by (auto simp: node_def fetch_node_def unpin_def)
  moreover have "root_of L (M # Ls) = root_of M Ls" by (simp add: root_of_def)
  ultimately have "descend (length (M # Ls) + n) x False (root_of L (M # Ls)) (s\<lparr>ix_pins := add_mset (root_of L (M # Ls)) P\<rparr>) =
    descend n x False c (s\<lparr>ix_pins := add_mset c P\<rparr>)" for n
    using q(3) [of "Suc n"] by (simp del: descend.simps)
  then show ?case using c(2,3) by blast
qed

lemma page_count:
  assumes "distinct ps" "\<forall>p \<in> set ps. 1 \<le> p \<and> p < n"
  shows "length ps < Suc (nat n)"
proof -
  have "set ps \<subseteq> {1..<n}" using assms(2) by auto
  then have "card (set ps) \<le> card {1..<n}" by (intro card_mono) auto
  then show ?thesis using distinct_card [OF assms(1)] by simp
qed

lemma concat_length: "\<forall>M \<in> set Ls. M \<noteq> [] \<Longrightarrow> length Ls \<le> length (concat Ls)"
  by (induction Ls) (auto simp: Suc_le_eq simp flip: length_greater_0_conv)

lemma tree_okD:
  assumes "tree_ok s L Ls"
  shows "hdr_cfg_ok (ix_hdr s)" "level_ok (ix_hdr s) (ix_nodes s) L" "above (ix_hdr s) {} (ix_nodes s) L Ls"
    "pages_ok s (concat (L # Ls))" "leaves_ok s L" "ixh_root_page (ix_hdr s) = root_of L Ls"
    "good_entries (ix_hdr s) (row (ix_nodes s) L)" "nonempty_level (ix_nodes s) L" "set L \<subseteq> dom (ix_nodes s)"
    "distinct L" "L \<noteq> []" "\<forall>p \<in> set L. nd_leaf (node s p)"
proof -
  show a: "hdr_cfg_ok (ix_hdr s)" "level_ok (ix_hdr s) (ix_nodes s) L" "above (ix_hdr s) {} (ix_nodes s) L Ls"
    "pages_ok s (concat (L # Ls))" "leaves_ok s L" "ixh_root_page (ix_hdr s) = root_of L Ls"
    using assms by (simp_all add: tree_ok_def)
  show "L \<noteq> []" using above_nonempty [OF a(3)] by blast
  then show "nonempty_level (ix_nodes s) L" using level_nonempty [OF a(2,1)] by blast
  show "good_entries (ix_hdr s) (row (ix_nodes s) L)" "\<forall>p \<in> set L. nd_leaf (node s p)" using a(5) by (simp_all add: leaves_ok_def)
  show "set L \<subseteq> dom (ix_nodes s)" using a(2) by (auto simp: level_ok_def)
  show "distinct L" using a(4) by (simp add: pages_ok_def)
qed

lemma tree_fuel:
  assumes "tree_ok s L Ls"
  shows "length Ls < fuel_of s"
proof -
  have d: "set (concat (L # Ls)) \<subseteq> dom (ix_nodes s)" using tree_okD(9) [OF assms] above_dom [OF tree_okD(3) [OF assms]] by auto
  have pg: "distinct (concat (L # Ls))" "\<And>p. ix_nodes s p \<noteq> None \<Longrightarrow> 1 \<le> p \<and> p < ix_next s"
    using tree_okD(4) [OF assms] unfolding pages_ok_def by blast+
  have "length (concat (L # Ls)) < Suc (nat (ix_next s))"
    by (rule page_count [OF pg(1)]) (use pg(2) d in blast)
  moreover have "length (L # Ls) \<le> length (concat (L # Ls))"
    by (rule concat_length) (use above_nonempty [OF tree_okD(3) [OF assms]] in auto)
  ultimately show ?thesis by (simp add: fuel_of_def)
qed

lemma root_in_dom:
  assumes "tree_ok s L Ls"
  shows "ix_nodes s (root_of L Ls) \<noteq> None"
proof -
  have "last (L # Ls) \<noteq> []" "last (L # Ls) \<in> set (L # Ls)" using above_nonempty [OF tree_okD(3) [OF assms]] by auto
  then have "root_of L Ls \<in> set (concat (L # Ls))" unfolding root_of_def by (metis UN_I list.set_sel(1) set_concat)
  then show ?thesis using tree_okD(9) [OF assms] above_dom [OF tree_okD(3) [OF assms]] by auto
qed

lemma find_leaf_ok:
  assumes "tree_ok s L Ls" "good_key (ix_hdr s) x"
  obtains p where "p \<in> set L" "right_page (ix_hdr s) (ix_nodes s) x L p"
    "find_leaf_page x False s = Some (Inr p, s\<lparr>ix_pins := add_mset p (ix_pins s)\<rparr>)"
proof -
  note t = tree_okD [OF assms(1)]
  obtain p where p: "p \<in> set L" "right_page (ix_hdr s) (ix_nodes s) x L p"
    "\<And>n. descend (length Ls + n) x False (root_of L Ls) (s\<lparr>ix_pins := add_mset (root_of L Ls) (ix_pins s)\<rparr>) =
         descend n x False p (s\<lparr>ix_pins := add_mset p (ix_pins s)\<rparr>)"
    using descend_ok [OF t(3,7,8,9) assms(2), of "ix_pins s"] by blast
  obtain m where m: "fuel_of s = length Ls + Suc m" using tree_fuel [OF assms(1)] less_iff_Suc_add by auto
  have "nd_leaf (node s p)" using t(12) p(1) by blast
  then have "descend (Suc m) x False p (s\<lparr>ix_pins := add_mset p (ix_pins s)\<rparr>) = Some (Inr p, s\<lparr>ix_pins := add_mset p (ix_pins s)\<rparr>)"
    by (simp add: node_def)
  then have "find_leaf_page x False s = Some (Inr p, s\<lparr>ix_pins := add_mset p (ix_pins s)\<rparr>)"
    using p(3) [of "Suc m"] m root_in_dom [OF assms(1)] t(6)
    by (auto simp: find_leaf_page_def fetch_node_def fuel_of_def Let_def simp del: descend.simps)
  then show ?thesis using that p(1,2) by blast
qed

subsection \<open>Lookup\<close>

text \<open>The map an index stands for: from the ranks of keys to record ids.\<close>

definition entry_map :: "IxFileHdr \<Rightarrow> entry list \<Rightarrow> int list \<rightharpoonup> Rid" where
  "entry_map h es = map_of (map (\<lambda>e. (rank_of h (fst e), snd e)) es)"

lemma entry_map_append [simp]: "entry_map h (xs @ ys) = entry_map h ys ++ entry_map h xs"
  by (simp add: entry_map_def)

lemma entry_map_simps [simp]: "entry_map h [] = Map.empty" "entry_map h (e # es) = (entry_map h es)(rank_of h (fst e) \<mapsto> snd e)"
  by (simp_all add: entry_map_def)

lemma entry_map_None: "\<forall>e \<in> set es. rank_of h (fst e) \<noteq> r \<Longrightarrow> entry_map h es r = None"
  by (induction es) auto

lemma entry_map_Some: "good_entries h es \<Longrightarrow> e \<in> set es \<Longrightarrow> entry_map h es (rank_of h (fst e)) = Some (snd e)"
proof (induction es)
  case (Cons a es)
  then show ?case by (auto dest: less_imp_neq)
qed simp

lemma entry_map_iff: "good_entries h es \<Longrightarrow> entry_map h es r = None \<longleftrightarrow> (\<forall>e \<in> set es. rank_of h (fst e) \<noteq> r)"
  using entry_map_Some [of h es] entry_map_None [of es h r] by auto

lemma entry_map_right:
  assumes "right_page h N x L p" "good_entries h (row N L)"
  shows "entry_map h (row N L) (rank_of h x) = entry_map h (ents N p) (rank_of h x)"
proof -
  obtain A B where "row N L = row N A @ ents N p @ row N B"
    "\<forall>e \<in> set (row N A). rank_of h (fst e) < rank_of h x" "\<forall>e \<in> set (row N B). rank_of h x < rank_of h (fst e)"
    by (rule right_page_split [OF assms])
  moreover from this have "entry_map h (row N A) (rank_of h x) = None" "entry_map h (row N B) (rank_of h x) = None"
    by (force intro: entry_map_None)+
  ultimately show ?thesis by (simp add: map_add_def split: option.split)
qed

lemma leaf_lookup_map:
  assumes "good_entries h (nd_entries nd)" "good_key h x"
  shows "leaf_lookup h x nd = entry_map h (nd_entries nd) (rank_of h x)"
proof (cases "\<exists>e \<in> set (nd_entries nd). rank_of h (fst e) = rank_of h x")
  case True
  then obtain e where e: "e \<in> set (nd_entries nd)" "rank_of h (fst e) = rank_of h x" by blast
  then show ?thesis using leaf_lookup_present [OF assms e] entry_map_Some [OF assms(1) e(1)] by simp
next
  case False
  then show ?thesis using leaf_lookup_absent [OF assms] entry_map_None [of "nd_entries nd"] by auto
qed

lemma get_value_ok:
  assumes "tree_ok s L Ls" "good_key (ix_hdr s) x"
  shows "get_value x s = Some (Inr (entry_map (ix_hdr s) (row (ix_nodes s) L) (rank_of (ix_hdr s) x)), s)"
proof -
  obtain p where p: "p \<in> set L" "right_page (ix_hdr s) (ix_nodes s) x L p"
    "find_leaf_page x False s = Some (Inr p, s\<lparr>ix_pins := add_mset p (ix_pins s)\<rparr>)" by (rule find_leaf_ok [OF assms])
  have g: "good_entries (ix_hdr s) (nd_entries (node s p))"
    using good_entries_member [OF tree_okD(7) [OF assms(1)] p(1)] by simp
  have "leaf_lookup (ix_hdr s) x (node s p) = entry_map (ix_hdr s) (row (ix_nodes s) L) (rank_of (ix_hdr s) x)"
    using leaf_lookup_map [OF g assms(2)] entry_map_right [OF p(2) tree_okD(7) [OF assms(1)]] by simp
  then show ?thesis using p(3) by (simp add: get_value_def unpin_def node_def)
qed

lemma is_unique_ok:
  assumes "tree_ok s L Ls" "good_key (ix_hdr s) x"
  shows "is_unique x s = Some (Inr (entry_map (ix_hdr s) (row (ix_nodes s) L) (rank_of (ix_hdr s) x)), s)"
proof -
  have "is_unique x s = get_value x s"
    unfolding is_unique_def get_value_def leaf_lookup_def Let_def by (intro arg_cong2 [of _ _ _ _ run_bind] ext refl) simp
  then show ?thesis using get_value_ok [OF assms] by simp
qed

end
