(* ===== verification/Ix_Insert.thy ===== *)
theory Ix_Insert
  imports Ix_Inv
begin

text \<open>
  Insertion into the B+ tree: every step keeps the levels linked, the new entry appears at its place among the entries of
  the leaves, and the pins the operation took are released.
\<close>

subsection \<open>Changing nodes of a level\<close>

lemma upd_simps [simp]:
  "ents (N(p \<mapsto> nd)) q = (if q = p then nd_entries nd else ents N q)"
  "par (N(p \<mapsto> nd)) q = (if q = p then nd_parent nd else par N q)"
  "kids (N(p \<mapsto> nd)) q = (if q = p then map (\<lambda>e. rid_page_no (snd e)) (nd_entries nd) else kids N q)"
  by (simp_all add: ents_def par_def kids_def)

lemma put_simps [simp]:
  "ix_nodes (put p nd s) = (ix_nodes s)(p \<mapsto> nd)" "ix_hdr (put p nd s) = ix_hdr s" "ix_pins (put p nd s) = ix_pins s"
  "ix_next (put p nd s) = ix_next s" "ix_deleted (put p nd s) = ix_deleted s"
  "ix_nodes (unpin p s) = ix_nodes s" "ix_hdr (unpin p s) = ix_hdr s" "ix_pins (unpin p s) = ix_pins s - {#p#}"
  "ix_next (unpin p s) = ix_next s" "ix_deleted (unpin p s) = ix_deleted s"
  "ix_nodes (put_hdr f s) = ix_nodes s" "ix_hdr (put_hdr f s) = f (ix_hdr s)" "ix_pins (put_hdr f s) = ix_pins s"
  "ix_next (put_hdr f s) = ix_next s" "ix_deleted (put_hdr f s) = ix_deleted s"
  by (simp_all add: put_def unpin_def put_hdr_def)

lemma node_put [simp]:
  "node (put p nd s) q = (if q = p then nd else node s q)" "node (unpin p s) q = node s q" "node (put_hdr f s) q = node s q"
  "node (s\<lparr>ix_pins := P\<rparr>) q = node s q"
  by (simp_all add: node_def)

definition first_same :: "(int \<rightharpoonup> ix_node) \<Rightarrow> (int \<rightharpoonup> ix_node) \<Rightarrow> int \<Rightarrow> bool" where
  "first_same N N' c \<longleftrightarrow> (ents N' c \<noteq> [] \<longrightarrow> ents N c \<noteq> [] \<and> fst (hd (ents N' c)) = fst (hd (ents N c)))"

lemma first_same_refl [simp]: "ents N' c = ents N c \<Longrightarrow> first_same N N' c"
  by (simp add: first_same_def)

lemma kids_of_cong: "\<forall>p \<in> set M. ents N' p = ents N p \<Longrightarrow> kids_of N' M = kids_of N M"
  by (induction M) (simp_all add: kids_def)

lemma row_cong: "\<forall>p \<in> set M. ents N' p = ents N p \<Longrightarrow> row N' M = row N M"
  by (induction M) simp_all

lemma kid_in_level: "link_ok h X N L M \<Longrightarrow> p \<in> set M \<Longrightarrow> e \<in> set (ents N p) \<Longrightarrow> rid_page_no (snd e) \<in> set L"
proof -
  assume a: "link_ok h X N L M" "p \<in> set M" "e \<in> set (ents N p)"
  then have "e \<in> set (row N M)" by (auto simp: set_row)
  moreover have "L = map (\<lambda>e. rid_page_no (snd e)) (row N M)" using a(1) kids_of_row by (simp add: link_ok_def)
  ultimately show ?thesis by simp
qed

lemma linkD:
  assumes "link_ok h X N L M"
  shows "kids_of N M = L"
    and "p \<in> set M \<Longrightarrow> \<not> nd_leaf (the (N p)) \<and> ents N p \<noteq> []"
    and "p \<in> set M \<Longrightarrow> e \<in> set (ents N p) \<Longrightarrow> par N (rid_page_no (snd e)) = p \<and> good_key h (fst e)"
    and "p \<in> set M \<Longrightarrow> e \<in> set (ents N p) \<Longrightarrow> rid_page_no (snd e) \<notin> X \<Longrightarrow> ents N (rid_page_no (snd e)) \<noteq> [] \<Longrightarrow>
      fst e = fst (hd (ents N (rid_page_no (snd e))))"
  using assms by (auto simp: link_ok_def child_ok_def Let_def)

lemma link_ok_frame:
  assumes "link_ok h X N L M" "X \<subseteq> X'" "\<forall>p \<in> set M. ents N' p = ents N p \<and> nd_leaf (the (N' p)) = nd_leaf (the (N p))"
    and "\<forall>c \<in> set L. par N' c = par N c \<and> (c \<notin> X' \<longrightarrow> first_same N N' c)"
  shows "link_ok h X' N' L M"
proof -
  have "child_ok X' N' p e" if "p \<in> set M" "e \<in> set (ents N p)" for p e
  proof -
    have c: "rid_page_no (snd e) \<in> set L" by (rule kid_in_level [OF assms(1) that])
    show ?thesis using c assms(2,4) linkD(3,4) [OF assms(1) that] by (auto simp: child_ok_def Let_def first_same_def)
  qed
  then show ?thesis using assms(1,3) kids_of_cong [of M N' N] by (auto simp: link_ok_def)
qed

lemma level_ok_frame: "level_ok h N L \<Longrightarrow> \<forall>p \<in> set L. ents N' p = ents N p \<and> p \<in> dom N' \<Longrightarrow> level_ok h N' L"
  by (auto simp: level_ok_def)

lemma above_frame:
  assumes "above h X N L Ls" "X \<subseteq> X'" "\<forall>p \<in> set (concat Ls). N' p = N p"
    and "\<forall>c \<in> set L. par N' c = par N c \<and> (c \<notin> X' \<longrightarrow> first_same N N' c)"
  shows "above h X' N' L Ls"
  using assms
proof (induction Ls arbitrary: L X X')
  case (Cons M Ls)
  have m: "\<forall>p \<in> set M. N' p = N p" using Cons.prems(3) by simp
  then have e: "\<forall>p \<in> set M. ents N' p = ents N p \<and> par N' p = par N p" by (simp add: ents_def par_def)
  have l: "link_ok h X N L M" "level_ok h N M" "above h {} N M Ls" using Cons.prems(1) by simp_all
  have "link_ok h X' N' L M" by (rule link_ok_frame [OF l(1)]) (use Cons.prems(2,4) m e in auto)
  moreover have "level_ok h N' M" by (rule level_ok_frame [OF l(2)]) (use l(2) m e in \<open>auto simp: level_ok_def\<close>)
  moreover have "above h {} N' M Ls" by (rule Cons.IH [OF l(3)]) (use Cons.prems(3) e in auto)
  ultimately show ?case by simp
qed auto

text \<open>Updates that change nothing but keys.\<close>

definition rekeyed :: "int set \<Rightarrow> (int \<rightharpoonup> ix_node) \<Rightarrow> (int \<rightharpoonup> ix_node) \<Rightarrow> bool" where
  "rekeyed S N N' \<longleftrightarrow> (\<forall>q. q \<notin> S \<longrightarrow> N' q = N q) \<and> (\<forall>q. (N' q = None) = (N q = None)) \<and>
     (\<forall>q. kids N' q = kids N q \<and> par N' q = par N q \<and> nd_leaf (the (N' q)) = nd_leaf (the (N q)) \<and>
          nd_prev (the (N' q)) = nd_prev (the (N q)) \<and> nd_next (the (N' q)) = nd_next (the (N q)))"

lemma rekeyed_refl [simp]: "rekeyed S N N"
  by (simp add: rekeyed_def)

lemma rekeyed_trans: "rekeyed S N N1 \<Longrightarrow> rekeyed T N1 N2 \<Longrightarrow> S \<subseteq> U \<Longrightarrow> T \<subseteq> U \<Longrightarrow> rekeyed U N N2"
  unfolding rekeyed_def by (metis subsetD)

lemma rekeyed_outside: "rekeyed S N N' \<Longrightarrow> q \<notin> S \<Longrightarrow> N' q = N q"
  by (simp add: rekeyed_def)

lemma good_key_length: "key_ok ts ls k \<Longrightarrow> length k = sum_list ls"
  by (induction ts ls k rule: key_ok.induct) auto

lemma memcmp_eq: "length a = n \<Longrightarrow> length b = n \<Longrightarrow> memcmp n a b = 0 \<longleftrightarrow> a = b"
proof (induction n arbitrary: a b)
  case (Suc n)
  then show ?case by (cases a; cases b) (auto simp: not_less_iff_gr_or_eq)
qed simp

lemma memcmp_good: "hdr_cfg_ok h \<Longrightarrow> good_key h a \<Longrightarrow> good_key h b \<Longrightarrow> memcmp (ixh_col_tot_len h) a b = 0 \<longleftrightarrow> a = b"
  by (rule memcmp_eq) (simp_all add: hdr_cfg_ok_def good_key_length)

text \<open>The entry of a child in its parent.\<close>

lemma distinct_kids: "distinct (kids_of N M) \<Longrightarrow> q \<in> set M \<Longrightarrow> distinct (kids N q)"
  by (metis append_assoc distinct_append kids_of_simps(2,3) split_list)

lemma parent_entry:
  assumes "link_ok h X N L M" "c \<in> set L" "distinct L"
  obtains q A e B where "q = par N c" "q \<in> set M" "ents N q = A @ e # B" "rid_page_no (snd e) = c"
    "find_child c (the (N q)) = Inr (length A)" "\<forall>e' \<in> set A \<union> set B. rid_page_no (snd e') \<noteq> c" "good_key h (fst e)"
proof -
  obtain e where e: "par N c \<in> set M" "e \<in> set (ents N (par N c))" "rid_page_no (snd e) = c" by (rule link_parent [OF assms(1,2)])
  obtain A B where ab: "ents N (par N c) = A @ e # B" using e(2) by (meson split_list)
  have "distinct (kids N (par N c))" using distinct_kids [of N M] e(1) assms(3) linkD(1) [OF assms(1)] by metis
  moreover have "kids N (par N c) = map (\<lambda>e. rid_page_no (snd e)) A @ c # map (\<lambda>e. rid_page_no (snd e)) B"
    using ab e(3) by (simp add: kids_def)
  ultimately have d: "\<forall>e' \<in> set A \<union> set B. rid_page_no (snd e') \<noteq> c" by auto
  have "find_child c (the (N (par N c))) = Inr (length A)"
  proof (rule find_child_split [of _ _ e B])
    show "nd_entries (the (N (par N c))) = A @ e # B" using ab by (simp add: ents_def)
    show "c \<notin> (\<lambda>e. rid_page_no (snd e)) ` set A" using d by force
  qed (rule e(3))
  moreover have "good_key h (fst e)" using assms(1) e(1,2) by (simp add: link_ok_def)
  ultimately show ?thesis using that [OF refl e(1) ab e(3)] d by blast
qed

lemma maintain_loop_ok:
  assumes "above (ix_hdr s) {cur} (ix_nodes s) L Ls" "cur \<in> set L" "ents (ix_nodes s) cur \<noteq> []"
    "good_key (ix_hdr s) (fst (hd (ents (ix_nodes s) cur)))" "hdr_cfg_ok (ix_hdr s)" "distinct (concat (L # Ls))"
    "\<forall>x \<in> set (concat Ls). 2 \<le> x" "length Ls < n" "p \<notin> set (concat Ls)" "ix_pins s = (if cur \<noteq> p then add_mset cur P else P)"
  shows "\<exists>N'. maintain_loop n p cur s = Some (Inr (), s\<lparr>ix_nodes := N', ix_pins := P\<rparr>) \<and>
    above (ix_hdr s) {} N' L Ls \<and> rekeyed (set (concat Ls)) (ix_nodes s) N'"
  using assms
proof (induction Ls arbitrary: L n cur s)
  case Nil
  obtain m where n: "n = Suc m" using Nil.prems(8) by (cases n) auto
  have "par (ix_nodes s) cur = IX_NO_PAGE" using Nil.prems(1,2) by auto
  then have "maintain_loop n p cur s = Some (Inr (), s\<lparr>ix_nodes := ix_nodes s, ix_pins := P\<rparr>)"
    using n Nil.prems(10) by (auto simp: unpin_def)
  then show ?case using Nil.prems(1) by (intro exI [of _ "ix_nodes s"]) auto
next
  case (Cons M Ls)
  let ?N = "ix_nodes s" and ?h = "ix_hdr s"
  obtain m where n: "n = Suc m" and m: "length Ls < m" using Cons.prems(8) by (cases n) auto
  have link: "link_ok ?h {cur} ?N L M" and lev: "level_ok ?h ?N M" and ab: "above ?h {} ?N M Ls" using Cons.prems(1) by simp_all
  have dL: "distinct L" using Cons.prems(6) by simp
  obtain q A e B where q: "q = par ?N cur" "q \<in> set M" "ents ?N q = A @ e # B" "rid_page_no (snd e) = cur"
    "find_child cur (the (?N q)) = Inr (length A)" "\<forall>e' \<in> set A \<union> set B. rid_page_no (snd e') \<noteq> cur" "good_key ?h (fst e)"
    by (rule parent_entry [OF link Cons.prems(2) dL])
  let ?k = "fst (hd (ents ?N cur))"
  have qm: "q \<in> set (concat (M # Ls))" using q(2) by simp
  have q1: "2 \<le> q" using Cons.prems(7) qm by blast
  then have q2: "q \<noteq> IX_NO_PAGE" by (simp add: IX_NO_PAGE_def)
  have q3: "q \<in> dom ?N" using q(2) lev by (simp add: level_ok_def)
  have q4: "q \<noteq> p" "q \<notin> set (concat Ls)" "q \<notin> set L" "q \<noteq> cur" using Cons.prems(2,6,9) qm q(2) by auto
  let ?s1 = "s\<lparr>ix_pins := add_mset q (ix_pins s)\<rparr>"
  have fetch: "fetch_node q s = Some (Inr (), ?s1)" using q3 by (auto simp: fetch_node_def)
  have keys: "get_key (node s q) (length A) = fst e" "get_key (node s cur) 0 = ?k"
    using q(3) Cons.prems(3) by (simp_all add: get_key_def hd_conv_nth)
  have step: "maintain_loop n p cur s =
      (if fst e = ?k then Some (Inr (), s\<lparr>ix_pins := P\<rparr>)
       else maintain_loop m p q (s\<lparr>ix_nodes := ?N(q \<mapsto> set_key (length A) ?k (the (?N q))), ix_pins := add_mset q P\<rparr>))"
  proof -
    have fc: "find_child cur (node s q) = Inr (length A)" using q(5) by (simp add: node_def)
    have pq: "nd_parent (node s cur) = q" using q(1) by simp
    have mq: "memcmp (ixh_col_tot_len ?h) (fst e) ?k = 0 \<longleftrightarrow> fst e = ?k" by (rule memcmp_good [OF Cons.prems(5) q(7) Cons.prems(4)])
    have st: "(if cur \<noteq> p then unpin cur (put q nd ?s1) else put q nd ?s1) = s\<lparr>ix_nodes := ?N(q \<mapsto> nd), ix_pins := add_mset q P\<rparr>"
      "unpin q (if cur \<noteq> p then unpin cur ?s1 else ?s1) = s\<lparr>ix_pins := P\<rparr>" for nd
      using Cons.prems(10) by (auto simp: unpin_def put_def)
    show ?thesis
      unfolding n maintain_loop.simps Let_def pq if_not_P [OF q2] fetch run_bind_simps node_put fc sum.case keys mq
      using st by (simp add: mq node_def)
  qed
  show ?case
  proof (cases "fst e = ?k")
    case True
    have "child_ok {} ?N p' e'" if "p' \<in> set M" "e' \<in> set (ents ?N p')" for p' e'
    proof (cases "rid_page_no (snd e') = cur")
      case c: True
      then have "p' = q" using link that q(1) by (auto simp: link_ok_def child_ok_def Let_def)
      moreover from this have "e' = e" using that q(3,6) c by auto
      ultimately show ?thesis using True q(1,4) by (simp add: child_ok_def Let_def)
    qed (use link that in \<open>auto simp: link_ok_def child_ok_def Let_def\<close>)
    then have "link_ok ?h {} ?N L M" using link by (auto simp: link_ok_def)
    then show ?thesis using step True lev ab by (intro exI [of _ ?N]) simp
  next
    case False
    let ?nd = "set_key (length A) ?k (the (?N q))"
    let ?N1 = "?N(q \<mapsto> ?nd)"
    have nd: "nd_entries ?nd = A @ (?k, snd e) # B" "nd_parent ?nd = par ?N q" "nd_leaf ?nd = nd_leaf (the (?N q))"
      "nd_prev ?nd = nd_prev (the (?N q))" "nd_next ?nd = nd_next (the (?N q))"
      using q(3) by (simp_all add: set_key_def ents_def par_def ix_get_rid_def)
    have kq: "kids ?N1 x = kids ?N x" for x using nd(1) q(3) by (simp add: kids_def)
    have kM: "kids_of ?N1 M = kids_of ?N M" unfolding kids_of_def kq by (rule refl)
    have chld: "child_ok {} ?N1 p' e' \<and> good_key ?h (fst e')" if "p' \<in> set M" "e' \<in> set (ents ?N1 p')" for p' e'
    proof (cases "e' \<in> set (ents ?N p') \<and> rid_page_no (snd e') \<noteq> cur")
      case True
      then have "rid_page_no (snd e') \<in> set L" using kid_in_level [OF link that(1)] by blast
      then have "rid_page_no (snd e') \<noteq> q" using q4(3) by auto
      then show ?thesis using link True that(1) by (auto simp: link_ok_def child_ok_def Let_def)
    next
      case f: False
      have "p' = q" "e' = (?k, snd e)"
      proof -
        have "p' = q" if c: "e' \<in> set (ents ?N p')" "rid_page_no (snd e') = cur"
          using link c \<open>p' \<in> set M\<close> q(1) by (auto simp: link_ok_def child_ok_def Let_def)
        then show "p' = q" using f that(2) by (auto split: if_splits)
        then show "e' = (?k, snd e)" using f that(2) nd(1) q(3,4,6) by auto
      qed
      then show ?thesis using q(1,4) q4(4) Cons.prems(4) by (simp add: child_ok_def Let_def)
    qed
    have link1: "link_ok ?h {} ?N1 L M"
      unfolding link_ok_def kM using link chld nd(1,3) q(2) by (auto simp: link_ok_def)
    have lev1: "level_ok ?h ?N1 M" using lev nd(1) q(3) by (auto simp: level_ok_def)
    have ab1: "above ?h {q} ?N1 M Ls"
      by (rule above_frame [OF ab]) (use q4(2) nd(2) in \<open>auto simp: first_same_def\<close>)
    have rk: "rekeyed {q} ?N ?N1" using kq nd q3 by (auto simp: rekeyed_def par_def)
    have fk: "good_key ?h (fst (hd (ents ?N1 q)))"
      using chld [OF q(2), of "hd (ents ?N1 q)"] nd(1) by (cases A) auto
    define N1 where "N1 = ?N1"
    have n1: "ents N1 q \<noteq> []" using nd(1) by (simp add: N1_def)
    let ?s2 = "s\<lparr>ix_nodes := N1, ix_pins := add_mset q P\<rparr>"
    have "\<exists>N'. maintain_loop m p q ?s2 = Some (Inr (), ?s2\<lparr>ix_nodes := N', ix_pins := P\<rparr>) \<and>
      above (ix_hdr ?s2) {} N' M Ls \<and> rekeyed (set (concat Ls)) (ix_nodes ?s2) N'"
      by (rule Cons.IH) (use ab1 q(2) n1 fk Cons.prems(5,6,7,9) m q4(1) in \<open>simp_all add: N1_def [symmetric]\<close>)
    then obtain N' where N': "maintain_loop m p q ?s2 = Some (Inr (), s\<lparr>ix_nodes := N', ix_pins := P\<rparr>)"
      "above ?h {} N' M Ls" "rekeyed (set (concat Ls)) ?N1 N'" unfolding N1_def by auto
    have same: "N' x = ?N1 x" if "x \<in> set L \<union> set M" for x
    proof (rule rekeyed_outside [OF N'(3)])
      show "x \<notin> set (concat Ls)" using that Cons.prems(6) by auto
    qed
    then have e': "ents N' x = ents ?N1 x" "par N' x = par ?N1 x" if "x \<in> set L \<union> set M" for x
      using that by (simp_all only: ents_def par_def)
    have "link_ok ?h {} N' L M" by (rule link_ok_frame [OF link1]) (use same e' in auto)
    moreover have "level_ok ?h N' M" by (rule level_ok_frame [OF lev1]) (use same e' lev in \<open>auto simp: level_ok_def\<close>)
    moreover have "rekeyed (set (concat (M # Ls))) ?N N'" by (rule rekeyed_trans [OF rk N'(3)]) (use q(2) in auto)
    ultimately show ?thesis using step False N'(1,2) by (intro exI [of _ N']) (simp add: N1_def)
  qed
qed


subsection \<open>Parent pointers\<close>

definition reparent :: "int \<Rightarrow> int set \<Rightarrow> (int \<rightharpoonup> ix_node) \<Rightarrow> (int \<rightharpoonup> ix_node)" where
  "reparent p C N = (\<lambda>x. if x \<in> C then map_option (\<lambda>nd. nd\<lparr>nd_parent := p\<rparr>) (N x) else N x)"

lemma reparent_simps [simp]:
  "ents (reparent p C N) x = ents N x" "kids (reparent p C N) x = kids N x"
  "nd_leaf (the (reparent p C N x)) = nd_leaf (the (N x))" "nd_prev (the (reparent p C N x)) = nd_prev (the (N x))"
  "nd_next (the (reparent p C N x)) = nd_next (the (N x))" "(reparent p C N x = None) = (N x = None)"
  "dom (reparent p C N) = dom N" "x \<notin> C \<Longrightarrow> reparent p C N x = N x"
  by (cases "N x"; auto simp: reparent_def ents_def kids_def split: if_splits)+

lemma par_reparent: "par (reparent p C N) x = (if x \<in> C \<and> x \<in> dom N then p else par N x)"
  by (cases "N x") (auto simp: reparent_def par_def)

lemma kids_of_reparent [simp]: "kids_of (reparent p C N) M = kids_of N M"
  by (induction M) simp_all

lemma reparent_single: "N c = Some nd \<Longrightarrow> reparent p {c} N = N(c \<mapsto> nd\<lparr>nd_parent := p\<rparr>)"
  by (auto simp: reparent_def fun_eq_iff)

lemma maintain_children_ok:
  assumes "\<not> nd_leaf (node s p)" "\<forall>i \<in> set is. i < length (ents (ix_nodes s) p)"
    "\<forall>i \<in> set is. kids (ix_nodes s) p ! i \<in> dom (ix_nodes s)"
  shows "maintain_children p is s = Some (Inr (), s\<lparr>ix_nodes := reparent p ((\<lambda>i. kids (ix_nodes s) p ! i) ` set is) (ix_nodes s)\<rparr>)"
  using assms
proof (induction "is" arbitrary: s)
  case Nil
  show ?case by (simp add: reparent_def)
next
  case (Cons i "is")
  let ?c = "kids (ix_nodes s) p ! i"
  obtain nd where nd: "ix_nodes s ?c = Some nd" using Cons.prems(3) by auto
  let ?s1 = "s\<lparr>ix_nodes := reparent p {?c} (ix_nodes s)\<rparr>"
  have v: "value_at (node s p) i = ?c"
    using Cons.prems(2) by (simp add: value_at_def ix_get_rid_def kids_def)
  have "maintain_child p i s = Some (Inr (), ?s1)"
    using Cons.prems(1) nd v by (simp add: maintain_child_def fetch_node_def unpin_def put_def node_def reparent_single Let_def)
  moreover have "maintain_children p is ?s1 =
    Some (Inr (), ?s1\<lparr>ix_nodes := reparent p ((\<lambda>i. kids (ix_nodes ?s1) p ! i) ` set is) (ix_nodes ?s1)\<rparr>)"
    by (rule Cons.IH) (use Cons.prems in \<open>auto simp: node_def\<close>)
  moreover have "reparent p K (reparent p {?c} (ix_nodes s)) = reparent p (insert ?c K) (ix_nodes s)" for K
    by (auto simp: reparent_def fun_eq_iff option.map_comp comp_def)
  ultimately show ?case by simp
qed

lemma maintain_children_range:
  assumes "\<not> nd_leaf (node s p)" "ents (ix_nodes s) p = es @ fs" "\<forall>e \<in> set fs. rid_page_no (snd e) \<in> dom (ix_nodes s)"
  shows "maintain_children p [length es..<length (ents (ix_nodes s) p)] s =
    Some (Inr (), s\<lparr>ix_nodes := reparent p ((\<lambda>e. rid_page_no (snd e)) ` set fs) (ix_nodes s)\<rparr>)"
proof -
  let ?is = "[length es..<length (ents (ix_nodes s) p)]"
  have k: "kids (ix_nodes s) p = map (\<lambda>e. rid_page_no (snd e)) es @ map (\<lambda>e. rid_page_no (snd e)) fs"
    using assms(2) by (simp add: kids_def)
  have m: "map (\<lambda>i. kids (ix_nodes s) p ! i) ?is = map (\<lambda>e. rid_page_no (snd e)) fs"
    by (rule nth_equalityI) (simp_all add: assms(2) k nth_append)
  have "(\<lambda>i. kids (ix_nodes s) p ! i) ` set ?is = (\<lambda>e. rid_page_no (snd e)) ` set fs"
    using arg_cong [OF m, of set] by (simp only: set_map)
  moreover have "\<forall>i \<in> set ?is. kids (ix_nodes s) p ! i \<in> dom (ix_nodes s)"
    using assms(3) calculation by (metis (no_types, lifting) image_iff)
  moreover have "\<forall>i \<in> set ?is. i < length (ents (ix_nodes s) p)" by simp
  ultimately show ?thesis using maintain_children_ok [OF assms(1), of ?is] by simp
qed

subsection \<open>Splitting a node\<close>

definition split_nodes :: "IxFileHdr \<Rightarrow> int \<Rightarrow> int \<Rightarrow> ix_node \<Rightarrow> (int \<rightharpoonup> ix_node) \<Rightarrow> (int \<rightharpoonup> ix_node)" where
  "split_nodes h p q nd0 N =
     (let m = get_min_size h
      in N(q \<mapsto> nd0\<lparr>nd_leaf := nd_leaf (the (N p)), nd_parent := par N p, nd_entries := drop m (ents N p)\<rparr>,
           p \<mapsto> (the (N p))\<lparr>nd_entries := take m (ents N p)\<rparr>))"

lemma create_node_ok:
  "create_node s = Some (Inr (ix_next s), s\<lparr>ix_hdr := (ix_hdr s)\<lparr>ixh_num_pages := max (ixh_num_pages (ix_hdr s)) (ix_next s + 1)\<rparr>,
     ix_nodes := (ix_nodes s)(ix_next s \<mapsto> zero_node), ix_next := ix_next s + 1, ix_pins := add_mset (ix_next s) (ix_pins s)\<rparr>)"
  by (simp add: create_node_def put_hdr_def put_def Let_def)

definition grown :: "ix_index \<Rightarrow> (int \<rightharpoonup> ix_node) \<Rightarrow> ix_index" where
  "grown s N = s\<lparr>ix_hdr := (ix_hdr s)\<lparr>ixh_num_pages := max (ixh_num_pages (ix_hdr s)) (ix_next s + 1)\<rparr>,
     ix_nodes := N, ix_next := ix_next s + 1, ix_pins := add_mset (ix_next s) (ix_pins s)\<rparr>"

lemma grown_simps [simp]:
  "ix_nodes (grown s N) = N" "ix_next (grown s N) = ix_next s + 1" "ix_pins (grown s N) = add_mset (ix_next s) (ix_pins s)"
  "ix_deleted (grown s N) = ix_deleted s"
  "ix_hdr (grown s N) = (ix_hdr s)\<lparr>ixh_num_pages := max (ixh_num_pages (ix_hdr s)) (ix_next s + 1)\<rparr>"
  by (simp_all add: grown_def)

lemma put_grown [simp]: "put p nd (grown s N) = grown s (N(p \<mapsto> nd))"
  by (simp add: grown_def put_def)

lemma node_grown [simp]: "node (grown s N) p = the (N p)"
  by (simp add: node_def)

lemma upd_nodes_grown [simp]: "(grown s N)\<lparr>ix_nodes := N'\<rparr> = grown s N'"
  by (simp add: grown_def)

lemma split_internal:
  assumes "\<not> nd_leaf (node s p)" "p \<noteq> ix_next s" "ents (ix_nodes s) p = es @ fs" "length es = get_min_size (ix_hdr s)"
    "\<forall>e \<in> set fs. rid_page_no (snd e) \<in> dom (ix_nodes s)"
  shows "split p s = Some (Inr (ix_next s), grown s (reparent (ix_next s) ((\<lambda>e. rid_page_no (snd e)) ` set fs)
    (split_nodes (ix_hdr s) p (ix_next s) zero_node (ix_nodes s))))"
proof -
  let ?q = "ix_next s"
  define N where "N = split_nodes (ix_hdr s) p ?q zero_node (ix_nodes s)"
  have N: "ents N ?q = [] @ fs" "nd_leaf (the (N ?q)) = False" "dom (ix_nodes s) \<subseteq> dom N"
    using assms by (auto simp: N_def split_nodes_def Let_def node_def ents_def)
  have m: "maintain_children ?q [length ([] :: entry list)..<length (ents (ix_nodes (grown s N)) ?q)] (grown s N) =
    Some (Inr (), (grown s N)\<lparr>ix_nodes := reparent ?q ((\<lambda>e. rid_page_no (snd e)) ` set fs) (ix_nodes (grown s N))\<rparr>)"
    by (rule maintain_children_range) (use N assms(5) in \<open>simp_all add: subset_iff\<close>)
  have min: "get_min_size ((ix_hdr s)\<lparr>ixh_num_pages := x\<rparr>) = get_min_size (ix_hdr s)" for x
    by (simp add: get_min_size_def get_max_size_def)
  have c: "create_node s = Some (Inr ?q, grown s ((ix_nodes s)(?q \<mapsto> zero_node)))"
    by (simp add: create_node_ok grown_def)
  have "split p s = run_bind (maintain_children ?q [0..<length (ents N ?q)] (grown s N)) (\<lambda>_ s4. Some (Inr ?q, s4))"
    using assms(1,2) c N(2) by (simp add: split_def min Let_def node_upd_def insert_pairs_def num_key_def node_def N_def split_nodes_def ents_def par_def fun_upd_twist)
  then show ?thesis using m by (simp add: N_def)
qed

lemma split_leaf:
  assumes "nd_leaf (node s p)" "p \<noteq> ix_next s" "nd_next (node s p) = x" "x \<noteq> p" "x \<noteq> ix_next s" "x \<in> dom (ix_nodes s)"
  shows "split p s = Some (Inr (ix_next s), grown s ((split_nodes (ix_hdr s) p (ix_next s) (zero_node\<lparr>nd_prev := p, nd_next := x\<rparr>)
    ((ix_nodes s)(p \<mapsto> (node s p)\<lparr>nd_next := ix_next s\<rparr>, x \<mapsto> (node s x)\<lparr>nd_prev := ix_next s\<rparr>)))))"
proof -
  let ?q = "ix_next s"
  have c: "create_node s = Some (Inr ?q, grown s ((ix_nodes s)(?q \<mapsto> zero_node)))"
    by (simp add: create_node_ok grown_def)
  have min: "get_min_size ((ix_hdr s)\<lparr>ixh_num_pages := x\<rparr>) = get_min_size (ix_hdr s)" for x
    by (simp add: get_min_size_def get_max_size_def)
  obtain nx where nx: "ix_nodes s x = Some nx" using assms(6) by auto
  have l: "link_leaf p ?q (grown s ((ix_nodes s)(?q \<mapsto> zero_node))) = Some (Inr (), grown s ((ix_nodes s)(?q \<mapsto> zero_node\<lparr>nd_prev := p, nd_next := x\<rparr>,
      p \<mapsto> (node s p)\<lparr>nd_next := ?q\<rparr>, x \<mapsto> (node s x)\<lparr>nd_prev := ?q\<rparr>)))"
    using assms nx by (simp add: link_leaf_def Let_def fetch_node_def unpin_def put_def node_def grown_def)
  show ?thesis
    using assms c l nx by (simp add: split_def min Let_def node_upd_def insert_pairs_def num_key_def node_def split_nodes_def ents_def par_def fun_upd_twist)
qed


subsection \<open>Header changes that do not matter\<close>

definition same_cfg :: "IxFileHdr \<Rightarrow> IxFileHdr \<Rightarrow> bool" where
  "same_cfg h h' \<longleftrightarrow> ixh_col_types h' = ixh_col_types h \<and> ixh_col_lens h' = ixh_col_lens h \<and>
     ixh_col_tot_len h' = ixh_col_tot_len h \<and> ixh_btree_order h' = ixh_btree_order h"

lemma same_cfg_refl [simp]: "same_cfg h h" "same_cfg h (h\<lparr>ixh_num_pages := n\<rparr>)" "same_cfg h (h\<lparr>ixh_root_page := r\<rparr>)"
  "same_cfg h (h\<lparr>ixh_first_leaf := r\<rparr>)" "same_cfg h (h\<lparr>ixh_last_leaf := r\<rparr>)"
  by (simp_all add: same_cfg_def)

lemma same_cfg_trans: "same_cfg h h1 \<Longrightarrow> same_cfg h1 h2 \<Longrightarrow> same_cfg h h2"
  by (simp add: same_cfg_def)

lemma same_cfg_sizes: "same_cfg h h' \<Longrightarrow> get_min_size h' = get_min_size h" "same_cfg h h' \<Longrightarrow> get_max_size h' = get_max_size h"
  "same_cfg h h' \<Longrightarrow> hdr_cfg_ok h' = hdr_cfg_ok h"
  by (simp_all add: same_cfg_def get_min_size_def get_max_size_def hdr_cfg_ok_def)

lemma same_cfg_levels:
  assumes "same_cfg h h'"
  shows "link_ok h' X N L M = link_ok h X N L M" "level_ok h' N L = level_ok h N L" "above h' X N L Ls = above h X N L Ls"
    "good_entries h' es = good_entries h es" "good_key h' k = good_key h k" "rank_of h' k = rank_of h k"
proof -
  show l: "link_ok h' X N L M = link_ok h X N L M" "level_ok h' N L = level_ok h N L" for X L M
    using assms same_cfg_sizes [OF assms] by (simp_all add: link_ok_def level_ok_def same_cfg_def)
  show "above h' X N L Ls = above h X N L Ls" by (induction Ls arbitrary: X L) (simp_all add: l)
  show "good_entries h' es = good_entries h es" "good_key h' k = good_key h k" "rank_of h' k = rank_of h k"
    using assms by (simp_all add: good_entries_def same_cfg_def)
qed

lemma same_cfg_node:
  assumes "same_cfg h h'"
  shows "Compare h' = Compare h" "lower_bound h' = lower_bound h" "upper_bound h' = upper_bound h"
proof -
  show c: "Compare h' = Compare h" using assms by (intro ext) (simp add: Compare_def same_cfg_def)
  show "lower_bound h' = lower_bound h" "upper_bound h' = upper_bound h" by (intro ext; simp add: lower_bound_def upper_bound_def c)+
qed

subsection \<open>A new child in a level\<close>

lemma link_add_child:
  assumes link: "link_ok h {} N (A @ p # B) M" and d: "distinct (A @ p # B)" "distinct M" "q \<notin> set (A @ p # B)" "q \<notin> set M"
    and m: "m = par N p" "ents N m = ea @ e # eb" "rid_page_no (snd e) = p" "m \<notin> set (A @ p # B)"
    and q: "par N q = m" "key = fst (hd (ents N q))" "good_key h key" "ents N q \<noteq> []"
  shows "link_ok h {} (N(m \<mapsto> (the (N m))\<lparr>nd_entries := ea @ e # (key, child_rid q) # eb\<rparr>)) (A @ p # q # B) M"
proof -
  let ?pg = "\<lambda>e. rid_page_no (snd e)"
  define nd where "nd = (the (N m))\<lparr>nd_entries := ea @ e # (key, child_rid q) # eb\<rparr>"
  obtain e0 where "par N p \<in> set M" by (rule link_parent [OF link, of p]) simp
  then obtain C D where M: "M = C @ m # D" using m(1) by (metis split_list)
  have cd: "m \<notin> set C" "m \<notin> set D" using d(2) M by auto
  have kN: "kids_of N C @ (map ?pg ea @ p # map ?pg eb) @ kids_of N D = A @ p # B"
    using linkD(1) [OF link] M m(2,3) by (simp add: kids_def)
  have "kids_of N C @ map ?pg ea = A \<and> map ?pg eb @ kids_of N D = B"
  proof -
    have "(kids_of N C @ map ?pg ea) @ p # (map ?pg eb @ kids_of N D) = A @ p # B" using kN by simp
    moreover from this have "distinct ((kids_of N C @ map ?pg ea) @ p # (map ?pg eb @ kids_of N D))" using d(1) by simp
    ultimately show ?thesis using d(1) by (subst (asm) append_Cons_eq_iff) auto
  qed
  moreover have "kids_of (N(m \<mapsto> nd)) C = kids_of N C" "kids_of (N(m \<mapsto> nd)) D = kids_of N D"
    by (rule kids_of_cong; use cd in auto)+
  ultimately have k1: "kids_of (N(m \<mapsto> nd)) M = A @ p # q # B"
    using M m(3) by (auto simp: nd_def child_rid_def)
  have mM: "m \<in> set M" using M by simp
  have chld: "child_ok {} (N(m \<mapsto> nd)) r f \<and> good_key h (fst f)" if r: "r \<in> set M" and f: "f \<in> set (ents (N(m \<mapsto> nd)) r)" for r f
  proof (cases "f \<in> set (ents N r)")
    case True
    have "?pg f \<in> set (A @ p # B)" by (rule kid_in_level [OF link r True])
    then have "?pg f \<noteq> m" using m(4) by auto
    then show ?thesis using linkD(3,4) [OF link r True] by (simp add: child_ok_def Let_def)
  next
    case False
    then have "r = m" "f = (key, child_rid q)" using f m(2) by (auto simp: nd_def split: if_splits)
    moreover have "q \<noteq> m" using d(4) mM by auto
    ultimately show ?thesis using q by (simp add: child_ok_def child_rid_def Let_def)
  qed
  have "\<not> nd_leaf (the ((N(m \<mapsto> nd)) r)) \<and> ents (N(m \<mapsto> nd)) r \<noteq> []" if "r \<in> set M" for r
    using linkD(2) [OF link that] by (auto simp: nd_def)
  then show ?thesis unfolding nd_def [symmetric] unfolding link_ok_def using k1 chld by blast
qed

lemma link_split:
  assumes link: "link_ok h {} N L (C @ m # D)" and d: "distinct L" "distinct (C @ m # D)" "m2 \<notin> set L" "m2 \<notin> set (C @ m # D)"
    "set L \<inter> set (C @ m # D) = {}" "set L \<subseteq> dom N"
    and sp: "ents N m = es @ fs" "length es = get_min_size h" "es \<noteq> []" "fs \<noteq> []"
    and N': "N' = reparent m2 ((\<lambda>e. rid_page_no (snd e)) ` set fs) (split_nodes h m m2 nd0 N)"
  shows "link_ok h {} N' L (C @ m # m2 # D)"
proof -
  let ?pg = "\<lambda>e. rid_page_no (snd e)" and ?S = "split_nodes h m m2 nd0 N"
  have mm: "m \<noteq> m2" using d(4) by auto
  have S: "ents ?S m = es" "ents ?S m2 = fs" "\<And>x. x \<noteq> m \<Longrightarrow> x \<noteq> m2 \<Longrightarrow> ?S x = N x" "nd_leaf (the (?S m)) = nd_leaf (the (N m))"
    "nd_leaf (the (?S m2)) = nd_leaf (the (N m))" "par ?S m = par N m"
    using mm sp(1,2) by (simp_all add: split_nodes_def Let_def ents_def par_def)
  have oth: "ents ?S x = ents N x" "par ?S x = par N x" if "x \<noteq> m" "x \<noteq> m2" for x using S(3) [OF that] by (simp_all add: ents_def par_def)
  have cd: "m \<notin> set C" "m \<notin> set D" "m2 \<notin> set C" "m2 \<notin> set D" using d(2,4) by auto
  have kc: "kids_of ?S C = kids_of N C" "kids_of ?S D = kids_of N D"
    by (rule kids_of_cong; use cd oth in metis)+
  have kL: "kids_of N' (C @ m # m2 # D) = L"
    using linkD(1) [OF link] kc S(1,2) sp(1) unfolding N' by (simp add: kids_def)
  have fsL: "?pg ` set fs \<subseteq> set L" using kid_in_level [OF link, of m] sp(1) by auto
  have dk: "distinct (map ?pg es @ map ?pg fs)"
  proof -
    have "distinct (kids N m)" by (rule distinct_kids [of N "C @ m # D"]) (use linkD(1) [OF link] d(1) in simp_all)
    then show ?thesis using sp(1) by (simp add: kids_def)
  qed
  have chld: "child_ok {} N' r f \<and> good_key h (fst f)" if r: "r \<in> set (C @ m # m2 # D)" and f: "f \<in> set (ents N' r)" for r f
  proof -
    have "\<exists>r0 \<in> set (C @ m # D). f \<in> set (ents N r0) \<and> (f \<in> set fs \<and> r0 = m \<longrightarrow> r = m2) \<and> (\<not> (f \<in> set fs \<and> r0 = m) \<longrightarrow> r = r0)"
    proof (cases "r = m \<or> r = m2")
      case True
      then show ?thesis using f S(1,2) sp(1) dk mm unfolding N' by (intro bexI [of _ m]) auto
    next
      case False
      then show ?thesis using f r oth [of r] unfolding N' by (intro bexI [of _ r]) auto
    qed
    then obtain r0 where r0: "r0 \<in> set (C @ m # D)" "f \<in> set (ents N r0)"
      "f \<in> set fs \<and> r0 = m \<longrightarrow> r = m2" "\<not> (f \<in> set fs \<and> r0 = m) \<longrightarrow> r = r0" by blast
    note lk = linkD(3,4) [OF link r0(1,2)]
    have pL: "?pg f \<in> set L" by (rule kid_in_level [OF link r0(1,2)])
    then have pne: "?pg f \<noteq> m" "?pg f \<noteq> m2" "?pg f \<in> dom N" using d(3,5,6) by auto
    have "par N' (?pg f) = r"
    proof (cases "?pg f \<in> ?pg ` set fs")
      case True
      then obtain f' where f': "f' \<in> set fs" "?pg f' = ?pg f" by auto
      have "par N (?pg f') = m" using linkD(3) [OF link, of m f'] f'(1) sp(1) by simp
      then have r0m: "r0 = m" using lk(1) f'(2) by simp
      have "f \<in> set fs"
      proof -
        have "f \<in> set es \<or> f \<in> set fs" using r0(2) r0m sp(1) by simp
        moreover have "f \<notin> set es" using dk f' by force
        ultimately show ?thesis by blast
      qed
      then show ?thesis using True r0(3) r0m pne unfolding N' par_reparent by (auto simp: split_nodes_def Let_def)
    next
      case False
      then have "r = r0" using r0(4) by auto
      then show ?thesis using False lk(1) oth(2) [of "?pg f"] pne unfolding N' par_reparent by auto
    qed
    moreover have "ents N' (?pg f) = ents N (?pg f)" using oth(1) [of "?pg f"] pne unfolding N' by simp
    ultimately show ?thesis using lk by (simp add: child_ok_def Let_def)
  qed
  have "\<not> nd_leaf (the (N' r)) \<and> ents N' r \<noteq> []" if r: "r \<in> set (C @ m # m2 # D)" for r
  proof (cases "r = m \<or> r = m2")
    case True
    then show ?thesis using S sp(3,4) linkD(2) [OF link, of m] unfolding N' by auto
  next
    case False
    then show ?thesis using S(3) [of r] oth [of r] linkD(2) [OF link, of r] r unfolding N' by auto
  qed
  then show ?thesis unfolding link_ok_def using kL chld by blast
qed


subsection \<open>Inserting into the parent\<close>

definition bounded :: "ix_index \<Rightarrow> bool" where
  "bounded s \<longleftrightarrow> (\<forall>p. ix_nodes s p \<noteq> None \<longrightarrow> 1 \<le> p \<and> p < ix_next s) \<and> 2 \<le> ix_next s"

text \<open>Outside \<open>S\<close> nothing changes but the parents of pages in \<open>T\<close>.\<close>

definition only_parents :: "int set \<Rightarrow> int set \<Rightarrow> (int \<rightharpoonup> ix_node) \<Rightarrow> (int \<rightharpoonup> ix_node) \<Rightarrow> bool" where
  "only_parents S T N N' \<longleftrightarrow> (\<forall>x. x \<notin> S \<longrightarrow>
     (x \<notin> T \<longrightarrow> N' x = N x) \<and> (\<exists>pp. N' x = map_option (\<lambda>nd. nd\<lparr>nd_parent := pp\<rparr>) (N x)))"

lemma set_parent_id: "map_option (\<lambda>nd. nd\<lparr>nd_parent := par N x\<rparr>) (N x) = N x"
  by (cases "N x") (simp_all add: par_def)

lemma only_parentsI:
  assumes "\<And>x. x \<notin> S \<Longrightarrow> N' x = N x \<or> x \<in> T \<and> (\<exists>pp. N' x = map_option (\<lambda>nd. nd\<lparr>nd_parent := pp\<rparr>) (N x))"
  shows "only_parents S T N N'"
  unfolding only_parents_def
proof (intro allI impI)
  fix x assume "x \<notin> S"
  then consider "N' x = N x" | "x \<in> T" "\<exists>pp. N' x = map_option (\<lambda>nd. nd\<lparr>nd_parent := pp\<rparr>) (N x)" using assms by blast
  then show "(x \<notin> T \<longrightarrow> N' x = N x) \<and> (\<exists>pp. N' x = map_option (\<lambda>nd. nd\<lparr>nd_parent := pp\<rparr>) (N x))"
  proof cases
    case 1
    then show ?thesis using set_parent_id [of N x] by metis
  qed blast
qed

lemma only_parents_refl: "only_parents {} {} N N"
  by (rule only_parentsI) simp

lemma only_parents_ents:
  assumes "only_parents S T N N'" "x \<notin> S"
  shows "ents N' x = ents N x" "nd_leaf (the (N' x)) = nd_leaf (the (N x))" "nd_prev (the (N' x)) = nd_prev (the (N x))"
    "nd_next (the (N' x)) = nd_next (the (N x))" "(N' x = None) = (N x = None)" "x \<in> dom N' \<longleftrightarrow> x \<in> dom N"
proof -
  obtain pp where "N' x = map_option (\<lambda>nd. nd\<lparr>nd_parent := pp\<rparr>) (N x)" using assms by (auto simp: only_parents_def)
  then show "ents N' x = ents N x" "nd_leaf (the (N' x)) = nd_leaf (the (N x))" "nd_prev (the (N' x)) = nd_prev (the (N x))"
    "nd_next (the (N' x)) = nd_next (the (N x))" "(N' x = None) = (N x = None)" "x \<in> dom N' \<longleftrightarrow> x \<in> dom N"
    by (cases "N x"; simp add: ents_def dom_def)+
qed

lemma only_parents_same: "only_parents S T N N' \<Longrightarrow> x \<notin> S \<Longrightarrow> x \<notin> T \<Longrightarrow> N' x = N x"
  by (auto simp: only_parents_def)

lemma only_parents_trans:
  assumes "only_parents S T N N1" "only_parents S' T' N1 N2" "S \<subseteq> U" "S' \<subseteq> U" "T \<subseteq> V" "T' \<subseteq> V \<union> U"
  shows "only_parents U V N N2"
  unfolding only_parents_def
proof (intro allI impI)
  fix x assume x: "x \<notin> U"
  obtain a b where "N1 x = map_option (\<lambda>nd. nd\<lparr>nd_parent := a\<rparr>) (N x)" "N2 x = map_option (\<lambda>nd. nd\<lparr>nd_parent := b\<rparr>) (N1 x)"
    using assms(1-4) x unfolding only_parents_def by blast
  then have "N2 x = map_option (\<lambda>nd. nd\<lparr>nd_parent := b\<rparr>) (N x)" by (simp add: option.map_comp comp_def)
  moreover have "x \<notin> V \<Longrightarrow> N2 x = N x" using assms x unfolding only_parents_def by (metis UnE subsetD)
  ultimately show "(x \<notin> V \<longrightarrow> N2 x = N x) \<and> (\<exists>pp. N2 x = map_option (\<lambda>nd. nd\<lparr>nd_parent := pp\<rparr>) (N x))" by blast
qed

definition inserted :: "ix_index \<Rightarrow> ix_index \<Rightarrow> int list \<Rightarrow> int list list \<Rightarrow> int list list \<Rightarrow> bool" where
  "inserted s s' L Ls Ls' \<longleftrightarrow>
     above (ix_hdr s) {} (ix_nodes s') L Ls' \<and> ixh_root_page (ix_hdr s') = root_of L Ls' \<and>
     distinct (concat Ls') \<and> set (concat Ls') \<subseteq> set (concat Ls) \<union> {ix_next s..<ix_next s'} \<and> ix_next s \<le> ix_next s' \<and> bounded s' \<and>
     same_cfg (ix_hdr s) (ix_hdr s') \<and> ixh_first_leaf (ix_hdr s') = ixh_first_leaf (ix_hdr s) \<and>
     ixh_last_leaf (ix_hdr s') = ixh_last_leaf (ix_hdr s) \<and>
     ix_pins s' = ix_pins s \<and> ix_deleted s' = ix_deleted s \<and>
     only_parents (set (concat Ls) \<union> {ix_next s..}) (set L) (ix_nodes s) (ix_nodes s')"

lemma new_root_ok:
  assumes "bounded s" "p \<in> dom (ix_nodes s)" "q \<in> dom (ix_nodes s)" "p \<noteq> q" "hdr_cfg_ok (ix_hdr s)"
    "ents (ix_nodes s) p \<noteq> []" "ents (ix_nodes s) q \<noteq> []" "key = fst (hd (ents (ix_nodes s) q))" "good_key (ix_hdr s) key"
    "good_key (ix_hdr s) (fst (hd (ents (ix_nodes s) p)))"
  shows "\<exists>s'. new_root p key q s = Some (Inr (), s') \<and> inserted s s' [p, q] [] [[ix_next s]]"
proof -
  let ?r = "ix_next s" and ?N = "ix_nodes s" and ?k0 = "fst (hd (ents (ix_nodes s) p))"
  have pr: "p \<noteq> ?r" "q \<noteq> ?r" "p < ?r" "q < ?r" "2 \<le> ?r" "1 \<le> p" "1 \<le> q" using assms(1-3) unfolding bounded_def by (auto simp: dom_def)
  define root where "root = \<lparr>nd_parent = IX_NO_PAGE, nd_leaf = False, nd_prev = IX_NO_PAGE, nd_next = IX_NO_PAGE,
    nd_entries = [(?k0, child_rid p), (key, child_rid q)]\<rparr>"
  define N' where "N' = ?N(?r \<mapsto> root, p \<mapsto> (the (?N p))\<lparr>nd_parent := ?r\<rparr>, q \<mapsto> (the (?N q))\<lparr>nd_parent := ?r\<rparr>)"
  define s' where "s' = s\<lparr>ix_hdr := (ix_hdr s)\<lparr>ixh_num_pages := max (ixh_num_pages (ix_hdr s)) (?r + 1), ixh_root_page := ?r\<rparr>,
    ix_nodes := N', ix_next := ?r + 1\<rparr>"
  have c: "create_node s = Some (Inr ?r, grown s (?N(?r \<mapsto> zero_node)))" by (simp add: create_node_ok grown_def)
  have k0: "get_key (the (?N p)) 0 = ?k0" using assms(6) by (simp add: get_key_def ents_def hd_conv_nth)
  have run: "new_root p key q s = Some (Inr (), s')"
    using c pr assms(4) k0
    by (simp add: new_root_def Let_def node_upd_def insert_pair_def insert_pairs_def num_key_def N'_def s'_def root_def)
  have ents': "ents N' ?r = [(?k0, child_rid p), (key, child_rid q)]" "ents N' p = ents ?N p" "ents N' q = ents ?N q"
    "par N' p = ?r" "par N' q = ?r" "par N' ?r = IX_NO_PAGE" "\<not> nd_leaf (the (N' ?r))"
    using pr assms(4) by (simp_all add: N'_def root_def ents_def)
  have ab: "above (ix_hdr s) {} N' [p, q] [[?r]]"
    using ents' assms(5-10) by (auto simp: link_ok_def kids_def child_rid_def child_ok_def Let_def level_ok_def hdr_cfg_ok_def N'_def root_def)
  have "bounded s'"
    unfolding bounded_def
  proof (intro conjI allI impI)
    fix x assume "ix_nodes s' x \<noteq> None"
    then have "x = ?r \<or> x = p \<or> x = q \<or> ?N x \<noteq> None" by (auto simp: s'_def N'_def split: if_splits)
    then show "1 \<le> x" "x < ix_next s'" using assms(1) pr by (auto simp: bounded_def s'_def)
  qed (use pr in \<open>simp add: s'_def\<close>)
  moreover have "only_parents {?r..} {p, q} ?N N'"
  proof (rule only_parentsI)
    fix x assume x: "x \<notin> {?r..}"
    show "N' x = ?N x \<or> x \<in> {p, q} \<and> (\<exists>pp. N' x = map_option (\<lambda>nd. nd\<lparr>nd_parent := pp\<rparr>) (?N x))"
      using assms(2,3) x by (auto simp: N'_def)
  qed
  moreover have "same_cfg (ix_hdr s) (ix_hdr s')" by (simp add: s'_def same_cfg_def)
  ultimately have "inserted s s' [p, q] [] [[?r]]"
    using ab by (simp add: inserted_def s'_def root_of_def)
  then show ?thesis using run by blast
qed


text \<open>Page \<open>q\<close> has been split off page \<open>p\<close> and has no entry in the level above yet.\<close>

definition pending :: "ix_index \<Rightarrow> int list \<Rightarrow> int \<Rightarrow> int \<Rightarrow> int list \<Rightarrow> int list list \<Rightarrow> bool" where
  "pending s A p q B Ls \<longleftrightarrow>
     above (ix_hdr s) {} (ix_nodes s) (A @ p # B) Ls \<and> hdr_cfg_ok (ix_hdr s) \<and> bounded s \<and>
     distinct (concat ((A @ p # q # B) # Ls)) \<and> (\<forall>x \<in> set (concat Ls). 2 \<le> x) \<and> set (A @ p # q # B) \<subseteq> dom (ix_nodes s) \<and>
     par (ix_nodes s) q = par (ix_nodes s) p \<and> ents (ix_nodes s) p \<noteq> [] \<and> ents (ix_nodes s) q \<noteq> [] \<and>
     good_key (ix_hdr s) (fst (hd (ents (ix_nodes s) p))) \<and> good_key (ix_hdr s) (fst (hd (ents (ix_nodes s) q))) \<and>
     ixh_root_page (ix_hdr s) = root_of (A @ p # B) Ls"

lemma split_sizes:
  assumes "hdr_cfg_ok h" "length es = get_max_size h"
  shows "length (take (get_min_size h) es) = get_min_size h" "get_min_size h \<le> length (drop (get_min_size h) es)"
    "length (drop (get_min_size h) es) \<le> ixh_btree_order h" "get_min_size h \<le> ixh_btree_order h" "2 \<le> get_min_size h"
proof -
  have o: "3 \<le> ixh_btree_order h" "length es = Suc (ixh_btree_order h)" "get_min_size h = Suc (ixh_btree_order h) div 2"
    using assms by (simp_all add: hdr_cfg_ok_def get_max_size_def get_min_size_def)
  show "length (take (get_min_size h) es) = get_min_size h" "get_min_size h \<le> length (drop (get_min_size h) es)"
    "length (drop (get_min_size h) es) \<le> ixh_btree_order h" "get_min_size h \<le> ixh_btree_order h" "2 \<le> get_min_size h"
    using o(1) unfolding length_take length_drop o(2,3) by linarith+
qed

lemma bounded_upd: "bounded s \<Longrightarrow> p \<in> dom (ix_nodes s) \<Longrightarrow> bounded (s\<lparr>ix_nodes := (ix_nodes s)(p \<mapsto> nd), ix_pins := P\<rparr>)"
  by (auto simp: bounded_def)

lemma bounded_dom: "bounded s \<Longrightarrow> p \<in> dom (ix_nodes s) \<Longrightarrow> p < ix_next s \<and> 1 \<le> p"
  by (auto simp: bounded_def)

text \<open>An internal node with one entry too many is split, and the level below stays linked.\<close>

lemma split_parent:
  assumes link: "link_ok (ix_hdr s) {} (ix_nodes s) L (C @ m # D)" and ab: "above (ix_hdr s) {} (ix_nodes s) (C @ m # D) Ls"
    and cfg: "hdr_cfg_ok (ix_hdr s)" and bd: "bounded s" and ds: "distinct (concat (L # (C @ m # D) # Ls))"
    and ge: "\<forall>x \<in> set (concat ((C @ m # D) # Ls)). 2 \<le> x" and dm: "set L \<subseteq> dom (ix_nodes s)" "set (C @ m # D) \<subseteq> dom (ix_nodes s)"
    and full: "length (ents (ix_nodes s) m) = get_max_size (ix_hdr s)"
    and root: "ixh_root_page (ix_hdr s) = root_of (C @ m # D) Ls"
    and sz: "\<forall>x \<in> set (C @ D). length (ents (ix_nodes s) x) \<le> ixh_btree_order (ix_hdr s) \<and> get_min_size (ix_hdr s) \<le> length (ents (ix_nodes s) x)"
  shows "\<exists>N'. split m s = Some (Inr (ix_next s), grown s N') \<and> link_ok (ix_hdr s) {} N' L (C @ m # ix_next s # D) \<and>
    level_ok (ix_hdr s) N' (C @ m # ix_next s # D) \<and> pending (grown s N') C m (ix_next s) D Ls \<and>
    only_parents {m, ix_next s} (set L) (ix_nodes s) N'"
proof -
  let ?q = "ix_next s" and ?N = "ix_nodes s" and ?h = "ix_hdr s"
  let ?pg = "\<lambda>e. rid_page_no (snd e)"
  define es where "es = take (get_min_size ?h) (ents ?N m)"
  define fs where "fs = drop (get_min_size ?h) (ents ?N m)"
  define N' where "N' = reparent ?q (?pg ` set fs) (split_nodes ?h m ?q zero_node ?N)"
  have ef: "ents ?N m = es @ fs" by (simp add: es_def fs_def)
  have len: "length es = get_min_size ?h" "get_min_size ?h \<le> length fs" "length fs \<le> ixh_btree_order ?h"
    "get_min_size ?h \<le> ixh_btree_order ?h" "2 \<le> get_min_size ?h"
    using split_sizes [OF cfg full] by (simp_all add: es_def fs_def)
  then have ne: "es \<noteq> []" "fs \<noteq> []" by auto
  have fsL: "?pg ` set fs \<subseteq> set L" using kid_in_level [OF link, of m] ef by auto
  have lt: "x < ?q" if "x \<in> set L \<union> set (C @ m # D) \<union> set (concat Ls)" for x
    using that dm above_dom [OF ab] bounded_dom [OF bd] by blast
  have mq: "m \<noteq> ?q" "?q \<notin> set L" "?q \<notin> set (C @ m # D)" "?q \<notin> set (concat Ls)" using lt by force+
  have nl: "\<not> nd_leaf (node s m)" using linkD(2) [OF link, of m] by (simp add: node_def)
  have run: "split m s = Some (Inr ?q, grown s N')"
    unfolding N'_def by (rule split_internal [OF nl mq(1) ef len(1)]) (use fsL dm(1) in auto)
  have dj: "distinct L" "distinct (C @ m # D)" "set L \<inter> set (C @ m # D) = {}" "set L \<inter> set (concat Ls) = {}"
    "set (C @ m # D) \<inter> set (concat Ls) = {}" "distinct (concat Ls)"
    using ds by auto
  have link': "link_ok ?h {} N' L (C @ m # ?q # D)"
    by (rule link_split [OF link dj(1,2) mq(2,3) dj(3) dm(1) ef len(1) ne N'_def])
  have S: "ents N' m = es" "ents N' ?q = fs" "\<And>x. x \<noteq> m \<Longrightarrow> x \<noteq> ?q \<Longrightarrow> ents N' x = ents ?N x"
    using mq(1) unfolding N'_def by (simp_all add: split_nodes_def Let_def es_def fs_def)
  have same: "N' x = ?N x" if "x \<noteq> m" "x \<noteq> ?q" "x \<notin> set L" for x
    using that fsL unfolding N'_def by (subst reparent_simps(8)) (auto simp: split_nodes_def Let_def)
  have pm: "par N' m = par ?N m" "par N' ?q = par ?N m"
    using fsL mq dj(3) unfolding N'_def par_reparent by (auto simp: split_nodes_def Let_def par_def)
  have dom': "dom N' = insert ?q (dom ?N)" using dm(2) unfolding N'_def by (auto simp: split_nodes_def Let_def)
  have lev: "level_ok ?h N' (C @ m # ?q # D)"
  proof -
    have "length (ents N' x) \<le> ixh_btree_order ?h \<and> get_min_size ?h \<le> length (ents N' x)" if "x \<in> set (C @ m # ?q # D)" for x
      using that S sz len by (cases "x = m \<or> x = ?q") auto
    then show ?thesis using dom' dm(2) by (auto simp: level_ok_def)
  qed
  have ab': "above ?h {} N' (C @ m # D) Ls"
  proof (rule above_frame [OF ab])
    show "\<forall>x \<in> set (concat Ls). N' x = ?N x" using same mq(4) dj(4,5) by (metis IntI empty_iff in_set_conv_decomp)
    show "\<forall>c \<in> set (C @ m # D). par N' c = par ?N c \<and> (c \<notin> {} \<longrightarrow> first_same ?N N' c)"
    proof
      fix c assume c: "c \<in> set (C @ m # D)"
      show "par N' c = par ?N c \<and> (c \<notin> {} \<longrightarrow> first_same ?N N' c)"
      proof (cases "c = m")
        case True
        then show ?thesis using pm(1) S(1) ef ne(1) by (simp add: first_same_def)
      next
        case False
        then have "N' c = ?N c" using same [of c] c mq(3) dj(3) by blast
        then show ?thesis by (simp add: par_def ents_def)
      qed
    qed
  qed simp
  have gk: "good_key ?h (fst (hd es))" "good_key ?h (fst (hd fs))"
    using linkD(3) [OF link, of m] ef ne by auto
  have bd': "bounded (grown s N')"
    unfolding bounded_def
  proof (intro conjI allI impI)
    fix x assume "ix_nodes (grown s N') x \<noteq> None"
    then have "x = ?q \<or> x \<in> dom ?N" using dom' by auto
    then show "1 \<le> x" "x < ix_next (grown s N')" using bounded_dom [OF bd] bd by (auto simp: bounded_def)
  qed (use bd in \<open>simp add: bounded_def\<close>)
  have "distinct (concat ((C @ m # ?q # D) # Ls))" using dj(2,5,6) mq by auto
  then have "pending (grown s N') C m ?q D Ls"
    using ab' cfg bd' ge dm(2) dom' pm S(1,2) ne gk root unfolding pending_def
    by (auto simp: same_cfg_levels(3) [OF same_cfg_refl(2)] same_cfg_sizes(3) [OF same_cfg_refl(2)])
  moreover have "only_parents {m, ?q} (set L) ?N N'"
  proof (rule only_parentsI)
    fix x assume "x \<notin> {m, ?q}"
    then show "N' x = ?N x \<or> x \<in> set L \<and> (\<exists>pp. N' x = map_option (\<lambda>nd. nd\<lparr>nd_parent := pp\<rparr>) (?N x))"
      using same [of x] unfolding N'_def by (cases "x \<in> set L") (auto simp: reparent_def split_nodes_def Let_def)
  qed
  ultimately show ?thesis using run link' lev by blast
qed


lemma pendingD:
  assumes "pending s A p q B Ls"
  shows "above (ix_hdr s) {} (ix_nodes s) (A @ p # B) Ls" "hdr_cfg_ok (ix_hdr s)" "bounded s"
    "distinct (concat ((A @ p # q # B) # Ls))" "\<forall>x \<in> set (concat Ls). 2 \<le> x" "set (A @ p # q # B) \<subseteq> dom (ix_nodes s)"
    "par (ix_nodes s) q = par (ix_nodes s) p" "ents (ix_nodes s) p \<noteq> []" "ents (ix_nodes s) q \<noteq> []"
    "good_key (ix_hdr s) (fst (hd (ents (ix_nodes s) p)))" "good_key (ix_hdr s) (fst (hd (ents (ix_nodes s) q)))"
    "ixh_root_page (ix_hdr s) = root_of (A @ p # B) Ls"
  using assms unfolding pending_def by blast+

text \<open>The parent after it got the entry of the new page.\<close>

lemma parent_step:
  assumes pd: "pending s A p q B (M # Ls)"
  obtains m ea e eb N1 s1 where "m \<in> set M" "nd_parent (node s p) = m" "m \<noteq> IX_NO_PAGE" "ents (ix_nodes s) m = ea @ e # eb"
    "N1 = (ix_nodes s)(m \<mapsto> (the (ix_nodes s m))\<lparr>nd_entries := ea @ e # (fst (hd (ents (ix_nodes s) q)), child_rid q) # eb\<rparr>)"
    "s1 = s\<lparr>ix_nodes := N1, ix_pins := add_mset m (ix_pins s)\<rparr>" "link_ok (ix_hdr s) {} N1 (A @ p # q # B) M"
    "above (ix_hdr s) {} N1 M Ls" "bounded s1" "dom N1 = dom (ix_nodes s)"
    "\<And>n. insert_into_parent (Suc n) p (fst (hd (ents (ix_nodes s) q))) q s =
      (if isFull (ix_hdr s) (node s1 m)
       then run_bind (split m s1) (\<lambda>sib s.
              run_bind (insert_into_parent n m (get_key (node s sib) 0) sib s) (\<lambda>_ s. Some (Inr (), unpin m (unpin sib s))))
       else Some (Inr (), unpin m s1))"
proof -
  let ?N = "ix_nodes s" and ?h = "ix_hdr s" and ?key = "fst (hd (ents (ix_nodes s) q))"
  note P = pendingD [OF pd]
  have link: "link_ok ?h {} ?N (A @ p # B) M" and lev: "level_ok ?h ?N M" and ab: "above ?h {} ?N M Ls" using P(1) by simp_all
  have dj: "distinct (A @ p # B)" "distinct M" "q \<notin> set (A @ p # B)" "q \<notin> set M" "set (A @ p # B) \<inter> set M = {}"
    "set M \<inter> set (concat Ls) = {}" using P(4) by auto
  obtain m ea e eb where m: "m = par ?N p" "m \<in> set M" "ents ?N m = ea @ e # eb" "rid_page_no (snd e) = p"
    "find_child p (the (?N m)) = Inr (length ea)"
    by (rule parent_entry [OF link _ dj(1), of p]) auto
  have m2: "m \<noteq> IX_NO_PAGE" "m \<in> dom ?N" using P(5) m(2) lev by (force simp: IX_NO_PAGE_def level_ok_def)+
  have mL: "m \<notin> set (A @ p # B)" "m \<notin> set (concat Ls)" using m(2) dj(5,6) by blast+
  define nd where "nd = (the (?N m))\<lparr>nd_entries := ea @ e # (?key, child_rid q) # eb\<rparr>"
  define N1 where "N1 = ?N(m \<mapsto> nd)"
  define s1 where "s1 = s\<lparr>ix_nodes := N1, ix_pins := add_mset m (ix_pins s)\<rparr>"
  have link1: "link_ok ?h {} N1 (A @ p # q # B) M"
    unfolding N1_def nd_def
    by (rule link_add_child [OF link dj(1-4) m(1,3,4) mL(1)]) (use P(7,9,11) m(1) in auto)
  have ab1: "above ?h {} N1 M Ls"
    by (rule above_frame [OF ab])
      (use mL(2) m(3) in \<open>auto simp: N1_def nd_def first_same_def hd_append par_def\<close>)
  have bd1: "bounded s1" unfolding s1_def N1_def by (rule bounded_upd [OF P(3) m2(2)])
  have fc: "find_child p (node s m) = Inr (length ea)" using m(5) by (simp add: node_def)
  have f: "fetch_node m s = Some (Inr (), s\<lparr>ix_pins := add_mset m (ix_pins s)\<rparr>)" using m2(2) by (auto simp: fetch_node_def)
  have u: "node_upd m (insert_pair (length ea + 1) ?key (child_rid q)) (s\<lparr>ix_pins := add_mset m (ix_pins s)\<rparr>) = Some (Inr (), s1)"
    using m(3) by (simp add: node_upd_def insert_pair_def insert_pairs_def s1_def N1_def nd_def put_def) (simp add: node_def)
  have pm: "nd_parent (node s p) = m" using m(1) by simp
  have nr: "\<not> is_root_page (node s p)" using m2(1) pm by (simp add: is_root_page_def)
  have h1: "ix_hdr s1 = ?h" by (simp add: s1_def)
  have "insert_into_parent (Suc n) p ?key q s =
      (if isFull ?h (node s1 m)
       then run_bind (split m s1) (\<lambda>sib s.
              run_bind (insert_into_parent n m (get_key (node s sib) 0) sib s) (\<lambda>_ s. Some (Inr (), unpin m (unpin sib s))))
       else Some (Inr (), unpin m s1))" for n
    unfolding insert_into_parent.simps Let_def if_not_P [OF nr] pm f run_bind_simps node_put fc sum.case u h1 ..
  then show ?thesis
    by (rule that [OF m(2) pm m2(1) m(3) N1_def [unfolded nd_def] s1_def link1 ab1 bd1, rotated]) (use m2(2) in \<open>auto simp: N1_def\<close>)
qed

lemma insert_into_parent_ok:
  assumes "pending s A p q B Ls" "length Ls < n"
  shows "\<exists>s' Ls'. insert_into_parent n p (fst (hd (ents (ix_nodes s) q))) q s = Some (Inr (), s') \<and> inserted s s' (A @ p # q # B) Ls Ls'"
  using assms
proof (induction Ls arbitrary: n s A p q B)
  case Nil
  note P = pendingD [OF Nil.prems(1)]
  obtain k where n: "n = Suc k" using Nil.prems(2) by (cases n) auto
  have ab: "A = []" "B = []" "par (ix_nodes s) p = IX_NO_PAGE" using P(1) by (auto simp: append_eq_Cons_conv)
  have "p \<noteq> q" using P(4) by auto
  from new_root_ok [OF P(3) _ _ this P(2,8,9) refl P(11,10)] P(6)
  obtain s' where "new_root p (fst (hd (ents (ix_nodes s) q))) q s = Some (Inr (), s')" "inserted s s' [p, q] [] [[ix_next s]]" by auto
  moreover have "is_root_page (node s p)" using ab(3) by (simp add: is_root_page_def)
  ultimately show ?case using n ab(1,2) by auto
next
  case (Cons M Ls)
  let ?N = "ix_nodes s" and ?h = "ix_hdr s" and ?L = "A @ p # q # B"
  note P = pendingD [OF Cons.prems(1)]
  obtain k where n: "n = Suc k" and k: "length Ls < k" using Cons.prems(2) by (cases n) auto
  obtain m ea e eb N1 s1 where m: "m \<in> set M" "nd_parent (node s p) = m" "m \<noteq> IX_NO_PAGE" "ents ?N m = ea @ e # eb"
    "N1 = ?N(m \<mapsto> (the (?N m))\<lparr>nd_entries := ea @ e # (fst (hd (ents ?N q)), child_rid q) # eb\<rparr>)"
    "s1 = s\<lparr>ix_nodes := N1, ix_pins := add_mset m (ix_pins s)\<rparr>" "link_ok ?h {} N1 ?L M"
    "above ?h {} N1 M Ls" "bounded s1" "dom N1 = dom ?N"
    "\<And>n. insert_into_parent (Suc n) p (fst (hd (ents ?N q))) q s =
      (if isFull ?h (node s1 m)
       then run_bind (split m s1) (\<lambda>sib s.
              run_bind (insert_into_parent n m (get_key (node s sib) 0) sib s) (\<lambda>_ s. Some (Inr (), unpin m (unpin sib s))))
       else Some (Inr (), unpin m s1))"
    by (rule parent_step [OF Cons.prems(1)]) (rule that; assumption)
  have lev: "level_ok ?h ?N M" using P(1) by simp
  have e1: "length (ents N1 m) = Suc (length (ents ?N m))" "ents N1 x = ents ?N x" if "x \<noteq> m" for x
    using m(4,5) that by simp_all
  have em: "length (ents N1 m) = Suc (length (ents ?N m))" using m(4,5) by simp
  have n1: "node s1 m = the (N1 m)" "ix_nodes s1 = N1" "ix_hdr s1 = ?h" "ix_next s1 = ix_next s" by (simp_all add: m(6) node_def)
  have op1: "only_parents {m} {} ?N N1" by (rule only_parentsI) (simp add: m(5))
  have domM: "set M \<subseteq> dom ?N" using lev by (auto simp: level_ok_def)
  show ?case
  proof (cases "isFull ?h (node s1 m)")
    case False
    have "length (ents N1 m) \<le> ixh_btree_order ?h"
      using False em lev m(1) n1(1) by (force simp: isFull_def num_key_def get_max_size_def level_ok_def ents_def)
    then have "level_ok ?h N1 M"
      using lev e1(2) em m(10) unfolding level_ok_def by (metis le_SucI)
    moreover have "unpin m s1 = s\<lparr>ix_nodes := N1\<rparr>" by (simp add: m(6) unpin_def)
    moreover have "only_parents (set (concat (M # Ls)) \<union> {ix_next s..}) (set ?L) ?N N1"
      by (rule only_parents_trans [OF op1 only_parents_refl]) (use m(1) in auto)
    moreover have "bounded (s\<lparr>ix_nodes := N1\<rparr>)" using m(9) by (simp add: bounded_def m(6))
    moreover have "distinct (concat (M # Ls))" using P(4) by simp
    moreover have "root_of ?L (M # Ls) = root_of (A @ p # B) (M # Ls)" by (simp add: root_of_def)
    ultimately have "inserted s (unpin m s1) ?L (M # Ls) (M # Ls)"
      using m(7,8) P(12) by (simp add: inserted_def)
    then show ?thesis using m(11) [of k] False n by auto
  next
    case True
    obtain C D where M: "M = C @ m # D" using m(1) by (metis split_list)
    let ?m2 = "ix_next s"
    have full: "length (ents (ix_nodes s1) m) = get_max_size (ix_hdr s1)"
      using True n1 by (simp add: isFull_def num_key_def ents_def)
    have sz: "\<forall>x \<in> set (C @ D). length (ents (ix_nodes s1) x) \<le> ixh_btree_order (ix_hdr s1) \<and>
        get_min_size (ix_hdr s1) \<le> length (ents (ix_nodes s1) x)"
    proof
      fix x assume x: "x \<in> set (C @ D)"
      have "x \<noteq> m" using x P(4) M by auto
      moreover have "2 \<le> length M" using x M by (cases C; cases D) auto
      ultimately show "length (ents (ix_nodes s1) x) \<le> ixh_btree_order (ix_hdr s1) \<and>
        get_min_size (ix_hdr s1) \<le> length (ents (ix_nodes s1) x)"
        using x lev M e1(2) by (auto simp: level_ok_def n1)
    qed
    have "\<exists>N'. split m s1 = Some (Inr (ix_next s1), grown s1 N') \<and> link_ok (ix_hdr s1) {} N' ?L (C @ m # ix_next s1 # D) \<and>
      level_ok (ix_hdr s1) N' (C @ m # ix_next s1 # D) \<and> pending (grown s1 N') C m (ix_next s1) D Ls \<and>
      only_parents {m, ix_next s1} (set ?L) (ix_nodes s1) N'"
      by (rule split_parent [OF _ _ _ m(9)])
        (use m(7,8,10) M P(2,4,5,6,12) full sz domM in \<open>simp_all add: n1 root_of_def\<close>)
    then obtain N3 where N3: "split m s1 = Some (Inr ?m2, grown s1 N3)" "link_ok ?h {} N3 ?L (C @ m # ?m2 # D)"
      "level_ok ?h N3 (C @ m # ?m2 # D)" "pending (grown s1 N3) C m ?m2 D Ls" "only_parents {m, ?m2} (set ?L) N1 N3"
      unfolding n1 by blast
    obtain s4 Ls4 where s4: "insert_into_parent k m (fst (hd (ents N3 ?m2))) ?m2 (grown s1 N3) = Some (Inr (), s4)"
      "inserted (grown s1 N3) s4 (C @ m # ?m2 # D) Ls Ls4"
      using Cons.IH [OF N3(4) k] by auto
    have key: "get_key (the (N3 ?m2)) 0 = fst (hd (ents N3 ?m2))"
      using pendingD(9) [OF N3(4)] by (simp add: get_key_def ents_def hd_conv_nth)
    have run: "insert_into_parent n p (fst (hd (ents ?N q))) q s = Some (Inr (), unpin m (unpin ?m2 s4))"
      using m(11) [of k] True n N3(1) key s4(1) by simp
    let ?N4 = "ix_nodes s4"
    have I: "above ?h {} ?N4 (C @ m # ?m2 # D) Ls4" "ixh_root_page (ix_hdr s4) = root_of (C @ m # ?m2 # D) Ls4"
      "distinct (concat Ls4)" "set (concat Ls4) \<subseteq> set (concat Ls) \<union> {?m2 + 1..<ix_next s4}" "?m2 + 1 \<le> ix_next s4" "bounded s4"
      "same_cfg ?h (ix_hdr s4)" "ixh_first_leaf (ix_hdr s4) = ixh_first_leaf ?h" "ixh_last_leaf (ix_hdr s4) = ixh_last_leaf ?h"
      "ix_pins s4 = add_mset ?m2 (add_mset m (ix_pins s))" "ix_deleted s4 = ix_deleted s"
      "only_parents (set (concat Ls) \<union> {?m2 + 1..}) (set (C @ m # ?m2 # D)) N3 ?N4"
      using s4(2) unfolding inserted_def
      by (auto simp: same_cfg_levels(3) [OF same_cfg_refl(2)] n1 m(6) same_cfg_def)
    note Q = pendingD [OF N3(4)]
    have lt: "x < ?m2" if "x \<in> set ?L \<union> set M \<union> set (concat Ls)" for x
    proof -
      have "above ?h {} ?N M Ls" using P(1) by simp
      then have "x \<in> dom ?N" using that P(6) domM above_dom by blast
      then show ?thesis using bounded_dom [OF P(3)] by blast
    qed
    have out: "x \<notin> set (concat Ls) \<union> {?m2 + 1..}" if "x \<in> set ?L \<union> set (C @ m # ?m2 # D)" for x
    proof -
      have "x \<le> ?m2" using lt [of x] that M by auto
      moreover have "x \<notin> set (concat Ls)" using that P(4) M Q(4) by auto
      ultimately show ?thesis by auto
    qed
    have LT: "x \<notin> set (C @ m # ?m2 # D)" if "x \<in> set ?L" for x
      using that P(4) M lt [of x] by auto
    have "link_ok ?h {} ?N4 ?L (C @ m # ?m2 # D)"
    proof (rule link_ok_frame [OF N3(2)])
      show "\<forall>x \<in> set (C @ m # ?m2 # D). ents ?N4 x = ents N3 x \<and> nd_leaf (the (?N4 x)) = nd_leaf (the (N3 x))"
        using only_parents_ents(1,2) [OF I(12)] out by blast
      show "\<forall>c \<in> set ?L. par ?N4 c = par N3 c \<and> (c \<notin> {} \<longrightarrow> first_same N3 ?N4 c)"
      proof
        fix c assume c: "c \<in> set ?L"
        then have "?N4 c = N3 c" using only_parents_same [OF I(12)] out LT by blast
        then show "par ?N4 c = par N3 c \<and> (c \<notin> {} \<longrightarrow> first_same N3 ?N4 c)" by (simp add: par_def ents_def)
      qed
    qed simp
    moreover have "level_ok ?h ?N4 (C @ m # ?m2 # D)"
    proof (rule level_ok_frame [OF N3(3)])
      have "set (C @ m # ?m2 # D) \<subseteq> dom N3" using N3(3) by (auto simp: level_ok_def)
      then show "\<forall>x \<in> set (C @ m # ?m2 # D). ents ?N4 x = ents N3 x \<and> x \<in> dom ?N4"
        using only_parents_ents(1,6) [OF I(12)] out by blast
    qed
    moreover have "distinct (concat ((C @ m # ?m2 # D) # Ls4))"
    proof -
      have "set (C @ m # ?m2 # D) \<inter> set (concat Ls4) = {}"
      proof (rule equals0I)
        fix x assume x: "x \<in> set (C @ m # ?m2 # D) \<inter> set (concat Ls4)"
        then have "x \<in> set (concat Ls) \<union> {?m2 + 1..}" using I(4) by fastforce
        then show False using out [of x] x by blast
      qed
      moreover have "distinct (C @ m # ?m2 # D)" using Q(4) by (metis concat.simps(2) distinct_append)
      ultimately show ?thesis using I(3) by (simp only: concat.simps distinct_append)
    qed
    moreover have "set (concat ((C @ m # ?m2 # D) # Ls4)) \<subseteq> set (concat (M # Ls)) \<union> {?m2..<ix_next s4}"
      using I(4,5) M by auto
    moreover have "only_parents (set (concat (M # Ls)) \<union> {?m2..}) (set ?L) ?N ?N4"
    proof -
      have "only_parents {m, ?m2} (set ?L) ?N N3" by (rule only_parents_trans [OF op1 N3(5)]) auto
      then show ?thesis by (rule only_parents_trans [OF _ I(12)]) (use M in auto)
    qed
    moreover have "bounded (unpin m (unpin ?m2 s4))" using I(6) by (simp add: bounded_def)
    moreover have "root_of (C @ m # ?m2 # D) Ls4 = root_of ?L ((C @ m # ?m2 # D) # Ls4)" by (simp add: root_of_def)
    ultimately have "inserted s (unpin m (unpin ?m2 s4)) ?L (M # Ls) ((C @ m # ?m2 # D) # Ls4)"
      using I by (simp add: inserted_def)
    then show ?thesis using run by blast
  qed
qed


subsection \<open>The list of leaves\<close>

lemma linked_append: "linked N (xs @ a # ys) \<longleftrightarrow> linked N (xs @ [a]) \<and> linked N (a # ys)"
proof (induction xs)
  case (Cons x xs)
  then show ?case by (cases xs) auto
qed simp

lemma linked_frame:
  assumes "linked N zs" "\<forall>a \<in> set (butlast zs). nd_next (the (N' a)) = nd_next (the (N a))"
    "\<forall>b \<in> set (tl zs). nd_prev (the (N' b)) = nd_prev (the (N b))"
  shows "linked N' zs"
  using assms
proof (induction N zs rule: linked.induct)
  case (1 N a b xs)
  then show ?case by (cases xs) auto
qed simp_all

lemma linked_insert:
  assumes "linked N (xs @ p # y # ys)"
    and "p \<notin> set xs" "p \<notin> set (y # ys)" "q \<notin> set (xs @ p # y # ys)" "y \<notin> set (tl (xs @ [p]))" "y \<notin> set ys"
    and "nd_next (the (N' p)) = q" "nd_prev (the (N' q)) = p" "nd_next (the (N' q)) = y" "nd_prev (the (N' y)) = q"
    and "\<And>z. z \<noteq> p \<Longrightarrow> z \<noteq> q \<Longrightarrow> nd_next (the (N' z)) = nd_next (the (N z))"
    and "\<And>z. z \<noteq> y \<Longrightarrow> z \<noteq> q \<Longrightarrow> nd_prev (the (N' z)) = nd_prev (the (N z))"
  shows "linked N' (xs @ p # q # y # ys)"
proof -
  have l: "linked N (xs @ [p])" "linked N (y # ys)" using assms(1) linked_append [of N xs p "y # ys"] by auto
  have "linked N' (xs @ [p])"
  proof (rule linked_frame [OF l(1)]; intro ballI)
    fix a assume "a \<in> set (butlast (xs @ [p]))"
    then have "a \<noteq> p" "a \<noteq> q" using assms(2,4) by auto
    then show "nd_next (the (N' a)) = nd_next (the (N a))" by (rule assms(11))
  next
    fix b assume b: "b \<in> set (tl (xs @ [p]))"
    then have "b \<in> set (xs @ [p])" by (metis list.set_sel(2) tl_Nil)
    then have "b \<noteq> y" "b \<noteq> q" using b assms(4,5) by auto
    then show "nd_prev (the (N' b)) = nd_prev (the (N b))" by (rule assms(12))
  qed
  moreover have "linked N' (y # ys)"
  proof (rule linked_frame [OF l(2)]; intro ballI)
    fix a assume "a \<in> set (butlast (y # ys))"
    then have "a \<in> set (y # ys)" by (rule in_set_butlastD)
    then have "a \<noteq> p" "a \<noteq> q" using assms(3,4) by auto
    then show "nd_next (the (N' a)) = nd_next (the (N a))" by (rule assms(11))
  next
    fix b assume "b \<in> set (tl (y # ys))"
    then have "b \<noteq> y" "b \<noteq> q" using assms(4,6) by auto
    then show "nd_prev (the (N' b)) = nd_prev (the (N b))" by (rule assms(12))
  qed
  ultimately show ?thesis using assms(7-10) linked_append [of N' xs p "q # y # ys"] by simp
qed

subsection \<open>The leaf after the insertion\<close>

text \<open>A leaf with new entries: its first key is brought to its ancestors.\<close>

lemma update_leaf:
  fixes s p es
  defines "nd \<equiv> (node s p)\<lparr>nd_entries := es\<rparr>"
  assumes t: "tree_ok s L Ls" and p: "p \<in> set L"
    and ch: "c \<Longrightarrow> es \<noteq> [] \<and> good_key (ix_hdr s) (fst (hd es))"
    and keep: "\<not> c \<Longrightarrow> es \<noteq> [] \<Longrightarrow> ents (ix_nodes s) p \<noteq> [] \<and> fst (hd es) = fst (hd (ents (ix_nodes s) p))"
  obtains N2 where "(if c then maintain_parent p (put p nd (s\<lparr>ix_pins := add_mset p (ix_pins s)\<rparr>))
      else Some (Inr (), put p nd (s\<lparr>ix_pins := add_mset p (ix_pins s)\<rparr>))) = Some (Inr (), s\<lparr>ix_nodes := N2, ix_pins := add_mset p (ix_pins s)\<rparr>)"
    "above (ix_hdr s) {} N2 L Ls" "rekeyed (set (concat Ls)) ((ix_nodes s)(p \<mapsto> nd)) N2"
proof -
  let ?N = "ix_nodes s" and ?h = "ix_hdr s"
  note T = tree_okD [OF t]
  define N1 where "N1 = ?N(p \<mapsto> nd)"
  let ?s1 = "s\<lparr>ix_nodes := N1, ix_pins := add_mset p (ix_pins s)\<rparr>"
  have put1: "put p nd (s\<lparr>ix_pins := add_mset p (ix_pins s)\<rparr>) = ?s1" by (simp add: put_def N1_def)
  have "set L \<inter> set (concat Ls) = {}" using T(4) by (auto simp: pages_ok_def)
  then have pL: "p \<notin> set (concat Ls)" using p by blast
  have e1: "ents N1 p = es" "\<And>y. y \<noteq> p \<Longrightarrow> N1 y = ?N y" "par N1 p = par ?N p" by (simp_all add: N1_def nd_def)
  have "\<exists>N2. (if c then maintain_parent p ?s1 else Some (Inr (), ?s1)) =
      Some (Inr (), s\<lparr>ix_nodes := N2, ix_pins := add_mset p (ix_pins s)\<rparr>) \<and> above ?h {} N2 L Ls \<and> rekeyed (set (concat Ls)) N1 N2"
  proof (cases c)
    case True
    note es = ch [OF True]
    have "\<exists>N2. maintain_loop (fuel_of ?s1) p p ?s1 = Some (Inr (), ?s1\<lparr>ix_nodes := N2, ix_pins := add_mset p (ix_pins s)\<rparr>) \<and>
      above (ix_hdr ?s1) {} N2 L Ls \<and> rekeyed (set (concat Ls)) (ix_nodes ?s1) N2"
    proof (rule maintain_loop_ok)
      show "above (ix_hdr ?s1) {p} (ix_nodes ?s1) L Ls"
        using above_frame [OF T(3), of "{p}" N1] pL by (auto simp: N1_def nd_def)
      show "length Ls < fuel_of ?s1" using tree_fuel [OF t] by (simp add: fuel_of_def)
      show "good_key (ix_hdr ?s1) (fst (hd (ents (ix_nodes ?s1) p)))" using es e1(1) by simp
      show "distinct (concat (L # Ls))" "\<forall>y \<in> set (concat Ls). 2 \<le> y" using T(4) by (auto simp: pages_ok_def)
    qed (use T(1) p pL e1 es in simp_all)
    then show ?thesis using True e1(1) es by (simp add: maintain_parent_def)
  next
    case False
    have "above ?h {} N1 L Ls"
    proof (rule above_frame [OF T(3)])
      show "\<forall>y \<in> set (concat Ls). N1 y = ?N y" using pL e1(2) by metis
      show "\<forall>y \<in> set L. par N1 y = par ?N y \<and> (y \<notin> {} \<longrightarrow> first_same ?N N1 y)"
        using e1 keep [OF False] by (auto simp: N1_def nd_def first_same_def)
    qed simp
    then show ?thesis using False by (intro exI [of _ N1]) simp
  qed
  then show ?thesis using that unfolding put1 N1_def by blast
qed

lemma insert_leaf:
  assumes t: "tree_ok s L Ls" and x: "good_key (ix_hdr s) x" and new: "\<forall>e \<in> set (row (ix_nodes s) L). rank_of (ix_hdr s) (fst e) \<noteq> rank_of (ix_hdr s) x"
  obtains A p B E F N2 where "L = A @ p # B" "ents (ix_nodes s) p = E @ F"
    "find_leaf_page x False s = Some (Inr p, s\<lparr>ix_pins := add_mset p (ix_pins s)\<rparr>)"
    "node_insert (ix_hdr s) x v (node s p) = Inr ((node s p)\<lparr>nd_entries := E @ (x, v) # F\<rparr>, Suc (length (ents (ix_nodes s) p)), int (length E))"
    "(if int (length E) = 0 then maintain_parent p (put p ((node s p)\<lparr>nd_entries := E @ (x, v) # F\<rparr>) (s\<lparr>ix_pins := add_mset p (ix_pins s)\<rparr>))
      else Some (Inr (), put p ((node s p)\<lparr>nd_entries := E @ (x, v) # F\<rparr>) (s\<lparr>ix_pins := add_mset p (ix_pins s)\<rparr>))) =
      Some (Inr (), s\<lparr>ix_nodes := N2, ix_pins := add_mset p (ix_pins s)\<rparr>)"
    "above (ix_hdr s) {} N2 L Ls" "good_entries (ix_hdr s) (row (ix_nodes s) A @ (E @ (x, v) # F) @ row (ix_nodes s) B)"
    "rekeyed (set (concat Ls)) ((ix_nodes s)(p \<mapsto> (node s p)\<lparr>nd_entries := E @ (x, v) # F\<rparr>)) N2"
proof -
  let ?N = "ix_nodes s" and ?h = "ix_hdr s"
  note T = tree_okD [OF t]
  obtain p where p: "p \<in> set L" "right_page ?h ?N x L p" "find_leaf_page x False s = Some (Inr p, s\<lparr>ix_pins := add_mset p (ix_pins s)\<rparr>)"
    by (rule find_leaf_ok [OF t x])
  obtain A B where ab: "L = A @ p # B" "row ?N L = row ?N A @ ents ?N p @ row ?N B"
    "\<forall>e \<in> set (row ?N A). rank_of ?h (fst e) < rank_of ?h x" "\<forall>e \<in> set (row ?N B). rank_of ?h x < rank_of ?h (fst e)"
    by (rule right_page_split [OF p(2) T(7)])
  have gp: "good_entries ?h (nd_entries (node s p))" using good_entries_member [OF T(7) p(1)] by simp
  have np: "\<forall>e \<in> set (nd_entries (node s p)). rank_of ?h (fst e) \<noteq> rank_of ?h x" using new ab(2) by simp
  obtain E F where ef: "nd_entries (node s p) = E @ F" "good_entries ?h (E @ (x, v) # F)"
    "\<forall>e \<in> set E. rank_of ?h (fst e) < rank_of ?h x" "\<forall>e \<in> set F. rank_of ?h x < rank_of ?h (fst e)"
    "node_insert ?h x v (node s p) = Inr ((node s p)\<lparr>nd_entries := E @ (x, v) # F\<rparr>, Suc (num_key (node s p)), int (length E))"
    by (rule node_insert_new [OF gp x np])
  have row: "good_entries ?h (row ?N A @ (E @ (x, v) # F) @ row ?N B)" using T(7) ab(2-4) ef(1-4) by auto
  obtain N2 where N2: "(if int (length E) = 0 then maintain_parent p (put p ((node s p)\<lparr>nd_entries := E @ (x, v) # F\<rparr>) (s\<lparr>ix_pins := add_mset p (ix_pins s)\<rparr>))
      else Some (Inr (), put p ((node s p)\<lparr>nd_entries := E @ (x, v) # F\<rparr>) (s\<lparr>ix_pins := add_mset p (ix_pins s)\<rparr>))) =
      Some (Inr (), s\<lparr>ix_nodes := N2, ix_pins := add_mset p (ix_pins s)\<rparr>)" "above ?h {} N2 L Ls"
    "rekeyed (set (concat Ls)) (?N(p \<mapsto> (node s p)\<lparr>nd_entries := E @ (x, v) # F\<rparr>)) N2"
    by (rule update_leaf [OF t p(1), of "int (length E) = 0" "E @ (x, v) # F"]) (use x ef(1) in \<open>cases E; simp\<close>)+
  show ?thesis by (rule that [OF ab(1) _ p(3) _ N2(1,2) row N2(3)]) (use ef(1,5) in simp_all)
qed

text \<open>Splitting a leaf: the same entries in one more page, which takes its place in the list of leaves.\<close>

lemma split_leaf_level:
  fixes s A p B Ls
  defines "N \<equiv> ix_nodes s" and "h \<equiv> ix_hdr s" and "q \<equiv> ix_next s"
  assumes ab: "above h {} N (A @ p # B) Ls" and cfg: "hdr_cfg_ok h" and bd: "bounded s"
    and ds: "distinct (concat ((A @ p # B) # Ls))" and ge: "\<forall>x \<in> set (concat ((A @ p # B) # Ls)). 2 \<le> x"
    and dm: "set (A @ p # B) \<subseteq> dom N" "1 \<in> dom N" and lf: "\<forall>z \<in> set (A @ p # B). nd_leaf (the (N z))"
    and ln: "linked N (1 # (A @ p # B) @ [1])" and gd: "good_entries h (row N (A @ p # B))"
    and full: "length (ents N p) = get_max_size h" and root: "ixh_root_page h = root_of (A @ p # B) Ls"
    and sz: "\<forall>z \<in> set (A @ B). length (ents N z) \<le> ixh_btree_order h \<and> get_min_size h \<le> length (ents N z)"
  shows "\<exists>N3. split p s = Some (Inr q, grown s N3) \<and> pending (grown s N3) A p q B Ls \<and> level_ok h N3 (A @ p # q # B) \<and>
    row N3 (A @ p # q # B) = row N (A @ p # B) \<and> (\<forall>z \<in> set (A @ p # q # B). nd_leaf (the (N3 z))) \<and>
    linked N3 (1 # (A @ p # q # B) @ [1]) \<and> 1 \<in> dom N3 \<and> ents N p = ents N3 p @ ents N3 q"
proof -
  obtain y ys where y: "B @ [1] = y # ys" by (cases "B @ [1]") auto
  have chain: "linked N ((1 # A) @ p # y # ys)" using ln y by simp
  have np: "nd_next (node s p) = y" using chain linked_append [of N "1 # A" p "y # ys"] by (simp add: node_def N_def)
  have lt: "z < q" if "z \<in> set (A @ p # B) \<union> set (concat Ls) \<union> {1}" for z
    using that dm above_dom [OF ab] bounded_dom [OF bd] unfolding N_def q_def by blast
  have pq: "p \<noteq> q" "q \<notin> set (A @ p # B)" "q \<notin> set (concat Ls)" "q \<noteq> 1" using lt by force+
  have ydom: "y \<in> set B \<union> {1}" using y by (cases B) auto
  have "1 \<notin> set (concat ((A @ p # B) # Ls))" using ge by fastforce
  then have dA: "p \<notin> set A" "p \<notin> set B" "set A \<inter> set B = {}" "distinct B" "p \<noteq> 1" "1 \<notin> set A" "1 \<notin> set B" "1 \<notin> set (concat Ls)"
    "set (A @ p # B) \<inter> set (concat Ls) = {}"
    using ds by auto
  have y1: "y \<noteq> p" "y \<noteq> q" "y \<in> dom N" "y \<notin> set (concat Ls)" "y \<notin> set A" "y \<notin> set ys"
  proof -
    show "y \<noteq> p" "y \<notin> set A" using ydom dA by auto
    show "y \<noteq> q" using ydom pq(2,4) by auto
    show "y \<in> dom N" using ydom dm by auto
    show "y \<notin> set (concat Ls)" using ydom dA(8,9) by auto
    show "y \<notin> set ys" using y dA(4,7) by (cases B) auto
  qed
  define m where "m = get_min_size h"
  let ?N1 = "N(p \<mapsto> (node s p)\<lparr>nd_next := q\<rparr>, y \<mapsto> (node s y)\<lparr>nd_prev := q\<rparr>)"
  define N3 where "N3 = split_nodes h p q (zero_node\<lparr>nd_prev := p, nd_next := y\<rparr>) ?N1"
  have run: "split p s = Some (Inr q, grown s N3)"
    unfolding N3_def h_def q_def N_def by (rule split_leaf) (use lf np pq y1 in \<open>simp_all add: node_def N_def q_def\<close>)
  have E: "ents N3 p = take m (ents N p)" "ents N3 q = drop m (ents N p)" "\<And>z. z \<noteq> p \<Longrightarrow> z \<noteq> q \<Longrightarrow> ents N3 z = ents N z"
    "par N3 p = par N p" "par N3 q = par N p" "\<And>z. z \<noteq> p \<Longrightarrow> z \<noteq> q \<Longrightarrow> par N3 z = par N z"
    "nd_leaf (the (N3 p)) = nd_leaf (the (N p))" "nd_leaf (the (N3 q)) = nd_leaf (the (N p))"
    "\<And>z. z \<noteq> p \<Longrightarrow> z \<noteq> q \<Longrightarrow> nd_leaf (the (N3 z)) = nd_leaf (the (N z))"
    using pq(1) y1(1,2) unfolding N3_def m_def by (auto simp: split_nodes_def Let_def node_def N_def ents_def par_def)
  have same: "N3 z = N z" if "z \<notin> {p, q, y}" for z using that by (simp add: N3_def split_nodes_def Let_def)
  have dom3: "dom N3 = insert q (dom N)" using dm(1) y1(3) unfolding N3_def by (auto simp: split_nodes_def Let_def)
  have link3: "linked N3 (1 # (A @ p # q # B) @ [1])"
  proof -
    have "linked N3 ((1 # A) @ p # q # y # ys)"
    proof (rule linked_insert [OF chain])
      have ysB: "set (y # ys) \<subseteq> set B \<union> {1}" using arg_cong [OF y, of set] by auto
      show "p \<notin> set (1 # A)" "p \<notin> set (y # ys)" using dA ysB by auto
      show "q \<notin> set ((1 # A) @ p # y # ys)" using pq ysB by auto
      show "y \<notin> set (tl ((1 # A) @ [p]))" using y1 by simp
    qed (use pq(1) y1 in \<open>auto simp: N3_def split_nodes_def Let_def node_def N_def\<close>)
    then show ?thesis using y by simp
  qed
  have len: "length (take m (ents N p)) = get_min_size h" "get_min_size h \<le> length (drop m (ents N p))"
    "length (drop m (ents N p)) \<le> ixh_btree_order h" "get_min_size h \<le> ixh_btree_order h" "2 \<le> get_min_size h"
    using split_sizes [OF cfg full] by (simp_all only: m_def)
  then have ne: "take m (ents N p) \<noteq> []" "drop m (ents N p) \<noteq> []" by fastforce+
  have lev: "level_ok h N3 (A @ p # q # B)"
  proof -
    have "length (ents N3 z) \<le> ixh_btree_order h \<and> get_min_size h \<le> length (ents N3 z)" if "z \<in> set (A @ p # q # B)" for z
      using that E(1-3) sz len by (cases "z = p \<or> z = q") auto
    then show ?thesis using dom3 dm(1) by (auto simp: level_ok_def)
  qed
  have row3: "row N3 A = row N A" "row N3 B = row N B" by (rule row_cong; use E(3) dA(1,2) pq(2) in force)+
  then have row: "row N3 (A @ p # q # B) = row N (A @ p # B)" using E(1,2) by simp
  have gp: "good_entries h (ents N p)" using good_entries_member [OF gd] by simp
  then have gk: "good_key h (fst (hd (take m (ents N p))))" "good_key h (fst (hd (drop m (ents N p))))"
    using ne unfolding good_entries_def by (meson in_set_dropD in_set_takeD list.set_sel(1))+
  have ab3: "above h {} N3 (A @ p # B) Ls"
  proof (rule above_frame [OF ab])
    show "\<forall>z \<in> set (concat Ls). N3 z = N z" using same y1(4) pq(3) dA(9) by fastforce
    show "\<forall>c \<in> set (A @ p # B). par N3 c = par N c \<and> (c \<notin> {} \<longrightarrow> first_same N N3 c)"
    proof
      fix c assume c: "c \<in> set (A @ p # B)"
      then have "c \<noteq> q" using pq(2) by blast
      then show "par N3 c = par N c \<and> (c \<notin> {} \<longrightarrow> first_same N N3 c)"
        using E len(5) by (cases "c = p") (auto simp: first_same_def m_def hd_take)
    qed
  qed simp
  have bd3: "bounded (grown s N3)"
    unfolding bounded_def
  proof (intro conjI allI impI)
    fix z assume "ix_nodes (grown s N3) z \<noteq> None"
    then have "z = q \<or> z \<in> dom N" using dom3 by auto
    then show "1 \<le> z" "z < ix_next (grown s N3)" using bounded_dom [OF bd] bd by (auto simp: bounded_def q_def N_def)
  qed (use bd in \<open>simp add: bounded_def\<close>)
  have "distinct (concat ((A @ p # q # B) # Ls))" using ds pq by auto
  then have "pending (grown s N3) A p q B Ls"
    using ab3 cfg bd3 ge dm(1) dom3 E(1,2,4,5) ne gk root unfolding pending_def
    by (auto simp: same_cfg_levels(3) [OF same_cfg_refl(2)] same_cfg_sizes(3) [OF same_cfg_refl(2)] h_def)
  moreover have "\<forall>z \<in> set (A @ p # q # B). nd_leaf (the (N3 z))"
  proof
    fix z assume "z \<in> set (A @ p # q # B)"
    then show "nd_leaf (the (N3 z))" using E(7,8,9) lf by (cases "z = p \<or> z = q") auto
  qed
  moreover have "ents N p = ents N3 p @ ents N3 q" "1 \<in> dom N3" using E(1,2) dom3 dm(2) by simp_all
  ultimately show ?thesis using run lev row link3 by - (rule exI [of _ N3], intro conjI; assumption)
qed


subsection \<open>Insertion\<close>

definition added :: "ix_index \<Rightarrow> int list \<Rightarrow> ix_index \<Rightarrow> int list \<Rightarrow> int list list \<Rightarrow> bytes \<Rightarrow> Rid \<Rightarrow> int \<Rightarrow> bool" where
  "added s L s' L' Ls' x v p \<longleftrightarrow> tree_ok s' L' Ls' \<and> p \<in> set L' \<and> (x, v) \<in> set (ents (ix_nodes s') p) \<and> ix_pins s' = ix_pins s \<and>
     same_cfg (ix_hdr s) (ix_hdr s') \<and> (ends_ok s L \<longrightarrow> ends_ok s' L') \<and>
     (\<exists>E F. row (ix_nodes s) L = E @ F \<and> row (ix_nodes s') L' = E @ (x, v) # F)"

lemma rekeyedD: "rekeyed S N N' \<Longrightarrow> nd_next (the (N' q)) = nd_next (the (N q)) \<and> nd_prev (the (N' q)) = nd_prev (the (N q)) \<and> (N' q = None) = (N q = None)"
  by (simp add: rekeyed_def)

lemma linked_rekeyed: "linked N zs \<Longrightarrow> rekeyed S N N' \<Longrightarrow> linked N' zs"
  by (erule linked_frame) (simp_all add: rekeyed_def)

lemma dom_rekeyed: "rekeyed S N N' \<Longrightarrow> dom N' = dom N"
  by (auto simp: rekeyed_def dom_def)

text \<open>The page that holds the new key after a split.\<close>

lemma split_answer:
  assumes "good_entries h (es @ nd_entries nd)" "(x, v) \<in> set (es @ nd_entries nd)" "good_key h x"
  shows "(lower_bound h x nd < num_key nd \<and> Compare h (get_key nd (lower_bound h x nd)) x = 0) \<longleftrightarrow> (x, v) \<in> set (nd_entries nd)"
proof (cases "(x, v) \<in> set (nd_entries nd)")
  case True
  then obtain C D where cd: "nd_entries nd = C @ (x, v) # D" by (meson split_list)
  have g: "good_entries h (nd_entries nd)" using assms(1) by simp
  have "lower_bound h x nd = length C" by (rule key_present(1) [OF g assms(3) cd]) simp
  then show ?thesis using cd compare_rank(3) [OF assms(3,3)] by (simp add: num_key_def get_key_def)
next
  case False
  have g: "good_entries h (nd_entries nd)" using assms(1) by simp
  have "(x, v) \<in> set es" using assms(2) False by simp
  then have ne: "\<forall>e \<in> set (nd_entries nd). rank_of h x < rank_of h (fst e)" using assms(1) by fastforce
  have "Compare h (get_key nd i) x \<noteq> 0" if "i < num_key nd" for i
  proof -
    have i: "nd_entries nd ! i \<in> set (nd_entries nd)" using that by (simp add: num_key_def)
    then have "good_key h (get_key nd i)" "rank_of h x < rank_of h (get_key nd i)" using g ne by (auto simp: good_entries_def get_key_def)
    then show ?thesis using compare_rank(3) [OF _ assms(3), of "get_key nd i"] by auto
  qed
  then show ?thesis using False by blast
qed

lemma insert_entry_new:
  assumes t: "tree_ok s L Ls" and x: "good_key (ix_hdr s) x"
    and new: "\<forall>e \<in> set (row (ix_nodes s) L). rank_of (ix_hdr s) (fst e) \<noteq> rank_of (ix_hdr s) x"
  shows "\<exists>p s' L' Ls'. insert_entry x v s = Some (Inr p, s') \<and> added s L s' L' Ls' x v p"
proof -
  let ?N = "ix_nodes s" and ?h = "ix_hdr s"
  note T = tree_okD [OF t]
  obtain A p B E F N2 where L: "L = A @ p # B" "ents ?N p = E @ F"
    "find_leaf_page x False s = Some (Inr p, s\<lparr>ix_pins := add_mset p (ix_pins s)\<rparr>)"
    "node_insert ?h x v (node s p) = Inr ((node s p)\<lparr>nd_entries := E @ (x, v) # F\<rparr>, Suc (length (ents ?N p)), int (length E))"
    "(if int (length E) = 0 then maintain_parent p (put p ((node s p)\<lparr>nd_entries := E @ (x, v) # F\<rparr>) (s\<lparr>ix_pins := add_mset p (ix_pins s)\<rparr>))
      else Some (Inr (), put p ((node s p)\<lparr>nd_entries := E @ (x, v) # F\<rparr>) (s\<lparr>ix_pins := add_mset p (ix_pins s)\<rparr>))) =
      Some (Inr (), s\<lparr>ix_nodes := N2, ix_pins := add_mset p (ix_pins s)\<rparr>)"
    "above ?h {} N2 L Ls" "good_entries ?h (row ?N A @ (E @ (x, v) # F) @ row ?N B)"
    "rekeyed (set (concat Ls)) (?N(p \<mapsto> (node s p)\<lparr>nd_entries := E @ (x, v) # F\<rparr>)) N2"
    by (rule insert_leaf [OF t x new, of v]) (rule that; assumption)
  let ?nd = "(node s p)\<lparr>nd_entries := E @ (x, v) # F\<rparr>"
  have pg: "distinct (concat (L # Ls))" "\<forall>z \<in> set (concat (L # Ls)). 2 \<le> z" "\<forall>z. ?N z \<noteq> None \<longrightarrow> 1 \<le> z \<and> z < ix_next s" "1 \<in> dom ?N"
    using T(4) by (auto simp: pages_ok_def IX_LEAF_HEADER_PAGE_def)
  have pdom: "p \<in> dom ?N" using T(9) L(1) by auto
  have dj: "set L \<inter> set (concat Ls) = {}" using pg(1) by auto
  have n2: "N2 z = (?N(p \<mapsto> ?nd)) z" if "z \<notin> set (concat Ls)" for z by (rule rekeyed_outside [OF L(8) that])
  have e2: "ents N2 p = E @ (x, v) # F" "\<And>z. z \<in> set (A @ B) \<Longrightarrow> ents N2 z = ents ?N z"
    "\<And>z. z \<in> set L \<Longrightarrow> nd_leaf (the (N2 z)) = nd_leaf (the (?N z))"
  proof -
    have "p \<notin> set (concat Ls)" using L(1) dj by auto
    then show "ents N2 p = E @ (x, v) # F" using n2 [of p] by (simp add: ents_def)
    show "ents N2 z = ents ?N z" if "z \<in> set (A @ B)" for z
    proof -
      have "z \<noteq> p" "z \<notin> set (concat Ls)" using that pg(1) L(1) by auto
      then show ?thesis using n2 [of z] by (simp add: ents_def)
    qed
    show "nd_leaf (the (N2 z)) = nd_leaf (the (?N z))" if "z \<in> set L" for z
    proof -
      have "z \<notin> set (concat Ls)" using that dj by blast
      then show ?thesis using n2 [of z] by (auto simp: node_def)
    qed
  qed
  have row2: "row N2 A = row ?N A" "row N2 B = row ?N B" by (rule row_cong; use e2(2) in simp)+
  have r2: "row N2 L = (row ?N A @ E) @ (x, v) # (F @ row ?N B)" using L(1) e2(1) row2 by simp
  have rN: "row ?N L = (row ?N A @ E) @ (F @ row ?N B)" using L(1,2) by simp
  have rows: "\<exists>E' F'. row ?N L = E' @ F' \<and> row N2 L = E' @ (x, v) # F'" using r2 rN by blast
  have good2: "good_entries ?h (row N2 L)" using L(7) unfolding r2 by simp
  have dom2: "dom N2 = dom ?N" using dom_rekeyed [OF L(8)] pdom by auto
  have pages2: "(N2 z = None) = (?N z = None)" "?N 1 \<noteq> None" for z using dom2 pg(4) by (metis domIff)+
  have ln: "linked ?N (1 # L @ [1])" using T(5) by (simp add: leaves_ok_def IX_LEAF_HEADER_PAGE_def)
  have ln1: "linked (?N(p \<mapsto> ?nd)) (1 # L @ [1])" by (rule linked_frame [OF ln]) (auto simp: node_def)
  have ln2: "linked N2 (1 # L @ [1])" by (rule linked_rekeyed [OF ln1 L(8)])
  let ?s2 = "s\<lparr>ix_nodes := N2, ix_pins := add_mset p (ix_pins s)\<rparr>"
  have nn: "Suc (length (ents ?N p)) \<noteq> num_key (node s p)" by simp
  have run: "insert_entry x v s =
     (if isFull ?h (node ?s2 p)
      then run_bind (split p ?s2) (\<lambda>sib s.
               let s1 = (if p = ixh_last_leaf (ix_hdr s) then put_hdr (\<lambda>h. h\<lparr>ixh_last_leaf := sib\<rparr>) s else s)
               in run_bind (insert_into_parent (fuel_of s1) p (get_key (node s1 sib) 0) sib s1) (\<lambda>_ s.
                 let lb = lower_bound (ix_hdr s) x (node s sib);
                     ret = (if lb < num_key (node s sib) \<and> Compare (ix_hdr s) (get_key (node s sib) lb) x = 0 then sib else p)
                 in Some (Inr ret, unpin sib (unpin p s))))
      else Some (Inr p, unpin p ?s2))"
    unfolding insert_entry_def L(3) run_bind_simps node_put using L(4,5) nn by (simp add: Let_def)
  have hd2: "hd L = 2" "\<forall>z \<in> set L. nd_leaf (the (?N z))" using T(5) by (auto simp: leaves_ok_def IX_INIT_ROOT_PAGE_def node_def)
  have szp: "length (ents ?N p) \<le> ixh_btree_order ?h" using T(2) L(1) by (auto simp: level_ok_def)
  show ?thesis
  proof (cases "isFull ?h (node ?s2 p)")
    case False
    let ?s' = "s\<lparr>ix_nodes := N2\<rparr>"
    have lp: "length (ents N2 p) \<le> ixh_btree_order ?h"
      using False szp L(2) e2(1) by (simp add: isFull_def get_max_size_def)
    have "level_ok ?h N2 L"
      unfolding level_ok_def
    proof (intro conjI impI ballI)
      fix z assume z: "z \<in> set L"
      show "z \<in> dom N2" using z dom2 T(9) by auto
      show "length (ents N2 z) \<le> ixh_btree_order ?h"
        using z lp T(2) e2(2) L(1) by (cases "z = p") (auto simp: level_ok_def)
    next
      fix z assume z: "2 \<le> length L" "z \<in> set L"
      then have "get_min_size ?h \<le> length (ents ?N z)" using T(2) by (simp add: level_ok_def)
      then show "get_min_size ?h \<le> length (ents N2 z)" using z L(1,2) e2 by (cases "z = p") auto
    qed
    then have "tree_ok ?s' L Ls"
      using T(1,6) L(6) pg(1,2,3) pages2 good2 ln2 hd2 e2(3)
      unfolding tree_ok_def pages_ok_def leaves_ok_def by (simp add: node_def IX_LEAF_HEADER_PAGE_def IX_INIT_ROOT_PAGE_def)
    then have "added s L ?s' L Ls x v p"
      unfolding added_def using rows L(1) e2(1) by (simp add: ends_ok_def)
    moreover have "insert_entry x v s = Some (Inr p, ?s')" using run False by (simp add: unpin_def)
    ultimately show ?thesis by blast
  next
    case True
    let ?q = "ix_next s" and ?L' = "A @ p # ix_next s # B"
    have bd: "bounded ?s2"
    proof -
      have "2 < ix_next s" using pg(2,3) L(1) pdom by force
      then show ?thesis using pg(3) pages2(1) unfolding bounded_def by simp
    qed
    have full: "length (ents N2 p) = get_max_size ?h" using True e2(1) by (simp add: isFull_def)
    have sz: "\<forall>z \<in> set (A @ B). length (ents N2 z) \<le> ixh_btree_order ?h \<and> get_min_size ?h \<le> length (ents N2 z)"
    proof
      fix z assume z: "z \<in> set (A @ B)"
      then have "2 \<le> length L" using L(1) by (cases A; cases B) auto
      then show "length (ents N2 z) \<le> ixh_btree_order ?h \<and> get_min_size ?h \<le> length (ents N2 z)"
        using z T(2) L(1) e2(2) [OF z] by (auto simp: level_ok_def)
    qed
    have "\<exists>N3. split p ?s2 = Some (Inr ?q, grown ?s2 N3) \<and> pending (grown ?s2 N3) A p ?q B Ls \<and> level_ok ?h N3 ?L' \<and>
      row N3 ?L' = row N2 (A @ p # B) \<and> (\<forall>z \<in> set ?L'. nd_leaf (the (N3 z))) \<and> linked N3 (1 # ?L' @ [1]) \<and> 1 \<in> dom N3 \<and>
      ents N2 p = ents N3 p @ ents N3 ?q"
      using split_leaf_level [of ?s2 A p B Ls] L(1,6) T(1,6) bd pg(1,2,4) T(9) dom2 hd2(2) e2(3) ln2 good2 full sz by simp
    then obtain N3 where N3: "split p ?s2 = Some (Inr ?q, grown ?s2 N3)" "pending (grown ?s2 N3) A p ?q B Ls" "level_ok ?h N3 ?L'"
      "row N3 ?L' = row N2 (A @ p # B)" "\<forall>z \<in> set ?L'. nd_leaf (the (N3 z))" "linked N3 (1 # ?L' @ [1])" "1 \<in> dom N3"
      "ents N2 p = ents N3 p @ ents N3 ?q" by blast
    define s3 where "s3 = (if p = ixh_last_leaf ?h then put_hdr (\<lambda>h. h\<lparr>ixh_last_leaf := ?q\<rparr>) (grown ?s2 N3) else grown ?s2 N3)"
    have c3: "same_cfg (ix_hdr (grown ?s2 N3)) (ix_hdr s3)" by (simp add: s3_def)
    have s3: "ix_nodes s3 = N3" "ix_next s3 = ?q + 1" "ix_pins s3 = add_mset ?q (add_mset p (ix_pins s))" "same_cfg ?h (ix_hdr s3)"
      "ixh_first_leaf (ix_hdr s3) = ixh_first_leaf ?h" "ixh_last_leaf (ix_hdr s3) = (if p = ixh_last_leaf ?h then ?q else ixh_last_leaf ?h)"
      by (auto simp: s3_def same_cfg_def)
    have pd: "pending s3 A p ?q B Ls"
      using N3(2) unfolding pending_def same_cfg_levels [OF c3] same_cfg_sizes(3) [OF c3] by (auto simp: s3_def bounded_def)
    note P = pendingD [OF pd, unfolded s3]
    have fuel: "length Ls < fuel_of s3"
      using tree_fuel [OF t] bd s3(2) by (auto simp: fuel_of_def bounded_def)
    obtain s4 Ls4 where s4: "insert_into_parent (fuel_of s3) p (fst (hd (ents N3 ?q))) ?q s3 = Some (Inr (), s4)"
      "inserted s3 s4 ?L' Ls Ls4" using insert_into_parent_ok [OF pd fuel] s3(1) by auto
    let ?N4 = "ix_nodes s4"
    have I: "above ?h {} ?N4 ?L' Ls4" "ixh_root_page (ix_hdr s4) = root_of ?L' Ls4" "distinct (concat Ls4)"
      "set (concat Ls4) \<subseteq> set (concat Ls) \<union> {?q + 1..<ix_next s4}" "?q + 1 \<le> ix_next s4" "bounded s4"
      "same_cfg ?h (ix_hdr s4)" "ixh_first_leaf (ix_hdr s4) = ixh_first_leaf ?h" "ixh_last_leaf (ix_hdr s4) = ixh_last_leaf (ix_hdr s3)"
      "ix_pins s4 = add_mset ?q (add_mset p (ix_pins s))" "only_parents (set (concat Ls) \<union> {?q + 1..}) (set ?L') N3 ?N4"
      using s4(2) s3 unfolding inserted_def same_cfg_levels [OF s3(4)] by (auto intro: same_cfg_trans)
    have out: "z \<notin> set (concat Ls) \<union> {?q + 1..}" if z: "z \<in> set (1 # ?L')" for z
    proof -
      have "z \<in> dom N3" using z P(6) N3(7) by auto
      then have "z < ?q + 1" using bounded_dom [OF P(3)] s3(1,2) by auto
      moreover have "z \<notin> set (concat Ls)"
      proof (cases "z = 1")
        case True
        then show ?thesis using P(5) by fastforce
      next
        case False
        then have "z \<in> set ?L'" using z by simp
        then show ?thesis using P(4) by (metis IntI concat.simps(2) distinct_append empty_iff)
      qed
      ultimately show ?thesis by simp
    qed
    note OP = only_parents_ents [OF I(11)]
    have out': "z \<notin> set (concat Ls) \<union> {?q + 1..}" if "z \<in> set ?L'" for z by (rule out [OF list.set_intros(2) [OF that]])
    have e4: "\<forall>z \<in> set ?L'. ents ?N4 z = ents N3 z" using OP(1) [OF out'] by blast
    have row4: "row ?N4 ?L' = row N2 L" using row_cong [OF e4] N3(4) L(1) by metis
    have lev4: "level_ok ?h ?N4 ?L'"
      by (rule level_ok_frame [OF N3(3)]) (use OP(1,6) [OF out'] P(6) in blast)
    have link4: "linked ?N4 (1 # ?L' @ [1])"
      by (rule linked_frame [OF N3(6)]; intro ballI; rule OP(3,4); rule out) (auto dest: in_set_butlastD)
    let ?s' = "unpin ?q (unpin p s4)"
    have pg4: "pages_ok ?s' (concat (?L' # Ls4))"
    proof -
      have "set ?L' \<inter> set (concat Ls4) = {}"
      proof (rule equals0I)
        fix z assume z: "z \<in> set ?L' \<inter> set (concat Ls4)"
        then have "z \<in> set (concat Ls) \<union> {?q + 1..}" using I(4) by fastforce
        then show False using out [of z] z by auto
      qed
      moreover have "distinct ?L'" using P(4) by (metis concat.simps(2) distinct_append)
      ultimately have d: "distinct (concat (?L' # Ls4))" using I(3) by (simp only: concat.simps distinct_append)
      have q2: "2 \<le> ?q" using bd by (simp add: bounded_def)
      have "2 \<le> z" if "z \<in> set (concat (?L' # Ls4))" for z
        using that pg(2) L(1) q2 I(4) by fastforce
      moreover have "1 \<in> dom ?N4" using OP(6) [of 1] out [of 1] N3(7) by simp
      ultimately show ?thesis using d I(6) by (auto simp: pages_ok_def bounded_def IX_LEAF_HEADER_PAGE_def)
    qed
    have "leaves_ok ?s' ?L'"
      unfolding leaves_ok_def
    proof (intro conjI)
      show "\<forall>z \<in> set ?L'. nd_leaf (node ?s' z)" using OP(2) [OF out'] N3(5) by (simp add: node_def)
      show "good_entries (ix_hdr ?s') (row (ix_nodes ?s') ?L')" using same_cfg_levels(4) [OF I(7)] good2 row4 by simp
      show "hd ?L' = IX_INIT_ROOT_PAGE" using hd2(1) L(1) by (cases A) (auto simp: IX_INIT_ROOT_PAGE_def)
      show "linked (ix_nodes ?s') (IX_LEAF_HEADER_PAGE # ?L' @ [IX_LEAF_HEADER_PAGE])" using link4 by (simp add: IX_LEAF_HEADER_PAGE_def)
    qed
    then have tree: "tree_ok ?s' ?L' Ls4"
      using same_cfg_levels(2,3) [OF I(7)] same_cfg_sizes(3) [OF I(7)] T(1) lev4 I(1,2) pg4 unfolding tree_ok_def by simp
    have ends: "ends_ok ?s' ?L'" if "ends_ok s L"
    proof -
      have "p = last L \<longleftrightarrow> B = []"
      proof (cases "B = []")
        case False
        then have "last L \<in> set B" "p \<notin> set B" using L(1) pg(1) by auto
        then show ?thesis using False by auto
      qed (use L(1) in simp)
      moreover have "hd ?L' = hd L" "last ?L' = (if B = [] then ?q else last L)" using L(1) by (cases A; simp)+
      ultimately show ?thesis using that I(8,9) s3(6) by (auto simp: ends_ok_def)
    qed
    let ?ret = "if lower_bound (ix_hdr s4) x (node s4 ?q) < num_key (node s4 ?q) \<and>
        Compare (ix_hdr s4) (get_key (node s4 ?q) (lower_bound (ix_hdr s4) x (node s4 ?q))) x = 0 then ?q else p"
    have q4: "nd_entries (node s4 ?q) = ents N3 ?q" using e4 by simp
    have gp: "good_entries ?h (ents N3 p @ nd_entries (node s4 ?q))" "(x, v) \<in> set (ents N3 p @ nd_entries (node s4 ?q))"
    proof -
      have "ents N3 p @ nd_entries (node s4 ?q) = E @ (x, v) # F" using N3(8) q4 e2(1) by simp
      then show "good_entries ?h (ents N3 p @ nd_entries (node s4 ?q))" "(x, v) \<in> set (ents N3 p @ nd_entries (node s4 ?q))"
        using L(7) by (simp_all only: good_entries_append set_append list.set) simp_all
    qed
    have "(x, v) \<in> set (ents ?N4 ?ret)" "?ret \<in> set ?L'"
      using split_answer [OF gp x] gp(2) q4 e4 unfolding same_cfg_node [OF I(7)] by auto
    then have "added s L ?s' ?L' Ls4 x v ?ret"
      unfolding added_def using tree I(7,10) ends rows by (simp add: row4 del: row_simps)
    moreover have "get_key (node s3 ?q) 0 = fst (hd (ents N3 ?q))"
      using P(9) by (simp add: get_key_def hd_conv_nth s3(1))
    then have "insert_entry x v s = Some (Inr ?ret, ?s')"
      using run True N3(1) s4(1) by (simp add: s3_def Let_def)
    ultimately show ?thesis by blast
  qed
qed

end
