(* ===== verification/Ix_Delete.thy ===== *)
theory Ix_Delete
  imports Ix_Insert
begin

text \<open>
  Deletion from the B+ tree: moving an entry between neighbours and merging neighbours keep the entries of a level and the
  links between levels; a merge leaves the parent one entry shorter and is repeated there.
\<close>

subsection \<open>Two neighbours\<close>

text \<open>The neighbours \<open>l\<close> and \<open>r\<close> have the consecutive entries \<open>el\<close> and \<open>er\<close> in their parent \<open>m\<close>.\<close>

definition siblings :: "(int \<rightharpoonup> ix_node) \<Rightarrow> int list \<Rightarrow> int list \<Rightarrow> int \<Rightarrow> entry list \<Rightarrow> int \<Rightarrow> entry \<Rightarrow> int \<Rightarrow> entry \<Rightarrow> entry list \<Rightarrow> int list \<Rightarrow> int list \<Rightarrow> bool" where
  "siblings N A M m ea l el r er eb B L \<longleftrightarrow> L = A @ l # r # B \<and> m \<in> set M \<and> ents N m = ea @ el # er # eb \<and>
     rid_page_no (snd el) = l \<and> rid_page_no (snd er) = r"

lemma siblings_kids:
  assumes "siblings N A M m ea l el r er eb B L" "link_ok h X N L M" "distinct L" "distinct M"
  obtains C D where "M = C @ m # D" "A = kids_of N C @ map (\<lambda>e. rid_page_no (snd e)) ea"
    "B = map (\<lambda>e. rid_page_no (snd e)) eb @ kids_of N D" "m \<notin> set C" "m \<notin> set D"
proof -
  let ?pg = "\<lambda>e. rid_page_no (snd e)"
  have s: "L = A @ l # r # B" "m \<in> set M" "ents N m = ea @ el # er # eb" "?pg el = l" "?pg er = r"
    using assms(1) by (simp_all add: siblings_def)
  obtain C D where M: "M = C @ m # D" using s(2) by (meson split_list)
  have "(kids_of N C @ map ?pg ea) @ l # (r # map ?pg eb @ kids_of N D) = A @ l # (r # B)"
    using linkD(1) [OF assms(2)] M s by (simp add: kids_def)
  moreover from this have "distinct ((kids_of N C @ map ?pg ea) @ l # (r # map ?pg eb @ kids_of N D))" using assms(3) s(1) by simp
  ultimately have "kids_of N C @ map ?pg ea = A \<and> r # map ?pg eb @ kids_of N D = r # B"
    using assms(3) s(1) by (subst (asm) append_Cons_eq_iff) auto
  then show ?thesis using that [of C D] M assms(4) by auto
qed

lemma link_shift:
  assumes sib: "siblings N A M m ea l el r er eb B L" and link: "link_ok h {} N L M" and d: "distinct L" "distinct M" "set L \<inter> set M = {}"
    and l: "fst (hd (ents N' l)) = fst (hd (ents N l))" "ents N l \<noteq> []"
    and r: "ents N' r \<noteq> []" "good_key h (fst (hd (ents N' r)))"
    and m: "ents N' m = ea @ el # (fst (hd (ents N' r)), snd er) # eb"
    and oth: "\<And>z. z \<in> set L \<union> set M \<Longrightarrow> z \<notin> {l, r, m} \<Longrightarrow> ents N' z = ents N z"
    and keep: "\<And>c. c \<in> set L \<Longrightarrow> par N' c = par N c" "\<And>z. z \<in> set M \<Longrightarrow> nd_leaf (the (N' z)) = nd_leaf (the (N z))"
  shows "link_ok h {} N' L M"
proof -
  let ?pg = "\<lambda>e. rid_page_no (snd e)"
  have s: "L = A @ l # r # B" "m \<in> set M" "ents N m = ea @ el # er # eb" "?pg el = l" "?pg er = r"
    using sib by (simp_all add: siblings_def)
  obtain C D where M: "M = C @ m # D" "A = kids_of N C @ map ?pg ea" "B = map ?pg eb @ kids_of N D" "m \<notin> set C" "m \<notin> set D"
    by (rule siblings_kids [OF sib link d(1,2)])
  have lr: "l \<noteq> r" using s(1) d(1) by auto
  have nM: "l \<notin> set M" "r \<notin> set M" using s(1) d(3) by auto
  have oM: "ents N' z = ents N z" if "z \<in> set M" "z \<noteq> m" for z using oth [of z] that nM by auto
  have kN: "kids_of N' C = kids_of N C" "kids_of N' D = kids_of N D" by (rule kids_of_cong; use oM M(1,4,5) in auto)+
  have k: "kids_of N' M = L" using M(1-3) kN m s(1,4,5) by (simp add: kids_def)
  have chld: "child_ok {} N' p e \<and> good_key h (fst e)" if p: "p \<in> set M" and e: "e \<in> set (ents N' p)" for p e
  proof (cases "e \<in> set (ents N p) \<and> ?pg e \<noteq> r")
    case True
    have c: "?pg e \<in> set L" using kid_in_level [OF link p] True by blast
    then have ne: "?pg e \<noteq> m" using s(2) d(3) by blast
    note lk = linkD(3,4) [OF link p, of e]
    have "ents N' (?pg e) \<noteq> [] \<Longrightarrow> fst e = fst (hd (ents N' (?pg e)))"
      using lk(2) l oth [of "?pg e"] c ne True by (cases "?pg e = l") auto
    then show ?thesis using True lk(1) keep(1) [OF c] by (simp add: child_ok_def Let_def)
  next
    case False
    have "p = m"
    proof (rule ccontr)
      assume "p \<noteq> m"
      then have "e \<in> set (ents N p)" using e oM [OF p] by simp
      then have "par N (?pg e) = p" "?pg e = r" using linkD(3) [OF link p, of e] False by auto
      moreover have "par N r = m" using linkD(3) [OF link s(2), of er] s(3,5) by simp
      ultimately show False using \<open>p \<noteq> m\<close> by simp
    qed
    have "distinct (kids N m)" by (rule distinct_kids [of N M]) (use linkD(1) [OF link] d(1) s(2) in simp_all)
    then have "r \<notin> ?pg ` set (ea @ el # eb)" using s(3,4,5) by (auto simp: kids_def)
    then have er: "e = (fst (hd (ents N' r)), snd er)" using e m False s(3) \<open>p = m\<close> by auto
    have "par N r = m" using linkD(3) [OF link s(2), of er] s(3,5) by simp
    then show ?thesis using er \<open>p = m\<close> r(2) s(1,5) keep(1) [of r] by (simp add: child_ok_def Let_def)
  qed
  have "\<not> nd_leaf (the (N' p)) \<and> ents N' p \<noteq> []" if p: "p \<in> set M" for p
    using linkD(2) [OF link p] keep(2) [OF p] oM [OF p] m by (cases "p = m") auto
  then show ?thesis unfolding link_ok_def using k chld by blast
qed

lemma link_drop:
  assumes sib: "siblings N A M m ea l el r er eb B L" and link: "link_ok h {} N L M" and d: "distinct L" "distinct M" "set L \<inter> set M = {}"
    and l: "ents N' l \<noteq> [] \<Longrightarrow> ents N l \<noteq> [] \<and> fst (hd (ents N' l)) = fst (hd (ents N l))"
    and m: "ents N' m = ea @ el # eb"
    and oth: "\<And>z. z \<in> set L \<union> set M \<Longrightarrow> z \<notin> {l, r, m} \<Longrightarrow> ents N' z = ents N z"
    and keep: "\<And>c. c \<in> set L \<Longrightarrow> c \<noteq> r \<Longrightarrow> par N' c = par N c" "\<And>z. z \<in> set M \<Longrightarrow> nd_leaf (the (N' z)) = nd_leaf (the (N z))"
  shows "link_ok h {} N' (A @ l # B) M"
proof -
  let ?pg = "\<lambda>e. rid_page_no (snd e)"
  have s: "L = A @ l # r # B" "m \<in> set M" "ents N m = ea @ el # er # eb" "?pg el = l" "?pg er = r"
    using sib by (simp_all add: siblings_def)
  obtain C D where M: "M = C @ m # D" "A = kids_of N C @ map ?pg ea" "B = map ?pg eb @ kids_of N D" "m \<notin> set C" "m \<notin> set D"
    by (rule siblings_kids [OF sib link d(1,2)])
  have nM: "l \<notin> set M" "r \<notin> set M" using s(1) d(3) by auto
  have oM: "ents N' z = ents N z" if "z \<in> set M" "z \<noteq> m" for z using oth [of z] that nM by auto
  have kN: "kids_of N' C = kids_of N C" "kids_of N' D = kids_of N D" by (rule kids_of_cong; use oM M(1,4,5) in auto)+
  have k: "kids_of N' M = A @ l # B" using M(1-3) kN m s(4) by (simp add: kids_def)
  have chld: "child_ok {} N' p e \<and> good_key h (fst e)" if p: "p \<in> set M" and e: "e \<in> set (ents N' p)" for p e
  proof -
    have e1: "e \<in> set (ents N p)" using e oM [OF p] m s(3) by (cases "p = m") auto
    have "?pg e \<in> set (kids_of N' M)" using p e by (auto simp: kids_of_row set_row)
    then have "?pg e \<in> set (A @ l # B)" using k by simp
    then have c: "?pg e \<in> set L" "?pg e \<noteq> r" using s(1) d(1) by auto
    then have ne: "?pg e \<noteq> m" using s(2) d(3) by blast
    note lk = linkD(3,4) [OF link p e1]
    have "ents N' (?pg e) \<noteq> [] \<Longrightarrow> fst e = fst (hd (ents N' (?pg e)))"
      using lk(2) l oth [of "?pg e"] c ne by (cases "?pg e = l") auto
    then show ?thesis using lk(1) keep(1) [OF c] by (simp add: child_ok_def Let_def)
  qed
  have "\<not> nd_leaf (the (N' p)) \<and> ents N' p \<noteq> []" if p: "p \<in> set M" for p
    using linkD(2) [OF link p] keep(2) [OF p] oM [OF p] m by (cases "p = m") auto
  then show ?thesis unfolding link_ok_def using k chld by blast
qed

text \<open>The level below two internal neighbours whose entries are divided in another way or joined.\<close>

lemma link_low_shift:
  assumes link: "link_ok h {} N Lo (A @ l # r # B)" and d: "distinct Lo" "distinct (A @ l # r # B)" "set Lo \<inter> set (A @ l # r # B) = {}"
    and lr: "ents N' l @ ents N' r = ents N l @ ents N r" "ents N' l \<noteq> []" "ents N' r \<noteq> []"
    and oth: "\<And>z. z \<in> set Lo \<union> set A \<union> set B \<Longrightarrow> ents N' z = ents N z"
    and parl: "\<And>e. e \<in> set (ents N' l) \<Longrightarrow> par N' (rid_page_no (snd e)) = l"
    and parr: "\<And>e. e \<in> set (ents N' r) \<Longrightarrow> par N' (rid_page_no (snd e)) = r"
    and keep: "\<And>c. c \<in> set Lo \<Longrightarrow> par N c \<notin> {l, r} \<Longrightarrow> par N' c = par N c"
      "\<And>z. z \<in> set (A @ l # r # B) \<Longrightarrow> nd_leaf (the (N' z)) = nd_leaf (the (N z))"
  shows "link_ok h {} N' Lo (A @ l # r # B)"
proof -
  let ?pg = "\<lambda>e. rid_page_no (snd e)"
  have kab: "kids_of N' A = kids_of N A" "kids_of N' B = kids_of N B" by (rule kids_of_cong; use oth in auto)+
  have "kids N' l @ kids N' r = kids N l @ kids N r" using lr(1) unfolding kids_def by (metis map_append)
  then have k: "kids_of N' (A @ l # r # B) = Lo" using linkD(1) [OF link] kab by simp (metis append_assoc)
  have chld: "child_ok {} N' p e \<and> good_key h (fst e)" if p: "p \<in> set (A @ l # r # B)" and e: "e \<in> set (ents N' p)" for p e
  proof -
    have "\<exists>p0 \<in> set (A @ l # r # B). e \<in> set (ents N p0) \<and> (p \<notin> {l, r} \<longrightarrow> p0 = p)"
    proof (cases "p \<in> {l, r}")
      case True
      then have "e \<in> set (ents N' l @ ents N' r)" using e by auto
      then have "e \<in> set (ents N l @ ents N r)" using lr(1) by simp
      then show ?thesis using True by auto
    next
      case False
      then show ?thesis using e p oth [of p] by auto
    qed
    then obtain p0 where p0: "p0 \<in> set (A @ l # r # B)" "e \<in> set (ents N p0)" "p \<notin> {l, r} \<longrightarrow> p0 = p" by blast
    note lk = linkD(3,4) [OF link p0(1,2)]
    have c: "?pg e \<in> set Lo" by (rule kid_in_level [OF link p0(1,2)])
    have "par N' (?pg e) = p" using parl [of e] parr [of e] keep(1) [OF c] lk(1) p0(3) e by (cases "p \<in> {l, r}") auto
    then show ?thesis using lk oth [of "?pg e"] c by (simp add: child_ok_def Let_def)
  qed
  have "\<not> nd_leaf (the (N' p)) \<and> ents N' p \<noteq> []" if p: "p \<in> set (A @ l # r # B)" for p
  proof -
    have "ents N' p \<noteq> []" using linkD(2) [OF link p] lr(2,3) oth [of p] p by (cases "p \<in> {l, r}") auto
    then show ?thesis using linkD(2) [OF link p] keep(2) [OF p] by simp
  qed
  then show ?thesis unfolding link_ok_def using k chld by blast
qed

lemma link_low_merge:
  assumes link: "link_ok h {} N Lo (A @ l # r # B)" and d: "distinct Lo" "distinct (A @ l # r # B)" "set Lo \<inter> set (A @ l # r # B) = {}"
    and lr: "ents N' l = ents N l @ ents N r"
    and oth: "\<And>z. z \<in> set Lo \<union> set A \<union> set B \<Longrightarrow> ents N' z = ents N z"
    and parl: "\<And>e. e \<in> set (ents N' l) \<Longrightarrow> par N' (rid_page_no (snd e)) = l"
    and keep: "\<And>c. c \<in> set Lo \<Longrightarrow> par N c \<notin> {l, r} \<Longrightarrow> par N' c = par N c"
      "\<And>z. z \<in> set (A @ l # B) \<Longrightarrow> nd_leaf (the (N' z)) = nd_leaf (the (N z))"
  shows "link_ok h {} N' Lo (A @ l # B)"
proof -
  let ?pg = "\<lambda>e. rid_page_no (snd e)"
  have kab: "kids_of N' A = kids_of N A" "kids_of N' B = kids_of N B" by (rule kids_of_cong; use oth in auto)+
  have k: "kids_of N' (A @ l # B) = Lo" using linkD(1) [OF link] kab lr by (simp add: kids_def)
  have lrAB: "l \<notin> set A" "l \<notin> set B" "r \<notin> set A" "r \<notin> set B" using d(2) by auto
  have chld: "child_ok {} N' p e \<and> good_key h (fst e)" if p: "p \<in> set (A @ l # B)" and e: "e \<in> set (ents N' p)" for p e
  proof -
    have "\<exists>p0 \<in> set (A @ l # r # B). e \<in> set (ents N p0) \<and> (p \<noteq> l \<longrightarrow> p0 = p)"
      using e p lr oth [of p] by (cases "p = l") auto
    then obtain p0 where p0: "p0 \<in> set (A @ l # r # B)" "e \<in> set (ents N p0)" "p \<noteq> l \<longrightarrow> p0 = p" by blast
    note lk = linkD(3,4) [OF link p0(1,2)]
    have c: "?pg e \<in> set Lo" by (rule kid_in_level [OF link p0(1,2)])
    have "par N' (?pg e) = p"
    proof (cases "p = l")
      case False
      then have "p \<notin> {l, r}" using p lrAB by auto
      then show ?thesis using keep(1) [OF c] lk(1) p0(3) False by simp
    qed (use parl e in blast)
    then show ?thesis using lk oth [of "?pg e"] c by (simp add: child_ok_def Let_def)
  qed
  have "\<not> nd_leaf (the (N' p)) \<and> ents N' p \<noteq> []" if p: "p \<in> set (A @ l # B)" for p
    using linkD(2) [OF link, of p] keep(2) [OF p] lr oth [of p] p by (cases "p = l") auto
  then show ?thesis unfolding link_ok_def using k chld by blast
qed


subsection \<open>What the code does to two neighbours\<close>

definition set_ents :: "int \<Rightarrow> entry list \<Rightarrow> (int \<rightharpoonup> ix_node) \<Rightarrow> (int \<rightharpoonup> ix_node)" where
  "set_ents p es N = N(p \<mapsto> (the (N p))\<lparr>nd_entries := es\<rparr>)"

lemma set_ents_simps [simp]:
  "ents (set_ents p es N) q = (if q = p then es else ents N q)" "par (set_ents p es N) q = par N q"
  "nd_leaf (the (set_ents p es N q)) = nd_leaf (the (N q))" "nd_prev (the (set_ents p es N q)) = nd_prev (the (N q))"
  "nd_next (the (set_ents p es N q)) = nd_next (the (N q))" "dom (set_ents p es N) = insert p (dom N)"
  "q \<noteq> p \<Longrightarrow> set_ents p es N q = N q"
  by (auto simp: set_ents_def par_def ents_def)

definition moved :: "ix_index \<Rightarrow> int \<Rightarrow> entry \<Rightarrow> int set" where
  "moved s p e = (if nd_leaf (node s p) then {} else {rid_page_no (snd e)})"

definition shift_nodes :: "ix_index \<Rightarrow> int \<Rightarrow> entry list \<Rightarrow> int \<Rightarrow> entry list \<Rightarrow> int \<Rightarrow> entry list \<Rightarrow> int \<Rightarrow> entry \<Rightarrow> (int \<rightharpoonup> ix_node)" where
  "shift_nodes s l es r fs m ms p e = reparent p (moved s p e) (set_ents m ms (set_ents r fs (set_ents l es (ix_nodes s))))"

lemma node_upd_ents:
  "f (node s p) = Inr ((node s p)\<lparr>nd_entries := es\<rparr>) \<Longrightarrow> node_upd p f s = Some (Inr (), s\<lparr>ix_nodes := set_ents p es (ix_nodes s)\<rparr>)"
  by (simp add: node_upd_def put_def set_ents_def node_def)

lemma put_set_key: "ents (ix_nodes s) m = ea @ e # eb \<Longrightarrow> i = length ea \<Longrightarrow>
  put m (set_key i k (node s m)) s = s\<lparr>ix_nodes := set_ents m (ea @ (k, snd e) # eb) (ix_nodes s)\<rparr>"
  by (simp add: put_def set_key_def set_ents_def ix_get_rid_def node_def ents_def)

lemma maintain_child_ok:
  assumes "i < length (ents (ix_nodes s) p)" "\<not> nd_leaf (node s p) \<Longrightarrow> rid_page_no (snd (ents (ix_nodes s) p ! i)) \<in> dom (ix_nodes s)"
  shows "maintain_child p i s = Some (Inr (), s\<lparr>ix_nodes := reparent p (moved s p (ents (ix_nodes s) p ! i)) (ix_nodes s)\<rparr>)"
proof (cases "nd_leaf (node s p)")
  case True
  then show ?thesis by (simp add: maintain_child_def moved_def reparent_def)
next
  case False
  then obtain nd where nd: "ix_nodes s (rid_page_no (snd (ents (ix_nodes s) p ! i))) = Some nd" using assms(2) by auto
  have v: "value_at (node s p) i = rid_page_no (snd (ents (ix_nodes s) p ! i))" by (simp add: value_at_def ix_get_rid_def)
  show ?thesis
    using False nd v by (simp add: maintain_child_def moved_def reparent_single fetch_node_def unpin_def put_def Let_def) (simp add: node_def)
qed

lemma moved_upd [simp]: "moved (s\<lparr>ix_nodes := set_ents q es N\<rparr>) p e = moved (s\<lparr>ix_nodes := N\<rparr>) p e"
  by (simp add: moved_def node_def)

lemma redistribute_first:
  assumes "ents (ix_nodes s) p = es" "ents (ix_nodes s) nb = f # fs" "fs \<noteq> []" "ents (ix_nodes s) m = el # er # eb"
    "p \<noteq> nb" "p \<noteq> m" "nb \<noteq> m" "\<not> nd_leaf (node s p) \<Longrightarrow> rid_page_no (snd f) \<in> dom (ix_nodes s)"
  shows "redistribute nb p m 0 s =
    Some (Inr (), s\<lparr>ix_nodes := shift_nodes s p (es @ [f]) nb fs m (el # (fst (hd fs), snd er) # eb) p f\<rparr>)"
proof -
  let ?N = "ix_nodes s"
  let ?s1 = "s\<lparr>ix_nodes := set_ents p (es @ [f]) ?N\<rparr>"
  let ?s2 = "s\<lparr>ix_nodes := set_ents nb fs (set_ents p (es @ [f]) ?N)\<rparr>"
  let ?s3 = "s\<lparr>ix_nodes := set_ents m (el # (fst (hd fs), snd er) # eb) (set_ents nb fs (set_ents p (es @ [f]) ?N))\<rparr>"
  have g: "get_key (node s nb) 0 = fst f" "ix_get_rid (node s nb) 0 = snd f" "num_key (node s p) = length es"
    using assms(1,2) by (simp_all add: get_key_def ix_get_rid_def)
  have 1: "node_upd p (insert_pair (length es) (fst f) (snd f)) s = Some (Inr (), ?s1)"
    by (rule node_upd_ents) (simp add: insert_pair_def insert_pairs_def assms(1))
  have 2: "node_upd nb (erase_pair 0) ?s1 = Some (Inr (), ?s2)"
    using node_upd_ents [of "erase_pair 0" ?s1 nb fs] assms(2,5) by (simp add: erase_pair_def)
  have k: "get_key (node ?s2 nb) 0 = fst (hd fs)" using assms(3,5) by (simp add: get_key_def hd_conv_nth)
  have 3: "put m (set_key (0 + 1) (fst (hd fs)) (node ?s2 m)) ?s2 = ?s3"
    using put_set_key [of ?s2 m "[el]" er eb] assms(4,6,7) by simp
  have e3: "ents (ix_nodes ?s3) p = es @ [f]" using assms(5,6) by simp
  have 4: "(if \<not> nd_leaf (node ?s3 p) then maintain_child p (num_key (node ?s3 p) - 1) ?s3 else Some (Inr (), ?s3)) =
      Some (Inr (), s\<lparr>ix_nodes := shift_nodes s p (es @ [f]) nb fs m (el # (fst (hd fs), snd er) # eb) p f\<rparr>)"
  proof (cases "nd_leaf (node s p)")
    case True
    then show ?thesis by (simp add: shift_nodes_def moved_def reparent_def node_def)
  next
    case False
    have l3: "nd_leaf (node ?s3 p) = nd_leaf (node s p)" by (simp add: node_def)
    have m3: "moved ?s3 p (ents (ix_nodes ?s3) p ! length es) = moved s p f" using e3 l3 by (simp add: moved_def)
    have n3: "num_key (node ?s3 p) - 1 = length es" unfolding node_simps(3) e3 by simp
    have "maintain_child p (length es) ?s3 = Some (Inr (), ?s3\<lparr>ix_nodes := reparent p (moved ?s3 p (ents (ix_nodes ?s3) p ! length es)) (ix_nodes ?s3)\<rparr>)"
      by (rule maintain_child_ok) (use e3 assms(8) False in \<open>simp_all add: node_def\<close>)
    then show ?thesis unfolding l3 n3 m3 shift_nodes_def using False by simp
  qed
  show ?thesis by (simp only: redistribute_def Let_def g 1 2 k 3 4 run_bind_simps if_True simp_thms)
qed

lemma redistribute_later:
  assumes "ents (ix_nodes s) p = es" "ents (ix_nodes s) nb = gs @ [g]" "ents (ix_nodes s) m = ea @ el # er # eb"
    "p \<noteq> nb" "p \<noteq> m" "nb \<noteq> m" "\<not> nd_leaf (node s p) \<Longrightarrow> rid_page_no (snd g) \<in> dom (ix_nodes s)"
  shows "redistribute nb p m (Suc (length ea)) s =
    Some (Inr (), s\<lparr>ix_nodes := shift_nodes s p (g # es) nb gs m (ea @ el # (fst g, snd er) # eb) p g\<rparr>)"
proof -
  let ?N = "ix_nodes s"
  let ?s1 = "s\<lparr>ix_nodes := set_ents p (g # es) ?N\<rparr>"
  let ?s2 = "s\<lparr>ix_nodes := set_ents nb gs (set_ents p (g # es) ?N)\<rparr>"
  let ?s3 = "s\<lparr>ix_nodes := set_ents m (ea @ el # (fst g, snd er) # eb) (set_ents nb gs (set_ents p (g # es) ?N))\<rparr>"
  have g: "get_key (node s nb) (length gs) = fst g" "ix_get_rid (node s nb) (length gs) = snd g" "num_key (node s nb) - 1 = length gs"
    using assms(2) by (simp_all add: get_key_def ix_get_rid_def)
  have 1: "node_upd p (insert_pair 0 (fst g) (snd g)) s = Some (Inr (), ?s1)"
    by (rule node_upd_ents) (simp add: insert_pair_def insert_pairs_def assms(1))
  have 2: "node_upd nb (erase_pair (length gs)) ?s1 = Some (Inr (), ?s2)"
    using node_upd_ents [of "erase_pair (length gs)" ?s1 nb gs] assms(2,4) by (simp add: erase_pair_def)
  have k: "get_key (node ?s2 p) 0 = fst g" using assms(4) by (simp add: get_key_def)
  have 3: "put m (set_key (Suc (length ea)) (fst g) (node ?s2 m)) ?s2 = ?s3"
    using put_set_key [of ?s2 m "ea @ [el]" er eb] assms(3,5,6) by simp
  have e3: "ents (ix_nodes ?s3) p = g # es" using assms(4,5) by simp
  have "maintain_child p 0 ?s3 = Some (Inr (), ?s3\<lparr>ix_nodes := reparent p (moved ?s3 p (ents (ix_nodes ?s3) p ! 0)) (ix_nodes ?s3)\<rparr>)"
    by (rule maintain_child_ok) (use e3 assms(7) in \<open>simp_all add: node_def\<close>)
  then have 4: "maintain_child p 0 ?s3 = Some (Inr (), s\<lparr>ix_nodes := shift_nodes s p (g # es) nb gs m (ea @ el # (fst g, snd er) # eb) p g\<rparr>)"
    using e3 by (simp add: shift_nodes_def moved_def node_def)
  show ?thesis
    unfolding redistribute_def using g 1 2 k 3 4 by (simp add: Let_def)
qed

text \<open>A merge of \<open>r\<close> into its left neighbour \<open>l\<close>.\<close>

definition merge_state :: "bool \<Rightarrow> ix_index \<Rightarrow> int \<Rightarrow> int \<Rightarrow> (int \<rightharpoonup> ix_node) \<Rightarrow> ix_index" where
  "merge_state tx s l r N' = s\<lparr>ix_nodes := N',
     ix_hdr := (ix_hdr s)\<lparr>ixh_num_pages := ixh_num_pages (ix_hdr s) - 1,
       ixh_last_leaf := (if nd_leaf (node s r) \<and> r = ixh_last_leaf (ix_hdr s) then l else ixh_last_leaf (ix_hdr s))\<rparr>,
     ix_deleted := (if tx then ix_deleted s @ [r] else ix_deleted s)\<rparr>"

definition merge_nodes :: "ix_index \<Rightarrow> int \<Rightarrow> int \<Rightarrow> int \<Rightarrow> entry list \<Rightarrow> (int \<rightharpoonup> ix_node)" where
  "merge_nodes s l r m ms =
     set_ents m ms
       (if nd_leaf (node s r)
        then (set_ents l (ents (ix_nodes s) l @ ents (ix_nodes s) r) (ix_nodes s))
               (l \<mapsto> (node s l)\<lparr>nd_entries := ents (ix_nodes s) l @ ents (ix_nodes s) r, nd_next := nd_next (node s r)\<rparr>,
                nd_next (node s r) \<mapsto> (node s (nd_next (node s r)))\<lparr>nd_prev := l\<rparr>)
        else reparent l ((\<lambda>e. rid_page_no (snd e)) ` set (ents (ix_nodes s) r))
               (set_ents l (ents (ix_nodes s) l @ ents (ix_nodes s) r) (ix_nodes s)))"

definition again_on :: "(int \<Rightarrow> ix_index \<Rightarrow> bool ix_run) \<Rightarrow> int \<Rightarrow> ix_index \<Rightarrow> bool ix_run" where
  "again_on again m s = (if length (ents (ix_nodes s) m) < get_min_size (ix_hdr s) \<and> par (ix_nodes s) m \<noteq> IX_NO_PAGE then again m s
     else Some (Inr False, s))"

lemma coalesce_internal:
  assumes "(l, r, i) = (if index = 0 then (p, nb, 1) else (nb, p, index))" "\<not> nd_leaf (node s r)" "\<not> nd_leaf (node s l)"
    "ents (ix_nodes s) m = ea @ el # er # eb" "i = Suc (length ea)" "l \<noteq> r" "l \<noteq> m" "r \<noteq> m"
    "\<forall>e \<in> set (ents (ix_nodes s) r). rid_page_no (snd e) \<in> dom (ix_nodes s) \<and> rid_page_no (snd e) \<noteq> m"
  shows "coalesce again tx nb p m index s = again_on again m (merge_state tx s l r (merge_nodes s l r m (ea @ el # eb)))"
proof -
  let ?N = "ix_nodes s" and ?es = "ents (ix_nodes s) l" and ?fs = "ents (ix_nodes s) r"
  let ?C = "(\<lambda>e. rid_page_no (snd e)) ` set (ents (ix_nodes s) r)"
  let ?s1 = "s\<lparr>ix_nodes := set_ents l (?es @ ?fs) ?N\<rparr>"
  let ?s2 = "s\<lparr>ix_nodes := reparent l ?C (set_ents l (?es @ ?fs) ?N)\<rparr>"
  have 1: "node_upd l (insert_pairs (length ?es) ?fs) s = Some (Inr (), ?s1)"
    by (rule node_upd_ents) (simp add: insert_pairs_def)
  have 2: "maintain_children l [length ?es..<length (ents (ix_nodes ?s1) l)] ?s1 = Some (Inr (), ?s1\<lparr>ix_nodes := reparent l ?C (ix_nodes ?s1)\<rparr>)"
    by (rule maintain_children_range) (use assms(3,9) in \<open>simp_all add: node_def\<close>)
  let ?s3 = "release_node_handle (if tx then ?s2\<lparr>ix_deleted := ix_deleted ?s2 @ [r]\<rparr> else ?s2)"
  have m3: "ents (ix_nodes ?s3) m = (ea @ [el]) @ er # eb" using assms(4,7) by (simp add: release_node_handle_def)
  have 3: "node_upd m (erase_pair i) ?s3 = Some (Inr (), ?s3\<lparr>ix_nodes := set_ents m (ea @ el # eb) (ix_nodes ?s3)\<rparr>)"
    using node_upd_ents [of "erase_pair i" ?s3 m "ea @ el # eb"] m3 assms(5) by (simp add: erase_pair_def)
  have 4: "?s3\<lparr>ix_nodes := set_ents m (ea @ el # eb) (ix_nodes ?s3)\<rparr> = merge_state tx s l r (merge_nodes s l r m (ea @ el # eb))"
    using assms(2) by (simp add: merge_state_def merge_nodes_def release_node_handle_def put_hdr_def)
  have nl: "\<not> nd_leaf (node ?s1 r)" using assms(2) by (simp add: node_def)
  show ?thesis
    unfolding coalesce_def assms(1) [symmetric] Let_def prod.case
    using 1 2 3 4 nl
    by (simp add: again_on_def is_root_page_def) (simp add: merge_state_def merge_nodes_def)
qed

lemma coalesce_leaf:
  assumes "(l, r, i) = (if index = 0 then (p, nb, 1) else (nb, p, index))" "nd_leaf (node s r)"
    "ents (ix_nodes s) m = ea @ el # er # eb" "i = Suc (length ea)" "l \<noteq> r" "l \<noteq> m" "r \<noteq> m"
    "nd_prev (node s r) = l" "nd_next (node s r) = y" "y \<noteq> l" "y \<noteq> r" "y \<noteq> m" "l \<in> dom (ix_nodes s)" "y \<in> dom (ix_nodes s)" "1 \<le> l" "1 \<le> y"
  shows "coalesce again tx nb p m index s = again_on again m (merge_state tx s l r (merge_nodes s l r m (ea @ el # eb)))"
proof -
  let ?N = "ix_nodes s" and ?es = "ents (ix_nodes s) l" and ?fs = "ents (ix_nodes s) r"
  let ?s1 = "s\<lparr>ix_nodes := set_ents l (?es @ ?fs) ?N\<rparr>"
  let ?N2 = "(set_ents l (?es @ ?fs) ?N)(l \<mapsto> (node s l)\<lparr>nd_entries := ?es @ ?fs, nd_next := y\<rparr>, y \<mapsto> (node s y)\<lparr>nd_prev := l\<rparr>)"
  let ?s2 = "s\<lparr>ix_nodes := ?N2\<rparr>"
  have 1: "node_upd l (insert_pairs (length ?es) ?fs) s = Some (Inr (), ?s1)"
    by (rule node_upd_ents) (simp add: insert_pairs_def)
  obtain ny where ny: "?N y = Some ny" using assms(14) by auto
  have n1: "l \<noteq> IX_NO_PAGE" "y \<noteq> IX_NO_PAGE" using assms(15,16) by (simp_all add: IX_NO_PAGE_def)
  have 2: "erase_leaf r ?s1 = Some (Inr (), ?s2)"
    using assms(2,5,8-12) n1 ny
    by (simp add: erase_leaf_def node_def fetch_node_def unpin_def put_def Let_def set_ents_def)
  let ?s2' = "if r = ixh_last_leaf (ix_hdr ?s2) then put_hdr (\<lambda>h. h\<lparr>ixh_last_leaf := l\<rparr>) ?s2 else ?s2"
  let ?s3 = "release_node_handle (if tx then ?s2'\<lparr>ix_deleted := ix_deleted ?s2' @ [r]\<rparr> else ?s2')"
  have m3: "ents (ix_nodes ?s3) m = (ea @ [el]) @ er # eb" using assms(3,6,12) by (simp add: release_node_handle_def)
  have 3: "node_upd m (erase_pair i) ?s3 = Some (Inr (), ?s3\<lparr>ix_nodes := set_ents m (ea @ el # eb) (ix_nodes ?s3)\<rparr>)"
    using node_upd_ents [of "erase_pair i" ?s3 m "ea @ el # eb"] m3 assms(4) by (simp add: erase_pair_def)
  have 4: "?s3\<lparr>ix_nodes := set_ents m (ea @ el # eb) (ix_nodes ?s3)\<rparr> = merge_state tx s l r (merge_nodes s l r m (ea @ el # eb))"
    using assms(2,9) by (simp add: merge_state_def merge_nodes_def release_node_handle_def put_hdr_def)
  have nl: "nd_leaf (node ?s1 r)" using assms(2) by (simp add: node_def)
  let ?s3m = "merge_state tx s l r (merge_nodes s l r m (ea @ el # eb))"
  have h: "num_key (node ?s3m m) = length (ents (ix_nodes ?s3m) m)" "is_root_page (node ?s3m m) = (par (ix_nodes ?s3m) m = IX_NO_PAGE)"
    by (simp_all add: is_root_page_def)
  have ne: "ents (ix_nodes ?s3m) m \<noteq> []" by (simp add: merge_state_def merge_nodes_def)
  show ?thesis
    unfolding coalesce_def assms(1) [symmetric] Let_def prod.case node_simps
    by (simp only: 1 run_bind_simps nl simp_thms if_False 2 3 4 h ne list.size length_0_conv again_on_def)
qed


subsection \<open>A node that may have lost an entry\<close>

definition thin :: "IxFileHdr \<Rightarrow> (int \<rightharpoonup> ix_node) \<Rightarrow> int list \<Rightarrow> int \<Rightarrow> bool" where
  "thin h N L p \<longleftrightarrow> p \<in> set L \<and> (\<forall>q \<in> set L. q \<in> dom N \<and> length (ents N q) \<le> ixh_btree_order h) \<and>
     (2 \<le> length L \<longrightarrow> (\<forall>q \<in> set L. get_min_size h \<le> length (ents N q) + (if q = p then 1 else 0)))"

definition short :: "ix_index \<Rightarrow> int list \<Rightarrow> int \<Rightarrow> int list list \<Rightarrow> bool" where
  "short s L p Ls \<longleftrightarrow> thin (ix_hdr s) (ix_nodes s) L p \<and> above (ix_hdr s) {} (ix_nodes s) L Ls \<and> hdr_cfg_ok (ix_hdr s) \<and>
     distinct (concat (L # Ls)) \<and> (\<forall>q \<in> set (concat (L # Ls)). 2 \<le> q)"

lemma thin_other: "thin h N L p \<Longrightarrow> 2 \<le> length L \<Longrightarrow> z \<in> set L \<Longrightarrow> z \<noteq> p \<Longrightarrow>
    length (ents N z) \<le> ixh_btree_order h \<and> get_min_size h \<le> length (ents N z)"
  and thin_self: "thin h N L p \<Longrightarrow> 2 \<le> length L \<Longrightarrow> get_min_size h \<le> length (ents N p) + 1"
  by (fastforce simp: thin_def)+

lemma min_sizes: "hdr_cfg_ok h \<Longrightarrow> 2 \<le> get_min_size h \<and> 2 * get_min_size h \<le> ixh_btree_order h + 1"
  by (simp add: hdr_cfg_ok_def get_min_size_def get_max_size_def) presburger

lemma shortD:
  assumes "short s L p (M # Ls)"
  shows "p \<in> set L" "p \<in> dom (ix_nodes s)" "link_ok (ix_hdr s) {} (ix_nodes s) L M" "level_ok (ix_hdr s) (ix_nodes s) M"
    "above (ix_hdr s) {} (ix_nodes s) M Ls" "hdr_cfg_ok (ix_hdr s)" "distinct L" "distinct M" "set L \<inter> set M = {}"
    "set L \<inter> set (concat Ls) = {}" "set M \<inter> set (concat Ls) = {}" "\<forall>q \<in> set L \<union> set M. 2 \<le> q" "set L \<subseteq> dom (ix_nodes s)"
  using assms by (auto simp: short_def thin_def)

lemma neighbours:
  assumes sh: "short s L p (M # Ls)"
  obtains (single) m e where "par (ix_nodes s) p = m" "m \<in> set M" "find_child p (node s m) = Inr 0" "ents (ix_nodes s) m = [e]" "L = [p]"
  | (pair) m ea el er eb l r A B nb i where "par (ix_nodes s) p = m" "find_child p (node s m) = Inr i"
      "siblings (ix_nodes s) A M m ea l el r er eb B L" "p = l \<and> nb = r \<and> i = 0 \<and> ea = [] \<or> p = r \<and> nb = l \<and> i = Suc (length ea)"
proof -
  let ?N = "ix_nodes s" and ?pg = "\<lambda>e. rid_page_no (snd e)"
  note d = shortD [OF sh]
  obtain q E e F where q: "q = par ?N p" "q \<in> set M" "ents ?N q = E @ e # F" "?pg e = p" "find_child p (the (?N q)) = Inr (length E)"
    by (rule parent_entry [OF d(3,1,7)])
  obtain C D where M: "M = C @ q # D" using q(2) by (meson split_list)
  have L: "L = kids_of ?N C @ map ?pg (E @ e # F) @ kids_of ?N D" using linkD(1) [OF d(3)] M q(3) by (simp add: kids_def)
  have fc: "find_child p (node s q) = Inr (length E)" using q(5) by (simp add: node_def)
  show ?thesis
  proof (cases "E = [] \<and> F = []")
    case True
    then have e: "ents ?N q = [e]" using q(3) by simp
    have "M = [q]"
    proof (rule ccontr)
      assume "M \<noteq> [q]"
      then have "2 \<le> length M" using M by (cases C; cases D) auto
      then have "get_min_size (ix_hdr s) \<le> length (ents ?N q)" using d(4) q(2) by (auto simp: level_ok_def)
      then show False using e min_sizes [OF d(6)] by simp
    qed
    then have "L = [p]" using linkD(1) [OF d(3)] e q(4) by (simp add: kids_def)
    then show ?thesis using single [of q e] q(1,2) fc e True by simp
  next
    case False
    show ?thesis
    proof (cases "E = []")
      case True
      then obtain f F' where F: "F = f # F'" using False by (cases F) auto
      have "siblings ?N (kids_of ?N C) M q [] p e (?pg f) f F' (map ?pg F' @ kids_of ?N D) L"
        using L q F True by (simp add: siblings_def)
      then show ?thesis using pair [of q 0 "kids_of ?N C" "[]" p e "?pg f" f F'] q(1) fc True by simp
    next
      case False
      then obtain E' f where E: "E = E' @ [f]" by (cases E rule: rev_cases) auto
      have "siblings ?N (kids_of ?N C @ map ?pg E') M q E' (?pg f) f p e F (map ?pg F @ kids_of ?N D) L"
        using L q E by (simp add: siblings_def)
      then show ?thesis using pair [of q "length E" "kids_of ?N C @ map ?pg E'" E' "?pg f" f p e F] q(1) fc E by simp
    qed
  qed
qed


lemma cor_single:
  assumes "par (ix_nodes s) p = m" "m \<noteq> IX_NO_PAGE" "m \<in> dom (ix_nodes s)" "find_child p (node s m) = Inr 0" "ents (ix_nodes s) m = [e]"
  shows "coalesce_or_redistribute (Suc n) tx p s = Some (Inr False, s)"
proof -
  obtain nd where "ix_nodes s m = Some nd" using assms(3) by auto
  then show ?thesis using assms by (simp add: is_root_page_def fetch_node_def unpin_def)
qed

lemma cor_pair:
  fixes s m nb
  defines "s1 \<equiv> s\<lparr>ix_pins := add_mset nb (add_mset m (ix_pins s))\<rparr>"
  assumes p: "par (ix_nodes s) p = m" "m \<noteq> IX_NO_PAGE" "m \<in> dom (ix_nodes s)" "find_child p (node s m) = Inr i"
    and m: "ents (ix_nodes s) m = ea @ el # er # eb" "rid_page_no (snd el) = l" "rid_page_no (snd er) = r"
    and pn: "p = l \<and> nb = r \<and> i = 0 \<and> ea = [] \<or> p = r \<and> nb = l \<and> i = Suc (length ea)"
    and nb: "nb \<in> dom (ix_nodes s)" and sz: "length (ents (ix_nodes s) p) < get_min_size (ix_hdr s)"
  shows "coalesce_or_redistribute (Suc n) tx p s = on_throw (on_throw
    (if length (ents (ix_nodes s) p) + length (ents (ix_nodes s) nb) \<ge> 2 * get_min_size (ix_hdr s)
     then run_bind (redistribute nb p m i s1) (\<lambda>_ s. Some (Inr False, unpin nb (unpin m s)))
     else run_bind (coalesce (coalesce_or_redistribute n tx) tx nb p m i s1) (\<lambda>_ s. Some (Inr True, unpin nb (unpin m s))))
    (unpin nb)) (unpin m)"
proof -
  have m1: "fetch_node m s = Some (Inr (), s\<lparr>ix_pins := add_mset m (ix_pins s)\<rparr>)" using p(3) by (auto simp: fetch_node_def)
  have nb1: "fetch_node nb (s\<lparr>ix_pins := add_mset m (ix_pins s)\<rparr>) = Some (Inr (), s1)"
    using nb by (auto simp: fetch_node_def s1_def)
  have k: "(if i = 0 then 1 else i - 1) < length (ents (ix_nodes s) m)" "value_at (node s m) (if i = 0 then 1 else i - 1) = nb"
    using pn m by (auto simp: value_at_def ix_get_rid_def nth_append)
  have nr: "\<not> is_root_page (node s p)" using p(1,2) by (simp add: is_root_page_def)
  have n1: "ix_nodes s1 = ix_nodes s" "ix_hdr s1 = ix_hdr s" by (simp_all add: s1_def)
  have sz': "\<not> get_min_size (ix_hdr s) \<le> length (ents (ix_nodes s) p)" using sz by simp
  have k': "\<not> length (ents (ix_nodes s) m) \<le> (if i = 0 then 1 else i - 1)" using k(1) by simp
  show ?thesis
    unfolding coalesce_or_redistribute.simps if_not_P [OF nr] node_simps if_not_P [OF sz'] Let_def p(1) m1 run_bind_simps node_put p(4) sum.case
      k(2) nb1 n1 by (rule if_not_P) (use k' in simp)
qed


text \<open>The two cases, on nodes.\<close>

definition pair_frame :: "int \<Rightarrow> int \<Rightarrow> int \<Rightarrow> int list \<Rightarrow> int list \<Rightarrow> int list list \<Rightarrow> (int \<rightharpoonup> ix_node) \<Rightarrow> (int \<rightharpoonup> ix_node) \<Rightarrow> bool" where
  "pair_frame l r m L M Ls N N' \<longleftrightarrow> (\<forall>z. z \<notin> {l, r, m} \<longrightarrow> ents N' z = ents N z) \<and> (\<forall>z \<in> set L \<union> set M. par N' z = par N z) \<and>
     (\<forall>z. nd_leaf (the (N' z)) = nd_leaf (the (N z))) \<and> (\<forall>z \<in> set (concat Ls). N' z = N z) \<and> dom N' = dom N"

lemma pair_frame_above:
  assumes fr: "pair_frame l r m L M Ls N N'" and ab: "above h {} N M Ls" and m: "m \<in> set M" "l \<notin> set M" "r \<notin> set M"
    and hd: "ents N' m = e # es" "ents N m = e # fs"
  shows "above h {} N' M Ls"
proof (rule above_frame [OF ab subset_refl])
  show "\<forall>c \<in> set M. par N' c = par N c \<and> (c \<notin> {} \<longrightarrow> first_same N N' c)"
  proof (intro ballI conjI impI)
    fix c assume c: "c \<in> set M"
    show "par N' c = par N c" using fr c by (simp add: pair_frame_def)
    show "first_same N N' c" using fr c m hd by (cases "c = m") (auto simp: pair_frame_def first_same_def)
  qed
qed (use fr in \<open>simp add: pair_frame_def\<close>)

lemma shift_level:
  assumes sib: "siblings N A M m ea l el r er eb B L" and link: "link_ok h {} N L M" and lev: "level_ok h N M" and ab: "above h {} N M Ls"
    and d: "distinct L" "distinct M" "set L \<inter> set M = {}" and th: "thin h N L p" "p \<in> {l, r}" and fr: "pair_frame l r m L M Ls N N'"
    and lr: "ents N' l @ ents N' r = ents N l @ ents N r" "ents N l \<noteq> []" "ents N' l \<noteq> []" "ents N' r \<noteq> []" "good_key h (fst (hd (ents N' r)))"
    and m: "ents N' m = ea @ el # (fst (hd (ents N' r)), snd er) # eb"
    and sz: "\<forall>z \<in> {l, r}. length (ents N' z) \<le> ixh_btree_order h \<and> get_min_size h \<le> length (ents N' z)"
  shows "link_ok h {} N' L M" "level_ok h N' L" "level_ok h N' M" "above h {} N' M Ls" "row N' L = row N L"
proof -
  have s: "L = A @ l # r # B" "m \<in> set M" "ents N m = ea @ el # er # eb" using sib by (simp_all add: siblings_def)
  have nM: "l \<notin> set M" "r \<notin> set M" "m \<notin> set L" using s d(3) by auto
  have oth: "z \<notin> {l, r, m} \<Longrightarrow> ents N' z = ents N z" for z using fr by (simp add: pair_frame_def)
  have dom: "dom N' = dom N" using fr by (simp add: pair_frame_def)
  have "fst (hd (ents N' l)) = fst (hd (ents N l))" using lr(1-3) by (metis hd_append2)
  then show "link_ok h {} N' L M"
    by (rule link_shift [OF sib link d(1-3) _ lr(2,4,5) m]) (use fr in \<open>simp_all add: pair_frame_def\<close>)
  have oM: "ents N' z = ents N z" if "z \<in> set M" "z \<noteq> m" for z by (rule oth) (use that nM in auto)
  have lM: "length (ents N' z) = length (ents N z)" if "z \<in> set M" for z using that oM [of z] m s(3) by (cases "z = m") auto
  show "level_ok h N' M" using lev lM dom by (simp add: level_ok_def)
  obtain e es fs where e: "ents N' m = e # es" "ents N m = e # fs" using m s(3) by (cases ea) auto
  show "above h {} N' M Ls" by (rule pair_frame_above [OF fr ab s(2) nM(1,2) e])
  have oL: "ents N' z = ents N z" if "z \<in> set A \<union> set B" for z using that oth [of z] s(1) nM(3) d(1) by auto
  then show "row N' L = row N L" using s(1) lr(1) row_cong [of A N' N] row_cong [of B N' N] by simp
  have "length (ents N' z) \<le> ixh_btree_order h \<and> get_min_size h \<le> length (ents N' z)" if z: "z \<in> set L" for z
  proof (cases "z \<in> {l, r}")
    case False
    then have "z \<in> set A \<union> set B" "z \<noteq> p" using z s(1) th(2) by auto
    then show ?thesis using thin_other [OF th(1) _ z] oL [of z] s(1) by simp
  qed (use sz in blast)
  then show "level_ok h N' L" using th(1) dom by (simp add: level_ok_def thin_def)
qed

lemma merge_level:
  assumes sib: "siblings N A M m ea l el r er eb B L" and link: "link_ok h {} N L M" and lev: "level_ok h N M" and ab: "above h {} N M Ls"
    and d: "distinct L" "distinct M" "set L \<inter> set M = {}" and th: "thin h N L p" "p \<in> {l, r}"
    and fr: "pair_frame l r m (A @ l # B) M Ls N N'" and cfg: "hdr_cfg_ok h"
    and l: "ents N' l = ents N l @ ents N r" "ents N l \<noteq> []" and sz: "length (ents N l) + length (ents N r) < 2 * get_min_size h"
    and m: "ents N' m = ea @ el # eb"
  shows "link_ok h {} N' (A @ l # B) M" "level_ok h N' (A @ l # B)" "thin h N' M m" "above h {} N' M Ls" "row N' (A @ l # B) = row N L"
proof -
  have s: "L = A @ l # r # B" "m \<in> set M" "ents N m = ea @ el # er # eb" using sib by (simp_all add: siblings_def)
  have nM: "l \<notin> set M" "r \<notin> set M" "m \<notin> set L" using s d(3) by auto
  have oth: "z \<notin> {l, r, m} \<Longrightarrow> ents N' z = ents N z" for z using fr by (simp add: pair_frame_def)
  have dom: "dom N' = dom N" using fr by (simp add: pair_frame_def)
  show "link_ok h {} N' (A @ l # B) M"
    by (rule link_drop [OF sib link d(1-3) _ m]) (use fr l s(1) in \<open>auto simp: pair_frame_def\<close>)
  have oM: "ents N' z = ents N z" if "z \<in> set M" "z \<noteq> m" for z by (rule oth) (use that nM in auto)
  have lM: "length (ents N' z) + (if z = m then 1 else 0) = length (ents N z)" if "z \<in> set M" for z
    using that oM [of z] m s(3) by (cases "z = m") auto
  have "length (ents N' z) \<le> length (ents N z)" if "z \<in> set M" for z using lM [OF that] by simp
  then show "thin h N' M m" using lev lM dom s(2) unfolding level_ok_def thin_def by (metis le_trans)
  obtain e es fs where e: "ents N' m = e # es" "ents N m = e # fs" using m s(3) by (cases ea) auto
  show "above h {} N' M Ls" by (rule pair_frame_above [OF fr ab s(2) nM(1,2) e])
  have oL: "ents N' z = ents N z" if "z \<in> set A \<union> set B" for z using that oth [of z] s(1) nM(3) d(1) by auto
  then show "row N' (A @ l # B) = row N L" using s(1) l row_cong [of A N' N] row_cong [of B N' N] by simp
  have L2: "2 \<le> length L" using s(1) by simp
  have "length (ents N' z) \<le> ixh_btree_order h \<and> get_min_size h \<le> length (ents N' z)" if z: "z \<in> set (A @ l # B)" for z
  proof (cases "z = l")
    case True
    have "get_min_size h \<le> length (ents N l) \<or> get_min_size h \<le> length (ents N r)"
      using th(2) thin_other [OF th(1) L2, of l] thin_other [OF th(1) L2, of r] s(1) d(1) by auto
    then show ?thesis using True l(1) sz min_sizes [OF cfg] by auto
  next
    case False
    then have "z \<in> set A \<union> set B" "z \<noteq> p" "z \<in> set L" using z s(1) th(2) d(1) by auto
    then show ?thesis using thin_other [OF th(1) L2, of z] oL [of z] by simp
  qed
  then show "level_ok h N' (A @ l # B)" using th(1) dom s(1) by (simp add: level_ok_def thin_def)
qed


lemma shift_frame:
  assumes "moved s p e \<inter> set (concat (L # M # Ls)) = {}" "{p, nb} = {l, r}" "{l, r, m} \<subseteq> dom (ix_nodes s)" "{l, r, m} \<inter> set (concat Ls) = {}"
  shows "pair_frame l r m L M Ls (ix_nodes s) (shift_nodes s p es nb fs m ms p e)"
proof -
  have pm: "p \<in> {l, r, m}" "nb \<in> {l, r, m}" "p \<in> dom (ix_nodes s)" "nb \<in> dom (ix_nodes s)" "m \<in> dom (ix_nodes s)" using assms(2,3) by auto
  have "shift_nodes s p es nb fs m ms p e z = ix_nodes s z" if z: "z \<in> set (concat Ls)" for z
  proof -
    have "z \<notin> moved s p e" "z \<noteq> p" "z \<noteq> nb" "z \<noteq> m" using z assms(1,4) pm(1,2) by auto
    then show ?thesis by (simp add: shift_nodes_def)
  qed
  moreover have "par (shift_nodes s p es nb fs m ms p e) z = par (ix_nodes s) z" if "z \<in> set L \<union> set M" for z
    using that assms(1) by (auto simp: shift_nodes_def par_reparent)
  moreover have "ents (shift_nodes s p es nb fs m ms p e) z = ents (ix_nodes s) z" if "z \<notin> {l, r, m}" for z
    using that pm(1,2) by (auto simp: shift_nodes_def)
  moreover have "dom (shift_nodes s p es nb fs m ms p e) = dom (ix_nodes s)" using pm(3-5) by (auto simp: shift_nodes_def)
  moreover have "nd_leaf (the (shift_nodes s p es nb fs m ms p e z)) = nd_leaf (the (ix_nodes s z))" for z
    by (simp add: shift_nodes_def)
  ultimately show ?thesis unfolding pair_frame_def by blast
qed

definition shift_outcome :: "ix_index \<Rightarrow> int \<Rightarrow> int \<Rightarrow> int \<Rightarrow> (int \<rightharpoonup> ix_node) \<Rightarrow> bool" where
  "shift_outcome s p nb m N' \<longleftrightarrow> (\<exists>e es fs ms. N' = shift_nodes s p es nb fs m ms p e \<and>
     (ents (ix_nodes s) nb = e # fs \<or> ents (ix_nodes s) nb = fs @ [e]) \<and> (es = ents (ix_nodes s) p @ [e] \<or> es = e # ents (ix_nodes s) p))"

definition outside_kids :: "ix_index \<Rightarrow> int \<Rightarrow> int set \<Rightarrow> bool" where
  "outside_kids s q S \<longleftrightarrow> (\<not> nd_leaf (node s q) \<longrightarrow>
     (\<forall>e \<in> set (ents (ix_nodes s) q). rid_page_no (snd e) \<in> dom (ix_nodes s) \<and> rid_page_no (snd e) \<notin> S))"

lemma moved_outside:
  "outside_kids s nb S \<Longrightarrow> nd_leaf (node s p) = nd_leaf (node s nb) \<Longrightarrow> e \<in> set (ents (ix_nodes s) nb) \<Longrightarrow> moved s p e \<inter> S = {}"
  by (auto simp: outside_kids_def moved_def)

lemma redistribute_pair:
  fixes s l r
  defines "N \<equiv> ix_nodes s" and "h \<equiv> ix_hdr s"
  assumes m: "ents N m = ea @ el # er # eb" and pn: "p = l \<and> nb = r \<and> i = 0 \<and> ea = [] \<or> p = r \<and> nb = l \<and> i = Suc (length ea)"
    and lrm: "l \<noteq> r" "l \<noteq> m" "r \<noteq> m" and sz: "2 \<le> length (ents N nb)" "ents N p \<noteq> []" and out: "outside_kids s nb S"
    and leaf: "nd_leaf (node s p) = nd_leaf (node s nb)"
    and good: "\<And>z. z \<in> {l, r} \<Longrightarrow> \<forall>e \<in> set (ents N z). good_key h (fst e)"
  obtains N' where "\<forall>P. redistribute nb p m i (s\<lparr>ix_pins := P\<rparr>) = Some (Inr (), s\<lparr>ix_pins := P, ix_nodes := N'\<rparr>)" "shift_outcome s p nb m N'"
    "ents N' l @ ents N' r = ents N l @ ents N r" "length (ents N' p) = Suc (length (ents N p))" "Suc (length (ents N' nb)) = length (ents N nb)"
    "ents N' m = ea @ el # (fst (hd (ents N' r)), snd er) # eb" "good_key h (fst (hd (ents N' r)))"
  using pn
proof
  assume c: "p = l \<and> nb = r \<and> i = 0 \<and> ea = []"
  obtain f fs where f0: "ents N nb = f # fs" using sz(1) by (cases "ents N nb") auto
  moreover have "fs \<noteq> []" using sz(1) f0 by auto
  ultimately have f: "ents N nb = f # fs" "fs \<noteq> []" by simp_all
  let ?N' = "shift_nodes s p (ents N p @ [f]) nb fs m (el # (fst (hd fs), snd er) # eb) p f"
  have e: "ents ?N' l = ents N l @ [f]" "ents ?N' r = fs" "ents ?N' m = el # (fst (hd fs), snd er) # eb"
    using c lrm by (simp_all add: shift_nodes_def)
  have r: "redistribute nb p m i (s\<lparr>ix_pins := P\<rparr>) = Some (Inr (), s\<lparr>ix_pins := P, ix_nodes := ?N'\<rparr>)" for P
    using redistribute_first [of "s\<lparr>ix_pins := P\<rparr>" p "ents N p" nb f fs m el er eb] c m lrm f out leaf
    by (simp add: N_def outside_kids_def shift_nodes_def moved_def)
  have o: "shift_outcome s p nb m ?N'" unfolding shift_outcome_def N_def [symmetric] using f(1) by blast
  show ?thesis
  proof (rule that [OF allI [OF r] o])
    show "good_key h (fst (hd (ents ?N' r)))" using e(2) f good [of r] c by auto
  qed (use e f c in \<open>simp_all add: N_def\<close>)
next
  assume c: "p = r \<and> nb = l \<and> i = Suc (length ea)"
  obtain gs g where g: "ents N nb = gs @ [g]" using sz(1) by (cases "ents N nb" rule: rev_cases) auto
  let ?N' = "shift_nodes s p (g # ents N p) nb gs m (ea @ el # (fst g, snd er) # eb) p g"
  have e: "ents ?N' r = g # ents N r" "ents ?N' l = gs" "ents ?N' m = ea @ el # (fst g, snd er) # eb"
    using c lrm by (simp_all add: shift_nodes_def)
  have r: "redistribute nb p m i (s\<lparr>ix_pins := P\<rparr>) = Some (Inr (), s\<lparr>ix_pins := P, ix_nodes := ?N'\<rparr>)" for P
    using redistribute_later [of "s\<lparr>ix_pins := P\<rparr>" p "ents N p" nb gs g m ea el er eb] c m lrm g out leaf
    by (simp add: N_def outside_kids_def shift_nodes_def moved_def)
  have o: "shift_outcome s p nb m ?N'" unfolding shift_outcome_def N_def [symmetric] using g by blast
  show ?thesis
  proof (rule that [OF allI [OF r] o])
    show "good_key h (fst (hd (ents ?N' r)))" using e(1) g good [of l] c by auto
  qed (use e g c in \<open>simp_all add: N_def\<close>)
qed


text \<open>What the choice of the neighbour gives, for both cases.\<close>

definition paired :: "ix_index \<Rightarrow> int list \<Rightarrow> int \<Rightarrow> int list \<Rightarrow> int list list \<Rightarrow> int \<Rightarrow> entry list \<Rightarrow> int \<Rightarrow> entry \<Rightarrow> int \<Rightarrow> entry \<Rightarrow> entry list \<Rightarrow> int list \<Rightarrow> int list \<Rightarrow> int \<Rightarrow> nat \<Rightarrow> bool" where
  "paired s L p M Ls m ea l el r er eb A B nb i \<longleftrightarrow> short s L p (M # Ls) \<and> par (ix_nodes s) p = m \<and> find_child p (node s m) = Inr i \<and>
     siblings (ix_nodes s) A M m ea l el r er eb B L \<and> (p = l \<and> nb = r \<and> i = 0 \<and> ea = [] \<or> p = r \<and> nb = l \<and> i = Suc (length ea)) \<and>
     length (ents (ix_nodes s) p) < get_min_size (ix_hdr s) \<and> outside_kids s l (set (concat (L # M # Ls))) \<and>
     outside_kids s r (set (concat (L # M # Ls))) \<and> nd_leaf (node s l) = nd_leaf (node s r) \<and>
     (\<forall>z \<in> {l, r}. \<forall>e \<in> set (ents (ix_nodes s) z). good_key (ix_hdr s) (fst e))"

lemma pairedD:
  assumes "paired s L p M Ls m ea l el r er eb A B nb i"
  shows "short s L p (M # Ls)" "par (ix_nodes s) p = m" "find_child p (node s m) = Inr i" "siblings (ix_nodes s) A M m ea l el r er eb B L"
    "p = l \<and> nb = r \<and> i = 0 \<and> ea = [] \<or> p = r \<and> nb = l \<and> i = Suc (length ea)" "length (ents (ix_nodes s) p) < get_min_size (ix_hdr s)"
    "outside_kids s l (set (concat (L # M # Ls)))" "outside_kids s r (set (concat (L # M # Ls)))" "nd_leaf (node s l) = nd_leaf (node s r)"
    "\<And>z. z \<in> {l, r} \<Longrightarrow> \<forall>e \<in> set (ents (ix_nodes s) z). good_key (ix_hdr s) (fst e)"
  using assms unfolding paired_def by blast+

lemma paired_more:
  assumes "paired s L p M Ls m ea l el r er eb A B nb i"
  shows "m \<in> set M" "m \<noteq> IX_NO_PAGE" "m \<in> dom (ix_nodes s)" "l \<in> set L" "r \<in> set L" "l \<noteq> r" "l \<noteq> m" "r \<noteq> m" "nb \<in> set L" "nb \<noteq> p"
    "nb \<in> dom (ix_nodes s)" "2 \<le> length L" "get_min_size (ix_hdr s) \<le> length (ents (ix_nodes s) nb)"
    "length (ents (ix_nodes s) nb) \<le> ixh_btree_order (ix_hdr s)" "ents (ix_nodes s) p \<noteq> []" "ents (ix_nodes s) l \<noteq> []" "{p, nb} = {l, r}"
    "thin (ix_hdr s) (ix_nodes s) L p"
proof -
  note pd = pairedD [OF assms]
  note d = shortD [OF pd(1)]
  have s: "L = A @ l # r # B" "m \<in> set M" using pd(4) by (simp_all add: siblings_def)
  show "m \<in> set M" by (rule s(2))
  show "m \<noteq> IX_NO_PAGE" using d(12) s(2) by (force simp: IX_NO_PAGE_def)
  show "m \<in> dom (ix_nodes s)" using d(4) s(2) by (auto simp: level_ok_def)
  show lr: "l \<in> set L" "r \<in> set L" "l \<noteq> r" using s(1) d(7) by auto
  show "l \<noteq> m" "r \<noteq> m" using lr s(2) d(9) by auto
  show nb: "nb \<in> set L" "nb \<noteq> p" using lr pd(5) by auto
  then show "nb \<in> dom (ix_nodes s)" using d(13) by blast
  show L2: "2 \<le> length L" using s(1) by simp
  show th: "thin (ix_hdr s) (ix_nodes s) L p" using pd(1) by (simp add: short_def)
  show g: "get_min_size (ix_hdr s) \<le> length (ents (ix_nodes s) nb)" "length (ents (ix_nodes s) nb) \<le> ixh_btree_order (ix_hdr s)"
    using thin_other [OF th L2 nb] by simp_all
  show pe: "ents (ix_nodes s) p \<noteq> []" using thin_self [OF th L2] min_sizes [OF d(6)] by auto
  have "ents (ix_nodes s) nb \<noteq> []" using g(1) min_sizes [OF d(6)] by auto
  then show "ents (ix_nodes s) l \<noteq> []" using pe pd(5) by auto
  show "{p, nb} = {l, r}" using pd(5) by auto
qed

lemma cor_shift:
  assumes pr: "paired s L p M Ls m ea l el r er eb A B nb i"
    and sz: "2 * get_min_size (ix_hdr s) \<le> length (ents (ix_nodes s) p) + length (ents (ix_nodes s) nb)"
  obtains N' where "coalesce_or_redistribute (Suc n) tx p s = Some (Inr False, s\<lparr>ix_nodes := N'\<rparr>)" "shift_outcome s p nb m N'"
    "ents N' l @ ents N' r = ents (ix_nodes s) l @ ents (ix_nodes s) r" "ents N' l \<noteq> []" "ents N' r \<noteq> []"
    "pair_frame l r m L M Ls (ix_nodes s) N'" "link_ok (ix_hdr s) {} N' L M" "level_ok (ix_hdr s) N' L" "level_ok (ix_hdr s) N' M"
    "above (ix_hdr s) {} N' M Ls" "row N' L = row (ix_nodes s) L"
proof -
  let ?N = "ix_nodes s" and ?h = "ix_hdr s" and ?S = "set (concat (L # M # Ls))"
  note pd = pairedD [OF pr]
  note pm = paired_more [OF pr]
  note d = shortD [OF pd(1)]
  have mm: "ents ?N m = ea @ el # er # eb" "rid_page_no (snd el) = l" "rid_page_no (snd er) = r" using pd(4) by (simp_all add: siblings_def)
  have nb: "nb \<in> {l, r}" "p \<in> {l, r}" using pd(5) by auto
  then have out: "outside_kids s nb ?S" and leaf: "nd_leaf (node s p) = nd_leaf (node s nb)" using pd(7-9) by auto
  have sz2: "2 \<le> length (ents ?N nb)" using pm(13) min_sizes [OF d(6)] by simp
  obtain N' where r: "\<forall>P. redistribute nb p m i (s\<lparr>ix_pins := P\<rparr>) = Some (Inr (), s\<lparr>ix_pins := P, ix_nodes := N'\<rparr>)" "shift_outcome s p nb m N'"
    "ents N' l @ ents N' r = ents ?N l @ ents ?N r" "length (ents N' p) = Suc (length (ents ?N p))" "Suc (length (ents N' nb)) = length (ents ?N nb)"
    "ents N' m = ea @ el # (fst (hd (ents N' r)), snd er) # eb" "good_key ?h (fst (hd (ents N' r)))"
    by (rule redistribute_pair [OF mm(1) pd(5) pm(6-8) sz2 pm(15) out leaf pd(10)])
  have res: "coalesce_or_redistribute (Suc n) tx p s = Some (Inr False, s\<lparr>ix_nodes := N'\<rparr>)"
    unfolding cor_pair [OF pd(2) pm(2,3) pd(3) mm pd(5) pm(11) pd(6)] if_P [OF sz] r(1) [rule_format] by (simp add: unpin_def)
  obtain e es fs ms where e: "N' = shift_nodes s p es nb fs m ms p e" "ents ?N nb = e # fs \<or> ents ?N nb = fs @ [e]"
    using r(2) unfolding shift_outcome_def by blast
  have fr: "pair_frame l r m L M Ls ?N N'" unfolding e(1)
  proof (rule shift_frame [OF moved_outside [OF out leaf] pm(17)])
    show "e \<in> set (ents ?N nb)" using e(2) by auto
    show "{l, r, m} \<subseteq> dom ?N" using pm(3-5) d(13) by auto
    show "{l, r, m} \<inter> set (concat Ls) = {}" using pm(1,4,5) d(10,11) by blast
  qed
  have L2: "get_min_size ?h \<le> length (ents N' p)" using r(4) thin_self [OF pm(18,12)] by simp
  have "get_min_size ?h \<le> length (ents N' nb)" using r(5) sz pd(6) by simp
  then have sizes: "\<forall>z \<in> {l, r}. length (ents N' z) \<le> ixh_btree_order ?h \<and> get_min_size ?h \<le> length (ents N' z)"
    using L2 r(4,5) pd(6) pm(14) min_sizes [OF d(6)] pm(17) [symmetric] by auto
  have ne: "ents N' l \<noteq> []" "ents N' r \<noteq> []" using sizes min_sizes [OF d(6)] by auto
  show ?thesis
    by (rule that [OF res r(2,3) ne fr shift_level [OF pd(4) d(3,4,5,7,8,9) pm(18) nb(2) fr r(3) pm(16) ne r(7,6) sizes]])
qed


definition leaf_pair :: "ix_index \<Rightarrow> int \<Rightarrow> int \<Rightarrow> int set \<Rightarrow> bool" where
  "leaf_pair s l r S \<longleftrightarrow> (nd_leaf (node s r) \<longrightarrow> nd_prev (node s r) = l \<and>
     (let y = nd_next (node s r) in y \<noteq> l \<and> y \<noteq> r \<and> y \<notin> S \<and> y \<in> dom (ix_nodes s) \<and> 1 \<le> y))"

lemma merge_nodes_simps:
  assumes "l \<noteq> m" "l \<noteq> r" "leaf_pair s l r {m}"
  shows "ents (merge_nodes s l r m ms) z = (if z = m then ms else if z = l then ents (ix_nodes s) l @ ents (ix_nodes s) r else ents (ix_nodes s) z)"
    "nd_leaf (the (merge_nodes s l r m ms z)) = nd_leaf (the (ix_nodes s z))"
  subgoal using assms by (auto simp: merge_nodes_def leaf_pair_def Let_def)
  subgoal by (auto simp: merge_nodes_def node_def)
  done

lemma merge_frame:
  assumes out: "outside_kids s r (set (concat (L # M # Ls)))" and lp: "leaf_pair s l r (insert m (set (concat Ls)))"
    and dm: "{l, r, m} \<subseteq> dom (ix_nodes s)" "{l, m} \<inter> set (concat Ls) = {}" and lrm: "l \<noteq> m" "l \<noteq> r" and K: "set K \<subseteq> set L"
  shows "pair_frame l r m K M Ls (ix_nodes s) (merge_nodes s l r m ms)"
proof -
  let ?N = "ix_nodes s" and ?N' = "merge_nodes s l r m ms"
  have lp1: "leaf_pair s l r {m}" using lp by (simp add: leaf_pair_def Let_def)
  note sm = merge_nodes_simps [OF lrm lp1]
  have kids: "z \<notin> (\<lambda>e. rid_page_no (snd e)) ` set (ents ?N r)" if "z \<in> set (concat (L # M # Ls))" "\<not> nd_leaf (node s r)" for z
    using that out by (auto simp: outside_kids_def)
  have "?N' z = ?N z" if z: "z \<in> set (concat Ls)" for z
  proof -
    have n: "z \<noteq> l" "z \<noteq> m" using z dm(2) by auto
    show ?thesis
    proof (cases "nd_leaf (node s r)")
      case True
      then have "z \<noteq> nd_next (node s r)" using lp z by (auto simp: leaf_pair_def Let_def)
      then show ?thesis using n True by (simp add: merge_nodes_def)
    next
      case False
      then show ?thesis using n kids [of z] z by (simp add: merge_nodes_def)
    qed
  qed
  moreover have "par ?N' z = par ?N z" if z: "z \<in> set K \<union> set M" for z
  proof (cases "nd_leaf (node s r)")
    case True
    then show ?thesis by (auto simp: merge_nodes_def)
  next
    case False
    have "z \<in> set (concat (L # M # Ls))" using z K by auto
    then show ?thesis using kids [of z] False by (simp add: merge_nodes_def par_reparent)
  qed
  moreover have "dom ?N' = dom ?N"
    using dm(1) lp by (cases "nd_leaf (node s r)") (auto simp: merge_nodes_def leaf_pair_def Let_def)
  ultimately show ?thesis unfolding pair_frame_def using sm by simp
qed

lemma coalesce_pair:
  assumes m: "ents (ix_nodes s) m = ea @ el # er # eb"
    and pn: "p = l \<and> nb = r \<and> i = 0 \<and> ea = [] \<or> p = r \<and> nb = l \<and> i = Suc (length ea)"
    and lrm: "l \<noteq> r" "l \<noteq> m" "r \<noteq> m" and leaf: "nd_leaf (node s l) = nd_leaf (node s r)" and l: "l \<in> dom (ix_nodes s)" "1 \<le> l"
    and out: "outside_kids s r S" "m \<in> S" and lp: "leaf_pair s l r {m}"
  shows "coalesce again tx nb p m i s = again_on again m (merge_state tx s l r (merge_nodes s l r m (ea @ el # eb)))"
proof -
  have c: "(l, r, Suc (length ea)) = (if i = 0 then (p, nb, 1) else (nb, p, i))" using pn by auto
  show ?thesis
  proof (cases "nd_leaf (node s r)")
    case True
    then show ?thesis
      using lp lrm l by (intro coalesce_leaf [OF c True m refl, of "nd_next (node s r)"]) (simp_all add: leaf_pair_def Let_def)
  next
    case False
    then show ?thesis
      using out leaf lrm by (intro coalesce_internal [OF c False _ m refl]) (auto simp: outside_kids_def)
  qed
qed

lemma cor_merge:
  fixes s l r
  assumes pr: "paired s L p M Ls m ea l el r er eb A B nb i" and lp: "leaf_pair s l r (insert m (set (concat Ls)))"
    and sz: "length (ents (ix_nodes s) p) + length (ents (ix_nodes s) nb) < 2 * get_min_size (ix_hdr s)"
  obtains N' where "N' = merge_nodes s l r m (ea @ el # eb)"
    "coalesce_or_redistribute (Suc n) tx p s = on_throw (on_throw
      (run_bind (again_on (coalesce_or_redistribute n tx) m (merge_state tx (s\<lparr>ix_pins := add_mset nb (add_mset m (ix_pins s))\<rparr>) l r N'))
        (\<lambda>_ s. Some (Inr True, unpin nb (unpin m s)))) (unpin nb)) (unpin m)"
    "pair_frame l r m (A @ l # B) M Ls (ix_nodes s) N'" "link_ok (ix_hdr s) {} N' (A @ l # B) M" "level_ok (ix_hdr s) N' (A @ l # B)"
    "thin (ix_hdr s) N' M m" "above (ix_hdr s) {} N' M Ls" "row N' (A @ l # B) = row (ix_nodes s) L"
proof -
  let ?N = "ix_nodes s" and ?h = "ix_hdr s" and ?S = "set (concat (L # M # Ls))"
  let ?s1 = "s\<lparr>ix_pins := add_mset nb (add_mset m (ix_pins s))\<rparr>" and ?N' = "merge_nodes s l r m (ea @ el # eb)"
  note pd = pairedD [OF pr]
  note pm = paired_more [OF pr]
  note d = shortD [OF pd(1)]
  have mm: "L = A @ l # r # B" "ents ?N m = ea @ el # er # eb" "rid_page_no (snd el) = l" "rid_page_no (snd er) = r"
    using pd(4) by (simp_all add: siblings_def)
  have sz': "\<not> 2 * get_min_size ?h \<le> length (ents ?N p) + length (ents ?N nb)" using sz by simp
  have lp1: "leaf_pair s l r {m}" using lp by (simp add: leaf_pair_def Let_def)
  have "ix_nodes ?s1 = ?N" "node ?s1 = node s" by (simp_all add: node_def [abs_def])
  then have co: "coalesce again tx nb p m i ?s1 = again_on again m (merge_state tx ?s1 l r (merge_nodes ?s1 l r m (ea @ el # eb)))" for again
    by (intro coalesce_pair [OF _ pd(5) pm(6-8), where S = ?S])
      (use mm pd(8,9) pm(1,4) d(12,13) lp1 in \<open>auto simp: outside_kids_def leaf_pair_def\<close>)
  moreover have "merge_nodes ?s1 l r m (ea @ el # eb) = ?N'" by (simp add: merge_nodes_def)
  ultimately have res: "coalesce_or_redistribute (Suc n) tx p s = on_throw (on_throw
      (run_bind (again_on (coalesce_or_redistribute n tx) m (merge_state tx ?s1 l r ?N'))
        (\<lambda>_ s. Some (Inr True, unpin nb (unpin m s)))) (unpin nb)) (unpin m)"
    unfolding cor_pair [OF pd(2) pm(2,3) pd(3) mm(2-4) pd(5) pm(11) pd(6)] if_not_P [OF sz'] by simp
  have fr: "pair_frame l r m (A @ l # B) M Ls ?N ?N'"
    by (rule merge_frame [OF pd(8) lp]) (use pm(1,3-8) d(10,11,13) mm(1) in auto)
  have sm: "ents ?N' l = ents ?N l @ ents ?N r" "ents ?N' m = ea @ el # eb" using pm(7) merge_nodes_simps [OF pm(7,6) lp1] by simp_all
  have lr: "length (ents ?N l) + length (ents ?N r) < 2 * get_min_size ?h" using sz pd(5) by auto
  have pin: "p \<in> {l, r}" using pd(5) by auto
  show ?thesis
    by (rule that [OF refl res fr merge_level [OF pd(4) d(3,4,5,7,8,9) pm(18) pin fr d(6) sm(1) pm(16) lr sm(2)]])
qed


subsection \<open>Deletion in the levels above the leaves\<close>

definition shrunk :: "ix_index \<Rightarrow> ix_index \<Rightarrow> int set \<Rightarrow> int list \<Rightarrow> int list list \<Rightarrow> int list \<Rightarrow> int list list \<Rightarrow> bool" where
  "shrunk s s' T L Ls L' Ls' \<longleftrightarrow>
     level_ok (ix_hdr s) (ix_nodes s') L' \<and> above (ix_hdr s) {} (ix_nodes s') L' Ls' \<and> distinct (concat (L' # Ls')) \<and>
     set (concat (L' # Ls')) \<subseteq> set (concat (L # Ls)) \<and> root_of L' Ls' = root_of L Ls \<and> dom (ix_nodes s') = dom (ix_nodes s) \<and>
     ix_pins s' = ix_pins s \<and> ix_next s' = ix_next s \<and> same_cfg (ix_hdr s) (ix_hdr s') \<and>
     ixh_root_page (ix_hdr s') = ixh_root_page (ix_hdr s) \<and> ixh_first_leaf (ix_hdr s') = ixh_first_leaf (ix_hdr s) \<and>
     ixh_last_leaf (ix_hdr s') = ixh_last_leaf (ix_hdr s) \<and> only_parents (set (concat (L # Ls))) T (ix_nodes s) (ix_nodes s')"

lemma shrunkD:
  assumes "shrunk s s' T L Ls L' Ls'"
  shows "level_ok (ix_hdr s) (ix_nodes s') L'" "above (ix_hdr s) {} (ix_nodes s') L' Ls'" "distinct (concat (L' # Ls'))"
    "set (concat (L' # Ls')) \<subseteq> set (concat (L # Ls))" "root_of L' Ls' = root_of L Ls" "dom (ix_nodes s') = dom (ix_nodes s)"
    "ix_pins s' = ix_pins s" "ix_next s' = ix_next s" "same_cfg (ix_hdr s) (ix_hdr s')"
    "ixh_root_page (ix_hdr s') = ixh_root_page (ix_hdr s)" "ixh_first_leaf (ix_hdr s') = ixh_first_leaf (ix_hdr s)"
    "ixh_last_leaf (ix_hdr s') = ixh_last_leaf (ix_hdr s)" "only_parents (set (concat (L # Ls))) T (ix_nodes s) (ix_nodes s')"
  using assms unfolding shrunk_def by blast+

lemma thin_level: "thin h N L p \<Longrightarrow> get_min_size h \<le> length (ents N p) \<or> length L < 2 \<Longrightarrow> level_ok h N L"
  unfolding thin_def level_ok_def by (auto split: if_splits)

lemma shrunk_refl: "short s L p Ls \<Longrightarrow> level_ok (ix_hdr s) (ix_nodes s) L \<Longrightarrow> shrunk s s T L Ls L Ls"
  by (auto simp: short_def shrunk_def intro: only_parentsI)

lemma short_not_root:
  assumes "short s L p (M # Ls)"
  shows "par (ix_nodes s) p \<noteq> IX_NO_PAGE" "par (ix_nodes s) p \<in> set M" "par (ix_nodes s) p \<in> dom (ix_nodes s)"
proof -
  note d = shortD [OF assms]
  obtain e where p: "par (ix_nodes s) p \<in> set M" by (rule link_parent [OF d(3,1)])
  then have "2 \<le> par (ix_nodes s) p" using d(12) by blast
  then show "par (ix_nodes s) p \<noteq> IX_NO_PAGE" by (simp add: IX_NO_PAGE_def)
  show "par (ix_nodes s) p \<in> set M" by (rule p)
  show "par (ix_nodes s) p \<in> dom (ix_nodes s)" using d(4) p by (auto simp: level_ok_def)
qed

lemma cor_enough:
  "par (ix_nodes s) p \<noteq> IX_NO_PAGE \<Longrightarrow> get_min_size (ix_hdr s) \<le> length (ents (ix_nodes s) p) \<Longrightarrow>
    coalesce_or_redistribute (Suc n) tx p s = Some (Inr False, s)"
  by (simp add: is_root_page_def)

lemma again_ok:
  assumes sh: "short s M m Ls" and lk: "link_ok (ix_hdr s) {} (ix_nodes s) K M"
    and IH: "Ls \<noteq> [] \<Longrightarrow> \<exists>b s' M' Ls'. again m s = Some (Inr b, s') \<and> shrunk s s' (set K) M Ls M' Ls' \<and> link_ok (ix_hdr s) {} (ix_nodes s') K M'"
  shows "\<exists>b s' M' Ls'. again_on again m s = Some (Inr b, s') \<and> shrunk s s' (set K) M Ls M' Ls' \<and> link_ok (ix_hdr s) {} (ix_nodes s') K M'"
proof (cases "length (ents (ix_nodes s) m) < get_min_size (ix_hdr s) \<and> par (ix_nodes s) m \<noteq> IX_NO_PAGE")
  case True
  have "Ls \<noteq> []"
  proof
    assume "Ls = []"
    then obtain r where "M = [r]" "par (ix_nodes s) r = IX_NO_PAGE" using sh by (auto simp: short_def)
    then show False using sh True by (simp add: short_def thin_def)
  qed
  then show ?thesis using IH True by (simp add: again_on_def)
next
  case False
  have "get_min_size (ix_hdr s) \<le> length (ents (ix_nodes s) m) \<or> length M < 2"
  proof (cases Ls)
    case Nil
    then show ?thesis using sh by (auto simp: short_def)
  next
    case (Cons M' Ls')
    then show ?thesis using short_not_root(1) [of s M m M' Ls'] sh False by auto
  qed
  then have "level_ok (ix_hdr s) (ix_nodes s) M" using thin_level [of "ix_hdr s" "ix_nodes s" M m] sh by (simp add: short_def)
  moreover have "again_on again m s = Some (Inr False, s)" using False by (simp only: again_on_def if_False)
  ultimately show ?thesis using shrunk_refl [OF sh] lk by blast
qed

lemma merge_state_simps [simp]:
  "ix_nodes (merge_state tx s l r N') = N'" "ix_pins (merge_state tx s l r N') = ix_pins s" "ix_next (merge_state tx s l r N') = ix_next s"
  "same_cfg (ix_hdr s) (ix_hdr (merge_state tx s l r N'))" "ixh_root_page (ix_hdr (merge_state tx s l r N')) = ixh_root_page (ix_hdr s)"
  "ixh_first_leaf (ix_hdr (merge_state tx s l r N')) = ixh_first_leaf (ix_hdr s)"
  by (simp_all add: merge_state_def same_cfg_def)

lemma thin_cfg: "same_cfg h h' \<Longrightarrow> thin h' N L p = thin h N L p"
  by (simp add: thin_def same_cfg_sizes) (simp add: same_cfg_def)

lemma short_cfg: "same_cfg (ix_hdr s) h \<Longrightarrow> short s L p Ls \<longleftrightarrow> thin h (ix_nodes s) L p \<and> above h {} (ix_nodes s) L Ls \<and> hdr_cfg_ok h \<and>
     distinct (concat (L # Ls)) \<and> (\<forall>q \<in> set (concat (L # Ls)). 2 \<le> q)"
  by (simp only: short_def thin_cfg same_cfg_levels same_cfg_sizes)

lemma merge_then:
  assumes K: "level_ok h N' K" "distinct K" "set K \<inter> set (concat (M # Ls)) = {}"
    and sh: "shrunk s s' (set K) M Ls M' Ls'" "ix_nodes s = N'" "same_cfg h (ix_hdr s)" and lk: "link_ok h {} (ix_nodes s') K M'"
  shows "level_ok h (ix_nodes s') K" "above h {} (ix_nodes s') K (M' # Ls')" "distinct (concat (K # M' # Ls'))"
    "set (concat (K # M' # Ls')) \<subseteq> set (concat (K # M # Ls))" "root_of K (M' # Ls') = root_of K (M # Ls)" "row (ix_nodes s') K = row N' K"
proof -
  note d = shrunkD [OF sh(1)]
  have op: "ents (ix_nodes s') z = ents N' z" if "z \<in> set K" for z
    using only_parents_ents(1) [OF d(13), of z] that K(3) sh(2) by auto
  show "level_ok h (ix_nodes s') K" by (rule level_ok_frame [OF K(1)]) (use op d(6) K(1) sh(2) in \<open>auto simp: level_ok_def\<close>)
  show "row (ix_nodes s') K = row N' K" by (rule row_cong) (use op in blast)
  show "above h {} (ix_nodes s') K (M' # Ls')" using lk d(1,2) same_cfg_levels [OF sh(3)] by simp
  have "set K \<inter> set (concat (M' # Ls')) = {}" using d(4) K(3) by blast
  then show "distinct (concat (K # M' # Ls'))" using d(3) K(2) by simp
  show "set (concat (K # M' # Ls')) \<subseteq> set (concat (K # M # Ls))" using d(4) by auto
  show "root_of K (M' # Ls') = root_of K (M # Ls)" using d(5) by (simp add: root_of_def)
qed


lemma shift_low:
  assumes lk: "link_ok (ix_hdr s) {} (ix_nodes s) Lo L" and d: "distinct Lo" "set Lo \<inter> set (concat (L # M # Ls)) = {}" "set Lo \<subseteq> dom (ix_nodes s)"
    and pr: "paired s L p M Ls m ea l el r er eb A B nb i" and so: "shift_outcome s p nb m N'" and fr: "pair_frame l r m L M Ls (ix_nodes s) N'"
    and lr: "ents N' l @ ents N' r = ents (ix_nodes s) l @ ents (ix_nodes s) r" "ents N' l \<noteq> []" "ents N' r \<noteq> []"
  shows "link_ok (ix_hdr s) {} N' Lo L" "only_parents (set (concat (L # M # Ls))) (set Lo) (ix_nodes s) N'"
proof -
  let ?N = "ix_nodes s" and ?pg = "\<lambda>e. rid_page_no (snd e)"
  note pm = paired_more [OF pr]
  note ds = shortD [OF pairedD(1) [OF pr]]
  obtain e es fs ms where e: "N' = shift_nodes s p es nb fs m ms p e" "ents ?N nb = e # fs \<or> ents ?N nb = fs @ [e]"
    "es = ents ?N p @ [e] \<or> es = e # ents ?N p" using so unfolding shift_outcome_def by blast
  have L: "L = A @ l # r # B" using pairedD(4) [OF pr] by (simp add: siblings_def)
  have pL: "p \<in> set L" by (rule ds(1))
  have nl: "\<not> nd_leaf (node s p)" using linkD(2) [OF lk pL] by (simp add: node_def)
  have enb: "e \<in> set (ents ?N nb)" "set fs \<subseteq> set (ents ?N nb)" using e(2) by auto
  have eLo: "?pg e \<in> set Lo" by (rule kid_in_level [OF lk pm(9) enb(1)])
  have pe: "par ?N (?pg e) = nb" using linkD(3) [OF lk pm(9) enb(1)] by simp
  have pr': "par N' z = (if z = ?pg e then p else par ?N z)" for z
    using nl eLo d(3) by (auto simp: e(1) shift_nodes_def par_reparent moved_def)
  have nbm: "nb \<noteq> m" "p \<noteq> m" using pm(7,8,17) by auto
  have E: "ents N' p = es" "ents N' nb = fs" using nbm pm(10) by (simp_all add: e(1) shift_nodes_def)
  have dk: "distinct (kids ?N nb)" by (rule distinct_kids [of _ L]) (use linkD(1) [OF lk] d(1) pm(9) in simp_all)
  have pf: "par N' (?pg f) = q" if q: "q \<in> {l, r}" and f: "f \<in> set (ents N' q)" for q f
  proof (cases "q = p")
    case True
    then have "f = e \<or> f \<in> set (ents ?N p)" using f E(1) e(3) by auto
    then show ?thesis using pr' linkD(3) [OF lk pL, of f] True by auto
  next
    case False
    then have qn: "q = nb" using q pm(17) by auto
    then have "f \<in> set fs" using f E(2) by simp
    moreover have "?pg e \<notin> ?pg ` set fs" using e(2) dk by (elim disjE) (simp_all add: kids_def)
    ultimately have "f \<in> set (ents ?N nb)" "?pg f \<noteq> ?pg e" using enb(2) by (blast, metis (mono_tags, lifting) image_eqI)
    then show ?thesis using pr' linkD(3) [OF lk pm(9), of f] qn by simp
  qed
  have oth: "ents N' z = ents ?N z" if "z \<notin> {l, r, m}" for z using fr that by (simp add: pair_frame_def)
  have mL: "m \<notin> set L" "m \<notin> set Lo" "l \<notin> set Lo" "r \<notin> set Lo" using pm(1,4,5) ds(9) d(2) by auto
  show "link_ok (ix_hdr s) {} N' Lo L" unfolding L
  proof (rule link_low_shift [OF lk [unfolded L] d(1)])
    show "distinct (A @ l # r # B)" "set Lo \<inter> set (A @ l # r # B) = {}" using ds(7) L d(2) by auto
    fix z assume "z \<in> set Lo \<union> set A \<union> set B"
    then show "ents N' z = ents ?N z" by (intro oth) (use mL L ds(7) in auto)
  next
    fix c assume "c \<in> set Lo" "par ?N c \<notin> {l, r}"
    then show "par N' c = par ?N c" using pr' [of c] pe pm(17) by auto
  qed (use lr pf fr in \<open>auto simp: pair_frame_def\<close>)
  have mem: "{l, r, m} \<subseteq> set (concat (L # M # Ls))" using pm(1,4,5) by auto
  show "only_parents (set (concat (L # M # Ls))) (set Lo) ?N N'"
  proof (rule only_parentsI)
    fix x assume x: "x \<notin> set (concat (L # M # Ls))"
    then have xn: "x \<noteq> p" "x \<noteq> nb" "x \<noteq> m" using mem pm(17) by auto
    show "N' x = ?N x \<or> x \<in> set Lo \<and> (\<exists>pp. N' x = map_option (\<lambda>nd. nd\<lparr>nd_parent := pp\<rparr>) (?N x))"
    proof (cases "x = ?pg e")
      case True
      then have "N' x = map_option (\<lambda>nd. nd\<lparr>nd_parent := p\<rparr>) (?N x)"
        using nl xn by (simp add: e(1) shift_nodes_def moved_def reparent_def)
      then show ?thesis using True eLo by blast
    next
      case False
      then show ?thesis using nl xn by (simp add: e(1) shift_nodes_def moved_def)
    qed
  qed
qed

lemma merge_low:
  assumes lk: "link_ok (ix_hdr s) {} (ix_nodes s) Lo L" and d: "distinct Lo" "set Lo \<inter> set (concat (L # M # Ls)) = {}" "set Lo \<subseteq> dom (ix_nodes s)"
    and pr: "paired s L p M Ls m ea l el r er eb A B nb i" and N': "N' = merge_nodes s l r m ms" and fr: "pair_frame l r m (A @ l # B) M Ls (ix_nodes s) N'"
  shows "link_ok (ix_hdr s) {} N' Lo (A @ l # B)" "only_parents (set (concat (L # M # Ls))) (set Lo) (ix_nodes s) N'"
proof -
  let ?N = "ix_nodes s" and ?pg = "\<lambda>e. rid_page_no (snd e)"
  note pm = paired_more [OF pr]
  note ds = shortD [OF pairedD(1) [OF pr]]
  have L: "L = A @ l # r # B" using pairedD(4) [OF pr] by (simp add: siblings_def)
  have nl: "\<not> nd_leaf (node s r)" using linkD(2) [OF lk pm(5)] by (simp add: node_def)
  let ?C = "?pg ` set (ents ?N r)"
  have M': "N' = set_ents m ms (reparent l ?C (set_ents l (ents ?N l @ ents ?N r) ?N))" using N' nl by (simp add: merge_nodes_def)
  have C: "?C \<subseteq> set Lo" using kid_in_level [OF lk pm(5)] by auto
  have pr': "par N' z = (if z \<in> ?C then l else par ?N z)" for z using M' C d(3) pm(4) ds(13) by (auto simp: par_reparent)
  have el: "ents N' l = ents ?N l @ ents ?N r" using M' pm(7) by simp
  have oth: "ents N' z = ents ?N z" if "z \<notin> {l, r, m}" for z using fr that by (simp add: pair_frame_def)
  have mL: "m \<notin> set L" "m \<notin> set Lo" "l \<notin> set Lo" "r \<notin> set Lo" using pm(1,4,5) ds(9) d(2) by auto
  show "link_ok (ix_hdr s) {} N' Lo (A @ l # B)"
  proof (rule link_low_merge [OF lk [unfolded L] d(1) _ _ el])
    show "distinct (A @ l # r # B)" "set Lo \<inter> set (A @ l # r # B) = {}" using ds(7) L d(2) by auto
    fix z assume "z \<in> set Lo \<union> set A \<union> set B"
    then show "ents N' z = ents ?N z" by (intro oth) (use mL L ds(7) in auto)
  next
    fix e assume "e \<in> set (ents N' l)"
    then have "e \<in> set (ents ?N l) \<or> e \<in> set (ents ?N r)" using el by auto
    then show "par N' (?pg e) = l" using pr' linkD(3) [OF lk pm(4), of e] by auto
  next
    fix c assume c: "c \<in> set Lo" "par ?N c \<notin> {l, r}"
    then have "c \<notin> ?C" using linkD(3) [OF lk pm(5)] by auto
    then show "par N' c = par ?N c" using pr' [of c] by simp
  qed (use fr in \<open>simp add: pair_frame_def\<close>)
  show "only_parents (set (concat (L # M # Ls))) (set Lo) ?N N'"
  proof (rule only_parentsI)
    fix x assume x: "x \<notin> set (concat (L # M # Ls))"
    then have xn: "x \<noteq> l" "x \<noteq> m" using pm(1,4) by auto
    show "N' x = ?N x \<or> x \<in> set Lo \<and> (\<exists>pp. N' x = map_option (\<lambda>nd. nd\<lparr>nd_parent := pp\<rparr>) (?N x))"
    proof (cases "x \<in> ?C")
      case True
      then have "N' x = map_option (\<lambda>nd. nd\<lparr>nd_parent := l\<rparr>) (?N x)" using M' xn by (simp add: reparent_def)
      then show ?thesis using True C by blast
    next
      case False
      then show ?thesis using M' xn by simp
    qed
  qed
qed


lemma internal_pair:
  assumes sh: "short s L p (M # Ls)" and lk: "link_ok (ix_hdr s) {} (ix_nodes s) Lo L"
    and d: "set Lo \<inter> set (concat (L # M # Ls)) = {}" "set Lo \<subseteq> dom (ix_nodes s)"
    and sib: "siblings (ix_nodes s) A M m ea l el r er eb B L" and pr: "par (ix_nodes s) p = m" "find_child p (node s m) = Inr i"
      "p = l \<and> nb = r \<and> i = 0 \<and> ea = [] \<or> p = r \<and> nb = l \<and> i = Suc (length ea)" "length (ents (ix_nodes s) p) < get_min_size (ix_hdr s)"
  shows "paired s L p M Ls m ea l el r er eb A B nb i" "leaf_pair s l r (insert m (set (concat Ls)))"
proof -
  have lr: "l \<in> set L" "r \<in> set L" using sib by (simp_all add: siblings_def)
  have out: "outside_kids s q (set (concat (L # M # Ls)))" if "q \<in> set L" for q
    using kid_in_level [OF lk that] d unfolding outside_kids_def by blast
  have nl: "\<not> nd_leaf (node s q)" if "q \<in> set L" for q using linkD(2) [OF lk that] by (simp add: node_def)
  have "\<forall>z \<in> {l, r}. \<forall>e \<in> set (ents (ix_nodes s) z). good_key (ix_hdr s) (fst e)" using linkD(3) [OF lk] lr by blast
  then show "paired s L p M Ls m ea l el r er eb A B nb i"
    unfolding paired_def using sh pr sib out [OF lr(1)] out [OF lr(2)] nl [OF lr(1)] nl [OF lr(2)] by blast
  show "leaf_pair s l r (insert m (set (concat Ls)))" using nl [OF lr(2)] by (simp add: leaf_pair_def)
qed

lemma link_low_frame:
  assumes lk: "link_ok h {} N Lo K" and op: "only_parents S (set K) N N'" and d: "set K \<inter> S = {}" "set Lo \<inter> S = {}" "set Lo \<inter> set K = {}"
  shows "link_ok h {} N' Lo K"
proof (rule link_ok_frame [OF lk subset_refl])
  show "\<forall>q \<in> set K. ents N' q = ents N q \<and> nd_leaf (the (N' q)) = nd_leaf (the (N q))"
    using only_parents_ents(1,2) [OF op] d(1) by blast
  show "\<forall>c \<in> set Lo. par N' c = par N c \<and> (c \<notin> {} \<longrightarrow> first_same N N' c)"
  proof
    fix c assume "c \<in> set Lo"
    then have "N' c = N c" using d by (intro only_parents_same [OF op]) auto
    then show "par N' c = par N c \<and> (c \<notin> {} \<longrightarrow> first_same N N' c)" by (simp add: par_def ents_def first_same_def)
  qed
qed

text \<open>The state after a merge, up to the call on the parent, and the call on the parent when the level above the parent is fixed by it.\<close>

definition fixes_above :: "(int \<Rightarrow> ix_index \<Rightarrow> bool ix_run) \<Rightarrow> int list list \<Rightarrow> bool" where
  "fixes_above again Ls \<longleftrightarrow> (\<forall>s K M m. Ls \<noteq> [] \<longrightarrow> short s M m Ls \<longrightarrow> link_ok (ix_hdr s) {} (ix_nodes s) K M \<longrightarrow> distinct K \<longrightarrow>
     set K \<inter> set (concat (M # Ls)) = {} \<longrightarrow> set K \<subseteq> dom (ix_nodes s) \<longrightarrow>
     (\<exists>b s' M' Ls'. again m s = Some (Inr b, s') \<and> shrunk s s' (set K) M Ls M' Ls' \<and> link_ok (ix_hdr s) {} (ix_nodes s') K M'))"

lemma merge_and_above:
  assumes pr: "paired s L p M Ls m ea l el r er eb A B nb i" and lp: "leaf_pair s l r (insert m (set (concat Ls)))"
    and sz: "length (ents (ix_nodes s) p) + length (ents (ix_nodes s) nb) < 2 * get_min_size (ix_hdr s)"
    and fx: "fixes_above (coalesce_or_redistribute k tx) Ls"
  obtains N' s' M' Ls' where "N' = merge_nodes s l r m (ea @ el # eb)" "pair_frame l r m (A @ l # B) M Ls (ix_nodes s) N'"
    "coalesce_or_redistribute (Suc k) tx p s = Some (Inr True, s')" "only_parents (set (concat (M # Ls))) (set (A @ l # B)) N' (ix_nodes s')"
    "level_ok (ix_hdr s) (ix_nodes s') (A @ l # B)" "above (ix_hdr s) {} (ix_nodes s') (A @ l # B) (M' # Ls')"
    "distinct (concat ((A @ l # B) # M' # Ls'))" "set (concat ((A @ l # B) # M' # Ls')) \<subseteq> set (concat (L # M # Ls))"
    "root_of (A @ l # B) (M' # Ls') = root_of L (M # Ls)" "row (ix_nodes s') (A @ l # B) = row (ix_nodes s) L"
    "dom (ix_nodes s') = dom (ix_nodes s)" "ix_pins s' = ix_pins s" "ix_next s' = ix_next s" "same_cfg (ix_hdr s) (ix_hdr s')"
    "ixh_root_page (ix_hdr s') = ixh_root_page (ix_hdr s)" "ixh_first_leaf (ix_hdr s') = ixh_first_leaf (ix_hdr s)"
    "ixh_last_leaf (ix_hdr s') = (if nd_leaf (node s r) \<and> r = ixh_last_leaf (ix_hdr s) then l else ixh_last_leaf (ix_hdr s))"
proof -
  let ?N = "ix_nodes s" and ?h = "ix_hdr s" and ?K = "A @ l # B"
  let ?sp = "s\<lparr>ix_pins := add_mset nb (add_mset m (ix_pins s))\<rparr>"
  note sh = pairedD(1) [OF pr]
  note d = shortD [OF sh]
  have L: "L = A @ l # r # B" using pairedD(4) [OF pr] by (simp add: siblings_def)
  obtain N' where N': "N' = merge_nodes s l r m (ea @ el # eb)"
    "coalesce_or_redistribute (Suc k) tx p s = on_throw (on_throw (run_bind (again_on (coalesce_or_redistribute k tx) m (merge_state tx ?sp l r N'))
        (\<lambda>_ s. Some (Inr True, unpin nb (unpin m s)))) (unpin nb)) (unpin m)"
    "pair_frame l r m ?K M Ls ?N N'" "link_ok ?h {} N' ?K M" "level_ok ?h N' ?K" "thin ?h N' M m" "above ?h {} N' M Ls" "row N' ?K = row ?N L"
    by (rule cor_merge [OF pr lp sz])
  define s1 where "s1 = merge_state tx ?sp l r N'"
  have s1: "ix_nodes s1 = N'" "ix_pins s1 = add_mset nb (add_mset m (ix_pins s))" "ix_next s1 = ix_next s" "same_cfg ?h (ix_hdr s1)"
    "ixh_root_page (ix_hdr s1) = ixh_root_page ?h" "ixh_first_leaf (ix_hdr s1) = ixh_first_leaf ?h"
    "ixh_last_leaf (ix_hdr s1) = (if nd_leaf (node s r) \<and> r = ixh_last_leaf ?h then l else ixh_last_leaf ?h)"
    unfolding s1_def using merge_state_simps(4) [of ?sp] by simp_all (auto simp: merge_state_def)
  have ds: "distinct (concat (L # M # Ls))" "\<forall>q \<in> set (concat (L # M # Ls)). 2 \<le> q" using sh by (simp_all add: short_def)
  have K: "distinct ?K" "set ?K \<inter> set (concat (M # Ls)) = {}" "set ?K \<subseteq> dom N'" using ds(1) L N'(5) by (auto simp: level_ok_def)
  have sh1: "short s1 M m Ls" using N'(6,7) d(6) ds s1(4) unfolding short_def s1(1) by (simp add: thin_cfg same_cfg_levels same_cfg_sizes)
  have lk1: "link_ok (ix_hdr s1) {} (ix_nodes s1) ?K M" using N'(4) s1(1) same_cfg_levels(1) [OF s1(4)] by simp
  have "\<exists>b s' M' Ls'. again_on (coalesce_or_redistribute k tx) m s1 = Some (Inr b, s') \<and> shrunk s1 s' (set ?K) M Ls M' Ls' \<and>
      link_ok (ix_hdr s1) {} (ix_nodes s') ?K M'"
    by (rule again_ok [OF sh1 lk1]) (use fx sh1 lk1 K s1(1) in \<open>unfold fixes_above_def, blast\<close>)
  then obtain b s2 M' Ls' where s2: "again_on (coalesce_or_redistribute k tx) m s1 = Some (Inr b, s2)" "shrunk s1 s2 (set ?K) M Ls M' Ls'"
    "link_ok (ix_hdr s1) {} (ix_nodes s2) ?K M'" by blast
  note sd = shrunkD [OF s2(2)]
  note mt = merge_then [OF N'(5) K(1,2) s2(2) s1(1,4) s2(3) [unfolded same_cfg_levels(1) [OF s1(4)]]]
  define s3 where "s3 = unpin nb (unpin m s2)"
  have s3: "ix_nodes s3 = ix_nodes s2" "ix_hdr s3 = ix_hdr s2" "ix_next s3 = ix_next s2" "ix_pins s3 = ix_pins s"
    using sd(7) s1(2) by (simp_all add: s3_def)
  have res: "coalesce_or_redistribute (Suc k) tx p s = Some (Inr True, s3)" unfolding N'(2) s1_def [symmetric] s2(1) by (simp add: s3_def)
  have sub: "set (concat (?K # M' # Ls')) \<subseteq> set (concat (L # M # Ls))" using mt(4) L by auto
  have root: "root_of ?K (M' # Ls') = root_of L (M # Ls)" using mt(5) by (simp add: root_of_def)
  have dm: "dom (ix_nodes s3) = dom ?N" using sd(6) s1(1) N'(3) s3(1) by (simp add: pair_frame_def)
  show ?thesis
    by (rule that [OF N'(1,3) res sd(13) [unfolded s1(1), folded s3(1)] mt(1,2) [folded s3(1)] mt(3) sub root _ dm s3(4)])
      (use mt(6) N'(8) s3 sd(8-12) s1 same_cfg_trans [OF s1(4) sd(9)] in simp_all)
qed

lemma cor_internal:
  assumes "short s L p Ls" "link_ok (ix_hdr s) {} (ix_nodes s) Lo L" "distinct Lo" "set Lo \<inter> set (concat (L # Ls)) = {}"
    "set Lo \<subseteq> dom (ix_nodes s)" "Ls \<noteq> []" "length Ls \<le> n"
  shows "\<exists>b s' L' Ls'. coalesce_or_redistribute n tx p s = Some (Inr b, s') \<and> shrunk s s' (set Lo) L Ls L' Ls' \<and>
    link_ok (ix_hdr s) {} (ix_nodes s') Lo L'"
  using assms
proof (induction Ls arbitrary: s Lo L p n)
  case (Cons M Ls)
  let ?N = "ix_nodes s" and ?h = "ix_hdr s"
  obtain k where n: "n = Suc k" using Cons.prems(7) by (cases n) auto
  note sh = Cons.prems(1)
  note d = shortD [OF sh]
  have th: "thin ?h ?N L p" using sh by (simp add: short_def)
  note nr = short_not_root [OF sh]
  show ?case
  proof (cases "get_min_size ?h \<le> length (ents ?N p)")
    case True
    then have "level_ok ?h ?N L" using thin_level [OF th] by simp
    then have "shrunk s s (set Lo) L (M # Ls) L (M # Ls)" by (rule shrunk_refl [OF sh])
    then show ?thesis using cor_enough [OF nr(1) True] n Cons.prems(2) by blast
  next
    case False
    then have lt: "length (ents ?N p) < get_min_size ?h" by simp
    from sh show ?thesis
    proof (cases rule: neighbours)
      case (single m e)
      then have "level_ok ?h ?N L" using thin_level [OF th] by simp
      then have "shrunk s s (set Lo) L (M # Ls) L (M # Ls)" by (rule shrunk_refl [OF sh])
      then show ?thesis using cor_single [of s p m] single nr n Cons.prems(2) by blast
    next
      case (pair m ea el er eb l r A B nb i)
      note ip = internal_pair [OF sh Cons.prems(2,4,5) pair(3,1,2,4) lt]
      have L: "L = A @ l # r # B" using pair(3) by (simp add: siblings_def)
      show ?thesis
      proof (cases "2 * get_min_size ?h \<le> length (ents ?N p) + length (ents ?N nb)")
        case True
        obtain N' where c: "coalesce_or_redistribute (Suc k) tx p s = Some (Inr False, s\<lparr>ix_nodes := N'\<rparr>)" "shift_outcome s p nb m N'"
          "ents N' l @ ents N' r = ents ?N l @ ents ?N r" "ents N' l \<noteq> []" "ents N' r \<noteq> []"
          "pair_frame l r m L M Ls ?N N'" "link_ok ?h {} N' L M" "level_ok ?h N' L" "level_ok ?h N' M" "above ?h {} N' M Ls" "row N' L = row ?N L"
          by (rule cor_shift [OF ip(1) True])
        note lo = shift_low [OF Cons.prems(2-5) ip(1) c(2,6,3-5)]
        have dm: "dom N' = dom ?N" using c(6) by (simp add: pair_frame_def)
        have ds: "distinct (concat (L # M # Ls))" using sh by (simp add: short_def)
        have "shrunk s (s\<lparr>ix_nodes := N'\<rparr>) (set Lo) L (M # Ls) L (M # Ls)"
          unfolding shrunk_def using c(7-10) lo(2) dm ds by simp
        then show ?thesis using c(1) lo(1) n by fastforce
      next
        case False
        then have sz: "length (ents ?N p) + length (ents ?N nb) < 2 * get_min_size ?h" by simp
        let ?K = "A @ l # B"
        have fx: "fixes_above (coalesce_or_redistribute k tx) Ls"
          unfolding fixes_above_def using Cons.IH Cons.prems(7) n by auto
        obtain N' s' M' Ls' where a: "N' = merge_nodes s l r m (ea @ el # eb)" "pair_frame l r m ?K M Ls ?N N'"
          "coalesce_or_redistribute (Suc k) tx p s = Some (Inr True, s')" "only_parents (set (concat (M # Ls))) (set ?K) N' (ix_nodes s')"
          "level_ok ?h (ix_nodes s') ?K" "above ?h {} (ix_nodes s') ?K (M' # Ls')" "distinct (concat (?K # M' # Ls'))"
          "set (concat (?K # M' # Ls')) \<subseteq> set (concat (L # M # Ls))" "root_of ?K (M' # Ls') = root_of L (M # Ls)"
          "row (ix_nodes s') ?K = row ?N L" "dom (ix_nodes s') = dom ?N" "ix_pins s' = ix_pins s" "ix_next s' = ix_next s"
          "same_cfg ?h (ix_hdr s')" "ixh_root_page (ix_hdr s') = ixh_root_page ?h" "ixh_first_leaf (ix_hdr s') = ixh_first_leaf ?h"
          "ixh_last_leaf (ix_hdr s') = (if nd_leaf (node s r) \<and> r = ixh_last_leaf ?h then l else ixh_last_leaf ?h)"
          by (rule merge_and_above [OF ip sz fx])
        note lo = merge_low [OF Cons.prems(2-5) ip(1) a(1,2)]
        have op: "only_parents (set (concat (L # M # Ls))) (set Lo) ?N (ix_nodes s')"
          by (rule only_parents_trans [OF lo(2) a(4)]) (use L in auto)
        have "\<not> nd_leaf (node s r)" using linkD(2) [OF Cons.prems(2), of r] L by (simp add: node_def)
        then have "shrunk s s' (set Lo) L (M # Ls) ?K (M' # Ls')" unfolding shrunk_def using a(5-9,11-17) op by simp
        moreover have "link_ok ?h {} (ix_nodes s') Lo ?K"
          by (rule link_low_frame [OF lo(1) a(4)]) (use Cons.prems(4) sh L in \<open>auto simp: short_def\<close>)
        ultimately show ?thesis using a(3) n by blast
      qed
    qed
  qed
qed simp

end
