(* ===== verification/Ix_Leaf.thy ===== *)
theory Ix_Leaf
  imports Ix_Delete
begin

text \<open>
  Deletion from a leaf, and what insertion and deletion do to the map the index stands for. The leaves are also a list
  through the header page, which redistribution leaves alone and a merge shortens by one page.
\<close>

subsection \<open>The list of leaves\<close>

lemma linked_remove:
  assumes "linked N (xs @ l # r # y # ys)" and "l \<notin> set xs" "l \<notin> set (y # ys)" "y \<notin> set (tl (xs @ [l]))" "y \<notin> set ys"
    and "nd_next (the (N' l)) = y" "nd_prev (the (N' y)) = l"
    and "\<And>z. z \<noteq> l \<Longrightarrow> nd_next (the (N' z)) = nd_next (the (N z))" "\<And>z. z \<noteq> y \<Longrightarrow> nd_prev (the (N' z)) = nd_prev (the (N z))"
  shows "linked N' (xs @ l # y # ys)"
proof -
  have l: "linked N (xs @ [l])" "linked N (y # ys)" using assms(1) linked_append [of N xs l "r # y # ys"] by auto
  have "linked N' (xs @ [l])" by (rule linked_frame [OF l(1)]; metis assms(2,4,8,9) butlast_snoc)
  moreover have "linked N' (y # ys)"
  proof (rule linked_frame [OF l(2)]; intro ballI)
    fix a assume "a \<in> set (butlast (y # ys))"
    then have "a \<noteq> l" using assms(3) by (metis in_set_butlastD)
    then show "nd_next (the (N' a)) = nd_next (the (N a))" by (rule assms(8))
  next
    fix b assume "b \<in> set (tl (y # ys))"
    then have "b \<noteq> y" using assms(5) by auto
    then show "nd_prev (the (N' b)) = nd_prev (the (N b))" by (rule assms(9))
  qed
  ultimately show ?thesis using linked_append [of N' xs l "y # ys"] assms(6,7) by simp
qed

lemma linked_nth: "linked N (xs @ a # b # ys) \<Longrightarrow> nd_next (the (N a)) = b \<and> nd_prev (the (N b)) = a"
  using linked_append [of N xs a "b # ys"] by simp

definition leaf_next :: "int list \<Rightarrow> int" where
  "leaf_next B = hd (B @ [IX_LEAF_HEADER_PAGE])"

text \<open>The tree after an entry left a leaf.\<close>

definition thin_tree :: "ix_index \<Rightarrow> int list \<Rightarrow> int \<Rightarrow> int list list \<Rightarrow> bool" where
  "thin_tree s L p Ls \<longleftrightarrow> short s L p Ls \<and> pages_ok s (concat (L # Ls)) \<and> leaves_ok s L \<and> ixh_root_page (ix_hdr s) = root_of L Ls"

definition cut_to :: "ix_index \<Rightarrow> int list \<Rightarrow> ix_index \<Rightarrow> int list \<Rightarrow> int list list \<Rightarrow> bool" where
  "cut_to s L s' L' Ls' \<longleftrightarrow> tree_ok s' L' Ls' \<and> row (ix_nodes s') L' = row (ix_nodes s) L \<and> ix_pins s' = ix_pins s \<and>
     same_cfg (ix_hdr s) (ix_hdr s') \<and> (ends_ok s L \<and> row (ix_nodes s) L \<noteq> [] \<longrightarrow> ends_ok s' L')"

lemma thin_treeD:
  assumes "thin_tree s L p Ls"
  shows "short s L p Ls" "\<forall>z \<in> set L. nd_leaf (node s z)" "good_entries (ix_hdr s) (row (ix_nodes s) L)" "hd L = IX_INIT_ROOT_PAGE"
    "linked (ix_nodes s) (IX_LEAF_HEADER_PAGE # L @ [IX_LEAF_HEADER_PAGE])" "ixh_root_page (ix_hdr s) = root_of L Ls"
    "\<forall>z. ix_nodes s z \<noteq> None \<longrightarrow> 1 \<le> z \<and> z < ix_next s" "IX_LEAF_HEADER_PAGE \<in> dom (ix_nodes s)" "pages_ok s (concat (L # Ls))"
  using assms by (auto simp: thin_tree_def leaves_ok_def pages_ok_def)

lemma thin_tree_level: "thin_tree s L p Ls \<Longrightarrow> level_ok (ix_hdr s) (ix_nodes s) L \<Longrightarrow> cut_to s L s L Ls"
  by (simp add: cut_to_def tree_ok_def thin_tree_def short_def)

lemma leaf_pair_ok:
  assumes t: "thin_tree s L p (M # Ls)" and sib: "siblings (ix_nodes s) A M m ea l el r er eb B L"
    and pr: "par (ix_nodes s) p = m" "find_child p (node s m) = Inr i" "p = l \<and> nb = r \<and> i = 0 \<and> ea = [] \<or> p = r \<and> nb = l \<and> i = Suc (length ea)"
      "length (ents (ix_nodes s) p) < get_min_size (ix_hdr s)"
  shows "paired s L p M Ls m ea l el r er eb A B nb i" "leaf_pair s l r (insert m (set (concat Ls)))" "nd_next (node s r) = leaf_next B"
proof -
  note T = thin_treeD [OF t]
  note d = shortD [OF T(1)]
  have L: "L = A @ l # r # B" "m \<in> set M" using sib by (simp_all add: siblings_def)
  have lf: "nd_leaf (node s l)" "nd_leaf (node s r)" using T(2) L by simp_all
  have "\<forall>z \<in> {l, r}. \<forall>e \<in> set (ents (ix_nodes s) z). good_key (ix_hdr s) (fst e)"
    using T(3) L by (auto simp: good_entries_def)
  then show "paired s L p M Ls m ea l el r er eb A B nb i"
    unfolding paired_def outside_kids_def using T(1) pr sib lf by blast
  have "linked (ix_nodes s) ((IX_LEAF_HEADER_PAGE # A) @ l # r # B @ [IX_LEAF_HEADER_PAGE])" using T(5) L by simp
  note prev = linked_nth [OF this]
  have B: "B @ [IX_LEAF_HEADER_PAGE] = leaf_next B # tl (B @ [IX_LEAF_HEADER_PAGE])" by (simp add: leaf_next_def)
  have "linked (ix_nodes s) ((IX_LEAF_HEADER_PAGE # A @ [l]) @ r # B @ [IX_LEAF_HEADER_PAGE])" using T(5) L by simp
  then have "linked (ix_nodes s) ((IX_LEAF_HEADER_PAGE # A @ [l]) @ r # leaf_next B # tl (B @ [IX_LEAF_HEADER_PAGE]))" by (subst (asm) B)
  note nxt = linked_nth [OF this]
  show n: "nd_next (node s r) = leaf_next B" using nxt by (simp add: node_def)
  have y: "leaf_next B \<in> set B \<union> {1}" by (cases B) (simp_all add: leaf_next_def IX_LEAF_HEADER_PAGE_def)
  have ge: "\<forall>z \<in> set (concat (L # M # Ls)). 2 \<le> z" using T(1) by (simp add: short_def)
  have S: "insert m (set (concat Ls)) \<subseteq> set (concat (L # M # Ls)) - set L" "l \<in> set (concat (L # M # Ls)) - set B" "r \<in> set (concat (L # M # Ls)) - set B"
    using d(7,9,10) L by auto
  have nS: "leaf_next B \<noteq> z" if "z \<in> set (concat (L # M # Ls)) - set B" for z using y ge that by fastforce
  have "leaf_next B \<in> dom (ix_nodes s)" using y d(13) L T(8) by (auto simp: IX_LEAF_HEADER_PAGE_def)
  moreover from this have "1 \<le> leaf_next B" using T(7) by blast
  moreover have "leaf_next B \<notin> insert m (set (concat Ls))" using nS S(1) L(1) by auto
  ultimately have "leaf_next B \<noteq> l" "leaf_next B \<noteq> r" "leaf_next B \<notin> insert m (set (concat Ls))" "leaf_next B \<in> dom (ix_nodes s)" "1 \<le> leaf_next B"
    using nS [OF S(2)] nS [OF S(3)] by simp_all
  then show "leaf_pair s l r (insert m (set (concat Ls)))" unfolding leaf_pair_def Let_def n using prev by (simp add: node_def)
qed


subsection \<open>Deletion from a leaf\<close>

lemma pages_ok_frame:
  assumes "pages_ok s ps" "distinct qs" "set qs \<subseteq> set ps" "dom (ix_nodes s') = dom (ix_nodes s)" "ix_next s' = ix_next s"
  shows "pages_ok s' qs"
proof -
  have "(ix_nodes s' z \<noteq> None) = (ix_nodes s z \<noteq> None)" for z using assms(4) by (metis domIff)
  then show ?thesis using assms(1-3,5) unfolding pages_ok_def by auto
qed

lemma leaf_shift:
  assumes t: "thin_tree s L p (M # Ls)" and pr: "paired s L p M Ls m ea l el r er eb A B nb i"
    and sz: "2 * get_min_size (ix_hdr s) \<le> length (ents (ix_nodes s) p) + length (ents (ix_nodes s) nb)"
  shows "\<exists>s'. coalesce_or_redistribute (Suc n) tx p s = Some (Inr False, s') \<and> cut_to s L s' L (M # Ls)"
proof -
  let ?N = "ix_nodes s" and ?h = "ix_hdr s"
  note T = thin_treeD [OF t]
  obtain N' where c: "coalesce_or_redistribute (Suc n) tx p s = Some (Inr False, s\<lparr>ix_nodes := N'\<rparr>)" "shift_outcome s p nb m N'"
    "ents N' l @ ents N' r = ents ?N l @ ents ?N r" "ents N' l \<noteq> []" "ents N' r \<noteq> []"
    "pair_frame l r m L M Ls ?N N'" "link_ok ?h {} N' L M" "level_ok ?h N' L" "level_ok ?h N' M" "above ?h {} N' M Ls" "row N' L = row ?N L"
    by (rule cor_shift [OF pr sz])
  have lf: "nd_leaf (node s p)" using T(2) shortD(1) [OF T(1)] by blast
  have same: "nd_next (the (N' z)) = nd_next (the (?N z))" "nd_prev (the (N' z)) = nd_prev (the (?N z))" for z
    using c(2) lf by (auto simp: shift_outcome_def shift_nodes_def moved_def)
  have dm: "dom N' = dom ?N" and le: "\<And>z. nd_leaf (the (N' z)) = nd_leaf (the (?N z))" using c(6) by (simp_all add: pair_frame_def)
  have ln: "linked N' (IX_LEAF_HEADER_PAGE # L @ [IX_LEAF_HEADER_PAGE])" by (rule linked_frame [OF T(5)]) (simp_all add: same)
  let ?s' = "s\<lparr>ix_nodes := N'\<rparr>"
  have "pages_ok ?s' (concat (L # M # Ls))" by (rule pages_ok_frame [OF T(9)]) (use T(1) dm in \<open>simp_all add: short_def\<close>)
  moreover have "leaves_ok ?s' L" unfolding leaves_ok_def using T(2-4) ln c(11) le by (simp add: node_def)
  ultimately have "tree_ok ?s' L (M # Ls)" unfolding tree_ok_def using c(7-10) T(6) shortD(6) [OF T(1)] by simp
  then show ?thesis using c(1,11) by (intro exI [of _ ?s']) (simp add: cut_to_def ends_ok_def)
qed

lemma merge_links:
  assumes "nd_leaf (node s r)" "l \<noteq> m" "nd_next (node s r) = y" "y \<noteq> l"
  shows "nd_next (the (merge_nodes s l r m ms l)) = y" "nd_prev (the (merge_nodes s l r m ms y)) = l"
    "z \<noteq> l \<Longrightarrow> nd_next (the (merge_nodes s l r m ms z)) = nd_next (the (ix_nodes s z))"
    "z \<noteq> y \<Longrightarrow> nd_prev (the (merge_nodes s l r m ms z)) = nd_prev (the (ix_nodes s z))"
  using assms by (auto simp: merge_nodes_def node_def)

lemma leaf_merge:
  assumes t: "thin_tree s L p (M # Ls)" and pr: "paired s L p M Ls m ea l el r er eb A B nb i" and lp: "leaf_pair s l r (insert m (set (concat Ls)))"
    and nx: "nd_next (node s r) = leaf_next B" and sz: "length (ents (ix_nodes s) p) + length (ents (ix_nodes s) nb) < 2 * get_min_size (ix_hdr s)"
    and n: "length (M # Ls) \<le> Suc n"
  shows "\<exists>s' Ls'. coalesce_or_redistribute (Suc n) tx p s = Some (Inr True, s') \<and> cut_to s L s' (A @ l # B) Ls'"
proof -
  let ?N = "ix_nodes s" and ?h = "ix_hdr s" and ?K = "A @ l # B"
  note T = thin_treeD [OF t]
  note d = shortD [OF T(1)]
  note pm = paired_more [OF pr]
  have L: "L = A @ l # r # B" using pairedD(4) [OF pr] by (simp add: siblings_def)
  have fx: "fixes_above (coalesce_or_redistribute n tx) Ls" unfolding fixes_above_def using cor_internal n by auto
  obtain N' s' M' Ls' where a: "N' = merge_nodes s l r m (ea @ el # eb)" "pair_frame l r m ?K M Ls ?N N'"
    "coalesce_or_redistribute (Suc n) tx p s = Some (Inr True, s')" "only_parents (set (concat (M # Ls))) (set ?K) N' (ix_nodes s')"
    "level_ok ?h (ix_nodes s') ?K" "above ?h {} (ix_nodes s') ?K (M' # Ls')" "distinct (concat (?K # M' # Ls'))"
    "set (concat (?K # M' # Ls')) \<subseteq> set (concat (L # M # Ls))" "root_of ?K (M' # Ls') = root_of L (M # Ls)"
    "row (ix_nodes s') ?K = row ?N L" "dom (ix_nodes s') = dom ?N" "ix_pins s' = ix_pins s" "ix_next s' = ix_next s"
    "same_cfg ?h (ix_hdr s')" "ixh_root_page (ix_hdr s') = ixh_root_page ?h" "ixh_first_leaf (ix_hdr s') = ixh_first_leaf ?h"
    "ixh_last_leaf (ix_hdr s') = (if nd_leaf (node s r) \<and> r = ixh_last_leaf ?h then l else ixh_last_leaf ?h)"
    by (rule merge_and_above [OF pr lp sz fx])
  have lf: "nd_leaf (node s r)" using T(2) pm(5) by blast
  have y: "leaf_next B \<noteq> l" using lp lf nx by (simp add: leaf_pair_def Let_def)
  note ml = merge_links [OF lf pm(7) nx y, where ms = "ea @ el # eb", folded a(1)]
  define ys where "ys = tl (B @ [IX_LEAF_HEADER_PAGE])"
  have B: "B @ [IX_LEAF_HEADER_PAGE] = leaf_next B # ys" by (simp add: leaf_next_def ys_def)
  have ge: "\<forall>z \<in> set L. 2 \<le> z" using d(12) by blast
  have lk: "linked N' ((IX_LEAF_HEADER_PAGE # A) @ l # leaf_next B # ys)"
  proof (rule linked_remove [where r = r])
    show "linked ?N ((IX_LEAF_HEADER_PAGE # A) @ l # r # leaf_next B # ys)" using T(5) L B [symmetric] by simp
    have "set (leaf_next B # ys) = set B \<union> {1}" using arg_cong [OF B, of set] by (auto simp: IX_LEAF_HEADER_PAGE_def)
    then show "l \<notin> set (IX_LEAF_HEADER_PAGE # A)" "l \<notin> set (leaf_next B # ys)" using d(7) L ge by (auto simp: IX_LEAF_HEADER_PAGE_def)
    show "leaf_next B \<notin> set (tl ((IX_LEAF_HEADER_PAGE # A) @ [l]))" "leaf_next B \<notin> set ys"
      using d(7) L ge by (cases B; auto simp: leaf_next_def ys_def IX_LEAF_HEADER_PAGE_def)+
  qed (use ml in auto)
  have nS: "z \<notin> set (concat (M # Ls))" if "z \<in> set (IX_LEAF_HEADER_PAGE # ?K @ [IX_LEAF_HEADER_PAGE])" for z
  proof
    assume z: "z \<in> set (concat (M # Ls))"
    have "\<forall>q \<in> set (concat (L # M # Ls)). 2 \<le> q" "set L \<inter> set (concat (M # Ls)) = {}" using T(1) by (auto simp: short_def)
    then have "2 \<le> z" "z \<notin> set L" using z by auto
    then show False using that L by (auto simp: IX_LEAF_HEADER_PAGE_def)
  qed
  note op = only_parents_ents(2-4) [OF a(4) nS]
  have "linked N' (IX_LEAF_HEADER_PAGE # ?K @ [IX_LEAF_HEADER_PAGE])" using lk B by simp
  then have ln: "linked (ix_nodes s') (IX_LEAF_HEADER_PAGE # ?K @ [IX_LEAF_HEADER_PAGE])"
    by (rule linked_frame) (use op(2,3) in \<open>auto dest: in_set_butlastD\<close>)
  have lf': "\<forall>z \<in> set ?K. nd_leaf (node s' z)"
    using op(1) a(2) T(2) L by (auto simp: pair_frame_def node_def)
  have hd: "hd ?K = IX_INIT_ROOT_PAGE" using T(4) L by (cases A) auto
  have "leaves_ok s' ?K" unfolding leaves_ok_def using lf' ln hd T(3) a(10) same_cfg_levels(4) [OF a(14)] by simp
  moreover have "pages_ok s' (concat (?K # M' # Ls'))" by (rule pages_ok_frame [OF T(9) a(7,8,11,13)])
  ultimately have "tree_ok s' ?K (M' # Ls')" unfolding tree_ok_def
    using a(5,6,9,15) T(6) d(6) same_cfg_levels [OF a(14)] same_cfg_sizes(3) [OF a(14)] by simp
  moreover have "ends_ok s L \<longrightarrow> ends_ok s' ?K"
  proof
    assume e: "ends_ok s L"
    have "hd ?K = hd L" using L by (cases A) auto
    moreover have "(if r = last L then l else last L) = last ?K"
    proof (cases "B = []")
      case False
      then have "last L = last B" "last B \<noteq> r" using L d(7) last_in_set [OF False] by auto
      then show ?thesis using False by simp
    qed (use L in simp)
    ultimately show "ends_ok s' ?K" using e a(16,17) lf by (auto simp: ends_ok_def split: if_splits)
  qed
  ultimately have "cut_to s L s' ?K (M' # Ls')" using a(10,12,14) by (simp add: cut_to_def)
  then show ?thesis using a(3) by blast
qed


lemma cor_leaf:
  assumes t: "thin_tree s L p Ls" and n: "length Ls \<le> n"
  shows "\<exists>b s' L' Ls'. coalesce_or_redistribute (Suc n) tx p s = Some (Inr b, s') \<and> cut_to s L s' L' Ls'"
proof (cases Ls)
  case Nil
  note T = thin_treeD [OF t]
  have L: "L = [p]" "par (ix_nodes s) p = IX_NO_PAGE" using T(1) Nil by (auto simp: short_def thin_def)
  have lf: "nd_leaf (node s p)" using T(2) L by simp
  have lev: "level_ok (ix_hdr s) (ix_nodes s) L" using T(1) L by (simp add: short_def thin_def level_ok_def)
  have t0: "tree_ok s L []" using T(1,9,6) lev t Nil by (simp add: tree_ok_def short_def thin_tree_def)
  show ?thesis
  proof (cases "ents (ix_nodes s) p = []")
    case False
    have "coalesce_or_redistribute (Suc n) tx p s = Some (Inr False, s)"
      using L(2) lf False by (simp add: is_root_page_def adjust_root_def Let_def)
    then show ?thesis using thin_tree_level [OF t lev] by blast
  next
    case True
    have c: "coalesce_or_redistribute (Suc n) tx p s = Some (Inr True, reset_root s)"
      using L(2) lf True by (simp add: is_root_page_def adjust_root_def Let_def)
    have "p = IX_INIT_ROOT_PAGE" using T(4) L by simp
    then have r: "ixh_root_page (ix_hdr (reset_root s)) = root_of L []" "ix_nodes (reset_root s) = ix_nodes s" "ix_pins (reset_root s) = ix_pins s"
      "same_cfg (ix_hdr s) (ix_hdr (reset_root s))" "ix_next (reset_root s) = ix_next s"
      using L by (simp_all add: reset_root_def root_of_def same_cfg_def)
    have "tree_ok (reset_root s) L []"
      using t0 r(1) same_cfg_levels [OF r(4)] same_cfg_sizes(3) [OF r(4)]
      by (simp add: tree_ok_def pages_ok_def leaves_ok_def r(2,5) node_def del: above.simps)
    then have "cut_to s L (reset_root s) L []" using r L True by (simp add: cut_to_def)
    then show ?thesis using c by blast
  qed
next
  case (Cons M Ls')
  note t' = t [unfolded Cons]
  note T = thin_treeD [OF t']
  note sh = T(1)
  have th: "thin (ix_hdr s) (ix_nodes s) L p" using sh by (simp add: short_def)
  note nr = short_not_root [OF sh]
  show ?thesis
  proof (cases "get_min_size (ix_hdr s) \<le> length (ents (ix_nodes s) p)")
    case True
    have "cut_to s L s L (M # Ls')" by (rule thin_tree_level [OF t' thin_level [OF th]]) (use True in simp)
    then show ?thesis using cor_enough [OF nr(1) True] by blast
  next
    case False
    then have lt: "length (ents (ix_nodes s) p) < get_min_size (ix_hdr s)" by simp
    from sh show ?thesis
    proof (cases rule: neighbours)
      case (single m e)
      have "cut_to s L s L (M # Ls')" by (rule thin_tree_level [OF t' thin_level [OF th]]) (use single in simp)
      then show ?thesis using cor_single [of s p m] single nr by blast
    next
      case (pair m ea el er eb l r A B nb i)
      note lp = leaf_pair_ok [OF t' pair(3,1,2,4) lt]
      show ?thesis
      proof (cases "2 * get_min_size (ix_hdr s) \<le> length (ents (ix_nodes s) p) + length (ents (ix_nodes s) nb)")
        case True
        then show ?thesis using leaf_shift [OF t' lp(1) True] by blast
      next
        case False
        then show ?thesis using leaf_merge [OF t' lp _ _] n Cons by (metis not_le le_SucI)
      qed
    qed
  qed
qed

text \<open>The entry of a key, in the leaf where a search for the key ends.\<close>

lemma find_entry:
  assumes t: "tree_ok s L Ls" and x: "good_key (ix_hdr s) x" and e: "row (ix_nodes s) L = E @ e # F" "rank_of (ix_hdr s) (fst e) = rank_of (ix_hdr s) x"
  obtains A p B C D where "L = A @ p # B" "ents (ix_nodes s) p = C @ e # D" "E = row (ix_nodes s) A @ C" "F = D @ row (ix_nodes s) B"
    "find_leaf_page x False s = Some (Inr p, s\<lparr>ix_pins := add_mset p (ix_pins s)\<rparr>)"
proof -
  let ?N = "ix_nodes s" and ?h = "ix_hdr s"
  note T = tree_okD [OF t]
  obtain p where p: "p \<in> set L" "right_page ?h ?N x L p" "find_leaf_page x False s = Some (Inr p, s\<lparr>ix_pins := add_mset p (ix_pins s)\<rparr>)"
    by (rule find_leaf_ok [OF t x])
  obtain A B where ab: "L = A @ p # B" "row ?N L = row ?N A @ ents ?N p @ row ?N B"
    "\<forall>e \<in> set (row ?N A). rank_of ?h (fst e) < rank_of ?h x" "\<forall>e \<in> set (row ?N B). rank_of ?h x < rank_of ?h (fst e)"
    by (rule right_page_split [OF p(2) T(7)])
  have "e \<in> set (row ?N L)" using e(1) by simp
  moreover have "e \<notin> set (row ?N A)" "e \<notin> set (row ?N B)" using ab(3,4) e(2) by auto
  ultimately have "e \<in> set (ents ?N p)" using ab(2) by simp
  then obtain C D where c: "ents ?N p = C @ e # D" by (meson split_list)
  have eq: "E @ e # F = (row ?N A @ C) @ e # (D @ row ?N B)" using e(1) ab(2) c by simp
  have "e \<notin> set (row ?N A @ C)" "e \<notin> set (D @ row ?N B)" using T(7) unfolding ab(2) c by auto
  then have "E = row ?N A @ C \<and> F = D @ row ?N B"
    using append_Cons_eq_iff [of e "row ?N A @ C" "D @ row ?N B" E F] eq by auto
  then show ?thesis using that [OF ab(1) c _ _ p(3)] by blast
qed


lemma tree_ok_cong: "ix_hdr s' = ix_hdr s \<Longrightarrow> ix_nodes s' = ix_nodes s \<Longrightarrow> ix_next s' = ix_next s \<Longrightarrow> tree_ok s' L Ls = tree_ok s L Ls"
  by (simp add: tree_ok_def pages_ok_def leaves_ok_def node_def)

lemma root_not_none:
  assumes "tree_ok s L Ls"
  shows "ixh_root_page (ix_hdr s) \<noteq> IX_NO_PAGE"
proof -
  obtain nd where "ix_nodes s (root_of L Ls) = Some nd" using root_in_dom [OF assms] by auto
  then have "1 \<le> root_of L Ls" using tree_okD(4) [OF assms] unfolding pages_ok_def by blast
  then show ?thesis using tree_okD(6) [OF assms] by (simp add: IX_NO_PAGE_def)
qed

lemma thin_after_remove:
  fixes s p C D P
  defines "nd \<equiv> (node s p)\<lparr>nd_entries := C @ D\<rparr>"
  assumes t: "tree_ok s L Ls" and L: "L = A @ p # B" and e: "ents (ix_nodes s) p = C @ e # D"
    and N2: "above (ix_hdr s) {} N2 L Ls" "rekeyed (set (concat Ls)) ((ix_nodes s)(p \<mapsto> nd)) N2"
  shows "thin_tree (s\<lparr>ix_nodes := N2, ix_pins := P\<rparr>) L p Ls" "row N2 L = row (ix_nodes s) A @ C @ D @ row (ix_nodes s) B"
proof -
  let ?N = "ix_nodes s" and ?h = "ix_hdr s"
  note T = tree_okD [OF t]
  have pg: "distinct (concat (L # Ls))" "\<forall>q \<in> set (concat (L # Ls)). 2 \<le> q" using T(4) by (simp_all add: pages_ok_def)
  have N2L: "N2 q = (?N(p \<mapsto> nd)) q" if "q \<in> set L" for q by (rule rekeyed_outside [OF N2(2)]) (use that pg(1) in auto)
  have en: "ents N2 q = (if q = p then C @ D else ents ?N q)" if "q \<in> set L" for q using N2L [OF that] by (simp add: ents_def nd_def)
  have dm: "dom N2 = dom ?N" using dom_rekeyed [OF N2(2)] L T(9) by auto
  have "p \<notin> set A" "p \<notin> set B" using T(10) L by auto
  then have rows: "row N2 A = row ?N A" "row N2 B = row ?N B" using en L by (auto intro: row_cong)
  then show row: "row N2 L = row ?N A @ C @ D @ row ?N B" using en L by simp
  have "length (ents ?N q) \<le> length (ents N2 q) + (if q = p then 1 else 0) \<and> length (ents N2 q) \<le> length (ents ?N q)" if "q \<in> set L" for q
    using en [OF that] e by simp
  note sz = this
  have "thin ?h N2 L p" unfolding thin_def
  proof (intro conjI impI ballI)
    fix q assume q: "q \<in> set L"
    show "q \<in> dom N2" using T(9) dm q by blast
    show "length (ents N2 q) \<le> ixh_btree_order ?h" using T(2) sz [OF q] q unfolding level_ok_def by (metis le_trans)
    assume "2 \<le> length L"
    then show "get_min_size ?h \<le> length (ents N2 q) + (if q = p then 1 else 0)" using T(2) sz [OF q] q unfolding level_ok_def by (metis le_trans)
  qed (use L in simp)
  then have "short (s\<lparr>ix_nodes := N2, ix_pins := P\<rparr>) L p Ls" using N2(1) T(1) pg by (simp add: short_def)
  moreover have "pages_ok (s\<lparr>ix_nodes := N2, ix_pins := P\<rparr>) (concat (L # Ls))" by (rule pages_ok_frame [OF T(4) pg(1)]) (simp_all add: dm)
  moreover have "leaves_ok (s\<lparr>ix_nodes := N2, ix_pins := P\<rparr>) L"
  proof -
    have "good_entries ?h (row ?N A @ C @ e # D @ row ?N B)" using T(7) L e by simp
    then have "good_entries ?h (row N2 L)" unfolding row by auto
    moreover have "\<forall>q \<in> set L. nd_leaf (the (N2 q))" using T(12) N2L by (auto simp: node_def nd_def)
    moreover have "linked N2 (IX_LEAF_HEADER_PAGE # L @ [IX_LEAF_HEADER_PAGE])"
      by (rule linked_rekeyed [OF linked_frame N2(2), of ?N]) (use T(5) in \<open>auto simp: leaves_ok_def nd_def node_def\<close>)
    ultimately show ?thesis using T(5) by (simp add: leaves_ok_def node_def)
  qed
  ultimately show "thin_tree (s\<lparr>ix_nodes := N2, ix_pins := P\<rparr>) L p Ls" using T(6) by (simp add: thin_tree_def)
qed

definition deleted :: "ix_index \<Rightarrow> int list \<Rightarrow> ix_index \<Rightarrow> int list \<Rightarrow> int list list \<Rightarrow> entry list \<Rightarrow> bool" where
  "deleted s L s' L' Ls' es \<longleftrightarrow> tree_ok s' L' Ls' \<and> row (ix_nodes s') L' = es \<and> ix_pins s' = ix_pins s \<and> same_cfg (ix_hdr s) (ix_hdr s') \<and>
     (ends_ok s L \<and> es \<noteq> [] \<longrightarrow> ends_ok s' L')"

lemma delete_entry_present:
  assumes t: "tree_ok s L Ls" and x: "good_key (ix_hdr s) x" and e: "row (ix_nodes s) L = E @ e # F" "rank_of (ix_hdr s) (fst e) = rank_of (ix_hdr s) x"
  shows "\<exists>s' L' Ls'. delete_entry tx x s = Some (Inr True, s') \<and> deleted s L s' L' Ls' (E @ F)"
proof -
  let ?N = "ix_nodes s" and ?h = "ix_hdr s" and ?s1 = "\<lambda>p. s\<lparr>ix_pins := add_mset p (ix_pins s)\<rparr>"
  note T = tree_okD [OF t]
  obtain A p B C D where p: "L = A @ p # B" "ents ?N p = C @ e # D" "E = row ?N A @ C" "F = D @ row ?N B" "find_leaf_page x False s = Some (Inr p, ?s1 p)"
    by (rule find_entry [OF t x e])
  have pL: "p \<in> set L" using p(1) by simp
  have gp: "good_entries ?h (nd_entries (node s p))" using good_entries_member [OF T(7) pL] by simp
  let ?nd = "(node s p)\<lparr>nd_entries := C @ D\<rparr>"
  have rm: "node_remove ?h x (node s p) = Inr (?nd, num_key (node s p) - 1, length C)"
    by (rule node_remove_present [OF gp x _ e(2)]) (simp add: p(2))
  have good: "\<forall>f \<in> set (C @ e # D). good_key ?h (fst f)" using gp p(2) by (auto simp: good_entries_def)
  obtain N2 where N2: "(if length C = 0 \<and> num_key ?nd > 0 then maintain_parent p (put p ?nd (?s1 p)) else Some (Inr (), put p ?nd (?s1 p))) =
      Some (Inr (), s\<lparr>ix_nodes := N2, ix_pins := add_mset p (ix_pins s)\<rparr>)" "above ?h {} N2 L Ls" "rekeyed (set (concat Ls)) (?N(p \<mapsto> ?nd)) N2"
    by (rule update_leaf [OF t pL, of "length C = 0 \<and> num_key ?nd > 0" "C @ D"])
      (use good p(2) in \<open>auto simp: num_key_def hd_append split: if_splits\<close>)
  define s2 where "s2 = s\<lparr>ix_nodes := N2, ix_pins := add_mset p (ix_pins s)\<rparr>"
  note th = thin_after_remove(1) [OF t p(1,2) N2(2,3), of "add_mset p (ix_pins s)", folded s2_def] thin_after_remove(2) [OF t p(1,2) N2(2,3)]
  have fuel: "fuel_of s2 = Suc (nat (ix_next s))" "length Ls \<le> nat (ix_next s)" using tree_fuel [OF t] by (simp_all add: s2_def fuel_of_def)
  obtain b s3 L' Ls' where c: "coalesce_or_redistribute (fuel_of s2) tx p s2 = Some (Inr b, s3)" "cut_to s2 L s3 L' Ls'"
    using cor_leaf [OF th(1) fuel(2)] fuel(1) by metis
  have nk: "num_key (node s p) - 1 \<noteq> num_key (node s p)" and hs: "ix_hdr (?s1 p) = ?h" using p(2) by simp_all
  let ?s4 = "unpin p (if b \<and> tx then s3\<lparr>ix_deleted := ix_deleted s3 @ [p]\<rparr> else s3)"
  have res: "delete_entry tx x s = Some (Inr True, ?s4)"
    unfolding delete_entry_def if_not_P [OF root_not_none [OF t]] p(5) run_bind_simps hs node_put rm sum.case prod.case if_not_P [OF nk]
      N2(1) [folded s2_def] c(1) on_throw_simps by (rule refl)
  have c2: "tree_ok s3 L' Ls'" "row (ix_nodes s3) L' = E @ F" "ix_pins s3 = add_mset p (ix_pins s)" "same_cfg ?h (ix_hdr s3)"
    "ends_ok s2 L \<and> E @ F \<noteq> [] \<longrightarrow> ends_ok s3 L'"
    using c(2) th(2) p(3,4) unfolding cut_to_def by (simp_all add: s2_def)
  have "tree_ok ?s4 L' Ls'" using c2(1) tree_ok_cong [of ?s4 s3] by simp
  then have "deleted s L ?s4 L' Ls' (E @ F)" using c2(2-5) by (simp add: deleted_def ends_ok_def s2_def)
  then show ?thesis using res by blast
qed

lemma delete_entry_absent:
  assumes t: "tree_ok s L Ls" and x: "good_key (ix_hdr s) x" and new: "\<forall>e \<in> set (row (ix_nodes s) L). rank_of (ix_hdr s) (fst e) \<noteq> rank_of (ix_hdr s) x"
  shows "delete_entry tx x s = Some (Inr False, s)"
proof -
  note T = tree_okD [OF t]
  obtain p where p: "p \<in> set L" "right_page (ix_hdr s) (ix_nodes s) x L p" "find_leaf_page x False s = Some (Inr p, s\<lparr>ix_pins := add_mset p (ix_pins s)\<rparr>)"
    by (rule find_leaf_ok [OF t x])
  have "good_entries (ix_hdr s) (nd_entries (node s p))" using good_entries_member [OF T(7) p(1)] by simp
  moreover have "\<forall>e \<in> set (nd_entries (node s p)). rank_of (ix_hdr s) (fst e) \<noteq> rank_of (ix_hdr s) x" using new p(1) by (auto simp: set_row)
  ultimately obtain pos where rm: "node_remove (ix_hdr s) x (node s p) = Inr (node s p, num_key (node s p), pos)" using node_remove_absent [OF _ x] by blast
  show ?thesis
    unfolding delete_entry_def if_not_P [OF root_not_none [OF t]] p(3) run_bind_simps using rm by (simp add: unpin_def)
qed

lemma insert_entry_present:
  assumes t: "tree_ok s L Ls" and x: "good_key (ix_hdr s) x" and e: "e \<in> set (row (ix_nodes s) L)" "rank_of (ix_hdr s) (fst e) = rank_of (ix_hdr s) x"
  shows "insert_entry x v s = Some (Inr IX_NO_PAGE, s)"
proof -
  note T = tree_okD [OF t]
  obtain E F where r: "row (ix_nodes s) L = E @ e # F" using e(1) by (meson split_list)
  obtain A p B C D where p: "L = A @ p # B" "ents (ix_nodes s) p = C @ e # D" "find_leaf_page x False s = Some (Inr p, s\<lparr>ix_pins := add_mset p (ix_pins s)\<rparr>)"
    by (rule find_entry [OF t x r e(2)])
  have g: "good_entries (ix_hdr s) (nd_entries (node s p))" using good_entries_member [OF T(7), of p] p(1) by simp
  have "e \<in> set (nd_entries (node s p))" using p(2) by simp
  then show ?thesis unfolding insert_entry_def p(3) run_bind_simps using node_insert_dup [OF g x _ e(2)] by (auto simp: unpin_def)
qed

end
