(* ===== verification/Ix_Index.thy ===== *)
theory Ix_Index
  imports Ix_Leaf
begin

text \<open>
  An index as a whole: creating, closing and opening its file (\<^verbatim>\<open>IxManager\<close> in \<^verbatim>\<open>src/src/index/ix_manager.h\<close> and the
  constructor of \<^verbatim>\<open>IxIndexHandle\<close>), and sequences of insertions, deletions and lookups, which behave as on a finite map
  from the ranks of keys to record ids.
\<close>

subsection \<open>The file of an index\<close>

text \<open>The pages of a file: the header page as bytes and the nodes by page number.\<close>

record index_file =
  if_hdr_page :: bytes
  if_nodes :: "int \<rightharpoonup> ix_node"

definition SIZEOF_IX_PAGE_HDR :: nat where "SIZEOF_IX_PAGE_HDR = 24"
definition SIZEOF_RID :: nat where "SIZEOF_RID = 8"

definition ix_btree_order :: "nat \<Rightarrow> nat" where
  "ix_btree_order col_tot_len = (PAGE_SIZE - SIZEOF_IX_PAGE_HDR) div (col_tot_len + SIZEOF_RID) - 1"

definition new_index_hdr :: "(ColType \<times> nat) list \<Rightarrow> IxFileHdr" where
  "new_index_hdr cols =
     (let tot = sum_list (map snd cols); order = ix_btree_order tot
      in update_tot_len
           \<lparr>ixh_first_free = IX_NO_PAGE, ixh_num_pages = IX_INIT_NUM_PAGES, ixh_root_page = IX_INIT_ROOT_PAGE,
            ixh_col_num = length cols, ixh_col_types = map fst cols, ixh_col_lens = map snd cols, ixh_col_tot_len = tot,
            ixh_btree_order = order, ixh_keys_size = (order + 1) * tot,
            ixh_first_leaf = IX_INIT_ROOT_PAGE, ixh_last_leaf = IX_INIT_ROOT_PAGE, ixh_tot_len = 0\<rparr>)"

text \<open>\<open>create_index\<close> with the types and lengths of the key columns. The lengths are those of columns of a table, at most 512 bytes each, and
  are added without bound here; the \<^verbatim>\<open>int\<close> of the code would overflow for more than four million columns.\<close>

definition create_index :: "(ColType \<times> nat) list \<Rightarrow> db_error + index_file" where
  "create_index cols =
     (let tot = sum_list (map snd cols)
      in if tot > IX_MAX_COL_LEN then Inl (InvalidColLengthError (int tot))
         else if \<not> ix_btree_order tot > 2 then Inl AssertionFailure
         else case ix_hdr_serialize (new_index_hdr cols) (replicate PAGE_SIZE 0) of
           Inl e \<Rightarrow> Inl e
         | Inr page \<Rightarrow> Inr
             \<lparr>if_hdr_page = page,
              if_nodes =
                [IX_LEAF_HEADER_PAGE \<mapsto> \<lparr>nd_parent = IX_NO_PAGE, nd_leaf = True, nd_prev = IX_INIT_ROOT_PAGE, nd_next = IX_INIT_ROOT_PAGE, nd_entries = []\<rparr>,
                 IX_INIT_ROOT_PAGE \<mapsto> \<lparr>nd_parent = IX_NO_PAGE, nd_leaf = True, nd_prev = IX_LEAF_HEADER_PAGE, nd_next = IX_LEAF_HEADER_PAGE, nd_entries = []\<rparr>]\<rparr>)"

text \<open>The header an \<^verbatim>\<open>IxFileHdr()\<close> starts from: empty vectors; the numbers are all read from the page.\<close>

definition blank_ix_hdr :: IxFileHdr where
  "blank_ix_hdr = \<lparr>ixh_first_free = 0, ixh_num_pages = 0, ixh_root_page = 0, ixh_col_num = 0, ixh_col_types = [], ixh_col_lens = [],
     ixh_col_tot_len = 0, ixh_btree_order = 0, ixh_keys_size = 0, ixh_first_leaf = 0, ixh_last_leaf = 0, ixh_tot_len = 0\<rparr>"

text \<open>The constructor of a handle: the header from its page, and new pages from the recorded number of pages on.\<close>

definition open_index :: "index_file \<Rightarrow> (db_error + ix_index) option" where
  "open_index f =
     (case ix_hdr_deserialize blank_ix_hdr (if_hdr_page f) of
        None \<Rightarrow> None
      | Some (Inl e) \<Rightarrow> Some (Inl e)
      | Some (Inr h) \<Rightarrow> Some (Inr \<lparr>ix_hdr = h, ix_nodes = if_nodes f, ix_pins = {#}, ix_next = ixh_num_pages h, ix_deleted = []\<rparr>))"

definition close_index :: "ix_index \<Rightarrow> db_error + index_file" where
  "close_index s =
     (case ix_hdr_serialize (ix_hdr s) (replicate PAGE_SIZE 0) of
        Inl e \<Rightarrow> Inl e
      | Inr page \<Rightarrow> Inr \<lparr>if_hdr_page = page, if_nodes = ix_nodes s\<rparr>)"

text \<open>The header of a page that has room for it can be written and read.\<close>

lemma hdr_page:
  assumes "ix_hdr_ok h" "ixh_tot_len h \<le> PAGE_SIZE"
  obtains page where "ix_hdr_serialize h (replicate PAGE_SIZE 0) = Inr page" "ix_hdr_deserialize blank_ix_hdr page = Some (Inr h)"
  using ix_hdr_deserialize_bytes [OF assms(1), of blank_ix_hdr] ix_hdr_length [OF assms(1)] assms(2)
  by (simp add: ix_hdr_serialize_def write_bytes_def blank_ix_hdr_def)

lemma close_open:
  assumes "ix_hdr_ok (ix_hdr s)" "ixh_tot_len (ix_hdr s) \<le> PAGE_SIZE"
  obtains f where "close_index s = Inr f"
    "open_index f = Some (Inr (s\<lparr>ix_pins := {#}, ix_next := ixh_num_pages (ix_hdr s), ix_deleted := []\<rparr>))"
proof -
  obtain page where p: "ix_hdr_serialize (ix_hdr s) (replicate PAGE_SIZE 0) = Inr page" "ix_hdr_deserialize blank_ix_hdr page = Some (Inr (ix_hdr s))"
    by (rule hdr_page [OF assms])
  show ?thesis by (rule that [of "\<lparr>if_hdr_page = page, if_nodes = ix_nodes s\<rparr>"]) (simp_all add: close_index_def open_index_def p)
qed

lemma ix_btree_order_bounds:
  assumes "tot \<le> IX_MAX_COL_LEN"
  shows "6 \<le> ix_btree_order tot" "ix_btree_order tot \<le> 508"
proof -
  have "4072 div 520 \<le> 4072 div (tot + 8)" by (rule div_le_mono2) (use assms in \<open>simp_all add: IX_MAX_COL_LEN_def\<close>)
  moreover have "4072 div (tot + 8) \<le> 4072 div (8::nat)" by (rule div_le_mono2) simp_all
  ultimately show "6 \<le> ix_btree_order tot" "ix_btree_order tot \<le> 508"
    by (simp_all add: ix_btree_order_def PAGE_SIZE_def SIZEOF_IX_PAGE_HDR_def SIZEOF_RID_def)
qed

lemma int32_nat: "n \<le> 300000 \<Longrightarrow> int32 (int n)"
  by (simp add: int32_def)

lemma new_index_hdr_ok:
  assumes "sum_list (map snd cols) \<le> IX_MAX_COL_LEN" "length cols \<le> 507"
  shows "ix_hdr_ok (new_index_hdr cols)" "ixh_tot_len (new_index_hdr cols) \<le> PAGE_SIZE" "hdr_cfg_ok (new_index_hdr cols)"
proof -
  let ?tot = "sum_list (map snd cols)"
  have t: "?tot \<le> 512" using assms(1) by (simp add: IX_MAX_COL_LEN_def)
  note o = ix_btree_order_bounds [OF assms(1)]
  have k: "(ix_btree_order ?tot + 1) * ?tot \<le> 509 * 512" by (rule mult_le_mono) (use o t in simp_all)
  have "l \<le> 512" if "l \<in> set (map snd cols)" for l using member_le_sum_list [OF that] t by simp
  then have "\<forall>c \<in> set cols. int32 (int (snd c))" by (force intro: int32_nat)
  moreover have "int32 (int ((ix_btree_order ?tot + 1) * ?tot))" "int32 (int ?tot)" "int32 (int (ix_btree_order ?tot))" "int32 (int (length cols))"
    "int32 (int (40 + 8 * length cols))"
    by (rule int32_nat, use assms(2) t o k in simp)+
  moreover have "int32 (-1)" "int32 2" "int32 3" by (simp_all add: int32_def)
  ultimately show "ix_hdr_ok (new_index_hdr cols)"
    by (simp add: ix_hdr_ok_def new_index_hdr_def update_tot_len_def Let_def ix_consts)
  show "ixh_tot_len (new_index_hdr cols) \<le> PAGE_SIZE" using assms(2) by (simp add: new_index_hdr_def update_tot_len_def Let_def PAGE_SIZE_def)
  show "hdr_cfg_ok (new_index_hdr cols)" using o by (simp add: hdr_cfg_ok_def new_index_hdr_def update_tot_len_def Let_def)
qed

lemma new_index_tree:
  assumes "hdr_cfg_ok h" "ixh_root_page h = IX_INIT_ROOT_PAGE"
  shows "tree_ok \<lparr>ix_hdr = h, ix_nodes =
      [IX_LEAF_HEADER_PAGE \<mapsto> \<lparr>nd_parent = IX_NO_PAGE, nd_leaf = True, nd_prev = IX_INIT_ROOT_PAGE, nd_next = IX_INIT_ROOT_PAGE, nd_entries = []\<rparr>,
       IX_INIT_ROOT_PAGE \<mapsto> \<lparr>nd_parent = IX_NO_PAGE, nd_leaf = True, nd_prev = IX_LEAF_HEADER_PAGE, nd_next = IX_LEAF_HEADER_PAGE, nd_entries = []\<rparr>],
      ix_pins = {#}, ix_next = 3, ix_deleted = []\<rparr> [IX_INIT_ROOT_PAGE] []"
  using assms
  by (simp add: tree_ok_def level_ok_def pages_ok_def leaves_ok_def root_of_def node_def IX_INIT_ROOT_PAGE_def IX_LEAF_HEADER_PAGE_def ents_def par_def
      good_entries_def)


subsection \<open>Sequences of operations\<close>

datatype ix_op = Insert bytes Rid | Delete bool bytes | Lookup bytes

datatype ix_answer = Inserted bool | Deleted bool | Found "Rid option"

fun ix_exec :: "ix_op \<Rightarrow> ix_index \<Rightarrow> ix_answer ix_run" where
  "ix_exec (Insert k v) s = run_bind (insert_entry k v s) (\<lambda>page s. Some (Inr (Inserted (page \<noteq> IX_NO_PAGE)), s))"
| "ix_exec (Delete tx k) s = run_bind (delete_entry tx k s) (\<lambda>done s. Some (Inr (Deleted done), s))"
| "ix_exec (Lookup k) s = run_bind (get_value k s) (\<lambda>r s. Some (Inr (Found r), s))"

fun ix_exec_all :: "ix_op list \<Rightarrow> ix_index \<Rightarrow> ix_answer list ix_run" where
  "ix_exec_all [] s = Some (Inr [], s)"
| "ix_exec_all (p # ps) s = run_bind (ix_exec p s) (\<lambda>a s. run_bind (ix_exec_all ps s) (\<lambda>as s. Some (Inr (a # as), s)))"

text \<open>The specification: a finite map; an insertion does not replace the value of a key.\<close>

type_synonym key_cfg = "ColType list \<times> nat list"

fun op_key :: "ix_op \<Rightarrow> bytes" where
  "op_key (Insert k v) = k"
| "op_key (Delete tx k) = k"
| "op_key (Lookup k) = k"

fun map_exec :: "key_cfg \<Rightarrow> ix_op \<Rightarrow> (int list \<rightharpoonup> Rid) \<Rightarrow> ix_answer \<times> (int list \<rightharpoonup> Rid)" where
  "map_exec c (Insert k v) m = (let r = key_rank (fst c) (snd c) k
     in case m r of None \<Rightarrow> (Inserted True, m(r \<mapsto> v)) | Some w \<Rightarrow> (Inserted False, m))"
| "map_exec c (Delete tx k) m = (let r = key_rank (fst c) (snd c) k in (Deleted (m r \<noteq> None), m(r := None)))"
| "map_exec c (Lookup k) m = (Found (m (key_rank (fst c) (snd c) k)), m)"

fun map_exec_all :: "key_cfg \<Rightarrow> ix_op list \<Rightarrow> (int list \<rightharpoonup> Rid) \<Rightarrow> ix_answer list \<times> (int list \<rightharpoonup> Rid)" where
  "map_exec_all c [] m = ([], m)"
| "map_exec_all c (p # ps) m = (let (a, m1) = map_exec c p m; (as, m2) = map_exec_all c ps m1 in (a # as, m2))"

text \<open>An implementation of a specification given by its steps: the answer of a step is the specified one, and what the
  specification looks at besides the abstract value does not change.\<close>

locale step_refinement =
  fixes rep :: "'s \<Rightarrow> 'm \<Rightarrow> bool" and env :: "'s \<Rightarrow> 'e" and ok :: "'e \<Rightarrow> 'p \<Rightarrow> bool"
    and exec :: "'p \<Rightarrow> 's \<Rightarrow> (('x + 'a) \<times> 's) option" and spec :: "'e \<Rightarrow> 'p \<Rightarrow> 'm \<Rightarrow> 'a \<times> 'm"
  assumes step: "rep s m \<Longrightarrow> ok (env s) p \<Longrightarrow> spec (env s) p m = (a, m') \<Longrightarrow>
    \<exists>s'. exec p s = Some (Inr a, s') \<and> rep s' m' \<and> env s' = env s"
begin

inductive runs :: "'p list \<Rightarrow> 's \<Rightarrow> 'a list \<Rightarrow> 's \<Rightarrow> bool" where
  runs_Nil: "runs [] s [] s"
| runs_Cons: "exec p s = Some (Inr a, s1) \<Longrightarrow> runs ps s1 as s2 \<Longrightarrow> runs (p # ps) s (a # as) s2"

inductive allows :: "'e \<Rightarrow> 'p list \<Rightarrow> 'm \<Rightarrow> 'a list \<Rightarrow> 'm \<Rightarrow> bool" where
  allows_Nil: "allows e [] m [] m"
| allows_Cons: "spec e p m = (a, m1) \<Longrightarrow> allows e ps m1 as m2 \<Longrightarrow> allows e (p # ps) m (a # as) m2"

lemma refines:
  assumes "allows (env s) ps m as m'" "rep s m" "\<forall>p \<in> set ps. ok (env s) p"
  shows "\<exists>s'. runs ps s as s' \<and> rep s' m' \<and> env s' = env s"
  using assms
proof (induction "env s" ps m as m' arbitrary: s rule: allows.induct)
  case (allows_Nil m)
  then show ?case using runs_Nil by blast
next
  case (allows_Cons p m a m1 ps as m2)
  have "ok (env s) p" using allows_Cons.prems(2) by simp
  then obtain s1 where s1: "exec p s = Some (Inr a, s1)" "rep s1 m1" "env s1 = env s"
    using step [OF allows_Cons.prems(1) _ allows_Cons.hyps(1)] by blast
  have "\<exists>s'. runs ps s1 as s' \<and> rep s' m2 \<and> env s' = env s1"
    by (rule allows_Cons.hyps(3)) (use s1 allows_Cons.prems(2) in simp_all)
  then show ?case using s1 runs_Cons by metis
qed

end

text \<open>An index stands for a map when its tree is well-formed and has the entries of the map.\<close>

definition represents :: "ix_index \<Rightarrow> (int list \<rightharpoonup> Rid) \<Rightarrow> bool" where
  "represents s m \<longleftrightarrow> (\<exists>L Ls. tree_ok s L Ls \<and> m = entry_map (ix_hdr s) (row (ix_nodes s) L))"

definition ix_env :: "ix_index \<Rightarrow> key_cfg \<times> int multiset" where
  "ix_env s = ((ixh_col_types (ix_hdr s), ixh_col_lens (ix_hdr s)), ix_pins s)"

lemma same_cfg_env: "same_cfg (ix_hdr s) (ix_hdr s') \<Longrightarrow> ix_pins s' = ix_pins s \<Longrightarrow> ix_env s' = ix_env s"
  by (simp add: same_cfg_def ix_env_def)

lemma same_cfg_map: "same_cfg h h' \<Longrightarrow> entry_map h' = entry_map h"
  by (simp add: entry_map_def same_cfg_def fun_eq_iff)

lemma entry_map_add:
  assumes "\<forall>e \<in> set (E @ F). rank_of h (fst e) \<noteq> rank_of h x"
  shows "entry_map h (E @ (x, v) # F) = (entry_map h (E @ F))(rank_of h x \<mapsto> v)"
proof -
  have "entry_map h E (rank_of h x) = None" by (rule entry_map_None) (use assms in simp)
  then show ?thesis by (auto simp: fun_eq_iff map_add_def split: option.splits)
qed

lemma entry_map_remove:
  assumes "good_entries h (E @ e # F)"
  shows "entry_map h (E @ F) = (entry_map h (E @ e # F))(rank_of h (fst e) := None)"
proof -
  have "entry_map h E (rank_of h (fst e)) = None" "entry_map h F (rank_of h (fst e)) = None"
    using assms by (auto intro!: entry_map_None)
  then show ?thesis by (auto simp: fun_eq_iff map_add_def split: option.splits)
qed

lemma insert_step:
  assumes "represents s m" "good_key (ix_hdr s) k" "m (rank_of (ix_hdr s) k) = None"
  shows "\<exists>p s'. insert_entry k v s = Some (Inr p, s') \<and> p \<noteq> IX_NO_PAGE \<and> represents s' (m(rank_of (ix_hdr s) k \<mapsto> v)) \<and> ix_env s' = ix_env s"
proof -
  obtain L Ls where t: "tree_ok s L Ls" "m = entry_map (ix_hdr s) (row (ix_nodes s) L)" using assms(1) unfolding represents_def by blast
  have new: "\<forall>e \<in> set (row (ix_nodes s) L). rank_of (ix_hdr s) (fst e) \<noteq> rank_of (ix_hdr s) k"
    using assms(3) entry_map_iff [OF tree_okD(7) [OF t(1)]] t(2) by blast
  obtain p s' L' Ls' where i: "insert_entry k v s = Some (Inr p, s')" "added s L s' L' Ls' k v p"
    using insert_entry_new [OF t(1) assms(2) new] by blast
  obtain E F where ef: "row (ix_nodes s) L = E @ F" "row (ix_nodes s') L' = E @ (k, v) # F" using i(2) unfolding added_def by blast
  have a: "tree_ok s' L' Ls'" "p \<in> set L'" "ix_pins s' = ix_pins s" "same_cfg (ix_hdr s) (ix_hdr s')" using i(2) by (simp_all add: added_def)
  have "entry_map (ix_hdr s') (row (ix_nodes s') L') = m(rank_of (ix_hdr s) k \<mapsto> v)"
    unfolding same_cfg_map [OF a(4)] ef(2) t(2) ef(1) by (rule entry_map_add) (use new ef(1) in simp)
  then have "represents s' (m(rank_of (ix_hdr s) k \<mapsto> v))" unfolding represents_def using a(1) by metis
  moreover have "p \<noteq> IX_NO_PAGE" using tree_okD(4) [OF a(1)] a(2) by (force simp: pages_ok_def IX_NO_PAGE_def)
  ultimately show ?thesis using i(1) same_cfg_env [OF a(4,3)] by blast
qed

lemma insert_dup_step:
  assumes "represents s m" "good_key (ix_hdr s) k" "m (rank_of (ix_hdr s) k) = Some w"
  shows "insert_entry k v s = Some (Inr IX_NO_PAGE, s)"
proof -
  obtain L Ls where t: "tree_ok s L Ls" "m = entry_map (ix_hdr s) (row (ix_nodes s) L)" using assms(1) unfolding represents_def by blast
  obtain e where "e \<in> set (row (ix_nodes s) L)" "rank_of (ix_hdr s) (fst e) = rank_of (ix_hdr s) k"
    using assms(3) entry_map_None [of "row (ix_nodes s) L"] t(2) by fastforce
  then show ?thesis by (rule insert_entry_present [OF t(1) assms(2)])
qed

lemma delete_step:
  assumes "represents s m" "good_key (ix_hdr s) k"
  shows "\<exists>s'. delete_entry tx k s = Some (Inr (m (rank_of (ix_hdr s) k) \<noteq> None), s') \<and> represents s' (m(rank_of (ix_hdr s) k := None)) \<and> ix_env s' = ix_env s"
proof -
  obtain L Ls where t: "tree_ok s L Ls" "m = entry_map (ix_hdr s) (row (ix_nodes s) L)" using assms(1) unfolding represents_def by blast
  note g = tree_okD(7) [OF t(1)]
  show ?thesis
  proof (cases "m (rank_of (ix_hdr s) k)")
    case None
    then have new: "\<forall>e \<in> set (row (ix_nodes s) L). rank_of (ix_hdr s) (fst e) \<noteq> rank_of (ix_hdr s) k" using entry_map_iff [OF g] t(2) by blast
    have "m(rank_of (ix_hdr s) k := None) = m" using None by (simp add: fun_upd_idem)
    then show ?thesis using delete_entry_absent [OF t(1) assms(2) new] None assms(1) by simp
  next
    case (Some w)
    then obtain e where e: "e \<in> set (row (ix_nodes s) L)" "rank_of (ix_hdr s) (fst e) = rank_of (ix_hdr s) k"
      using entry_map_None [of "row (ix_nodes s) L"] t(2) by fastforce
    obtain E F where ef: "row (ix_nodes s) L = E @ e # F" using e(1) by (meson split_list)
    obtain s' L' Ls' where d: "delete_entry tx k s = Some (Inr True, s')" "deleted s L s' L' Ls' (E @ F)"
      using delete_entry_present [OF t(1) assms(2) ef e(2)] by blast
    have a: "tree_ok s' L' Ls'" "row (ix_nodes s') L' = E @ F" "ix_pins s' = ix_pins s" "same_cfg (ix_hdr s) (ix_hdr s')" using d(2) by (simp_all add: deleted_def)
    have "entry_map (ix_hdr s') (row (ix_nodes s') L') = m(rank_of (ix_hdr s) k := None)"
      unfolding same_cfg_map [OF a(4)] a(2) t(2) ef e(2) [symmetric] by (rule entry_map_remove) (use g ef in simp)
    then have "represents s' (m(rank_of (ix_hdr s) k := None))" unfolding represents_def using a(1) by metis
    then show ?thesis using d(1) Some same_cfg_env [OF a(4,3)] by auto
  qed
qed

lemma lookup_step: "represents s m \<Longrightarrow> good_key (ix_hdr s) k \<Longrightarrow> get_value k s = Some (Inr (m (rank_of (ix_hdr s) k)), s)"
  unfolding represents_def using get_value_ok by blast


interpretation ixm: step_refinement represents ix_env "\<lambda>e p. key_ok (fst (fst e)) (snd (fst e)) (op_key p)" ix_exec "\<lambda>e. map_exec (fst e)"
proof
  fix s m p a m'
  assume r: "represents s m" and k: "key_ok (fst (fst (ix_env s))) (snd (fst (ix_env s))) (op_key p)" and sp: "map_exec (fst (ix_env s)) p m = (a, m')"
  show "\<exists>s'. ix_exec p s = Some (Inr a, s') \<and> represents s' m' \<and> ix_env s' = ix_env s"
  proof (cases p)
    case (Insert key v)
    have g: "good_key (ix_hdr s) key" using k Insert by (simp add: ix_env_def)
    show ?thesis
    proof (cases "m (rank_of (ix_hdr s) key)")
      case None
      then have "a = Inserted True" "m' = m(rank_of (ix_hdr s) key \<mapsto> v)" using sp Insert by (simp_all add: ix_env_def)
      then show ?thesis using insert_step [OF r g None, of v] Insert by auto
    next
      case (Some w)
      then have "a = Inserted False" "m' = m" using sp Insert by (simp_all add: ix_env_def)
      then show ?thesis using insert_dup_step [OF r g Some, of v] Insert r by auto
    qed
  next
    case (Delete tx key)
    have g: "good_key (ix_hdr s) key" using k Delete by (simp add: ix_env_def)
    have "a = Deleted (m (rank_of (ix_hdr s) key) \<noteq> None)" "m' = m(rank_of (ix_hdr s) key := None)"
      using sp Delete by (auto simp: ix_env_def Let_def)
    then show ?thesis using delete_step [OF r g, of tx] Delete by auto
  next
    case (Lookup key)
    have g: "good_key (ix_hdr s) key" using k Lookup by (simp add: ix_env_def)
    have "a = Found (m (rank_of (ix_hdr s) key))" "m' = m" using sp Lookup by (auto simp: ix_env_def)
    then show ?thesis using lookup_step [OF r g] Lookup r by auto
  qed
qed

lemma runs_exec_all: "ixm.runs ps s as s' \<Longrightarrow> ix_exec_all ps s = Some (Inr as, s')"
  by (induction rule: ixm.runs.induct) simp_all

lemma map_exec_allows: "map_exec_all (fst e) ps m = (as, m') \<Longrightarrow> ixm.allows e ps m as m'"
proof (induction ps arbitrary: m as m')
  case Nil
  then show ?case using ixm.allows_Nil by simp
next
  case (Cons p ps)
  obtain a m1 where a: "map_exec (fst e) p m = (a, m1)" by (cases "map_exec (fst e) p m") auto
  obtain bs m2 where b: "map_exec_all (fst e) ps m1 = (bs, m2)" by (cases "map_exec_all (fst e) ps m1") auto
  have "as = a # bs" "m' = m2" using Cons.prems a b by simp_all
  then show ?case using ixm.allows_Cons [OF a Cons.IH [OF b]] by simp
qed

text \<open>C2: On an index that stands for a map, every sequence of insertions, deletions and lookups of admissible keys returns,
  without throwing, what the same sequence returns on the map: an insertion succeeds exactly when the key is new and does not
  change the value of a key, a deletion tells whether the key was there, a lookup finds the value. Afterwards the tree is
  well-formed again, stands for the resulting map, and holds no more pins than before. The tree may have any number of levels.\<close>

theorem index_refines_map:
  assumes "represents s m" "\<forall>p \<in> set ps. good_key (ix_hdr s) (op_key p)"
    "map_exec_all (ixh_col_types (ix_hdr s), ixh_col_lens (ix_hdr s)) ps m = (as, m')"
  shows "\<exists>s'. ix_exec_all ps s = Some (Inr as, s') \<and> represents s' m' \<and> ix_pins s' = ix_pins s \<and>
    ixh_col_types (ix_hdr s') = ixh_col_types (ix_hdr s) \<and> ixh_col_lens (ix_hdr s') = ixh_col_lens (ix_hdr s)"
proof -
  have "ixm.allows (ix_env s) ps m as m'" by (rule map_exec_allows) (use assms(3) in \<open>simp add: ix_env_def\<close>)
  then obtain s' where "ixm.runs ps s as s'" "represents s' m'" "ix_env s' = ix_env s"
    using ixm.refines [OF _ assms(1)] assms(2) by (fastforce simp: ix_env_def)
  then show ?thesis using runs_exec_all by (auto simp: ix_env_def)
qed

text \<open>An index of order 3 on one integer column, with an empty leaf.\<close>

definition small_index :: ix_index where
  "small_index = \<lparr>ix_hdr = (new_index_hdr [(TYPE_INT, 4)])\<lparr>ixh_btree_order := 3\<rparr>, ix_nodes =
     [IX_LEAF_HEADER_PAGE \<mapsto> \<lparr>nd_parent = IX_NO_PAGE, nd_leaf = True, nd_prev = IX_INIT_ROOT_PAGE, nd_next = IX_INIT_ROOT_PAGE, nd_entries = []\<rparr>,
      IX_INIT_ROOT_PAGE \<mapsto> \<lparr>nd_parent = IX_NO_PAGE, nd_leaf = True, nd_prev = IX_LEAF_HEADER_PAGE, nd_next = IX_LEAF_HEADER_PAGE, nd_entries = []\<rparr>],
     ix_pins = {#}, ix_next = 3, ix_deleted = []\<rparr>"

lemma small_index_represents: "represents small_index Map.empty"
proof -
  have "tree_ok small_index [IX_INIT_ROOT_PAGE] []" unfolding small_index_def
    by (rule new_index_tree) (simp_all add: hdr_cfg_ok_def new_index_hdr_def update_tot_len_def Let_def)
  moreover have "ents (ix_nodes small_index) IX_INIT_ROOT_PAGE = []" by (simp add: small_index_def ents_def)
  ultimately show ?thesis unfolding represents_def by (intro exI [of _ "[IX_INIT_ROOT_PAGE]"] exI [of _ "[]"]) simp
qed

lemma small_index_cols [simp]: "ixh_col_types (ix_hdr small_index) = [TYPE_INT]" "ixh_col_lens (ix_hdr small_index) = [4]"
  by (simp_all add: small_index_def new_index_hdr_def update_tot_len_def Let_def)

theorem index_refines_map_witness:
  "\<exists>s'. ix_exec_all [Insert [5, 0, 0, 0] \<lparr>rid_page_no = 1, rid_slot_no = 0\<rparr>, Insert [3, 0, 0, 0] \<lparr>rid_page_no = 1, rid_slot_no = 1\<rparr>,
       Insert [5, 0, 0, 0] \<lparr>rid_page_no = 9, rid_slot_no = 9\<rparr>, Delete False [3, 0, 0, 0], Lookup [5, 0, 0, 0], Lookup [3, 0, 0, 0]] small_index =
     Some (Inr [Inserted True, Inserted True, Inserted False, Deleted True, Found (Some \<lparr>rid_page_no = 1, rid_slot_no = 0\<rparr>), Found None], s') \<and>
     ix_pins s' = {#}"
proof -
  let ?ps = "[Insert [5, 0, 0, 0] \<lparr>rid_page_no = 1, rid_slot_no = 0\<rparr>, Insert [3, 0, 0, 0] \<lparr>rid_page_no = 1, rid_slot_no = 1\<rparr>,
       Insert [5, 0, 0, 0] \<lparr>rid_page_no = 9, rid_slot_no = 9\<rparr>, Delete False [3, 0, 0, 0], Lookup [5, 0, 0, 0], Lookup [3, 0, 0, 0]]"
  have k: "key_rank [TYPE_INT] [4] [5, 0, 0, 0] = [5]" "key_rank [TYPE_INT] [4] [3, 0, 0, 0] = [3]"
    "key_ok [TYPE_INT] [4] [5, 0, 0, 0]" "key_ok [TYPE_INT] [4] [3, 0, 0, 0]"
    by (simp_all add: col_rank_def read_i32_def dec_i32_def read_bytes_def)
  have g: "\<forall>p \<in> set ?ps. good_key (ix_hdr small_index) (op_key p)" unfolding small_index_cols using k by simp
  have m: "map_exec_all (ixh_col_types (ix_hdr small_index), ixh_col_lens (ix_hdr small_index)) ?ps Map.empty =
      ([Inserted True, Inserted True, Inserted False, Deleted True, Found (Some \<lparr>rid_page_no = 1, rid_slot_no = 0\<rparr>), Found None],
       Map.empty([5] \<mapsto> \<lparr>rid_page_no = 1, rid_slot_no = 0\<rparr>))"
    unfolding small_index_cols by (simp add: k fun_upd_twist Let_def del: key_rank.simps)
  have "ix_pins small_index = {#}" by (simp add: small_index_def)
  then show ?thesis using index_refines_map [OF small_index_represents g m] by auto
qed


subsection \<open>Creating, closing and opening\<close>

lemma create_open_fresh:
  assumes "sum_list (map snd cols) \<le> IX_MAX_COL_LEN" "length cols \<le> 507"
  obtains f s where "create_index cols = Inr f" "open_index f = Some (Inr s)" "represents s Map.empty" "ix_pins s = {#}"
    "ixh_col_types (ix_hdr s) = map fst cols" "ixh_col_lens (ix_hdr s) = map snd cols" "ends_ok s [IX_INIT_ROOT_PAGE]"
proof -
  let ?h = "new_index_hdr cols"
  note h = new_index_hdr_ok [OF assms]
  obtain page where p: "ix_hdr_serialize ?h (replicate PAGE_SIZE 0) = Inr page" "ix_hdr_deserialize blank_ix_hdr page = Some (Inr ?h)"
    by (rule hdr_page [OF h(1,2)])
  have f: "ixh_num_pages ?h = 3" "ixh_root_page ?h = IX_INIT_ROOT_PAGE" "ixh_col_types ?h = map fst cols" "ixh_col_lens ?h = map snd cols"
    "ixh_first_leaf ?h = IX_INIT_ROOT_PAGE" "ixh_last_leaf ?h = IX_INIT_ROOT_PAGE"
    by (simp_all add: new_index_hdr_def update_tot_len_def Let_def IX_INIT_NUM_PAGES_def)
  let ?N = "[IX_LEAF_HEADER_PAGE \<mapsto> \<lparr>nd_parent = IX_NO_PAGE, nd_leaf = True, nd_prev = IX_INIT_ROOT_PAGE, nd_next = IX_INIT_ROOT_PAGE, nd_entries = []\<rparr>,
      IX_INIT_ROOT_PAGE \<mapsto> \<lparr>nd_parent = IX_NO_PAGE, nd_leaf = True, nd_prev = IX_LEAF_HEADER_PAGE, nd_next = IX_LEAF_HEADER_PAGE, nd_entries = []\<rparr>]"
  let ?s = "\<lparr>ix_hdr = ?h, ix_nodes = ?N, ix_pins = {#}, ix_next = 3, ix_deleted = []\<rparr>"
  have "\<not> IX_MAX_COL_LEN < sum_list (map snd cols)" "2 < ix_btree_order (sum_list (map snd cols))" using assms(1) ix_btree_order_bounds(1) [OF assms(1)] by simp_all
  then have c: "create_index cols = Inr \<lparr>if_hdr_page = page, if_nodes = ?N\<rparr>" unfolding create_index_def p(1) Let_def by simp
  have o: "open_index \<lparr>if_hdr_page = page, if_nodes = ?N\<rparr> = Some (Inr ?s)" unfolding open_index_def index_file.simps p(2) by (simp add: f(1))
  have "tree_ok ?s [IX_INIT_ROOT_PAGE] []" by (rule new_index_tree [OF h(3) f(2)])
  moreover have "ents (ix_nodes ?s) IX_INIT_ROOT_PAGE = []" by (simp add: ents_def)
  ultimately have "represents ?s Map.empty" unfolding represents_def by (intro exI [of _ "[IX_INIT_ROOT_PAGE]"] exI [of _ "[]"]) simp
  then show ?thesis using f by (intro that [OF c o]) (simp_all add: ends_ok_def)
qed

text \<open>C34: Creating an index on columns with at most 512 bytes together (and at most 507 of them, so that the header fits in its
  page) and opening it gives an empty index on these columns; with longer columns the creation throws. On the opened index any
  sequence of operations on admissible keys returns what it returns on the empty map and leaves no page pinned.\<close>

theorem create_open_index:
  assumes "length cols \<le> 507" "\<forall>p \<in> set ps. key_ok (map fst cols) (map snd cols) (op_key p)"
  shows "if IX_MAX_COL_LEN < sum_list (map snd cols) then create_index cols = Inl (InvalidColLengthError (int (sum_list (map snd cols))))
    else \<exists>f s s'. create_index cols = Inr f \<and> open_index f = Some (Inr s) \<and>
      ix_exec_all ps s = Some (Inr (fst (map_exec_all (map fst cols, map snd cols) ps Map.empty)), s') \<and> ix_pins s' = {#}"
proof (cases "IX_MAX_COL_LEN < sum_list (map snd cols)")
  case True
  then show ?thesis by (simp add: create_index_def Let_def)
next
  case False
  then obtain f s where s: "create_index cols = Inr f" "open_index f = Some (Inr s)" "represents s Map.empty" "ix_pins s = {#}"
    "ixh_col_types (ix_hdr s) = map fst cols" "ixh_col_lens (ix_hdr s) = map snd cols" "ends_ok s [IX_INIT_ROOT_PAGE]"
    using create_open_fresh [OF _ assms(1)] by (metis not_less)
  let ?r = "map_exec_all (map fst cols, map snd cols) ps Map.empty"
  have "ixm.allows (ix_env s) ps Map.empty (fst ?r) (snd ?r)" by (rule map_exec_allows) (use s(5,6) in \<open>simp add: ix_env_def\<close>)
  then obtain s' where "ixm.runs ps s (fst ?r) s'" "ix_env s' = ix_env s"
    using ixm.refines [OF _ s(3)] assms(2) s(5,6) by (fastforce simp: ix_env_def)
  then show ?thesis using runs_exec_all s(1,2,4) False by (auto simp: ix_env_def)
qed

theorem create_open_index_witness:
  "\<exists>f s s'. create_index [(TYPE_INT, 4), (TYPE_STRING, 2)] = Inr f \<and> open_index f = Some (Inr s) \<and>
     ix_exec_all [Insert [7, 0, 0, 0, 65, 66] \<lparr>rid_page_no = 1, rid_slot_no = 4\<rparr>, Lookup [7, 0, 0, 0, 65, 66]] s =
       Some (Inr [Inserted True, Found (Some \<lparr>rid_page_no = 1, rid_slot_no = 4\<rparr>)], s') \<and> ix_pins s' = {#}"
  using create_open_index [of "[(TYPE_INT, 4), (TYPE_STRING, 2)]"
    "[Insert [7, 0, 0, 0, 65, 66] \<lparr>rid_page_no = 1, rid_slot_no = 4\<rparr>, Lookup [7, 0, 0, 0, 65, 66]]"]
  by (simp add: IX_MAX_COL_LEN_def Let_def)

text \<open>Closing writes the header and opening reads it: an index whose header counts all its pages stands for the same map.\<close>

lemma reopen_index:
  assumes "represents s m" "ix_hdr_ok (ix_hdr s)" "ixh_tot_len (ix_hdr s) \<le> PAGE_SIZE" "ix_next s \<le> ixh_num_pages (ix_hdr s)"
  shows "\<exists>f s'. close_index s = Inr f \<and> open_index f = Some (Inr s') \<and> represents s' m \<and> ix_pins s' = {#}"
proof -
  let ?s' = "s\<lparr>ix_pins := {#}, ix_next := ixh_num_pages (ix_hdr s), ix_deleted := []\<rparr>"
  obtain f where f: "close_index s = Inr f" "open_index f = Some (Inr ?s')" by (rule close_open [OF assms(2,3)])
  obtain L Ls where t: "tree_ok s L Ls" "m = entry_map (ix_hdr s) (row (ix_nodes s) L)" using assms(1) unfolding represents_def by blast
  have "tree_ok ?s' L Ls" using t(1) assms(4) by (force simp: tree_ok_def pages_ok_def leaves_ok_def node_def)
  then have "represents ?s' m" using t(2) unfolding represents_def by auto
  then show ?thesis using f by auto
qed

text \<open>A merge lowers the recorded number of pages by one whichever page it frees, so the page number the next session gives
  out first is that of the last page of the file, which may be a node of the tree.\<close>

lemma reopen_after_merge:
  assumes "ixh_num_pages (ix_hdr s) = ix_next s" "ix_next s - 1 \<in> dom N'" "s1 = merge_state tx s l r N'"
    "ix_hdr_ok (ix_hdr s1)" "ixh_tot_len (ix_hdr s1) \<le> PAGE_SIZE"
  shows "\<exists>f s2 s3. close_index s1 = Inr f \<and> open_index f = Some (Inr s2) \<and> ix_next s - 1 \<in> dom (ix_nodes s2) \<and>
    create_node s2 = Some (Inr (ix_next s - 1), s3)"
proof -
  have n: "ixh_num_pages (ix_hdr s1) = ix_next s - 1" "ix_nodes s1 = N'" using assms(1,3) by (simp_all add: merge_state_def)
  obtain f where f: "close_index s1 = Inr f" "open_index f = Some (Inr (s1\<lparr>ix_pins := {#}, ix_next := ixh_num_pages (ix_hdr s1), ix_deleted := []\<rparr>))"
    by (rule close_open [OF assms(4,5)])
  show ?thesis
    by (rule exI [of _ f], rule exI, intro exI conjI, rule f(1), rule f(2)) (use n assms(2) in \<open>simp_all add: create_node_ok\<close>)
qed

text \<open>The header of an emptied index loses its ends: after the last entry is deleted the index has no first leaf, and an insertion
  does not set it again, so a scan from \<open>leaf_begin\<close> to \<open>leaf_end\<close> ends at once although the key is found by a lookup.\<close>

lemma emptied_index_scan:
  "(case ix_exec_all [Insert [5, 0, 0, 0] \<lparr>rid_page_no = 1, rid_slot_no = 0\<rparr>, Delete False [5, 0, 0, 0],
       Insert [6, 0, 0, 0] \<lparr>rid_page_no = 1, rid_slot_no = 1\<rparr>, Lookup [6, 0, 0, 0]] small_index of
      Some (r, s) \<Rightarrow> (r, map_option fst (leaf_begin s), map_option fst (leaf_end s))) =
   (Inr [Inserted True, Deleted True, Inserted True, Found (Some \<lparr>rid_page_no = 1, rid_slot_no = 1\<rparr>)],
    Some (Inr \<lparr>iid_page_no = IX_NO_PAGE, iid_slot_no = 0\<rparr>), Some (Inr \<lparr>iid_page_no = IX_NO_PAGE, iid_slot_no = 0\<rparr>))"
  by code_simp

end
