(* ===== verification/Ix_Scan.thy ===== *)
theory Ix_Scan
  imports Ix_Index
begin

text \<open>
  The scan of an index (\<^verbatim>\<open>IxScan\<close> in \<^verbatim>\<open>src/src/index/ix_scan.cpp\<close>): a position in a leaf that moves along the list of
  leaves to an end position. The scan keeps the leaf it is in pinned from one call to the next.
\<close>

record IxScan =
  scan_iid :: Iid
  scan_end :: Iid
  scan_cached :: "int option"

definition ix_scan_is_end :: "IxScan \<Rightarrow> bool" where
  "ix_scan_is_end sc \<longleftrightarrow> scan_iid sc = scan_end sc"

definition new_ix_scan :: "Iid \<Rightarrow> Iid \<Rightarrow> IxScan" where
  "new_ix_scan lower upper = \<lparr>scan_iid = lower, scan_end = upper, scan_cached = None\<rparr>"

text \<open>The pinned leaf, fetched when the scan does not hold it.\<close>

definition cached_leaf :: "IxScan \<Rightarrow> ix_index \<Rightarrow> IxScan ix_run" where
  "cached_leaf sc s =
     (let p = iid_page_no (scan_iid sc)
      in if scan_cached sc = Some p then Some (Inr sc, s)
         else run_bind (fetch_node p (case scan_cached sc of None \<Rightarrow> s | Some q \<Rightarrow> unpin q s))
                (\<lambda>_ s. Some (Inr (sc\<lparr>scan_cached := Some p\<rparr>), s)))"

definition unpin_cached :: "IxScan \<Rightarrow> ix_index \<Rightarrow> ix_index" where
  "unpin_cached sc s = (case scan_cached sc of None \<Rightarrow> s | Some q \<Rightarrow> unpin q s)"

text \<open>To the next leaf, or to the end when the list of leaves is back at its header.\<close>

definition next_leaf_step :: "IxScan \<Rightarrow> ix_index \<Rightarrow> IxScan ix_run" where
  "next_leaf_step sc s =
     (let next = nd_next (node s (iid_page_no (scan_iid sc)))
      in if next \<noteq> IX_NO_PAGE \<and> next \<noteq> IX_LEAF_HEADER_PAGE
         then run_bind (fetch_node next (unpin_cached sc s)) (\<lambda>_ s.
                Some (Inr (sc\<lparr>scan_iid := \<lparr>iid_page_no = next, iid_slot_no = 0\<rparr>, scan_cached := Some next\<rparr>), s))
         else Some (Inr (sc\<lparr>scan_iid := scan_end sc, scan_cached := None\<rparr>), unpin_cached sc s))"

definition ix_scan_next :: "IxScan \<Rightarrow> ix_index \<Rightarrow> IxScan ix_run" where
  "ix_scan_next sc s =
     (if ix_scan_is_end sc then Some (Inl AssertionFailure, s)
      else run_bind (cached_leaf sc s) (\<lambda>sc s.
        let nd = node s (iid_page_no (scan_iid sc)); slot = iid_slot_no (scan_iid sc)
        in if \<not> nd_leaf nd then Some (Inl AssertionFailure, s)
           else if slot \<ge> int (num_key nd) then next_leaf_step sc s
           else let sc1 = sc\<lparr>scan_iid := (scan_iid sc)\<lparr>iid_slot_no := slot + 1\<rparr>\<rparr>
                in if slot + 1 = int (num_key nd) then next_leaf_step sc1 s else Some (Inr sc1, s)))"

definition ix_scan_rid :: "IxScan \<Rightarrow> ix_index \<Rightarrow> (Rid \<times> IxScan) ix_run" where
  "ix_scan_rid sc s =
     (if ix_scan_is_end sc then Some (Inl IndexEntryNotFoundError, s)
      else run_bind (cached_leaf sc s) (\<lambda>sc s.
        let nd = node s (iid_page_no (scan_iid sc)); slot = iid_slot_no (scan_iid sc)
        in if \<not> nd_leaf nd then Some (Inl IndexEntryNotFoundError, s)
           else if slot < 0 \<or> slot \<ge> int (num_key nd) then Some (Inl IndexEntryNotFoundError, s)
           else Some (Inr (ix_get_rid nd (nat slot), sc), s)))"

text \<open>The loop of a scan, \<^verbatim>\<open>while (!scan.is_end()) { scan.rid(); scan.next(); }\<close>, and the destructor at its end.\<close>

fun ix_scan_loop :: "nat \<Rightarrow> IxScan \<Rightarrow> ix_index \<Rightarrow> Rid list ix_run" where
  "ix_scan_loop 0 sc s = None"
| "ix_scan_loop (Suc n) sc s =
     (if ix_scan_is_end sc then Some (Inr [], unpin_cached sc s)
      else run_bind (ix_scan_rid sc s) (\<lambda>(r, sc) s.
           run_bind (ix_scan_next sc s) (\<lambda>sc s.
           run_bind (ix_scan_loop n sc s) (\<lambda>rs s. Some (Inr (r # rs), s)))))"

subsection \<open>The entries a scan passes\<close>

text \<open>The positions of the entries of a leaf, and of all leaves, in order.\<close>

fun spots :: "int \<Rightarrow> nat \<Rightarrow> entry list \<Rightarrow> (Iid \<times> entry) list" where
  "spots p k [] = []"
| "spots p k (x # xs) = (\<lparr>iid_page_no = p, iid_slot_no = int k\<rparr>, x) # spots p (Suc k) xs"

definition all_spots :: "(int \<rightharpoonup> ix_node) \<Rightarrow> int list \<Rightarrow> (Iid \<times> entry) list" where
  "all_spots N L = concat (map (\<lambda>p. spots p 0 (ents N p)) L)"

lemma all_spots_simps [simp]:
  "all_spots N [] = []" "all_spots N (p # L) = spots p 0 (ents N p) @ all_spots N L" "all_spots N (L @ M) = all_spots N L @ all_spots N M"
  by (simp_all add: all_spots_def)

lemma map_snd_spots [simp]: "map snd (spots p k xs) = xs"
  by (induction xs arbitrary: k) simp_all

lemma map_snd_all_spots [simp]: "map snd (all_spots N L) = row N L"
  by (induction L) simp_all

lemma length_spots [simp]: "length (spots p k xs) = length xs"
  by (metis length_map map_snd_spots)

lemma spots_append: "spots p k (xs @ ys) = spots p k xs @ spots p (k + length xs) ys"
  by (induction xs arbitrary: k) simp_all

lemma spots_Iid: "(i, x) \<in> set (spots p k xs) \<Longrightarrow> iid_page_no i = p \<and> int k \<le> iid_slot_no i \<and> iid_slot_no i < int (k + length xs)"
  by (induction xs arbitrary: k) fastforce+

lemma distinct_spots: "distinct (map fst (spots p k xs))"
proof (induction xs arbitrary: k)
  case (Cons x xs)
  have "\<lparr>iid_page_no = p, iid_slot_no = int k\<rparr> \<notin> fst ` set (spots p (Suc k) xs)"
  proof
    assume "\<lparr>iid_page_no = p, iid_slot_no = int k\<rparr> \<in> fst ` set (spots p (Suc k) xs)"
    then obtain z where z: "z \<in> set (spots p (Suc k) xs)" "\<lparr>iid_page_no = p, iid_slot_no = int k\<rparr> = fst z" unfolding image_iff by blast
    have "(fst z, snd z) \<in> set (spots p (Suc k) xs)" using z(1) by simp
    from spots_Iid [OF this] show False unfolding z(2) [symmetric] by simp
  qed
  then show ?case using Cons by simp
qed simp

lemma distinct_all_spots: "distinct L \<Longrightarrow> distinct (map fst (all_spots N L))"
proof (induction L)
  case (Cons p L)
  have "iid_page_no i \<in> set L" if "(i, x) \<in> set (all_spots N L)" for i x
    using that by (auto simp: all_spots_def dest: spots_Iid)
  then show ?case using Cons by (auto simp: distinct_spots dest!: spots_Iid)
qed simp

text \<open>A scan that holds the leaf \<open>c\<close>, on the index \<open>s\<close>.\<close>

definition holding :: "int option \<Rightarrow> ix_index \<Rightarrow> ix_index" where
  "holding c s = s\<lparr>ix_pins := (case c of None \<Rightarrow> ix_pins s | Some q \<Rightarrow> add_mset q (ix_pins s))\<rparr>"

definition scan_at :: "Iid \<Rightarrow> Iid \<Rightarrow> int option \<Rightarrow> IxScan" where
  "scan_at i e c = \<lparr>scan_iid = i, scan_end = e, scan_cached = c\<rparr>"

lemma scan_at_simps [simp]:
  "scan_iid (scan_at i e c) = i" "scan_end (scan_at i e c) = e" "scan_cached (scan_at i e c) = c"
  "(scan_at i e c)\<lparr>scan_iid := j\<rparr> = scan_at j e c" "(scan_at i e c)\<lparr>scan_cached := d\<rparr> = scan_at i e d"
  "ix_scan_is_end (scan_at i e c) = (i = e)"
  by (simp_all add: scan_at_def ix_scan_is_end_def)

lemma holding_simps [simp]:
  "ix_nodes (holding c s) = ix_nodes s" "ix_hdr (holding c s) = ix_hdr s" "node (holding c s) p = node s p" "holding None s = s"
  "unpin_cached (scan_at i e c) (holding c s) = s"
  by (auto simp: holding_def unpin_cached_def unpin_def node_def split: option.split)

lemma fetch_holding: "p \<in> dom (ix_nodes s) \<Longrightarrow> fetch_node p s = Some (Inr (), holding (Some p) s)"
  by (auto simp: fetch_node_def holding_def)

lemma cached_leaf_ok:
  assumes "iid_page_no i = p" "p \<in> dom (ix_nodes s)"
  shows "cached_leaf (scan_at i e c) (holding c s) = Some (Inr (scan_at i e (Some p)), holding (Some p) s)"
proof (cases "c = Some p")
  case True
  then show ?thesis using assms(1) by (simp add: cached_leaf_def)
next
  case False
  have "(case c of None \<Rightarrow> holding c s | Some q \<Rightarrow> unpin q (holding c s)) = s" by (simp add: holding_def unpin_def split: option.split)
  then show ?thesis using False assms fetch_holding [OF assms(2)] by (simp add: cached_leaf_def)
qed

lemma ix_scan_rid_ok:
  assumes "i = \<lparr>iid_page_no = p, iid_slot_no = int k\<rparr>" "i \<noteq> e" "p \<in> dom (ix_nodes s)" "nd_leaf (node s p)" "k < length (ents (ix_nodes s) p)"
  shows "ix_scan_rid (scan_at i e c) (holding c s) = Some (Inr (snd (ents (ix_nodes s) p ! k), scan_at i e (Some p)), holding (Some p) s)"
  using assms cached_leaf_ok [of i p s e c] by (simp add: ix_scan_rid_def Let_def ix_get_rid_def)

lemma next_leaf_step_ok:
  assumes "iid_page_no i = p" "nd_next (node s p) = q"
    "q \<noteq> IX_NO_PAGE \<Longrightarrow> q \<noteq> IX_LEAF_HEADER_PAGE \<Longrightarrow> q \<in> dom (ix_nodes s)"
  shows "next_leaf_step (scan_at i e c) (holding c s) = Some (Inr
    (if q \<noteq> IX_NO_PAGE \<and> q \<noteq> IX_LEAF_HEADER_PAGE then scan_at \<lparr>iid_page_no = q, iid_slot_no = 0\<rparr> e (Some q) else scan_at e e None),
    (if q \<noteq> IX_NO_PAGE \<and> q \<noteq> IX_LEAF_HEADER_PAGE then holding (Some q) s else s))"
  using assms fetch_holding [of q s] by (simp add: next_leaf_step_def Let_def)

lemma ix_scan_next_ok:
  assumes i: "i = \<lparr>iid_page_no = p, iid_slot_no = int k\<rparr>" "i \<noteq> e" and p: "p \<in> dom (ix_nodes s)" "nd_leaf (node s p)" "k < length (ents (ix_nodes s) p)"
    and q: "nd_next (node s p) = q" "q \<noteq> IX_NO_PAGE \<Longrightarrow> q \<noteq> IX_LEAF_HEADER_PAGE \<Longrightarrow> q \<in> dom (ix_nodes s)"
  shows "ix_scan_next (scan_at i e c) (holding c s) =
    (if Suc k < length (ents (ix_nodes s) p) then Some (Inr (scan_at \<lparr>iid_page_no = p, iid_slot_no = int (Suc k)\<rparr> e (Some p)), holding (Some p) s)
     else Some (Inr
      (if q \<noteq> IX_NO_PAGE \<and> q \<noteq> IX_LEAF_HEADER_PAGE then scan_at \<lparr>iid_page_no = q, iid_slot_no = 0\<rparr> e (Some q) else scan_at e e None),
      (if q \<noteq> IX_NO_PAGE \<and> q \<noteq> IX_LEAF_HEADER_PAGE then holding (Some q) s else s)))"
proof -
  have k1: "int k + 1 = int (Suc k)" by simp
  have "(int (Suc k) = int (length (ents (ix_nodes s) p))) = (\<not> Suc k < length (ents (ix_nodes s) p))" using p(3) by auto
  then show ?thesis
    using i p cached_leaf_ok [of i p s e c] next_leaf_step_ok [of "\<lparr>iid_page_no = p, iid_slot_no = int (Suc k)\<rparr>" p s q e "Some p", OF _ q]
    by (simp add: ix_scan_next_def Let_def k1 del: of_nat_Suc)
qed


subsection \<open>What a scan returns\<close>

lemma linked_next:
  assumes "tree_ok s L Ls" "L = A @ p # B"
  shows "nd_next (node s p) = leaf_next B" "leaf_next B \<noteq> IX_NO_PAGE" "leaf_next B \<in> dom (ix_nodes s)"
    "leaf_next B = IX_LEAF_HEADER_PAGE \<longleftrightarrow> B = []"
proof -
  note T = tree_okD [OF assms(1)]
  have "linked (ix_nodes s) ((IX_LEAF_HEADER_PAGE # A) @ p # B @ [IX_LEAF_HEADER_PAGE])" using T(5) assms(2) by (simp add: leaves_ok_def)
  moreover have "B @ [IX_LEAF_HEADER_PAGE] = leaf_next B # tl (B @ [IX_LEAF_HEADER_PAGE])" by (simp add: leaf_next_def)
  ultimately have "linked (ix_nodes s) ((IX_LEAF_HEADER_PAGE # A) @ p # leaf_next B # tl (B @ [IX_LEAF_HEADER_PAGE]))" by simp
  from linked_nth [OF this] show "nd_next (node s p) = leaf_next B" by (simp add: node_def)
  have ge: "\<forall>q \<in> set L. 2 \<le> q" "IX_LEAF_HEADER_PAGE \<in> dom (ix_nodes s)" using T(4) by (auto simp: pages_ok_def)
  then show "leaf_next B \<in> dom (ix_nodes s)" using T(9) assms(2) by (cases B) (auto simp: leaf_next_def)
  show "leaf_next B \<noteq> IX_NO_PAGE" "leaf_next B = IX_LEAF_HEADER_PAGE \<longleftrightarrow> B = []"
    using ge(1) assms(2) by (cases B; auto simp: leaf_next_def ix_consts)+
qed

lemma ix_scan_loop_ok:
  assumes t: "tree_ok s L Ls" and sp: "L = A @ p # B" "ents (ix_nodes s) p = C @ D" "D \<noteq> []"
    and n: "length (spots p (length C) D @ all_spots (ix_nodes s) B) < n"
  shows "ix_scan_loop n (scan_at \<lparr>iid_page_no = p, iid_slot_no = int (length C)\<rparr> e c) (holding c s) =
    Some (Inr (map (\<lambda>x. snd (snd x)) (takeWhile (\<lambda>x. fst x \<noteq> e) (spots p (length C) D @ all_spots (ix_nodes s) B))), s)"
  using sp n
proof (induction n arbitrary: A p B C D c)
  case (Suc n)
  let ?N = "ix_nodes s" and ?i = "\<lparr>iid_page_no = p, iid_slot_no = int (length C)\<rparr>"
  note T = tree_okD [OF t]
  obtain x D' where D: "D = x # D'" using Suc.prems(3) by (cases D) auto
  show ?case
  proof (cases "?i = e")
    case True
    then show ?thesis using D by simp
  next
    case False
    have pd: "p \<in> dom ?N" "nd_leaf (node s p)" "length C < length (ents ?N p)" using T(9,12) Suc.prems(1,2) D by auto
    note ln = linked_next [OF t Suc.prems(1)]
    have rid: "ix_scan_rid (scan_at ?i e c) (holding c s) = Some (Inr (snd x, scan_at ?i e (Some p)), holding (Some p) s)"
      using ix_scan_rid_ok [OF refl False pd] Suc.prems(2) D by simp
    note nx = ix_scan_next_ok [OF refl False pd ln(1) ln(3), of "Some p"]
    have tail: "ix_scan_loop n sc s' = Some (Inr rs, s) \<Longrightarrow> ix_scan_next (scan_at ?i e (Some p)) (holding (Some p) s) = Some (Inr sc, s') \<Longrightarrow>
        ix_scan_loop (Suc n) (scan_at ?i e c) (holding c s) = Some (Inr (snd x # rs), s)" for sc s' rs
      using False rid by simp
    show ?thesis
    proof (cases D')
      case (Cons y D'')
      have "ix_scan_next (scan_at ?i e (Some p)) (holding (Some p) s) =
          Some (Inr (scan_at \<lparr>iid_page_no = p, iid_slot_no = int (length (C @ [x]))\<rparr> e (Some p)), holding (Some p) s)"
        using nx Suc.prems(2) D Cons by simp
      moreover have "ix_scan_loop n (scan_at \<lparr>iid_page_no = p, iid_slot_no = int (length (C @ [x]))\<rparr> e (Some p)) (holding (Some p) s) =
          Some (Inr (map (\<lambda>x. snd (snd x)) (takeWhile (\<lambda>x. fst x \<noteq> e) (spots p (length (C @ [x])) D' @ all_spots ?N B))), s)"
        by (rule Suc.IH [OF Suc.prems(1)]) (use Suc.prems(2,4) D Cons in simp_all)
      ultimately show ?thesis using tail False D by simp
    next
      case Nil
      then have last: "\<not> Suc (length C) < length (ents ?N p)" using Suc.prems(2) D by simp
      show ?thesis
      proof (cases B)
        case Nil
        have sn: "ix_scan_next (scan_at ?i e (Some p)) (holding (Some p) s) = Some (Inr (scan_at e e None), s)"
          using nx last ln(2,4) Nil by simp
        have "0 < n" using Suc.prems(4) D by simp
        then have "ix_scan_loop n (scan_at e e None) s = Some (Inr [], s)" by (cases n) (simp_all add: unpin_cached_def)
        then show ?thesis using tail [OF _ sn] False D \<open>D' = []\<close> Nil by simp
      next
        case (Cons q B')
        have q: "leaf_next B = q" using Cons by (simp add: leaf_next_def)
        have sn: "ix_scan_next (scan_at ?i e (Some p)) (holding (Some p) s) =
            Some (Inr (scan_at \<lparr>iid_page_no = q, iid_slot_no = int (length ([] :: entry list))\<rparr> e (Some q)), holding (Some q) s)"
          using nx last ln(2,4) Cons q by simp
        have "2 \<le> length L" using Suc.prems(1) Cons by simp
        then have ne: "ents ?N q \<noteq> []" using T(8) Suc.prems(1) Cons by (auto simp: nonempty_level_def)
        have "ix_scan_loop n (scan_at \<lparr>iid_page_no = q, iid_slot_no = int (length ([] :: entry list))\<rparr> e (Some q)) (holding (Some q) s) =
            Some (Inr (map (\<lambda>x. snd (snd x)) (takeWhile (\<lambda>x. fst x \<noteq> e) (spots q (length ([] :: entry list)) (ents ?N q) @ all_spots ?N B'))), s)"
          by (rule Suc.IH [of "A @ [p]"]) (use Suc.prems(1,4) D Cons ne in simp_all)
        then show ?thesis using tail [OF _ sn] False D \<open>D' = []\<close> Cons by simp
      qed
    qed
  qed
qed simp


subsection \<open>The positions of keys\<close>

text \<open>The position after all entries.\<close>

definition stop_iid :: "ix_index \<Rightarrow> int list \<Rightarrow> Iid" where
  "stop_iid s L = (if last L = ixh_last_leaf (ix_hdr s) then \<lparr>iid_page_no = last L, iid_slot_no = int (length (ents (ix_nodes s) (last L)))\<rparr>
     else \<lparr>iid_page_no = IX_LEAF_HEADER_PAGE, iid_slot_no = 0\<rparr>)"

definition spot_or_stop :: "ix_index \<Rightarrow> int list \<Rightarrow> (Iid \<times> entry) list \<Rightarrow> Iid" where
  "spot_or_stop s L Y = (case Y of [] \<Rightarrow> stop_iid s L | y # _ \<Rightarrow> fst y)"

lemma spots_page: "x \<in> set (all_spots N L) \<Longrightarrow> \<exists>p \<in> set L. iid_page_no (fst x) = p \<and> iid_slot_no (fst x) < int (length (ents N p))"
  using spots_Iid [of "fst x" "snd x"] by (fastforce simp: all_spots_def)

lemma stop_not_spot:
  assumes "tree_ok s L Ls"
  shows "stop_iid s L \<notin> fst ` set (all_spots (ix_nodes s) L)"
proof
  assume "stop_iid s L \<in> fst ` set (all_spots (ix_nodes s) L)"
  then obtain x where x: "x \<in> set (all_spots (ix_nodes s) L)" "fst x = stop_iid s L" by auto
  obtain p where p: "p \<in> set L" "iid_page_no (stop_iid s L) = p" "iid_slot_no (stop_iid s L) < int (length (ents (ix_nodes s) p))"
    using spots_page [OF x(1)] unfolding x(2) by blast
  have "2 \<le> p" using p(1) tree_okD(4) [OF assms] by (simp add: pages_ok_def)
  then show False using p(2,3) by (auto simp: stop_iid_def IX_LEAF_HEADER_PAGE_def split: if_splits)
qed

lemma position_spot:
  assumes t: "tree_ok s L Ls" and last: "ixh_last_leaf (ix_hdr s) \<notin> set (butlast L)" and L: "L = A @ p # B" "ents (ix_nodes s) p = C @ D"
  shows "position_iid (length C) p s = spot_or_stop s L (spots p (length C) D @ all_spots (ix_nodes s) B)"
proof (cases D)
  case (Cons x D')
  then show ?thesis using L(2) by (simp add: position_iid_def spot_or_stop_def Let_def)
next
  case Nil
  note T = tree_okD [OF t]
  note ln = linked_next [OF t L(1)]
  show ?thesis
  proof (cases B)
    case Nil
    then show ?thesis using \<open>D = []\<close> L ln by (auto simp: position_iid_def spot_or_stop_def stop_iid_def Let_def)
  next
    case (Cons q B')
    then have "p \<noteq> ixh_last_leaf (ix_hdr s)" using last L(1) by (auto simp: butlast_append)
    moreover obtain y ys where "ents (ix_nodes s) q = y # ys"
      using T(8) L(1) Cons by (cases "ents (ix_nodes s) q") (auto simp: nonempty_level_def)
    ultimately show ?thesis using \<open>D = []\<close> L ln(1) Cons by (simp add: position_iid_def spot_or_stop_def Let_def leaf_next_def)
  qed
qed

definition spots_from :: "ix_index \<Rightarrow> int list \<Rightarrow> (Iid \<times> entry) list \<Rightarrow> bool" where
  "spots_from s L Y \<longleftrightarrow> Y = [] \<or> (\<exists>A p B C D. L = A @ p # B \<and> ents (ix_nodes s) p = C @ D \<and> D \<noteq> [] \<and>
     Y = spots p (length C) D @ all_spots (ix_nodes s) B)"

lemma position_split:
  assumes t: "tree_ok s L Ls" and last: "ixh_last_leaf (ix_hdr s) \<notin> set (butlast L)" and L: "L = A @ p # B" "ents (ix_nodes s) p = C @ D"
  obtains X Y where "all_spots (ix_nodes s) L = X @ Y" "map snd X = row (ix_nodes s) A @ C" "map snd Y = D @ row (ix_nodes s) B"
    "position_iid (length C) p (s\<lparr>ix_pins := P\<rparr>) = spot_or_stop s L Y"
    "spots_from s L Y"
proof -
  let ?N = "ix_nodes s" and ?X = "all_spots (ix_nodes s) A @ spots p 0 C" and ?Y = "spots p (length C) D @ all_spots (ix_nodes s) B"
  have sp: "all_spots ?N L = ?X @ ?Y" using L by (simp add: spots_append)
  have ne: "spots_from s L ?Y"
  proof (cases D)
    case Nil
    show ?thesis
    proof (cases B)
      case (Cons q B')
      then have "ents ?N q \<noteq> []" using tree_okD(8) [OF t] L(1) by (auto simp: nonempty_level_def)
      then show ?thesis unfolding spots_from_def using L(1) Cons Nil
        by (intro disjI2 exI [of _ "A @ [p]"] exI [of _ q] exI [of _ B'] exI [of _ "[]"] exI [of _ "ents ?N q"]) simp
    qed (use Nil in \<open>simp add: spots_from_def\<close>)
  next
    case (Cons d D')
    then show ?thesis unfolding spots_from_def using L by blast
  qed
  have "position_iid (length C) p (s\<lparr>ix_pins := P\<rparr>) = position_iid (length C) p s" by (simp add: position_iid_def Let_def)
  then show ?thesis using position_spot [OF t last L] by (intro that [OF sp _ _ _ ne]) simp_all
qed

lemma index_lower_bound_ok:
  assumes t: "tree_ok s L Ls" and last: "ixh_last_leaf (ix_hdr s) \<notin> set (butlast L)" and x: "good_key (ix_hdr s) x"
  obtains X Y where "all_spots (ix_nodes s) L = X @ Y" "index_lower_bound x s = Some (Inr (spot_or_stop s L Y), s)"
    "\<forall>e \<in> set (map snd X). rank_of (ix_hdr s) (fst e) < rank_of (ix_hdr s) x" "\<forall>e \<in> set (map snd Y). rank_of (ix_hdr s) x \<le> rank_of (ix_hdr s) (fst e)"
    "spots_from s L Y"
proof -
  let ?N = "ix_nodes s" and ?h = "ix_hdr s"
  note T = tree_okD [OF t]
  obtain p where p: "p \<in> set L" "right_page ?h ?N x L p" "find_leaf_page x False s = Some (Inr p, s\<lparr>ix_pins := add_mset p (ix_pins s)\<rparr>)"
    by (rule find_leaf_ok [OF t x])
  obtain A B where ab: "L = A @ p # B" "row ?N L = row ?N A @ ents ?N p @ row ?N B"
    "\<forall>e \<in> set (row ?N A). rank_of ?h (fst e) < rank_of ?h x" "\<forall>e \<in> set (row ?N B). rank_of ?h x < rank_of ?h (fst e)"
    by (rule right_page_split [OF p(2) T(7)])
  have g: "good_entries ?h (nd_entries (node s p))" using good_entries_member [OF T(7) p(1)] by simp
  obtain C D where cd: "nd_entries (node s p) = C @ D" "lower_bound ?h x (node s p) = length C"
    "\<forall>e \<in> set C. rank_of ?h (fst e) < rank_of ?h x" "\<forall>e \<in> set D. rank_of ?h x \<le> rank_of ?h (fst e)" by (rule lower_split [OF g x])
  have e: "ents ?N p = C @ D" using cd(1) by simp
  obtain X Y where xy: "all_spots ?N L = X @ Y" "map snd X = row ?N A @ C" "map snd Y = D @ row ?N B"
    "position_iid (length C) p (s\<lparr>ix_pins := add_mset p (ix_pins s)\<rparr>) = spot_or_stop s L Y"
    "spots_from s L Y"
    by (rule position_split [OF t last ab(1) e])
  have "index_lower_bound x s = Some (Inr (spot_or_stop s L Y), s)"
    unfolding index_lower_bound_def p(3) run_bind_simps using xy(4) cd(2) by (simp add: unpin_def)
  moreover have "\<forall>e \<in> set (map snd X). rank_of ?h (fst e) < rank_of ?h x" unfolding xy(2) using ab(3) cd(3) by auto
  moreover have "\<forall>e \<in> set (map snd Y). rank_of ?h x \<le> rank_of ?h (fst e)" unfolding xy(3) using ab(4) cd(4) by (auto intro: less_imp_le)
  ultimately show ?thesis using that [OF xy(1)] xy(5) by blast
qed

lemma index_upper_bound_ok:
  assumes t: "tree_ok s L Ls" and last: "ixh_last_leaf (ix_hdr s) \<notin> set (butlast L)" and x: "good_key (ix_hdr s) x"
  obtains X Y where "all_spots (ix_nodes s) L = X @ Y" "index_upper_bound x s = Some (Inr (spot_or_stop s L Y), s)"
    "\<forall>e \<in> set (map snd X). rank_of (ix_hdr s) (fst e) \<le> rank_of (ix_hdr s) x" "\<forall>e \<in> set (map snd Y). rank_of (ix_hdr s) x < rank_of (ix_hdr s) (fst e)"
proof -
  let ?N = "ix_nodes s" and ?h = "ix_hdr s"
  note T = tree_okD [OF t]
  obtain p where p: "p \<in> set L" "right_page ?h ?N x L p" "find_leaf_page x False s = Some (Inr p, s\<lparr>ix_pins := add_mset p (ix_pins s)\<rparr>)"
    by (rule find_leaf_ok [OF t x])
  obtain A B where ab: "L = A @ p # B" "row ?N L = row ?N A @ ents ?N p @ row ?N B"
    "\<forall>e \<in> set (row ?N A). rank_of ?h (fst e) < rank_of ?h x" "\<forall>e \<in> set (row ?N B). rank_of ?h x < rank_of ?h (fst e)"
    by (rule right_page_split [OF p(2) T(7)])
  have g: "good_entries ?h (nd_entries (node s p))" using good_entries_member [OF T(7) p(1)] by simp
  obtain C D where cd: "nd_entries (node s p) = C @ D" "upper_bound ?h x (node s p) = length C"
    "\<forall>e \<in> set C. rank_of ?h (fst e) \<le> rank_of ?h x" "\<forall>e \<in> set D. rank_of ?h x < rank_of ?h (fst e)" by (rule upper_split [OF g x])
  have e: "ents ?N p = C @ D" using cd(1) by simp
  obtain X Y where xy: "all_spots ?N L = X @ Y" "map snd X = row ?N A @ C" "map snd Y = D @ row ?N B"
    "position_iid (length C) p (s\<lparr>ix_pins := add_mset p (ix_pins s)\<rparr>) = spot_or_stop s L Y"
    by (rule position_split [OF t last ab(1) e])
  have "index_upper_bound x s = Some (Inr (spot_or_stop s L Y), s)"
    unfolding index_upper_bound_def p(3) run_bind_simps using xy(4) cd(2) by (simp add: unpin_def)
  moreover have "\<forall>e \<in> set (map snd X). rank_of ?h (fst e) \<le> rank_of ?h x" unfolding xy(2) using ab(3) cd(3) by (auto intro: less_imp_le)
  moreover have "\<forall>e \<in> set (map snd Y). rank_of ?h x < rank_of ?h (fst e)" unfolding xy(3) using ab(4) cd(4) by auto
  ultimately show ?thesis using that [OF xy(1)] by blast
qed

text \<open>The part of the spots between two positions, by the keys.\<close>

lemma scan_between:
  assumes t: "tree_ok s L Ls" and sp: "all_spots (ix_nodes s) L = X @ Y"
    and Y: "spots_from s L Y"
    and n: "length (row (ix_nodes s) L) < n" and e: "Y = [] \<Longrightarrow> e = stop_iid s L"
  shows "ix_scan_loop n (new_ix_scan (spot_or_stop s L Y) e) s = Some (Inr (map (\<lambda>x. snd (snd x)) (takeWhile (\<lambda>x. fst x \<noteq> e) Y)), s)"
proof (cases "Y = []")
  case True
  then show ?thesis using e n by (cases n) (simp_all add: new_ix_scan_def spot_or_stop_def ix_scan_is_end_def unpin_cached_def)
next
  case False
  obtain A p B C D where d: "L = A @ p # B" "ents (ix_nodes s) p = C @ D" "D \<noteq> []" "Y = spots p (length C) D @ all_spots (ix_nodes s) B"
    using Y False unfolding spots_from_def by blast
  have "length Y \<le> length (row (ix_nodes s) L)" using sp by (metis length_append length_map map_snd_all_spots le_add2)
  then have n': "length (spots p (length C) D @ all_spots (ix_nodes s) B) < n" using n d(4) by simp
  have "new_ix_scan (spot_or_stop s L Y) e = scan_at \<lparr>iid_page_no = p, iid_slot_no = int (length C)\<rparr> e None"
    using d(3,4) by (cases D) (simp_all add: new_ix_scan_def spot_or_stop_def scan_at_def)
  then show ?thesis using ix_scan_loop_ok [OF t d(1-3) n', of e None] d(4) by simp
qed

lemma takeWhile_to:
  assumes "distinct (map fst (X @ M @ Z))" "e = (case Z of [] \<Rightarrow> e | z # _ \<Rightarrow> fst z)" "Z = [] \<Longrightarrow> e \<notin> fst ` set M"
  shows "takeWhile (\<lambda>x. fst x \<noteq> e) (M @ Z) = M"
proof -
  have "e \<notin> fst ` set M"
  proof (cases Z)
    case (Cons z Z')
    then have "e = fst z" using assms(2) by simp
    then show ?thesis using assms(1) Cons by simp
  qed (use assms(3) in simp)
  then have "takeWhile (\<lambda>x. fst x \<noteq> e) (M @ Z) = M @ takeWhile (\<lambda>x. fst x \<noteq> e) Z" by (intro takeWhile_append2) blast
  then show ?thesis using assms(2) by (cases Z) simp_all
qed

lemma common_part:
  assumes "X @ Y = V @ Z" "\<And>u. \<not> (u \<in> set X \<and> u \<in> set Z)"
  shows "\<exists>M. Y = M @ Z \<and> V = X @ M"
proof -
  from assms(1) obtain U where "X = V @ U \<and> U @ Y = Z \<or> X @ U = V \<and> Y = U @ Z" unfolding append_eq_append_conv2 by blast
  then show ?thesis
  proof
    assume u: "X = V @ U \<and> U @ Y = Z"
    then have "\<And>z. z \<in> set U \<Longrightarrow> z \<in> set X \<and> z \<in> set Z" by auto
    then have "U = []" using assms(2) by (cases U) auto
    then show ?thesis using u by simp
  qed blast
qed

lemma scan_range_ok:
  assumes "tree_ok s L Ls" "ixh_last_leaf (ix_hdr s) \<notin> set (butlast L)" "good_key (ix_hdr s) x" "good_key (ix_hdr s) y"
    "rank_of (ix_hdr s) x \<le> rank_of (ix_hdr s) y" "length (row (ix_nodes s) L) < n"
  shows "\<exists>lower upper. index_lower_bound x s = Some (Inr lower, s) \<and> index_upper_bound y s = Some (Inr upper, s) \<and>
    ix_scan_loop n (new_ix_scan lower upper) s = Some (Inr (map snd (filter
      (\<lambda>e. rank_of (ix_hdr s) x \<le> rank_of (ix_hdr s) (fst e) \<and> rank_of (ix_hdr s) (fst e) \<le> rank_of (ix_hdr s) y) (row (ix_nodes s) L))), s)"
proof -
  let ?N = "ix_nodes s" and ?r = "\<lambda>e. rank_of (ix_hdr s) (fst e)" and ?x = "rank_of (ix_hdr s) x" and ?y = "rank_of (ix_hdr s) y"
  obtain X Y where lo: "all_spots ?N L = X @ Y" "index_lower_bound x s = Some (Inr (spot_or_stop s L Y), s)"
    "\<forall>e \<in> set (map snd X). ?r e < ?x" "\<forall>e \<in> set (map snd Y). ?x \<le> ?r e"
    "spots_from s L Y"
    by (rule index_lower_bound_ok [OF assms(1-3)])
  obtain V Z where up: "all_spots ?N L = V @ Z" "index_upper_bound y s = Some (Inr (spot_or_stop s L Z), s)"
    "\<forall>e \<in> set (map snd V). ?r e \<le> ?y" "\<forall>e \<in> set (map snd Z). ?y < ?r e"
    by (rule index_upper_bound_ok [OF assms(1,2,4)])
  have "\<exists>M. Y = M @ Z \<and> V = X @ M"
  proof (rule common_part)
    show "X @ Y = V @ Z" using lo(1) up(1) by simp
    show "\<not> (u \<in> set X \<and> u \<in> set Z)" for u using lo(3) up(4) assms(5) by fastforce
  qed
  then obtain M where M: "Y = M @ Z" "V = X @ M" by blast
  define e where "e = spot_or_stop s L Z"
  have dist: "distinct (map fst (X @ M @ Z))" using distinct_all_spots [OF tree_okD(10) [OF assms(1)], of ?N] lo(1) M(1) by simp
  have stop: "stop_iid s L \<notin> fst ` set M" using stop_not_spot [OF assms(1)] unfolding lo(1) M(1) by auto
  have tw: "takeWhile (\<lambda>x. fst x \<noteq> e) Y = M" unfolding M(1)
    by (rule takeWhile_to [OF dist]) (use stop in \<open>auto simp: e_def spot_or_stop_def split: list.split\<close>)
  have scan: "ix_scan_loop n (new_ix_scan (spot_or_stop s L Y) e) s = Some (Inr (map (\<lambda>x. snd (snd x)) M), s)"
    using scan_between [OF assms(1) lo(1) lo(5) assms(6), of e] M(1) tw by (simp add: e_def spot_or_stop_def)
  have row: "row ?N L = map snd X @ map snd M @ map snd Z" using arg_cong [OF lo(1), of "map snd"] M(1) by simp
  have "filter (\<lambda>e. ?x \<le> ?r e \<and> ?r e \<le> ?y) (map snd X) = []" "filter (\<lambda>e. ?x \<le> ?r e \<and> ?r e \<le> ?y) (map snd Z) = []"
    "filter (\<lambda>e. ?x \<le> ?r e \<and> ?r e \<le> ?y) (map snd M) = map snd M"
    using lo(3,4) up(3,4) M unfolding filter_empty_conv filter_id_conv by (auto simp: not_le)
  then have "map snd (filter (\<lambda>e. ?x \<le> ?r e \<and> ?r e \<le> ?y) (row ?N L)) = map (\<lambda>x. snd (snd x)) M" unfolding row by simp
  then show ?thesis using lo(2) up(2) scan unfolding e_def by auto
qed

text \<open>C18: A scan from the lower bound of one key to the upper bound of another, the first not above the second, returns the record
  ids of exactly the entries whose keys are between them, both included, in the order of the keys, and leaves no leaf pinned. The
  fuel is any number above that of the entries. The recorded last leaf may be missing (as it is once the index was empty) but must
  not be an inner leaf.\<close>

theorem range_scan:
  assumes "tree_ok s L Ls" "ixh_last_leaf (ix_hdr s) \<notin> set (butlast L)" "good_key (ix_hdr s) x" "good_key (ix_hdr s) y"
    "rank_of (ix_hdr s) x \<le> rank_of (ix_hdr s) y" "length (row (ix_nodes s) L) < n"
  shows "\<exists>lower upper. index_lower_bound x s = Some (Inr lower, s) \<and> index_upper_bound y s = Some (Inr upper, s) \<and>
    ix_scan_loop n (new_ix_scan lower upper) s = Some (Inr (map snd (filter
      (\<lambda>e. rank_of (ix_hdr s) x \<le> rank_of (ix_hdr s) (fst e) \<and> rank_of (ix_hdr s) (fst e) \<le> rank_of (ix_hdr s) y) (row (ix_nodes s) L))), s)"
  by (rule scan_range_ok [OF assms])


text \<open>A leaf with three keys.\<close>

definition three_keys :: ix_index where
  "three_keys = small_index\<lparr>ix_nodes := (ix_nodes small_index)(IX_INIT_ROOT_PAGE \<mapsto> (node small_index IX_INIT_ROOT_PAGE)\<lparr>nd_entries :=
     [([3, 0, 0, 0], \<lparr>rid_page_no = 1, rid_slot_no = 0\<rparr>), ([5, 0, 0, 0], \<lparr>rid_page_no = 1, rid_slot_no = 1\<rparr>),
      ([8, 0, 0, 0], \<lparr>rid_page_no = 2, rid_slot_no = 0\<rparr>)]\<rparr>)\<rparr>"

lemma small_ranks: "key_rank [TYPE_INT] [4] [3, 0, 0, 0] = [3]" "key_rank [TYPE_INT] [4] [5, 0, 0, 0] = [5]" "key_rank [TYPE_INT] [4] [8, 0, 0, 0] = [8]"
  "key_rank [TYPE_INT] [4] [9, 0, 0, 0] = [9]"
  by (simp_all add: col_rank_def read_i32_def dec_i32_def read_bytes_def)

lemma three_keys_ok:
  "tree_ok three_keys [IX_INIT_ROOT_PAGE] []" "ixh_col_types (ix_hdr three_keys) = [TYPE_INT]" "ixh_col_lens (ix_hdr three_keys) = [4]"
  "row (ix_nodes three_keys) [IX_INIT_ROOT_PAGE] = [([3, 0, 0, 0], \<lparr>rid_page_no = 1, rid_slot_no = 0\<rparr>),
     ([5, 0, 0, 0], \<lparr>rid_page_no = 1, rid_slot_no = 1\<rparr>), ([8, 0, 0, 0], \<lparr>rid_page_no = 2, rid_slot_no = 0\<rparr>)]"
proof -
  let ?es = "[([3, 0, 0, 0], \<lparr>rid_page_no = 1, rid_slot_no = 0\<rparr>), ([5, 0, 0, 0], \<lparr>rid_page_no = 1, rid_slot_no = 1\<rparr>), ([8, 0, 0, 0], \<lparr>rid_page_no = 2, rid_slot_no = 0\<rparr>)]"
  have h: "ix_hdr three_keys = (new_index_hdr [(TYPE_INT, 4)])\<lparr>ixh_btree_order := 3\<rparr>" by (simp add: three_keys_def small_index_def)
  show c: "ixh_col_types (ix_hdr three_keys) = [TYPE_INT]" "ixh_col_lens (ix_hdr three_keys) = [4]"
    by (simp_all add: h new_index_hdr_def update_tot_len_def Let_def)
  have e: "ents (ix_nodes three_keys) IX_INIT_ROOT_PAGE = ?es" by (simp add: three_keys_def)
  then show "row (ix_nodes three_keys) [IX_INIT_ROOT_PAGE] = ?es" by simp
  have "good_entries (ix_hdr three_keys) ?es" unfolding good_entries_def c by (simp add: small_ranks del: key_rank.simps)
  moreover have "hdr_cfg_ok (ix_hdr three_keys)" "ixh_root_page (ix_hdr three_keys) = IX_INIT_ROOT_PAGE" "ixh_btree_order (ix_hdr three_keys) = 3"
    by (simp_all add: h hdr_cfg_ok_def new_index_hdr_def update_tot_len_def Let_def)
  ultimately show "tree_ok three_keys [IX_INIT_ROOT_PAGE] []" unfolding tree_ok_def level_ok_def pages_ok_def leaves_ok_def
    using e by (simp add: root_of_def) (auto simp: three_keys_def small_index_def node_def IX_INIT_ROOT_PAGE_def IX_LEAF_HEADER_PAGE_def par_def)
qed

theorem range_scan_witness:
  "\<exists>lower upper. index_lower_bound [5, 0, 0, 0] three_keys = Some (Inr lower, three_keys) \<and>
     index_upper_bound [8, 0, 0, 0] three_keys = Some (Inr upper, three_keys) \<and>
     ix_scan_loop 9 (new_ix_scan lower upper) three_keys =
       Some (Inr [\<lparr>rid_page_no = 1, rid_slot_no = 1\<rparr>, \<lparr>rid_page_no = 2, rid_slot_no = 0\<rparr>], three_keys)"
  using range_scan [OF three_keys_ok(1), of "[5, 0, 0, 0]" "[8, 0, 0, 0]" 9]
  unfolding three_keys_ok(2-4) by (simp add: small_ranks del: key_rank.simps row_simps)

text \<open>When the first key is above the second, the scan does not meet its end and returns every entry from the first key on.\<close>

lemma inverted_range_scan:
  assumes "tree_ok s L Ls" "ixh_last_leaf (ix_hdr s) \<notin> set (butlast L)" "good_key (ix_hdr s) x" "good_key (ix_hdr s) y"
    "rank_of (ix_hdr s) y < rank_of (ix_hdr s) x" "\<exists>e \<in> set (row (ix_nodes s) L). rank_of (ix_hdr s) y < rank_of (ix_hdr s) (fst e) \<and> rank_of (ix_hdr s) (fst e) < rank_of (ix_hdr s) x"
    "\<exists>e \<in> set (row (ix_nodes s) L). rank_of (ix_hdr s) x \<le> rank_of (ix_hdr s) (fst e)" "length (row (ix_nodes s) L) < n"
  shows "\<exists>lower upper. index_lower_bound x s = Some (Inr lower, s) \<and> index_upper_bound y s = Some (Inr upper, s) \<and>
    ix_scan_loop n (new_ix_scan lower upper) s =
      Some (Inr (map snd (filter (\<lambda>e. rank_of (ix_hdr s) x \<le> rank_of (ix_hdr s) (fst e)) (row (ix_nodes s) L))), s)"
proof -
  let ?N = "ix_nodes s" and ?r = "\<lambda>e. rank_of (ix_hdr s) (fst e)" and ?x = "rank_of (ix_hdr s) x" and ?y = "rank_of (ix_hdr s) y"
  obtain X Y where lo: "all_spots ?N L = X @ Y" "index_lower_bound x s = Some (Inr (spot_or_stop s L Y), s)"
    "\<forall>e \<in> set (map snd X). ?r e < ?x" "\<forall>e \<in> set (map snd Y). ?x \<le> ?r e" "spots_from s L Y"
    by (rule index_lower_bound_ok [OF assms(1-3)])
  obtain V Z where up: "all_spots ?N L = V @ Z" "index_upper_bound y s = Some (Inr (spot_or_stop s L Z), s)"
    "\<forall>e \<in> set (map snd V). ?r e \<le> ?y" "\<forall>e \<in> set (map snd Z). ?y < ?r e"
    by (rule index_upper_bound_ok [OF assms(1,2,4)])
  have row: "row ?N L = map snd X @ map snd Y" "row ?N L = map snd V @ map snd Z"
    using arg_cong [OF lo(1), of "map snd"] arg_cong [OF up(1), of "map snd"] by simp_all
  have "\<exists>M. X = V @ M \<and> Z = M @ Y"
    using common_part [of V Z X Y] lo(1,4) up(1,3) assms(5) by fastforce
  then obtain M where M: "X = V @ M" "Z = M @ Y" by blast
  obtain e0 where e0: "e0 \<in> set (row ?N L)" "?y < ?r e0" "?r e0 < ?x" using assms(6) by blast
  have "M \<noteq> []" using e0 lo(4) up(3) M unfolding row(1) by (auto simp: not_le not_less)
  then obtain u M' where u: "M = u # M'" by (cases M) auto
  have "Y \<noteq> []" using assms(7) lo(3) unfolding row(1) by fastforce
  have dist: "distinct (map fst (X @ Y))" using distinct_all_spots [OF tree_okD(10) [OF assms(1)], of ?N] lo(1) by simp
  have "fst u \<notin> fst ` set Y" using dist u M(1) by auto
  then have "\<forall>z \<in> set Y. fst z \<noteq> fst u" by (metis image_eqI)
  then have tw: "takeWhile (\<lambda>x. fst x \<noteq> fst u) Y = Y" by (simp only: takeWhile_eq_all_conv)
  have sp: "spot_or_stop s L Z = fst u" using M(2) u by (simp add: spot_or_stop_def)
  have "ix_scan_loop n (new_ix_scan (spot_or_stop s L Y) (fst u)) s = Some (Inr (map (\<lambda>x. snd (snd x)) Y), s)"
    using scan_between [OF assms(1) lo(1,5) assms(8), of "fst u"] \<open>Y \<noteq> []\<close> tw by simp
  moreover have "filter (\<lambda>e. ?x \<le> ?r e) (row ?N L) = map snd Y"
  proof -
    have "filter (\<lambda>e. ?x \<le> ?r e) (map snd X) = []" "filter (\<lambda>e. ?x \<le> ?r e) (map snd Y) = map snd Y"
      using lo(3,4) unfolding filter_empty_conv filter_id_conv by (auto simp: not_le)
    then show ?thesis unfolding row(1) by simp
  qed
  ultimately show ?thesis using lo(2) up(2) sp by (intro exI conjI) (simp_all add: comp_def)
qed

end
