(* ===== verification/Exec_Index_Scan.thy ===== *)
theory Exec_Index_Scan
  imports Exec_Source Ix_Scan
begin

text \<open>
  The index scan executor (\<^verbatim>\<open>src/src/execution/executor_index_scan.h\<close>): the conditions on the columns of the index become
  two keys, the rows between the bounds of the keys are read, and the conditions the keys stand for are dropped
  from the filter.

  Shown: the keys and the remaining filter together select exactly the rows that satisfy all conditions, for the
  conditions where this holds; and, by examples, the conditions where it does not.
\<close>

subsection \<open>Conditions of the scan\<close>

definition get_swapped_operator :: "CompOp \<Rightarrow> CompOp" where
  "get_swapped_operator op =
     (case op of OP_EQ \<Rightarrow> OP_EQ | OP_NE \<Rightarrow> OP_NE | OP_LT \<Rightarrow> OP_GT | OP_GT \<Rightarrow> OP_LT | OP_LE \<Rightarrow> OP_GE | OP_GE \<Rightarrow> OP_LE)"

definition swap_cond :: "string \<Rightarrow> Condition \<Rightarrow> db_error + Condition" where
  "swap_cond tab c =
     (if tc_tab_name (lhs_col c) = tab then Inr c
      else if \<not> is_rhs_val c \<and> tc_tab_name (rhs_col c) = tab
      then Inr (c\<lparr>lhs_col := rhs_col c, rhs_col := lhs_col c, cond_op := get_swapped_operator (cond_op c)\<rparr>)
      else Inl AssertionFailure)"

fun swap_conds :: "string \<Rightarrow> Condition list \<Rightarrow> db_error + Condition list" where
  "swap_conds tab [] = Inr []"
| "swap_conds tab (c # cs) =
     (case swap_cond tab c of
        Inl e \<Rightarrow> Inl e
      | Inr c' \<Rightarrow> (case swap_conds tab cs of Inl e \<Rightarrow> Inl e | Inr cs' \<Rightarrow> Inr (c' # cs')))"

definition on_column :: "string \<Rightarrow> Condition \<Rightarrow> bool" where
  "on_column n c \<longleftrightarrow> tc_col_name (lhs_col c) = n \<and> is_rhs_val c"

definition index_optimized_conditions :: "string list \<Rightarrow> Condition list \<Rightarrow> Condition list" where
  "index_optimized_conditions names conds = concat (map (\<lambda>n. filter (on_column n) conds) names)"

subsection \<open>The keys of the range\<close>

definition min_bytes :: "ColMeta \<Rightarrow> bytes" where
  "min_bytes c = (case col_type c of TYPE_INT \<Rightarrow> enc_i32 (- (2 ^ 31)) | TYPE_FLOAT \<Rightarrow> f32_min | TYPE_STRING \<Rightarrow> replicate (col_len c) 0)"

definition max_bytes :: "ColMeta \<Rightarrow> bytes" where
  "max_bytes c = (case col_type c of TYPE_INT \<Rightarrow> enc_i32 INT32_MAX | TYPE_FLOAT \<Rightarrow> f32_max | TYPE_STRING \<Rightarrow> replicate (col_len c) 255)"

fun set_remaining :: "(ColMeta \<Rightarrow> bytes) \<Rightarrow> nat \<Rightarrow> ColMeta list \<Rightarrow> bytes \<Rightarrow> bytes checked" where
  "set_remaining f off [] key = Some (Inr key)"
| "set_remaining f off (c # cs) key = chk (store off (f c) key) (\<lambda>key. set_remaining f (off + col_len c) cs key)"

definition set_remaining_all_min :: "nat \<Rightarrow> ColMeta list \<Rightarrow> bytes \<Rightarrow> bytes checked" where
  "set_remaining_all_min = set_remaining min_bytes"

definition set_remaining_all_max :: "nat \<Rightarrow> ColMeta list \<Rightarrow> bytes \<Rightarrow> bytes checked" where
  "set_remaining_all_max = set_remaining max_bytes"

text \<open>A string operand is padded with spaces.\<close>

definition copy_string_key :: "nat \<Rightarrow> bytes \<Rightarrow> bytes" where
  "copy_string_key len src = (let s = c_str (take len src) in s @ replicate (len - length s) 32)"

definition operand_bytes :: "ColMeta \<Rightarrow> Condition \<Rightarrow> bytes checked" where
  "operand_bytes col c =
     chk (raw_of (rhs_val c)) (\<lambda>raw. chk (load 0 (col_len col) raw) (\<lambda>bs.
       Some (Inr (if col_type col = TYPE_STRING then copy_string_key (col_len col) bs else bs))))"

text \<open>The operand of a strict condition: the next integer up or down, without overflow.\<close>

definition shifted_bytes :: "int \<Rightarrow> ColMeta \<Rightarrow> Condition \<Rightarrow> bytes checked" where
  "shifted_bytes d col c =
     (if col_type col = TYPE_INT
      then chk (operand_bytes col c) (\<lambda>bs. Some (Inr (let v = dec_i32 bs in enc_i32 (if int32 (v + d) then v + d else v))))
      else operand_bytes col c)"

text \<open>The last condition with an operator on a column.\<close>

definition pick :: "CompOp \<Rightarrow> string \<Rightarrow> Condition list \<Rightarrow> Condition option" where
  "pick op n conds = List.find (\<lambda>c. on_column n c \<and> cond_op c = op) (rev conds)"

definition lower_of :: "Condition list \<Rightarrow> string \<Rightarrow> ColMeta \<Rightarrow> bytes option checked" where
  "lower_of conds n col =
     (case pick OP_EQ n conds of
        Some c \<Rightarrow> chk (operand_bytes col c) (\<lambda>b. Some (Inr (Some b)))
      | None \<Rightarrow> (case pick OP_GE n conds of
          Some c \<Rightarrow> chk (operand_bytes col c) (\<lambda>b. Some (Inr (Some b)))
        | None \<Rightarrow> (case pick OP_GT n conds of
            Some c \<Rightarrow> chk (shifted_bytes 1 col c) (\<lambda>b. Some (Inr (Some b)))
          | None \<Rightarrow> Some (Inr None))))"

definition upper_of :: "Condition list \<Rightarrow> string \<Rightarrow> ColMeta \<Rightarrow> bytes option checked" where
  "upper_of conds n col =
     (case pick OP_EQ n conds of
        Some c \<Rightarrow> chk (operand_bytes col c) (\<lambda>b. Some (Inr (Some b)))
      | None \<Rightarrow> (case pick OP_LE n conds of
          Some c \<Rightarrow> chk (operand_bytes col c) (\<lambda>b. Some (Inr (Some b)))
        | None \<Rightarrow> (case pick OP_LT n conds of
            Some c \<Rightarrow> chk (shifted_bytes (-1) col c) (\<lambda>b. Some (Inr (Some b)))
          | None \<Rightarrow> Some (Inr None))))"

definition store_opt :: "nat \<Rightarrow> bytes option \<Rightarrow> bytes \<Rightarrow> bytes checked" where
  "store_opt off b key = (case b of None \<Rightarrow> Some (Inr key) | Some bs \<Rightarrow> store off bs key)"

text \<open>The loop over the columns of the index. The two branches of the source, with and without an equality prefix, write the
  same bytes for an equality; a column without any bound ends the loop.\<close>

fun range_keys :: "Condition list \<Rightarrow> string list \<Rightarrow> ColMeta list \<Rightarrow> nat \<Rightarrow> bytes \<Rightarrow> bytes \<Rightarrow> (bytes \<times> bytes) checked" where
  "range_keys conds [] cols off lo hi = Some (Inr (lo, hi))"
| "range_keys conds (n # ns) [] off lo hi = None"
| "range_keys conds (n # ns) (col # cols) off lo hi =
     chk (lower_of conds n col) (\<lambda>l. chk (upper_of conds n col) (\<lambda>u.
     chk (store_opt off l lo) (\<lambda>lo. chk (store_opt off u hi) (\<lambda>hi.
       if l = None \<and> u = None
       then chk (set_remaining_all_min (off + col_len col) cols lo) (\<lambda>lo.
            chk (set_remaining_all_max (off + col_len col) cols hi) (\<lambda>hi. Some (Inr (lo, hi))))
       else range_keys conds ns cols (off + col_len col) lo hi))))"

definition scan_keys :: "Condition list \<Rightarrow> string list \<Rightarrow> IndexMeta \<Rightarrow> (bytes \<times> bytes) checked" where
  "scan_keys conds names im =
     (let buf = replicate (im_col_tot_len im) 0
      in chk (set_remaining_all_min 0 (im_cols im) buf) (\<lambda>lo. chk (set_remaining_all_max 0 (im_cols im) buf) (\<lambda>hi.
           range_keys conds names (im_cols im) 0 lo hi)))"

text \<open>The columns whose conditions the keys are taken to cover: those with an equality, then one with any other condition.\<close>

fun covered_cols :: "Condition list \<Rightarrow> string list \<Rightarrow> string list" where
  "covered_cols conds [] = []"
| "covered_cols conds (n # ns) =
     (let cs = filter (on_column n) conds
      in if \<exists>c \<in> set cs. cond_op c = OP_EQ then n # covered_cols conds ns
         else if cs \<noteq> [] then [n] else [])"

text \<open>The key of a row: the columns of the index copied one after another.\<close>

definition row_key :: "IndexMeta \<Rightarrow> bytes \<Rightarrow> bytes" where
  "row_key im r = concat (map (\<lambda>c. read_bytes (col_offset c) (col_len c) r) (take (im_col_num im) (im_cols im)))"

definition fed_conds :: "Condition list \<Rightarrow> Condition list \<Rightarrow> string list \<Rightarrow> Condition list" where
  "fed_conds conds raw_conds names =
     filter (\<lambda>c. \<not> (is_rhs_val c \<and> tc_col_name (lhs_col c) \<in> set (covered_cols conds names))) raw_conds"

subsection \<open>The keys, column by column\<close>

definition col_shape :: "ColMeta \<Rightarrow> bool" where
  "col_shape c \<longleftrightarrow> (col_type c \<noteq> TYPE_STRING \<longrightarrow> col_len c = 4)"

text \<open>A literal that fills its column: a string as long as the column, so that nothing is padded.\<close>

definition full_literal :: "ColMeta \<Rightarrow> Condition \<Rightarrow> bool" where
  "full_literal col c \<longleftrightarrow> literal_ok col (rhs_val c) \<and> (col_type col = TYPE_STRING \<longrightarrow> length (v_str (rhs_val c)) = col_len col)"

definition raw_bytes :: "Condition \<Rightarrow> bytes" where
  "raw_bytes c = (case v_raw (rhs_val c) of None \<Rightarrow> [] | Some r \<Rightarrow> r)"

definition shift_bytes :: "int \<Rightarrow> ColMeta \<Rightarrow> bytes \<Rightarrow> bytes" where
  "shift_bytes d col bs = (if col_type col = TYPE_INT then (let v = dec_i32 bs in enc_i32 (if int32 (v + d) then v + d else v)) else bs)"

definition lo_part :: "Condition list \<Rightarrow> ColMeta \<Rightarrow> bytes option" where
  "lo_part conds col =
     (case pick OP_EQ (col_name col) conds of Some c \<Rightarrow> Some (raw_bytes c)
      | None \<Rightarrow> (case pick OP_GE (col_name col) conds of Some c \<Rightarrow> Some (raw_bytes c)
      | None \<Rightarrow> (case pick OP_GT (col_name col) conds of Some c \<Rightarrow> Some (shift_bytes 1 col (raw_bytes c)) | None \<Rightarrow> None)))"

definition hi_part :: "Condition list \<Rightarrow> ColMeta \<Rightarrow> bytes option" where
  "hi_part conds col =
     (case pick OP_EQ (col_name col) conds of Some c \<Rightarrow> Some (raw_bytes c)
      | None \<Rightarrow> (case pick OP_LE (col_name col) conds of Some c \<Rightarrow> Some (raw_bytes c)
      | None \<Rightarrow> (case pick OP_LT (col_name col) conds of Some c \<Rightarrow> Some (shift_bytes (-1) col (raw_bytes c)) | None \<Rightarrow> None)))"

definition or_else :: "'a option \<Rightarrow> 'a \<Rightarrow> 'a" where
  "or_else x d = (case x of None \<Rightarrow> d | Some y \<Rightarrow> y)"

fun key_parts :: "Condition list \<Rightarrow> ColMeta list \<Rightarrow> (bytes \<times> bytes) list" where
  "key_parts conds [] = []"
| "key_parts conds (c # cs) =
     (or_else (lo_part conds c) (min_bytes c), or_else (hi_part conds c) (max_bytes c)) #
     (if lo_part conds c = None \<and> hi_part conds c = None then map (\<lambda>d. (min_bytes d, max_bytes d)) cs else key_parts conds cs)"

lemma length_min_max: "col_shape c \<Longrightarrow> length (min_bytes c) = col_len c \<and> length (max_bytes c) = col_len c"
  by (cases "col_type c") (auto simp: min_bytes_def max_bytes_def col_shape_def f32_min_def f32_max_def)

lemma pick_Some: "pick op n conds = Some c \<Longrightarrow> c \<in> set conds \<and> on_column n c \<and> cond_op c = op"
proof -
  assume "pick op n conds = Some c"
  then obtain i where i: "i < length (rev conds)" "on_column n (rev conds ! i)" "cond_op (rev conds ! i) = op" "c = rev conds ! i"
    unfolding pick_def find_Some_iff by blast
  have "c \<in> set (rev conds)" unfolding i(4) by (rule nth_mem [OF i(1)])
  then show ?thesis using i by simp
qed

lemma operand_bytes_ok:
  assumes "full_literal col c"
  shows "operand_bytes col c = Some (Inr (raw_bytes c)) \<and> length (raw_bytes c) = col_len col"
proof -
  have l: "literal_ok col (rhs_val c)" using assms by (simp add: full_literal_def)
  obtain raw where raw: "v_raw (rhs_val c) = Some raw" "length raw = col_len col"
    "v_type (rhs_val c) = TYPE_STRING \<Longrightarrow> c_str raw = v_str (rhs_val c) \<and> zero_padded raw"
    by (rule literal_raw [OF l]) auto
  have "copy_string_key (col_len col) raw = raw" if t: "col_type col = TYPE_STRING"
  proof -
    have s: "c_str raw = v_str (rhs_val c)" using raw(3) l t by (simp add: literal_ok_def)
    then have "length (c_str raw) = length raw" using assms t raw(2) by (simp add: full_literal_def)
    moreover have "c_str raw @ dropWhile (\<lambda>b. b \<noteq> 0) raw = raw" by (simp add: c_str_def)
    then have "length (c_str raw) + length (dropWhile (\<lambda>b. b \<noteq> 0) raw) = length raw" by (metis length_append)
    ultimately have "dropWhile (\<lambda>b. b \<noteq> 0) raw = []" by simp
    then have "c_str raw = raw" by (simp add: c_str_def dropWhile_eq_Nil_conv takeWhile_eq_all_conv)
    then show ?thesis using raw(2) by (simp add: copy_string_key_def)
  qed
  then show ?thesis using raw by (simp add: operand_bytes_def raw_of_def load_def raw_bytes_def read_bytes_def)
qed

lemma shifted_bytes_ok:
  assumes "full_literal col c" "col_shape col"
  shows "shifted_bytes d col c = Some (Inr (shift_bytes d col (raw_bytes c))) \<and> length (shift_bytes d col (raw_bytes c)) = col_len col"
  using operand_bytes_ok [OF assms(1)] assms(2) by (auto simp: shifted_bytes_def shift_bytes_def col_shape_def Let_def)

definition full_literals :: "Condition list \<Rightarrow> ColMeta \<Rightarrow> bool" where
  "full_literals conds col \<longleftrightarrow> (\<forall>c \<in> set conds. on_column (col_name col) c \<longrightarrow> full_literal col c)"

lemma lower_of_ok:
  assumes "full_literals conds col" "col_shape col"
  shows "lower_of conds (col_name col) col = Some (Inr (lo_part conds col)) \<and> (\<forall>b. lo_part conds col = Some b \<longrightarrow> length b = col_len col)"
proof -
  have p: "full_literal col c" if "pick op (col_name col) conds = Some c" for op c
    using pick_Some [OF that] assms(1) by (simp add: full_literals_def)
  show ?thesis unfolding lower_of_def lo_part_def
    by (cases "pick OP_EQ (col_name col) conds"; cases "pick OP_GE (col_name col) conds"; cases "pick OP_GT (col_name col) conds")
       (use p operand_bytes_ok shifted_bytes_ok [OF _ assms(2)] in auto)
qed

lemma upper_of_ok:
  assumes "full_literals conds col" "col_shape col"
  shows "upper_of conds (col_name col) col = Some (Inr (hi_part conds col)) \<and> (\<forall>b. hi_part conds col = Some b \<longrightarrow> length b = col_len col)"
proof -
  have p: "full_literal col c" if "pick op (col_name col) conds = Some c" for op c
    using pick_Some [OF that] assms(1) by (simp add: full_literals_def)
  show ?thesis unfolding upper_of_def hi_part_def
    by (cases "pick OP_EQ (col_name col) conds"; cases "pick OP_LE (col_name col) conds"; cases "pick OP_LT (col_name col) conds")
       (use p operand_bytes_ok shifted_bytes_ok [OF _ assms(2)] in auto)
qed

lemma store_ok: "length b = length m \<Longrightarrow> store (length p) b (p @ m @ r) = Some (Inr (p @ b @ r))"
  by (simp add: store_def write_bytes_def)

lemma set_remaining_ok:
  assumes "\<forall>c \<in> set cs. length (f c) = col_len c" "length r = sum_list (map col_len cs)"
  shows "set_remaining f (length p) cs (p @ r) = Some (Inr (p @ concat (map f cs)))"
  using assms
proof (induction cs arbitrary: p r)
  case (Cons c cs)
  have r: "r = take (col_len c) r @ drop (col_len c) r" by simp
  have "store (length p) (f c) (p @ r) = Some (Inr (p @ f c @ drop (col_len c) r))"
    by (subst r) (rule store_ok, use Cons.prems in auto)
  then show ?case using Cons.IH [of "drop (col_len c) r" "p @ f c"] Cons.prems by simp
qed simp

lemma length_concat_map: "\<forall>c \<in> set cs. length (f c) = col_len c \<Longrightarrow> length (concat (map f cs)) = sum_list (map col_len cs)"
  by (induction cs) auto

lemma range_keys_ok:
  assumes "\<forall>c \<in> set cs. col_shape c \<and> full_literals conds c" "length p = off" "length q = off"
  shows "range_keys conds (map col_name cs) cs off (p @ concat (map min_bytes cs)) (q @ concat (map max_bytes cs)) =
    Some (Inr (p @ concat (map fst (key_parts conds cs)), q @ concat (map snd (key_parts conds cs))))"
  using assms
proof (induction cs arbitrary: p q off)
  case (Cons c cs)
  have c: "col_shape c" "full_literals conds c" using Cons.prems(1) by simp_all
  note lo = lower_of_ok [OF c(2,1)] and hi = upper_of_ok [OF c(2,1)] and len = length_min_max [OF c(1)]
  have lens: "\<forall>c \<in> set cs. length (min_bytes c) = col_len c" "\<forall>c \<in> set cs. length (max_bytes c) = col_len c"
    using Cons.prems(1) length_min_max by auto
  let ?l = "or_else (lo_part conds c) (min_bytes c)" and ?u = "or_else (hi_part conds c) (max_bytes c)"
  have w: "length ?l = col_len c" "length ?u = col_len c" using lo hi len by (auto simp: or_else_def split: option.split)
  have "store_opt off (lo_part conds c) (p @ min_bytes c @ concat (map min_bytes cs)) = Some (Inr (p @ ?l @ concat (map min_bytes cs)))"
    using store_ok [of _ "min_bytes c" p] lo len Cons.prems(2) by (auto simp: store_opt_def or_else_def split: option.split)
  moreover have "store_opt off (hi_part conds c) (q @ max_bytes c @ concat (map max_bytes cs)) = Some (Inr (q @ ?u @ concat (map max_bytes cs)))"
    using store_ok [of _ "max_bytes c" q] hi len Cons.prems(3) by (auto simp: store_opt_def or_else_def split: option.split)
  moreover have "set_remaining_all_min (off + col_len c) cs ((p @ ?l) @ concat (map min_bytes cs)) = Some (Inr ((p @ ?l) @ concat (map min_bytes cs)))"
    unfolding set_remaining_all_min_def
    using set_remaining_ok [of cs min_bytes "concat (map min_bytes cs)" "p @ ?l"] lens(1) length_concat_map [OF lens(1)] w Cons.prems(2) by simp
  moreover have "set_remaining_all_max (off + col_len c) cs ((q @ ?u) @ concat (map max_bytes cs)) = Some (Inr ((q @ ?u) @ concat (map max_bytes cs)))"
    unfolding set_remaining_all_max_def
    using set_remaining_ok [of cs max_bytes "concat (map max_bytes cs)" "q @ ?u"] lens(2) length_concat_map [OF lens(2)] w Cons.prems(3) by simp
  moreover have "range_keys conds (map col_name cs) cs (off + col_len c) ((p @ ?l) @ concat (map min_bytes cs)) ((q @ ?u) @ concat (map max_bytes cs)) =
    Some (Inr ((p @ ?l) @ concat (map fst (key_parts conds cs)), (q @ ?u) @ concat (map snd (key_parts conds cs))))"
    by (rule Cons.IH) (use Cons.prems w in auto)
  ultimately show ?case using lo hi by (cases "lo_part conds c = None \<and> hi_part conds c = None") (auto simp: o_def)
qed simp

lemma scan_keys_ok:
  assumes "\<forall>c \<in> set (im_cols im). col_shape c \<and> full_literals conds c" "im_col_tot_len im = sum_list (map col_len (im_cols im))"
  shows "scan_keys conds (map col_name (im_cols im)) im =
    Some (Inr (concat (map fst (key_parts conds (im_cols im))), concat (map snd (key_parts conds (im_cols im)))))"
proof -
  have "\<forall>c \<in> set (im_cols im). length (min_bytes c) = col_len c" "\<forall>c \<in> set (im_cols im). length (max_bytes c) = col_len c"
    using assms(1) length_min_max by auto
  then show ?thesis
    using set_remaining_ok [of "im_cols im" min_bytes "replicate (im_col_tot_len im) 0" "[]"]
      set_remaining_ok [of "im_cols im" max_bytes "replicate (im_col_tot_len im) 0" "[]"]
      range_keys_ok [OF assms(1), of "[]" 0 "[]"] assms(2)
    by (simp add: scan_keys_def set_remaining_all_min_def set_remaining_all_max_def)
qed

subsection \<open>Ranks of the parts of a key\<close>

definition part_rank :: "ColMeta \<Rightarrow> bytes \<Rightarrow> int list" where
  "part_rank c b = col_rank (col_type c) (col_len c) b"

definition part_ok :: "ColMeta \<Rightarrow> bytes \<Rightarrow> bool" where
  "part_ok c b \<longleftrightarrow> length b = col_len c \<and> (col_type c = TYPE_FLOAT \<longrightarrow> \<not> f32_nan b)"

lemma read_part: "length b = n \<Longrightarrow> read_bytes 0 n (b @ r) = b" "length b = 4 \<Longrightarrow> read_i32 0 (b @ r) = dec_i32 b"
  by (simp_all add: read_bytes_def read_i32_def)

lemma part_rank_append: "col_shape c \<Longrightarrow> length b = col_len c \<Longrightarrow> col_rank (col_type c) (col_len c) (b @ r) = part_rank c b"
  using read_part(1) [of b 4 r] read_part(2) [of b r] read_part(1) [of b 4 "[]"] read_part(2) [of b "[]"]
  by (cases "col_type c") (auto simp: part_rank_def col_rank_def col_shape_def)

lemma part_rank_length: "length a = col_len c \<Longrightarrow> length b = col_len c \<Longrightarrow> length (part_rank c a) = length (part_rank c b)"
  by (cases "col_type c") (auto simp: part_rank_def col_rank_def)

lemma key_rank_parts:
  assumes "list_all2 part_ok cs bs" "\<forall>c \<in> set cs. col_shape c"
  shows "key_rank (map col_type cs) (map col_len cs) (concat bs) = concat (map2 part_rank cs bs)"
    "key_ok (map col_type cs) (map col_len cs) (concat bs)"
  using assms
proof (induction cs bs rule: list_all2_induct)
  case (Cons c cs b bs)
  {
    case 1
    then show ?case using Cons by (simp add: part_rank_append part_ok_def)
  next
    case 2
    then show ?case using Cons by (auto simp: part_ok_def col_shape_def read_part)
  }
qed simp_all

lemma lex_append_le:
  "length xs = length ys \<Longrightarrow> (xs @ us \<le> ys @ (vs :: int list)) \<longleftrightarrow> xs < ys \<or> xs = ys \<and> us \<le> vs"
  by (auto simp: le_less lex_append_less)

lemma concat_le: "list_all2 (\<lambda>a b. length a = length b \<and> a \<le> b) A B \<Longrightarrow> concat A \<le> concat (B :: int list list)"
  by (induction A B rule: list_all2_induct) (auto simp: lex_append_le)

lemma between_first:
  assumes "l @ L \<le> k @ K" "k @ K \<le> u @ (U :: int list)" "length l = length k" "length k = length u"
  shows "l \<le> k \<and> k \<le> u" and "l = u \<Longrightarrow> k = l \<and> L \<le> K \<and> K \<le> U"
  using assms by (auto simp: lex_append_le)

text \<open>The rank of a stored column and of a literal are ordered like their values.\<close>

definition col_admissible :: "ColMeta \<Rightarrow> bytes \<Rightarrow> bool" where
  "col_admissible c r \<longleftrightarrow> col_fits c r \<and> (col_type c = TYPE_STRING \<longrightarrow> zero_padded (col_bytes c r)) \<and>
     (col_type c = TYPE_FLOAT \<longrightarrow> \<not> f32_nan (col_bytes c r) \<and> \<bar>f32_rank (col_bytes c r)\<bar> \<le> 2139095039)"

lemma admissible_no_nan: "col_admissible c r \<Longrightarrow> no_nan (col_value c r)"
  using col_value_float [of c r] by (auto simp: col_admissible_def no_nan_def)

lemma part_rank_order:
  assumes "col_admissible c r" "full_literal c k"
  shows "part_rank c (col_bytes c r) < part_rank c (raw_bytes k) \<longleftrightarrow> value_rank (col_value c r) < value_rank (rhs_val k)"
    and "part_rank c (col_bytes c r) = part_rank c (raw_bytes k) \<longleftrightarrow> value_rank (col_value c r) = value_rank (rhs_val k)"
proof -
  have f: "col_fits c r" using assms(1) by (simp add: col_admissible_def)
  have l: "literal_ok c (rhs_val k)" using assms(2) by (simp add: full_literal_def)
  obtain raw where raw: "v_raw (rhs_val k) = Some raw" "length raw = col_len c"
    "v_type (rhs_val k) = TYPE_STRING \<Longrightarrow> c_str raw = v_str (rhs_val k) \<and> zero_padded raw"
    by (rule literal_raw [OF l]) auto
  have rb: "raw_bytes k = raw" using raw(1) by (simp add: raw_bytes_def)
  have t: "v_type (rhs_val k) = col_type c" using l by (simp add: literal_ok_def)
  have len: "length (col_bytes c r) = col_len c" using f by (simp add: col_fits_def col_bytes_def)
  note rank = col_value_rank [OF f]
  have "(part_rank c (col_bytes c r) < part_rank c raw \<longleftrightarrow> value_rank (col_value c r) < value_rank (rhs_val k)) \<and>
    (part_rank c (col_bytes c r) = part_rank c raw \<longleftrightarrow> value_rank (col_value c r) = value_rank (rhs_val k))"
  proof (cases "col_type c")
    case TYPE_INT
    then have "raw = v_num (rhs_val k)" "col_len c = 4" using literal_num [OF l raw(1)] f by (simp_all add: col_fits_def)
    then show ?thesis using TYPE_INT t rank len raw(2) read_part(2) [of _ "[]"]
      by (simp add: part_rank_def col_rank_def value_rank_def [of "rhs_val k"] int_val_def)
  next
    case TYPE_FLOAT
    then have "raw = v_num (rhs_val k)" "col_len c = 4" using literal_num [OF l raw(1)] f by (simp_all add: col_fits_def)
    then show ?thesis using TYPE_FLOAT t rank len raw(2) read_part(1) [of _ 4 "[]"]
      by (simp add: part_rank_def col_rank_def value_rank_def [of "rhs_val k"] float_val_def)
  next
    case TYPE_STRING
    have "zero_padded (col_bytes c r)" "zero_padded raw" using assms(1) TYPE_STRING raw(3) t by (simp_all add: col_admissible_def)
    then show ?thesis using TYPE_STRING t rank len raw(2,3) padded_order [of "col_bytes c r" raw]
      by (simp add: part_rank_def col_rank_def value_rank_def [of "rhs_val k"] map_uint_inj)
  qed
  then show "part_rank c (col_bytes c r) < part_rank c (raw_bytes k) \<longleftrightarrow> value_rank (col_value c r) < value_rank (rhs_val k)"
    "part_rank c (col_bytes c r) = part_rank c (raw_bytes k) \<longleftrightarrow> value_rank (col_value c r) = value_rank (rhs_val k)"
    unfolding rb by auto
qed

text \<open>A condition as a comparison of ranks.\<close>

definition satisfies :: "ColMeta list \<Rightarrow> bytes \<Rightarrow> Condition \<Rightarrow> bool" where
  "satisfies cols r k \<longleftrightarrow> cmp_cond cols k r = Some (Inr True)"

fun rank_op :: "CompOp \<Rightarrow> 'a::linorder \<Rightarrow> 'a \<Rightarrow> bool" where
  "rank_op OP_EQ a b \<longleftrightarrow> a = b"
| "rank_op OP_NE a b \<longleftrightarrow> a \<noteq> b"
| "rank_op OP_LT a b \<longleftrightarrow> a < b"
| "rank_op OP_GT a b \<longleftrightarrow> b < a"
| "rank_op OP_LE a b \<longleftrightarrow> a \<le> b"
| "rank_op OP_GE a b \<longleftrightarrow> b \<le> a"

lemma rank_op_cong:
  assumes "a < b \<longleftrightarrow> x < y" "a = b \<longleftrightarrow> x = y"
  shows "rank_op op a b \<longleftrightarrow> rank_op op x y"
proof -
  have "b < a \<longleftrightarrow> y < x" using assms by (meson linorder_less_linear not_less_iff_gr_or_eq)
  then show ?thesis using assms by (cases op) (simp_all add: le_less eq_commute)
qed

lemma satisfies_rank:
  assumes "get_col cols (lhs_col k) = Inr c" "is_rhs_val k" "full_literal c k" "no_nan (rhs_val k)" "col_admissible c r"
  shows "satisfies cols r k \<longleftrightarrow> rank_op (cond_op k) (part_rank c (col_bytes c r)) (part_rank c (raw_bytes k))"
proof -
  have "cmp_cond cols k r = Some (Inr (value_op (cond_op k) (col_value c r) (rhs_val k)))"
    by (rule cmp_cond_value) (use assms admissible_no_nan in \<open>auto simp: full_literal_def col_admissible_def\<close>)
  then have "satisfies cols r k \<longleftrightarrow> value_op (cond_op k) (col_value c r) (rhs_val k)" by (simp add: satisfies_def)
  also have "\<dots> \<longleftrightarrow> rank_op (cond_op k) (value_rank (col_value c r)) (value_rank (rhs_val k))"
    unfolding value_op_rank [OF admissible_no_nan [OF assms(5)] assms(4)] by (cases "cond_op k") simp_all
  also have "\<dots> \<longleftrightarrow> rank_op (cond_op k) (part_rank c (col_bytes c r)) (part_rank c (raw_bytes k))"
    by (rule rank_op_cong [symmetric]) (rule part_rank_order [OF assms(5,3)])+
  finally show ?thesis .
qed

subsection \<open>The range and the conditions\<close>

text \<open>Conditions on one column that two bounds express exactly: one equality, or at most one lower and one upper bound,
  strict only on an integer away from the end of the range.\<close>

definition is_lower :: "Condition \<Rightarrow> bool" where "is_lower k \<longleftrightarrow> cond_op k = OP_GE \<or> cond_op k = OP_GT"
definition is_upper :: "Condition \<Rightarrow> bool" where "is_upper k \<longleftrightarrow> cond_op k = OP_LE \<or> cond_op k = OP_LT"

definition exact_conds :: "Condition list \<Rightarrow> ColMeta \<Rightarrow> bool" where
  "exact_conds conds col \<longleftrightarrow>
     (let ks = filter (on_column (col_name col)) conds
      in (\<exists>k. ks = [k] \<and> cond_op k = OP_EQ) \<or>
         (\<forall>k \<in> set ks. is_lower k \<or> is_upper k) \<and> length (filter is_lower ks) \<le> 1 \<and> length (filter is_upper ks) \<le> 1 \<and>
         (\<forall>k \<in> set ks. (cond_op k = OP_GT \<longrightarrow> col_type col = TYPE_INT \<and> dec_i32 (raw_bytes k) < INT32_MAX) \<and>
                        (cond_op k = OP_LT \<longrightarrow> col_type col = TYPE_INT \<and> - (2 ^ 31) < dec_i32 (raw_bytes k))))"

lemma length_le_1: "length xs \<le> 1 \<Longrightarrow> a \<in> set xs \<Longrightarrow> b \<in> set xs \<Longrightarrow> a = b"
  by (cases xs) (auto simp: le_Suc_eq)

lemma pick_ex: "k \<in> set conds \<Longrightarrow> on_column n k \<Longrightarrow> \<exists>k'. pick (cond_op k) n conds = Some k'"
proof (rule ccontr)
  assume k: "k \<in> set conds" "on_column n k" and "\<nexists>k'. pick (cond_op k) n conds = Some k'"
  then have "pick (cond_op k) n conds = None" by auto
  then show False using k unfolding pick_def find_None_iff by auto
qed

lemma part_rank_int: "col_type c = TYPE_INT \<Longrightarrow> length b = 4 \<Longrightarrow> part_rank c b = [dec_i32 b]"
  using read_part(2) [of b "[]"] by (simp add: part_rank_def col_rank_def)

lemma part_rank_shift:
  assumes "col_type c = TYPE_INT" "length b = 4"
  shows "part_rank c (shift_bytes d c b) = [if int32 (dec_i32 b + d) then dec_i32 b + d else dec_i32 b]"
  using assms int32_dec_i32 [OF assms(2)] by (simp add: part_rank_int shift_bytes_def Let_def dec_enc_i32)

lemma f32_extremes: "f32_rank f32_max = 2139095039" "f32_rank f32_min = -2139095039" "\<not> f32_nan f32_max" "\<not> f32_nan f32_min"
  by (simp_all add: f32_max_def f32_min_def f32_rank_def f32_nan_def le_nat_le_bytes)

lemma lex_bytes:
  "replicate (length b) 0 \<le> map uint (b :: byte list)" "map uint (b :: byte list) \<le> replicate (length b) 255"
proof (induction b)
  case (Cons x b)
  have "uint x \<le> 255" "0 \<le> uint x" using uint_lt2p [of x] by simp_all
  then have u: "uint x = 0 \<or> 0 < uint x" "uint x = 255 \<or> uint x < 255" by linarith+
  {
    case 1
    then show ?case using Cons u(1) by auto
  next
    case 2
    then show ?case using Cons u(2) by auto
  }
qed simp_all

lemma min_max_rank:
  assumes "col_admissible c r"
  shows "part_rank c (min_bytes c) \<le> part_rank c (col_bytes c r)" "part_rank c (col_bytes c r) \<le> part_rank c (max_bytes c)"
proof -
  have len: "length (col_bytes c r) = col_len c" "col_type c \<noteq> TYPE_STRING \<longrightarrow> col_len c = 4"
    using assms by (auto simp: col_admissible_def col_fits_def col_bytes_def)
  have "part_rank c (min_bytes c) \<le> part_rank c (col_bytes c r) \<and> part_rank c (col_bytes c r) \<le> part_rank c (max_bytes c)"
  proof (cases "col_type c")
    case TYPE_INT
    then have "int32 (dec_i32 (col_bytes c r))" using len by (intro int32_dec_i32) simp
    then show ?thesis using TYPE_INT len dec_enc_i32 [of "- (2 ^ 31)"] dec_enc_i32 [of INT32_MAX]
      by (auto simp: part_rank_int min_bytes_def max_bytes_def int32_def INT32_MAX_def)
  next
    case TYPE_FLOAT
    then show ?thesis using len assms read_part(1) [of f32_min 4 "[]"] read_part(1) [of f32_max 4 "[]"] read_part(1) [of "col_bytes c r" 4 "[]"] f32_extremes
      by (auto simp: part_rank_def col_rank_def min_bytes_def max_bytes_def f32_min_def f32_max_def col_admissible_def)
  next
    case TYPE_STRING
    then show ?thesis using len lex_bytes [of "col_bytes c r"]
      by (simp add: part_rank_def col_rank_def min_bytes_def max_bytes_def)
  qed
  then show "part_rank c (min_bytes c) \<le> part_rank c (col_bytes c r)" "part_rank c (col_bytes c r) \<le> part_rank c (max_bytes c)" by auto
qed

text \<open>What the scan knows of one column: its literals fill the column and the row has an ordinary value in it.\<close>

definition lits_ready :: "ColMeta list \<Rightarrow> Condition list \<Rightarrow> ColMeta \<Rightarrow> bool" where
  "lits_ready cols conds c \<longleftrightarrow> col_shape c \<and> full_literals conds c \<and>
     (\<forall>k \<in> set conds. on_column (col_name c) k \<longrightarrow> get_col cols (lhs_col k) = Inr c \<and> no_nan (rhs_val k))"

definition col_ready :: "ColMeta list \<Rightarrow> Condition list \<Rightarrow> ColMeta \<Rightarrow> bytes \<Rightarrow> bool" where
  "col_ready cols conds c r \<longleftrightarrow> lits_ready cols conds c \<and> col_admissible c r"

lemma ready_rank:
  assumes "col_ready cols conds c r" "k \<in> set conds" "on_column (col_name c) k"
  shows "satisfies cols r k \<longleftrightarrow> rank_op (cond_op k) (part_rank c (col_bytes c r)) (part_rank c (raw_bytes k))"
    and "length (raw_bytes k) = col_len c"
proof -
  have f: "full_literal c k" using assms by (simp add: col_ready_def lits_ready_def full_literals_def)
  show "satisfies cols r k \<longleftrightarrow> rank_op (cond_op k) (part_rank c (col_bytes c r)) (part_rank c (raw_bytes k))"
    by (rule satisfies_rank) (use assms f in \<open>auto simp: col_ready_def lits_ready_def on_column_def\<close>)
  show "length (raw_bytes k) = col_len c" using operand_bytes_ok [OF f] by simp
qed

lemma range_sound:
  assumes "col_ready cols conds c r" "\<forall>k \<in> set conds. on_column (col_name c) k \<longrightarrow> satisfies cols r k"
  shows "part_rank c (or_else (lo_part conds c) (min_bytes c)) \<le> part_rank c (col_bytes c r)"
    and "part_rank c (col_bytes c r) \<le> part_rank c (or_else (hi_part conds c) (max_bytes c))"
proof -
  have adm: "col_admissible c r" using assms(1) by (simp add: col_ready_def)
  have len: "length (col_bytes c r) = col_len c" "col_type c \<noteq> TYPE_STRING \<longrightarrow> col_len c = 4"
    using adm by (auto simp: col_admissible_def col_fits_def col_bytes_def)
  have p: "rank_op op (part_rank c (col_bytes c r)) (part_rank c (raw_bytes k)) \<and> length (raw_bytes k) = col_len c"
    if "pick op (col_name c) conds = Some k" for op k
    using pick_Some [OF that] ready_rank [OF assms(1), of k] assms(2) by auto
  have up: "part_rank c (shift_bytes 1 c b) \<le> part_rank c (col_bytes c r)"
    if "part_rank c b < part_rank c (col_bytes c r)" "length b = col_len c" for b
    using that len part_rank_shift [of c b 1] by (cases "col_type c = TYPE_INT") (auto simp: part_rank_int shift_bytes_def)
  have down: "part_rank c (col_bytes c r) \<le> part_rank c (shift_bytes (-1) c b)"
    if "part_rank c (col_bytes c r) < part_rank c b" "length b = col_len c" for b
    using that len part_rank_shift [of c b "-1"] by (cases "col_type c = TYPE_INT") (auto simp: part_rank_int shift_bytes_def)
  show "part_rank c (or_else (lo_part conds c) (min_bytes c)) \<le> part_rank c (col_bytes c r)"
    using p [of OP_EQ] p [of OP_GE] p [of OP_GT] up min_max_rank(1) [OF adm]
    by (auto simp: lo_part_def or_else_def split: option.split)
  show "part_rank c (col_bytes c r) \<le> part_rank c (or_else (hi_part conds c) (max_bytes c))"
    using p [of OP_EQ] p [of OP_LE] p [of OP_LT] down min_max_rank(2) [OF adm]
    by (auto simp: hi_part_def or_else_def split: option.split)
qed

lemma exact_same_side:
  assumes "exact_conds conds c" "k \<in> set conds" "on_column (col_name c) k" "k' \<in> set conds" "on_column (col_name c) k'"
    and "is_lower k \<and> is_lower k' \<or> is_upper k \<and> is_upper k'"
  shows "k = k'"
proof -
  define ks where "ks = filter (on_column (col_name c)) conds"
  have m: "k \<in> set ks" "k' \<in> set ks" using assms by (auto simp: ks_def)
  have "(\<exists>e. ks = [e]) \<or> length (filter is_lower ks) \<le> 1 \<and> length (filter is_upper ks) \<le> 1"
    using assms(1) unfolding exact_conds_def Let_def ks_def [symmetric] by blast
  then show ?thesis
  proof
    assume "\<exists>e. ks = [e]"
    then show ?thesis using m by auto
  next
    assume "length (filter is_lower ks) \<le> 1 \<and> length (filter is_upper ks) \<le> 1"
    then show ?thesis using assms(6) m length_le_1 [of "filter is_lower ks" k k'] length_le_1 [of "filter is_upper ks" k k'] by auto
  qed
qed

lemma range_exact:
  assumes ready: "col_ready cols conds c r" and ex: "exact_conds conds c"
    and lo: "part_rank c (or_else (lo_part conds c) (min_bytes c)) \<le> part_rank c (col_bytes c r)"
    and hi: "part_rank c (col_bytes c r) \<le> part_rank c (or_else (hi_part conds c) (max_bytes c))"
    and k: "k \<in> set conds" "on_column (col_name c) k"
  shows "satisfies cols r k"
proof -
  let ?K = "part_rank c (col_bytes c r)"
  define ks where "ks = filter (on_column (col_name c)) conds"
  have mem: "k \<in> set ks" using k by (simp add: ks_def)
  note rk = ready_rank [OF ready k]
  have len: "length (col_bytes c r) = col_len c" "col_type c \<noteq> TYPE_STRING \<longrightarrow> col_len c = 4"
    using ready by (auto simp: col_ready_def col_admissible_def col_fits_def col_bytes_def)
  have found: "pick op (col_name c) conds = Some k' \<Longrightarrow> cond_op k' = op \<and> k' \<in> set ks" for op k' using pick_Some by (auto simp: ks_def)
  show ?thesis
  proof (cases "\<exists>e. ks = [e] \<and> cond_op e = OP_EQ")
    case True
    then have e: "ks = [k]" "cond_op k = OP_EQ" using mem by auto
    then have "pick OP_EQ (col_name c) conds = Some k" using pick_ex [OF k] found by auto
    then have "lo_part conds c = Some (raw_bytes k)" "hi_part conds c = Some (raw_bytes k)" by (simp_all add: lo_part_def hi_part_def)
    then show ?thesis using lo hi rk(1) e(2) by (simp add: or_else_def)
  next
    case False
    then have r: "\<forall>k \<in> set ks. is_lower k \<or> is_upper k"
      "cond_op k = OP_GT \<longrightarrow> col_type c = TYPE_INT \<and> dec_i32 (raw_bytes k) < INT32_MAX"
      "cond_op k = OP_LT \<longrightarrow> col_type c = TYPE_INT \<and> - (2 ^ 31) < dec_i32 (raw_bytes k)"
      using ex mem unfolding exact_conds_def Let_def ks_def [symmetric] by auto
    have noeq: "pick OP_EQ (col_name c) conds = None"
      using found [of OP_EQ] r(1) by (cases "pick OP_EQ (col_name c) conds") (auto simp: is_lower_def is_upper_def)
    have same: "k' = k" if "pick op (col_name c) conds = Some k'" "op \<in> {OP_GE, OP_GT} \<and> is_lower k \<or> op \<in> {OP_LE, OP_LT} \<and> is_upper k" for op k'
      using exact_same_side [OF ex _ _ k, of k'] found [OF that(1)] that(2) by (auto simp: is_lower_def is_upper_def ks_def)
    have other: "pick op (col_name c) conds = None" if "op \<in> {OP_GE, OP_GT} \<and> is_lower k \<or> op \<in> {OP_LE, OP_LT} \<and> is_upper k" "op \<noteq> cond_op k" for op
      using same [OF _ that(1)] found [of op] that(2) by (cases "pick op (col_name c) conds") auto
    obtain k' where k': "pick (cond_op k) (col_name c) conds = Some k'" using pick_ex [OF k] by blast
    from r(1) mem consider "cond_op k = OP_GE" | "cond_op k = OP_GT" | "cond_op k = OP_LE" | "cond_op k = OP_LT" by (auto simp: is_lower_def is_upper_def)
    then show ?thesis
    proof cases
      case 1
      then show ?thesis using k' same [OF k'] noeq lo rk(1) by (simp add: lo_part_def or_else_def is_lower_def)
    next
      case 2
      then have "int32 (dec_i32 (raw_bytes k) + 1)" using r(2) rk(2) len int32_dec_i32 [of "raw_bytes k"] by (auto simp: int32_def INT32_MAX_def)
      then have "[dec_i32 (raw_bytes k) + 1] \<le> ?K"
        using 2 k' same [OF k'] noeq other [of OP_GE] lo r(2) rk(2) len part_rank_shift [of c "raw_bytes k" 1] by (simp add: lo_part_def or_else_def is_lower_def)
      then show ?thesis using 2 r(2) rk len by (auto simp: part_rank_int)
    next
      case 3
      then show ?thesis using k' same [OF k'] noeq hi rk(1) by (simp add: hi_part_def or_else_def is_upper_def)
    next
      case 4
      then have "int32 (dec_i32 (raw_bytes k) + - 1)" using r(3) rk(2) len int32_dec_i32 [of "raw_bytes k"] by (auto simp: int32_def)
      then have "?K \<le> [dec_i32 (raw_bytes k) - 1]"
        using 4 k' same [OF k'] noeq other [of OP_LE] hi r(3) rk(2) len part_rank_shift [of c "raw_bytes k" "-1"] by (simp add: hi_part_def or_else_def is_upper_def)
      then show ?thesis using 4 r(3) rk len by (auto simp: part_rank_int)
    qed
  qed
qed

subsection \<open>The selection of an index scan\<close>

lemma key_parts_length [simp]: "length (key_parts conds cs) = length cs"
  by (induction cs) auto

lemma part_ok_min_max: "col_shape c \<Longrightarrow> part_ok c (min_bytes c) \<and> part_ok c (max_bytes c)"
  using length_min_max [of c] f32_extremes by (auto simp: part_ok_def min_bytes_def max_bytes_def)

lemma ready_shape: "col_ready cols conds c r \<Longrightarrow> col_shape c"
  by (simp add: col_ready_def lits_ready_def)

lemma lits_parts_ok:
  assumes "lits_ready cols conds c"
  shows "part_ok c (or_else (lo_part conds c) (min_bytes c))" "part_ok c (or_else (hi_part conds c) (max_bytes c))"
proof -
  have sh: "col_shape c" using assms by (simp add: lits_ready_def)
  have raw: "part_ok c (raw_bytes k) \<and> part_ok c (shift_bytes d c (raw_bytes k))" if "pick op (col_name c) conds = Some k" for op k d
  proof -
    have k: "k \<in> set conds" "on_column (col_name c) k" using pick_Some [OF that] by auto
    then have f: "full_literal c k" "no_nan (rhs_val k)" using assms by (auto simp: lits_ready_def full_literals_def)
    then have l: "literal_ok c (rhs_val k)" by (simp add: full_literal_def)
    have "\<not> f32_nan (raw_bytes k)" if t: "col_type c = TYPE_FLOAT"
    proof -
      obtain w where w: "v_raw (rhs_val k) = Some w" by (rule literal_raw [OF l])
      then have "w = v_num (rhs_val k)" "length w = 4" using literal_num [OF l w] t l by (auto simp: literal_ok_def)
      then show ?thesis using w f(2) t l by (auto simp: raw_bytes_def no_nan_def float_val_def read_bytes_def literal_ok_def)
    qed
    then show ?thesis using operand_bytes_ok [OF f(1)] shifted_bytes_ok [OF f(1) sh] by (auto simp: part_ok_def shift_bytes_def)
  qed
  show "part_ok c (or_else (lo_part conds c) (min_bytes c))" "part_ok c (or_else (hi_part conds c) (max_bytes c))"
    using raw part_ok_min_max [OF sh] by (auto simp: lo_part_def hi_part_def or_else_def split: option.split)
qed

lemma ready_parts_ok:
  assumes "col_ready cols conds c r"
  shows "part_ok c (or_else (lo_part conds c) (min_bytes c))" "part_ok c (or_else (hi_part conds c) (max_bytes c))" "part_ok c (col_bytes c r)"
  using assms lits_parts_ok [of cols conds c]
  by (auto simp: part_ok_def col_ready_def col_admissible_def col_fits_def col_bytes_def)

lemma key_parts_ok:
  assumes "\<forall>c \<in> set cs. lits_ready cols conds c"
  shows "list_all2 part_ok cs (map fst (key_parts conds cs))" "list_all2 part_ok cs (map snd (key_parts conds cs))"
proof -
  have "list_all2 part_ok cs (map fst (key_parts conds cs)) \<and> list_all2 part_ok cs (map snd (key_parts conds cs))" using assms
  proof (induction cs)
    case (Cons c cs)
    have "list_all2 part_ok ds (map min_bytes ds)" "list_all2 part_ok ds (map max_bytes ds)" if "\<forall>c \<in> set ds. col_shape c" for ds
      using that part_ok_min_max by (induction ds) auto
    moreover have "\<forall>c \<in> set cs. col_shape c" using Cons.prems by (auto simp: lits_ready_def)
    ultimately show ?case using Cons lits_parts_ok [of cols conds c] by (auto simp: o_def)
  qed simp
  then show "list_all2 part_ok cs (map fst (key_parts conds cs))" "list_all2 part_ok cs (map snd (key_parts conds cs))" by auto
qed

lemma row_parts_ok: "\<forall>c \<in> set cs. col_ready cols conds c r \<Longrightarrow> list_all2 part_ok cs (map (\<lambda>c. col_bytes c r) cs)"
  using ready_parts_ok(3) by (induction cs) auto

lemma keys_sound:
  assumes "\<forall>c \<in> set cs. col_ready cols conds c r" "\<forall>c \<in> set cs. \<forall>k \<in> set conds. on_column (col_name c) k \<longrightarrow> satisfies cols r k"
  shows "list_all2 (\<lambda>a b. length a = length b \<and> a \<le> b) (map2 part_rank cs (map fst (key_parts conds cs))) (map2 part_rank cs (map (\<lambda>c. col_bytes c r) cs))"
    and "list_all2 (\<lambda>a b. length a = length b \<and> a \<le> b) (map2 part_rank cs (map (\<lambda>c. col_bytes c r) cs)) (map2 part_rank cs (map snd (key_parts conds cs)))"
proof -
  let ?le = "\<lambda>a b :: int list. length a = length b \<and> a \<le> b"
  have wide: "list_all2 ?le (map2 part_rank ds (map min_bytes ds)) (map2 part_rank ds (map (\<lambda>c. col_bytes c r) ds)) \<and>
      list_all2 ?le (map2 part_rank ds (map (\<lambda>c. col_bytes c r) ds)) (map2 part_rank ds (map max_bytes ds))"
    if "\<forall>c \<in> set ds. col_ready cols conds c r" for ds
    using that
  proof (induction ds)
    case (Cons d ds)
    have d: "col_ready cols conds d r" using Cons.prems by simp
    then have "col_admissible d r" by (simp add: col_ready_def)
    note m = min_max_rank [OF this] and ok = part_ok_min_max [OF ready_shape [OF d]] ready_parts_ok(3) [OF d]
    show ?case using Cons m ok by (auto simp: part_ok_def intro!: part_rank_length)
  qed simp
  have "list_all2 ?le (map2 part_rank cs (map fst (key_parts conds cs))) (map2 part_rank cs (map (\<lambda>c. col_bytes c r) cs)) \<and>
      list_all2 ?le (map2 part_rank cs (map (\<lambda>c. col_bytes c r) cs)) (map2 part_rank cs (map snd (key_parts conds cs)))"
    using assms
  proof (induction cs)
    case (Cons c cs)
    have c: "col_ready cols conds c r" "\<forall>k \<in> set conds. on_column (col_name c) k \<longrightarrow> satisfies cols r k" using Cons.prems by auto
    note s = range_sound [OF c] and ok = ready_parts_ok [OF c(1)]
    show ?case using Cons s ok wide [of cs] by (auto simp: part_ok_def o_def intro!: part_rank_length)
  qed simp
  then show "list_all2 ?le (map2 part_rank cs (map fst (key_parts conds cs))) (map2 part_rank cs (map (\<lambda>c. col_bytes c r) cs))"
    "list_all2 ?le (map2 part_rank cs (map (\<lambda>c. col_bytes c r) cs)) (map2 part_rank cs (map snd (key_parts conds cs)))" by auto
qed

lemma keys_cover:
  assumes "\<forall>c \<in> set cs. col_ready cols conds c r"
    and "\<forall>c \<in> set cs. col_name c \<in> set (covered_cols conds (map col_name cs)) \<longrightarrow> exact_conds conds c" "distinct (map col_name cs)"
    and "concat (map2 part_rank cs (map fst (key_parts conds cs))) \<le> concat (map2 part_rank cs (map (\<lambda>c. col_bytes c r) cs))"
    and "concat (map2 part_rank cs (map (\<lambda>c. col_bytes c r) cs)) \<le> concat (map2 part_rank cs (map snd (key_parts conds cs)))"
    and "k \<in> set conds" "is_rhs_val k" "tc_col_name (lhs_col k) \<in> set (covered_cols conds (map col_name cs))"
  shows "satisfies cols r k"
  using assms(1-5,8)
proof (induction cs)
  case (Cons c cs)
  let ?l = "or_else (lo_part conds c) (min_bytes c)" and ?u = "or_else (hi_part conds c) (max_bytes c)"
  have c: "col_ready cols conds c r" using Cons.prems(1) by simp
  note ok = ready_parts_ok [OF c]
  have len: "length (part_rank c ?l) = length (part_rank c (col_bytes c r))" "length (part_rank c (col_bytes c r)) = length (part_rank c ?u)"
    using ok by (auto simp: part_ok_def intro: part_rank_length)
  define R where "R = tl (key_parts conds (c # cs))"
  have parts: "key_parts conds (c # cs) = (?l, ?u) # R" "\<not> (lo_part conds c = None \<and> hi_part conds c = None) \<Longrightarrow> R = key_parts conds cs"
    by (auto simp: R_def)
  have b1: "part_rank c ?l @ concat (map2 part_rank cs (map fst R)) \<le> part_rank c (col_bytes c r) @ concat (map2 part_rank cs (map (\<lambda>c. col_bytes c r) cs))"
    using Cons.prems(4) unfolding parts(1) by simp
  have b2: "part_rank c (col_bytes c r) @ concat (map2 part_rank cs (map (\<lambda>c. col_bytes c r) cs)) \<le> part_rank c ?u @ concat (map2 part_rank cs (map snd R))"
    using Cons.prems(5) unfolding parts(1) by simp
  note b = between_first(1) [OF b1 b2 len] and rest = between_first(2) [OF b1 b2 len]
  show ?case
  proof (cases "tc_col_name (lhs_col k) = col_name c")
    case True
    then have "exact_conds conds c" using Cons.prems(2,6) by simp
    then show ?thesis using range_exact [OF c _ _ _ assms(6)] b True assms(7) by (simp add: on_column_def)
  next
    case False
    then have eq: "\<exists>e \<in> set conds. on_column (col_name c) e \<and> cond_op e = OP_EQ"
      and cov: "tc_col_name (lhs_col k) \<in> set (covered_cols conds (map col_name cs))"
      using Cons.prems(6) by (auto simp: Let_def split: if_splits)
    then obtain e where e: "pick OP_EQ (col_name c) conds = Some e" using pick_ex by metis
    then have "lo_part conds c = Some (raw_bytes e)" "hi_part conds c = Some (raw_bytes e)" by (simp_all add: lo_part_def hi_part_def)
    then have p: "part_rank c ?l = part_rank c ?u" "R = key_parts conds cs" using parts(2) by (simp_all add: or_else_def)
    show ?thesis
    proof (rule Cons.IH)
      have "covered_cols conds (map col_name (c # cs)) = col_name c # covered_cols conds (map col_name cs)" using eq by (auto simp: Let_def)
      then show "\<forall>c \<in> set cs. col_name c \<in> set (covered_cols conds (map col_name cs)) \<longrightarrow> exact_conds conds c"
        using Cons.prems(2) by simp
    qed (use Cons.prems rest p cov in auto)
  qed
qed simp

text \<open>Only the conditions on a column matter for it, and reordering the conditions by index column keeps them.\<close>

lemma find_conj: "List.find (\<lambda>c. P c \<and> Q c) xs = List.find Q (filter P xs)"
  by (induction xs) auto

lemma pick_filter: "pick op n conds = List.find (\<lambda>c. cond_op c = op) (rev (filter (on_column n) conds))"
  by (simp add: pick_def find_conj rev_filter)

lemma optimized_filter:
  assumes "distinct names" "n \<in> set names"
  shows "filter (on_column n) (index_optimized_conditions names conds) = filter (on_column n) conds"
proof -
  have o: "filter (on_column n) (filter (on_column m) conds) = (if m = n then filter (on_column n) conds else [])" for m
    by (induction conds) (auto simp: on_column_def)
  have "concat (map (\<lambda>m. if m = n then xs else []) names) = xs" for xs :: "Condition list"
    using assms
  proof (induction names)
    case (Cons m names)
    have "concat (map (\<lambda>m. if m = n then xs else []) names) = []" if "n \<notin> set names" using that by (induction names) auto
    then show ?case using Cons by auto
  qed simp
  then show ?thesis unfolding index_optimized_conditions_def filter_concat map_map o_def o by simp
qed

lemma key_parts_cong:
  assumes "\<forall>c \<in> set cs. filter (on_column (col_name c)) A = filter (on_column (col_name c)) B"
  shows "key_parts A cs = key_parts B cs"
  using assms
proof (induction cs)
  case (Cons c cs)
  then have "pick op (col_name c) A = pick op (col_name c) B" for op by (simp add: pick_filter)
  then have "lo_part A c = lo_part B c" "hi_part A c = hi_part B c" by (simp_all only: lo_part_def hi_part_def)
  then show ?case using Cons by simp
qed simp

lemma covered_cols_cong:
  assumes "\<forall>n \<in> set ns. filter (on_column n) A = filter (on_column n) B"
  shows "covered_cols A ns = covered_cols B ns"
  using assms
proof (induction ns)
  case (Cons n ns)
  then have h: "filter (on_column n) A = filter (on_column n) B" "covered_cols A ns = covered_cols B ns" by simp_all
  show ?case by (simp only: covered_cols.simps Let_def h)
qed simp

lemma full_literals_cong:
  assumes "filter (on_column (col_name c)) A = filter (on_column (col_name c)) B"
  shows "full_literals A c = full_literals B c"
proof -
  have "set (filter (on_column (col_name c)) A) = set (filter (on_column (col_name c)) B)" using assms by simp
  then show ?thesis by (auto simp: full_literals_def)
qed

text \<open>An index over its columns, and a where clause on the table whose index conditions the keys express exactly.\<close>

definition index_ok :: "IndexMeta \<Rightarrow> bool" where
  "index_ok im \<longleftrightarrow> im_col_num im = length (im_cols im) \<and> im_col_tot_len im = sum_list (map col_len (im_cols im)) \<and>
     distinct (map col_name (im_cols im))"

definition clause_ready :: "ColMeta list \<Rightarrow> Condition list \<Rightarrow> IndexMeta \<Rightarrow> bool" where
  "clause_ready cols conds im \<longleftrightarrow> index_ok im \<and> (\<forall>c \<in> set (im_cols im). lits_ready cols conds c) \<and>
     (\<forall>c \<in> set (im_cols im). col_name c \<in> set (covered_cols conds (map col_name (im_cols im))) \<longrightarrow> exact_conds conds c)"

definition row_admissible :: "IndexMeta \<Rightarrow> bytes \<Rightarrow> bool" where
  "row_admissible im r \<longleftrightarrow> (\<forall>c \<in> set (im_cols im). col_admissible c r)"

definition low_key :: "Condition list \<Rightarrow> IndexMeta \<Rightarrow> bytes" where
  "low_key conds im = concat (map fst (key_parts conds (im_cols im)))"

definition high_key :: "Condition list \<Rightarrow> IndexMeta \<Rightarrow> bytes" where
  "high_key conds im = concat (map snd (key_parts conds (im_cols im)))"

definition im_rank :: "IndexMeta \<Rightarrow> bytes \<Rightarrow> int list" where
  "im_rank im = key_rank (map col_type (im_cols im)) (map col_len (im_cols im))"

lemma optimized_same:
  assumes "index_ok im" "n \<in> set (map col_name (im_cols im))"
  shows "filter (on_column n) (index_optimized_conditions (map col_name (im_cols im)) conds) = filter (on_column n) conds"
  using assms by (intro optimized_filter) (auto simp: index_ok_def)

lemma clause_keys:
  fixes im :: IndexMeta
  defines "names \<equiv> map col_name (im_cols im)"
  assumes "clause_ready cols conds im"
  shows "scan_keys (index_optimized_conditions names conds) names im = Some (Inr (low_key conds im, high_key conds im))"
    and "covered_cols (index_optimized_conditions names conds) names = covered_cols conds names"
    and "key_ok (map col_type (im_cols im)) (map col_len (im_cols im)) (low_key conds im)"
    and "key_ok (map col_type (im_cols im)) (map col_len (im_cols im)) (high_key conds im)"
proof -
  let ?cs = "im_cols im" and ?conds = "index_optimized_conditions names conds"
  have im: "index_ok im" "\<forall>c \<in> set ?cs. lits_ready cols conds c" using assms(2) by (auto simp: clause_ready_def)
  have f: "filter (on_column n) ?conds = filter (on_column n) conds" if "n \<in> set names" for n
    using optimized_same [OF im(1)] that by (simp add: names_def)
  have kp: "key_parts ?conds ?cs = key_parts conds ?cs" by (rule key_parts_cong, intro ballI f) (simp add: names_def)
  show "covered_cols ?conds names = covered_cols conds names" by (rule covered_cols_cong) (simp add: f)
  have ready: "\<forall>c \<in> set ?cs. col_shape c \<and> full_literals ?conds c"
  proof
    fix c
    assume c: "c \<in> set ?cs"
    then have "full_literals ?conds c = full_literals conds c" by (intro full_literals_cong f) (simp add: names_def)
    then show "col_shape c \<and> full_literals ?conds c" using im(2) c by (simp add: lits_ready_def)
  qed
  then show "scan_keys ?conds names im = Some (Inr (low_key conds im, high_key conds im))"
    using scan_keys_ok [of im ?conds] im(1) by (simp add: names_def kp [unfolded names_def] index_ok_def low_key_def high_key_def)
  have shape: "\<forall>c \<in> set ?cs. col_shape c" using ready by blast
  show "key_ok (map col_type ?cs) (map col_len ?cs) (low_key conds im)" "key_ok (map col_type ?cs) (map col_len ?cs) (high_key conds im)"
    unfolding low_key_def high_key_def by (rule key_rank_parts(2) [OF _ shape], rule key_parts_ok [OF im(2)])+
qed

lemma scan_selects:
  fixes im :: IndexMeta
  defines "names \<equiv> map col_name (im_cols im)"
  assumes "clause_ready cols conds im" "row_admissible im r"
  shows "(im_rank im (low_key conds im) \<le> im_rank im (row_key im r) \<and> im_rank im (row_key im r) \<le> im_rank im (high_key conds im) \<and>
      (\<forall>k \<in> set (fed_conds (index_optimized_conditions names conds) conds names). satisfies cols r k)) \<longleftrightarrow>
     (\<forall>k \<in> set conds. satisfies cols r k)"
proof -
  let ?cs = "im_cols im" and ?fed = "fed_conds (index_optimized_conditions names conds) conds names"
  have im: "index_ok im" "\<forall>c \<in> set ?cs. col_ready cols conds c r" "\<forall>c \<in> set ?cs. lits_ready cols conds c"
    "\<forall>c \<in> set ?cs. col_name c \<in> set (covered_cols conds (map col_name ?cs)) \<longrightarrow> exact_conds conds c"
    using assms(2,3) by (auto simp: clause_ready_def row_admissible_def col_ready_def)
  have shape: "\<forall>c \<in> set ?cs. col_shape c" using im(2) ready_shape by blast
  have ik: "row_key im r = concat (map (\<lambda>c. col_bytes c r) ?cs)" using im(1) by (simp add: row_key_def index_ok_def col_bytes_def)
  note ranks = key_rank_parts(1) [OF key_parts_ok(1) [OF im(3)] shape] key_rank_parts(1) [OF key_parts_ok(2) [OF im(3)] shape]
    key_rank_parts(1) [OF row_parts_ok [OF im(2)] shape]
  have "satisfies cols r k"
    if b: "im_rank im (low_key conds im) \<le> im_rank im (row_key im r)" "im_rank im (row_key im r) \<le> im_rank im (high_key conds im)"
      and fed: "\<forall>k \<in> set ?fed. satisfies cols r k" and m: "k \<in> set conds" for k
  proof (cases "is_rhs_val k \<and> tc_col_name (lhs_col k) \<in> set (covered_cols conds (map col_name ?cs))")
    case True
    show ?thesis
      by (rule keys_cover [OF im(2,4) _ _ _ m]) (use b im(1) True in \<open>auto simp: im_rank_def low_key_def high_key_def ik ranks index_ok_def\<close>)
  next
    case False
    then have "k \<in> set ?fed" using m clause_keys(2) [OF assms(2)] by (auto simp: fed_conds_def names_def)
    then show ?thesis using fed by blast
  qed
  moreover have "im_rank im (low_key conds im) \<le> im_rank im (row_key im r)" "im_rank im (row_key im r) \<le> im_rank im (high_key conds im)"
    if "\<forall>k \<in> set conds. satisfies cols r k"
    unfolding im_rank_def low_key_def high_key_def ik ranks by (rule concat_le, rule keys_sound, use im(2) that in auto)+
  moreover have "\<forall>k \<in> set ?fed. satisfies cols r k" if "\<forall>k \<in> set conds. satisfies cols r k" using that by (simp add: fed_conds_def)
  ultimately show ?thesis by blast
qed

subsection \<open>The tuple loop\<close>

text \<open>The parameters of a scan; \<open>is_fuel\<close> bounds the cursor moves of one call. The state has the cursor, the index, the file,
  the current record id and the current record.\<close>

record index_scan =
  is_cols :: "ColMeta list"
  is_raw_conds :: "Condition list"
  is_conds :: "Condition list"
  is_names :: "string list"
  is_meta :: IndexMeta
  is_proj :: "(ColMeta \<times> ColMeta) list"
  is_tid :: "txn_id option"
  is_fuel :: nat

record index_state =
  xs_query :: index_scan
  xs_scan :: IxScan
  xs_index :: ix_index
  xs_file :: rm_file
  xs_rid :: Rid
  xs_rec :: "bytes option"

text \<open>The constructor: the metadata of the table and of the index, the conditions turned to the table and ordered by the columns of
  the index, and the projection.\<close>

definition new_index_scan :: "DbMeta \<Rightarrow> string \<Rightarrow> Condition list \<Rightarrow> string list \<Rightarrow> TabCol list \<Rightarrow> txn_id option \<Rightarrow> nat \<Rightarrow> db_error + index_scan" where
  "new_index_scan db tab conds names tcs tid fuel =
     (case get_table tab db of
        Inl e \<Rightarrow> Inl e
      | Inr t \<Rightarrow> (case get_index_meta names t of
          Inl e \<Rightarrow> Inl e
        | Inr im \<Rightarrow> (case swap_conds tab conds of
            Inl e \<Rightarrow> Inl e
          | Inr cs \<Rightarrow> Inr \<lparr>is_cols = tab_cols t, is_raw_conds = conds, is_conds = index_optimized_conditions names cs, is_names = names,
                          is_meta = im, is_proj = build_projection (tab_cols t) tcs, is_tid = tid, is_fuel = fuel\<rparr>)))"

definition is_filter :: "index_scan \<Rightarrow> Condition list" where
  "is_filter q = fed_conds (is_conds q) (is_raw_conds q) (is_names q)"

definition run_checked :: "'a ix_run \<Rightarrow> ('a \<times> ix_index) checked" where
  "run_checked m = (case m of None \<Rightarrow> None | Some (Inl e, s) \<Rightarrow> Some (Inl e) | Some (Inr a, s) \<Rightarrow> Some (Inr (a, s)))"

text \<open>The record at the cursor and whether it passes the filter. The two exceptions of a missing entry and a missing record
  are caught; when the entry is missing the leaf has been fetched before.\<close>

definition index_try :: "index_state \<Rightarrow> (bool \<times> index_state) checked" where
  "index_try x =
     (let q = xs_query x
      in case ix_scan_rid (xs_scan x) (xs_index x) of
           None \<Rightarrow> None
         | Some (Inl IndexEntryNotFoundError, s) \<Rightarrow>
             Some (Inr (False, x\<lparr>xs_scan := (xs_scan x)\<lparr>scan_cached := Some (iid_page_no (scan_iid (xs_scan x)))\<rparr>, xs_index := s\<rparr>))
         | Some (Inl e, s) \<Rightarrow> Some (Inl e)
         | Some (Inr (rid, sc), s) \<Rightarrow>
             (let x = x\<lparr>xs_scan := sc, xs_index := s, xs_rid := rid\<rparr>
              in case get_record_mvcc (is_tid q) rid (xs_file x) of
                   (Inl (RecordNotFoundError p i), f) \<Rightarrow> Some (Inr (False, x\<lparr>xs_file := f\<rparr>))
                 | (Inl e, f) \<Rightarrow> Some (Inl e)
                 | (Inr None, f) \<Rightarrow> Some (Inr (False, x\<lparr>xs_file := f, xs_rec := None\<rparr>))
                 | (Inr (Some r), f) \<Rightarrow>
                     chk (cmp_conds (is_cols q) (is_filter q) r) (\<lambda>hit. Some (Inr (hit, x\<lparr>xs_file := f, xs_rec := Some r\<rparr>)))))"

definition index_step :: "index_state \<Rightarrow> index_state checked" where
  "index_step x = chk (run_checked (ix_scan_next (xs_scan x) (xs_index x))) (\<lambda>(sc, s). Some (Inr (x\<lparr>xs_scan := sc, xs_index := s\<rparr>)))"

fun index_seek :: "nat \<Rightarrow> index_state \<Rightarrow> index_state checked" where
  "index_seek 0 x = None"
| "index_seek (Suc n) x =
     (if ix_scan_is_end (xs_scan x) then Some (Inr x)
      else chk (index_try x) (\<lambda>(hit, x). if hit then Some (Inr x) else chk (index_step x) (\<lambda>x. index_seek n x)))"

definition index_begin :: "index_scan \<times> ix_index \<times> rm_file \<Rightarrow> index_state checked" where
  "index_begin q =
     (let (q, s, f) = q
      in chk (run_checked (leaf_begin s)) (\<lambda>(_, s). chk (run_checked (leaf_end s)) (\<lambda>(_, s).
         chk (scan_keys (is_conds q) (is_names q) (is_meta q)) (\<lambda>(lower_key, upper_key).
         chk (run_checked (index_lower_bound lower_key s)) (\<lambda>(lower, s).
         chk (run_checked (index_upper_bound upper_key s)) (\<lambda>(upper, s).
           index_seek (is_fuel q)
             \<lparr>xs_query = q, xs_scan = new_ix_scan lower upper, xs_index = s, xs_file = f,
              xs_rid = \<lparr>rid_page_no = RM_NO_PAGE, rid_slot_no = 0\<rparr>, xs_rec = None\<rparr>))))))"

definition index_is_end :: "index_state \<Rightarrow> bool" where
  "index_is_end x = ix_scan_is_end (xs_scan x)"

definition index_next :: "index_state \<Rightarrow> index_state checked" where
  "index_next x = (if index_is_end x then Some (Inr x) else chk (index_step x) (\<lambda>x. index_seek (is_fuel (xs_query x)) x))"

definition index_get :: "index_state \<Rightarrow> bytes option checked" where
  "index_get x = Some (Inr (if index_is_end x then None else map_option (project (is_proj (xs_query x))) (xs_rec x)))"

subsection \<open>What an index scan returns\<close>

lemma run_checked_simps [simp]:
  "run_checked (Some (Inl e, s)) = Some (Inl e)" "run_checked (Some (Inr a, s)) = Some (Inr (a, s))"
  by (simp_all add: run_checked_def)

lemma run_bind_Inr: "run_bind m k = Some (Inr y, s') \<longleftrightarrow> (\<exists>x s. m = Some (Inr x, s) \<and> k x s = Some (Inr y, s'))"
  by (auto simp: run_bind_def split: option.splits prod.splits sum.splits)

lemma cached_leaf_again:
  assumes "cached_leaf sc s = Some (Inr sc', s')"
  shows "cached_leaf sc' s' = Some (Inr sc', s') \<and> scan_iid sc' = scan_iid sc \<and> scan_end sc' = scan_end sc"
  using assms by (auto simp: cached_leaf_def Let_def run_bind_Inr split: if_splits)

text \<open>Reading the record id again changes nothing.\<close>

lemma ix_scan_rid_again:
  assumes "ix_scan_rid sc s = Some (Inr (r, sc'), s')"
  shows "ix_scan_rid sc' s' = Some (Inr (r, sc'), s') \<and> ix_scan_is_end sc' = ix_scan_is_end sc"
proof -
  obtain sc1 s1 where c: "cached_leaf sc s = Some (Inr sc1, s1)" "sc' = sc1" "s' = s1" "\<not> ix_scan_is_end sc"
    "nd_leaf (node s1 (iid_page_no (scan_iid sc1)))" "0 \<le> iid_slot_no (scan_iid sc1)" "iid_slot_no (scan_iid sc1) < int (num_key (node s1 (iid_page_no (scan_iid sc1))))"
    "r = ix_get_rid (node s1 (iid_page_no (scan_iid sc1))) (nat (iid_slot_no (scan_iid sc1)))"
    using assms by (auto simp: ix_scan_rid_def run_bind_Inr Let_def split: if_splits)
  then show ?thesis using cached_leaf_again [OF c(1)] by (simp add: ix_scan_rid_def run_bind_def ix_scan_is_end_def)
qed

lemma ix_scan_loop_mono: "ix_scan_loop n sc s = Some (Inr rs, s') \<Longrightarrow> n \<le> m \<Longrightarrow> ix_scan_loop m sc s = Some (Inr rs, s')"
proof (induction n arbitrary: m sc s rs)
  case (Suc n)
  then obtain k where m: "m = Suc k" "n \<le> k" by (cases m) auto
  show ?case
  proof (cases "ix_scan_is_end sc")
    case True
    then show ?thesis using Suc.prems(1) m(1) by simp
  next
    case False
    then obtain r sc1 s1 sc2 s2 rs2 where k: "ix_scan_rid sc s = Some (Inr (r, sc1), s1)" "ix_scan_next sc1 s1 = Some (Inr sc2, s2)"
      "ix_scan_loop n sc2 s2 = Some (Inr rs2, s')" "rs = r # rs2"
      using Suc.prems(1) by (auto simp: run_bind_Inr)
    then show ?thesis using Suc.IH [OF k(3) m(2)] False m(1) by (simp add: run_bind_def)
  qed
qed simp

text \<open>The entries of a scan are records of the file on which the filter evaluates.\<close>

definition rids_ok :: "index_scan \<Rightarrow> rm_file \<Rightarrow> Rid list \<Rightarrow> bool" where
  "rids_ok q f rids \<longleftrightarrow> (\<forall>rid \<in> set rids. \<exists>r b. file_records f rid = Some r \<and> cmp_conds (is_cols q) (is_filter q) r = Some (Inr b))"

definition index_hit :: "index_scan \<Rightarrow> rm_file \<Rightarrow> Rid \<Rightarrow> bool" where
  "index_hit q f rid \<longleftrightarrow> visible (is_tid q) f rid \<and>
     (\<exists>r. file_records f rid = Some r \<and> cmp_conds (is_cols q) (is_filter q) r = Some (Inr True))"

definition index_row :: "index_scan \<Rightarrow> rm_file \<Rightarrow> Rid \<Rightarrow> bytes option" where
  "index_row q f rid = map_option (project (is_proj q)) (file_records f rid)"

lemma index_try_ok:
  assumes "ix_scan_rid (xs_scan x) (xs_index x) = Some (Inr (rid, sc), s)" "xs_query x = q" "xs_file x = f" "file_inv f" "room f" "rids_ok q f [rid]"
  shows "\<exists>x'. index_try x = Some (Inr (index_hit q f rid, x')) \<and> xs_query x' = q \<and> xs_file x' = f \<and> xs_scan x' = sc \<and> xs_index x' = s \<and>
    (index_hit q f rid \<longrightarrow> xs_rec x' = file_records f rid)"
proof -
  obtain r b where r: "file_records f rid = Some r" "cmp_conds (is_cols q) (is_filter q) r = Some (Inr b)" using assms(6) by (auto simp: rids_ok_def)
  note g = get_record_mvcc_ok [OF assms(4,5) r(1), of "is_tid q"]
  show ?thesis using assms(1-3) g r by (cases "visible (is_tid q) f rid") (auto simp: index_try_def index_hit_def)
qed

text \<open>A cursor that stands on an entry whose leaf it holds, with the record of the entry read.\<close>

definition settled :: "index_state \<Rightarrow> Rid \<Rightarrow> bool" where
  "settled x rid \<longleftrightarrow> xs_rec x = file_records (xs_file x) rid \<and>
     ix_scan_rid (xs_scan x) (xs_index x) = Some (Inr (rid, xs_scan x), xs_index x)"

lemma index_seek_ok:
  assumes "file_inv f" "room f" "xs_query x = q" "xs_file x = f" "ix_scan_loop n (xs_scan x) (xs_index x) = Some (Inr rids, s0)" "rids_ok q f rids"
  shows "\<exists>x'. index_seek n x = Some (Inr x') \<and> xs_query x' = q \<and> xs_file x' = f \<and>
    ix_scan_loop n (xs_scan x') (xs_index x') = Some (Inr (dropWhile (\<lambda>r. \<not> index_hit q f r) rids), s0) \<and>
    (dropWhile (\<lambda>r. \<not> index_hit q f r) rids \<noteq> [] \<longrightarrow> settled x' (hd (dropWhile (\<lambda>r. \<not> index_hit q f r) rids)))"
  using assms(3-6)
proof (induction n arbitrary: x rids)
  case (Suc n)
  show ?case
  proof (cases "ix_scan_is_end (xs_scan x)")
    case True
    then show ?thesis using Suc.prems by simp
  next
    case False
    obtain r sc1 s1 sc2 s2 rs2 where k: "ix_scan_rid (xs_scan x) (xs_index x) = Some (Inr (r, sc1), s1)" "ix_scan_next sc1 s1 = Some (Inr sc2, s2)"
      "ix_scan_loop n sc2 s2 = Some (Inr rs2, s0)" "rids = r # rs2"
      using Suc.prems(3) False by (auto simp: run_bind_Inr)
    have ok: "rids_ok q f [r]" "rids_ok q f rs2" using Suc.prems(4) k(4) by (auto simp: rids_ok_def)
    obtain x1 where x1: "index_try x = Some (Inr (index_hit q f r, x1))" "xs_query x1 = q" "xs_file x1 = f" "xs_scan x1 = sc1" "xs_index x1 = s1"
      "index_hit q f r \<longrightarrow> xs_rec x1 = file_records f r"
      using index_try_ok [OF k(1) Suc.prems(1,2) assms(1,2) ok(1)] by blast
    show ?thesis
    proof (cases "index_hit q f r")
      case True
      have "ix_scan_loop (Suc n) sc1 s1 = Some (Inr rids, s0)" using ix_scan_rid_again [OF k(1)] False k by (simp add: run_bind_def)
      moreover have "index_seek (Suc n) x = Some (Inr x1)" using True False x1(1) by simp
      moreover have "settled x1 r" using True x1 ix_scan_rid_again [OF k(1)] by (simp add: settled_def)
      ultimately show ?thesis using True x1 k(4) by (intro exI [of _ x1]) (simp del: ix_scan_loop.simps)
    next
      case F: False
      let ?x2 = "x1\<lparr>xs_scan := sc2, xs_index := s2\<rparr>"
      have "index_seek (Suc n) x = index_seek n ?x2" using False F x1 k(2) by (simp add: index_step_def)
      then show ?thesis using Suc.IH [of ?x2 rs2] x1 k(3,4) F ok(2) ix_scan_loop_mono [of n _ _ _ s0 "Suc n"] by fastforce
    qed
  qed
qed simp

text \<open>The last leaf of the header is a page of the index; its position is fetched first and then replaced.\<close>

definition ends_ok :: "ix_index \<Rightarrow> bool" where
  "ends_ok s \<longleftrightarrow> ixh_last_leaf (ix_hdr s) = IX_NO_PAGE \<or> ix_nodes s (ixh_last_leaf (ix_hdr s)) \<noteq> None"

lemma leaf_end_ok:
  assumes "ends_ok s"
  shows "\<exists>i. leaf_end s = Some (Inr i, s)" "\<exists>i. leaf_begin s = Some (Inr i, s)"
proof -
  show e: "\<exists>i. leaf_end s = Some (Inr i, s)"
    using assms by (cases "ixh_last_leaf (ix_hdr s) = IX_NO_PAGE") (auto simp: ends_ok_def leaf_end_def fetch_node_def run_bind_def unpin_def Let_def)
  then show "\<exists>i. leaf_begin s = Some (Inr i, s)" by (auto simp: leaf_begin_def)
qed

text \<open>The record ids between the bounds of the keys.\<close>

definition range_rids :: "index_scan \<Rightarrow> ix_index \<Rightarrow> (Rid list \<times> ix_index) checked" where
  "range_rids q s =
     chk (scan_keys (is_conds q) (is_names q) (is_meta q)) (\<lambda>(lower_key, upper_key).
     chk (run_checked (index_lower_bound lower_key s)) (\<lambda>(lower, s).
     chk (run_checked (index_upper_bound upper_key s)) (\<lambda>(upper, s).
     run_checked (ix_scan_loop (is_fuel q) (new_ix_scan lower upper) s))))"

definition index_ready :: "index_scan \<times> ix_index \<times> rm_file \<Rightarrow> bool" where
  "index_ready x \<longleftrightarrow> (let (q, s, f) = x in ends_ok s \<and> file_inv f \<and> room f \<and> (\<exists>rids s'. range_rids q s = Some (Inr (rids, s')) \<and> rids_ok q f rids))"

definition index_rows :: "index_scan \<times> ix_index \<times> rm_file \<Rightarrow> bytes option list" where
  "index_rows x = (let (q, s, f) = x in case range_rids q s of Some (Inr (rids, _)) \<Rightarrow> map (index_row q f) (filter (index_hit q f) rids) | _ \<Rightarrow> [])"

definition index_rids :: "index_state \<Rightarrow> Rid list" where
  "index_rids x = (case ix_scan_loop (is_fuel (xs_query x)) (xs_scan x) (xs_index x) of Some (Inr rids, _) \<Rightarrow> rids | _ \<Rightarrow> [])"

definition index_rest :: "index_state \<Rightarrow> bytes option list" where
  "index_rest x = map (index_row (xs_query x) (xs_file x)) (filter (index_hit (xs_query x) (xs_file x)) (index_rids x))"

definition index_inv :: "index_scan \<times> ix_index \<times> rm_file \<Rightarrow> index_state \<Rightarrow> bool" where
  "index_inv y x \<longleftrightarrow> (let (q, s, f) = y in xs_query x = q \<and> xs_file x = f \<and> file_inv f \<and> room f \<and> rids_ok q f (index_rids x) \<and>
     (\<exists>rids s0. ix_scan_loop (is_fuel q) (xs_scan x) (xs_index x) = Some (Inr rids, s0) \<and>
       (rids \<noteq> [] \<longrightarrow> index_hit q f (hd rids) \<and> settled x (hd rids))))"

lemma index_rids_at: "ix_scan_loop (is_fuel (xs_query x)) (xs_scan x) (xs_index x) = Some (Inr rids, s0) \<Longrightarrow> index_rids x = rids"
  by (simp add: index_rids_def)

lemma dropWhile_hd: "dropWhile (\<lambda>r. \<not> P r) xs \<noteq> [] \<Longrightarrow> P (hd (dropWhile (\<lambda>r. \<not> P r) xs))"
  using hd_dropWhile [of "\<lambda>r. \<not> P r" xs] by simp

lemma index_advance:
  assumes "file_inv f" "room f" "xs_query x = q" "xs_file x = f" "ix_scan_loop (is_fuel q) (xs_scan x) (xs_index x) = Some (Inr rids, s0)" "rids_ok q f rids"
  shows "\<exists>x'. index_seek (is_fuel q) x = Some (Inr x') \<and> index_inv (q, s, f) x' \<and> index_rest x' = map (index_row q f) (filter (index_hit q f) rids)"
proof -
  let ?d = "dropWhile (\<lambda>r. \<not> index_hit q f r) rids"
  obtain x' where k: "index_seek (is_fuel q) x = Some (Inr x')" "xs_query x' = q" "xs_file x' = f"
    "ix_scan_loop (is_fuel q) (xs_scan x') (xs_index x') = Some (Inr ?d, s0)" "?d \<noteq> [] \<longrightarrow> settled x' (hd ?d)"
    using index_seek_ok [OF assms] by blast
  have d: "index_rids x' = ?d" using index_rids_at [of x'] k by simp
  have "rids_ok q f ?d" using assms(6) by (auto simp: rids_ok_def dest: set_dropWhileD)
  then have "index_inv (q, s, f) x'" using k assms(1,2) d dropWhile_hd [of "index_hit q f" rids] by (simp add: index_inv_def)
  then show ?thesis using k d by (auto simp: index_rest_def filter_dropWhile)
qed

lemma index_inv_cases:
  assumes "index_inv y x" "index_rest x = r # rs"
  obtains q s f rid rids s0 where "y = (q, s, f)" "xs_query x = q" "xs_file x = f" "file_inv f" "room f"
    "ix_scan_loop (is_fuel q) (xs_scan x) (xs_index x) = Some (Inr (rid # rids), s0)" "\<not> ix_scan_is_end (xs_scan x)"
    "rids_ok q f (rid # rids)" "settled x rid" "r = index_row q f rid" "rs = map (index_row q f) (filter (index_hit q f) rids)"
proof -
  obtain q s f where y: "y = (q, s, f)" by (cases y)
  obtain l s0 where l: "ix_scan_loop (is_fuel q) (xs_scan x) (xs_index x) = Some (Inr l, s0)" "xs_query x = q" "xs_file x = f" "file_inv f" "room f"
    "rids_ok q f (index_rids x)" "l \<noteq> [] \<longrightarrow> index_hit q f (hd l) \<and> settled x (hd l)"
    using assms(1) by (auto simp: index_inv_def y)
  have ir: "index_rids x = l" using index_rids_at [of x] l by simp
  then obtain rid rids where c: "l = rid # rids" using assms(2) by (cases l) (auto simp: index_rest_def)
  have "\<not> ix_scan_is_end (xs_scan x)" using l(1) c by (cases "is_fuel q") auto
  then show ?thesis using that [OF y l(2-5) l(1) [unfolded c]] l(6,7) assms(2) ir c l(2,3) by (simp add: index_rest_def)
qed

interpretation index_source: row_source index_begin index_is_end index_next index_get index_ready index_inv index_rows index_rest
proof unfold_locales
  show "\<exists>x. index_begin y = Some (Inr x) \<and> index_inv y x \<and> index_rest x = index_rows y" if r: "index_ready y" for y
  proof -
    obtain q s f where y: "y = (q, s, f)" by (cases y)
    obtain rids s' where k: "file_inv f" "room f" "range_rids q s = Some (Inr (rids, s'))" "rids_ok q f rids" "ends_ok s"
      using r by (auto simp: index_ready_def y)
    obtain i j where ends: "leaf_begin s = Some (Inr i, s)" "leaf_end s = Some (Inr j, s)" using leaf_end_ok [OF k(5)] by blast
    obtain lk uk lo s1 up s2 where b: "scan_keys (is_conds q) (is_names q) (is_meta q) = Some (Inr (lk, uk))"
      "run_checked (index_lower_bound lk s) = Some (Inr (lo, s1))" "run_checked (index_upper_bound uk s1) = Some (Inr (up, s2))"
      "run_checked (ix_scan_loop (is_fuel q) (new_ix_scan lo up) s2) = Some (Inr (rids, s'))"
      using k(3) by (auto simp: range_rids_def chk_Inr)
    have "ix_scan_loop (is_fuel q) (new_ix_scan lo up) s2 = Some (Inr rids, s')" using b(4) by (auto simp: run_checked_def split: option.splits prod.splits sum.splits)
    from index_advance [OF k(1,2) _ _ _ k(4), of "\<lparr>xs_query = q, xs_scan = new_ix_scan lo up, xs_index = s2, xs_file = f,
              xs_rid = \<lparr>rid_page_no = RM_NO_PAGE, rid_slot_no = 0\<rparr>, xs_rec = None\<rparr>" s' s] this
    show ?thesis using b k(3) by (auto simp: index_begin_def y index_rows_def ends)
  qed
  show "index_is_end x \<longleftrightarrow> index_rest x = []" if i: "index_inv y x" for y x
  proof (cases "index_rest x")
    case (Cons r rs)
    then show ?thesis by (rule index_inv_cases [OF i]) (simp add: index_is_end_def Cons)
  next
    case Nil
    obtain q s f where y: "y = (q, s, f)" by (cases y)
    obtain l s0 where l: "ix_scan_loop (is_fuel q) (xs_scan x) (xs_index x) = Some (Inr l, s0)" "xs_query x = q" "xs_file x = f"
      "l \<noteq> [] \<longrightarrow> index_hit q f (hd l)" using i by (auto simp: index_inv_def y)
    have "l = []" using Nil l index_rids_at [of x] by (cases l) (auto simp: index_rest_def)
    then show ?thesis using l(1) Nil by (cases "is_fuel q") (auto simp: index_is_end_def run_bind_Inr split: if_splits)
  qed
  show "index_get x = Some (Inr r)" if i: "index_inv y x" "index_rest x = r # rs" for y x r rs
    by (rule index_inv_cases [OF i]) (simp add: index_get_def index_is_end_def index_row_def settled_def)
  show "\<exists>x'. index_next x = Some (Inr x') \<and> index_inv y x' \<and> index_rest x' = rs" if i: "index_inv y x" "index_rest x = r # rs" for y x r rs
  proof -
    obtain q s f rid rids s0 where k: "y = (q, s, f)" "xs_query x = q" "xs_file x = f" "file_inv f" "room f"
      "ix_scan_loop (is_fuel q) (xs_scan x) (xs_index x) = Some (Inr (rid # rids), s0)" "\<not> ix_scan_is_end (xs_scan x)"
      "rids_ok q f (rid # rids)" "settled x rid" "rs = map (index_row q f) (filter (index_hit q f) rids)"
      by (rule index_inv_cases [OF i])
    obtain n where n: "is_fuel q = Suc n" using k(6) by (cases "is_fuel q") auto
    obtain sc s2 where m: "ix_scan_next (xs_scan x) (xs_index x) = Some (Inr sc, s2)" "ix_scan_loop n sc s2 = Some (Inr rids, s0)"
      using k(6,7,9) by (auto simp: n run_bind_Inr settled_def)
    have "ix_scan_loop (is_fuel q) sc s2 = Some (Inr rids, s0)" by (rule ix_scan_loop_mono [OF m(2)]) (simp add: n)
    then show ?thesis
      using index_advance [OF k(4,5), of "x\<lparr>xs_scan := sc, xs_index := s2\<rparr>" q rids s0 s] k m(1)
      by (auto simp: index_next_def index_is_end_def index_step_def rids_ok_def)
  qed
qed

lemma all_conds_True: "all_conds f cs = Some (Inr True) \<longleftrightarrow> (\<forall>c \<in> set cs. f c = Some (Inr True))"
  by (induction cs) (auto simp: chk_def split: option.splits sum.splits)

lemma cmp_conds_satisfies: "cmp_conds cols conds r = Some (Inr True) \<longleftrightarrow> (\<forall>k \<in> set conds. satisfies cols r k)"
  by (simp add: cmp_conds_def all_conds_True satisfies_def)

text \<open>The executor of a where clause on an index.\<close>

definition scan_of :: "index_scan \<Rightarrow> ColMeta list \<Rightarrow> Condition list \<Rightarrow> IndexMeta \<Rightarrow> bool" where
  "scan_of q cols conds im \<longleftrightarrow> is_cols q = cols \<and> is_raw_conds q = conds \<and> is_names q = map col_name (im_cols im) \<and>
     is_conds q = index_optimized_conditions (is_names q) conds \<and> is_meta q = im"

text \<open>The index has an entry for each of some rows of the file, under its key.\<close>

definition entries_ok :: "ColMeta list \<Rightarrow> Condition list \<Rightarrow> IndexMeta \<Rightarrow> rm_file \<Rightarrow> entry list \<Rightarrow> bool" where
  "entries_ok cols conds im f es \<longleftrightarrow>
     (\<forall>e \<in> set es. \<exists>r. file_records f (snd e) = Some r \<and> row_key im r = fst e \<and> row_admissible im r \<and>
        (\<forall>k \<in> set conds. \<exists>b. cmp_cond cols k r = Some (Inr b)))"

lemma range_rids_ok:
  assumes "tree_ok s L Ls" "ixh_last_leaf (ix_hdr s) \<notin> set (butlast L)"
    and hdr: "ixh_col_types (ix_hdr s) = map col_type (im_cols im)" "ixh_col_lens (ix_hdr s) = map col_len (im_cols im)"
    and q: "scan_of q cols conds im" "clause_ready cols conds im" "length (row (ix_nodes s) L) < is_fuel q"
    and le: "im_rank im (low_key conds im) \<le> im_rank im (high_key conds im)"
  shows "range_rids q s = Some (Inr (map snd (filter (\<lambda>e. im_rank im (low_key conds im) \<le> im_rank im (fst e) \<and> im_rank im (fst e) \<le> im_rank im (high_key conds im))
    (row (ix_nodes s) L)), s))"
proof -
  have rk: "rank_of (ix_hdr s) k = im_rank im k" for k by (simp add: hdr im_rank_def)
  have good: "good_key (ix_hdr s) (low_key conds im)" "good_key (ix_hdr s) (high_key conds im)" using clause_keys(3,4) [OF q(2)] by (simp_all add: hdr)
  note keys = clause_keys(1) [OF q(2)]
  from scan_range_ok [OF assms(1,2) good _ q(3)] le obtain lower upper where
    "index_lower_bound (low_key conds im) s = Some (Inr lower, s)" "index_upper_bound (high_key conds im) s = Some (Inr upper, s)"
    "ix_scan_loop (is_fuel q) (new_ix_scan lower upper) s = Some (Inr (map snd (filter
      (\<lambda>e. im_rank im (low_key conds im) \<le> im_rank im (fst e) \<and> im_rank im (fst e) \<le> im_rank im (high_key conds im)) (row (ix_nodes s) L))), s)"
    unfolding rk by blast
  then show ?thesis using keys q(1) by (simp add: range_rids_def scan_of_def)
qed

lemma filter_map_snd: "map g (filter P (map snd xs)) = map (\<lambda>e. g (snd e)) (filter (\<lambda>e. P (snd e)) xs)"
  by (simp add: filter_map o_def)


text \<open>An index on the integer column \<open>a\<close> of a table with one row.\<close>

definition one_key :: "Rid \<Rightarrow> ix_index" where
  "one_key rid = small_index\<lparr>ix_nodes := (ix_nodes small_index)(IX_INIT_ROOT_PAGE \<mapsto>
     (node small_index IX_INIT_ROOT_PAGE)\<lparr>nd_entries := [(enc_i32 7, rid)]\<rparr>)\<rparr>"

definition example_query :: "Condition list \<Rightarrow> index_scan" where
  "example_query conds = \<lparr>is_cols = [example_col ''a'' 0], is_raw_conds = conds, is_conds = index_optimized_conditions [''a''] conds,
     is_names = [''a''], is_meta = example_index ''a'' 0, is_proj = [], is_tid = None, is_fuel = 2\<rparr>"

lemma int_rank: "int32 n \<Longrightarrow> key_rank [TYPE_INT] [4] (enc_i32 n) = [n]"
  by (simp add: col_rank_def read_i32_def read_bytes_def dec_enc_i32)

lemma one_key_ok:
  "tree_ok (one_key rid) [IX_INIT_ROOT_PAGE] []" "ixh_col_types (ix_hdr (one_key rid)) = [TYPE_INT]" "ixh_col_lens (ix_hdr (one_key rid)) = [4]"
  "row (ix_nodes (one_key rid)) [IX_INIT_ROOT_PAGE] = [(enc_i32 7, rid)]"
proof -
  have h: "ix_hdr (one_key rid) = (new_index_hdr [(TYPE_INT, 4)])\<lparr>ixh_btree_order := 3\<rparr>" by (simp add: one_key_def small_index_def)
  show c: "ixh_col_types (ix_hdr (one_key rid)) = [TYPE_INT]" "ixh_col_lens (ix_hdr (one_key rid)) = [4]"
    by (simp_all add: h new_index_hdr_def update_tot_len_def Let_def)
  have e: "ents (ix_nodes (one_key rid)) IX_INIT_ROOT_PAGE = [(enc_i32 7, rid)]" by (simp add: one_key_def)
  then show "row (ix_nodes (one_key rid)) [IX_INIT_ROOT_PAGE] = [(enc_i32 7, rid)]" by simp
  have "good_entries (ix_hdr (one_key rid)) [(enc_i32 7, rid)]" unfolding good_entries_def c by simp
  moreover have "hdr_cfg_ok (ix_hdr (one_key rid))" "ixh_root_page (ix_hdr (one_key rid)) = IX_INIT_ROOT_PAGE" "ixh_btree_order (ix_hdr (one_key rid)) = 3"
    by (simp_all add: h hdr_cfg_ok_def new_index_hdr_def update_tot_len_def Let_def)
  ultimately show "tree_ok (one_key rid) [IX_INIT_ROOT_PAGE] []" unfolding tree_ok_def level_ok_def pages_ok_def leaves_ok_def
    using e by (simp add: root_of_def) (auto simp: one_key_def small_index_def node_def IX_INIT_ROOT_PAGE_def IX_LEAF_HEADER_PAGE_def par_def)
qed

lemma int_clause:
  assumes "int32 n"
  shows "lits_ready [example_col ''a'' 0] [example_cond op (int_literal n)] (example_col ''a'' 0)"
    "raw_bytes (example_cond op (int_literal n)) = enc_i32 n" "on_column ''a'' (example_cond op (int_literal n))"
    "cond_op (example_cond op (int_literal n)) = op"
proof -
  let ?c = "example_col ''a'' 0" and ?k = "example_cond op (int_literal n)"
  have t: "col_type ?c = TYPE_INT" "col_len ?c = 4" "col_name ?c = ''a''" by (simp_all add: example_col_def)
  have k: "is_rhs_val ?k" "rhs_val ?k = int_literal n" "get_col [?c] (lhs_col ?k) = Inr ?c" by (simp_all add: example_cond_def get_col_def example_col_def)
  have "no_nan (int_literal n)" by (simp add: no_nan_def int_literal_def set_int_def)
  then show "lits_ready [?c] [?k] ?c"
    using int_literal_ok [OF assms t(1,2)] k t by (simp add: lits_ready_def col_shape_def full_literals_def full_literal_def)
  show "raw_bytes ?k = enc_i32 n" by (simp add: raw_bytes_def example_cond_def int_literal_def)
  show "on_column ''a'' ?k" "cond_op ?k = op" by (simp_all add: on_column_def example_cond_def)
qed

lemma example_cmp: "cmp_conds [example_col ''a'' 0] [example_cond OP_GT (int_literal 3)] (enc_i32 7) = Some (Inr True)"
proof -
  have i: "int32 7" "int32 3" by (simp_all add: int32_def)
  show ?thesis
    by (simp add: cmp_conds_def cmp_cond_def get_col_def example_cond_def example_col_def rhs_operand_def raw_of_def int_literal_def set_int_def
        compare_col_def load_def read_bytes_def cmp_op_def read_i32_def dec_enc_i32 [OF i(1)] dec_enc_i32 [OF i(2)] compare_three_way_def)
qed


subsection \<open>Conditions the keys do not express\<close>

text \<open>The hypotheses of \<open>clause_ready\<close> are needed. A condition \<open>a \<noteq> 7\<close> leaves the keys at the ends of the range and is
  dropped from the filter all the same, and so is \<open>a > 2147483647\<close>, whose operand is not shifted.\<close>

lemma int_scan_keys:
  assumes "\<forall>k \<in> set ks. \<exists>op n. int32 n \<and> k = example_cond op (int_literal n)"
  shows "scan_keys ks [''a''] (example_index ''a'' 0) =
    Some (Inr (or_else (lo_part ks (example_col ''a'' 0)) (enc_i32 (- (2 ^ 31))), or_else (hi_part ks (example_col ''a'' 0)) (enc_i32 INT32_MAX)))"
proof -
  let ?c = "example_col ''a'' 0" and ?im = "example_index ''a'' 0"
  have c: "col_type ?c = TYPE_INT" "col_len ?c = 4" "col_name ?c = ''a''" by (simp_all add: example_col_def)
  have im: "im_cols ?im = [?c]" "im_col_tot_len ?im = 4" by (simp_all add: example_index_def)
  have "full_literal ?c (example_cond op (int_literal n))" if "int32 n" for op n
    using int_literal_ok [OF that c(1,2)] c by (simp add: full_literal_def example_cond_def)
  then have "full_literals ks ?c" using assms by (fastforce simp: full_literals_def)
  then show ?thesis using scan_keys_ok [of ?im ks] by (simp add: im c col_shape_def min_bytes_def max_bytes_def)
qed

lemma int_cond:
  "raw_bytes (example_cond op (int_literal n)) = enc_i32 n" "on_column m (example_cond op v) \<longleftrightarrow> m = ''a''" "cond_op (example_cond op v) = op"
  by (auto simp: raw_bytes_def on_column_def example_cond_def int_literal_def)

lemmas key_facts = lo_part_def hi_part_def or_else_def pick_def int_cond shift_bytes_def example_col_def Let_def

lemma not_equal_dropped:
  "scan_keys [example_cond OP_NE (int_literal 7)] [''a''] (example_index ''a'' 0) = Some (Inr (enc_i32 (- (2 ^ 31)), enc_i32 INT32_MAX))"
  "fed_conds [example_cond OP_NE (int_literal 7)] [example_cond OP_NE (int_literal 7)] [''a''] = []"
proof -
  have "int32 7" by (simp add: int32_def)
  then show "scan_keys [example_cond OP_NE (int_literal 7)] [''a''] (example_index ''a'' 0) = Some (Inr (enc_i32 (- (2 ^ 31)), enc_i32 INT32_MAX))"
    by (subst int_scan_keys) (auto simp: key_facts)
qed (simp add: fed_conds_def int_cond, simp add: example_cond_def)

lemma above_maximum_dropped:
  "scan_keys [example_cond OP_GT (int_literal INT32_MAX)] [''a''] (example_index ''a'' 0) = Some (Inr (enc_i32 INT32_MAX, enc_i32 INT32_MAX))"
  "fed_conds [example_cond OP_GT (int_literal INT32_MAX)] [example_cond OP_GT (int_literal INT32_MAX)] [''a''] = []"
proof -
  have i: "int32 INT32_MAX" "\<not> int32 (INT32_MAX + 1)" by (simp_all add: int32_def INT32_MAX_def)
  then show "scan_keys [example_cond OP_GT (int_literal INT32_MAX)] [''a''] (example_index ''a'' 0) = Some (Inr (enc_i32 INT32_MAX, enc_i32 INT32_MAX))"
    by (subst int_scan_keys) (auto simp: key_facts dec_enc_i32)
qed (simp add: fed_conds_def int_cond, simp add: example_cond_def)

text \<open>Two lower bounds: the key has the last one only, and both are dropped.\<close>

lemma second_bound_wins:
  "scan_keys [example_cond OP_GE (int_literal 9), example_cond OP_GE (int_literal 2)] [''a''] (example_index ''a'' 0) =
     Some (Inr (enc_i32 2, enc_i32 INT32_MAX))"
  "fed_conds [example_cond OP_GE (int_literal 9), example_cond OP_GE (int_literal 2)]
     [example_cond OP_GE (int_literal 9), example_cond OP_GE (int_literal 2)] [''a''] = []"
proof -
  have "int32 9" "int32 2" by (simp_all add: int32_def)
  then show "scan_keys [example_cond OP_GE (int_literal 9), example_cond OP_GE (int_literal 2)] [''a''] (example_index ''a'' 0) =
     Some (Inr (enc_i32 2, enc_i32 INT32_MAX))"
    by (subst int_scan_keys) (auto simp: key_facts)
qed (simp add: fed_conds_def int_cond, simp add: example_cond_def)

text \<open>The key for an equality with a string shorter than the column ends in spaces, the key of the row ends in zeros.\<close>

definition str_literal :: "nat \<Rightarrow> bytes \<Rightarrow> Value" where
  "str_literal len s = (set_str s Value_default)\<lparr>v_raw := Some (s @ replicate (len - length s) 0)\<rparr>"

definition str_index :: "nat \<Rightarrow> IndexMeta" where
  "str_index len = \<lparr>im_tab_name = ''t'', im_col_tot_len = len, im_col_num = 1, im_cols = [str_col ''a'' 0 len]\<rparr>"

lemma short_string_key_differs:
  "cmp_conds [str_col ''a'' 0 4] [example_cond OP_EQ (str_literal 4 [97, 98])] [97, 98, 0, 0] = Some (Inr True)"
  "row_key (str_index 4) [97, 98, 0, 0] = [97, 98, 0, 0]"
  "scan_keys [example_cond OP_EQ (str_literal 4 [97, 98])] [''a''] (str_index 4) = Some (Inr ([97, 98, 32, 32], [97, 98, 32, 32]))"
  by code_simp+

text \<open>A strict bound on a string is not strict in the key, and is dropped.\<close>

lemma strict_string_bound:
  "cmp_conds [str_col ''a'' 0 2] [example_cond OP_GT (str_literal 2 [97, 98])] [97, 98] = Some (Inr False)"
  "scan_keys [example_cond OP_GT (str_literal 2 [97, 98])] [''a''] (str_index 2) = Some (Inr ([97, 98], [255, 255]))"
  "fed_conds [example_cond OP_GT (str_literal 2 [97, 98])] [example_cond OP_GT (str_literal 2 [97, 98])] [''a''] = []"
  by code_simp+

text \<open>An index read back from the catalogue file with the columns of the one before in front: its keys do not fit their buffer.\<close>

lemma reread_index_overruns:
  "scan_keys conds [''b''] ((example_index ''b'' 4)\<lparr>im_cols := [example_col ''a'' 0, example_col ''b'' 4]\<rparr>) = None"
  by (simp add: scan_keys_def example_index_def example_col_def set_remaining_all_min_def store_def min_bytes_def chk_def Let_def)

end
