(* ===== verification/Exec_Dml.thy ===== *)
theory Exec_Dml
  imports Exec_Index_Scan Lock_Manager
begin

text \<open>
  The executors that change a table: \<^verbatim>\<open>InsertExecutor\<close> and \<^verbatim>\<open>DeleteExecutor\<close> (\<^verbatim>\<open>src/src/execution/executor_insert.h\<close>,
  \<^verbatim>\<open>executor_delete.h\<close>) with the version-aware record operations of \<^verbatim>\<open>mvcc_executor_base.h\<close>. A statement runs in a
  transaction with a lock manager; it works on the record file of its table, on the indexes of the table, on the version
  chains, on the lock table and on the write set of the transaction.

  Shown: with \<open>table_rel\<close>, which relates this state to the rows of the table and says that every index has exactly the keys
  of the rows, an insertion adds its row or throws and changes nothing.
\<close>

subsection \<open>State\<close>

record dml_state =
  ds_fhs :: storage
  ds_ihs :: "string \<rightharpoonup> ix_index"
  ds_locks :: lock_table
  ds_mvcc :: "mvcc_manager option"
  ds_txn :: Transaction

type_synonym 'a dml_run = "(dml_state, 'a) outcome option"

text \<open>What an executor is built with: the metadata of the table, its name, and whether there is a log manager.\<close>

record dml_exec =
  dx_tab :: TabMeta
  dx_name :: string
  dx_log :: bool

definition name_bytes :: "string \<Rightarrow> bytes" where
  "name_bytes s = map of_char s"

definition dml_context :: "dml_exec \<Rightarrow> dml_state \<Rightarrow> Context" where
  "dml_context x s = \<lparr>ctx_txn = Some (the_txn_id (ds_txn s)), ctx_log = dx_log x, ctx_table = name_bytes (dx_name x)\<rparr>"

text \<open>A call on \<^verbatim>\<open>fhs_.at(name)\<close> and on \<^verbatim>\<open>ihs_.at(name)\<close>.\<close>

definition on_file :: "string \<Rightarrow> (rm_file \<Rightarrow> (rm_file, 'a) outcome) \<Rightarrow> dml_state \<Rightarrow> 'a dml_run" where
  "on_file name f s =
     (case map_of (ds_fhs s) name of
        None \<Rightarrow> Some (Inl OutOfRangeError, s)
      | Some fh \<Rightarrow> (case f fh of (r, fh') \<Rightarrow> Some (r, s\<lparr>ds_fhs := AList.update name fh' (ds_fhs s)\<rparr>)))"

definition on_index :: "string \<Rightarrow> (ix_index \<Rightarrow> 'a ix_run) \<Rightarrow> dml_state \<Rightarrow> 'a dml_run" where
  "on_index name f s =
     (case ds_ihs s name of
        None \<Rightarrow> Some (Inl OutOfRangeError, s)
      | Some ih \<Rightarrow> (case f ih of None \<Rightarrow> None | Some (r, ih') \<Rightarrow> Some (r, s\<lparr>ds_ihs := (ds_ihs s)(name \<mapsto> ih')\<rparr>)))"

definition lift_checked :: "'a checked \<Rightarrow> 's \<Rightarrow> ('s, 'a) outcome option" where
  "lift_checked c s = (case c of None \<Rightarrow> None | Some r \<Rightarrow> Some (r, s))"

definition throw :: "db_error \<Rightarrow> 's \<Rightarrow> ('s, 'a) outcome option" where
  "throw e s = Some (Inl e, s)"

definition add_write :: "WType \<Rightarrow> string \<Rightarrow> Rid \<Rightarrow> bytes \<Rightarrow> dml_state \<Rightarrow> dml_state" where
  "add_write ty name rid r s =
     s\<lparr>ds_txn := append_write_record \<lparr>wr_type = ty, wr_tab_name = name, wr_rid = rid, wr_record = r\<rparr> (ds_txn s)\<rparr>"

text \<open>The key of a row in a buffer of \<^verbatim>\<open>col_tot_len\<close> bytes. Columns that are not in the row or that do not fill the buffer
  read or write outside of it, or leave bytes that are not initialised.\<close>

definition build_key :: "IndexMeta \<Rightarrow> bytes \<Rightarrow> bytes checked" where
  "build_key im r =
     (if im_col_num im \<le> length (im_cols im) \<and>
         (\<forall>c \<in> set (take (im_col_num im) (im_cols im)). col_offset c + col_len c \<le> length r) \<and>
         sum_list (map col_len (take (im_col_num im) (im_cols im))) = im_col_tot_len im
      then Some (Inr (row_key im r)) else None)"

subsection \<open>Insertion\<close>

definition coerce_value :: "ColMeta \<Rightarrow> Value \<Rightarrow> Value option" where
  "coerce_value col v =
     (if col_type col = TYPE_FLOAT \<and> v_type v = TYPE_INT then Some (set_float (f32_of_int (int_val v)) v)
      else if col_type col = TYPE_INT \<and> v_type v = TYPE_FLOAT
      then (case f32_to_int (float_val v) of None \<Rightarrow> None | Some n \<Rightarrow> Some (set_int n v))
      else Some v)"

fun fill_record :: "ColMeta list \<Rightarrow> Value list \<Rightarrow> bytes \<Rightarrow> bytes checked" where
  "fill_record (c # cs) (v # vs) r =
     (case coerce_value c v of
        None \<Rightarrow> None
      | Some v \<Rightarrow> chk (Some (init_raw (col_len c) v)) (\<lambda>v. chk (raw_of v) (\<lambda>raw. chk (store (col_offset c) raw r) (\<lambda>r. fill_record cs vs r))))"
| "fill_record [] (v # vs) r = None"
| "fill_record cs [] r = Some (Inr r)"

fun check_unique :: "(string \<times> IndexMeta) list \<Rightarrow> bytes \<Rightarrow> dml_state \<Rightarrow> unit dml_run" where
  "check_unique [] r s = Some (Inr (), s)"
| "check_unique ((name, im) # is) r s =
     run_bind (lift_checked (build_key im r) s) (\<lambda>key s.
     run_bind (on_index name (is_unique key) s) (\<lambda>found s.
       if found = None then check_unique is r s else throw UniqueCheckError s))"

text \<open>The loop over the indexes that changes their entries for a row, and notes each change in the write set.\<close>

fun each_key :: "WType \<Rightarrow> (bytes \<Rightarrow> ix_index \<Rightarrow> 'b ix_run) \<Rightarrow> (string \<times> IndexMeta) list \<Rightarrow> bytes \<Rightarrow> Rid \<Rightarrow> dml_state \<Rightarrow> unit dml_run" where
  "each_key ty f [] r rid s = Some (Inr (), s)"
| "each_key ty f ((name, im) # is) r rid s =
     run_bind (lift_checked (build_key im r) s) (\<lambda>key s.
     run_bind (on_index name (f key) s) (\<lambda>_ s.
       each_key ty f is r rid (add_write ty name rid key s)))"

definition insert_keys :: "(string \<times> IndexMeta) list \<Rightarrow> bytes \<Rightarrow> Rid \<Rightarrow> dml_state \<Rightarrow> unit dml_run" where
  "insert_keys is r rid = each_key IX_INSERT_TUPLE (\<lambda>key. insert_entry key rid) is r rid"

text \<open>The constructor, and the first call of \<^verbatim>\<open>Next\<close>, which does the work; the record buffer is not initialised, so that
  the bytes no column covers are those of \<open>junk\<close>.\<close>

definition new_insert :: "DbMeta \<Rightarrow> string \<Rightarrow> Value list \<Rightarrow> bool \<Rightarrow> dml_state \<Rightarrow> db_error + dml_exec" where
  "new_insert db name vals log s =
     (case get_table name db of
        Inl e \<Rightarrow> Inl e
      | Inr tab \<Rightarrow>
          if length vals \<noteq> length (tab_cols tab) then Inl InvalidValueCountError
          else if map_of (ds_fhs s) name = None then Inl OutOfRangeError
          else Inr \<lparr>dx_tab = tab, dx_name = name, dx_log = log\<rparr>)"

definition insert_next :: "(nat \<Rightarrow> bytes) \<Rightarrow> dml_exec \<Rightarrow> Value list \<Rightarrow> dml_state \<Rightarrow> Rid dml_run" where
  "insert_next junk x vals s =
     (let tab = dx_tab x; name = dx_name x
      in run_bind (on_file name (\<lambda>f. (Inr (record_size (rf_hdr f)), f)) s) (\<lambda>size s.
         run_bind (lift_checked (fill_record (tab_cols tab) vals (junk size)) s) (\<lambda>r s.
         run_bind (check_unique (tab_indexes tab) r s) (\<lambda>_ s.
         run_bind (on_file name (insert_record r (Some (dml_context x s))) s) (\<lambda>rid s.
         run_bind (insert_keys (tab_indexes tab) r rid (add_write INSERT_TUPLE name rid r s)) (\<lambda>_ s.
           Some (Inr rid, s)))))))"

subsection \<open>Deletion\<close>

definition conflict :: "dml_state \<Rightarrow> 'a dml_run" where
  "conflict s = throw (TransactionAbortException (the_txn_id (ds_txn s)) WRITE_WRITE_CONFLICT) s"

definition lock_row :: "dml_exec \<Rightarrow> Rid \<Rightarrow> dml_state \<Rightarrow> unit dml_run" where
  "lock_row x rid s =
     run_bind (on_file (dx_name x) (\<lambda>f. (Inr (rf_fd f), f)) s) (\<lambda>fd s.
       case lock_exclusive_on_record rid fd (ds_txn s) (ds_locks s) of
         (ok, t, lt) \<Rightarrow> (let s = s\<lparr>ds_txn := t, ds_locks := lt\<rparr> in if ok then Some (Inr (), s) else conflict s))"

definition delete_keys :: "(string \<times> IndexMeta) list \<Rightarrow> bytes \<Rightarrow> Rid \<Rightarrow> dml_state \<Rightarrow> unit dml_run" where
  "delete_keys is r rid = each_key IX_DELETE_TUPLE (delete_entry True) is r rid"

text \<open>\<^verbatim>\<open>delete_record_mvcc\<close>: with a version manager the version chain gets a deleted version and the stored record stays;
  without one the record is deleted. The version manager reads the original record through the same files.\<close>

definition uncommitted_by_other :: "txn_id \<Rightarrow> version_chain option \<Rightarrow> bool" where
  "uncommitted_by_other tid c \<longleftrightarrow>
     (case c of Some (v # _) \<Rightarrow> tv_txn_id v \<noteq> tid \<and> tv_create_ts v = INVALID_TIMESTAMP | _ \<Rightarrow> False)"

definition delete_record_mvcc :: "dml_exec \<Rightarrow> Rid \<Rightarrow> dml_state \<Rightarrow> bool dml_run" where
  "delete_record_mvcc x rid s =
     (case ds_mvcc s of
        None \<Rightarrow> run_bind (on_file (dx_name x) (delete_record rid (Some (dml_context x s))) s) (\<lambda>_ s. Some (Inr True, s))
      | Some m \<Rightarrow>
          if uncommitted_by_other (the_txn_id (ds_txn s)) (get_version_chain rid (dx_name x) m) then conflict s
          else case delete_version rid (dx_name x) (ds_txn s) (m, Some (ds_fhs s)) of
                 (ok, t, m', st) \<Rightarrow>
                   (let s = s\<lparr>ds_txn := t, ds_mvcc := Some m', ds_fhs := (case st of Some fhs \<Rightarrow> fhs | None \<Rightarrow> ds_fhs s)\<rparr>
                    in if ok then Some (Inr True, s) else conflict s))"

definition get_row :: "dml_exec \<Rightarrow> Rid \<Rightarrow> dml_state \<Rightarrow> bytes option dml_run" where
  "get_row x rid s = on_file (dx_name x) (get_record_mvcc (Some (the_txn_id (ds_txn s))) rid) s"

fun delete_next :: "dml_exec \<Rightarrow> Rid list \<Rightarrow> dml_state \<Rightarrow> unit dml_run" where
  "delete_next x [] s = Some (Inr (), s)"
| "delete_next x (rid # rids) s =
     run_bind (lock_row x rid s) (\<lambda>_ s.
     run_bind (get_row x rid s) (\<lambda>row s.
       case row of
         None \<Rightarrow> delete_next x rids s
       | Some r \<Rightarrow>
           run_bind (delete_keys (tab_indexes (dx_tab x)) r rid s) (\<lambda>_ s.
           run_bind (delete_record_mvcc x rid s) (\<lambda>ok s.
             if \<not> ok then conflict s
             else delete_next x rids (add_write DELETE_TUPLE (dx_name x) rid r s)))))"

subsection \<open>The rows of a table\<close>

text \<open>A row has a key for an index: its columns are in the row and fill the key, and no float among them is a NaN.\<close>

definition key_fits :: "IndexMeta \<Rightarrow> bytes \<Rightarrow> bool" where
  "key_fits im r \<longleftrightarrow> build_key im r = Some (Inr (row_key im r)) \<and> key_ok (map col_type (im_cols im)) (map col_len (im_cols im)) (row_key im r)"

definition rank_in :: "IndexMeta \<Rightarrow> bytes \<Rightarrow> int list" where
  "rank_in im r = im_rank im (row_key im r)"

text \<open>An index has an entry for each row under the key of the row, and no other entries; so no two rows have one key.\<close>

definition index_of :: "IndexMeta \<Rightarrow> ix_index \<Rightarrow> (Rid \<rightharpoonup> bytes) \<Rightarrow> bool" where
  "index_of im ix rows \<longleftrightarrow>
     ixh_col_types (ix_hdr ix) = map col_type (im_cols im) \<and> ixh_col_lens (ix_hdr ix) = map col_len (im_cols im) \<and>
     (\<exists>m. represents ix m \<and> (\<forall>k rid. m k = Some rid \<longleftrightarrow> (\<exists>r. rows rid = Some r \<and> rank_in im r = k)))"

definition indexed :: "(string \<times> IndexMeta) list \<Rightarrow> (string \<rightharpoonup> ix_index) \<Rightarrow> (Rid \<rightharpoonup> bytes) \<Rightarrow> bool" where
  "indexed is ihs rows \<longleftrightarrow> (\<forall>(name, im) \<in> set is. \<exists>ix. ihs name = Some ix \<and> index_of im ix rows)"

definition table_rel :: "dml_exec \<Rightarrow> dml_state \<Rightarrow> (Rid \<rightharpoonup> bytes) \<Rightarrow> bool" where
  "table_rel x s rows \<longleftrightarrow>
     (\<exists>f. map_of (ds_fhs s) (dx_name x) = Some f \<and> file_inv f \<and> room f \<and> file_records f = rows) \<and>
     distinct (map fst (tab_indexes (dx_tab x))) \<and> indexed (tab_indexes (dx_tab x)) (ds_ihs s) rows"

definition taken :: "(string \<times> IndexMeta) list \<Rightarrow> (Rid \<rightharpoonup> bytes) \<Rightarrow> bytes \<Rightarrow> bool" where
  "taken is rows r \<longleftrightarrow> (\<exists>(name, im) \<in> set is. \<exists>rid r'. rows rid = Some r' \<and> rank_in im r' = rank_in im r)"

lemma update_same: "map_of al k = Some v \<Longrightarrow> AList.update k v al = al"
  by (induction al) auto

lemma index_key:
  assumes "index_of im ix rows" "key_fits im r"
  shows "good_key (ix_hdr ix) (row_key im r)" "rank_of (ix_hdr ix) (row_key im r) = rank_in im r"
  using assms by (auto simp: index_of_def key_fits_def rank_in_def im_rank_def)

lemma indexed_simps [simp]:
  "indexed [] ihs rows" "indexed ((name, im) # is) ihs rows \<longleftrightarrow> (\<exists>ix. ihs name = Some ix \<and> index_of im ix rows) \<and> indexed is ihs rows"
  by (auto simp: indexed_def)

lemma indexed_other: "name \<notin> fst ` set is \<Longrightarrow> indexed is (ihs(name := z)) rows = indexed is ihs rows"
  by (induction "is") auto

lemma taken_simps [simp]:
  "\<not> taken [] rows r" "taken ((name, im) # is) rows r \<longleftrightarrow> (\<exists>rid r'. rows rid = Some r' \<and> rank_in im r' = rank_in im r) \<or> taken is rows r"
  by (auto simp: taken_def)

lemma index_lookup:
  assumes "index_of im ix rows" "key_fits im r"
  obtains found where "is_unique (row_key im r) ix = Some (Inr found, ix)"
    "found = None \<longleftrightarrow> \<not> (\<exists>rid r'. rows rid = Some r' \<and> rank_in im r' = rank_in im r)"
    "\<And>rid. found = Some rid \<Longrightarrow> \<exists>r'. rows rid = Some r' \<and> rank_in im r' = rank_in im r"
proof -
  note k = index_key [OF assms]
  obtain m where m: "represents ix m" "\<And>k rid. m k = Some rid \<longleftrightarrow> (\<exists>r. rows rid = Some r \<and> rank_in im r = k)"
    using assms(1) by (auto simp: index_of_def)
  then have "is_unique (row_key im r) ix = Some (Inr (m (rank_in im r)), ix)"
    unfolding represents_def using is_unique_ok k by metis
  then show ?thesis using that [of "m (rank_in im r)"] m(2) by (metis option.exhaust option.simps(3))
qed

lemma index_insert:
  assumes "index_of im ix rows" "key_fits im r" "rows rid = None" "\<not> (\<exists>rid r'. rows rid = Some r' \<and> rank_in im r' = rank_in im r)"
  shows "\<exists>p ix'. insert_entry (row_key im r) rid ix = Some (Inr p, ix') \<and> p \<noteq> IX_NO_PAGE \<and> index_of im ix' (rows(rid \<mapsto> r))"
proof -
  note k = index_key [OF assms(1,2)]
  obtain m where m: "represents ix m" "\<And>k rid. m k = Some rid \<longleftrightarrow> (\<exists>r. rows rid = Some r \<and> rank_in im r = k)"
    using assms(1) by (auto simp: index_of_def)
  have none: "m (rank_in im r) = None" using m(2) assms(4) by (metis option.exhaust)
  obtain p ix' where i: "insert_entry (row_key im r) rid ix = Some (Inr p, ix')" "represents ix' (m(rank_in im r \<mapsto> rid))" "ix_env ix' = ix_env ix"
    and p: "p \<noteq> IX_NO_PAGE"
    using insert_step [OF m(1) k(1)] none unfolding k(2) by blast
  have "(m(rank_in im r \<mapsto> rid)) k = Some rid' \<longleftrightarrow> (\<exists>r'. (rows(rid \<mapsto> r)) rid' = Some r' \<and> rank_in im r' = k)" for k rid'
    using m(2) assms(3,4) none by (cases "rid' = rid"; cases "k = rank_in im r") auto
  then have "index_of im ix' (rows(rid \<mapsto> r))" using assms(1) i(2,3) by (auto simp: index_of_def ix_env_def)
  then show ?thesis using i(1) p by blast
qed

lemma index_insert_taken:
  assumes "index_of im ix rows" "key_fits im r" "rows q = Some r'" "rank_in im r' = rank_in im r"
  shows "insert_entry (row_key im r) rid ix = Some (Inr IX_NO_PAGE, ix)"
proof -
  note k = index_key [OF assms(1,2)]
  obtain m where m: "represents ix m" "\<And>k rid. m k = Some rid \<longleftrightarrow> (\<exists>r. rows rid = Some r \<and> rank_in im r = k)"
    using assms(1) by (auto simp: index_of_def)
  have "m (rank_in im r) = Some q" unfolding m(2) using assms(3,4) by blast
  then show ?thesis using insert_dup_step [OF m(1) k(1)] unfolding k(2) by blast
qed

lemma index_of_unique:
  assumes "index_of im ix rows" "rows p = Some a" "rows q = Some b" "rank_in im a = rank_in im b"
  shows "p = q"
proof -
  obtain m where m: "\<And>k rid. m k = Some rid \<longleftrightarrow> (\<exists>r. rows rid = Some r \<and> rank_in im r = k)" using assms(1) by (auto simp: index_of_def)
  have "m (rank_in im a) = Some p" "m (rank_in im a) = Some q" unfolding m using assms by auto
  then show ?thesis by simp
qed

lemma index_delete:
  assumes "index_of im ix rows" "key_fits im r" "rows rid = Some r"
  shows "\<exists>b ix'. delete_entry tx (row_key im r) ix = Some (Inr b, ix') \<and> index_of im ix' (rows(rid := None))"
proof -
  note k = index_key [OF assms(1,2)]
  obtain m where m: "represents ix m" "\<And>k rid. m k = Some rid \<longleftrightarrow> (\<exists>r. rows rid = Some r \<and> rank_in im r = k)"
    using assms(1) by (auto simp: index_of_def)
  have here: "m (rank_in im r) = Some rid" using m(2) assms(3) by blast
  obtain b ix' where i: "delete_entry tx (row_key im r) ix = Some (Inr b, ix')" "represents ix' (m(rank_in im r := None))" "ix_env ix' = ix_env ix"
    using delete_step [OF m(1) k(1)] unfolding k(2) by blast
  have "(m(rank_in im r := None)) k = Some rid' \<longleftrightarrow> (\<exists>r'. (rows(rid := None)) rid' = Some r' \<and> rank_in im r' = k)" for k rid'
  proof -
    have u: "rid' = rid" if "rows rid' = Some r'" "rank_in im r' = rank_in im r" for r'
    proof -
      have "m (rank_in im r) = Some rid'" unfolding m(2) using that by blast
      then show ?thesis using here by simp
    qed
    show ?thesis
    proof (cases "k = rank_in im r")
      case True
      then show ?thesis using u by auto
    next
      case False
      then show ?thesis using m(2) [of k rid'] assms(3) by auto
    qed
  qed
  then have "index_of im ix' (rows(rid := None))" using assms(1) i(2,3) by (auto simp: index_of_def ix_env_def)
  then show ?thesis using i(1) by blast
qed

lemma check_unique_ok:
  assumes "indexed is (ds_ihs s) rows" "\<forall>(name, im) \<in> set is. key_fits im r"
  shows "check_unique is r s = Some (if taken is rows r then Inl UniqueCheckError else Inr (), s)"
  using assms
proof (induction "is")
  case (Cons a "is")
  obtain name im where a: "a = (name, im)" by (cases a)
  obtain ix where ix: "ds_ihs s name = Some ix" "index_of im ix rows" using Cons.prems(1) by (auto simp: a)
  have fit: "key_fits im r" using Cons.prems(2) by (auto simp: a)
  obtain found where f: "is_unique (row_key im r) ix = Some (Inr found, ix)"
    "found = None \<longleftrightarrow> \<not> (\<exists>rid r'. rows rid = Some r' \<and> rank_in im r' = rank_in im r)"
    using index_lookup [OF ix(2) fit] by metis
  have "build_key im r = Some (Inr (row_key im r))" using fit by (simp add: key_fits_def)
  moreover have "s\<lparr>ds_ihs := (ds_ihs s)(name \<mapsto> ix)\<rparr> = s" using ix(1) by (simp add: fun_upd_idem)
  ultimately show ?case using Cons f ix(1) by (auto simp: a lift_checked_def on_index_def throw_def)
qed simp

text \<open>The write set after the entries of some indexes have been changed.\<close>

definition key_writes :: "WType \<Rightarrow> (string \<times> IndexMeta) list \<Rightarrow> bytes \<Rightarrow> Rid \<Rightarrow> WriteRecord list" where
  "key_writes ty is r rid = map (\<lambda>(name, im). \<lparr>wr_type = ty, wr_tab_name = name, wr_rid = rid, wr_record = row_key im r\<rparr>) is"

definition same_but_ihs :: "dml_state \<Rightarrow> WriteRecord list \<Rightarrow> dml_state \<Rightarrow> bool" where
  "same_but_ihs s ws s' \<longleftrightarrow> s' = s\<lparr>ds_ihs := ds_ihs s', ds_txn := (ds_txn s)\<lparr>write_set := write_set (ds_txn s) @ ws\<rparr>\<rparr>"

lemma each_key_ok:
  assumes "indexed is (ds_ihs s) rows" "\<forall>(name, im) \<in> set is. key_fits im r" "distinct (map fst is)"
    and step: "\<And>name im ix. (name, im) \<in> set is \<Longrightarrow> index_of im ix rows \<Longrightarrow> key_fits im r \<Longrightarrow>
      \<exists>p ix'. f (row_key im r) ix = Some (Inr p, ix') \<and> index_of im ix' rows'"
  shows "\<exists>s'. each_key ty f is r rid s = Some (Inr (), s') \<and> indexed is (ds_ihs s') rows' \<and>
    (\<forall>n. n \<notin> fst ` set is \<longrightarrow> ds_ihs s' n = ds_ihs s n) \<and> same_but_ihs s (key_writes ty is r rid) s'"
  using assms
proof (induction "is" arbitrary: s)
  case Nil
  then show ?case by (simp add: same_but_ihs_def key_writes_def)
next
  case (Cons a "is")
  obtain name im where a: "a = (name, im)" by (cases a)
  obtain ix where ix: "ds_ihs s name = Some ix" "index_of im ix rows" using Cons.prems(1) by (auto simp: a)
  have fit: "key_fits im r" using Cons.prems(2) by (auto simp: a)
  obtain p ix' where i: "f (row_key im r) ix = Some (Inr p, ix')" "index_of im ix' rows'"
    using Cons.prems(4) [of name im ix, OF _ ix(2) fit] unfolding a by auto
  let ?s = "add_write ty name rid (row_key im r) (s\<lparr>ds_ihs := (ds_ihs s)(name \<mapsto> ix')\<rparr>)"
  have nin: "name \<notin> fst ` set is" using Cons.prems(3) by (auto simp: a)
  have old: "indexed is (ds_ihs ?s) rows" using Cons.prems(1) by (simp add: a add_write_def indexed_other [OF nin])
  have tl: "\<forall>(name, im) \<in> set is. key_fits im r" "distinct (map fst is)" using Cons.prems(2,3) by (auto simp: a)
  obtain s' where s': "each_key ty f is r rid ?s = Some (Inr (), s')" "indexed is (ds_ihs s') rows'"
    "\<forall>n. n \<notin> fst ` set is \<longrightarrow> ds_ihs s' n = ds_ihs ?s n" "same_but_ihs ?s (key_writes ty is r rid) s'"
    using Cons.IH [OF old tl(1,2)] Cons.prems(4) by (metis list.set_intros(2))
  have "build_key im r = Some (Inr (row_key im r))" using fit by (simp add: key_fits_def)
  then have "each_key ty f (a # is) r rid s = Some (Inr (), s')" using i(1) ix(1) s'(1) by (simp add: a lift_checked_def on_index_def)
  moreover have "ds_ihs s' name = Some ix'" using s'(3) nin by (simp add: add_write_def)
  moreover have "same_but_ihs s (key_writes ty (a # is) r rid) s'"
    using s'(4) by (simp add: same_but_ihs_def key_writes_def a add_write_def append_write_record_def)
  moreover have "\<forall>n. n \<notin> fst ` set (a # is) \<longrightarrow> ds_ihs s' n = ds_ihs s n" using s'(3) by (simp add: a add_write_def)
  ultimately show ?case using s'(2) i(2) unfolding a indexed_simps by blast
qed

lemma insert_keys_ok:
  assumes "indexed is (ds_ihs s) rows" "\<forall>(name, im) \<in> set is. key_fits im r" "distinct (map fst is)" "rows rid = None" "\<not> taken is rows r"
  shows "\<exists>s'. insert_keys is r rid s = Some (Inr (), s') \<and> indexed is (ds_ihs s') (rows(rid \<mapsto> r)) \<and>
    (\<forall>n. n \<notin> fst ` set is \<longrightarrow> ds_ihs s' n = ds_ihs s n) \<and> same_but_ihs s (key_writes IX_INSERT_TUPLE is r rid) s'"
  unfolding insert_keys_def
proof (rule each_key_ok [OF assms(1-3)])
  fix name im ix
  assume "(name, im) \<in> set is" "index_of im ix rows" "key_fits im r"
  moreover from this(1) have "\<not> (\<exists>rid r'. rows rid = Some r' \<and> rank_in im r' = rank_in im r)" using assms(5) unfolding taken_def by blast
  ultimately show "\<exists>p ix'. insert_entry (row_key im r) rid ix = Some (Inr p, ix') \<and> index_of im ix' (rows(rid \<mapsto> r))"
    using index_insert [of im ix rows r rid] assms(4) by blast
qed

lemma delete_keys_ok:
  assumes "indexed is (ds_ihs s) rows" "\<forall>(name, im) \<in> set is. key_fits im r" "distinct (map fst is)" "rows rid = Some r"
  shows "\<exists>s'. delete_keys is r rid s = Some (Inr (), s') \<and> indexed is (ds_ihs s') (rows(rid := None)) \<and>
    (\<forall>n. n \<notin> fst ` set is \<longrightarrow> ds_ihs s' n = ds_ihs s n) \<and> same_but_ihs s (key_writes IX_DELETE_TUPLE is r rid) s'"
  unfolding delete_keys_def by (rule each_key_ok [OF assms(1-3)]) (rule index_delete [where rows = rows and rid = rid, OF _ _ assms(4)])

subsection \<open>What the executors do to a table\<close>

lemma fill_record_length: "fill_record cs vs r = Some (Inr r') \<Longrightarrow> length r' = length r"
proof (induction cs vs r rule: fill_record.induct)
  case (1 c cs v vs r)
  then obtain v1 v2 raw r1 where "coerce_value c v = Some v1" "init_raw (col_len c) v1 = Inr v2" "raw_of v2 = Some (Inr raw)"
    "store (col_offset c) raw r = Some (Inr r1)" "fill_record cs vs r1 = Some (Inr r')"
    by (auto simp: chk_Inr split: option.splits)
  moreover from this(4) have "length r1 = length r" by (auto simp: store_def split: if_splits)
  ultimately show ?case using "1.IH" by metis
qed simp_all

lemma on_file_same:
  assumes "map_of (ds_fhs s) name = Some f" "g f = (res, f)"
  shows "on_file name g s = Some (res, s)"
  using assms by (simp add: on_file_def update_same)

lemma same_but_ihsD:
  assumes "same_but_ihs s ws s'"
  shows "ds_fhs s' = ds_fhs s" "ds_locks s' = ds_locks s" "ds_mvcc s' = ds_mvcc s" "write_set (ds_txn s') = write_set (ds_txn s) @ ws"
    "the_txn_id (ds_txn s') = the_txn_id (ds_txn s)" "ds_txn s' = (ds_txn s)\<lparr>write_set := write_set (ds_txn s) @ ws\<rparr>"
proof -
  obtain i where "s' = s\<lparr>ds_ihs := i, ds_txn := (ds_txn s)\<lparr>write_set := write_set (ds_txn s) @ ws\<rparr>\<rparr>" using assms unfolding same_but_ihs_def by blast
  then show "ds_fhs s' = ds_fhs s" "ds_locks s' = ds_locks s" "ds_mvcc s' = ds_mvcc s" "write_set (ds_txn s') = write_set (ds_txn s) @ ws"
    "the_txn_id (ds_txn s') = the_txn_id (ds_txn s)" "ds_txn s' = (ds_txn s)\<lparr>write_set := write_set (ds_txn s) @ ws\<rparr>" by simp_all
qed

text \<open>The insertion: a value that cannot be stored and a key that is taken are refused and nothing changes; otherwise the
  row is in the file and in every index, and the transaction can undo each change.\<close>

lemma insert_next_ok:
  assumes rel: "table_rel x s rows" and f: "map_of (ds_fhs s) (dx_name x) = Some f"
    and fill: "fill_record (tab_cols (dx_tab x)) vals (junk (record_size (rf_hdr f))) = Some (Inr r)"
    and junk: "length (junk (record_size (rf_hdr f))) = record_size (rf_hdr f)"
    and fits: "\<forall>(name, im) \<in> set (tab_indexes (dx_tab x)). key_fits im r" and pages: "num_pages (rf_hdr f) + 1 < 2 ^ 31"
  shows "if taken (tab_indexes (dx_tab x)) rows r then insert_next junk x vals s = Some (Inl UniqueCheckError, s)
    else \<exists>rid s'. insert_next junk x vals s = Some (Inr rid, s') \<and> rows rid = None \<and> table_rel x s' (rows(rid \<mapsto> r)) \<and>
      write_set (ds_txn s') = write_set (ds_txn s) @ \<lparr>wr_type = INSERT_TUPLE, wr_tab_name = dx_name x, wr_rid = rid, wr_record = r\<rparr> #
        key_writes IX_INSERT_TUPLE (tab_indexes (dx_tab x)) r rid \<and> ds_locks s' = ds_locks s \<and> ds_mvcc s' = ds_mvcc s"
proof -
  let ?is = "tab_indexes (dx_tab x)" and ?name = "dx_name x"
  have t: "file_inv f" "room f" "file_records f = rows" "distinct (map fst ?is)" "indexed ?is (ds_ihs s) rows"
    using rel f by (auto simp: table_rel_def)
  have size: "on_file ?name (\<lambda>f. (Inr (record_size (rf_hdr f)), f)) s = Some (Inr (record_size (rf_hdr f)), s)"
    by (rule on_file_same [OF f]) simp
  have start: "insert_next junk x vals s = run_bind (check_unique ?is r s) (\<lambda>_ s.
      run_bind (on_file ?name (insert_record r (Some (dml_context x s))) s) (\<lambda>rid s.
      run_bind (insert_keys ?is r rid (add_write INSERT_TUPLE ?name rid r s)) (\<lambda>_ s. Some (Inr rid, s))))"
    unfolding insert_next_def Let_def size run_bind_simps fill lift_checked_def option.case by simp
  note unique = check_unique_ok [OF t(5) fits]
  show ?thesis
  proof (cases "taken ?is rows r")
    case True
    then show ?thesis unfolding start unique by simp
  next
    case False
    have len: "length r = record_size (rf_hdr f)" using fill_record_length [OF fill] junk by simp
    obtain rid f' where i: "insert_record r (Some (dml_context x s)) f = (Inr rid, f')" "file_inv f'" "file_records f rid = None"
      "file_records f' = (file_records f)(rid \<mapsto> r)" "same_pool f f'"
      using insert_record_ok [OF t(1,2) pages len] by blast
    let ?s = "add_write INSERT_TUPLE ?name rid r (s\<lparr>ds_fhs := AList.update ?name f' (ds_fhs s)\<rparr>)"
    have new: "rows rid = None" using i(3) t(3) by simp
    have "indexed ?is (ds_ihs ?s) rows" using t(5) by (simp add: add_write_def)
    then obtain s' where s': "insert_keys ?is r rid ?s = Some (Inr (), s')" "indexed ?is (ds_ihs s') (rows(rid \<mapsto> r))"
      "same_but_ihs ?s (key_writes IX_INSERT_TUPLE ?is r rid) s'"
      using insert_keys_ok [OF _ fits t(4) new False, of ?s] by blast
    have "insert_next junk x vals s = Some (Inr rid, s')" using s'(1) i(1) f False unfolding start unique by (simp add: on_file_def)
    moreover note same_but_ihsD [OF s'(3)]
    moreover have "room f'" using same_pool_room [OF i(5)] t(2) by simp
    ultimately show ?thesis using False i(2-4) t(3,4) s'(2)
      by (auto simp: table_rel_def add_write_def append_write_record_def update_conv intro!: exI [of _ rid] exI [of _ s'])
  qed
qed

text \<open>A deletion in the server, which has a version manager, takes the keys of the visible rows out of the indexes and leaves
  the stored rows where they are.\<close>

lemma lock_exclusive_txn_id: "lock_exclusive_on_record rid fd t lt = (ok, t', lt') \<Longrightarrow> the_txn_id t' = the_txn_id t"
  by (auto simp: lock_exclusive_on_record_def shrinking_refuse_def lock_refuse_def lock_grant_def Let_def
      split: if_splits option.splits bool.splits)

lemma lock_row_ok:
  assumes "map_of (ds_fhs s) (dx_name x) = Some f"
  obtains t lt where "lock_row x rid s = Some (Inr (), s\<lparr>ds_txn := t, ds_locks := lt\<rparr>)" "the_txn_id t = the_txn_id (ds_txn s)"
  | t lt where "lock_row x rid s = Some (Inl (TransactionAbortException (the_txn_id (ds_txn s)) WRITE_WRITE_CONFLICT), s\<lparr>ds_txn := t, ds_locks := lt\<rparr>)"
proof -
  obtain ok t lt where l: "lock_exclusive_on_record rid (rf_fd f) (ds_txn s) (ds_locks s) = (ok, t, lt)" by (cases "lock_exclusive_on_record rid (rf_fd f) (ds_txn s) (ds_locks s)")
  note t = lock_exclusive_txn_id [OF l]
  have "on_file (dx_name x) (\<lambda>f. (Inr (rf_fd f), f)) s = Some (Inr (rf_fd f), s)" by (rule on_file_same [OF assms]) simp
  then have "lock_row x rid s = (let s = s\<lparr>ds_txn := t, ds_locks := lt\<rparr> in if ok then Some (Inr (), s) else conflict s)"
    using l by (simp add: lock_row_def)
  then show ?thesis using that t by (cases ok) (auto simp: conflict_def throw_def Let_def)
qed

lemma original_chain_files:
  assumes "map_of fhs name = Some f" "file_inv f" "room f" "file_records f rid \<noteq> None"
  shows "snd (original_chain rid name (Some fhs)) = Some fhs"
proof -
  have "rid_in f rid" using assms(4) by (intro file_records_in) auto
  then have "snd (get_record rid f) = f" using get_record_ok [OF assms(2,3)] by simp
  then show ?thesis using assms(1) update_same [OF assms(1)] by (auto simp: original_chain_def split: sum.splits prod.splits)
qed

lemma delete_version_files:
  assumes "map_of fhs name = Some f" "file_inv f" "room f" "file_records f rid \<noteq> None"
    and d: "delete_version rid name t (m, Some fhs) = (ok, t', m', st)"
  shows "st = Some fhs \<and> the_txn_id t' = the_txn_id t"
proof -
  obtain c st0 where o: "original_chain rid name (Some fhs) = (c, st0)" by (cases "original_chain rid name (Some fhs)")
  have "st0 = Some fhs" using original_chain_files [OF assms(1-4)] o by simp
  then show ?thesis using d o by (auto simp: delete_version_def add_undo_log_def split: option.splits prod.splits)
qed

lemma delete_record_mvcc_ok:
  assumes "map_of (ds_fhs s) (dx_name x) = Some f" "file_inv f" "room f" "file_records f rid \<noteq> None" "ds_mvcc s \<noteq> None"
  obtains t m where "delete_record_mvcc x rid s = Some (Inr True, s\<lparr>ds_txn := t, ds_mvcc := Some m\<rparr>)" "the_txn_id t = the_txn_id (ds_txn s)"
  | t m where "delete_record_mvcc x rid s = Some (Inl (TransactionAbortException (the_txn_id (ds_txn s)) WRITE_WRITE_CONFLICT), s\<lparr>ds_txn := t, ds_mvcc := Some m\<rparr>)"
proof -
  obtain m where m: "ds_mvcc s = Some m" using assms(5) by auto
  show ?thesis
  proof (cases "uncommitted_by_other (the_txn_id (ds_txn s)) (get_version_chain rid (dx_name x) m)")
    case True
    then have "delete_record_mvcc x rid s = Some (Inl (TransactionAbortException (the_txn_id (ds_txn s)) WRITE_WRITE_CONFLICT), s)"
      by (simp add: delete_record_mvcc_def m conflict_def throw_def)
    moreover have "s\<lparr>ds_txn := ds_txn s, ds_mvcc := Some m\<rparr> = s" by (simp add: m [symmetric])
    ultimately show ?thesis using that(2) by metis
  next
    case False
    obtain ok t m' st where d: "delete_version rid (dx_name x) (ds_txn s) (m, Some (ds_fhs s)) = (ok, t, m', st)"
      by (cases "delete_version rid (dx_name x) (ds_txn s) (m, Some (ds_fhs s))")
    note k = delete_version_files [OF assms(1-4) d]
    let ?s = "s\<lparr>ds_txn := t, ds_mvcc := Some m'\<rparr>"
    have "delete_record_mvcc x rid s = (if ok then Some (Inr True, ?s) else conflict ?s)"
      using False d k by (simp add: delete_record_mvcc_def m Let_def)
    then show ?thesis using that k by (cases ok) (auto simp: conflict_def throw_def)
  qed
qed

lemma delete_next_ok:
  assumes stored: "map_of (ds_fhs s) (dx_name x) = Some f" "file_inv f" "room f" and "ds_mvcc s \<noteq> None" "distinct (map fst (tab_indexes (dx_tab x)))"
    "indexed (tab_indexes (dx_tab x)) (ds_ihs s) rows" "distinct rids" "the_txn_id (ds_txn s) = tid"
    "\<forall>rid \<in> set rids. \<exists>r. file_records f rid = Some r \<and> rows rid = Some r \<and> (\<forall>(name, im) \<in> set (tab_indexes (dx_tab x)). key_fits im r)"
  shows "\<exists>res s' D. delete_next x rids s = Some (res, s') \<and> ds_fhs s' = ds_fhs s \<and> D \<subseteq> set rids \<and>
    indexed (tab_indexes (dx_tab x)) (ds_ihs s') (rows |` (- D)) \<and>
    (if res = Inr () then D = {rid \<in> set rids. visible (Some tid) f rid}
     else res = Inl (TransactionAbortException tid WRITE_WRITE_CONFLICT))"
  using assms
proof (induction rids arbitrary: s rows)
  case Nil
  have "rows |` (- {}) = rows" by (simp add: restrict_map_def)
  then show ?case using Nil.prems(6) by (intro exI [of _ "Inr ()"] exI [of _ s] exI [of _ "{}"]) simp
next
  case (Cons rid rids)
  let ?is = "tab_indexes (dx_tab x)" and ?abort = "Inl (TransactionAbortException tid WRITE_WRITE_CONFLICT)"
  have r0: "rows |` (- {}) = rows" by (simp add: restrict_map_def)
  obtain r where r: "file_records f rid = Some r" "rows rid = Some r" "\<forall>(name, im) \<in> set ?is. key_fits im r" using Cons.prems(9) by auto
  have rest: "distinct rids" "rid \<notin> set rids" using Cons.prems(7) by simp_all
  show ?case
  proof (cases rule: lock_row_ok [OF Cons.prems(1), of rid])
    case (2 t lt)
    then show ?thesis using Cons.prems(6,8) r0
      by (intro exI [of _ ?abort] exI [of _ "s\<lparr>ds_txn := t, ds_locks := lt\<rparr>"] exI [of _ "{}"]) simp
  next
    case (1 t lt)
    let ?s = "s\<lparr>ds_txn := t, ds_locks := lt\<rparr>"
    have tid: "the_txn_id t = tid" using 1(2) Cons.prems(8) by simp
    have get: "get_row x rid ?s = Some (Inr (if visible (Some tid) f rid then Some r else None), ?s)"
      unfolding get_row_def by (rule on_file_same) (use Cons.prems(1) tid get_record_mvcc_ok [OF Cons.prems(2,3) r(1), of "Some tid"] in simp_all)
    show ?thesis
    proof (cases "visible (Some tid) f rid")
      case False
      have "delete_next x (rid # rids) s = delete_next x rids ?s" using 1(1) get False by simp
      moreover obtain res s' D where "delete_next x rids ?s = Some (res, s')" "ds_fhs s' = ds_fhs ?s" "D \<subseteq> set rids"
        "indexed ?is (ds_ihs s') (rows |` (- D))" "if res = Inr () then D = {rid \<in> set rids. visible (Some tid) f rid} else res = ?abort"
        using Cons.IH [of ?s rows] Cons.prems tid rest(1) by auto
      ultimately show ?thesis using False by (intro exI [of _ res] exI [of _ s'] exI [of _ D]) auto
    next
      case True
      have ix: "indexed ?is (ds_ihs ?s) rows" using Cons.prems(6) by simp
      obtain s1 where s1: "delete_keys ?is r rid ?s = Some (Inr (), s1)" "indexed ?is (ds_ihs s1) (rows(rid := None))"
        "same_but_ihs ?s (key_writes IX_DELETE_TUPLE ?is r rid) s1"
        using delete_keys_ok [where rows = rows, OF ix r(3) Cons.prems(5) r(2)] by blast
      note S = same_but_ihsD [OF s1(3)]
      have files: "map_of (ds_fhs s1) (dx_name x) = Some f" "ds_mvcc s1 \<noteq> None" "the_txn_id (ds_txn s1) = tid" "ds_fhs s1 = ds_fhs s"
        using S Cons.prems(1,4) tid by simp_all
      have gone: "rows(rid := None) = rows |` (- {rid})" by (auto simp: restrict_map_def)
      have more: "(rows(rid := None)) |` (- D) = rows |` (- insert rid D)" for D by (auto simp: restrict_map_def)
      have some: "file_records f rid \<noteq> None" using r(1) by simp
      have start: "delete_next x (rid # rids) s = run_bind (delete_record_mvcc x rid s1) (\<lambda>ok s.
          if \<not> ok then conflict s else delete_next x rids (add_write DELETE_TUPLE (dx_name x) rid r s))"
        using 1(1) get True s1(1) by simp
      show ?thesis
      proof (cases rule: delete_record_mvcc_ok [OF files(1) Cons.prems(2,3) some files(2)])
        case (1 t2 m)
        let ?s2 = "add_write DELETE_TUPLE (dx_name x) rid r (s1\<lparr>ds_txn := t2, ds_mvcc := Some m\<rparr>)"
        have f2: "ds_fhs ?s2 = ds_fhs s" "ds_mvcc ?s2 \<noteq> None" "ds_ihs ?s2 = ds_ihs s1" "the_txn_id (ds_txn ?s2) = tid"
          using files 1(2) by (simp_all add: add_write_def append_write_record_def)
        have i2: "map_of (ds_fhs ?s2) (dx_name x) = Some f" "indexed ?is (ds_ihs ?s2) (rows(rid := None))"
          using f2(1) Cons.prems(1) s1(2) unfolding f2(3) by simp_all
        have "\<forall>q \<in> set rids. \<exists>r. file_records f q = Some r \<and> (rows(rid := None)) q = Some r \<and> (\<forall>(name, im) \<in> set ?is. key_fits im r)"
          using Cons.prems(9) rest(2) by auto
        then obtain res s' D where "delete_next x rids ?s2 = Some (res, s')" "ds_fhs s' = ds_fhs ?s2" "D \<subseteq> set rids"
          "indexed ?is (ds_ihs s') ((rows(rid := None)) |` (- D))" "if res = Inr () then D = {q \<in> set rids. visible (Some tid) f q} else res = ?abort"
          using Cons.IH [OF i2(1) Cons.prems(2,3) f2(2) Cons.prems(5) i2(2) rest(1) f2(4)] by blast
        then show ?thesis using start 1(1) f2(1) True unfolding more by (intro exI [of _ res] exI [of _ s'] exI [of _ "insert rid D"]) auto
      next
        case (2 t2 m)
        let ?s2 = "s1\<lparr>ds_txn := t2, ds_mvcc := Some m\<rparr>"
        have "delete_next x (rid # rids) s = Some (?abort, ?s2)" using start 2 files(3) by simp
        then show ?thesis using s1(2) files(4) unfolding gone by (intro exI [of _ ?abort] exI [of _ ?s2] exI [of _ "{rid}"]) simp
      qed
    qed
  qed
qed

subsection \<open>Properties\<close>

text \<open>C6: an insertion refines adding a row to a table with unique keys. Values that cannot be stored are refused with
  their exception, a key that some row has is refused with a uniqueness error, and in both cases nothing has changed, although
  the check and the change go over all indexes in turn; otherwise the row is in the file under a new record id, every index has
  exactly the keys of the rows, and the write set has what is needed to undo the row and each key.\<close>

theorem insert_refines_table:
  assumes "table_rel x s rows" "map_of (ds_fhs s) (dx_name x) = Some f"
    and "length (junk (record_size (rf_hdr f))) = record_size (rf_hdr f)" "num_pages (rf_hdr f) + 1 < 2 ^ 31"
  shows "case fill_record (tab_cols (dx_tab x)) vals (junk (record_size (rf_hdr f))) of
      None \<Rightarrow> insert_next junk x vals s = None
    | Some (Inl e) \<Rightarrow> insert_next junk x vals s = Some (Inl e, s)
    | Some (Inr r) \<Rightarrow> (\<forall>(name, im) \<in> set (tab_indexes (dx_tab x)). key_fits im r) \<longrightarrow>
        (if taken (tab_indexes (dx_tab x)) rows r then insert_next junk x vals s = Some (Inl UniqueCheckError, s)
         else \<exists>rid s'. insert_next junk x vals s = Some (Inr rid, s') \<and> rows rid = None \<and> table_rel x s' (rows(rid \<mapsto> r)) \<and>
           write_set (ds_txn s') = write_set (ds_txn s) @ \<lparr>wr_type = INSERT_TUPLE, wr_tab_name = dx_name x, wr_rid = rid, wr_record = r\<rparr> #
             key_writes IX_INSERT_TUPLE (tab_indexes (dx_tab x)) r rid \<and> ds_locks s' = ds_locks s \<and> ds_mvcc s' = ds_mvcc s)"
proof -
  have "on_file (dx_name x) (\<lambda>f. (Inr (record_size (rf_hdr f)), f)) s = Some (Inr (record_size (rf_hdr f)), s)"
    by (rule on_file_same [OF assms(2)]) simp
  then have start: "insert_next junk x vals s = run_bind (lift_checked (fill_record (tab_cols (dx_tab x)) vals (junk (record_size (rf_hdr f)))) s)
      (\<lambda>r s. run_bind (check_unique (tab_indexes (dx_tab x)) r s) (\<lambda>_ s.
         run_bind (on_file (dx_name x) (insert_record r (Some (dml_context x s))) s) (\<lambda>rid s.
         run_bind (insert_keys (tab_indexes (dx_tab x)) r rid (add_write INSERT_TUPLE (dx_name x) rid r s)) (\<lambda>_ s. Some (Inr rid, s)))))"
    by (simp add: insert_next_def Let_def)
  show ?thesis
  proof (cases "fill_record (tab_cols (dx_tab x)) vals (junk (record_size (rf_hdr f)))")
    case None
    then show ?thesis unfolding start by (simp add: lift_checked_def run_bind_def)
  next
    case (Some a)
    show ?thesis
    proof (cases a)
      case (Inl e)
      then show ?thesis unfolding start Some by (simp add: lift_checked_def)
    next
      case (Inr r)
      show ?thesis unfolding Some Inr option.case sum.case
        by (rule impI, rule insert_next_ok [where junk = junk, OF assms(1,2) _ assms(3) _ assms(4)]) (use Some Inr in simp_all)
    qed
  qed
qed

text \<open>A table with one integer column and an index on it, without rows.\<close>

definition example_exec :: dml_exec where
  "example_exec = \<lparr>dx_tab = \<lparr>tab_name = ''t'', tab_cols = [example_col ''a'' 0], tab_indexes = [(''t_a.idx'', example_index ''a'' 0)]\<rparr>,
     dx_name = ''t'', dx_log = False\<rparr>"

definition example_dml :: dml_state where
  "example_dml = \<lparr>ds_fhs = [(''t'', example_file 4)], ds_ihs = [''t_a.idx'' \<mapsto> small_index], ds_locks = Map.empty,
     ds_mvcc = Some mvcc_new, ds_txn = new_transaction 1 SERIALIZABLE\<rparr>"

lemma example_table:
  "table_rel example_exec example_dml Map.empty" "map_of (ds_fhs example_dml) (dx_name example_exec) = Some (example_file 4)"
  "record_size (rf_hdr (example_file 4)) = 4" "num_pages (rf_hdr (example_file 4)) + 1 < 2 ^ 31"
proof -
  show f: "map_of (ds_fhs example_dml) (dx_name example_exec) = Some (example_file 4)" by (simp add: example_dml_def example_exec_def)
  have "file_records (example_file 4) = Map.empty"
    by (auto simp: file_records_def data_page_def example_file_def file_hdr_new_def Let_def fun_eq_iff)
  moreover have ok: "file_inv (example_file 4)" "room (example_file 4)" "num_pages (rf_hdr (example_file 4)) + 1 < 2 ^ 31"
    using example_file_ok [of 4] by (simp_all add: file_ok_def file_space_def RM_MAX_RECORD_SIZE_def)
  moreover have "index_of (example_index ''a'' 0) small_index Map.empty"
    using small_index_represents small_index_cols by (auto simp: index_of_def example_index_def example_col_def)
  ultimately show "table_rel example_exec example_dml Map.empty" using f by (simp add: table_rel_def example_dml_def example_exec_def)
  show "record_size (rf_hdr (example_file 4)) = 4" by (simp add: example_file_def file_hdr_new_def Let_def)
  show "num_pages (rf_hdr (example_file 4)) + 1 < 2 ^ 31" by (rule ok)
qed

lemma example_fill: "fill_record (tab_cols (dx_tab example_exec)) [set_int 7 Value_default] (replicate 4 0) = Some (Inr (enc_i32 7))"
  and example_fits: "key_fits (example_index ''a'' 0) (enc_i32 7)"
proof -
  have "int_val (set_int 7 Value_default) = 7" by (simp add: int_val_def set_int_def read_i32_def read_bytes_def dec_enc_i32 int32_def)
  then show "fill_record (tab_cols (dx_tab example_exec)) [set_int 7 Value_default] (replicate 4 0) = Some (Inr (enc_i32 7))"
    by (simp add: example_exec_def example_col_def coerce_value_def init_raw_def raw_of_def store_def write_bytes_def)
       (simp add: set_int_def Value_default_def write_bytes_def)
  show "key_fits (example_index ''a'' 0) (enc_i32 7)"
    by (simp add: key_fits_def build_key_def row_key_def example_index_def example_col_def read_bytes_def)
qed

theorem insert_refines_table_witness:
  "\<exists>rid s'. insert_next (\<lambda>n. replicate n 0) example_exec [set_int 7 Value_default] example_dml = Some (Inr rid, s') \<and>
     table_rel example_exec s' [rid \<mapsto> enc_i32 7] \<and> length (write_set (ds_txn s')) = 2"
proof -
  note e = example_table example_fill example_fits
  have "\<exists>rid s'. insert_next (\<lambda>n. replicate n 0) example_exec [set_int 7 Value_default] example_dml = Some (Inr rid, s') \<and>
     table_rel example_exec s' [rid \<mapsto> enc_i32 7] \<and>
     write_set (ds_txn s') = write_set (ds_txn example_dml) @ \<lparr>wr_type = INSERT_TUPLE, wr_tab_name = dx_name example_exec, wr_rid = rid, wr_record = enc_i32 7\<rparr> #
       key_writes IX_INSERT_TUPLE (tab_indexes (dx_tab example_exec)) (enc_i32 7) rid"
    using insert_refines_table [where junk = "\<lambda>n. replicate n 0", OF e(1,2) _ e(4), of "[set_int 7 Value_default]"] e(6)
    unfolding e(3) e(5) by (auto simp: taken_def example_exec_def)
  then show ?thesis by (fastforce simp: example_dml_def new_transaction_def key_writes_def example_exec_def)
qed

text \<open>C15: a deletion with a version manager ends, with success or with a write conflict; it takes the keys of the rows it
  deletes, on success those of all given rows the transaction sees, out of every index, and it leaves the record files as they
  were: the deleted rows are still stored, so that a sequential scan, which reads the file and not the version chains, returns
  them.\<close>

theorem delete_keeps_stored_rows:
  assumes "table_rel x s rows" "map_of (ds_fhs s) (dx_name x) = Some f" "ds_mvcc s \<noteq> None" "distinct rids"
    and "\<forall>rid \<in> set rids. \<exists>r. rows rid = Some r \<and> (\<forall>(name, im) \<in> set (tab_indexes (dx_tab x)). key_fits im r)"
  shows "\<exists>res s' D. delete_next x rids s = Some (res, s') \<and> ds_fhs s' = ds_fhs s \<and> D \<subseteq> set rids \<and>
    indexed (tab_indexes (dx_tab x)) (ds_ihs s') (rows |` (- D)) \<and>
    (if res = Inr () then D = {rid \<in> set rids. visible (Some (the_txn_id (ds_txn s))) f rid}
     else res = Inl (TransactionAbortException (the_txn_id (ds_txn s)) WRITE_WRITE_CONFLICT))"
  by (rule delete_next_ok) (use assms in \<open>auto simp: table_rel_def\<close>)

theorem delete_keeps_stored_rows_witness:
  "\<exists>rid s res s'. insert_next (\<lambda>n. replicate n 0) example_exec [set_int 7 Value_default] example_dml = Some (Inr rid, s) \<and>
     delete_next example_exec [rid] s = Some (res, s') \<and> ds_fhs s' = ds_fhs s"
proof -
  note e = example_table
  have fits: "\<forall>(name, im) \<in> set (tab_indexes (dx_tab example_exec)). key_fits im (enc_i32 7)" using example_fits by (simp add: example_exec_def)
  have fill: "fill_record (tab_cols (dx_tab example_exec)) [set_int 7 Value_default] (replicate (record_size (rf_hdr (example_file 4))) 0) = Some (Inr (enc_i32 7))"
    using example_fill e(3) by simp
  obtain rid s where s: "insert_next (\<lambda>n. replicate n 0) example_exec [set_int 7 Value_default] example_dml = Some (Inr rid, s)"
    "table_rel example_exec s [rid \<mapsto> enc_i32 7]" "ds_mvcc s = ds_mvcc example_dml"
    using insert_next_ok [where junk = "\<lambda>n. replicate n 0", OF e(1,2) fill _ fits e(4)] by (auto simp: taken_def)
  obtain f where "map_of (ds_fhs s) (dx_name example_exec) = Some f" using s(2) by (auto simp: table_rel_def)
  from delete_keeps_stored_rows [OF s(2) this, of "[rid]"] show ?thesis using s fits by (fastforce simp: example_dml_def)
qed

text \<open>The columns of a table follow each other in the row, as \<^verbatim>\<open>create_table\<close> lays them out.\<close>

fun laid_out :: "nat \<Rightarrow> ColMeta list \<Rightarrow> bool" where
  "laid_out off [] \<longleftrightarrow> True"
| "laid_out off (c # cs) \<longleftrightarrow> col_offset c = off \<and> laid_out (off + col_len c) cs"

lemma laid_out_above: "laid_out off cs \<Longrightarrow> c \<in> set cs \<Longrightarrow> off \<le> col_offset c"
  by (induction cs arbitrary: off) force+

lemma fill_record_Cons:
  assumes "fill_record (c # cs) (v # vs) r = Some (Inr r')"
  obtains v1 v2 raw r1 where "coerce_value c v = Some v1" "init_raw (col_len c) v1 = Inr v2" "v_raw v2 = Some raw"
    "col_offset c + length raw \<le> length r" "r1 = write_bytes (col_offset c) raw r" "fill_record cs vs r1 = Some (Inr r')"
  using assms by (auto simp: chk_Inr raw_of_def store_def split: option.splits if_splits)

lemma fill_record_before:
  assumes "fill_record cs vs r = Some (Inr r')" "laid_out off cs" "n + m \<le> off"
  shows "read_bytes n m r' = read_bytes n m r"
  using assms
proof (induction cs arbitrary: vs r off)
  case Nil
  then show ?case by (cases vs) auto
next
  case (Cons c cs)
  show ?case
  proof (cases vs)
    case Nil
    then show ?thesis using Cons.prems by simp
  next
    case (Cons v us)
    obtain raw r1 where k: "col_offset c + length raw \<le> length r" "r1 = write_bytes (col_offset c) raw r" "fill_record cs us r1 = Some (Inr r')"
      by (rule fill_record_Cons [OF Cons.prems(1) [unfolded Cons]])
    have "read_bytes n m r' = read_bytes n m r1" by (rule Cons.IH [OF k(3), of "off + col_len c"]) (use Cons.prems in auto)
    then show ?thesis using k Cons.prems(2,3) by (simp add: read_write_before)
  qed
qed

definition storable :: "Value \<Rightarrow> bool" where
  "storable v \<longleftrightarrow> length (v_num v) = 4 \<and> (v_type v = TYPE_STRING \<longrightarrow> 0 \<notin> set (v_str v))"

lemma coerce_storable:
  assumes "coerce_value c v = Some v1" "storable v"
  shows "storable v1"
proof -
  have "length (f32_of_int n) = 4" for n by (simp add: f32_of_int_def)
  then show ?thesis using assms by (auto simp: coerce_value_def storable_def set_int_def set_float_def split: if_splits option.splits)
qed

lemma fill_record_values:
  assumes "fill_record cs vs r = Some (Inr r')" "laid_out off cs" "length vs = length cs" "\<forall>v \<in> set vs. storable v"
  shows "list_all2 (\<lambda>c v. \<exists>v'. coerce_value c v = Some v' \<and> (v_type v' = col_type c \<longrightarrow> value_rank (col_value c r') = value_rank v')) cs vs"
  using assms
proof (induction cs arbitrary: vs r off)
  case (Cons c cs)
  obtain v us where vs: "vs = v # us" using Cons.prems(3) by (cases vs) auto
  obtain v1 v2 raw r1 where k: "coerce_value c v = Some v1" "init_raw (col_len c) v1 = Inr v2" "v_raw v2 = Some raw"
    "col_offset c + length raw \<le> length r" "r1 = write_bytes (col_offset c) raw r" "fill_record cs us r1 = Some (Inr r')"
    by (rule fill_record_Cons [OF Cons.prems(1) [unfolded vs]])
  have lay: "col_offset c = off" "laid_out (off + col_len c) cs" using Cons.prems(2) by simp_all
  have st: "storable v1" using coerce_storable [OF k(1)] Cons.prems(4) vs by simp
  then have v1: "length (v_num v1) = 4" "v_type v1 = TYPE_STRING \<longrightarrow> 0 \<notin> set (v_str v1)" by (simp_all add: storable_def)
  have len: "length raw = col_len c" using raw_length [OF k(2) v1(1) k(3)] .
  have "read_bytes off (col_len c) r' = read_bytes off (col_len c) r1" by (rule fill_record_before [OF k(6) lay(2)]) simp
  also have "\<dots> = raw" unfolding k(5) lay(1) by (rule read_write_same) (use k(4) len lay in simp_all)
  finally have "col_bytes c r' = raw" by (simp add: col_bytes_def lay(1))
  then have "value_rank (col_value c r') = value_rank v1" if "v_type v1 = col_type c"
    using raw_rank [OF v1 k(2,3)] that by (simp add: col_value_def)
  moreover have "list_all2 (\<lambda>c v. \<exists>v'. coerce_value c v = Some v' \<and> (v_type v' = col_type c \<longrightarrow> value_rank (col_value c r') = value_rank v')) cs us"
    by (rule Cons.IH [OF k(6) lay(2)]) (use Cons.prems(3,4) vs in auto)
  ultimately show ?case unfolding vs using k(1) by simp
qed simp

text \<open>The types are not checked: a string of four bytes goes into an integer column as its bytes.\<close>

lemma string_into_integer:
  "fill_record [example_col ''a'' 0] [set_str [97, 98, 99, 100] Value_default] (replicate 4 0) = Some (Inr [97, 98, 99, 100])"
  by code_simp

text \<open>C35: the row an insertion stores reads back, column by column, as the given values, each converted to the type of its column
  where both are numbers.\<close>

theorem inserted_row_reads_back:
  assumes "fill_record cs vs r = Some (Inr r')" "laid_out off cs" "length vs = length cs" "\<forall>v \<in> set vs. storable v"
  shows "list_all2 (\<lambda>c v. \<exists>v'. coerce_value c v = Some v' \<and> (v_type v' = col_type c \<longrightarrow> value_rank (col_value c r') = value_rank v')) cs vs"
  by (rule fill_record_values [OF assms])

theorem inserted_row_reads_back_witness:
  "value_rank (col_value (example_col ''a'' 0) (enc_i32 7)) = value_rank (set_int 7 Value_default)"
proof -
  have "storable (set_int 7 Value_default)" by (simp add: storable_def set_int_def)
  moreover have "tab_cols (dx_tab example_exec) = [example_col ''a'' 0]" by (simp add: example_exec_def)
  ultimately show ?thesis
    using inserted_row_reads_back [where off = 0, OF example_fill]
    by (simp add: example_col_def coerce_value_def set_int_def)
qed

end
