(* ===== verification/Exec_Expr.thy ===== *)
theory Exec_Expr
  imports Exec_Cond Mvcc_Manager
begin

text \<open>
  The expressions of an update (\<^verbatim>\<open>src/src/execution/expression_evaluator.h\<close> and \<^verbatim>\<open>evaluate_set_clause\<close> in
  \<^verbatim>\<open>executor_update.h\<close>) over the arithmetic of \<^verbatim>\<open>int\<close> and \<^verbatim>\<open>float\<close>. Single precision is computed exactly and then rounded to
  nearest, ties to even; a NaN result is the quiet one. An overflow of \<^verbatim>\<open>int\<close> is undefined.

  Shown: a well-typed expression evaluates to a value of its type, unless an integer overflows or it divides by zero; and an
  integer expression is computed as on the integers.
\<close>

subsection \<open>Arithmetic of floats\<close>

definition round_div :: "nat \<Rightarrow> nat \<Rightarrow> nat" where
  "round_div p q = (let d = p div q; r = p mod q in if q < 2 * r \<or> (q = 2 * r \<and> odd d) then d + 1 else d)"

text \<open>The bits of the value nearest to \<open>p / q * 2 ^ e\<close>.\<close>

definition f32_round :: "nat \<Rightarrow> nat \<Rightarrow> int \<Rightarrow> nat" where
  "f32_round p q e =
     (if p = 0 then 0
      else let a = p * 2 ^ nat e; b = q * 2 ^ nat (- e);
               d = int (log2 a) - int (log2 b);
               top = (if b * 2 ^ nat d \<le> a * 2 ^ nat (- d) then d else d - 1);
               x = max top (-126);
               n = round_div (a * 2 ^ nat (23 - x)) (b * 2 ^ nat (x - 23))
           in min 2139095040 (nat (x + 126) * 2 ^ 23 + n))"

definition f32_neg :: "bytes \<Rightarrow> bool" where "f32_neg a \<longleftrightarrow> 2 ^ 31 \<le> le_nat a"
definition f32_abs :: "bytes \<Rightarrow> nat" where "f32_abs a = le_nat a mod 2 ^ 31"
definition f32_inf :: "bytes \<Rightarrow> bool" where "f32_inf a \<longleftrightarrow> f32_abs a = 2139095040"
definition f32_signed :: "bool \<Rightarrow> nat \<Rightarrow> bytes" where "f32_signed neg m = le_bytes 4 ((if neg then 2 ^ 31 else 0) + m)"
definition f32_qnan :: bytes where "f32_qnan = le_bytes 4 2143289344"

text \<open>A finite value is its significand times a power of two.\<close>

definition f32_man :: "bytes \<Rightarrow> nat" where
  "f32_man a = (let m = f32_abs a in if m < 2 ^ 23 then m else 2 ^ 23 + m mod 2 ^ 23)"

definition f32_exp :: "bytes \<Rightarrow> int" where
  "f32_exp a = (let m = f32_abs a in if m < 2 ^ 23 then -149 else int (m div 2 ^ 23) - 150)"

definition f32_opp :: "bytes \<Rightarrow> bytes" where
  "f32_opp a = f32_signed (\<not> f32_neg a) (f32_abs a)"

definition f32_add :: "bytes \<Rightarrow> bytes \<Rightarrow> bytes" where
  "f32_add a b =
     (if f32_nan a \<or> f32_nan b \<or> (f32_inf a \<and> f32_inf b \<and> f32_neg a \<noteq> f32_neg b) then f32_qnan
      else if f32_inf a then a
      else if f32_inf b then b
      else let e = min (f32_exp a) (f32_exp b);
               x = int (f32_man a * 2 ^ nat (f32_exp a - e)); y = int (f32_man b * 2 ^ nat (f32_exp b - e));
               s = (if f32_neg a then - x else x) + (if f32_neg b then - y else y)
           in f32_signed (if s = 0 then f32_neg a \<and> f32_neg b else s < 0) (f32_round (nat \<bar>s\<bar>) 1 e))"

definition f32_sub :: "bytes \<Rightarrow> bytes \<Rightarrow> bytes" where
  "f32_sub a b = f32_add a (f32_opp b)"

definition f32_mul :: "bytes \<Rightarrow> bytes \<Rightarrow> bytes" where
  "f32_mul a b =
     (let neg = (f32_neg a \<noteq> f32_neg b)
      in if f32_nan a \<or> f32_nan b \<or> (f32_inf a \<and> f32_abs b = 0) \<or> (f32_abs a = 0 \<and> f32_inf b) then f32_qnan
         else if f32_inf a \<or> f32_inf b then f32_signed neg 2139095040
         else f32_signed neg (f32_round (f32_man a * f32_man b) 1 (f32_exp a + f32_exp b)))"

text \<open>The divisor is not zero.\<close>

definition f32_div :: "bytes \<Rightarrow> bytes \<Rightarrow> bytes" where
  "f32_div a b =
     (let neg = (f32_neg a \<noteq> f32_neg b)
      in if f32_nan a \<or> f32_nan b \<or> (f32_inf a \<and> f32_inf b) then f32_qnan
         else if f32_inf a then f32_signed neg 2139095040
         else if f32_inf b then f32_signed neg 0
         else f32_signed neg (f32_round (f32_man a) (f32_man b) (f32_exp a - f32_exp b)))"

lemma length_f32 [simp]:
  "length (f32_signed n m) = 4" "length f32_qnan = 4"
  by (simp_all add: f32_signed_def f32_qnan_def)

lemma length_f32_ops:
  "length a = 4 \<Longrightarrow> length b = 4 \<Longrightarrow> length (f32_add a b) = 4" "length a = 4 \<Longrightarrow> length (f32_sub a b) = 4"
  "length (f32_mul a b) = 4" "length (f32_div a b) = 4"
  by (simp_all add: f32_add_def f32_sub_def f32_opp_def f32_mul_def f32_div_def Let_def)

subsection \<open>Text of numbers\<close>

text \<open>\<^verbatim>\<open>std::to_string(float)\<close>, the format \<^verbatim>\<open>%f\<close>: six digits after the point, rounded from the exact value.\<close>

definition f32_to_string :: "bytes \<Rightarrow> string" where
  "f32_to_string a =
     (let sign = (if f32_neg a then ''-'' else [])
      in if f32_nan a then sign @ ''nan'' else if f32_inf a then sign @ ''inf''
         else let n = round_div (f32_man a * 10 ^ 6 * 2 ^ nat (f32_exp a)) (2 ^ nat (- f32_exp a)); frac = to_string (int (n mod 10 ^ 6))
              in sign @ to_string (int (n div 10 ^ 6)) @ ''.'' @ replicate (6 - length frac) (CHR ''0'') @ frac)"

text \<open>\<^verbatim>\<open>std::stof\<close> on a decimal number; \<^term>\<open>Some None\<close> is its exception. Hexadecimal numbers, infinities and NaNs as text are
  not modelled.\<close>

definition scan_exponent :: "string \<Rightarrow> int" where
  "scan_exponent s =
     (case s of
        c # cs \<Rightarrow> if c = CHR ''e'' \<or> c = CHR ''E'' then
                   (case cs of
                      [] \<Rightarrow> 0
                    | d # ds \<Rightarrow> (let sg = (if d = CHR ''-'' then -1 else 1); t = (if d = CHR ''-'' \<or> d = CHR ''+'' then ds else cs)
                                in sg * int (digits_value (takeWhile is_digit t))))
                 else 0
      | [] \<Rightarrow> 0)"

definition stof :: "string \<Rightarrow> bytes option option" where
  "stof s =
     (let t = dropWhile is_space s; neg = (take 1 t = ''-''); t = (if take 1 t = ''-'' \<or> take 1 t = ''+'' then drop 1 t else t);
          ds = takeWhile is_digit t; rest = dropWhile is_digit t;
          fs = (if take 1 rest = ''.'' then takeWhile is_digit (drop 1 rest) else []);
          rest = (if take 1 rest = ''.'' then dropWhile is_digit (drop 1 rest) else rest);
          e = scan_exponent rest - int (length fs); n = digits_value (ds @ fs); p = n * 10 ^ nat e; q = 10 ^ nat (- e); m = f32_round p q 0
      in if ds @ fs = [] then (if take 1 t = ''i'' \<or> take 1 t = ''I'' \<or> take 1 t = ''n'' \<or> take 1 t = ''N'' then None else Some None)
         else if take 2 t = ''0x'' \<or> take 2 t = ''0X'' then None
         else if m = 2139095040 \<or> (0 < n \<and> m < 2 ^ 23 \<and> (p * 2 ^ 149) mod q \<noteq> 0) then Some None
         else Some (Some (f32_signed neg m)))"

subsection \<open>Expressions\<close>

datatype ArithOp = ADD | SUB | MUL | DIV

text \<open>The expressions of the parser; \<open>OtherExpr\<close> are those an update does not support (aggregates, comparisons, aliases).\<close>

datatype Expr = IntLit int | FloatLit bytes | StringLit bytes | BoolLit bool | ColRef string string | ArithExpr Expr ArithOp Expr | OtherExpr

definition evaluate_column :: "ColMeta list \<Rightarrow> bytes \<Rightarrow> string \<Rightarrow> Value checked" where
  "evaluate_column cols r name =
     (case List.find (\<lambda>c. col_name c = name) cols of
        None \<Rightarrow> Some (Inl (RuntimeError ''Column not found''))
      | Some c \<Rightarrow>
          (case col_type c of
             TYPE_INT \<Rightarrow> chk (load (col_offset c) 4 r) (\<lambda>bs. Some (Inr (set_int (dec_i32 bs) Value_default)))
           | TYPE_FLOAT \<Rightarrow> chk (load (col_offset c) 4 r) (\<lambda>bs. Some (Inr (set_float bs Value_default)))
           | TYPE_STRING \<Rightarrow> chk (load (col_offset c) (col_len c) r) (\<lambda>bs. Some (Inr (set_str (c_str bs) Value_default)))))"

definition convert_for_arithmetic :: "Value \<Rightarrow> Value \<Rightarrow> db_error + Value \<times> Value" where
  "convert_for_arithmetic l r =
     (if v_type l = v_type r then Inr (l, r)
      else if is_numeric_type (v_type l) \<and> is_numeric_type (v_type r)
      then if v_type l = TYPE_INT then Inr (set_float (f32_of_int (int_val l)) l, r) else Inr (l, set_float (f32_of_int (int_val r)) r)
      else Inl (IncompatibleTypeError (coltype2str (v_type l)) (coltype2str (v_type r))))"

definition int_result :: "int \<Rightarrow> Value checked" where
  "int_result n = (if int32 n then Some (Inr (set_int n Value_default)) else None)"

definition float_result :: "bytes \<Rightarrow> Value checked" where
  "float_result f = Some (Inr (set_float f Value_default))"

definition add_values :: "Value \<Rightarrow> Value \<Rightarrow> Value checked" where
  "add_values l r =
     (if v_type l = TYPE_INT \<and> v_type r = TYPE_INT then int_result (int_val l + int_val r)
      else if v_type l = TYPE_FLOAT \<and> v_type r = TYPE_FLOAT then float_result (f32_add (float_val l) (float_val r))
      else if v_type l = TYPE_STRING \<and> v_type r = TYPE_STRING then Some (Inr (set_str (v_str l @ v_str r) Value_default))
      else Some (Inl (RuntimeError ''Invalid types for addition'')))"

definition subtract_values :: "Value \<Rightarrow> Value \<Rightarrow> Value checked" where
  "subtract_values l r =
     (if v_type l = TYPE_INT \<and> v_type r = TYPE_INT then int_result (int_val l - int_val r)
      else if v_type l = TYPE_FLOAT \<and> v_type r = TYPE_FLOAT then float_result (f32_sub (float_val l) (float_val r))
      else Some (Inl (RuntimeError ''Invalid types for subtraction'')))"

definition multiply_values :: "Value \<Rightarrow> Value \<Rightarrow> Value checked" where
  "multiply_values l r =
     (if v_type l = TYPE_INT \<and> v_type r = TYPE_INT then int_result (int_val l * int_val r)
      else if v_type l = TYPE_FLOAT \<and> v_type r = TYPE_FLOAT then float_result (f32_mul (float_val l) (float_val r))
      else Some (Inl (RuntimeError ''Invalid types for multiplication'')))"

text \<open>The quotient of two integers is a float.\<close>

definition divide_values :: "Value \<Rightarrow> Value \<Rightarrow> Value checked" where
  "divide_values l r =
     (if v_type l = TYPE_INT \<and> v_type r = TYPE_INT then
        (if int_val r = 0 then Some (Inl (RuntimeError ''Division by zero''))
         else float_result (f32_div (f32_of_int (int_val l)) (f32_of_int (int_val r))))
      else if v_type l = TYPE_FLOAT \<and> v_type r = TYPE_FLOAT then
        (if f32_eq (float_val r) f32_zero then Some (Inl (RuntimeError ''Division by zero''))
         else float_result (f32_div (float_val l) (float_val r)))
      else Some (Inl (RuntimeError ''Invalid types for division'')))"

definition arith_values :: "ArithOp \<Rightarrow> Value \<Rightarrow> Value \<Rightarrow> Value checked" where
  "arith_values op l r =
     (case op of ADD \<Rightarrow> add_values l r | SUB \<Rightarrow> subtract_values l r | MUL \<Rightarrow> multiply_values l r | DIV \<Rightarrow> divide_values l r)"

fun evaluate :: "ColMeta list \<Rightarrow> bytes \<Rightarrow> Expr \<Rightarrow> Value checked" where
  "evaluate cols r (IntLit n) = Some (Inr (set_int n Value_default))"
| "evaluate cols r (FloatLit f) = Some (Inr (set_float f Value_default))"
| "evaluate cols r (StringLit s) = Some (Inr (set_str s Value_default))"
| "evaluate cols r (BoolLit b) = Some (Inr (set_int (if b then 1 else 0) Value_default))"
| "evaluate cols r (ColRef tab name) = evaluate_column cols r name"
| "evaluate cols r (ArithExpr e op f) =
     chk (evaluate cols r e) (\<lambda>x. chk (evaluate cols r f) (\<lambda>y.
     chk (Some (convert_for_arithmetic x y)) (\<lambda>(x, y). arith_values op x y)))"
| "evaluate cols r OtherExpr = Some (Inl (RuntimeError ''Unsupported expression type''))"

subsection \<open>Set clauses\<close>

record SetClause =
  sc_lhs :: TabCol
  sc_rhs :: Value
  sc_expr :: "Expr option"

definition value_to_string :: "Value \<Rightarrow> bytes" where
  "value_to_string v =
     (case v_type v of
        TYPE_INT \<Rightarrow> map of_char (to_string (int_val v))
      | TYPE_FLOAT \<Rightarrow> map of_char (f32_to_string (float_val v))
      | TYPE_STRING \<Rightarrow> v_str v)"

definition text_of :: "bytes \<Rightarrow> string" where
  "text_of bs = map (\<lambda>b. char_of (unat b)) bs"

definition assign_convert :: "ColMeta \<Rightarrow> Value \<Rightarrow> Value checked" where
  "assign_convert col v =
     (if col_type col = v_type v then Some (Inr v)
      else case col_type col of
        TYPE_STRING \<Rightarrow> Some (Inr (set_str (value_to_string v) v))
      | TYPE_INT \<Rightarrow>
          (if v_type v = TYPE_FLOAT then (case f32_to_int (float_val v) of None \<Rightarrow> None | Some n \<Rightarrow> Some (Inr (set_int n v)))
           else case stoi (text_of (v_str v)) of None \<Rightarrow> Some (Inl (RuntimeError ''stoi'')) | Some n \<Rightarrow> Some (Inr (set_int n v)))
      | TYPE_FLOAT \<Rightarrow>
          (if v_type v = TYPE_INT then Some (Inr (set_float (f32_of_int (int_val v)) v))
           else case stof (text_of (v_str v)) of
                  None \<Rightarrow> None | Some None \<Rightarrow> Some (Inl (RuntimeError ''stof'')) | Some (Some f) \<Rightarrow> Some (Inr (set_float f v))))"

text \<open>The buffer of a value that has none is made; the one of a plain value is kept in the clause and is the same for every row.\<close>

definition with_raw :: "nat \<Rightarrow> Value \<Rightarrow> Value checked" where
  "with_raw len v = (if v_raw v = None then Some (init_raw len v) else Some (Inr v))"

definition evaluate_set_clause :: "ColMeta list \<Rightarrow> SetClause \<Rightarrow> bytes \<Rightarrow> ColMeta \<Rightarrow> Value checked" where
  "evaluate_set_clause cols sc r col =
     (case sc_expr sc of
        Some e \<Rightarrow> chk (evaluate cols r e) (\<lambda>v. chk (assign_convert col v) (\<lambda>v. with_raw (col_len col) v))
      | None \<Rightarrow> with_raw (col_len col) (sc_rhs sc))"

subsection \<open>Typing\<close>

fun arith_type :: "ArithOp \<Rightarrow> ColType \<Rightarrow> ColType \<Rightarrow> ColType option" where
  "arith_type op s t =
     (if is_numeric_type s \<and> is_numeric_type t then Some (if op = DIV \<or> s \<noteq> t then TYPE_FLOAT else s)
      else if s = TYPE_STRING \<and> t = TYPE_STRING \<and> op = ADD then Some TYPE_STRING else None)"

fun expr_type :: "ColMeta list \<Rightarrow> Expr \<Rightarrow> ColType option" where
  "expr_type cols (IntLit n) = Some TYPE_INT"
| "expr_type cols (FloatLit f) = (if length f = 4 then Some TYPE_FLOAT else None)"
| "expr_type cols (StringLit s) = Some TYPE_STRING"
| "expr_type cols (BoolLit b) = Some TYPE_INT"
| "expr_type cols (ColRef tab name) = map_option col_type (List.find (\<lambda>c. col_name c = name) cols)"
| "expr_type cols (ArithExpr e op f) =
     (case expr_type cols e of None \<Rightarrow> None | Some s \<Rightarrow> (case expr_type cols f of None \<Rightarrow> None | Some t \<Rightarrow> arith_type op s t))"
| "expr_type cols OtherExpr = None"

text \<open>What evaluating an expression of a type can end in.\<close>

definition typed_result :: "ColType \<Rightarrow> Value checked \<Rightarrow> bool" where
  "typed_result t x \<longleftrightarrow>
     (case x of None \<Rightarrow> True | Some (Inl e) \<Rightarrow> e = RuntimeError ''Division by zero'' | Some (Inr v) \<Rightarrow> v_type v = t \<and> length (v_num v) = 4)"

lemma length_f32_of_int [simp]: "length (f32_of_int n) = 4"
  by (simp add: f32_of_int_def)

lemma set_simps [simp]:
  "v_type (set_int n v) = TYPE_INT" "v_type (set_float f v) = TYPE_FLOAT" "v_type (set_str s v) = TYPE_STRING"
  "v_num (set_int n v) = enc_i32 n" "v_num (set_float f v) = f" "v_num (set_str s v) = v_num v" "length (v_num Value_default) = 4"
  by (simp_all add: set_int_def set_float_def set_str_def Value_default_def)

lemma typed_chk:
  assumes "typed_result s x" "\<And>v. x = Some (Inr v) \<Longrightarrow> v_type v = s \<Longrightarrow> length (v_num v) = 4 \<Longrightarrow> typed_result t (k v)"
  shows "typed_result t (chk x k)"
  using assms by (auto simp: typed_result_def chk_def split: option.splits sum.splits)

lemma typed_results:
  "typed_result TYPE_INT (int_result n)" "length f = 4 \<Longrightarrow> typed_result TYPE_FLOAT (float_result f)"
  by (simp_all add: typed_result_def int_result_def float_result_def)

lemma length_float_val: "length (v_num v) = 4 \<Longrightarrow> length (float_val v) = 4"
  by (simp add: float_val_def)

lemma arith_same:
  assumes "v_type x = t" "v_type y = t" "length (v_num x) = 4" "length (v_num y) = 4" "arith_type op t t = Some u"
  shows "typed_result u (arith_values op x y)"
proof -
  note l = length_float_val [OF assms(3)] length_float_val [OF assms(4)]
  have d: "length (f32_div a b) = 4" "length (f32_mul a b) = 4" for a b by (simp_all add: length_f32_ops)
  show ?thesis using assms l d typed_results
    by (cases op; cases t) (auto simp: arith_values_def add_values_def subtract_values_def multiply_values_def divide_values_def
        is_numeric_type_def length_f32_ops typed_result_def split: if_splits)
qed

lemma arith_typed:
  assumes "v_type x = s" "v_type y = t" "length (v_num x) = 4" "length (v_num y) = 4" "arith_type op s t = Some u"
  shows "typed_result u (chk (Some (convert_for_arithmetic x y)) (\<lambda>(x, y). arith_values op x y))"
proof (cases "s = t")
  case True
  then show ?thesis using arith_same [OF assms(1) _ assms(3,4)] assms by (simp add: convert_for_arithmetic_def)
next
  case False
  then have n: "is_numeric_type s" "is_numeric_type t" "u = TYPE_FLOAT" using assms(5) by (auto split: if_splits)
  have f: "arith_type op TYPE_FLOAT TYPE_FLOAT = Some TYPE_FLOAT" by (simp add: is_numeric_type_def)
  show ?thesis
  proof (cases "s = TYPE_INT")
    case True
    then show ?thesis using False n assms arith_same [OF _ _ _ _ f, of "set_float (f32_of_int (int_val x)) x" y]
      by (auto simp: convert_for_arithmetic_def is_numeric_type_def)
  next
    case i: False
    then show ?thesis using False n assms arith_same [OF _ _ _ _ f, of x "set_float (f32_of_int (int_val y)) y"]
      by (auto simp: convert_for_arithmetic_def is_numeric_type_def)
  qed
qed

lemma column_typed:
  assumes "row_fits cols r" "List.find (\<lambda>c. col_name c = name) cols = Some c"
  shows "typed_result (col_type c) (evaluate_column cols r name) \<and> evaluate_column cols r name \<noteq> None"
proof -
  have "c \<in> set cols" using assms(2) by (auto simp: find_Some_iff)
  then have f: "col_fits c r" using assms(1) by (simp add: row_fits_def)
  then show ?thesis using assms(2)
    by (cases "col_type c") (auto simp: evaluate_column_def load_def col_fits_def typed_result_def)
qed

lemma evaluate_typed:
  assumes "row_fits cols r" "expr_type cols e = Some t"
  shows "typed_result t (evaluate cols r e)"
  using assms(2)
proof (induction e arbitrary: t)
  case (ColRef tab name)
  then show ?case using column_typed [OF assms(1)] by auto
next
  case (ArithExpr e op f)
  obtain s u where su: "expr_type cols e = Some s" "expr_type cols f = Some u" "arith_type op s u = Some t"
    using ArithExpr.prems by (auto split: option.splits)
  show ?case unfolding evaluate.simps
    by (rule typed_chk [OF ArithExpr.IH(1) [OF su(1)]], rule typed_chk [OF ArithExpr.IH(2) [OF su(2)]], rule arith_typed [OF _ _ _ _ su(3)])
qed (auto simp: typed_result_def split: if_splits)

subsection \<open>Expressions over values\<close>

text \<open>The value of an expression when the columns have values: no row is read here, so that \<^term>\<open>None\<close> can only be an integer
  operation whose result is not an \<^verbatim>\<open>int\<close>. \<open>int_overflow\<close> is that there is one, on the values of its operands.\<close>

fun expr_value :: "(string \<Rightarrow> Value) \<Rightarrow> Expr \<Rightarrow> Value checked" where
  "expr_value env (IntLit n) = Some (Inr (set_int n Value_default))"
| "expr_value env (FloatLit f) = Some (Inr (set_float f Value_default))"
| "expr_value env (StringLit s) = Some (Inr (set_str s Value_default))"
| "expr_value env (BoolLit b) = Some (Inr (set_int (if b then 1 else 0) Value_default))"
| "expr_value env (ColRef tab name) = Some (Inr (env name))"
| "expr_value env (ArithExpr e op f) =
     chk (expr_value env e) (\<lambda>x. chk (expr_value env f) (\<lambda>y.
     chk (Some (convert_for_arithmetic x y)) (\<lambda>(x, y). arith_values op x y)))"
| "expr_value env OtherExpr = Some (Inl (RuntimeError ''Unsupported expression type''))"

fun op_overflows :: "ArithOp \<Rightarrow> int \<Rightarrow> int \<Rightarrow> bool" where
  "op_overflows ADD m n \<longleftrightarrow> \<not> int32 (m + n)" | "op_overflows SUB m n \<longleftrightarrow> \<not> int32 (m - n)" | "op_overflows MUL m n \<longleftrightarrow> \<not> int32 (m * n)"
| "op_overflows DIV m n \<longleftrightarrow> False"

fun int_overflow :: "(string \<Rightarrow> Value) \<Rightarrow> Expr \<Rightarrow> bool" where
  "int_overflow env (ArithExpr e op f) \<longleftrightarrow> int_overflow env e \<or> int_overflow env f \<or>
     (case (expr_value env e, expr_value env f) of
        (Some (Inr x), Some (Inr y)) \<Rightarrow> v_type x = TYPE_INT \<and> v_type y = TYPE_INT \<and> op_overflows op (int_val x) (int_val y)
      | _ \<Rightarrow> False)"
| "int_overflow env e \<longleftrightarrow> False"

definition column_env :: "ColMeta list \<Rightarrow> bytes \<Rightarrow> string \<Rightarrow> Value" where
  "column_env cols r name = (case List.find (\<lambda>c. col_name c = name) cols of None \<Rightarrow> Value_default | Some c \<Rightarrow> col_value c r)"

lemma column_value:
  assumes "row_fits cols r" "List.find (\<lambda>c. col_name c = name) cols = Some c"
  shows "evaluate_column cols r name = Some (Inr (col_value c r))"
proof -
  have "c \<in> set cols" using assms(2) by (auto simp: find_Some_iff)
  then have f: "col_fits c r" using assms(1) by (simp add: row_fits_def)
  have l: "load (col_offset c) (col_len c) r = Some (Inr (col_bytes c r))" "length (col_bytes c r) = col_len c"
    using f by (auto simp: load_def col_fits_def col_bytes_def)
  have four: "col_type c \<noteq> TYPE_STRING \<Longrightarrow> col_len c = 4" using f by (simp add: col_fits_def)
  show ?thesis using assms(2) l four
    by (cases "col_type c")
      (auto simp: evaluate_column_def col_value_def from_raw_def set_int_def set_float_def set_str_def read_i32_def read_bytes_def Let_def)
qed

lemma evaluate_is_value:
  assumes "row_fits cols r" "expr_type cols e = Some t"
  shows "evaluate cols r e = expr_value (column_env cols r) e"
  using assms(2)
proof (induction e arbitrary: t)
  case (ColRef tab name)
  then show ?case using column_value [OF assms(1), of name] by (auto simp: column_env_def)
next
  case (ArithExpr e op f)
  then show ?case by (auto split: option.splits)
qed simp_all

lemma arith_overflow:
  assumes "convert_for_arithmetic x y = Inr (x', y')" "arith_values op x' y' = None"
  shows "v_type x = TYPE_INT \<and> v_type y = TYPE_INT \<and> op_overflows op (int_val x) (int_val y)"
proof -
  have i: "v_type x' = TYPE_INT" "v_type y' = TYPE_INT" "op_overflows op (int_val x') (int_val y')"
    using assms(2) by (cases op; auto simp: arith_values_def add_values_def subtract_values_def multiply_values_def divide_values_def
        int_result_def float_result_def split: if_splits)+
  have "x' = x \<and> y' = y" using assms(1) i(1,2) by (auto simp: convert_for_arithmetic_def split: if_splits)
  then show ?thesis using i by simp
qed

lemma value_none: "expr_value env e = None \<Longrightarrow> int_overflow env e"
proof (induction e)
  case (ArithExpr e op f)
  show ?case
  proof (cases "expr_value env e")
    case None
    then show ?thesis using ArithExpr.IH(1) by simp
  next
    case e: (Some x)
    then obtain v where v: "x = Inr v" using ArithExpr.prems by (cases x) auto
    show ?thesis
    proof (cases "expr_value env f")
      case None
      then show ?thesis using ArithExpr.IH(2) by simp
    next
      case f: (Some y)
      then obtain w where w: "y = Inr w" using ArithExpr.prems e v by (cases y) auto
      obtain p q where "convert_for_arithmetic v w = Inr (p, q)" "arith_values op p q = None"
        using ArithExpr.prems e f v w by (cases "convert_for_arithmetic v w") auto
      from arith_overflow [OF this] show ?thesis using e f v w by simp
    qed
  qed
qed simp_all

subsection \<open>Integer expressions\<close>

text \<open>The value of an expression of integers on the integers, where no step leaves the range.\<close>

definition in_range :: "int \<Rightarrow> int option" where
  "in_range n = (if int32 n then Some n else None)"

fun int_value :: "ColMeta list \<Rightarrow> bytes \<Rightarrow> Expr \<Rightarrow> int option" where
  "int_value cols r (IntLit n) = in_range n"
| "int_value cols r (BoolLit b) = Some (if b then 1 else 0)"
| "int_value cols r (ColRef tab name) =
     (case List.find (\<lambda>c. col_name c = name) cols of
        None \<Rightarrow> None | Some c \<Rightarrow> if col_type c = TYPE_INT then in_range (dec_i32 (col_bytes c r)) else None)"
| "int_value cols r (ArithExpr e op f) =
     (case int_value cols r e of
        None \<Rightarrow> None
      | Some x \<Rightarrow> (case int_value cols r f of
          None \<Rightarrow> None
        | Some y \<Rightarrow> (case op of ADD \<Rightarrow> in_range (x + y) | SUB \<Rightarrow> in_range (x - y) | MUL \<Rightarrow> in_range (x * y) | DIV \<Rightarrow> None)))"
| "int_value cols r _ = None"

lemma int_value_range: "int_value cols r e = Some n \<Longrightarrow> int32 n"
  by (induction e arbitrary: n)
     (auto simp: in_range_def split: if_splits option.splits ArithOp.splits, auto simp: int32_def)

lemma int_val_set_int: "int32 n \<Longrightarrow> int_val (set_int n v) = n"
  by (simp add: int_val_def read_i32_def read_bytes_def dec_enc_i32)

lemma int_value_evaluate:
  assumes "row_fits cols r" "int_value cols r e = Some n"
  shows "evaluate cols r e = Some (Inr (set_int n Value_default))"
  using assms(2)
proof (induction e arbitrary: n)
  case (ColRef tab name)
  then obtain c where c: "List.find (\<lambda>c. col_name c = name) cols = Some c" "col_type c = TYPE_INT" "n = dec_i32 (col_bytes c r)"
    by (auto simp: in_range_def split: option.splits if_splits)
  have "c \<in> set cols" using c(1) by (auto simp: find_Some_iff)
  then have "col_fits c r" using assms(1) by (simp add: row_fits_def)
  then show ?case using c by (simp add: evaluate_column_def load_def col_fits_def col_bytes_def)
next
  case (ArithExpr e op f)
  obtain x y where xy: "int_value cols r e = Some x" "int_value cols r f = Some y" using ArithExpr.prems by (auto split: option.splits)
  note i = int_value_range [OF xy(1)] int_value_range [OF xy(2)]
  show ?case using ArithExpr.prems xy ArithExpr.IH(1) [OF xy(1)] ArithExpr.IH(2) [OF xy(2)] i
    by (cases op) (auto simp: in_range_def convert_for_arithmetic_def arith_values_def add_values_def subtract_values_def multiply_values_def
        int_val_set_int int_result_def split: if_splits)
qed (auto simp: in_range_def split: if_splits)

subsection \<open>Properties\<close>

text \<open>C36: an expression with a type, on a row that has the columns of the table, has the value of its operations on the values of the
  columns, each read at its offset and length inside the row; it is a value of that type, or the exception for a division by zero, or
  undefined only because some addition, subtraction or product of two integers in it is not an \<^verbatim>\<open>int\<close>. An integer expression whose steps
  stay in the range of \<^verbatim>\<open>int\<close> has its value on the integers.\<close>

theorem expression_type_safe:
  assumes "row_fits cols r" "expr_type cols e = Some t"
  shows "evaluate cols r e = expr_value (column_env cols r) e \<and>
    (case evaluate cols r e of
      None \<Rightarrow> int_overflow (column_env cols r) e
    | Some (Inl err) \<Rightarrow> err = RuntimeError ''Division by zero''
    | Some (Inr v) \<Rightarrow> v_type v = t \<and> length (v_num v) = 4) \<and>
    (\<forall>n. int_value cols r e = Some n \<longrightarrow> evaluate cols r e = Some (Inr (set_int n Value_default)))"
proof -
  note e = evaluate_is_value [OF assms]
  have "case evaluate cols r e of
      None \<Rightarrow> int_overflow (column_env cols r) e
    | Some (Inl err) \<Rightarrow> err = RuntimeError ''Division by zero''
    | Some (Inr v) \<Rightarrow> v_type v = t \<and> length (v_num v) = 4"
    using evaluate_typed [OF assms] value_none [of "column_env cols r" e] e by (auto simp: typed_result_def split: option.splits)
  then show ?thesis using e int_value_evaluate [OF assms(1)] by blast
qed

theorem expression_type_safe_witness:
  "evaluate [example_col ''a'' 0] (enc_i32 7) (ArithExpr (ColRef ''t'' ''a'') MUL (IntLit 3)) = Some (Inr (set_int 21 Value_default))"
proof -
  let ?e = "ArithExpr (ColRef ''t'' ''a'') MUL (IntLit 3)" and ?c = "example_col ''a'' 0"
  have "row_fits [?c] (enc_i32 7)" by (simp add: row_fits_def col_fits_def example_col_def)
  moreover have "expr_type [?c] ?e = Some TYPE_INT" by (simp add: example_col_def is_numeric_type_def)
  moreover have "int_value [?c] (enc_i32 7) ?e = Some 21"
    by (simp add: example_col_def in_range_def int32_def col_bytes_def read_bytes_def dec_enc_i32)
  ultimately show ?thesis using expression_type_safe by blast
qed

end
