(* ===== verification/Exec_Update.thy ===== *)
theory Exec_Update
  imports Exec_Dml Exec_Expr
begin

text \<open>
  \<^verbatim>\<open>UpdateExecutor\<close> (\<^verbatim>\<open>src/src/execution/executor_update.h\<close>) with \<^verbatim>\<open>update_record_mvcc\<close> of \<^verbatim>\<open>mvcc_executor_base.h\<close>: for each
  row the set clauses are evaluated one after the other on the row as changed so far, the indexes whose key changes lose the old
  key, the record is written, and the new keys are inserted.

  Shown: a successful update of a row changes exactly this row and leaves every index with exactly the keys of the
  rows, also when the executor has found that no index needs to be looked at; otherwise it ends with a uniqueness error
  or a write conflict.
\<close>

subsection \<open>Model\<close>

definition compute_need_update_index :: "(string \<times> IndexMeta) list \<Rightarrow> SetClause list \<Rightarrow> bool" where
  "compute_need_update_index is scs \<longleftrightarrow>
     (\<exists>(name, im) \<in> set is. \<exists>sc \<in> set scs. \<exists>c \<in> set (take (im_col_num im) (im_cols im)). col_name c = tc_col_name (sc_lhs sc))"

fun apply_sets :: "TabMeta \<Rightarrow> SetClause list \<Rightarrow> bytes \<Rightarrow> bytes checked" where
  "apply_sets tab [] r = Some (Inr r)"
| "apply_sets tab (sc # scs) r =
     chk (Some (tab_get_col (tc_col_name (sc_lhs sc)) tab)) (\<lambda>col.
     chk (evaluate_set_clause (tab_cols tab) sc r col) (\<lambda>v.
     chk (raw_of v) (\<lambda>raw. chk (load 0 (col_len col) raw) (\<lambda>bs. chk (store (col_offset col) bs r) (\<lambda>r. apply_sets tab scs r)))))"

text \<open>The old keys leave the indexes whose key changes; the new keys are collected.\<close>

fun update_keys :: "(string \<times> IndexMeta) list \<Rightarrow> Rid \<Rightarrow> bytes \<Rightarrow> bytes \<Rightarrow> dml_state \<Rightarrow> (string \<times> bytes) list dml_run" where
  "update_keys [] rid old new s = Some (Inr [], s)"
| "update_keys ((name, im) # is) rid old new s =
     run_bind (on_index name (\<lambda>ih. Some (Inr (), ih)) s) (\<lambda>_ s.
     run_bind (lift_checked (build_key im old) s) (\<lambda>old_key s. run_bind (lift_checked (build_key im new) s) (\<lambda>new_key s.
       if old_key = new_key then update_keys is rid old new s
       else run_bind (on_index name (is_unique new_key) s) (\<lambda>found s.
         if found \<noteq> None \<and> found \<noteq> Some rid then throw UniqueCheckError s
         else run_bind (on_index name (delete_entry True old_key) s) (\<lambda>_ s.
              run_bind (update_keys is rid old new (add_write IX_DELETE_TUPLE name rid old_key s)) (\<lambda>ks s.
                Some (Inr ((name, new_key) # ks), s)))))))"

fun insert_new :: "(string \<times> bytes) list \<Rightarrow> Rid \<Rightarrow> dml_state \<Rightarrow> unit dml_run" where
  "insert_new [] rid s = Some (Inr (), s)"
| "insert_new ((name, key) # ks) rid s =
     run_bind (on_index name (insert_entry key rid) s) (\<lambda>_ s. insert_new ks rid (add_write IX_INSERT_TUPLE name rid key s))"

definition abort_txn :: "AbortReason \<Rightarrow> dml_state \<Rightarrow> 'a dml_run" where
  "abort_txn reason s = throw (TransactionAbortException (the_txn_id (ds_txn s)) reason) s"

text \<open>A committed deletion by another transaction at the head of the chain.\<close>

definition deleted_by_other :: "txn_id \<Rightarrow> version_chain option \<Rightarrow> bool" where
  "deleted_by_other tid c \<longleftrightarrow>
     (case c of Some (v # _) \<Rightarrow> tv_is_deleted v \<and> tv_txn_id v \<noteq> tid \<and> tv_create_ts v \<noteq> INVALID_TIMESTAMP | _ \<Rightarrow> False)"

definition write_row :: "dml_exec \<Rightarrow> Rid \<Rightarrow> bytes \<Rightarrow> dml_state \<Rightarrow> bool dml_run" where
  "write_row x rid buf s =
     run_bind (on_file (dx_name x) (update_record rid buf (Some (dml_context x s))) s) (\<lambda>_ s. Some (Inr True, s))"

definition update_record_mvcc :: "dml_exec \<Rightarrow> Rid \<Rightarrow> bytes \<Rightarrow> dml_state \<Rightarrow> bool dml_run" where
  "update_record_mvcc x rid buf s =
     (case ds_mvcc s of
        None \<Rightarrow> write_row x rid buf s
      | Some m \<Rightarrow>
          let tid = the_txn_id (ds_txn s); c = get_version_chain rid (dx_name x) m
          in if uncommitted_by_other tid c then abort_txn WRITE_WRITE_CONFLICT s
             else if deleted_by_other tid c then abort_txn RECORD_NOT_FOUND s
             else case update_version rid buf (dx_name x) (ds_txn s) m of
                    (ok, t, m') \<Rightarrow>
                      let s = s\<lparr>ds_txn := t, ds_mvcc := Some m'\<rparr>
                      in if ok then write_row x rid buf s else abort_txn WRITE_WRITE_CONFLICT s)"

definition update_row :: "dml_exec \<Rightarrow> SetClause list \<Rightarrow> Rid \<Rightarrow> bytes \<Rightarrow> dml_state \<Rightarrow> unit dml_run" where
  "update_row x scs rid old s =
     (let tab = dx_tab x
      in run_bind (lift_checked (apply_sets tab scs old) s) (\<lambda>new s.
         run_bind (if compute_need_update_index (tab_indexes tab) scs then update_keys (tab_indexes tab) rid old new s else Some (Inr [], s)) (\<lambda>ks s.
         run_bind (update_record_mvcc x rid new s) (\<lambda>ok s.
           if \<not> ok then conflict s
           else run_bind (insert_new ks rid s) (\<lambda>_ s. Some (Inr (), add_write UPDATE_TUPLE (dx_name x) rid old s))))))"

fun update_next :: "dml_exec \<Rightarrow> SetClause list \<Rightarrow> Rid list \<Rightarrow> dml_state \<Rightarrow> unit dml_run" where
  "update_next x scs [] s = Some (Inr (), s)"
| "update_next x scs (rid # rids) s =
     run_bind (lock_row x rid s) (\<lambda>_ s.
     run_bind (get_row x rid s) (\<lambda>row s.
       case row of
         None \<Rightarrow> update_next x scs rids s
       | Some old \<Rightarrow> run_bind (update_row x scs rid old s) (\<lambda>_ s. update_next x scs rids s)))"

subsection \<open>The keys of a changed row\<close>

definition key_changed :: "bytes \<Rightarrow> bytes \<Rightarrow> string \<times> IndexMeta \<Rightarrow> bool" where
  "key_changed old new i \<longleftrightarrow> row_key (snd i) old \<noteq> row_key (snd i) new"

definition new_keys :: "bytes \<Rightarrow> bytes \<Rightarrow> (string \<times> IndexMeta) list \<Rightarrow> (string \<times> bytes) list" where
  "new_keys old new is = map (\<lambda>(name, im). (name, row_key im new)) (filter (key_changed old new) is)"

text \<open>The indexes after the old keys have left: those whose key changes do not have the row, and no other row has the new key.\<close>

definition half_done :: "(string \<times> IndexMeta) list \<Rightarrow> (string \<rightharpoonup> ix_index) \<Rightarrow> (Rid \<rightharpoonup> bytes) \<Rightarrow> Rid \<Rightarrow> bytes \<Rightarrow> bytes \<Rightarrow> bool" where
  "half_done is ihs rows rid old new \<longleftrightarrow>
     indexed (filter (key_changed old new) is) ihs (rows(rid := None)) \<and> \<not> taken (filter (key_changed old new) is) (rows(rid := None)) new \<and>
     indexed (filter (\<lambda>i. \<not> key_changed old new i) is) ihs rows"

lemma half_done_simps:
  "half_done [] ihs rows rid old new"
  "half_done ((name, im) # is) ihs rows rid old new \<longleftrightarrow>
     (if row_key im old = row_key im new then \<exists>ix. ihs name = Some ix \<and> index_of im ix rows
      else (\<exists>ix. ihs name = Some ix \<and> index_of im ix (rows(rid := None))) \<and>
           \<not> (\<exists>q r'. (rows(rid := None)) q = Some r' \<and> rank_in im r' = rank_in im new)) \<and>
     half_done is ihs rows rid old new"
  by (auto simp: half_done_def key_changed_def)

lemma half_done_other: "name \<notin> fst ` set is \<Longrightarrow> half_done is (ihs(name := z)) rows rid old new = half_done is ihs rows rid old new"
  unfolding half_done_def by (subst (1 2) indexed_other) auto

lemma same_but_ihs_refl: "same_but_ihs s [] s"
  by (simp add: same_but_ihs_def)

lemma same_but_ihs_trans: "same_but_ihs s ws t \<Longrightarrow> same_but_ihs t vs u \<Longrightarrow> same_but_ihs s (ws @ vs) u"
proof -
  assume a: "same_but_ihs s ws t" "same_but_ihs t vs u"
  obtain i where t: "t = s\<lparr>ds_ihs := i, ds_txn := (ds_txn s)\<lparr>write_set := write_set (ds_txn s) @ ws\<rparr>\<rparr>" using a(1) unfolding same_but_ihs_def by blast
  obtain j where "u = t\<lparr>ds_ihs := j, ds_txn := (ds_txn t)\<lparr>write_set := write_set (ds_txn t) @ vs\<rparr>\<rparr>" using a(2) unfolding same_but_ihs_def by blast
  then show ?thesis unfolding t by (simp add: same_but_ihs_def)
qed

text \<open>One index whose key changes: the new key is free but for the row itself, and the old key leaves.\<close>

lemma swap_key:
  assumes ix: "ds_ihs s name = Some ix" "index_of im ix rows" and fits: "key_fits im old" "key_fits im new" and old: "rows rid = Some old"
  shows "(\<exists>found. on_index name (is_unique (row_key im new)) s = Some (Inr found, s) \<and>
      (found \<noteq> None \<and> found \<noteq> Some rid \<longleftrightarrow> (\<exists>q r'. (rows(rid := None)) q = Some r' \<and> rank_in im r' = rank_in im new))) \<and>
    (\<exists>b ix'. on_index name (delete_entry True (row_key im old)) s = Some (Inr b, s\<lparr>ds_ihs := (ds_ihs s)(name \<mapsto> ix')\<rparr>) \<and>
      index_of im ix' (rows(rid := None)))"
proof -
  obtain m where m: "represents ix m" "\<And>k rid. m k = Some rid \<longleftrightarrow> (\<exists>r. rows rid = Some r \<and> rank_in im r = k)"
    using ix(2) by (auto simp: index_of_def)
  have "is_unique (row_key im new) ix = Some (Inr (m (rank_in im new)), ix)"
    using m(1) is_unique_ok index_key [OF ix(2) fits(2)] unfolding represents_def by metis
  moreover have "s\<lparr>ds_ihs := (ds_ihs s)(name \<mapsto> ix)\<rparr> = s" using ix(1) by (simp add: fun_upd_idem)
  ultimately have u: "on_index name (is_unique (row_key im new)) s = Some (Inr (m (rank_in im new)), s)" using ix(1) by (simp add: on_index_def)
  have iff: "m (rank_in im new) \<noteq> None \<and> m (rank_in im new) \<noteq> Some rid \<longleftrightarrow> (\<exists>q r'. (rows(rid := None)) q = Some r' \<and> rank_in im r' = rank_in im new)"
  proof (cases "m (rank_in im new)")
    case None
    have "False" if "rows q = Some r'" "rank_in im r' = rank_in im new" for q r'
    proof -
      have "m (rank_in im new) = Some q" unfolding m(2) using that by blast
      then show False using None by simp
    qed
    then show ?thesis using None by (auto split: if_splits)
  next
    case (Some q)
    then obtain r' where r': "rows q = Some r'" "rank_in im r' = rank_in im new" using m(2) by blast
    have u: "q' = q" if "rows q' = Some r''" "rank_in im r'' = rank_in im new" for q' r''
    proof -
      have "m (rank_in im new) = Some q'" unfolding m(2) using that by blast
      then show ?thesis using Some by simp
    qed
    show ?thesis
    proof (cases "q = rid")
      case True
      then have "\<not> ((rows(rid := None)) q' = Some r'' \<and> rank_in im r'' = rank_in im new)" for q' r'' using u [of q' r''] by (cases "q' = rid") auto
      then show ?thesis using Some True by simp
    next
      case False
      then have "(rows(rid := None)) q = Some r'" using r'(1) by simp
      then have "\<exists>q r'. (rows(rid := None)) q = Some r' \<and> rank_in im r' = rank_in im new" using r'(2) by blast
      then show ?thesis using Some False by simp
    qed
  qed
  obtain b ix' where d: "delete_entry True (row_key im old) ix = Some (Inr b, ix')" "index_of im ix' (rows(rid := None))"
    using index_delete [where rows = rows, OF ix(2) fits(1) old] by blast
  then have "on_index name (delete_entry True (row_key im old)) s = Some (Inr b, s\<lparr>ds_ihs := (ds_ihs s)(name \<mapsto> ix')\<rparr>)"
    using ix(1) by (simp add: on_index_def)
  then show ?thesis using u iff d(2) by blast
qed

lemma update_keys_ok:
  assumes "indexed is (ds_ihs s) rows" "distinct (map fst is)" "rows rid = Some old" "\<forall>(name, im) \<in> set is. key_fits im old \<and> key_fits im new"
  shows "\<exists>res s' ws. update_keys is rid old new s = Some (res, s') \<and> same_but_ihs s ws s' \<and> (\<forall>n. n \<notin> fst ` set is \<longrightarrow> ds_ihs s' n = ds_ihs s n) \<and>
    (case res of Inl e \<Rightarrow> e = UniqueCheckError \<and> taken (filter (key_changed old new) is) (rows(rid := None)) new | Inr ks \<Rightarrow> ks = new_keys old new is \<and> half_done is (ds_ihs s') rows rid old new)"
  using assms
proof (induction "is" arbitrary: s)
  case Nil
  then show ?case using same_but_ihs_refl by (intro exI [of _ "Inr []"] exI [of _ s] exI [of _ "[]"]) (simp add: new_keys_def half_done_simps)
next
  case (Cons a "is")
  obtain name im where a: "a = (name, im)" by (cases a)
  obtain ix where ix: "ds_ihs s name = Some ix" "index_of im ix rows" using Cons.prems(1) by (auto simp: a)
  have fit: "key_fits im old" "key_fits im new" using Cons.prems(4) by (auto simp: a)
  then have keys: "build_key im old = Some (Inr (row_key im old))" "build_key im new = Some (Inr (row_key im new))" by (simp_all add: key_fits_def)
  have nin: "name \<notin> fst ` set is" using Cons.prems(2) by (auto simp: a)
  have tl: "indexed is (ds_ihs s) rows" "distinct (map fst is)" "\<forall>(name, im) \<in> set is. key_fits im old \<and> key_fits im new"
    using Cons.prems by (auto simp: a)
  have at: "on_index name (\<lambda>ih. Some (Inr (), ih)) s = Some (Inr (), s)" using ix(1) by (simp add: on_index_def fun_upd_idem)
  show ?case
  proof (cases "row_key im old = row_key im new")
    case True
    obtain res s' ws where k: "update_keys is rid old new s = Some (res, s')" "same_but_ihs s ws s'" "\<forall>n. n \<notin> fst ` set is \<longrightarrow> ds_ihs s' n = ds_ihs s n"
      "case res of Inl e \<Rightarrow> e = UniqueCheckError \<and> taken (filter (key_changed old new) is) (rows(rid := None)) new | Inr ks \<Rightarrow> ks = new_keys old new is \<and> half_done is (ds_ihs s') rows rid old new"
      using Cons.IH [OF tl(1,2) Cons.prems(3) tl(3)] by blast
    have "update_keys (a # is) rid old new s = Some (res, s')" using k(1) True by (simp add: a at keys lift_checked_def)
    moreover have "ds_ihs s' name = Some ix" using k(3) nin ix(1) by simp
    ultimately show ?thesis using k(2-4) ix(2) True
      by (intro exI [of _ res] exI [of _ s'] exI [of _ ws]) (auto simp: a new_keys_def key_changed_def half_done_simps split: sum.splits)
  next
    case False
    obtain found where f: "on_index name (is_unique (row_key im new)) s = Some (Inr found, s)"
      "found \<noteq> None \<and> found \<noteq> Some rid \<longleftrightarrow> (\<exists>q r'. (rows(rid := None)) q = Some r' \<and> rank_in im r' = rank_in im new)"
      using swap_key [OF ix fit Cons.prems(3)] by blast
    obtain b ix' where d: "on_index name (delete_entry True (row_key im old)) s = Some (Inr b, s\<lparr>ds_ihs := (ds_ihs s)(name \<mapsto> ix')\<rparr>)"
      "index_of im ix' (rows(rid := None))" using swap_key [OF ix fit Cons.prems(3)] by blast
    let ?s = "add_write IX_DELETE_TUPLE name rid (row_key im old) (s\<lparr>ds_ihs := (ds_ihs s)(name \<mapsto> ix')\<rparr>)"
    show ?thesis
    proof (cases "found \<noteq> None \<and> found \<noteq> Some rid")
      case True
      then have "update_keys (a # is) rid old new s = Some (Inl UniqueCheckError, s)" using False f(1) by (simp add: a at keys lift_checked_def throw_def)
      moreover have "taken (filter (key_changed old new) (a # is)) (rows(rid := None)) new"
        using f(2) True False unfolding a key_changed_def by (simp only: filter.simps snd_conv simp_thms if_True taken_simps)
      ultimately show ?thesis using same_but_ihs_refl [of s] by (intro exI [of _ "Inl UniqueCheckError"] exI [of _ s] exI [of _ "[]"]) simp
    next
      case free: False
      have step: "same_but_ihs s [\<lparr>wr_type = IX_DELETE_TUPLE, wr_tab_name = name, wr_rid = rid, wr_record = row_key im old\<rparr>] ?s"
        by (simp add: same_but_ihs_def add_write_def append_write_record_def)
      have "indexed is (ds_ihs ?s) rows" using tl(1) by (simp add: add_write_def indexed_other [OF nin])
      from Cons.IH [OF this tl(2) Cons.prems(3) tl(3)]
      obtain res s' ws where k: "update_keys is rid old new ?s = Some (res, s')" "same_but_ihs ?s ws s'"
        "\<forall>n. n \<notin> fst ` set is \<longrightarrow> ds_ihs s' n = ds_ihs ?s n"
        "case res of Inl e \<Rightarrow> e = UniqueCheckError \<and> taken (filter (key_changed old new) is) (rows(rid := None)) new | Inr ks \<Rightarrow> ks = new_keys old new is \<and> half_done is (ds_ihs s') rows rid old new" by blast
      have start: "update_keys (a # is) rid old new s = run_bind (update_keys is rid old new ?s) (\<lambda>ks s. Some (Inr ((name, row_key im new) # ks), s))"
      proof (cases "found = None")
        case True
        then show ?thesis using False f(1) d(1) by (simp add: a at keys lift_checked_def)
      next
        case had: False
        then have "found = Some rid" using free by blast
        then show ?thesis using False f(1) d(1) by (simp add: a at keys lift_checked_def)
      qed
      note same = same_but_ihs_trans [OF step k(2)]
      have others: "\<forall>n. n \<notin> fst ` set (a # is) \<longrightarrow> ds_ihs s' n = ds_ihs s n" using k(3) by (simp add: a add_write_def)
      show ?thesis
      proof (cases res)
        case (Inl e)
        then have "taken (filter (key_changed old new) (a # is)) (rows(rid := None)) new"
          using k(4) False unfolding a key_changed_def by (simp only: filter.simps snd_conv simp_thms if_True taken_simps sum.case)
        then show ?thesis using start k(1,4) same others Inl by (intro exI [of _ res] exI [of _ s'] exI) auto
      next
        case (Inr ks)
        have "ds_ihs s' name = Some ix'" using k(3) nin by (simp add: add_write_def)
        then have "half_done (a # is) (ds_ihs s') rows rid old new" using d(2) f(2) free False k(4) Inr by (simp only: a half_done_simps if_False sum.case) blast
        moreover have "update_keys (a # is) rid old new s = Some (Inr (new_keys old new (a # is)), s')"
          using start k(1,4) Inr False by (simp add: a new_keys_def key_changed_def)
        ultimately show ?thesis using same others by (intro exI [of _ "Inr (new_keys old new (a # is))"] exI [of _ s'] exI) auto
      qed
    qed
  qed
qed

text \<open>The new keys go in as the keys of an inserted row do.\<close>

lemma insert_new_keys:
  assumes "\<forall>(name, im) \<in> set is. key_fits im new"
  shows "insert_new (map (\<lambda>(name, im). (name, row_key im new)) is) rid s = insert_keys is new rid s"
  using assms unfolding insert_keys_def
proof (induction "is" arbitrary: s)
  case (Cons a "is")
  obtain name im where a: "a = (name, im)" by (cases a)
  have "build_key im new = Some (Inr (row_key im new))" using Cons.prems by (simp add: a key_fits_def)
  then have "each_key IX_INSERT_TUPLE (\<lambda>key. insert_entry key rid) (a # is) new rid s =
      run_bind (on_index name (insert_entry (row_key im new) rid) s) (\<lambda>_ s.
        each_key IX_INSERT_TUPLE (\<lambda>key. insert_entry key rid) is new rid (add_write IX_INSERT_TUPLE name rid (row_key im new) s))"
    by (simp add: a lift_checked_def)
  then show ?case using Cons by (simp add: a)
qed simp

text \<open>A row that keeps its key keeps its place in the index.\<close>

lemma index_of_same_rank:
  assumes "index_of im ix rows" "rows rid = Some old" "rank_in im old = rank_in im new"
  shows "index_of im ix (rows(rid \<mapsto> new))"
proof -
  have "(\<exists>r. rows q = Some r \<and> rank_in im r = k) \<longleftrightarrow> (\<exists>r. (rows(rid \<mapsto> new)) q = Some r \<and> rank_in im r = k)" for q k
    using assms(2,3) by (cases "q = rid") auto
  then show ?thesis using assms(1) unfolding index_of_def by presburger
qed

lemma indexed_unchanged:
  assumes "indexed is ihs rows" "rows rid = Some old" "\<And>name im. (name, im) \<in> set is \<Longrightarrow> row_key im old = row_key im new"
  shows "indexed is ihs (rows(rid \<mapsto> new))"
  using assms(1,3)
proof (induction "is")
  case (Cons a "is")
  obtain name im where a: "a = (name, im)" by (cases a)
  obtain ix where ix: "ihs name = Some ix" "index_of im ix rows" using Cons.prems(1) by (auto simp: a)
  have "rank_in im old = rank_in im new" using Cons.prems(2) [of name im] by (simp add: a rank_in_def)
  then have "index_of im ix (rows(rid \<mapsto> new))" by (rule index_of_same_rank [OF ix(2) assms(2)])
  moreover have "indexed is ihs (rows(rid \<mapsto> new))" by (rule Cons.IH) (use Cons.prems in \<open>auto simp: a\<close>)
  ultimately show ?case unfolding a indexed_simps using ix(1) by blast
qed simp

lemma indexed_ihs: "(\<And>n. n \<in> fst ` set is \<Longrightarrow> ihs' n = ihs n) \<Longrightarrow> indexed is ihs' rows = indexed is ihs rows"
  by (induction "is") auto

lemma indexed_split: "indexed (filter P is) ihs rows \<Longrightarrow> indexed (filter (\<lambda>i. \<not> P i) is) ihs rows \<Longrightarrow> indexed is ihs rows"
  unfolding indexed_def by fastforce

lemma finish_keys:
  assumes half: "half_done is (ds_ihs s) rows rid old new" and old: "rows rid = Some old" and dist: "distinct (map fst is)"
    and fits: "\<forall>(name, im) \<in> set is. key_fits im new"
  shows "\<exists>s' ws. insert_new (new_keys old new is) rid s = Some (Inr (), s') \<and> indexed is (ds_ihs s') (rows(rid \<mapsto> new)) \<and> same_but_ihs s ws s'"
proof -
  let ?ch = "filter (key_changed old new) is" and ?un = "filter (\<lambda>i. \<not> key_changed old new i) is"
  have h: "indexed ?ch (ds_ihs s) (rows(rid := None))" "\<not> taken ?ch (rows(rid := None)) new" "indexed ?un (ds_ihs s) rows"
    using half by (simp_all add: half_done_def)
  have fit: "\<forall>(name, im) \<in> set ?ch. key_fits im new" using fits by auto
  have d: "distinct (map fst ?ch)" using dist by (rule distinct_map_filter)
  obtain s' where s': "insert_keys ?ch new rid s = Some (Inr (), s')" "indexed ?ch (ds_ihs s') ((rows(rid := None))(rid \<mapsto> new))"
    "\<forall>n. n \<notin> fst ` set ?ch \<longrightarrow> ds_ihs s' n = ds_ihs s n" "same_but_ihs s (key_writes IX_INSERT_TUPLE ?ch new rid) s'"
    using insert_keys_ok [where rows = "rows(rid := None)", OF h(1) fit d _ h(2)] by force
  have "fst ` set ?un \<inter> fst ` set ?ch = {}" using dist by (force simp: distinct_map inj_on_def)
  then have "indexed ?un (ds_ihs s') rows" using h(3) s'(3) indexed_ihs [of ?un "ds_ihs s'" "ds_ihs s" rows] by blast
  then have "indexed ?un (ds_ihs s') (rows(rid \<mapsto> new))" by (rule indexed_unchanged [where rows = rows and rid = rid, OF _ old]) (auto simp: key_changed_def)
  moreover have "(rows(rid := None))(rid \<mapsto> new) = rows(rid \<mapsto> new)" by simp
  ultimately have "indexed is (ds_ihs s') (rows(rid \<mapsto> new))" using indexed_split s'(2) by metis
  moreover have "insert_new (new_keys old new is) rid s = Some (Inr (), s')" unfolding new_keys_def using insert_new_keys [OF fit] s'(1) by simp
  ultimately show ?thesis using s'(4) by blast
qed

subsection \<open>The bytes the set clauses write\<close>

definition index_cols_in :: "TabMeta \<Rightarrow> bool" where
  "index_cols_in tab \<longleftrightarrow> laid_out 0 (tab_cols tab) \<and> (\<forall>(name, im) \<in> set (tab_indexes tab). set (im_cols im) \<subseteq> set (tab_cols tab))"

lemma laid_out_apart:
  assumes "laid_out off cs" "c \<in> set cs" "d \<in> set cs" "c \<noteq> d"
  shows "col_offset c + col_len c \<le> col_offset d \<or> col_offset d + col_len d \<le> col_offset c"
  using assms
proof (induction cs arbitrary: off)
  case (Cons a cs)
  have lay: "col_offset a = off" "laid_out (off + col_len a) cs" using Cons.prems(1) by simp_all
  show ?case using Cons.IH [OF lay(2)] Cons.prems(2-4) laid_out_above [OF lay(2), of c] laid_out_above [OF lay(2), of d] lay(1) by auto
qed simp

lemma tab_get_col_in: "tab_get_col n tab = Inr c \<Longrightarrow> c \<in> set (tab_cols tab) \<and> col_name c = n"
  by (auto simp: tab_get_col_def find_Some_iff split: option.splits)

lemma apply_sets_length: "apply_sets tab scs r = Some (Inr r') \<Longrightarrow> length r' = length r"
proof (induction scs arbitrary: r)
  case (Cons sc scs)
  then obtain r1 bs off where "store off bs r = Some (Inr r1)" "apply_sets tab scs r1 = Some (Inr r')"
    by (auto simp: chk_Inr)
  moreover from this(1) have "length r1 = length r" by (auto simp: store_def split: if_splits)
  ultimately show ?case using Cons.IH by metis
qed simp

lemma apply_sets_other:
  assumes "apply_sets tab scs r = Some (Inr r')" "laid_out 0 (tab_cols tab)" "c \<in> set (tab_cols tab)" "\<forall>sc \<in> set scs. col_name c \<noteq> tc_col_name (sc_lhs sc)"
  shows "read_bytes (col_offset c) (col_len c) r' = read_bytes (col_offset c) (col_len c) r"
  using assms
proof (induction scs arbitrary: r)
  case (Cons sc scs)
  obtain d raw bs r1 where k: "tab_get_col (tc_col_name (sc_lhs sc)) tab = Inr d" "load 0 (col_len d) raw = Some (Inr bs)"
    "store (col_offset d) bs r = Some (Inr r1)" "apply_sets tab scs r1 = Some (Inr r')"
    using Cons.prems(1) by (auto simp: chk_Inr)
  have d: "d \<in> set (tab_cols tab)" "c \<noteq> d" using tab_get_col_in [OF k(1)] Cons.prems(4) by auto
  have bs: "length bs = col_len d" using k(2) by (auto simp: load_def split: if_splits)
  have r1: "r1 = write_bytes (col_offset d) bs r" "col_offset d + length bs \<le> length r" using k(3) by (auto simp: store_def split: if_splits)
  have "read_bytes (col_offset c) (col_len c) r1 = read_bytes (col_offset c) (col_len c) r"
    using laid_out_apart [OF Cons.prems(2,3) d] r1(2) bs unfolding r1(1) by (auto simp: read_write_before read_write_after)
  then show ?case using Cons.IH [OF k(4)] Cons.prems by simp
qed simp

lemma no_index_same_keys:
  assumes "apply_sets tab scs old = Some (Inr new)" "index_cols_in tab" "\<not> compute_need_update_index (tab_indexes tab) scs" "(name, im) \<in> set (tab_indexes tab)"
  shows "row_key im old = row_key im new"
proof -
  have "read_bytes (col_offset c) (col_len c) old = read_bytes (col_offset c) (col_len c) new" if "c \<in> set (take (im_col_num im) (im_cols im))" for c
  proof -
    have "c \<in> set (tab_cols tab)" using assms(2,4) in_set_takeD [OF that] by (auto simp: index_cols_in_def)
    moreover have "\<forall>sc \<in> set scs. col_name c \<noteq> tc_col_name (sc_lhs sc)" using assms(3,4) that unfolding compute_need_update_index_def by blast
    ultimately show ?thesis using apply_sets_other [OF assms(1)] assms(2) by (simp add: index_cols_in_def)
  qed
  then show ?thesis unfolding row_key_def by (intro arg_cong [where f = concat] map_cong) simp_all
qed

subsection \<open>One row\<close>

lemma stored_length:
  assumes "file_inv f" "file_records f rid = Some v"
  shows "length v = record_size (rf_hdr f)"
proof -
  obtain pg where "file_page f (rid_page_no rid) = Some pg" "page_ok (rf_hdr f) pg" "page_records (rf_hdr f) pg (nat (rid_slot_no rid)) = Some v"
    using assms by (fastforce simp: file_records_def file_inv_def split: if_splits option.splits)
  then show ?thesis by (auto simp: page_records_def page_ok_def slot_data_length split: if_splits)
qed

lemma write_row_ok:
  assumes "map_of (ds_fhs s) (dx_name x) = Some f" "file_inv f" "room f" "file_records f rid = Some old" "length buf = length old"
  obtains f' where "write_row x rid buf s = Some (Inr True, s\<lparr>ds_fhs := AList.update (dx_name x) f' (ds_fhs s)\<rparr>)" "file_inv f'" "room f'"
    "file_records f' = (file_records f)(rid \<mapsto> buf)"
proof -
  have "rid_in f rid" using assms(4) by (intro file_records_in) simp
  moreover have "length old = record_size (rf_hdr f)" using stored_length [OF assms(2,4)] .
  ultimately obtain f' where "update_record rid buf (Some (dml_context x s)) f = (Inr (), f')" "file_inv f'"
    "file_records f' = (file_records f)(rid \<mapsto> buf)" "same_pool f f'"
    using update_record_ok [OF assms(2,3) _ _ assms(4), of buf "Some (dml_context x s)"] assms(5) by auto
  then show ?thesis using that [of f'] assms(1,3) by (simp add: write_row_def on_file_def same_pool_room)
qed

definition refused :: "dml_state \<Rightarrow> db_error \<Rightarrow> bool" where
  "refused s e \<longleftrightarrow> ds_mvcc s \<noteq> None \<and>
     (\<exists>reason \<in> {WRITE_WRITE_CONFLICT, RECORD_NOT_FOUND}. e = TransactionAbortException (the_txn_id (ds_txn s)) reason)"

lemma update_version_txn: "update_version rid d n t m = (ok, t', m') \<Longrightarrow> the_txn_id t' = the_txn_id t"
  by (auto simp: update_version_def add_undo_log_def split: prod.splits option.splits)

lemma update_record_mvcc_ok:
  assumes stored: "map_of (ds_fhs s) (dx_name x) = Some f" "file_inv f" "room f" "file_records f rid = Some old" "length buf = length old"
  shows "\<exists>res s'. update_record_mvcc x rid buf s = Some (res, s') \<and> ds_ihs s' = ds_ihs s \<and>
    (case res of
       Inl e \<Rightarrow> refused s e \<and> ds_fhs s' = ds_fhs s
     | Inr ok \<Rightarrow> ok \<and> (\<exists>f'. map_of (ds_fhs s') (dx_name x) = Some f' \<and> file_inv f' \<and> room f' \<and> file_records f' = (file_records f)(rid \<mapsto> buf)))"
proof -
  have wr: "\<exists>res s''. write_row x rid buf s' = Some (res, s'') \<and> ds_ihs s'' = ds_ihs s \<and>
      (case res of
         Inl e \<Rightarrow> refused s e \<and> ds_fhs s'' = ds_fhs s
       | Inr ok \<Rightarrow> ok \<and> (\<exists>f'. map_of (ds_fhs s'') (dx_name x) = Some f' \<and> file_inv f' \<and> room f' \<and> file_records f' = (file_records f)(rid \<mapsto> buf)))"
    if s': "ds_fhs s' = ds_fhs s" "ds_ihs s' = ds_ihs s" for s'
  proof -
    have "map_of (ds_fhs s') (dx_name x) = Some f" using s'(1) stored(1) by simp
    then obtain f' where "write_row x rid buf s' = Some (Inr True, s'\<lparr>ds_fhs := AList.update (dx_name x) f' (ds_fhs s')\<rparr>)" "file_inv f'" "room f'"
      "file_records f' = (file_records f)(rid \<mapsto> buf)" by (rule write_row_ok [OF _ stored(2-5)])
    then show ?thesis using s'(2) by (simp add: update_conv)
  qed
  show ?thesis
  proof (cases "ds_mvcc s")
    case None
    then show ?thesis using wr [of s] by (simp add: update_record_mvcc_def)
  next
    case (Some m)
    let ?tid = "the_txn_id (ds_txn s)" and ?c = "get_version_chain rid (dx_name x) m"
    obtain ok t m' where u: "update_version rid buf (dx_name x) (ds_txn s) m = (ok, t, m')" by (cases "update_version rid buf (dx_name x) (ds_txn s) m")
    consider "uncommitted_by_other ?tid ?c" | "\<not> uncommitted_by_other ?tid ?c" "deleted_by_other ?tid ?c"
      | "\<not> uncommitted_by_other ?tid ?c" "\<not> deleted_by_other ?tid ?c" "\<not> ok" | "\<not> uncommitted_by_other ?tid ?c" "\<not> deleted_by_other ?tid ?c" ok by blast
    then show ?thesis
    proof cases
      case 1
      then show ?thesis using Some by (simp add: update_record_mvcc_def abort_txn_def throw_def refused_def)
    next
      case 2
      then show ?thesis using Some by (simp add: update_record_mvcc_def abort_txn_def throw_def refused_def)
    next
      case 3
      then show ?thesis using Some u update_version_txn [OF u] by (simp add: update_record_mvcc_def abort_txn_def throw_def refused_def)
    next
      case 4
      then have "update_record_mvcc x rid buf s = write_row x rid buf (s\<lparr>ds_txn := t, ds_mvcc := Some m'\<rparr>)" using Some u by (simp add: update_record_mvcc_def)
      then show ?thesis using wr [of "s\<lparr>ds_txn := t, ds_mvcc := Some m'\<rparr>"] by simp
    qed
  qed
qed

lemma update_row_ok:
  assumes rel: "table_rel x s rows" and old: "rows rid = Some old" and new: "apply_sets (dx_tab x) scs old = Some (Inr new)"
    and cols: "index_cols_in (dx_tab x)" and fits: "\<forall>(name, im) \<in> set (tab_indexes (dx_tab x)). key_fits im old \<and> key_fits im new"
  shows "\<exists>res s'. update_row x scs rid old s = Some (res, s') \<and>
    (case res of
       Inl e \<Rightarrow> ds_fhs s' = ds_fhs s \<and>
         (e = UniqueCheckError \<and> taken (filter (key_changed old new) (tab_indexes (dx_tab x))) (rows(rid := None)) new \<or> refused s e)
     | Inr _ \<Rightarrow> table_rel x s' (rows(rid \<mapsto> new)) \<and> \<not> taken (filter (key_changed old new) (tab_indexes (dx_tab x))) (rows(rid := None)) new)"
proof -
  let ?is = "tab_indexes (dx_tab x)" and ?k = "\<lambda>s. if compute_need_update_index (tab_indexes (dx_tab x)) scs then update_keys (tab_indexes (dx_tab x)) rid old new s else Some (Inr [], s)"
  obtain f where f: "map_of (ds_fhs s) (dx_name x) = Some f" "file_inv f" "room f" "file_records f = rows" and d: "distinct (map fst ?is)" and ix: "indexed ?is (ds_ihs s) rows"
    using rel by (auto simp: table_rel_def)
  have fn: "\<forall>(name, im) \<in> set ?is. key_fits im new" using fits by auto
  have start: "update_row x scs rid old s = run_bind (?k s) (\<lambda>ks s. run_bind (update_record_mvcc x rid new s) (\<lambda>ok s.
      if \<not> ok then conflict s else run_bind (insert_new ks rid s) (\<lambda>_ s. Some (Inr (), add_write UPDATE_TUPLE (dx_name x) rid old s))))"
    by (simp add: update_row_def Let_def new lift_checked_def)
  have "\<exists>res s1 ws. ?k s = Some (res, s1) \<and> same_but_ihs s ws s1 \<and>
      (case res of Inl e \<Rightarrow> e = UniqueCheckError \<and> taken (filter (key_changed old new) ?is) (rows(rid := None)) new
        | Inr ks \<Rightarrow> ks = new_keys old new ?is \<and> half_done ?is (ds_ihs s1) rows rid old new)"
  proof (cases "compute_need_update_index ?is scs")
    case True
    then show ?thesis using update_keys_ok [where rows = rows, OF ix d old fits] by (simp only: if_True) blast
  next
    case False
    then have "filter (key_changed old new) ?is = []" "filter (\<lambda>i. \<not> key_changed old new i) ?is = ?is"
      using no_index_same_keys [OF new cols False] by (force simp: filter_empty_conv filter_id_conv key_changed_def)+
    then show ?thesis using False same_but_ihs_refl [of s] ix
      by (intro exI [of _ "Inr []"] exI [of _ s] exI [of _ "[]"]) (simp add: new_keys_def half_done_def)
  qed
  then obtain res s1 ws where k: "?k s = Some (res, s1)" "same_but_ihs s ws s1"
    "case res of Inl e \<Rightarrow> e = UniqueCheckError \<and> taken (filter (key_changed old new) ?is) (rows(rid := None)) new
      | Inr ks \<Rightarrow> ks = new_keys old new ?is \<and> half_done ?is (ds_ihs s1) rows rid old new" by blast
  note S = same_but_ihsD [OF k(2)]
  show ?thesis
  proof (cases res)
    case (Inl e)
    then have "update_row x scs rid old s = Some (Inl e, s1)" using start k(1) by simp
    then show ?thesis using Inl k(3) S(1) by (intro exI [of _ "Inl e"] exI [of _ s1]) simp
  next
    case (Inr ks)
    then have ks: "ks = new_keys old new ?is" and half: "half_done ?is (ds_ihs s1) rows rid old new" using k(3) by simp_all
    have free: "\<not> taken (filter (key_changed old new) ?is) (rows(rid := None)) new" using half by (simp add: half_done_def)
    have f1: "map_of (ds_fhs s1) (dx_name x) = Some f" "file_records f rid = Some old" using f S(1) old by simp_all
    obtain res2 s2 where u: "update_record_mvcc x rid new s1 = Some (res2, s2)" "ds_ihs s2 = ds_ihs s1"
      "case res2 of Inl e \<Rightarrow> refused s1 e \<and> ds_fhs s2 = ds_fhs s1
       | Inr ok \<Rightarrow> ok \<and> (\<exists>f'. map_of (ds_fhs s2) (dx_name x) = Some f' \<and> file_inv f' \<and> room f' \<and> file_records f' = (file_records f)(rid \<mapsto> new))"
      using update_record_mvcc_ok [OF f1(1) f(2,3) f1(2) apply_sets_length [OF new]] by blast
    show ?thesis
    proof (cases res2)
      case (Inl e)
      then have "update_row x scs rid old s = Some (Inl e, s2)" using start k(1) \<open>res = Inr ks\<close> u(1) by simp
      moreover have "refused s e" using u(3) Inl S by (simp add: refused_def)
      ultimately show ?thesis using u(3) Inl S(1) by (intro exI [of _ "Inl e"] exI [of _ s2]) simp
    next
      case Inr2: (Inr ok)
      then obtain f' where f': "map_of (ds_fhs s2) (dx_name x) = Some f'" "file_inv f'" "room f'" "file_records f' = rows(rid \<mapsto> new)"
        using u(3) f(4) by auto
      obtain s3 vs where s3: "insert_new (new_keys old new ?is) rid s2 = Some (Inr (), s3)" "indexed ?is (ds_ihs s3) (rows(rid \<mapsto> new))" "same_but_ihs s2 vs s3"
        using finish_keys [where rows = rows, OF half [folded u(2)] old d fn] by blast
      let ?s = "add_write UPDATE_TUPLE (dx_name x) rid old s3"
      have "update_row x scs rid old s = Some (Inr (), ?s)" using start k(1) \<open>res = Inr ks\<close> u(1,3) Inr2 ks s3(1) by simp
      moreover have "table_rel x ?s (rows(rid \<mapsto> new))"
        unfolding table_rel_def using f' d s3(2) same_but_ihsD(1) [OF s3(3)] by (auto simp: add_write_def)
      ultimately show ?thesis using free by (intro exI [of _ "Inr ()"] exI [of _ ?s]) simp
    qed
  qed
qed

subsection \<open>Properties\<close>

text \<open>C7: the update of a row refines the assignment of the changed row in a table with unique keys. It is refused with a uniqueness
  error when another row has the new key in an index whose key changes, and with a write conflict, and then the record file is as
  it was; otherwise the row has the values of the set clauses, no other row is changed, and every index has exactly the keys
  of the rows. This holds too when the executor skips the indexes because no set clause names a column of one.\<close>

theorem update_refines_table:
  assumes "table_rel x s rows" "rows rid = Some old" "apply_sets (dx_tab x) scs old = Some (Inr new)" "index_cols_in (dx_tab x)"
    and "\<forall>(name, im) \<in> set (tab_indexes (dx_tab x)). key_fits im old \<and> key_fits im new"
  shows "\<exists>res s'. update_row x scs rid old s = Some (res, s') \<and>
    (case res of
       Inl e \<Rightarrow> ds_fhs s' = ds_fhs s \<and>
         (e = UniqueCheckError \<and> taken (filter (key_changed old new) (tab_indexes (dx_tab x))) (rows(rid := None)) new \<or> refused s e)
     | Inr _ \<Rightarrow> table_rel x s' (rows(rid \<mapsto> new)) \<and> \<not> taken (filter (key_changed old new) (tab_indexes (dx_tab x))) (rows(rid := None)) new)"
  by (rule update_row_ok [OF assms])

text \<open>\<^verbatim>\<open>update t set a = a + 1\<close> on a row with 7.\<close>

definition example_set :: SetClause where
  "example_set = \<lparr>sc_lhs = \<lparr>tc_tab_name = ''t'', tc_col_name = ''a''\<rparr>, sc_rhs = Value_default,
     sc_expr = Some (ArithExpr (ColRef ''t'' ''a'') ADD (IntLit 1))\<rparr>"

lemma example_apply: "apply_sets (dx_tab example_exec) [example_set] (enc_i32 7) = Some (Inr (enc_i32 8))"
  by code_simp

theorem update_refines_table_witness:
  "\<exists>rid s res s'. insert_next (\<lambda>n. replicate n 0) example_exec [set_int 7 Value_default] example_dml = Some (Inr rid, s) \<and>
     update_row example_exec [example_set] rid (enc_i32 7) s = Some (res, s') \<and>
     (case res of Inl e \<Rightarrow> refused s e | Inr _ \<Rightarrow> table_rel example_exec s' [rid \<mapsto> enc_i32 8])"
proof -
  note e = example_table
  have fits: "\<forall>(name, im) \<in> set (tab_indexes (dx_tab example_exec)). key_fits im (enc_i32 7)" using example_fits by (simp add: example_exec_def)
  have fill: "fill_record (tab_cols (dx_tab example_exec)) [set_int 7 Value_default] (replicate (record_size (rf_hdr (example_file 4))) 0) = Some (Inr (enc_i32 7))"
    using example_fill e(3) by simp
  obtain rid s where s: "insert_next (\<lambda>n. replicate n 0) example_exec [set_int 7 Value_default] example_dml = Some (Inr rid, s)"
    "table_rel example_exec s [rid \<mapsto> enc_i32 7]" "ds_mvcc s = ds_mvcc example_dml"
    using insert_next_ok [where junk = "\<lambda>n. replicate n 0", OF e(1,2) fill _ fits e(4)] by (auto simp: taken_def)
  have cols: "index_cols_in (dx_tab example_exec)" by (simp add: index_cols_in_def example_exec_def example_index_def example_col_def)
  have "key_fits (example_index ''a'' 0) (enc_i32 8)"
    by (simp add: key_fits_def build_key_def row_key_def example_index_def example_col_def read_bytes_def)
  then have both: "\<forall>(name, im) \<in> set (tab_indexes (dx_tab example_exec)). key_fits im (enc_i32 7) \<and> key_fits im (enc_i32 8)"
    using example_fits by (simp add: example_exec_def)
  have none: "[rid \<mapsto> enc_i32 7](rid := None) = Map.empty" "[rid \<mapsto> enc_i32 7](rid \<mapsto> enc_i32 8) = [rid \<mapsto> enc_i32 8]" by simp_all
  have free: "\<not> taken is Map.empty r" for "is" r by (simp add: taken_def)
  show ?thesis using update_refines_table [OF s(2) _ example_apply cols both, of rid] s(1) unfolding none
    by (fastforce simp: free split: sum.splits)
qed

end
