(* ===== verification/Exec_Join.thy ===== *)
theory Exec_Join
  imports Exec_Source
begin

text \<open>
  The nested-loop join (\<^verbatim>\<open>src/src/execution/executor_nestedloop_join.h\<close>) with the comparison of a pair of records (\<^verbatim>\<open>fliter.h\<close>).
  The executors below it are reached through their methods, the record \<open>executor\<close>; the join is a source of rows when they are.

  Shown: the join of two sources returns, for each row of the right one in turn, its pairs with the rows of the left one that
  satisfy the join conditions; and the join is not a source a second time, because \<^verbatim>\<open>beginTuple\<close> leaves the end mark set.
\<close>

subsection \<open>Model\<close>

text \<open>The methods of an executor, with \<open>'q\<close> the executor before \<^verbatim>\<open>beginTuple\<close> and \<open>'s\<close> after it; \<open>ex_shared\<close> says that the records
  \<^verbatim>\<open>Next\<close> returns all point to one buffer of the executor, which each call overwrites (\<^verbatim>\<open>allocated_ = false\<close>).\<close>

record ('q, 's) executor =
  ex_begin :: "'q \<Rightarrow> 's checked"
  ex_is_end :: "'s \<Rightarrow> bool"
  ex_next :: "'s \<Rightarrow> 's checked"
  ex_get :: "'s \<Rightarrow> bytes option checked"
  ex_cols :: "ColMeta list"
  ex_len :: nat
  ex_shared :: bool

record MiniCol =
  mc_offset :: nat
  mc_len :: nat
  mc_type :: ColType

definition f32_three_way :: "bytes \<Rightarrow> bytes \<Rightarrow> int" where
  "f32_three_way a b = (if f32_less b a then 1 else if f32_less a b then -1 else 0)"

definition fl_compare :: "bytes \<Rightarrow> bytes \<Rightarrow> ColType \<Rightarrow> ColType \<Rightarrow> nat \<Rightarrow> int checked" where
  "fl_compare a b lt rt len =
     (case lt of
        TYPE_INT \<Rightarrow>
          (case rt of
             TYPE_INT \<Rightarrow> chk (load 0 4 a) (\<lambda>x. chk (load 0 4 b) (\<lambda>y.
               Some (Inr (if dec_i32 x > dec_i32 y then 1 else if dec_i32 x < dec_i32 y then -1 else 0))))
           | TYPE_FLOAT \<Rightarrow> chk (load 0 4 a) (\<lambda>x. chk (load 0 4 b) (\<lambda>y. Some (Inr (f32_three_way (f32_of_int (dec_i32 x)) y))))
           | TYPE_STRING \<Rightarrow> chk (load 0 4 a) (\<lambda>_. Some (Inr (-100))))
      | TYPE_FLOAT \<Rightarrow>
          (case rt of
             TYPE_FLOAT \<Rightarrow> chk (load 0 4 a) (\<lambda>x. chk (load 0 4 b) (\<lambda>y. Some (Inr (f32_three_way x y))))
           | TYPE_INT \<Rightarrow> chk (load 0 4 a) (\<lambda>x. chk (load 0 4 b) (\<lambda>y. Some (Inr (f32_three_way x (f32_of_int (dec_i32 y))))))
           | TYPE_STRING \<Rightarrow> chk (load 0 4 a) (\<lambda>_. Some (Inr (-100))))
      | TYPE_STRING \<Rightarrow> strncmp len a b)"

text \<open>The columns are in pairs, two for each condition; \<^term>\<open>None\<close> is a column that was not found and is not initialised.\<close>

fun do_predict :: "Condition list \<Rightarrow> MiniCol option list \<Rightarrow> bytes \<Rightarrow> bytes \<Rightarrow> bool checked" where
  "do_predict [] cols a b = Some (Inr True)"
| "do_predict (c # cs) (Some l # Some r # cols) a b =
     chk (fl_compare (drop (mc_offset l) a) (drop (mc_offset r) b) (mc_type l) (mc_type r) (mc_len l)) (\<lambda>res.
       if cmp_op (cond_op c) res then do_predict cs cols a b else Some (Inr False))"
| "do_predict _ _ a b = None"

definition mini_col :: "ColMeta list \<Rightarrow> TabCol \<Rightarrow> MiniCol option" where
  "mini_col cols t =
     map_option (\<lambda>c. \<lparr>mc_offset = col_offset c, mc_len = col_len c, mc_type = col_type c\<rparr>)
       (List.find (\<lambda>c. col_tab_name c = tc_tab_name t \<and> col_name c = tc_col_name t) cols)"

definition join_cond_cols :: "ColMeta list \<Rightarrow> ColMeta list \<Rightarrow> Condition list \<Rightarrow> MiniCol option list" where
  "join_cond_cols lcols rcols conds =
     concat (map (\<lambda>c. [mini_col lcols (lhs_col c), if is_rhs_val c then None else mini_col rcols (rhs_col c)]) conds)"

text \<open>A join with the bound of its search loop.\<close>

record ('lq, 'ls, 'rq, 'rs) join =
  jn_left :: "('lq, 'ls) executor"
  jn_right :: "('rq, 'rs) executor"
  jn_conds :: "Condition list"
  jn_fuel :: nat

type_synonym ('lq, 'ls, 'rs) join_state = "'lq \<times> 'ls \<times> 'rs \<times> bool"

definition join_cols :: "('lq, 'ls, 'rq, 'rs) join \<Rightarrow> ColMeta list" where
  "join_cols j = ex_cols (jn_left j) @ map (\<lambda>c. c\<lparr>col_offset := col_offset c + ex_len (jn_left j)\<rparr>) (ex_cols (jn_right j))"

definition join_len :: "('lq, 'ls, 'rq, 'rs) join \<Rightarrow> nat" where
  "join_len j = ex_len (jn_left j) + ex_len (jn_right j)"

definition join_predict :: "('lq, 'ls, 'rq, 'rs) join \<Rightarrow> bytes option \<Rightarrow> bytes option \<Rightarrow> bool checked" where
  "join_predict j a b =
     (case (a, b) of
        (Some x, Some y) \<Rightarrow> do_predict (jn_conds j) (join_cond_cols (ex_cols (jn_left j)) (ex_cols (jn_right j)) (jn_conds j)) x y
      | _ \<Rightarrow> Some (Inr False))"

text \<open>The left executor is advanced; at its end the right one is, and the left one starts again.\<close>

definition join_step :: "('lq, 'ls, 'rq, 'rs) join \<Rightarrow> 'lq \<Rightarrow> 'ls \<Rightarrow> 'rs \<Rightarrow> ('ls \<times> 'rs) checked" where
  "join_step j lq ls rs =
     chk (ex_next (jn_left j) ls) (\<lambda>ls.
       if ex_is_end (jn_left j) ls
       then chk (ex_next (jn_right j) rs) (\<lambda>rs. chk (ex_begin (jn_left j) lq) (\<lambda>ls. Some (Inr (ls, rs))))
       else Some (Inr (ls, rs)))"

fun find_record :: "nat \<Rightarrow> ('lq, 'ls, 'rq, 'rs) join \<Rightarrow> 'lq \<Rightarrow> 'ls \<Rightarrow> 'rs \<Rightarrow> bool \<Rightarrow> ('lq, 'ls, 'rs) join_state checked" where
  "find_record 0 j lq ls rs e = None"
| "find_record (Suc n) j lq ls rs e =
     (if ex_is_end (jn_right j) rs then Some (Inr (lq, ls, rs, True))
      else chk (if ex_is_end (jn_left j) ls then Some (Inr False)
                else chk (ex_get (jn_left j) ls) (\<lambda>a. chk (ex_get (jn_right j) rs) (\<lambda>b. join_predict j a b))) (\<lambda>hit.
           if hit then Some (Inr (lq, ls, rs, e))
           else chk (join_step j lq ls rs) (\<lambda>(ls, rs). find_record n j lq ls rs e)))"

text \<open>The argument is the join before the call: its two executors and its mark \<^verbatim>\<open>is_end_\<close>, false after the constructor.\<close>

definition join_begin :: "('lq, 'ls, 'rq, 'rs) join \<Rightarrow> 'lq \<times> 'rq \<times> bool \<Rightarrow> ('lq, 'ls, 'rs) join_state checked" where
  "join_begin j q =
     (let (lq, rq, e) = q
      in chk (ex_begin (jn_left j) lq) (\<lambda>ls. chk (ex_begin (jn_right j) rq) (\<lambda>rs.
           if ex_is_end (jn_left j) ls \<or> ex_is_end (jn_right j) rs then Some (Inr (lq, ls, rs, True))
           else find_record (jn_fuel j) j lq ls rs e)))"

definition join_is_end :: "('lq, 'ls, 'rs) join_state \<Rightarrow> bool" where
  "join_is_end s = snd (snd (snd s))"

definition join_next :: "('lq, 'ls, 'rq, 'rs) join \<Rightarrow> ('lq, 'ls, 'rs) join_state \<Rightarrow> ('lq, 'ls, 'rs) join_state checked" where
  "join_next j s =
     (let (lq, ls, rs, e) = s
      in if e then Some (Inr s) else chk (join_step j lq ls rs) (\<lambda>(ls, rs). find_record (jn_fuel j) j lq ls rs e))"

definition join_get :: "('lq, 'ls, 'rq, 'rs) join \<Rightarrow> ('lq, 'ls, 'rs) join_state \<Rightarrow> bytes option checked" where
  "join_get j s =
     (let (lq, ls, rs, e) = s
      in if e then Some (Inr None)
         else chk (ex_get (jn_left j) ls) (\<lambda>a. chk (ex_get (jn_right j) rs) (\<lambda>b.
           case (a, b) of
             (Some x, Some y) \<Rightarrow> chk (load 0 (ex_len (jn_left j)) x) (\<lambda>x. chk (load 0 (ex_len (jn_right j)) y) (\<lambda>y. Some (Inr (Some (x @ y)))))
           | _ \<Rightarrow> Some (Inr None))))"

subsection \<open>What a join returns\<close>

definition pairs :: "'a list \<Rightarrow> 'b list \<Rightarrow> ('a \<times> 'b) list" where
  "pairs xs ys = concat (map (\<lambda>y. map (\<lambda>x. (x, y)) xs) ys)"

definition join_hit :: "('lq, 'ls, 'rq, 'rs) join \<Rightarrow> bytes option \<times> bytes option \<Rightarrow> bool" where
  "join_hit j p \<longleftrightarrow> join_predict j (fst p) (snd p) = Some (Inr True)"

definition join_row :: "('lq, 'ls, 'rq, 'rs) join \<Rightarrow> bytes option \<times> bytes option \<Rightarrow> bytes option" where
  "join_row j p = Some (take (ex_len (jn_left j)) (the (fst p)) @ take (ex_len (jn_right j)) (the (snd p)))"

definition join_rows :: "('lq, 'ls, 'rq, 'rs) join \<Rightarrow> (bytes option \<times> bytes option) list \<Rightarrow> bytes option list" where
  "join_rows j ps = map (join_row j) (filter (join_hit j) ps)"

text \<open>The pairs that are still to come when the left executor has the rows \<open>ls\<close> before it and the right one \<open>rs\<close>.\<close>

definition pairs_from :: "'a list \<Rightarrow> 'a list \<Rightarrow> 'b list \<Rightarrow> ('a \<times> 'b) list" where
  "pairs_from all ls rs = (case rs of [] \<Rightarrow> [] | r # rs \<Rightarrow> map (\<lambda>l. (l, r)) ls @ pairs all rs)"

text \<open>The conditions can be evaluated on the two rows, and the rows are as long as their executor says.\<close>

definition pair_ok :: "('lq, 'ls, 'rq, 'rs) join \<Rightarrow> bytes option \<Rightarrow> bytes option \<Rightarrow> bool" where
  "pair_ok j a b \<longleftrightarrow> (\<exists>h. join_predict j a b = Some (Inr h)) \<and>
     (\<forall>x. a = Some x \<longrightarrow> ex_len (jn_left j) \<le> length x) \<and> (\<forall>y. b = Some y \<longrightarrow> ex_len (jn_right j) \<le> length y)"

definition join_ready ::
  "('lq, 'ls, 'rq, 'rs) join \<Rightarrow> ('lq \<Rightarrow> bool) \<Rightarrow> ('lq \<Rightarrow> bytes option list) \<Rightarrow> ('rq \<Rightarrow> bool) \<Rightarrow> ('rq \<Rightarrow> bytes option list) \<Rightarrow> 'lq \<times> 'rq \<times> bool \<Rightarrow> bool" where
  "join_ready j lready lrows rready rrows q \<longleftrightarrow>
     (let (lq, rq, e) = q
      in lready lq \<and> rready rq \<and> \<not> e \<and> length (lrows lq) * length (rrows rq) < jn_fuel j \<and>
         (\<forall>a \<in> set (lrows lq). \<forall>b \<in> set (rrows rq). pair_ok j a b))"

lemma pairs_simps [simp]: "pairs xs [] = []" "pairs xs (y # ys) = map (\<lambda>x. (x, y)) xs @ pairs xs ys"
  by (simp_all add: pairs_def)

lemma pairs_length: "length (pairs xs ys) = length xs * length ys"
  by (induction ys) simp_all

lemma pairs_Nil: "pairs [] ys = []"
  by (induction ys) simp_all

lemma pairs_from_all: "pairs_from xs xs ys = pairs xs ys"
  by (cases ys) (simp_all add: pairs_from_def)

lemma pairs_from_last: "pairs_from all [l] (r # rs) = (l, r) # pairs all rs"
  by (simp add: pairs_from_def)

lemma pairs_from_more: "pairs_from all (l # ls) (r # rs) = (l, r) # pairs_from all ls (r # rs)"
  by (simp add: pairs_from_def)

lemma join_rows_Cons: "join_rows j (p # ps) = (if join_hit j p then join_row j p # join_rows j ps else join_rows j ps)"
  by (simp add: join_rows_def)

definition join_rest ::
  "('lq, 'ls, 'rq, 'rs) join \<Rightarrow> ('lq \<Rightarrow> bytes option list) \<Rightarrow> ('ls \<Rightarrow> bytes option list) \<Rightarrow> ('rs \<Rightarrow> bytes option list) \<Rightarrow> ('lq, 'ls, 'rs) join_state \<Rightarrow> bytes option list" where
  "join_rest j lrows lrest rrest s =
     (let (lq, ls, rs, e) = s in if e then [] else join_rows j (pairs_from (lrows lq) (lrest ls) (rrest rs)))"

text \<open>Two executors, each with its invariant; rows of the left one are before it, also after it has been started again.\<close>

definition join_at ::
  "('lq \<Rightarrow> 'ls \<Rightarrow> bool) \<Rightarrow> ('lq \<Rightarrow> bytes option list) \<Rightarrow> ('ls \<Rightarrow> bytes option list) \<Rightarrow> ('rq \<Rightarrow> 'rs \<Rightarrow> bool) \<Rightarrow> ('rq \<Rightarrow> bytes option list) \<Rightarrow> ('rs \<Rightarrow> bytes option list) \<Rightarrow>
   'lq \<Rightarrow> 'rq \<Rightarrow> 'ls \<Rightarrow> 'rs \<Rightarrow> bool" where
  "join_at linv lrows lrest rinv rrows rrest lq rq ls rs \<longleftrightarrow>
     linv lq ls \<and> rinv rq rs \<and> lrest ls \<noteq> [] \<and> set (lrest ls) \<subseteq> set (lrows lq) \<and> set (rrest rs) \<subseteq> set (rrows rq)"

definition join_inv ::
  "('lq, 'ls, 'rq, 'rs) join \<Rightarrow> ('lq \<Rightarrow> bool) \<Rightarrow> ('lq \<Rightarrow> 'ls \<Rightarrow> bool) \<Rightarrow> ('lq \<Rightarrow> bytes option list) \<Rightarrow> ('ls \<Rightarrow> bytes option list) \<Rightarrow>
   ('rq \<Rightarrow> bool) \<Rightarrow> ('rq \<Rightarrow> 'rs \<Rightarrow> bool) \<Rightarrow> ('rq \<Rightarrow> bytes option list) \<Rightarrow> ('rs \<Rightarrow> bytes option list) \<Rightarrow>
   'lq \<times> 'rq \<times> bool \<Rightarrow> ('lq, 'ls, 'rs) join_state \<Rightarrow> bool" where
  "join_inv j lready linv lrows lrest rready rinv rrows rrest q s \<longleftrightarrow>
     (let (lq, rq, e) = q; (lq', ls, rs, e') = s
      in lq' = lq \<and> join_ready j lready lrows rready rrows q \<and>
         (e' \<or> join_at linv lrows lrest rinv rrows rrest lq rq ls rs \<and> length (pairs_from (lrows lq) (lrest ls) (rrest rs)) < jn_fuel j \<and>
            (\<exists>l ls' r rs'. lrest ls = l # ls' \<and> rrest rs = r # rs' \<and> join_hit j (l, r))))"

locale join_of =
  left: row_source "ex_begin (jn_left j)" "ex_is_end (jn_left j)" "ex_next (jn_left j)" "ex_get (jn_left j)" lready linv lrows lrest +
  right: row_source "ex_begin (jn_right j)" "ex_is_end (jn_right j)" "ex_next (jn_right j)" "ex_get (jn_right j)" rready rinv rrows rrest
  for j :: "('lq, 'ls, 'rq, 'rs) join" and lready and linv :: "'lq \<Rightarrow> 'ls \<Rightarrow> bool" and lrows lrest
    and rready and rinv :: "'rq \<Rightarrow> 'rs \<Rightarrow> bool" and rrows rrest
begin

abbreviation at_pair :: "'lq \<Rightarrow> 'rq \<Rightarrow> 'ls \<Rightarrow> 'rs \<Rightarrow> bool" where
  "at_pair \<equiv> join_at linv lrows lrest rinv rrows rrest"

abbreviation to_come :: "'lq \<Rightarrow> 'ls \<Rightarrow> 'rs \<Rightarrow> (bytes option \<times> bytes option) list" where
  "to_come lq ls rs \<equiv> pairs_from (lrows lq) (lrest ls) (rrest rs)"

lemma step_ok:
  assumes at: "at_pair lq rq ls rs" and ready: "lready lq" and l: "lrest ls = l # ls'" and r: "rrest rs = r # rs'"
  shows "\<exists>ls1 rs1. join_step j lq ls rs = Some (Inr (ls1, rs1)) \<and> at_pair lq rq ls1 rs1 \<and> to_come lq ls rs = (l, r) # to_come lq ls1 rs1"
proof -
  have i: "linv lq ls" "rinv rq rs" "set (lrest ls) \<subseteq> set (lrows lq)" "set (rrest rs) \<subseteq> set (rrows rq)" using at by (simp_all add: join_at_def)
  obtain ls1 where ls1: "ex_next (jn_left j) ls = Some (Inr ls1)" "linv lq ls1" "lrest ls1 = ls'" using left.next_ok [OF i(1) l] by blast
  show ?thesis
  proof (cases ls')
    case Nil
    obtain rs1 where rs1: "ex_next (jn_right j) rs = Some (Inr rs1)" "rinv rq rs1" "rrest rs1 = rs'" using right.next_ok [OF i(2) r] by blast
    obtain ls2 where ls2: "ex_begin (jn_left j) lq = Some (Inr ls2)" "linv lq ls2" "lrest ls2 = lrows lq" using left.begin_ok [OF ready] by blast
    have "ex_is_end (jn_left j) ls1" using left.end_iff [OF ls1(2)] ls1(3) Nil by simp
    then have "join_step j lq ls rs = Some (Inr (ls2, rs1))" using ls1 ls2 rs1 by (simp add: join_step_def)
    moreover have "lrows lq \<noteq> []" using i(3) l by auto
    then have "at_pair lq rq ls2 rs1" using ls2 rs1 i(4) r by (auto simp: join_at_def)
    ultimately show ?thesis using l r Nil ls2(3) rs1(3) by (simp add: pairs_from_last pairs_from_all)
  next
    case (Cons l2 ls'')
    have "\<not> ex_is_end (jn_left j) ls1" using left.end_iff [OF ls1(2)] ls1(3) Cons by simp
    then have "join_step j lq ls rs = Some (Inr (ls1, rs))" using ls1 by (simp add: join_step_def)
    moreover have "at_pair lq rq ls1 rs" using ls1 i l Cons by (auto simp: join_at_def)
    ultimately show ?thesis using l r ls1(3) by (simp add: pairs_from_more)
  qed
qed

lemma find_ok:
  assumes "at_pair lq rq ls rs" and ready: "join_ready j lready lrows rready rrows (lq, rq, False)" and "length (to_come lq ls rs) < n" "length (to_come lq ls rs) < jn_fuel j"
  shows "\<exists>s. find_record n j lq ls rs False = Some (Inr s) \<and> join_inv j lready linv lrows lrest rready rinv rrows rrest (lq, rq, False) s \<and>
    join_rest j lrows lrest rrest s = join_rows j (to_come lq ls rs)"
  using assms(1,3,4)
proof (induction n arbitrary: ls rs)
  case (Suc n)
  have i: "linv lq ls" "rinv rq rs" "lrest ls \<noteq> []" "set (lrest ls) \<subseteq> set (lrows lq)" "set (rrest rs) \<subseteq> set (rrows rq)"
    using Suc.prems(1) by (simp_all add: join_at_def)
  have lr: "lready lq" using ready by (simp add: join_ready_def)
  show ?case
  proof (cases "rrest rs")
    case Nil
    then have "find_record (Suc n) j lq ls rs False = Some (Inr (lq, ls, rs, True))" using right.end_iff [OF i(2)] by simp
    then show ?thesis using ready Nil by (simp add: join_inv_def join_rest_def join_rows_def pairs_from_def)
  next
    case (Cons r rs')
    obtain l ls' where l: "lrest ls = l # ls'" using i(3) by (cases "lrest ls") auto
    have "l \<in> set (lrows lq)" "r \<in> set (rrows rq)" using i l Cons by auto
    then obtain h where h: "join_predict j l r = Some (Inr h)" using ready by (fastforce simp: join_ready_def pair_ok_def)
    have go: "find_record (Suc n) j lq ls rs False =
        (if h then Some (Inr (lq, ls, rs, False)) else chk (join_step j lq ls rs) (\<lambda>(ls, rs). find_record n j lq ls rs False))"
      using left.end_iff [OF i(1)] right.end_iff [OF i(2)] l Cons left.get_ok [OF i(1) l] right.get_ok [OF i(2) Cons] h by simp
    show ?thesis
    proof (cases h)
      case True
      then have "join_hit j (l, r)" using h by (simp add: join_hit_def)
      then have "join_inv j lready linv lrows lrest rready rinv rrows rrest (lq, rq, False) (lq, ls, rs, False)"
        using Suc.prems ready l Cons by (simp add: join_inv_def)
      then show ?thesis using go True by (simp add: join_rest_def)
    next
      case False
      obtain ls1 rs1 where s: "join_step j lq ls rs = Some (Inr (ls1, rs1))" "at_pair lq rq ls1 rs1" "to_come lq ls rs = (l, r) # to_come lq ls1 rs1"
        using step_ok [OF Suc.prems(1) lr l Cons] by blast
      have "\<not> join_hit j (l, r)" using h False by (simp add: join_hit_def)
      moreover have "find_record (Suc n) j lq ls rs False = find_record n j lq ls1 rs1 False" using go False s(1) by simp
      ultimately show ?thesis using Suc.IH [OF s(2)] Suc.prems(2,3) unfolding s(3) join_rows_Cons by simp
    qed
  qed
qed simp

lemma begin_both:
  assumes ready: "join_ready j lready lrows rready rrows q"
  shows "\<exists>s. join_begin j q = Some (Inr s) \<and> join_inv j lready linv lrows lrest rready rinv rrows rrest q s \<and>
    join_rest j lrows lrest rrest s = join_rows j (pairs (lrows (fst q)) (rrows (fst (snd q))))"
proof -
  obtain lq rq where q: "q = (lq, rq, False)" using ready by (cases q) (auto simp: join_ready_def)
  have lr: "lready lq" "rready rq" using ready by (simp_all add: q join_ready_def)
  obtain ls where ls: "ex_begin (jn_left j) lq = Some (Inr ls)" "linv lq ls" "lrest ls = lrows lq" using left.begin_ok [OF lr(1)] by blast
  obtain rs where rs: "ex_begin (jn_right j) rq = Some (Inr rs)" "rinv rq rs" "rrest rs = rrows rq" using right.begin_ok [OF lr(2)] by blast
  have ends: "ex_is_end (jn_left j) ls \<longleftrightarrow> lrows lq = []" "ex_is_end (jn_right j) rs \<longleftrightarrow> rrows rq = []"
    using left.end_iff [OF ls(2)] right.end_iff [OF rs(2)] ls(3) rs(3) by simp_all
  show ?thesis
  proof (cases "lrows lq = [] \<or> rrows rq = []")
    case True
    then have "join_begin j q = Some (Inr (lq, ls, rs, True))" using ls(1) rs(1) ends by (auto simp: join_begin_def q)
    moreover have "pairs (lrows lq) (rrows rq) = []" using True by (auto simp: pairs_Nil)
    ultimately show ?thesis using ready by (simp add: join_inv_def join_rest_def join_rows_def q)
  next
    case False
    then have at: "at_pair lq rq ls rs" using ls rs by (simp add: join_at_def)
    have all: "to_come lq ls rs = pairs (lrows lq) (rrows rq)" by (simp add: ls(3) rs(3) pairs_from_all)
    then have len: "length (to_come lq ls rs) < jn_fuel j" using ready by (simp add: q join_ready_def pairs_length)
    have "join_begin j q = find_record (jn_fuel j) j lq ls rs False" using False ls(1) rs(1) ends by (simp add: join_begin_def q)
    then show ?thesis using find_ok [OF at ready [unfolded q] len len] unfolding all by (simp add: q)
  qed
qed

sublocale both: row_source "join_begin j" join_is_end "join_next j" "join_get j" "join_ready j lready lrows rready rrows"
  "join_inv j lready linv lrows lrest rready rinv rrows rrest" "\<lambda>q. join_rows j (pairs (lrows (fst q)) (rrows (fst (snd q))))" "join_rest j lrows lrest rrest"
proof unfold_locales
  show "\<exists>s. join_begin j q = Some (Inr s) \<and> join_inv j lready linv lrows lrest rready rinv rrows rrest q s \<and>
      join_rest j lrows lrest rrest s = join_rows j (pairs (lrows (fst q)) (rrows (fst (snd q))))"
    if "join_ready j lready lrows rready rrows q" for q using that by (rule begin_both)
next
  fix q s
  assume inv: "join_inv j lready linv lrows lrest rready rinv rrows rrest q s"
  show "join_is_end s \<longleftrightarrow> join_rest j lrows lrest rrest s = []"
    using inv by (auto simp: join_inv_def join_rest_def join_is_end_def join_rows_Cons pairs_from_more split: prod.splits)
next
  fix q s r0 rest0
  assume inv: "join_inv j lready linv lrows lrest rready rinv rrows rrest q s" and rest: "join_rest j lrows lrest rrest s = r0 # rest0"
  obtain lq rq e where q: "q = (lq, rq, e)" by (cases q)
  obtain lq' ls rs e' where s': "s = (lq', ls, rs, e')" by (cases s)
  have e': "\<not> e'" using rest by (auto simp: s' join_rest_def)
  have k: "lq' = lq" "join_ready j lready lrows rready rrows q" using inv by (simp_all add: s' q join_inv_def)
  have at: "at_pair lq rq ls rs" "length (to_come lq ls rs) < jn_fuel j" "\<exists>l ls' r rs'. lrest ls = l # ls' \<and> rrest rs = r # rs' \<and> join_hit j (l, r)"
    using inv e' by (simp_all add: s' q join_inv_def)
  have e: "e = False" using k(2) by (auto simp: q join_ready_def)
  obtain l ls' r rs' where lr: "lrest ls = l # ls'" "rrest rs = r # rs'" "join_hit j (l, r)" using at(3) by blast
  have i: "linv lq ls" "rinv rq rs" "l \<in> set (lrows lq)" "r \<in> set (rrows rq)" using at(1) lr by (auto simp: join_at_def)
  have r0: "r0 = join_row j (l, r)" "rest0 = join_rows j (tl (to_come lq ls rs))"
    using rest e' lr k(1) by (simp_all add: s' join_rest_def pairs_from_more join_rows_Cons)
  obtain x y where xy: "l = Some x" "r = Some y" using lr(3) by (auto simp: join_hit_def join_predict_def split: option.splits)
  have "pair_ok j l r" using k(2) i(3,4) by (auto simp: q join_ready_def)
  then have "ex_len (jn_left j) \<le> length x" "ex_len (jn_right j) \<le> length y" using xy by (simp_all add: pair_ok_def)
  then show "join_get j s = Some (Inr r0)"
    using left.get_ok [OF i(1) lr(1)] right.get_ok [OF i(2) lr(2)] xy e' r0(1) by (simp add: s' join_get_def join_row_def load_def read_bytes_def)
  have lready: "lready lq" using k(2) by (simp add: q join_ready_def)
  obtain ls1 rs1 where st: "join_step j lq ls rs = Some (Inr (ls1, rs1))" "at_pair lq rq ls1 rs1" "to_come lq ls rs = (l, r) # to_come lq ls1 rs1"
    using step_ok [OF at(1) lready lr(1,2)] by blast
  have len: "length (to_come lq ls1 rs1) < jn_fuel j" using at(2) st(3) by simp
  have "join_next j s = find_record (jn_fuel j) j lq ls1 rs1 False" using e' st(1) k(1) by (simp add: s' join_next_def)
  then show "\<exists>s'. join_next j s = Some (Inr s') \<and> join_inv j lready linv lrows lrest rready rinv rrows rrest q s' \<and> join_rest j lrows lrest rrest s' = rest0"
    using find_ok [OF st(2) k(2) [unfolded q e] len len] r0(2) st(3) by (simp add: q e)
qed

end

subsection \<open>Joins of scans\<close>

definition seq_exec :: "seq_scan \<Rightarrow> (seq_scan \<times> rm_file, seq_state) executor" where
  "seq_exec q =
     \<lparr>ex_begin = seq_begin, ex_is_end = seq_is_end, ex_next = seq_next, ex_get = seq_get,
      ex_cols = (if proj_len (sq_proj q) = 0 then sq_cols q else map snd (sq_proj q)),
      ex_len = (if proj_len (sq_proj q) = 0 then col_offset (last (sq_cols q)) + col_len (last (sq_cols q)) else proj_len (sq_proj q)),
      ex_shared = (proj_len (sq_proj q) \<noteq> 0)\<rparr>"

definition join_scans :: "seq_scan \<Rightarrow> seq_scan \<Rightarrow> Condition list \<Rightarrow> nat \<Rightarrow> (seq_scan \<times> rm_file, seq_state, seq_scan \<times> rm_file, seq_state) join" where
  "join_scans q1 q2 conds n = \<lparr>jn_left = seq_exec q1, jn_right = seq_exec q2, jn_conds = conds, jn_fuel = n\<rparr>"

definition join_exec :: "('lq, 'ls, 'rq, 'rs) join \<Rightarrow> ('lq \<times> 'rq \<times> bool, ('lq, 'ls, 'rs) join_state) executor" where
  "join_exec j =
     \<lparr>ex_begin = join_begin j, ex_is_end = join_is_end, ex_next = join_next j, ex_get = join_get j, ex_cols = join_cols j, ex_len = join_len j, ex_shared = True\<rparr>"

interpretation two_scans: join_of "join_scans q1 q2 conds n" seq_ready seq_inv seq_rows seq_rest seq_ready seq_inv seq_rows seq_rest for q1 q2 conds n
  unfolding join_of_def join_scans_def seq_exec_def by (simp add: seq_source.row_source_axioms)

text \<open>A join of three tables, with the join of two of them on the right, as the planner builds it: the right executor is begun once.\<close>

definition join_scan :: "seq_scan \<Rightarrow> ('q, 's) executor \<Rightarrow> Condition list \<Rightarrow> nat \<Rightarrow> (seq_scan \<times> rm_file, seq_state, 'q, 's) join" where
  "join_scan q x conds n = \<lparr>jn_left = seq_exec q, jn_right = x, jn_conds = conds, jn_fuel = n\<rparr>"

interpretation three_scans: join_of "join_scan q (join_exec (join_scans q1 q2 conds n)) conds' n'" seq_ready seq_inv seq_rows seq_rest
  "join_ready (join_scans q1 q2 conds n) seq_ready seq_rows seq_ready seq_rows"
  "join_inv (join_scans q1 q2 conds n) seq_ready seq_inv seq_rows seq_rest seq_ready seq_inv seq_rows seq_rest"
  "\<lambda>q. join_rows (join_scans q1 q2 conds n) (pairs (seq_rows (fst q)) (seq_rows (fst (snd q))))" "join_rest (join_scans q1 q2 conds n) seq_rows seq_rest seq_rest"
  for q q1 q2 conds conds' n n'
  unfolding join_of_def join_scan_def join_exec_def seq_exec_def by (simp add: seq_source.row_source_axioms two_scans.both.row_source_axioms)

text \<open>A join on the left is begun again for each row of the right executor, but the end mark of the first round is never taken
  back: from the second round on it has no rows.\<close>

lemma find_record_mark: "find_record n j lq ls rs True = Some (Inr s) \<Longrightarrow> join_is_end s"
proof (induction n arbitrary: ls rs)
  case (Suc n)
  then show ?case by (auto simp: join_is_end_def chk_Inr split: if_splits)
qed simp

lemma join_begun_again: "join_begin j (lq, rq, True) = Some (Inr s) \<Longrightarrow> join_is_end s"
  by (auto simp: join_begin_def chk_Inr join_is_end_def split: if_splits dest: find_record_mark [unfolded join_is_end_def])

subsection \<open>Properties\<close>

text \<open>The nested-loop join of two sequential scans returns, for each row of the right scan in page and slot order, the pairs with the
  rows of the left scan that satisfy the join conditions, each pair as the bytes of the left row followed by those of the right
  one, and no other rows.\<close>

theorem join_returns_pairs:
  assumes scans: "seq_ready (q1, f1)" "seq_ready (q2, f2)" and fuel: "length (seq_rows (q1, f1)) * length (seq_rows (q2, f2)) < k"
    and ok: "\<forall>a \<in> set (seq_rows (q1, f1)). \<forall>b \<in> set (seq_rows (q2, f2)). pair_ok (join_scans q1 q2 conds k) a b"
    and "length (seq_rows (q1, f1)) * length (seq_rows (q2, f2)) < n"
  shows "run_source (join_begin (join_scans q1 q2 conds k)) join_is_end (join_next (join_scans q1 q2 conds k)) (join_get (join_scans q1 q2 conds k)) n
      ((q1, f1), (q2, f2), False) =
    Some (Inr (map (join_row (join_scans q1 q2 conds k)) (filter (join_hit (join_scans q1 q2 conds k)) (pairs (seq_rows (q1, f1)) (seq_rows (q2, f2))))))"
proof -
  let ?j = "join_scans q1 q2 conds k"
  have "join_ready ?j seq_ready seq_rows seq_ready seq_rows ((q1, f1), (q2, f2), False)"
    using scans fuel ok by (simp add: join_ready_def join_scans_def)
  moreover have "length (join_rows ?j (pairs (seq_rows (q1, f1)) (seq_rows (q2, f2)))) < n"
    using le_less_trans [OF length_filter_le assms(5) [folded pairs_length]] by (simp add: join_rows_def)
  ultimately show ?thesis using two_scans.both.run_ok [of q1 q2 conds k "((q1, f1), (q2, f2), False)" n] by (simp add: join_rows_def)
qed

lemma one_row_scan:
  assumes "file_inv f" "room f" "file_records f = [rid \<mapsto> r]" "sq_conds q = []" "sq_proj q = []" "sq_tid q = None" "1 < sq_fuel q"
  shows "seq_ready (q, f)" "seq_rows (q, f) = [Some r]"
proof -
  show ready: "seq_ready (q, f)" using assms by (auto simp: seq_ready_def eval_conds_def)
  have ev: "\<forall>r \<in> ran (file_records f). \<exists>b. eval_conds (sq_cols q) (sq_conds q) r = Some (Inr b)" using assms(4) by (auto simp: eval_conds_def)
  obtain rids where r: "set rids = dom (file_records f)" "sorted_wrt rid_before rids"
    "run_source seq_begin seq_is_end seq_next seq_get (2 + length (seq_rows (q, f))) (q, f) = Some (Inr (map (seq_row q f) (filter (seq_hit q f) rids)))"
    using seq_scan_run [OF assms(1,2) _ _ ev, of "2 + length (seq_rows (q, f))"] assms(3,7) by auto
  have "run_source seq_begin seq_is_end seq_next seq_get (2 + length (seq_rows (q, f))) (q, f) = Some (Inr (seq_rows (q, f)))"
    by (rule seq_source.run_ok [OF ready]) simp
  then have rows: "seq_rows (q, f) = map (seq_row q f) (filter (seq_hit q f) rids)" using r(3) by simp
  have "rids = [rid]"
  proof (cases rids)
    case (Cons a as)
    then show ?thesis using r(1,2) assms(3) by (cases as) auto
  qed (use r(1) assms(3) in simp)
  then show "seq_rows (q, f) = [Some r]" using rows assms(3-6) by (simp add: seq_hit_def seq_row_def visible_def project_def proj_len_def)
qed

definition example_scan :: seq_scan where
  "example_scan = \<lparr>sq_cols = [example_col ''a'' 0], sq_conds = [], sq_proj = [], sq_tid = None, sq_fuel = 2\<rparr>"

definition example_join_cond :: "CompOp \<Rightarrow> Condition" where
  "example_join_cond op = \<lparr>lhs_col = \<lparr>tc_tab_name = ''t'', tc_col_name = ''a''\<rparr>, cond_op = op, is_rhs_val = False,
     rhs_col = \<lparr>tc_tab_name = ''t'', tc_col_name = ''a''\<rparr>, rhs_val = Value_default\<rparr>"

lemma example_predict: "join_predict (join_scans example_scan example_scan [example_join_cond OP_GE] 2) (Some (enc_i32 7)) (Some (enc_i32 7)) = Some (Inr True)"
proof -
  have "do_predict [example_join_cond OP_GE] (join_cond_cols [example_col ''a'' 0] [example_col ''a'' 0] [example_join_cond OP_GE]) (enc_i32 7) (enc_i32 7) = Some (Inr True)"
    by code_simp
  then show ?thesis by (simp add: join_predict_def join_scans_def seq_exec_def example_scan_def proj_len_def)
qed

theorem join_returns_pairs_witness:
  "\<exists>rid f. insert_record (enc_i32 7) None (example_file 4) = (Inr rid, f) \<and>
     (let j = join_scans example_scan example_scan [example_join_cond OP_GE] 2
      in run_source (join_begin j) join_is_end (join_next j) (join_get j) 2 ((example_scan, f), (example_scan, f), False) =
         Some (Inr [Some (enc_i32 7 @ enc_i32 7)]))"
proof -
  obtain rid f where f: "insert_record (enc_i32 7) None (example_file 4) = (Inr rid, f)" "file_inv f" "room f" "file_records f = [rid \<mapsto> enc_i32 7]"
    by (rule one_row_file)
  note s = one_row_scan [OF f(2,3,4), of example_scan]
  have s': "seq_ready (example_scan, f)" "seq_rows (example_scan, f) = [Some (enc_i32 7)]" using s by (simp_all add: example_scan_def)
  have len: "ex_len (seq_exec example_scan) = 4" by (simp add: seq_exec_def example_scan_def proj_len_def example_col_def)
  have "pair_ok (join_scans example_scan example_scan [example_join_cond OP_GE] 2) (Some (enc_i32 7)) (Some (enc_i32 7))"
    using example_predict len by (auto simp: pair_ok_def join_scans_def)
  then show ?thesis
    using join_returns_pairs [OF s'(1) s'(1), of 2 "[example_join_cond OP_GE]" 2] f(1) example_predict len
    by (auto simp: s'(2) join_hit_def join_row_def join_scans_def Let_def)
qed

subsection \<open>Join conditions compare values\<close>

lemma fl_compare_value:
  assumes f: "col_fits c a" "col_fits d b" and t: "col_type d = col_type c" "col_len d = col_len c"
    and nn: "no_nan (col_value c a)" "no_nan (col_value d b)"
  shows "\<exists>k. fl_compare (drop (col_offset c) a) (drop (col_offset d) b) (col_type c) (col_type d) (col_len c) = Some (Inr k) \<and>
    (k < 0 \<longleftrightarrow> value_rank (col_value c a) < value_rank (col_value d b)) \<and> (k = 0 \<longleftrightarrow> value_rank (col_value c a) = value_rank (col_value d b))"
proof (cases "col_type c")
  case TYPE_INT
  then show ?thesis using lhs_load [OF f(1)] lhs_load [OF f(2)] col_value_rank [OF f(1)] col_value_rank [OF f(2)] t by (simp add: fl_compare_def)
next
  case TYPE_FLOAT
  have "\<not> f32_nan (col_bytes c a)" "\<not> f32_nan (col_bytes d b)"
    using nn TYPE_FLOAT t col_value_float [OF f(1)] col_value_float [OF f(2)] by (simp_all add: no_nan_def)
  then show ?thesis using TYPE_FLOAT lhs_load [OF f(1)] lhs_load [OF f(2)] col_value_rank [OF f(1)] col_value_rank [OF f(2)] t
    by (simp add: fl_compare_def f32_three_way_def f32_less_def)
next
  case TYPE_STRING
  have "col_len c \<le> length (drop (col_offset c) a)" "col_len c \<le> length (drop (col_offset d) b)" using f t by (auto simp: col_fits_def)
  then obtain k where "strncmp (col_len c) (drop (col_offset c) a) (drop (col_offset d) b) = Some (Inr k)"
    "k < 0 \<longleftrightarrow> map uint (c_str (col_bytes c a)) < map uint (c_str (col_bytes d b))" "k = 0 \<longleftrightarrow> c_str (col_bytes c a) = c_str (col_bytes d b)"
    using strncmp_sign [of "col_len c" "drop (col_offset c) a" "drop (col_offset d) b"] t by (auto simp: col_bytes_def read_bytes_def)
  then show ?thesis using TYPE_STRING t col_value_rank [OF f(1)] col_value_rank [OF f(2)] by (simp add: fl_compare_def map_uint_inj)
qed

text \<open>A join condition names a column of each side, of one type and length, and neither holds a NaN.\<close>

definition cond_fits :: "ColMeta list \<Rightarrow> ColMeta list \<Rightarrow> bytes \<Rightarrow> bytes \<Rightarrow> Condition \<Rightarrow> ColMeta \<Rightarrow> ColMeta \<Rightarrow> bool" where
  "cond_fits lcols rcols a b cond c d \<longleftrightarrow>
     \<not> is_rhs_val cond \<and> get_col lcols (lhs_col cond) = Inr c \<and> get_col rcols (rhs_col cond) = Inr d \<and>
     col_type d = col_type c \<and> col_len d = col_len c \<and> col_fits c a \<and> col_fits d b \<and> no_nan (col_value c a) \<and> no_nan (col_value d b)"

lemma mini_col_get: "get_col cols t = Inr c \<Longrightarrow> mini_col cols t = Some \<lparr>mc_offset = col_offset c, mc_len = col_len c, mc_type = col_type c\<rparr>"
  by (auto simp: get_col_def mini_col_def split: option.splits)

lemma do_predict_values:
  assumes "\<forall>cond \<in> set conds. \<exists>c d. cond_fits lcols rcols a b cond c d"
  shows "do_predict conds (join_cond_cols lcols rcols conds) a b =
    Some (Inr (\<forall>cond \<in> set conds. \<forall>c d. cond_fits lcols rcols a b cond c d \<longrightarrow> value_op (cond_op cond) (col_value c a) (col_value d b)))"
  using assms
proof (induction conds)
  case (Cons cond conds)
  obtain c d where fit: "cond_fits lcols rcols a b cond c d" using Cons.prems by auto
  have cd: "\<not> is_rhs_val cond" "get_col lcols (lhs_col cond) = Inr c" "get_col rcols (rhs_col cond) = Inr d"
    "col_type d = col_type c" "col_len d = col_len c" "col_fits c a" "col_fits d b" "no_nan (col_value c a)" "no_nan (col_value d b)"
    using fit by (simp_all add: cond_fits_def)
  have only: "cond_fits lcols rcols a b cond c' d' \<longleftrightarrow> c' = c \<and> d' = d" for c' d' using fit by (auto simp: cond_fits_def)
  obtain k where k: "fl_compare (drop (col_offset c) a) (drop (col_offset d) b) (col_type c) (col_type d) (col_len c) = Some (Inr k)"
    "k < 0 \<longleftrightarrow> value_rank (col_value c a) < value_rank (col_value d b)" "k = 0 \<longleftrightarrow> value_rank (col_value c a) = value_rank (col_value d b)"
    using fl_compare_value [OF cd(6,7,4,5,8,9)] by blast
  have "cmp_op (cond_op cond) k = value_op (cond_op cond) (col_value c a) (col_value d b)" by (rule cmp_op_value [OF cd(8,9) k(2,3)])
  moreover have "do_predict (cond # conds) (join_cond_cols lcols rcols (cond # conds)) a b =
      (if cmp_op (cond_op cond) k then do_predict conds (join_cond_cols lcols rcols conds) a b else Some (Inr False))"
    using k(1) cd(1) mini_col_get [OF cd(2)] mini_col_get [OF cd(3)] by (simp add: join_cond_cols_def)
  ultimately show ?case using Cons by (simp add: only)
qed simp

text \<open>C37: the filter of a join, which compares the bytes at precomputed offsets, is the conjunction of the comparisons of the values the two
  rows hold in the columns of each condition, when the columns of a condition have one type and length.\<close>

theorem join_filter_compares_values:
  assumes "\<forall>cond \<in> set conds. \<exists>c d. cond_fits lcols rcols a b cond c d"
  shows "do_predict conds (join_cond_cols lcols rcols conds) a b =
    Some (Inr (\<forall>cond \<in> set conds. \<forall>c d. cond_fits lcols rcols a b cond c d \<longrightarrow> value_op (cond_op cond) (col_value c a) (col_value d b)))"
  by (rule do_predict_values [OF assms])

theorem join_filter_compares_values_witness:
  "do_predict [example_join_cond OP_GE] (join_cond_cols [example_col ''a'' 0] [example_col ''a'' 0] [example_join_cond OP_GE]) (enc_i32 9) (enc_i32 7) =
   Some (Inr (value_op OP_GE (col_value (example_col ''a'' 0) (enc_i32 9)) (col_value (example_col ''a'' 0) (enc_i32 7))))"
proof -
  let ?c = "example_col ''a'' 0"
  have "cond_fits [?c] [?c] (enc_i32 9) (enc_i32 7) (example_join_cond OP_GE) c d \<longleftrightarrow> c = ?c \<and> d = ?c" for c d
    by (auto simp: cond_fits_def example_join_cond_def get_col_def example_col_def col_fits_def no_nan_def)
  then show ?thesis using join_filter_compares_values [of "[example_join_cond OP_GE]" "[?c]" "[?c]" "enc_i32 9" "enc_i32 7"]
    by (simp add: example_join_cond_def)
qed

text \<open>A condition of a column with a literal that has not been pushed below a join reads a column that was never looked up.\<close>

lemma join_literal_undefined: "is_rhs_val cond \<Longrightarrow> do_predict (cond # conds) (join_cond_cols lcols rcols (cond # conds)) a b = None"
  by (cases "mini_col lcols (lhs_col cond)") (simp_all add: join_cond_cols_def)

text \<open>The same when the columns of a condition are given in the order of the other side.\<close>

lemma join_swapped_undefined:
  "get_col lcols (lhs_col cond) = Inl e \<Longrightarrow> do_predict (cond # conds) (join_cond_cols lcols rcols (cond # conds)) a b = None"
  by (auto simp: join_cond_cols_def get_col_def mini_col_def split: option.splits)

end
