(* ===== verification/Exec_Project.thy ===== *)
theory Exec_Project
  imports Exec_Join
begin

text \<open>
  The projection (\<^verbatim>\<open>src/src/execution/executor_projection.h\<close>): the columns of the output and their offsets, the runs of columns that are
  next to each other in the input and are copied together, and the executor.

  Shown: copying the runs is copying the columns one after the other, whatever was in the output buffer; so a projection of a
  source of rows is a source of the projected rows.
\<close>

subsection \<open>Model\<close>

record ProjectionRun =
  pr_src :: nat
  pr_dst :: nat
  pr_len :: nat

text \<open>An aggregation below has columns without a table name; its columns are taken by position. Otherwise a column that is not
  found is an exception.\<close>

definition is_agg_output :: "ColMeta list \<Rightarrow> bool" where
  "is_agg_output prev \<longleftrightarrow> prev \<noteq> [] \<and> col_tab_name (hd prev) = []"

fun get_cols :: "ColMeta list \<Rightarrow> TabCol list \<Rightarrow> db_error + ColMeta list" where
  "get_cols prev [] = Inr []"
| "get_cols prev (t # ts) =
     (case get_col prev t of
        Inl e \<Rightarrow> Inl e
      | Inr c \<Rightarrow> (case get_cols prev ts of Inl e \<Rightarrow> Inl e | Inr cs \<Rightarrow> Inr (c # cs)))"

definition select_cols :: "ColMeta list \<Rightarrow> TabCol list \<Rightarrow> db_error + ColMeta list" where
  "select_cols prev sel =
     (if sel = [] \<and> is_agg_output prev then Inr prev
      else if is_agg_output prev then Inr (take (length sel) prev)
      else get_cols prev sel)"

text \<open>Each selected column with the column of the output, which has the next free offset.\<close>

fun place :: "nat \<Rightarrow> ColMeta list \<Rightarrow> (ColMeta \<times> ColMeta) list" where
  "place off [] = []"
| "place off (c # cs) = (c, c\<lparr>col_offset := off\<rparr>) # place (off + col_len c) cs"

fun runs_loop :: "ProjectionRun \<Rightarrow> ColMeta \<Rightarrow> (ColMeta \<times> ColMeta) list \<Rightarrow> ProjectionRun list" where
  "runs_loop cur p [] = [cur]"
| "runs_loop cur p ((c, d) # ps) =
     (if col_offset p + col_len p = col_offset c then runs_loop (cur\<lparr>pr_len := pr_len cur + col_len c\<rparr>) c ps
      else cur # runs_loop \<lparr>pr_src = col_offset c, pr_dst = col_offset d, pr_len = col_len c\<rparr> c ps)"

fun build_runs :: "(ColMeta \<times> ColMeta) list \<Rightarrow> ProjectionRun list" where
  "build_runs [] = []"
| "build_runs ((c, d) # ps) = runs_loop \<lparr>pr_src = col_offset c, pr_dst = col_offset d, pr_len = col_len c\<rparr> c ps"

fun copy_runs :: "ProjectionRun list \<Rightarrow> bytes \<Rightarrow> bytes \<Rightarrow> bytes checked" where
  "copy_runs [] r buf = Some (Inr buf)"
| "copy_runs (x # xs) r buf = chk (load (pr_src x) (pr_len x) r) (\<lambda>bs. chk (store (pr_dst x) bs buf) (\<lambda>buf. copy_runs xs r buf))"

text \<open>A projection, with what its buffer holds before a call: \<open>junk\<close>, cut to the length of the output record.\<close>

record ('q, 's) projection =
  pj_prev :: "('q, 's) executor"
  pj_cols :: "(ColMeta \<times> ColMeta) list"
  pj_runs :: "ProjectionRun list"
  pj_buf :: bytes

definition project_on :: "('q, 's) executor \<Rightarrow> bytes \<Rightarrow> ColMeta list \<Rightarrow> ('q, 's) projection" where
  "project_on prev junk cs =
     (let len = sum_list (map col_len cs)
      in \<lparr>pj_prev = prev, pj_cols = place 0 cs, pj_runs = build_runs (place 0 cs), pj_buf = take len (junk @ replicate len 0)\<rparr>)"

definition new_projection :: "('q, 's) executor \<Rightarrow> TabCol list \<Rightarrow> bytes \<Rightarrow> db_error + ('q, 's) projection" where
  "new_projection prev sel junk = (case select_cols (ex_cols prev) sel of Inl e \<Rightarrow> Inl e | Inr cs \<Rightarrow> Inr (project_on prev junk cs))"

definition proj_get :: "('q, 's) projection \<Rightarrow> 's \<Rightarrow> bytes option checked" where
  "proj_get p s =
     chk (ex_get (pj_prev p) s) (\<lambda>r.
       case r of None \<Rightarrow> Some (Inr None) | Some r \<Rightarrow> chk (copy_runs (pj_runs p) r (pj_buf p)) (\<lambda>b. Some (Inr (Some b))))"

definition proj_exec :: "('q, 's) projection \<Rightarrow> ('q, 's) executor" where
  "proj_exec p =
     \<lparr>ex_begin = ex_begin (pj_prev p), ex_is_end = ex_is_end (pj_prev p), ex_next = ex_next (pj_prev p), ex_get = proj_get p,
      ex_cols = map snd (pj_cols p), ex_len = sum_list (map (\<lambda>(c, _). col_len c) (pj_cols p)), ex_shared = True\<rparr>"

subsection \<open>Runs copy columns\<close>

definition columns_of :: "ColMeta list \<Rightarrow> bytes \<Rightarrow> bytes" where
  "columns_of cs r = concat (map (\<lambda>c. read_bytes (col_offset c) (col_len c) r) cs)"

definition cols_in :: "ColMeta list \<Rightarrow> bytes \<Rightarrow> bool" where
  "cols_in cs r \<longleftrightarrow> (\<forall>c \<in> set cs. col_offset c + col_len c \<le> length r)"

lemma read_bytes_add: "read_bytes off (m + n) r = read_bytes off m r @ read_bytes (off + m) n r"
  by (simp add: read_bytes_def take_add add.commute)

lemma copy_run:
  assumes "s + n \<le> length r" "d + n \<le> length buf"
  shows "copy_runs (\<lparr>pr_src = s, pr_dst = d, pr_len = n\<rparr> # xs) r buf = copy_runs xs r (take d buf @ read_bytes s n r @ drop (d + n) buf)"
  using assms by (simp add: load_def store_def write_bytes_def read_bytes_def)

lemma runs_loop_ok:
  assumes "cols_in cs r" "s + n \<le> length r" "col_offset p + col_len p = s + n" "length buf = d + n + sum_list (map col_len cs)"
  shows "copy_runs (runs_loop \<lparr>pr_src = s, pr_dst = d, pr_len = n\<rparr> p (place (d + n) cs)) r buf = Some (Inr (take d buf @ read_bytes s n r @ columns_of cs r))"
  using assms
proof (induction cs arbitrary: s d n p buf)
  case Nil
  then show ?case by (simp add: copy_run columns_of_def del: copy_runs.simps(2))
next
  case (Cons c cs)
  have c: "col_offset c + col_len c \<le> length r" "cols_in cs r" using Cons.prems(1) by (simp_all add: cols_in_def)
  show ?case
  proof (cases "col_offset c = s + n")
    case True
    then show ?thesis using Cons.IH [of s "n + col_len c" c buf d] Cons.prems c
      by (simp add: read_bytes_add columns_of_def add.assoc)
  next
    case False
    let ?buf = "take d buf @ read_bytes s n r @ drop (d + n) buf"
    have len: "length (read_bytes s n r) = n" using Cons.prems(2) by simp
    have "length ?buf = (d + n) + col_len c + sum_list (map col_len cs)" "take (d + n) ?buf = take d buf @ read_bytes s n r"
      using Cons.prems(4) len by simp_all
    then show ?thesis using Cons.IH [of "col_offset c" "col_len c" c ?buf "d + n"] False Cons.prems c
      by (simp add: copy_run columns_of_def del: copy_runs.simps(2))
  qed
qed

lemma copy_runs_columns:
  assumes "cols_in cs r" "length buf = sum_list (map col_len cs)"
  shows "copy_runs (build_runs (place 0 cs)) r buf = Some (Inr (columns_of cs r))"
proof (cases cs)
  case Nil
  then show ?thesis using assms by (simp add: columns_of_def)
next
  case (Cons c cs')
  then show ?thesis using runs_loop_ok [of cs' r "col_offset c" "col_len c" c buf 0] assms by (simp add: cols_in_def columns_of_def)
qed

lemma place_fst [simp]: "map fst (place off cs) = cs"
  by (induction cs arbitrary: off) simp_all

lemma place_reads:
  assumes "cols_in cs r" "(c, d) \<in> set (place off cs)" "length pre = off"
  shows "read_bytes (col_offset d) (col_len d) (pre @ columns_of cs r) = read_bytes (col_offset c) (col_len c) r"
  using assms
proof (induction cs arbitrary: off pre)
  case (Cons x cs)
  have x: "length (read_bytes (col_offset x) (col_len x) r) = col_len x" "cols_in cs r" using Cons.prems(1) by (simp_all add: cols_in_def)
  show ?case
  proof (cases "(c, d) = (x, x\<lparr>col_offset := off\<rparr>)")
    case True
    then show ?thesis using Cons.prems(3) x(1) by (simp add: columns_of_def read_bytes_def)
  next
    case False
    then have "(c, d) \<in> set (place (off + col_len x) cs)" using Cons.prems(2) by auto
    then show ?thesis using Cons.IH [of "off + col_len x" "pre @ read_bytes (col_offset x) (col_len x) r"] x Cons.prems(3)
      by (simp add: columns_of_def)
  qed
qed simp

subsection \<open>Projections of sources\<close>

definition project_ready :: "ColMeta list \<Rightarrow> ('q \<Rightarrow> bool) \<Rightarrow> ('q \<Rightarrow> bytes option list) \<Rightarrow> 'q \<Rightarrow> bool" where
  "project_ready cs ready rows q \<longleftrightarrow> ready q \<and> (\<forall>r. Some r \<in> set (rows q) \<longrightarrow> cols_in cs r)"

definition project_inv ::
  "ColMeta list \<Rightarrow> ('q \<Rightarrow> bool) \<Rightarrow> ('q \<Rightarrow> 's \<Rightarrow> bool) \<Rightarrow> ('q \<Rightarrow> bytes option list) \<Rightarrow> ('s \<Rightarrow> bytes option list) \<Rightarrow> 'q \<Rightarrow> 's \<Rightarrow> bool" where
  "project_inv cs ready good rows rest q s \<longleftrightarrow> project_ready cs ready rows q \<and> good q s \<and> set (rest s) \<subseteq> set (rows q)"

locale project_of =
  prev: row_source "ex_begin (pj_prev p)" "ex_is_end (pj_prev p)" "ex_next (pj_prev p)" "ex_get (pj_prev p)" ready good rows rest
  for p :: "('q, 's) projection" and ready and good :: "'q \<Rightarrow> 's \<Rightarrow> bool" and rows rest +
  fixes cs :: "ColMeta list"
  assumes runs: "pj_runs p = build_runs (place 0 cs)" and buf: "length (pj_buf p) = sum_list (map col_len cs)"
begin

lemma get_projected:
  assumes "ex_get (pj_prev p) s = Some (Inr r)" "\<forall>x. r = Some x \<longrightarrow> cols_in cs x"
  shows "proj_get p s = Some (Inr (map_option (columns_of cs) r))"
proof (cases r)
  case None
  then show ?thesis using assms(1) by (simp add: proj_get_def)
next
  case (Some x)
  then have "cols_in cs x" using assms(2) by simp
  then show ?thesis using assms(1) Some copy_runs_columns [OF _ buf] by (simp add: proj_get_def runs)
qed

sublocale out: row_source "ex_begin (pj_prev p)" "ex_is_end (pj_prev p)" "ex_next (pj_prev p)" "proj_get p" "project_ready cs ready rows"
  "project_inv cs ready good rows rest" "\<lambda>q. map (map_option (columns_of cs)) (rows q)" "\<lambda>s. map (map_option (columns_of cs)) (rest s)"
proof unfold_locales
  show "\<exists>s. ex_begin (pj_prev p) q = Some (Inr s) \<and> project_inv cs ready good rows rest q s \<and>
      map (map_option (columns_of cs)) (rest s) = map (map_option (columns_of cs)) (rows q)" if q: "project_ready cs ready rows q" for q
  proof -
    obtain s where "ex_begin (pj_prev p) q = Some (Inr s)" "good q s" "rest s = rows q"
      using prev.begin_ok q unfolding project_ready_def by blast
    then show ?thesis using q by (auto simp: project_inv_def)
  qed
  show "ex_is_end (pj_prev p) s \<longleftrightarrow> map (map_option (columns_of cs)) (rest s) = []" if "project_inv cs ready good rows rest q s" for q s
    using that prev.end_iff by (auto simp: project_inv_def)
  fix q s x xs
  assume i: "project_inv cs ready good rows rest q s" and r: "map (map_option (columns_of cs)) (rest s) = x # xs"
  obtain r0 rs where r0: "rest s = r0 # rs" "x = map_option (columns_of cs) r0" "xs = map (map_option (columns_of cs)) rs" using r by auto
  have k: "good q s" "\<forall>y. r0 = Some y \<longrightarrow> cols_in cs y" using i r0(1) by (auto simp: project_inv_def project_ready_def)
  show "proj_get p s = Some (Inr x)" using get_projected [OF prev.get_ok [OF k(1) r0(1)] k(2)] r0(2) by simp
  show "\<exists>s'. ex_next (pj_prev p) s = Some (Inr s') \<and> project_inv cs ready good rows rest q s' \<and> map (map_option (columns_of cs)) (rest s') = xs"
    using prev.next_ok [OF k(1) r0(1)] i r0 by (fastforce simp: project_inv_def)
qed

end

lemma project_on_simps [simp]:
  "pj_prev (project_on x junk cs) = x" "pj_runs (project_on x junk cs) = build_runs (place 0 cs)"
  "length (pj_buf (project_on x junk cs)) = sum_list (map col_len cs)" "pj_cols (project_on x junk cs) = place 0 cs"
  by (simp_all add: project_on_def Let_def)

interpretation scan_projection: project_of "project_on (seq_exec q) junk cs" seq_ready seq_inv seq_rows seq_rest cs for q junk cs
  unfolding project_of_def project_of_axioms_def by (simp add: seq_exec_def seq_source.row_source_axioms)

interpretation join_projection: project_of "project_on (join_exec (join_scans q1 q2 conds k)) junk cs"
  "join_ready (join_scans q1 q2 conds k) seq_ready seq_rows seq_ready seq_rows"
  "join_inv (join_scans q1 q2 conds k) seq_ready seq_inv seq_rows seq_rest seq_ready seq_inv seq_rows seq_rest"
  "\<lambda>q. join_rows (join_scans q1 q2 conds k) (pairs (seq_rows (fst q)) (seq_rows (fst (snd q))))"
  "join_rest (join_scans q1 q2 conds k) seq_rows seq_rest seq_rest" cs for q1 q2 conds k junk cs
  unfolding project_of_def project_of_axioms_def by (simp add: join_exec_def two_scans.both.row_source_axioms)

subsection \<open>Properties\<close>

text \<open>C38: a projection, which copies runs of neighbouring columns at once, returns for a row the bytes of the selected columns one after
  the other, whatever its buffer held before, and each column of the output holds what the column it was selected from holds
  in the row.\<close>

theorem projection_copies_columns:
  assumes "new_projection prev sel junk = Inr p" "ex_get prev s = Some (Inr (Some r))" "cols_in (map fst (pj_cols p)) r"
  shows "\<exists>out. proj_get p s = Some (Inr (Some out)) \<and> out = columns_of (map fst (pj_cols p)) r \<and>
    (\<forall>(c, d) \<in> set (pj_cols p). read_bytes (col_offset d) (col_len d) out = read_bytes (col_offset c) (col_len c) r)"
proof -
  obtain cs where p: "p = project_on prev junk cs" using assms(1) by (auto simp: new_projection_def split: sum.splits)
  then have cs: "cols_in cs r" using assms(3) by simp
  have "proj_get p s = Some (Inr (Some (columns_of cs r)))"
    using assms(2) copy_runs_columns [OF cs, of "pj_buf (project_on prev junk cs)"] by (simp add: p proj_get_def)
  then show ?thesis using place_reads [OF cs, of _ _ 0 "[]"] by (auto simp: p)
qed

definition example_exec_row :: "(unit, unit) executor" where
  "example_exec_row = \<lparr>ex_begin = (\<lambda>q. Some (Inr ())), ex_is_end = (\<lambda>s. False), ex_next = (\<lambda>s. Some (Inr ())),
     ex_get = (\<lambda>s. Some (Inr (Some (enc_i32 7 @ enc_i32 8)))), ex_cols = [example_col ''a'' 0, example_col ''b'' 4], ex_len = 8, ex_shared = False\<rparr>"

theorem projection_copies_columns_witness:
  "\<exists>p. new_projection example_exec_row [\<lparr>tc_tab_name = ''t'', tc_col_name = ''b''\<rparr>] [] = Inr p \<and> proj_get p () = Some (Inr (Some (enc_i32 8)))"
proof -
  have p: "new_projection example_exec_row [\<lparr>tc_tab_name = ''t'', tc_col_name = ''b''\<rparr>] [] = Inr (project_on example_exec_row [] [example_col ''b'' 4])"
    by (simp add: new_projection_def select_cols_def is_agg_output_def get_col_def example_col_def example_exec_row_def)
  have c: "cols_in [example_col ''b'' 4] (enc_i32 7 @ enc_i32 8)" "columns_of [example_col ''b'' 4] (enc_i32 7 @ enc_i32 8) = enc_i32 8"
    by (simp_all add: cols_in_def columns_of_def example_col_def read_bytes_def)
  show ?thesis using projection_copies_columns [OF p, of "()" "enc_i32 7 @ enc_i32 8"] c p by (simp add: example_exec_row_def)
qed

text \<open>C10: a query that selects columns from the join of two tables returns the selected columns of exactly those pairs of rows that the two scans
  find and that satisfy the join conditions: the scans, the join and the projection work together through their methods only.\<close>

theorem select_project_join:
  assumes scans: "seq_ready (q1, f1)" "seq_ready (q2, f2)"
    and fuel: "length (seq_rows (q1, f1)) * length (seq_rows (q2, f2)) < k" "length (seq_rows (q1, f1)) * length (seq_rows (q2, f2)) < n"
    and ok: "\<forall>a \<in> set (seq_rows (q1, f1)). \<forall>b \<in> set (seq_rows (q2, f2)). pair_ok (join_scans q1 q2 conds k) a b"
    and p: "new_projection (join_exec (join_scans q1 q2 conds k)) sel junk = Inr p"
    and cols: "\<forall>c \<in> set (map fst (pj_cols p)). col_offset c + col_len c \<le> join_len (join_scans q1 q2 conds k)"
  shows "run_source (ex_begin (proj_exec p)) (ex_is_end (proj_exec p)) (ex_next (proj_exec p)) (ex_get (proj_exec p)) n ((q1, f1), (q2, f2), False) =
    Some (Inr (map (map_option (columns_of (map fst (pj_cols p))) \<circ> join_row (join_scans q1 q2 conds k))
      (filter (join_hit (join_scans q1 q2 conds k)) (pairs (seq_rows (q1, f1)) (seq_rows (q2, f2))))))"
proof -
  let ?j = "join_scans q1 q2 conds k" and ?q = "((q1, f1), (q2, f2), False)"
  let ?ps = "pairs (seq_rows (q1, f1)) (seq_rows (q2, f2))"
  obtain cs where p': "p = project_on (join_exec ?j) junk cs" using p by (auto simp: new_projection_def split: sum.splits)
  have ready: "join_ready ?j seq_ready seq_rows seq_ready seq_rows ?q" using scans fuel(1) ok by (simp add: join_ready_def join_scans_def)
  have "cols_in cs r" if row: "Some r \<in> set (join_rows ?j ?ps)" for r
  proof -
    obtain pr where pr: "pr \<in> set ?ps" "join_hit ?j pr" "Some r = join_row ?j pr" using row by (auto simp: join_rows_def)
    obtain a b where "pr = (a, b)" by (cases pr)
    then have ab: "(a, b) \<in> set ?ps" "join_hit ?j (a, b)" "Some r = join_row ?j (a, b)" using pr by simp_all
    obtain x y where xy: "a = Some x" "b = Some y" using ab(2) by (auto simp: join_hit_def join_predict_def split: option.splits)
    have "pair_ok ?j a b" using ab(1) ok by (auto simp: pairs_def)
    then have "length r = join_len ?j" using ab(3) xy by (simp add: join_row_def join_len_def pair_ok_def)
    then show ?thesis using cols by (simp add: cols_in_def p')
  qed
  then have "project_ready cs (join_ready ?j seq_ready seq_rows seq_ready seq_rows) (\<lambda>q. join_rows ?j (pairs (seq_rows (fst q)) (seq_rows (fst (snd q))))) ?q"
    using ready by (simp add: project_ready_def)
  moreover have "length (join_rows ?j ?ps) < n" using le_less_trans [OF length_filter_le fuel(2) [folded pairs_length]] by (simp add: join_rows_def)
  ultimately show ?thesis using join_projection.out.run_ok [of cs q1 q2 conds k ?q n junk] by (simp add: p' proj_exec_def join_rows_def)
qed

theorem select_project_join_witness:
  "\<exists>rid f p. insert_record (enc_i32 7) None (example_file 4) = (Inr rid, f) \<and>
     new_projection (join_exec (join_scans example_scan example_scan [example_join_cond OP_GE] 2)) [\<lparr>tc_tab_name = ''t'', tc_col_name = ''a''\<rparr>] [] = Inr p \<and>
     run_source (ex_begin (proj_exec p)) (ex_is_end (proj_exec p)) (ex_next (proj_exec p)) (ex_get (proj_exec p)) 2 ((example_scan, f), (example_scan, f), False) =
     Some (Inr [Some (enc_i32 7)])"
proof -
  let ?j = "join_scans example_scan example_scan [example_join_cond OP_GE] 2" and ?c = "example_col ''a'' 0"
  let ?p = "project_on (join_exec ?j) [] [?c]"
  obtain rid f where f: "insert_record (enc_i32 7) None (example_file 4) = (Inr rid, f)" "file_inv f" "room f" "file_records f = [rid \<mapsto> enc_i32 7]"
    by (rule one_row_file)
  have s: "seq_ready (example_scan, f)" "seq_rows (example_scan, f) = [Some (enc_i32 7)]"
    using one_row_scan [OF f(2,3,4), of example_scan] by (simp_all add: example_scan_def)
  have len: "ex_len (jn_left ?j) = 4" "ex_len (jn_right ?j) = 4" by (simp_all add: join_scans_def seq_exec_def example_scan_def proj_len_def example_col_def)
  have p: "new_projection (join_exec ?j) [\<lparr>tc_tab_name = ''t'', tc_col_name = ''a''\<rparr>] [] = Inr ?p"
    by (simp add: new_projection_def select_cols_def is_agg_output_def join_exec_def join_cols_def join_scans_def seq_exec_def example_scan_def proj_len_def
        get_col_def example_col_def)
  have "pair_ok ?j (Some (enc_i32 7)) (Some (enc_i32 7))" using example_predict len by (auto simp: pair_ok_def)
  moreover have "join_hit ?j (Some (enc_i32 7), Some (enc_i32 7))" using example_predict by (simp add: join_hit_def)
  moreover have "columns_of [?c] (enc_i32 7 @ enc_i32 7) = enc_i32 7" by (simp add: columns_of_def example_col_def read_bytes_def)
  moreover have "col_offset ?c + col_len ?c \<le> join_len ?j" using len by (simp add: join_len_def example_col_def)
  ultimately have "run_source (ex_begin (proj_exec ?p)) (ex_is_end (proj_exec ?p)) (ex_next (proj_exec ?p)) (ex_get (proj_exec ?p)) 2
      ((example_scan, f), (example_scan, f), False) = Some (Inr [Some (enc_i32 7)])"
    using select_project_join [OF s(1) s(1) _ _ _ p, of 2] len by (simp add: s(2) join_row_def)
  then show ?thesis using f(1) p by blast
qed

end
