(* ===== verification/Exec_Sort.thy ===== *)
theory Exec_Sort
  imports Exec_Project "HOL-Library.Multiset"
begin

text \<open>
  The sort executor with its limit (\<^verbatim>\<open>src/src/execution/execution_sort.h\<close>). \<^verbatim>\<open>std::sort\<close> is a parameter \<open>srt\<close>: what the standard says of it,
  that it orders a range by a strict weak order, is the locale \<open>std_sort\<close>, which insertion sort shows to be satisfiable.

  Shown: the comparison of two rows is a strict weak order when no float is a NaN; a sort of a sequential scan returns the first
  rows of an ordered permutation of the rows, as many as the limit says; and a sort of an executor that reuses its output
  buffer, such as a join, returns copies of one row.
\<close>

subsection \<open>Model\<close>

definition compare_strings :: "bytes \<Rightarrow> bytes \<Rightarrow> int" where
  "compare_strings a b = (if a = b then 0 else if str_less a b then -1 else 1)"

definition sort_compare :: "ColMeta \<Rightarrow> bytes \<Rightarrow> bytes \<Rightarrow> int checked" where
  "sort_compare c a b =
     (case col_type c of
        TYPE_INT \<Rightarrow> chk (load (col_offset c) 4 a) (\<lambda>x. chk (load (col_offset c) 4 b) (\<lambda>y.
          Some (Inr (compare_three_way (dec_i32 x = dec_i32 y) (dec_i32 x < dec_i32 y)))))
      | TYPE_FLOAT \<Rightarrow> chk (load (col_offset c) 4 a) (\<lambda>x. chk (load (col_offset c) 4 b) (\<lambda>y. Some (Inr (compare_three_way (f32_eq x y) (f32_less x y)))))
      | TYPE_STRING \<Rightarrow> chk (load (col_offset c) (col_len c) a) (\<lambda>x. chk (load (col_offset c) (col_len c) b) (\<lambda>y.
          Some (Inr (compare_strings (c_str x) (c_str y))))))"

text \<open>The columns with their directions; \<^verbatim>\<open>is_desc_[i]\<close> is read only when a column decides.\<close>

fun compare_tuples :: "ColMeta list \<Rightarrow> bool list \<Rightarrow> bytes \<Rightarrow> bytes \<Rightarrow> bool checked" where
  "compare_tuples [] ds a b = Some (Inr False)"
| "compare_tuples (c # cs) ds a b =
     chk (sort_compare c a b) (\<lambda>k.
       if k = 0 then compare_tuples cs (tl ds) a b
       else case ds of [] \<Rightarrow> None | d # _ \<Rightarrow> Some (Inr (if d then k > 0 else k < 0)))"

definition tuple_less :: "ColMeta list \<Rightarrow> bool list \<Rightarrow> bytes \<Rightarrow> bytes \<Rightarrow> bool" where
  "tuple_less cs ds a b \<longleftrightarrow> compare_tuples cs ds a b = Some (Inr True)"

record ('q, 's) sort_exec =
  so_prev :: "('q, 's) executor"
  so_cols :: "ColMeta list"
  so_desc :: "bool list"
  so_limit :: int
  so_fuel :: nat

definition new_sort :: "('q, 's) executor \<Rightarrow> TabCol list \<Rightarrow> bool list \<Rightarrow> int \<Rightarrow> nat \<Rightarrow> db_error + ('q, 's) sort_exec" where
  "new_sort prev sel desc limit n =
     (case get_cols (ex_cols prev) sel of
        Inl e \<Rightarrow> Inl e
      | Inr cs \<Rightarrow> Inr \<lparr>so_prev = prev, so_cols = cs, so_desc = desc, so_limit = limit, so_fuel = n\<rparr>)"

text \<open>The records that are kept while the executor below goes on: when they point to its buffer, all of them hold what the
  last call of \<^verbatim>\<open>Next\<close> has put there.\<close>

definition kept :: "bool \<Rightarrow> bytes option list \<Rightarrow> bytes option list" where
  "kept shared rs = (if shared then (let ps = filter (\<lambda>r. r \<noteq> None) rs in map (\<lambda>r. if r = None then None else last ps) rs) else rs)"

text \<open>The result of \<^verbatim>\<open>std::sort\<close> with \<open>srt\<close>: a null record or a record that is too short is read by the comparison.\<close>

definition sort_rows :: "((bytes \<Rightarrow> bytes \<Rightarrow> bool) \<Rightarrow> bytes list \<Rightarrow> bytes list) \<Rightarrow> ColMeta list \<Rightarrow> bool list \<Rightarrow> bytes option list \<Rightarrow> bytes option list checked" where
  "sort_rows srt cs ds rs =
     (if length rs < 2 then Some (Inr rs)
      else case those rs of
             None \<Rightarrow> None
           | Some xs \<Rightarrow>
               if list_all (\<lambda>a. list_all (\<lambda>b. case compare_tuples cs ds a b of Some (Inr _) \<Rightarrow> True | _ \<Rightarrow> False) xs) xs
               then Some (Inr (map Some (srt (tuple_less cs ds) xs))) else None)"

text \<open>The state: the sorted rows, the current index, and the end mark.\<close>

type_synonym sort_state = "bytes option list \<times> nat \<times> bool"

definition sort_begin :: "((bytes \<Rightarrow> bytes \<Rightarrow> bool) \<Rightarrow> bytes list \<Rightarrow> bytes list) \<Rightarrow> ('q, 's) sort_exec \<Rightarrow> 'q \<Rightarrow> sort_state checked" where
  "sort_begin srt x q =
     (let prev = so_prev x
      in chk (run_source (ex_begin prev) (ex_is_end prev) (ex_next prev) (ex_get prev) (so_fuel x) q) (\<lambda>rs.
           let rs = kept (ex_shared prev) rs
           in if rs = [] then Some (Inr ([], 0, True))
              else chk (sort_rows srt (so_cols x) (so_desc x) rs) (\<lambda>rs.
                Some (Inr (if 0 < so_limit x \<and> nat (so_limit x) < length rs then take (nat (so_limit x)) rs else rs, 0, False)))))"

definition sort_is_end :: "sort_state \<Rightarrow> bool" where
  "sort_is_end s = snd (snd s)"

definition sort_next :: "sort_state \<Rightarrow> sort_state checked" where
  "sort_next s = (let (rs, i, e) = s in Some (Inr (if e then s else (rs, i + 1, length rs \<le> i + 1))))"

text \<open>\<^verbatim>\<open>Next\<close> copies the record, also a null one.\<close>

definition sort_get :: "sort_state \<Rightarrow> bytes option checked" where
  "sort_get s = (let (rs, i, e) = s in if e then Some (Inr None) else if i < length rs then (case rs ! i of None \<Rightarrow> None | Some r \<Rightarrow> Some (Inr (Some r))) else None)"

subsection \<open>The order of rows\<close>

text \<open>What a range is sorted by: each comparison is defined, and incomparability is transitive.\<close>

definition strict_weak :: "('a \<Rightarrow> 'a \<Rightarrow> bool) \<Rightarrow> 'a set \<Rightarrow> bool" where
  "strict_weak lt A \<longleftrightarrow>
     (\<forall>x \<in> A. \<not> lt x x) \<and> (\<forall>x \<in> A. \<forall>y \<in> A. \<forall>z \<in> A. lt x y \<longrightarrow> lt y z \<longrightarrow> lt x z) \<and>
     (\<forall>x \<in> A. \<forall>y \<in> A. \<forall>z \<in> A. \<not> lt x y \<longrightarrow> \<not> lt y z \<longrightarrow> \<not> lt x z)"

locale std_sort =
  fixes srt :: "(bytes \<Rightarrow> bytes \<Rightarrow> bool) \<Rightarrow> bytes list \<Rightarrow> bytes list"
  assumes sorts: "strict_weak lt (set xs) \<Longrightarrow> mset (srt lt xs) = mset xs \<and> sorted_wrt (\<lambda>x y. \<not> lt y x) (srt lt xs)"

fun insert_by :: "('a \<Rightarrow> 'a \<Rightarrow> bool) \<Rightarrow> 'a \<Rightarrow> 'a list \<Rightarrow> 'a list" where
  "insert_by lt x [] = [x]"
| "insert_by lt x (y # ys) = (if lt y x then y # insert_by lt x ys else x # y # ys)"

definition insertion_sort :: "('a \<Rightarrow> 'a \<Rightarrow> bool) \<Rightarrow> 'a list \<Rightarrow> 'a list" where
  "insertion_sort lt xs = foldr (insert_by lt) xs []"

lemma insert_by_mset: "mset (insert_by lt x ys) = add_mset x (mset ys)"
  by (induction ys) simp_all

lemma insert_by_set: "set (insert_by lt x ys) = insert x (set ys)"
  using insert_by_mset [of lt x ys] by (metis set_mset_add_mset_insert set_mset_mset)

lemma insert_by_sorted:
  assumes "strict_weak lt A" "x \<in> A" "set ys \<subseteq> A" "sorted_wrt (\<lambda>x y. \<not> lt y x) ys"
  shows "sorted_wrt (\<lambda>x y. \<not> lt y x) (insert_by lt x ys)"
  using assms(3,4)
proof (induction ys)
  case (Cons y ys)
  have y: "y \<in> A" "set ys \<subseteq> A" "\<forall>z \<in> set ys. \<not> lt z y" using Cons.prems by auto
  show ?case
  proof (cases "lt y x")
    case True
    then have "\<not> lt x y" using assms(1,2) y(1) unfolding strict_weak_def by blast
    then show ?thesis using Cons True by (auto simp: insert_by_set)
  next
    case False
    have "\<not> lt z x" if "z \<in> set ys" for z using assms(1,2) y that False unfolding strict_weak_def by blast
    then show ?thesis using Cons.prems False by auto
  qed
qed simp

interpretation insertion: std_sort insertion_sort
proof unfold_locales
  fix lt :: "bytes \<Rightarrow> bytes \<Rightarrow> bool" and xs
  assume sw: "strict_weak lt (set xs)"
  have "mset (foldr (insert_by lt) ys []) = mset ys \<and> sorted_wrt (\<lambda>x y. \<not> lt y x) (foldr (insert_by lt) ys [])" if "set ys \<subseteq> set xs" for ys
    using that
  proof (induction ys)
    case (Cons y ys)
    then have i: "mset (foldr (insert_by lt) ys []) = mset ys" "sorted_wrt (\<lambda>x y. \<not> lt y x) (foldr (insert_by lt) ys [])" by auto
    have "set (foldr (insert_by lt) ys []) \<subseteq> set xs" using i(1) Cons.prems by (metis insert_subset list.simps(15) mset_eq_setD)
    then show ?case using i insert_by_sorted [OF sw _ _ i(2), of y] Cons.prems by (simp add: insert_by_mset)
  qed simp
  then show "mset (insertion_sort lt xs) = mset xs \<and> sorted_wrt (\<lambda>x y. \<not> lt y x) (insertion_sort lt xs)" by (simp add: insertion_sort_def)
qed

text \<open>A row has the columns of the order, and no float among them is a NaN.\<close>

definition sort_fits :: "ColMeta list \<Rightarrow> bytes \<Rightarrow> bool" where
  "sort_fits cs r \<longleftrightarrow> (\<forall>c \<in> set cs. col_fits c r \<and> no_nan (col_value c r))"

text \<open>The order of \<^verbatim>\<open>ORDER BY\<close>: the first column whose values differ decides, in its direction.\<close>

fun tuple_before :: "ColMeta list \<Rightarrow> bool list \<Rightarrow> bytes \<Rightarrow> bytes \<Rightarrow> bool" where
  "tuple_before (c # cs) (d # ds) a b \<longleftrightarrow>
     (let x = value_rank (col_value c a); y = value_rank (col_value c b)
      in if x = y then tuple_before cs ds a b else if d then y < x else x < y)"
| "tuple_before _ _ a b \<longleftrightarrow> False"

lemma sort_compare_value:
  assumes f: "col_fits c a" "col_fits c b" and nn: "no_nan (col_value c a)" "no_nan (col_value c b)"
  shows "\<exists>k. sort_compare c a b = Some (Inr k) \<and> (k < 0 \<longleftrightarrow> value_rank (col_value c a) < value_rank (col_value c b)) \<and>
    (k = 0 \<longleftrightarrow> value_rank (col_value c a) = value_rank (col_value c b))"
proof -
  have l: "load (col_offset c) (col_len c) a = Some (Inr (col_bytes c a))" "load (col_offset c) (col_len c) b = Some (Inr (col_bytes c b))"
    using f by (simp_all add: load_def col_fits_def col_bytes_def)
  have n: "col_type c \<noteq> TYPE_STRING \<longrightarrow> col_len c = 4" using f by (simp add: col_fits_def)
  note rank = col_value_rank [OF f(1)] col_value_rank [OF f(2)]
  show ?thesis
  proof (cases "col_type c")
    case TYPE_INT
    then show ?thesis using l n rank by (simp add: sort_compare_def three_way_sign)
  next
    case TYPE_FLOAT
    have "\<not> f32_nan (col_bytes c a)" "\<not> f32_nan (col_bytes c b)"
      using nn TYPE_FLOAT col_value_float [OF f(1)] col_value_float [OF f(2)] by (simp_all add: no_nan_def)
    then show ?thesis using TYPE_FLOAT l n rank by (simp add: sort_compare_def three_way_sign f32_eq_def f32_less_def)
  next
    case TYPE_STRING
    then show ?thesis using l rank by (simp add: sort_compare_def compare_strings_def str_less_lex map_uint_inj)
  qed
qed

lemma compare_tuples_before:
  assumes "sort_fits cs a" "sort_fits cs b" "length cs \<le> length ds"
  shows "compare_tuples cs ds a b = Some (Inr (tuple_before cs ds a b))"
  using assms
proof (induction cs arbitrary: ds)
  case (Cons c cs)
  obtain d ds' where ds: "ds = d # ds'" using Cons.prems(3) by (cases ds) auto
  have f: "col_fits c a" "col_fits c b" "no_nan (col_value c a)" "no_nan (col_value c b)" using Cons.prems by (simp_all add: sort_fits_def)
  obtain k where k: "sort_compare c a b = Some (Inr k)" "k < 0 \<longleftrightarrow> value_rank (col_value c a) < value_rank (col_value c b)"
    "k = 0 \<longleftrightarrow> value_rank (col_value c a) = value_rank (col_value c b)" using sort_compare_value [OF f] by blast
  have "compare_tuples cs ds' a b = Some (Inr (tuple_before cs ds' a b))"
    by (rule Cons.IH) (use Cons.prems ds in \<open>auto simp: sort_fits_def\<close>)
  then show ?case using k by (auto simp: ds Let_def)
qed simp

lemma tuple_before_irrefl: "\<not> tuple_before cs ds a a"
proof (induction cs arbitrary: ds)
  case (Cons c cs)
  then show ?case by (cases ds) simp_all
qed simp

lemma tuple_before_trans: "tuple_before cs ds a b \<Longrightarrow> tuple_before cs ds b c \<Longrightarrow> tuple_before cs ds a c"
  by (induction cs ds a b rule: tuple_before.induct) (auto simp: Let_def split: if_splits)

lemma tuple_before_weak: "\<not> tuple_before cs ds a b \<Longrightarrow> \<not> tuple_before cs ds b c \<Longrightarrow> \<not> tuple_before cs ds a c"
  by (induction cs ds a b rule: tuple_before.induct) (auto simp: Let_def split: if_splits)

lemma strict_weak_before: "strict_weak (tuple_before cs ds) A"
  unfolding strict_weak_def using tuple_before_irrefl tuple_before_trans tuple_before_weak by blast

lemma tuple_less_before: "sort_fits cs a \<Longrightarrow> sort_fits cs b \<Longrightarrow> length cs \<le> length ds \<Longrightarrow> tuple_less cs ds a b \<longleftrightarrow> tuple_before cs ds a b"
  by (simp add: tuple_less_def compare_tuples_before)

lemma strict_weak_cong: "(\<And>x y. x \<in> A \<Longrightarrow> y \<in> A \<Longrightarrow> f x y = g x y) \<Longrightarrow> strict_weak f A = strict_weak g A"
  unfolding strict_weak_def by auto

lemma strict_weak_less:
  assumes "\<forall>r \<in> A. sort_fits cs r" "length cs \<le> length ds"
  shows "strict_weak (tuple_less cs ds) A"
  using strict_weak_before [of cs ds A] strict_weak_cong [of A "tuple_less cs ds" "tuple_before cs ds"] tuple_less_before assms by blast

subsection \<open>What a sort returns\<close>

lemma those_map_Some: "those (map Some xs) = Some xs"
  by (induction xs) simp_all

context std_sort
begin

lemma sort_rows_ok:
  assumes "\<forall>r \<in> set xs. sort_fits cs r" "length cs \<le> length ds"
  shows "\<exists>ys. sort_rows srt cs ds (map Some xs) = Some (Inr (map Some ys)) \<and> mset ys = mset xs \<and> sorted_wrt (\<lambda>x y. \<not> tuple_before cs ds y x) ys"
proof (cases "length xs < 2")
  case True
  then have "sorted_wrt (\<lambda>x y. \<not> tuple_before cs ds y x) xs" by (cases xs) auto
  then show ?thesis using True by (intro exI [of _ xs]) (simp add: sort_rows_def)
next
  case False
  let ?ys = "srt (tuple_less cs ds) xs"
  have s: "mset ?ys = mset xs" "sorted_wrt (\<lambda>x y. \<not> tuple_less cs ds y x) ?ys" using sorts [OF strict_weak_less [OF assms]] by simp_all
  have set: "set ?ys = set xs" using s(1) by (metis mset_eq_setD)
  have "sorted_wrt (\<lambda>x y. \<not> tuple_before cs ds y x) ?ys"
    using s(2) by (rule sorted_wrt_mono_rel [rotated]) (use set assms tuple_less_before in blast)
  moreover have "list_all (\<lambda>a. list_all (\<lambda>b. case compare_tuples cs ds a b of Some (Inr _) \<Rightarrow> True | _ \<Rightarrow> False) xs) xs"
    using assms by (simp add: list_all_iff compare_tuples_before)
  ultimately show ?thesis using False s(1) by (intro exI [of _ ?ys]) (simp add: sort_rows_def those_map_Some)
qed

end

lemma sort_drain:
  assumes "i < length rs" "length rs - i < n"
  shows "drain sort_is_end sort_next sort_get n (map Some rs, i, False) = Some (Inr (map Some (drop i rs)))"
  using assms
proof (induction n arbitrary: i)
  case (Suc n)
  have drop: "drop i rs = rs ! i # drop (i + 1) rs" using Suc.prems(1) by (simp add: Cons_nth_drop_Suc)
  have get: "sort_get (map Some rs, i, False) = Some (Inr (Some (rs ! i)))" using Suc.prems(1) by (simp add: sort_get_def)
  show ?case
  proof (cases "i + 1 < length rs")
    case True
    then show ?thesis using Suc get drop by (simp add: sort_is_end_def sort_next_def)
  next
    case False
    then have "drop (i + 1) rs = []" by simp
    moreover obtain m where "n = Suc m" using Suc.prems by (cases n) auto
    ultimately show ?thesis using False get drop by (simp add: sort_is_end_def sort_next_def)
  qed
qed simp

definition limited :: "int \<Rightarrow> 'a list \<Rightarrow> 'a list" where
  "limited k rs = (if 0 < k then take (nat k) rs else rs)"

lemma sort_run:
  assumes "std_sort srt" and prev: "run_source (ex_begin (so_prev x)) (ex_is_end (so_prev x)) (ex_next (so_prev x)) (ex_get (so_prev x)) (so_fuel x) q = Some (Inr rs)"
    and xs: "kept (ex_shared (so_prev x)) rs = map Some xs" and fits: "\<forall>r \<in> set xs. sort_fits (so_cols x) r" "length (so_cols x) \<le> length (so_desc x)"
    and n: "length rs < n"
  shows "\<exists>ys. mset ys = mset xs \<and> sorted_wrt (\<lambda>a b. \<not> tuple_before (so_cols x) (so_desc x) b a) ys \<and>
    run_source (sort_begin srt x) sort_is_end sort_next sort_get n q = Some (Inr (map Some (limited (so_limit x) ys)))"
proof -
  obtain ys where ys: "sort_rows srt (so_cols x) (so_desc x) (map Some xs) = Some (Inr (map Some ys))" "mset ys = mset xs"
    "sorted_wrt (\<lambda>a b. \<not> tuple_before (so_cols x) (so_desc x) b a) ys"
    using std_sort.sort_rows_ok [OF assms(1) fits] by blast
  have len: "length ys = length xs" "length xs = length rs"
    using ys(2) arg_cong [OF xs, of length] by (auto simp: kept_def Let_def dest: mset_eq_length split: if_splits)
  show ?thesis
  proof (cases "xs = []")
    case True
    then have "sort_begin srt x q = Some (Inr ([], 0, True))" using prev xs by (simp add: sort_begin_def)
    moreover obtain m where "n = Suc m" using n by (cases n) auto
    ultimately show ?thesis using True by (intro exI [of _ "[]"]) (simp add: run_source_def sort_is_end_def limited_def)
  next
    case False
    let ?zs = "limited (so_limit x) ys"
    have "sort_begin srt x q = Some (Inr (map Some ?zs, 0, False))" using prev xs False ys(1) by (simp add: sort_begin_def limited_def Let_def take_map)
    moreover have "0 < length ?zs" "length ?zs < n" using False len n by (auto simp: limited_def)
    ultimately have "run_source (sort_begin srt x) sort_is_end sort_next sort_get n q = Some (Inr (map Some ?zs))"
      using sort_drain [of 0 ?zs n] by (simp add: run_source_def)
    then show ?thesis using ys(2,3) by blast
  qed
qed

lemma kept_owned: "kept False rs = rs"
  by (simp add: kept_def)

subsection \<open>Properties\<close>

text \<open>C14: \<^verbatim>\<open>ORDER BY\<close> with and without \<^verbatim>\<open>LIMIT\<close>: a sort of an executor whose records are its own returns, of a permutation of the rows that is
  ordered by the columns, each in its direction, the first rows, as many as a positive limit says, and all of them for the limit -1, which
  stands for none, whatever the order of rows that agree on the columns. The rows have the columns, without NaNs, and each column a direction. A limit of 0 is another matter (\<open>limit_zero_returns_all\<close>).\<close>

theorem order_by_limit:
  assumes "std_sort srt" "\<not> ex_shared (so_prev x)" "so_limit x = -1 \<or> 0 < so_limit x"
    and "run_source (ex_begin (so_prev x)) (ex_is_end (so_prev x)) (ex_next (so_prev x)) (ex_get (so_prev x)) (so_fuel x) q = Some (Inr (map Some xs))"
    and "\<forall>r \<in> set xs. sort_fits (so_cols x) r" "length (so_cols x) \<le> length (so_desc x)" "length xs < n"
  shows "\<exists>ys. mset ys = mset xs \<and> sorted_wrt (\<lambda>a b. \<not> tuple_before (so_cols x) (so_desc x) b a) ys \<and>
    run_source (sort_begin srt x) sort_is_end sort_next sort_get n q = Some (Inr (map Some (if so_limit x = -1 then ys else take (nat (so_limit x)) ys)))"
proof -
  have "limited (so_limit x) ys = (if so_limit x = -1 then ys else take (nat (so_limit x)) ys)" for ys :: "bytes list" using assms(3) by (auto simp: limited_def)
  then show ?thesis using sort_run [OF assms(1,4)] assms by (simp add: kept_owned)
qed

text \<open>\<^verbatim>\<open>LIMIT 0\<close> returns every row: the code takes any limit that is not positive for none, where its comments say that -1 is.\<close>

lemma limit_zero_returns_all:
  assumes "std_sort srt" "\<not> ex_shared (so_prev x)" "so_limit x = 0"
    and "run_source (ex_begin (so_prev x)) (ex_is_end (so_prev x)) (ex_next (so_prev x)) (ex_get (so_prev x)) (so_fuel x) q = Some (Inr (map Some xs))"
    and "\<forall>r \<in> set xs. sort_fits (so_cols x) r" "length (so_cols x) \<le> length (so_desc x)" "length xs < n"
  shows "\<exists>ys. mset ys = mset xs \<and> run_source (sort_begin srt x) sort_is_end sort_next sort_get n q = Some (Inr (map Some ys))"
  using sort_run [OF assms(1,4), of xs n] assms by (auto simp: kept_owned limited_def)

text \<open>A sort of a join, or of another executor that reuses its output buffer: the rows it has kept all point to the buffer.\<close>

lemma kept_shared: "kept True (map Some xs) = map (\<lambda>_. Some (last xs)) xs"
proof -
  have "filter (\<lambda>r. r \<noteq> None) (map Some xs) = map Some xs" by (simp add: filter_map o_def)
  then show ?thesis by (cases "xs = []") (simp_all add: kept_def last_map o_def)
qed

lemma sort_over_shared_repeats:
  assumes "std_sort srt" "ex_shared (so_prev x)"
    and prev: "run_source (ex_begin (so_prev x)) (ex_is_end (so_prev x)) (ex_next (so_prev x)) (ex_get (so_prev x)) (so_fuel x) q = Some (Inr (map Some xs))"
    and fits: "xs \<noteq> []" "sort_fits (so_cols x) (last xs)" "length (so_cols x) \<le> length (so_desc x)" "length xs < n"
  shows "\<exists>k. run_source (sort_begin srt x) sort_is_end sort_next sort_get n q = Some (Inr (replicate k (Some (last xs))))"
proof -
  let ?zs = "map (\<lambda>_. last xs) xs"
  have keep: "kept (ex_shared (so_prev x)) (map Some xs) = map Some ?zs" using assms(2) by (simp add: kept_shared)
  have "\<forall>r \<in> set ?zs. sort_fits (so_cols x) r" using fits(2) by auto
  then obtain ys where ys: "mset ys = mset ?zs" "run_source (sort_begin srt x) sort_is_end sort_next sort_get n q = Some (Inr (map Some (limited (so_limit x) ys)))"
    using sort_run [OF assms(1) prev keep _ fits(3), of n] fits(4) by auto
  have "\<forall>y \<in> set (limited (so_limit x) ys). y = last xs"
    using mset_eq_setD [OF ys(1)] by (auto simp: limited_def dest: in_set_takeD split: if_splits)
  then have "map Some (limited (so_limit x) ys) = replicate (length (limited (so_limit x) ys)) (Some (last xs))"
    by (intro replicate_eqI) auto
  then show ?thesis using ys(2) by metis
qed

definition example_sort :: "(seq_scan \<times> rm_file, seq_state) sort_exec" where
  "example_sort = \<lparr>so_prev = seq_exec example_scan, so_cols = [example_col ''a'' 0], so_desc = [True], so_limit = 1, so_fuel = 2\<rparr>"

theorem order_by_limit_witness:
  "\<exists>rid f. insert_record (enc_i32 7) None (example_file 4) = (Inr rid, f) \<and>
     run_source (sort_begin insertion_sort example_sort) sort_is_end sort_next sort_get 2 (example_scan, f) = Some (Inr [Some (enc_i32 7)])"
proof -
  obtain rid f where f: "insert_record (enc_i32 7) None (example_file 4) = (Inr rid, f)" "file_inv f" "room f" "file_records f = [rid \<mapsto> enc_i32 7]"
    by (rule one_row_file)
  have s: "seq_ready (example_scan, f)" "seq_rows (example_scan, f) = [Some (enc_i32 7)]"
    using one_row_scan [OF f(2,3,4), of example_scan] by (simp_all add: example_scan_def)
  have run: "run_source (ex_begin (so_prev example_sort)) (ex_is_end (so_prev example_sort)) (ex_next (so_prev example_sort)) (ex_get (so_prev example_sort))
      (so_fuel example_sort) (example_scan, f) = Some (Inr (map Some [enc_i32 7]))"
    using seq_source.run_ok [OF s(1), of 2] s(2) by (simp add: example_sort_def seq_exec_def)
  have own: "\<not> ex_shared (so_prev example_sort)" by (simp add: example_sort_def seq_exec_def example_scan_def proj_len_def)
  have fits: "\<forall>r \<in> set [enc_i32 7]. sort_fits (so_cols example_sort) r"
    by (simp add: sort_fits_def example_sort_def example_col_def col_fits_def no_nan_def)
  obtain ys where ys: "mset ys = mset [enc_i32 7]"
    "run_source (sort_begin insertion_sort example_sort) sort_is_end sort_next sort_get 2 (example_scan, f) = Some (Inr (map Some (take 1 ys)))"
    using order_by_limit [OF insertion.std_sort_axioms own _ run fits, of 2] by (auto simp: example_sort_def)
  have "ys = [enc_i32 7]" using ys(1) by simp
  then show ?thesis using ys(2) f(1) by auto
qed

end
