(* ===== verification/Exec_Group.thy ===== *)
theory Exec_Group
  imports Exec_Join Exec_Expr "HOL-Library.Multiset"
begin

unbundle bit_operations_syntax

text \<open>
  Grouping (\<^verbatim>\<open>src/src/execution/executor_group.h\<close>): the rows of an executor are collected in a hash table under the values of the
  grouping columns, and the groups that do not satisfy the \<^verbatim>\<open>HAVING\<close> clause are erased.

  \<^verbatim>\<open>std::hash<std::string>\<close> and the order in which \<^verbatim>\<open>std::unordered_map\<close> is iterated are not fixed by the standard: they are the
  parameters \<open>H\<close> and \<open>ord\<close>, of which only that an iteration visits every entry once is used. Sums of \<^verbatim>\<open>AVG\<close> are of type
  \<^verbatim>\<open>double\<close>, written out on its 64 bits.

  Shown: when no key has a NaN or a negative zero, there is one group for each key that occurs, with exactly the rows of that key
  in their order; and what goes wrong with the two exceptions.
\<close>

subsection \<open>Double precision\<close>

definition f64_round :: "nat \<Rightarrow> nat \<Rightarrow> int \<Rightarrow> nat" where
  "f64_round p q e =
     (if p = 0 then 0
      else let a = p * 2 ^ nat e; b = q * 2 ^ nat (- e);
               d = int (log2 a) - int (log2 b);
               top = (if b * 2 ^ nat d \<le> a * 2 ^ nat (- d) then d else d - 1);
               x = max top (-1022);
               n = round_div (a * 2 ^ nat (52 - x)) (b * 2 ^ nat (x - 52))
           in min 9218868437227405312 (nat (x + 1022) * 2 ^ 52 + n))"

definition f64_neg :: "nat \<Rightarrow> bool" where "f64_neg a \<longleftrightarrow> 2 ^ 63 \<le> a"
definition f64_abs :: "nat \<Rightarrow> nat" where "f64_abs a = a mod 2 ^ 63"
definition f64_nan :: "nat \<Rightarrow> bool" where "f64_nan a \<longleftrightarrow> 9218868437227405312 < f64_abs a"
definition f64_inf :: "nat \<Rightarrow> bool" where "f64_inf a \<longleftrightarrow> f64_abs a = 9218868437227405312"
definition f64_signed :: "bool \<Rightarrow> nat \<Rightarrow> nat" where "f64_signed neg m = (if neg then 2 ^ 63 else 0) + m"
definition f64_qnan :: nat where "f64_qnan = 9221120237041090560"

definition f64_man :: "nat \<Rightarrow> nat" where
  "f64_man a = (let m = f64_abs a in if m < 2 ^ 52 then m else 2 ^ 52 + m mod 2 ^ 52)"

definition f64_exp :: "nat \<Rightarrow> int" where
  "f64_exp a = (let m = f64_abs a in if m < 2 ^ 52 then -1074 else int (m div 2 ^ 52) - 1075)"

definition f64_of_int :: "int \<Rightarrow> nat" where
  "f64_of_int n = f64_signed (n < 0) (f64_round (nat \<bar>n\<bar>) 1 0)"

definition f64_of_f32 :: "bytes \<Rightarrow> nat" where
  "f64_of_f32 a =
     (if f32_nan a then f64_qnan else if f32_inf a then f64_signed (f32_neg a) 9218868437227405312
      else f64_signed (f32_neg a) (f64_round (f32_man a) 1 (f32_exp a)))"

definition f32_of_f64 :: "nat \<Rightarrow> bytes" where
  "f32_of_f64 a =
     (if f64_nan a then f32_qnan else if f64_inf a then f32_signed (f64_neg a) 2139095040
      else f32_signed (f64_neg a) (f32_round (f64_man a) 1 (f64_exp a)))"

definition f64_add :: "nat \<Rightarrow> nat \<Rightarrow> nat" where
  "f64_add a b =
     (if f64_nan a \<or> f64_nan b \<or> (f64_inf a \<and> f64_inf b \<and> f64_neg a \<noteq> f64_neg b) then f64_qnan
      else if f64_inf a then a
      else if f64_inf b then b
      else let e = min (f64_exp a) (f64_exp b);
               x = int (f64_man a * 2 ^ nat (f64_exp a - e)); y = int (f64_man b * 2 ^ nat (f64_exp b - e));
               s = (if f64_neg a then - x else x) + (if f64_neg b then - y else y)
           in f64_signed (if s = 0 then f64_neg a \<and> f64_neg b else s < 0) (f64_round (nat \<bar>s\<bar>) 1 e))"

text \<open>The divisor is a positive integer.\<close>

definition f64_div :: "nat \<Rightarrow> nat \<Rightarrow> nat" where
  "f64_div a b =
     (if f64_nan a then f64_qnan else if f64_inf a then a
      else f64_signed (f64_neg a) (f64_round (f64_man a) (f64_man b) (f64_exp a - f64_exp b)))"

subsection \<open>Select expressions\<close>

datatype AggType = AGG_COUNT | AGG_SUM | AGG_MIN | AGG_MAX | AGG_AVG
datatype SvCompOp = SV_OP_EQ | SV_OP_NE | SV_OP_LT | SV_OP_GT | SV_OP_LE | SV_OP_GE
datatype LogicalOp = LOGICAL_AND | LOGICAL_OR

text \<open>The argument of \<^verbatim>\<open>COUNT(*)\<close> is a null pointer; \<open>PlainExpr\<close> has literals, columns and arithmetic.\<close>

datatype SelExpr =
    PlainExpr Expr
  | AggExpr AggType "SelExpr option"
  | AliasExpr SelExpr string
  | CompareExpr SelExpr SvCompOp SelExpr
  | LogicalExpr SelExpr LogicalOp SelExpr

fun as_col :: "SelExpr \<Rightarrow> (string \<times> string) option" where
  "as_col (PlainExpr (ColRef tab name)) = Some (tab, name)"
| "as_col _ = None"

definition arg_col :: "SelExpr option \<Rightarrow> (string \<times> string) option" where
  "arg_col arg = Option.bind arg as_col"

text \<open>\<^verbatim>\<open>cols[get_col_idx(cols, tab, name)]\<close>.\<close>

definition get_col_idx :: "ColMeta list \<Rightarrow> string \<times> string \<Rightarrow> ColMeta checked" where
  "get_col_idx cols tc =
     (case List.find (\<lambda>c. col_name c = snd tc \<and> (fst tc = [] \<or> col_tab_name c = fst tc)) cols of
        Some c \<Rightarrow> Some (Inr c)
      | None \<Rightarrow> Some (Inl (RuntimeError ''Column not found'')))"

text \<open>\<^verbatim>\<open>Value::from_raw(rec->data + col.offset, col.type, col.len)\<close>.\<close>

definition value_at :: "ColMeta \<Rightarrow> bytes \<Rightarrow> Value checked" where
  "value_at c r =
     chk (load (col_offset c) (if col_type c = TYPE_STRING then col_len c else 4) r) (\<lambda>bs. Some (Inr (from_raw bs (col_type c) (col_len c))))"

definition is_null :: "Value \<Rightarrow> bool" where
  "is_null v = False"

fun fold_chk :: "('a \<Rightarrow> 'b \<Rightarrow> 'b checked) \<Rightarrow> 'a list \<Rightarrow> 'b \<Rightarrow> 'b checked" where
  "fold_chk f [] s = Some (Inr s)"
| "fold_chk f (x # xs) s = chk (f x s) (fold_chk f xs)"

text \<open>An addition of \<^verbatim>\<open>int\<close>, undefined when it overflows.\<close>

definition int_plus :: "int \<Rightarrow> int \<Rightarrow> int checked" where
  "int_plus a b = (if int32 (a + b) then Some (Inr (a + b)) else None)"

text \<open>The loops over the records of a group.\<close>

definition each_value :: "(Value \<Rightarrow> 'b \<Rightarrow> 'b checked) \<Rightarrow> ColMeta \<Rightarrow> bytes list \<Rightarrow> 'b \<Rightarrow> 'b checked" where
  "each_value f c = fold_chk (\<lambda>r s. chk (value_at c r) (\<lambda>v. if is_null v then Some (Inr s) else f v s))"

definition count_loop :: "ColMeta \<Rightarrow> bytes list \<Rightarrow> int checked" where
  "count_loop c rs = each_value (\<lambda>v n. int_plus n 1) c rs 0"

definition sum_loop :: "ColMeta \<Rightarrow> bytes list \<Rightarrow> Value checked" where
  "sum_loop c rs =
     (case col_type c of
        TYPE_INT \<Rightarrow> chk (each_value (\<lambda>v n. int_plus n (int_val v)) c rs 0) (\<lambda>n. Some (Inr (set_int n Value_default)))
      | TYPE_FLOAT \<Rightarrow> chk (each_value (\<lambda>v x. Some (Inr (f32_add x (float_val v)))) c rs f32_zero) (\<lambda>x. Some (Inr (set_float x Value_default)))
      | TYPE_STRING \<Rightarrow> Some (Inr Value_default))"

definition avg_step :: "Value \<Rightarrow> nat \<times> int \<Rightarrow> (nat \<times> int) checked" where
  "avg_step v s =
     (let x = (case v_type v of
                 TYPE_INT \<Rightarrow> f64_add (fst s) (f64_of_int (int_val v))
               | TYPE_FLOAT \<Rightarrow> f64_add (fst s) (f64_of_f32 (float_val v))
               | TYPE_STRING \<Rightarrow> fst s)
      in chk (int_plus (snd s) 1) (\<lambda>n. Some (Inr (x, n))))"

definition avg_of :: "nat \<times> int \<Rightarrow> Value" where
  "avg_of s = set_float (if 0 < snd s then f32_of_f64 (f64_div (fst s) (f64_of_int (snd s))) else f32_zero) Value_default"

definition avg_loop :: "ColMeta \<Rightarrow> bytes list \<Rightarrow> Value checked" where
  "avg_loop c rs = chk (each_value avg_step c rs (0, 0)) (\<lambda>s. Some (Inr (avg_of s)))"

text \<open>\<^verbatim>\<open>MIN\<close> and \<^verbatim>\<open>MAX\<close>: \<^term>\<open>None\<close> before the first value.\<close>

definition better :: "AggType \<Rightarrow> Value \<Rightarrow> Value \<Rightarrow> bool" where
  "better t v w = (if t = AGG_MIN then value_less v w else value_gt v w)"

definition min_max_step :: "AggType \<Rightarrow> Value \<Rightarrow> Value option \<Rightarrow> Value option" where
  "min_max_step t v m = (case m of None \<Rightarrow> Some v | Some w \<Rightarrow> Some (if better t v w then v else w))"

definition min_max_loop :: "AggType \<Rightarrow> ColMeta \<Rightarrow> bytes list \<Rightarrow> Value option checked" where
  "min_max_loop t c rs = each_value (\<lambda>v m. Some (Inr (min_max_step t v m))) c rs None"

subsection \<open>The group executor\<close>

record GroupData =
  gd_records :: "bytes list"
  gd_representative :: "bytes option"

definition GroupData_default :: GroupData where
  "GroupData_default = \<lparr>gd_records = [], gd_representative = None\<rparr>"

type_synonym groups = "(Value list \<times> GroupData) list"

definition group_key_eq :: "Value list \<Rightarrow> Value list \<Rightarrow> bool" where
  "group_key_eq k l \<longleftrightarrow> list_all2 value_eq k l"

definition group_key_hash :: "(bytes \<Rightarrow> 64 word) \<Rightarrow> Value list \<Rightarrow> 64 word" where
  "group_key_hash H k = fold (\<lambda>v h. h XOR (H (value_to_string v) + 0x9e3779b9 + push_bit 6 h + drop_bit 2 h)) k 0"

text \<open>Finding a key in the table: the hashes are compared before the keys.\<close>

definition same_key :: "(bytes \<Rightarrow> 64 word) \<Rightarrow> Value list \<Rightarrow> Value list \<Rightarrow> bool" where
  "same_key H k l \<longleftrightarrow> group_key_hash H k = group_key_hash H l \<and> group_key_eq k l"

definition has_key :: "(bytes \<Rightarrow> 64 word) \<Rightarrow> Value list \<Rightarrow> groups \<Rightarrow> bool" where
  "has_key H k gs \<longleftrightarrow> list_ex (\<lambda>(l, g). same_key H k l) gs"

text \<open>An assignment to \<^verbatim>\<open>groups_[key]\<close> or its members; the entry is made when there is none.\<close>

fun at_key :: "(bytes \<Rightarrow> 64 word) \<Rightarrow> Value list \<Rightarrow> (GroupData \<Rightarrow> GroupData) \<Rightarrow> groups \<Rightarrow> groups" where
  "at_key H k f [] = [(k, f GroupData_default)]"
| "at_key H k f ((l, g) # gs) = (if same_key H k l then (l, f g) # gs else (l, g) # at_key H k f gs)"

definition group_add :: "(bytes \<Rightarrow> 64 word) \<Rightarrow> Value list \<Rightarrow> bytes \<Rightarrow> groups \<Rightarrow> groups" where
  "group_add H k r gs =
     (let gs = (if has_key H k gs then gs
                else at_key H k (\<lambda>g. g\<lparr>gd_representative := Some r\<rparr>) (at_key H k (\<lambda>g. GroupData_default) gs))
      in at_key H k (\<lambda>g. g\<lparr>gd_records := gd_records g @ [r]\<rparr>) gs)"

record ('q, 's) group_exec =
  ge_child :: "('q, 's) executor"
  ge_group_by :: "SelExpr list"
  ge_having :: "SelExpr option"
  ge_fuel :: nat

definition default_key :: "Value list" where
  "default_key = [set_int 1 Value_default]"

fun key_values :: "ColMeta list \<Rightarrow> SelExpr list \<Rightarrow> bytes \<Rightarrow> Value list checked" where
  "key_values cols [] r = Some (Inr [])"
| "key_values cols (e # es) r =
     (case as_col e of
        None \<Rightarrow> key_values cols es r
      | Some tc \<Rightarrow> chk (get_col_idx cols tc) (\<lambda>c. chk (value_at c r) (\<lambda>v. chk (key_values cols es r) (\<lambda>vs. Some (Inr (v # vs))))))"

definition extract_group_key :: "ColMeta list \<Rightarrow> SelExpr list \<Rightarrow> bytes \<Rightarrow> Value list checked" where
  "extract_group_key cols group_by r = (if group_by = [] then Some (Inr default_key) else key_values cols group_by r)"

fun group_collect :: "nat \<Rightarrow> (bytes \<Rightarrow> 64 word) \<Rightarrow> ('q, 's) group_exec \<Rightarrow> 's \<Rightarrow> groups \<Rightarrow> groups checked" where
  "group_collect 0 H x s gs = None"
| "group_collect (Suc n) H x s gs =
     (if ex_is_end (ge_child x) s then Some (Inr gs)
      else chk (ex_get (ge_child x) s) (\<lambda>r.
        case r of
          None \<Rightarrow> None
        | Some r \<Rightarrow> chk (extract_group_key (ex_cols (ge_child x)) (ge_group_by x) r) (\<lambda>k.
            chk (ex_next (ge_child x) s) (\<lambda>s. group_collect n H x s (group_add H k r gs)))))"

subsection \<open>The HAVING clause\<close>

definition compute_agg_for_having :: "ColMeta list \<Rightarrow> AggType \<Rightarrow> SelExpr option \<Rightarrow> GroupData \<Rightarrow> Value checked" where
  "compute_agg_for_having cols t arg g =
     (case t of
        AGG_COUNT \<Rightarrow> Some (Inr (set_int (int (length (gd_records g))) Value_default))
      | AGG_SUM \<Rightarrow> (case arg_col arg of None \<Rightarrow> Some (Inr Value_default) | Some tc \<Rightarrow> chk (get_col_idx cols tc) (\<lambda>c. sum_loop c (gd_records g)))
      | AGG_AVG \<Rightarrow> (case arg_col arg of None \<Rightarrow> Some (Inr (avg_of (0, 0))) | Some tc \<Rightarrow> chk (get_col_idx cols tc) (\<lambda>c. avg_loop c (gd_records g)))
      | _ \<Rightarrow> (case arg_col arg of
                None \<Rightarrow> Some (Inr Value_default)
              | Some tc \<Rightarrow> chk (get_col_idx cols tc) (\<lambda>c. chk (min_max_loop t c (gd_records g)) (\<lambda>m.
                  Some (Inr (case m of None \<Rightarrow> Value_default | Some v \<Rightarrow> v))))))"

fun evaluate_having_value :: "ColMeta list \<Rightarrow> SelExpr \<Rightarrow> GroupData \<Rightarrow> Value checked" where
  "evaluate_having_value cols (AggExpr t arg) g = compute_agg_for_having cols t arg g"
| "evaluate_having_value cols (PlainExpr (IntLit n)) g = Some (Inr (set_int n Value_default))"
| "evaluate_having_value cols (PlainExpr (FloatLit f)) g = Some (Inr (set_float f Value_default))"
| "evaluate_having_value cols (PlainExpr (StringLit s)) g = Some (Inr (set_str s Value_default))"
| "evaluate_having_value cols (PlainExpr (ColRef tab name)) g =
     (case gd_representative g of
        None \<Rightarrow> Some (Inr (set_int 0 Value_default))
      | Some r \<Rightarrow> chk (get_col_idx cols (tab, name)) (\<lambda>c. value_at c r))"
| "evaluate_having_value cols _ g = Some (Inr (set_int 0 Value_default))"

text \<open>Numbers of different types are compared as floats, other values of different types never match.\<close>

definition having_operands :: "Value \<Rightarrow> Value \<Rightarrow> (Value \<times> Value) option" where
  "having_operands l r =
     (if v_type l = v_type r then Some (l, r)
      else if is_numeric_type (v_type l) \<and> is_numeric_type (v_type r)
      then if v_type l = TYPE_INT then Some (set_float (f32_of_int (int_val l)) l, r) else Some (l, set_float (f32_of_int (int_val r)) r)
      else None)"

fun having_op :: "SvCompOp \<Rightarrow> Value \<Rightarrow> Value \<Rightarrow> bool" where
  "having_op SV_OP_EQ a b \<longleftrightarrow> value_eq a b"
| "having_op SV_OP_NE a b \<longleftrightarrow> \<not> value_eq a b"
| "having_op SV_OP_LT a b \<longleftrightarrow> value_less a b"
| "having_op SV_OP_LE a b \<longleftrightarrow> value_le a b"
| "having_op SV_OP_GT a b \<longleftrightarrow> value_gt a b"
| "having_op SV_OP_GE a b \<longleftrightarrow> value_ge a b"

fun evaluate_having_expr :: "ColMeta list \<Rightarrow> SelExpr \<Rightarrow> GroupData \<Rightarrow> bool checked" where
  "evaluate_having_expr cols (LogicalExpr e op f) g =
     chk (evaluate_having_expr cols e g) (\<lambda>x. chk (evaluate_having_expr cols f g) (\<lambda>y.
       Some (Inr (case op of LOGICAL_AND \<Rightarrow> x \<and> y | LOGICAL_OR \<Rightarrow> x \<or> y))))"
| "evaluate_having_expr cols (CompareExpr e op f) g =
     chk (evaluate_having_value cols e g) (\<lambda>x. chk (evaluate_having_value cols f g) (\<lambda>y.
       Some (Inr (case having_operands x y of None \<Rightarrow> False | Some (x, y) \<Rightarrow> having_op op x y))))"
| "evaluate_having_expr cols _ g = Some (Inr True)"

fun filter_groups_by_having :: "ColMeta list \<Rightarrow> SelExpr \<Rightarrow> groups \<Rightarrow> groups checked" where
  "filter_groups_by_having cols h [] = Some (Inr [])"
| "filter_groups_by_having cols h ((k, g) # gs) =
     chk (evaluate_having_expr cols h g) (\<lambda>b. chk (filter_groups_by_having cols h gs) (\<lambda>gs. Some (Inr (if b then (k, g) # gs else gs))))"

text \<open>The state after \<^verbatim>\<open>beginTuple\<close>: the groups from \<^verbatim>\<open>current_group_\<close> on.\<close>

definition group_begin :: "(bytes \<Rightarrow> 64 word) \<Rightarrow> (groups \<Rightarrow> groups) \<Rightarrow> ('q, 's) group_exec \<Rightarrow> 'q \<Rightarrow> groups checked" where
  "group_begin H ord x q =
     chk (ex_begin (ge_child x) q) (\<lambda>s. chk (group_collect (ge_fuel x) H x s []) (\<lambda>gs.
       let gs = ord (if ge_group_by x = [] \<and> gs = [] then [(default_key, GroupData_default)] else gs)
       in case ge_having x of None \<Rightarrow> Some (Inr gs) | Some h \<Rightarrow> filter_groups_by_having (ex_cols (ge_child x)) h gs))"

definition group_is_end :: "groups \<Rightarrow> bool" where
  "group_is_end gs \<longleftrightarrow> gs = []"

definition group_next :: "groups \<Rightarrow> groups checked" where
  "group_next gs = Some (Inr (tl gs))"

definition group_get :: "groups \<Rightarrow> bytes option checked" where
  "group_get gs = (case gs of [] \<Rightarrow> Some (Inr None) | (k, g) # _ \<Rightarrow> (case gd_representative g of None \<Rightarrow> None | Some r \<Rightarrow> Some (Inr (Some r))))"

definition getCurrentGroupRecords :: "groups \<Rightarrow> bytes list" where
  "getCurrentGroupRecords gs = (case gs of [] \<Rightarrow> [] | (k, g) # _ \<Rightarrow> gd_records g)"

subsection \<open>Keys\<close>

lemma value_at_fits: "col_fits c r \<Longrightarrow> value_at c r = Some (Inr (col_value c r))"
  by (auto simp: value_at_def load_def col_fits_def col_value_def col_bytes_def)

lemma fold_chk_cong: "(\<And>r. r \<in> set rs \<Longrightarrow> f r = g r) \<Longrightarrow> fold_chk f rs = fold_chk g rs"
proof (induction rs)
  case (Cons r rs)
  then show ?case by (intro ext) simp
qed (intro ext, simp)

lemma each_value_fold: "\<forall>r \<in> set rs. col_fits c r \<Longrightarrow> each_value f c rs = fold_chk (\<lambda>r. f (col_value c r)) rs"
  unfolding each_value_def by (rule fold_chk_cong) (simp add: value_at_fits is_null_def)

text \<open>A value whose hash agrees with its comparison: a float is neither a NaN nor a negative zero.\<close>

definition plain_value :: "Value \<Rightarrow> bool" where
  "plain_value v \<longleftrightarrow> (v_type v = TYPE_FLOAT \<longrightarrow> \<not> f32_nan (float_val v) \<and> (f32_neg (float_val v) \<longrightarrow> f32_abs (float_val v) \<noteq> 0))"

lemma plain_no_nan: "plain_value v \<Longrightarrow> no_nan v"
  by (simp add: plain_value_def no_nan_def)

lemma f32_rank_parts: "f32_rank a = (if f32_neg a then - int (f32_abs a) else int (f32_abs a))"
  by (simp add: f32_rank_def f32_neg_def f32_abs_def Let_def)

lemma same_text:
  assumes "plain_value v" "plain_value w" "value_rank v = value_rank w"
  shows "value_to_string v = value_to_string w"
proof -
  have t: "v_type v = v_type w" using assms(3) by (simp add: value_rank_def coltype_code_inj)
  show ?thesis
  proof (cases "v_type v")
    case TYPE_FLOAT
    have r: "f32_rank (float_val v) = f32_rank (float_val w)" using assms(3) t TYPE_FLOAT by (simp add: value_rank_def)
    have "f32_abs (float_val v) = f32_abs (float_val w) \<and> f32_neg (float_val v) = f32_neg (float_val w)"
      using r assms(1,2) TYPE_FLOAT t unfolding f32_rank_parts plain_value_def by (auto split: if_splits)
    then have "f32_to_string (float_val v) = f32_to_string (float_val w)"
      by (simp add: f32_to_string_def f32_nan_def f32_inf_def f32_man_def f32_exp_def Let_def f32_abs_def)
    then show ?thesis using TYPE_FLOAT t by (simp add: value_to_string_def)
  qed (use assms(3) t in \<open>simp_all add: value_rank_def value_to_string_def map_uint_inj\<close>)
qed

lemma list_all2_rank: "\<forall>v \<in> set k. no_nan v \<Longrightarrow> \<forall>v \<in> set l. no_nan v \<Longrightarrow> list_all2 value_eq k l \<longleftrightarrow> map value_rank k = map value_rank l"
proof (induction k arbitrary: l)
  case (Cons v k)
  then show ?case by (cases l) (auto simp: value_eq_rank)
qed auto

lemma hash_text: "map value_to_string k = map value_to_string l \<Longrightarrow> group_key_hash H k = group_key_hash H l"
proof -
  have "group_key_hash H k = fold (\<lambda>t h. h XOR (H t + 0x9e3779b9 + push_bit 6 h + drop_bit 2 h)) (map value_to_string k) 0" for k
    by (simp add: group_key_hash_def fold_map o_def)
  then show "map value_to_string k = map value_to_string l \<Longrightarrow> group_key_hash H k = group_key_hash H l" by simp
qed

lemma same_key_rank:
  assumes "\<forall>v \<in> set k. plain_value v" "\<forall>v \<in> set l. plain_value v"
  shows "same_key H k l \<longleftrightarrow> map value_rank k = map value_rank l"
proof -
  have "map value_to_string k = map value_to_string l" if "map value_rank k = map value_rank l"
    using that assms
  proof (induction k arbitrary: l)
    case (Cons v k)
    then obtain w l' where l: "l = w # l'" by (cases l) auto
    then show ?case using Cons same_text [of v w] by simp
  qed simp
  then show ?thesis unfolding same_key_def group_key_eq_def using list_all2_rank [of k l] assms hash_text plain_no_nan by blast
qed

text \<open>The grouping columns, and the key of a row.\<close>

definition resolves :: "ColMeta list \<Rightarrow> SelExpr list \<Rightarrow> ColMeta list \<Rightarrow> bool" where
  "resolves cols es cs \<longleftrightarrow> map (get_col_idx cols) (List.map_filter as_col es) = map (\<lambda>c. Some (Inr c)) cs"

definition group_values :: "ColMeta list \<Rightarrow> bytes \<Rightarrow> Value list" where
  "group_values cs r = map (\<lambda>c. col_value c r) cs"

definition group_rank :: "ColMeta list \<Rightarrow> bytes \<Rightarrow> int list list" where
  "group_rank cs r = map value_rank (group_values cs r)"

definition group_fits :: "ColMeta list \<Rightarrow> bytes \<Rightarrow> bool" where
  "group_fits cs r \<longleftrightarrow> (\<forall>c \<in> set cs. col_fits c r \<and> plain_value (col_value c r))"

lemma key_values_ok:
  assumes "resolves cols es cs" "\<forall>c \<in> set cs. col_fits c r"
  shows "key_values cols es r = Some (Inr (group_values cs r))"
  using assms
proof (induction es arbitrary: cs)
  case (Cons e es)
  show ?case
  proof (cases "as_col e")
    case None
    then show ?thesis using Cons by (simp add: resolves_def map_filter_simps)
  next
    case (Some tc)
    obtain c cs' where "cs = c # cs'" "get_col_idx cols tc = Some (Inr c)" "resolves cols es cs'"
      using Cons.prems(1) Some by (cases cs) (auto simp: resolves_def map_filter_simps)
    then show ?thesis using Cons Some by (simp add: group_values_def value_at_fits)
  qed
qed (simp add: resolves_def map_filter_simps group_values_def)

subsection \<open>The groups of a list of rows\<close>

definition firsts :: "'a list \<Rightarrow> 'a list" where
  "firsts xs = rev (remdups (rev xs))"

lemma firsts_snoc: "firsts (xs @ [x]) = (if x \<in> set xs then firsts xs else firsts xs @ [x])"
  by (simp add: firsts_def)

lemma firsts_set [simp]: "set (firsts xs) = set xs" "distinct (firsts xs)" "firsts [] = []"
  by (simp_all add: firsts_def)

text \<open>The keys in the order in which they first occur, each with the rows that have it.\<close>

definition groups_of :: "(bytes \<Rightarrow> 'k) \<Rightarrow> bytes list \<Rightarrow> bytes list list" where
  "groups_of kf rs = map (\<lambda>k. filter (\<lambda>r. kf r = k) rs) (firsts (map kf rs))"

definition groups_rel :: "ColMeta list \<Rightarrow> bytes list \<Rightarrow> groups \<Rightarrow> bool" where
  "groups_rel cs rs gs \<longleftrightarrow> map (map value_rank \<circ> fst) gs = firsts (map (group_rank cs) rs) \<and>
     (\<forall>(k, g) \<in> set gs. (\<forall>v \<in> set k. plain_value v) \<and> gd_records g = filter (\<lambda>r. group_rank cs r = map value_rank k) rs \<and>
        gd_representative g = Some (hd (gd_records g)))"

lemma at_key_other:
  assumes "\<forall>(l, g) \<in> set gs. \<not> same_key H k l"
  shows "at_key H k f (gs @ gs') = gs @ at_key H k f gs'"
  using assms by (induction gs) auto

lemma at_key_found:
  assumes "\<forall>(l, g) \<in> set gs. \<not> same_key H k l" "same_key H k l"
  shows "at_key H k f (gs @ (l, g) # gs') = gs @ (l, f g) # gs'"
  using at_key_other [OF assms(1)] assms(2) by simp

lemma group_add_new:
  assumes "\<forall>(l, g) \<in> set gs. \<not> same_key H k l" "same_key H k k"
  shows "group_add H k r gs = gs @ [(k, \<lparr>gd_records = [r], gd_representative = Some r\<rparr>)]"
proof -
  have n: "\<not> has_key H k gs" using assms(1) by (auto simp: has_key_def list_ex_iff)
  have one: "at_key H k f gs = gs @ [(k, f GroupData_default)]" for f using at_key_other [OF assms(1), of f "[]"] by simp
  show ?thesis using n one at_key_found [OF assms, of _ _ "[]"] by (simp add: group_add_def GroupData_default_def)
qed

lemma group_add_old:
  assumes "\<forall>(l, g) \<in> set gs. \<not> same_key H k l" "same_key H k l"
  shows "group_add H k r (gs @ (l, g) # gs') = gs @ (l, g\<lparr>gd_records := gd_records g @ [r]\<rparr>) # gs'"
  using at_key_found [OF assms] assms(2) by (simp add: group_add_def has_key_def)

lemma group_rank_values: "map value_rank (group_values cs r) = group_rank cs r"
  by (simp add: group_rank_def)

lemma distinct_map_neq: "distinct (map f (xs @ y # zs)) \<Longrightarrow> z \<in> set xs \<union> set zs \<Longrightarrow> f z \<noteq> f y"
  by (auto dest: sym)

lemma groups_rel_add:
  assumes rel: "groups_rel cs rs gs" and fits: "group_fits cs r"
  shows "groups_rel cs (rs @ [r]) (group_add H (group_values cs r) r gs)"
proof -
  let ?k = "group_values cs r"
  have k: "\<forall>v \<in> set ?k. plain_value v" using fits by (auto simp: group_fits_def group_values_def)
  have same: "same_key H ?k l \<longleftrightarrow> map value_rank l = group_rank cs r" if "(l, g) \<in> set gs" for l g
    using same_key_rank [OF k, of l] that rel by (auto simp: groups_rel_def group_rank_values)
  have ranks: "map (map value_rank \<circ> fst) gs = firsts (map (group_rank cs) rs)" using rel by (simp add: groups_rel_def)
  have old: "(\<forall>v \<in> set l. plain_value v) \<and> gd_records g = filter (\<lambda>x. group_rank cs x = map value_rank l) rs \<and>
      gd_representative g = Some (hd (gd_records g))" if "(l, g) \<in> set gs" for l g using rel that by (auto simp: groups_rel_def)
  show ?thesis
  proof (cases "group_rank cs r \<in> set (map (group_rank cs) rs)")
    case False
    then have "group_rank cs r \<notin> set (map (map value_rank \<circ> fst) gs)" unfolding ranks by simp
    then have diff: "map value_rank l \<noteq> group_rank cs r" if "(l, g) \<in> set gs" for l g using that by force
    have add: "group_add H ?k r gs = gs @ [(?k, \<lparr>gd_records = [r], gd_representative = Some r\<rparr>)]"
      by (rule group_add_new) (use same diff same_key_rank [OF k k] in auto)
    have none: "filter (\<lambda>x. group_rank cs x = group_rank cs r) rs = []"
      unfolding filter_empty_conv using False by (metis imageI list.set_map)
    have "map (map value_rank \<circ> fst) (group_add H ?k r gs) = firsts (map (group_rank cs) (rs @ [r]))"
      using False ranks by (simp add: add firsts_snoc group_rank_values)
    moreover have "(\<forall>v \<in> set l. plain_value v) \<and> gd_records g = filter (\<lambda>x. group_rank cs x = map value_rank l) (rs @ [r]) \<and>
        gd_representative g = Some (hd (gd_records g))" if m: "(l, g) \<in> set (group_add H ?k r gs)" for l g
    proof (cases "(l, g) \<in> set gs")
      case True
      then show ?thesis using old diff by force
    next
      case False
      then show ?thesis using m k none by (auto simp: add group_rank_values)
    qed
    ultimately show ?thesis unfolding groups_rel_def by auto
  next
    case True
    then have "group_rank cs r \<in> set (map (map value_rank \<circ> fst) gs)" unfolding ranks by simp
    then obtain l g where lg: "(l, g) \<in> set gs" "map value_rank l = group_rank cs r" by auto
    obtain gs1 gs2 where split: "gs = gs1 @ (l, g) # gs2" using split_list [OF lg(1)] by blast
    have d: "distinct (map (map value_rank \<circ> fst) gs)" unfolding ranks by simp
    have diff: "map value_rank l' \<noteq> group_rank cs r" if o: "(l', g') \<in> set gs1 \<union> set gs2" for l' g'
      using distinct_map_neq [OF d [unfolded split] o] lg(2) by simp
    have add: "group_add H ?k r gs = gs1 @ (l, g\<lparr>gd_records := gd_records g @ [r]\<rparr>) # gs2"
      unfolding split by (rule group_add_old) (use same diff lg split in auto)
    have "map (map value_rank \<circ> fst) (group_add H ?k r gs) = firsts (map (group_rank cs) (rs @ [r]))"
      using True ranks unfolding add by (simp add: split firsts_snoc)
    moreover have "filter (\<lambda>x. group_rank cs x = group_rank cs r) rs \<noteq> []"
      unfolding filter_empty_conv using True by (metis imageE list.set_map)
    then have "gd_records g \<noteq> []" using old [OF lg(1)] lg(2) by simp
    then have "(\<forall>v \<in> set l'. plain_value v) \<and> gd_records g' = filter (\<lambda>x. group_rank cs x = map value_rank l') (rs @ [r]) \<and>
        gd_representative g' = Some (hd (gd_records g'))" if m: "(l', g') \<in> set (group_add H ?k r gs)" for l' g'
    proof (cases "(l', g') \<in> set gs1 \<union> set gs2")
      case in_rest: True
      then show ?thesis using old [of l' g'] diff [OF in_rest] split by auto
    next
      case False
      then show ?thesis using m old [OF lg(1)] lg(2) \<open>gd_records g \<noteq> []\<close> by (auto simp: add)
    qed
    ultimately show ?thesis unfolding groups_rel_def by auto
  qed
qed

lemma drain_SucE:
  assumes "drain is_end next_tuple get_next (Suc n) s = Some (Inr (map Some rs))" "\<not> is_end s"
  obtains r s' rs' where "get_next s = Some (Inr (Some r))" "next_tuple s = Some (Inr s')" "rs = r # rs'"
    "drain is_end next_tuple get_next n s' = Some (Inr (map Some rs'))"
  using assms by (auto simp: chk_Inr)

lemma group_collect_ok:
  assumes "drain (ex_is_end (ge_child x)) (ex_next (ge_child x)) (ex_get (ge_child x)) n s = Some (Inr (map Some rs))"
    and "resolves (ex_cols (ge_child x)) (ge_group_by x) cs" "ge_group_by x \<noteq> []" "\<forall>r \<in> set rs. group_fits cs r" "groups_rel cs rs0 gs"
  shows "\<exists>gs'. group_collect n H x s gs = Some (Inr gs') \<and> groups_rel cs (rs0 @ rs) gs'"
  using assms
proof (induction n arbitrary: s rs rs0 gs)
  case (Suc n)
  show ?case
  proof (cases "ex_is_end (ge_child x) s")
    case True
    then show ?thesis using Suc.prems by simp
  next
    case False
    obtain r s' rs' where r: "ex_get (ge_child x) s = Some (Inr (Some r))" "ex_next (ge_child x) s = Some (Inr s')" "rs = r # rs'"
      "drain (ex_is_end (ge_child x)) (ex_next (ge_child x)) (ex_get (ge_child x)) n s' = Some (Inr (map Some rs'))"
      by (rule drain_SucE [OF Suc.prems(1) False])
    have fits: "group_fits cs r" using Suc.prems(4) r(3) by simp
    have "extract_group_key (ex_cols (ge_child x)) (ge_group_by x) r = Some (Inr (group_values cs r))"
      using key_values_ok [OF Suc.prems(2)] fits Suc.prems(3) by (simp add: extract_group_key_def group_fits_def)
    moreover obtain gs' where "group_collect n H x s' (group_add H (group_values cs r) r gs) = Some (Inr gs')" "groups_rel cs ((rs0 @ [r]) @ rs') gs'"
      using Suc.IH [OF r(4) Suc.prems(2,3) _ groups_rel_add [OF Suc.prems(5) fits]] Suc.prems(4) r(3) by auto
    ultimately show ?thesis using r False by simp
  qed
qed simp

lemma groups_rel_records:
  assumes "groups_rel cs rs gs"
  shows "map (gd_records \<circ> snd) gs = groups_of (group_rank cs) rs"
proof -
  have "map (gd_records \<circ> snd) gs = map (\<lambda>k. filter (\<lambda>r. group_rank cs r = k) rs) (map (map value_rank \<circ> fst) gs)"
    unfolding map_map by (rule map_cong) (use assms in \<open>auto simp: groups_rel_def\<close>)
  also have "map (map value_rank \<circ> fst) gs = firsts (map (group_rank cs) rs)" using assms by (simp add: groups_rel_def)
  finally show ?thesis by (simp only: groups_of_def)
qed

lemma filter_having_ok:
  assumes "\<forall>(k, g) \<in> set gs. evaluate_having_expr cols h g = Some (Inr (p g))"
  shows "filter_groups_by_having cols h gs = Some (Inr (filter (p \<circ> snd) gs))"
  using assms by (induction gs) auto

text \<open>The groups have every row exactly once.\<close>

lemma mset_groups_of: "mset (concat (groups_of kf rs)) = mset rs"
proof -
  have "mset (concat (map (\<lambda>k. filter (\<lambda>r. kf r = k) rs) ks)) = filter_mset (\<lambda>r. kf r \<in> set ks) (mset rs)" if "distinct ks" for ks
    using that
  proof (induction ks)
    case (Cons k ks)
    have "filter_mset (\<lambda>r. kf r \<in> set (k # ks)) (mset rs) = filter_mset (\<lambda>r. kf r = k) (mset rs) + filter_mset (\<lambda>r. kf r \<in> set ks) (mset rs)"
      using Cons.prems by (intro multiset_eqI) auto
    then show ?case using Cons by (simp add: mset_filter)
  qed simp
  then have "mset (concat (groups_of kf rs)) = filter_mset (\<lambda>r. kf r \<in> set (map kf rs)) (mset rs)" by (simp add: groups_of_def)
  also have "\<dots> = mset rs" by (simp add: filter_mset_eq_conv)
  finally show ?thesis .
qed

text \<open>\<open>p\<close> is what the \<^verbatim>\<open>HAVING\<close> clause decides of the rows of a group.\<close>

definition having_decides :: "('q, 's) group_exec \<Rightarrow> (bytes list \<Rightarrow> bool) \<Rightarrow> bytes list list \<Rightarrow> bool" where
  "having_decides x p gss \<longleftrightarrow>
     (case ge_having x of
        None \<Rightarrow> p = (\<lambda>_. True)
      | Some h \<Rightarrow> \<forall>rs \<in> set gss. evaluate_having_expr (ex_cols (ge_child x)) h \<lparr>gd_records = rs, gd_representative = Some (hd rs)\<rparr> = Some (Inr (p rs)))"

lemma group_begin_ok:
  assumes ord: "\<And>gs. mset (ord gs) = mset gs"
    and run: "run_source (ex_begin (ge_child x)) (ex_is_end (ge_child x)) (ex_next (ge_child x)) (ex_get (ge_child x)) (ge_fuel x) q = Some (Inr (map Some rs))"
    and cols: "resolves (ex_cols (ge_child x)) (ge_group_by x) cs" "ge_group_by x \<noteq> []" "\<forall>r \<in> set rs. group_fits cs r"
    and hav: "having_decides x p (groups_of (group_rank cs) rs)"
  shows "\<exists>gs. group_begin H ord x q = Some (Inr gs) \<and> mset (map (gd_records \<circ> snd) gs) = filter_mset p (mset (groups_of (group_rank cs) rs)) \<and>
    (\<forall>(k, g) \<in> set gs. gd_representative g = Some (hd (gd_records g)))"
proof -
  obtain s where s: "ex_begin (ge_child x) q = Some (Inr s)"
    "drain (ex_is_end (ge_child x)) (ex_next (ge_child x)) (ex_get (ge_child x)) (ge_fuel x) s = Some (Inr (map Some rs))"
    using run by (auto simp: run_source_def chk_Inr)
  have "groups_rel cs [] []" by (simp add: groups_rel_def)
  then obtain gs where gs: "group_collect (ge_fuel x) H x s [] = Some (Inr gs)" "groups_rel cs rs gs"
    using group_collect_ok [OF s(2) cols, of "[]" "[]"] by auto
  let ?gs = "ord gs"
  have mem: "set ?gs = set gs" using ord by (metis mset_eq_setD)
  have rep: "gd_representative g = Some (hd (gd_records g))" if "(k, g) \<in> set gs" for k g using gs(2) that by (auto simp: groups_rel_def)
  have rec: "mset (map (gd_records \<circ> snd) ?gs) = mset (groups_of (group_rank cs) rs)"
    using ord groups_rel_records [OF gs(2)] by (metis mset_map)
  have "group_begin H ord x q = Some (Inr (filter (p \<circ> gd_records \<circ> snd) ?gs))"
  proof (cases "ge_having x")
    case None
    then show ?thesis using s(1) gs(1) cols(2) hav by (simp add: group_begin_def having_decides_def)
  next
    case (Some h)
    have "evaluate_having_expr (ex_cols (ge_child x)) h g = Some (Inr ((p \<circ> gd_records) g))" if m: "(k, g) \<in> set ?gs" for k g
    proof -
      have "gd_records g \<in> set (groups_of (group_rank cs) rs)" 
        unfolding groups_rel_records [OF gs(2), symmetric] using m mem by force
      moreover have "g = \<lparr>gd_records = gd_records g, gd_representative = Some (hd (gd_records g))\<rparr>" using rep [of k g] m mem by (cases g) simp
      ultimately show ?thesis using hav Some by (auto simp: having_decides_def)
    qed
    then have "filter_groups_by_having (ex_cols (ge_child x)) h ?gs = Some (Inr (filter (p \<circ> gd_records \<circ> snd) ?gs))"
      using filter_having_ok [of ?gs "ex_cols (ge_child x)" h "p \<circ> gd_records"] by auto
    then show ?thesis using s(1) gs(1) cols(2) Some by (simp add: group_begin_def)
  qed
  moreover have "mset (map (gd_records \<circ> snd) (filter (p \<circ> gd_records \<circ> snd) ?gs)) = filter_mset p (mset (map (gd_records \<circ> snd) ?gs))"
    by (simp only: mset_filter [symmetric] filter_map o_assoc)
  ultimately show ?thesis using rec rep mem by auto
qed

subsection \<open>Integers in double precision\<close>

lemma log2_shift: "0 < m \<Longrightarrow> log2 (m * 2 ^ j) = log2 m + j"
proof -
  assume "0 < m"
  note b = log2_bounds [OF this]
  show ?thesis by (rule log2_unique) (use b in \<open>simp_all add: power_add\<close>)
qed

lemma log2_power: "log2 (2 ^ j) = j"
  using log2_unique [of j "2 ^ j"] by simp

lemma round_div_exact: "0 < q \<Longrightarrow> round_div (p * q) q = p"
  by (simp add: round_div_def)

lemma scaled_bounds:
  assumes "0 < m" "m < 2 ^ 53"
  shows "log2 m \<le> 52" "2 ^ 52 \<le> m * 2 ^ (52 - log2 m)" "m * 2 ^ (52 - log2 m) < 2 ^ 53"
proof -
  note b = log2_bounds [OF assms(1)]
  have "2 ^ log2 m < (2::nat) ^ 53" using b assms(2) by linarith
  then show k: "log2 m \<le> 52" using power_strict_increasing_iff [of "2::nat" "log2 m" 53] by simp
  have p: "(2::nat) ^ log2 m * 2 ^ (52 - log2 m) = 2 ^ 52" "(2::nat) ^ Suc (log2 m) * 2 ^ (52 - log2 m) = 2 ^ 53"
    unfolding power_add [symmetric] using k by simp_all
  show "2 ^ 52 \<le> m * 2 ^ (52 - log2 m)" unfolding p(1) [symmetric] using b by (intro mult_right_mono) simp_all
  show "m * 2 ^ (52 - log2 m) < 2 ^ 53" unfolding p(2) [symmetric] using b by (intro mult_strict_right_mono) simp_all
qed

lemma f64_round_int:
  assumes "0 < m" "m < 2 ^ 53"
  shows "f64_round (m * 2 ^ j) 1 (- int j) = (log2 m + 1022) * 2 ^ 52 + m * 2 ^ (52 - log2 m)"
proof -
  note b = log2_bounds [OF assms(1)]
  note k = scaled_bounds(1) [OF assms] and top = scaled_bounds(3) [OF assms]
  have n: "nat (52 - int (log2 m)) = 52 - log2 m" "nat (int (log2 m) - 52) = 0" "nat (int (log2 m) + 1022) = log2 m + 1022" using k by auto
  have le: "2 ^ j * 2 ^ log2 m \<le> m * 2 ^ j" using b by (simp add: mult.commute)
  have d: "round_div (m * 2 ^ j * 2 ^ (52 - log2 m)) (2 ^ j) = m * 2 ^ (52 - log2 m)"
    using round_div_exact [of "2 ^ j" "m * 2 ^ (52 - log2 m)"] by (simp add: ac_simps)
  have "(log2 m + 1022) * 2 ^ 52 + m * 2 ^ (52 - log2 m) < 9218868437227405312"
    using top mult_right_mono [of "log2 m + 1022" 1074 "2 ^ 52 :: nat"] k by simp
  moreover have "f64_round (m * 2 ^ j) 1 (- int j) = min 9218868437227405312 ((log2 m + 1022) * 2 ^ 52 + m * 2 ^ (52 - log2 m))"
  proof -
    have nz: "(m * 2 ^ j = 0) = False" using assms(1) by simp
    have e: "m * 2 ^ j * 2 ^ nat (- int j) = m * 2 ^ j" "1 * 2 ^ nat (- (- int j)) = (2::nat) ^ j" by simp_all
    have l: "int (log2 (m * 2 ^ j)) - int (log2 (2 ^ j)) = int (log2 m)" using assms(1) by (simp add: log2_shift log2_power)
    have c: "(2 ^ j * 2 ^ nat (int (log2 m)) \<le> m * 2 ^ j * 2 ^ nat (- int (log2 m))) = True" using le by simp
    have x: "max (int (log2 m)) (- 1022) = int (log2 m)" by simp
    show ?thesis unfolding f64_round_def Let_def nz if_False e l c if_True x n power_0 mult_1_right d ..
  qed
  ultimately show ?thesis by linarith
qed

text \<open>The significand and the exponent of an integer.\<close>

lemma f64_signed_parts:
  assumes "b < 2 ^ 63"
  shows "f64_abs (f64_signed neg b) = b \<and> f64_neg (f64_signed neg b) = neg"
proof -
  have "(2 ^ 63 + b) mod 2 ^ 63 = b" unfolding mod_add_self1 using assms by (rule mod_less)
  moreover have "b mod 2 ^ 63 = b" "\<not> 2 ^ 63 \<le> b" using assms by (rule mod_less, simp only: not_le)
  ultimately show ?thesis unfolding f64_abs_def f64_neg_def f64_signed_def by (cases neg) (simp_all only: if_True if_False le_add1 add_0 simp_thms)
qed

lemma f64_parts:
  assumes "0 < m" "m < 2 ^ 53" "a = f64_signed neg (f64_round m 1 0)"
  shows "f64_man a = m * 2 ^ (52 - log2 m) \<and> f64_exp a = int (log2 m) - 52 \<and> f64_neg a = neg \<and> \<not> f64_nan a \<and> \<not> f64_inf a \<and> log2 m \<le> 52"
proof -
  note k = scaled_bounds(1) [OF assms(1,2)] and s = scaled_bounds(2,3) [OF assms(1,2)]
  let ?s = "m * 2 ^ (52 - log2 m)"
  have r: "f64_round m 1 0 = (log2 m + 1022) * 2 ^ 52 + ?s" using f64_round_int [OF assms(1,2), of 0] by simp
  define t where "t = ?s - 2 ^ 52"
  have t: "?s = 2 ^ 52 + t" "t < 2 ^ 52" using s by (simp_all add: t_def)
  have r': "f64_round m 1 0 = (log2 m + 1023) * 2 ^ 52 + t" using r t by (simp add: algebra_simps)
  have lim: "(log2 m + 1023) * 2 ^ 52 + t < 1076 * 2 ^ 52" using t(2) mult_right_mono [of "log2 m + 1023" 1075 "2 ^ 52 :: nat"] k by simp
  have abs: "f64_abs a = (log2 m + 1023) * 2 ^ 52 + t" "f64_neg a = neg" using f64_signed_parts [of "f64_round m 1 0" neg] lim r' assms(3) by simp_all
  have big: "\<not> (log2 m + 1023) * 2 ^ 52 + t < 2 ^ 52" by simp
  have dm: "((log2 m + 1023) * 2 ^ 52 + t) div 2 ^ 52 = log2 m + 1023" "((log2 m + 1023) * 2 ^ 52 + t) mod 2 ^ 52 = t"
    unfolding mod_mult_self3 using t(2) by (simp_all only: div_mult_self3 div_less mod_less)
  show ?thesis using abs big dm t k lim by (simp add: f64_man_def f64_exp_def f64_nan_def f64_inf_def Let_def)
qed

lemma f64_of_zero: "f64_of_int 0 = 0" "f64_man 0 = 0" "f64_exp 0 = -1074" "\<not> f64_neg 0" "\<not> f64_nan 0" "\<not> f64_inf 0"
  by (simp_all add: f64_of_int_def f64_signed_def f64_round_def f64_man_def f64_exp_def f64_neg_def f64_nan_def f64_inf_def f64_abs_def)

text \<open>An integer is a significand times a power of two, here for the exponents that are not larger than its own.\<close>

lemma f64_of_int_parts:
  assumes "\<bar>n\<bar> < 2 ^ 53"
  shows "\<not> f64_nan (f64_of_int n)" "\<not> f64_inf (f64_of_int n)" "f64_neg (f64_of_int n) \<longleftrightarrow> n < 0" "f64_exp (f64_of_int n) \<le> 0"
    "e \<le> f64_exp (f64_of_int n) \<Longrightarrow> int (f64_man (f64_of_int n) * 2 ^ nat (f64_exp (f64_of_int n) - e)) = \<bar>n\<bar> * 2 ^ nat (- e)"
proof -
  have all: "\<not> f64_nan (f64_of_int n) \<and> \<not> f64_inf (f64_of_int n) \<and> (f64_neg (f64_of_int n) \<longleftrightarrow> n < 0) \<and> f64_exp (f64_of_int n) \<le> 0 \<and>
    (\<forall>e. e \<le> f64_exp (f64_of_int n) \<longrightarrow> int (f64_man (f64_of_int n) * 2 ^ nat (f64_exp (f64_of_int n) - e)) = \<bar>n\<bar> * 2 ^ nat (- e))"
  proof (cases "n = 0")
    case True
    then show ?thesis by (simp add: f64_of_zero)
  next
    case False
    let ?m = "nat \<bar>n\<bar>"
    have m: "0 < ?m" "?m < 2 ^ 53" using False assms by (simp_all add: nat_less_iff)
    note p = f64_parts [OF m, of "f64_of_int n" "n < 0"]
    have q: "f64_man (f64_of_int n) = ?m * 2 ^ (52 - log2 ?m)" "f64_exp (f64_of_int n) = int (log2 ?m) - 52" "log2 ?m \<le> 52" using p by (simp_all add: f64_of_int_def)
    have "int (f64_man (f64_of_int n) * 2 ^ nat (f64_exp (f64_of_int n) - e)) = \<bar>n\<bar> * 2 ^ nat (- e)" if e: "e \<le> f64_exp (f64_of_int n)" for e
    proof -
      have "52 - log2 ?m + nat (f64_exp (f64_of_int n) - e) = nat (- e)" using e q(2,3) by linarith
      then show ?thesis unfolding q(1) mult.assoc power_add [symmetric] by simp
    qed
    then show ?thesis using p q by (auto simp: f64_of_int_def)
  qed
  then show "\<not> f64_nan (f64_of_int n)" "\<not> f64_inf (f64_of_int n)" "f64_neg (f64_of_int n) \<longleftrightarrow> n < 0" "f64_exp (f64_of_int n) \<le> 0"
    "e \<le> f64_exp (f64_of_int n) \<Longrightarrow> int (f64_man (f64_of_int n) * 2 ^ nat (f64_exp (f64_of_int n) - e)) = \<bar>n\<bar> * 2 ^ nat (- e)" by blast+
qed

lemma f64_add_int:
  assumes "\<bar>a\<bar> < 2 ^ 53" "\<bar>b\<bar> < 2 ^ 53" "\<bar>a + b\<bar> < 2 ^ 53"
  shows "f64_add (f64_of_int a) (f64_of_int b) = f64_of_int (a + b)"
proof -
  let ?e = "min (f64_exp (f64_of_int a)) (f64_exp (f64_of_int b))"
  note p = f64_of_int_parts [OF assms(1)] and q = f64_of_int_parts [OF assms(2)]
  have x: "int (f64_man (f64_of_int a) * 2 ^ nat (f64_exp (f64_of_int a) - ?e)) = \<bar>a\<bar> * 2 ^ nat (- ?e)"
    "int (f64_man (f64_of_int b) * 2 ^ nat (f64_exp (f64_of_int b) - ?e)) = \<bar>b\<bar> * 2 ^ nat (- ?e)" using p(5) q(5) by simp_all
  have s: "(if a < 0 then - (\<bar>a\<bar> * 2 ^ nat (- ?e)) else \<bar>a\<bar> * 2 ^ nat (- ?e)) + (if b < 0 then - (\<bar>b\<bar> * 2 ^ nat (- ?e)) else \<bar>b\<bar> * 2 ^ nat (- ?e)) =
      (a + b) * 2 ^ nat (- ?e)" by (simp add: algebra_simps)
  have sum: "f64_add (f64_of_int a) (f64_of_int b) =
      f64_signed (if (a + b) * 2 ^ nat (- ?e) = 0 then a < 0 \<and> b < 0 else (a + b) * 2 ^ nat (- ?e) < 0) (f64_round (nat \<bar>(a + b) * 2 ^ nat (- ?e)\<bar>) 1 ?e)"
    unfolding f64_add_def Let_def x p(3) q(3) s using p(1,2) q(1,2) by simp
  have e: "?e = - int (nat (- ?e))" using p(4) by linarith
  show ?thesis
  proof (cases "a + b = 0")
    case True
    then show ?thesis unfolding sum by (auto simp: f64_of_zero f64_signed_def f64_round_def)
  next
    case False
    let ?m = "nat \<bar>a + b\<bar>"
    have m: "0 < ?m" "?m < 2 ^ 53" using False assms(3) by (simp_all add: nat_less_iff)
    have "nat \<bar>(a + b) * 2 ^ nat (- ?e)\<bar> = ?m * 2 ^ nat (- ?e)" by (simp add: abs_mult nat_mult_distrib nat_power_eq)
    then have "f64_round (nat \<bar>(a + b) * 2 ^ nat (- ?e)\<bar>) 1 ?e = f64_round ?m 1 0"
      using f64_round_int [OF m, of "nat (- ?e)"] f64_round_int [OF m, of 0] e by simp
    moreover have "(a + b) * 2 ^ nat (- ?e) < 0 \<longleftrightarrow> a + b < 0" "(a + b) * 2 ^ nat (- ?e) = 0 \<longleftrightarrow> False" using False by (simp_all add: mult_less_0_iff)
    ultimately show ?thesis unfolding sum by (simp only: f64_of_int_def if_False)
  qed
qed

subsection \<open>Keys that are not plain\<close>

text \<open>A NaN is not equal to itself, so each of the three assignments to \<^verbatim>\<open>groups_[key]\<close> makes an entry: one row gives three groups, of which
  only the last has the row, and that one has no representative.\<close>

lemma nan_key_three_groups:
  assumes "v_type v = TYPE_FLOAT" "f32_nan (float_val v)"
  shows "group_add H [v] r [] = [([v], GroupData_default), ([v], GroupData_default\<lparr>gd_representative := Some r\<rparr>), ([v], GroupData_default\<lparr>gd_records := [r]\<rparr>)]"
proof -
  have "\<not> same_key H [v] [v]" using assms by (simp add: same_key_def group_key_eq_def value_eq_def f32_eq_def)
  then show ?thesis by (simp add: group_add_def has_key_def GroupData_default_def)
qed

text \<open>The two zeros are equal, but their texts, of which the hash is made, are not.\<close>

lemma zeros_hash_differently:
  "value_eq (set_float [0, 0, 0, 0] v) (set_float [0, 0, 0, 128] v)"
  "value_to_string (set_float [0, 0, 0, 0] v) \<noteq> value_to_string (set_float [0, 0, 0, 128] v)"
proof -
  have z: "le_nat [0, 0, 0, 0] = 0" "le_nat [0, 0, 0, 128] = 2 ^ 31" by simp_all
  have "f32_eq [0, 0, 0, 0] [0, 0, 0, 128]" unfolding f32_eq_def f32_nan_def f32_rank_def z by simp
  then show "value_eq (set_float [0, 0, 0, 0] v) (set_float [0, 0, 0, 128] v)" by (simp add: value_eq_def set_float_def float_val_def read_bytes_def)
  have p: "f32_neg [0, 0, 0, 128]" "\<not> f32_neg [0, 0, 0, 0]" "f32_abs [0, 0, 0, 128] = 0" "f32_abs [0, 0, 0, 0] = 0" "\<not> f32_nan [0, 0, 0, 0]" "\<not> f32_nan [0, 0, 0, 128]"
    unfolding f32_neg_def f32_abs_def f32_nan_def z by simp_all
  have "f32_to_string [0, 0, 0, 128] = ''-'' @ f32_to_string [0, 0, 0, 0]" unfolding f32_to_string_def f32_inf_def f32_man_def f32_exp_def Let_def using p by simp
  then have "map of_char (f32_to_string [0, 0, 0, 0]) \<noteq> (map of_char (f32_to_string [0, 0, 0, 128]) :: bytes)" by simp
  then show "value_to_string (set_float [0, 0, 0, 0] v) \<noteq> value_to_string (set_float [0, 0, 0, 128] v)"
    by (simp add: value_to_string_def set_float_def float_val_def read_bytes_def)
qed

end
