(* ===== verification/Exec_Agg.thy ===== *)
theory Exec_Agg
  imports Exec_Group
begin

text \<open>
  Aggregation (\<^verbatim>\<open>src/src/execution/executor_aggregation_optimized.h\<close>) and the check of aggregates and grouping in
  \<^verbatim>\<open>src/src/analyze/analyze.cpp\<close>. With a group executor below it, the aggregates of each group are computed from its records; otherwise the
  rows are streamed once and all aggregates are computed together.

  The vectors of the streaming computation, one entry for each select expression, are one list of records here. What the
  child executor is (\<^verbatim>\<open>dynamic_cast\<close>) is part of the model: the columns of its index for an index scan.

  Shown: a grouped query returns the aggregates of each group; the aggregates are the count, the sum, the least and the greatest
  value; and streaming computes what the loops over collected records compute, in the same cases.
\<close>

subsection \<open>The check of the analyser\<close>

fun unalias :: "SelExpr \<Rightarrow> SelExpr" where
  "unalias (AliasExpr e name) = e"
| "unalias e = e"

text \<open>The column an expression names; without a table the first one of that name.\<close>

definition agg_meta :: "ColMeta list \<Rightarrow> string \<times> string \<Rightarrow> ColMeta option" where
  "agg_meta cols tc =
     (if fst tc = [] then List.find (\<lambda>c. col_name c = snd tc) cols
      else List.find (\<lambda>c. col_tab_name c = fst tc \<and> col_name c = snd tc) cols)"

fun check_agg_expr :: "SelExpr \<Rightarrow> ColMeta list \<Rightarrow> db_error + unit" where
  "check_agg_expr (AliasExpr e name) cols = check_agg_expr e cols"
| "check_agg_expr (AggExpr t arg) cols =
     (if t = AGG_COUNT \<and> arg = None then Inr ()
      else case arg_col arg of
        None \<Rightarrow> Inl (InternalError ''aggregate of something that is not a column'')
      | Some tc \<Rightarrow>
          (case agg_meta cols tc of
             None \<Rightarrow> Inl (ColumnNotFoundError (fst tc @ ''.'' @ snd tc))
           | Some c \<Rightarrow> if t = AGG_COUNT \<or> is_numeric_type (col_type c) then Inr ()
                       else Inl (IncompatibleTypeError (coltype2str (col_type c)) ''int/float'')))"
| "check_agg_expr e cols = Inr ()"

definition names_match :: "string \<times> string \<Rightarrow> string \<times> string \<Rightarrow> bool" where
  "names_match a b = (if fst a = [] \<or> fst b = [] then snd a = snd b else a = b)"

fun check_group_by_semantics :: "SelExpr list \<Rightarrow> SelExpr list \<Rightarrow> db_error + unit" where
  "check_group_by_semantics [] group_by = Inr ()"
| "check_group_by_semantics (e # es) group_by =
     (case as_col (unalias e) of
        None \<Rightarrow> check_group_by_semantics es group_by
      | Some tc \<Rightarrow>
          if list_ex (\<lambda>g. case as_col g of None \<Rightarrow> False | Some gc \<Rightarrow> names_match tc gc) group_by
          then check_group_by_semantics es group_by
          else Inl (InternalError ''must appear in the GROUP BY clause or be used in an aggregate function''))"

subsection \<open>Aggregates of collected records\<close>

definition compute_single_aggregation :: "ColMeta list \<Rightarrow> AggType \<Rightarrow> SelExpr option \<Rightarrow> bytes list \<Rightarrow> Value checked" where
  "compute_single_aggregation cols t arg rs =
     (case t of
        AGG_COUNT \<Rightarrow>
          (case arg of
             None \<Rightarrow> Some (Inr (set_int (int (length rs)) Value_default))
           | Some _ \<Rightarrow>
               chk (case arg_col arg of None \<Rightarrow> Some (Inr 0) | Some tc \<Rightarrow> chk (get_col_idx cols tc) (\<lambda>c. count_loop c rs)) (\<lambda>n.
                 Some (Inr (set_int n Value_default))))
      | AGG_SUM \<Rightarrow>
          if rs = [] then Some (Inr (set_int 0 Value_default))
          else (case arg_col arg of None \<Rightarrow> Some (Inr Value_default) | Some tc \<Rightarrow> chk (get_col_idx cols tc) (\<lambda>c. sum_loop c rs))
      | AGG_AVG \<Rightarrow>
          if rs = [] then Some (Inr (set_float f32_zero Value_default))
          else (case arg_col arg of None \<Rightarrow> Some (Inr (avg_of (0, 0))) | Some tc \<Rightarrow> chk (get_col_idx cols tc) (\<lambda>c. avg_loop c rs))
      | _ \<Rightarrow>
          if rs = [] then Some (Inr (set_int 0 Value_default))
          else case arg_col arg of
            None \<Rightarrow> Some (Inr (set_int 0 Value_default))
          | Some tc \<Rightarrow> chk (get_col_idx cols tc) (\<lambda>c. chk (min_max_loop t c rs) (\<lambda>m.
              Some (Inr (case m of
                Some v \<Rightarrow> v
              | None \<Rightarrow> (case col_type c of
                           TYPE_INT \<Rightarrow> set_int 0 Value_default
                         | TYPE_FLOAT \<Rightarrow> set_float f32_zero Value_default
                         | TYPE_STRING \<Rightarrow> set_str [] Value_default))))))"

fun map_chk :: "('a \<Rightarrow> 'b checked) \<Rightarrow> 'a list \<Rightarrow> 'b list checked" where
  "map_chk f [] = Some (Inr [])"
| "map_chk f (x # xs) = chk (f x) (\<lambda>y. chk (map_chk f xs) (\<lambda>ys. Some (Inr (y # ys))))"

definition group_value :: "ColMeta list \<Rightarrow> bytes list \<Rightarrow> SelExpr \<Rightarrow> Value checked" where
  "group_value cols rs e =
     (case unalias e of
        AggExpr t arg \<Rightarrow> compute_single_aggregation cols t arg rs
      | PlainExpr (ColRef tab name) \<Rightarrow>
          (case rs of [] \<Rightarrow> Some (Inr Value_default) | r # _ \<Rightarrow> chk (get_col_idx cols (tab, name)) (\<lambda>c. value_at c r))
      | _ \<Rightarrow> Some (Inr Value_default))"

definition compute_aggregation_for_group :: "ColMeta list \<Rightarrow> SelExpr list \<Rightarrow> bytes list \<Rightarrow> Value list checked" where
  "compute_aggregation_for_group cols es rs = map_chk (group_value cols rs) es"

subsection \<open>Streaming\<close>

definition is_null_direct :: "ColMeta \<Rightarrow> bytes \<Rightarrow> bool checked" where
  "is_null_direct c r =
     (if col_type c = TYPE_STRING \<and> 0 < col_len c then chk (load (col_offset c) 1 r) (\<lambda>b. Some (Inr (b = [0]))) else Some (Inr False))"

definition compare_values_direct :: "ColMeta \<Rightarrow> bytes \<Rightarrow> Value \<Rightarrow> AggType \<Rightarrow> bool checked" where
  "compare_values_direct c r v t =
     (case col_type c of
        TYPE_INT \<Rightarrow> chk (load (col_offset c) 4 r) (\<lambda>b. Some (Inr (if t = AGG_MIN then dec_i32 b < int_val v else int_val v < dec_i32 b)))
      | TYPE_FLOAT \<Rightarrow> chk (load (col_offset c) 4 r) (\<lambda>b. Some (Inr (if t = AGG_MIN then f32_less b (float_val v) else f32_less (float_val v) b)))
      | TYPE_STRING \<Rightarrow> chk (load (col_offset c) (col_len c) r) (\<lambda>b.
          Some (Inr (if t = AGG_MIN then str_less (c_str b) (v_str v) else str_less (v_str v) (c_str b)))))"

record AggState =
  st_count :: int
  st_int_sum :: int
  st_float_sum :: bytes
  st_min :: Value
  st_max :: Value
  st_first :: bool

definition AggState_init :: AggState where
  "AggState_init = \<lparr>st_count = 0, st_int_sum = 0, st_float_sum = f32_zero, st_min = Value_default, st_max = Value_default, st_first = True\<rparr>"

definition stream_count :: "ColMeta \<Rightarrow> bytes \<Rightarrow> AggState \<Rightarrow> AggState checked" where
  "stream_count c r s = chk (is_null_direct c r) (\<lambda>b. if b then Some (Inr s) else chk (int_plus (st_count s) 1) (\<lambda>n. Some (Inr (s\<lparr>st_count := n\<rparr>))))"

definition stream_sum :: "ColMeta \<Rightarrow> bytes \<Rightarrow> AggState \<Rightarrow> AggState checked" where
  "stream_sum c r s =
     chk (is_null_direct c r) (\<lambda>b. if b then Some (Inr s) else chk (int_plus (st_count s) 1) (\<lambda>n.
       case col_type c of
         TYPE_INT \<Rightarrow> chk (load (col_offset c) 4 r) (\<lambda>x. chk (int_plus (st_int_sum s) (dec_i32 x)) (\<lambda>m. Some (Inr (s\<lparr>st_count := n, st_int_sum := m\<rparr>))))
       | TYPE_FLOAT \<Rightarrow> chk (load (col_offset c) 4 r) (\<lambda>x. Some (Inr (s\<lparr>st_count := n, st_float_sum := f32_add (st_float_sum s) x\<rparr>)))
       | TYPE_STRING \<Rightarrow> Some (Inr (s\<lparr>st_count := n\<rparr>))))"

definition stream_min_max :: "AggType \<Rightarrow> ColMeta \<Rightarrow> bytes \<Rightarrow> AggState \<Rightarrow> AggState checked" where
  "stream_min_max t c r s =
     chk (is_null_direct c r) (\<lambda>b.
       if b then Some (Inr s)
       else if st_first s then chk (value_at c r) (\<lambda>v. Some (Inr (s\<lparr>st_min := v, st_max := v, st_first := False\<rparr>)))
       else chk (compare_values_direct c r (if t = AGG_MIN then st_min s else st_max s) t) (\<lambda>b.
         if \<not> b then Some (Inr s)
         else chk (value_at c r) (\<lambda>v. Some (Inr (if t = AGG_MIN then s\<lparr>st_min := v\<rparr> else s\<lparr>st_max := v\<rparr>)))))"

definition stream_one :: "ColMeta list \<Rightarrow> SelExpr \<Rightarrow> bytes \<Rightarrow> AggState \<Rightarrow> AggState checked" where
  "stream_one cols e r s =
     (case unalias e of
        AggExpr t arg \<Rightarrow>
          if t = AGG_COUNT \<and> arg = None then chk (int_plus (st_count s) 1) (\<lambda>n. Some (Inr (s\<lparr>st_count := n\<rparr>)))
          else (case arg_col arg of
            None \<Rightarrow> Some (Inr s)
          | Some tc \<Rightarrow> chk (get_col_idx cols tc) (\<lambda>c.
              case t of AGG_COUNT \<Rightarrow> stream_count c r s | AGG_SUM \<Rightarrow> stream_sum c r s | AGG_AVG \<Rightarrow> stream_sum c r s | _ \<Rightarrow> stream_min_max t c r s))
      | _ \<Rightarrow> Some (Inr s))"

definition update_streaming_agg_state :: "ColMeta list \<Rightarrow> SelExpr list \<Rightarrow> bytes \<Rightarrow> AggState list \<Rightarrow> AggState list checked" where
  "update_streaming_agg_state cols es r ss = map_chk (\<lambda>(e, s). stream_one cols e r s) (zip es ss)"

definition final_one :: "ColMeta list \<Rightarrow> SelExpr \<Rightarrow> AggState \<Rightarrow> Value checked" where
  "final_one cols e s =
     (case unalias e of
        AggExpr t arg \<Rightarrow>
          (case t of
             AGG_COUNT \<Rightarrow> Some (Inr (set_int (st_count s) Value_default))
           | AGG_SUM \<Rightarrow>
               (case arg_col arg of
                  None \<Rightarrow> Some (Inr Value_default)
                | Some tc \<Rightarrow> chk (get_col_idx cols tc) (\<lambda>c. Some (Inr (case col_type c of
                      TYPE_INT \<Rightarrow> set_int (st_int_sum s) Value_default
                    | TYPE_FLOAT \<Rightarrow> set_float (st_float_sum s) Value_default
                    | TYPE_STRING \<Rightarrow> Value_default))))
           | AGG_AVG \<Rightarrow>
               (case arg_col arg of
                  None \<Rightarrow> Some (Inr Value_default)
                | Some tc \<Rightarrow> chk (get_col_idx cols tc) (\<lambda>c. Some (Inr (case col_type c of
                      TYPE_INT \<Rightarrow> set_float (if 0 < st_count s then f32_div (f32_of_int (st_int_sum s)) (f32_of_int (st_count s)) else f32_zero) Value_default
                    | TYPE_FLOAT \<Rightarrow> set_float (if 0 < st_count s then f32_div (st_float_sum s) (f32_of_int (st_count s)) else f32_zero) Value_default
                    | TYPE_STRING \<Rightarrow> Value_default))))
           | AGG_MIN \<Rightarrow> Some (Inr (st_min s))
           | AGG_MAX \<Rightarrow> Some (Inr (st_max s)))
      | _ \<Rightarrow> Some (Inr Value_default))"

definition compute_final_results :: "ColMeta list \<Rightarrow> SelExpr list \<Rightarrow> AggState list \<Rightarrow> Value list checked" where
  "compute_final_results cols es ss = map_chk (\<lambda>(e, s). final_one cols e s) (zip es ss)"

definition check_has_count :: "SelExpr list \<Rightarrow> bool" where
  "check_has_count es = list_ex (\<lambda>e. case unalias e of AggExpr t arg \<Rightarrow> t = AGG_COUNT | _ \<Rightarrow> False) es"

text \<open>The executor over rows that are not grouped; \<open>ag_index\<close> has the columns of the index when the child is an index scan.\<close>

record ('q, 's) agg_exec =
  ag_child :: "('q, 's) executor"
  ag_index :: "string list option"
  ag_exprs :: "SelExpr list"
  ag_fuel :: nat

fun stream_loop :: "nat \<Rightarrow> ('q, 's) agg_exec \<Rightarrow> 's \<Rightarrow> AggState list \<Rightarrow> bool \<Rightarrow> (AggState list \<times> bool) checked" where
  "stream_loop 0 x s ss has = None"
| "stream_loop (Suc n) x s ss has =
     (if ex_is_end (ag_child x) s then Some (Inr (ss, has))
      else chk (ex_get (ag_child x) s) (\<lambda>r.
        case r of
          None \<Rightarrow> None
        | Some r \<Rightarrow> chk (update_streaming_agg_state (ex_cols (ag_child x)) (ag_exprs x) r ss) (\<lambda>ss.
            chk (ex_next (ag_child x) s) (\<lambda>s. stream_loop n x s ss True))))"

fun count_star_loop :: "nat \<Rightarrow> ('q, 's) agg_exec \<Rightarrow> 's \<Rightarrow> int \<Rightarrow> int checked" where
  "count_star_loop 0 x s n = None"
| "count_star_loop (Suc k) x s n =
     (if ex_is_end (ag_child x) s then Some (Inr n)
      else chk (int_plus n 1) (\<lambda>n. chk (ex_next (ag_child x) s) (\<lambda>s. count_star_loop k x s n)))"

fun count_column_loop :: "nat \<Rightarrow> ('q, 's) agg_exec \<Rightarrow> ColMeta \<Rightarrow> 's \<Rightarrow> int \<Rightarrow> int checked" where
  "count_column_loop 0 x c s n = None"
| "count_column_loop (Suc k) x c s n =
     (if ex_is_end (ag_child x) s then Some (Inr n)
      else chk (ex_get (ag_child x) s) (\<lambda>r.
        case r of
          None \<Rightarrow> None
        | Some r \<Rightarrow> chk (is_null_direct c r) (\<lambda>b. chk (if b then Some (Inr n) else int_plus n 1) (\<lambda>n.
            chk (ex_next (ag_child x) s) (\<lambda>s. count_column_loop k x c s n)))))"

definition compute_single_count_aggregation :: "('q, 's) agg_exec \<Rightarrow> SelExpr option \<Rightarrow> 's \<Rightarrow> Value list checked" where
  "compute_single_count_aggregation x arg s =
     chk (case arg of
            None \<Rightarrow> count_star_loop (ag_fuel x) x s 0
          | Some _ \<Rightarrow> (case arg_col arg of
                        None \<Rightarrow> Some (Inr 0)
                      | Some tc \<Rightarrow> chk (get_col_idx (ex_cols (ag_child x)) tc) (\<lambda>c. count_column_loop (ag_fuel x) x c s 0)))
       (\<lambda>n. Some (Inr [set_int n Value_default]))"

text \<open>The last row of a scan, and the state at its end.\<close>

fun last_value_loop :: "nat \<Rightarrow> ('q, 's) agg_exec \<Rightarrow> string \<times> string \<Rightarrow> 's \<Rightarrow> Value option \<Rightarrow> (Value option \<times> 's) checked" where
  "last_value_loop 0 x tc s m = None"
| "last_value_loop (Suc k) x tc s m =
     (if ex_is_end (ag_child x) s then Some (Inr (m, s))
      else chk (ex_get (ag_child x) s) (\<lambda>r.
        case r of
          None \<Rightarrow> None
        | Some r \<Rightarrow> chk (get_col_idx (ex_cols (ag_child x)) tc) (\<lambda>c. chk (value_at c r) (\<lambda>v.
            chk (ex_next (ag_child x) s) (\<lambda>s. last_value_loop k x tc s (Some v))))))"

definition try_index_min_max_optimization :: "('q, 's) agg_exec \<Rightarrow> AggType \<Rightarrow> SelExpr option \<Rightarrow> 's \<Rightarrow> (Value option \<times> 's) checked" where
  "try_index_min_max_optimization x t arg s =
     (case (ag_index x, arg_col arg) of
        (Some names, Some tc) \<Rightarrow>
          if names = [] \<or> snd tc \<noteq> last names then Some (Inr (None, s))
          else if t = AGG_MIN then
            (if ex_is_end (ag_child x) s then Some (Inr (None, s))
             else chk (ex_get (ag_child x) s) (\<lambda>r.
               case r of
                 None \<Rightarrow> None
               | Some r \<Rightarrow> chk (get_col_idx (ex_cols (ag_child x)) tc) (\<lambda>c. chk (value_at c r) (\<lambda>v. Some (Inr (Some v, s))))))
          else last_value_loop (ag_fuel x) x tc s None
      | _ \<Rightarrow> Some (Inr (None, s)))"

definition stream_all :: "('q, 's) agg_exec \<Rightarrow> 's \<Rightarrow> Value list checked" where
  "stream_all x s =
     chk (stream_loop (ag_fuel x) x s (map (\<lambda>_. AggState_init) (ag_exprs x)) False) (\<lambda>(ss, has).
       if \<not> has \<and> \<not> check_has_count (ag_exprs x) then Some (Inr [])
       else compute_final_results (ex_cols (ag_child x)) (ag_exprs x) ss)"

definition compute_streaming_aggregation :: "('q, 's) agg_exec \<Rightarrow> 's \<Rightarrow> Value list checked" where
  "compute_streaming_aggregation x s =
     (case map unalias (ag_exprs x) of
        [AggExpr t arg] \<Rightarrow>
          if t = AGG_MIN \<or> t = AGG_MAX
          then chk (try_index_min_max_optimization x t arg s) (\<lambda>(m, s). case m of Some v \<Rightarrow> Some (Inr [v]) | None \<Rightarrow> stream_all x s)
          else if t = AGG_COUNT then compute_single_count_aggregation x arg s
          else stream_all x s
      | _ \<Rightarrow> stream_all x s)"

subsection \<open>The executor\<close>

text \<open>\<^verbatim>\<open>results_\<close> and \<^verbatim>\<open>current_result_\<close>.\<close>

type_synonym agg_state = "Value list list \<times> nat"

definition agg_begin :: "('q, 's) agg_exec \<Rightarrow> 'q \<Rightarrow> agg_state checked" where
  "agg_begin x q = chk (ex_begin (ag_child x) q) (\<lambda>s. chk (compute_streaming_aggregation x s) (\<lambda>vs. Some (Inr (if vs = [] then [] else [vs], 0))))"

fun agg_groups :: "ColMeta list \<Rightarrow> SelExpr list \<Rightarrow> groups \<Rightarrow> Value list list checked" where
  "agg_groups cols es [] = Some (Inr [])"
| "agg_groups cols es (g # gs) =
     chk (compute_aggregation_for_group cols es (getCurrentGroupRecords (g # gs))) (\<lambda>vs. chk (agg_groups cols es gs) (\<lambda>vss. Some (Inr (vs # vss))))"

definition agg_begin_groups :: "(bytes \<Rightarrow> 64 word) \<Rightarrow> (groups \<Rightarrow> groups) \<Rightarrow> ('q, 's) group_exec \<Rightarrow> SelExpr list \<Rightarrow> 'q \<Rightarrow> agg_state checked" where
  "agg_begin_groups H ord x es q =
     chk (group_begin H ord x q) (\<lambda>gs. chk (agg_groups (ex_cols (ge_child x)) es gs) (\<lambda>vss. Some (Inr (vss, 0))))"

definition agg_is_end :: "agg_state \<Rightarrow> bool" where
  "agg_is_end s \<longleftrightarrow> length (fst s) \<le> snd s"

definition agg_next :: "agg_state \<Rightarrow> agg_state checked" where
  "agg_next s = Some (Inr (fst s, snd s + 1))"

definition get_agg_result_type :: "ColMeta list \<Rightarrow> AggType \<Rightarrow> SelExpr option \<Rightarrow> ColType checked" where
  "get_agg_result_type cols t arg =
     (case t of
        AGG_COUNT \<Rightarrow> Some (Inr TYPE_INT)
      | AGG_AVG \<Rightarrow> Some (Inr TYPE_FLOAT)
      | _ \<Rightarrow> (case arg_col arg of None \<Rightarrow> Some (Inr TYPE_INT) | Some tc \<Rightarrow> chk (get_col_idx cols tc) (\<lambda>c. Some (Inr (col_type c)))))"

definition agg_name :: "AggType \<Rightarrow> string" where
  "agg_name t = (case t of AGG_COUNT \<Rightarrow> ''COUNT(*)'' | AGG_SUM \<Rightarrow> ''SUM'' | AGG_AVG \<Rightarrow> ''AVG'' | AGG_MIN \<Rightarrow> ''MIN'' | AGG_MAX \<Rightarrow> ''MAX'')"

text \<open>The type and the length of a column that is neither an aggregate nor a column are not initialised.\<close>

definition output_column :: "ColMeta list \<Rightarrow> nat \<Rightarrow> nat \<Rightarrow> SelExpr \<Rightarrow> ColMeta checked" where
  "output_column cols i off e =
     (let auto_name = ''col_'' @ to_string (int i);
          name = (case e of AliasExpr _ a \<Rightarrow> a | _ \<Rightarrow> auto_name);
          meta = (\<lambda>n t len. Some (Inr \<lparr>col_tab_name = [], col_name = (if name = auto_name then n else name), col_type = t, col_len = len, col_offset = off, col_index = False\<rparr>))
      in case unalias e of
           AggExpr t arg \<Rightarrow> chk (get_agg_result_type cols t arg) (\<lambda>ty. meta (agg_name t) ty 4)
         | PlainExpr (ColRef tab n) \<Rightarrow> chk (get_col_idx cols (tab, n)) (\<lambda>c. meta n (col_type c) (col_len c))
         | _ \<Rightarrow> None)"

fun build_output_columns :: "ColMeta list \<Rightarrow> nat \<Rightarrow> nat \<Rightarrow> SelExpr list \<Rightarrow> ColMeta list checked" where
  "build_output_columns cols i off [] = Some (Inr [])"
| "build_output_columns cols i off (e # es) =
     chk (output_column cols i off e) (\<lambda>c. chk (build_output_columns cols (i + 1) (off + col_len c) es) (\<lambda>cs. Some (Inr (c # cs))))"

definition agg_tuple_len :: "ColMeta list \<Rightarrow> nat" where
  "agg_tuple_len out = sum_list (map col_len out)"

definition put_value :: "ColMeta \<Rightarrow> Value \<Rightarrow> bytes \<Rightarrow> bytes checked" where
  "put_value c v buf =
     (case v_type v of
        TYPE_INT \<Rightarrow> store (col_offset c) (enc_i32 (int_val v)) buf
      | TYPE_FLOAT \<Rightarrow> store (col_offset c) (float_val v) buf
      | TYPE_STRING \<Rightarrow> store (col_offset c) (write_bytes 0 (take (col_len c) (v_str v)) (replicate (col_len c) 0)) buf)"

text \<open>The output record starts as memory that is not initialised (\<open>junk\<close>).\<close>

definition agg_get :: "(nat \<Rightarrow> bytes) \<Rightarrow> ColMeta list \<Rightarrow> agg_state \<Rightarrow> bytes option checked" where
  "agg_get junk out s =
     (if agg_is_end s then Some (Inr None)
      else chk (fold_chk (\<lambda>(c, v). put_value c v) (zip out (fst s ! snd s)) (junk (agg_tuple_len out))) (\<lambda>r. Some (Inr (Some r))))"

subsection \<open>Calls that do not throw\<close>

definition no_error :: "'a checked \<Rightarrow> bool" where
  "no_error m \<longleftrightarrow> (\<forall>e. m \<noteq> Some (Inl e))"

lemma no_error_simps [simp]: "no_error None" "no_error (Some (Inr x))" "no_error (load off n r)" "no_error (int_plus a b)" "no_error (store off bs r)"
  by (simp_all add: no_error_def load_def int_plus_def store_def)

lemma no_error_chk [intro]: "no_error m \<Longrightarrow> (\<And>x. m = Some (Inr x) \<Longrightarrow> no_error (k x)) \<Longrightarrow> no_error (chk m k)"
  by (auto simp: no_error_def chk_def split: option.splits sum.splits)

lemma no_error_fold: "(\<And>x s. x \<in> set xs \<Longrightarrow> no_error (f x s)) \<Longrightarrow> no_error (fold_chk f xs s)"
  by (induction xs arbitrary: s) auto

lemma no_error_map: "(\<And>x. x \<in> set xs \<Longrightarrow> no_error (f x)) \<Longrightarrow> no_error (map_chk f xs)"
proof (induction xs)
  case (Cons x xs)
  then show ?case unfolding map_chk.simps by (intro no_error_chk) auto
qed simp

lemma chk_eqI: "(\<And>x. m = Some (Inr x) \<Longrightarrow> k x = l x) \<Longrightarrow> chk m k = chk m l"
  by (auto simp: chk_def split: option.splits sum.splits)

lemma chk_assoc: "chk (chk m k) l = chk m (\<lambda>x. chk (k x) l)"
  by (auto simp: chk_def split: option.splits sum.splits)

lemma chk_swap: "no_error m \<Longrightarrow> no_error n \<Longrightarrow> chk m (\<lambda>x. chk n (\<lambda>y. k x y)) = chk n (\<lambda>y. chk m (\<lambda>x. k x y))"
  by (auto simp: chk_def no_error_def split: option.splits sum.splits)

lemma map_chk_length: "map_chk f xs = Some (Inr ys) \<Longrightarrow> length ys = length xs"
  by (induction xs arbitrary: ys) (auto simp: chk_Inr)

lemma map_chk_cong: "(\<And>x. x \<in> set xs \<Longrightarrow> f x = g x) \<Longrightarrow> map_chk f xs = map_chk g xs"
  by (induction xs) auto

text \<open>Two passes over a list are one pass with two steps.\<close>

lemma map_chk_seq:
  assumes "length es = length ss" "\<And>e s. e \<in> set es \<Longrightarrow> no_error (f e s)" "\<And>e s. e \<in> set es \<Longrightarrow> no_error (g e s)"
  shows "chk (map_chk (\<lambda>(e, s). f e s) (zip es ss)) (\<lambda>ts. map_chk (\<lambda>(e, s). g e s) (zip es ts)) = map_chk (\<lambda>(e, s). chk (f e s) (g e)) (zip es ss)"
  using assms
proof (induction es ss rule: list_induct2)
  case (Cons e es s ss)
  let ?m = "map_chk (\<lambda>(e, s). f e s) (zip es ss)" and ?g = "\<lambda>ts. map_chk (\<lambda>(e, s). g e s) (zip es ts)"
  have m: "no_error ?m" by (rule no_error_map) (use Cons.prems in \<open>auto dest: set_zip_leftD\<close>)
  have step: "chk ?m (\<lambda>ys. chk (g e y) (\<lambda>z. chk (?g ys) (\<lambda>zs. Some (Inr (z # zs))))) = chk (g e y) (\<lambda>z. chk (chk ?m ?g) (\<lambda>zs. Some (Inr (z # zs))))" for y
    using chk_swap [OF m, of "g e y"] Cons.prems by (simp add: chk_assoc)
  have "chk (map_chk (\<lambda>(e, s). f e s) (zip (e # es) (s # ss))) (\<lambda>ts. map_chk (\<lambda>(e, s). g e s) (zip (e # es) ts)) =
      chk (f e s) (\<lambda>y. chk ?m (\<lambda>ys. chk (g e y) (\<lambda>z. chk (?g ys) (\<lambda>zs. Some (Inr (z # zs))))))"
    by (simp add: chk_assoc)
  also have "\<dots> = chk (f e s) (\<lambda>y. chk (g e y) (\<lambda>z. chk (chk ?m ?g) (\<lambda>zs. Some (Inr (z # zs)))))" by (simp only: step)
  finally show ?case using Cons by (simp add: chk_assoc)
qed simp

lemma map_chk_fold:
  assumes "length es = length ss" "\<And>e r s. e \<in> set es \<Longrightarrow> no_error (u e r s)"
  shows "fold_chk (\<lambda>r ss. map_chk (\<lambda>(e, s). u e r s) (zip es ss)) rs ss = map_chk (\<lambda>(e, s). fold_chk (u e) rs s) (zip es ss)"
  using assms(1)
proof (induction rs arbitrary: ss)
  case Nil
  then show ?case by (induction es ss rule: list_induct2) (auto dest: sym)
next
  case (Cons r rs)
  have "fold_chk (\<lambda>r ss. map_chk (\<lambda>(e, s). u e r s) (zip es ss)) (r # rs) ss =
      chk (map_chk (\<lambda>(e, s). u e r s) (zip es ss)) (\<lambda>ts. map_chk (\<lambda>(e, s). fold_chk (u e) rs s) (zip es ts))"
    unfolding fold_chk.simps by (rule chk_eqI, rule Cons.IH) (use Cons.prems in \<open>auto dest: map_chk_length\<close>)
  also have "\<dots> = map_chk (\<lambda>(e, s). chk (u e r s) (fold_chk (u e) rs)) (zip es ss)"
    by (rule map_chk_seq [OF Cons.prems]) (simp_all add: assms(2) no_error_fold)
  finally show ?case by simp
qed

subsection \<open>The loops as folds\<close>

lemma stream_loop_fold:
  assumes "drain (ex_is_end (ag_child x)) (ex_next (ag_child x)) (ex_get (ag_child x)) n s = Some (Inr (map Some rs))"
  shows "stream_loop n x s ss has = chk (fold_chk (update_streaming_agg_state (ex_cols (ag_child x)) (ag_exprs x)) rs ss) (\<lambda>ss. Some (Inr (ss, has \<or> rs \<noteq> [])))"
  using assms
proof (induction n arbitrary: s ss has rs)
  case (Suc n)
  show ?case
  proof (cases "ex_is_end (ag_child x) s")
    case False
    then show ?thesis
    proof (rule drain_SucE [OF Suc.prems])
      fix r s' rs'
      assume r: "ex_get (ag_child x) s = Some (Inr (Some r))" "ex_next (ag_child x) s = Some (Inr s')" "rs = r # rs'"
        "drain (ex_is_end (ag_child x)) (ex_next (ag_child x)) (ex_get (ag_child x)) n s' = Some (Inr (map Some rs'))"
      show ?thesis using r False Suc.IH [OF r(4)] by (simp add: chk_assoc)
    qed
  qed (use Suc.prems in simp)
qed simp

lemma count_star_fold:
  assumes "drain (ex_is_end (ag_child x)) (ex_next (ag_child x)) (ex_get (ag_child x)) n s = Some (Inr (map Some rs))"
  shows "count_star_loop n x s k = fold_chk (\<lambda>r n. int_plus n 1) rs k"
  using assms
proof (induction n arbitrary: s k rs)
  case (Suc n)
  show ?case
  proof (cases "ex_is_end (ag_child x) s")
    case False
    then show ?thesis
    proof (rule drain_SucE [OF Suc.prems])
      fix r s' rs'
      assume r: "ex_get (ag_child x) s = Some (Inr (Some r))" "ex_next (ag_child x) s = Some (Inr s')" "rs = r # rs'"
        "drain (ex_is_end (ag_child x)) (ex_next (ag_child x)) (ex_get (ag_child x)) n s' = Some (Inr (map Some rs'))"
      show ?thesis using r False Suc.IH [OF r(4)] by simp
    qed
  qed (use Suc.prems in simp)
qed simp

lemma count_column_fold:
  assumes "drain (ex_is_end (ag_child x)) (ex_next (ag_child x)) (ex_get (ag_child x)) n s = Some (Inr (map Some rs))"
  shows "count_column_loop n x c s k = fold_chk (\<lambda>r n. chk (is_null_direct c r) (\<lambda>b. if b then Some (Inr n) else int_plus n 1)) rs k"
  using assms
proof (induction n arbitrary: s k rs)
  case (Suc n)
  show ?case
  proof (cases "ex_is_end (ag_child x) s")
    case False
    then show ?thesis
    proof (rule drain_SucE [OF Suc.prems])
      fix r s' rs'
      assume r: "ex_get (ag_child x) s = Some (Inr (Some r))" "ex_next (ag_child x) s = Some (Inr s')" "rs = r # rs'"
        "drain (ex_is_end (ag_child x)) (ex_next (ag_child x)) (ex_get (ag_child x)) n s' = Some (Inr (map Some rs'))"
      show ?thesis using r False Suc.IH [OF r(4)] by (simp add: chk_assoc)
    qed
  qed (use Suc.prems in simp)
qed simp

lemma count_fold: "0 \<le> k \<Longrightarrow> k + int (length rs) < 2 ^ 31 \<Longrightarrow> fold_chk (\<lambda>r n. int_plus n 1) rs k = Some (Inr (k + int (length rs)))"
  by (induction rs arbitrary: k) (simp_all add: int_plus_def int32_def)
subsection \<open>Checked aggregates\<close>

lemma agg_meta_idx: "agg_meta cols tc = Some c \<Longrightarrow> get_col_idx cols tc = Some (Inr c) \<and> c \<in> set cols"
proof -
  assume m: "agg_meta cols tc = Some c"
  have "List.find (\<lambda>c. col_name c = snd tc \<and> (fst tc = [] \<or> col_tab_name c = fst tc)) cols = agg_meta cols tc"
    by (auto simp: agg_meta_def intro!: arg_cong [where f = "\<lambda>p. List.find p cols"])
  then have f: "List.find (\<lambda>c. col_name c = snd tc \<and> (fst tc = [] \<or> col_tab_name c = fst tc)) cols = Some c" using m by simp
  then have "c \<in> set cols" by (auto simp: find_Some_iff)
  then show ?thesis by (simp add: get_col_idx_def f)
qed

lemma check_agg_cases:
  assumes "check_agg_expr (AggExpr t arg) cols = Inr ()"
  obtains "t = AGG_COUNT" "arg = None"
  | tc c where "arg \<noteq> None" "arg_col arg = Some tc" "get_col_idx cols tc = Some (Inr c)" "c \<in> set cols" "t = AGG_COUNT \<or> is_numeric_type (col_type c)"
proof (cases "t = AGG_COUNT \<and> arg = None")
  case False
  then obtain tc c where tc: "arg_col arg = Some tc" "agg_meta cols tc = Some c" "t = AGG_COUNT \<or> is_numeric_type (col_type c)"
    using assms by (auto split: option.splits if_splits)
  then have "arg \<noteq> None" by (cases arg) (auto simp: arg_col_def)
  then show ?thesis using that(2) tc agg_meta_idx [OF tc(2)] by blast
qed (use that(1) in blast)

text \<open>A select expression that is an aggregate and passes the check.\<close>

definition agg_checked :: "ColMeta list \<Rightarrow> SelExpr \<Rightarrow> bool" where
  "agg_checked cols e \<longleftrightarrow> (\<exists>t arg. unalias e = AggExpr t arg) \<and> check_agg_expr (unalias e) cols = Inr ()"

text \<open>A row with no NaN and no empty string, which the two ways of counting treat differently.\<close>

definition agg_row :: "ColMeta list \<Rightarrow> bytes \<Rightarrow> bool" where
  "agg_row cols r \<longleftrightarrow> (\<forall>c \<in> set cols. col_fits c r \<and> no_nan (col_value c r) \<and> is_null_direct c r = Some (Inr False))"

lemma no_error_if: "(b \<Longrightarrow> no_error m) \<Longrightarrow> (\<not> b \<Longrightarrow> no_error n) \<Longrightarrow> no_error (if b then m else n)"
  by simp

lemma no_error_col: "no_error m1 \<Longrightarrow> no_error m2 \<Longrightarrow> no_error m3 \<Longrightarrow> no_error (case t of TYPE_INT \<Rightarrow> m1 | TYPE_FLOAT \<Rightarrow> m2 | TYPE_STRING \<Rightarrow> m3)"
  by (cases t) simp_all

lemmas no_error_intros = no_error_chk no_error_if no_error_col no_error_simps

lemma no_error_reads [intro, simp]:
  "no_error (is_null_direct c r)" "no_error (value_at c r)" "no_error (compare_values_direct c r v t)"
  unfolding is_null_direct_def value_at_def compare_values_direct_def by (intro no_error_intros)+

lemma no_error_stream [simp]: "no_error (stream_count c r s)" "no_error (stream_sum c r s)" "no_error (stream_min_max t c r s)"
  unfolding stream_count_def stream_sum_def stream_min_max_def by (intro no_error_intros no_error_reads)+

lemma stream_one_no_error:
  assumes "agg_checked cols e"
  shows "no_error (stream_one cols e r s)"
proof -
  obtain t arg where e: "unalias e = AggExpr t arg" "check_agg_expr (AggExpr t arg) cols = Inr ()" using assms by (auto simp: agg_checked_def)
  show ?thesis using e(2) by (cases rule: check_agg_cases) (auto simp: stream_one_def e(1) split: AggType.split)
qed

lemma final_one_no_error:
  assumes "agg_checked cols e"
  shows "no_error (final_one cols e s)"
proof -
  obtain t arg where e: "unalias e = AggExpr t arg" "check_agg_expr (AggExpr t arg) cols = Inr ()" using assms by (auto simp: agg_checked_def)
  show ?thesis using e(2) by (cases rule: check_agg_cases) (auto simp: final_one_def e(1) split: AggType.split)
qed

lemma stream_count_fold:
  assumes "\<forall>r \<in> set rs. is_null_direct c r = Some (Inr False)"
  shows "chk (fold_chk (stream_count c) rs s) (\<lambda>s. k (st_count s)) = chk (fold_chk (\<lambda>r n. int_plus n 1) rs (st_count s)) k"
  using assms by (induction rs arbitrary: s) (auto simp: stream_count_def chk_assoc intro!: chk_eqI)

lemma stream_star_fold:
  "chk (fold_chk (\<lambda>r s. chk (int_plus (st_count s) 1) (\<lambda>n. Some (Inr (s\<lparr>st_count := n\<rparr>)))) rs s) (\<lambda>s. k (st_count s)) =
   chk (fold_chk (\<lambda>r n. int_plus n 1) rs (st_count s)) k"
  by (induction rs arbitrary: s) (auto simp: chk_assoc intro!: chk_eqI)

lemma int_plus_small: "0 \<le> n \<Longrightarrow> n + 1 < 2 ^ 31 \<Longrightarrow> int_plus n 1 = Some (Inr (n + 1))"
  by (simp add: int_plus_def int32_def)

lemma stream_sum_int:
  assumes "\<forall>r \<in> set rs. is_null_direct c r = Some (Inr False) \<and> col_fits c r" "col_type c = TYPE_INT" "0 \<le> st_count s" "st_count s + int (length rs) < 2 ^ 31"
  shows "chk (fold_chk (stream_sum c) rs s) (\<lambda>s. k (st_int_sum s)) = chk (fold_chk (\<lambda>r n. int_plus n (int_val (col_value c r))) rs (st_int_sum s)) k"
  using assms
proof (induction rs arbitrary: s)
  case (Cons r rs)
  have f: "col_fits c r" "is_null_direct c r = Some (Inr False)" using Cons.prems by simp_all
  have "load (col_offset c) 4 r = Some (Inr (col_bytes c r))" using f(1) Cons.prems(2) by (simp add: load_def col_fits_def col_bytes_def)
  moreover have "int_plus (st_count s) 1 = Some (Inr (st_count s + 1))" by (rule int_plus_small) (use Cons.prems in auto)
  ultimately have "stream_sum c r s = chk (int_plus (st_int_sum s) (int_val (col_value c r))) (\<lambda>m. Some (Inr (s\<lparr>st_count := st_count s + 1, st_int_sum := m\<rparr>)))"
    using f Cons.prems(2) by (simp add: stream_sum_def col_value_int)
  then show ?case using Cons by (auto simp: chk_assoc intro!: chk_eqI)
qed simp

lemma stream_sum_float:
  assumes "\<forall>r \<in> set rs. is_null_direct c r = Some (Inr False) \<and> col_fits c r" "col_type c = TYPE_FLOAT" "0 \<le> st_count s" "st_count s + int (length rs) < 2 ^ 31"
  shows "chk (fold_chk (stream_sum c) rs s) (\<lambda>s. k (st_float_sum s)) =
    chk (fold_chk (\<lambda>r x. Some (Inr (f32_add x (float_val (col_value c r))))) rs (st_float_sum s)) k"
  using assms
proof (induction rs arbitrary: s)
  case (Cons r rs)
  have f: "col_fits c r" "is_null_direct c r = Some (Inr False)" using Cons.prems by simp_all
  have "load (col_offset c) 4 r = Some (Inr (col_bytes c r))" using f(1) Cons.prems(2) by (simp add: load_def col_fits_def col_bytes_def)
  moreover have "int_plus (st_count s) 1 = Some (Inr (st_count s + 1))" by (rule int_plus_small) (use Cons.prems in auto)
  ultimately have "stream_sum c r s = Some (Inr (s\<lparr>st_count := st_count s + 1, st_float_sum := f32_add (st_float_sum s) (float_val (col_value c r))\<rparr>))"
    using f Cons.prems(2) by (simp add: stream_sum_def col_value_float)
  then show ?case using Cons by simp
qed simp

text \<open>The value kept so far: of the column, and in the state once there is one.\<close>

definition min_max_at :: "AggType \<Rightarrow> ColMeta \<Rightarrow> AggState \<Rightarrow> Value option \<Rightarrow> bool" where
  "min_max_at t c s m \<longleftrightarrow>
     (case m of None \<Rightarrow> st_first s | Some v \<Rightarrow> \<not> st_first s \<and> (if t = AGG_MIN then st_min s else st_max s) = v \<and> (\<exists>r. v = col_value c r \<and> col_fits c r \<and> no_nan v))"

lemma compare_direct_better:
  assumes "col_fits c r" "col_fits c r'" "no_nan (col_value c r)" "no_nan (col_value c r')" "is_numeric_type (col_type c)"
  shows "compare_values_direct c r (col_value c r') t = Some (Inr (better t (col_value c r) (col_value c r')))"
proof -
  note n = value_less_rank [OF assms(3,4)] value_eq_rank [OF assms(3,4)]
  have l: "load (col_offset c) 4 r = Some (Inr (col_bytes c r))" if "col_type c \<noteq> TYPE_STRING" using assms(1) that by (simp add: load_def col_fits_def col_bytes_def)
  show ?thesis
  proof (cases "col_type c")
    case TYPE_INT
    then show ?thesis using l assms col_value_int [OF assms(1)] by (auto simp: compare_values_direct_def better_def value_less_def value_gt_def value_le_def value_eq_def)
  next
    case TYPE_FLOAT
    note v = col_value_float [OF assms(1) TYPE_FLOAT] col_value_float [OF assms(2) TYPE_FLOAT]
    have "\<not> f32_nan (col_bytes c r)" "\<not> f32_nan (col_bytes c r')" using assms(3,4) TYPE_FLOAT v by (simp_all add: no_nan_def)
    then show ?thesis using TYPE_FLOAT l v
      by (auto simp: compare_values_direct_def better_def value_less_def value_gt_def value_le_def value_eq_def f32_less_def f32_eq_def)
  qed (use assms(5) in \<open>simp add: is_numeric_type_def\<close>)
qed
lemma stream_min_max_step:
  assumes "col_fits c r" "no_nan (col_value c r)" "is_null_direct c r = Some (Inr False)" "is_numeric_type (col_type c)" "min_max_at t c s m"
  shows "\<exists>s'. stream_min_max t c r s = Some (Inr s') \<and> min_max_at t c s' (min_max_step t (col_value c r) m)"
proof (cases m)
  case None
  then show ?thesis using assms by (auto simp: stream_min_max_def min_max_at_def min_max_step_def value_at_fits)
next
  case (Some v)
  then obtain r' where r': "v = col_value c r'" "col_fits c r'" "no_nan (col_value c r')" and s: "\<not> st_first s" "(if t = AGG_MIN then st_min s else st_max s) = v"
    using assms(5) by (auto simp: min_max_at_def)
  have cmp: "compare_values_direct c r v t = Some (Inr (better t (col_value c r) v))"
    using compare_direct_better [OF assms(1) r'(2) assms(2) r'(3) assms(4)] r'(1) by simp
  show ?thesis
  proof (cases "better t (col_value c r) v")
    case True
    then show ?thesis using Some s cmp assms by (auto simp: stream_min_max_def min_max_at_def min_max_step_def value_at_fits)
  next
    case False
    then show ?thesis using Some s cmp assms by (auto simp: stream_min_max_def min_max_at_def min_max_step_def)
  qed
qed

lemma stream_min_max_fold:
  assumes "\<forall>r \<in> set rs. col_fits c r \<and> no_nan (col_value c r) \<and> is_null_direct c r = Some (Inr False)" "is_numeric_type (col_type c)" "min_max_at t c s m"
  shows "\<exists>s'. fold_chk (stream_min_max t c) rs s = Some (Inr s') \<and> min_max_at t c s' (fold (\<lambda>r. min_max_step t (col_value c r)) rs m)"
  using assms
proof (induction rs arbitrary: s m)
  case (Cons r rs)
  obtain s' where "stream_min_max t c r s = Some (Inr s')" "min_max_at t c s' (min_max_step t (col_value c r) m)"
    using stream_min_max_step [of c r t s m] Cons.prems by auto
  then show ?case using Cons.IH [of s'] Cons.prems by simp
qed simp

lemma min_max_loop_fold:
  assumes "\<forall>r \<in> set rs. col_fits c r"
  shows "min_max_loop t c rs = Some (Inr (fold (\<lambda>r. min_max_step t (col_value c r)) rs None))"
proof -
  have "fold_chk (\<lambda>r m. Some (Inr (min_max_step t (col_value c r) m))) rs m = Some (Inr (fold (\<lambda>r. min_max_step t (col_value c r)) rs m))" for m
    by (induction rs arbitrary: m) simp_all
  then show ?thesis by (simp add: min_max_loop_def each_value_fold [OF assms])
qed

lemma min_max_fold_Some: "rs \<noteq> [] \<Longrightarrow> \<exists>v. fold (\<lambda>r. min_max_step t (f r)) rs m = Some v"
  by (induction rs rule: rev_induct) (auto simp: min_max_step_def split: option.split)

lemma count_loop_length:
  assumes "\<forall>r \<in> set rs. col_fits c r" "int (length rs) < 2 ^ 31"
  shows "count_loop c rs = Some (Inr (int (length rs)))"
  using count_fold [of 0 rs] assms(2) by (simp add: count_loop_def each_value_fold [OF assms(1)])

lemma sum_loop_fold:
  assumes "\<forall>r \<in> set rs. col_fits c r"
  shows "col_type c = TYPE_INT \<Longrightarrow> sum_loop c rs = chk (fold_chk (\<lambda>r n. int_plus n (int_val (col_value c r))) rs 0) (\<lambda>n. Some (Inr (set_int n Value_default)))"
    "col_type c = TYPE_FLOAT \<Longrightarrow> sum_loop c rs = chk (fold_chk (\<lambda>r x. Some (Inr (f32_add x (float_val (col_value c r))))) rs f32_zero) (\<lambda>x. Some (Inr (set_float x Value_default)))"
  by (simp_all add: sum_loop_def each_value_fold [OF assms])

lemma stream_min_max_case:
  assumes u: "unalias e = AggExpr t arg" "arg_col arg = Some tc" "get_col_idx cols tc = Some (Inr c)" "t = AGG_COUNT \<or> is_numeric_type (col_type c)"
    and t: "t = AGG_MIN \<or> t = AGG_MAX" and rows: "\<forall>r \<in> set rs. col_fits c r \<and> no_nan (col_value c r) \<and> is_null_direct c r = Some (Inr False)" "rs \<noteq> []"
  shows "chk (fold_chk (stream_one cols e) rs AggState_init) (final_one cols e) = group_value cols rs e"
proof -
  have so: "stream_one cols e = stream_min_max t c" using u t by (intro ext) (auto simp: stream_one_def)
  have num: "is_numeric_type (col_type c)" using u(4) t by auto
  have "min_max_at t c AggState_init None" by (simp add: min_max_at_def AggState_init_def)
  then obtain s where s: "fold_chk (stream_min_max t c) rs AggState_init = Some (Inr s)" "min_max_at t c s (fold (\<lambda>r. min_max_step t (col_value c r)) rs None)"
    using stream_min_max_fold [OF rows(1) num] by blast
  obtain v where v: "fold (\<lambda>r. min_max_step t (col_value c r)) rs None = Some v" using min_max_fold_Some [OF rows(2)] by blast
  have "final_one cols e s = Some (Inr v)" using u(1) t s(2) v by (auto simp: final_one_def min_max_at_def)
  moreover have "group_value cols rs e = Some (Inr v)"
    using u t rows v min_max_loop_fold [of rs c t] by (auto simp: group_value_def compute_single_aggregation_def)
  ultimately show ?thesis using so s(1) by simp
qed

text \<open>Streaming one expression is the loop over the records for this expression.\<close>

lemma stream_one_group_value:
  assumes e: "agg_checked cols e" "\<forall>arg. unalias e \<noteq> AggExpr AGG_AVG arg" and rows: "rs \<noteq> []" "\<forall>r \<in> set rs. agg_row cols r" "int (length rs) < 2 ^ 31"
  shows "chk (fold_chk (stream_one cols e) rs AggState_init) (final_one cols e) = group_value cols rs e"
proof -
  obtain t arg where u: "unalias e = AggExpr t arg" "check_agg_expr (AggExpr t arg) cols = Inr ()" using e(1) by (auto simp: agg_checked_def)
  have init: "st_count AggState_init = 0" "st_int_sum AggState_init = 0" "st_float_sum AggState_init = f32_zero" by (simp_all add: AggState_init_def)
  note count = count_fold [of 0 rs, simplified, OF rows(3) [simplified]]
  show ?thesis using u(2)
  proof (cases rule: check_agg_cases)
    case 1
    have "stream_one cols e = (\<lambda>r s. chk (int_plus (st_count s) 1) (\<lambda>n. Some (Inr (s\<lparr>st_count := n\<rparr>))))" using u(1) 1 by (intro ext) (simp add: stream_one_def)
    moreover have "final_one cols e = (\<lambda>s. Some (Inr (set_int (st_count s) Value_default)))" using u(1) 1 by (intro ext) (simp add: final_one_def)
    ultimately show ?thesis using u(1) 1 count stream_star_fold [of rs AggState_init "\<lambda>n. Some (Inr (set_int n Value_default))"] init
      by (simp add: group_value_def compute_single_aggregation_def)
  next
    case (2 tc c)
    have fit: "\<forall>r \<in> set rs. col_fits c r" and nn: "\<forall>r \<in> set rs. is_null_direct c r = Some (Inr False)"
      and all: "\<forall>r \<in> set rs. col_fits c r \<and> no_nan (col_value c r) \<and> is_null_direct c r = Some (Inr False)"
      using rows(2) 2(4) by (auto simp: agg_row_def)
    show ?thesis
    proof (cases t)
      case AGG_COUNT
      have "stream_one cols e = stream_count c" using u(1) 2 AGG_COUNT by (intro ext) (auto simp: stream_one_def)
      moreover have "final_one cols e = (\<lambda>s. Some (Inr (set_int (st_count s) Value_default)))" using u(1) 2 AGG_COUNT by (intro ext) (simp add: final_one_def)
      ultimately show ?thesis using u(1) 2 AGG_COUNT count init stream_count_fold [OF nn, of AggState_init "\<lambda>n. Some (Inr (set_int n Value_default))"] count_loop_length [OF fit rows(3)]
        by (auto simp: group_value_def compute_single_aggregation_def)
    next
      case AGG_SUM
      have so: "stream_one cols e = stream_sum c" using u(1) 2 AGG_SUM by (intro ext) (simp add: stream_one_def)
      show ?thesis
      proof (cases "col_type c")
        case TYPE_INT
        have "final_one cols e = (\<lambda>s. Some (Inr (set_int (st_int_sum s) Value_default)))" using u(1) 2 AGG_SUM TYPE_INT by (intro ext) (simp add: final_one_def)
        then show ?thesis using so u(1) 2 TYPE_INT AGG_SUM all rows init sum_loop_fold(1) [OF fit TYPE_INT]
            stream_sum_int [of rs c AggState_init "\<lambda>n. Some (Inr (set_int n Value_default))"]
          by (simp add: group_value_def compute_single_aggregation_def)
      next
        case TYPE_FLOAT
        have "final_one cols e = (\<lambda>s. Some (Inr (set_float (st_float_sum s) Value_default)))" using u(1) 2 AGG_SUM TYPE_FLOAT by (intro ext) (simp add: final_one_def)
        then show ?thesis using so u(1) 2 TYPE_FLOAT AGG_SUM all rows init sum_loop_fold(2) [OF fit TYPE_FLOAT]
            stream_sum_float [of rs c AggState_init "\<lambda>x. Some (Inr (set_float x Value_default))"]
          by (simp add: group_value_def compute_single_aggregation_def)
      qed (use 2(5) AGG_SUM in \<open>simp add: is_numeric_type_def\<close>)
    next
      case AGG_AVG
      then show ?thesis using e(2) u(1) by simp
    qed (use stream_min_max_case [OF u(1) 2(2,3,5) _ all rows(1)] in auto)
  qed
qed
lemma zip_replicate_map: "map_chk (\<lambda>(e, s). f e s) (zip es (map (\<lambda>_. s) es)) = map_chk (\<lambda>e. f e s) es"
  by (induction es) simp_all

lemma stream_all_ok:
  assumes run: "drain (ex_is_end (ag_child x)) (ex_next (ag_child x)) (ex_get (ag_child x)) (ag_fuel x) s = Some (Inr (map Some rs))"
    and es: "\<forall>e \<in> set (ag_exprs x). agg_checked (ex_cols (ag_child x)) e \<and> (\<forall>arg. unalias e \<noteq> AggExpr AGG_AVG arg)"
    and rows: "rs \<noteq> []" "\<forall>r \<in> set rs. agg_row (ex_cols (ag_child x)) r" "int (length rs) < 2 ^ 31"
  shows "stream_all x s = compute_aggregation_for_group (ex_cols (ag_child x)) (ag_exprs x) rs"
proof -
  let ?cols = "ex_cols (ag_child x)" and ?es = "ag_exprs x" and ?init = "map (\<lambda>_. AggState_init) (ag_exprs x)"
  have err: "no_error (stream_one ?cols e r t)" "no_error (final_one ?cols e t)" if "e \<in> set ?es" for e r t
    using stream_one_no_error final_one_no_error es that by blast+
  have upd: "fold_chk (update_streaming_agg_state ?cols ?es) rs ?init = map_chk (\<lambda>(e, s). fold_chk (stream_one ?cols e) rs s) (zip ?es ?init)"
    unfolding update_streaming_agg_state_def [abs_def] by (rule map_chk_fold) (simp_all add: err)
  have "stream_all x s = chk (map_chk (\<lambda>(e, s). fold_chk (stream_one ?cols e) rs s) (zip ?es ?init)) (compute_final_results ?cols ?es)"
    using rows(1) by (simp add: stream_all_def stream_loop_fold [OF run] upd chk_assoc)
  also have "\<dots> = map_chk (\<lambda>(e, s). chk (fold_chk (stream_one ?cols e) rs s) (final_one ?cols e)) (zip ?es ?init)"
    unfolding compute_final_results_def [abs_def] by (rule map_chk_seq) (simp_all add: err no_error_fold)
  also have "\<dots> = map_chk (\<lambda>e. chk (fold_chk (stream_one ?cols e) rs AggState_init) (final_one ?cols e)) ?es" by (rule zip_replicate_map)
  also have "\<dots> = map_chk (group_value ?cols rs) ?es" by (rule map_chk_cong) (use stream_one_group_value [OF _ _ rows] es in blast)
  finally show ?thesis by (simp add: compute_aggregation_for_group_def)
qed

lemma single_count_ok:
  assumes run: "drain (ex_is_end (ag_child x)) (ex_next (ag_child x)) (ex_get (ag_child x)) (ag_fuel x) s = Some (Inr (map Some rs))"
    and e: "unalias e = AggExpr AGG_COUNT arg" "check_agg_expr (AggExpr AGG_COUNT arg) (ex_cols (ag_child x)) = Inr ()"
    and rows: "\<forall>r \<in> set rs. agg_row (ex_cols (ag_child x)) r" "int (length rs) < 2 ^ 31"
  shows "compute_single_count_aggregation x arg s = compute_aggregation_for_group (ex_cols (ag_child x)) [e] rs"
proof -
  note count = count_fold [of 0 rs, simplified, OF rows(2) [simplified]]
  show ?thesis using e(2)
  proof (cases rule: check_agg_cases)
    case 1
    then show ?thesis using e(1) count count_star_fold [OF run]
      by (simp add: compute_single_count_aggregation_def compute_aggregation_for_group_def group_value_def compute_single_aggregation_def)
  next
    case (2 tc c)
    have "fold_chk (\<lambda>r n. chk (is_null_direct c r) (\<lambda>b. if b then Some (Inr n) else int_plus n 1)) rs = fold_chk (\<lambda>r n. int_plus n 1) rs"
      by (rule fold_chk_cong) (use rows(1) 2(4) in \<open>auto simp: agg_row_def\<close>)
    moreover have "count_loop c rs = Some (Inr (int (length rs)))" by (rule count_loop_length) (use rows 2(4) in \<open>auto simp: agg_row_def\<close>)
    ultimately show ?thesis using e(1) 2 count count_column_fold [OF run, of c 0]
      by (auto simp: compute_single_count_aggregation_def compute_aggregation_for_group_def group_value_def compute_single_aggregation_def)
  qed
qed

text \<open>The column of a single \<^verbatim>\<open>MIN\<close> or \<^verbatim>\<open>MAX\<close> that is read off the first or the last row of an index scan, because it is the last column
  of the index.\<close>

definition shortcut_column :: "('q, 's) agg_exec \<Rightarrow> (string \<times> string) option" where
  "shortcut_column x =
     (case (ag_index x, map unalias (ag_exprs x)) of
        (Some names, [AggExpr t arg]) \<Rightarrow>
          if (t = AGG_MIN \<or> t = AGG_MAX) \<and> names \<noteq> []
          then (case arg_col arg of Some tc \<Rightarrow> if snd tc = last names then Some tc else None | None \<Rightarrow> None)
          else None
      | _ \<Rightarrow> None)"

text \<open>The rows come in the order of this column, an \<^verbatim>\<open>INT\<close> one, if there is one.\<close>

definition index_order :: "('q, 's) agg_exec \<Rightarrow> bytes list \<Rightarrow> bool" where
  "index_order x rs \<longleftrightarrow>
     (case shortcut_column x of
        None \<Rightarrow> True
      | Some tc \<Rightarrow>
          (case get_col_idx (ex_cols (ag_child x)) tc of
             Some (Inr c) \<Rightarrow> col_type c = TYPE_INT \<and> sorted (map (\<lambda>r. int_val (col_value c r)) rs)
           | _ \<Rightarrow> False))"

lemma col_value_int_cong:
  assumes "col_type c = TYPE_INT" "int_val (col_value c r) = int_val (col_value c r')"
  shows "col_value c r = col_value c r'"
proof -
  let ?d = "\<lambda>r. dec_i32 (take 4 (col_bytes c r))"
  have "dec_i32 (enc_i32 (?d r)) = dec_i32 (enc_i32 (?d r'))" using assms by (simp add: col_value_def from_raw_def int_val_def read_i32_def read_bytes_def)
  then have "enc_i32 (?d r) = enc_i32 (?d r')" by (metis enc_dec_i32 length_enc_i32)
  then show ?thesis using assms(1) by (simp add: col_value_def from_raw_def read_i32_def read_bytes_def)
qed

lemma better_int:
  assumes "col_type c = TYPE_INT"
  shows "better t (col_value c r) (col_value c r') \<longleftrightarrow>
    (if t = AGG_MIN then int_val (col_value c r) < int_val (col_value c r') else int_val (col_value c r') < int_val (col_value c r))"
proof -
  have "v_type (col_value c r) = TYPE_INT" for r using assms by (simp add: col_value_def from_raw_def)
  then show ?thesis by (auto simp: better_def value_less_def value_gt_def value_le_def value_eq_def)
qed

lemma min_max_kept: "\<forall>r \<in> set rs. \<not> better t (f r) w \<Longrightarrow> fold (\<lambda>r. min_max_step t (f r)) rs (Some w) = Some w"
  by (induction rs) (auto simp: min_max_step_def)

lemma min_of_sorted:
  assumes "col_type c = TYPE_INT" "sorted (map (\<lambda>r. int_val (col_value c r)) rs)" "rs \<noteq> []"
  shows "fold (\<lambda>r. min_max_step AGG_MIN (col_value c r)) rs None = Some (col_value c (hd rs))"
proof (cases rs)
  case (Cons r rs')
  have "\<not> better AGG_MIN (col_value c r') (col_value c r)" if "r' \<in> set rs'" for r'
    using assms(2) that Cons by (auto simp: better_int [OF assms(1)])
  then show ?thesis using min_max_kept [of rs' AGG_MIN "col_value c" "col_value c r"] Cons by (simp add: min_max_step_def)
qed (use assms in simp)

lemma max_of_sorted:
  assumes "col_type c = TYPE_INT" "sorted (map (\<lambda>r. int_val (col_value c r)) rs)" "rs \<noteq> []"
  shows "fold (\<lambda>r. min_max_step AGG_MAX (col_value c r)) rs None = Some (col_value c (last rs))"
  using assms(2,3)
proof (induction rs rule: rev_induct)
  case (snoc r rs)
  show ?case
  proof (cases "rs = []")
    case False
    have le: "int_val (col_value c (last rs)) \<le> int_val (col_value c r)" using snoc.prems(1) False by (simp add: sorted_append)
    have "fold (\<lambda>r. min_max_step AGG_MAX (col_value c r)) rs None = Some (col_value c (last rs))"
      using snoc False by (simp add: sorted_append)
    moreover have "col_value c (last rs) = col_value c r" if "\<not> better AGG_MAX (col_value c r) (col_value c (last rs))"
      using that le by (intro col_value_int_cong [OF assms(1)]) (simp add: better_int [OF assms(1)])
    ultimately show ?thesis using min_max_step_def [of AGG_MAX "col_value c r" "Some (col_value c (last rs))"] by auto
  qed (simp add: min_max_step_def)
qed simp

lemma last_value_fold:
  assumes "drain (ex_is_end (ag_child x)) (ex_next (ag_child x)) (ex_get (ag_child x)) n s = Some (Inr (map Some rs))"
    and "get_col_idx (ex_cols (ag_child x)) tc = Some (Inr c)" "\<forall>r \<in> set rs. col_fits c r"
  shows "\<exists>s'. last_value_loop n x tc s m = Some (Inr (if rs = [] then m else Some (col_value c (last rs)), s'))"
  using assms(1,3)
proof (induction n arbitrary: s m rs)
  case (Suc n)
  show ?case
  proof (cases "ex_is_end (ag_child x) s")
    case False
    then show ?thesis
    proof (rule drain_SucE [OF Suc.prems(1)])
      fix r s' rs'
      assume r: "ex_get (ag_child x) s = Some (Inr (Some r))" "ex_next (ag_child x) s = Some (Inr s')" "rs = r # rs'"
        "drain (ex_is_end (ag_child x)) (ex_next (ag_child x)) (ex_get (ag_child x)) n s' = Some (Inr (map Some rs'))"
      show ?thesis using r False Suc.IH [OF r(4), of "Some (col_value c r)"] Suc.prems(2) assms(2) by (auto simp: value_at_fits)
    qed
  qed (use Suc.prems in auto)
qed simp

text \<open>Over rows in the order of the column the first row has its least and the last row its greatest value.\<close>

lemma index_min_max_ok:
  assumes run: "drain (ex_is_end (ag_child x)) (ex_next (ag_child x)) (ex_get (ag_child x)) (ag_fuel x) s = Some (Inr (map Some rs))"
    and e: "ag_exprs x = [e]" "unalias e = AggExpr t arg" "t = AGG_MIN \<or> t = AGG_MAX" "shortcut_column x = Some tc" "index_order x rs"
    and rows: "rs \<noteq> []" "\<forall>r \<in> set rs. agg_row (ex_cols (ag_child x)) r"
  shows "\<exists>v s'. try_index_min_max_optimization x t arg s = Some (Inr (Some v, s')) \<and>
    compute_aggregation_for_group (ex_cols (ag_child x)) (ag_exprs x) rs = Some (Inr [v])"
proof -
  obtain names where tc: "ag_index x = Some names" "names \<noteq> []" "arg_col arg = Some tc" "snd tc = last names"
    using e by (auto simp: shortcut_column_def split: option.splits if_splits)
  obtain c where c: "get_col_idx (ex_cols (ag_child x)) tc = Some (Inr c)" "col_type c = TYPE_INT" "sorted (map (\<lambda>r. int_val (col_value c r)) rs)"
    using e(4,5) by (auto simp: index_order_def split: option.splits sum.splits)
  have "c \<in> set (ex_cols (ag_child x))" using c(1) by (auto simp: get_col_idx_def find_Some_iff split: option.splits)
  then have fit: "\<forall>r \<in> set rs. col_fits c r" using rows(2) by (auto simp: agg_row_def)
  let ?v = "if t = AGG_MIN then col_value c (hd rs) else col_value c (last rs)"
  have "fold (\<lambda>r. min_max_step t (col_value c r)) rs None = Some ?v"
    using e(3) min_of_sorted [OF c(2,3) rows(1)] max_of_sorted [OF c(2,3) rows(1)] by auto
  then have "compute_aggregation_for_group (ex_cols (ag_child x)) (ag_exprs x) rs = Some (Inr [?v])"
    using e(1-3) tc c rows min_max_loop_fold [OF fit, of t]
    by (auto simp: compute_aggregation_for_group_def group_value_def compute_single_aggregation_def)
  moreover have "\<exists>s'. try_index_min_max_optimization x t arg s = Some (Inr (Some ?v, s'))"
  proof (cases "t = AGG_MIN")
    case True
    obtain r rs' where r: "rs = r # rs'" using rows(1) by (cases rs) auto
    then obtain n where "ag_fuel x = Suc n" "\<not> ex_is_end (ag_child x) s" "ex_get (ag_child x) s = Some (Inr (Some r))"
      using run by (cases "ag_fuel x") (auto simp: chk_Inr split: if_splits)
    then show ?thesis using True tc c fit r by (simp add: try_index_min_max_optimization_def value_at_fits)
  next
    case False
    then show ?thesis using tc rows(1) last_value_fold [OF run c(1) fit, of None] by (simp add: try_index_min_max_optimization_def)
  qed
  ultimately show ?thesis by blast
qed

lemma streaming_ok:
  assumes run: "drain (ex_is_end (ag_child x)) (ex_next (ag_child x)) (ex_get (ag_child x)) (ag_fuel x) s = Some (Inr (map Some rs))"
    and es: "\<forall>e \<in> set (ag_exprs x). agg_checked (ex_cols (ag_child x)) e \<and> (\<forall>arg. unalias e \<noteq> AggExpr AGG_AVG arg)" and scan: "index_order x rs"
    and rows: "rs \<noteq> []" "\<forall>r \<in> set rs. agg_row (ex_cols (ag_child x)) r" "int (length rs) < 2 ^ 31"
  shows "compute_streaming_aggregation x s = compute_aggregation_for_group (ex_cols (ag_child x)) (ag_exprs x) rs"
proof (cases "\<exists>e t arg. ag_exprs x = [e] \<and> unalias e = AggExpr t arg")
  case True
  then obtain e t arg where e: "ag_exprs x = [e]" "unalias e = AggExpr t arg" by blast
  then have c: "check_agg_expr (AggExpr t arg) (ex_cols (ag_child x)) = Inr ()" using es by (auto simp: agg_checked_def)
  show ?thesis
  proof (cases "shortcut_column x")
    case None
    then show ?thesis using e c stream_all_ok [OF run es rows] single_count_ok [OF run, of e arg] rows
      by (auto simp: compute_streaming_aggregation_def try_index_min_max_optimization_def shortcut_column_def split: option.splits if_splits)
  next
    case (Some tc)
    then have t: "t = AGG_MIN \<or> t = AGG_MAX" using e by (auto simp: shortcut_column_def split: option.splits if_splits)
    show ?thesis using index_min_max_ok [OF run e t Some scan rows(1,2)] e t by (auto simp: compute_streaming_aggregation_def)
  qed
next
  case False
  then have "compute_streaming_aggregation x s = stream_all x s"
    by (auto simp: compute_streaming_aggregation_def split: list.split SelExpr.split)
  then show ?thesis using stream_all_ok [OF run es rows] by simp
qed

text \<open>Over no rows there is a result only when a \<^verbatim>\<open>COUNT\<close> is selected, which is zero.\<close>

lemma final_one_init:
  assumes "agg_checked cols e"
  shows "\<exists>v. final_one cols e AggState_init = Some (Inr v) \<and> ((\<exists>arg. unalias e = AggExpr AGG_COUNT arg) \<longrightarrow> v = set_int 0 Value_default)"
proof -
  obtain t arg where e: "unalias e = AggExpr t arg" "check_agg_expr (AggExpr t arg) cols = Inr ()" using assms by (auto simp: agg_checked_def)
  show ?thesis using e(2)
    by (cases rule: check_agg_cases) (cases t, auto simp: final_one_def e(1) AggState_init_def)+
qed

lemma final_init:
  assumes "\<forall>e \<in> set es. agg_checked cols e"
  shows "\<exists>vs. compute_final_results cols es (map (\<lambda>_. AggState_init) es) = Some (Inr vs) \<and>
    list_all2 (\<lambda>e v. (\<exists>arg. unalias e = AggExpr AGG_COUNT arg) \<longrightarrow> v = set_int 0 Value_default) es vs"
  using assms
proof (induction es)
  case (Cons e es)
  obtain v where "final_one cols e AggState_init = Some (Inr v)" "(\<exists>arg. unalias e = AggExpr AGG_COUNT arg) \<longrightarrow> v = set_int 0 Value_default"
    using final_one_init [of cols e] Cons.prems by auto
  then show ?case using Cons by (auto simp: compute_final_results_def)
qed (simp add: compute_final_results_def)

lemma streaming_nothing:
  assumes run: "drain (ex_is_end (ag_child x)) (ex_next (ag_child x)) (ex_get (ag_child x)) (ag_fuel x) s = Some (Inr (map Some []))"
    and es: "\<forall>e \<in> set (ag_exprs x). agg_checked (ex_cols (ag_child x)) e"
  shows "\<exists>vs. compute_streaming_aggregation x s = Some (Inr vs) \<and>
    (if check_has_count (ag_exprs x) then list_all2 (\<lambda>e v. (\<exists>arg. unalias e = AggExpr AGG_COUNT arg) \<longrightarrow> v = set_int 0 Value_default) (ag_exprs x) vs
     else vs = [])"
proof -
  obtain n where n: "ag_fuel x = Suc n" "ex_is_end (ag_child x) s" using run by (cases "ag_fuel x") (auto simp: chk_Inr split: if_splits)
  obtain vs where vs: "compute_final_results (ex_cols (ag_child x)) (ag_exprs x) (map (\<lambda>_. AggState_init) (ag_exprs x)) = Some (Inr vs)"
    "list_all2 (\<lambda>e v. (\<exists>arg. unalias e = AggExpr AGG_COUNT arg) \<longrightarrow> v = set_int 0 Value_default) (ag_exprs x) vs"
    using final_init [OF es] by blast
  have all: "stream_all x s = Some (Inr (if check_has_count (ag_exprs x) then vs else []))" using n vs(1) by (simp add: stream_all_def)
  show ?thesis
  proof (cases "\<exists>e t arg. ag_exprs x = [e] \<and> unalias e = AggExpr t arg")
    case True
    then obtain e t arg where e: "ag_exprs x = [e]" "unalias e = AggExpr t arg" by blast
    then have c: "check_agg_expr (AggExpr t arg) (ex_cols (ag_child x)) = Inr ()" using es by (auto simp: agg_checked_def)
    show ?thesis
    proof (cases "t = AGG_COUNT")
      case True
      have "compute_aggregation_for_group (ex_cols (ag_child x)) [e] [] = Some (Inr [set_int 0 Value_default])"
        using c by (rule check_agg_cases)
          (use e True in \<open>auto simp: compute_aggregation_for_group_def group_value_def compute_single_aggregation_def count_loop_def each_value_def\<close>)
      then show ?thesis using e True single_count_ok [OF run e(2) [unfolded True] c [unfolded True]]
        by (auto simp: compute_streaming_aggregation_def check_has_count_def)
    next
      case False
      then have "compute_streaming_aggregation x s = stream_all x s"
        using e n by (auto simp: compute_streaming_aggregation_def try_index_min_max_optimization_def split: option.split)
      then show ?thesis using all vs(2) by auto
    qed
  next
    case False
    then have "compute_streaming_aggregation x s = stream_all x s"
      by (auto simp: compute_streaming_aggregation_def split: list.split SelExpr.split)
    then show ?thesis using all vs(2) by auto
  qed
qed

subsection \<open>What the aggregates are\<close>

text \<open>The value of an aggregate of a column over rows. A sum of floats adds them in the order of the rows, each sum rounded to a float; an
  average is the quotient of the sum and the number of the rows, in double precision, rounded to a float, where integers are added exactly and
  floats in double precision in the order of the rows.\<close>

fun is_aggregate :: "AggType \<Rightarrow> ColMeta \<Rightarrow> bytes list \<Rightarrow> Value \<Rightarrow> bool" where
  "is_aggregate AGG_COUNT c rs v \<longleftrightarrow> v_type v = TYPE_INT \<and> int_val v = int (length rs)"
| "is_aggregate AGG_SUM c rs v \<longleftrightarrow> v_type v = col_type c \<and>
     (case col_type c of
        TYPE_INT \<Rightarrow> int_val v = sum_list (map (\<lambda>r. int_val (col_value c r)) rs)
      | TYPE_FLOAT \<Rightarrow> float_val v = foldl f32_add f32_zero (map (\<lambda>r. float_val (col_value c r)) rs)
      | TYPE_STRING \<Rightarrow> False)"
| "is_aggregate AGG_MIN c rs v \<longleftrightarrow> (\<exists>r \<in> set rs. v = col_value c r) \<and> (\<forall>r \<in> set rs. value_rank v \<le> value_rank (col_value c r))"
| "is_aggregate AGG_MAX c rs v \<longleftrightarrow> (\<exists>r \<in> set rs. v = col_value c r) \<and> (\<forall>r \<in> set rs. value_rank (col_value c r) \<le> value_rank v)"
| "is_aggregate AGG_AVG c rs v \<longleftrightarrow> v_type v = TYPE_FLOAT \<and>
     (case col_type c of
        TYPE_INT \<Rightarrow> float_val v = f32_of_f64 (f64_div (f64_of_int (sum_list (map (\<lambda>r. int_val (col_value c r)) rs))) (f64_of_int (int (length rs))))
      | TYPE_FLOAT \<Rightarrow> float_val v =
          f32_of_f64 (f64_div (foldl f64_add 0 (map (\<lambda>r. f64_of_f32 (float_val (col_value c r))) rs)) (f64_of_int (int (length rs))))
      | TYPE_STRING \<Rightarrow> False)"

lemma min_max_fold:
  assumes "\<forall>r \<in> set rs. no_nan (f r)" "rs \<noteq> []" "fold (\<lambda>r. min_max_step t (f r)) rs None = Some v"
  shows "(\<exists>r \<in> set rs. v = f r) \<and> (\<forall>r \<in> set rs. if t = AGG_MIN then value_rank v \<le> value_rank (f r) else value_rank (f r) \<le> value_rank v)"
  using assms
proof (induction rs arbitrary: v rule: rev_induct)
  case (snoc r rs)
  show ?case
  proof (cases "rs = []")
    case True
    then show ?thesis using snoc.prems by (simp add: min_max_step_def)
  next
    case False
    obtain w where w: "fold (\<lambda>r. min_max_step t (f r)) rs None = Some w" using min_max_fold_Some [OF False] by blast
    have ih: "\<exists>r \<in> set rs. w = f r" "\<forall>r \<in> set rs. if t = AGG_MIN then value_rank w \<le> value_rank (f r) else value_rank (f r) \<le> value_rank w"
      using snoc.IH [OF _ False w] snoc.prems(1) by auto
    have "min_max_step t (f r) (Some w) = Some v" using snoc.prems(3) w by simp
    then have v: "v = (if better t (f r) w then f r else w)" by (simp add: min_max_step_def)
    have n: "no_nan (f r)" "no_nan w" using snoc.prems(1) ih(1) by auto
    have b: "better t (f r) w \<longleftrightarrow> (if t = AGG_MIN then value_rank (f r) < value_rank w else value_rank w < value_rank (f r))"
      by (auto simp: better_def value_gt_def value_le_def value_less_rank n value_eq_rank)
    show ?thesis using ih v b by (cases "t = AGG_MIN") (auto split: if_splits)
  qed
qed simp

lemma int_sum_fold:
  assumes "\<And>k. k \<le> length rs \<Longrightarrow> int32 (n + sum_list (map f (take k rs)))"
  shows "fold_chk (\<lambda>r n. int_plus n (f r)) rs n = Some (Inr (n + sum_list (map f rs)))"
  using assms
proof (induction rs arbitrary: n)
  case (Cons r rs)
  have "int32 (n + f r)" using Cons.prems [of 1] by simp
  moreover have "int32 ((n + f r) + sum_list (map f (take k rs)))" if "k \<le> length rs" for k using Cons.prems [of "Suc k"] that by (simp add: add.assoc)
  ultimately show ?case using Cons.IH [of "n + f r"] by (simp add: int_plus_def add.assoc)
qed simp

lemma float_val_set_float: "length f = 4 \<Longrightarrow> float_val (set_float f v) = f"
  by (simp add: float_val_def set_float_def read_bytes_def)

lemma length_f32_of_f64: "length (f32_of_f64 a) = 4"
  by (simp add: f32_of_f64_def)

lemma int_val_column: "col_type c = TYPE_INT \<Longrightarrow> int32 (int_val (col_value c r))"
  by (simp add: int_val_def col_value_def from_raw_def read_i32_def int32_dec_i32)

lemma sum_bound: "\<forall>r \<in> set rs. int32 (f r) \<Longrightarrow> \<bar>sum_list (map f rs)\<bar> \<le> int (length rs) * 2 ^ 31"
proof (induction rs)
  case (Cons r rs)
  have "\<bar>f r\<bar> \<le> 2 ^ 31" using Cons.prems by (auto simp: int32_def)
  then show ?case using Cons by (simp add: distrib_right)
qed simp

lemma fold_chk_append: "fold_chk g (xs @ ys) = (\<lambda>s. chk (fold_chk g xs s) (fold_chk g ys))"
proof (induction xs)
  case (Cons x xs)
  then show ?case by (intro ext) (simp add: chk_assoc)
qed (intro ext, simp)

lemma avg_fold:
  assumes "length rs < 2 ^ 21" "\<forall>r \<in> set rs. v_type (f r) = TYPE_INT \<and> int32 (int_val (f r))"
  shows "fold_chk (\<lambda>r. avg_step (f r)) rs (0, 0) = Some (Inr (f64_of_int (sum_list (map (\<lambda>r. int_val (f r)) rs)), int (length rs)))"
  using assms
proof (induction rs rule: rev_induct)
  case (snoc r rs)
  let ?s = "sum_list (map (\<lambda>r. int_val (f r)) rs)" and ?v = "int_val (f r)"
  have b: "\<bar>?s\<bar> \<le> int (length rs) * 2 ^ 31" "\<bar>?v\<bar> \<le> 2 ^ 31" using sum_bound [of rs "\<lambda>r. int_val (f r)"] snoc.prems(2) by (auto simp: int32_def)
  have "int (length rs) * 2 ^ 31 \<le> 2 ^ 21 * 2 ^ 31" using snoc.prems(1) by (intro mult_right_mono) simp_all
  then have "\<bar>?s\<bar> < 2 ^ 53" "\<bar>?v\<bar> < 2 ^ 53" "\<bar>?s + ?v\<bar> < 2 ^ 53" using b by (simp_all add: abs_le_iff abs_less_iff)
  then have "f64_add (f64_of_int ?s) (f64_of_int ?v) = f64_of_int (?s + ?v)" by (rule f64_add_int)
  moreover have "int_plus (int (length rs)) 1 = Some (Inr (int (length rs) + 1))" by (rule int_plus_small) (use snoc.prems(1) in auto)
  ultimately show ?case using snoc by (simp add: fold_chk_append avg_step_def Let_def)
qed (simp add: f64_of_zero)

lemma avg_float_fold:
  assumes "int k + int (length rs) < 2 ^ 31" "\<forall>r \<in> set rs. v_type (f r) = TYPE_FLOAT"
  shows "fold_chk (\<lambda>r. avg_step (f r)) rs (y, int k) = Some (Inr (foldl f64_add y (map (\<lambda>r. f64_of_f32 (float_val (f r))) rs), int k + int (length rs)))"
  using assms
proof (induction rs arbitrary: y k)
  case (Cons r rs)
  have "int_plus (int k) 1 = Some (Inr (int (Suc k)))" using int_plus_small [of "int k"] Cons.prems by simp
  then have "avg_step (f r) (y, int k) = Some (Inr (f64_add y (f64_of_f32 (float_val (f r))), int (Suc k)))"
    using Cons.prems(2) by (simp add: avg_step_def Let_def)
  then show ?case using Cons.IH [of "Suc k"] Cons.prems by (simp add: ac_simps)
qed simp

lemma avg_loop_value:
  assumes "\<forall>r \<in> set rs. col_fits c r" "rs \<noteq> []" "length rs < 2 ^ 31" "col_type c = TYPE_INT \<Longrightarrow> length rs < 2 ^ 21" "col_type c \<noteq> TYPE_STRING"
  shows "\<exists>v. avg_loop c rs = Some (Inr v) \<and> is_aggregate AGG_AVG c rs v"
proof (cases "col_type c")
  case TYPE_INT
  then show ?thesis using avg_fold [of rs "col_value c"] assms int_val_column
    by (simp add: avg_loop_def each_value_fold avg_of_def float_val_set_float length_f32_of_f64)
next
  case TYPE_FLOAT
  have "int (length rs) < 2 ^ 31" using assms(3) by simp
  then show ?thesis using avg_float_fold [of 0 rs "col_value c" 0] assms TYPE_FLOAT
    by (simp add: avg_loop_def each_value_fold avg_of_def float_val_set_float length_f32_of_f64)
qed (use assms in simp)

lemma length_float_sum: "length x = 4 \<Longrightarrow> \<forall>y \<in> set ys. length y = 4 \<Longrightarrow> length (foldl f32_add x ys) = 4"
  by (induction ys arbitrary: x) (simp_all add: length_f32_ops)

lemma sum_loop_value:
  assumes "\<forall>r \<in> set rs. col_fits c r" "rs \<noteq> []" "col_type c \<noteq> TYPE_STRING"
    and "col_type c = TYPE_INT \<Longrightarrow> \<forall>k \<le> length rs. int32 (sum_list (map (\<lambda>r. int_val (col_value c r)) (take k rs)))"
  shows "\<exists>v. sum_loop c rs = Some (Inr v) \<and> is_aggregate AGG_SUM c rs v"
proof (cases "col_type c")
  case TYPE_INT
  have part: "int32 (0 + sum_list (map (\<lambda>r. int_val (col_value c r)) (take k rs)))" if "k \<le> length rs" for k using assms(4) TYPE_INT that by simp
  have "int32 (sum_list (map (\<lambda>r. int_val (col_value c r)) rs))" using part [of "length rs"] by simp
  then show ?thesis using sum_loop_fold(1) [OF assms(1) TYPE_INT] int_sum_fold [of rs 0 "\<lambda>r. int_val (col_value c r)"] part TYPE_INT
    by (simp add: int_val_set_int)
next
  case TYPE_FLOAT
  have "fold_chk (\<lambda>r x. Some (Inr (f32_add x (float_val (col_value c r))))) rs x = Some (Inr (foldl f32_add x (map (\<lambda>r. float_val (col_value c r)) rs)))" for x
    by (induction rs arbitrary: x) simp_all
  moreover have "length (float_val (col_value c r)) = 4" if "r \<in> set rs" for r
    using assms(1) TYPE_FLOAT that by (simp add: col_value_float) (fastforce simp: col_fits_def col_bytes_def read_bytes_def)
  then have "length (foldl f32_add f32_zero (map (\<lambda>r. float_val (col_value c r)) rs)) = 4"
    by (intro length_float_sum) (auto simp: f32_zero_def)
  ultimately show ?thesis using sum_loop_fold(2) [OF assms(1) TYPE_FLOAT] TYPE_FLOAT by (simp add: float_val_set_float)
qed (use assms in simp)

lemma min_max_loop_value:
  assumes "\<forall>r \<in> set rs. col_fits c r \<and> no_nan (col_value c r)" "rs \<noteq> []" "t = AGG_MIN \<or> t = AGG_MAX"
  shows "\<exists>v. min_max_loop t c rs = Some (Inr (Some v)) \<and> is_aggregate t c rs v"
proof -
  obtain v where v: "fold (\<lambda>r. min_max_step t (col_value c r)) rs None = Some v" using min_max_fold_Some [OF assms(2)] by blast
  then show ?thesis using assms min_max_loop_fold [of rs c t] min_max_fold [OF _ assms(2) v] by auto
qed

subsection \<open>Properties\<close>

text \<open>C40: over at least one and fewer than \<open>2 ^ 31\<close> rows that have the column of a checked aggregate, an aggregate is what it should be, for the
  select list and for \<^verbatim>\<open>HAVING\<close> alike: the number of rows; the sum of the integers when no partial sum overflows, or the floats added in the
  order of the rows in single precision; the average in double precision rounded to a float, of integers whose sum is exact (for fewer than
  \<open>2 ^ 21\<close> rows) or of floats added in the order of the rows; the least or the greatest value of a column without NaNs.\<close>

theorem aggregates_of_rows:
  assumes "check_agg_expr (AggExpr t arg) cols = Inr ()" "arg_col arg = Some tc" "get_col_idx cols tc = Some (Inr c)"
    and "rs \<noteq> []" "\<forall>r \<in> set rs. col_fits c r" "length rs < 2 ^ 31"
    and "t = AGG_MIN \<or> t = AGG_MAX \<Longrightarrow> \<forall>r \<in> set rs. no_nan (col_value c r)"
    and "t = AGG_SUM \<Longrightarrow> col_type c = TYPE_INT \<Longrightarrow> \<forall>k \<le> length rs. int32 (sum_list (map (\<lambda>r. int_val (col_value c r)) (take k rs)))"
    and "t = AGG_AVG \<Longrightarrow> col_type c = TYPE_INT \<Longrightarrow> length rs < 2 ^ 21"
  shows "\<exists>v. compute_single_aggregation cols t arg rs = Some (Inr v) \<and>
    compute_agg_for_having cols t arg \<lparr>gd_records = rs, gd_representative = rep\<rparr> = Some (Inr v) \<and> is_aggregate t c rs v"
proof -
  have arg: "\<exists>a. arg = Some a" using assms(2) by (cases arg) (auto simp: arg_col_def)
  have len: "int (length rs) < 2 ^ 31" using assms(6) by simp
  have num: "t \<noteq> AGG_COUNT \<Longrightarrow> col_type c \<noteq> TYPE_STRING"
    using assms(1) by (rule check_agg_cases) (use assms(2,3) in \<open>auto simp: is_numeric_type_def arg_col_def\<close>)
  note defs = compute_single_aggregation_def compute_agg_for_having_def
  show ?thesis
  proof (cases t)
    case AGG_COUNT
    then show ?thesis using arg assms(2,3) count_loop_length [OF assms(5) len] len by (auto simp: defs int_val_set_int int32_def)
  next
    case AGG_SUM
    then show ?thesis using sum_loop_value [OF assms(5,4)] num assms(2-4,8) by (simp add: defs)
  next
    case AGG_AVG
    then show ?thesis using avg_loop_value [OF assms(5,4,6)] num assms(2-4,9) by (simp add: defs)
  next
    case AGG_MIN
    then show ?thesis using min_max_loop_value [of rs c t] assms(2-5,7) by (auto simp: defs)
  next
    case AGG_MAX
    then show ?thesis using min_max_loop_value [of rs c t] assms(2-5,7) by (auto simp: defs)
  qed
qed

theorem aggregates_of_rows_witness:
  "\<exists>v. compute_single_aggregation [example_col ''a'' 0] AGG_SUM (Some (PlainExpr (ColRef [] ''a''))) [enc_i32 7, enc_i32 5] = Some (Inr v) \<and> int_val v = 12"
proof -
  let ?c = "example_col ''a'' 0"
  have i: "int32 7" "int32 5" "int32 12" "int32 0" by (simp_all add: int32_def)
  note v = example_col_int [OF i(1)] example_col_int [OF i(2)]
  have t: "int32 (sum_list (map (\<lambda>r. int_val (col_value ?c r)) (take k [enc_i32 7, enc_i32 5])))" for k
    using i v by (cases k; cases "k - 1") auto
  obtain w where "compute_single_aggregation [?c] AGG_SUM (Some (PlainExpr (ColRef [] ''a''))) [enc_i32 7, enc_i32 5] = Some (Inr w)"
    "is_aggregate AGG_SUM ?c [enc_i32 7, enc_i32 5] w"
    using aggregates_of_rows [of AGG_SUM "Some (PlainExpr (ColRef [] ''a''))" "[?c]" "([], ''a'')" ?c "[enc_i32 7, enc_i32 5]" None] t
    by (auto simp: agg_meta_def arg_col_def get_col_idx_def is_numeric_type_def example_col_def col_fits_def no_nan_def)
  then show ?thesis using v by (auto simp: example_col_def)
qed

text \<open>C12: an aggregate query without grouping is computed while the rows are streamed, one pass for all aggregates, by code that reads the
  bytes of the rows. For checked aggregates other than \<^verbatim>\<open>AVG\<close>, over fewer than \<open>2 ^ 31\<close> rows without NaNs and empty strings, this gives
  what the loops over the collected rows give when there is a row, and is undefined, by an overflow of a sum, exactly when they are; over no
  rows it gives no result, or, when a \<^verbatim>\<open>COUNT\<close> is selected, one in which every \<^verbatim>\<open>COUNT\<close> is zero. A single \<^verbatim>\<open>MIN\<close> or \<^verbatim>\<open>MAX\<close> of the last
  column of the index of an index scan is read off the first or the last row: here the rows have to come in the order of this column, an
  \<^verbatim>\<open>INT\<close> one (\<open>index_order\<close>); that they do not for an index on several columns is \<open>index_minimum_wrong\<close>.\<close>

theorem streaming_equals_collected:
  assumes "run_source (ex_begin (ag_child x)) (ex_is_end (ag_child x)) (ex_next (ag_child x)) (ex_get (ag_child x)) (ag_fuel x) q = Some (Inr (map Some rs))"
    and "\<forall>e \<in> set (ag_exprs x). agg_checked (ex_cols (ag_child x)) e \<and> (\<forall>arg. unalias e \<noteq> AggExpr AGG_AVG arg)" "ag_exprs x \<noteq> []" "index_order x rs"
    and "\<forall>r \<in> set rs. agg_row (ex_cols (ag_child x)) r" "int (length rs) < 2 ^ 31"
  shows "if rs \<noteq> []
    then agg_begin x q = chk (compute_aggregation_for_group (ex_cols (ag_child x)) (ag_exprs x) rs) (\<lambda>vs. Some (Inr ([vs], 0)))
    else if check_has_count (ag_exprs x)
    then \<exists>vs. agg_begin x q = Some (Inr ([vs], 0)) \<and>
      list_all2 (\<lambda>e v. (\<exists>arg. unalias e = AggExpr AGG_COUNT arg) \<longrightarrow> v = set_int 0 Value_default) (ag_exprs x) vs
    else agg_begin x q = Some (Inr ([], 0))"
proof -
  obtain s where s: "ex_begin (ag_child x) q = Some (Inr s)"
    "drain (ex_is_end (ag_child x)) (ex_next (ag_child x)) (ex_get (ag_child x)) (ag_fuel x) s = Some (Inr (map Some rs))"
    using assms(1) by (auto simp: run_source_def chk_Inr)
  show ?thesis
  proof (cases "rs = []")
    case True
    obtain vs where "compute_streaming_aggregation x s = Some (Inr vs)" "if check_has_count (ag_exprs x)
        then list_all2 (\<lambda>e v. (\<exists>arg. unalias e = AggExpr AGG_COUNT arg) \<longrightarrow> v = set_int 0 Value_default) (ag_exprs x) vs else vs = []"
      using streaming_nothing [OF s(2) [unfolded True]] assms(2) by blast
    then show ?thesis using s(1) True assms(3) by (auto simp: agg_begin_def dest: list_all2_lengthD)
  next
    case False
    have "vs \<noteq> []" if "compute_aggregation_for_group (ex_cols (ag_child x)) (ag_exprs x) rs = Some (Inr vs)" for vs
      using that assms(3) map_chk_length by (fastforce simp: compute_aggregation_for_group_def)
    then show ?thesis using False s(1) streaming_ok [OF s(2) assms(2,4) False assms(5,6)] by (auto simp: agg_begin_def intro!: chk_eqI)
  qed
qed

text \<open>C11: \<^verbatim>\<open>GROUP BY\<close> with \<^verbatim>\<open>HAVING\<close>: whatever the hash function and the order of the hash table are, a grouped query returns one
  result for each distinct key of the rows whose group satisfies the clause, the one computed from exactly the rows with this key in
  their order.\<close>

theorem grouped_query_results:
  assumes "\<And>gs. mset (ord gs) = mset gs"
    and "run_source (ex_begin (ge_child x)) (ex_is_end (ge_child x)) (ex_next (ge_child x)) (ex_get (ge_child x)) (ge_fuel x) q = Some (Inr (map Some rs))"
    and "resolves (ex_cols (ge_child x)) (ge_group_by x) cs" "ge_group_by x \<noteq> []" "\<forall>r \<in> set rs. group_fits cs r"
    and "having_decides x p (groups_of (group_rank cs) rs)"
    and "\<forall>g \<in> set (groups_of (group_rank cs) rs). p g \<longrightarrow> compute_aggregation_for_group (ex_cols (ge_child x)) es g = Some (Inr (vals g))"
  shows "\<exists>vss. agg_begin_groups H ord x es q = Some (Inr (vss, 0)) \<and> mset vss = image_mset vals (filter_mset p (mset (groups_of (group_rank cs) rs)))"
proof -
  obtain gs where gs: "group_begin H ord x q = Some (Inr gs)" "mset (map (gd_records \<circ> snd) gs) = filter_mset p (mset (groups_of (group_rank cs) rs))"
    using group_begin_ok [where ord = ord, OF assms(1-6)] by blast
  have ok: "compute_aggregation_for_group (ex_cols (ge_child x)) es g = Some (Inr (vals g))" if "g \<in> set (map (gd_records \<circ> snd) gs)" for g
  proof -
    have "g \<in># filter_mset p (mset (groups_of (group_rank cs) rs))" using that gs(2) by (metis set_mset_mset)
    then show ?thesis using assms(7) by simp
  qed
  have "agg_groups (ex_cols (ge_child x)) es gs = Some (Inr (map (vals \<circ> gd_records \<circ> snd) gs))"
    using ok by (induction gs) (auto simp: getCurrentGroupRecords_def)
  moreover have "mset (map (vals \<circ> gd_records \<circ> snd) gs) = image_mset vals (mset (map (gd_records \<circ> snd) gs))"
    by (simp add: image_mset.compositionality o_assoc)
  ultimately show ?thesis using gs by (simp add: agg_begin_groups_def)
qed

text \<open>The example table with one row, counted and grouped.\<close>

definition example_agg :: "(seq_scan \<times> rm_file, seq_state) agg_exec" where
  "example_agg = \<lparr>ag_child = seq_exec example_scan, ag_index = None,
     ag_exprs = [AggExpr AGG_COUNT None, AliasExpr (AggExpr AGG_MIN (Some (PlainExpr (ColRef [] ''a'')))) ''m''], ag_fuel = 2\<rparr>"

definition example_group :: "(seq_scan \<times> rm_file, seq_state) group_exec" where
  "example_group = \<lparr>ge_child = seq_exec example_scan, ge_group_by = [PlainExpr (ColRef ''t'' ''a'')],
     ge_having = Some (CompareExpr (AggExpr AGG_COUNT None) SV_OP_GE (PlainExpr (IntLit 1))), ge_fuel = 2\<rparr>"

lemma example_child:
  obtains rid f where "insert_record (enc_i32 7) None (example_file 4) = (Inr rid, f)"
    "run_source (ex_begin (seq_exec example_scan)) (ex_is_end (seq_exec example_scan)) (ex_next (seq_exec example_scan)) (ex_get (seq_exec example_scan)) 2
       (example_scan, f) = Some (Inr (map Some [enc_i32 7]))"
proof -
  obtain rid f where f: "insert_record (enc_i32 7) None (example_file 4) = (Inr rid, f)" "file_inv f" "room f" "file_records f = [rid \<mapsto> enc_i32 7]"
    by (rule one_row_file)
  have s: "seq_ready (example_scan, f)" "seq_rows (example_scan, f) = [Some (enc_i32 7)]"
    using one_row_scan [OF f(2,3,4), of example_scan] by (simp_all add: example_scan_def)
  show ?thesis by (rule that [OF f(1)]) (use seq_source.run_ok [OF s(1), of 2] s(2) in \<open>simp add: seq_exec_def\<close>)
qed

lemma example_cols: "ex_cols (seq_exec example_scan) = [example_col ''a'' 0]"
  by (simp add: seq_exec_def example_scan_def proj_len_def)

lemma example_idx: "get_col_idx [example_col ''a'' 0] ([], ''a'') = Some (Inr (example_col ''a'' 0))" "get_col_idx [example_col ''a'' 0] (''t'', ''a'') = Some (Inr (example_col ''a'' 0))"
  by (simp_all add: get_col_idx_def example_col_def)

lemma example_fit: "col_fits (example_col ''a'' 0) (enc_i32 7)" "no_nan (col_value (example_col ''a'' 0) (enc_i32 7))" "plain_value (col_value (example_col ''a'' 0) (enc_i32 7))"
  "is_null_direct (example_col ''a'' 0) r = Some (Inr False)"
  by (simp_all add: col_fits_def example_col_def no_nan_def plain_value_def is_null_direct_def)

theorem streaming_equals_collected_witness:
  "\<exists>rid f n v. insert_record (enc_i32 7) None (example_file 4) = (Inr rid, f) \<and>
     agg_begin example_agg (example_scan, f) = Some (Inr ([[n, v]], 0)) \<and> int_val n = 1 \<and> int_val v = 7"
proof -
  obtain rid f where f: "insert_record (enc_i32 7) None (example_file 4) = (Inr rid, f)"
    "run_source (ex_begin (seq_exec example_scan)) (ex_is_end (seq_exec example_scan)) (ex_next (seq_exec example_scan)) (ex_get (seq_exec example_scan)) 2
       (example_scan, f) = Some (Inr (map Some [enc_i32 7]))" by (rule example_child)
  let ?c = "example_col ''a'' 0"
  have child: "ag_child example_agg = seq_exec example_scan" "ag_fuel example_agg = 2" "ag_index example_agg = None" "ag_exprs example_agg \<noteq> []" by (simp_all add: example_agg_def)
  have chk: "\<forall>e \<in> set (ag_exprs example_agg). agg_checked [?c] e \<and> (\<forall>arg. unalias e \<noteq> AggExpr AGG_AVG arg)"
    by (simp add: example_agg_def agg_checked_def arg_col_def agg_meta_def is_numeric_type_def example_col_def)
  have row: "\<forall>r \<in> set [enc_i32 7]. agg_row [?c] r" using example_fit by (simp add: agg_row_def)
  have ord: "index_order example_agg [enc_i32 7]" by (simp add: index_order_def shortcut_column_def child)
  have beg: "agg_begin example_agg (example_scan, f) = chk (compute_aggregation_for_group [?c] (ag_exprs example_agg) [enc_i32 7]) (\<lambda>vs. Some (Inr ([vs], 0)))"
    using streaming_equals_collected [of example_agg "(example_scan, f)" "[enc_i32 7]"] f(2) child chk row ord by (simp add: example_cols)
  have val: "compute_aggregation_for_group [?c] (ag_exprs example_agg) [enc_i32 7] = Some (Inr [set_int 1 Value_default, col_value ?c (enc_i32 7)])"
    by (simp add: example_agg_def compute_aggregation_for_group_def group_value_def compute_single_aggregation_def arg_col_def example_idx min_max_loop_def
        each_value_def value_at_fits example_fit is_null_def min_max_step_def)
  have "int_val (set_int 1 Value_default) = 1" "int_val (col_value ?c (enc_i32 7)) = 7"
    using int_val_set_int [of 1] example_col_int [of 7] by (simp_all add: int32_def)
  then show ?thesis using f(1) beg val by auto
qed

theorem grouped_query_results_witness:
  "\<exists>rid f k n. insert_record (enc_i32 7) None (example_file 4) = (Inr rid, f) \<and>
     agg_begin_groups (\<lambda>_. 0) rev example_group [PlainExpr (ColRef ''t'' ''a''), AggExpr AGG_COUNT None] (example_scan, f) = Some (Inr ([[k, n]], 0)) \<and>
     int_val k = 7 \<and> int_val n = 1"
proof -
  obtain rid f where f: "insert_record (enc_i32 7) None (example_file 4) = (Inr rid, f)"
    "run_source (ex_begin (seq_exec example_scan)) (ex_is_end (seq_exec example_scan)) (ex_next (seq_exec example_scan)) (ex_get (seq_exec example_scan)) 2
       (example_scan, f) = Some (Inr (map Some [enc_i32 7]))" by (rule example_child)
  let ?c = "example_col ''a'' 0" and ?es = "[PlainExpr (ColRef ''t'' ''a''), AggExpr AGG_COUNT None]"
  let ?vs = "[col_value ?c (enc_i32 7), set_int 1 Value_default]"
  have groups: "groups_of (group_rank [?c]) [enc_i32 7] = [[enc_i32 7]]" by (simp add: groups_of_def firsts_def)
  have res: "resolves [?c] [PlainExpr (ColRef ''t'' ''a'')] [?c]" by (simp add: resolves_def map_filter_simps example_idx)
  have one: "int_val (set_int 1 v) = 1" "int_val (col_value ?c (enc_i32 7)) = 7" for v
    using int_val_set_int [of 1] example_col_int [of 7] by (simp_all add: int32_def)
  have hav: "having_decides example_group (\<lambda>_. True) [[enc_i32 7]]"
    using one by (simp add: having_decides_def example_group_def compute_agg_for_having_def having_operands_def value_ge_def value_less_def)
  have val: "compute_aggregation_for_group [?c] ?es [enc_i32 7] = Some (Inr ?vs)"
    by (simp add: compute_aggregation_for_group_def group_value_def compute_single_aggregation_def example_idx value_at_fits example_fit)
  have "\<exists>vss. agg_begin_groups (\<lambda>_. 0) rev example_group ?es (example_scan, f) = Some (Inr (vss, 0)) \<and>
      mset vss = image_mset (\<lambda>_. ?vs) (filter_mset (\<lambda>_. True) (mset (groups_of (group_rank [?c]) [enc_i32 7])))"
    by (rule grouped_query_results) (use f(2) res hav val groups example_fit in \<open>simp_all add: example_group_def example_cols group_fits_def\<close>)
  then obtain vss where "agg_begin_groups (\<lambda>_. 0) rev example_group ?es (example_scan, f) = Some (Inr (vss, 0))" "vss = [?vs]" by (auto simp: groups)
  then show ?thesis using f(1) one by auto
qed

subsection \<open>Where aggregates go wrong\<close>

text \<open>\<^verbatim>\<open>MIN\<close> of the last column of an index is taken from the first row of the scan, which is least in the first column: of the rows
  \<open>(1, 5)\<close> and \<open>(2, 3)\<close> of an index on two columns it returns 5. The executor below has its rows in a list.\<close>

definition listed :: "ColMeta list \<Rightarrow> (bytes list, bytes list) executor" where
  "listed cols = \<lparr>ex_begin = (\<lambda>rs. Some (Inr rs)), ex_is_end = (\<lambda>rs. rs = []), ex_next = (\<lambda>rs. Some (Inr (tl rs))),
     ex_get = (\<lambda>rs. Some (Inr (Some (hd rs)))), ex_cols = cols, ex_len = agg_tuple_len cols, ex_shared = False\<rparr>"

definition two_columns :: "string list option \<Rightarrow> (bytes list, bytes list) agg_exec" where
  "two_columns index = \<lparr>ag_child = listed [example_col ''a'' 0, example_col ''b'' 4], ag_index = index,
     ag_exprs = [AggExpr AGG_MIN (Some (PlainExpr (ColRef [] ''b'')))], ag_fuel = 3\<rparr>"

lemma second_column: "int32 n \<Longrightarrow> int_val (from_raw (read_bytes 4 4 (enc_i32 m @ enc_i32 n)) TYPE_INT 4) = n"
  by (simp add: from_raw_int dec_enc_i32 read_bytes_def)

lemma index_minimum_wrong:
  assumes "rs = [enc_i32 1 @ enc_i32 5, enc_i32 2 @ enc_i32 3]"
  shows "\<exists>v. agg_begin (two_columns (Some [''a'', ''b''])) rs = Some (Inr ([[v]], 0)) \<and> int_val v = 5"
    and "\<exists>v. agg_begin (two_columns None) rs = Some (Inr ([[v]], 0)) \<and> int_val v = 3"
proof -
  have v: "int_val (from_raw (read_bytes 4 4 (enc_i32 1 @ enc_i32 5)) TYPE_INT 4) = 5" "int_val (from_raw (read_bytes 4 4 (enc_i32 2 @ enc_i32 3)) TYPE_INT 4) = 3"
    by (rule second_column, simp add: int32_def)+
  have d: "dec_i32 (read_bytes 4 4 (enc_i32 2 @ enc_i32 3)) = 3" using from_raw_int [of "read_bytes 4 4 (enc_i32 2 @ enc_i32 3)"] v(2) by simp
  note defs = agg_begin_def two_columns_def listed_def compute_streaming_aggregation_def try_index_min_max_optimization_def arg_col_def
    get_col_idx_def example_col_def value_at_def load_def stream_all_def numeral_3_eq_3 update_streaming_agg_state_def stream_one_def stream_min_max_def
    is_null_direct_def AggState_init_def compare_values_direct_def compute_final_results_def final_one_def
  show "\<exists>v. agg_begin (two_columns (Some [''a'', ''b''])) rs = Some (Inr ([[v]], 0)) \<and> int_val v = 5" using v by (simp add: assms defs)
  show "\<exists>v. agg_begin (two_columns None) rs = Some (Inr ([[v]], 0)) \<and> int_val v = 3" using v d by (simp add: assms defs)
qed

text \<open>\<^verbatim>\<open>COUNT\<close> of a column of strings skips empty strings without grouping and counts them with it.\<close>

lemma count_of_empty_strings:
  assumes "col_type c = TYPE_STRING" "0 < col_len c" "col_fits c r" "r ! col_offset c = 0" "st = AggState_init"
  shows "stream_count c r st = Some (Inr st)" "count_loop c [r] = Some (Inr 1)"
proof -
  have "load (col_offset c) 1 r = Some (Inr [0])" using assms by (simp add: load_def col_fits_def read_bytes_def take_Suc_conv_app_nth)
  then show "stream_count c r st = Some (Inr st)" using assms by (simp add: stream_count_def is_null_direct_def)
  show "count_loop c [r] = Some (Inr 1)" using count_loop_length [of "[r]" c] assms(3) by simp
qed

subsection \<open>Results as rows\<close>

definition agg_record :: "(nat \<Rightarrow> bytes) \<Rightarrow> ColMeta list \<Rightarrow> Value list \<Rightarrow> bytes checked" where
  "agg_record junk out vs = fold_chk (\<lambda>(c, v). put_value c v) (zip out vs) (junk (agg_tuple_len out))"

text \<open>The executor is a source of rows for the executor above it when its results fit in the output record; \<open>start\<close> is its
  \<^verbatim>\<open>beginTuple\<close>, which differs with the child.\<close>

definition agg_ready :: "('q \<Rightarrow> agg_state checked) \<Rightarrow> (nat \<Rightarrow> bytes) \<Rightarrow> ColMeta list \<Rightarrow> 'q \<Rightarrow> bool" where
  "agg_ready start junk out q \<longleftrightarrow> (\<exists>vss. start q = Some (Inr (vss, 0)) \<and> (\<forall>vs \<in> set vss. \<exists>r. agg_record junk out vs = Some (Inr r)))"

definition agg_inv :: "(nat \<Rightarrow> bytes) \<Rightarrow> ColMeta list \<Rightarrow> agg_state \<Rightarrow> bool" where
  "agg_inv junk out s \<longleftrightarrow> (\<forall>vs \<in> set (fst s). \<exists>r. agg_record junk out vs = Some (Inr r))"

definition agg_rest :: "(nat \<Rightarrow> bytes) \<Rightarrow> ColMeta list \<Rightarrow> agg_state \<Rightarrow> bytes option list" where
  "agg_rest junk out s = map (\<lambda>vs. case agg_record junk out vs of Some (Inr r) \<Rightarrow> Some r | _ \<Rightarrow> None) (drop (snd s) (fst s))"

definition agg_rows :: "('q \<Rightarrow> agg_state checked) \<Rightarrow> (nat \<Rightarrow> bytes) \<Rightarrow> ColMeta list \<Rightarrow> 'q \<Rightarrow> bytes option list" where
  "agg_rows start junk out q = (case start q of Some (Inr s) \<Rightarrow> agg_rest junk out s | _ \<Rightarrow> [])"

locale agg_output =
  fixes start :: "'q \<Rightarrow> agg_state checked" and junk :: "nat \<Rightarrow> bytes" and out :: "ColMeta list"
  assumes at_first: "start q = Some (Inr s) \<Longrightarrow> snd s = 0"
begin

sublocale results: row_source start agg_is_end agg_next "agg_get junk out" "agg_ready start junk out" "\<lambda>q. agg_inv junk out" "agg_rows start junk out" "agg_rest junk out"
proof unfold_locales
  show "\<exists>s. start q = Some (Inr s) \<and> agg_inv junk out s \<and> agg_rest junk out s = agg_rows start junk out q" if "agg_ready start junk out q" for q
    using that by (auto simp: agg_ready_def agg_inv_def agg_rows_def)
  show "agg_is_end s \<longleftrightarrow> agg_rest junk out s = []" for s by (simp add: agg_is_end_def agg_rest_def)
  fix s r rs
  assume i: "agg_inv junk out s" and r: "agg_rest junk out s = r # rs"
  have lt: "snd s < length (fst s)" using r by (auto simp: agg_rest_def intro: ccontr)
  then have d: "drop (snd s) (fst s) = fst s ! snd s # drop (snd s + 1) (fst s)" by (simp add: Cons_nth_drop_Suc)
  obtain b where b: "agg_record junk out (fst s ! snd s) = Some (Inr b)" using i nth_mem [OF lt] unfolding agg_inv_def by blast
  show "agg_get junk out s = Some (Inr r)" using r d b lt by (simp add: agg_rest_def agg_get_def agg_is_end_def agg_record_def)
  show "\<exists>s'. agg_next s = Some (Inr s') \<and> agg_inv junk out s' \<and> agg_rest junk out s' = rs"
    using i r d by (simp add: agg_next_def agg_inv_def agg_rest_def)
qed

end

interpretation streamed: agg_output "agg_begin x" junk out for x junk out
  by unfold_locales (auto simp: agg_begin_def chk_Inr)

interpretation grouped: agg_output "agg_begin_groups H ord x es" junk out for H ord x es junk out
  by unfold_locales (auto simp: agg_begin_groups_def chk_Inr)

end
