(* ===== verification/Sm_Manager.thy ===== *)
theory Sm_Manager
  imports Exec_Dml
begin

text \<open>
  The system manager (\<^verbatim>\<open>src/src/system/sm_manager.cpp\<close>): creating and dropping tables and indexes. A table gets its columns one after
  the other and an empty record file; an index is filled from the rows of its table.

  Shown: a new table is an empty table for the executors that change it, and a new index has exactly the keys of the rows, so that what is
  shown of these executors starts here; when two rows have one key the index is refused and nothing is left of it.
\<close>

subsection \<open>State\<close>

text \<open>The catalogue, the open record files and indexes, the names of the files in the database directory, the catalogue file, and the version chains.\<close>

record sm_state =
  sm_db :: DbMeta
  sm_fhs :: storage
  sm_ihs :: "string \<rightharpoonup> ix_index"
  sm_files :: "string list"
  sm_meta :: string
  sm_mvcc :: "mvcc_manager option"

type_synonym 'a sm_run = "(sm_state, 'a) outcome option"

definition FILE_POOL_SIZE :: nat where "FILE_POOL_SIZE = 262144 div 32"

definition flush_meta :: "sm_state \<Rightarrow> sm_state" where
  "flush_meta s = s\<lparr>sm_meta := put_db (sm_db s)\<rparr>"

subsection \<open>Tables\<close>

record ColDef =
  cd_name :: string
  cd_type :: ColType
  cd_len :: int

fun table_cols :: "string \<Rightarrow> nat \<Rightarrow> ColDef list \<Rightarrow> ColMeta list" where
  "table_cols t off [] = []"
| "table_cols t off (d # ds) =
     \<lparr>col_tab_name = t, col_name = cd_name d, col_type = cd_type d, col_len = nat (cd_len d), col_offset = off, col_index = False\<rparr> #
     table_cols t (off + nat (cd_len d)) ds"

text \<open>The lengths and \<^verbatim>\<open>curr_offset\<close> are \<^verbatim>\<open>int\<close>s. A length is a literal without a sign, and a literal that is no \<^verbatim>\<open>int\<close> is undefined already in the
  scanner (\<^verbatim>\<open>atoi\<close>); an offset that leaves \<^verbatim>\<open>int\<close> is undefined in the loop.\<close>

fun offsets_in_range :: "int \<Rightarrow> ColDef list \<Rightarrow> bool" where
  "offsets_in_range off [] \<longleftrightarrow> True"
| "offsets_in_range off (d # ds) \<longleftrightarrow> 0 \<le> cd_len d \<and> int32 (off + cd_len d) \<and> offsets_in_range (off + cd_len d) ds"

text \<open>A record file that has just been created, opened with the descriptor \<open>fd\<close> on a pool of its own.\<close>

definition fresh_file :: "int \<Rightarrow> nat \<Rightarrow> rm_file" where
  "fresh_file fd rs = \<lparr>rf_fd = fd, rf_hdr = file_hdr_new rs, rf_mvcc = Map.empty,
     rf_store = \<lparr>ps_pages = Map.empty, ps_pins = [], ps_touched = [], ps_next = (\<lambda>_. 1), ps_fds = [fd], ps_cap = FILE_POOL_SIZE\<rparr>, rf_log = []\<rparr>"

definition rm_create_file :: "string \<Rightarrow> nat \<Rightarrow> sm_state \<Rightarrow> unit sm_run" where
  "rm_create_file name rs s =
     (if rs < 1 \<or> rs > RM_MAX_RECORD_SIZE then throw (InvalidRecordSizeError (int rs)) s
      else if name \<in> set (sm_files s) then throw (FileExistsError name) s
      else Some (Inr (), s\<lparr>sm_files := name # sm_files s\<rparr>))"

definition create_table :: "int \<Rightarrow> string \<Rightarrow> ColDef list \<Rightarrow> sm_state \<Rightarrow> unit sm_run" where
  "create_table fd name defs s =
     (if is_table name (sm_db s) then throw (TableExistsError name) s
      else if \<not> offsets_in_range 0 defs then None
      else let tab = \<lparr>tab_name = name, tab_cols = table_cols name 0 defs, tab_indexes = []\<rparr>; rs = nat (sum_list (map cd_len defs))
           in run_bind (rm_create_file name rs s) (\<lambda>_ s.
                Some (Inr (), flush_meta (s\<lparr>sm_db := SetTabMeta name tab (sm_db s),
                  sm_fhs := (if map_of (sm_fhs s) name = None then (name, fresh_file fd rs) # sm_fhs s else sm_fhs s)\<rparr>))))"

text \<open>\<^verbatim>\<open>drop_table\<close> has the record file closed and removed; the indexes of the table are not looked at.\<close>

definition drop_table :: "string \<Rightarrow> sm_state \<Rightarrow> unit sm_run" where
  "drop_table name s =
     (if \<not> is_table name (sm_db s) then throw (TableNotFoundError name) s
      else let s = s\<lparr>sm_mvcc := map_option (clear_table_versions name) (sm_mvcc s)\<rparr>
           in case map_of (sm_fhs s) name of
                None \<Rightarrow> None
              | Some f \<Rightarrow>
                  if name \<notin> set (sm_files s) then throw (FileNotFoundError name) s
                  else Some (Inr (), flush_meta (s\<lparr>sm_files := remove1 name (sm_files s), sm_fhs := AList.delete name (sm_fhs s),
                    sm_db := (sm_db s)\<lparr>db_tabs := AList.delete name (db_tabs (sm_db s))\<rparr>\<rparr>)))"

subsection \<open>Indexes\<close>

fun col_metas :: "string list \<Rightarrow> TabMeta \<Rightarrow> db_error + ColMeta list" where
  "col_metas [] tab = Inr []"
| "col_metas (n # ns) tab =
     (case tab_get_col n tab of
        Inl e \<Rightarrow> Inl e
      | Inr c \<Rightarrow> (case col_metas ns tab of Inl e \<Rightarrow> Inl e | Inr cs \<Rightarrow> Inr (c # cs)))"

text \<open>The loop over the rows of the table, from the cursor \<open>rid\<close> on; the result says whether every key was new. \<open>ks\<close> are the keys so far,
  and the first argument bounds the rounds.\<close>

fun fill_index :: "nat \<Rightarrow> IndexMeta \<Rightarrow> Rid \<Rightarrow> rm_file \<Rightarrow> bytes list \<Rightarrow> ix_index \<Rightarrow> bool ix_run" where
  "fill_index 0 im rid f ks ix = None"
| "fill_index (Suc n) im rid f ks ix =
     (if scan_is_end rid then Some (Inr True, ix)
      else case get_record rid f of
             (Inl e, f) \<Rightarrow> Some (Inl e, ix)
           | (Inr r, f) \<Rightarrow> run_bind (lift_checked (build_key im r) ix) (\<lambda>key ix.
               if key \<in> set ks then Some (Inr False, ix)
               else run_bind (insert_entry key rid ix) (\<lambda>p ix.
                 if p = IX_NO_PAGE then Some (Inr False, ix)
                 else case scan_next rid f of (Inl e, f) \<Rightarrow> Some (Inl e, ix) | (Inr rid, f) \<Rightarrow> fill_index n im rid f (key # ks) ix)))"

definition index_table_rows :: "nat \<Rightarrow> IndexMeta \<Rightarrow> rm_file \<Rightarrow> ix_index \<Rightarrow> bool ix_run" where
  "index_table_rows n im f ix = (case scan_begin f of (Inl e, f) \<Rightarrow> Some (Inl e, ix) | (Inr rid, f) \<Rightarrow> fill_index n im rid f [] ix)"

text \<open>The file of the index is made before its columns are checked; it is removed when two rows have one key, and stays when an exception is thrown.\<close>

definition sm_create_index :: "nat \<Rightarrow> string \<Rightarrow> string list \<Rightarrow> sm_state \<Rightarrow> unit sm_run" where
  "sm_create_index fuel name cols s =
     (let ix_name = get_index_name name cols
      in if ix_name \<in> set (sm_files s) then throw (IndexExistsError name cols) s
         else case get_table name (sm_db s) of
                Inl e \<Rightarrow> throw e s
              | Inr tab \<Rightarrow>
                  (case col_metas cols tab of
                     Inl e \<Rightarrow> throw e s
                   | Inr cs \<Rightarrow>
                       let s' = s\<lparr>sm_files := ix_name # sm_files s\<rparr>;
                           im = \<lparr>im_tab_name = name, im_col_tot_len = sum_list (map col_len cs), im_col_num = length cols, im_cols = cs\<rparr>
                       in case create_index (map (\<lambda>c. (col_type c, col_len c)) cs) of
                            Inl e \<Rightarrow> throw e s'
                          | Inr ixf \<Rightarrow>
                              (case (open_index ixf, map_of (sm_fhs s) name) of
                                 (Some (Inr ix), Some f) \<Rightarrow>
                                   (case index_table_rows fuel im f ix of
                                      None \<Rightarrow> None
                                    | Some (Inl e, _) \<Rightarrow> throw e s'
                                    | Some (Inr False, _) \<Rightarrow> throw (NonUniqueIndexError name cols) s
                                    | Some (Inr True, ix) \<Rightarrow>
                                        let indexes = (if map_of (tab_indexes tab) ix_name = None then (ix_name, im) # tab_indexes tab else tab_indexes tab)
                                        in Some (Inr (), flush_meta (s'\<lparr>sm_db := SetTabMeta name (tab\<lparr>tab_indexes := indexes\<rparr>) (sm_db s'),
                                                  sm_ihs := (sm_ihs s')(ix_name \<mapsto> ix)\<rparr>)))
                               | (Some (Inl e), _) \<Rightarrow> throw e s'
                               | _ \<Rightarrow> None)))"

definition drop_index :: "string \<Rightarrow> string list \<Rightarrow> sm_state \<Rightarrow> unit sm_run" where
  "drop_index name cols s =
     (case get_table name (sm_db s) of
        Inl e \<Rightarrow> throw e s
      | Inr tab \<Rightarrow>
          let ix_name = get_index_name name cols
          in if ix_name \<notin> set (sm_files s) then throw (IndexNotFoundError name cols) s
             else case sm_ihs s ix_name of
                    None \<Rightarrow> None
                  | Some _ \<Rightarrow> Some (Inr (), flush_meta (s\<lparr>sm_files := remove1 ix_name (sm_files s), sm_ihs := (sm_ihs s)(ix_name := None),
                      sm_db := SetTabMeta name (tab\<lparr>tab_indexes := AList.delete ix_name (tab_indexes tab)\<rparr>) (sm_db s)\<rparr>)))"

subsection \<open>A new table\<close>

lemma table_cols_laid_out: "laid_out off (table_cols t off ds)"
  by (induction ds arbitrary: off) simp_all

lemma table_cols_names: "map col_name (table_cols t off ds) = map cd_name ds" "map col_len (table_cols t off ds) = map (nat \<circ> cd_len) ds"
  by (induction ds arbitrary: off) simp_all

lemma table_cols_len: "offsets_in_range off ds \<Longrightarrow> map (int \<circ> col_len) (table_cols t k ds) = map cd_len ds"
  by (induction ds arbitrary: off k) auto

lemma offsets_in_range_sum: "offsets_in_range off ds \<longleftrightarrow> (\<forall>d \<in> set ds. 0 \<le> cd_len d) \<and> (ds = [] \<or> int32 (off + sum_list (map cd_len ds)))"
  if "0 \<le> off"
  using that
proof (induction ds arbitrary: off)
  case (Cons d ds)
  have s: "(\<forall>d \<in> set ds. 0 \<le> cd_len d) \<Longrightarrow> 0 \<le> sum_list (map cd_len ds)" by (induction ds) auto
  show ?case
  proof (cases "0 \<le> cd_len d \<and> (\<forall>d \<in> set ds. 0 \<le> cd_len d)")
    case True
    then show ?thesis using Cons.IH [of "off + cd_len d"] Cons.prems s by (auto simp: int32_def add.assoc)
  next
    case False
    then show ?thesis using Cons.IH [of "off + cd_len d"] Cons.prems by auto
  qed
qed simp

lemma fresh_file_ok:
  assumes "1 \<le> rs" "rs \<le> RM_MAX_RECORD_SIZE"
  shows "file_inv (fresh_file fd rs)" "room (fresh_file fd rs)" "file_records (fresh_file fd rs) = Map.empty" "record_size (rf_hdr (fresh_file fd rs)) = rs"
proof -
  have p: "not_full (fresh_file fd rs) p = False" "data_page (fresh_file fd rs) p = False" for p
    by (simp_all add: not_full_def data_page_def fresh_file_def file_hdr_new_def Let_def)
  then show "file_inv (fresh_file fd rs)" using file_hdr_new_ok [OF assms]
    by (auto simp: file_inv_def fresh_file_def file_hdr_new_def Let_def RM_NO_PAGE_def intro: exI [of _ "[]"])
  show "room (fresh_file fd rs)" by (simp add: room_def fresh_file_def FILE_POOL_SIZE_def)
  show "file_records (fresh_file fd rs) = Map.empty" using p by (auto simp: file_records_def)
  show "record_size (rf_hdr (fresh_file fd rs)) = rs" by (simp add: fresh_file_def file_hdr_new_def Let_def)
qed

text \<open>The state the executors of a transaction work on.\<close>

definition dml_of :: "sm_state \<Rightarrow> lock_table \<Rightarrow> Transaction \<Rightarrow> dml_state" where
  "dml_of s lt t = \<lparr>ds_fhs = sm_fhs s, ds_ihs = sm_ihs s, ds_locks = lt, ds_mvcc = sm_mvcc s, ds_txn = t\<rparr>"

definition exec_on :: "string \<Rightarrow> TabMeta \<Rightarrow> bool \<Rightarrow> dml_exec" where
  "exec_on name tab log = \<lparr>dx_tab = tab, dx_name = name, dx_log = log\<rparr>"

lemma get_table_set [simp]: "get_table t (SetTabMeta t tab db) = Inr tab"
  by (simp add: get_table_def SetTabMeta_def is_table_def update_conv)

subsection \<open>A new index\<close>

lemma restrict_insert: "rows q = Some r \<Longrightarrow> rows |` insert q A = (rows |` A)(q \<mapsto> r)"
  by (auto simp: restrict_map_def fun_eq_iff)

definition duplicate :: "IndexMeta \<Rightarrow> (Rid \<rightharpoonup> bytes) \<Rightarrow> bool" where
  "duplicate im rows \<longleftrightarrow> (\<exists>p q a b. rows p = Some a \<and> rows q = Some b \<and> p \<noteq> q \<and> rank_in im a = rank_in im b)"

lemma fill_index_ok:
  assumes stored: "file_inv f" "room f" "file_records f = rows" and fits: "\<forall>r \<in> ran rows. key_fits im r"
    and "scan_loop n rid f = Some rids" "scan_is_end rid \<or> rid \<in> dom rows" "distinct (ds @ rids)" "set (ds @ rids) \<subseteq> dom rows"
    and "index_of im ix (rows |` set ds)" "ks = map (\<lambda>q. row_key im (the (rows q))) ds"
  shows "\<exists>b ix'. fill_index n im rid f ks ix = Some (Inr b, ix') \<and> (if b then index_of im ix' (rows |` set (ds @ rids)) else duplicate im rows)"
  using assms(5-)
proof (induction n arbitrary: rid rids "ds" ks ix)
  case (Suc n)
  show ?case
  proof (cases "scan_is_end rid")
    case True
    then show ?thesis using Suc.prems(1,5) by (intro exI [of _ True] exI [of _ ix]) simp
  next
    case False
    then obtain r where r: "rows rid = Some r" using Suc.prems(2) by auto
    have fit: "key_fits im r" "build_key im r = Some (Inr (row_key im r))" using fits r by (auto simp: ran_def key_fits_def)
    have "rid_in f rid" using r stored(3) by (intro file_records_in) auto
    then have get: "get_record rid f = (Inr r, f)" using get_record_ok [OF stored(1,2)] r stored(3) by simp
    obtain rid2 where nx: "scan_next rid f = (Inr rid2, f)" "scan_is_end rid2 \<or> rid2 \<in> dom rows"
      using scan_next_record [OF stored(1,2), of rid] r stored(3) by auto
    obtain rids2 where rids: "rids = rid # rids2" "scan_loop n rid2 f = Some rids2" using Suc.prems(1) False nx by auto
    have new: "rid \<notin> set ds" using Suc.prems(3) rids(1) by auto
    show ?thesis
    proof (cases "\<exists>q b. (rows |` set ds) q = Some b \<and> rank_in im b = rank_in im r")
      case True
      then obtain q b where q: "(rows |` set ds) q = Some b" "rank_in im b = rank_in im r" by blast
      then have "rows q = Some b" "q \<noteq> rid" using new by (auto simp: restrict_map_def split: if_splits)
      then have "duplicate im rows" using r q(2) unfolding duplicate_def by blast
      moreover have "insert_entry (row_key im r) rid ix = Some (Inr IX_NO_PAGE, ix)" by (rule index_insert_taken [OF Suc.prems(5) fit(1) q])
      then have "fill_index (Suc n) im rid f ks ix = Some (Inr False, ix)" using False get fit(2) by (simp add: lift_checked_def)
      ultimately show ?thesis by (intro exI [of _ False] exI [of _ ix]) simp
    next
      case free: False
      have "row_key im r \<notin> set ks"
      proof
        assume "row_key im r \<in> set ks"
        then obtain q where q: "q \<in> set ds" "row_key im r = row_key im (the (rows q))" using Suc.prems(6) by auto
        obtain b where b: "rows q = Some b" using q(1) Suc.prems(4) by fastforce
        have "(rows |` set ds) q = Some b" "rank_in im b = rank_in im r" using b q by (simp_all add: rank_in_def)
        then show False using free by blast
      qed
      moreover have "(rows |` set ds) rid = None" using new by (simp add: restrict_map_def)
      then obtain p ix2 where i: "insert_entry (row_key im r) rid ix = Some (Inr p, ix2)" "p \<noteq> IX_NO_PAGE" "index_of im ix2 ((rows |` set ds)(rid \<mapsto> r))"
        using index_insert [OF Suc.prems(5) fit(1) _ free] by blast
      ultimately have go: "fill_index (Suc n) im rid f ks ix = fill_index n im rid2 f (row_key im r # ks) ix2"
        using False get fit(2) nx(1) by (simp add: lift_checked_def)
      have "index_of im ix2 (rows |` set (rid # ds))" using i(3) restrict_insert [where rows = rows, OF r, of "set ds"] by simp
      moreover have "set ((rid # ds) @ rids2) = set (ds @ rids)" using rids(1) by auto
      moreover have "distinct ((rid # ds) @ rids2)" "set ((rid # ds) @ rids2) \<subseteq> dom rows" "row_key im r # ks = map (\<lambda>q. row_key im (the (rows q))) (rid # ds)"
        using Suc.prems(3,4,6) rids(1) r by auto
      ultimately show ?thesis unfolding go using Suc.IH [OF rids(2) nx(2), of "rid # ds" ix2 "row_key im r # ks"] by (simp only:)
    qed
  qed
qed simp

lemma index_table_rows_ok:
  assumes stored: "file_inv f" "room f" "card (dom (file_records f)) < n" and fits: "\<forall>r \<in> ran (file_records f). key_fits im r"
    and fresh: "index_of im ix Map.empty"
  shows "if duplicate im (file_records f) then \<exists>ix'. index_table_rows n im f ix = Some (Inr False, ix')
    else \<exists>ix'. index_table_rows n im f ix = Some (Inr True, ix') \<and> index_of im ix' (file_records f)"
proof -
  let ?cur = "\<lparr>rid_page_no = RM_FIRST_RECORD_PAGE, rid_slot_no = RM_NO_PAGE\<rparr>" and ?rows = "file_records f"
  obtain rid where b: "scan_begin f = (Inr rid, f)" "scan_is_end rid \<or> rid \<in> dom ?rows"
    unfolding scan_begin_def by (rule scan_next_ok [OF stored(1,2), of ?cur]) (auto simp: RM_FIRST_RECORD_PAGE_def RM_NO_PAGE_def)
  obtain rids where rids: "scan_all n f = Some rids" "set rids = dom ?rows" "sorted_wrt rid_before rids" using scan_all_ok [OF stored] by blast
  have loop: "scan_loop n rid f = Some rids" using rids(1) b(1) by (simp add: scan_all_def)
  have "distinct rids" using rids(3) by (induction rids) auto
  moreover have none: "?rows |` set [] = Map.empty" by simp
  moreover have all: "?rows |` set ([] @ rids) = ?rows" using rids(2) by (auto simp: restrict_map_def fun_eq_iff)
  ultimately obtain b' ix' where k: "fill_index n im rid f [] ix = Some (Inr b', ix')" "if b' then index_of im ix' ?rows else duplicate im ?rows"
    using fill_index_ok [OF stored(1,2) refl fits loop b(2), of "[]" ix "[]"] rids(2) fresh unfolding all by auto
  have "\<not> duplicate im ?rows" if "index_of im ix' ?rows" using index_of_unique [OF that] unfolding duplicate_def by blast
  then show ?thesis using k b(1) by (cases b') (auto simp: index_table_rows_def)
qed

definition index_on :: "string \<Rightarrow> ColMeta list \<Rightarrow> IndexMeta" where
  "index_on name cs = \<lparr>im_tab_name = name, im_col_tot_len = sum_list (map col_len cs), im_col_num = length cs, im_cols = cs\<rparr>"

lemma col_metas_length: "col_metas ns tab = Inr cs \<Longrightarrow> length cs = length ns"
  by (induction ns arbitrary: cs) (auto split: sum.splits)

text \<open>The state after an index has been added to a table.\<close>

definition with_index :: "string \<Rightarrow> TabMeta \<Rightarrow> string \<Rightarrow> IndexMeta \<Rightarrow> ix_index \<Rightarrow> sm_state \<Rightarrow> sm_state" where
  "with_index name tab ix_name im ix s =
     flush_meta (s\<lparr>sm_files := ix_name # sm_files s, sm_db := SetTabMeta name (tab\<lparr>tab_indexes := (ix_name, im) # tab_indexes tab\<rparr>) (sm_db s),
       sm_ihs := (sm_ihs s)(ix_name \<mapsto> ix)\<rparr>)"

lemma sm_create_index_ok:
  assumes tab: "get_table name (sm_db s) = Inr tab" "col_metas cols tab = Inr cs" "map_of (sm_fhs s) name = Some f"
    and stored: "file_inv f" "room f" "card (dom (file_records f)) < n"
    and new: "get_index_name name cols \<notin> set (sm_files s)" "map_of (tab_indexes tab) (get_index_name name cols) = None"
    and len: "sum_list (map col_len cs) \<le> IX_MAX_COL_LEN" "length cs \<le> 507" and fits: "\<forall>r \<in> ran (file_records f). key_fits (index_on name cs) r"
  shows "if duplicate (index_on name cs) (file_records f) then sm_create_index n name cols s = Some (Inl (NonUniqueIndexError name cols), s)
    else \<exists>ix. sm_create_index n name cols s = Some (Inr (), with_index name tab (get_index_name name cols) (index_on name cs) ix s) \<and>
      index_of (index_on name cs) ix (file_records f)"
proof -
  let ?im = "index_on name cs" and ?tl = "map (\<lambda>c. (col_type c, col_len c)) cs" and ?n = "get_index_name name cols"
  have m: "map fst ?tl = map col_type cs" "map snd ?tl = map col_len cs" by (simp_all add: comp_def)
  have len': "sum_list (map snd ?tl) \<le> IX_MAX_COL_LEN" "length ?tl \<le> 507" using len unfolding m(2) by simp_all
  obtain ixf ix where ix: "create_index ?tl = Inr ixf" "open_index ixf = Some (Inr ix)" "represents ix Map.empty"
    "ixh_col_types (ix_hdr ix) = map fst ?tl" "ixh_col_lens (ix_hdr ix) = map snd ?tl" using create_open_fresh [OF len'] by blast
  have fresh: "index_of ?im ix Map.empty" using ix(3-5) unfolding index_of_def m by (auto simp: index_on_def)
  have im: "?im = \<lparr>im_tab_name = name, im_col_tot_len = sum_list (map col_len cs), im_col_num = length cols, im_cols = cs\<rparr>"
    using col_metas_length [OF tab(2)] by (simp add: index_on_def)
  show ?thesis
  proof (cases "duplicate ?im (file_records f)")
    case True
    then obtain ix' where "index_table_rows n ?im f ix = Some (Inr False, ix')" using index_table_rows_ok [OF stored fits fresh] by auto
    then show ?thesis using True new(1) tab ix(1,2) unfolding im by (simp add: sm_create_index_def Let_def throw_def)
  next
    case False
    then obtain ix' where k: "index_table_rows n ?im f ix = Some (Inr True, ix')" "index_of ?im ix' (file_records f)" using index_table_rows_ok [OF stored fits fresh] by auto
    have "sm_create_index n name cols s = Some (Inr (), with_index name tab ?n ?im ix' s)"
      using k(1) new tab ix(1,2) unfolding im by (simp add: sm_create_index_def with_index_def Let_def)
    then show ?thesis using False k(2) by auto
  qed
qed

subsection \<open>Properties\<close>

text \<open>C39: a table is created with its columns one after the other from the start of the row and with records of their total length, and it is then an
  empty table for the executors; a name that is in use and a row that is empty or too long are refused and nothing changes. This is for column lengths
  that are not negative and add up to an \<^verbatim>\<open>int\<close>; they are added without a check, and otherwise the statement is undefined
  (\<open>column_lengths_overflow\<close>).\<close>

theorem created_table_is_empty:
  assumes "map_of (sm_fhs s) name = None"
  shows "let rs = sum_list (map cd_len defs); tab = \<lparr>tab_name = name, tab_cols = table_cols name 0 defs, tab_indexes = []\<rparr>
    in if is_table name (sm_db s) then create_table fd name defs s = Some (Inl (TableExistsError name), s)
       else if \<not> ((\<forall>d \<in> set defs. 0 \<le> cd_len d) \<and> int32 rs) then create_table fd name defs s = None
       else if rs < 1 \<or> int RM_MAX_RECORD_SIZE < rs then create_table fd name defs s = Some (Inl (InvalidRecordSizeError rs), s)
       else if name \<in> set (sm_files s) then create_table fd name defs s = Some (Inl (FileExistsError name), s)
       else \<exists>s'. create_table fd name defs s = Some (Inr (), s') \<and> get_table name (sm_db s') = Inr tab \<and> laid_out 0 (tab_cols tab) \<and>
         map (int \<circ> col_len) (tab_cols tab) = map cd_len defs \<and> sm_meta s' = put_db (sm_db s') \<and>
         (\<exists>f. map_of (sm_fhs s') name = Some f \<and> int (record_size (rf_hdr f)) = rs) \<and> table_rel (exec_on name tab log) (dml_of s' lt t) Map.empty"
proof -
  let ?sum = "sum_list (map cd_len defs)" and ?tab = "\<lparr>tab_name = name, tab_cols = table_cols name 0 defs, tab_indexes = []\<rparr>"
  let ?rs = "nat ?sum"
  let ?s = "flush_meta (s\<lparr>sm_files := name # sm_files s, sm_db := SetTabMeta name ?tab (sm_db s), sm_fhs := (name, fresh_file fd ?rs) # sm_fhs s\<rparr>)"
  have rng: "offsets_in_range 0 defs \<longleftrightarrow> (\<forall>d \<in> set defs. 0 \<le> cd_len d) \<and> int32 ?sum"
    using offsets_in_range_sum [of 0 defs] by (auto simp: int32_def)
  have pos: "0 \<le> ?sum" if "\<forall>d \<in> set defs. 0 \<le> cd_len d" using that by (induction defs) auto
  show ?thesis
  proof (cases "is_table name (sm_db s) \<or> \<not> offsets_in_range 0 defs")
    case True
    then show ?thesis using rng by (auto simp: create_table_def throw_def Let_def)
  next
    case range: False
    then have sum: "0 \<le> ?sum" "int ?rs = ?sum" using rng pos by auto
    show ?thesis
    proof (cases "?sum < 1 \<or> int RM_MAX_RECORD_SIZE < ?sum \<or> name \<in> set (sm_files s)")
      case True
      moreover have "?rs < 1 \<longleftrightarrow> ?sum < 1" "RM_MAX_RECORD_SIZE < ?rs \<longleftrightarrow> int RM_MAX_RECORD_SIZE < ?sum" using sum by linarith+
      ultimately show ?thesis using range rng sum(2) by (auto simp: create_table_def rm_create_file_def throw_def Let_def)
    next
      case False
      then have ok: "1 \<le> ?rs" "?rs \<le> RM_MAX_RECORD_SIZE" using sum by linarith+
      have "create_table fd name defs s = Some (Inr (), ?s)"
        using False range ok assms by (simp add: create_table_def rm_create_file_def throw_def Let_def)
      moreover have "table_rel (exec_on name ?tab log) (dml_of ?s lt t) Map.empty"
        using fresh_file_ok [OF ok, of fd] by (simp add: table_rel_def dml_of_def exec_on_def flush_meta_def)
      moreover have "map (int \<circ> col_len) (tab_cols ?tab) = map cd_len defs" using table_cols_len [of 0 defs] range by simp
      ultimately show ?thesis using False range rng sum(2) fresh_file_ok(4) [OF ok, of fd]
        by (auto simp: Let_def table_cols_laid_out flush_meta_def intro!: exI [of _ ?s])
    qed
  qed
qed

text \<open>C13: a new index has exactly the keys of the rows of its table, so that the table is one the executors keep consistent, now with the new index;
  when two rows have one key the index is refused and nothing has changed.\<close>

theorem new_index_covers_rows:
  assumes rel: "table_rel (exec_on name tab log) (dml_of s lt t) rows" and tab: "get_table name (sm_db s) = Inr tab" "col_metas cols tab = Inr cs"
    and fuel: "card (dom rows) < n" and new: "get_index_name name cols \<notin> set (sm_files s)" "map_of (tab_indexes tab) (get_index_name name cols) = None"
    and len: "sum_list (map col_len cs) \<le> IX_MAX_COL_LEN" "length cs \<le> 507" and fits: "\<forall>r \<in> ran rows. key_fits (index_on name cs) r"
  shows "if duplicate (index_on name cs) rows then sm_create_index n name cols s = Some (Inl (NonUniqueIndexError name cols), s)
    else \<exists>s' tab'. sm_create_index n name cols s = Some (Inr (), s') \<and> get_table name (sm_db s') = Inr tab' \<and>
      tab_indexes tab' = (get_index_name name cols, index_on name cs) # tab_indexes tab \<and> sm_meta s' = put_db (sm_db s') \<and>
      table_rel (exec_on name tab' log) (dml_of s' lt t) rows"
proof -
  let ?n = "get_index_name name cols" and ?im = "index_on name cs"
  obtain f where f: "map_of (sm_fhs s) name = Some f" "file_inv f" "room f" "file_records f = rows" and d: "distinct (map fst (tab_indexes tab))"
    and ixs: "indexed (tab_indexes tab) (sm_ihs s) rows" using rel by (auto simp: table_rel_def dml_of_def exec_on_def)
  note ok = sm_create_index_ok [OF tab f(1-3), unfolded f(4), OF fuel new len fits]
  show ?thesis
  proof (cases "duplicate ?im rows")
    case True
    then show ?thesis using ok by simp
  next
    case False
    then obtain ix where ix: "sm_create_index n name cols s = Some (Inr (), with_index name tab ?n ?im ix s)" "index_of ?im ix rows" using ok by auto
    let ?tab = "tab\<lparr>tab_indexes := (?n, ?im) # tab_indexes tab\<rparr>"
    have nin: "?n \<notin> fst ` set (tab_indexes tab)" using new(2) by (simp add: map_of_eq_None_iff)
    have "table_rel (exec_on name ?tab log) (dml_of (with_index name tab ?n ?im ix s) lt t) rows"
      using f d nin ix(2) ixs indexed_other [OF nin] by (auto simp: table_rel_def dml_of_def exec_on_def with_index_def flush_meta_def)
    moreover have "get_table name (sm_db (with_index name tab ?n ?im ix s)) = Inr ?tab" "tab_indexes ?tab = (?n, ?im) # tab_indexes tab"
      "sm_meta (with_index name tab ?n ?im ix s) = put_db (sm_db (with_index name tab ?n ?im ix s))" by (simp_all add: with_index_def flush_meta_def)
    ultimately show ?thesis using False ix(1) by (simp only: if_False) blast
  qed
qed

definition empty_system :: sm_state where
  "empty_system = \<lparr>sm_db = \<lparr>db_name = ''db'', db_tabs = []\<rparr>, sm_fhs = [], sm_ihs = Map.empty, sm_files = [], sm_meta = [], sm_mvcc = None\<rparr>"

definition example_defs :: "ColDef list" where
  "example_defs = [\<lparr>cd_name = ''a'', cd_type = TYPE_INT, cd_len = 4\<rparr>]"

definition example_table_meta :: TabMeta where
  "example_table_meta = \<lparr>tab_name = ''t'', tab_cols = table_cols ''t'' 0 example_defs, tab_indexes = []\<rparr>"

theorem created_table_is_empty_witness:
  "\<exists>s'. create_table 3 ''t'' example_defs empty_system = Some (Inr (), s') \<and> get_table ''t'' (sm_db s') = Inr example_table_meta \<and>
     table_rel (exec_on ''t'' example_table_meta False) (dml_of s' Map.empty (new_transaction 1 SERIALIZABLE)) Map.empty"
proof -
  have "map_of (sm_fhs empty_system) ''t'' = None" "\<not> is_table ''t'' (sm_db empty_system)" "sm_files empty_system = []" "sum_list (map cd_len example_defs) = 4"
    by (simp_all add: empty_system_def is_table_def example_defs_def)
  then show ?thesis
    using created_table_is_empty [of empty_system "''t''" example_defs 3 False Map.empty "new_transaction 1 SERIALIZABLE"]
    by (auto simp: Let_def RM_MAX_RECORD_SIZE_def example_table_meta_def example_defs_def int32_def)
qed

lemma example_system:
  obtains s' where "create_table 3 ''t'' example_defs empty_system = Some (Inr (), s')" "sm_files s' = [''t'']" "get_table ''t'' (sm_db s') = Inr example_table_meta"
    "table_rel (exec_on ''t'' example_table_meta False) (dml_of s' Map.empty (new_transaction 1 SERIALIZABLE)) Map.empty"
proof -
  let ?s = "flush_meta (empty_system\<lparr>sm_files := [''t''], sm_db := SetTabMeta ''t'' example_table_meta (sm_db empty_system), sm_fhs := [(''t'', fresh_file 3 4)]\<rparr>)"
  have "create_table 3 ''t'' example_defs empty_system = Some (Inr (), ?s)"
    by (simp add: create_table_def rm_create_file_def empty_system_def is_table_def example_defs_def example_table_meta_def RM_MAX_RECORD_SIZE_def int32_def)
  moreover have "table_rel (exec_on ''t'' example_table_meta False) (dml_of ?s Map.empty (new_transaction 1 SERIALIZABLE)) Map.empty"
    using fresh_file_ok [of 4 3] by (simp add: table_rel_def dml_of_def exec_on_def flush_meta_def RM_MAX_RECORD_SIZE_def example_table_meta_def)
  ultimately show ?thesis using that [of ?s] by (simp add: flush_meta_def)
qed

theorem new_index_covers_rows_witness:
  "\<exists>s s' tab'. create_table 3 ''t'' example_defs empty_system = Some (Inr (), s) \<and> sm_create_index 1 ''t'' [''a''] s = Some (Inr (), s') \<and>
     table_rel (exec_on ''t'' tab' False) (dml_of s' Map.empty (new_transaction 1 SERIALIZABLE)) Map.empty \<and> length (tab_indexes tab') = 1"
proof -
  obtain s where s: "create_table 3 ''t'' example_defs empty_system = Some (Inr (), s)" "sm_files s = [''t'']" "get_table ''t'' (sm_db s) = Inr example_table_meta"
    "table_rel (exec_on ''t'' example_table_meta False) (dml_of s Map.empty (new_transaction 1 SERIALIZABLE)) Map.empty" by (rule example_system)
  have c: "col_metas [''a''] example_table_meta = Inr (table_cols ''t'' 0 example_defs)"
    by (simp add: example_table_meta_def example_defs_def tab_get_col_def)
  have "get_index_name ''t'' [''a''] \<notin> set (sm_files s)" "map_of (tab_indexes example_table_meta) (get_index_name ''t'' [''a'']) = None"
    "sum_list (map col_len (table_cols ''t'' 0 example_defs)) \<le> IX_MAX_COL_LEN" "length (table_cols ''t'' 0 example_defs) \<le> 507"
    by (simp_all add: s(2) get_index_name_def example_table_meta_def example_defs_def IX_MAX_COL_LEN_def)
  moreover have "\<not> duplicate im Map.empty" for im by (simp add: duplicate_def)
  ultimately show ?thesis using new_index_covers_rows [OF s(4,3) c, of 1] s(1) by (fastforce simp: example_table_meta_def)
qed

text \<open>The lengths of the columns are added in an \<^verbatim>\<open>int\<close> without a check: these three are accepted by the analyser, and their sum, which is undefined, is 4 where
  additions wrap around, a valid record length.\<close>

lemma column_lengths_overflow:
  assumes "\<not> is_table name (sm_db s)" "map cd_len defs = [2147483647, 2147483647, 6]"
  shows "create_table fd name defs s = None" "sum_list (map cd_len defs) mod 2 ^ 32 = 4"
proof -
  have "\<not> int32 (sum_list (map cd_len defs))" "defs \<noteq> []" using assms(2) by (auto simp: int32_def)
  then show "create_table fd name defs s = None" using assms(1) offsets_in_range_sum [of 0 defs] by (simp add: create_table_def)
  show "sum_list (map cd_len defs) mod 2 ^ 32 = 4" by (simp add: assms(2))
qed

text \<open>A dropped table leaves its index files and their handles: the index cannot be created again on a new table of that name.\<close>

lemma drop_table_keeps_indexes:
  assumes "drop_table name s = Some (Inr (), s')" "get_index_name name cols \<in> set (sm_files s)"
  shows "sm_ihs s' = sm_ihs s" "sm_create_index n name cols s' = Some (Inl (IndexExistsError name cols), s')"
proof -
  have s': "sm_ihs s' = sm_ihs s" "sm_files s' = remove1 name (sm_files s)"
    using assms(1) by (auto simp: drop_table_def throw_def flush_meta_def Let_def split: if_splits option.splits)
  show "sm_ihs s' = sm_ihs s" by (rule s')
  have "length (get_index_name name cols) \<noteq> length name" by (simp add: get_index_name_def)
  then have "get_index_name name cols \<noteq> name" by metis
  then show "sm_create_index n name cols s' = Some (Inl (IndexExistsError name cols), s')"
    using assms(2) s'(2) by (simp add: sm_create_index_def throw_def Let_def)
qed

text \<open>An index on columns that are too long is refused after its file has been made: a second attempt finds the index to exist.\<close>

lemma refused_index_leaves_file:
  assumes "get_table name (sm_db s) = Inr tab" "col_metas cols tab = Inr cs" "get_index_name name cols \<notin> set (sm_files s)" "IX_MAX_COL_LEN < sum_list (map col_len cs)"
  shows "\<exists>s'. sm_create_index n name cols s = Some (Inl (InvalidColLengthError (int (sum_list (map col_len cs)))), s') \<and>
    sm_create_index n name cols s' = Some (Inl (IndexExistsError name cols), s')"
proof -
  let ?tl = "map (\<lambda>c. (col_type c, col_len c)) cs"
  have m: "map snd ?tl = map col_len cs" by (simp add: comp_def)
  have "create_index ?tl = Inl (InvalidColLengthError (int (sum_list (map col_len cs))))" using assms(4) unfolding create_index_def m by (simp add: Let_def)
  then show ?thesis using assms(1-3) by (simp add: sm_create_index_def throw_def Let_def)
qed

end
