(* ===== verification/Spec2Isabelle.thy ===== *)
theory Spec2Isabelle
  imports Buffer_Pool Rm_Scan Log_Recovery Deadlock_Detector Exec_Update Exec_Sort Exec_Agg Sm_Manager
begin

text \<open>
  A verification library for the RMDB database kernel (\<^verbatim>\<open>src/src\<close>): a relational database with a buffer pool, record files,
  B+ tree indexes, a write-ahead log, multi-version transactions and query executors that pull rows from each other.

  \<^bold>\<open>The program.\<close> The disk manager reads and writes pages of open files; the buffer pool keeps some of them in frames and chooses a
  frame to reuse with a replacer. A table is a record file: pages with a bitmap and slots of one size, reached through the pool. An index is a
  file of B+ tree nodes, reached through a pool too. The catalogue names the tables, their columns and their indexes. Executors
  read rows from record files and indexes, filter, join, project and sort them; those of the insert, delete and update statements change a record
  file and its indexes together and tell the version manager, which keeps a chain of versions for each row, and the lock manager.
  The transaction manager begins, commits and aborts; what is done is logged, and after a crash the log is read, repeated and the
  unfinished part taken back.

  \<^bold>\<open>The theories and the code.\<close> Files are under \<^verbatim>\<open>src/src\<close>.

  \<^item> Shared: \<open>Rmdb_Prelude\<close> (\<^verbatim>\<open>common/config.h\<close>, \<^verbatim>\<open>defs.h\<close>, \<^verbatim>\<open>errors.h\<close>: identifiers, constants, exceptions as values, rule
    collections), \<open>Bytes\<close> (buffers, little-endian integers), \<open>Float32\<close> (casts between \<^verbatim>\<open>int\<close> and \<^verbatim>\<open>float\<close> on the bytes of an IEEE single).
  \<^item> Storage: \<open>Disk\<close> (\<^verbatim>\<open>storage/disk_manager.cpp\<close>), \<open>Replacers\<close> (\<^verbatim>\<open>replacer/\<close>), \<open>Page_Store\<close> (what the pool promises), \<open>Buffer_Pool\<close>
    (\<^verbatim>\<open>storage/buffer_pool_manager.cpp\<close>).
  \<^item> Record files: \<open>Rm_Bitmap\<close>, \<open>Rm_Page\<close>, \<open>Rm_File\<close>, \<open>Rm_Pages\<close> (its operations when the chain of free pages is not intact, as after a
    crash), \<open>Rm_Scan\<close>, \<open>Mvcc_Map\<close> (\<^verbatim>\<open>record/\<close>).
  \<^item> Log and recovery: \<open>Log_Records\<close>, \<open>Log_Manager\<close>, \<open>Log_Recovery\<close> (\<^verbatim>\<open>recovery/\<close>).
  \<^item> Transactions: \<open>Version_Chains\<close>, \<open>Txn_Defs\<close>, \<open>Mvcc_Manager\<close>, \<open>Lock_Manager\<close>, \<open>Transactions\<close>, \<open>Deadlock_Detector\<close>
    (\<^verbatim>\<open>transaction/\<close>).
  \<^item> Index: \<open>Ix_Defs\<close> (header, key comparison), \<open>Ix_Node\<close> (a node), \<open>Ix_Tree\<close> (the operations on the tree), \<open>Ix_Inv\<close>, \<open>Ix_Insert\<close>,
    \<open>Ix_Delete\<close>, \<open>Ix_Leaf\<close> (what they keep), \<open>Ix_Index\<close> (the index manager and sequences of operations), \<open>Ix_Scan\<close> (\<^verbatim>\<open>index/\<close>).
  \<^item> Values and catalogue: \<open>Values\<close> (\<^verbatim>\<open>common/common.h\<close>), \<open>Sm_Meta\<close> (\<^verbatim>\<open>system/sm_meta.h\<close>), \<open>Sm_Manager\<close> (\<^verbatim>\<open>system/sm_manager.cpp\<close>).
  \<^item> Executors: \<open>Exec_Cond\<close> (check and evaluation of conditions), \<open>Exec_Source\<close> (the executor interface and the sequential scan),
    \<open>Exec_Index_Scan\<close>, \<open>Exec_Dml\<close> (insert, delete), \<open>Exec_Expr\<close> and \<open>Exec_Update\<close>, \<open>Exec_Join\<close>, \<open>Exec_Project\<close>, \<open>Exec_Sort\<close>,
    \<open>Exec_Group\<close> and \<open>Exec_Agg\<close> (grouping and aggregates) (\<^verbatim>\<open>execution/\<close> and the checks of where clauses and of aggregates in
    \<^verbatim>\<open>analyze/analyze.cpp\<close>).

  A class is a record of its members and a method a function on the state that returns it changed; a method that may throw returns a
  sum with the exception, and in the executors and the tree \<^term>\<open>None\<close> is undefined behaviour or fuel that ran out. Methods
  that hold a latch for their whole body are single steps.

  \<^bold>\<open>Interfaces.\<close> Where a component relies on another, the contract is a locale that the model of the provider interprets:
  \<open>replacer\<close> (LRU, CLOCK and their dispatch), \<open>page_store_impl\<close> (the pool for record files and indexes), \<open>record_store\<close> (record
  files), \<open>ordered_keys\<close> (comparison of keys and of values), \<open>step_refinement\<close> (sequences of index operations), \<open>row_source\<close> (the executor
  interface: sequential and index scan; joins and projections of sources by \<open>join_of\<close>, \<open>project_of\<close> and their sublocales, aggregates by
  \<open>agg_output\<close>), \<open>std_sort\<close>
  (what the standard says of \<^verbatim>\<open>std::sort\<close>; insertion sort satisfies it).

  \<^bold>\<open>What is shown.\<close>

  \<^item> The pool refines a store of pages with pins; a page that is pinned is not evicted.
  \<^item> A record file is a finite map from record ids to records, a scan enumerates its domain once each, and creating it computes a layout that
    fits in a page.
  \<^item> The B+ tree stays well formed under insertion and deletion and is a finite map from keys to record ids; a range scan returns the entries
    between its bounds in order.
  \<^item> A transaction reads the newest version committed before it began, the same each time; commit publishes, rollback and abort restore; granted
    locks are compatible.
  \<^item> A log record the program builds has the length its constructor computes and is read back as written; the analysis of a log of less than 2 GiB ends
    and finds every record (of two with one LSN the later is read); redo gives every row its last logged value, whichever changes had reached
    the disk.
  \<^item> The two evaluations of conditions are the comparison of values, for literals that were not converted and columns of one type, without NaNs and
    integers above \<open>2 ^ 24\<close>; scans, joins, projections and sorts return the rows of the relational
    operation, and are composed through \<open>row_source\<close>. A grouped query has one result for each key, whatever the hash table does, the aggregates
    are those of the rows of the group, and streaming them gives the same, except for averages and for the index shortcut of \<^verbatim>\<open>MIN\<close> and \<^verbatim>\<open>MAX\<close>
    on rows that are not in the order of the column. An expression with a type has its value on the values of the columns.
  \<^item> Insert and update executors refine a table with unique keys, a new index covers the rows of its table, and after any sequence
    of these statements the indexes and the record file still agree (this theory).
  \<^item> Where the code does not do what it means to (a deletion leaves the row for sequential scans, a join begun a second time is empty, a sort over a
    join repeats one row, \<^verbatim>\<open>MIN\<close> of the last column of an index is that of the first row, and others) a lemma on the model says what it does.

  \<^bold>\<open>Bounds and fuel.\<close> The searches in a version chain stop after 1000 versions as the code does. The loops of the tree have the number of pages
  of the file plus one as fuel, which a well-formed tree never uses up (its height is less than its number of pages). \<open>analyze\<close> has one round for each
  record and two more; the search of the wait-for graph the number of transactions plus one; both are shown to be enough. A
  record scan has fuel for more positions than there are records; \<open>sq_fuel\<close>, \<open>is_fuel\<close>, \<open>jn_fuel\<close> and \<open>so_fuel\<close> bound the loop of one
  call of an executor, and the theorems ask for no more than the number of rows (of pairs of rows for a join) and say that the call returns. Page
  numbers are below \<open>2 ^ 31\<close> where a file grows; other page numbers and pin counts are unbounded here and \<^verbatim>\<open>int\<close>s in the code.

  \<^bold>\<open>Not modelled.\<close> The scanner and parser (generated from their grammars), the rest of the analyser, the planner, the optimiser and the portal
  (transformations of syntax trees and plans, dispatch), bulk loading and the TPC-C helpers,
  the server loop and the client (sockets, signals, threads), printing, statistics and timers, opening and dropping
  a database (directory and shell calls), the executors that no plan node builds, and the tests with their vendored framework. Latches appear as atomic steps;
  data races between methods that do not hold one are outside the model. A pool without a free frame is modelled in \<open>Buffer_Pool\<close>; the tree
  takes every fetch to succeed.
\<close>

section \<open>Statements on a table\<close>

text \<open>Indexes whose columns lie in a row of \<open>n\<close> bytes and hold no floats: every row has a key.\<close>

definition plain_indexes :: "TabMeta \<Rightarrow> nat \<Rightarrow> bool" where
  "plain_indexes tab n \<longleftrightarrow> (\<forall>(name, im) \<in> set (tab_indexes tab). im_col_num im = length (im_cols im) \<and> sum_list (map col_len (im_cols im)) = im_col_tot_len im \<and>
     (\<forall>c \<in> set (im_cols im). col_type c \<noteq> TYPE_FLOAT \<and> (col_type c = TYPE_INT \<longrightarrow> col_len c = 4) \<and> col_offset c + col_len c \<le> n))"

lemma plain_key_ok:
  assumes "\<forall>c \<in> set cs. col_type c \<noteq> TYPE_FLOAT \<and> (col_type c = TYPE_INT \<longrightarrow> col_len c = 4) \<and> col_offset c + col_len c \<le> length r"
  shows "key_ok (map col_type cs) (map col_len cs) (concat (map (\<lambda>c. read_bytes (col_offset c) (col_len c) r) cs))"
  using assms
proof (induction cs)
  case (Cons c cs)
  have "col_type c = TYPE_INT \<or> col_type c = TYPE_STRING" using Cons.prems by (cases "col_type c") auto
  then show ?case using Cons by auto
qed simp

lemma plain_key_fits:
  assumes "plain_indexes tab (length r)" "(name, im) \<in> set (tab_indexes tab)"
  shows "key_fits im r"
proof -
  have k: "im_col_num im = length (im_cols im)" "sum_list (map col_len (im_cols im)) = im_col_tot_len im"
    "\<forall>c \<in> set (im_cols im). col_type c \<noteq> TYPE_FLOAT \<and> (col_type c = TYPE_INT \<longrightarrow> col_len c = 4) \<and> col_offset c + col_len c \<le> length r"
    using assms by (auto simp: plain_indexes_def)
  have "key_ok (map col_type (im_cols im)) (map col_len (im_cols im)) (row_key im r)" using plain_key_ok [OF k(3)] by (simp add: row_key_def k(1))
  then show ?thesis using k by (simp add: key_fits_def build_key_def)
qed

text \<open>A statement on a table: an insertion, whatever its result, and an update of a stored row that succeeds; an update that is refused has the
  transaction aborted. The record file has room for one page number more.\<close>

inductive dml_step :: "(nat \<Rightarrow> bytes) \<Rightarrow> dml_exec \<Rightarrow> dml_state \<Rightarrow> dml_state \<Rightarrow> bool" for junk x where
  insertion: "map_of (ds_fhs s) (dx_name x) = Some f \<Longrightarrow> num_pages (rf_hdr f) + 1 < 2 ^ 31 \<Longrightarrow> insert_next junk x vals s = Some (res, s') \<Longrightarrow> dml_step junk x s s'"
| update: "map_of (ds_fhs s) (dx_name x) = Some f \<Longrightarrow> file_records f rid = Some old \<Longrightarrow> update_row x scs rid old s = Some (Inr (), s') \<Longrightarrow> dml_step junk x s s'"

inductive_cases dml_stepE: "dml_step junk x s s'"

definition table_inv :: "dml_exec \<Rightarrow> nat \<Rightarrow> dml_state \<Rightarrow> bool" where
  "table_inv x n s \<longleftrightarrow> (\<exists>rows f. table_rel x s rows \<and> map_of (ds_fhs s) (dx_name x) = Some f \<and> record_size (rf_hdr f) = n)"

lemma table_inv_row:
  assumes "table_rel x s rows" "rows rid = Some r" "length r = n"
  shows "table_inv x n s"
proof -
  obtain f where f: "map_of (ds_fhs s) (dx_name x) = Some f" "file_inv f" "file_records f = rows" using assms(1) by (auto simp: table_rel_def)
  have "record_size (rf_hdr f) = n" using stored_length [OF f(2)] f(3) assms(2,3) by auto
  then show ?thesis using assms(1) f(1) unfolding table_inv_def by blast
qed

lemma insertion_keeps:
  assumes rel: "table_rel x s rows" and f: "map_of (ds_fhs s) (dx_name x) = Some f" "record_size (rf_hdr f) = n" "num_pages (rf_hdr f) + 1 < 2 ^ 31"
    and junk: "\<And>n. length (junk n) = n" and plain: "plain_indexes (dx_tab x) n" and ins: "insert_next junk x vals s = Some (res, s')"
  shows "table_inv x n s'"
proof -
  have same: "table_inv x n s" using rel f(1,2) unfolding table_inv_def by blast
  have size: "on_file (dx_name x) (\<lambda>f. (Inr (record_size (rf_hdr f)), f)) s = Some (Inr n, s)" by (rule on_file_same [OF f(1)]) (simp add: f(2))
  show ?thesis
  proof (cases "fill_record (tab_cols (dx_tab x)) vals (junk n)")
    case None
    then show ?thesis using ins by (simp add: insert_next_def size lift_checked_def run_bind_def)
  next
    case (Some a)
    show ?thesis
    proof (cases a)
      case (Inl e)
      then have "s' = s" using ins Some by (simp add: insert_next_def size lift_checked_def)
      then show ?thesis using same by simp
    next
      case (Inr r)
      have len: "length r = n" using fill_record_length [of _ vals "junk n" r] Some Inr junk by simp
      have fits: "\<forall>(name, im) \<in> set (tab_indexes (dx_tab x)). key_fits im r" using plain_key_fits plain len by blast
      have fill: "fill_record (tab_cols (dx_tab x)) vals (junk (record_size (rf_hdr f))) = Some (Inr r)" using Some Inr f(2) by simp
      note ok = insert_next_ok [where junk = junk, OF rel f(1) fill junk fits f(3)]
      show ?thesis
      proof (cases "taken (tab_indexes (dx_tab x)) rows r")
        case True
        then show ?thesis using ok ins same by simp
      next
        case False
        then obtain rid where "table_rel x s' (rows(rid \<mapsto> r))" using ok ins by auto
        then show ?thesis using table_inv_row [where rid = rid, OF _ _ len] by simp
      qed
    qed
  qed
qed

lemma update_keeps:
  assumes rel: "table_rel x s rows" and f: "map_of (ds_fhs s) (dx_name x) = Some f" "record_size (rf_hdr f) = n" and old: "file_records f rid = Some old"
    and plain: "plain_indexes (dx_tab x) n" "index_cols_in (dx_tab x)" and upd: "update_row x scs rid old s = Some (Inr (), s')"
  shows "table_inv x n s'"
proof -
  have t: "file_inv f" "file_records f = rows" using rel f(1) by (auto simp: table_rel_def)
  have len: "length old = n" using stored_length [OF t(1) old] f(2) by simp
  obtain new where new: "apply_sets (dx_tab x) scs old = Some (Inr new)"
    using upd by (auto simp: update_row_def lift_checked_def run_bind_def Let_def split: option.splits sum.splits)
  have len': "length new = n" using apply_sets_length [OF new] len by simp
  have fits: "\<forall>(name, im) \<in> set (tab_indexes (dx_tab x)). key_fits im old \<and> key_fits im new"
    using plain_key_fits [of "dx_tab x" old] plain_key_fits [of "dx_tab x" new] plain(1) len len' by auto
  have "rows rid = Some old" using old t(2) by simp
  then have "table_rel x s' (rows(rid \<mapsto> new))" using update_row_ok [where rows = rows and rid = rid, OF rel _ new plain(2) fits] upd by (auto split: sum.splits)
  then show ?thesis using table_inv_row [where rid = rid, OF _ _ len'] by simp
qed

text \<open>C8: after any statements on a table, insertions that succeed or are refused and updates that succeed, each index of the table has exactly the keys
  of the rows that are stored, no two rows have one key, and the record file is well formed: the record file, the B+ trees, the
  catalogue and the executors keep a table and its indexes together. The columns of the indexes are \<^verbatim>\<open>INT\<close> or \<^verbatim>\<open>CHAR\<close> columns inside the
  row (\<open>plain_indexes\<close>): an index on a \<^verbatim>\<open>FLOAT\<close> column, whose keys may be NaNs, is not covered.\<close>

theorem statements_keep_table:
  assumes "(dml_step junk x)\<^sup>*\<^sup>* s s'" "table_inv x n s" "\<And>n. length (junk n) = n" "plain_indexes (dx_tab x) n" "index_cols_in (dx_tab x)"
  shows "\<exists>rows. table_rel x s' rows \<and> (\<forall>(name, im) \<in> set (tab_indexes (dx_tab x)). inj_on (\<lambda>rid. rank_in im (the (rows rid))) (dom rows))"
proof -
  have "table_inv x n s'" using assms(1)
  proof (induction rule: rtranclp_induct)
    case base
    then show ?case using assms(2) .
  next
    case (step t t')
    obtain rows f where t: "table_rel x t rows" "map_of (ds_fhs t) (dx_name x) = Some f" "record_size (rf_hdr f) = n" using step.IH unfolding table_inv_def by blast
    show ?case using step.hyps(2)
    proof (cases rule: dml_step.cases)
      case (insertion f' vals res)
      then show ?thesis using insertion_keeps [where junk = junk, OF t _ assms(3,4)] t(2) by simp
    next
      case (update f' rid old scs)
      then show ?thesis using update_keeps [OF t _ assms(4,5)] t(2) by simp
    qed
  qed
  then obtain rows where rel: "table_rel x s' rows" unfolding table_inv_def by blast
  have "inj_on (\<lambda>rid. rank_in im (the (rows rid))) (dom rows)" if mem: "(name, im) \<in> set (tab_indexes (dx_tab x))" for name im
  proof -
    obtain ix where "index_of im ix rows" using rel mem unfolding table_rel_def indexed_def by fastforce
    then show ?thesis using index_of_unique by (fastforce intro!: inj_onI)
  qed
  then show ?thesis using rel by blast
qed

theorem statements_keep_table_witness:
  "\<exists>rid s' rows. insert_next (\<lambda>n. replicate n 0) example_exec [set_int 7 Value_default] example_dml = Some (Inr rid, s') \<and> table_rel example_exec s' rows"
proof -
  note e = example_table
  have fits: "\<forall>(name, im) \<in> set (tab_indexes (dx_tab example_exec)). key_fits im (enc_i32 7)" using example_fits by (simp add: example_exec_def)
  have fill: "fill_record (tab_cols (dx_tab example_exec)) [set_int 7 Value_default] (replicate (record_size (rf_hdr (example_file 4))) 0) = Some (Inr (enc_i32 7))"
    using example_fill e(3) by simp
  obtain rid s' where s': "insert_next (\<lambda>n. replicate n 0) example_exec [set_int 7 Value_default] example_dml = Some (Inr rid, s')"
    using insert_next_ok [where junk = "\<lambda>n. replicate n 0", OF e(1,2) fill _ fits e(4)] by (auto simp: taken_def)
  have "dml_step (\<lambda>n. replicate n 0) example_exec example_dml s'" by (rule dml_step.insertion [OF e(2,4) s'])
  moreover have "table_inv example_exec 4 example_dml" using e unfolding table_inv_def by blast
  moreover have "plain_indexes (dx_tab example_exec) 4" "index_cols_in (dx_tab example_exec)"
    by (simp_all add: plain_indexes_def index_cols_in_def example_exec_def example_index_def example_col_def)
  ultimately show ?thesis
    using statements_keep_table [where junk = "\<lambda>n. replicate n 0" and s = example_dml and s' = s' and x = example_exec and n = 4] s' by auto
qed

end
